(* ===== verification/Prelude.thy ===== *)
theory Prelude
  imports Main "HOL-Library.Word" "HOL-Library.List_Lexorder"
begin

text \<open>
  Shared vocabulary of the development: machine integers and byte strings, fallible
  computations, big-endian integers, slices and ASCII classes, and the interface
  \<open>prefix_codec\<close> that every self-delimiting binary format of the program satisfies.

  A Rust \<open>&str\<close> is its UTF-8 byte sequence, as every string operation of the sources works on
  bytes (\<open>len\<close>, \<open>as_bytes\<close>, byte-wise \<open>cmp\<close>). \<open>Result<T, E>\<close> is the sum \<open>E + T\<close> with \<open>Inl\<close>
  for \<open>Err\<close>. \<open>usize\<close> is 64 bits wide; lengths and indices are naturals.
\<close>

unbundle bit_operations_syntax

named_theorems codec_simps \<open>round trips of the byte formats\<close>
named_theorems read_simps \<open>what the primitive reads of the decoder return\<close>

section \<open>Machine integers and byte strings\<close>

type_synonym u8 = "8 word"
type_synonym u16 = "16 word"
type_synonym u32 = "32 word"
type_synonym u64 = "64 word"
type_synonym bytes = "u8 list"
type_synonym str = "u8 list"

text \<open>A string literal of the source as bytes.\<close>

definition lit :: "string \<Rightarrow> str" where
  "lit s = map of_char s"

lemma lit_Nil [simp]: "lit [] = []"
  and lit_Cons [simp]: "lit (c # cs) = of_char c # lit cs"
  by (simp_all add: lit_def)

lemma length_lit [simp]: "length (lit s) = length s"
  by (simp add: lit_def)

section \<open>Fallible computations\<close>

text \<open>Rust's \<open>?\<close> and \<open>and_then\<close>: stop at the first error.\<close>

definition and_then :: "'e + 'a \<Rightarrow> ('a \<Rightarrow> 'e + 'b) \<Rightarrow> 'e + 'b" where
  "and_then m f = (case m of Inl e \<Rightarrow> Inl e | Inr x \<Rightarrow> f x)"

definition map_err :: "('e \<Rightarrow> 'f) \<Rightarrow> 'e + 'a \<Rightarrow> 'f + 'a" where
  "map_err g m = (case m of Inl e \<Rightarrow> Inl (g e) | Inr x \<Rightarrow> Inr x)"

definition ok_or :: "'e \<Rightarrow> 'a option \<Rightarrow> 'e + 'a" where
  "ok_or e m = (case m of None \<Rightarrow> Inl e | Some x \<Rightarrow> Inr x)"

definition is_ok :: "'e + 'a \<Rightarrow> bool" where
  "is_ok m = (case m of Inl _ \<Rightarrow> False | Inr _ \<Rightarrow> True)"

lemma and_then_simps [simp]: "and_then (Inl e) f = Inl e" "and_then (Inr x) f = f x"
  by (simp_all add: and_then_def)

lemma and_then_cong [fundef_cong]:
  "m = m' \<Longrightarrow> (\<And>x. m' = Inr x \<Longrightarrow> f x = g x) \<Longrightarrow> and_then m f = and_then m' g"
  by (simp add: and_then_def split: sum.splits)

lemma and_then_eq_Inr:
  "and_then m f = Inr y \<longleftrightarrow> (\<exists>x. m = Inr x \<and> f x = Inr y)"
  by (cases m) auto

lemma and_then_eq_Inl:
  "and_then m f = Inl e \<longleftrightarrow> m = Inl e \<or> (\<exists>x. m = Inr x \<and> f x = Inl e)"
  by (cases m) auto

lemma and_thenE [elim!]:
  assumes "and_then m f = Inr y"
  obtains x where "m = Inr x" "f x = Inr y"
  using assms by (auto simp: and_then_eq_Inr)

lemma and_then_assoc: "and_then (and_then m f) g = and_then m (\<lambda>x. and_then (f x) g)"
  by (cases m) simp_all

lemma map_err_simps [simp]:
  "map_err g (Inl e) = Inl (g e)" "map_err g (Inr x) = Inr x"
  by (simp_all add: map_err_def)

lemma map_err_eq_Inr [simp]: "map_err g m = Inr x \<longleftrightarrow> m = Inr x"
  by (cases m) simp_all

lemma ok_or_simps [simp]: "ok_or e None = Inl e" "ok_or e (Some x) = Inr x"
  by (simp_all add: ok_or_def)

lemma ok_or_eq_Inr [simp]: "ok_or e m = Inr x \<longleftrightarrow> m = Some x"
  by (cases m) simp_all

lemma is_ok_simps [simp]: "\<not> is_ok (Inl e)" "is_ok (Inr x)"
  by (simp_all add: is_ok_def)

section \<open>Slices\<close>

text \<open>\<open>xs[i..j]\<close>.\<close>

definition slice :: "'a list \<Rightarrow> nat \<Rightarrow> nat \<Rightarrow> 'a list" where
  "slice xs i j = take (j - i) (drop i xs)"

lemma length_slice [simp]: "j \<le> length xs \<Longrightarrow> length (slice xs i j) = j - i"
  by (simp add: slice_def)

lemma slice_to_end: "slice xs i (length xs) = drop i xs"
  by (simp add: slice_def)

text \<open>\<open>iter().position(p)\<close>: the first index whose element satisfies \<open>p\<close>.\<close>

fun position :: "('a \<Rightarrow> bool) \<Rightarrow> 'a list \<Rightarrow> nat option" where
  "position p [] = None"
| "position p (x # xs) = (if p x then Some 0 else map_option Suc (position p xs))"

lemma position_None: "position p xs = None \<longleftrightarrow> (\<forall>x \<in> set xs. \<not> p x)"
  by (induction xs) auto

lemma position_Some:
  "position p xs = Some i \<longleftrightarrow>
     i < length xs \<and> p (xs ! i) \<and> takeWhile (\<lambda>x. \<not> p x) xs = take i xs"
proof (induction xs arbitrary: i)
  case Nil
  then show ?case by simp
next
  case (Cons x xs)
  then show ?case by (cases i) auto
qed

lemma position_takeWhile:
  "position p xs = (if \<exists>x \<in> set xs. p x then Some (length (takeWhile (\<lambda>x. \<not> p x) xs)) else None)"
  by (induction xs) auto

text \<open>\<open>as_chunks::<k>()\<close>: the whole \<open>k\<close>-element chunks and the remainder.\<close>

function as_chunks :: "nat \<Rightarrow> 'a list \<Rightarrow> 'a list list \<times> 'a list" where
  "as_chunks k xs =
     (if k = 0 \<or> length xs < k then ([], xs)
      else let (cs, r) = as_chunks k (drop k xs) in (take k xs # cs, r))"
  by pat_completeness auto
termination
  by (relation "measure (\<lambda>(k, xs). length xs)") auto

declare as_chunks.simps [simp del]

lemma as_chunks_short: "length xs < k \<Longrightarrow> as_chunks k xs = ([], xs)"
  by (simp add: as_chunks.simps)

lemma as_chunks_long:
  "0 < k \<Longrightarrow> k \<le> length xs \<Longrightarrow>
     as_chunks k xs = (take k xs # fst (as_chunks k (drop k xs)), snd (as_chunks k (drop k xs)))"
  by (subst as_chunks.simps) (simp add: case_prod_beta Let_def)

lemma as_chunks_correct:
  assumes "0 < k"
  shows "concat (fst (as_chunks k xs)) @ snd (as_chunks k xs) = xs \<and>
    (\<forall>c \<in> set (fst (as_chunks k xs)). length c = k) \<and>
    length (snd (as_chunks k xs)) = length xs mod k"
  using assms
proof (induction k xs rule: as_chunks.induct)
  case (1 k xs)
  show ?case
  proof (cases "length xs < k")
    case True
    then show ?thesis by (simp add: as_chunks_short)
  next
    case False
    have IH: "concat (fst (as_chunks k (drop k xs))) @ snd (as_chunks k (drop k xs)) = drop k xs"
      "\<forall>c \<in> set (fst (as_chunks k (drop k xs))). length c = k"
      "length (snd (as_chunks k (drop k xs))) = length (drop k xs) mod k"
      using False 1 by blast+
    have eq: "as_chunks k xs =
        (take k xs # fst (as_chunks k (drop k xs)), snd (as_chunks k (drop k xs)))"
      using False "1.prems" by (intro as_chunks_long) simp_all
    have "length xs mod k = (length xs - k) mod k"
      by (rule le_mod_geq) (use False in simp)
    then have "length (drop k xs) mod k = length xs mod k"
      by (simp only: length_drop)
    with IH(3) have "length (snd (as_chunks k xs)) = length xs mod k"
      by (simp only: eq snd_conv)
    moreover have "\<forall>c \<in> set (fst (as_chunks k xs)). length c = k"
    proof -
      have "length (take k xs) = k" using False by simp
      with IH(2) show ?thesis by (simp only: eq fst_conv list.set ball_simps)
    qed
    moreover have "concat (fst (as_chunks k xs)) @ snd (as_chunks k xs) = xs"
      using IH(1) by (simp only: eq fst_conv snd_conv concat.simps append_assoc append_take_drop_id)
    ultimately show ?thesis by blast
  qed
qed

lemma as_chunks_append:
  assumes "0 < k" and "\<forall>c \<in> set cs. length c = k"
  shows "as_chunks k (concat cs @ ys) = (cs @ fst (as_chunks k ys), snd (as_chunks k ys))"
  using assms(2)
proof (induction cs)
  case Nil
  then show ?case by simp
next
  case (Cons c cs)
  have "as_chunks k (c @ (concat cs @ ys)) =
      (take k (c @ (concat cs @ ys)) # fst (as_chunks k (drop k (c @ (concat cs @ ys)))),
       snd (as_chunks k (drop k (c @ (concat cs @ ys)))))"
    by (rule as_chunks_long) (use assms(1) Cons.prems in auto)
  moreover have "take k (c @ (concat cs @ ys)) = c" "drop k (c @ (concat cs @ ys)) = concat cs @ ys"
    using Cons.prems by simp_all
  ultimately show ?case using Cons by simp
qed

section \<open>ASCII classes\<close>

definition is_ascii_lowercase :: "u8 \<Rightarrow> bool" where
  "is_ascii_lowercase b \<longleftrightarrow> 97 \<le> b \<and> b \<le> 122"

definition is_ascii_uppercase :: "u8 \<Rightarrow> bool" where
  "is_ascii_uppercase b \<longleftrightarrow> 65 \<le> b \<and> b \<le> 90"

definition is_ascii_digit :: "u8 \<Rightarrow> bool" where
  "is_ascii_digit b \<longleftrightarrow> 48 \<le> b \<and> b \<le> 57"

definition is_ascii_alphabetic :: "u8 \<Rightarrow> bool" where
  "is_ascii_alphabetic b \<longleftrightarrow> is_ascii_lowercase b \<or> is_ascii_uppercase b"

definition is_ascii_alphanumeric :: "u8 \<Rightarrow> bool" where
  "is_ascii_alphanumeric b \<longleftrightarrow> is_ascii_alphabetic b \<or> is_ascii_digit b"

definition is_ascii :: "u8 \<Rightarrow> bool" where
  "is_ascii b \<longleftrightarrow> b < 128"

definition to_ascii_lowercase :: "u8 \<Rightarrow> u8" where
  "to_ascii_lowercase b = (if is_ascii_uppercase b then b + 32 else b)"

definition to_ascii_uppercase :: "u8 \<Rightarrow> u8" where
  "to_ascii_uppercase b = (if is_ascii_lowercase b then b - 32 else b)"

lemmas ascii_defs = is_ascii_lowercase_def is_ascii_uppercase_def is_ascii_digit_def
  is_ascii_alphabetic_def is_ascii_alphanumeric_def is_ascii_def

lemma ascii_alphanumeric_is_ascii: "is_ascii_alphanumeric b \<Longrightarrow> is_ascii b"
  by (auto simp: ascii_defs word_le_nat_alt word_less_nat_alt)

lemma to_ascii_lowercase_idem [simp]:
  "to_ascii_lowercase (to_ascii_lowercase b) = to_ascii_lowercase b"
  by (auto simp: to_ascii_lowercase_def is_ascii_uppercase_def word_le_nat_alt unat_word_ariths)

lemma alphabetic_to_lowercase [simp]:
  "is_ascii_alphabetic (to_ascii_lowercase b) = is_ascii_alphabetic b"
  by (auto simp: to_ascii_lowercase_def ascii_defs word_le_nat_alt unat_word_ariths)

lemma digit_to_lowercase [simp]:
  "is_ascii_digit (to_ascii_lowercase b) = is_ascii_digit b"
  by (auto simp: to_ascii_lowercase_def ascii_defs word_le_nat_alt unat_word_ariths)

lemma alphanumeric_to_lowercase [simp]:
  "is_ascii_alphanumeric (to_ascii_lowercase b) = is_ascii_alphanumeric b"
  by (simp add: is_ascii_alphanumeric_def)

lemma is_ascii_to_lowercase [simp]: "is_ascii (to_ascii_lowercase b) = is_ascii b"
  by (auto simp: to_ascii_lowercase_def ascii_defs word_le_nat_alt word_less_nat_alt unat_word_ariths)

section \<open>UTF-8\<close>

text \<open>\<open>std::str::from_utf8(..).is_ok()\<close>: the well-formed byte sequences of RFC 3629.\<close>

definition utf8_cont :: "u8 \<Rightarrow> bool" where
  "utf8_cont b \<longleftrightarrow> 0x80 \<le> b \<and> b \<le> 0xbf"

fun utf8_valid :: "bytes \<Rightarrow> bool" where
  "utf8_valid [] \<longleftrightarrow> True"
| "utf8_valid (b # bs) \<longleftrightarrow>
     (if b < 0x80 then utf8_valid bs
      else if 0xc2 \<le> b \<and> b \<le> 0xdf then
        (case bs of c # bs \<Rightarrow> utf8_cont c \<and> utf8_valid bs | _ \<Rightarrow> False)
      else if 0xe0 \<le> b \<and> b \<le> 0xef then
        (case bs of c # d # bs \<Rightarrow>
           (if b = 0xe0 then 0xa0 \<le> c \<and> c \<le> 0xbf else if b = 0xed then 0x80 \<le> c \<and> c \<le> 0x9f else utf8_cont c) \<and>
           utf8_cont d \<and> utf8_valid bs
         | _ \<Rightarrow> False)
      else if 0xf0 \<le> b \<and> b \<le> 0xf4 then
        (case bs of c # d # e # bs \<Rightarrow>
           (if b = 0xf0 then 0x90 \<le> c \<and> c \<le> 0xbf else if b = 0xf4 then 0x80 \<le> c \<and> c \<le> 0x8f else utf8_cont c) \<and>
           utf8_cont d \<and> utf8_cont e \<and> utf8_valid bs
         | _ \<Rightarrow> False)
      else False)"

lemma utf8_valid_ascii: "\<forall>b \<in> set bs. is_ascii b \<Longrightarrow> utf8_valid bs"
  by (induction bs) (simp_all add: is_ascii_def)

section \<open>Big-endian integers\<close>

text \<open>\<open>to_be_bytes\<close> of a \<open>k\<close>-byte integer and \<open>from_be_bytes\<close>, as Rust's integer types have them.\<close>

definition to_be_bytes :: "nat \<Rightarrow> 'a::len word \<Rightarrow> bytes" where
  "to_be_bytes k w = map (\<lambda>i. ucast (drop_bit (8 * i) w)) (rev [0..<k])"

definition from_be_bytes :: "bytes \<Rightarrow> 'a::len word" where
  "from_be_bytes bs = foldl (\<lambda>a b. push_bit 8 a OR ucast b) 0 bs"

text \<open>The same on naturals, where the arithmetic is done.\<close>

fun be_nat :: "nat \<Rightarrow> nat \<Rightarrow> bytes" where
  "be_nat 0 n = []"
| "be_nat (Suc k) n = of_nat (n div 256 ^ k) # be_nat k n"

fun nat_be :: "bytes \<Rightarrow> nat" where
  "nat_be [] = 0"
| "nat_be (b # bs) = unat b * 256 ^ length bs + nat_be bs"

lemma length_be_nat [simp]: "length (be_nat k n) = k"
  by (induction k) simp_all

lemma length_to_be_bytes [simp]: "length (to_be_bytes k w) = k"
  by (simp add: to_be_bytes_def)

lemma unat_u8_less [simp]: "unat (b :: u8) < 256"
  using unsigned_less [of b, where ?'a = nat] by simp

lemma nat_be_less: "nat_be bs < 256 ^ length bs"
proof (induction bs)
  case Nil
  then show ?case by simp
next
  case (Cons b bs)
  have "Suc (unat b) \<le> 256"
    by (simp only: Suc_le_eq unat_u8_less)
  then have "Suc (unat b) * 256 ^ length bs \<le> 256 * 256 ^ length bs"
    by (rule mult_le_mono1)
  then have "256 ^ length bs + unat b * 256 ^ length bs \<le> 256 ^ Suc (length bs)"
    by (simp only: mult_Suc power_Suc)
  with Cons show ?case by (simp only: nat_be.simps list.size add_0_right add_Suc_right)
qed

lemma div_mod_pow:
  assumes "j < k"
  shows "(n mod 256 ^ k) div 256 ^ j mod 256 = n div 256 ^ j mod (256::nat)"
proof -
  from assms obtain m where k: "k = j + Suc m" using less_imp_Suc_add by fastforce
  have "n mod (256 ^ j * 256 ^ Suc m) div 256 ^ j = n div 256 ^ j mod (256::nat) ^ Suc m"
    by (simp only: mod_mult2_eq) simp
  then have "(n mod 256 ^ k) div 256 ^ j mod 256 = n div 256 ^ j mod 256 ^ Suc m mod 256"
    by (simp only: k power_add)
  also have "\<dots> = n div 256 ^ j mod 256"
    by (rule mod_mod_cancel) simp
  finally show ?thesis .
qed

lemma be_nat_mod: "be_nat k (n mod 256 ^ k) = be_nat k n"
proof -
  have *: "be_nat j (n mod 256 ^ k) = be_nat j n" if "j \<le> k" for j
    using that
  proof (induction j)
    case 0
    then show ?case by simp
  next
    case (Suc j)
    have "(n mod 256 ^ k) div 256 ^ j mod 256 = n div 256 ^ j mod 256"
      by (rule div_mod_pow) (use Suc.prems in simp)
    then have "(of_nat ((n mod 256 ^ k) div 256 ^ j) :: u8) = of_nat (n div 256 ^ j)"
      by (simp add: word_of_nat_eq_iff take_bit_eq_mod)
    with Suc show ?case by simp
  qed
  show ?thesis by (rule *) simp
qed

lemma nat_be_be_nat [simp]: "nat_be (be_nat k n) = n mod 256 ^ k"
proof (induction k)
  case 0
  then show ?case by simp
next
  case (Suc k)
  have "n mod (256 ^ k * 256) = 256 ^ k * (n div 256 ^ k mod 256) + n mod 256 ^ k"
    by (rule mod_mult2_eq)
  with Suc show ?case by (simp add: unat_of_nat mult.commute)
qed

lemma be_nat_nat_be [simp]: "be_nat (length bs) (nat_be bs) = bs"
proof (induction bs)
  case Nil
  then show ?case by simp
next
  case (Cons b bs)
  have d: "(unat b * 256 ^ length bs + nat_be bs) div 256 ^ length bs = unat b"
    using nat_be_less [of bs] by simp
  have "be_nat (length bs) (unat b * 256 ^ length bs + nat_be bs) =
      be_nat (length bs) ((unat b * 256 ^ length bs + nat_be bs) mod 256 ^ length bs)"
    by (rule be_nat_mod [symmetric])
  also have "\<dots> = be_nat (length bs) (nat_be bs)"
    by (simp add: be_nat_mod)
  finally show ?case using d Cons by simp
qed

lemma to_be_bytes_be_nat: "to_be_bytes k w = be_nat k (unat w)"
proof (induction k)
  case 0
  then show ?case by (simp add: to_be_bytes_def)
next
  case (Suc k)
  have "(ucast (drop_bit (8 * k) w) :: u8) = of_nat (unat w div 256 ^ k)"
  proof -
    have "unat (drop_bit (8 * k) w) = unat w div 256 ^ k"
      unfolding unat_drop_bit_eq by (simp add: drop_bit_eq_div power_mult)
    then show ?thesis by (metis of_nat_unat)
  qed
  with Suc show ?case by (simp add: to_be_bytes_def)
qed

lemma push_bit_or_ucast:
  "push_bit 8 a OR ucast (b :: u8) = a * 256 + (ucast b :: 'a::len word)"
proof -
  have "push_bit 8 a AND (ucast b :: 'a word) = 0"
    by (rule bit_word_eqI) (auto simp: bit_simps dest: bit_imp_le_length)
  then have "push_bit 8 a + (ucast b :: 'a word) = push_bit 8 a OR ucast b"
    by (simp add: disjunctive_add_eq_or)
  then show ?thesis by (simp add: push_bit_eq_mult)
qed

lemma nat_be_snoc: "nat_be (bs @ [b]) = nat_be bs * 256 + unat b"
  by (induction bs) (simp_all add: algebra_simps)

lemma from_be_bytes_nat_be: "(from_be_bytes bs :: 'a::len word) = of_nat (nat_be bs)"
proof (induction bs rule: rev_induct)
  case Nil
  then show ?case by (simp add: from_be_bytes_def)
next
  case (snoc b bs)
  have "(ucast b :: 'a word) = of_nat (unat b)"
    by simp
  with snoc show ?case
    by (simp add: from_be_bytes_def push_bit_or_ucast nat_be_snoc)
qed

lemma from_to_be_bytes [codec_simps]:
  fixes w :: "'a::len word"
  assumes "unat w < 256 ^ k"
  shows "(from_be_bytes (to_be_bytes k w) :: 'a word) = w"
  using assms by (simp add: from_be_bytes_nat_be to_be_bytes_be_nat)

lemma to_from_be_bytes [codec_simps]:
  assumes "length bs = k" and "256 ^ k \<le> (2::nat) ^ LENGTH('a)"
  shows "to_be_bytes k (from_be_bytes bs :: 'a::len word) = bs"
proof -
  have "nat_be bs < 2 ^ LENGTH('a)"
    using nat_be_less [of bs] assms by simp
  then show ?thesis
    using assms(1) be_nat_nat_be [of bs]
    by (simp add: from_be_bytes_nat_be to_be_bytes_be_nat unat_of_nat)
qed

text \<open>On strings of one length, the big-endian value orders as the bytes do.\<close>

lemma nat_be_less_iff: "length xs = length ys \<Longrightarrow> nat_be xs < nat_be ys \<longleftrightarrow> xs < ys"
proof (induction xs ys rule: list_induct2)
  case Nil
  then show ?case by simp
next
  case (Cons x xs y ys)
  let ?n = "256 ^ length xs :: nat"
  have step: "unat a * ?n + nat_be as < unat b * ?n + nat_be bs"
    if "a < b" "length as = length xs" for a b :: u8 and as bs
  proof -
    have "Suc (unat a) * ?n \<le> unat b * ?n"
      using that(1) by (intro mult_right_mono) (simp_all add: word_less_nat_alt Suc_le_eq)
    with nat_be_less [of as] that(2) show ?thesis by simp
  qed
  consider "x < y" | "x = y" | "y < x" by fastforce
  then show ?case
  proof cases
    case 1
    with step [of x y xs ys] Cons.hyps show ?thesis by simp
  next
    case 2
    with Cons show ?thesis by simp
  next
    case 3
    with step [of y x ys xs] Cons.hyps show ?thesis by (auto dest: less_imp_not_less)
  qed
qed

lemma nat_be_eq_iff: "length xs = length ys \<Longrightarrow> nat_be xs = nat_be ys \<longleftrightarrow> xs = ys"
  by (metis be_nat_nat_be)

lemma be_nat_less_iff: "x < 256 ^ k \<Longrightarrow> y < 256 ^ k \<Longrightarrow> be_nat k x < be_nat k y \<longleftrightarrow> x < y"
  using nat_be_less_iff [of "be_nat k x" "be_nat k y"] by simp

lemma append_less_append_iff:
  fixes u v a b :: "'a::linorder list"
  shows "length u = length v \<Longrightarrow> u @ a < v @ b \<longleftrightarrow> u < v \<or> u = v \<and> a < b"
  by (induction u v rule: list_induct2) auto

section \<open>Comparators\<close>

text \<open>\<open>std::cmp::Ordering\<close>, \<open>Ord::cmp\<close> and the stable \<open>sort_by\<close>.\<close>

datatype ordering = Less | Equal | Greater

definition cmp :: "'a::linorder \<Rightarrow> 'a \<Rightarrow> ordering" where
  "cmp x y = (if x < y then Less else if x = y then Equal else Greater)"

lemma cmp_simps [simp]:
  "cmp x y = Less \<longleftrightarrow> x < y" "cmp x y = Equal \<longleftrightarrow> x = y" "cmp x y = Greater \<longleftrightarrow> y < x"
  by (auto simp: cmp_def)

fun insert_by :: "('a \<Rightarrow> 'a \<Rightarrow> ordering) \<Rightarrow> 'a \<Rightarrow> 'a list \<Rightarrow> 'a list" where
  "insert_by c x [] = [x]"
| "insert_by c x (y # ys) = (if c x y = Greater then y # insert_by c x ys else x # y # ys)"

fun sort_by :: "('a \<Rightarrow> 'a \<Rightarrow> ordering) \<Rightarrow> 'a list \<Rightarrow> 'a list" where
  "sort_by c [] = []"
| "sort_by c (x # xs) = insert_by c x (sort_by c xs)"

lemma set_insert_by [simp]: "set (insert_by c x xs) = insert x (set xs)"
  by (induction xs) auto

lemma set_sort_by [simp]: "set (sort_by c xs) = set xs"
  by (induction xs) auto

lemma length_insert_by [simp]: "length (insert_by c x xs) = Suc (length xs)"
  by (induction xs) auto

lemma length_sort_by [simp]: "length (sort_by c xs) = length xs"
  by (induction xs) auto

lemma size_list_insert_by [simp]: "size_list f (insert_by c x xs) = Suc (f x + size_list f xs)"
  by (induction xs) auto

lemma size_list_sort_by [simp, termination_simp]: "size_list f (sort_by c xs) = size_list f xs"
  by (induction xs) auto

text \<open>The contract of a comparator that decides a linear order.\<close>

locale comparator =
  fixes c :: "'a \<Rightarrow> 'a \<Rightarrow> ordering"
  assumes c_Equal: "c x y = Equal \<longleftrightarrow> x = y"
    and c_flip: "c x y = Less \<longleftrightarrow> c y x = Greater"
    and c_trans: "c x y = Less \<Longrightarrow> c y z = Less \<Longrightarrow> c x z = Less"
begin

lemma c_le_trans: "c x y \<noteq> Greater \<Longrightarrow> c y z \<noteq> Greater \<Longrightarrow> c x z \<noteq> Greater"
  by (metis c_Equal c_flip c_trans ordering.exhaust)

lemma insert_by_sorted:
  "sorted_wrt (\<lambda>a b. c (f a) (f b) \<noteq> Greater) xs \<Longrightarrow>
   sorted_wrt (\<lambda>a b. c (f a) (f b) \<noteq> Greater) (insert_by (\<lambda>a b. c (f a) (f b)) x xs)"
proof (induction xs)
  case Nil
  then show ?case by simp
next
  case (Cons y ys)
  show ?case
  proof (cases "c (f x) (f y) = Greater")
    case True
    then have "c (f y) (f x) \<noteq> Greater"
      by (metis c_flip ordering.distinct(3))
    with True Cons show ?thesis by simp
  next
    case False
    with Cons.prems show ?thesis by (auto dest: c_le_trans [OF False])
  qed
qed

lemma sort_by_sorted:
  "sorted_wrt (\<lambda>a b. c (f a) (f b) \<noteq> Greater) (sort_by (\<lambda>a b. c (f a) (f b)) xs)"
  by (induction xs) (simp_all add: insert_by_sorted)

lemma sort_by_id:
  "sorted_wrt (\<lambda>a b. c (f a) (f b) = Less) xs \<Longrightarrow> sort_by (\<lambda>a b. c (f a) (f b)) xs = xs"
proof (induction xs)
  case Nil
  then show ?case by simp
next
  case (Cons x xs)
  then show ?case by (cases xs) auto
qed

lemma sort_by_strict:
  assumes "distinct (map f xs)"
  shows "sorted_wrt (\<lambda>a b. c (f a) (f b) = Less) (sort_by (\<lambda>a b. c (f a) (f b)) xs)"
proof -
  let ?ys = "sort_by (\<lambda>a b. c (f a) (f b)) xs"
  have "card (f ` set ?ys) = length (map f ?ys)"
    using assms distinct_card [of "map f xs"] by simp
  then have "distinct (map f ?ys)"
    by (intro card_distinct) simp
  then have "sorted_wrt (\<lambda>a b. f a \<noteq> f b) ?ys"
    by (simp add: sorted_wrt_iff_nth_less distinct_conv_nth)
  then have "f (?ys ! i) \<noteq> f (?ys ! j) \<and> c (f (?ys ! i)) (f (?ys ! j)) \<noteq> Greater"
    if "i < j" "j < length ?ys" for i j
    using that sort_by_sorted [of f xs] by (simp only: sorted_wrt_iff_nth_less) blast
  moreover have "c a b = Less" if "a \<noteq> b \<and> c a b \<noteq> Greater" for a b
    using that by (cases "c a b") (simp_all add: c_Equal)
  ultimately show ?thesis
    unfolding sorted_wrt_iff_nth_less by blast
qed

end

interpretation ord_cmp: comparator "cmp :: 'a::linorder \<Rightarrow> 'a \<Rightarrow> ordering"
  by unfold_locales auto

text \<open>\<open>windows(2).all(..)\<close> over a transitive relation is sortedness.\<close>

fun all_windows :: "('a \<Rightarrow> 'a \<Rightarrow> bool) \<Rightarrow> 'a list \<Rightarrow> bool" where
  "all_windows p (x # y # zs) = (p x y \<and> all_windows p (y # zs))"
| "all_windows p _ = True"

lemma all_windows_sorted_wrt: "transp p \<Longrightarrow> all_windows p xs = sorted_wrt p xs"
  by (induction p xs rule: all_windows.induct) (auto simp: sorted_wrt2 dest: transpD)

section \<open>Low bits of a byte\<close>

lemma unat_and_127 [simp]: "unat ((b :: u8) AND 127) = unat b mod 128"
proof -
  have "unat (b AND 127) = unat b AND mask 7"
    by (simp add: unsigned_and_eq mask_eq_exp_minus_1)
  also have "\<dots> = unat b mod 128"
    by (simp only: take_bit_eq_mod flip: take_bit_eq_mask) simp
  finally show ?thesis by simp
qed

lemma odd_less_2: "x < (2::nat) \<Longrightarrow> odd x \<longleftrightarrow> x = 1"
  by (auto dest: less_2_cases)

lemma and_128_eq_0: "(b :: u8) AND 128 = 0 \<longleftrightarrow> unat b < 128"
proof -
  have "b AND 128 = 0 \<longleftrightarrow> \<not> bit b 7"
    using and_exp_eq_0_iff_not_bit [of b 7] by simp
  also have "bit b 7 \<longleftrightarrow> bit (unat b) 7" by (simp only: bit_unsigned_iff) simp
  also have "\<dots> \<longleftrightarrow> odd (unat b div 2 ^ 7)" by (rule bit_iff_odd)
  also have "\<dots> \<longleftrightarrow> unat b div 2 ^ 7 = 1"
    by (rule odd_less_2) (use unat_u8_less [of b] in \<open>simp add: less_mult_imp_div_less del: unat_u8_less\<close>)
  also have "\<dots> \<longleftrightarrow> \<not> unat b < 128"
    using unat_u8_less [of b] by (simp del: unat_u8_less) linarith
  finally show ?thesis by blast
qed

text \<open>Or-ing bits in above everything a word already holds is an addition.\<close>

lemma or_push_bit_add:
  fixes v m :: "'a::len word"
  assumes "unat v < 2 ^ s"
  shows "v OR push_bit s m = v + m * 2 ^ s"
proof -
  have "bit v n \<Longrightarrow> n < s" for n
  proof (rule ccontr)
    assume "bit v n" and "\<not> n < s"
    then have "bit (unat v) n" and "(2::nat) ^ s \<le> 2 ^ n"
      by (simp_all add: bit_unsigned_iff)
    moreover from this(2) assms have "unat v div 2 ^ n = 0"
      by (intro div_less) (rule less_le_trans)
    ultimately show False by (simp only: bit_iff_odd) simp
  qed
  then have "v AND push_bit s m = 0"
    by (intro bit_word_eqI) (auto simp: bit_simps not_le)
  then have "v + push_bit s m = v OR push_bit s m"
    by (simp add: disjunctive_add_eq_or)
  then show ?thesis by (simp add: push_bit_eq_mult)
qed

section \<open>Binary search\<close>

text \<open>
  \<open>slice::binary_search_by\<close> of the standard library: \<open>Inr i\<close> is \<open>Ok(i)\<close>, a hit, and \<open>Inl i\<close> is
  \<open>Err(i)\<close>, the insertion point.
\<close>

function binary_search_loop :: "('a \<Rightarrow> ordering) \<Rightarrow> 'a list \<Rightarrow> nat \<Rightarrow> nat \<Rightarrow> nat" where
  "binary_search_loop f xs base len =
     (if len > 1 then
        let half = len div 2; mid = base + half in
        binary_search_loop f xs (if f (xs ! mid) = Greater then base else mid) (len - half)
      else base)"
  by pat_completeness auto
termination
  by (relation "measure (\<lambda>(f, xs, base, len). len)") auto

declare binary_search_loop.simps [simp del]

definition binary_search_by :: "('a \<Rightarrow> ordering) \<Rightarrow> 'a list \<Rightarrow> nat + nat" where
  "binary_search_by f xs =
     (if length xs = 0 then Inl 0
      else let base = binary_search_loop f xs 0 (length xs) in
        case f (xs ! base) of Equal \<Rightarrow> Inr base | Less \<Rightarrow> Inl (base + 1) | Greater \<Rightarrow> Inl base)"

text \<open>On strictly ascending keys it finds the first element not below the key.\<close>

abbreviation lower_bound :: "('a \<Rightarrow> 'k::linorder) \<Rightarrow> 'k \<Rightarrow> 'a list \<Rightarrow> nat" where
  "lower_bound g k xs \<equiv> length (takeWhile (\<lambda>x. g x < k) xs)"

lemma binary_search_loop_inv:
  assumes "sorted_wrt (<) (map g xs)" "base + len \<le> length xs" "0 < len"
    and "base = 0 \<or> g (xs ! base) \<le> (k :: 'k::linorder)"
    and "base + len = length xs \<or> k < g (xs ! (base + len))"
    and "b = binary_search_loop (\<lambda>x. cmp (g x) k) xs base len"
  shows "b < length xs \<and> (b = 0 \<or> g (xs ! b) \<le> k) \<and> (b + 1 = length xs \<or> k < g (xs ! (b + 1)))"
  using assms
proof (induction "\<lambda>x. cmp (g x) k" xs base len rule: binary_search_loop.induct)
  case (1 xs base len)
  show ?case
  proof (cases "len > 1")
    case True
    let ?mid = "base + len div 2"
    let ?base = "if cmp (g (xs ! ?mid)) k = Greater then base else ?mid"
    have b: "b = binary_search_loop (\<lambda>x. cmp (g x) k) xs ?base (len - len div 2)"
      using "1.prems"(6) True by (simp add: binary_search_loop.simps [of _ _ base] Let_def)
    have h: "0 < len div 2" "len div 2 < len" using True by auto
    have mono: "g (xs ! i) < g (xs ! j)" if "i < j" "j < length xs" for i j
      using "1.prems"(1) that sorted_wrt_nth_less [of "(<)" "map g xs" i j] by simp
    have nxt: "?base + (len - len div 2) = length xs \<or> k < g (xs ! (?base + (len - len div 2)))"
    proof (cases "cmp (g (xs ! ?mid)) k = Greater")
      case True
      then have "k < g (xs ! ?mid)" by simp
      moreover have "?mid \<le> base + (len - len div 2)" by simp
      moreover have "base + (len - len div 2) < length xs" using h "1.prems"(2) by linarith
      ultimately have "k < g (xs ! (base + (len - len div 2)))"
        using mono [of ?mid "base + (len - len div 2)"] by (cases "?mid = base + (len - len div 2)") auto
      with True show ?thesis by simp
    next
      case False
      then show ?thesis using "1.prems"(5) h by (auto simp: add.assoc)
    qed
    show ?thesis
      by (rule "1.hyps" [OF True refl refl "1.prems"(1) _ _ _ nxt b])
        (use "1.prems"(2,4) h in \<open>auto simp: not_less\<close>)
  next
    case False
    then have "len = 1" "b = base" using "1.prems"(3,6) by (auto simp: binary_search_loop.simps [of _ _ base])
    with "1.prems" show ?thesis by auto
  qed
qed

lemma lower_bound_unique:
  assumes "sorted_wrt (<) (map g xs)" "i \<le> length xs"
    and "i = 0 \<or> g (xs ! (i - 1)) < (k :: 'k::linorder)" and "i = length xs \<or> k \<le> g (xs ! i)"
  shows "lower_bound g k xs = i"
proof -
  have mono: "g (xs ! i) < g (xs ! j)" if "i < j" "j < length xs" for i j
    using assms(1) that sorted_wrt_nth_less [of "(<)" "map g xs" i j] by simp
  have "takeWhile (\<lambda>x. g x < k) xs = take i xs"
  proof (rule takeWhile_eq_take_P_nth)
    fix j assume j: "j < i" "j < length xs"
    then have last: "g (xs ! (i - 1)) < k" using assms(3) by auto
    show "g (xs ! j) < k"
    proof (cases "j = i - 1")
      case False
      then have "g (xs ! j) < g (xs ! (i - 1))" using j assms(2) by (intro mono) linarith+
      with last show ?thesis by simp
    qed (use last in simp)
  next
    assume "i < length xs"
    then show "\<not> g (xs ! i) < k" using assms(4) by auto
  qed
  then show ?thesis using assms(2) by simp
qed

lemma binary_search_by_sorted:
  assumes "sorted_wrt (<) (map g xs)"
  shows "binary_search_by (\<lambda>x. cmp (g x) k) xs =
    (let i = lower_bound g k xs in if i < length xs \<and> g (xs ! i) = k then Inr i else Inl i)"
proof (cases "xs = []")
  case True
  then show ?thesis by (simp add: binary_search_by_def)
next
  case False
  define b where "b = binary_search_loop (\<lambda>x. cmp (g x) k) xs 0 (length xs)"
  have inv: "b < length xs \<and> (b = 0 \<or> g (xs ! b) \<le> k) \<and> (b + 1 = length xs \<or> k < g (xs ! (b + 1)))"
    by (rule binary_search_loop_inv [OF assms _ _ _ _ b_def]) (use False in auto)
  have mono: "g (xs ! i) < g (xs ! j)" if "i < j" "j < length xs" for i j
    using assms that sorted_wrt_nth_less [of "(<)" "map g xs" i j] by simp
  have bs: "binary_search_by (\<lambda>x. cmp (g x) k) xs =
      (case cmp (g (xs ! b)) k of Equal \<Rightarrow> Inr b | Less \<Rightarrow> Inl (b + 1) | Greater \<Rightarrow> Inl b)"
    unfolding binary_search_by_def Let_def b_def using False by simp
  consider "g (xs ! b) < k" | "g (xs ! b) = k" | "k < g (xs ! b)" by fastforce
  then show ?thesis
  proof cases
    case 1
    have "lower_bound g k xs = b + 1"
      by (rule lower_bound_unique [OF assms]) (use inv 1 in auto)
    moreover have "\<not> (b + 1 < length xs \<and> g (xs ! (b + 1)) = k)" using inv by auto
    moreover have "cmp (g (xs ! b)) k = Less" using 1 by (simp add: cmp_def)
    ultimately show ?thesis unfolding bs by (simp del: cmp_simps)
  next
    case 2
    have "b = 0 \<or> g (xs ! (b - 1)) < k" using inv 2 mono [of "b - 1" b] by (cases b) auto
    then have "lower_bound g k xs = b"
      by (intro lower_bound_unique [OF assms]) (use inv 2 in auto)
    moreover have c: "cmp k k = Equal" by (simp add: cmp_def)
    ultimately show ?thesis unfolding bs using 2 inv by (simp add: c)
  next
    case 3
    have "lower_bound g k xs = b"
      by (rule lower_bound_unique [OF assms]) (use inv 3 in auto)
    moreover have c: "cmp (g (xs ! b)) k = Greater" using 3 by (auto simp: cmp_def)
    ultimately show ?thesis unfolding bs using 3 by (auto simp: c)
  qed
qed

section \<open>Self-delimiting formats\<close>

text \<open>
  The contract of a binary format whose values delimit themselves: reading what was written
  gives the value back and leaves what follows, and only written forms are read. The second
  law is what makes content addressing sound: a block has exactly one reading, and a reading
  exactly one block.
\<close>

abbreviation in_memory :: "bytes \<Rightarrow> bool" where
  "in_memory bs \<equiv> length bs < 2 ^ 64"

locale prefix_codec =
  fixes enc :: "'a \<Rightarrow> bytes"
    and dec :: "bytes \<Rightarrow> 'e + ('a \<times> bytes)"
    and valid :: "'a \<Rightarrow> bool"
  assumes dec_enc: "valid x \<Longrightarrow> in_memory (enc x @ rest) \<Longrightarrow> dec (enc x @ rest) = Inr (x, rest)"
    and enc_dec: "in_memory bs \<Longrightarrow> dec bs = Inr (x, rest) \<Longrightarrow> valid x \<and> bs = enc x @ rest"
begin

lemma prefix_free:
  assumes "valid x" "valid y" "in_memory (enc x @ r)" "enc x @ r = enc y @ s"
  shows "x = y \<and> r = s"
proof -
  have "dec (enc x @ r) = Inr (x, r)" using assms(1,3) by (rule dec_enc)
  moreover have "dec (enc y @ s) = Inr (y, s)"
    using assms(2) by (rule dec_enc) (use assms(3,4) in simp)
  ultimately have "(Inr (x, r) :: 'e + ('a \<times> bytes)) = Inr (y, s)" using assms(4) by metis
  then show ?thesis by blast
qed

lemma enc_inject: "valid x \<Longrightarrow> valid y \<Longrightarrow> in_memory (enc x) \<Longrightarrow> enc x = enc y \<Longrightarrow> x = y"
  by (rule prefix_free [THEN conjunct1, of x y "[]" "[]"]) simp_all

lemma dec_iff: "in_memory bs \<Longrightarrow> dec bs = Inr (x, rest) \<longleftrightarrow> valid x \<and> bs = enc x @ rest"
  by (metis dec_enc enc_dec)

lemma dec_whole: "valid x \<Longrightarrow> in_memory (enc x) \<Longrightarrow> dec (enc x) = Inr (x, [])"
  using dec_enc [of x "[]"] by simp

lemma enc_list_inject:
  assumes "\<forall>x \<in> set xs. valid x" "\<forall>y \<in> set ys. valid y" "length xs = length ys"
    and "in_memory (concat (map enc xs))" "concat (map enc xs) = concat (map enc ys)"
  shows "xs = ys"
  using assms(3,1,2,4,5)
proof (induction xs ys rule: list_induct2)
  case Nil
  then show ?case by simp
next
  case (Cons x xs y ys)
  have "x = y \<and> concat (map enc xs) = concat (map enc ys)"
  proof (rule prefix_free)
    show "in_memory (enc x @ concat (map enc xs))"
      using Cons.prems(3) by simp
    show "enc x @ concat (map enc xs) = enc y @ concat (map enc ys)"
      using Cons.prems(4) by simp
  qed (use Cons.prems in simp_all)
  with Cons show ?case by simp
qed

end

end
