(* ===== verification/Varint.thy ===== *)
theory Varint
  imports Prelude
begin

text \<open>
  The unsigned LEB128 varints of \<open>src/src/cbor/varint.rs\<close>, and the error type of
  \<open>src/src/cbor/mod.rs\<close> that the CBOR components share. The loops run over the value and over
  the input exactly as in the source; \<open>leb\<close> and \<open>unleb\<close> are the reference on naturals that
  the CAR framing (theory \<open>Car\<close>) uses too. Error messages keep the fixed text of the source
  and drop interpolated arguments.
\<close>

datatype cbor_error =
    InvalidCbor string
  | InvalidCid string
  | DataModel string
  | Io string

section \<open>Definitions\<close>

function encode_varint :: "u64 \<Rightarrow> bytes \<Rightarrow> bytes" where
  "encode_varint v buf =
     (let byte = ucast (v AND 0x7F) :: u8;
          v' = drop_bit 7 v;
          byte' = (if v' \<noteq> 0 then byte OR 0x80 else byte);
          buf' = buf @ [byte']
      in if v' = 0 then buf' else encode_varint v' buf')"
  by pat_completeness auto
termination
proof (relation "measure (\<lambda>(v, buf). unat v)", simp, clarsimp)
  fix v :: u64
  assume "drop_bit 7 v \<noteq> 0"
  moreover have u: "unat (drop_bit 7 v) = unat v div 128"
    unfolding unat_drop_bit_eq by (simp add: drop_bit_eq_div)
  ultimately show "unat (drop_bit 7 v) < unat v"
    by (metis div_less_dividend div_0 gr_zeroI one_less_numeral_iff semiring_norm(76) unat_0_iff
        zero_less_iff_neq_zero)
qed

declare encode_varint.simps [simp del]

fun decode_varint_loop :: "bytes \<Rightarrow> nat \<Rightarrow> u64 \<Rightarrow> nat \<Rightarrow> cbor_error + (u64 \<times> nat)" where
  "decode_varint_loop [] i v shift = Inl (InvalidCbor ''truncated varint'')"
| "decode_varint_loop (byte # bs) i v shift =
     (if shift \<ge> 63 \<and> byte AND 0x7F > 1 then Inl (InvalidCbor ''varint overflow'')
      else let v' = v OR push_bit shift (ucast (byte AND 0x7F))
        in if byte AND 0x80 = 0 then Inr (v', i + 1)
           else if shift + 7 > 63 then Inl (InvalidCbor ''varint overflow'')
           else decode_varint_loop bs (i + 1) v' (shift + 7))"

definition decode_varint :: "bytes \<Rightarrow> cbor_error + (u64 \<times> nat)" where
  "decode_varint buf =
     (if buf = [] then Inl (InvalidCbor ''empty buffer for varint'')
      else decode_varint_loop buf 0 0 0)"

section \<open>The reference on naturals\<close>

fun leb :: "nat \<Rightarrow> bytes" where
  "leb n = (if n < 128 then [of_nat n] else of_nat (n mod 128 + 128) # leb (n div 128))"

declare leb.simps [simp del]

fun unleb :: "bytes \<Rightarrow> nat" where
  "unleb [] = 0"
| "unleb (b # bs) = unat b mod 128 + 128 * unleb bs"

text \<open>The shape of a varint: continuation bits on all bytes but the last.\<close>

fun leb_shape :: "bytes \<Rightarrow> bool" where
  "leb_shape [] = False"
| "leb_shape [b] = (unat b < 128)"
| "leb_shape (b # bs) = (128 \<le> unat b \<and> leb_shape bs)"

lemma leb_nonempty [simp]: "leb n \<noteq> []"
  by (subst leb.simps) simp

lemma unat_leb_byte: "unat (of_nat (n mod 128 + 128) :: u8) = n mod 128 + 128"
proof -
  have "n mod 128 + 128 < (256::nat)" using mod_less_divisor [of 128 n] by linarith
  then show ?thesis by (simp only: unat_of_nat) simp
qed

lemma unleb_leb [simp]: "unleb (leb n) = n"
proof (induction n rule: leb.induct)
  case (1 n)
  then show ?case
    by (subst leb.simps) (auto simp: unat_leb_byte unat_of_nat simp del: of_nat_add)
qed

lemma leb_shape_leb [simp]: "leb_shape (leb n)"
proof (induction n rule: leb.induct)
  case (1 n)
  show ?case
  proof (cases "n < 128")
    case True
    then show ?thesis by (subst leb.simps) (simp add: unat_of_nat)
  next
    case False
    then obtain b bs where "leb (n div 128) = b # bs" by (cases "leb (n div 128)") auto
    with False 1 show ?thesis by (subst leb.simps) (simp add: unat_leb_byte del: of_nat_add)
  qed
qed

lemma leb_length: "n < 128 ^ k \<Longrightarrow> 0 < k \<Longrightarrow> length (leb n) \<le> k"
proof (induction n arbitrary: k rule: leb.induct)
  case (1 n)
  show ?case
  proof (cases "n < 128")
    case True
    with 1 show ?thesis by (subst leb.simps) simp
  next
    case False
    with "1.prems" obtain k' where k: "k = Suc k'" "0 < k'"
      by (cases k; cases "k - 1") auto
    with "1.prems" have "n div 128 < 128 ^ k'" by (simp add: less_mult_imp_div_less mult.commute)
    with "1.IH" False k have "length (leb (n div 128)) \<le> k'" by blast
    with False k show ?thesis by (subst leb.simps) simp
  qed
qed

section \<open>Correctness\<close>

lemma encode_varint_leb: "encode_varint v buf = buf @ leb (unat v)"
proof (induction v buf rule: encode_varint.induct)
  case (1 v buf)
  have u: "unat (drop_bit 7 v) = unat v div 128"
    unfolding unat_drop_bit_eq by (simp add: drop_bit_eq_div)
  have m: "unat (v AND 0x7F) = unat v mod 128"
  proof -
    have "unat (v AND 0x7F) = unat v AND mask 7"
      by (simp add: unsigned_and_eq mask_eq_exp_minus_1)
    then show ?thesis by (simp only: take_bit_eq_mod flip: take_bit_eq_mask) simp
  qed
  have b: "(ucast (v AND 0x7F) :: u8) = of_nat (unat v mod 128)"
    by (metis m of_nat_unat)
  have o: "(of_nat (unat v mod 128) :: u8) OR 0x80 = of_nat (unat v mod 128 + 128)"
  proof -
    have "unat (of_nat (unat v mod 128) :: u8) < 2 ^ 7"
      by (simp add: unat_of_nat)
    then have "(of_nat (unat v mod 128) :: u8) OR push_bit 7 1 = of_nat (unat v mod 128) + 1 * 2 ^ 7"
      by (rule or_push_bit_add)
    then show ?thesis by simp
  qed
  have z: "drop_bit 7 v = 0 \<longleftrightarrow> unat v < 128"
    by (metis u unat_0_iff div_eq_0_iff zero_neq_numeral)
  show ?case
  proof (cases "drop_bit 7 v = 0")
    case True
    with z show ?thesis by (simp add: encode_varint.simps [of v] leb.simps [of "unat v"] b Let_def)
  next
    case False
    with 1 have "encode_varint (drop_bit 7 v) (buf @ [ucast (v AND 0x7F) OR 0x80]) =
        (buf @ [ucast (v AND 0x7F) OR 0x80]) @ leb (unat (drop_bit 7 v))"
      by simp
    with False z show ?thesis
      by (simp add: encode_varint.simps [of v] leb.simps [of "unat v"] b o u Let_def)
  qed
qed

text \<open>One step of the decoder's accumulation, on naturals.\<close>

lemma varint_accumulate:
  fixes v :: u64 and byte :: u8
  assumes "unat v < 2 ^ s" and "unat v + 2 ^ s * (unat byte mod 128) < 2 ^ 64"
  shows "unat (v OR push_bit s (ucast (byte AND 0x7F))) = unat v + 2 ^ s * (unat byte mod 128)"
proof -
  have c: "(ucast (byte AND 0x7F) :: u64) = of_nat (unat byte mod 128)"
    by (metis of_nat_unat unat_and_127)
  have "v OR push_bit s (ucast (byte AND 0x7F)) = v + of_nat (unat byte mod 128) * 2 ^ s"
    using assms(1) by (simp only: or_push_bit_add c)
  also have "\<dots> = of_nat (unat v + 2 ^ s * (unat byte mod 128))"
    by (simp add: mult.commute)
  finally show ?thesis
    using assms(2) by (simp only: unat_of_nat) simp
qed

lemma varint_acc_less:
  assumes "a < (2::nat) ^ s" and "m < 128"
  shows "a + 2 ^ s * m < 2 ^ (s + 7)"
proof -
  have "2 ^ s * Suc m \<le> 2 ^ s * (128 :: nat)"
    using assms(2) by (intro mult_le_mono2) simp
  then have "2 ^ s + 2 ^ s * m \<le> 2 ^ (s + 7)"
    by (simp only: mult_Suc_right power_add) simp
  with assms(1) show ?thesis by linarith
qed

lemma decode_varint_loop_leb:
  assumes "unat v < 2 ^ s" and "unat v + 2 ^ s * n < 2 ^ 64"
  shows "\<exists>w. decode_varint_loop (leb n @ rest) i v s = Inr (w, i + length (leb n)) \<and>
    unat w = unat v + 2 ^ s * n"
  using assms
proof (induction n arbitrary: i v s rule: leb.induct)
  case (1 n)
  show ?case
  proof (cases "n < 128")
    case True
    then have b: "unat (of_nat n :: u8) = n" by (simp add: unat_of_nat)
    have no: "\<not> (63 \<le> s \<and> 1 < (of_nat n :: u8) AND 0x7F)"
    proof
      assume "63 \<le> s \<and> 1 < (of_nat n :: u8) AND 0x7F"
      then have "1 < n" and "63 \<le> s"
        using True b by (simp_all add: word_less_nat_alt)
      moreover from this(2) have "(2::nat) ^ 63 \<le> 2 ^ s"
        by (intro power_increasing) simp_all
      ultimately have "(2::nat) ^ 63 * 2 \<le> 2 ^ s * n" by (intro mult_le_mono) simp_all
      with "1.prems" show False by simp
    qed
    show ?thesis
      using True "1.prems" varint_accumulate [of v s "of_nat n"] no
      by (subst (1 2) leb.simps) (simp add: b and_128_eq_0 Let_def)
  next
    case False
    let ?b = "of_nat (n mod 128 + 128) :: u8"
    have b: "unat ?b mod 128 = n mod 128" "\<not> unat ?b < 128"
      by (simp_all add: unat_leb_byte del: of_nat_add)
    have "2 ^ s * n = 2 ^ s * (n mod 128 + 128 * (n div 128))" by simp
    also have "\<dots> = 2 ^ s * (n mod 128) + 2 ^ (s + 7) * (n div 128)"
      by (simp only: distrib_left power_add) simp
    finally have le: "2 ^ s * n = 2 ^ s * (n mod 128) + 2 ^ (s + 7) * (n div 128)" .
    have s7: "s + 7 \<le> 63"
    proof (rule ccontr)
      assume "\<not> s + 7 \<le> 63"
      then have "(2::nat) ^ 57 \<le> 2 ^ s" by (intro power_increasing) simp_all
      with False have "(2::nat) ^ 57 * 128 \<le> 2 ^ s * n" by (intro mult_le_mono) simp_all
      with "1.prems" show False by simp
    qed
    let ?v = "v OR push_bit s (ucast (?b AND 0x7F))"
    have uv: "unat ?v = unat v + 2 ^ s * (n mod 128)"
      using varint_accumulate [of v s ?b] "1.prems" b le by (simp del: of_nat_add)
    have "unat ?v < 2 ^ (s + 7)"
      unfolding uv by (rule varint_acc_less) (use "1.prems" in simp_all)
    moreover have "unat ?v + 2 ^ (s + 7) * (n div 128) < 2 ^ 64"
      using "1.prems" le uv by simp
    ultimately obtain w where
      "decode_varint_loop (leb (n div 128) @ rest) (i + 1) ?v (s + 7) =
        Inr (w, i + 1 + length (leb (n div 128)))"
      "unat w = unat ?v + 2 ^ (s + 7) * (n div 128)"
      using "1.IH" [OF False] by blast
    then show ?thesis
      using False s7 b uv le
      by (subst (1 2) leb.simps) (simp add: and_128_eq_0 Let_def del: of_nat_add)
  qed
qed

text \<open>
  Varint round trip: decoding what \<open>encode_varint\<close> appended to a buffer, whatever follows it,
  returns the value and the number of bytes the encoder wrote, for every 64-bit value.
\<close>

lemma varint_roundtrip:
  "decode_varint (encode_varint v [] @ rest) = Inr (v, length (encode_varint v []))"
proof -
  have "unat v < 2 ^ 64" using unsigned_less [of v, where ?'a = nat] by simp
  then have "\<exists>w. decode_varint_loop (leb (unat v) @ rest) 0 0 0 = Inr (w, 0 + length (leb (unat v))) \<and>
      unat w = unat (0::u64) + 2 ^ 0 * unat v"
    by (intro decode_varint_loop_leb) simp_all
  then show ?thesis
    by (auto simp: decode_varint_def encode_varint_leb word_unat_eq_iff)
qed

end
