(* ===== verification/Cid.thy ===== *)
theory Cid
  imports Varint
begin

text \<open>
  Content identifiers, \<open>src/src/cbor/cid.rs\<close>: the one-pass SHA-256 padding over the third-party
  block function \<open>sha2::block_api::compress256\<close> (the parameter \<open>compress\<close>), binary CIDs with
  their fast and slow parsing paths, the tag-42 form, and the multibase string form over the
  third-party \<open>BASE32_NOPAD\<close> encoding (the parameters \<open>b32enc\<close> and \<open>b32dec\<close>). The hash tables'
  \<open>FastHasher\<close> is not modelled: a map keyed by CIDs does not depend on it.
\<close>

section \<open>SHA-256\<close>

type_synonym compress_fn = "u32 list \<Rightarrow> bytes list \<Rightarrow> u32 list"

definition sha256_init :: "u32 list" where
  "sha256_init = [0x6a09e667, 0xbb67ae85, 0x3c6ef372, 0xa54ff53a,
     0x510e527f, 0x9b05688c, 0x1f83d9ab, 0x5be0cd19]"

text \<open>\<open>xs[i..i + ys.len()].copy_from_slice(ys)\<close>.\<close>

definition copy_at :: "nat \<Rightarrow> 'a list \<Rightarrow> 'a list \<Rightarrow> 'a list" where
  "copy_at i ys xs = take i xs @ ys @ drop (i + length ys) xs"

definition sha256_last :: "bytes \<Rightarrow> nat \<Rightarrow> bytes" where
  "sha256_last tail n =
     (let used = (if length tail < 56 then 1 else 2);
          padded = copy_at 0 tail (replicate 128 0);
          padded = padded[length tail := 0x80];
          bits = of_nat n * 8 :: u64;
          padded = copy_at (used * 64 - 8) (to_be_bytes 8 bits) padded
      in take (used * 64) padded)"

definition sha256 :: "compress_fn \<Rightarrow> bytes \<Rightarrow> bytes" where
  "sha256 compress data =
     (let (blocks, tail) = as_chunks 64 data;
          state = compress sha256_init blocks;
          state = compress state (fst (as_chunks 64 (sha256_last tail (length data))))
      in concat (map (to_be_bytes 4) state))"

section \<open>Codecs and binary CIDs\<close>

datatype codec = Drisl | Raw

definition codec_byte :: "codec \<Rightarrow> u8" where
  "codec_byte c = (case c of Drisl \<Rightarrow> 0x71 | Raw \<Rightarrow> 0x55)"

datatype cid = Cid (cid_codec: codec) (cid_hash: bytes)

text \<open>The digest is the array type \<open>[u8; 32]\<close>.\<close>

definition cid_valid :: "cid \<Rightarrow> bool" where
  "cid_valid c \<longleftrightarrow> length (cid_hash c) = 32"

definition cid_zeroed :: cid where
  "cid_zeroed = Cid Raw (replicate 32 0)"

definition cid_compute :: "compress_fn \<Rightarrow> codec \<Rightarrow> bytes \<Rightarrow> cid" where
  "cid_compute compress c data = Cid c (sha256 compress data)"

definition cid_to_bytes :: "cid \<Rightarrow> bytes" where
  "cid_to_bytes c = [0x01, codec_byte (cid_codec c), 0x12, 0x20] @ cid_hash c"

text \<open>The checks after the fast path, one error per failed check.\<close>

definition cid_from_bytes_checked :: "bytes \<Rightarrow> cbor_error + cid" where
  "cid_from_bytes_checked bs =
     (if length bs \<noteq> 36 then Inl (InvalidCid ''wrong length'')
      else if bs ! 0 \<noteq> 0x01 then Inl (InvalidCid ''unsupported CID version'')
      else and_then
        (if bs ! 1 = 0x71 then Inr Drisl
         else if bs ! 1 = 0x55 then Inr Raw
         else Inl (InvalidCid ''unsupported codec''))
        (\<lambda>c. if bs ! 2 \<noteq> 0x12 \<or> bs ! 3 \<noteq> 0x20 then Inl (InvalidCid ''unsupported hash'')
             else Inr (Cid c (drop 4 bs))))"

definition cid_from_bytes :: "bytes \<Rightarrow> cbor_error + cid" where
  "cid_from_bytes bs =
     (case bs of
        b0 # b1 # b2 # b3 # h \<Rightarrow>
          (if b0 = 0x01 \<and> (b1 = 0x71 \<or> b1 = 0x55) \<and> b2 = 0x12 \<and> b3 = 0x20 \<and> length h = 32
           then Inr (Cid (if b1 = 0x71 then Drisl else Raw) h)
           else cid_from_bytes_checked bs)
      | _ \<Rightarrow> cid_from_bytes_checked bs)"

definition cid_to_tag42_bytes :: "cid \<Rightarrow> bytes" where
  "cid_to_tag42_bytes c = 0x00 # cid_to_bytes c"

definition cid_from_tag42_bytes :: "bytes \<Rightarrow> cbor_error + cid" where
  "cid_from_tag42_bytes bs =
     (case bs of
        [] \<Rightarrow> Inl (InvalidCid ''missing tag 42 prefix'')
      | b # r \<Rightarrow> (if b \<noteq> 0x00 then Inl (InvalidCid ''missing tag 42 prefix'')
                else cid_from_bytes r))"

section \<open>The string form\<close>

definition to_multibase :: "(bytes \<Rightarrow> str) \<Rightarrow> cid \<Rightarrow> str" where
  "to_multibase b32enc c = map to_ascii_lowercase (lit ''b'' @ b32enc (cid_to_bytes c))"

definition cid_from_str :: "(str \<Rightarrow> bytes option) \<Rightarrow> str \<Rightarrow> cbor_error + cid" where
  "cid_from_str b32dec s =
     (case s of
        [] \<Rightarrow> Inl (InvalidCid ''missing 'b' prefix'')
      | p # rest \<Rightarrow>
          (if p \<noteq> 98 then Inl (InvalidCid ''missing 'b' prefix'')
           else if length rest \<noteq> 58 then Inl (InvalidCid ''wrong base32 length'')
           else if list_ex is_ascii_uppercase rest
             then Inl (InvalidCid ''CID base32 must be lowercase'')
           else case b32dec (map to_ascii_uppercase rest) of
               None \<Rightarrow> Inl (InvalidCid ''invalid base32 encoding'')
             | Some cid_bytes \<Rightarrow> cid_from_bytes cid_bytes))"

section \<open>The derived orderings\<close>

text \<open>\<open>#[derive(Ord)]\<close>: codecs by discriminant (\<open>Raw\<close> before \<open>Drisl\<close>), CIDs field by field.\<close>

instantiation codec :: linorder
begin

definition less_eq_codec :: "codec \<Rightarrow> codec \<Rightarrow> bool" where
  "less_eq_codec a b \<longleftrightarrow> codec_byte a \<le> codec_byte b"

definition less_codec :: "codec \<Rightarrow> codec \<Rightarrow> bool" where
  "less_codec a b \<longleftrightarrow> codec_byte a < codec_byte b"

instance
proof
  fix a b c :: codec
  show "a < b \<longleftrightarrow> a \<le> b \<and> \<not> b \<le> a"
    by (auto simp: less_eq_codec_def less_codec_def)
  show "a \<le> a" by (simp add: less_eq_codec_def)
  show "a \<le> b \<Longrightarrow> b \<le> c \<Longrightarrow> a \<le> c" by (auto simp: less_eq_codec_def)
  show "a \<le> b \<Longrightarrow> b \<le> a \<Longrightarrow> a = b"
    by (cases a; cases b) (auto simp: less_eq_codec_def codec_byte_def)
  show "a \<le> b \<or> b \<le> a" by (auto simp: less_eq_codec_def)
qed

end

instantiation cid :: linorder
begin

definition less_eq_cid :: "cid \<Rightarrow> cid \<Rightarrow> bool" where
  "less_eq_cid a b \<longleftrightarrow>
     cid_codec a < cid_codec b \<or> cid_codec a = cid_codec b \<and> cid_hash a \<le> cid_hash b"

definition less_cid :: "cid \<Rightarrow> cid \<Rightarrow> bool" where
  "less_cid a b \<longleftrightarrow>
     cid_codec a < cid_codec b \<or> cid_codec a = cid_codec b \<and> cid_hash a < cid_hash b"

instance
proof
  fix a b c :: cid
  show "a < b \<longleftrightarrow> a \<le> b \<and> \<not> b \<le> a"
    by (auto simp: less_eq_cid_def less_cid_def)
  show "a \<le> a" by (simp add: less_eq_cid_def)
  show "a \<le> b \<Longrightarrow> b \<le> c \<Longrightarrow> a \<le> c" by (auto simp: less_eq_cid_def)
  show "a \<le> b \<Longrightarrow> b \<le> a \<Longrightarrow> a = b"
    by (cases a; cases b) (auto simp: less_eq_cid_def)
  show "a \<le> b \<or> b \<le> a" by (auto simp: less_eq_cid_def)
qed

end

section \<open>Binary round trips\<close>

lemma cid_from_bytes_eq_checked: "cid_from_bytes bs = cid_from_bytes_checked bs"
  by (auto simp: cid_from_bytes_def cid_from_bytes_checked_def split: list.splits)

lemma length_cid_to_bytes [simp]: "cid_valid c \<Longrightarrow> length (cid_to_bytes c) = 36"
  by (simp add: cid_to_bytes_def cid_valid_def)

lemma cid_to_bytes_roundtrip [codec_simps]:
  "cid_valid c \<Longrightarrow> cid_from_bytes (cid_to_bytes c) = Inr c"
  by (cases c; cases "cid_codec c")
     (auto simp: cid_from_bytes_def cid_to_bytes_def cid_valid_def codec_byte_def)

lemma length_36_cases:
  assumes "length bs = 36"
  obtains b0 b1 b2 b3 h where "bs = b0 # b1 # b2 # b3 # h" "length h = 32"
proof -
  from assms have "length bs = Suc (Suc (Suc (Suc 32)))" by simp
  then show thesis by (auto simp only: length_Suc_conv intro: that)
qed

lemma cid_from_bytes_canonical:
  assumes "cid_from_bytes bs = Inr c"
  shows "cid_valid c \<and> cid_to_bytes c = bs"
proof -
  from assms have "length bs = 36"
    by (auto simp: cid_from_bytes_eq_checked cid_from_bytes_checked_def split: if_splits)
  then obtain b0 b1 b2 b3 h where "bs = b0 # b1 # b2 # b3 # h" "length h = 32"
    by (rule length_36_cases)
  with assms show ?thesis
    by (auto simp: cid_from_bytes_eq_checked cid_from_bytes_checked_def cid_to_bytes_def
        cid_valid_def codec_byte_def split: if_splits)
qed

text \<open>
  Binary CIDs: \<open>from_bytes\<close> accepts exactly the byte strings that \<open>to_bytes\<close> writes for a CID
  with a 32-byte digest, and returns that CID. So a CID has one binary form and a binary form
  names one CID.
\<close>

lemma cid_from_bytes_iff:
  "cid_from_bytes bs = Inr c \<longleftrightarrow> cid_valid c \<and> bs = cid_to_bytes c"
  using cid_from_bytes_canonical cid_to_bytes_roundtrip by auto

lemma tag42_roundtrip [codec_simps]:
  "cid_valid c \<Longrightarrow> cid_from_tag42_bytes (cid_to_tag42_bytes c) = Inr c"
  by (simp add: cid_from_tag42_bytes_def cid_to_tag42_bytes_def cid_to_bytes_roundtrip)

lemma tag42_canonical:
  "cid_from_tag42_bytes bs = Inr c \<Longrightarrow> cid_valid c \<and> cid_to_tag42_bytes c = bs"
  by (auto simp: cid_from_tag42_bytes_def cid_to_tag42_bytes_def
      dest: cid_from_bytes_canonical split: list.splits if_splits)

section \<open>SHA-256 padding\<close>

text \<open>FIPS 180-4, section 5.1.1: the message, a one bit, zeros, and the bit length, to whole blocks.\<close>

definition fips_pad :: "bytes \<Rightarrow> bytes" where
  "fips_pad data = data @ [0x80] @ replicate ((119 - length data mod 64) mod 64) 0 @
     to_be_bytes 8 (of_nat (length data) * 8 :: u64)"

lemma take_copy_at: "i \<le> length xs \<Longrightarrow> m = i + length ys \<Longrightarrow> take m (copy_at i ys xs) = take i xs @ ys"
  by (simp add: copy_at_def)

lemma pad_zeros:
  "n < 56 \<Longrightarrow> (119 - n) mod 64 = 55 - (n::nat)"
  "\<not> n < 56 \<Longrightarrow> (119 - n) mod 64 = 119 - (n::nat)"
  by (simp_all add: mod_if)

lemma pad_total: "n < 64 \<Longrightarrow> (n + (9 + (119 - n) mod 64)) mod 64 = (0::nat)"
  by (cases "n < 56") (simp_all add: pad_zeros)

lemma sha256_last_eq:
  assumes "length t < 64"
  shows "sha256_last t n = t @ [0x80] @ replicate ((119 - length t) mod 64) 0 @
    to_be_bytes 8 (of_nat n * 8 :: u64)"
proof -
  have "(128 :: nat) - length t = Suc (127 - length t)" using assms by simp
  then have "copy_at 0 t (replicate 128 0) = t @ 0 # replicate (127 - length t) 0"
    by (simp add: copy_at_def del: replicate.simps) (simp only: replicate_Suc)
  then have padded: "(copy_at 0 t (replicate 128 0))[length t := 0x80] =
      t @ 0x80 # replicate (127 - length t) 0"
    by (simp only: list_update_length)
  show ?thesis
  proof (cases "length t < 56")
    case True
    have "take 56 (t @ 0x80 # replicate (127 - length t) 0) = t @ 0x80 # replicate (55 - length t) 0"
      using True by (simp add: take_Cons' min_def)
    with True show ?thesis
      by (simp add: sha256_last_def padded take_copy_at pad_zeros Let_def)
  next
    case False
    have "take 120 (t @ 0x80 # replicate (127 - length t) 0) = t @ 0x80 # replicate (119 - length t) 0"
      using assms by (simp add: take_Cons' min_def)
    with False assms show ?thesis
      by (simp add: sha256_last_def padded take_copy_at pad_zeros Let_def)
  qed
qed

lemma fips_pad_split:
  "fips_pad data = concat (fst (as_chunks 64 data)) @ sha256_last (snd (as_chunks 64 data)) (length data)"
  "length (sha256_last (snd (as_chunks 64 data)) (length data)) mod 64 = 0"
proof -
  let ?bs = "fst (as_chunks 64 data)" and ?t = "snd (as_chunks 64 data)"
  let ?l = "sha256_last ?t (length data)"
  have split: "concat ?bs @ ?t = data" "length ?t = length data mod 64"
    using as_chunks_correct [of 64 data] by simp_all
  then have l: "?l = ?t @ [0x80] @ replicate ((119 - length ?t) mod 64) 0 @
      to_be_bytes 8 (of_nat (length data) * 8 :: u64)"
    by (intro sha256_last_eq) simp
  have "fips_pad data = (concat ?bs @ ?t) @ [0x80] @ replicate ((119 - length ?t) mod 64) 0 @
      to_be_bytes 8 (of_nat (length data) * 8 :: u64)"
    by (simp only: split fips_pad_def)
  then show "fips_pad data = concat ?bs @ ?l"
    by (simp only: l append_assoc)
  have "(length ?t + (9 + (119 - length ?t) mod 64)) mod 64 = 0"
    by (rule pad_total) (use split(2) in simp)
  then show "length ?l mod 64 = 0"
    by (simp add: l algebra_simps)
qed

text \<open>
  The one-pass SHA-256 of \<open>cid.rs\<close> hashes exactly the FIPS 180-4 padding of its input, cut into
  whole 64-byte blocks: for a block function that may be fed in two calls (as \<open>compress256\<close> may),
  the digest is the big-endian output of one run over those blocks, with nothing left over.
\<close>

lemma sha256_padding:
  assumes compress_append: "\<And>s a b. compress (compress s a) b = compress s (a @ b)"
  shows "sha256 compress data =
      concat (map (to_be_bytes 4) (compress sha256_init (fst (as_chunks 64 (fips_pad data))))) \<and>
    snd (as_chunks 64 (fips_pad data)) = []"
proof -
  let ?bs = "fst (as_chunks 64 data)" and ?t = "snd (as_chunks 64 data)"
  let ?l = "sha256_last ?t (length data)"
  have chunks: "as_chunks 64 (fips_pad data) = (?bs @ fst (as_chunks 64 ?l), snd (as_chunks 64 ?l))"
    unfolding fips_pad_split(1) by (rule as_chunks_append) (use as_chunks_correct [of 64 data] in simp_all)
  then have "snd (as_chunks 64 (fips_pad data)) = []"
    using as_chunks_correct [of 64 ?l] fips_pad_split(2) [of data] by simp
  moreover have "sha256 compress data =
      concat (map (to_be_bytes 4) (compress sha256_init (fst (as_chunks 64 (fips_pad data)))))"
    by (simp add: sha256_def chunks case_prod_beta compress_append Let_def)
  ultimately show ?thesis by blast
qed

section \<open>The string form\<close>

lemma uppercase_lowercase [simp]:
  "is_ascii_uppercase b \<or> is_ascii_digit b \<Longrightarrow> to_ascii_uppercase (to_ascii_lowercase b) = b"
  by (auto simp: to_ascii_lowercase_def to_ascii_uppercase_def ascii_defs word_le_nat_alt
      unat_word_ariths)

lemma not_uppercase_lowercase [simp]: "\<not> is_ascii_uppercase (to_ascii_lowercase b)"
  by (auto simp: to_ascii_lowercase_def is_ascii_uppercase_def word_le_nat_alt unat_word_ariths)

text \<open>
  The string form of a CID parses back to it: with a base32 codec that writes 58 upper-case
  letters and digits for the 36 bytes and decodes them again, \<open>from_str\<close> of \<open>to_string\<close> is the CID.
\<close>

lemma cid_string_roundtrip:
  assumes "cid_valid c"
    and "length (b32enc (cid_to_bytes c)) = 58"
    and "\<forall>b \<in> set (b32enc (cid_to_bytes c)). is_ascii_uppercase b \<or> is_ascii_digit b"
    and "b32dec (b32enc (cid_to_bytes c)) = Some (cid_to_bytes c)"
  shows "cid_from_str b32dec (to_multibase b32enc c) = Inr c"
proof -
  have "map (to_ascii_uppercase \<circ> to_ascii_lowercase) (b32enc (cid_to_bytes c)) = b32enc (cid_to_bytes c)"
    using assms(3) by (intro map_idI) auto
  moreover have "to_ascii_lowercase 98 = 98"
    by (simp add: to_ascii_lowercase_def is_ascii_uppercase_def)
  moreover have "\<not> list_ex is_ascii_uppercase (map to_ascii_lowercase xs)" for xs
    by (induction xs) simp_all
  ultimately show ?thesis
    using assms(1,2,4) by (simp add: to_multibase_def cid_from_str_def cid_to_bytes_roundtrip)
qed

end
