(* ===== verification/Cbor_Encode.thy ===== *)
theory Cbor_Encode
  imports Cid
begin

text \<open>
  The DRISL (deterministic CBOR) writer: \<open>src/src/cbor/value.rs\<close>, \<open>src/src/cbor/encode.rs\<close> and
  the encoding half of \<open>src/src/cbor/mod.rs\<close>. A buffer argument is the \<open>Vec\<close> the source appends
  to. \<open>write_item False\<close> and \<open>write_item True\<close> are the two passes of \<open>write_value\<close> (the const
  parameter \<open>SORT\<close>). A float is its 64 bits (\<open>to_bits\<close>).
\<close>

section \<open>Values\<close>

datatype cbor_value =
    Unsigned u64
  | Signed u64          \<comment> \<open>an \<open>i64\<close>, read with \<open>sint\<close>\<close>
  | Float u64           \<comment> \<open>the bits of an \<open>f64\<close>\<close>
  | Bool bool
  | Null
  | Text str
  | Bytes bytes
  | CidV cid
  | Array "cbor_value list"
  | Map "(str \<times> cbor_value) list"

text \<open>\<open>f64::is_finite\<close>: the exponent bits are not all ones.\<close>

definition f64_exponent :: "u64 \<Rightarrow> u64" where
  "f64_exponent bits = drop_bit 52 bits AND 0x7ff"

definition f64_mantissa :: "u64 \<Rightarrow> u64" where
  "f64_mantissa bits = bits AND 0xfffffffffffff"

definition is_finite :: "u64 \<Rightarrow> bool" where
  "is_finite bits \<longleftrightarrow> f64_exponent bits \<noteq> 0x7ff"

definition is_nan :: "u64 \<Rightarrow> bool" where
  "is_nan bits \<longleftrightarrow> f64_exponent bits = 0x7ff \<and> f64_mantissa bits \<noteq> 0"

definition is_infinite :: "u64 \<Rightarrow> bool" where
  "is_infinite bits \<longleftrightarrow> f64_exponent bits = 0x7ff \<and> f64_mantissa bits = 0"

section \<open>Heads, text and links\<close>

definition put_head :: "bytes \<Rightarrow> u8 \<Rightarrow> u64 \<Rightarrow> bytes" where
  "put_head buf major v =
     (let major = push_bit 5 major in
      if v < 24 then buf @ [major OR ucast v]
      else if v \<le> 0xff then buf @ [major OR 24, ucast v]
      else if v \<le> 0xffff then buf @ (major OR 25) # to_be_bytes 2 (ucast v :: u16)
      else if v \<le> 0xffffffff then buf @ (major OR 26) # to_be_bytes 4 (ucast v :: u32)
      else buf @ (major OR 27) # to_be_bytes 8 v)"

definition put_text :: "bytes \<Rightarrow> str \<Rightarrow> bytes" where
  "put_text buf s = put_head buf 3 (of_nat (length s)) @ s"

definition tag42 :: "cid \<Rightarrow> bytes" where
  "tag42 c = [0xd8, 0x2a, 0x58, 0x25, 0x00] @ cid_to_bytes c"

definition put_cid :: "bytes \<Rightarrow> cid \<Rightarrow> bytes" where
  "put_cid buf c = buf @ tag42 c"

section \<open>Key order\<close>

definition cbor_key_cmp :: "str \<Rightarrow> str \<Rightarrow> ordering" where
  "cbor_key_cmp a b =
     (if length a \<noteq> length b then cmp (length a) (length b)
      else
        let (a_words, a_rest) = as_chunks 8 a;
            (b_words, b_rest) = as_chunks 8 b
        in case find (\<lambda>(x, y). x \<noteq> y) (zip a_words b_words) of
             Some (x, y) \<Rightarrow> cmp (from_be_bytes x :: u64) (from_be_bytes y)
           | None \<Rightarrow>
               (case find (\<lambda>order. order \<noteq> Equal) (map (\<lambda>(x, y). cmp x y) (zip a_rest b_rest)) of
                  Some order \<Rightarrow> order
                | None \<Rightarrow> Equal))"

definition key_lt :: "str \<Rightarrow> str \<Rightarrow> bool" where
  "key_lt a b \<longleftrightarrow> cbor_key_cmp a b = Less"

section \<open>The two-pass writer\<close>

datatype rejected = Rejected

fun write_item :: "bool \<Rightarrow> bytes \<Rightarrow> cbor_value \<Rightarrow> rejected + bytes"
  and write_items :: "bool \<Rightarrow> bytes \<Rightarrow> cbor_value list \<Rightarrow> rejected + bytes"
  and write_entries :: "bool \<Rightarrow> bytes \<Rightarrow> str option \<Rightarrow> (str \<times> cbor_value) list \<Rightarrow> rejected + bytes"
  and write_sorted :: "bool \<Rightarrow> bytes \<Rightarrow> (str \<times> cbor_value) list \<Rightarrow> rejected + bytes"
where
  "write_item SORT buf (Unsigned n) = Inr (put_head buf 0 n)"
| "write_item SORT buf (Signed n) =
     (if 0 \<le> sint n then Inr (put_head buf 0 n) else Inr (put_head buf 1 (- 1 - n)))"
| "write_item SORT buf (Float f) =
     (if \<not> is_finite f then Inl Rejected else Inr (buf @ 0xfb # to_be_bytes 8 f))"
| "write_item SORT buf (Bool b) = Inr (buf @ [if b then 0xf5 else 0xf4])"
| "write_item SORT buf Null = Inr (buf @ [0xf6])"
| "write_item SORT buf (Text s) = Inr (put_text buf s)"
| "write_item SORT buf (Bytes b) = Inr (put_head buf 2 (of_nat (length b)) @ b)"
| "write_item SORT buf (CidV c) = Inr (put_cid buf c)"
| "write_item SORT buf (Array items) =
     write_items SORT (put_head buf 4 (of_nat (length items))) items"
| "write_item SORT buf (Map entries) =
     (let buf = put_head buf 5 (of_nat (length entries)) in
      if SORT \<and> \<not> all_windows (\<lambda>a b. key_lt (fst a) (fst b)) entries
      then write_sorted SORT buf (sort_by (\<lambda>a b. cbor_key_cmp (fst a) (fst b)) entries)
      else write_entries SORT buf None entries)"
| "write_items SORT buf [] = Inr buf"
| "write_items SORT buf (item # items) =
     and_then (write_item SORT buf item) (\<lambda>buf. write_items SORT buf items)"
| "write_entries SORT buf prev [] = Inr buf"
| "write_entries SORT buf prev ((key, val) # entries) =
     (if \<not> SORT \<and> (case prev of None \<Rightarrow> False | Some p \<Rightarrow> \<not> key_lt p key)
      then Inl Rejected
      else and_then (write_item SORT (put_text buf key) val)
             (\<lambda>buf. write_entries SORT buf (Some key) entries))"
| "write_sorted SORT buf [] = Inr buf"
| "write_sorted SORT buf ((key, val) # entries) =
     and_then (write_item SORT (put_text buf key) val) (\<lambda>buf. write_sorted SORT buf entries)"

definition non_finite :: cbor_error where
  "non_finite = InvalidCbor ''NaN and Infinity not allowed in DRISL''"

definition write_value :: "bytes \<Rightarrow> cbor_value \<Rightarrow> cbor_error + bytes" where
  "write_value buf v =
     (let start = length buf in
      case write_item False buf v of
        Inr buf' \<Rightarrow> Inr buf'
      | Inl Rejected \<Rightarrow> map_err (\<lambda>_. non_finite) (write_item True (take start buf) v))"

definition encode_value :: "cbor_value \<Rightarrow> cbor_error + bytes" where
  "encode_value v = write_value [] v"

definition encode_value_into :: "cbor_value \<Rightarrow> bytes \<Rightarrow> cbor_error + bytes" where
  "encode_value_into v buf = write_value buf v"

section \<open>Capacity estimate\<close>

fun estimated_size :: "cbor_value \<Rightarrow> nat"
  and estimated_array_size :: "nat \<Rightarrow> cbor_value list \<Rightarrow> nat"
  and estimated_map_size :: "nat \<Rightarrow> (str \<times> cbor_value) list \<Rightarrow> nat"
where
  "estimated_size (Unsigned _) = 9"
| "estimated_size (Signed _) = 9"
| "estimated_size (Float _) = 9"
| "estimated_size (Bool _) = 1"
| "estimated_size Null = 1"
| "estimated_size (Text s) = 5 + length s"
| "estimated_size (Bytes b) = 5 + length b"
| "estimated_size (CidV _) = 41"
| "estimated_size (Array items) = estimated_array_size 5 items"
| "estimated_size (Map entries) = estimated_map_size 5 entries"
| "estimated_array_size acc [] = acc"
| "estimated_array_size acc (item # items) =
     estimated_array_size (acc + estimated_size item) items"
| "estimated_map_size acc [] = acc"
| "estimated_map_size acc ((key, val) # entries) =
     estimated_map_size (acc + (5 + length key + estimated_size val)) entries"

section \<open>The streaming encoder\<close>

text \<open>
  \<open>Encoder<W>\<close> over a \<open>Vec<u8>\<close>, whose writes cannot fail: each method takes the bytes
  written so far and returns them extended.
\<close>

definition write_type_value :: "bytes \<Rightarrow> u8 \<Rightarrow> u64 \<Rightarrow> cbor_error + bytes" where
  "write_type_value w major v =
     (let major_bits = push_bit 5 major in
      if v < 24 then Inr (w @ [major_bits OR ucast v])
      else if v \<le> 0xff then Inr (w @ [major_bits OR 24, ucast v])
      else if v \<le> 0xffff then
        (let be = to_be_bytes 2 (ucast v :: u16) in Inr (w @ [major_bits OR 25, be ! 0, be ! 1]))
      else if v \<le> 0xffffffff then
        (let be = to_be_bytes 4 (ucast v :: u32)
         in Inr (w @ [major_bits OR 26, be ! 0, be ! 1, be ! 2, be ! 3]))
      else
        (let be = to_be_bytes 8 v
         in Inr (w @ [major_bits OR 27, be ! 0, be ! 1, be ! 2, be ! 3, be ! 4, be ! 5, be ! 6, be ! 7])))"

definition encode_u64 :: "bytes \<Rightarrow> u64 \<Rightarrow> cbor_error + bytes" where
  "encode_u64 w v = write_type_value w 0 v"

definition encode_i64 :: "bytes \<Rightarrow> u64 \<Rightarrow> cbor_error + bytes" where
  "encode_i64 w v = (if 0 \<le> sint v then write_type_value w 0 v else write_type_value w 1 (- 1 - v))"

definition encode_bool :: "bytes \<Rightarrow> bool \<Rightarrow> cbor_error + bytes" where
  "encode_bool w v = Inr (w @ [if v then 0xf5 else 0xf4])"

definition encode_null :: "bytes \<Rightarrow> cbor_error + bytes" where
  "encode_null w = Inr (w @ [0xf6])"

definition encode_f64 :: "bytes \<Rightarrow> u64 \<Rightarrow> cbor_error + bytes" where
  "encode_f64 w v =
     (if \<not> is_finite v then Inl non_finite
      else let be = to_be_bytes 8 v
        in Inr (w @ [0xfb, be ! 0, be ! 1, be ! 2, be ! 3, be ! 4, be ! 5, be ! 6, be ! 7]))"

definition encode_text :: "bytes \<Rightarrow> str \<Rightarrow> cbor_error + bytes" where
  "encode_text w v = and_then (write_type_value w 3 (of_nat (length v))) (\<lambda>w. Inr (w @ v))"

definition encode_bytes :: "bytes \<Rightarrow> bytes \<Rightarrow> cbor_error + bytes" where
  "encode_bytes w v = and_then (write_type_value w 2 (of_nat (length v))) (\<lambda>w. Inr (w @ v))"

definition encode_array_header :: "bytes \<Rightarrow> nat \<Rightarrow> cbor_error + bytes" where
  "encode_array_header w len = write_type_value w 4 (of_nat len)"

definition encode_map_header :: "bytes \<Rightarrow> nat \<Rightarrow> cbor_error + bytes" where
  "encode_map_header w len = write_type_value w 5 (of_nat len)"

definition encode_cid :: "bytes \<Rightarrow> cid \<Rightarrow> cbor_error + bytes" where
  "encode_cid w c = Inr (w @ tag42 c)"

fun encode_text_entries ::
  "bytes \<Rightarrow> str list \<Rightarrow> (bytes \<Rightarrow> str \<Rightarrow> cbor_error + bytes) \<Rightarrow> cbor_error + bytes" where
  "encode_text_entries w [] f = Inr w"
| "encode_text_entries w (key # keys) f =
     and_then (encode_text w key) (\<lambda>w. and_then (f w key) (\<lambda>w. encode_text_entries w keys f))"

definition encode_text_map ::
  "bytes \<Rightarrow> str list \<Rightarrow> (bytes \<Rightarrow> str \<Rightarrow> cbor_error + bytes) \<Rightarrow> cbor_error + bytes" where
  "encode_text_map w keys f =
     (let sorted_keys = sort_by cbor_key_cmp keys in
      and_then (encode_map_header w (length sorted_keys)) (\<lambda>w. encode_text_entries w sorted_keys f))"

end
