(* ===== verification/Cbor_Decode.thy ===== *)
theory Cbor_Decode
  imports Cbor_Encode
begin

text \<open>
  The strict DRISL decoder, \<open>src/src/cbor/decode.rs\<close>, and \<open>decode\<close> of \<open>src/src/cbor/mod.rs\<close>.

  A \<open>decoder\<close> is the input and the position; the nesting depth, which the source increments on
  entering a container and decrements on leaving it, is the argument \<open>depth\<close> of the recursion.
  What an error leaves in the decoder is not modelled: an error is the whole result, and its
  message is the text of the source without the interpolated numbers. UTF-8
  validation is the third-party \<open>simdutf8::basic::from_utf8\<close>, the parameter \<open>utf8\<close>.
\<close>

record decoder =
  dbuf :: bytes
  dpos :: nat

definition MAX_DEPTH :: nat where "MAX_DEPTH = 64"

definition MAX_COLLECTION_LEN :: nat where "MAX_COLLECTION_LEN = 500000"

definition decoder_new :: "bytes \<Rightarrow> decoder" where
  "decoder_new buf = \<lparr>dbuf = buf, dpos = 0\<rparr>"

definition decoder_is_empty :: "decoder \<Rightarrow> bool" where
  "decoder_is_empty d \<longleftrightarrow> dpos d \<ge> length (dbuf d)"

definition remaining :: "decoder \<Rightarrow> nat" where
  "remaining d = length (dbuf d) - dpos d"

section \<open>Primitive reads\<close>

definition read_byte :: "decoder \<Rightarrow> cbor_error + (u8 \<times> decoder)" where
  "read_byte d =
     (if dpos d \<ge> length (dbuf d) then Inl (InvalidCbor ''unexpected end of input'')
      else Inr (dbuf d ! dpos d, d\<lparr>dpos := dpos d + 1\<rparr>))"

definition read_fixed :: "nat \<Rightarrow> decoder \<Rightarrow> cbor_error + (bytes \<times> decoder)" where
  "read_fixed n d =
     (if dpos d + n > length (dbuf d) then Inl (InvalidCbor ''unexpected end of input'')
      else Inr (slice (dbuf d) (dpos d) (dpos d + n), d\<lparr>dpos := dpos d + n\<rparr>))"

definition read_slice :: "nat \<Rightarrow> decoder \<Rightarrow> cbor_error + (bytes \<times> decoder)" where
  "read_slice len d =
     (if dpos d + len \<ge> 2 ^ 64 then Inl (InvalidCbor ''length overflow'')
      else let stop = dpos d + len in
        if stop > length (dbuf d) then Inl (InvalidCbor ''unexpected end of input'')
        else Inr (slice (dbuf d) (dpos d) stop, d\<lparr>dpos := stop\<rparr>))"

definition read_argument :: "u8 \<Rightarrow> decoder \<Rightarrow> cbor_error + (u64 \<times> decoder)" where
  "read_argument additional d =
     (if additional \<le> 23 then Inr (ucast additional, d)
      else if additional = 24 then
        and_then (read_byte d) (\<lambda>(b, d).
          let v = ucast b :: u64 in
          if v < 24 then Inl (InvalidCbor ''non-minimal integer encoding: should use inline form'')
          else Inr (v, d))
      else if additional = 25 then
        and_then (read_fixed 2 d) (\<lambda>(bs, d).
          let v = ucast (from_be_bytes bs :: u16) :: u64 in
          if v \<le> 255 then Inl (InvalidCbor ''non-minimal integer encoding: should use 1-byte form'')
          else Inr (v, d))
      else if additional = 26 then
        and_then (read_fixed 4 d) (\<lambda>(bs, d).
          let v = ucast (from_be_bytes bs :: u32) :: u64 in
          if v \<le> 65535 then Inl (InvalidCbor ''non-minimal integer encoding: should use 2-byte form'')
          else Inr (v, d))
      else if additional = 27 then
        and_then (read_fixed 8 d) (\<lambda>(bs, d).
          let v = from_be_bytes bs :: u64 in
          if v \<le> 4294967295 then Inl (InvalidCbor ''non-minimal integer encoding: should use 4-byte form'')
          else Inr (v, d))
      else if additional \<le> 30 then Inl (InvalidCbor ''reserved additional info value'')
      else if additional = 31 then Inl (InvalidCbor ''indefinite length not allowed in DRISL'')
      else Inl (InvalidCbor ''invalid additional info''))"

definition read_string :: "u8 \<Rightarrow> decoder \<Rightarrow> cbor_error + (bytes \<times> decoder)" where
  "read_string additional d =
     and_then (read_argument additional d) (\<lambda>(len, d). read_slice (unat len) d)"

definition collection_len :: "u8 \<Rightarrow> string \<Rightarrow> decoder \<Rightarrow> cbor_error + (nat \<times> decoder)" where
  "collection_len additional too_long d =
     and_then (read_argument additional d) (\<lambda>(len, d).
       if unat len > MAX_COLLECTION_LEN then Inl (InvalidCbor too_long) else Inr (unat len, d))"

definition read_tag42_body :: "decoder \<Rightarrow> cbor_error + (cid \<times> decoder)" where
  "read_tag42_body d =
     and_then (read_byte d) (\<lambda>(inner, d).
       if drop_bit 5 inner \<noteq> 2 then Inl (InvalidCbor ''tag 42 must wrap a bytestring'')
       else and_then (read_argument (inner AND 0x1f) d) (\<lambda>(len, d).
         and_then (read_slice (unat len) d) (\<lambda>(bs, d).
           and_then (cid_from_tag42_bytes bs) (\<lambda>c. Inr (c, d)))))"

text \<open>A map key, with the canonical-order check on the encoded key bytes.\<close>

definition read_map_key_bytes :: "bytes \<Rightarrow> decoder \<Rightarrow> cbor_error + (bytes \<times> bytes \<times> decoder)" where
  "read_map_key_bytes prev_key_bytes d0 =
     and_then (read_byte d0) (\<lambda>(key_byte, d).
       if drop_bit 5 key_byte \<noteq> 3 then Inl (InvalidCbor ''map keys must be text strings'')
       else and_then (read_argument (key_byte AND 0x1f) d) (\<lambda>(key_len, d).
         and_then (read_slice (unat key_len) d) (\<lambda>(key_bytes, d).
           let key_encoded = slice (dbuf d) (dpos d0) (dpos d) in
           if prev_key_bytes \<noteq> [] then
             (case cmp prev_key_bytes key_encoded of
                Greater \<Rightarrow> Inl (InvalidCbor ''map keys not in canonical sort order'')
              | Equal \<Rightarrow> Inl (InvalidCbor ''duplicate map key'')
              | Less \<Rightarrow> Inr (key_bytes, key_encoded, d))
           else Inr (key_bytes, key_encoded, d))))"

definition read_map_key :: "(bytes \<Rightarrow> bool) \<Rightarrow> bytes \<Rightarrow> decoder \<Rightarrow> cbor_error + (str \<times> bytes \<times> decoder)" where
  "read_map_key utf8 prev_key_bytes d =
     and_then (read_map_key_bytes prev_key_bytes d) (\<lambda>(bs, prev_key_bytes, d).
       if utf8 bs then Inr (bs, prev_key_bytes, d)
       else Inl (InvalidCbor ''invalid UTF-8 in text string''))"

section \<open>Scalars\<close>

definition decode_simple :: "u8 \<Rightarrow> decoder \<Rightarrow> cbor_error + (cbor_value \<times> decoder)" where
  "decode_simple additional d =
     (if additional = 20 then Inr (Bool False, d)
      else if additional = 21 then Inr (Bool True, d)
      else if additional = 22 then Inr (Null, d)
      else if additional = 24 then Inl (InvalidCbor ''unsupported simple value'')
      else if additional = 25 then Inl (InvalidCbor ''half-precision floats not allowed in DRISL'')
      else if additional = 26 then Inl (InvalidCbor ''single-precision floats not allowed in DRISL'')
      else if additional = 27 then
        and_then (read_fixed 8 d) (\<lambda>(bs, d).
          let v = from_be_bytes bs :: u64 in
          if is_nan v then Inl (InvalidCbor ''NaN not allowed in DRISL'')
          else if is_infinite v then Inl (InvalidCbor ''Infinity not allowed in DRISL'')
          else Inr (Float v, d))
      else if additional = 31 then Inl (InvalidCbor ''indefinite length not allowed in DRISL'')
      else Inl (InvalidCbor ''unsupported simple value''))"

section \<open>Values\<close>

function decode_value :: "(bytes \<Rightarrow> bool) \<Rightarrow> nat \<Rightarrow> decoder \<Rightarrow> cbor_error + (cbor_value \<times> decoder)"
  and decode_items :: "(bytes \<Rightarrow> bool) \<Rightarrow> nat \<Rightarrow> nat \<Rightarrow> decoder \<Rightarrow> cbor_error + (cbor_value list \<times> decoder)"
  and decode_entries :: "(bytes \<Rightarrow> bool) \<Rightarrow> nat \<Rightarrow> nat \<Rightarrow> bytes \<Rightarrow> decoder \<Rightarrow>
    cbor_error + ((str \<times> cbor_value) list \<times> decoder)"
where
  "decode_value utf8 depth d =
     (if depth \<ge> MAX_DEPTH then Inl (InvalidCbor ''maximum nesting depth exceeded'')
      else and_then (read_byte d) (\<lambda>(initial_byte, d).
        let major = drop_bit 5 initial_byte; additional = initial_byte AND 0x1f in
        if major = 0 then
          and_then (read_argument additional d) (\<lambda>(n, d).
            if n > 0x7fffffffffffffff then Inl (InvalidCbor ''unsigned integer exceeds i64 range'')
            else Inr (Unsigned n, d))
        else if major = 1 then
          and_then (read_argument additional d) (\<lambda>(n, d).
            if n \<le> 0x7fffffffffffffff then Inr (Signed (- 1 - n), d)
            else Inl (InvalidCbor ''negative integer too large for i64''))
        else if major = 2 then
          and_then (read_string additional d) (\<lambda>(bs, d). Inr (Bytes bs, d))
        else if major = 3 then
          and_then (read_string additional d) (\<lambda>(bs, d).
            if utf8 bs then Inr (Text bs, d)
            else Inl (InvalidCbor ''invalid UTF-8 in text string''))
        else if major = 4 then
          and_then (collection_len additional ''array length exceeds maximum'' d) (\<lambda>(len, d).
            and_then (decode_items utf8 (depth + 1) len d) (\<lambda>(items, d). Inr (Array items, d)))
        else if major = 5 then
          and_then (collection_len additional ''map length exceeds maximum'' d) (\<lambda>(len, d).
            and_then (decode_entries utf8 (depth + 1) len [] d) (\<lambda>(entries, d). Inr (Map entries, d)))
        else if major = 6 then
          and_then (read_argument additional d) (\<lambda>(tag_num, d).
            if tag_num \<noteq> 42 then Inl (InvalidCbor ''unsupported CBOR tag (only tag 42 is allowed)'')
            else and_then (read_tag42_body d) (\<lambda>(c, d). Inr (CidV c, d)))
        else if major = 7 then decode_simple additional d
        else Inl (InvalidCbor ''invalid major type'')))"
| "decode_items utf8 depth 0 d = Inr ([], d)"
| "decode_items utf8 depth (Suc n) d =
     and_then (decode_value utf8 depth d) (\<lambda>(item, d).
       and_then (decode_items utf8 depth n d) (\<lambda>(items, d). Inr (item # items, d)))"
| "decode_entries utf8 depth 0 prev d = Inr ([], d)"
| "decode_entries utf8 depth (Suc n) prev d =
     and_then (read_map_key utf8 prev d) (\<lambda>(key, prev, d).
       and_then (decode_value utf8 depth d) (\<lambda>(val, d).
         and_then (decode_entries utf8 depth n prev d) (\<lambda>(entries, d).
           Inr ((key, val) # entries, d))))"
  by pat_completeness auto
termination
  by (relation "measures [
      \<lambda>x. (case x of Inl (u, depth, d) \<Rightarrow> MAX_DEPTH - depth
           | Inr (Inl (u, depth, n, d)) \<Rightarrow> MAX_DEPTH - depth
           | Inr (Inr (u, depth, n, p, d)) \<Rightarrow> MAX_DEPTH - depth),
      \<lambda>x. (case x of Inl _ \<Rightarrow> 0
           | Inr (Inl (u, depth, n, d)) \<Rightarrow> Suc n
           | Inr (Inr (u, depth, n, p, d)) \<Rightarrow> Suc n)]") auto

declare decode_value.simps [simp del]

definition decode :: "(bytes \<Rightarrow> bool) \<Rightarrow> bytes \<Rightarrow> cbor_error + cbor_value" where
  "decode utf8 data =
     and_then (decode_value utf8 0 (decoder_new data)) (\<lambda>(val, dec).
       if \<not> decoder_is_empty dec then Inl (InvalidCbor ''trailing data after value'')
       else Inr val)"

end
