(* ===== verification/Cbor_Canon.thy ===== *)
theory Cbor_Canon
  imports Cbor_Decode
begin

text \<open>
  Correctness of the DRISL codec. The reference encoder \<open>enc\<close> writes a value with no checks and
  no sorting, over heads on naturals (\<open>head\<close>); \<open>canon\<close> sorts the maps of a value at every
  level. The lemmas tie the writers of \<open>Cbor_Encode\<close> to \<open>enc\<close>, the key comparisons to the order
  of encoded keys, and the decoder to \<open>enc\<close> in both directions.
\<close>

section \<open>Heads on naturals\<close>

definition head :: "nat \<Rightarrow> nat \<Rightarrow> bytes" where
  "head m x =
     (if x < 24 then [of_nat (m * 32 + x)]
      else if x < 256 then of_nat (m * 32 + 24) # be_nat 1 x
      else if x < 65536 then of_nat (m * 32 + 25) # be_nat 2 x
      else if x < 4294967296 then of_nat (m * 32 + 26) # be_nat 4 x
      else of_nat (m * 32 + 27) # be_nat 8 x)"

lemma head_nonempty [simp]: "head m x \<noteq> []"
  by (simp add: head_def)

lemma length_head_le: "length (head m x) \<le> 9" "x < 4294967296 \<Longrightarrow> length (head m x) \<le> 5"
  by (simp_all add: head_def)

lemma push_5_or:
  assumes "a < 32"
  shows "push_bit 5 (m :: u8) OR of_nat a = of_nat (unat m * 32 + a)"
proof -
  have "unat (of_nat a :: u8) < 2 ^ 5"
    using assms by (simp add: unat_of_nat)
  then have "of_nat a OR push_bit 5 m = of_nat a + m * 2 ^ 5"
    by (rule or_push_bit_add)
  then show ?thesis by (simp add: or.commute add.commute)
qed

lemma put_head_head: "put_head buf m v = buf @ head (unat m) (unat v)"
proof -
  have c8: "(ucast v :: u8) = of_nat (unat v)" by simp
  have or_num: "push_bit 5 m OR 24 = of_nat (unat m * 32 + 24)"
    "push_bit 5 m OR 25 = of_nat (unat m * 32 + 25)"
    "push_bit 5 m OR 26 = of_nat (unat m * 32 + 26)"
    "push_bit 5 m OR 27 = of_nat (unat m * 32 + 27)"
    using push_5_or [of 24 m] push_5_or [of 25 m] push_5_or [of 26 m] push_5_or [of 27 m]
    by simp_all
  have "push_bit 5 m OR ucast v = of_nat (unat m * 32 + unat v)" if "unat v < 24"
    using push_5_or [of "unat v" m] that by (simp del: of_nat_add)
  moreover have "be_nat 1 (unat v) = [ucast v]" by (simp add: numeral_eq_Suc)
  moreover have "unat (ucast v :: u16) = unat v" if "unat v < 65536"
    using that by (simp add: unsigned_ucast_eq take_bit_eq_mod)
  moreover have "unat (ucast v :: u32) = unat v" if "unat v < 4294967296"
    using that by (simp add: unsigned_ucast_eq take_bit_eq_mod)
  ultimately show ?thesis
    by (simp add: put_head_def head_def or_num to_be_bytes_be_nat word_less_nat_alt word_le_nat_alt)
qed

section \<open>Key order\<close>

text \<open>The number in the first byte of a head, and the bytes after it.\<close>

definition lead :: "nat \<Rightarrow> nat" where
  "lead x = (if x < 24 then x else if x < 256 then 24 else if x < 65536 then 25
     else if x < 4294967296 then 26 else 27)"

definition lead_width :: "nat \<Rightarrow> nat" where
  "lead_width l = (if l < 24 then 0 else if l = 24 then 1 else if l = 25 then 2 else if l = 26 then 4 else 8)"

lemma lead_less: "lead x < 28" by (simp add: lead_def)

lemma head_lead:
  "head m x = of_nat (m * 32 + lead x) # be_nat (lead_width (lead x)) x"
  by (simp add: head_def lead_def lead_width_def)

lemma lead_mono: "x \<le> y \<Longrightarrow> lead x \<le> lead y"
  by (simp add: lead_def)

lemma lead_eq_less: "x < y \<Longrightarrow> lead x = lead y \<Longrightarrow> 24 \<le> lead x"
  by (simp add: lead_def split: if_splits)

lemma lead_width_bound:
  assumes "x < 2 ^ 64" "24 \<le> lead x"
  shows "x < 256 ^ lead_width (lead x)"
  using assms by (simp add: lead_def lead_width_def split: if_splits)

lemma of_nat_u8_less: "a < 256 \<Longrightarrow> b < 256 \<Longrightarrow> (of_nat a :: u8) < of_nat b \<longleftrightarrow> a < b"
  by (simp add: word_less_nat_alt unat_of_nat)

lemma of_nat_u8_eq: "a < 256 \<Longrightarrow> b < 256 \<Longrightarrow> (of_nat a :: u8) = of_nat b \<longleftrightarrow> a = b"
  by (simp add: word_unat_eq_iff unat_of_nat)

lemma head_less:
  assumes "m < 8" "x < y" "y < 2 ^ 64"
  shows "head m x @ a < head m y @ b"
proof -
  have b: "m * 32 + lead x < 256" "m * 32 + lead y < 256"
    using lead_less [of x] lead_less [of y] assms(1) by simp_all
  consider "lead x < lead y" | "lead x = lead y"
    using lead_mono [of x y] assms(2) by linarith
  then show ?thesis
  proof cases
    case 1
    with b show ?thesis by (simp add: head_lead of_nat_u8_less del: of_nat_add)
  next
    case 2
    with assms have w: "24 \<le> lead x" by (intro lead_eq_less)
    have "y < 256 ^ lead_width (lead y)"
      using assms w 2 by (intro lead_width_bound) simp_all
    with 2 assms(2) have "be_nat (lead_width (lead x)) x < be_nat (lead_width (lead y)) y"
      by (simp add: be_nat_less_iff)
    with 2 show ?thesis by (simp add: head_lead append_less_append_iff)
  qed
qed

lemma head_append_less_iff:
  assumes "m < 8" "x < 2 ^ 64" "y < 2 ^ 64"
  shows "head m x @ a < head m y @ b \<longleftrightarrow> x < y \<or> x = y \<and> a < b"
proof -
  consider "x < y" | "x = y" | "y < x" by linarith
  then show ?thesis
  proof cases
    case 1
    with head_less [of m x y a b] assms show ?thesis by simp
  next
    case 2
    then show ?thesis by (simp add: append_less_append_iff)
  next
    case 3
    with head_less [of m y x b a] assms show ?thesis by (auto dest: less_imp_not_less)
  qed
qed

definition enc_text :: "str \<Rightarrow> bytes" where
  "enc_text k = head 3 (length k) @ k"

lemma enc_text_nonempty [simp]: "enc_text k \<noteq> []"
  by (simp add: enc_text_def)

lemma put_text_enc: "length s < 2 ^ 64 \<Longrightarrow> put_text buf s = buf @ enc_text s"
  by (simp add: put_text_def enc_text_def put_head_head unat_of_nat)

lemma bytes_cmp:
  "length a = length b \<Longrightarrow>
     (case find (\<lambda>order. order \<noteq> Equal) (map (\<lambda>(x, y). cmp x y) (zip a b)) of
        Some order \<Rightarrow> order | None \<Rightarrow> Equal) = cmp (a :: bytes) b"
proof (induction a b rule: list_induct2)
  case Nil
  then show ?case by (simp add: cmp_def)
next
  case (Cons x xs y ys)
  then show ?case by (auto simp: cmp_def)
qed

lemma cmp_from_be_bytes:
  assumes "length u = length v" "length u = 8"
  shows "cmp (from_be_bytes u :: u64) (from_be_bytes v) = cmp u v"
proof -
  have "nat_be u < 2 ^ 64" "nat_be v < 2 ^ 64"
    using nat_be_less [of u] nat_be_less [of v] assms by simp_all
  then show ?thesis
    using assms by (simp add: cmp_def from_be_bytes_nat_be word_less_nat_alt word_unat_eq_iff
        unat_of_nat nat_be_less_iff nat_be_eq_iff)
qed

lemma words_cmp:
  "length a = length b \<Longrightarrow>
     (case find (\<lambda>(x, y). x \<noteq> y) (zip (fst (as_chunks 8 a)) (fst (as_chunks 8 b))) of
        Some (x, y) \<Rightarrow> cmp (from_be_bytes x :: u64) (from_be_bytes y)
      | None \<Rightarrow>
          (case find (\<lambda>order. order \<noteq> Equal)
              (map (\<lambda>(x, y). cmp x y) (zip (snd (as_chunks 8 a)) (snd (as_chunks 8 b)))) of
             Some order \<Rightarrow> order | None \<Rightarrow> Equal)) = cmp a b"
proof (induction "length a" arbitrary: a b rule: less_induct)
  case less
  show ?case
  proof (cases "length a < 8")
    case True
    with less.prems show ?thesis by (simp add: as_chunks_short bytes_cmp)
  next
    case False
    let ?u = "take 8 a" and ?v = "take 8 b"
    have ch: "as_chunks 8 a = (?u # fst (as_chunks 8 (drop 8 a)), snd (as_chunks 8 (drop 8 a)))"
      "as_chunks 8 b = (?v # fst (as_chunks 8 (drop 8 b)), snd (as_chunks 8 (drop 8 b)))"
      using False less.prems by (simp_all add: as_chunks_long)
    have len: "length ?u = length ?v" "length ?u = 8"
      using False less.prems by simp_all
    have split: "cmp a b = (if ?u = ?v then cmp (drop 8 a) (drop 8 b) else cmp ?u ?v)"
      using append_less_append_iff [OF len(1), of "drop 8 a" "drop 8 b"]
        append_eq_append_conv [of ?u ?v "drop 8 a" "drop 8 b"] len
      by (auto simp: cmp_def)
    show ?thesis
    proof (cases "?u = ?v")
      case True
      have "length (drop 8 a) < length a" using False by simp
      from less.hyps [OF this, of "drop 8 b"] less.prems True split show ?thesis
        unfolding ch fst_conv snd_conv by simp
    next
      case False
      with split cmp_from_be_bytes [OF len] show ?thesis by (simp add: ch)
    qed
  qed
qed

text \<open>The length-first order, decided a word at a time.\<close>

lemma cbor_key_cmp_spec:
  "cbor_key_cmp a b = (if length a = length b then cmp a b else cmp (length a) (length b))"
  using words_cmp [of a b] by (simp add: cbor_key_cmp_def case_prod_beta Let_def)

lemma key_lt_spec: "key_lt a b \<longleftrightarrow> length a < length b \<or> length a = length b \<and> a < b"
  by (auto simp: key_lt_def cbor_key_cmp_spec)

interpretation key_order: comparator cbor_key_cmp
proof unfold_locales
  fix x y z :: str
  show "cbor_key_cmp x y = Equal \<longleftrightarrow> x = y" by (auto simp: cbor_key_cmp_spec)
  show "cbor_key_cmp x y = Less \<longleftrightarrow> cbor_key_cmp y x = Greater" by (auto simp: cbor_key_cmp_spec)
  show "cbor_key_cmp x y = Less \<Longrightarrow> cbor_key_cmp y z = Less \<Longrightarrow> cbor_key_cmp x z = Less"
    by (auto simp: cbor_key_cmp_spec split: if_splits)
qed

lemma key_lt_trans: "transp key_lt"
  by (rule transpI) (auto simp: key_lt_spec)

lemma enc_text_less_iff:
  "length a < 2 ^ 64 \<Longrightarrow> length b < 2 ^ 64 \<Longrightarrow> enc_text a < enc_text b \<longleftrightarrow> key_lt a b"
  by (auto simp: enc_text_def head_append_less_iff key_lt_spec)

text \<open>
  Key comparison: for keys that fit in memory, the word-at-a-time \<open>cbor_key_cmp\<close> orders two keys
  exactly as the byte-wise comparison of their complete CBOR encodings does, the comparison the
  strict decoder makes. Writer and reader agree on the canonical key order.
\<close>

lemma cbor_key_cmp_encoded:
  assumes "length a < 2 ^ 64" and "length b < 2 ^ 64"
  shows "cbor_key_cmp a b = cmp (put_text [] a) (put_text [] b)"
proof -
  have "cmp (enc_text a) (enc_text b) = cbor_key_cmp a b"
  proof (cases "cbor_key_cmp a b")
    case Less
    then have "enc_text a < enc_text b" using assms by (simp add: enc_text_less_iff key_lt_def)
    with Less show ?thesis by (simp only: cmp_simps)
  next
    case Equal
    then have "a = b" by (simp only: key_order.c_Equal)
    with Equal show ?thesis by (simp only: cmp_simps)
  next
    case Greater
    then have "key_lt b a" unfolding key_lt_def by (simp only: key_order.c_flip)
    then have "enc_text b < enc_text a" using assms by (simp add: enc_text_less_iff)
    with Greater show ?thesis by (simp only: cmp_simps)
  qed
  with assms show ?thesis by (simp only: put_text_enc append_Nil)
qed

section \<open>The reference encoder\<close>

lemma size_entry [termination_simp]:
  "e \<in> set es \<Longrightarrow> size (snd e) < Suc (size_list (size_prod f size) es)"
proof (induction es)
  case Nil
  then show ?case by simp
next
  case (Cons a es)
  then show ?case by (cases a) auto
qed

fun enc :: "cbor_value \<Rightarrow> bytes" where
  "enc (Unsigned n) = head 0 (unat n)"
| "enc (Signed n) = (if 0 \<le> sint n then head 0 (unat n) else head 1 (unat (- 1 - n)))"
| "enc (Float f) = 0xfb # be_nat 8 (unat f)"
| "enc (Bool b) = [if b then 0xf5 else 0xf4]"
| "enc Null = [0xf6]"
| "enc (Text s) = enc_text s"
| "enc (Bytes b) = head 2 (length b) @ b"
| "enc (CidV c) = tag42 c"
| "enc (Array items) = head 4 (length items) @ concat (map enc items)"
| "enc (Map es) = head 5 (length es) @ concat (map (\<lambda>e. enc_text (fst e) @ enc (snd e)) es)"

abbreviation enc_entry :: "str \<times> cbor_value \<Rightarrow> bytes" where
  "enc_entry \<equiv> (\<lambda>e. enc_text (fst e) @ enc (snd e))"

text \<open>Every length fits a \<open>u64\<close>, as it does for any value held in memory.\<close>

fun fits :: "cbor_value \<Rightarrow> bool" where
  "fits (Text s) \<longleftrightarrow> length s < 2 ^ 64"
| "fits (Bytes b) \<longleftrightarrow> length b < 2 ^ 64"
| "fits (Array items) \<longleftrightarrow> length items < 2 ^ 64 \<and> (\<forall>v \<in> set items. fits v)"
| "fits (Map es) \<longleftrightarrow> length es < 2 ^ 64 \<and> (\<forall>e \<in> set es. length (fst e) < 2 ^ 64 \<and> fits (snd e))"
| "fits _ \<longleftrightarrow> True"

fun all_finite :: "cbor_value \<Rightarrow> bool" where
  "all_finite (Float f) \<longleftrightarrow> is_finite f"
| "all_finite (Array items) \<longleftrightarrow> (\<forall>v \<in> set items. all_finite v)"
| "all_finite (Map es) \<longleftrightarrow> (\<forall>e \<in> set es. all_finite (snd e))"
| "all_finite _ \<longleftrightarrow> True"

abbreviation keys_sorted :: "(str \<times> 'v) list \<Rightarrow> bool" where
  "keys_sorted es \<equiv> sorted_wrt (\<lambda>a b. key_lt (fst a) (fst b)) es"

fun maps_sorted :: "cbor_value \<Rightarrow> bool" where
  "maps_sorted (Array items) \<longleftrightarrow> (\<forall>v \<in> set items. maps_sorted v)"
| "maps_sorted (Map es) \<longleftrightarrow> keys_sorted es \<and> (\<forall>e \<in> set es. maps_sorted (snd e))"
| "maps_sorted _ \<longleftrightarrow> True"

abbreviation sort_entries :: "(str \<times> 'v) list \<Rightarrow> (str \<times> 'v) list" where
  "sort_entries \<equiv> sort_by (\<lambda>a b. cbor_key_cmp (fst a) (fst b))"

fun canon :: "cbor_value \<Rightarrow> cbor_value" where
  "canon (Array items) = Array (map canon items)"
| "canon (Map es) = Map (sort_entries (map (\<lambda>e. (fst e, canon (snd e))) es))"
| "canon v = v"

lemma sort_entries_id: "keys_sorted es \<Longrightarrow> sort_entries es = es"
  using key_order.sort_by_id [of fst es] by (simp add: key_lt_def)

lemma insert_entries_map:
  "insert_by (\<lambda>a b. cbor_key_cmp (fst a) (fst b)) (fst x, f (snd x)) (map (\<lambda>e. (fst e, f (snd e))) es) =
   map (\<lambda>e. (fst e, f (snd e))) (insert_by (\<lambda>a b. cbor_key_cmp (fst a) (fst b)) x es)"
  by (induction es) auto

lemma sort_entries_map:
  "sort_entries (map (\<lambda>e. (fst e, f (snd e))) es) = map (\<lambda>e. (fst e, f (snd e))) (sort_entries es)"
  by (induction es) (simp_all add: insert_entries_map)

lemma canon_maps_sorted: "maps_sorted v \<Longrightarrow> canon v = v"
proof (induction v)
  case (Array items)
  then show ?case by (auto intro: map_idI)
next
  case (Map es)
  then have "map (\<lambda>e. (fst e, canon (snd e))) es = es"
    by (intro map_idI) (auto simp: prod_eq_iff snds.simps)
  with Map show ?case by (simp add: sort_entries_id)
qed simp_all

section \<open>The writers against the reference\<close>

lemma write_items_spec:
  assumes "\<And>v buf. v \<in> set vs \<Longrightarrow> write_item S buf v = (if P v then Inr (buf @ f v) else Inl Rejected)"
  shows "write_items S buf vs =
    (if \<forall>v \<in> set vs. P v then Inr (buf @ concat (map f vs)) else Inl Rejected)"
  using assms by (induction vs arbitrary: buf) auto

lemma write_sorted_spec:
  assumes "\<And>e buf. e \<in> set es \<Longrightarrow>
      write_item S buf (snd e) = (if P (snd e) then Inr (buf @ f (snd e)) else Inl Rejected)"
    and "\<forall>e \<in> set es. length (fst e) < 2 ^ 64"
  shows "write_sorted S buf es =
    (if \<forall>e \<in> set es. P (snd e) then Inr (buf @ concat (map (\<lambda>e. enc_text (fst e) @ f (snd e)) es))
     else Inl Rejected)"
  using assms
proof (induction es arbitrary: buf)
  case Nil
  then show ?case by simp
next
  case (Cons e es)
  obtain k v where e: "e = (k, v)" by fastforce
  have "write_item S (put_text buf k) v = (if P v then Inr (put_text buf k @ f v) else Inl Rejected)"
    using Cons.prems(1) [of e] e by simp
  with Cons e show ?case by (auto simp: put_text_enc)
qed

lemma write_entries_spec:
  assumes "\<And>e buf. e \<in> set es \<Longrightarrow>
      write_item S buf (snd e) = (if P (snd e) then Inr (buf @ f (snd e)) else Inl Rejected)"
    and "\<forall>e \<in> set es. length (fst e) < 2 ^ 64"
  shows "write_entries S buf prev es =
    (if (\<forall>e \<in> set es. P (snd e)) \<and>
        (S \<or> all_windows key_lt ((case prev of None \<Rightarrow> [] | Some p \<Rightarrow> [p]) @ map fst es))
     then Inr (buf @ concat (map (\<lambda>e. enc_text (fst e) @ f (snd e)) es)) else Inl Rejected)"
  using assms
proof (induction es arbitrary: buf prev)
  case Nil
  then show ?case by (simp split: option.split)
next
  case (Cons e es)
  obtain k v where e: "e = (k, v)" by fastforce
  have "write_item S (put_text buf k) v = (if P v then Inr (put_text buf k @ f v) else Inl Rejected)"
    using Cons.prems(1) [of e] e by simp
  with Cons e show ?case by (auto simp: put_text_enc split: option.splits)
qed

lemma all_windows_map: "all_windows p (map f xs) = all_windows (\<lambda>a b. p (f a) (f b)) xs"
  by (induction "\<lambda>a b. p (f a) (f b)" xs rule: all_windows.induct) auto

lemma all_windows_keys: "all_windows (\<lambda>a b. key_lt (fst a) (fst b)) es = keys_sorted es"
  by (rule all_windows_sorted_wrt) (auto intro!: transpI dest: transpD [OF key_lt_trans])

lemma write_item_unsorted:
  "fits v \<Longrightarrow> write_item False buf v =
     (if all_finite v \<and> maps_sorted v then Inr (buf @ enc v) else Inl Rejected)"
proof (induction v arbitrary: buf)
  case (Array items)
  have "write_items False b items = (if \<forall>v \<in> set items. all_finite v \<and> maps_sorted v
      then Inr (b @ concat (map enc items)) else Inl Rejected)" for b
    by (rule write_items_spec) (use Array in auto)
  with Array.prems show ?case by (auto simp: put_head_head unat_of_nat)
next
  case (Map es)
  have "write_entries False b None es = (if (\<forall>e \<in> set es. all_finite (snd e) \<and> maps_sorted (snd e)) \<and>
      (False \<or> all_windows key_lt ((case None of None \<Rightarrow> [] | Some p \<Rightarrow> [p]) @ map fst es))
      then Inr (b @ concat (map (\<lambda>e. enc_text (fst e) @ enc (snd e)) es)) else Inl Rejected)" for b
    by (rule write_entries_spec) (use Map in \<open>auto simp: snds.simps\<close>)
  with Map.prems show ?case
    by (auto simp: put_head_head unat_of_nat all_windows_map all_windows_keys)
qed (simp_all add: put_head_head put_text_enc put_cid_def to_be_bytes_be_nat unat_of_nat)

lemma write_item_sorting:
  "fits v \<Longrightarrow> write_item True buf v =
     (if all_finite v then Inr (buf @ enc (canon v)) else Inl Rejected)"
proof (induction v arbitrary: buf)
  case (Array items)
  have "write_items True b items = (if \<forall>v \<in> set items. all_finite v
      then Inr (b @ concat (map (\<lambda>v. enc (canon v)) items)) else Inl Rejected)" for b
    by (rule write_items_spec) (use Array in auto)
  with Array.prems show ?case by (auto simp: put_head_head unat_of_nat comp_def)
next
  case (Map es)
  have IH: "write_item True b (snd e) = (if all_finite (snd e) then Inr (b @ enc (canon (snd e)))
      else Inl Rejected)" if "e \<in> set es" for e b
    using Map that by (auto simp: snds.simps)
  have w: "write_sorted True b (sort_entries es) = (if \<forall>e \<in> set (sort_entries es). all_finite (snd e)
      then Inr (b @ concat (map (\<lambda>e. enc_text (fst e) @ enc (canon (snd e))) (sort_entries es)))
      else Inl Rejected)" for b
    by (rule write_sorted_spec) (use IH Map.prems in auto)
  have "write_entries True b None es = (if (\<forall>e \<in> set es. all_finite (snd e)) \<and>
      (True \<or> all_windows key_lt ((case None of None \<Rightarrow> [] | Some p \<Rightarrow> [p]) @ map fst es))
      then Inr (b @ concat (map (\<lambda>e. enc_text (fst e) @ enc (canon (snd e))) es))
      else Inl Rejected)" for b
    by (rule write_entries_spec) (use IH Map.prems in auto)
  with w Map.prems show ?case
    by (auto simp: put_head_head unat_of_nat all_windows_keys sort_entries_map sort_entries_id comp_def
        Let_def)
qed (simp_all add: put_head_head put_text_enc put_cid_def to_be_bytes_be_nat unat_of_nat)

lemma write_value_spec:
  "fits v \<Longrightarrow> write_value buf v =
     (if all_finite v then Inr (buf @ enc (canon v)) else Inl non_finite)"
  by (auto simp: write_value_def write_item_unsorted write_item_sorting canon_maps_sorted
      split: rejected.splits)

text \<open>
  The optimistic first pass changes nothing: \<open>write_value\<close>, which assumes sorted maps and
  restarts with the sorting pass when that fails, gives the bytes or the error the sorting pass
  alone gives, for every value and every buffer it appends to.
\<close>

lemma write_value_is_sorting_pass:
  assumes "fits v"
  shows "write_value buf v = map_err (\<lambda>_. non_finite) (write_item True buf v)"
  using assms by (simp add: write_value_spec write_item_sorting)

end
