(* ===== verification/Cbor_Roundtrip.thy ===== *)
theory Cbor_Roundtrip
  imports Cbor_Canon
begin

text \<open>
  The strict decoder against the reference encoder: \<open>decode_value\<close> accepts at a position exactly
  the encodings \<open>enc v\<close> of the values it can represent (\<open>drisl\<close>), and returns \<open>v\<close>. The
  statements about \<open>decode\<close> and \<open>encode_value\<close> follow: round trip, canonicity and injectivity.
\<close>

section \<open>What a read consumes\<close>

text \<open>The decoder moves from \<open>d\<close> to \<open>d'\<close> over the bytes \<open>bs\<close>.\<close>

definition reads :: "decoder \<Rightarrow> bytes \<Rightarrow> decoder \<Rightarrow> bool" where
  "reads d bs d' \<longleftrightarrow> d' = d\<lparr>dpos := dpos d + length bs\<rparr> \<and>
     dpos d + length bs \<le> length (dbuf d) \<and>
     slice (dbuf d) (dpos d) (dpos d + length bs) = bs"

abbreviation in_bounds :: "decoder \<Rightarrow> bool" where
  "in_bounds d \<equiv> dpos d \<le> length (dbuf d) \<and> length (dbuf d) < 2 ^ 64"

lemma reads_dbuf: "reads d bs d' \<Longrightarrow> dbuf d' = dbuf d"
  and reads_dpos: "reads d bs d' \<Longrightarrow> dpos d' = dpos d + length bs \<and> dpos d' \<le> length (dbuf d)"
  by (simp_all add: reads_def)

lemma reads_in_bounds: "reads d bs d' \<Longrightarrow> in_bounds d \<Longrightarrow> in_bounds d'"
  by (simp add: reads_def)

lemma reads_Nil: "in_bounds d \<Longrightarrow> reads d [] d' \<longleftrightarrow> d' = d"
  by (auto simp: reads_def slice_def)

lemma reads_split:
  "reads d bs d' \<longleftrightarrow> (\<exists>pre post. dbuf d = pre @ bs @ post \<and> length pre = dpos d) \<and>
     d' = d\<lparr>dpos := dpos d + length bs\<rparr>"
proof
  assume r: "reads d bs d'"
  have "dbuf d = take (dpos d) (dbuf d) @ bs @ drop (dpos d + length bs) (dbuf d)"
  proof -
    have "drop (dpos d) (dbuf d) = take (length bs) (drop (dpos d) (dbuf d)) @
        drop (length bs) (drop (dpos d) (dbuf d))"
      by (simp only: append_take_drop_id)
    also have "take (length bs) (drop (dpos d) (dbuf d)) = bs"
      using r by (simp add: reads_def slice_def)
    finally have "drop (dpos d) (dbuf d) = bs @ drop (dpos d + length bs) (dbuf d)"
      by (simp add: drop_drop add.commute)
    then show ?thesis by (metis append_take_drop_id)
  qed
  moreover have "length (take (dpos d) (dbuf d)) = dpos d"
    using r by (simp add: reads_def)
  ultimately show "(\<exists>pre post. dbuf d = pre @ bs @ post \<and> length pre = dpos d) \<and>
      d' = d\<lparr>dpos := dpos d + length bs\<rparr>"
    using r by (auto simp: reads_def)
qed (auto simp: reads_def slice_def)

lemma reads_append:
  "reads d (a @ b) d'' \<longleftrightarrow> (\<exists>d'. reads d a d' \<and> reads d' b d'')"
proof
  assume "reads d (a @ b) d''"
  then obtain pre post where s: "dbuf d = pre @ a @ b @ post" "length pre = dpos d"
    "d'' = d\<lparr>dpos := dpos d + (length a + length b)\<rparr>"
    by (auto simp: reads_split)
  then have "reads d a (d\<lparr>dpos := dpos d + length a\<rparr>)" "reads (d\<lparr>dpos := dpos d + length a\<rparr>) b d''"
    by (auto simp: reads_def slice_def add.assoc)
  then show "\<exists>d'. reads d a d' \<and> reads d' b d''" by blast
next
  assume "\<exists>d'. reads d a d' \<and> reads d' b d''"
  then obtain d' where a: "reads d a d'" and b: "reads d' b d''" by blast
  from b have "take (length b) (drop (length a) (drop (dpos d) (dbuf d))) = b"
    using a by (simp add: reads_def slice_def drop_drop add.commute)
  moreover have "take (length a) (drop (dpos d) (dbuf d)) = a"
    using a by (simp add: reads_def slice_def)
  ultimately have "take (length a + length b) (drop (dpos d) (dbuf d)) = a @ b"
    by (simp only: take_add)
  then show "reads d (a @ b) d''"
    using a b by (auto simp: reads_def slice_def add.assoc)
qed

lemma reads_Cons: "reads d (a # b) d'' \<longleftrightarrow> (\<exists>d'. reads d [a] d' \<and> reads d' b d'')"
  using reads_append [of d "[a]" b d''] by simp

lemma reads_slice: "reads d bs d' \<Longrightarrow> slice (dbuf d') (dpos d) (dpos d') = bs"
  by (simp add: reads_def)

lemma read_byte_iff: "read_byte d = Inr (b, d') \<longleftrightarrow> reads d [b] d'"
  by (auto simp: read_byte_def reads_def slice_def Suc_diff_le take_Suc_conv_app_nth hd_drop_conv_nth
      take_Suc drop_eq_Nil not_le Suc_le_eq)

lemma read_fixed_iff: "read_fixed n d = Inr (bs, d') \<longleftrightarrow> reads d bs d' \<and> length bs = n"
  by (auto simp: read_fixed_def reads_def)

lemma read_slice_iff:
  "in_bounds d \<Longrightarrow> read_slice n d = Inr (bs, d') \<longleftrightarrow> reads d bs d' \<and> length bs = n"
  by (auto simp: read_slice_def reads_def Let_def)


section \<open>Heads\<close>

lemma u8_as_nat: "unat (b :: u8) = n \<Longrightarrow> b = of_nat n"
  by auto

lemma read_be:
  assumes "256 ^ k \<le> (2::nat) ^ LENGTH('a)" "LENGTH('a::len) \<le> 64"
  shows "(\<exists>bs. reads d bs d' \<and> length bs = k \<and> n = (ucast (from_be_bytes bs :: 'a word) :: u64)) \<longleftrightarrow>
    reads d (be_nat k (unat n)) d' \<and> unat n < 256 ^ k"
proof -
  have v: "unat (ucast (from_be_bytes bs :: 'a word) :: u64) = nat_be bs" if "length bs = k" for bs
  proof -
    have "nat_be bs < 2 ^ LENGTH('a)" using nat_be_less [of bs] assms that by simp
    moreover have "(2::nat) ^ LENGTH('a) \<le> 2 ^ 64" using assms(2) by (intro power_increasing) simp_all
    ultimately show ?thesis
      by (simp add: from_be_bytes_nat_be unsigned_ucast_eq unat_of_nat take_bit_eq_mod)
  qed
  show ?thesis
  proof
    assume "\<exists>bs. reads d bs d' \<and> length bs = k \<and> n = (ucast (from_be_bytes bs :: 'a word) :: u64)"
    then obtain bs where bs: "reads d bs d'" "length bs = k" "unat n = nat_be bs" using v by blast
    then show "reads d (be_nat k (unat n)) d' \<and> unat n < 256 ^ k"
      using nat_be_less [of bs] be_nat_nat_be [of bs] by simp
  next
    assume r: "reads d (be_nat k (unat n)) d' \<and> unat n < 256 ^ k"
    have "unat (ucast (from_be_bytes (be_nat k (unat n)) :: 'a word) :: u64) = unat n"
      using v [of "be_nat k (unat n)"] r by simp
    then have "n = ucast (from_be_bytes (be_nat k (unat n)) :: 'a word)"
      by (simp only: word_unat_eq_iff)
    with r show "\<exists>bs. reads d bs d' \<and> length bs = k \<and> n = (ucast (from_be_bytes bs :: 'a word) :: u64)"
      by (intro exI [of _ "be_nat k (unat n)"]) simp
  qed
qed

lemma unat_ucast_u8: "unat (ucast (b :: u8) :: u64) = unat b"
  using unat_u8_less [of b] by (simp add: unsigned_ucast_eq take_bit_eq_mod del: unat_u8_less)

lemma read_arg_1:
  "(\<exists>b. reads d [b] d' \<and> n = (ucast b :: u64)) \<longleftrightarrow> reads d (be_nat 1 (unat n)) d' \<and> unat n < 256"
proof
  assume "\<exists>b. reads d [b] d' \<and> n = (ucast b :: u64)"
  then obtain b where "reads d [b] d'" "unat n = unat b"
    using unat_ucast_u8 by blast
  then show "reads d (be_nat 1 (unat n)) d' \<and> unat n < 256"
    using unat_u8_less [of b] by (simp only: be_nat.simps One_nat_def power_0 div_by_1) simp
next
  assume r: "reads d (be_nat 1 (unat n)) d' \<and> unat n < 256"
  then have "n = (ucast (of_nat (unat n) :: u8) :: u64)"
    unfolding word_unat_eq_iff by (simp only: unsigned_ucast_eq unat_of_nat take_bit_eq_mod) simp
  with r show "\<exists>b. reads d [b] d' \<and> n = (ucast b :: u64)"
    by (intro exI [of _ "of_nat (unat n)"])
      (simp only: be_nat.simps One_nat_def power_0 div_by_1 div_by_Suc_0 simp_thms)
qed


lemma read_argument_iff:
  assumes "in_bounds d"
  shows "read_argument a d = Inr (n, d') \<longleftrightarrow>
    unat a = lead (unat n) \<and> reads d (be_nat (lead_width (lead (unat n))) (unat n)) d'"
proof -
  have n: "unat n < 256 ^ 8" using unsigned_less [of n, where ?'a = nat] by simp
  consider "unat a \<le> 23" | "unat a = 24" | "unat a = 25" | "unat a = 26" | "unat a = 27" | "unat a > 27"
    by linarith
  then show ?thesis
  proof cases
    case 1
    then have "ucast a = n \<longleftrightarrow> unat a = unat n"
      by (simp only: word_unat_eq_iff unat_ucast_u8)
    with 1 assms show ?thesis
      by (auto simp: read_argument_def word_le_nat_alt lead_def lead_width_def reads_Nil split: if_splits)
  next
    case 2
    then have a: "a = 24" by (simp add: word_unat_eq_iff)
    have "read_argument a d = Inr (n, d') \<longleftrightarrow>
        (\<exists>b. reads d [b] d' \<and> n = (ucast b :: u64)) \<and> \<not> unat n < 24"
      by (auto simp: a read_argument_def and_then_eq_Inr read_byte_iff Let_def word_less_nat_alt)
    with 2 show ?thesis by (simp only: read_arg_1) (auto simp: lead_def lead_width_def)
  next
    case 3
    then have a: "a = 25" by (simp add: word_unat_eq_iff)
    have "read_argument a d = Inr (n, d') \<longleftrightarrow>
        (\<exists>bs. reads d bs d' \<and> length bs = 2 \<and> n = (ucast (from_be_bytes bs :: u16) :: u64)) \<and> \<not> unat n \<le> 255"
      by (auto simp: a read_argument_def and_then_eq_Inr read_fixed_iff Let_def word_le_nat_alt)
    with 3 show ?thesis by (subst (asm) read_be) (auto simp: lead_def lead_width_def)
  next
    case 4
    then have a: "a = 26" by (simp add: word_unat_eq_iff)
    have "read_argument a d = Inr (n, d') \<longleftrightarrow>
        (\<exists>bs. reads d bs d' \<and> length bs = 4 \<and> n = (ucast (from_be_bytes bs :: u32) :: u64)) \<and> \<not> unat n \<le> 65535"
      by (auto simp: a read_argument_def and_then_eq_Inr read_fixed_iff Let_def word_le_nat_alt)
    with 4 show ?thesis by (subst (asm) read_be) (auto simp: lead_def lead_width_def)
  next
    case 5
    then have a: "a = 27" by (simp add: word_unat_eq_iff)
    have "read_argument a d = Inr (n, d') \<longleftrightarrow>
        (\<exists>bs. reads d bs d' \<and> length bs = 8 \<and> n = (ucast (from_be_bytes bs :: u64) :: u64)) \<and> \<not> unat n \<le> 4294967295"
      by (auto simp: a read_argument_def and_then_eq_Inr read_fixed_iff Let_def word_le_nat_alt)
    with 5 n show ?thesis by (subst (asm) read_be) (auto simp: lead_def lead_width_def)
  next
    case 6
    then have "\<not> a \<le> 23" "a \<noteq> 24" "a \<noteq> 25" "a \<noteq> 26" "a \<noteq> 27"
      by (auto simp: word_le_nat_alt)
    moreover have "unat a \<noteq> lead (unat n)" using lead_less [of "unat n"] 6 by linarith
    ultimately show ?thesis by (simp add: read_argument_def)
  qed
qed

text \<open>The initial byte of an item splits into the major type and the additional information.\<close>

lemma initial_byte:
  assumes "m < 8" "l < 32"
  shows "drop_bit 5 (b :: u8) = of_nat m \<and> b AND 0x1f = of_nat l \<longleftrightarrow> b = of_nat (m * 32 + l)"
proof -
  have d: "unat (drop_bit 5 b) = unat b div 32"
    unfolding unat_drop_bit_eq by (simp add: drop_bit_eq_div)
  have "b AND 0x1f = take_bit 5 b" by (simp add: take_bit_eq_mask mask_eq_exp_minus_1)
  then have t: "unat (b AND 0x1f) = unat b mod 32"
    by (simp only: unsigned_take_bit_eq) (simp add: take_bit_eq_mod)
  have "drop_bit 5 b = of_nat m \<and> b AND 0x1f = of_nat l \<longleftrightarrow> unat b div 32 = m \<and> unat b mod 32 = l"
    using assms by (simp only: word_unat_eq_iff d t) (simp add: unat_of_nat)
  also have "\<dots> \<longleftrightarrow> unat b = m * 32 + l"
    using assms by auto
  also have "\<dots> \<longleftrightarrow> b = of_nat (m * 32 + l)"
    using assms by (simp only: word_unat_eq_iff) (simp add: unat_of_nat del: of_nat_add of_nat_mult)
  finally show ?thesis .
qed

lemma read_head_iff:
  assumes "in_bounds d" "m < 8"
  shows "(\<exists>b d1. read_byte d = Inr (b, d1) \<and> drop_bit 5 b = of_nat m \<and>
      read_argument (b AND 0x1f) d1 = Inr (n, d')) \<longleftrightarrow> reads d (head m (unat n)) d'"
proof -
  have a: "unat (b AND 0x1f) = lead (unat n) \<longleftrightarrow> b AND 0x1f = of_nat (lead (unat n))" for b :: u8
    using lead_less [of "unat n"] by (simp add: word_unat_eq_iff unat_of_nat)
  have arg: "(drop_bit 5 b = of_nat m \<and> read_argument (b AND 0x1f) d1 = Inr (n, d')) \<longleftrightarrow>
      (drop_bit 5 b = of_nat m \<and> b AND 0x1f = of_nat (lead (unat n))) \<and>
      reads d1 (be_nat (lead_width (lead (unat n))) (unat n)) d'" if "reads d [b] d1" for b d1
    using read_argument_iff [OF reads_in_bounds [OF that assms(1)]] a by (simp only: conj_assoc)
  have i: "drop_bit 5 (b :: u8) = of_nat m \<and> b AND 0x1f = of_nat (lead (unat n)) \<longleftrightarrow>
      b = of_nat (m * 32 + lead (unat n))" for b
    using assms(2) lead_less [of "unat n"] by (intro initial_byte) simp_all
  have "(\<exists>b d1. read_byte d = Inr (b, d1) \<and> drop_bit 5 b = of_nat m \<and>
      read_argument (b AND 0x1f) d1 = Inr (n, d')) \<longleftrightarrow>
    (\<exists>b d1. reads d [b] d1 \<and> (drop_bit 5 b = of_nat m \<and> b AND 0x1f = of_nat (lead (unat n))) \<and>
      reads d1 (be_nat (lead_width (lead (unat n))) (unat n)) d')"
    unfolding read_byte_iff
    by (intro ex_cong1, rule conj_cong [OF refl], rule arg)
  also have "\<dots> \<longleftrightarrow> (\<exists>d1. reads d [of_nat (m * 32 + lead (unat n))] d1 \<and>
      reads d1 (be_nat (lead_width (lead (unat n))) (unat n)) d')"
    by (simp only: i) blast
  also have "\<dots> \<longleftrightarrow> reads d (head m (unat n)) d'"
    unfolding head_lead by (rule reads_Cons [symmetric])
  finally show ?thesis .
qed


section \<open>One item\<close>

lemma major_cases:
  "drop_bit 5 (b :: u8) = 0 \<or> drop_bit 5 b = 1 \<or> drop_bit 5 b = 2 \<or> drop_bit 5 b = 3 \<or>
   drop_bit 5 b = 4 \<or> drop_bit 5 b = 5 \<or> drop_bit 5 b = 6 \<or> drop_bit 5 b = 7"
proof -
  have "unat (drop_bit 5 b) = unat b div 32"
    unfolding unat_drop_bit_eq by (simp add: drop_bit_eq_div)
  then have "unat (drop_bit 5 b) < 8"
    using unat_u8_less [of b] by linarith
  then have "unat (drop_bit 5 b) \<in> {0, 1, 2, 3, 4, 5, 6, 7}" by auto
  then show ?thesis by (simp only: word_unat_eq_iff) simp
qed

lemma read_head_num:
  assumes "in_bounds d"
  shows "reads d (head 0 (unat n)) d' \<longleftrightarrow> (\<exists>b d1. read_byte d = Inr (b, d1) \<and> drop_bit 5 b = 0 \<and>
      read_argument (b AND 0x1f) d1 = Inr (n, d'))"
    and "reads d (head 1 (unat n)) d' \<longleftrightarrow> (\<exists>b d1. read_byte d = Inr (b, d1) \<and> drop_bit 5 b = 1 \<and>
      read_argument (b AND 0x1f) d1 = Inr (n, d'))"
    and "reads d (head 2 (unat n)) d' \<longleftrightarrow> (\<exists>b d1. read_byte d = Inr (b, d1) \<and> drop_bit 5 b = 2 \<and>
      read_argument (b AND 0x1f) d1 = Inr (n, d'))"
    and "reads d (head 3 (unat n)) d' \<longleftrightarrow> (\<exists>b d1. read_byte d = Inr (b, d1) \<and> drop_bit 5 b = 3 \<and>
      read_argument (b AND 0x1f) d1 = Inr (n, d'))"
    and "reads d (head 4 (unat n)) d' \<longleftrightarrow> (\<exists>b d1. read_byte d = Inr (b, d1) \<and> drop_bit 5 b = 4 \<and>
      read_argument (b AND 0x1f) d1 = Inr (n, d'))"
    and "reads d (head 5 (unat n)) d' \<longleftrightarrow> (\<exists>b d1. read_byte d = Inr (b, d1) \<and> drop_bit 5 b = 5 \<and>
      read_argument (b AND 0x1f) d1 = Inr (n, d'))"
    and "reads d (head 6 (unat n)) d' \<longleftrightarrow> (\<exists>b d1. read_byte d = Inr (b, d1) \<and> drop_bit 5 b = 6 \<and>
      read_argument (b AND 0x1f) d1 = Inr (n, d'))"
  using read_head_iff [OF assms, of 0 n d'] read_head_iff [OF assms, of 1 n d']
    read_head_iff [OF assms, of 2 n d'] read_head_iff [OF assms, of 3 n d']
    read_head_iff [OF assms, of 4 n d'] read_head_iff [OF assms, of 5 n d']
    read_head_iff [OF assms, of 6 n d']
  by simp_all

lemma decode_value_item:
  assumes "in_bounds d"
  shows "decode_value u k d = Inr (v, d') \<longleftrightarrow> k < MAX_DEPTH \<and> (
      (\<exists>n. reads d (head 0 (unat n)) d' \<and> n \<le> 0x7fffffffffffffff \<and> v = Unsigned n)
    \<or> (\<exists>n. reads d (head 1 (unat n)) d' \<and> n \<le> 0x7fffffffffffffff \<and> v = Signed (- 1 - n))
    \<or> (\<exists>(n :: u64) d1 bs. reads d (head 2 (unat n)) d1 \<and> read_slice (unat n) d1 = Inr (bs, d') \<and> v = Bytes bs)
    \<or> (\<exists>(n :: u64) d1 bs. reads d (head 3 (unat n)) d1 \<and> read_slice (unat n) d1 = Inr (bs, d') \<and> u bs \<and> v = Text bs)
    \<or> (\<exists>(n :: u64) d1 vs. reads d (head 4 (unat n)) d1 \<and> unat n \<le> MAX_COLLECTION_LEN \<and>
         decode_items u (k + 1) (unat n) d1 = Inr (vs, d') \<and> v = Array vs)
    \<or> (\<exists>(n :: u64) d1 es. reads d (head 5 (unat n)) d1 \<and> unat n \<le> MAX_COLLECTION_LEN \<and>
         decode_entries u (k + 1) (unat n) [] d1 = Inr (es, d') \<and> v = Map es)
    \<or> (\<exists>d1 c. reads d (head 6 (unat (42 :: u64))) d1 \<and> read_tag42_body d1 = Inr (c, d') \<and> v = CidV c)
    \<or> (\<exists>b d1. read_byte d = Inr (b, d1) \<and> drop_bit 5 b = 7 \<and> decode_simple (b AND 0x1f) d1 = Inr (v, d')))"
proof (cases "read_byte d")
  case (Inl e)
  then show ?thesis
    unfolding read_head_num [OF assms] by (subst decode_value.simps) simp
next
  case (Inr x)
  then obtain b d1 where x: "read_byte d = Inr (b, d1)" by (cases x) auto
  show ?thesis
    unfolding read_head_num [OF assms] x
    by (subst decode_value.simps, use major_cases [of b] in \<open>elim disjE\<close>)
      (auto simp: x and_then_eq_Inr read_string_def collection_len_def not_le not_less)
qed


section \<open>The values the decoder can return\<close>

text \<open>At nesting depth \<open>k\<close>, with text accepted by \<open>u\<close>.\<close>

fun drisl :: "(bytes \<Rightarrow> bool) \<Rightarrow> nat \<Rightarrow> cbor_value \<Rightarrow> bool" where
  "drisl u k (Unsigned n) \<longleftrightarrow> k < MAX_DEPTH \<and> n \<le> 0x7fffffffffffffff"
| "drisl u k (Signed n) \<longleftrightarrow> k < MAX_DEPTH \<and> sint n < 0"
| "drisl u k (Float f) \<longleftrightarrow> k < MAX_DEPTH \<and> is_finite f"
| "drisl u k (Text s) \<longleftrightarrow> k < MAX_DEPTH \<and> u s \<and> length s < 2 ^ 64"
| "drisl u k (Bytes b) \<longleftrightarrow> k < MAX_DEPTH \<and> length b < 2 ^ 64"
| "drisl u k (CidV c) \<longleftrightarrow> k < MAX_DEPTH \<and> cid_valid c"
| "drisl u k (Array vs) \<longleftrightarrow> k < MAX_DEPTH \<and> length vs \<le> MAX_COLLECTION_LEN \<and> (\<forall>v \<in> set vs. drisl u (Suc k) v)"
| "drisl u k (Map es) \<longleftrightarrow> k < MAX_DEPTH \<and> length es \<le> MAX_COLLECTION_LEN \<and> keys_sorted es \<and>
     (\<forall>e \<in> set es. u (fst e) \<and> length (fst e) < 2 ^ 64 \<and> drisl u (Suc k) (snd e))"
| "drisl u k _ \<longleftrightarrow> k < MAX_DEPTH"

lemma sint_neg_iff: "sint (n :: u64) < 0 \<longleftrightarrow> - 1 - n \<le> 0x7fffffffffffffff"
proof -
  have "sint n < 0 \<longleftrightarrow> bit n 63" by (simp add: sint_uint bit_last_iff signed_take_bit_negative_iff bit_simps)
  also have "\<dots> \<longleftrightarrow> 2 ^ 63 \<le> unat n"
  proof -
    have "bit n 63 \<longleftrightarrow> odd (unat n div 2 ^ 63)"
      using bit_unsigned_iff [of n 63, where ?'a = nat] by (simp add: bit_iff_odd)
    moreover have "unat n < 2 ^ 64" using unsigned_less [of n, where ?'a = nat] by simp
    then have "unat n div 2 ^ 63 < 2" by simp
    then have "odd (unat n div 2 ^ 63) \<longleftrightarrow> unat n div 2 ^ 63 = 1"
      by (metis One_nat_def less_2_cases odd_one even_zero)
    ultimately show ?thesis
      using \<open>unat n div 2 ^ 63 < 2\<close> div_greater_zero_iff [of "unat n" "2 ^ 63"] by auto
  qed
  also have "\<dots> \<longleftrightarrow> unat (- 1 - n) \<le> 0x7fffffffffffffff"
  proof -
    have "unat n < 2 ^ 64" using unsigned_less [of n, where ?'a = nat] by simp
    moreover have "unat (- 1 - n) = 2 ^ 64 - 1 - unat n"
      using unat_sub [OF word_order.extremum [of n]]
      by (simp add: unsigned_minus_1_eq_mask mask_eq_exp_minus_1)
    ultimately show ?thesis by simp linarith
  qed
  finally show ?thesis by (simp add: word_le_nat_alt)
qed

lemma signed_item:
  "(\<exists>m. reads d (head 1 (unat m)) d' \<and> m \<le> 0x7fffffffffffffff \<and> n = - 1 - (m :: u64)) \<longleftrightarrow>
     sint n < 0 \<and> reads d (enc (Signed n)) d'"
proof -
  have "n = - 1 - m \<longleftrightarrow> m = - 1 - n" for m by (auto simp: algebra_simps)
  then have "(\<exists>m. reads d (head 1 (unat m)) d' \<and> m \<le> 0x7fffffffffffffff \<and> n = - 1 - m) \<longleftrightarrow>
      reads d (head 1 (unat (- 1 - n))) d' \<and> sint n < 0"
    by (simp only: sint_neg_iff) blast
  then show ?thesis by auto
qed

lemma cid_from_tag42_bytes_iff:
  "cid_from_tag42_bytes bs = Inr c \<longleftrightarrow> cid_valid c \<and> bs = cid_to_tag42_bytes c"
  using tag42_canonical tag42_roundtrip by blast

lemma tag42_heads: "tag42 c = head 6 42 @ head 2 37 @ cid_to_tag42_bytes c"
  by (simp add: tag42_def head_def cid_to_tag42_bytes_def numeral_eq_Suc)


lemma read_tag42_body_iff:
  assumes "in_bounds d"
  shows "read_tag42_body d = Inr (c, d') \<longleftrightarrow> cid_valid c \<and> reads d (head 2 37 @ cid_to_tag42_bytes c) d'"
proof -
  have "read_tag42_body d = Inr (c, d') \<longleftrightarrow>
      (\<exists>(n :: u64) d1. reads d (head 2 (unat n)) d1 \<and>
        (\<exists>bs. read_slice (unat n) d1 = Inr (bs, d') \<and> cid_from_tag42_bytes bs = Inr c))"
    unfolding read_head_num [OF assms] by (auto simp: read_tag42_body_def and_then_eq_Inr split: if_splits)
  also have "\<dots> \<longleftrightarrow> (\<exists>(n :: u64) d1. reads d (head 2 (unat n)) d1 \<and>
      reads d1 (cid_to_tag42_bytes c) d' \<and> length (cid_to_tag42_bytes c) = unat n \<and> cid_valid c)"
  proof (intro ex_cong1 conj_cong refl)
    fix n :: u64 and d1
    assume "reads d (head 2 (unat n)) d1"
    then have "in_bounds d1" by (rule reads_in_bounds [OF _ assms])
    then show "(\<exists>bs. read_slice (unat n) d1 = Inr (bs, d') \<and> cid_from_tag42_bytes bs = Inr c) \<longleftrightarrow>
        reads d1 (cid_to_tag42_bytes c) d' \<and> length (cid_to_tag42_bytes c) = unat n \<and> cid_valid c"
      by (auto simp: read_slice_iff cid_from_tag42_bytes_iff)
  qed
  also have "\<dots> \<longleftrightarrow> cid_valid c \<and> (\<exists>d1. reads d (head 2 37) d1 \<and> reads d1 (cid_to_tag42_bytes c) d')"
  proof -
    have "length (cid_to_tag42_bytes c) = unat n \<longleftrightarrow> n = 37" if "cid_valid c" for n :: u64
      using that by (auto simp: cid_to_tag42_bytes_def word_unat_eq_iff)
    moreover have "unat (37 :: u64) = 37" by simp
    ultimately show ?thesis by metis
  qed
  finally show ?thesis by (simp only: reads_append)
qed

lemma f64_classes: "is_finite f \<longleftrightarrow> \<not> is_nan f \<and> \<not> is_infinite f"
  by (auto simp: is_finite_def is_nan_def is_infinite_def)

lemma decode_simple_iff:
  "decode_simple a d = Inr (v, d') \<longleftrightarrow>
     (a = 20 \<and> v = Bool False \<and> d' = d) \<or> (a = 21 \<and> v = Bool True \<and> d' = d) \<or> (a = 22 \<and> v = Null \<and> d' = d) \<or>
     (a = 27 \<and> (\<exists>f. v = Float f \<and> is_finite f \<and> reads d (be_nat 8 (unat f)) d'))"
proof (cases "a = 27")
  case True
  have "(\<exists>bs. reads d bs d' \<and> length bs = 8 \<and> f = (ucast (from_be_bytes bs :: u64) :: u64)) \<longleftrightarrow>
      reads d (be_nat 8 (unat f)) d'" for f :: u64
    using unsigned_less [of f, where ?'a = nat] by (subst read_be) simp_all
  then have "(\<exists>f. v = Float f \<and> is_finite f \<and> reads d (be_nat 8 (unat f)) d') \<longleftrightarrow>
      (\<exists>bs. reads d bs d' \<and> length bs = 8 \<and> v = Float (from_be_bytes bs) \<and> is_finite (from_be_bytes bs))"
    unfolding ucast_id by (metis (no_types))
  with True show ?thesis
    by (auto simp: decode_simple_def and_then_eq_Inr read_fixed_iff Let_def f64_classes)
qed (auto simp: decode_simple_def)

lemma simple_item:
  assumes "in_bounds d"
  shows "(\<exists>b d1. read_byte d = Inr (b, d1) \<and> drop_bit 5 b = 7 \<and> decode_simple (b AND 0x1f) d1 = Inr (v, d')) \<longleftrightarrow>
     (case v of Bool _ \<Rightarrow> reads d (enc v) d' | Null \<Rightarrow> reads d (enc v) d'
      | Float f \<Rightarrow> is_finite f \<and> reads d (enc v) d' | _ \<Rightarrow> False)"
proof -
  have b: "drop_bit 5 (b :: u8) = 7 \<and> b AND 0x1f = 20 \<longleftrightarrow> b = 0xf4"
    "drop_bit 5 b = 7 \<and> b AND 0x1f = 21 \<longleftrightarrow> b = 0xf5"
    "drop_bit 5 b = 7 \<and> b AND 0x1f = 22 \<longleftrightarrow> b = 0xf6"
    "drop_bit 5 b = 7 \<and> b AND 0x1f = 27 \<longleftrightarrow> b = 0xfb" for b
    using initial_byte [of 7 20 b] initial_byte [of 7 21 b] initial_byte [of 7 22 b] initial_byte [of 7 27 b]
    by simp_all
  have distr: "P \<and> (a \<and> A \<or> b \<and> B \<or> c \<and> C \<or> e \<and> E) \<longleftrightarrow>
      (P \<and> a) \<and> A \<or> (P \<and> b) \<and> B \<or> (P \<and> c) \<and> C \<or> (P \<and> e) \<and> E" for P a b c e A B C E
    by blast
  have "(\<exists>b d1. read_byte d = Inr (b, d1) \<and> drop_bit 5 b = 7 \<and> decode_simple (b AND 0x1f) d1 = Inr (v, d')) \<longleftrightarrow>
      (v = Bool False \<and> reads d [0xf4] d') \<or> (v = Bool True \<and> reads d [0xf5] d') \<or> (v = Null \<and> reads d [0xf6] d') \<or>
      (\<exists>f. v = Float f \<and> is_finite f \<and> reads d (0xfb # be_nat 8 (unat f)) d')"
    unfolding decode_simple_iff read_byte_iff reads_Cons [of d "0xfb" "be_nat 8 _"] distr b
    by blast
  then show ?thesis by (cases v) auto
qed


section \<open>The decoder accepts exactly the encodings\<close>

lemma decode_items_iff:
  assumes "\<And>v d d'. v \<in> set vs \<Longrightarrow> in_bounds d \<Longrightarrow>
      decode_value u k d = Inr (v, d') \<longleftrightarrow> drisl u k v \<and> reads d (enc v) d'"
    and "in_bounds d"
  shows "decode_items u k n d = Inr (vs, d') \<longleftrightarrow>
    length vs = n \<and> (\<forall>v \<in> set vs. drisl u k v) \<and> reads d (concat (map enc vs)) d'"
  using assms
proof (induction vs arbitrary: n d)
  case Nil
  then show ?case by (cases n) (auto simp: reads_Nil and_then_eq_Inr)
next
  case (Cons v vs)
  show ?case
  proof (cases n)
    case 0
    then show ?thesis by auto
  next
    case (Suc m)
    have "decode_items u k n d = Inr (v # vs, d') \<longleftrightarrow>
        (\<exists>d1. decode_value u k d = Inr (v, d1) \<and> decode_items u k m d1 = Inr (vs, d'))"
      by (auto simp: Suc and_then_eq_Inr)
    also have "\<dots> \<longleftrightarrow> (\<exists>d1. (drisl u k v \<and> reads d (enc v) d1) \<and> length vs = m \<and>
        (\<forall>v \<in> set vs. drisl u k v) \<and> reads d1 (concat (map enc vs)) d')"
    proof (intro ex_cong1 conj_cong)
      show "decode_value u k d = Inr (v, d1) \<longleftrightarrow> drisl u k v \<and> reads d (enc v) d1" for d1
        using Cons.prems by simp
      show "decode_items u k m d1 = Inr (vs, d') \<longleftrightarrow> length vs = m \<and>
          (\<forall>v \<in> set vs. drisl u k v) \<and> reads d1 (concat (map enc vs)) d'"
        if "drisl u k v \<and> reads d (enc v) d1" for d1
        using that Cons.prems reads_in_bounds [of d "enc v" d1] by (intro Cons.IH) simp_all
    qed
    finally show ?thesis using Suc by (auto simp: reads_append)
  qed
qed

lemma key_order_check:
  "(if prev \<noteq> [] then (case cmp prev ke of Greater \<Rightarrow> Inl e1 | Equal \<Rightarrow> Inl e2 | Less \<Rightarrow> Inr (kb, ke, d))
    else Inr (kb, ke, d)) = Inr (key, key_enc, d') \<longleftrightarrow>
   kb = key \<and> ke = key_enc \<and> d = d' \<and> (prev = [] \<or> prev < (ke :: bytes))"
  by (auto split: ordering.split)

lemma if_Inl_eq_Inr: "(if b then Inl e else r) = Inr x \<longleftrightarrow> \<not> b \<and> r = Inr x"
  by simp

lemma read_map_key_bytes_iff:
  assumes "in_bounds d"
  shows "read_map_key_bytes prev d = Inr (key, key_enc, d') \<longleftrightarrow>
    key_enc = enc_text key \<and> reads d (enc_text key) d' \<and> length key < 2 ^ 64 \<and> (prev = [] \<or> prev < enc_text key)"
proof -
  have "read_map_key_bytes prev d = Inr (key, key_enc, d') \<longleftrightarrow>
      (\<exists>(n :: u64) d1. reads d (head 3 (unat n)) d1 \<and> read_slice (unat n) d1 = Inr (key, d') \<and>
        key_enc = slice (dbuf d') (dpos d) (dpos d') \<and> (prev = [] \<or> prev < key_enc))"
    unfolding read_head_num [OF assms]
    by (auto simp: read_map_key_bytes_def and_then_eq_Inr Let_def key_order_check if_Inl_eq_Inr)
  also have "\<dots> \<longleftrightarrow> (\<exists>(n :: u64) d1. reads d (head 3 (unat n)) d1 \<and> (reads d1 key d' \<and> length key = unat n) \<and>
        key_enc = slice (dbuf d') (dpos d) (dpos d') \<and> (prev = [] \<or> prev < key_enc))"
    by (intro ex_cong1 conj_cong refl read_slice_iff reads_in_bounds [OF _ assms])
  also have "\<dots> \<longleftrightarrow> length key < 2 ^ 64 \<and> (\<exists>d1. reads d (head 3 (length key)) d1 \<and> reads d1 key d') \<and>
        key_enc = slice (dbuf d') (dpos d) (dpos d') \<and> (prev = [] \<or> prev < key_enc)"
  proof -
    have "unat n < 2 ^ 64" for n :: u64 using unsigned_less [of n, where ?'a = nat] by simp
    moreover have "unat (of_nat (length key) :: u64) = length key" if "length key < 2 ^ 64"
      using that by (simp add: unat_of_nat)
    ultimately show ?thesis by metis
  qed
  also have "\<dots> \<longleftrightarrow> length key < 2 ^ 64 \<and> reads d (enc_text key) d' \<and>
        key_enc = slice (dbuf d') (dpos d) (dpos d') \<and> (prev = [] \<or> prev < key_enc)"
    by (simp only: enc_text_def reads_append)
  finally show ?thesis using reads_slice [of d "enc_text key" d'] by auto
qed

lemma keys_sorted_windows: "keys_sorted es \<longleftrightarrow> all_windows key_lt (map fst es)"
  by (simp add: all_windows_map all_windows_keys)

lemma decode_entries_iff:
  assumes "\<And>e d d'. e \<in> set es \<Longrightarrow> in_bounds d \<Longrightarrow>
      decode_value u k d = Inr (snd e, d') \<longleftrightarrow> drisl u k (snd e) \<and> reads d (enc (snd e)) d'"
    and "in_bounds d" and "\<forall>p. prev = Some p \<longrightarrow> length p < 2 ^ 64"
  shows "decode_entries u k n (case prev of None \<Rightarrow> [] | Some p \<Rightarrow> enc_text p) d = Inr (es, d') \<longleftrightarrow>
    length es = n \<and> all_windows key_lt ((case prev of None \<Rightarrow> [] | Some p \<Rightarrow> [p]) @ map fst es) \<and>
    (\<forall>e \<in> set es. u (fst e) \<and> length (fst e) < 2 ^ 64 \<and> drisl u k (snd e)) \<and>
    reads d (concat (map enc_entry es)) d'"
  using assms
proof (induction es arbitrary: n d prev)
  case Nil
  then show ?case by (cases n) (auto simp: reads_Nil and_then_eq_Inr split: option.split)
next
  case (Cons e es)
  obtain key v where e: "e = (key, v)" by fastforce
  let ?prev = "case prev of None \<Rightarrow> [] | Some p \<Rightarrow> enc_text p"
  show ?case
  proof (cases n)
    case 0
    then show ?thesis by auto
  next
    case (Suc m)
    have lt: "?prev = [] \<or> ?prev < enc_text key \<longleftrightarrow> (\<forall>p. prev = Some p \<longrightarrow> key_lt p key)" if "length key < 2 ^ 64"
      using Cons.prems(3) that by (auto simp: enc_text_less_iff split: option.split)
    have "decode_entries u k n ?prev d = Inr (e # es, d') \<longleftrightarrow>
        (\<exists>d1. read_map_key_bytes ?prev d = Inr (key, enc_text key, d1) \<and> u key \<and>
          (\<exists>d2. decode_value u k d1 = Inr (v, d2) \<and> decode_entries u k m (enc_text key) d2 = Inr (es, d')))"
      using Cons.prems(2) by (auto simp: Suc e and_then_eq_Inr read_map_key_def read_map_key_bytes_iff)
    also have "\<dots> \<longleftrightarrow> (\<exists>d1. (reads d (enc_text key) d1 \<and> length key < 2 ^ 64 \<and> (\<forall>p. prev = Some p \<longrightarrow> key_lt p key)) \<and>
        u key \<and> (\<exists>d2. (drisl u k v \<and> reads d1 (enc v) d2) \<and>
          length es = m \<and> all_windows key_lt (key # map fst es) \<and>
          (\<forall>e \<in> set es. u (fst e) \<and> length (fst e) < 2 ^ 64 \<and> drisl u k (snd e)) \<and>
          reads d2 (concat (map enc_entry es)) d'))"
    proof (intro ex_cong1 conj_cong refl)
      show "read_map_key_bytes ?prev d = Inr (key, enc_text key, d1) \<longleftrightarrow>
          reads d (enc_text key) d1 \<and> length key < 2 ^ 64 \<and> (\<forall>p. prev = Some p \<longrightarrow> key_lt p key)" for d1
        using Cons.prems(2) lt by (auto simp: read_map_key_bytes_iff)
      fix d1
      assume r: "reads d (enc_text key) d1 \<and> length key < 2 ^ 64 \<and> (\<forall>p. prev = Some p \<longrightarrow> key_lt p key)"
      then have b: "in_bounds d1" using Cons.prems(2) reads_in_bounds by blast
      then show "decode_value u k d1 = Inr (v, d2) \<longleftrightarrow> drisl u k v \<and> reads d1 (enc v) d2" for d2
        using Cons.prems(1) [of e] e by simp
      fix d2
      assume "drisl u k v \<and> reads d1 (enc v) d2"
      then have "in_bounds d2" using b reads_in_bounds by blast
      then show "decode_entries u k m (enc_text key) d2 = Inr (es, d') \<longleftrightarrow>
          length es = m \<and> all_windows key_lt (key # map fst es) \<and>
          (\<forall>e \<in> set es. u (fst e) \<and> length (fst e) < 2 ^ 64 \<and> drisl u k (snd e)) \<and>
          reads d2 (concat (map enc_entry es)) d'"
        using Cons.IH [of d2 "Some key" m] Cons.prems(1) r by simp
    qed
    finally show ?thesis
      using Suc e by (auto simp: reads_append split: option.splits)
  qed
qed


lemma u64_len: "n < 2 ^ 64 \<Longrightarrow> \<exists>m :: u64. unat m = n"
  by (rule exI [of _ "of_nat n"]) (simp add: unat_of_nat)

lemma head_then_len:
  assumes "\<And>n d1. reads d (head m n) d1 \<Longrightarrow> P (n :: nat) d1 \<longleftrightarrow> l = n \<and> Q d1"
  shows "(\<exists>(n :: u64) d1. reads d (head m (unat n)) d1 \<and> P (unat n) d1) \<longleftrightarrow>
    l < 2 ^ 64 \<and> (\<exists>d1. reads d (head m l) d1 \<and> Q d1)"
proof -
  have "unat n < 2 ^ 64" for n :: u64 using unsigned_less [of n, where ?'a = nat] by simp
  then have "l < 2 ^ 64 \<longleftrightarrow> (\<exists>n :: u64. unat n = l)" using u64_len by blast
  moreover have "(\<exists>(n :: u64) d1. reads d (head m (unat n)) d1 \<and> P (unat n) d1) \<longleftrightarrow>
      (\<exists>(n :: u64) d1. reads d (head m (unat n)) d1 \<and> l = unat n \<and> Q d1)"
    by (intro ex_cong1 conj_cong refl assms)
  ultimately show ?thesis by metis
qed

lemma string_item:
  assumes "in_bounds d"
  shows "(\<exists>(n :: u64) d1. reads d (head m (unat n)) d1 \<and> read_slice (unat n) d1 = Inr (bs, d')) \<longleftrightarrow>
    length bs < 2 ^ 64 \<and> reads d (head m (length bs) @ bs) d'"
  unfolding reads_append
  by (rule head_then_len) (use read_slice_iff reads_in_bounds [OF _ assms] in blast)

lemma array_item:
  assumes "in_bounds d" and "\<And>v d d'. v \<in> set vs \<Longrightarrow> in_bounds d \<Longrightarrow>
      decode_value u k d = Inr (v, d') \<longleftrightarrow> drisl u k v \<and> reads d (enc v) d'"
  shows "(\<exists>(n :: u64) d1. reads d (head 4 (unat n)) d1 \<and> unat n \<le> MAX_COLLECTION_LEN \<and>
      decode_items u k (unat n) d1 = Inr (vs, d')) \<longleftrightarrow>
    length vs \<le> MAX_COLLECTION_LEN \<and> (\<forall>v \<in> set vs. drisl u k v) \<and> reads d (enc (Array vs)) d'"
proof -
  have "(\<exists>(n :: u64) d1. reads d (head 4 (unat n)) d1 \<and> unat n \<le> MAX_COLLECTION_LEN \<and>
      decode_items u k (unat n) d1 = Inr (vs, d')) \<longleftrightarrow>
    length vs < 2 ^ 64 \<and> (\<exists>d1. reads d (head 4 (length vs)) d1 \<and> length vs \<le> MAX_COLLECTION_LEN \<and>
      (\<forall>v \<in> set vs. drisl u k v) \<and> reads d1 (concat (map enc vs)) d')"
  proof (rule head_then_len)
    fix n d1
    assume "reads d (head 4 n) d1"
    then have "in_bounds d1" by (rule reads_in_bounds [OF _ assms(1)])
    then show "n \<le> MAX_COLLECTION_LEN \<and> decode_items u k n d1 = Inr (vs, d') \<longleftrightarrow>
        length vs = n \<and> length vs \<le> MAX_COLLECTION_LEN \<and>
        (\<forall>v \<in> set vs. drisl u k v) \<and> reads d1 (concat (map enc vs)) d'"
      using decode_items_iff [of vs u k d1, OF assms(2)] by auto
  qed
  then show ?thesis by (auto simp: reads_append MAX_COLLECTION_LEN_def)
qed

lemma map_item:
  assumes "in_bounds d" and "\<And>e d d'. e \<in> set es \<Longrightarrow> in_bounds d \<Longrightarrow>
      decode_value u k d = Inr (snd e, d') \<longleftrightarrow> drisl u k (snd e) \<and> reads d (enc (snd e)) d'"
  shows "(\<exists>(n :: u64) d1. reads d (head 5 (unat n)) d1 \<and> unat n \<le> MAX_COLLECTION_LEN \<and>
      decode_entries u k (unat n) [] d1 = Inr (es, d')) \<longleftrightarrow>
    length es \<le> MAX_COLLECTION_LEN \<and> keys_sorted es \<and>
    (\<forall>e \<in> set es. u (fst e) \<and> length (fst e) < 2 ^ 64 \<and> drisl u k (snd e)) \<and> reads d (enc (Map es)) d'"
proof -
  have "(\<exists>(n :: u64) d1. reads d (head 5 (unat n)) d1 \<and> unat n \<le> MAX_COLLECTION_LEN \<and>
      decode_entries u k (unat n) [] d1 = Inr (es, d')) \<longleftrightarrow>
    length es < 2 ^ 64 \<and> (\<exists>d1. reads d (head 5 (length es)) d1 \<and> length es \<le> MAX_COLLECTION_LEN \<and>
      keys_sorted es \<and> (\<forall>e \<in> set es. u (fst e) \<and> length (fst e) < 2 ^ 64 \<and> drisl u k (snd e)) \<and>
      reads d1 (concat (map enc_entry es)) d')"
  proof (rule head_then_len)
    fix n d1
    assume "reads d (head 5 n) d1"
    then have "in_bounds d1" by (rule reads_in_bounds [OF _ assms(1)])
    then have "decode_entries u k n [] d1 = Inr (es, d') \<longleftrightarrow> length es = n \<and> keys_sorted es \<and>
        (\<forall>e \<in> set es. u (fst e) \<and> length (fst e) < 2 ^ 64 \<and> drisl u k (snd e)) \<and>
        reads d1 (concat (map enc_entry es)) d'"
      using decode_entries_iff [of es u k d1 None n d', OF assms(2)] by (simp add: keys_sorted_windows)
    then show "n \<le> MAX_COLLECTION_LEN \<and> decode_entries u k n [] d1 = Inr (es, d') \<longleftrightarrow>
        length es = n \<and> length es \<le> MAX_COLLECTION_LEN \<and> keys_sorted es \<and>
        (\<forall>e \<in> set es. u (fst e) \<and> length (fst e) < 2 ^ 64 \<and> drisl u k (snd e)) \<and>
        reads d1 (concat (map enc_entry es)) d'"
      by auto
  qed
  then show ?thesis by (auto simp: reads_append MAX_COLLECTION_LEN_def)
qed

lemma decode_value_iff:
  "in_bounds d \<Longrightarrow> decode_value u k d = Inr (v, d') \<longleftrightarrow> drisl u k v \<and> reads d (enc v) d'"
proof (induction v arbitrary: k d d')
  case (Signed n)
  then show ?case
    by (subst decode_value_item) (simp_all add: simple_item signed_item [unfolded One_nat_def])
next
  case (Text s)
  then show ?case
    using string_item [of d 3 s d'] by (subst decode_value_item) (auto simp: simple_item enc_text_def)
next
  case (Bytes b)
  then show ?case
    using string_item [of d 2 b d'] by (subst decode_value_item) (auto simp: simple_item)
next
  case (CidV c)
  have "(\<exists>d1. reads d (head 6 42) d1 \<and> read_tag42_body d1 = Inr (c, d')) \<longleftrightarrow>
      cid_valid c \<and> reads d (tag42 c) d'"
    unfolding tag42_heads reads_append [of d "head 6 42"]
    using read_tag42_body_iff reads_in_bounds [OF _ CidV] by blast
  with CidV show ?case by (subst decode_value_item) (auto simp: simple_item)
next
  case (Array vs)
  from array_item [OF Array.prems, of vs u "Suc k" d'] Array.IH Array.prems show ?case
    by (subst decode_value_item) (simp_all add: simple_item)
next
  case (Map es)
  from map_item [OF Map.prems, of es u "Suc k" d'] Map.IH Map.prems show ?case
    by (subst decode_value_item) (simp_all add: simple_item snds.simps)
qed (subst decode_value_item; auto simp: simple_item)+


section \<open>Whole inputs\<close>

lemma drisl_fits: "drisl u k v \<Longrightarrow> fits v \<and> all_finite v \<and> maps_sorted v"
proof (induction v arbitrary: k)
  case (Map es)
  have "fits (snd e) \<and> all_finite (snd e) \<and> maps_sorted (snd e)" if "e \<in> set es" for e
    using Map.IH [of e "snd e" "Suc k"] Map.prems that by (simp add: snds.simps)
  with Map.prems show ?case by (simp add: MAX_COLLECTION_LEN_def)
qed (auto simp: MAX_COLLECTION_LEN_def)

lemma reads_new:
  "reads (decoder_new bs) a d' \<longleftrightarrow> (\<exists>r. bs = a @ r \<and> d' = \<lparr>dbuf = bs, dpos = length a\<rparr>)"
  by (auto simp: reads_split decoder_new_def)

text \<open>Reading one value off the front of a byte string, as the callers of \<open>Decoder\<close> do.\<close>

definition decode_front :: "(bytes \<Rightarrow> bool) \<Rightarrow> bytes \<Rightarrow> cbor_error + (cbor_value \<times> bytes)" where
  "decode_front u bs =
     and_then (decode_value u 0 (decoder_new bs)) (\<lambda>(v, d). Inr (v, drop (dpos d) (dbuf d)))"

lemma decode_front_iff:
  assumes "in_memory bs"
  shows "decode_front u bs = Inr (v, rest) \<longleftrightarrow> drisl u 0 v \<and> bs = enc v @ rest"
proof -
  have b: "in_bounds (decoder_new bs)" using assms by (simp add: decoder_new_def)
  show ?thesis
    by (auto simp: decode_front_def and_then_eq_Inr decode_value_iff [OF b] reads_new)
qed

interpretation cbor: prefix_codec enc "decode_front u" "drisl u 0" for u
  by unfold_locales (simp_all add: decode_front_iff)

lemma decode_iff:
  assumes "in_memory data"
  shows "decode u data = Inr v \<longleftrightarrow> drisl u 0 v \<and> data = enc v"
proof -
  have "in_bounds (decoder_new data)" using assms by (simp add: decoder_new_def)
  then show ?thesis
    by (auto simp: decode_def and_then_eq_Inr decode_value_iff reads_new decoder_is_empty_def)
qed

text \<open>
  C13. Canonicity of DRISL: on any input that fits in memory, \<open>decode\<close> returns \<open>v\<close> exactly when
  \<open>v\<close> is a representable value (depth, collection and integer bounds, valid UTF-8, sorted
  distinct keys, finite floats) and the input is byte for byte what \<open>encode_value\<close> writes for
  \<open>v\<close>. So decoding then encoding reproduces the block, encoding then decoding the value, and
  no two byte strings decode to one value.
\<close>

theorem decode_encode_value:
  assumes "in_memory data"
  shows "decode utf8 data = Inr v \<longleftrightarrow> drisl utf8 0 v \<and> encode_value v = Inr data"
proof -
  have "encode_value v = Inr (enc v)" if "drisl utf8 0 v"
    using drisl_fits [OF that] by (simp add: encode_value_def write_value_spec canon_maps_sorted)
  then show ?thesis using decode_iff [OF assms, of utf8 v] by auto
qed

theorem decode_encode_value_witness:
  "decode (\<lambda>_. True) [0xa2, 0x61, 0x61, 0x01, 0x61, 0x62, 0x20] = Inr (Map [(lit ''a'', Unsigned 1), (lit ''b'', Signed (- 1))])
    \<longleftrightarrow> drisl (\<lambda>_. True) 0 (Map [(lit ''a'', Unsigned 1), (lit ''b'', Signed (- 1))]) \<and>
      encode_value (Map [(lit ''a'', Unsigned 1), (lit ''b'', Signed (- 1))]) =
        Inr [0xa2, 0x61, 0x61, 0x01, 0x61, 0x62, 0x20]"
  by (rule decode_encode_value) simp


text \<open>
  What decoding gives back for a value that need not be in decoded form: maps sorted at every
  level and non-negative \<open>Signed\<close> integers as \<open>Unsigned\<close>, which the encoding does not tell apart.
\<close>

fun norm :: "cbor_value \<Rightarrow> cbor_value" where
  "norm (Signed n) = (if 0 \<le> sint n then Unsigned n else Signed n)"
| "norm (Array vs) = Array (map norm vs)"
| "norm (Map es) = Map (sort_entries (map (\<lambda>e. (fst e, norm (snd e))) es))"
| "norm v = v"

fun encodable :: "(bytes \<Rightarrow> bool) \<Rightarrow> nat \<Rightarrow> cbor_value \<Rightarrow> bool" where
  "encodable u k (Unsigned n) \<longleftrightarrow> k < MAX_DEPTH \<and> n \<le> 0x7fffffffffffffff"
| "encodable u k (Float f) \<longleftrightarrow> k < MAX_DEPTH \<and> is_finite f"
| "encodable u k (Text s) \<longleftrightarrow> k < MAX_DEPTH \<and> u s \<and> length s < 2 ^ 64"
| "encodable u k (Bytes b) \<longleftrightarrow> k < MAX_DEPTH \<and> length b < 2 ^ 64"
| "encodable u k (CidV c) \<longleftrightarrow> k < MAX_DEPTH \<and> cid_valid c"
| "encodable u k (Array vs) \<longleftrightarrow> k < MAX_DEPTH \<and> length vs \<le> MAX_COLLECTION_LEN \<and>
     (\<forall>v \<in> set vs. encodable u (Suc k) v)"
| "encodable u k (Map es) \<longleftrightarrow> k < MAX_DEPTH \<and> length es \<le> MAX_COLLECTION_LEN \<and> distinct (map fst es) \<and>
     (\<forall>e \<in> set es. u (fst e) \<and> length (fst e) < 2 ^ 64 \<and> encodable u (Suc k) (snd e))"
| "encodable u k _ \<longleftrightarrow> k < MAX_DEPTH"

lemma sint_nonneg_le: "0 \<le> sint (n :: u64) \<Longrightarrow> n \<le> 0x7fffffffffffffff"
proof -
  assume "0 \<le> sint n"
  then have "\<not> - 1 - n \<le> 0x7fffffffffffffff" by (simp add: sint_neg_iff [symmetric])
  moreover have "unat (- 1 - n) = 2 ^ 64 - 1 - unat n"
    using unat_sub [OF word_order.extremum [of n]]
    by (simp add: unsigned_minus_1_eq_mask mask_eq_exp_minus_1)
  moreover have "unat n < 2 ^ 64" using unsigned_less [of n, where ?'a = nat] by simp
  ultimately show ?thesis by (simp add: word_le_nat_alt)
qed

lemma keys_sorted_sort:
  assumes "distinct (map fst es)"
  shows "keys_sorted (sort_entries es)"
  using key_order.sort_by_strict [of fst es] assms by (simp add: key_lt_def)


lemma enc_norm: "enc (norm v) = enc (canon v)"
proof (induction v)
  case (Array vs)
  then have "map (\<lambda>v. enc (norm v)) vs = map (\<lambda>v. enc (canon v)) vs" by simp
  then show ?case by (simp only: norm.simps canon.simps enc.simps length_map map_map comp_def)
next
  case (Map es)
  have "enc (norm (snd e)) = enc (canon (snd e))" if "e \<in> set es" for e
    using Map that by (simp add: snds.simps)
  then have "map (\<lambda>e. enc_text (fst e) @ enc (norm (snd e))) (sort_entries es) =
      map (\<lambda>e. enc_text (fst e) @ enc (canon (snd e))) (sort_entries es)"
    by simp
  then show ?case
    by (simp only: norm.simps canon.simps enc.simps length_map map_map comp_def sort_entries_map
        length_sort_by fst_conv snd_conv)
qed simp_all

lemma encodable_norm: "encodable u k v \<Longrightarrow> drisl u k (norm v)"
proof (induction v arbitrary: k)
  case (Signed n)
  then show ?case by (auto intro: sint_nonneg_le)
next
  case (Map es)
  let ?es = "map (\<lambda>e. (fst e, norm (snd e))) es"
  have "drisl u (Suc k) (norm (snd e))" if "e \<in> set es" for e
    using Map.IH [of e "snd e" "Suc k"] Map.prems that by (simp add: snds.simps)
  moreover have "keys_sorted (sort_entries ?es)"
    using Map.prems by (intro keys_sorted_sort) (simp add: comp_def)
  ultimately show ?case using Map.prems by auto
qed auto

lemma encodable_fits: "encodable u k v \<Longrightarrow> fits v \<and> all_finite v"
proof (induction v arbitrary: k)
  case (Map es)
  have "fits (snd e) \<and> all_finite (snd e)" if "e \<in> set es" for e
    using Map.IH [of e "snd e" "Suc k"] Map.prems that by (simp add: snds.simps)
  with Map.prems show ?case by (simp add: MAX_COLLECTION_LEN_def)
qed (auto simp: MAX_COLLECTION_LEN_def)

text \<open>
  Encoding a value with distinct keys, finite floats and sizes the decoder admits, in any
  map order, always succeeds, and decoding the result gives the value back with its maps in
  canonical order (and non-negative integers as \<open>Unsigned\<close>).
\<close>

lemma encode_then_decode:
  assumes "encodable utf8 0 v"
  shows "\<exists>bs. encode_value v = Inr bs \<and> (in_memory bs \<longrightarrow> decode utf8 bs = Inr (norm v))"
proof -
  have "encode_value v = Inr (enc (norm v))"
    using encodable_fits [OF assms] by (simp add: encode_value_def write_value_spec enc_norm)
  moreover have "decode utf8 (enc (norm v)) = Inr (norm v)" if "in_memory (enc (norm v))"
    using decode_iff [OF that] encodable_norm [OF assms] by simp
  ultimately show ?thesis by blast
qed

section \<open>The capacity estimate\<close>

text \<open>Every length below \<open>2\<^sup>3\<^sup>2\<close>, where a head takes at most five bytes.\<close>

fun small :: "cbor_value \<Rightarrow> bool" where
  "small (Text s) \<longleftrightarrow> length s < 2 ^ 32"
| "small (Bytes b) \<longleftrightarrow> length b < 2 ^ 32"
| "small (CidV c) \<longleftrightarrow> cid_valid c"
| "small (Array vs) \<longleftrightarrow> length vs < 2 ^ 32 \<and> (\<forall>v \<in> set vs. small v)"
| "small (Map es) \<longleftrightarrow> length es < 2 ^ 32 \<and> (\<forall>e \<in> set es. length (fst e) < 2 ^ 32 \<and> small (snd e))"
| "small _ \<longleftrightarrow> True"

lemma estimated_array_size_eq: "estimated_array_size n vs = n + sum_list (map estimated_size vs)"
  by (induction vs arbitrary: n) simp_all

lemma estimated_map_size_eq:
  "estimated_map_size n es = n + sum_list (map (\<lambda>e. 5 + length (fst e) + estimated_size (snd e)) es)"
  by (induction es arbitrary: n) auto

lemma length_concat_le:
  "(\<And>x. x \<in> set xs \<Longrightarrow> length (f x) \<le> g x) \<Longrightarrow> length (concat (map f xs)) \<le> sum_list (map g xs)"
  by (induction xs) (auto intro: add_mono)

lemma sum_list_insert_by: "sum_list (map f (insert_by c x xs)) = f x + (sum_list (map f xs) :: nat)"
  by (induction xs) auto

lemma sum_list_sort_by: "sum_list (map f (sort_by c xs)) = (sum_list (map f xs) :: nat)"
  by (induction xs) (simp_all add: sum_list_insert_by)

lemma enc_canon_length: "small v \<Longrightarrow> length (enc (canon v)) \<le> estimated_size v"
proof (induction v)
  case (Array vs)
  have "length (concat (map (\<lambda>v. enc (canon v)) vs)) \<le> sum_list (map estimated_size vs)"
    by (rule length_concat_le) (use Array in auto)
  moreover have "length (head 4 (length vs)) \<le> 5" using Array.prems by (intro length_head_le) simp
  ultimately show ?case by (simp add: estimated_array_size_eq comp_def)
next
  case (Map es)
  let ?g = "\<lambda>e. 5 + length (fst e) + estimated_size (snd e)"
  have "length (enc_text (fst e) @ enc (canon (snd e))) \<le> ?g e" if "e \<in> set es" for e
    using Map.IH [of e "snd e"] Map.prems that length_head_le(2) [of "length (fst e)" 3]
    by (simp add: snds.simps enc_text_def)
  then have "length (concat (map (\<lambda>e. enc_text (fst e) @ enc (canon (snd e))) (sort_entries es))) \<le>
      sum_list (map ?g (sort_entries es))"
    by (intro length_concat_le) simp
  moreover have "length (head 5 (length es)) \<le> 5" using Map.prems by (intro length_head_le) simp
  ultimately show ?case
    by (simp add: estimated_map_size_eq comp_def sort_entries_map sum_list_sort_by length_append
        del: length_concat)
qed (use length_head_le in \<open>auto simp: enc_text_def tag42_def\<close>)


text \<open>
  The capacity that \<open>encode_value\<close> reserves is enough: for values whose lengths are below
  \<open>2\<^sup>3\<^sup>2\<close> the encoding never outgrows \<open>estimated_size\<close>, so the buffer is allocated once.
\<close>

lemma estimated_size_bound:
  assumes "fits v" and "small v" and "encode_value v = Inr bs"
  shows "length bs \<le> estimated_size v"
  using assms enc_canon_length [of v]
  by (auto simp: encode_value_def write_value_spec split: if_splits)

section \<open>The streaming encoder\<close>

lemma to_be_bytes_nth:
  "[to_be_bytes 2 w ! 0, to_be_bytes 2 w ! 1] = to_be_bytes 2 w"
  "[to_be_bytes 4 w ! 0, to_be_bytes 4 w ! 1, to_be_bytes 4 w ! 2, to_be_bytes 4 w ! 3] = to_be_bytes 4 w"
  "[to_be_bytes 8 w ! 0, to_be_bytes 8 w ! 1, to_be_bytes 8 w ! 2, to_be_bytes 8 w ! 3,
    to_be_bytes 8 w ! 4, to_be_bytes 8 w ! 5, to_be_bytes 8 w ! 6, to_be_bytes 8 w ! 7] = to_be_bytes 8 w"
  by (simp_all add: to_be_bytes_def upt_rec numeral_eq_Suc)

lemma write_type_value_put_head: "write_type_value w m v = Inr (put_head w m v)"
  by (simp add: write_type_value_def put_head_def Let_def to_be_bytes_nth [simplified])


lemma insert_keys_map:
  "map f (insert_by (\<lambda>a b. c (f a) (f b)) x xs) = insert_by c (f x) (map f xs)"
  by (induction xs) auto

lemma sort_keys_map: "map f (sort_by (\<lambda>a b. c (f a) (f b)) xs) = sort_by c (map f xs)"
  by (induction xs) (simp_all add: insert_keys_map)

lemma encode_text_entries_spec:
  assumes "\<And>e w. e \<in> set es \<Longrightarrow> f w (fst e) = Inr (w @ g (snd e))"
    and "\<forall>e \<in> set es. length (fst e) < 2 ^ 64"
  shows "encode_text_entries w (map fst es) f = Inr (w @ concat (map (\<lambda>e. enc_text (fst e) @ g (snd e)) es))"
  using assms
proof (induction es arbitrary: w)
  case (Cons e es)
  have "encode_text w (fst e) = Inr (w @ enc_text (fst e))"
    using Cons.prems(2) put_text_enc [of "fst e" w]
    by (simp add: encode_text_def write_type_value_put_head put_text_def)
  with Cons show ?case by simp
qed simp

text \<open>The streaming map writer, given the entries in canonical order, writes the map value.\<close>

lemma encode_text_map_spec:
  assumes "sort_by cbor_key_cmp keys = map fst es" and "\<And>e w. e \<in> set es \<Longrightarrow> f w (fst e) = Inr (w @ enc (snd e))"
    and "\<forall>e \<in> set es. length (fst e) < 2 ^ 64" "length es < 2 ^ 64"
  shows "encode_text_map w keys f = Inr (w @ enc (Map es))"
proof -
  have "encode_map_header w (length es) = Inr (w @ head 5 (length es))"
    using assms(4) by (simp add: encode_map_header_def write_type_value_put_head put_head_head unat_of_nat)
  moreover have "encode_text_entries (w @ head 5 (length es)) (map fst es) f =
      Inr ((w @ head 5 (length es)) @ concat (map (\<lambda>e. enc_text (fst e) @ enc (snd e)) es))"
    by (rule encode_text_entries_spec) (use assms(2,3) in auto)
  ultimately show ?thesis unfolding encode_text_map_def assms(1) by (simp add: Let_def)
qed

text \<open>
  The streaming writer agrees with the value writer: \<open>encode_text_map\<close> over the keys of a
  map in any order, with each value written in the callback, emits the bytes \<open>encode_value_into\<close>
  appends for the whole map.
\<close>

lemma encode_text_map_encode_value:
  assumes "fits (Map es)" and "all_finite (Map es)" and "distinct (map fst es)"
  shows "encode_text_map w (map fst es) (\<lambda>w key. encode_value_into (the (map_of es key)) w) =
    encode_value_into (Map es) w"
proof -
  let ?f = "\<lambda>w key. encode_value_into (the (map_of es key)) w"
  have f: "?f w (fst e) = Inr (w @ enc (canon (snd e)))" if "e \<in> set es" for e w
  proof -
    have m: "map_of es (fst e) = Some (snd e)" using that assms(3) by simp
    have "fits (snd e)" "all_finite (snd e)" using that assms(1,2) by simp_all
    then show ?thesis by (simp add: m encode_value_into_def write_value_spec)
  qed
  have "encode_text_entries (w @ head 5 (length es)) (map fst (sort_entries es)) ?f =
      Inr ((w @ head 5 (length es)) @ concat (map (\<lambda>e. enc_text (fst e) @ enc (canon (snd e))) (sort_entries es)))"
    by (rule encode_text_entries_spec) (use f assms(1) in auto)
  with assms show ?thesis
    by (simp add: encode_text_map_def encode_map_header_def write_type_value_put_head put_head_head
        sort_keys_map [symmetric] encode_value_into_def write_value_spec sort_entries_map comp_def unat_of_nat)
qed

end
