(* ===== verification/Mst_Node.thy ===== *)
theory Mst_Node
  imports Cbor_Roundtrip
begin

text \<open>
  The node format of the Merkle Search Tree: key heights (\<open>src/src/mst/height.rs\<close>), the error
  type (\<open>src/src/mst/mod.rs\<close>) and the block encoding of a node (\<open>src/src/mst/node.rs\<close>).
\<close>

section \<open>Key heights\<close>

text \<open>\<open>u64::leading_zeros\<close>.\<close>

definition leading_zeros :: "u64 \<Rightarrow> nat" where
  "leading_zeros w = length (takeWhile (\<lambda>i. \<not> bit w i) (rev [0..<64]))"

fun height_loop :: "bytes \<Rightarrow> nat list \<Rightarrow> nat" where
  "height_loop h [] = 128"
| "height_loop h (i # is) =
     (let word = from_be_bytes [h ! i, h ! (i + 1), h ! (i + 2), h ! (i + 3), h ! (i + 4), h ! (i + 5),
        h ! (i + 6), h ! (i + 7)] :: u64 in
      if word = 0 then height_loop h is else i * 4 + leading_zeros word div 2)"

definition height_from_hash :: "bytes \<Rightarrow> nat" where
  "height_from_hash h = height_loop h [0, 8, 16, 24]"

definition height_for_key :: "compress_fn \<Rightarrow> str \<Rightarrow> nat" where
  "height_for_key compress key = height_from_hash (sha256 compress key)"

section \<open>Errors and node data\<close>

datatype mst_error =
    BlockNotFound cid
  | InvalidNode string
  | InvalidKey str
  | MstCbor cbor_error
  | Internal string
  | Storage string

definition MAX_ENTRIES_PER_NODE :: nat where "MAX_ENTRIES_PER_NODE = 10000"

definition MAX_KEY_LEN :: nat where "MAX_KEY_LEN = 1024"

record entry_data =
  prefix_len :: nat
  key_suffix :: bytes
  ed_value :: cid
  ed_right :: "cid option"

record node_data =
  nd_left :: "cid option"
  nd_entries :: "entry_data list"

section \<open>Writing a node\<close>

definition start_node :: "bytes \<Rightarrow> nat \<Rightarrow> bytes" where
  "start_node buf n = put_head (put_text (put_head buf 5 2) (lit ''e'')) 4 (of_nat n)"

definition put_cid_or_null :: "bytes \<Rightarrow> cid option \<Rightarrow> bytes" where
  "put_cid_or_null buf c = (case c of Some c \<Rightarrow> put_cid buf c | None \<Rightarrow> buf @ [0xf6])"

definition put_entry :: "bytes \<Rightarrow> nat \<Rightarrow> bytes \<Rightarrow> cid \<Rightarrow> cid option \<Rightarrow> bytes" where
  "put_entry buf plen suffix val right =
     (let buf = put_head buf 5 4;
          buf = put_text buf (lit ''k'');
          buf = put_head buf 2 (of_nat (length suffix)) @ suffix;
          buf = put_text buf (lit ''p'');
          buf = put_head buf 0 (of_nat plen);
          buf = put_text buf (lit ''t'');
          buf = put_cid_or_null buf right;
          buf = put_text buf (lit ''v'')
      in put_cid buf val)"

definition finish_node :: "bytes \<Rightarrow> cid option \<Rightarrow> bytes" where
  "finish_node buf left = put_cid_or_null (put_text buf (lit ''l'')) left"

text \<open>The capacity \<open>encode_node_data\<close> reserves.\<close>

definition node_capacity :: "node_data \<Rightarrow> nat" where
  "node_capacity nd =
     49 + (\<Sum>e \<leftarrow> nd_entries nd. 57 + length (key_suffix e) + (if ed_right e \<noteq> None then 41 else 1))"

definition encode_node_data :: "node_data \<Rightarrow> mst_error + bytes" where
  "encode_node_data nd =
     (let buf = start_node [] (length (nd_entries nd));
          buf = fold (\<lambda>e buf. put_entry buf (prefix_len e) (key_suffix e) (ed_value e) (ed_right e))
                  (nd_entries nd) buf
      in Inr (finish_node buf (nd_left nd)))"

section \<open>Reading a node\<close>

record entry_fields =
  f_prefix_len :: "nat option"
  f_key_suffix :: "bytes option"
  f_value :: "cid option"
  f_right :: "cid option"

fun decode_entry_fields :: "(str \<times> cbor_value) list \<Rightarrow> entry_fields \<Rightarrow> mst_error + entry_fields" where
  "decode_entry_fields [] fs = Inr fs"
| "decode_entry_fields ((key, v) # m) fs =
     (if key = lit ''k'' then
        (case v of Bytes b \<Rightarrow> decode_entry_fields m (fs\<lparr>f_key_suffix := Some b\<rparr>)
         | _ \<Rightarrow> Inl (InvalidNode ''expected bytes for k''))
      else if key = lit ''p'' then
        (case v of
           Unsigned n \<Rightarrow>
             if unat n > MAX_KEY_LEN then Inl (InvalidNode ''entry prefix length exceeds max key length'')
             else decode_entry_fields m (fs\<lparr>f_prefix_len := Some (unat n)\<rparr>)
         | _ \<Rightarrow> Inl (InvalidNode ''expected uint for p''))
      else if key = lit ''t'' then
        (case v of Null \<Rightarrow> decode_entry_fields m fs
         | CidV c \<Rightarrow> decode_entry_fields m (fs\<lparr>f_right := Some c\<rparr>)
         | _ \<Rightarrow> Inl (InvalidNode ''expected CID or null for t''))
      else if key = lit ''v'' then
        (case v of CidV c \<Rightarrow> decode_entry_fields m (fs\<lparr>f_value := Some c\<rparr>)
         | _ \<Rightarrow> Inl (InvalidNode ''expected CID for v''))
      else Inl (InvalidNode ''unexpected entry key''))"

definition decode_entry_data :: "cbor_value \<Rightarrow> mst_error + entry_data" where
  "decode_entry_data val =
     (case val of
        Map m \<Rightarrow>
          and_then (decode_entry_fields m \<lparr>f_prefix_len = None, f_key_suffix = None, f_value = None, f_right = None\<rparr>)
            (\<lambda>fs.
              and_then (ok_or (InvalidNode ''missing p'') (f_prefix_len fs)) (\<lambda>plen.
              and_then (ok_or (InvalidNode ''missing k'') (f_key_suffix fs)) (\<lambda>suffix.
              and_then (ok_or (InvalidNode ''missing v'') (f_value fs)) (\<lambda>v.
                Inr \<lparr>prefix_len = plen, key_suffix = suffix, ed_value = v, ed_right = f_right fs\<rparr>))))
      | _ \<Rightarrow> Inl (InvalidNode ''expected map for entry''))"

fun decode_entry_list :: "cbor_value list \<Rightarrow> mst_error + entry_data list" where
  "decode_entry_list [] = Inr []"
| "decode_entry_list (item # arr) =
     and_then (decode_entry_data item) (\<lambda>e. and_then (decode_entry_list arr) (\<lambda>es. Inr (e # es)))"

fun decode_node_fields :: "(str \<times> cbor_value) list \<Rightarrow> node_data \<Rightarrow> mst_error + node_data" where
  "decode_node_fields [] nd = Inr nd"
| "decode_node_fields ((key, v) # m) nd =
     (if key = lit ''e'' then
        (case v of
           Array arr \<Rightarrow>
             if length arr > MAX_ENTRIES_PER_NODE then Inl (InvalidNode ''node has too many entries'')
             else and_then (decode_entry_list arr) (\<lambda>es. decode_node_fields m (nd\<lparr>nd_entries := es\<rparr>))
         | _ \<Rightarrow> Inl (InvalidNode ''expected array for e''))
      else if key = lit ''l'' then
        (case v of Null \<Rightarrow> decode_node_fields m nd
         | CidV c \<Rightarrow> decode_node_fields m (nd\<lparr>nd_left := Some c\<rparr>)
         | _ \<Rightarrow> Inl (InvalidNode ''expected CID or null for l''))
      else Inl (InvalidNode ''unexpected key''))"

definition decode_node_data :: "(bytes \<Rightarrow> bool) \<Rightarrow> bytes \<Rightarrow> mst_error + node_data" where
  "decode_node_data utf8 data =
     and_then (map_err MstCbor (decode utf8 data)) (\<lambda>val.
       case val of
         Map m \<Rightarrow> decode_node_fields m \<lparr>nd_left = None, nd_entries = []\<rparr>
       | _ \<Rightarrow> Inl (InvalidNode ''expected map''))"


section \<open>Heights count zero pairs\<close>

definition byte_bits :: "u8 \<Rightarrow> bool list" where
  "byte_bits b = map (bit b) (rev [0..<8])"

lemma rev_upt_8: "rev [0..<8 * Suc n] = map (\<lambda>i. i + 8) (rev [0..<8 * n]) @ rev [0..<8]"
proof -
  have "[0..<8 * Suc n] = [0..<8] @ [8..<8 + 8 * n]"
    by (subst upt_add_eq_append [symmetric]) simp_all
  also have "[8..<8 + 8 * n] = map (\<lambda>i. i + 8) [0..<8 * n]"
    using map_add_upt [of 8 "8 * n"] by (simp add: add.commute)
  finally show ?thesis by (simp only: rev_append rev_map)
qed

lemma bits_from_be_bytes:
  "8 * length bs \<le> 64 \<Longrightarrow>
     map (bit (from_be_bytes bs :: u64)) (rev [0..<8 * length bs]) = concat (map byte_bits bs)"
proof (induction bs rule: rev_induct)
  case Nil
  then show ?case by simp
next
  case (snoc b bs)
  let ?w = "from_be_bytes bs :: u64"
  have w: "from_be_bytes (bs @ [b]) = push_bit 8 ?w OR ucast b" by (simp add: from_be_bytes_def)
  have hi: "bit (push_bit 8 ?w OR ucast b) (i + 8) = bit ?w i" if "i < 8 * length bs" for i
    using that snoc.prems by (auto simp: bit_simps dest: bit_imp_le_length)
  have lo: "bit (push_bit 8 ?w OR ucast b) i = bit b i" if "i < 8" for i
    using that by (auto simp: bit_simps)
  have "map (bit (from_be_bytes (bs @ [b]) :: u64)) (rev [0..<8 * length (bs @ [b])]) =
      map (\<lambda>i. bit (push_bit 8 ?w OR ucast b) (i + 8)) (rev [0..<8 * length bs]) @
      map (bit (push_bit 8 ?w OR ucast b)) (rev [0..<8])"
    unfolding w length_append_singleton rev_upt_8 by (simp only: map_append map_map comp_def)
  also have "map (\<lambda>i. bit (push_bit 8 ?w OR ucast b) (i + 8)) (rev [0..<8 * length bs]) =
      map (bit ?w) (rev [0..<8 * length bs])"
    using hi by (intro map_cong) simp_all
  also have "map (bit (push_bit 8 ?w OR ucast b)) (rev [0..<8]) = byte_bits b"
    unfolding byte_bits_def using lo by (intro map_cong) simp_all
  finally show ?case using snoc by simp
qed

abbreviation zero_bits :: "bytes \<Rightarrow> nat" where
  "zero_bits bs \<equiv> length (takeWhile Not (concat (map byte_bits bs)))"

lemma length_byte_bits [simp]: "length (byte_bits b) = 8"
  by (simp add: byte_bits_def)

lemma length_bits: "length (concat (map byte_bits bs)) = 8 * length bs"
  by (induction bs) simp_all

lemma word_bits:
  assumes "length bs = 8"
  shows "leading_zeros (from_be_bytes bs) = zero_bits bs"
    and "(from_be_bytes bs :: u64) = 0 \<longleftrightarrow> (\<forall>b \<in> set (concat (map byte_bits bs)). \<not> b)"
proof -
  let ?w = "from_be_bytes bs :: u64"
  have m: "map (bit ?w) (rev [0..<64]) = concat (map byte_bits bs)"
    using bits_from_be_bytes [of bs] assms by simp
  have "takeWhile Not (map (bit ?w) (rev [0..<64])) = map (bit ?w) (takeWhile (\<lambda>i. \<not> bit ?w i) (rev [0..<64]))"
    by (simp only: takeWhile_map comp_def)
  then show "leading_zeros ?w = zero_bits bs"
    unfolding m leading_zeros_def by (simp only: length_map)
  have "?w = 0 \<longleftrightarrow> (\<forall>i < 64. \<not> bit ?w i)"
    by (auto simp: bit_eq_iff dest: bit_imp_le_length)
  also have "\<dots> \<longleftrightarrow> (\<forall>b \<in> set (map (bit ?w) (rev [0..<64])). \<not> b)" by auto
  finally show "?w = 0 \<longleftrightarrow> (\<forall>b \<in> set (concat (map byte_bits bs)). \<not> b)" by (simp only: m)
qed

lemma height_loop_step:
  assumes "i + 8 \<le> length h" and "height_loop h is = (i + 8) * 4 + zero_bits (drop (i + 8) h) div 2"
  shows "height_loop h (i # is) = i * 4 + zero_bits (drop i h) div 2"
proof -
  let ?c = "take 8 (drop i h)"
  have c: "[h ! i, h ! (i + 1), h ! (i + 2), h ! (i + 3), h ! (i + 4), h ! (i + 5), h ! (i + 6), h ! (i + 7)] = ?c"
    using assms(1) by (intro nth_equalityI) (auto simp: less_Suc_eq numeral_eq_Suc)
  have len: "length ?c = 8" using assms(1) by simp
  have "drop i h = ?c @ drop (i + 8) h"
    by (metis add.commute append_take_drop_id drop_drop)
  then have split: "concat (map byte_bits (drop i h)) =
      concat (map byte_bits ?c) @ concat (map byte_bits (drop (i + 8) h))"
    by (metis concat_append map_append)
  show ?thesis
  proof (cases "(from_be_bytes ?c :: u64) = 0")
    case True
    then have "\<forall>b \<in> set (concat (map byte_bits ?c)). \<not> b" using word_bits(2) [OF len] by blast
    then have "zero_bits (drop i h) = length (concat (map byte_bits ?c)) + zero_bits (drop (i + 8) h)"
      unfolding split by (subst takeWhile_append2) auto
    also have "length (concat (map byte_bits ?c)) = 64"
      unfolding length_bits len by simp
    finally have "zero_bits (drop i h) = 64 + zero_bits (drop (i + 8) h)" .
    then show ?thesis unfolding height_loop.simps c Let_def using True assms(2) by simp
  next
    case False
    then obtain b where "b \<in> set (concat (map byte_bits ?c))" "b" using word_bits(2) [OF len] by blast
    then have "zero_bits (drop i h) = zero_bits ?c"
      unfolding split by (subst takeWhile_append1) auto
    then show ?thesis unfolding height_loop.simps c Let_def using False word_bits(1) [OF len] by simp
  qed
qed

lemma height_from_hash_bits:
  assumes "length h = 32"
  shows "height_from_hash h = zero_bits h div 2"
proof -
  have "height_loop h [] = (24 + 8) * 4 + zero_bits (drop (24 + 8) h) div 2" using assms by simp
  then have "height_loop h [24] = (16 + 8) * 4 + zero_bits (drop (16 + 8) h) div 2"
    using height_loop_step [of 24 h "[]"] assms by simp
  then have "height_loop h [16, 24] = (8 + 8) * 4 + zero_bits (drop (8 + 8) h) div 2"
    using height_loop_step [of 16 h "[24]"] assms by simp
  then have "height_loop h [8, 16, 24] = (0 + 8) * 4 + zero_bits (drop (0 + 8) h) div 2"
    using height_loop_step [of 8 h "[16, 24]"] assms by simp
  then show ?thesis
    using height_loop_step [of 0 h "[8, 16, 24]"] assms by (simp add: height_from_hash_def)
qed

text \<open>The four 2-bit pairs of a byte, from the top.\<close>

definition byte_pairs :: "u8 \<Rightarrow> u8 list" where
  "byte_pairs b = [drop_bit 6 b, drop_bit 4 b AND 3, drop_bit 2 b AND 3, b AND 3]"

lemma takeWhile_pairs:
  "length (takeWhile Not (concat (map (\<lambda>p. [f p, g p]) ps))) div 2 = length (takeWhile (\<lambda>p. \<not> f p \<and> \<not> g p) ps)"
  by (induction ps) auto

lemma pair_bits: "(p :: u8) < 4 \<Longrightarrow> p = 0 \<longleftrightarrow> \<not> bit p 1 \<and> \<not> bit p 0"
proof -
  assume "p < 4"
  then have "unat p \<in> {0, 1, 2, 3}" by (auto simp: word_less_nat_alt)
  then have "p \<in> {0, 1, 2, 3}" by (auto simp: word_unat_eq_iff)
  then show ?thesis by (auto simp: bit_numeral_rec)
qed

lemma byte_pairs_bits: "byte_bits b = concat (map (\<lambda>p. [bit p 1, bit p 0]) (byte_pairs b))"
proof -
  have "rev [0..<8] = [7, 6, 5, 4, 3, 2, 1, 0 :: nat]" by (simp add: upt_rec)
  moreover have "(3 :: u8) = mask 2" by (simp add: mask_eq_exp_minus_1)
  ultimately show ?thesis
    by (simp add: byte_bits_def byte_pairs_def bit_simps)
qed

lemma byte_pairs_less: "p \<in> set (byte_pairs b) \<Longrightarrow> p < 4"
proof -
  have "unat (drop_bit 6 b) = unat b div 64" unfolding unat_drop_bit_eq by (simp add: drop_bit_eq_div)
  then have "drop_bit 6 b < 4" using unat_u8_less [of b] by (simp add: word_less_nat_alt del: unat_u8_less)
  moreover have "(x :: u8) AND 3 < 4" for x
    by (rule le_less_trans [OF word_and_le1]) simp
  ultimately show "p \<in> set (byte_pairs b) \<Longrightarrow> p < 4" by (auto simp: byte_pairs_def)
qed


text \<open>
  The word-at-a-time height computation counts leading zero 2-bit pairs: on every 32-byte
  hash, \<open>height_from_hash\<close> is the number of zero pairs before the first other one, and at most
  128, so that it fits the \<open>u8\<close> the source returns.
\<close>

lemma height_from_hash_pairs:
  assumes "length h = 32"
  shows "height_from_hash h = length (takeWhile (\<lambda>p. p = 0) (concat (map byte_pairs h))) \<and>
    height_from_hash h \<le> 128"
proof -
  let ?ps = "concat (map byte_pairs h)"
  have "map byte_bits h = map (\<lambda>b. concat (map (\<lambda>p. [bit p 1, bit p 0]) (byte_pairs b))) h"
    by (intro map_cong refl byte_pairs_bits)
  then have "concat (map byte_bits h) = concat (map (\<lambda>p. [bit p 1, bit p 0]) ?ps)"
    by (induction h) simp_all
  then have "zero_bits h div 2 = length (takeWhile (\<lambda>p. \<not> bit p 1 \<and> \<not> bit p 0) ?ps)"
    by (simp only: takeWhile_pairs)
  also have "takeWhile (\<lambda>p. \<not> bit p 1 \<and> \<not> bit p 0) ?ps = takeWhile (\<lambda>p. p = 0) ?ps"
    using byte_pairs_less by (intro takeWhile_cong refl) (auto simp: pair_bits)
  finally have "height_from_hash h = length (takeWhile (\<lambda>p. p = 0) ?ps)"
    using height_from_hash_bits [OF assms] by simp
  moreover have "length ?ps = 4 * length h"
    by (induction h) (simp_all add: byte_pairs_def)
  moreover have "length (takeWhile (\<lambda>p. p = 0) ?ps) \<le> length ?ps" by (rule length_takeWhile_le)
  ultimately show ?thesis using assms by linarith
qed

section \<open>The node format as CBOR values\<close>

definition cid_or_null :: "cid option \<Rightarrow> cbor_value" where
  "cid_or_null c = (case c of Some c \<Rightarrow> CidV c | None \<Rightarrow> Null)"

definition entry_value :: "entry_data \<Rightarrow> cbor_value" where
  "entry_value e = Map [(lit ''k'', Bytes (key_suffix e)), (lit ''p'', Unsigned (of_nat (prefix_len e))),
     (lit ''t'', cid_or_null (ed_right e)), (lit ''v'', CidV (ed_value e))]"

definition node_value :: "node_data \<Rightarrow> cbor_value" where
  "node_value nd = Map [(lit ''e'', Array (map entry_value (nd_entries nd))), (lit ''l'', cid_or_null (nd_left nd))]"

text \<open>Node data the tree produces: lengths bounded, CIDs well-formed.\<close>

definition cid_opt_valid :: "cid option \<Rightarrow> bool" where
  "cid_opt_valid c = (case c of None \<Rightarrow> True | Some c \<Rightarrow> cid_valid c)"

definition entry_ok :: "entry_data \<Rightarrow> bool" where
  "entry_ok e \<longleftrightarrow> prefix_len e \<le> MAX_KEY_LEN \<and> length (key_suffix e) \<le> MAX_KEY_LEN \<and>
     cid_valid (ed_value e) \<and> cid_opt_valid (ed_right e)"

definition node_ok :: "node_data \<Rightarrow> bool" where
  "node_ok nd \<longleftrightarrow> length (nd_entries nd) \<le> MAX_ENTRIES_PER_NODE \<and> (\<forall>e \<in> set (nd_entries nd). entry_ok e) \<and>
     cid_opt_valid (nd_left nd)"

lemma put_cid_or_null_enc: "put_cid_or_null buf c = buf @ enc (cid_or_null c)"
  by (simp add: put_cid_or_null_def cid_or_null_def put_cid_def split: option.split)

lemma map_head_lengths:
  "head 5 2 = head 5 (Suc (Suc 0))" "head 5 4 = head 5 (Suc (Suc (Suc (Suc 0))))"
  by (simp_all add: eval_nat_numeral)

lemma put_entry_enc:
  assumes "length (key_suffix e) < 2 ^ 64"
  shows "put_entry buf (prefix_len e) (key_suffix e) (ed_value e) (ed_right e) = buf @ enc (entry_value e)"
proof -
  have "unat (of_nat (length (key_suffix e)) :: u64) = length (key_suffix e)"
    using assms by (simp add: unat_of_nat)
  then show ?thesis
    by (simp add: put_entry_def Let_def put_text_enc put_head_head put_cid_or_null_enc put_cid_def
        entry_value_def map_head_lengths)
qed

lemma fold_put_entry:
  assumes "\<forall>e \<in> set es. length (key_suffix e) < 2 ^ 64"
  shows "fold (\<lambda>e buf. put_entry buf (prefix_len e) (key_suffix e) (ed_value e) (ed_right e)) es buf =
    buf @ concat (map (\<lambda>e. enc (entry_value e)) es)"
  using assms by (induction es arbitrary: buf) (simp_all add: put_entry_enc)

lemma encode_node_data_enc:
  assumes "\<forall>e \<in> set (nd_entries nd). length (key_suffix e) < 2 ^ 64" "length (nd_entries nd) < 2 ^ 64"
  shows "encode_node_data nd = Inr (enc (node_value nd))"
proof -
  have l: "unat (of_nat (length (nd_entries nd)) :: u64) = length (nd_entries nd)"
    using assms(2) by (simp add: unat_of_nat)
  show ?thesis
    unfolding encode_node_data_def Let_def fold_put_entry [OF assms(1)]
    by (simp add: start_node_def finish_node_def put_text_enc put_head_head put_cid_or_null_enc node_value_def
        l comp_def map_head_lengths)
qed


definition ascii_keys :: "(bytes \<Rightarrow> bool) \<Rightarrow> bool" where
  "ascii_keys utf8 \<longleftrightarrow> utf8 (lit ''e'') \<and> utf8 (lit ''l'') \<and> utf8 (lit ''k'') \<and> utf8 (lit ''p'') \<and>
     utf8 (lit ''t'') \<and> utf8 (lit ''v'')"

lemma drisl_cid_or_null: "k < MAX_DEPTH \<Longrightarrow> cid_opt_valid c \<Longrightarrow> drisl u k (cid_or_null c)"
  by (simp add: cid_or_null_def cid_opt_valid_def split: option.splits)

lemma letter_order:
  "key_lt (lit ''e'') (lit ''l'')" "key_lt (lit ''k'') (lit ''p'')" "key_lt (lit ''k'') (lit ''t'')"
  "key_lt (lit ''k'') (lit ''v'')" "key_lt (lit ''p'') (lit ''t'')" "key_lt (lit ''p'') (lit ''v'')"
  "key_lt (lit ''t'') (lit ''v'')"
  by (simp_all add: key_lt_spec)

lemma drisl_entry_value:
  assumes "entry_ok e" "ascii_keys u" "Suc k < MAX_DEPTH"
  shows "drisl u k (entry_value e)"
proof -
  have "(of_nat (prefix_len e) :: u64) \<le> 0x7fffffffffffffff"
    using assms(1) by (simp add: entry_ok_def MAX_KEY_LEN_def word_le_nat_alt unat_of_nat)
  moreover have "length (key_suffix e) < 2 ^ 64" using assms(1) by (simp add: entry_ok_def MAX_KEY_LEN_def)
  ultimately show ?thesis
    using assms letter_order
    by (simp add: entry_value_def MAX_COLLECTION_LEN_def ascii_keys_def entry_ok_def drisl_cid_or_null)
qed

lemma drisl_node_value:
  assumes "node_ok nd" "ascii_keys u"
  shows "drisl u 0 (node_value nd)"
proof -
  have "drisl u (Suc (Suc 0)) (entry_value e)" if "e \<in> set (nd_entries nd)" for e
    using that assms by (intro drisl_entry_value) (simp_all add: node_ok_def MAX_DEPTH_def)
  then show ?thesis
    using assms letter_order drisl_cid_or_null [of "Suc 0" "nd_left nd" u]
    by (simp add: node_value_def MAX_COLLECTION_LEN_def MAX_DEPTH_def MAX_ENTRIES_PER_NODE_def ascii_keys_def
        node_ok_def)
qed

lemma letters_distinct [simp]:
  "lit ''p'' \<noteq> lit ''k''" "lit ''t'' \<noteq> lit ''k''" "lit ''v'' \<noteq> lit ''k''" "lit ''t'' \<noteq> lit ''p''"
  "lit ''v'' \<noteq> lit ''p''" "lit ''v'' \<noteq> lit ''t''" "lit ''l'' \<noteq> lit ''e''"
  by (simp_all add: of_char_def)

lemma decode_entry_data_value:
  assumes "entry_ok e"
  shows "decode_entry_data (entry_value e) = Inr e"
proof -
  have "unat (of_nat (prefix_len e) :: u64) = prefix_len e" "prefix_len e \<le> MAX_KEY_LEN"
    using assms by (simp_all add: entry_ok_def MAX_KEY_LEN_def unat_of_nat)
  then show ?thesis
    by (cases "ed_right e")
      (simp_all add: decode_entry_data_def entry_value_def cid_or_null_def del: lit_Cons)
qed

lemma decode_entry_list_value:
  "\<forall>e \<in> set es. entry_ok e \<Longrightarrow> decode_entry_list (map entry_value es) = Inr es"
  by (induction es) (simp_all add: decode_entry_data_value)

lemma node_ok_lengths:
  assumes "node_ok nd"
  shows "\<forall>e \<in> set (nd_entries nd). length (key_suffix e) < 2 ^ 64" "length (nd_entries nd) < 2 ^ 64"
  using assms by (auto simp: node_ok_def entry_ok_def MAX_KEY_LEN_def MAX_ENTRIES_PER_NODE_def)

lemma length_enc_text_letter [simp]: "length (enc_text (lit [c])) = 2"
  by (simp add: enc_text_def head_def)

lemma length_head_small: "n < 65536 \<Longrightarrow> length (head m n) \<le> 3"
  by (simp add: head_def)

lemma length_cid_or_null:
  "cid_opt_valid c \<Longrightarrow> length (enc (cid_or_null c)) = (if c \<noteq> None then 41 else 1)"
  by (auto simp: cid_or_null_def cid_opt_valid_def tag42_def split: option.splits)

lemma length_entry_value:
  assumes "entry_ok e"
  shows "length (enc (entry_value e)) \<le> 57 + length (key_suffix e) + (if ed_right e \<noteq> None then 41 else 1)"
proof -
  have "unat (of_nat (prefix_len e) :: u64) = prefix_len e"
    using assms by (simp add: entry_ok_def MAX_KEY_LEN_def unat_of_nat)
  then have "length (head 0 (unat (of_nat (prefix_len e) :: u64))) \<le> 3" "length (head 2 (length (key_suffix e))) \<le> 3"
    using assms by (auto intro!: length_head_small simp: entry_ok_def MAX_KEY_LEN_def)
  moreover have "length (head 5 (Suc (Suc (Suc (Suc 0))))) = 1" by (simp add: head_def)
  ultimately show ?thesis
    using assms length_cid_or_null [of "ed_right e"]
    by (simp add: entry_value_def entry_ok_def tag42_def del: lit_Cons)
qed

lemma node_block_bound:
  assumes "node_ok nd"
  shows "length (enc (node_value nd)) \<le> node_capacity nd"
proof -
  have "length (concat (map (\<lambda>e. enc (entry_value e)) (nd_entries nd))) \<le>
      (\<Sum>e \<leftarrow> nd_entries nd. 57 + length (key_suffix e) + (if ed_right e \<noteq> None then 41 else 1))"
    by (rule length_concat_le, rule length_entry_value) (use assms in \<open>simp add: node_ok_def\<close>)
  moreover have "length (head 4 (length (nd_entries nd))) \<le> 3"
    using assms by (intro length_head_small) (simp add: node_ok_def MAX_ENTRIES_PER_NODE_def)
  moreover have "length (enc (cid_or_null (nd_left nd))) \<le> 41"
    using assms length_cid_or_null [of "nd_left nd"] by (simp add: node_ok_def split: if_splits)
  moreover have "length (head 5 (Suc (Suc 0))) = 1" by (simp add: head_def)
  ultimately show ?thesis
    unfolding node_value_def node_capacity_def
    by (simp add: comp_def del: lit_Cons length_concat)
qed

lemma node_capacity_le:
  assumes "node_ok nd"
  shows "node_capacity nd \<le> 49 + 1122 * MAX_ENTRIES_PER_NODE"
proof -
  have "57 + length (key_suffix e) + (if ed_right e \<noteq> None then 41 else 1) \<le> 1122" if "e \<in> set (nd_entries nd)" for e
    using assms that by (auto simp: node_ok_def entry_ok_def MAX_KEY_LEN_def)
  then have "(\<Sum>e \<leftarrow> nd_entries nd. 57 + length (key_suffix e) + (if ed_right e \<noteq> None then 41 else 1)) \<le>
      (\<Sum>e \<leftarrow> nd_entries nd. 1122)"
    by (rule sum_list_mono)
  also have "\<dots> = 1122 * length (nd_entries nd)" by (simp add: sum_list_triv)
  also have "\<dots> \<le> 1122 * MAX_ENTRIES_PER_NODE" using assms by (simp add: node_ok_def)
  finally show ?thesis by (simp add: node_capacity_def)
qed

lemma node_ok_in_memory: "node_ok nd \<Longrightarrow> in_memory (enc (node_value nd))"
  using node_block_bound [of nd] node_capacity_le [of nd] by (simp add: MAX_ENTRIES_PER_NODE_def)

lemma decode_node_value:
  assumes "node_ok nd" "ascii_keys utf8"
  shows "decode_node_data utf8 (enc (node_value nd)) = Inr nd"
proof -
  have "decode utf8 (enc (node_value nd)) = Inr (node_value nd)"
    using decode_iff [OF node_ok_in_memory [OF assms(1)]] drisl_node_value [OF assms] by blast
  moreover have "decode_entry_list (map entry_value (nd_entries nd)) = Inr (nd_entries nd)"
    using assms(1) by (intro decode_entry_list_value) (simp add: node_ok_def)
  ultimately show ?thesis
    using assms(1) by (cases "nd_left nd")
      (simp_all add: decode_node_data_def node_value_def cid_or_null_def node_ok_def del: lit_Cons)
qed

text \<open>
  Node blocks round trip: encoding any node within the size limits succeeds, and reading the
  block back through the strict CBOR decoder gives the same node. UTF-8 validation only has to
  accept the one-letter field names.
\<close>

lemma node_data_roundtrip:
  assumes "node_ok nd" and "ascii_keys utf8"
  shows "\<exists>block. encode_node_data nd = Inr block \<and> decode_node_data utf8 block = Inr nd"
  using encode_node_data_enc [OF node_ok_lengths [OF assms(1)]] decode_node_value [OF assms] by blast

text \<open>
  The buffer \<open>encode_node_data\<close> reserves never grows: the block of a node within the limits
  is no longer than the reserved capacity.
\<close>

lemma node_capacity_bound:
  assumes "node_ok nd" and "encode_node_data nd = Inr block"
  shows "length block \<le> node_capacity nd"
  using node_block_bound [OF assms(1)] encode_node_data_enc [OF node_ok_lengths [OF assms(1)]] assms(2) by simp

end
