(* ===== verification/Mst_Tree.thy ===== *)
theory Mst_Tree
  imports Mst_Node
begin

text \<open>
  The in-memory Merkle Search Tree: nodes, lookups and the mutations of \<open>src/src/mst/tree.rs\<close>.

  A boxed node is its value; \<open>Option::take\<close> and the assignment that puts a subtree back are
  \<open>child\<close> and \<open>set_child\<close> at an index. The list \<open>released\<close> the source appends CIDs to is threaded
  through the mutations and returned. Heights, \<open>u8\<close> in the source, are naturals: they are at most
  128 for keys and one less per level down.
\<close>

section \<open>Nodes\<close>

datatype node = Node
    (nleft: "node option") (nentries: "entry list") (ncid: "cid option") (nheight: nat) (nloaded: bool)
  and entry = Entry (ekey: str) (evalue: cid) (eright: "node option")

definition fresh :: "nat \<Rightarrow> node option \<Rightarrow> entry list \<Rightarrow> node" where
  "fresh h left es = Node left es None h True"

definition stub :: "cid \<Rightarrow> nat \<Rightarrow> node" where
  "stub c h = Node None [] (Some c) h False"

fun cid_list :: "cid option \<Rightarrow> cid list" where
  "cid_list None = []"
| "cid_list (Some c) = [c]"

fun touch :: "node \<Rightarrow> cid list \<Rightarrow> node \<times> cid list" where
  "touch (Node l es c h ld) released = (Node l es None h ld, released @ cid_list c)"

definition discard :: "node \<Rightarrow> cid list \<Rightarrow> cid list" where
  "discard n released = released @ cid_list (ncid n)"

definition require_loaded :: "node \<Rightarrow> mst_error + unit" where
  "require_loaded n =
     (if nloaded n then Inr ()
      else Inl (Internal ''MST mutation reached a node that was not loaded first''))"

text \<open>The subtree between \<open>entries[i - 1]\<close> and \<open>entries[i]\<close>, \<open>left\<close> when \<open>i\<close> is 0.\<close>

definition child :: "node \<Rightarrow> nat \<Rightarrow> node option" where
  "child n i = (if i = 0 then nleft n else eright (nentries n ! (i - 1)))"

fun set_right :: "entry \<Rightarrow> node option \<Rightarrow> entry" where
  "set_right (Entry k v _) r = Entry k v r"

fun set_value :: "entry \<Rightarrow> cid \<Rightarrow> entry" where
  "set_value (Entry k _ r) v = Entry k v r"

fun set_child :: "node \<Rightarrow> nat \<Rightarrow> node option \<Rightarrow> node" where
  "set_child (Node l es c h ld) i r =
     (if i = 0 then Node r es c h ld
      else Node l (es[i - 1 := set_right (es ! (i - 1)) r]) c h ld)"

fun set_entries :: "node \<Rightarrow> entry list \<Rightarrow> node" where
  "set_entries (Node l _ c h ld) es = Node l es c h ld"

text \<open>The nodes of a subtree, counted; the measure of the recursions below.\<close>

fun nsize :: "node \<Rightarrow> nat" and osize :: "node option \<Rightarrow> nat" and esize :: "entry \<Rightarrow> nat" where
  "nsize (Node l es c h ld) = Suc (osize l + sum_list (map esize es))"
| "osize None = 0"
| "osize (Some n) = nsize n"
| "esize (Entry k v r) = osize r"

lemma esize_le: "e \<in> set es \<Longrightarrow> esize e \<le> sum_list (map esize es)"
  by (rule member_le_sum_list) simp_all

lemma eright_size: "osize (eright e) = esize e"
  by (cases e) simp

lemma nleft_size: "osize (nleft n) < nsize n"
  by (cases n) simp

lemma eright_nth_size: "i < length (nentries n) \<Longrightarrow> osize (eright (nentries n ! i)) < nsize n"
  using esize_le [OF nth_mem, of i "nentries n"] by (cases n) (simp add: eright_size)

lemma child_size: "i \<le> length (nentries n) \<Longrightarrow> osize (child n i) < nsize n"
  using nleft_size eright_nth_size [of "i - 1" n] by (auto simp: child_def)

section \<open>Searching\<close>

definition search_entries :: "entry list \<Rightarrow> str \<Rightarrow> nat + nat" where
  "search_entries es key = binary_search_by (\<lambda>e. cmp (ekey e) key) es"

definition find_child_index :: "node \<Rightarrow> str \<Rightarrow> nat" where
  "find_child_index n key = (case search_entries (nentries n) key of Inr i \<Rightarrow> i | Inl i \<Rightarrow> i)"

lemma binary_search_loop_bound:
  "base + len \<le> m \<Longrightarrow> 0 < len \<Longrightarrow> binary_search_loop f xs base len < m"
proof (induction f xs base len rule: binary_search_loop.induct)
  case (1 f xs base len)
  show ?case
  proof (cases "len > 1")
    case True
    then have "binary_search_loop f xs (if f (xs ! (base + len div 2)) = Greater then base else base + len div 2)
        (len - len div 2) < m"
      by (intro "1.IH" [OF True refl refl]) (use "1.prems" in auto)
    with True show ?thesis by (subst binary_search_loop.simps) (simp add: Let_def)
  next
    case False
    with "1.prems" show ?thesis by (subst binary_search_loop.simps) simp
  qed
qed

lemma binary_search_by_bound:
  "binary_search_by f xs = Inr i \<Longrightarrow> i < length xs" "binary_search_by f xs = Inl i \<Longrightarrow> i \<le> length xs"
  using binary_search_loop_bound [of 0 "length xs" "length xs" f xs]
  by (auto simp: binary_search_by_def Let_def split: if_splits ordering.splits)

lemma find_child_index_bound: "find_child_index n key \<le> length (nentries n)"
  using binary_search_by_bound [of "\<lambda>e. cmp (ekey e) key" "nentries n"]
  by (auto simp: find_child_index_def search_entries_def less_imp_le split: sum.split)

section \<open>Splitting\<close>

definition trim_node :: "node \<Rightarrow> node option" where
  "trim_node n = (if nloaded n \<and> nentries n = [] \<and> nleft n = None then None else Some n)"

definition trim_node_opt :: "node option \<Rightarrow> node option" where
  "trim_node_opt n = (case n of None \<Rightarrow> None | Some n \<Rightarrow> trim_node n)"

definition split_index :: "node \<Rightarrow> str \<Rightarrow> nat option" where
  "split_index n key =
     (case search_entries (nentries n) key of
        Inr i \<Rightarrow> Some i
      | Inl i \<Rightarrow> if i < length (nentries n) then Some i else None)"

lemma split_index_bound: "split_index n key = Some i \<Longrightarrow> i < length (nentries n)"
  using binary_search_by_bound [of "\<lambda>e. cmp (ekey e) key" "nentries n"]
  by (auto simp: split_index_def search_entries_def split: sum.splits if_splits)

function split_node :: "node option \<Rightarrow> str \<Rightarrow> cid list \<Rightarrow> mst_error + ((node option \<times> node option) \<times> cid list)" where
  "split_node None key released = Inr ((None, None), released)"
| "split_node (Some n) key released =
     and_then (require_loaded n) (\<lambda>_.
       let (n', released) = touch n released in
       case split_index n' key of
         None \<Rightarrow>
           let last = length (nentries n') in
           and_then (split_node (child n last) key released) (\<lambda>((child_left, child_right), released).
             let n' = set_child n' last child_left;
                 right_node = map_option (\<lambda>cr. fresh (nheight n') (Some cr) []) child_right
             in Inr ((trim_node n', trim_node_opt right_node), released))
       | Some split_i \<Rightarrow>
           if split_i = 0 then
             and_then (split_node (nleft n) key released) (\<lambda>((child_left, child_right), released).
               let n' = set_child n' 0 child_right;
                   left_node = map_option (\<lambda>cl. fresh (nheight n') (Some cl) []) child_left
               in Inr ((trim_node_opt left_node, trim_node n'), released))
           else
             let right_entries = drop split_i (nentries n');
                 left_node = fresh (nheight n') (nleft n') (take split_i (nentries n'))
             in and_then (split_node (eright (nentries n ! (split_i - 1))) key released) (\<lambda>((mid_left, mid_right), released).
               let left_node = set_child left_node split_i mid_left;
                   right_node = fresh (nheight n') mid_right right_entries
               in Inr ((trim_node left_node, trim_node right_node), released)))"
  by pat_completeness auto

lemma touch_sel [simp]:
  "nleft (fst (touch n r)) = nleft n" "nentries (fst (touch n r)) = nentries n"
  "nheight (fst (touch n r)) = nheight n" "nloaded (fst (touch n r)) = nloaded n"
  "ncid (fst (touch n r)) = None" "snd (touch n r) = r @ cid_list (ncid n)"
  by (cases n; simp)+

lemma touchD:
  assumes "(n', r') = touch n r"
  shows "nentries n' = nentries n \<and> nleft n' = nleft n"
  using touch_sel(1,2) [of n r] by (simp flip: assms)

lemma split_index_touch [simp]: "split_index (fst (touch n r)) key = split_index n key"
  unfolding split_index_def touch_sel ..

termination split_node
  by (relation "measure (\<lambda>(n, key, released). osize n)")
    (auto dest!: touchD split_index_bound intro: nleft_size child_size eright_nth_size)

section \<open>Inserting\<close>

definition insert_at_level :: "node \<Rightarrow> str \<Rightarrow> cid \<Rightarrow> cid list \<Rightarrow> mst_error + (node \<times> cid list)" where
  "insert_at_level n key val released =
     (let i = find_child_index n key in
      if i < length (nentries n) \<and> ekey (nentries n ! i) = key then
        Inr (touch (set_entries n ((nentries n)[i := set_value (nentries n ! i) val])) released)
      else and_then (split_node (child n i) key released) (\<lambda>((left, right), released).
        let new_entry = Entry key val right;
            n = set_child n i left;
            n = set_entries n (take i (nentries n) @ [new_entry] @ drop i (nentries n))
        in Inr (touch n released)))"

text \<open>
  \<open>insert_below\<close> is called only with \<open>height\<close> below the node's; the first branch states that
  precondition, under which \<open>n.height - 1\<close> does not underflow.
\<close>

function insert_node :: "node option \<Rightarrow> str \<Rightarrow> cid \<Rightarrow> nat \<Rightarrow> cid list \<Rightarrow> mst_error + (node \<times> cid list)"
  and insert_below :: "node \<Rightarrow> str \<Rightarrow> cid \<Rightarrow> nat \<Rightarrow> cid list \<Rightarrow> mst_error + (node \<times> cid list)"
where
  "insert_node None key val height released = Inr (fresh height None [Entry key val None], released)"
| "insert_node (Some n) key val height released =
     and_then (require_loaded n) (\<lambda>_.
       if height > nheight n then
         insert_node (Some (fresh (nheight n + 1) (Some n) [])) key val height released
       else if height < nheight n then insert_below n key val height released
       else insert_at_level n key val released)"
| "insert_below n key val height released =
     (if height \<ge> nheight n then Inl (Internal ''insert_below: height not below the node'')
      else let idx = find_child_index n key in
      if child n idx = None \<and> nheight n - 1 = height then
        Inr (touch (set_child n idx (Some (fresh height None [Entry key val None]))) released)
      else
        let c = (case child n idx of Some c \<Rightarrow> c | None \<Rightarrow> fresh (nheight n - 1) None []) in
        and_then (insert_node (Some c) key val height released) (\<lambda>(new_child, released).
          Inr (touch (set_child n idx (Some new_child)) released)))"
  by pat_completeness auto

lemma nsize_fresh_empty [simp]: "nsize (fresh h None []) = 1" "nheight (fresh h l es) = h"
  "nleft (fresh h l es) = l" "nentries (fresh h l es) = es" "nloaded (fresh h l es)" "ncid (fresh h l es) = None"
  by (simp_all add: fresh_def)

lemma nsize_pos: "0 < nsize n" by (cases n) simp

termination insert_node
proof (relation "measures [
    \<lambda>x. (case x of Inl (Some n, k, v, h, r) \<Rightarrow> if h > nheight n then 1 else if h = nheight n then 0 else 2 + nsize n
         | Inl (None, k, v, h, r) \<Rightarrow> 0 | Inr (n, k, v, h, r) \<Rightarrow> 2 + nsize n),
    \<lambda>x. (case x of Inl (Some n, k, v, h, r) \<Rightarrow> if h > nheight n then h - nheight n else nheight n
         | Inl (None, k, v, h, r) \<Rightarrow> 0 | Inr (n, k, v, h, r) \<Rightarrow> nheight n),
    \<lambda>x. (case x of Inl _ \<Rightarrow> 1 | Inr _ \<Rightarrow> 0)]", goal_cases)
  case (4 n key val height released idx c)
  have "child n idx = Some d \<Longrightarrow> nsize d < nsize n" for d
    using child_size [of idx n] find_child_index_bound [of n key] 4 by simp
  with 4 nsize_pos [of n] show ?case
    by (auto split: option.splits simp: Suc_le_eq)
qed auto


section \<open>Updating\<close>

function update_node :: "node \<Rightarrow> str \<Rightarrow> cid \<Rightarrow> cid list \<Rightarrow> mst_error + (node \<times> cid list)" where
  "update_node n key val released =
     and_then (require_loaded n) (\<lambda>_.
       let (n', released) = touch n released in
       case search_entries (nentries n) key of
         Inr i \<Rightarrow> Inr (set_entries n' ((nentries n')[i := set_value (nentries n' ! i) val]), released)
       | Inl i \<Rightarrow>
           (case child n i of
              Some c \<Rightarrow> and_then (update_node c key val released) (\<lambda>(c, released). Inr (set_child n' i (Some c), released))
            | None \<Rightarrow> Inl (Internal ''updated key is not in the tree'')))"
  by pat_completeness auto

lemma search_entries_child_size:
  "search_entries (nentries n) key = Inl i \<Longrightarrow> child n i = Some c \<Longrightarrow> nsize c < nsize n"
  using child_size [of i n] binary_search_by_bound(2) [of _ "nentries n" i]
  by (auto simp: search_entries_def)

termination update_node
  by (relation "measure (\<lambda>(n, k, v, r). nsize n)") (auto intro: search_entries_child_size)

section \<open>Removing\<close>

function merge_nodes :: "node option \<Rightarrow> node option \<Rightarrow> cid list \<Rightarrow> mst_error + (node option \<times> cid list)" where
  "merge_nodes None r released = Inr (r, released)"
| "merge_nodes (Some l) None released = Inr (Some l, released)"
| "merge_nodes (Some l) (Some r) released =
     and_then (require_loaded l) (\<lambda>_. and_then (require_loaded r) (\<lambda>_.
       let last = length (nentries l) in
       and_then (merge_nodes (child l last) (nleft r) released) (\<lambda>(merged, released).
         let l = set_child l last merged;
             l = set_entries l (nentries l @ nentries r);
             (l, released) = touch l released;
             released = discard r released
         in Inr (Some l, released))))"
  by pat_completeness auto
termination merge_nodes
  by (relation "measure (\<lambda>(l, r, released). osize l + osize r)") (auto intro: add_strict_mono child_size nleft_size)

definition prune_empty :: "node \<Rightarrow> cid list \<Rightarrow> node option \<times> cid list" where
  "prune_empty n released =
     (if nloaded n \<and> nentries n = [] \<and> nleft n = None then (None, discard n released)
      else (Some n, released))"

text \<open>The loop of \<open>remove_node\<close>: it stops at the first entry not below \<open>key\<close>.\<close>

definition scan_entries :: "entry list \<Rightarrow> str \<Rightarrow> nat" where
  "scan_entries es key =
     (case position (\<lambda>e. key = ekey e \<or> key < ekey e) es of Some i \<Rightarrow> i | None \<Rightarrow> length es)"

lemma scan_entries_bound: "scan_entries es key \<le> length es"
  by (auto simp: scan_entries_def position_Some less_imp_le split: option.split)

function remove_node :: "node \<Rightarrow> str \<Rightarrow> cid list \<Rightarrow> mst_error + ((node option \<times> cid option) \<times> cid list)" where
  "remove_node n key released =
     and_then (require_loaded n) (\<lambda>_.
       let i = scan_entries (nentries n) key in
       if i < length (nentries n) \<and> key = ekey (nentries n ! i) then
         let removed_val = evalue (nentries n ! i) in
         and_then (merge_nodes (child n i) (eright (nentries n ! i)) released) (\<lambda>(merged, released).
           let n = set_entries n (take i (nentries n) @ drop (Suc i) (nentries n));
               n = set_child n i merged;
               (n, released) = touch n released;
               (n, released) = prune_empty n released
           in Inr ((n, Some removed_val), released))
       else
         case child n i of
           Some c \<Rightarrow>
             and_then (remove_node c key released) (\<lambda>((new_child, removed), released).
               let (n, released) = (if removed \<noteq> None then touch n released else (n, released));
                   n = set_child n i new_child;
                   (n, released) = prune_empty n released
               in Inr ((n, removed), released))
         | None \<Rightarrow> Inr ((Some n, None), released))"
  by pat_completeness auto

lemma scan_child_size: "child n (scan_entries (nentries n) key) = Some c \<Longrightarrow> nsize c < nsize n"
  using child_size [OF scan_entries_bound, of n key] by simp

termination remove_node
  by (relation "measure (\<lambda>(n, k, r). nsize n)") (auto intro: scan_child_size)

fun trim_top :: "node option \<Rightarrow> cid list \<Rightarrow> mst_error + (node option \<times> cid list)" where
  "trim_top None released = Inr (None, released)"
| "trim_top (Some (Node l es c h ld)) released =
     (if \<not> ld \<and> h = 0 then Inr (Some (Node l es c h ld), released)
      else and_then (require_loaded (Node l es c h ld)) (\<lambda>_.
        if es \<noteq> [] then Inr (Some (Node l es c h ld), released)
        else trim_top l (discard (Node l es c h ld) released)))"

definition remove_from_root :: "node \<Rightarrow> str \<Rightarrow> cid list \<Rightarrow> mst_error + ((node option \<times> cid option) \<times> cid list)" where
  "remove_from_root root key released =
     and_then (remove_node root key released) (\<lambda>((root, removed), released).
       and_then (trim_top root released) (\<lambda>(root, released). Inr ((root, removed), released)))"

declare split_node.simps(2) [simp del] insert_node.simps(2) [simp del] insert_below.simps [simp del]
  update_node.simps [simp del] merge_nodes.simps(3) [simp del] remove_node.simps [simp del]

end
