(* ===== verification/Mst_Inorder.thy ===== *)
theory Mst_Inorder
  imports Mst_Tree
begin

text \<open>
  Functional correctness of the tree operations against sorted association lists. The contents
  of a subtree are its key/value pairs in tree order; \<open>\<sigma>\<close> gives the contents of the subtrees
  that are not loaded, by the CID of their stubs, so that the statements cover partial trees.
\<close>

section \<open>Sorted association lists\<close>

abbreviation ksorted :: "('k::linorder \<times> 'v) list \<Rightarrow> bool" where
  "ksorted ps \<equiv> sorted_wrt (<) (map fst ps)"

fun upd_list :: "'k::linorder \<Rightarrow> 'v \<Rightarrow> ('k \<times> 'v) list \<Rightarrow> ('k \<times> 'v) list" where
  "upd_list k v [] = [(k, v)]"
| "upd_list k v (p # ps) =
     (if k < fst p then (k, v) # p # ps else if k = fst p then (k, v) # ps else p # upd_list k v ps)"

definition del_list :: "'k \<Rightarrow> ('k \<times> 'v) list \<Rightarrow> ('k \<times> 'v) list" where
  "del_list k ps = filter (\<lambda>p. fst p \<noteq> k) ps"

abbreviation keys_lt :: "('k::linorder \<times> 'v) list \<Rightarrow> 'k \<Rightarrow> bool" where
  "keys_lt ps k \<equiv> (\<forall>p \<in> set ps. fst p < k)"

abbreviation keys_gt :: "('k::linorder \<times> 'v) list \<Rightarrow> 'k \<Rightarrow> bool" where
  "keys_gt ps k \<equiv> (\<forall>p \<in> set ps. k < fst p)"

lemma upd_list_prefix: "keys_lt xs k \<Longrightarrow> upd_list k v (xs @ ys) = xs @ upd_list k v ys"
  by (induction xs) auto

lemma upd_list_suffix: "keys_gt ys k \<Longrightarrow> upd_list k v (xs @ ys) = upd_list k v xs @ ys"
proof (induction xs)
  case Nil
  then show ?case by (cases ys) auto
qed auto

lemma upd_list_between: "keys_lt xs k \<Longrightarrow> keys_gt ys k \<Longrightarrow> upd_list k v (xs @ ys) = xs @ (k, v) # ys"
  using upd_list_prefix [of xs k v ys] upd_list_suffix [of ys k v "[]"] by simp

lemma upd_list_mid:
  "keys_lt xs k \<Longrightarrow> keys_gt ys k \<Longrightarrow> upd_list k v (xs @ ms @ ys) = xs @ upd_list k v ms @ ys"
  by (simp add: upd_list_prefix upd_list_suffix)

lemma upd_list_at: "keys_lt xs k \<Longrightarrow> upd_list k v (xs @ (k, w) # ys) = xs @ (k, v) # ys"
  by (simp add: upd_list_prefix)

lemma set_upd_list: "set (map fst (upd_list k v ps)) = insert k (set (map fst ps))"
  by (induction ps) auto

lemma ksorted_upd_list: "ksorted ps \<Longrightarrow> ksorted (upd_list k v ps)"
proof (induction ps)
  case (Cons p ps)
  then show ?case using set_upd_list [of k v ps] by (auto intro: less_trans)
qed simp

lemma map_of_upd_list: "ksorted ps \<Longrightarrow> map_of (upd_list k v ps) = (map_of ps)(k \<mapsto> v)"
  by (induction ps) (auto simp: fun_eq_iff)

lemma del_list_append [simp]: "del_list k (xs @ ys) = del_list k xs @ del_list k ys"
  by (simp add: del_list_def)

lemma del_list_Cons [simp]: "del_list k (p # ps) = (if fst p = k then del_list k ps else p # del_list k ps)"
  by (simp add: del_list_def)

lemma del_list_notin: "k \<notin> set (map fst ps) \<Longrightarrow> del_list k ps = ps"
  unfolding del_list_def by (rule filter_True) auto

lemma keys_lt_notin: "keys_lt ps k \<Longrightarrow> k \<notin> set (map fst ps)"
  and keys_gt_notin: "keys_gt ps k \<Longrightarrow> k \<notin> set (map fst ps)"
  by auto

lemma del_list_mid: "keys_lt xs k \<Longrightarrow> keys_gt ys k \<Longrightarrow> del_list k (xs @ (k, v) # ys) = xs @ ys"
  using del_list_notin [OF keys_lt_notin, of xs k] del_list_notin [OF keys_gt_notin, of ys k] by simp

lemma ksorted_del_list: "ksorted ps \<Longrightarrow> ksorted (del_list k ps)"
  unfolding del_list_def by (induction ps) auto

lemma map_of_del_list: "map_of (del_list k ps) = (map_of ps)(k := None)"
  unfolding del_list_def by (induction ps) (auto simp: fun_eq_iff)

lemma map_of_ksorted_iff: "ksorted xs \<Longrightarrow> ksorted ys \<Longrightarrow> map_of xs = map_of ys \<longleftrightarrow> xs = ys"
proof
  assume s: "ksorted xs" "ksorted ys" and m: "map_of xs = map_of ys"
  have d: "distinct (map fst xs)" "distinct (map fst ys)"
    using s by (simp_all add: strict_sorted_iff)
  have "set xs = set ys"
    using m d by (metis map_of_eq_Some_iff set_eqI surj_pair)
  moreover have "sorted (map fst xs)" "sorted (map fst ys)"
    using s by (simp_all add: strict_sorted_iff)
  ultimately show "xs = ys"
    using d by (intro map_sorted_distinct_set_unique [of fst]) (auto simp: distinct_map)
qed simp

lemma map_of_append_notin: "k \<notin> set (map fst xs) \<Longrightarrow> map_of (xs @ ys) k = map_of ys k"
  by (induction xs) auto

lemma map_of_append_notin2: "k \<notin> set (map fst ys) \<Longrightarrow> map_of (xs @ ys) k = map_of xs k"
proof -
  assume "k \<notin> set (map fst ys)"
  then have "map_of ys k = None" by (simp add: map_of_eq_None_iff)
  then show ?thesis by (simp add: map_add_def split: option.split)
qed

section \<open>Contents of a tree\<close>

type_synonym contents = "cid \<Rightarrow> (str \<times> cid) list"

fun inorder :: "contents \<Rightarrow> node \<Rightarrow> (str \<times> cid) list"
  and oinorder :: "contents \<Rightarrow> node option \<Rightarrow> (str \<times> cid) list"
  and einorder :: "contents \<Rightarrow> entry \<Rightarrow> (str \<times> cid) list"
where
  "inorder \<sigma> (Node l es c h ld) =
     (if ld then oinorder \<sigma> l @ concat (map (einorder \<sigma>) es)
      else (case c of Some c \<Rightarrow> \<sigma> c | None \<Rightarrow> []))"
| "oinorder \<sigma> None = []"
| "oinorder \<sigma> (Some n) = inorder \<sigma> n"
| "einorder \<sigma> (Entry k v r) = (k, v) # oinorder \<sigma> r"

abbreviation centries :: "contents \<Rightarrow> entry list \<Rightarrow> (str \<times> cid) list" where
  "centries \<sigma> es \<equiv> concat (map (einorder \<sigma>) es)"

text \<open>What lies before and after the subtree at index \<open>i\<close>.\<close>

definition before :: "contents \<Rightarrow> node \<Rightarrow> nat \<Rightarrow> (str \<times> cid) list" where
  "before \<sigma> n i = (if i = 0 then []
     else oinorder \<sigma> (nleft n) @ centries \<sigma> (take (i - 1) (nentries n)) @
       [(ekey (nentries n ! (i - 1)), evalue (nentries n ! (i - 1)))])"

definition after :: "contents \<Rightarrow> node \<Rightarrow> nat \<Rightarrow> (str \<times> cid) list" where
  "after \<sigma> n i = centries \<sigma> (drop i (nentries n))"

lemma einorder_sel: "einorder \<sigma> e = (ekey e, evalue e) # oinorder \<sigma> (eright e)"
  by (cases e) simp

lemma einorder_set_right [simp]: "einorder \<sigma> (set_right e r) = (ekey e, evalue e) # oinorder \<sigma> r"
  by (cases e) simp

lemma einorder_set_value [simp]: "einorder \<sigma> (set_value e v) = (ekey e, v) # oinorder \<sigma> (eright e)"
  by (cases e) simp

lemma inorder_loaded: "nloaded n \<Longrightarrow> inorder \<sigma> n = oinorder \<sigma> (nleft n) @ centries \<sigma> (nentries n)"
  by (cases n) simp

lemma split_nth: "i < length xs \<Longrightarrow> xs = take i xs @ xs ! i # drop (Suc i) xs"
  by (rule id_take_nth_drop)

lemma inorder_child:
  assumes "nloaded n" "i \<le> length (nentries n)"
  shows "inorder \<sigma> n = before \<sigma> n i @ oinorder \<sigma> (child n i) @ after \<sigma> n i"
proof (cases i)
  case 0
  then show ?thesis using assms by (simp add: inorder_loaded before_def child_def after_def)
next
  case (Suc j)
  then have j: "j < length (nentries n)" using assms by simp
  have "centries \<sigma> (nentries n) = centries \<sigma> (take j (nentries n) @ nentries n ! j # drop (Suc j) (nentries n))"
    using split_nth [OF j] by simp
  then show ?thesis using assms Suc
    by (simp add: inorder_loaded before_def child_def after_def einorder_sel)
qed

lemma set_child_sel [simp]:
  "nloaded (set_child n i c) = nloaded n" "nheight (set_child n i c) = nheight n" "ncid (set_child n i c) = ncid n"
  "length (nentries (set_child n i c)) = length (nentries n)"
  by (cases n; simp)+

lemma set_entries_sel [simp]:
  "nloaded (set_entries n es) = nloaded n" "nheight (set_entries n es) = nheight n" "ncid (set_entries n es) = ncid n"
  "nentries (set_entries n es) = es" "nleft (set_entries n es) = nleft n"
  by (cases n; simp)+

lemma set_right_sel [simp]:
  "ekey (set_right e r) = ekey e" "evalue (set_right e r) = evalue e" "eright (set_right e r) = r"
  by (cases e; simp)+

lemma set_value_sel [simp]:
  "ekey (set_value e v) = ekey e" "evalue (set_value e v) = v" "eright (set_value e v) = eright e"
  by (cases e; simp)+

lemma inorder_set_child:
  assumes "nloaded n" "i \<le> length (nentries n)"
  shows "inorder \<sigma> (set_child n i c) = before \<sigma> n i @ oinorder \<sigma> c @ after \<sigma> n i"
proof (cases i)
  case 0
  then show ?thesis using assms by (cases n) (simp add: before_def after_def)
next
  case (Suc j)
  then have j: "j < length (nentries n)" using assms by simp
  then show ?thesis using assms Suc
    by (cases n) (simp add: before_def after_def upd_conv_take_nth_drop)
qed

lemma inorder_touch [simp]: "nloaded n \<Longrightarrow> inorder \<sigma> (fst (touch n r)) = inorder \<sigma> n"
  by (cases n) simp

lemma inorder_fresh [simp]: "inorder \<sigma> (fresh h l es) = oinorder \<sigma> l @ centries \<sigma> es"
  by (simp add: fresh_def)


section \<open>Searching in a sorted tree\<close>

lemma centries_keys: "set (map fst (centries \<sigma> es)) \<supseteq> set (map ekey es)"
  by (auto simp: einorder_sel image_iff)

lemma ksorted_append:
  "ksorted (xs @ ys) \<longleftrightarrow> ksorted xs \<and> ksorted ys \<and> (\<forall>p \<in> set xs. keys_gt ys (fst p))"
  by (auto simp: sorted_wrt_append)

lemmas ksorted_simps = map_append sorted_wrt_append

lemma entries_sorted: "ksorted (centries \<sigma> es) \<Longrightarrow> sorted_wrt (<) (map ekey es)"
proof (induction es)
  case (Cons e es)
  then have "\<forall>p \<in> set (centries \<sigma> es). ekey e < fst p"
    by (simp add: einorder_sel ksorted_simps)
  then have "\<forall>k \<in> set (map ekey es). ekey e < k"
    using centries_keys [of es \<sigma>] by (force simp: subset_iff)
  with Cons show ?case by (simp add: einorder_sel ksorted_simps)
qed simp

lemma node_entries_sorted:
  "nloaded n \<Longrightarrow> ksorted (inorder \<sigma> n) \<Longrightarrow> sorted_wrt (<) (map ekey (nentries n))"
  using entries_sorted [of \<sigma> "nentries n"] by (simp add: inorder_loaded ksorted_simps)

lemma search_entries_sorted:
  assumes "sorted_wrt (<) (map ekey es)"
  shows "search_entries es key = (let i = lower_bound ekey key es in
    if i < length es \<and> ekey (es ! i) = key then Inr i else Inl i)"
  unfolding search_entries_def by (rule binary_search_by_sorted [OF assms])

lemma find_child_index_sorted:
  "sorted_wrt (<) (map ekey (nentries n)) \<Longrightarrow> find_child_index n key = lower_bound ekey key (nentries n)"
  by (simp add: find_child_index_def search_entries_sorted Let_def)

lemma scan_entries_lower_bound: "scan_entries es key = lower_bound ekey key es"
  unfolding scan_entries_def position_takeWhile
proof (cases "\<exists>e \<in> set es. key = ekey e \<or> key < ekey e")
  case True
  moreover have "(\<lambda>e. \<not> (key = ekey e \<or> key < ekey e)) = (\<lambda>e. ekey e < key)" by auto
  ultimately show "(case if \<exists>e \<in> set es. key = ekey e \<or> key < ekey e
      then Some (length (takeWhile (\<lambda>e. \<not> (key = ekey e \<or> key < ekey e)) es)) else None of
      None \<Rightarrow> length es | Some i \<Rightarrow> i) = lower_bound ekey key es" by simp
next
  case False
  then have "takeWhile (\<lambda>e. ekey e < key) es = es" unfolding takeWhile_eq_all_conv by auto
  then have "lower_bound ekey key es = length es" by (rule arg_cong)
  with False show "(case if \<exists>e \<in> set es. key = ekey e \<or> key < ekey e
      then Some (length (takeWhile (\<lambda>e. \<not> (key = ekey e \<or> key < ekey e)) es)) else None of
      None \<Rightarrow> length es | Some i \<Rightarrow> i) = lower_bound ekey key es" by simp
qed

text \<open>The index the searches find splits the contents at the key.\<close>

lemma lower_bound_splits:
  assumes "nloaded n" "ksorted (inorder \<sigma> n)" "i = lower_bound ekey key (nentries n)"
  shows "i \<le> length (nentries n)" "keys_lt (before \<sigma> n i) key"
    "(\<forall>p \<in> set (after \<sigma> n i). key \<le> fst p)"
    "i < length (nentries n) \<Longrightarrow> key \<le> ekey (nentries n ! i)"
    "\<not> (i < length (nentries n) \<and> ekey (nentries n ! i) = key) \<Longrightarrow> keys_gt (after \<sigma> n i) key"
proof -
  show i: "i \<le> length (nentries n)" by (simp add: assms(3) length_takeWhile_le)
  have dec: "ksorted (before \<sigma> n i @ oinorder \<sigma> (child n i) @ after \<sigma> n i)"
    using assms(2) inorder_child [OF assms(1) i] by simp
  show "keys_lt (before \<sigma> n i) key"
  proof (cases i)
    case 0
    then show ?thesis by (simp add: before_def)
  next
    case (Suc j)
    let ?e = "nentries n ! j"
    have "j < length (takeWhile (\<lambda>e. ekey e < key) (nentries n))" using Suc assms(3) by simp
    then have "?e \<in> set (takeWhile (\<lambda>e. ekey e < key) (nentries n))"
      by (metis nth_mem takeWhile_nth)
    then have "ekey ?e < key" using set_takeWhileD by fastforce
    moreover have "ksorted (before \<sigma> n i)" using dec by (simp add: ksorted_simps)
    ultimately show ?thesis using Suc by (auto simp: before_def ksorted_simps intro: less_trans)
  qed
  show ge: "key \<le> ekey (nentries n ! i)" if "i < length (nentries n)"
    using nth_length_takeWhile [of "\<lambda>e. ekey e < key" "nentries n"] that assms(3) by auto
  have after: "after \<sigma> n i = (ekey (nentries n ! i), evalue (nentries n ! i)) #
      oinorder \<sigma> (eright (nentries n ! i)) @ after \<sigma> n (Suc i)" if "i < length (nentries n)"
    using that by (simp add: after_def einorder_sel flip: Cons_nth_drop_Suc)
  have sa: "ksorted (after \<sigma> n i)" using dec by (simp add: ksorted_simps)
  show "\<forall>p \<in> set (after \<sigma> n i). key \<le> fst p"
  proof (cases "i < length (nentries n)")
    case True
    with ge sa after [OF True] show ?thesis by (auto intro: order_trans less_imp_le)
  next
    case False
    then show ?thesis by (simp add: after_def)
  qed
  show "keys_gt (after \<sigma> n i) key" if "\<not> (i < length (nentries n) \<and> ekey (nentries n ! i) = key)"
  proof (cases "i < length (nentries n)")
    case True
    with ge that have "key < ekey (nentries n ! i)" by auto
    with sa after [OF True] show ?thesis by (auto intro: less_trans)
  next
    case False
    then show ?thesis by (simp add: after_def)
  qed
qed


section \<open>Splitting\<close>

lemma require_loaded_ok [simp]: "require_loaded n = Inr u \<longleftrightarrow> nloaded n"
  by (simp add: require_loaded_def)

lemma oinorder_trim_node [simp]: "oinorder \<sigma> (trim_node n) = inorder \<sigma> n"
  by (cases n) (auto simp: trim_node_def)

lemma oinorder_trim_node_opt [simp]: "oinorder \<sigma> (trim_node_opt n) = oinorder \<sigma> n"
  by (cases n) (simp_all add: trim_node_opt_def)

lemma oinorder_filler [simp]: "oinorder \<sigma> (map_option (\<lambda>c. fresh h (Some c) []) n) = oinorder \<sigma> n"
  by (cases n) simp_all

lemma split_index_sorted:
  assumes "sorted_wrt (<) (map ekey (nentries n))"
  shows "split_index n key = (let i = lower_bound ekey key (nentries n) in
    if i < length (nentries n) then Some i else None)"
  by (simp add: split_index_def search_entries_sorted [OF assms] Let_def)

lemma before_touch: "before \<sigma> (fst (touch n r)) i = before \<sigma> n i"
  and after_touch: "after \<sigma> (fst (touch n r)) i = after \<sigma> n i"
  unfolding before_def after_def touch_sel by simp_all

lemma inorder_set_child_take:
  assumes "0 < i" "i \<le> length (nentries n)"
  shows "inorder \<sigma> (set_child (fresh h (nleft n) (take i (nentries n))) i c) = before \<sigma> n i @ oinorder \<sigma> c"
proof -
  have "inorder \<sigma> (set_child (fresh h (nleft n) (take i (nentries n))) i c) =
      before \<sigma> (fresh h (nleft n) (take i (nentries n))) i @ oinorder \<sigma> c @
      after \<sigma> (fresh h (nleft n) (take i (nentries n))) i"
    by (rule inorder_set_child) (use assms in simp_all)
  then show ?thesis using assms by (simp add: before_def after_def min_def)
qed

text \<open>The three ways a node is split.\<close>

lemma split_node_cases:
  assumes "split_node (Some n) key released = Inr ((l, r), released')"
  obtains (last) n' cl cr where "nloaded n" "n' = fst (touch n released)" "split_index n key = None"
    "split_node (child n (length (nentries n))) key (released @ cid_list (ncid n)) = Inr ((cl, cr), released')"
    "l = trim_node (set_child n' (length (nentries n)) cl)"
    "r = trim_node_opt (map_option (\<lambda>c. fresh (nheight n) (Some c) []) cr)"
  | (first) n' cl cr where "nloaded n" "n' = fst (touch n released)" "split_index n key = Some 0"
    "split_node (child n 0) key (released @ cid_list (ncid n)) = Inr ((cl, cr), released')"
    "l = trim_node_opt (map_option (\<lambda>c. fresh (nheight n) (Some c) []) cl)"
    "r = trim_node (set_child n' 0 cr)"
  | (mid) i cl cr where "nloaded n" "0 < i" "i < length (nentries n)" "split_index n key = Some i"
    "split_node (child n i) key (released @ cid_list (ncid n)) = Inr ((cl, cr), released')"
    "l = trim_node (set_child (fresh (nheight n) (nleft n) (take i (nentries n))) i cl)"
    "r = trim_node (fresh (nheight n) cr (drop i (nentries n)))"
proof -
  have ld: "nloaded n" using assms by (auto simp: split_node.simps(2))
  obtain n' where t: "touch n released = (n', released @ cid_list (ncid n))" and
    n': "nentries n' = nentries n" "nleft n' = nleft n" "nheight n' = nheight n"
    using ld by (cases n) simp
  have n'_eq: "n' = fst (touch n released)" and si: "split_index n' key = split_index n key"
    using split_index_touch [of n released key] by (simp_all add: t)
  note step = assms [unfolded split_node.simps(2) t Let_def prod.case n' si]
  show thesis
  proof (cases "split_index n key")
    case None
    with step ld obtain cl cr where
      "split_node (child n (length (nentries n))) key (released @ cid_list (ncid n)) = Inr ((cl, cr), released')"
      "l = trim_node (set_child n' (length (nentries n)) cl)"
      "r = trim_node_opt (map_option (\<lambda>c. fresh (nheight n) (Some c) []) cr)"
      by (auto simp: require_loaded_def n')
    then show thesis by (intro last [OF ld n'_eq None])
  next
    case (Some i)
    show thesis
    proof (cases "i = 0")
      case True
      with step ld Some obtain cl cr where
        "split_node (child n 0) key (released @ cid_list (ncid n)) = Inr ((cl, cr), released')"
        "l = trim_node_opt (map_option (\<lambda>c. fresh (nheight n) (Some c) []) cl)"
        "r = trim_node (set_child n' 0 cr)"
        by (auto simp: require_loaded_def n' child_def)
      with True Some show thesis by (intro first [OF ld n'_eq]) simp_all
    next
      case False
      then have i: "0 < i" "i < length (nentries n)" using split_index_bound [OF Some] by simp_all
      with step ld Some obtain cl cr where
        "split_node (child n i) key (released @ cid_list (ncid n)) = Inr ((cl, cr), released')"
        "l = trim_node (set_child (fresh (nheight n) (nleft n) (take i (nentries n))) i cl)"
        "r = trim_node (fresh (nheight n) cr (drop i (nentries n)))"
        by (auto simp: require_loaded_def n' child_def)
      then show thesis by (intro mid [OF ld i Some])
    qed
  qed
qed

lemma split_node_SomeE:
  assumes "split_node (Some n) key released = Inr ((l, r), released')"
    and "sorted_wrt (<) (map ekey (nentries n))" and "i = lower_bound ekey key (nentries n)"
  obtains cl cr where "nloaded n"
    "split_node (child n i) key (released @ cid_list (ncid n)) = Inr ((cl, cr), released')"
    "oinorder \<sigma> l = before \<sigma> n i @ oinorder \<sigma> cl" "oinorder \<sigma> r = oinorder \<sigma> cr @ after \<sigma> n i"
proof -
  have i: "i \<le> length (nentries n)" by (simp add: assms(3) length_takeWhile_le)
  have si: "split_index n key = (if i < length (nentries n) then Some i else None)"
    using split_index_sorted [OF assms(2)] assms(3) by (simp add: Let_def)
  have set_child': "inorder \<sigma> (set_child (fst (touch n released)) j c) = before \<sigma> n j @ oinorder \<sigma> c @ after \<sigma> n j"
    if "nloaded n" "j \<le> length (nentries n)" for j c
    using inorder_set_child [of "fst (touch n released)" j \<sigma> c] that by (simp add: before_touch after_touch)
  from assms(1) show thesis
  proof (cases rule: split_node_cases)
    case (last n' cl cr)
    then have "i = length (nentries n)" using si i by (simp split: if_splits)
    with last show thesis by (intro that [of cl cr]) (simp_all add: set_child' after_def)
  next
    case (first n' cl cr)
    then have "i = 0" using si by (simp split: if_splits)
    with first show thesis by (intro that [of cl cr]) (simp_all add: set_child' before_def)
  next
    case (mid j cl cr)
    then have "i = j" using si by (simp split: if_splits)
    with mid show thesis by (intro that [of cl cr]) (simp_all add: inorder_set_child_take after_def)
  qed
qed

lemma ksorted_child:
  assumes "nloaded n" "ksorted (inorder \<sigma> n)" "i \<le> length (nentries n)"
  shows "ksorted (oinorder \<sigma> (child n i))"
  using assms(2) unfolding inorder_child [OF assms(1,3)] by (simp add: ksorted_simps)

lemma child_keys_subset:
  assumes "nloaded n" "i \<le> length (nentries n)"
  shows "fst ` set (oinorder \<sigma> (child n i)) \<subseteq> fst ` set (inorder \<sigma> n)"
  unfolding inorder_child [OF assms] by auto

lemma split_node_contents:
  "split_node n key released = Inr ((l, r), released') \<Longrightarrow> ksorted (oinorder \<sigma> n) \<Longrightarrow>
   key \<notin> fst ` set (oinorder \<sigma> n) \<Longrightarrow>
   oinorder \<sigma> n = oinorder \<sigma> l @ oinorder \<sigma> r \<and> keys_lt (oinorder \<sigma> l) key \<and> keys_gt (oinorder \<sigma> r) key"
proof (induction "osize n" arbitrary: n released l r rule: less_induct)
  case less
  show ?case
  proof (cases n)
    case None
    with less.prems show ?thesis by auto
  next
    case (Some m)
    define i where "i = lower_bound ekey key (nentries m)"
    have ld: "nloaded m" using less.prems(1) Some by (auto simp: split_node.simps(2))
    have s: "ksorted (inorder \<sigma> m)" using less.prems(2) Some by simp
    note sp = lower_bound_splits [OF ld s i_def]
    obtain cl cr where c: "split_node (child m i) key (released @ cid_list (ncid m)) = Inr ((cl, cr), released')"
      and lr: "oinorder \<sigma> l = before \<sigma> m i @ oinorder \<sigma> cl" "oinorder \<sigma> r = oinorder \<sigma> cr @ after \<sigma> m i"
      by (rule split_node_SomeE [OF less.prems(1) [unfolded Some] node_entries_sorted [OF ld s] i_def])
    have dec: "inorder \<sigma> m = before \<sigma> m i @ oinorder \<sigma> (child m i) @ after \<sigma> m i"
      by (rule inorder_child [OF ld sp(1)])
    have "oinorder \<sigma> (child m i) = oinorder \<sigma> cl @ oinorder \<sigma> cr \<and> keys_lt (oinorder \<sigma> cl) key \<and> keys_gt (oinorder \<sigma> cr) key"
    proof (rule less.hyps [OF _ c])
      show "osize (child m i) < osize n" using child_size [OF sp(1)] Some by simp
      show "ksorted (oinorder \<sigma> (child m i))" by (rule ksorted_child [OF ld s sp(1)])
      show "key \<notin> fst ` set (oinorder \<sigma> (child m i))"
        using less.prems(3) child_keys_subset [OF ld sp(1)] Some by auto
    qed
    moreover have "keys_gt (after \<sigma> m i) key"
    proof -
      have "fst ` set (after \<sigma> m i) \<subseteq> fst ` set (inorder \<sigma> m)" unfolding dec by auto
      then have "key \<notin> fst ` set (after \<sigma> m i)" using less.prems(3) Some by auto
      with sp(3) show ?thesis by (auto simp: order_less_le)
    qed
    ultimately show ?thesis
      unfolding lr Some oinorder.simps dec using sp(2) by auto
  qed
qed

section \<open>Inserting and updating\<close>

lemma before_set_child: "i \<le> length (nentries n) \<Longrightarrow> before \<sigma> (set_child n i c) i = before \<sigma> n i"
  by (cases n) (auto simp: before_def)

lemma after_set_child: "i \<le> length (nentries n) \<Longrightarrow> after \<sigma> (set_child n i c) i = after \<sigma> n i"
  by (cases n) (auto simp: after_def)

lemma inorder_insert_entry:
  assumes "nloaded n" "i \<le> length (nentries n)"
  shows "inorder \<sigma> (set_entries (set_child n i left)
      (take i (nentries (set_child n i left)) @ [Entry key val right] @ drop i (nentries (set_child n i left)))) =
    before \<sigma> n i @ oinorder \<sigma> left @ (key, val) # oinorder \<sigma> right @ after \<sigma> n i"
proof -
  let ?m = "set_child n i left"
  have m: "nloaded ?m" "i \<le> length (nentries ?m)" using assms by simp_all
  have "centries \<sigma> (nentries ?m) = centries \<sigma> (take i (nentries ?m)) @ centries \<sigma> (drop i (nentries ?m))"
    by (metis append_take_drop_id concat_append map_append)
  then have "inorder \<sigma> ?m = (oinorder \<sigma> (nleft ?m) @ centries \<sigma> (take i (nentries ?m))) @ after \<sigma> ?m i"
    using inorder_loaded [OF m(1)] by (simp add: after_def)
  moreover have "inorder \<sigma> ?m = (before \<sigma> n i @ oinorder \<sigma> left) @ after \<sigma> n i"
    using inorder_set_child [OF assms] by simp
  ultimately have "oinorder \<sigma> (nleft ?m) @ centries \<sigma> (take i (nentries ?m)) = before \<sigma> n i @ oinorder \<sigma> left"
    using after_set_child [OF assms(2), of \<sigma> left] by (metis append_same_eq)
  then show ?thesis
    using m after_set_child [OF assms(2), of \<sigma> left]
    by (simp add: inorder_loaded after_def)
qed

lemma inorder_set_value:
  assumes "nloaded n" "i < length (nentries n)"
  shows "inorder \<sigma> (set_entries n ((nentries n)[i := set_value (nentries n ! i) val])) =
    before \<sigma> n i @ oinorder \<sigma> (child n i) @ (ekey (nentries n ! i), val) #
      oinorder \<sigma> (eright (nentries n ! i)) @ after \<sigma> n (Suc i)"
proof -
  have "before \<sigma> n i @ oinorder \<sigma> (child n i) = oinorder \<sigma> (nleft n) @ centries \<sigma> (take i (nentries n))"
    using assms(2) by (cases i) (simp_all add: before_def child_def take_Suc_conv_app_nth einorder_sel)
  then show ?thesis
    using assms by (simp add: inorder_loaded upd_conv_take_nth_drop after_def flip: append_assoc)
qed

lemma inorder_entry:
  assumes "nloaded n" "i < length (nentries n)"
  shows "inorder \<sigma> n = before \<sigma> n i @ oinorder \<sigma> (child n i) @ (ekey (nentries n ! i), evalue (nentries n ! i)) #
      oinorder \<sigma> (eright (nentries n ! i)) @ after \<sigma> n (Suc i)"
  using inorder_child [OF assms(1), of i \<sigma>] assms(2)
  by (simp add: after_def einorder_sel flip: Cons_nth_drop_Suc)


lemma touch_eqD: "touch n r = (n', r') \<Longrightarrow> nloaded n \<Longrightarrow> inorder \<sigma> n' = inorder \<sigma> n"
  using inorder_touch [of n \<sigma> r] by simp

lemma find_child_index_splits:
  assumes "nloaded n" "ksorted (inorder \<sigma> n)"
  shows "find_child_index n key = lower_bound ekey key (nentries n)"
  by (rule find_child_index_sorted [OF node_entries_sorted [OF assms]])

lemma insert_at_level_contents:
  assumes "insert_at_level n key val released = Inr (n', released')" "nloaded n" "ksorted (inorder \<sigma> n)"
    and "key \<notin> fst ` set (inorder \<sigma> n)"
  shows "inorder \<sigma> n' = upd_list key val (inorder \<sigma> n)"
proof -
  define i where "i = lower_bound ekey key (nentries n)"
  note sp = lower_bound_splits [OF assms(2,3) i_def]
  have fi: "find_child_index n key = i" using find_child_index_splits [OF assms(2,3)] i_def by simp
  have dec: "inorder \<sigma> n = before \<sigma> n i @ oinorder \<sigma> (child n i) @ after \<sigma> n i"
    by (rule inorder_child [OF assms(2) sp(1)])
  have ne: "\<not> (i < length (nentries n) \<and> ekey (nentries n ! i) = key)"
    using assms(4) inorder_entry [OF assms(2), of i \<sigma>] by force
  obtain l r rel where c: "split_node (child n i) key released = Inr ((l, r), rel)"
    and n': "(n', released') = touch (set_entries (set_child n i l)
      (take i (nentries (set_child n i l)) @ [Entry key val r] @ drop i (nentries (set_child n i l)))) rel"
    using assms(1) ne by (auto simp: insert_at_level_def fi Let_def)
  have "oinorder \<sigma> (child n i) = oinorder \<sigma> l @ oinorder \<sigma> r \<and> keys_lt (oinorder \<sigma> l) key \<and> keys_gt (oinorder \<sigma> r) key"
    by (rule split_node_contents [OF c ksorted_child [OF assms(2,3) sp(1)]])
      (use assms(4) child_keys_subset [OF assms(2) sp(1)] in auto)
  moreover have "inorder \<sigma> n' = before \<sigma> n i @ oinorder \<sigma> l @ (key, val) # oinorder \<sigma> r @ after \<sigma> n i"
    using touch_eqD [OF n' [symmetric], of \<sigma>] inorder_insert_entry [OF assms(2) sp(1)] assms(2) by simp
  moreover have "upd_list key val ((before \<sigma> n i @ oinorder \<sigma> l) @ (oinorder \<sigma> r @ after \<sigma> n i)) =
      (before \<sigma> n i @ oinorder \<sigma> l) @ (key, val) # (oinorder \<sigma> r @ after \<sigma> n i)"
    by (rule upd_list_between) (use calculation(1) sp(2) sp(5) [OF ne] in auto)
  ultimately show ?thesis unfolding dec by simp
qed

lemma insert_contents:
  shows "insert_node m key val height released = Inr (n', released') \<Longrightarrow> ksorted (oinorder \<sigma> m) \<Longrightarrow>
      key \<notin> fst ` set (oinorder \<sigma> m) \<Longrightarrow> inorder \<sigma> n' = upd_list key val (oinorder \<sigma> m)"
    and "insert_below n key val height released = Inr (n', released') \<Longrightarrow> nloaded n \<Longrightarrow> ksorted (inorder \<sigma> n) \<Longrightarrow>
      key \<notin> fst ` set (inorder \<sigma> n) \<Longrightarrow> inorder \<sigma> n' = upd_list key val (inorder \<sigma> n)"
proof (induction m key val height released and n key val height released
    arbitrary: n' released' and n' released' rule: insert_node_insert_below.induct)
  case (1 key val height released)
  then show ?case by auto
next
  case (2 n key val height released)
  have ld: "nloaded n" using "2.prems"(1) by (auto simp: insert_node.simps(2))
  then have rl: "require_loaded n = Inr ()" by simp
  consider "height > nheight n" | "height < nheight n" | "height = nheight n" by linarith
  then show ?case
  proof cases
    case 1
    with "2.prems" rl have "insert_node (Some (fresh (nheight n + 1) (Some n) [])) key val height released = Inr (n', released')"
      by (simp add: insert_node.simps(2))
    from "2.IH"(1) [OF rl 1 this] "2.prems" show ?thesis by simp
  next
    case 2
    with "2.prems" rl have "insert_below n key val height released = Inr (n', released')"
      by (simp add: insert_node.simps(2))
    from "2.IH"(2) [OF rl _ 2 this ld] "2.prems" 2 show ?thesis by simp
  next
    case 3
    with "2.prems" rl have "insert_at_level n key val released = Inr (n', released')"
      by (simp add: insert_node.simps(2))
    from insert_at_level_contents [OF this ld] "2.prems" show ?thesis by simp
  qed
next
  case (3 n key val height released)
  let ?i = "find_child_index n key"
  have h: "\<not> height \<ge> nheight n" using "3.prems"(1) by (auto simp: insert_below.simps)
  have i: "?i = lower_bound ekey key (nentries n)" by (rule find_child_index_splits [OF "3.prems"(2,3)])
  note sp = lower_bound_splits [OF "3.prems"(2,3) i]
  have dec: "inorder \<sigma> n = before \<sigma> n ?i @ oinorder \<sigma> (child n ?i) @ after \<sigma> n ?i"
    by (rule inorder_child [OF "3.prems"(2) sp(1)])
  have ne: "\<not> (?i < length (nentries n) \<and> ekey (nentries n ! ?i) = key)"
    using "3.prems"(4) inorder_entry [OF "3.prems"(2), of ?i \<sigma>] by force
  have "\<exists>c rel. (n', released') = touch (set_child n ?i (Some c)) rel \<and>
      inorder \<sigma> c = upd_list key val (oinorder \<sigma> (child n ?i))"
  proof (cases "child n ?i = None \<and> nheight n - 1 = height")
    case True
    with "3.prems"(1) h have "(n', released') = touch (set_child n ?i (Some (fresh height None [Entry key val None]))) released"
      by (auto simp: insert_below.simps)
    with True show ?thesis by (intro exI conjI) auto
  next
    case False
    let ?c = "case child n ?i of Some c \<Rightarrow> c | None \<Rightarrow> fresh (nheight n - 1) None []"
    obtain c rel where c: "insert_node (Some ?c) key val height released = Inr (c, rel)"
      "(n', released') = touch (set_child n ?i (Some c)) rel"
      using "3.prems"(1) h False by (auto simp: insert_below.simps Let_def)
    have oc: "oinorder \<sigma> (Some ?c) = oinorder \<sigma> (child n ?i)" by (auto split: option.split)
    have "inorder \<sigma> c = upd_list key val (oinorder \<sigma> (Some ?c))"
    proof (rule "3.IH" [OF h refl False refl c(1)])
      show "ksorted (oinorder \<sigma> (Some ?c))"
        unfolding oc by (rule ksorted_child [OF "3.prems"(2,3) sp(1)])
      show "key \<notin> fst ` set (oinorder \<sigma> (Some ?c))"
        unfolding oc using "3.prems"(4) child_keys_subset [OF "3.prems"(2) sp(1)] by auto
    qed
    with c(2) oc show ?thesis by (intro exI conjI) auto
  qed
  then obtain c rel where c: "(n', released') = touch (set_child n ?i (Some c)) rel"
    "inorder \<sigma> c = upd_list key val (oinorder \<sigma> (child n ?i))" by blast
  have "inorder \<sigma> n' = before \<sigma> n ?i @ inorder \<sigma> c @ after \<sigma> n ?i"
    using touch_eqD [OF c(1) [symmetric], of \<sigma>] inorder_set_child [OF "3.prems"(2) sp(1)] "3.prems"(2) by simp
  then show ?case
    unfolding c(2) dec using sp(2) sp(5) [OF ne] by (simp add: upd_list_mid)
qed


lemma update_node_contents:
  assumes "update_node n key val released = Inr (n', released')" "ksorted (inorder \<sigma> n)"
    and "key \<in> fst ` set (inorder \<sigma> n)"
  shows "inorder \<sigma> n' = upd_list key val (inorder \<sigma> n)"
  using assms
proof (induction "nsize n" arbitrary: n released n' released' rule: less_induct)
  case less
  have ld: "nloaded n" using less.prems(1) by (auto simp: update_node.simps [of n])
  define i where "i = lower_bound ekey key (nentries n)"
  note sp = lower_bound_splits [OF ld less.prems(2) i_def]
  have se: "search_entries (nentries n) key = (if i < length (nentries n) \<and> ekey (nentries n ! i) = key then Inr i else Inl i)"
    using search_entries_sorted [OF node_entries_sorted [OF ld less.prems(2)]] by (simp add: i_def Let_def)
  obtain m where t: "touch n released = (m, released @ cid_list (ncid n))" and
    m: "nentries m = nentries n" "nleft m = nleft n" "nloaded m"
    using ld by (cases n) simp
  have cm: "child m = child n" "before \<sigma> m = before \<sigma> n" "after \<sigma> m = after \<sigma> n"
    using m by (simp_all add: fun_eq_iff child_def before_def after_def)
  note step = less.prems(1) [unfolded update_node.simps [of n] t se Let_def prod.case]
  show ?case
  proof (cases "i < length (nentries n) \<and> ekey (nentries n ! i) = key")
    case True
    with step ld have "n' = set_entries m ((nentries m)[i := set_value (nentries m ! i) val])"
      by (auto simp: require_loaded_def)
    then have n': "inorder \<sigma> n' = before \<sigma> n i @ oinorder \<sigma> (child n i) @ (key, val) #
        oinorder \<sigma> (eright (nentries n ! i)) @ after \<sigma> n (Suc i)"
      using inorder_set_value [of m i \<sigma> val] m True cm by simp
    have dec: "inorder \<sigma> n = (before \<sigma> n i @ oinorder \<sigma> (child n i)) @ (key, evalue (nentries n ! i)) #
        oinorder \<sigma> (eright (nentries n ! i)) @ after \<sigma> n (Suc i)"
      using inorder_entry [OF ld, of i \<sigma>] True by simp
    have "keys_lt (before \<sigma> n i @ oinorder \<sigma> (child n i)) key"
      using less.prems(2) unfolding dec by (auto simp: ksorted_simps)
    then show ?thesis unfolding n' dec by (subst upd_list_at) simp_all
  next
    case False
    then obtain c c' rel where c: "child n i = Some c"
      "update_node c key val (released @ cid_list (ncid n)) = Inr (c', rel)" "n' = set_child m i (Some c')"
      using step ld by (auto simp: require_loaded_def split: option.splits)
    have dec: "inorder \<sigma> n = before \<sigma> n i @ inorder \<sigma> c @ after \<sigma> n i"
      using inorder_child [OF ld sp(1)] c(1) by simp
    have "inorder \<sigma> c' = upd_list key val (inorder \<sigma> c)"
    proof (rule less.hyps [OF _ c(2)])
      show "nsize c < nsize n" using child_size [OF sp(1)] c(1) by simp
      show "ksorted (inorder \<sigma> c)" using ksorted_child [OF ld less.prems(2) sp(1)] c(1) by simp
      show "key \<in> fst ` set (inorder \<sigma> c)"
        using less.prems(3) sp(2) sp(5) [OF False] unfolding dec by auto
    qed
    moreover have "inorder \<sigma> n' = before \<sigma> n i @ inorder \<sigma> c' @ after \<sigma> n i"
      using inorder_set_child [of m i \<sigma>] m sp(1) c(3) cm by simp
    ultimately show ?thesis unfolding dec using sp(2) sp(5) [OF False] by (simp add: upd_list_mid)
  qed
qed

section \<open>Removing\<close>

lemma inorder_append_entries:
  assumes "nloaded l"
  shows "inorder \<sigma> (set_entries l (nentries l @ es)) = inorder \<sigma> l @ centries \<sigma> es"
  using assms by (simp add: inorder_loaded)

lemma merge_nodes_contents:
  assumes "merge_nodes l r released = Inr (m, released')"
  shows "oinorder \<sigma> m = oinorder \<sigma> l @ oinorder \<sigma> r"
  using assms
proof (induction "osize l + osize r" arbitrary: l r released m released' rule: less_induct)
  case less
  consider "l = None" | "r = None" | a b where "l = Some a" "r = Some b" by (cases l; cases r) auto
  then show ?case
  proof cases
    case 1
    then show ?thesis using less.prems by simp
  next
    case 2
    then show ?thesis using less.prems by (cases l) auto
  next
    case (3 a b)
    let ?j = "length (nentries a)"
    have ld: "nloaded a" "nloaded b"
      using less.prems 3 by (auto simp: merge_nodes.simps(3))
    obtain d rel where d: "merge_nodes (child a ?j) (nleft b) released = Inr (d, rel)" and
      m: "m = Some (fst (touch (set_entries (set_child a ?j d) (nentries (set_child a ?j d) @ nentries b)) rel))"
      using less.prems 3 by (auto simp: merge_nodes.simps(3) Let_def split: prod.splits)
    have "oinorder \<sigma> d = oinorder \<sigma> (child a ?j) @ oinorder \<sigma> (nleft b)"
      by (rule less.hyps [OF _ d]) (use child_size [of ?j a] nleft_size [of b] 3 in simp)
    moreover have "oinorder \<sigma> m = before \<sigma> a ?j @ oinorder \<sigma> d @ after \<sigma> a ?j @ centries \<sigma> (nentries b)"
      using inorder_set_child [OF ld(1) order_refl, of \<sigma> d] ld
      by (simp add: m inorder_append_entries)
    moreover have "inorder \<sigma> a = before \<sigma> a ?j @ oinorder \<sigma> (child a ?j)"
      using inorder_child [OF ld(1) order_refl, of \<sigma>] by (simp add: after_def)
    ultimately show ?thesis using 3 ld by (simp add: inorder_loaded [of b] after_def)
  qed
qed

lemma prune_empty_contents: "oinorder \<sigma> (fst (prune_empty n released)) = inorder \<sigma> n"
  by (cases n) (auto simp: prune_empty_def)


lemma inorder_delete_entry:
  assumes "nloaded n" "i < length (nentries n)"
  shows "inorder \<sigma> (set_child (set_entries n (take i (nentries n) @ drop (Suc i) (nentries n))) i c) =
    before \<sigma> n i @ oinorder \<sigma> c @ after \<sigma> n (Suc i)"
proof -
  let ?m = "set_entries n (take i (nentries n) @ drop (Suc i) (nentries n))"
  have "inorder \<sigma> (set_child ?m i c) = before \<sigma> ?m i @ oinorder \<sigma> c @ after \<sigma> ?m i"
    by (rule inorder_set_child) (use assms in simp_all)
  moreover have "before \<sigma> ?m i = before \<sigma> n i" using assms(2) by (cases i) (simp_all add: before_def nth_append)
  moreover have "after \<sigma> ?m i = after \<sigma> n (Suc i)" using assms(2) by (simp add: after_def)
  ultimately show ?thesis by simp
qed

lemma remove_node_contents:
  assumes "remove_node n key released = Inr ((n', removed), released')" "ksorted (inorder \<sigma> n)"
  shows "oinorder \<sigma> n' = del_list key (inorder \<sigma> n) \<and> removed = map_of (inorder \<sigma> n) key"
  using assms
proof (induction "nsize n" arbitrary: n released n' removed released' rule: less_induct)
  case less
  have ld: "nloaded n" using less.prems(1) by (auto simp: remove_node.simps [of n])
  define i where "i = lower_bound ekey key (nentries n)"
  note sp = lower_bound_splits [OF ld less.prems(2) i_def]
  note step = less.prems(1) [unfolded remove_node.simps [of n] scan_entries_lower_bound i_def [symmetric]]
  show ?case
  proof (cases "i < length (nentries n) \<and> key = ekey (nentries n ! i)")
    case True
    let ?e = "nentries n ! i"
    obtain m rel rel' where m: "merge_nodes (child n i) (eright ?e) released = Inr (m, rel)"
      "n' = fst (prune_empty (fst (touch (set_child (set_entries n (take i (nentries n) @ drop (Suc i) (nentries n))) i m) rel)) rel')"
      "removed = Some (evalue ?e)"
      using step ld True by (auto simp: require_loaded_def Let_def case_prod_beta)
    have dec: "inorder \<sigma> n = (before \<sigma> n i @ oinorder \<sigma> (child n i)) @ (key, evalue ?e) # oinorder \<sigma> (eright ?e) @ after \<sigma> n (Suc i)"
      using inorder_entry [OF ld, of i \<sigma>] True by simp
    have lt: "keys_lt (before \<sigma> n i @ oinorder \<sigma> (child n i)) key"
      and gt: "keys_gt (oinorder \<sigma> (eright ?e) @ after \<sigma> n (Suc i)) key"
      using less.prems(2) unfolding dec by (auto simp: ksorted_simps)
    have "oinorder \<sigma> n' = before \<sigma> n i @ oinorder \<sigma> (child n i) @ oinorder \<sigma> (eright ?e) @ after \<sigma> n (Suc i)"
      using inorder_delete_entry [OF ld] merge_nodes_contents [OF m(1)] True ld
      by (simp add: m(2) prune_empty_contents)
    moreover have "del_list key (inorder \<sigma> n) = before \<sigma> n i @ oinorder \<sigma> (child n i) @ oinorder \<sigma> (eright ?e) @ after \<sigma> n (Suc i)"
      unfolding dec del_list_mid [OF lt gt] by simp
    moreover have "map_of (inorder \<sigma> n) key = Some (evalue ?e)"
      unfolding dec map_of_append_notin [OF keys_lt_notin [OF lt]] by simp
    ultimately show ?thesis using m(3) by simp
  next
    case False
    then have gt: "keys_gt (after \<sigma> n i) key" using sp(5) by auto
    have dec: "inorder \<sigma> n = before \<sigma> n i @ oinorder \<sigma> (child n i) @ after \<sigma> n i"
      by (rule inorder_child [OF ld sp(1)])
    have del: "del_list key (inorder \<sigma> n) = before \<sigma> n i @ del_list key (oinorder \<sigma> (child n i)) @ after \<sigma> n i"
      unfolding dec by (simp add: del_list_notin [OF keys_lt_notin [OF sp(2)]] del_list_notin [OF keys_gt_notin [OF gt]])
    have val: "map_of (inorder \<sigma> n) key = map_of (oinorder \<sigma> (child n i)) key"
      unfolding dec map_of_append_notin [OF keys_lt_notin [OF sp(2)]] map_of_append_notin2 [OF keys_gt_notin [OF gt]] ..
    show ?thesis
    proof (cases "child n i")
      case None
      with step ld False show ?thesis unfolding del val by (auto simp: require_loaded_def dec del_list_def)
    next
      case (Some c)
      with step ld False obtain c' rel where c: "remove_node c key released = Inr ((c', removed), rel)" and
        n': "n' = fst (prune_empty (set_child (fst (if removed \<noteq> None then touch n rel else (n, rel))) i c')
          (snd (if removed \<noteq> None then touch n rel else (n, rel))))"
        by (auto simp: require_loaded_def Let_def split: prod.splits if_splits)
      have "oinorder \<sigma> c' = del_list key (inorder \<sigma> c) \<and> removed = map_of (inorder \<sigma> c) key"
        by (rule less.hyps [OF _ c]) (use ksorted_child [OF ld less.prems(2) sp(1)] child_size [OF sp(1)] Some in simp_all)
      moreover have "oinorder \<sigma> n' = before \<sigma> n i @ oinorder \<sigma> c' @ after \<sigma> n i"
        using inorder_set_child [OF ld sp(1), of \<sigma> c'] inorder_set_child [of "fst (touch n rel)" i \<sigma> c'] ld sp(1)
        by (simp add: n' prune_empty_contents before_touch after_touch)
      ultimately show ?thesis unfolding del val using Some by simp
    qed
  qed
qed

lemma trim_top_contents: "trim_top n released = Inr (n', released') \<Longrightarrow> oinorder \<sigma> n' = oinorder \<sigma> n"
  by (induction n released rule: trim_top.induct) (auto simp: require_loaded_def split: if_splits)

lemma remove_from_root_contents:
  assumes "remove_from_root n key released = Inr ((n', removed), released')" "ksorted (inorder \<sigma> n)"
  shows "oinorder \<sigma> n' = del_list key (inorder \<sigma> n) \<and> removed = map_of (inorder \<sigma> n) key"
  using assms remove_node_contents [of n key released _ removed _ \<sigma>] trim_top_contents
  by (auto simp: remove_from_root_def)

end
