(* ===== verification/Mst_Shape.thy ===== *)
theory Mst_Shape
  imports Mst_Inorder
begin

text \<open>
  The canonical shape of the tree: every key sits in a node of its own height, every edge goes
  down one level, and no node is empty. Every mutation keeps the shape, and a tree of this shape
  is determined by its contents. \<open>H\<close> is the height of a key and \<open>S\<close> what is assumed of a stub
  with a given CID and height.
\<close>

fun shaped :: "(str \<Rightarrow> nat) \<Rightarrow> (cid \<Rightarrow> nat \<Rightarrow> bool) \<Rightarrow> node \<Rightarrow> bool"
  and oshaped :: "(str \<Rightarrow> nat) \<Rightarrow> (cid \<Rightarrow> nat \<Rightarrow> bool) \<Rightarrow> nat \<Rightarrow> node option \<Rightarrow> bool"
  and eshaped :: "(str \<Rightarrow> nat) \<Rightarrow> (cid \<Rightarrow> nat \<Rightarrow> bool) \<Rightarrow> nat \<Rightarrow> entry \<Rightarrow> bool"
where
  "shaped H S (Node l es c h ld) \<longleftrightarrow>
     (if ld then oshaped H S h l \<and> (\<forall>e \<in> set es. eshaped H S h e) \<and> (es \<noteq> [] \<or> l \<noteq> None)
      else (case c of Some c \<Rightarrow> S c h | None \<Rightarrow> False))"
| "oshaped H S h None \<longleftrightarrow> True"
| "oshaped H S h (Some n) \<longleftrightarrow> 0 < h \<and> nheight n = h - 1 \<and> shaped H S n"
| "eshaped H S h (Entry k v r) \<longleftrightarrow> H k = h \<and> oshaped H S h r"

text \<open>A subtree of the height its parent gives it, and the part of the shape an emptied node keeps.\<close>

definition at_height :: "(str \<Rightarrow> nat) \<Rightarrow> (cid \<Rightarrow> nat \<Rightarrow> bool) \<Rightarrow> nat \<Rightarrow> node option \<Rightarrow> bool" where
  "at_height H S h m \<longleftrightarrow> (case m of None \<Rightarrow> True | Some n \<Rightarrow> nheight n = h \<and> shaped H S n)"

definition body :: "(str \<Rightarrow> nat) \<Rightarrow> (cid \<Rightarrow> nat \<Rightarrow> bool) \<Rightarrow> node \<Rightarrow> bool" where
  "body H S n \<longleftrightarrow> nloaded n \<and> oshaped H S (nheight n) (nleft n) \<and> (\<forall>e \<in> set (nentries n). eshaped H S (nheight n) e)"

definition filled :: "node \<Rightarrow> bool" where
  "filled n \<longleftrightarrow> nentries n \<noteq> [] \<or> nleft n \<noteq> None"

lemma shaped_loaded: "nloaded n \<Longrightarrow> shaped H S n \<longleftrightarrow> body H S n \<and> filled n"
  by (cases n) (auto simp: body_def filled_def)

lemma eshaped_sel: "eshaped H S h e \<longleftrightarrow> H (ekey e) = h \<and> oshaped H S h (eright e)"
  by (cases e) simp

lemma oshaped_at_height: "oshaped H S h m \<longleftrightarrow> m = None \<or> 0 < h \<and> at_height H S (h - 1) m"
  by (cases m) (auto simp: at_height_def)

lemma body_child: "body H S n \<Longrightarrow> i \<le> length (nentries n) \<Longrightarrow> oshaped H S (nheight n) (child n i)"
  by (auto simp: body_def child_def eshaped_sel)

lemma body_touch [simp]: "body H S (fst (touch n r)) \<longleftrightarrow> body H S n"
  and filled_touch [simp]: "filled (fst (touch n r)) \<longleftrightarrow> filled n"
  unfolding body_def filled_def touch_sel by simp_all

lemma set_child_0_sel [simp]: "nleft (set_child n 0 c) = c" "nentries (set_child n 0 c) = nentries n"
  by (cases n; simp)+

lemma set_child_Suc_sel [simp]:
  "nleft (set_child n (Suc i) c) = nleft n"
  "nentries (set_child n (Suc i) c) = (nentries n)[i := set_right (nentries n ! i) c]"
  by (cases n; simp)+

lemma body_set_child:
  assumes "body H S n" "i \<le> length (nentries n)" "oshaped H S (nheight n) c"
  shows "body H S (set_child n i c)"
proof (cases i)
  case (Suc j)
  then have j: "j < length (nentries n)" using assms(2) by simp
  have "eshaped H S (nheight n) (set_right (nentries n ! j) c)"
    using assms(1,3) j by (simp add: body_def eshaped_sel)
  then show ?thesis
    using assms(1) Suc set_update_subset_insert [of "nentries n" j "set_right (nentries n ! j) c"]
    by (auto simp: body_def)
qed (use assms in \<open>simp add: body_def\<close>)

lemma body_set_entries:
  "body H S n \<Longrightarrow> \<forall>e \<in> set es. eshaped H S (nheight n) e \<Longrightarrow> body H S (set_entries n es)"
  by (simp add: body_def)

lemma body_fresh [simp]:
  "body H S (fresh h l es) \<longleftrightarrow> oshaped H S h l \<and> (\<forall>e \<in> set es. eshaped H S h e)"
  by (simp add: body_def)

lemma filled_fresh [simp]: "filled (fresh h l es) \<longleftrightarrow> es \<noteq> [] \<or> l \<noteq> None"
  by (simp add: filled_def)

lemma at_height_trim:
  assumes "body H S n" "nheight n = h"
  shows "at_height H S h (trim_node n)"
  using assms by (auto simp: trim_node_def at_height_def shaped_loaded filled_def body_def)

lemma at_height_fresh: "0 < h \<Longrightarrow> at_height H S (h - 1) (Some c) \<Longrightarrow> at_height H S h (Some (fresh h (Some c) []))"
  by (simp add: at_height_def shaped_loaded)

section \<open>Splitting keeps the shape\<close>

lemma at_height_opt_trim:
  assumes "body H S n" "nheight n = h"
  shows "at_height H S h (trim_node_opt (Some n))"
  using at_height_trim [OF assms] by (simp add: trim_node_opt_def)

lemma at_height_filler:
  assumes "oshaped H S h c"
  shows "at_height H S h (trim_node_opt (map_option (\<lambda>c. fresh h (Some c) []) c))"
  using assms by (cases c) (auto simp: at_height_opt_trim, simp add: trim_node_opt_def at_height_def)

lemma split_node_shape:
  assumes "split_node n key released = Inr ((l, r), released')" "at_height H S h n"
  shows "at_height H S h l \<and> at_height H S h r"
  using assms
proof (induction "osize n" arbitrary: n released l r h rule: less_induct)
  case less
  show ?case
  proof (cases n)
    case None
    with less.prems show ?thesis by (auto simp: at_height_def)
  next
    case (Some m)
    have h: "nheight m = h" "shaped H S m" using less.prems(2) Some by (simp_all add: at_height_def)
    have IH: "oshaped H S h cl \<and> oshaped H S h cr"
      if "nloaded m" "i \<le> length (nentries m)"
        "split_node (child m i) key (released @ cid_list (ncid m)) = Inr ((cl, cr), released')" for i cl cr
    proof (cases "child m i = None")
      case True
      with that show ?thesis by auto
    next
      case False
      have b: "oshaped H S h (child m i)"
        using that h by (metis body_child shaped_loaded)
      then have "at_height H S (h - 1) cl \<and> at_height H S (h - 1) cr"
        using child_size [OF that(2)] Some False
        by (intro less.hyps [OF _ that(3)]) (simp_all add: oshaped_at_height)
      with b False show ?thesis by (auto simp: oshaped_at_height)
    qed
    from less.prems(1) Some have "split_node (Some m) key released = Inr ((l, r), released')" by simp
    then show ?thesis
    proof (cases rule: split_node_cases)
      case (last n' cl cr)
      then have b: "body H S m" using h(2) by (simp add: shaped_loaded)
      with last IH [OF last(1) order_refl last(4)] h show ?thesis
        by (auto intro!: at_height_trim body_set_child at_height_filler)
    next
      case (first n' cl cr)
      then have b: "body H S m" using h(2) by (simp add: shaped_loaded)
      with first IH [OF first(1) _ first(4)] h show ?thesis
        by (auto intro!: at_height_trim body_set_child at_height_filler)
    next
      case (mid i cl cr)
      then have b: "body H S m" using h(2) by (simp add: shaped_loaded)
      have "body H S (fresh h (nleft m) (take i (nentries m)))" "body H S (fresh h cr (drop i (nentries m)))"
        using b h(1) IH [OF mid(1) _ mid(5)] mid(3)
        by (auto simp: body_def dest: in_set_takeD in_set_dropD)
      with mid IH [OF mid(1) _ mid(5)] h show ?thesis
        by (auto intro!: at_height_trim body_set_child)
    qed
  qed
qed

section \<open>Inserting keeps the shape\<close>

lemma insert_at_level_shape:
  assumes "insert_at_level n key val released = Inr (n', released')" "body H S n" "H key = nheight n"
  shows "shaped H S n' \<and> nloaded n' \<and> nheight n' = nheight n \<and> nentries n' \<noteq> []"
proof -
  let ?i = "find_child_index n key"
  have ld: "nloaded n" using assms(2) by (simp add: body_def)
  have i: "?i \<le> length (nentries n)" by (rule find_child_index_bound)
  show ?thesis
  proof (cases "?i < length (nentries n) \<and> ekey (nentries n ! ?i) = key")
    case True
    let ?es = "(nentries n)[?i := set_value (nentries n ! ?i) val]"
    have "eshaped H S (nheight n) (set_value (nentries n ! ?i) val)"
      using assms(2,3) True by (simp add: body_def eshaped_sel)
    then have "\<forall>e \<in> set ?es. eshaped H S (nheight n) e"
      using assms(2) set_update_subset_insert [of "nentries n" ?i] by (auto simp: body_def)
    then have "body H S (set_entries n ?es)" using assms(2) by (rule body_set_entries [rotated])
    moreover have "n' = fst (touch (set_entries n ?es) released)"
      using assms(1) True by (simp add: insert_at_level_def Let_def)
    moreover have "?es \<noteq> []" using True by auto
    ultimately show ?thesis using ld by (simp add: shaped_loaded filled_def)
  next
    case False
    then obtain l r rel where c: "split_node (child n ?i) key released = Inr ((l, r), rel)"
      and n': "n' = fst (touch (set_entries (set_child n ?i l)
        (take ?i (nentries (set_child n ?i l)) @ [Entry key val r] @ drop ?i (nentries (set_child n ?i l)))) rel)"
      using assms(1) by (auto simp: insert_at_level_def Let_def)
    have oc: "oshaped H S (nheight n) (child n ?i)" by (rule body_child [OF assms(2) i])
    have lr: "oshaped H S (nheight n) l \<and> oshaped H S (nheight n) r"
    proof (cases "child n ?i = None")
      case True
      with c show ?thesis by auto
    next
      case False
      with oc split_node_shape [OF c, of H S "nheight n - 1"] show ?thesis by (auto simp: oshaped_at_height)
    qed
    have "body H S (set_child n ?i l)" using lr by (intro body_set_child [OF assms(2) i]) simp
    then have "body H S (set_entries (set_child n ?i l)
        (take ?i (nentries (set_child n ?i l)) @ [Entry key val r] @ drop ?i (nentries (set_child n ?i l))))"
      using lr assms(3) by (auto simp: body_def dest: in_set_takeD in_set_dropD)
    then show ?thesis using ld by (simp add: n' shaped_loaded filled_def)
  qed
qed

lemma nentries_set_child_empty [simp]: "nentries (set_child n i c) = [] \<longleftrightarrow> nentries n = []"
  by (metis length_0_conv set_child_sel(4))

lemma filled_set_child: "i \<le> length (nentries n) \<Longrightarrow> filled (set_child n i (Some c))"
  by (cases i) (auto simp: filled_def)

lemma insert_shape:
  shows "insert_node m key val height released = Inr (n', released') \<Longrightarrow> H key = height \<Longrightarrow>
      (case m of None \<Rightarrow> True | Some n \<Rightarrow> body H S n \<and> (nheight n < height \<longrightarrow> filled n)) \<Longrightarrow>
      shaped H S n' \<and> nloaded n' \<and> nheight n' = (case m of None \<Rightarrow> height | Some n \<Rightarrow> max (nheight n) height) \<and>
      ((case m of None \<Rightarrow> True | Some n \<Rightarrow> nentries n \<noteq> [] \<or> nheight n \<le> height) \<longrightarrow> nentries n' \<noteq> [])"
    and "insert_below n key val height released = Inr (n', released') \<Longrightarrow> H key = height \<Longrightarrow> body H S n \<Longrightarrow>
      shaped H S n' \<and> nloaded n' \<and> nheight n' = nheight n \<and> (nentries n \<noteq> [] \<longrightarrow> nentries n' \<noteq> [])"
proof (induction m key val height released and n key val height released
    arbitrary: n' released' and n' released' rule: insert_node_insert_below.induct)
  case (1 key val height released)
  then show ?case by (auto simp: shaped_loaded)
next
  case (2 n key val height released)
  have ld: "nloaded n" using "2.prems"(1) by (auto simp: insert_node.simps(2))
  then have rl: "require_loaded n = Inr ()" by simp
  have b: "body H S n" using "2.prems" by simp
  consider "height > nheight n" | "height < nheight n" | "height = nheight n" by linarith
  then show ?case
  proof cases
    case 1
    with "2.prems" rl have "insert_node (Some (fresh (nheight n + 1) (Some n) [])) key val height released = Inr (n', released')"
      by (simp add: insert_node.simps(2))
    from "2.IH"(1) [OF rl 1 this] "2.prems" 1 ld show ?thesis by (simp add: shaped_loaded)
  next
    case 2
    with "2.prems" rl have "insert_below n key val height released = Inr (n', released')"
      by (simp add: insert_node.simps(2))
    from "2.IH"(2) [OF rl _ 2 this] "2.prems" 2 show ?thesis by auto
  next
    case 3
    with "2.prems" rl have "insert_at_level n key val released = Inr (n', released')"
      by (simp add: insert_node.simps(2))
    from insert_at_level_shape [OF this b] "2.prems" 3 show ?thesis by simp
  qed
next
  case (3 n key val height released)
  let ?i = "find_child_index n key"
  have h: "\<not> height \<ge> nheight n" using "3.prems"(1) by (auto simp: insert_below.simps)
  have i: "?i \<le> length (nentries n)" by (rule find_child_index_bound)
  have ld: "nloaded n" using "3.prems"(3) by (simp add: body_def)
  have "\<exists>c rel. n' = fst (touch (set_child n ?i (Some c)) rel) \<and> nheight c = nheight n - 1 \<and> shaped H S c"
  proof (cases "child n ?i = None \<and> nheight n - 1 = height")
    case True
    with "3.prems"(1) h have "n' = fst (touch (set_child n ?i (Some (fresh height None [Entry key val None]))) released)"
      by (auto simp: insert_below.simps)
    with True "3.prems"(2) show ?thesis by (intro exI conjI) (auto simp: shaped_loaded)
  next
    case False
    let ?c = "case child n ?i of Some c \<Rightarrow> c | None \<Rightarrow> fresh (nheight n - 1) None []"
    obtain c rel where c: "insert_node (Some ?c) key val height released = Inr (c, rel)"
      "n' = fst (touch (set_child n ?i (Some c)) rel)"
      using "3.prems"(1) h False by (auto simp: insert_below.simps Let_def)
    have ldc: "nloaded ?c" using c(1) by (auto simp: insert_node.simps(2))
    have hc: "nheight ?c = nheight n - 1"
      using body_child [OF "3.prems"(3) i] by (auto split: option.splits)
    have "body H S ?c"
      using body_child [OF "3.prems"(3) i] ldc by (auto simp: shaped_loaded split: option.splits)
    moreover have "\<not> nheight ?c < height" using hc h by linarith
    ultimately have "shaped H S c \<and> nloaded c \<and> nheight c = max (nheight ?c) height"
      using "3.IH" [OF h refl False refl c(1) "3.prems"(2)] by (simp only: option.case simp_thms)
    with hc h have "nheight c = nheight n - 1 \<and> shaped H S c" by simp
    with c(2) show ?thesis by blast
  qed
  then obtain c rel where c: "n' = fst (touch (set_child n ?i (Some c)) rel)" "nheight c = nheight n - 1" "shaped H S c"
    by blast
  have "body H S (set_child n ?i (Some c))"
    using c h by (intro body_set_child [OF "3.prems"(3) i]) simp
  with c filled_set_child [OF i, of c] ld show ?case by (simp add: shaped_loaded)
qed


section \<open>Removing keeps the shape\<close>

lemma merge_nodes_shape:
  assumes "merge_nodes l r released = Inr (m, released')" "at_height H S h l" "at_height H S h r"
  shows "at_height H S h m \<and> (l \<noteq> None \<or> r \<noteq> None \<longrightarrow> m \<noteq> None)"
  using assms
proof (induction "osize l + osize r" arbitrary: l r released m released' h rule: less_induct)
  case less
  consider "l = None" | "r = None" "l \<noteq> None" | a b where "l = Some a" "r = Some b" by (cases l; cases r) auto
  then show ?case
  proof cases
    case 1
    then show ?thesis using less.prems by simp
  next
    case 2
    then show ?thesis using less.prems by (cases l) auto
  next
    case (3 a b)
    let ?j = "length (nentries a)"
    have ld: "nloaded a" "nloaded b"
      using less.prems 3 by (auto simp: merge_nodes.simps(3))
    obtain d rel where d: "merge_nodes (child a ?j) (nleft b) released = Inr (d, rel)" and
      m: "m = Some (fst (touch (set_entries (set_child a ?j d) (nentries (set_child a ?j d) @ nentries b)) rel))"
      using less.prems 3 by (auto simp: merge_nodes.simps(3) Let_def split: prod.splits)
    have h: "nheight a = h" "nheight b = h" "body H S a" "filled a" "body H S b" "filled b"
      using less.prems 3 ld by (simp_all add: at_height_def shaped_loaded)
    have ca: "oshaped H S h (child a ?j)" using body_child [OF h(3) order_refl] h(1) by simp
    have lb: "oshaped H S h (nleft b)" using h by (simp add: body_def)
    have "osize (child a ?j) + osize (nleft b) < osize l + osize r"
      using child_size [of ?j a] nleft_size [of b] 3 by simp
    then have "at_height H S (h - 1) d \<and> (child a ?j \<noteq> None \<or> nleft b \<noteq> None \<longrightarrow> d \<noteq> None)"
      by (rule less.hyps [OF _ d]) (use ca lb in \<open>auto simp: oshaped_at_height at_height_def\<close>)
    moreover have "d = None" if "child a ?j = None" "nleft b = None" using d that by simp
    ultimately have dd: "oshaped H S h d" "child a ?j \<noteq> None \<or> nleft b \<noteq> None \<longrightarrow> d \<noteq> None"
      using ca lb by (auto simp: oshaped_at_height)
    let ?m = "set_entries (set_child a ?j d) (nentries (set_child a ?j d) @ nentries b)"
    have "body H S (set_child a ?j d)" using dd(1) h by (intro body_set_child) simp_all
    then have "body H S ?m" using h by (auto simp: body_def)
    moreover have "filled ?m"
      using h(4,6) dd(2) by (cases "nentries a = []") (auto simp: filled_def child_def)
    ultimately show ?thesis using ld h(1) by (simp add: m at_height_def shaped_loaded)
  qed
qed

lemma prune_empty_shape:
  "body H S n \<Longrightarrow> nheight n = h \<Longrightarrow> at_height H S h (fst (prune_empty n released))"
  by (auto simp: prune_empty_def at_height_def shaped_loaded filled_def body_def)

lemma oshaped_merge:
  assumes "merge_nodes l r released = Inr (m, released')" "oshaped H S h l" "oshaped H S h r"
  shows "oshaped H S h m"
proof (cases "l = None \<and> r = None")
  case True
  with assms(1) show ?thesis by auto
next
  case False
  then have "0 < h" using assms(2,3) by (auto simp: oshaped_at_height)
  moreover have "at_height H S (h - 1) l" "at_height H S (h - 1) r"
    using assms(2,3) by (auto simp: oshaped_at_height at_height_def)
  ultimately show ?thesis using merge_nodes_shape [OF assms(1)] by (auto simp: oshaped_at_height)
qed

lemma remove_node_shape:
  assumes "remove_node n key released = Inr ((n', removed), released')" "shaped H S n"
  shows "at_height H S (nheight n) n'"
  using assms
proof (induction "nsize n" arbitrary: n released n' removed released' rule: less_induct)
  case less
  have ld: "nloaded n" using less.prems(1) by (auto simp: remove_node.simps [of n])
  then have b: "body H S n" using less.prems(2) by (simp add: shaped_loaded)
  define i where "i = scan_entries (nentries n) key"
  have i: "i \<le> length (nentries n)" unfolding i_def by (rule scan_entries_bound)
  note step = less.prems(1) [unfolded remove_node.simps [of n] i_def [symmetric]]
  have oc: "oshaped H S (nheight n) (child n i)" by (rule body_child [OF b i])
  show ?case
  proof (cases "i < length (nentries n) \<and> key = ekey (nentries n ! i)")
    case True
    let ?e = "nentries n ! i" and ?m = "set_entries n (take i (nentries n) @ drop (Suc i) (nentries n))"
    obtain m rel rel' where m: "merge_nodes (child n i) (eright ?e) released = Inr (m, rel)"
      "n' = fst (prune_empty (fst (touch (set_child ?m i m) rel)) rel')"
      using step ld True by (auto simp: require_loaded_def Let_def case_prod_beta)
    have "oshaped H S (nheight n) (eright ?e)"
      using b True by (simp add: body_def eshaped_sel)
    then have "oshaped H S (nheight n) m" using oshaped_merge [OF m(1) oc] by simp
    moreover have "body H S ?m"
      using b by (intro body_set_entries) (auto simp: body_def dest: in_set_takeD in_set_dropD)
    ultimately have "body H S (set_child ?m i m)" using True by (intro body_set_child) auto
    then show ?thesis by (simp add: m(2) prune_empty_shape)
  next
    case False
    show ?thesis
    proof (cases "child n i")
      case None
      with step ld False less.prems(2) show ?thesis by (auto simp: require_loaded_def at_height_def)
    next
      case (Some c)
      with step ld False obtain c' rel rel' m where c: "remove_node c key released = Inr ((c', removed), rel)" and
        n': "n' = fst (prune_empty (set_child m i c') rel')" "m = n \<or> m = fst (touch n rel)"
        by (auto simp: require_loaded_def Let_def case_prod_beta)
      have "at_height H S (nheight c) c'"
        by (rule less.hyps [OF _ c]) (use child_size [OF i] Some oc in simp_all)
      then have "oshaped H S (nheight n) c'" using oc Some by (cases c') (auto simp: at_height_def)
      moreover have "body H S m" "nentries m = nentries n" "nheight m = nheight n" using n'(2) b by auto
      ultimately have "body H S (set_child m i c')" using i by (intro body_set_child) simp_all
      then show ?thesis using n' by (auto simp: prune_empty_shape)
    qed
  qed
qed

text \<open>A root: its node has entries, unless it is an unread leaf.\<close>

definition canonical :: "(str \<Rightarrow> nat) \<Rightarrow> (cid \<Rightarrow> nat \<Rightarrow> bool) \<Rightarrow> node option \<Rightarrow> bool" where
  "canonical H S m \<longleftrightarrow>
     (case m of None \<Rightarrow> True
      | Some n \<Rightarrow> shaped H S n \<and> (if nloaded n then nentries n \<noteq> [] else nheight n = 0))"

lemma trim_top_shape:
  "trim_top m released = Inr (m', released') \<Longrightarrow> (case m of None \<Rightarrow> True | Some n \<Rightarrow> shaped H S n) \<Longrightarrow>
   canonical H S m'"
proof (induction m released rule: trim_top.induct)
  case (1 released)
  then show ?case by (auto simp: canonical_def)
next
  case (2 l es c h ld released)
  show ?case
  proof (cases "ld \<and> es = []")
    case True
    then have "case l of None \<Rightarrow> True | Some n \<Rightarrow> shaped H S n"
      using "2.prems"(2) by (auto split: option.splits)
    with True 2 show ?thesis by (auto simp: require_loaded_def)
  next
    case False
    with 2 show ?thesis by (auto simp: require_loaded_def canonical_def split: if_splits)
  qed
qed

lemma remove_from_root_shape:
  assumes "remove_from_root n key released = Inr ((n', removed), released')" "shaped H S n"
  shows "canonical H S n'"
proof -
  obtain m rel where m: "remove_node n key released = Inr ((m, removed), rel)" "trim_top m rel = Inr (n', released')"
    using assms(1) by (auto simp: remove_from_root_def)
  have "at_height H S (nheight n) m" by (rule remove_node_shape [OF m(1) assms(2)])
  then show ?thesis
    by (intro trim_top_shape [OF m(2)]) (simp add: at_height_def split: option.splits)
qed


section \<open>The contents determine the tree\<close>

text \<open>The tree without its CIDs: keys, values, heights and links.\<close>

fun erase :: "node \<Rightarrow> node" and oerase :: "node option \<Rightarrow> node option" and eerase :: "entry \<Rightarrow> entry" where
  "erase (Node l es c h ld) = Node (oerase l) (map eerase es) None h ld"
| "oerase None = None"
| "oerase (Some n) = Some (erase n)"
| "eerase (Entry k v r) = Entry k v (oerase r)"

abbreviation no_stubs :: "cid \<Rightarrow> nat \<Rightarrow> bool" where
  "no_stubs \<equiv> \<lambda>_ _. False"

lemma shaped_no_stubs: "shaped H no_stubs n \<longleftrightarrow> nloaded n \<and> body H no_stubs n \<and> filled n"
  by (cases n) (auto simp: body_def filled_def split: option.splits)

lemma shaped_heights:
  shows "shaped H no_stubs n \<Longrightarrow> \<forall>p \<in> set (inorder \<sigma> n). H (fst p) \<le> nheight n"
    and "oshaped H no_stubs h m \<Longrightarrow> \<forall>p \<in> set (oinorder \<sigma> m). H (fst p) < h"
    and "eshaped H no_stubs h e \<Longrightarrow> \<forall>p \<in> set (einorder \<sigma> e). H (fst p) \<le> h"
proof (induction \<sigma> n and \<sigma> m and \<sigma> e arbitrary: and h and h rule: inorder_oinorder_einorder.induct)
  case (1 \<sigma> l es c h ld)
  then have ld: ld and l: "oshaped H no_stubs h l" and es: "\<forall>e \<in> set es. eshaped H no_stubs h e"
    by (auto split: if_splits option.splits)
  have "\<forall>p \<in> set (oinorder \<sigma> l). H (fst p) < h" by (rule "1.IH"(1) [OF ld l])
  moreover have "\<forall>p \<in> set (einorder \<sigma> e). H (fst p) \<le> h" if "e \<in> set es" for e
    using "1.IH"(2) [OF ld that] es that by blast
  ultimately show ?case using ld by (auto intro: less_imp_le)
next
  case (3 \<sigma> n)
  then show ?case by (auto dest!: bspec)
qed (auto intro: less_imp_le)

lemma shaped_nonempty:
  shows "shaped H no_stubs n \<Longrightarrow> inorder \<sigma> n \<noteq> []"
proof (induction "nsize n" arbitrary: n rule: less_induct)
  case less
  have n: "nloaded n" "body H no_stubs n" "filled n" using less.prems by (simp_all add: shaped_no_stubs)
  show ?case
  proof (cases "nentries n")
    case Nil
    then obtain m where m: "nleft n = Some m" using n(3) by (auto simp: filled_def)
    then have "shaped H no_stubs m" using n(2) by (simp add: body_def)
    moreover have "nsize m < nsize n" using nleft_size [of n] m by simp
    ultimately have "inorder \<sigma> m \<noteq> []" by (intro less.hyps)
    then show ?thesis using n(1) m by (simp add: inorder_loaded)
  next
    case (Cons e es)
    then show ?thesis using n(1) by (simp add: inorder_loaded einorder_sel)
  qed
qed

lemma split_unique:
  assumes "l @ concat (map (\<lambda>x. f x # g x) xs) = m @ concat (map (\<lambda>y. f y # g y) ys)"
    and "\<forall>x \<in> set xs. Q (f x) \<and> (\<forall>z \<in> set (g x). \<not> Q z)" "\<forall>y \<in> set ys. Q (f y) \<and> (\<forall>z \<in> set (g y). \<not> Q z)"
    and "\<forall>z \<in> set l. \<not> Q z" "\<forall>z \<in> set m. \<not> Q z"
  shows "l = m \<and> map f xs = map f ys \<and> map g xs = map g ys"
  using assms
proof (induction xs arbitrary: l m ys)
  case Nil
  show ?case
  proof (cases ys)
    case (Cons y ys')
    then have "f y \<in> set l" "Q (f y)" using Nil.prems by auto
    then show ?thesis using Nil.prems(4) by blast
  qed (use Nil in simp)
next
  case (Cons x xs)
  have tw: "takeWhile (\<lambda>z. \<not> Q z) (k @ f z # zs) = k" if "\<forall>z \<in> set k. \<not> Q z" "Q (f z)" for k z zs
    using that by (simp add: takeWhile_append2)
  show ?case
  proof (cases ys)
    case Nil
    then have "m = l @ f x # g x @ concat (map (\<lambda>x. f x # g x) xs)" using Cons.prems(1) by simp
    then have "f x \<in> set m" by simp
    then show ?thesis using Cons.prems(2,5) by auto
  next
    case (Cons y ys')
    have "l = m"
      using arg_cong [OF Cons.prems(1), of "takeWhile (\<lambda>z. \<not> Q z)"] Cons.prems Cons
        tw [of l x] tw [of m y] by simp
    then have e: "f x = f y" "g x @ concat (map (\<lambda>x. f x # g x) xs) = g y @ concat (map (\<lambda>y. f y # g y) ys')"
      using Cons.prems(1) Cons by simp_all
    have "g x = g y \<and> map f xs = map f ys' \<and> map g xs = map g ys'"
      by (rule Cons.IH [OF e(2)]) (use Cons.prems Cons in auto)
    with \<open>l = m\<close> e(1) Cons show ?thesis by simp
  qed
qed


abbreviation epair :: "entry \<Rightarrow> str \<times> cid" where
  "epair e \<equiv> (ekey e, evalue e)"

lemma centries_pairs: "centries \<sigma> es = concat (map (\<lambda>e. epair e # oinorder \<sigma> (eright e)) es)"
  by (induction es) (simp_all add: einorder_sel)

lemma erase_sel:
  "erase n = Node (oerase (nleft n)) (map eerase (nentries n)) None (nheight n) (nloaded n)"
  "eerase e = Entry (ekey e) (evalue e) (oerase (eright e))"
  by (cases n; simp) (cases e; simp)

lemma oshaped_None_iff: "oshaped H no_stubs h m \<Longrightarrow> m = None \<longleftrightarrow> oinorder \<sigma> m = []"
  using shaped_nonempty by (cases m) auto

lemma shaped_unique:
  assumes "shaped H no_stubs n" "shaped H no_stubs m" "nheight n = nheight m" "inorder \<sigma> n = inorder \<sigma> m"
  shows "erase n = erase m"
  using assms
proof (induction "nsize n" arbitrary: n m rule: less_induct)
  case less
  define h where "h = nheight n"
  have n: "nloaded n" "body H no_stubs n" and m: "nloaded m" "body H no_stubs m" "nheight m = h"
    using less.prems by (simp_all add: shaped_no_stubs h_def)
  have IH: "oerase a = oerase b" if a: "oshaped H no_stubs h a" "osize a < nsize n" and b: "oshaped H no_stubs h b"
    and eq: "oinorder \<sigma> a = oinorder \<sigma> b" for a b
  proof (cases a)
    case None
    then show ?thesis using eq oshaped_None_iff [OF b, of \<sigma>] by simp
  next
    case (Some a')
    then obtain b' where "b = Some b'" using eq a(1) shaped_nonempty [of H a' \<sigma>] by (cases b) auto
    with Some a b eq less.hyps [of a' b'] show ?thesis by simp
  qed
  have low: "z \<in> set (oinorder \<sigma> a) \<Longrightarrow> oshaped H no_stubs h a \<Longrightarrow> H (fst z) \<noteq> h" for a z
    using shaped_heights(2) [of H h a \<sigma>] by blast
  have ch: "\<forall>e \<in> set (nentries k). H (ekey e) = h \<and> (\<forall>z \<in> set (oinorder \<sigma> (eright e)). H (fst z) \<noteq> h)"
    "\<forall>z \<in> set (oinorder \<sigma> (nleft k)). H (fst z) \<noteq> h" if "body H no_stubs k" "nheight k = h" for k
    using that low by (auto simp: body_def eshaped_sel)
  have parts: "oinorder \<sigma> (nleft n) = oinorder \<sigma> (nleft m) \<and> map epair (nentries n) = map epair (nentries m) \<and>
      map (\<lambda>e. oinorder \<sigma> (eright e)) (nentries n) = map (\<lambda>e. oinorder \<sigma> (eright e)) (nentries m)"
    by (rule split_unique [where Q = "\<lambda>z. H (fst z) = h"])
      (use less.prems(4) n m ch h_def in \<open>simp_all add: inorder_loaded centries_pairs\<close>)
  have "oerase (nleft n) = oerase (nleft m)"
    using n m parts nleft_size [of n] by (intro IH) (simp_all add: body_def h_def)
  moreover have "map eerase (nentries n) = map eerase (nentries m)"
  proof (rule nth_equalityI)
    show len: "length (map eerase (nentries n)) = length (map eerase (nentries m))"
      using parts by (metis length_map)
    fix i assume "i < length (map eerase (nentries n))"
    then have i: "i < length (nentries n)" "i < length (nentries m)" using len by simp_all
    let ?e = "nentries n ! i" and ?f = "nentries m ! i"
    have "map epair (nentries n) ! i = map epair (nentries m) ! i"
      "map (\<lambda>e. oinorder \<sigma> (eright e)) (nentries n) ! i = map (\<lambda>e. oinorder \<sigma> (eright e)) (nentries m) ! i"
      using parts by simp_all
    then have "epair ?e = epair ?f" "oinorder \<sigma> (eright ?e) = oinorder \<sigma> (eright ?f)"
      using i by simp_all
    moreover have "oshaped H no_stubs h (eright ?e)" "oshaped H no_stubs h (eright ?f)"
      using n m i by (auto simp: body_def eshaped_sel h_def)
    moreover from this have "oerase (eright ?e) = oerase (eright ?f)"
      using eright_nth_size [OF i(1)] \<open>oinorder \<sigma> (eright ?e) = oinorder \<sigma> (eright ?f)\<close> by (intro IH)
    ultimately show "map eerase (nentries n) ! i = map eerase (nentries m) ! i"
      using i by (simp add: erase_sel(2))
  qed
  ultimately show ?case using n m h_def by (simp add: erase_sel)
qed

lemma canonical_height:
  assumes "shaped H no_stubs n" "nentries n \<noteq> []"
  shows "nheight n = Max ((\<lambda>p. H (fst p)) ` set (inorder \<sigma> n))"
proof (rule Max_eqI [symmetric])
  have b: "body H no_stubs n" "nloaded n" using assms(1) by (simp_all add: shaped_no_stubs)
  show "x \<le> nheight n" if "x \<in> (\<lambda>p. H (fst p)) ` set (inorder \<sigma> n)" for x
    using that shaped_heights(1) [OF assms(1)] by blast
  let ?e = "hd (nentries n)"
  have e: "?e \<in> set (nentries n)" using assms(2) by simp
  then have "H (ekey ?e) = nheight n" using b by (simp add: body_def eshaped_sel)
  moreover have "epair ?e \<in> set (inorder \<sigma> n)"
    using e b(2) by (auto simp: inorder_loaded einorder_sel)
  ultimately show "nheight n \<in> (\<lambda>p. H (fst p)) ` set (inorder \<sigma> n)" by force
qed simp

lemma canonical_unique:
  assumes "canonical H no_stubs t" "canonical H no_stubs u" "oinorder \<sigma> t = oinorder \<sigma> u"
  shows "oerase t = oerase u"
proof (cases t; cases u)
  fix n m assume tu: "t = Some n" "u = Some m"
  then have "shaped H no_stubs n" "nentries n \<noteq> []" "shaped H no_stubs m" "nentries m \<noteq> []"
    using assms(1,2) by (auto simp: canonical_def shaped_no_stubs)
  moreover have "nheight n = nheight m"
    using canonical_height [of H n \<sigma>] canonical_height [of H m \<sigma>] calculation assms(3) tu by simp
  ultimately show ?thesis using tu assms(3) shaped_unique [of H n m \<sigma>] by simp
qed (use assms in \<open>auto simp: canonical_def dest: shaped_nonempty [of H _ \<sigma>]\<close>)

end
