(* ===== verification/Mst_Load.thy ===== *)
theory Mst_Load
  imports Mst_Shape
begin

text \<open>
  Loading nodes on demand: key validation, node population, the \<open>Loader\<close> and the traversals that
  load what a lookup, insert or remove touches (\<open>src/src/mst/tree.rs\<close>).

  A traversal that may fail after it loaded some nodes returns the node and the link counts it
  leaves beside its result, since the source keeps both. \<open>Loader\<close>'s block source, the UTF-8 check
  of \<open>simdutf8\<close> inside the CBOR decoder and the SHA-256 compression function are the fields of
  \<open>env\<close>.
\<close>

record env =
  read_block :: "cid \<Rightarrow> mst_error + bytes option"
  simd_utf8 :: "bytes \<Rightarrow> bool"
  compress256 :: compress_fn

type_synonym refs = "cid \<rightharpoonup> nat"

section \<open>Places\<close>

definition TREE_MAX_DEPTH :: nat where "TREE_MAX_DEPTH = 128"

record place =
  depth :: nat
  lo :: "str option"
  hi :: "str option"

definition ROOT :: place where
  "ROOT = \<lparr>depth = 0, lo = None, hi = None\<rparr>"

definition admits :: "place \<Rightarrow> str \<Rightarrow> bool" where
  "admits at key \<longleftrightarrow>
     (case lo at of None \<Rightarrow> True | Some l \<Rightarrow> l < key) \<and> (case hi at of None \<Rightarrow> True | Some h \<Rightarrow> key < h)"

text \<open>The place of the subtree at index \<open>i\<close> of a node at \<open>at\<close>.\<close>

definition child_place :: "node \<Rightarrow> nat \<Rightarrow> place \<Rightarrow> place" where
  "child_place n i at =
     \<lparr>depth = depth at + 1,
      lo = (if i = 0 then lo at else Some (ekey (nentries n ! (i - 1)))),
      hi = (if i < length (nentries n) then Some (ekey (nentries n ! i)) else hi at)\<rparr>"

section \<open>Keys\<close>

definition key_byte :: "u8 \<Rightarrow> bool" where
  "key_byte b \<longleftrightarrow> is_ascii_alphanumeric b \<or> b \<in> set (lit ''_~-:.'')"

definition is_valid_key :: "str \<Rightarrow> bool" where
  "is_valid_key bytes =
     (case position (\<lambda>b. b = 0x2f) bytes of
        None \<Rightarrow> False
      | Some slash \<Rightarrow>
          length bytes \<le> MAX_KEY_LEN \<and> slash > 0 \<and> slash + 1 < length bytes \<and>
          list_all key_byte (take slash bytes) \<and> list_all key_byte (drop (slash + 1) bytes))"

text \<open>
  \<open>for_each_key\<close>, returning the keys it hands to its callback in order; the callers here use the
  callback's effects only when the whole node passes.
\<close>

fun for_each_key :: "bytes option \<Rightarrow> entry_data list \<Rightarrow> mst_error + str list" where
  "for_each_key prev [] = Inr []"
| "for_each_key prev (ed # eds) =
     (let p = (case prev of None \<Rightarrow> [] | Some p \<Rightarrow> p) in
      if prefix_len ed > length p then Inl (InvalidNode ''entry prefix length exceeds previous key length'')
      else let key = take (prefix_len ed) p @ key_suffix ed in
        if \<not> utf8_valid key then Inl (InvalidNode ''key is not valid UTF-8'')
        else if \<not> is_valid_key key then Inl (InvalidNode ''invalid MST key'')
        else if prev \<noteq> None \<and> key \<le> p then Inl (InvalidNode ''entry key is not greater than previous key'')
        else and_then (for_each_key (Some key) eds) (\<lambda>keys. Inr (key # keys)))"

section \<open>Populating a node\<close>

definition out_of_place :: mst_error where
  "out_of_place = InvalidNode ''key is outside the range its place in the tree allows''"

definition too_deep :: mst_error where
  "too_deep = InvalidNode ''node is too many levels below the root''"

definition populate_node :: "env \<Rightarrow> node \<Rightarrow> node_data \<Rightarrow> place \<Rightarrow> mst_error + node" where
  "populate_node E n nd at =
     and_then (for_each_key None (nd_entries nd)) (\<lambda>keys.
       if keys \<noteq> [] \<and> (\<not> admits at (hd keys) \<or> \<not> admits at (last keys)) then Inl out_of_place
       else
         let height = (case keys of [] \<Rightarrow> nheight n | k # _ \<Rightarrow> height_for_key (compress256 E) k);
             child_height = height - 1;
             entries = map (\<lambda>(key, ed). Entry key (ed_value ed) (map_option (\<lambda>c. stub c child_height) (ed_right ed)))
                         (zip keys (nd_entries nd))
         in Inr (Node (map_option (\<lambda>c. stub c child_height) (nd_left nd)) entries (ncid n) height True))"

section \<open>The loader\<close>

definition node_links :: "node_data \<Rightarrow> cid list" where
  "node_links nd = cid_list (nd_left nd) @ concat (map (\<lambda>e. cid_list (ed_right e)) (nd_entries nd))"

text \<open>The counting loop: whether every child was unlinked before, the counts, and how many it set.\<close>

fun link_children :: "cid list \<Rightarrow> refs \<Rightarrow> nat \<Rightarrow> bool \<times> refs \<times> nat" where
  "link_children [] refs linked = (True, refs, linked)"
| "link_children (c # cs) refs linked =
     (if (case refs c of Some k \<Rightarrow> k > 0 | None \<Rightarrow> False) then (False, refs, linked)
      else link_children cs (refs(c \<mapsto> 1)) (linked + 1))"

definition load_node :: "env \<Rightarrow> place \<Rightarrow> node \<Rightarrow> refs \<Rightarrow> (mst_error + cid option) \<times> node \<times> refs" where
  "load_node E at n refs =
     (if nloaded n then (Inr None, n, refs)
      else case ncid n of
        None \<Rightarrow> (Inl (Internal ''unloaded MST node has no CID''), n, refs)
      | Some c \<Rightarrow>
          if depth at > TREE_MAX_DEPTH then (Inl too_deep, n, refs)
          else case read_block E c of
            Inl e \<Rightarrow> (Inl e, n, refs)
          | Inr None \<Rightarrow> (Inr (Some c), n, refs)
          | Inr (Some data) \<Rightarrow>
              (case decode_node_data (simd_utf8 E) data of
                 Inl e \<Rightarrow> (Inl e, n, refs)
               | Inr nd \<Rightarrow>
                   let (ok, refs', linked) = link_children (node_links nd) refs 0;
                       result = (if ok then populate_node E n nd at
                                 else Inl (InvalidNode ''node is linked from more than one place''))
                   in case result of
                        Inr n' \<Rightarrow> (Inr None, n', refs')
                      | Inl e \<Rightarrow> (Inl e, n, fold (\<lambda>c r. r(c := None)) (take linked (node_links nd)) refs')))"

definition ensure_loaded :: "env \<Rightarrow> place \<Rightarrow> node \<Rightarrow> refs \<Rightarrow> (mst_error + unit) \<times> node \<times> refs" where
  "ensure_loaded E at n refs =
     (case load_node E at n refs of
        (Inl e, n, refs) \<Rightarrow> (Inl e, n, refs)
      | (Inr None, n, refs) \<Rightarrow> (Inr (), n, refs)
      | (Inr (Some c), n, refs) \<Rightarrow> (Inl (BlockNotFound c), n, refs))"

text \<open>
  Loading bounds every traversal: a stub has no stub below it until it loads, and loads only
  above the depth limit.
\<close>

definition rank :: "place \<Rightarrow> node \<Rightarrow> nat" where
  "rank at n = (if nloaded n then TREE_MAX_DEPTH + 2 + nsize n else TREE_MAX_DEPTH + 1 - depth at)"

definition orank :: "place \<Rightarrow> node option \<Rightarrow> nat" where
  "orank at m = (case m of None \<Rightarrow> 0 | Some n \<Rightarrow> rank at n)"

lemma populate_stubs:
  assumes "populate_node E n nd at = Inr n'" "i \<le> length (nentries n')" "child n' i = Some c"
  shows "\<not> nloaded c"
proof -
  have e: "e \<in> set (nentries n') \<Longrightarrow> eright e = Some c \<Longrightarrow> \<not> nloaded c" for e
    using assms(1) by (auto simp: populate_node_def Let_def stub_def split: if_splits)
  have l: "nleft n' = Some c \<Longrightarrow> \<not> nloaded c"
    using assms(1) by (auto simp: populate_node_def Let_def stub_def split: if_splits)
  show ?thesis
  proof (cases i)
    case 0
    with assms(3) l show ?thesis by (simp add: child_def)
  next
    case (Suc j)
    with assms(2,3) e [of "nentries n' ! j"] show ?thesis by (simp add: child_def)
  qed
qed

lemma load_node_ok:
  assumes "load_node E at n refs = (Inr None, n', refs')"
  shows "nloaded n \<and> n' = n \<and> refs' = refs \<or>
    \<not> nloaded n \<and> depth at \<le> TREE_MAX_DEPTH \<and> (\<exists>nd. populate_node E n nd at = Inr n')"
  using assms by (auto simp: load_node_def Let_def split: if_splits option.splits sum.splits prod.splits)

lemma rank_child:
  assumes "load_node E at n refs = (Inr None, n', refs')" "i \<le> length (nentries n')"
  shows "orank (child_place m i at) (child n' i) < rank at n"
proof (cases "child n' i")
  case None
  then show ?thesis using load_node_ok [OF assms(1)] by (auto simp: orank_def rank_def)
next
  case (Some c)
  from load_node_ok [OF assms(1)] show ?thesis
  proof
    assume "nloaded n \<and> n' = n \<and> refs' = refs"
    then show ?thesis using child_size [OF assms(2)] Some by (auto simp: orank_def rank_def child_place_def)
  next
    assume l: "\<not> nloaded n \<and> depth at \<le> TREE_MAX_DEPTH \<and> (\<exists>nd. populate_node E n nd at = Inr n')"
    then have "\<not> nloaded c" using populate_stubs [OF _ assms(2) Some] by blast
    with l Some show ?thesis by (auto simp: orank_def rank_def child_place_def)
  qed
qed


section \<open>Lookup\<close>

function get_node :: "env \<Rightarrow> place \<Rightarrow> str \<Rightarrow> node \<Rightarrow> refs \<Rightarrow> (mst_error + cid option) \<times> node \<times> refs" where
  "get_node E at key n refs =
     (case ensure_loaded E at n refs of
        (Inl e, n, refs) \<Rightarrow> (Inl e, n, refs)
      | (Inr _, n, refs) \<Rightarrow>
          let i = scan_entries (nentries n) key in
          if i < length (nentries n) \<and> key = ekey (nentries n ! i) then (Inr (Some (evalue (nentries n ! i))), n, refs)
          else case child n i of
            None \<Rightarrow> (Inr None, n, refs)
          | Some c \<Rightarrow>
              (case get_node E (child_place n i at) key c refs of
                 (r, c, refs) \<Rightarrow> (r, set_child n i (Some c), refs)))"
  by pat_completeness auto

lemma ensure_loaded_ok: "ensure_loaded E at n refs = (Inr u, n', refs') \<longleftrightarrow> load_node E at n refs = (Inr None, n', refs')"
  by (auto simp: ensure_loaded_def split: prod.splits sum.splits option.splits)

lemma rank_child_Some:
  assumes "load_node E at n refs = (Inr None, n', refs')" "i \<le> length (nentries n')" "child n' i = Some c"
  shows "rank (child_place m i at) c < rank at n"
  using rank_child [OF assms(1,2)] assms(3) by (simp add: orank_def)

lemma rank_child_sym:
  "(Inr None, n', refs') = load_node E at n refs \<Longrightarrow> i \<le> length (nentries n') \<Longrightarrow> child n' i = Some c \<Longrightarrow>
   rank (child_place m i at) c < rank at n"
  by (rule rank_child_Some [OF sym])

lemma rank_child_ensure:
  "(Inr u, n', refs') = ensure_loaded E at n refs \<Longrightarrow> i \<le> length (nentries n') \<Longrightarrow> child n' i = Some c \<Longrightarrow>
   rank (child_place m i at) c < rank at n"
  by (rule rank_child_Some [OF ensure_loaded_ok [THEN iffD1, OF sym]])

termination get_node
  by (relation "measure (\<lambda>(E, at, key, n, refs). rank at n)")
    (auto intro: rank_child_ensure scan_entries_bound)

section \<open>Loading what an operation touches\<close>

datatype visit = Lookup | Remove

function visit_root_chain :: "env \<Rightarrow> bool \<Rightarrow> place \<Rightarrow> node \<Rightarrow> refs \<Rightarrow> cid list \<Rightarrow> (mst_error + cid list) \<times> node \<times> refs" where
  "visit_root_chain E chain at n refs missing =
     (if \<not> chain then (Inr missing, n, refs)
      else case load_node E at n refs of
        (Inl e, n, refs) \<Rightarrow> (Inl e, n, refs)
      | (Inr (Some c), n, refs) \<Rightarrow> (Inr (if nheight n > 0 then missing @ [c] else missing), n, refs)
      | (Inr None, n, refs) \<Rightarrow>
          (case nleft n of
             None \<Rightarrow> (Inr missing, n, refs)
           | Some l \<Rightarrow>
               (case visit_root_chain E (nentries n = []) (child_place n 0 at) l refs missing of
                  (r, l, refs) \<Rightarrow> (r, set_child n 0 (Some l), refs))))"
  by pat_completeness auto
termination visit_root_chain
  by (relation "measure (\<lambda>(E, chain, at, n, refs, missing). rank at n)")
    (auto intro: rank_child_sym simp: child_def)


function visit_merge :: "env \<Rightarrow> bool \<Rightarrow> place \<Rightarrow> place \<Rightarrow> node option \<Rightarrow> node option \<Rightarrow> refs \<Rightarrow> cid list \<Rightarrow>
    (mst_error + cid list) \<times> (node option \<times> node option) \<times> refs" where
  "visit_merge E chain lat rat (Some l) (Some r) refs missing =
     (case load_node E lat l refs of
        (Inl e, l, refs) \<Rightarrow> (Inl e, (Some l, Some r), refs)
      | (Inr a, l, refs) \<Rightarrow>
          (case load_node E rat r refs of
             (Inl e, r, refs) \<Rightarrow> (Inl e, (Some l, Some r), refs)
           | (Inr b, r, refs) \<Rightarrow>
               if a \<noteq> None \<or> b \<noteq> None then (Inr (missing @ cid_list a @ cid_list b), (Some l, Some r), refs)
               else
                 let chain = chain \<and> nentries l = [] \<and> nentries r = []; last = length (nentries l) in
                 (case visit_merge E chain (child_place l last lat) (child_place r 0 rat) (child l last) (child r 0) refs missing of
                    (res, (cl, cr), refs) \<Rightarrow> (res, (Some (set_child l last cl), Some (set_child r 0 cr)), refs))))"
| "visit_merge E chain lat rat (Some l) None refs missing =
     (case visit_root_chain E chain lat l refs missing of (res, l, refs) \<Rightarrow> (res, (Some l, None), refs))"
| "visit_merge E chain lat rat None (Some r) refs missing =
     (case visit_root_chain E chain rat r refs missing of (res, r, refs) \<Rightarrow> (res, (None, Some r), refs))"
| "visit_merge E chain lat rat None None refs missing = (Inr missing, (None, None), refs)"
  by pat_completeness auto

lemma orank_child_sym:
  "(Inr None, n', refs') = load_node E at n refs \<Longrightarrow> i \<le> length (nentries n') \<Longrightarrow>
   orank (child_place m i at) (child n' i) < rank at n"
  by (rule rank_child [OF sym])

termination visit_merge
proof (relation "measure (\<lambda>(E, chain, lat, rat, l, r, refs, missing). orank lat l + orank rat r)", goal_cases)
  case 1
  then show ?case by simp
next
  case (2 E chain lat rat l r refs missing x y a l' refs1 x' y' b r' refs2)
  then show ?case
    by (auto simp: orank_def [of _ "Some _"] intro!: add_strict_mono orank_child_sym)
qed

function visit_key_path :: "env \<Rightarrow> str \<Rightarrow> visit \<Rightarrow> bool \<Rightarrow> place \<Rightarrow> node \<Rightarrow> refs \<Rightarrow> cid list \<Rightarrow>
    (mst_error + cid list) \<times> node \<times> refs" where
  "visit_key_path E key visit on_top at n refs missing =
     (case load_node E at n refs of
        (Inl e, n, refs) \<Rightarrow> (Inl e, n, refs)
      | (Inr (Some c), n, refs) \<Rightarrow> (Inr (missing @ [c]), n, refs)
      | (Inr None, n, refs) \<Rightarrow>
          (case search_entries (nentries n) key of
             Inr i \<Rightarrow>
               if visit = Lookup then (Inr missing, n, refs)
               else
                 let chain = on_top \<and> length (nentries n) = 1 in
                 (case visit_merge E chain (child_place n i at) (child_place n (i + 1) at) (child n i) (child n (i + 1)) refs missing of
                    (res, (l, r), refs) \<Rightarrow> (res, set_child (set_child n i l) (i + 1) r, refs))
           | Inl i \<Rightarrow>
               (case child n i of
                  None \<Rightarrow> (Inr missing, n, refs)
                | Some c \<Rightarrow>
                    (case visit_key_path E key visit (on_top \<and> nentries n = []) (child_place n i at) c refs missing of
                       (res, c, refs) \<Rightarrow> (res, set_child n i (Some c), refs)))))"
  by pat_completeness auto

lemma search_entries_le: "search_entries es key = Inl i \<Longrightarrow> i \<le> length es"
  "search_entries es key = Inr i \<Longrightarrow> i < length es"
  using binary_search_by_bound [of "\<lambda>e. cmp (ekey e) key" es] by (auto simp: search_entries_def)

termination visit_key_path
  by (relation "measure (\<lambda>(E, key, visit, on_top, at, n, refs, missing). rank at n)")
    (auto intro: rank_child_sym search_entries_le)

declare get_node.simps [simp del] visit_root_chain.simps [simp del] visit_merge.simps(1) [simp del]
  visit_key_path.simps [simp del]

end
