(* ===== verification/Mst_Load_Correct.thy ===== *)
theory Mst_Load_Correct
  imports Mst_Load
begin

text \<open>
  What loading does and does not change. Loading never alters the contents of the tree; a lookup
  returns what the contents hold; and after a traversal that reports nothing missing, the
  mutation it prepared for cannot fail.
\<close>

section \<open>Loading keeps the contents\<close>

abbreviation sub :: "contents \<Rightarrow> cid option \<Rightarrow> (str \<times> cid) list" where
  "sub \<sigma> c \<equiv> (case c of None \<Rightarrow> [] | Some c \<Rightarrow> \<sigma> c)"

text \<open>\<open>\<sigma>\<close> gives the contents of the subtree stored under each CID.\<close>

definition models :: "env \<Rightarrow> contents \<Rightarrow> bool" where
  "models E \<sigma> \<longleftrightarrow> (\<forall>c data nd keys.
     read_block E c = Inr (Some data) \<longrightarrow> decode_node_data (simd_utf8 E) data = Inr nd \<longrightarrow>
     for_each_key None (nd_entries nd) = Inr keys \<longrightarrow>
     \<sigma> c = sub \<sigma> (nd_left nd) @
       concat (map (\<lambda>(k, ed). (k, ed_value ed) # sub \<sigma> (ed_right ed)) (zip keys (nd_entries nd))))"

lemma oinorder_stub [simp]: "oinorder \<sigma> (map_option (\<lambda>c. stub c h) m) = sub \<sigma> m"
  by (cases m) (simp_all add: stub_def)

lemma populate_contents:
  assumes "populate_node E n nd at = Inr n'" "for_each_key None (nd_entries nd) = Inr keys"
  shows "inorder \<sigma> n' = sub \<sigma> (nd_left nd) @
    concat (map (\<lambda>(k, ed). (k, ed_value ed) # sub \<sigma> (ed_right ed)) (zip keys (nd_entries nd)))"
proof -
  have "centries \<sigma> (map (\<lambda>(key, ed). Entry key (ed_value ed) (map_option (\<lambda>c. stub c h) (ed_right ed))) kes) =
      concat (map (\<lambda>(k, ed). (k, ed_value ed) # sub \<sigma> (ed_right ed)) kes)" for h kes
    by (induction kes) auto
  then show ?thesis
    using assms by (auto simp: populate_node_def Let_def split: if_splits)
qed

lemma for_each_key_length: "for_each_key prev eds = Inr keys \<Longrightarrow> length keys = length eds"
  by (induction prev eds arbitrary: keys rule: for_each_key.induct) (auto simp: Let_def split: if_splits)

lemma load_node_stub:
  assumes "load_node E at n refs = (Inr None, n', refs')" "\<not> nloaded n"
  obtains c data nd keys where "ncid n = Some c" "read_block E c = Inr (Some data)"
    "decode_node_data (simd_utf8 E) data = Inr nd" "for_each_key None (nd_entries nd) = Inr keys"
    "populate_node E n nd at = Inr n'" "link_children (node_links nd) refs 0 = (True, refs', length (node_links nd))"
proof -
  have linked: "link_children cs r k = (True, r', k') \<Longrightarrow> k' = k + length cs" for cs r k r' k'
    by (induction cs r k rule: link_children.induct) (auto split: if_splits)
  obtain c data nd k where c: "ncid n = Some c" "read_block E c = Inr (Some data)"
    "decode_node_data (simd_utf8 E) data = Inr nd" "populate_node E n nd at = Inr n'"
    "link_children (node_links nd) refs 0 = (True, refs', k)"
    using assms by (auto simp: load_node_def Let_def split: if_splits option.splits sum.splits prod.splits)
  moreover obtain keys where "for_each_key None (nd_entries nd) = Inr keys"
    using c(4) by (auto simp: populate_node_def)
  ultimately show thesis using linked [OF c(5)] by (intro that) simp_all
qed

lemma load_node_fail:
  assumes "load_node E at n refs = (r, n', refs')" "r \<noteq> Inr None"
  shows "n' = n \<and> \<not> nloaded n"
  using assms by (auto simp: load_node_def Let_def split: if_splits option.splits sum.splits prod.splits)

lemma load_node_contents:
  assumes "load_node E at n refs = (r, n', refs')" "models E \<sigma>"
  shows "inorder \<sigma> n' = inorder \<sigma> n"
proof (cases "r = Inr None \<and> \<not> nloaded n")
  case True
  then obtain c data nd keys where c: "ncid n = Some c" "read_block E c = Inr (Some data)"
    "decode_node_data (simd_utf8 E) data = Inr nd" "for_each_key None (nd_entries nd) = Inr keys"
    "populate_node E n nd at = Inr n'"
    using load_node_stub [of E at n refs n' refs'] assms(1) by metis
  then have "inorder \<sigma> n' = \<sigma> c"
    using assms(2) populate_contents [OF c(5,4)] by (simp add: models_def)
  moreover have "inorder \<sigma> n = \<sigma> c" using True c(1) by (cases n) simp
  ultimately show ?thesis by simp
next
  case False
  then show ?thesis using assms(1) load_node_fail [OF assms(1)] load_node_ok [of E at n refs n' refs'] by auto
qed

lemma ensure_loaded_contents:
  assumes "ensure_loaded E at n refs = (r, n', refs')" "models E \<sigma>"
  shows "inorder \<sigma> n' = inorder \<sigma> n"
  using assms load_node_contents [of E at n refs _ n' refs' \<sigma>]
  by (auto simp: ensure_loaded_def split: prod.splits sum.splits option.splits)

lemma ensure_loaded_loaded: "ensure_loaded E at n refs = (Inr u, n', refs') \<Longrightarrow> nloaded n'"
  using load_node_ok [of E at n refs n' refs'] unfolding ensure_loaded_ok
  by (auto simp: populate_node_def Let_def split: if_splits)

lemma load_node_loaded: "load_node E at n refs = (Inr None, n', refs') \<Longrightarrow> nloaded n'"
  using ensure_loaded_loaded [of E at n refs "()"] unfolding ensure_loaded_ok by blast

lemma inorder_set_child_same:
  assumes "nloaded n" "i \<le> length (nentries n)" "oinorder \<sigma> c = oinorder \<sigma> (child n i)"
  shows "inorder \<sigma> (set_child n i c) = inorder \<sigma> n"
  unfolding inorder_set_child [OF assms(1,2)] inorder_child [OF assms(1,2)] assms(3) ..

section \<open>Lookups\<close>

lemma get_node_correct:
  assumes "get_node E at key n refs = (r, n', refs')" "models E \<sigma>" "ksorted (inorder \<sigma> n)"
  shows "inorder \<sigma> n' = inorder \<sigma> n \<and> (\<forall>v. r = Inr v \<longrightarrow> v = map_of (inorder \<sigma> n) key)"
  using assms
proof (induction "rank at n" arbitrary: at n refs r n' refs' rule: less_induct)
  case less
  obtain r1 m refs1 where e: "ensure_loaded E at n refs = (r1, m, refs1)" by (metis prod_cases3)
  have m: "inorder \<sigma> m = inorder \<sigma> n" by (rule ensure_loaded_contents [OF e less.prems(2)])
  show ?case
  proof (cases r1)
    case (Inl er)
    then show ?thesis using less.prems(1) e m by (auto simp: get_node.simps [of E at key n])
  next
    case (Inr u)
    have ld: "nloaded m" using ensure_loaded_loaded e Inr by blast
    define i where "i = lower_bound ekey key (nentries m)"
    have s: "ksorted (inorder \<sigma> m)" using less.prems(3) m by simp
    note sp = lower_bound_splits [OF ld s i_def]
    note step = less.prems(1) [unfolded get_node.simps [of E at key n] e Inr prod.case sum.case Let_def
        scan_entries_lower_bound i_def [symmetric]]
    show ?thesis
    proof (cases "i < length (nentries m) \<and> key = ekey (nentries m ! i)")
      case True
      have "map_of (inorder \<sigma> m) key = Some (evalue (nentries m ! i))"
      proof -
        have dec: "inorder \<sigma> m = (before \<sigma> m i @ oinorder \<sigma> (child m i)) @ (key, evalue (nentries m ! i)) #
            oinorder \<sigma> (eright (nentries m ! i)) @ after \<sigma> m (Suc i)"
          using inorder_entry [OF ld, of i \<sigma>] True by simp
        then have lt: "keys_lt (before \<sigma> m i @ oinorder \<sigma> (child m i)) key"
          using s by (auto simp: ksorted_simps)
        show ?thesis unfolding dec map_of_append_notin [OF keys_lt_notin [OF lt]] by simp
      qed
      with step True m show ?thesis by auto
    next
      case False
      then have gt: "keys_gt (after \<sigma> m i) key" using sp(5) by auto
      have dec: "inorder \<sigma> m = before \<sigma> m i @ oinorder \<sigma> (child m i) @ after \<sigma> m i"
        by (rule inorder_child [OF ld sp(1)])
      have val: "map_of (inorder \<sigma> m) key = map_of (oinorder \<sigma> (child m i)) key"
        unfolding dec map_of_append_notin [OF keys_lt_notin [OF sp(2)]] map_of_append_notin2 [OF keys_gt_notin [OF gt]] ..
      show ?thesis
      proof (cases "child m i")
        case None
        with step False m val show ?thesis by auto
      next
        case (Some c)
        with step False obtain c' where c: "get_node E (child_place m i at) key c refs1 = (r, c', refs')"
          "n' = set_child m i (Some c')" by (auto split: prod.splits)
        have "inorder \<sigma> c' = inorder \<sigma> c \<and> (\<forall>v. r = Inr v \<longrightarrow> v = map_of (inorder \<sigma> c) key)"
          using rank_child_ensure [OF e [unfolded Inr, symmetric] sp(1) Some] ksorted_child [OF ld s sp(1)] Some
          by (intro less.hyps [OF _ c(1) less.prems(2)]) simp_all
        then show ?thesis
          using inorder_set_child_same [OF ld sp(1), of \<sigma> "Some c'"] c(2) Some m val by simp
      qed
    qed
  qed
qed


section \<open>Traversals are sequences of loads\<close>

text \<open>
  One relation covers what every traversal may do to the tree: load some nodes, anywhere below the
  root. What holds of the loads of one node and survives replacing a subtree then holds of every
  traversal, by rule induction.
\<close>

inductive loads :: "env \<Rightarrow> node \<Rightarrow> refs \<Rightarrow> node \<Rightarrow> refs \<Rightarrow> bool" for E :: env where
  loads_refl: "loads E n refs n refs"
| loads_load: "load_node E at n refs = (r, n', refs') \<Longrightarrow> loads E n refs n' refs'"
| loads_child: "nloaded n \<Longrightarrow> i \<le> length (nentries n) \<Longrightarrow> child n i = Some c \<Longrightarrow> loads E c refs c' refs' \<Longrightarrow>
    loads E n refs (set_child n i (Some c')) refs'"
| loads_trans: "loads E n refs n1 refs1 \<Longrightarrow> loads E n1 refs1 n2 refs2 \<Longrightarrow> loads E n refs n2 refs2"

lemma child_set_child [simp]: "i \<le> length (nentries n) \<Longrightarrow> child (set_child n i c) i = c"
  by (cases n) (auto simp: child_def)

lemma child_set_child_other: "i \<noteq> j \<Longrightarrow> child (set_child n i c) j = child n j"
  by (cases n) (auto simp: child_def nth_list_update)

lemma set_right_set_right [simp]: "set_right (set_right e a) b = set_right e b"
  by (cases e) simp

lemma set_child_set_child [simp]: "i \<le> length (nentries n) \<Longrightarrow> set_child (set_child n i a) i b = set_child n i b"
  by (cases n) auto

lemma set_right_same: "set_right e (eright e) = e"
  by (cases e) simp

lemma set_child_id: "i \<le> length (nentries n) \<Longrightarrow> set_child n i (child n i) = n"
  by (cases n) (auto simp: child_def set_right_same)

lemma loads_contents: "loads E n refs n' refs' \<Longrightarrow> models E \<sigma> \<Longrightarrow> inorder \<sigma> n' = inorder \<sigma> n"
proof (induction rule: loads.induct)
  case (loads_load at n refs r n' refs')
  then show ?case by (intro load_node_contents)
next
  case (loads_child n i c refs c' refs')
  then show ?case by (intro inorder_set_child_same) simp_all
qed simp_all

lemma loads_ensure: "ensure_loaded E at n refs = (r, n', refs') \<Longrightarrow> loads E n refs n' refs'"
  by (auto simp: ensure_loaded_def split: prod.splits sum.splits option.splits intro: loads_load)

lemma loads_set_child:
  assumes "nloaded n" "i \<le> length (nentries n)" "loads E c refs c' refs'"
  shows "loads E (set_child n i (Some c)) refs (set_child n i (Some c')) refs'"
  using loads_child [of "set_child n i (Some c)" i c E refs c' refs'] assms by simp

lemma get_node_loads:
  assumes "get_node E at key n refs = (r, n', refs')"
  shows "loads E n refs n' refs'"
  using assms
proof (induction "rank at n" arbitrary: at n refs r n' refs' rule: less_induct)
  case less
  obtain r1 m refs1 where e: "ensure_loaded E at n refs = (r1, m, refs1)" by (metis prod_cases3)
  let ?i = "scan_entries (nentries m) key"
  show ?case
  proof (cases "(\<exists>u. r1 = Inr u) \<and> \<not> (?i < length (nentries m) \<and> key = ekey (nentries m ! ?i)) \<and> child m ?i \<noteq> None")
    case True
    then obtain u c where u: "r1 = Inr u" "child m ?i = Some c" by auto
    obtain r2 c' refs2 where g: "get_node E (child_place m ?i at) key c refs1 = (r2, c', refs2)" by (metis prod_cases3)
    have n': "n' = set_child m ?i (Some c')" "refs' = refs2"
      using less.prems True u g e by (auto simp: get_node.simps [of E at key n] Let_def)
    have "loads E c refs1 c' refs2"
      using rank_child_ensure [OF e [unfolded u(1), symmetric] scan_entries_bound u(2)] by (rule less.hyps [OF _ g])
    moreover have "nloaded m" using ensure_loaded_loaded e u(1) by blast
    ultimately show ?thesis
      unfolding n' using loads_ensure [OF e] u(2) by (blast intro: loads_trans loads_child scan_entries_bound)
  next
    case False
    then show ?thesis
      using less.prems loads_ensure [OF e] e
      by (auto simp: get_node.simps [of E at key n] Let_def split: sum.splits if_splits option.splits)
  qed
qed

lemma visit_root_chain_loads:
  assumes "visit_root_chain E chain at n refs missing = (r, n', refs')"
  shows "loads E n refs n' refs'"
  using assms
proof (induction "rank at n" arbitrary: chain at n refs r n' refs' rule: less_induct)
  case less
  obtain r1 m refs1 where l: "load_node E at n refs = (r1, m, refs1)" by (metis prod_cases3)
  show ?case
  proof (cases "chain \<and> r1 = Inr None \<and> nleft m \<noteq> None")
    case True
    then obtain c where c: "nleft m = Some c" by auto
    obtain c' r2 refs2 where v: "visit_root_chain E (nentries m = []) (child_place m 0 at) c refs1 missing = (r2, c', refs2)"
      by (metis prod_cases3)
    have n': "n' = set_child m 0 (Some c')" "refs' = refs2"
      using less.prems True l c v by (auto simp: visit_root_chain.simps [of E _ at n])
    have "loads E c refs1 c' refs2"
      using rank_child_Some [of E at n refs m refs1 0 c m] True l c
      by (intro less.hyps [OF _ v]) (simp add: child_def)
    moreover have "nloaded m" using l True load_node_loaded by blast
    ultimately have "loads E m refs1 n' refs'" unfolding n' using c by (intro loads_child) (simp_all add: child_def)
    then show ?thesis using loads_load [OF l] by (rule loads_trans [rotated])
  next
    case False
    then show ?thesis
      using less.prems loads_load [OF l] l
      by (auto simp: visit_root_chain.simps [of E chain at n] intro: loads_refl
          split: if_splits sum.splits option.splits prod.splits)
  qed
qed

text \<open>
  A merge visit works on two subtrees at once: it is a sequence of loads of any node that holds
  both, here the value \<open>K l r\<close> of a context.
\<close>

definition load_context :: "env \<Rightarrow> (node option \<Rightarrow> node option \<Rightarrow> node) \<Rightarrow> bool" where
  "load_context E K \<longleftrightarrow>
     (\<forall>x x' y refs refs'. loads E x refs x' refs' \<longrightarrow>
        loads E (K (Some x) y) refs (K (Some x') y) refs' \<and> loads E (K y (Some x)) refs (K y (Some x')) refs')"

lemma load_contextD:
  "load_context E K \<Longrightarrow> loads E x refs x' refs' \<Longrightarrow> loads E (K (Some x) y) refs (K (Some x') y) refs'"
  "load_context E K \<Longrightarrow> loads E x refs x' refs' \<Longrightarrow> loads E (K y (Some x)) refs (K y (Some x')) refs'"
  by (simp_all add: load_context_def)

lemma load_context_down:
  assumes "load_context E K" "nloaded a" "nloaded b" "i \<le> length (nentries a)" "j \<le> length (nentries b)"
  shows "load_context E (\<lambda>u v. K (Some (set_child a i u)) (Some (set_child b j v)))"
  unfolding load_context_def
  using loads_set_child [OF assms(2,4)] loads_set_child [OF assms(3,5)] load_contextD [OF assms(1)] by blast

lemma visit_merge_loads:
  assumes "visit_merge E chain lat rat l r refs missing = (res, (l', r'), refs')" "load_context E K"
  shows "loads E (K l r) refs (K l' r') refs'"
  using assms
proof (induction "orank lat l + orank rat r" arbitrary: K chain lat rat l r refs res l' r' refs' rule: less_induct)
  case less
  consider a b where "l = Some a" "r = Some b" | "l = None \<or> r = None" by (cases l; cases r) auto
  then show ?case
  proof cases
    case (1 a b)
    obtain ra a' refs1 where la: "load_node E lat a refs = (ra, a', refs1)" by (metis prod_cases3)
    obtain rb b' refs2 where lb: "load_node E rat b refs1 = (rb, b', refs2)" by (metis prod_cases3)
    have ca: "loads E (K (Some a) y) refs (K (Some a') y) refs1" for y
      by (rule load_contextD(1) [OF less.prems(2) loads_load [OF la]])
    have cb: "loads E (K y (Some b)) refs1 (K y (Some b')) refs2" for y
      by (rule load_contextD(2) [OF less.prems(2) loads_load [OF lb]])
    have both: "loads E (K l r) refs (K (Some a') (Some b')) refs2"
      unfolding 1 using ca cb by (rule loads_trans)
    show ?thesis
    proof (cases "ra = Inr None \<and> rb = Inr None")
      case True
      let ?j = "length (nentries a')"
      let ?K = "\<lambda>u v. K (Some (set_child a' ?j u)) (Some (set_child b' 0 v))"
      obtain res2 cl cr refs3 where v: "visit_merge E (chain \<and> nentries a' = [] \<and> nentries b' = []) (child_place a' ?j lat)
          (child_place b' 0 rat) (child a' ?j) (child b' 0) refs2 missing = (res2, (cl, cr), refs3)"
        by (metis prod_cases3 surj_pair)
      then have lr: "l' = Some (set_child a' ?j cl)" "r' = Some (set_child b' 0 cr)" "refs' = refs3"
        using less.prems(1) 1 True la lb by (auto simp: visit_merge.simps(1) Let_def)
      have "nloaded a'" "nloaded b'" using la lb True load_node_loaded by blast+
      then have "load_context E ?K" using less.prems(2) by (intro load_context_down) simp_all
      then have "loads E (?K (child a' ?j) (child b' 0)) refs2 (?K cl cr) refs3"
        using rank_child [of E lat a refs a' refs1 ?j a'] rank_child [of E rat b refs1 b' refs2 0 b'] True la lb 1
        by (intro less.hyps [OF _ v]) (simp add: orank_def [of _ "Some _"])
      then have "loads E (K (Some a') (Some b')) refs2 (K l' r') refs'"
        unfolding lr by (simp only: set_child_id order_refl le0)
      then show ?thesis by (rule loads_trans [OF both])
    next
      case False
      then have "l' = Some a' \<and> r' = Some b' \<and> refs' = refs2 \<or> l' = Some a' \<and> r' = Some b \<and> refs' = refs1"
        using less.prems(1) 1 la lb by (auto simp: visit_merge.simps(1) Let_def split: sum.splits if_splits)
      then show ?thesis using both ca 1 by auto
    qed
  next
    case 2
    then show ?thesis
      using less.prems visit_root_chain_loads [of E chain _ _ refs missing] load_contextD [OF less.prems(2)]
      by (cases l; cases r) (auto split: prod.splits intro: loads_refl)
  qed
qed

lemma load_context_children:
  assumes "nloaded n" "i < length (nentries n)"
  shows "load_context E (\<lambda>u v. set_child (set_child n i u) (i + 1) v)"
proof -
  have comm: "set_child (set_child n i u) (i + 1) v = set_child (set_child n (i + 1) v) i u" for u v
    using assms(2) by (cases n; cases i) (auto simp: list_update_swap)
  show ?thesis
    unfolding load_context_def
  proof (intro allI impI conjI)
    fix x x' y refs refs'
    assume l: "loads E x refs x' refs'"
    show "loads E (set_child (set_child n i y) (i + 1) (Some x)) refs (set_child (set_child n i y) (i + 1) (Some x')) refs'"
      using assms by (intro loads_set_child l) simp_all
    show "loads E (set_child (set_child n i (Some x)) (i + 1) y) refs (set_child (set_child n i (Some x')) (i + 1) y) refs'"
      unfolding comm using assms by (intro loads_set_child l) simp_all
  qed
qed

lemma visit_key_path_loads:
  assumes "visit_key_path E key visit on_top at n refs missing = (r, n', refs')"
  shows "loads E n refs n' refs'"
  using assms
proof (induction "rank at n" arbitrary: on_top at n refs r n' refs' rule: less_induct)
  case less
  obtain r1 m refs1 where l: "load_node E at n refs = (r1, m, refs1)" by (metis prod_cases3)
  note start = loads_load [OF l]
  show ?case
  proof (cases "r1 = Inr None")
    case True
    then have ld: "nloaded m" using l load_node_loaded by blast
    note step = less.prems [unfolded visit_key_path.simps [of E key visit on_top at n] l True prod.case sum.case option.case]
    show ?thesis
    proof (cases "search_entries (nentries m) key")
      case (Inr i)
      then have i: "i < length (nentries m)" by (rule search_entries_le)
      show ?thesis
      proof (cases "visit = Lookup")
        case True
        with step Inr start show ?thesis by simp
      next
        case False
        with step Inr obtain res a b where
          v: "visit_merge E (on_top \<and> length (nentries m) = 1) (child_place m i at) (child_place m (i + 1) at)
            (child m i) (child m (i + 1)) refs1 missing = (res, (a, b), refs')" and
          n': "n' = set_child (set_child m i a) (i + 1) b"
          by (auto simp: Let_def split: prod.splits)
        have "set_child (set_child m i (child m i)) (i + 1) (child m (i + 1)) = m"
          using i set_child_id [of i m] set_child_id [of "i + 1" m] by simp
        then have "loads E m refs1 n' refs'"
          using visit_merge_loads [OF v load_context_children [OF ld i]] n' by simp
        then show ?thesis by (rule loads_trans [OF start])
      qed
    next
      case (Inl i)
      then have i: "i \<le> length (nentries m)" by (rule search_entries_le)
      show ?thesis
      proof (cases "child m i")
        case None
        with step Inl start show ?thesis by simp
      next
        case (Some c)
        with step Inl obtain res c' where
          v: "visit_key_path E key visit (on_top \<and> nentries m = []) (child_place m i at) c refs1 missing = (res, c', refs')"
          and n': "n' = set_child m i (Some c')"
          by (auto split: prod.splits)
        have "loads E c refs1 c' refs'"
          using rank_child_Some [OF _ i Some, of E at n refs refs1] l True by (intro less.hyps [OF _ v]) simp
        then show ?thesis unfolding n' using loads_trans [OF start loads_child [OF ld i Some]] by blast
      qed
    qed
  next
    case False
    then show ?thesis
      using less.prems start l
      by (auto simp: visit_key_path.simps [of E key visit on_top at n] split: sum.splits option.splits)
  qed
qed

lemmas visit_key_path_contents = loads_contents [OF visit_key_path_loads]

end
