(* ===== verification/Mst_Ready.thy ===== *)
theory Mst_Ready
  imports Mst_Load_Correct
begin

text \<open>
  Failure safety of the mutations: a traversal that reports nothing missing leaves loaded every
  node the mutation it prepares will read, so the mutation returns a result.
\<close>

section \<open>What a mutation needs loaded\<close>

text \<open>The search path of \<open>key\<close> is loaded down to the key or to the gap where it would be.\<close>

function path_ready :: "str \<Rightarrow> node \<Rightarrow> bool" where
  "path_ready key n \<longleftrightarrow> nloaded n \<and>
     (case search_entries (nentries n) key of
        Inr _ \<Rightarrow> True
      | Inl i \<Rightarrow> (case child n i of None \<Rightarrow> True | Some c \<Rightarrow> path_ready key c))"
  by pat_completeness auto
termination path_ready
  by (relation "measure (\<lambda>(key, n). nsize n)") (auto intro: search_entries_child_size)

function on_path :: "str \<Rightarrow> node \<Rightarrow> bool" where
  "on_path key n \<longleftrightarrow>
     (case search_entries (nentries n) key of
        Inr _ \<Rightarrow> True
      | Inl i \<Rightarrow> (case child n i of None \<Rightarrow> False | Some c \<Rightarrow> on_path key c))"
  by pat_completeness auto
termination on_path
  by (relation "measure (\<lambda>(key, n). nsize n)") (auto intro: search_entries_child_size)

text \<open>Both sides of a merge are loaded wherever both have a node.\<close>

function merge_ready :: "node option \<Rightarrow> node option \<Rightarrow> bool" where
  "merge_ready (Some l) (Some r) \<longleftrightarrow>
     nloaded l \<and> nloaded r \<and> merge_ready (child l (length (nentries l))) (child r 0)"
| "merge_ready None r \<longleftrightarrow> True"
| "merge_ready l None \<longleftrightarrow> True"
  by pat_completeness auto
termination merge_ready
  by (relation "measure (\<lambda>(l, r). osize l)") (auto intro: child_size)

text \<open>The chain of entry-less nodes \<open>trim_top\<close> walks is loaded, or ends in a leaf.\<close>

fun chain_ready :: "node option \<Rightarrow> bool" where
  "chain_ready None \<longleftrightarrow> True"
| "chain_ready (Some (Node l es c h ld)) \<longleftrightarrow> \<not> ld \<and> h = 0 \<or> ld \<and> (es \<noteq> [] \<or> chain_ready l)"

declare path_ready.simps [simp del] on_path.simps [simp del]

lemma chain_ready_sel:
  "chain_ready (Some n) \<longleftrightarrow> \<not> nloaded n \<and> nheight n = 0 \<or> nloaded n \<and> (nentries n \<noteq> [] \<or> chain_ready (nleft n))"
  by (cases n) simp

section \<open>Ready mutations succeed\<close>

lemma ready_fresh [simp]:
  "path_ready key (fresh h l []) \<longleftrightarrow> (case l of None \<Rightarrow> True | Some c \<Rightarrow> path_ready key c)"
  "on_path key (fresh h l []) \<longleftrightarrow> (case l of None \<Rightarrow> False | Some c \<Rightarrow> on_path key c)"
  by (simp_all add: path_ready.simps [of key "fresh h l []"] on_path.simps [of key "fresh h l []"]
      search_entries_def binary_search_by_def child_def)

lemma split_node_ok:
  "(case m of None \<Rightarrow> True | Some n \<Rightarrow> path_ready key n \<and> \<not> on_path key n) \<Longrightarrow>
   \<exists>l r rel. split_node m key released = Inr ((l, r), rel)"
proof (induction "osize m" arbitrary: m released rule: less_induct)
  case less
  show ?case
  proof (cases m)
    case (Some n)
    then have rdy: "path_ready key n" "\<not> on_path key n" using less.prems by simp_all
    then have ld: "nloaded n" by (simp add: path_ready.simps [of key n])
    then have "\<not> (\<exists>i. search_entries (nentries n) key = Inr i)"
      using rdy(2) by (auto simp: on_path.simps [of key n])
    then obtain i where i: "search_entries (nentries n) key = Inl i" by (cases "search_entries (nentries n) key") auto
    then have il: "i \<le> length (nentries n)" by (rule search_entries_le)
    have c: "case child n i of None \<Rightarrow> True | Some n \<Rightarrow> path_ready key n \<and> \<not> on_path key n"
      using rdy i by (auto simp: path_ready.simps [of key n] on_path.simps [of key n] split: option.splits)
    obtain n' where t: "touch n released = (n', released @ cid_list (ncid n))" and
      n': "nentries n' = nentries n" "nleft n' = nleft n"
      by (cases n) simp
    have si: "split_index n' key = (if i < length (nentries n) then Some i else None)"
      by (simp add: split_index_def n' i)
    obtain cl cr rel where "split_node (child n i) key (released @ cid_list (ncid n)) = Inr ((cl, cr), rel)"
      using less.hyps [OF _ c, of "released @ cid_list (ncid n)"] child_size [OF il] Some by auto
    then show ?thesis
      using ld Some il by (cases "i = length (nentries n)"; cases "i = 0")
        (auto simp: split_node.simps(2) require_loaded_def t si n' Let_def child_def)
  qed simp
qed

lemma insert_ok:
  shows "(case m of None \<Rightarrow> True | Some n \<Rightarrow> path_ready key n \<and> \<not> on_path key n) \<Longrightarrow>
      \<exists>n' rel. insert_node m key val height released = Inr (n', rel)"
    and "path_ready key n \<Longrightarrow> \<not> on_path key n \<Longrightarrow> height < nheight n \<Longrightarrow>
      \<exists>n' rel. insert_below n key val height released = Inr (n', rel)"
proof (induction m key val height released and n key val height released rule: insert_node_insert_below.induct)
  case (1 key val height released)
  then show ?case by simp
next
  case (2 n key val height released)
  then have rdy: "path_ready key n" "\<not> on_path key n" by simp_all
  then have ld: "nloaded n" by (simp add: path_ready.simps [of key n])
  then have rl: "require_loaded n = Inr ()" by simp
  consider "height > nheight n" | "height < nheight n" | "height = nheight n" by linarith
  then show ?case
  proof cases
    case 1
    let ?p = "fresh (nheight n + 1) (Some n) []"
    have "path_ready key ?p \<and> \<not> on_path key ?p" using rdy by simp
    then have "\<exists>n' rel. insert_node (Some ?p) key val height released = Inr (n', rel)"
      using "2.IH"(1) [OF rl 1] by simp
    then show ?thesis using 1 ld by (subst insert_node.simps(2)) (simp add: require_loaded_def)
  next
    case 2
    then show ?thesis using "2.IH"(2) [OF rl _ 2 rdy 2] ld by (subst insert_node.simps(2)) (simp add: require_loaded_def)
  next
    case 3
    from rdy obtain i where i: "search_entries (nentries n) key = Inl i"
      by (cases "search_entries (nentries n) key") (auto simp: on_path.simps [of key n])
    then have fi: "find_child_index n key = i" by (simp add: find_child_index_def)
    have c: "case child n i of None \<Rightarrow> True | Some n \<Rightarrow> path_ready key n \<and> \<not> on_path key n"
      using rdy i by (auto simp: path_ready.simps [of key n] on_path.simps [of key n] split: option.splits)
    obtain l r rel where s: "split_node (child n i) key released = Inr ((l, r), rel)"
      using split_node_ok [OF c] by blast
    then have "\<exists>x. insert_at_level n key val released = Inr x"
      by (simp add: insert_at_level_def fi Let_def)
    then obtain n' rel' where "insert_at_level n key val released = Inr (n', rel')" by (metis surj_pair)
    then show ?thesis using 3 ld by (subst insert_node.simps(2)) (simp add: require_loaded_def)
  qed
next
  case (3 n key val height released)
  obtain i where i: "search_entries (nentries n) key = Inl i"
    using "3.prems"(2) by (cases "search_entries (nentries n) key") (auto simp: on_path.simps [of key n])
  then have fi: "find_child_index n key = i" by (simp add: find_child_index_def)
  have c: "case child n i of None \<Rightarrow> True | Some n \<Rightarrow> path_ready key n \<and> \<not> on_path key n"
    using "3.prems" i by (auto simp: path_ready.simps [of key n] on_path.simps [of key n] split: option.splits)
  show ?case
  proof (cases "child n i = None \<and> nheight n - 1 = height")
    case True
    then show ?thesis using "3.prems"(3) by (auto simp: insert_below.simps fi Let_def)
  next
    case False
    let ?c = "case child n i of Some c \<Rightarrow> c | None \<Rightarrow> fresh (nheight n - 1) None []"
    have "path_ready key ?c \<and> \<not> on_path key ?c"
      using c by (cases "child n i") simp_all
    moreover have h: "\<not> height \<ge> nheight n" using "3.prems"(3) by simp
    ultimately have "\<exists>n' rel. insert_node (Some ?c) key val height released = Inr (n', rel)"
      using "3.IH" [OF h fi [symmetric] False refl] by (simp only: option.case simp_thms)
    then obtain n' rel where c': "insert_node (Some ?c) key val height released = Inr (n', rel)" by blast
    show ?thesis
      unfolding insert_below.simps fi Let_def c' using h False by (cases "touch (set_child n i (Some n')) rel") auto
  qed
qed

lemma update_node_ok:
  "path_ready key n \<Longrightarrow> on_path key n \<Longrightarrow> \<exists>n' rel. update_node n key val released = Inr (n', rel)"
proof (induction "nsize n" arbitrary: n released rule: less_induct)
  case less
  have ld: "nloaded n" using less.prems by (simp add: path_ready.simps [of key n])
  obtain n' where t: "touch n released = (n', released @ cid_list (ncid n))" by (metis surj_pair touch_sel(6) snd_conv)
  show ?case
  proof (cases "search_entries (nentries n) key")
    case (Inr i)
    then show ?thesis using ld by (simp add: update_node.simps [of n] require_loaded_def t)
  next
    case (Inl i)
    then obtain c where c: "child n i = Some c" "path_ready key c" "on_path key c"
      using less.prems by (auto simp: path_ready.simps [of key n] on_path.simps [of key n] split: option.splits)
    obtain c' rel where "update_node c key val (released @ cid_list (ncid n)) = Inr (c', rel)"
      using less.hyps [OF search_entries_child_size [OF Inl c(1)] c(2,3)] by blast
    then show ?thesis using ld Inl c by (simp add: update_node.simps [of n] require_loaded_def t)
  qed
qed


lemma child_simps [simp]: "child n 0 = nleft n" "child n (Suc i) = eright (nentries n ! i)"
  by (simp_all add: child_def)

lemma merge_nodes_ok: "merge_ready l r \<Longrightarrow> \<exists>m rel. merge_nodes l r released = Inr (m, rel)"
proof (induction l r arbitrary: released rule: merge_ready.induct)
  case (1 l r)
  then obtain d rel where "merge_nodes (child l (length (nentries l))) (nleft r) released = Inr (d, rel)"
    using child_simps(1) [of r] by (metis merge_ready.simps(1))
  with 1 show ?case by (auto simp: merge_nodes.simps(3) require_loaded_def Let_def split: prod.splits)
next
  case (3 v)
  then show ?case by (cases v) simp_all
qed simp_all

lemma trim_top_ok: "chain_ready m \<Longrightarrow> \<exists>m' rel. trim_top m released = Inr (m', rel)"
  by (induction m released rule: trim_top.induct) (auto simp: require_loaded_def)

text \<open>A remove needs its search path, and the merge below the removed entry.\<close>

function remove_ready :: "str \<Rightarrow> node \<Rightarrow> bool" where
  "remove_ready key n \<longleftrightarrow> nloaded n \<and>
     (case search_entries (nentries n) key of
        Inr i \<Rightarrow> merge_ready (child n i) (child n (i + 1))
      | Inl i \<Rightarrow> (case child n i of None \<Rightarrow> True | Some c \<Rightarrow> remove_ready key c))"
  by pat_completeness auto
termination remove_ready
  by (relation "measure (\<lambda>(key, n). nsize n)") (auto intro: search_entries_child_size)

declare remove_ready.simps [simp del]

lemma remove_node_ok:
  "remove_ready key n \<Longrightarrow> ksorted (inorder \<sigma> n) \<Longrightarrow>
   \<exists>n' removed rel. remove_node n key released = Inr ((n', removed), rel)"
proof (induction "nsize n" arbitrary: n released rule: less_induct)
  case less
  have ld: "nloaded n" using less.prems(1) by (simp add: remove_ready.simps [of key n])
  define i where "i = lower_bound ekey key (nentries n)"
  note sp = lower_bound_splits [OF ld less.prems(2) i_def]
  have se: "search_entries (nentries n) key = (if i < length (nentries n) \<and> ekey (nentries n ! i) = key then Inr i else Inl i)"
    using search_entries_sorted [OF node_entries_sorted [OF ld less.prems(2)]] by (simp add: i_def Let_def)
  have rl: "require_loaded n = Inr ()" using ld by simp
  show ?case
  proof (cases "i < length (nentries n) \<and> ekey (nentries n ! i) = key")
    case True
    then have "merge_ready (child n i) (eright (nentries n ! i))"
      using less.prems(1) se by (simp add: remove_ready.simps [of key n])
    then obtain m rel where "merge_nodes (child n i) (eright (nentries n ! i)) released = Inr (m, rel)"
      using merge_nodes_ok by blast
    then show ?thesis
      using True by (simp add: remove_node.simps [of n] rl scan_entries_lower_bound i_def [symmetric] Let_def case_prod_beta)
  next
    case False
    then have ne: "\<not> (i < length (nentries n) \<and> key = ekey (nentries n ! i))" by auto
    show ?thesis
    proof (cases "child n i")
      case None
      then show ?thesis
        using ne by (auto simp: remove_node.simps [of n] rl scan_entries_lower_bound i_def [symmetric])
    next
      case (Some c)
      then have "remove_ready key c" using less.prems(1) se False by (simp add: remove_ready.simps [of key n])
      then obtain c' removed rel where "remove_node c key released = Inr ((c', removed), rel)"
        using less.hyps [of c released] child_size [OF sp(1)] ksorted_child [OF ld less.prems(2) sp(1)] Some by auto
      then show ?thesis
        using ne Some by (auto simp: remove_node.simps [of n] rl scan_entries_lower_bound i_def [symmetric] Let_def case_prod_beta)
    qed
  qed
qed

text \<open>What the collapse of the root chain after a remove needs.\<close>

function merge_chain :: "node option \<Rightarrow> node option \<Rightarrow> bool" where
  "merge_chain (Some l) (Some r) \<longleftrightarrow>
     (nentries l = [] \<and> nentries r = [] \<longrightarrow> merge_chain (nleft l) (nleft r))"
| "merge_chain None r \<longleftrightarrow> chain_ready r"
| "merge_chain (Some l) None \<longleftrightarrow> chain_ready (Some l)"
  by pat_completeness auto
termination merge_chain
  by (relation "measure (\<lambda>(l, r). osize l)") (auto intro: nleft_size)

lemma merge_nodes_chain:
  "merge_nodes l r released = Inr (m, rel) \<Longrightarrow> merge_chain l r \<Longrightarrow> chain_ready m"
proof (induction l r arbitrary: m released rel rule: merge_chain.induct)
  case (1 l r)
  let ?j = "length (nentries l)"
  obtain d rel' where d: "merge_nodes (child l ?j) (nleft r) released = Inr (d, rel')" and
    m: "m = Some (fst (touch (set_entries (set_child l ?j d) (nentries (set_child l ?j d) @ nentries r)) rel'))"
    and ld: "nloaded l"
    using "1.prems"(1) by (auto simp: merge_nodes.simps(3) Let_def split: prod.splits)
  show ?case
  proof (cases "nentries l = [] \<and> nentries r = []")
    case True
    then have "chain_ready d" using "1.IH" [OF True] d "1.prems"(2) by (simp add: child_def)
    with True ld show ?thesis by (simp add: m chain_ready_sel)
  next
    case False
    with ld show ?thesis by (auto simp: m chain_ready_sel)
  qed
qed auto

function trim_ready :: "str \<Rightarrow> node \<Rightarrow> bool" where
  "trim_ready key n \<longleftrightarrow> nloaded n \<and>
     (case search_entries (nentries n) key of
        Inr i \<Rightarrow> length (nentries n) = 1 \<longrightarrow> merge_chain (child n i) (child n (i + 1))
      | Inl i \<Rightarrow> nentries n = [] \<longrightarrow> (case child n i of None \<Rightarrow> True | Some c \<Rightarrow> trim_ready key c))"
  by pat_completeness auto
termination trim_ready
  by (relation "measure (\<lambda>(key, n). nsize n)") (auto intro: search_entries_child_size)

declare trim_ready.simps [simp del]

lemma chain_ready_prune: "chain_ready (Some n) \<Longrightarrow> chain_ready (fst (prune_empty n rel))"
  by (simp add: prune_empty_def)

lemma remove_node_chain:
  assumes "remove_node n key released = Inr ((n', removed), rel)" "trim_ready key n" "ksorted (inorder \<sigma> n)"
  shows "chain_ready n'"
  using assms
proof (induction "nsize n" arbitrary: n released n' removed rel rule: less_induct)
  case less
  have ld: "nloaded n" using less.prems(2) by (simp add: trim_ready.simps [of key n])
  define i where "i = lower_bound ekey key (nentries n)"
  note sp = lower_bound_splits [OF ld less.prems(3) i_def]
  have se: "search_entries (nentries n) key = (if i < length (nentries n) \<and> ekey (nentries n ! i) = key then Inr i else Inl i)"
    using search_entries_sorted [OF node_entries_sorted [OF ld less.prems(3)]] by (simp add: i_def Let_def)
  note step = less.prems(1) [unfolded remove_node.simps [of n] scan_entries_lower_bound i_def [symmetric]]
  show ?case
  proof (cases "i < length (nentries n) \<and> key = ekey (nentries n ! i)")
    case True
    let ?m = "set_entries n (take i (nentries n) @ drop (Suc i) (nentries n))"
    obtain m rel1 rel2 where m: "merge_nodes (child n i) (eright (nentries n ! i)) released = Inr (m, rel1)"
      "n' = fst (prune_empty (fst (touch (set_child ?m i m) rel1)) rel2)"
      using step ld True by (auto simp: require_loaded_def Let_def case_prod_beta)
    have "chain_ready (Some (fst (touch (set_child ?m i m) rel1)))"
    proof (cases "length (nentries n) = 1")
      case len: True
      then have "merge_chain (child n i) (eright (nentries n ! i))"
        using less.prems(2) [unfolded trim_ready.simps [of key n]] se True len by simp
      then have "chain_ready m" using merge_nodes_chain [OF m(1)] by simp
      moreover have "i = 0" using True len by simp
      ultimately show ?thesis using ld len by (simp add: chain_ready_sel)
    next
      case False
      then have "length (take i (nentries n) @ drop (Suc i) (nentries n)) \<noteq> 0" using True by simp
      then have "take i (nentries n) @ drop (Suc i) (nentries n) \<noteq> []" by force
      then show ?thesis using ld unfolding chain_ready_sel touch_sel by simp
    qed
    then show ?thesis unfolding m(2) by (rule chain_ready_prune)
  next
    case False
    show ?thesis
    proof (cases "child n i")
      case None
      with step ld False have "n' = Some n" by (auto simp: require_loaded_def)
      moreover have "i = 0 \<longrightarrow> nleft n = None" using None by (auto simp: child_def)
      ultimately show ?thesis using ld sp(1) by (auto simp: chain_ready_sel)
    next
      case (Some c)
      with step ld False obtain c' rel1 rel2 m where c: "remove_node c key released = Inr ((c', removed), rel1)" and
        n': "n' = fst (prune_empty (set_child m i c') rel2)" "m = n \<or> m = fst (touch n rel1)"
        by (auto simp: require_loaded_def Let_def case_prod_beta)
      have m: "nloaded m" "nentries m = nentries n" using n'(2) ld by auto
      have "chain_ready (Some (set_child m i c'))"
      proof (cases "nentries n = []")
        case True
        then have "trim_ready key c"
          using less.prems(2) se Some False by (simp add: trim_ready.simps [of key n])
        then have "chain_ready c'"
          using child_size [OF sp(1)] ksorted_child [OF ld less.prems(3) sp(1)] Some
          by (intro less.hyps [OF _ c]) simp_all
        moreover have "i = 0" using sp(1) True by simp
        ultimately show ?thesis using m True by (simp add: chain_ready_sel)
      qed (use m in \<open>simp add: chain_ready_sel\<close>)
      then show ?thesis unfolding n'(1) by (rule chain_ready_prune)
    qed
  qed
qed


section \<open>Visits make mutations ready\<close>

lemma binary_search_loop_map:
  "base + len \<le> length xs \<Longrightarrow> 0 < len \<Longrightarrow>
   binary_search_loop f (map g xs) base len = binary_search_loop (\<lambda>x. f (g x)) xs base len"
proof (induction f "map g xs" base len rule: binary_search_loop.induct)
  case (1 f base len)
  show ?case
  proof (cases "len > 1")
    case True
    then have mid: "map g xs ! (base + len div 2) = g (xs ! (base + len div 2))" using "1.prems" by simp
    have "binary_search_loop f (map g xs) (if f (map g xs ! (base + len div 2)) = Greater then base else base + len div 2)
        (len - len div 2) =
      binary_search_loop (\<lambda>x. f (g x)) xs (if f (map g xs ! (base + len div 2)) = Greater then base else base + len div 2)
        (len - len div 2)"
      by (rule "1.hyps" [OF True refl refl]) (use "1.prems" True in auto)
    then show ?thesis
      using True unfolding mid
      by (subst binary_search_loop.simps, subst (2) binary_search_loop.simps) (simp add: Let_def mid)
  next
    case False
    then show ?thesis
      by (subst binary_search_loop.simps, subst (2) binary_search_loop.simps) simp
  qed
qed

lemma search_entries_keys:
  "search_entries es key = binary_search_by (\<lambda>k. cmp k key) (map ekey es)"
proof (cases es)
  case (Cons e es')
  have "binary_search_loop (\<lambda>k. cmp k key) (map ekey es) 0 (length es) = binary_search_loop (\<lambda>e. cmp (ekey e) key) es 0 (length es)"
    using Cons by (intro binary_search_loop_map) simp_all
  moreover have "binary_search_loop (\<lambda>e. cmp (ekey e) key) es 0 (length es) < length es"
    using Cons by (intro binary_search_loop_bound) simp_all
  ultimately show ?thesis by (simp add: search_entries_def binary_search_by_def Let_def)
qed (simp add: search_entries_def binary_search_by_def)

lemma keys_set_child: "map ekey (nentries (set_child n i c)) = map ekey (nentries n)"
proof (cases i)
  case (Suc j)
  show ?thesis
  proof (cases "j < length (nentries n)")
    case True
    then show ?thesis using Suc by (simp add: map_update) (metis list_update_id map_update nth_map)
  qed (use Suc in \<open>simp add: list_update_beyond\<close>)
qed simp

lemma search_set_child [simp]: "search_entries (nentries (set_child n i c)) key = search_entries (nentries n) key"
  unfolding search_entries_keys keys_set_child ..

lemma visit_root_chain_ready:
  assumes "visit_root_chain E True at n refs [] = (Inr [], n', refs')"
  shows "chain_ready (Some n')"
  using assms
proof (induction "rank at n" arbitrary: at n refs n' refs' rule: less_induct)
  case less
  obtain r1 m refs1 where l: "load_node E at n refs = (r1, m, refs1)" by (metis prod_cases3)
  note step = less.prems [unfolded visit_root_chain.simps [of E True at n] l]
  show ?case
  proof (cases "r1 = Inr None")
    case True
    then have ld: "nloaded m" using l load_node_loaded by blast
    show ?thesis
    proof (cases "nleft m")
      case None
      with step True ld show ?thesis by (auto simp: chain_ready_sel)
    next
      case (Some c)
      then obtain c' where v: "visit_root_chain E (nentries m = []) (child_place m 0 at) c refs1 [] = (Inr [], c', refs')"
        and n': "n' = set_child m 0 (Some c')"
        using step True by (auto split: prod.splits)
      show ?thesis
      proof (cases "nentries m = []")
        case emp: True
        then have "chain_ready (Some c')"
          using rank_child_Some [OF l [unfolded True], of 0 c m] Some v by (intro less.hyps) simp_all
        then show ?thesis using n' ld emp by (simp add: chain_ready_sel)
      qed (use n' ld in \<open>simp add: chain_ready_sel\<close>)
    qed
  next
    case False
    then have "n' = n \<and> \<not> nloaded n \<and> nheight n = 0"
      using step load_node_fail [OF l] by (auto split: sum.splits option.splits if_splits)
    then show ?thesis by (simp add: chain_ready_sel)
  qed
qed

lemma visit_merge_ready:
  assumes "visit_merge E chain lat rat l r refs [] = (Inr [], (l', r'), refs')"
  shows "merge_ready l' r' \<and> (chain \<longrightarrow> merge_chain l' r')"
  using assms
proof (induction "orank lat l + orank rat r" arbitrary: chain lat rat l r refs l' r' refs' rule: less_induct)
  case less
  consider a b where "l = Some a" "r = Some b" | a where "l = Some a" "r = None" | b where "l = None" "r = Some b"
    | "l = None" "r = None" by (cases l; cases r) auto
  then show ?case
  proof cases
    case (1 a b)
    obtain ra a' refs1 where la: "load_node E lat a refs = (ra, a', refs1)" by (metis prod_cases3)
    obtain rb b' refs2 where lb: "load_node E rat b refs1 = (rb, b', refs2)" by (metis prod_cases3)
    have ok: "ra = Inr None" "rb = Inr None"
      using less.prems 1 la lb by (auto simp: visit_merge.simps(1) Let_def split: sum.splits if_splits option.splits prod.splits)
    let ?last = "length (nentries a')" and ?chain = "chain \<and> nentries a' = [] \<and> nentries b' = []"
    obtain cl cr where v: "visit_merge E ?chain (child_place a' ?last lat) (child_place b' 0 rat) (child a' ?last) (child b' 0)
        refs2 [] = (Inr [], (cl, cr), refs')"
      and lr: "l' = Some (set_child a' ?last cl)" "r' = Some (set_child b' 0 cr)"
      using less.prems 1 ok la lb by (auto simp: visit_merge.simps(1) Let_def split: prod.splits)
    have "merge_ready cl cr \<and> (?chain \<longrightarrow> merge_chain cl cr)"
      using rank_child [OF la [unfolded ok], of ?last a'] rank_child [OF lb [unfolded ok], of 0 b'] 1
      by (intro less.hyps [OF _ v]) (simp add: orank_def [of _ "Some _"])
    moreover have "nloaded a'" "nloaded b'" using la lb ok load_node_loaded by blast+
    ultimately show ?thesis using lr by auto
  next
    case (2 a)
    then show ?thesis using less.prems visit_root_chain_ready by (auto split: prod.splits)
  next
    case (3 b)
    then show ?thesis using less.prems visit_root_chain_ready by (auto split: prod.splits)
  next
    case 4
    then show ?thesis using less.prems by auto
  qed
qed


lemma visit_key_path_ready:
  assumes "visit_key_path E key visit on_top at n refs [] = (Inr [], n', refs')"
  shows "path_ready key n' \<and> (visit = Remove \<longrightarrow> remove_ready key n' \<and> (on_top \<longrightarrow> trim_ready key n'))"
  using assms
proof (induction "rank at n" arbitrary: on_top at n refs n' refs' rule: less_induct)
  case less
  obtain r1 m refs1 where l: "load_node E at n refs = (r1, m, refs1)" by (metis prod_cases3)
  note step = less.prems [unfolded visit_key_path.simps [of E key visit on_top at n] l prod.case]
  have ok: "r1 = Inr None" using step by (auto split: sum.splits option.splits)
  then have ld: "nloaded m" using l load_node_loaded by blast
  show ?case
  proof (cases "search_entries (nentries m) key")
    case (Inr i)
    then have i: "i < length (nentries m)" by (rule search_entries_le)
    show ?thesis
    proof (cases visit)
      case Lookup
      with step Inr ok have "n' = m" by simp
      with Inr ld Lookup show ?thesis by (simp add: path_ready.simps [of key m])
    next
      case Remove
      let ?chain = "on_top \<and> length (nentries m) = 1"
      obtain a b where v: "visit_merge E ?chain (child_place m i at) (child_place m (i + 1) at)
          (child m i) (child m (i + 1)) refs1 [] = (Inr [], (a, b), refs')"
        and n': "n' = set_child (set_child m i a) (i + 1) b"
        using step Remove Inr ok by (auto simp: Let_def split: prod.splits)
      have ab: "merge_ready a b" "?chain \<longrightarrow> merge_chain a b" using visit_merge_ready [OF v] by simp_all
      have ch: "child n' i = a" "child n' (i + 1) = b" "nloaded n'" "search_entries (nentries n') key = Inr i"
        "length (nentries n') = length (nentries m)"
        using i ld Inr search_set_child [of "set_child m i a" "i + 1" b key]
        unfolding n' by (simp_all add: child_set_child_other del: child_simps)
      show ?thesis
        using ab ch Remove by (simp add: path_ready.simps [of key n'] remove_ready.simps [of key n'] trim_ready.simps [of key n']
            del: child_simps)
    qed
  next
    case (Inl i)
    then have i: "i \<le> length (nentries m)" by (rule search_entries_le)
    show ?thesis
    proof (cases "child m i")
      case None
      with step Inl ok have "n' = m" by simp
      with Inl None ld show ?thesis
        by (simp add: path_ready.simps [of key m] remove_ready.simps [of key m] trim_ready.simps [of key m])
    next
      case (Some c)
      obtain c' where v: "visit_key_path E key visit (on_top \<and> nentries m = []) (child_place m i at) c refs1 [] =
          (Inr [], c', refs')" and n': "n' = set_child m i (Some c')"
        using step Inl ok Some by (auto split: prod.splits)
      have "path_ready key c' \<and> (visit = Remove \<longrightarrow> remove_ready key c' \<and> (on_top \<and> nentries m = [] \<longrightarrow> trim_ready key c'))"
        using rank_child_Some [OF l [unfolded ok] i Some, of m] by (intro less.hyps [OF _ v])
      moreover have "child n' i = Some c'" "nloaded n'" "search_entries (nentries n') key = Inl i"
        "nentries n' = [] \<longleftrightarrow> nentries m = []"
        using i ld Inl unfolding n' by simp_all
      ultimately show ?thesis
        by (simp add: path_ready.simps [of key n'] remove_ready.simps [of key n'] trim_ready.simps [of key n'])
    qed
  qed
qed

section \<open>The path and the contents\<close>

lemma on_path_iff:
  assumes "path_ready key n" "ksorted (inorder \<sigma> n)"
  shows "on_path key n \<longleftrightarrow> key \<in> fst ` set (inorder \<sigma> n)"
  using assms
proof (induction "nsize n" arbitrary: n rule: less_induct)
  case less
  have ld: "nloaded n" using less.prems(1) by (simp add: path_ready.simps [of key n])
  define i where "i = lower_bound ekey key (nentries n)"
  note sp = lower_bound_splits [OF ld less.prems(2) i_def]
  have se: "search_entries (nentries n) key = (if i < length (nentries n) \<and> ekey (nentries n ! i) = key then Inr i else Inl i)"
    using search_entries_sorted [OF node_entries_sorted [OF ld less.prems(2)]] by (simp add: i_def Let_def)
  show ?case
  proof (cases "i < length (nentries n) \<and> ekey (nentries n ! i) = key")
    case True
    then have "key \<in> fst ` set (inorder \<sigma> n)" using inorder_entry [OF ld, of i \<sigma>] by force
    with True se show ?thesis by (simp add: on_path.simps [of key n])
  next
    case False
    have dec: "inorder \<sigma> n = before \<sigma> n i @ oinorder \<sigma> (child n i) @ after \<sigma> n i"
      by (rule inorder_child [OF ld sp(1)])
    have "key \<in> fst ` set (inorder \<sigma> n) \<longleftrightarrow> key \<in> fst ` set (oinorder \<sigma> (child n i))"
      using sp(2) sp(5) [OF False] unfolding dec by auto
    moreover have "on_path key n \<longleftrightarrow> (case child n i of None \<Rightarrow> False | Some c \<Rightarrow> on_path key c)"
      using se False by (simp add: on_path.simps [of key n])
    moreover have "on_path key c \<longleftrightarrow> key \<in> fst ` set (inorder \<sigma> c)" if "child n i = Some c" for c
      using that less.prems se False child_size [OF sp(1)] ksorted_child [OF ld less.prems(2) sp(1)]
      by (intro less.hyps) (auto simp: path_ready.simps [of key n])
    ultimately show ?thesis by (cases "child n i") auto
  qed
qed

end
