(* ===== verification/Mst_Persist.thy ===== *)
theory Mst_Persist
  imports Mst_Write
begin

text \<open>
  What a written node block means: it is the block of the node's prefix-compressed data, and
  loading it gives back the node with its subtrees as stubs (\<open>encode_node\<close>, \<open>for_each_key\<close>,
  \<open>populate_node\<close> and \<open>Loader::load\<close> of \<open>src/src/mst/tree.rs\<close>).
\<close>

section \<open>The data of a node\<close>

definition link_cid :: "node option \<Rightarrow> cid option" where
  "link_cid m = (case m of None \<Rightarrow> None | Some n \<Rightarrow> ncid n)"

fun compress_entries :: "str \<Rightarrow> entry list \<Rightarrow> entry_data list" where
  "compress_entries prev [] = []"
| "compress_entries prev (e # es) =
     \<lparr>prefix_len = common_prefix prev (ekey e), key_suffix = drop (common_prefix prev (ekey e)) (ekey e),
      ed_value = evalue e, ed_right = link_cid (eright e)\<rparr> # compress_entries (ekey e) es"

definition data_of :: "node \<Rightarrow> node_data" where
  "data_of n = \<lparr>nd_left = link_cid (nleft n), nd_entries = compress_entries [] (nentries n)\<rparr>"

definition has_cid :: "node option \<Rightarrow> bool" where
  "has_cid m \<longleftrightarrow> (case m of None \<Rightarrow> True | Some n \<Rightarrow> ncid n \<noteq> None)"

definition links_written :: "node \<Rightarrow> bool" where
  "links_written n \<longleftrightarrow> has_cid (nleft n) \<and> (\<forall>e \<in> set (nentries n). has_cid (eright e))"

lemma require_cid_ok: "has_cid m \<Longrightarrow> require_cid msg m = Inr (link_cid m)"
  by (auto simp: require_cid_def has_cid_def link_cid_def split: option.splits)

lemma length_compress_entries [simp]: "length (compress_entries prev es) = length es"
  by (induction es arbitrary: prev) simp_all

lemma encode_entries_data:
  assumes "\<forall>e \<in> set es. has_cid (eright e)"
  shows "encode_entries es prev buf =
    Inr (fold (\<lambda>e buf. put_entry buf (prefix_len e) (key_suffix e) (ed_value e) (ed_right e)) (compress_entries prev es) buf)"
  using assms by (induction es arbitrary: prev buf) (simp_all add: require_cid_ok Let_def shared_prefix_len_spec)

lemma encode_node_data_of:
  assumes "links_written n"
  shows "encode_node n [] = encode_node_data (data_of n)"
  using assms
  by (simp add: encode_node_def encode_node_data_def data_of_def links_written_def require_cid_ok encode_entries_data Let_def)

section \<open>Keys survive prefix compression\<close>

lemma key_byte_ascii: "key_byte b \<Longrightarrow> b < 0x80"
  unfolding key_byte_def ascii_defs by (auto simp: of_char_def elim: le_less_trans)

lemma is_valid_key_bytes:
  assumes "is_valid_key key" "b \<in> set key"
  shows "key_byte b \<or> b = 0x2f"
proof -
  obtain i where i: "position (\<lambda>b. b = 0x2f) key = Some i" "list_all key_byte (take i key)" "list_all key_byte (drop (i + 1) key)"
    using assms(1) by (auto simp: is_valid_key_def split: option.splits)
  then have "i < length key" "key ! i = 0x2f" by (auto simp: position_Some)
  then have "key = take i key @ 0x2f # drop (i + 1) key" by (metis Suc_eq_plus1 id_take_nth_drop)
  then have "set key = insert 0x2f (set (take i key) \<union> set (drop (i + 1) key))"
    by (metis Un_insert_right list.set(2) set_append)
  with assms(2) i show ?thesis by (auto simp: list_all_iff)
qed

lemma is_valid_key_utf8: "is_valid_key key \<Longrightarrow> utf8_valid key"
  using is_valid_key_bytes key_byte_ascii by (intro utf8_valid_ascii) (fastforce simp: is_ascii_def)

lemma for_each_key_compress:
  assumes "\<forall>e \<in> set es. is_valid_key (ekey e)" "sorted_wrt (<) (map ekey es)"
    "prev = None \<and> p = [] \<or> prev = Some p \<and> (\<forall>e \<in> set es. p < ekey e)"
  shows "for_each_key prev (compress_entries p es) = Inr (map ekey es)"
  using assms
proof (induction es arbitrary: prev p)
  case (Cons e es)
  let ?k = "common_prefix p (ekey e)"
  have "take ?k p @ drop ?k (ekey e) = ekey e"
    using common_prefix_take [of p "ekey e"] by simp
  moreover have "for_each_key (Some (ekey e)) (compress_entries (ekey e) es) = Inr (map ekey es)"
    using Cons.prems by (intro Cons.IH) auto
  moreover have "?k \<le> length p" by (rule common_prefix_le)
  moreover have "\<not> (prev \<noteq> None \<and> ekey e \<le> p)" using Cons.prems(3) by auto
  moreover have "is_valid_key (ekey e)" using Cons.prems(1) by simp
  moreover have "(case prev of None \<Rightarrow> [] | Some p \<Rightarrow> p) = p" using Cons.prems(3) by auto
  ultimately show ?case using is_valid_key_utf8 [of "ekey e"] by (auto simp: Let_def)
qed simp

section \<open>A written node loads back\<close>

text \<open>The node a loader builds from the block of \<open>n\<close>: its subtrees are stubs.\<close>

definition stub_link :: "nat \<Rightarrow> node option \<Rightarrow> node option" where
  "stub_link h m = map_option (\<lambda>c. stub c h) (link_cid m)"

definition unloaded :: "node \<Rightarrow> cid \<Rightarrow> node" where
  "unloaded n c = Node (stub_link (nheight n - 1) (nleft n))
     (map (\<lambda>e. set_right e (stub_link (nheight n - 1) (eright e))) (nentries n)) (Some c) (nheight n) True"

text \<open>A node the tree may write: valid keys in order, at the height of its first key.\<close>

definition writable :: "env \<Rightarrow> node \<Rightarrow> bool" where
  "writable E n \<longleftrightarrow>
     links_written n \<and> (\<forall>e \<in> set (nentries n). is_valid_key (ekey e) \<and> cid_valid (evalue e)) \<and>
     sorted_wrt (<) (map ekey (nentries n)) \<and> length (nentries n) \<le> MAX_ENTRIES_PER_NODE \<and>
     (nentries n \<noteq> [] \<longrightarrow> height_for_key (compress256 E) (ekey (hd (nentries n))) = nheight n) \<and>
     (\<forall>c \<in> set (node_links (data_of n)). cid_valid c)"

lemma node_links_data_of:
  "node_links (data_of n) = cid_list (link_cid (nleft n)) @ concat (map (\<lambda>e. cid_list (link_cid (eright e))) (nentries n))"
proof -
  have "concat (map (\<lambda>e. cid_list (ed_right e)) (compress_entries prev es)) =
      concat (map (\<lambda>e. cid_list (link_cid (eright e))) es)" for prev es
    by (induction es arbitrary: prev) simp_all
  then show ?thesis by (simp add: node_links_def data_of_def)
qed

lemma cid_opt_valid_list: "cid_opt_valid c \<longleftrightarrow> (\<forall>c \<in> set (cid_list c). cid_valid c)"
  by (cases c) (simp_all add: cid_opt_valid_def)

lemma compress_entries_ok:
  assumes "\<forall>e \<in> set es. length (ekey e) \<le> MAX_KEY_LEN \<and> cid_valid (evalue e) \<and> cid_opt_valid (link_cid (eright e))"
    "e \<in> set (compress_entries prev es)"
  shows "entry_ok e"
  using assms
proof (induction es arbitrary: prev)
  case (Cons x xs)
  have "common_prefix prev (ekey x) \<le> MAX_KEY_LEN"
    using common_prefix_le(2) [of prev "ekey x"] Cons.prems(1) by simp
  with Cons show ?case by (auto simp: entry_ok_def)
qed simp

lemma writable_node_ok:
  assumes "writable E n"
  shows "node_ok (data_of n)"
proof -
  have "length (ekey e) \<le> MAX_KEY_LEN" if "e \<in> set (nentries n)" for e
    using assms that by (auto simp: writable_def is_valid_key_def split: option.splits)
  moreover have "cid_opt_valid (link_cid (eright e))" if "e \<in> set (nentries n)" for e
    using assms that by (auto simp: writable_def node_links_data_of cid_opt_valid_list)
  ultimately have "entry_ok d" if "d \<in> set (compress_entries [] (nentries n))" for d
    using assms that by (intro compress_entries_ok [OF _ that]) (auto simp: writable_def)
  then show ?thesis
    using assms by (auto simp: node_ok_def data_of_def writable_def node_links_def cid_opt_valid_list)
qed

lemma zip_compress_entries:
  "map (\<lambda>(key, ed). Entry key (ed_value ed) (map_option (\<lambda>c. stub c h) (ed_right ed))) (zip (map ekey es) (compress_entries prev es)) =
   map (\<lambda>e. set_right e (stub_link h (eright e))) es"
proof (induction es arbitrary: prev)
  case (Cons e es)
  then show ?case by (cases e) (simp add: stub_link_def)
qed simp

lemma populate_written:
  assumes "writable E n" "\<forall>e \<in> set (nentries n). admits at (ekey e)" "nentries n = [] \<longrightarrow> h = nheight n"
  shows "populate_node E (stub c h) (data_of n) at = Inr (unloaded n c)"
proof -
  have k: "for_each_key None (nd_entries (data_of n)) = Inr (map ekey (nentries n))"
    using assms(1) by (auto simp: data_of_def writable_def intro: for_each_key_compress)
  have a: "map ekey (nentries n) \<noteq> [] \<Longrightarrow> admits at (hd (map ekey (nentries n))) \<and> admits at (last (map ekey (nentries n)))"
    using assms(2) by (auto simp: hd_map last_map)
  have h: "(case map ekey (nentries n) of [] \<Rightarrow> nheight (stub c h) | k # _ \<Rightarrow> height_for_key (compress256 E) k) = nheight n"
    using assms(1,3) by (cases "nentries n") (auto simp: writable_def stub_def)
  have c: "ncid (stub c h) = Some c" by (simp add: stub_def)
  show ?thesis
    unfolding populate_node_def k and_then_simps Let_def h c
    using a by (auto simp: data_of_def zip_compress_entries unloaded_def stub_link_def)
qed

lemma link_children_fresh:
  assumes "distinct cs" "\<forall>c \<in> set cs. refs c = None"
  shows "\<exists>refs'. link_children cs refs k = (True, refs', k + length cs)"
  using assms
proof (induction cs arbitrary: refs k)
  case (Cons a cs)
  have "\<forall>c \<in> set cs. (refs(a \<mapsto> 1)) c = None" using Cons.prems by auto
  from Cons.IH [OF _ this, of "k + 1"] Cons.prems show ?case by (simp del: fun_upd_apply)
qed simp

text \<open>
  A written node loads back: the block \<open>encode_node\<close> produces for a node whose subtrees are
  written, when it is what the source holds under its CID, is loaded at any place that admits the
  node's keys, and gives the same entries at the same height over stubs of the same subtrees.
\<close>

lemma written_node_loads:
  assumes "writable E n" and "\<forall>e \<in> set (nentries n). admits at (ekey e)" and "depth at \<le> TREE_MAX_DEPTH"
    and "nentries n = [] \<longrightarrow> h = nheight n" and "ascii_keys (simd_utf8 E)"
    and "distinct (node_links (data_of n))" and "\<forall>c \<in> set (node_links (data_of n)). refs c = None"
  shows "\<exists>block. encode_node n [] = Inr block \<and>
    (read_block E c = Inr (Some block) \<longrightarrow>
      (\<exists>refs'. load_node E at (stub c h) refs = (Inr None, unloaded n c, refs')))"
proof -
  have enc: "encode_node n [] = Inr (enc (node_value (data_of n)))"
    using encode_node_data_of encode_node_data_enc [OF node_ok_lengths [OF writable_node_ok [OF assms(1)]]] assms(1)
    by (simp add: writable_def)
  have "\<exists>refs'. load_node E at (stub c h) refs = (Inr None, unloaded n c, refs')"
    if b: "read_block E c = Inr (Some (enc (node_value (data_of n))))"
  proof -
    have "decode_node_data (simd_utf8 E) (enc (node_value (data_of n))) = Inr (data_of n)"
      by (rule decode_node_value [OF writable_node_ok [OF assms(1)] assms(5)])
    moreover obtain refs' where "link_children (node_links (data_of n)) refs 0 = (True, refs', length (node_links (data_of n)))"
      using link_children_fresh [OF assms(6,7), of 0] by auto
    moreover have "populate_node E (stub c h) (data_of n) at = Inr (unloaded n c)"
      using assms(1,2,4) by (rule populate_written)
    ultimately show ?thesis using b assms(3) by (simp add: load_node_def stub_def)
  qed
  with enc show ?thesis by blast
qed

end
