(* ===== verification/Mst_Detached.thy ===== *)
theory Mst_Detached
  imports Mst_Persist
begin

text \<open>
  \<open>DetachedTree\<close>: the tree that owns no storage (\<open>src/src/mst/tree.rs\<close>). Every method takes the
  tree and returns its result beside the tree it leaves, on success and on failure.

  Where a mutation fails after it began changing nodes the source poisons the tree, which then
  refuses every method; what it leaves in \<open>released\<close> and \<open>refs\<close> is never read again, and the model
  keeps the lists as they were.
\<close>

record tree =
  t_root :: "node option"
  t_refs :: refs
  t_released :: "cid list"
  t_empty_root :: "cid option"
  t_poisoned :: bool

record tree_write =
  w_root :: cid
  w_new_blocks :: blocks
  w_retired :: "cid list"

section \<open>Opening a tree\<close>

definition tree_new :: tree where
  "tree_new = \<lparr>t_root = None, t_refs = Map.empty, t_released = [], t_empty_root = None, t_poisoned = False\<rparr>"

definition tree_load :: "cid \<Rightarrow> tree" where
  "tree_load root = tree_new\<lparr>t_root := Some (stub root 0), t_refs := [root \<mapsto> 1]\<rparr>"

definition check_usable :: "tree \<Rightarrow> mst_error + unit" where
  "check_usable t =
     (if t_poisoned t then Inl (Internal ''tree is unusable: an earlier mutation failed partway through'')
      else Inr ())"

definition poison :: "mst_error \<Rightarrow> tree \<Rightarrow> (mst_error + 'a) \<times> tree" where
  "poison e t = (Inl e, t\<lparr>t_poisoned := True, t_root := None\<rparr>)"

text \<open>\<open>self.check_usable()?\<close> before the rest of a method.\<close>

definition guarded :: "tree \<Rightarrow> (mst_error + 'a) \<times> tree \<Rightarrow> (mst_error + 'a) \<times> tree" where
  "guarded t act = (case check_usable t of Inl e \<Rightarrow> (Inl e, t) | Inr _ \<Rightarrow> act)"

section \<open>Missing blocks\<close>

fun visit_keys :: "env \<Rightarrow> visit \<Rightarrow> str list \<Rightarrow> node \<Rightarrow> refs \<Rightarrow> cid list \<Rightarrow> (mst_error + cid list) \<times> node \<times> refs" where
  "visit_keys E visit [] n refs missing = (Inr missing, n, refs)"
| "visit_keys E visit (key # keys) n refs missing =
     (case visit_key_path E key visit True ROOT n refs missing of
        (Inl e, n, refs) \<Rightarrow> (Inl e, n, refs)
      | (Inr missing, n, refs) \<Rightarrow> visit_keys E visit keys n refs missing)"

definition missing_for :: "env \<Rightarrow> str list \<Rightarrow> visit \<Rightarrow> tree \<Rightarrow> (mst_error + cid list) \<times> tree" where
  "missing_for E keys visit t = guarded t
     (case t_root t of
        None \<Rightarrow> (Inr [], t)
      | Some root \<Rightarrow>
          (case visit_keys E visit keys root (t_refs t) [] of
             (r, root, refs) \<Rightarrow> (and_then r (\<lambda>missing. Inr (remdups_adj (sort missing))),
                t\<lparr>t_root := Some root, t_refs := refs\<rparr>)))"

definition missing_blocks :: "env \<Rightarrow> str list \<Rightarrow> tree \<Rightarrow> (mst_error + cid list) \<times> tree" where
  "missing_blocks E keys t = missing_for E keys Lookup t"

definition missing_blocks_for_remove :: "env \<Rightarrow> str list \<Rightarrow> tree \<Rightarrow> (mst_error + cid list) \<times> tree" where
  "missing_blocks_for_remove E keys t = missing_for E keys Remove t"

section \<open>Lookup\<close>

definition tree_get :: "env \<Rightarrow> str \<Rightarrow> tree \<Rightarrow> (mst_error + cid option) \<times> tree" where
  "tree_get E key t = guarded t
     (case t_root t of
        None \<Rightarrow> (Inr None, t)
      | Some root \<Rightarrow>
          (case get_node E ROOT key root (t_refs t) of
             (r, root, refs) \<Rightarrow> (r, t\<lparr>t_root := Some root, t_refs := refs\<rparr>)))"

text \<open>\<open>NoBlocks\<close>: the source with no blocks.\<close>

definition no_blocks :: "env \<Rightarrow> env" where
  "no_blocks E = E\<lparr>read_block := (\<lambda>_. Inr None)\<rparr>"

definition load_key_path :: "env \<Rightarrow> str \<Rightarrow> visit \<Rightarrow> tree \<Rightarrow> (mst_error + cid option) \<times> tree" where
  "load_key_path E key visit t =
     (case t_root t of
        None \<Rightarrow> (Inr None, t)
      | Some root \<Rightarrow>
          (case visit_key_path E key visit True ROOT root (t_refs t) [] of
             (Inl e, root, refs) \<Rightarrow> (Inl e, t\<lparr>t_root := Some root, t_refs := refs\<rparr>)
           | (Inr (c # _), root, refs) \<Rightarrow> (Inl (BlockNotFound c), t\<lparr>t_root := Some root, t_refs := refs\<rparr>)
           | (Inr [], root, refs) \<Rightarrow>
               (case get_node (no_blocks E) ROOT key root refs of
                  (r, root, refs) \<Rightarrow> (r, t\<lparr>t_root := Some root, t_refs := refs\<rparr>))))"

section \<open>Mutations\<close>

definition tree_insert :: "env \<Rightarrow> str \<Rightarrow> cid \<Rightarrow> tree \<Rightarrow> (mst_error + cid option) \<times> tree" where
  "tree_insert E key val t = guarded t
     (if \<not> is_valid_key key then (Inl (InvalidKey key), t)
      else case load_key_path E key Lookup t of
        (Inl e, t) \<Rightarrow> (Inl e, t)
      | (Inr prev, t) \<Rightarrow>
          if prev = Some val then (Inr prev, t)
          else if prev \<noteq> None then
            (case (case t_root t of
                     Some root \<Rightarrow> update_node root key val (t_released t)
                   | None \<Rightarrow> Inl (Internal ''updated key is not in the tree'')) of
               Inr (root, released) \<Rightarrow> (Inr prev, t\<lparr>t_root := Some root, t_released := released\<rparr>)
             | Inl e \<Rightarrow> poison e t)
          else
            let height = height_for_key (compress256 E) key;
                released = (if t_root t = None then t_released t @ cid_list (t_empty_root t) else t_released t);
                empty_root = (if t_root t = None then None else t_empty_root t)
            in (case insert_node (t_root t) key val height released of
                  Inr (root, released) \<Rightarrow>
                    (Inr prev, t\<lparr>t_root := Some root, t_released := released, t_empty_root := empty_root\<rparr>)
                | Inl e \<Rightarrow> poison e t))"

definition tree_remove :: "env \<Rightarrow> str \<Rightarrow> tree \<Rightarrow> (mst_error + cid option) \<times> tree" where
  "tree_remove E key t = guarded t
     (case load_key_path E key Remove t of
        (Inl e, t) \<Rightarrow> (Inl e, t)
      | (Inr None, t) \<Rightarrow> (Inr None, t)
      | (Inr (Some _), t) \<Rightarrow>
          (case t_root t of
             None \<Rightarrow> (Inr None, t)
           | Some root \<Rightarrow>
               (case remove_from_root root key (t_released t) of
                  Inr ((root, removed), released) \<Rightarrow> (Inr removed, t\<lparr>t_root := root, t_released := released\<rparr>)
                | Inl e \<Rightarrow> poison e t)))"

section \<open>Flushing\<close>

fun release_all :: "cid list \<Rightarrow> refs \<Rightarrow> mst_error + refs" where
  "release_all [] refs = Inr refs"
| "release_all (c # cs) refs =
     (case refs c of
        Some count \<Rightarrow>
          if count > 0 then release_all cs (refs(c \<mapsto> count - 1))
          else Inl (Internal ''MST node released more often than it was held'')
      | None \<Rightarrow> Inl (Internal ''MST node released more often than it was held''))"

text \<open>The \<open>retain\<close> of \<open>settle\<close>: a block already counted is not new.\<close>

fun count_written :: "blocks \<Rightarrow> refs \<Rightarrow> blocks \<times> refs" where
  "count_written [] refs = ([], refs)"
| "count_written ((c, data) # bs) refs =
     (case refs c of
        Some count \<Rightarrow> count_written bs (refs(c \<mapsto> count + 1))
      | None \<Rightarrow> (case count_written bs (refs(c \<mapsto> 1)) of (new, refs) \<Rightarrow> ((c, data) # new, refs)))"

fun retire :: "cid list \<Rightarrow> refs \<Rightarrow> cid list \<times> refs" where
  "retire [] refs = ([], refs)"
| "retire (c # cs) refs =
     (if refs c = Some 0 then (case retire cs (refs(c := None)) of (retired, refs) \<Rightarrow> (c # retired, refs))
      else retire cs refs)"

definition settle :: "blocks \<Rightarrow> cid \<Rightarrow> tree \<Rightarrow> mst_error + (tree_write \<times> tree)" where
  "settle written root t =
     and_then (release_all (t_released t) (t_refs t)) (\<lambda>refs.
       let (new_blocks, refs) = count_written written refs;
           (retired, refs) = retire (t_released t) refs
       in Inr (\<lparr>w_root = root, w_new_blocks = new_blocks, w_retired = sort retired\<rparr>,
               t\<lparr>t_refs := refs, t_released := []\<rparr>))"

definition tree_flush :: "env \<Rightarrow> tree \<Rightarrow> (mst_error + tree_write) \<times> tree" where
  "tree_flush E t = guarded t
     (case t_root t of
        None \<Rightarrow>
          let t = t\<lparr>t_released := t_released t @ cid_list (t_empty_root t), t_empty_root := None\<rparr> in
          (case empty_node_block (compress256 E) of
             Inl e \<Rightarrow> poison e t
           | Inr (root, data) \<Rightarrow>
               let t = t\<lparr>t_empty_root := Some root\<rparr> in
               (case settle [(root, data)] root t of Inl e \<Rightarrow> poison e t | Inr (w, t) \<Rightarrow> (Inr w, t)))
      | Some n \<Rightarrow>
          (case write_node (compress256 E) n [] of
             Inl e \<Rightarrow> poison e t
           | Inr (root, n, written) \<Rightarrow>
               let t = t\<lparr>t_root := Some n\<rparr> in
               (case settle written root t of Inl e \<Rightarrow> poison e t | Inr (w, t) \<Rightarrow> (Inr w, t))))"

definition tree_root_cid :: "tree \<Rightarrow> cid option" where
  "tree_root_cid t = (case t_root t of Some root \<Rightarrow> ncid root | None \<Rightarrow> t_empty_root t)"

end
