(* ===== verification/Mst_Detached_Correct.thy ===== *)
theory Mst_Detached_Correct
  imports Mst_Detached
begin

text \<open>
  The methods of \<open>DetachedTree\<close> against the map it stands for: lookups return the map's value,
  inserts and removes change the map at their key and nothing else, and a call that fails changes
  nothing and leaves the tree usable. \<open>\<sigma>\<close> gives the contents of every stored subtree.
\<close>

definition contents :: "contents \<Rightarrow> tree \<Rightarrow> (str \<times> cid) list" where
  "contents \<sigma> t = oinorder \<sigma> (t_root t)"

definition usable :: "contents \<Rightarrow> tree \<Rightarrow> bool" where
  "usable \<sigma> t \<longleftrightarrow> \<not> t_poisoned t \<and> ksorted (contents \<sigma> t)"

lemma guarded_usable [simp]: "\<not> t_poisoned t \<Longrightarrow> guarded t act = act"
  by (simp add: guarded_def check_usable_def)

lemma models_no_blocks [simp]: "models (no_blocks E) \<sigma>"
  by (simp add: models_def no_blocks_def)

section \<open>Lookups on a loaded path\<close>

lemma load_node_loaded_id: "nloaded n \<Longrightarrow> load_node E at n refs = (Inr None, n, refs)"
  by (simp add: load_node_def)

lemma ensure_loaded_id: "nloaded n \<Longrightarrow> ensure_loaded E at n refs = (Inr (), n, refs)"
  by (simp add: ensure_loaded_def load_node_loaded_id)

lemma path_ready_sel:
  "path_ready key n \<Longrightarrow> nloaded n"
  "path_ready key n \<Longrightarrow> search_entries (nentries n) key = Inl i \<Longrightarrow> child n i = Some c \<Longrightarrow> path_ready key c"
  by (subst (asm) path_ready.simps; simp)+

lemma get_node_ready:
  assumes "path_ready key n" "ksorted (inorder \<sigma> n)" "models E \<sigma>"
  shows "get_node E at key n refs = (Inr (map_of (inorder \<sigma> n) key), n, refs)"
  using assms
proof (induction "nsize n" arbitrary: at n rule: less_induct)
  case less
  have ld: "nloaded n" using less.prems(1) by (rule path_ready_sel)
  define i where "i = lower_bound ekey key (nentries n)"
  note sp = lower_bound_splits [OF ld less.prems(2) i_def]
  have search: "search_entries (nentries n) key = (if i < length (nentries n) \<and> ekey (nentries n ! i) = key then Inr i else Inl i)"
    using search_entries_sorted [OF node_entries_sorted [OF ld less.prems(2)]] by (simp add: i_def Let_def)
  have scan: "scan_entries (nentries n) key = i" by (simp add: scan_entries_lower_bound i_def)
  consider (found) "i < length (nentries n)" "ekey (nentries n ! i) = key"
    | (leaf) "\<not> (i < length (nentries n) \<and> ekey (nentries n ! i) = key)" "child n i = None"
    | (down) c where "\<not> (i < length (nentries n) \<and> ekey (nentries n ! i) = key)" "child n i = Some c" by blast
  then have "\<exists>v. get_node E at key n refs = (Inr v, n, refs)"
  proof cases
    case found
    then show ?thesis by (subst get_node.simps) (simp add: ensure_loaded_id ld scan)
  next
    case leaf
    then show ?thesis by (subst get_node.simps) (auto simp add: ensure_loaded_id ld scan Let_def)
  next
    case down
    have "path_ready key c" using less.prems(1) search down path_ready_sel(2) by auto
    moreover have "nsize c < nsize n" using child_size [OF sp(1)] down by simp
    moreover have "ksorted (inorder \<sigma> c)" using ksorted_child [OF ld less.prems(2) sp(1)] down by simp
    ultimately have "get_node E (child_place n i at) key c refs = (Inr (map_of (inorder \<sigma> c) key), c, refs)"
      using less.prems(3) by (intro less.hyps)
    moreover have "set_child n i (Some c) = n" using set_child_id [OF sp(1)] down(2) by simp
    ultimately show ?thesis using down
      by (subst get_node.simps) (auto simp: ensure_loaded_id ld scan Let_def)
  qed
  then obtain v where v: "get_node E at key n refs = (Inr v, n, refs)" ..
  then show ?case using get_node_correct [OF v less.prems(3,2)] by simp
qed

definition ready :: "visit \<Rightarrow> str \<Rightarrow> node option \<Rightarrow> bool" where
  "ready visit key m \<longleftrightarrow>
     (case m of None \<Rightarrow> True
      | Some n \<Rightarrow> path_ready key n \<and> (visit = Remove \<longrightarrow> remove_ready key n \<and> trim_ready key n))"

lemma load_key_path_spec:
  assumes "load_key_path E key visit t = (r, t')" "usable \<sigma> t" "models E \<sigma>"
  shows "contents \<sigma> t' = contents \<sigma> t \<and> usable \<sigma> t' \<and> (t_root t' = None \<longleftrightarrow> t_root t = None) \<and>
    (\<forall>v. r = Inr v \<longrightarrow> v = map_of (contents \<sigma> t) key \<and> ready visit key (t_root t'))"
proof (cases "t_root t")
  case None
  then show ?thesis using assms by (auto simp: load_key_path_def contents_def ready_def)
next
  case (Some n)
  have s: "ksorted (inorder \<sigma> n)" and np: "\<not> t_poisoned t"
    using assms(2) Some by (simp_all add: usable_def contents_def)
  obtain r1 n1 refs1 where v: "visit_key_path E key visit True ROOT n (t_refs t) [] = (r1, n1, refs1)"
    by (metis prod_cases3)
  have n1: "inorder \<sigma> n1 = inorder \<sigma> n" by (rule visit_key_path_contents [OF v assms(3)])
  show ?thesis
  proof (cases "r1 = Inr []")
    case False
    then have "\<exists>e. r = Inl e \<and> t' = t\<lparr>t_root := Some n1, t_refs := refs1\<rparr>"
      using assms(1) Some v by (auto simp: load_key_path_def split: sum.splits list.splits)
    then show ?thesis using n1 s np Some by (auto simp: contents_def usable_def)
  next
    case True
    then have rd: "path_ready key n1 \<and> (visit = Remove \<longrightarrow> remove_ready key n1 \<and> trim_ready key n1)"
      using visit_key_path_ready v by metis
    have "get_node (no_blocks E) ROOT key n1 refs1 = (Inr (map_of (inorder \<sigma> n) key), n1, refs1)"
      using get_node_ready [of key n1 \<sigma> "no_blocks E"] rd s n1 by simp
    then have "r = Inr (map_of (inorder \<sigma> n) key) \<and> t' = t\<lparr>t_root := Some n1, t_refs := refs1\<rparr>"
      using assms(1) Some v True by (auto simp: load_key_path_def)
    then show ?thesis using n1 s np Some rd by (auto simp: contents_def usable_def ready_def)
  qed
qed

section \<open>Insert\<close>

lemma map_of_None_keys: "map_of ps k = None \<longleftrightarrow> k \<notin> fst ` set ps"
  by (simp add: map_of_eq_None_iff)

text \<open>The change an insert makes once the path is loaded, by whether the key was there.\<close>

lemma update_step:
  assumes "ready visit key (Some n)" "ksorted (inorder \<sigma> n)" "map_of (inorder \<sigma> n) key \<noteq> None"
  obtains n' rel where "update_node n key val released = Inr (n', rel)" "inorder \<sigma> n' = upd_list key val (inorder \<sigma> n)"
proof -
  have k: "key \<in> fst ` set (inorder \<sigma> n)" using assms(3) map_of_None_keys [of "inorder \<sigma> n" key] by metis
  then have "on_path key n" using assms(1,2) on_path_iff by (simp add: ready_def)
  then obtain n' rel where u: "update_node n key val released = Inr (n', rel)"
    using update_node_ok assms(1) by (force simp: ready_def)
  then show thesis using update_node_contents [OF u assms(2) k] by (rule that)
qed

lemma insert_step:
  assumes "ready visit key m" "ksorted (oinorder \<sigma> m)" "map_of (oinorder \<sigma> m) key = None"
  obtains n' rel where "insert_node m key val h released = Inr (n', rel)" "inorder \<sigma> n' = upd_list key val (oinorder \<sigma> m)"
proof -
  have k: "key \<notin> fst ` set (oinorder \<sigma> m)" using assms(3) map_of_None_keys [of "oinorder \<sigma> m" key] by metis
  have "case m of None \<Rightarrow> True | Some n \<Rightarrow> path_ready key n \<and> \<not> on_path key n"
    using assms(1,2) k on_path_iff [of key _ \<sigma>] by (cases m) (simp_all add: ready_def)
  then obtain n' rel where u: "insert_node m key val h released = Inr (n', rel)"
    using insert_ok(1) [where m = m and val = val and height = h and released = released] by blast
  then show thesis using insert_contents(1) [OF u assms(2) k] by (rule that)
qed

lemma upd_list_same: "ksorted ps \<Longrightarrow> map_of ps k = Some v \<Longrightarrow> upd_list k v ps = ps"
  using map_of_ksorted_iff [OF ksorted_upd_list, of ps ps k v] by (simp add: map_of_upd_list map_upd_triv)

lemma usable_upd: "ksorted ps \<Longrightarrow> oinorder \<sigma> (t_root t) = upd_list k v ps \<Longrightarrow> \<not> t_poisoned t \<Longrightarrow> usable \<sigma> t"
  by (simp add: usable_def contents_def ksorted_upd_list)

lemma tree_insert_loaded:
  assumes "load_key_path E key Lookup t = (Inr prev, t1)" "\<not> t_poisoned t" "is_valid_key key"
    and "prev = map_of (contents \<sigma> t1) key" "ready Lookup key (t_root t1)" "usable \<sigma> t1"
  shows "\<exists>t'. tree_insert E key val t = (Inr prev, t') \<and> usable \<sigma> t' \<and> contents \<sigma> t' = upd_list key val (contents \<sigma> t1)"
proof -
  let ?ps = "oinorder \<sigma> (t_root t1)"
  have s1: "ksorted ?ps" "\<not> t_poisoned t1" using assms(6) by (simp_all add: usable_def contents_def)
  have prev: "prev = map_of ?ps key" using assms(4) by (simp add: contents_def)
  consider (same) "prev = Some val" | (upd) old where "prev = Some old" "old \<noteq> val" | (ins) "prev = None"
    by (cases prev) auto
  then show ?thesis
  proof cases
    case same
    then have "tree_insert E key val t = (Inr prev, t1)" using assms(1-3) by (simp add: tree_insert_def)
    then show ?thesis using assms(6) same prev upd_list_same [OF s1(1)] by (simp add: contents_def)
  next
    case upd
    then obtain n where n: "t_root t1 = Some n" using prev by (cases "t_root t1") auto
    obtain n' rel where u: "update_node n key val (t_released t1) = Inr (n', rel)" "inorder \<sigma> n' = upd_list key val (inorder \<sigma> n)"
      using update_step [of Lookup key n \<sigma> val "t_released t1"] assms(5) s1 n upd prev by auto
    then have "tree_insert E key val t = (Inr prev, t1\<lparr>t_root := Some n', t_released := rel\<rparr>)"
      using assms(1-3) upd n by (simp add: tree_insert_def)
    then show ?thesis using u s1 n usable_upd [OF s1(1)] by (auto simp: contents_def)
  next
    case ins
    define rel0 where "rel0 = (if t_root t1 = None then t_released t1 @ cid_list (t_empty_root t1) else t_released t1)"
    obtain n' rel where u: "insert_node (t_root t1) key val (height_for_key (compress256 E) key) rel0 = Inr (n', rel)"
      "inorder \<sigma> n' = upd_list key val ?ps"
      using insert_step [of Lookup key "t_root t1" \<sigma> val _ rel0] assms(5) s1 ins prev by auto
    then obtain er where "tree_insert E key val t = (Inr prev, t1\<lparr>t_root := Some n', t_released := rel, t_empty_root := er\<rparr>)"
      using assms(1-3) ins unfolding tree_insert_def rel0_def Let_def by auto
    then show ?thesis using u s1 usable_upd [OF s1(1)] by (auto simp: contents_def)
  qed
qed

lemma tree_insert_spec:
  assumes "tree_insert E key val t = (r, t')" "usable \<sigma> t" "models E \<sigma>"
  shows "usable \<sigma> t' \<and> (case r of
      Inl e \<Rightarrow> contents \<sigma> t' = contents \<sigma> t
    | Inr prev \<Rightarrow> is_valid_key key \<and> prev = map_of (contents \<sigma> t) key \<and> contents \<sigma> t' = upd_list key val (contents \<sigma> t))"
proof -
  have np: "\<not> t_poisoned t" using assms(2) by (simp add: usable_def)
  obtain r1 t1 where l: "load_key_path E key Lookup t = (r1, t1)" by fastforce
  note sp = load_key_path_spec [OF l assms(2,3)]
  show ?thesis
  proof (cases "is_valid_key key \<and> (\<exists>v. r1 = Inr v)")
    case False
    then show ?thesis
      using assms(1,2) sp np l by (auto simp: tree_insert_def split: sum.splits if_splits)
  next
    case True
    then obtain prev where "r1 = Inr prev" by blast
    with sp True tree_insert_loaded [of E key t prev t1 \<sigma> val] l np assms(1) show ?thesis by auto
  qed
qed

section \<open>Remove\<close>

lemma remove_step:
  assumes "ready Remove key (Some n)" "ksorted (inorder \<sigma> n)"
  obtains n' rel where
    "remove_from_root n key released = Inr ((n', map_of (inorder \<sigma> n) key), rel)"
    "oinorder \<sigma> n' = del_list key (inorder \<sigma> n)"
proof -
  have rd: "remove_ready key n" "trim_ready key n" using assms(1) by (simp_all add: ready_def)
  obtain m removed rel where m: "remove_node n key released = Inr ((m, removed), rel)"
    using remove_node_ok [OF rd(1) assms(2)] by blast
  obtain n' rel' where "trim_top m rel = Inr (n', rel')"
    using trim_top_ok [OF remove_node_chain [OF m rd(2) assms(2)]] by blast
  with m have r: "remove_from_root n key released = Inr ((n', removed), rel')"
    by (simp add: remove_from_root_def)
  then show thesis using remove_from_root_contents [OF r assms(2)] that by blast
qed

lemma del_list_absent: "map_of ps k = None \<Longrightarrow> del_list k ps = ps"
  by (intro del_list_notin) (simp add: map_of_eq_None_iff)

lemma tree_remove_spec:
  assumes "tree_remove E key t = (r, t')" "usable \<sigma> t" "models E \<sigma>"
  shows "usable \<sigma> t' \<and> (case r of
      Inl e \<Rightarrow> contents \<sigma> t' = contents \<sigma> t
    | Inr removed \<Rightarrow> removed = map_of (contents \<sigma> t) key \<and> contents \<sigma> t' = del_list key (contents \<sigma> t))"
proof -
  have np: "\<not> t_poisoned t" using assms(2) by (simp add: usable_def)
  obtain r1 t1 where l: "load_key_path E key Remove t = (r1, t1)" by fastforce
  note sp = load_key_path_spec [OF l assms(2,3)]
  have s1: "ksorted (oinorder \<sigma> (t_root t1))" "\<not> t_poisoned t1" "oinorder \<sigma> (t_root t1) = contents \<sigma> t"
    using sp unfolding usable_def contents_def by (metis, metis, metis)
  show ?thesis
  proof (cases r1)
    case (Inl e)
    then show ?thesis using assms(1) np l sp by (auto simp: tree_remove_def)
  next
    case (Inr v)
    then have v: "v = map_of (contents \<sigma> t) key" "ready Remove key (t_root t1)" using sp by auto
    show ?thesis
    proof (cases v)
      case None
      then have "r = Inr None \<and> t' = t1" using assms(1) np l Inr by (simp add: tree_remove_def)
      moreover have "map_of (contents \<sigma> t) key = None" using v(1) None by simp
      moreover have "usable \<sigma> t1" "contents \<sigma> t1 = contents \<sigma> t" using sp by (metis, metis)
      ultimately show ?thesis by (simp add: del_list_absent)
    next
      case (Some old)
      then obtain n where n: "t_root t1 = Some n" using s1(3) v(1) by (cases "t_root t1") auto
      have sn: "ksorted (inorder \<sigma> n)" "inorder \<sigma> n = contents \<sigma> t" using s1 n by simp_all
      obtain n' rel where u: "remove_from_root n key (t_released t1) = Inr ((n', map_of (inorder \<sigma> n) key), rel)"
        "oinorder \<sigma> n' = del_list key (inorder \<sigma> n)"
        using remove_step [of key n \<sigma> "t_released t1"] v(2) sn(1) n by auto
      then have "r = Inr (map_of (contents \<sigma> t) key) \<and> t' = t1\<lparr>t_root := n', t_released := rel\<rparr>"
        using assms(1) np l Inr Some n sn(2) by (simp add: tree_remove_def)
      then show ?thesis using u sn s1 ksorted_del_list [of "contents \<sigma> t" key]
        by (simp add: contents_def usable_def)
    qed
  qed
qed

section \<open>Lookup and missing blocks\<close>

lemma tree_get_spec:
  assumes "tree_get E key t = (r, t')" "usable \<sigma> t" "models E \<sigma>"
  shows "usable \<sigma> t' \<and> contents \<sigma> t' = contents \<sigma> t \<and> (\<forall>v. r = Inr v \<longrightarrow> v = map_of (contents \<sigma> t) key)"
proof (cases "t_root t")
  case None
  then show ?thesis using assms by (auto simp: tree_get_def usable_def contents_def)
next
  case (Some n)
  obtain r1 n1 refs1 where g: "get_node E ROOT key n (t_refs t) = (r1, n1, refs1)" by (metis prod_cases3)
  have "ksorted (inorder \<sigma> n)" using assms(2) Some by (simp add: usable_def contents_def)
  from get_node_correct [OF g assms(3) this] this show ?thesis
    using assms(1,2) Some g by (auto simp: tree_get_def usable_def contents_def)
qed

lemma visit_keys_contents:
  assumes "visit_keys E visit keys n refs missing = (r, n', refs')" "models E \<sigma>"
  shows "inorder \<sigma> n' = inorder \<sigma> n"
  using assms(1)
proof (induction keys arbitrary: n refs missing)
  case (Cons key keys)
  obtain r1 n1 refs1 where v: "visit_key_path E key visit True ROOT n refs missing = (r1, n1, refs1)"
    by (metis prod_cases3)
  have "inorder \<sigma> n1 = inorder \<sigma> n" by (rule visit_key_path_contents [OF v assms(2)])
  with Cons v show ?case by (cases r1) auto
qed simp

lemma missing_for_spec:
  assumes "missing_for E keys visit t = (r, t')" "usable \<sigma> t" "models E \<sigma>"
  shows "usable \<sigma> t' \<and> contents \<sigma> t' = contents \<sigma> t"
proof (cases "t_root t")
  case None
  then show ?thesis using assms by (auto simp: missing_for_def usable_def contents_def)
next
  case (Some n)
  obtain r1 n1 refs1 where g: "visit_keys E visit keys n (t_refs t) [] = (r1, n1, refs1)" by (metis prod_cases3)
  from visit_keys_contents [OF g assms(3)] show ?thesis
    using assms(1,2) Some g by (auto simp: missing_for_def usable_def contents_def)
qed

section \<open>A lookup that reports nothing missing leaves the path loaded\<close>

lemma path_readyI:
  assumes "nloaded n" "\<And>i c. search_entries (nentries n) key = Inl i \<Longrightarrow> child n i = Some c \<Longrightarrow> path_ready key c"
  shows "path_ready key n"
  using assms by (subst path_ready.simps) (auto split: sum.splits option.splits)

lemma path_ready_set_child:
  assumes "path_ready key n" "i \<le> length (nentries n)" "child n i = Some c" "path_ready key c \<Longrightarrow> path_ready key c'"
  shows "path_ready key (set_child n i (Some c'))"
proof (rule path_readyI)
  show "nloaded (set_child n i (Some c'))" using path_ready_sel(1) [OF assms(1)] by simp
  fix j d
  assume j: "search_entries (nentries (set_child n i (Some c'))) key = Inl j" "child (set_child n i (Some c')) j = Some d"
  show "path_ready key d"
  proof (cases "i = j")
    case True
    then have "path_ready key c" using path_ready_sel(2) [OF assms(1)] j(1) assms(3) by simp
    then show ?thesis using assms(2,4) j(2) True by simp
  next
    case False
    then show ?thesis using path_ready_sel(2) [OF assms(1)] j by (simp add: child_set_child_other)
  qed
qed

lemma visit_key_path_keeps:
  assumes "visit_key_path E key' Lookup top' at n refs missing = (r, n', refs')" "path_ready key n"
  shows "path_ready key n'"
  using assms
proof (induction "nsize n" arbitrary: top' at n refs missing r n' refs' rule: less_induct)
  case less
  have ld: "nloaded n" using less.prems(2) by (rule path_ready_sel)
  note load = load_node_loaded_id [OF ld]
  show ?case
  proof (cases "search_entries (nentries n) key'")
    case (Inr i)
    then show ?thesis using less.prems by (subst (asm) visit_key_path.simps) (simp add: load)
  next
    case (Inl i)
    note i = search_entries_le(1) [OF Inl]
    show ?thesis
    proof (cases "child n i")
      case None
      then show ?thesis using less.prems Inl by (subst (asm) visit_key_path.simps) (simp add: load)
    next
      case (Some c)
      obtain r1 c1 refs1 where v:
        "visit_key_path E key' Lookup (top' \<and> nentries n = []) (child_place n i at) c refs missing = (r1, c1, refs1)"
        by (metis prod_cases3)
      then have n': "n' = set_child n i (Some c1)"
        using less.prems(1) Inl Some by (subst (asm) visit_key_path.simps) (simp add: load)
      have "nsize c < nsize n" using child_size [OF i] Some by simp
      then have "path_ready key c \<Longrightarrow> path_ready key c1" using less.hyps v by blast
      then show ?thesis unfolding n' by (rule path_ready_set_child [OF less.prems(2) i Some])
    qed
  qed
qed

text \<open>Traversals only add to the blocks reported missing.\<close>

lemma visit_key_path_missing:
  assumes "visit_key_path E key Lookup top' at n refs missing = (Inr ms, n', refs')"
  shows "\<exists>more. ms = missing @ more"
  using assms
proof (induction "rank at n" arbitrary: top' at n refs n' refs' rule: less_induct)
  case less
  obtain r1 n1 refs1 where l: "load_node E at n refs = (r1, n1, refs1)" by (metis prod_cases3)
  note v = less.prems [unfolded visit_key_path.simps [of E key Lookup top' at n] l]
  consider (err) e where "r1 = Inl e" | (stub) c where "r1 = Inr (Some c)" | (ok) "r1 = Inr None"
    by (cases r1) auto
  then show ?case
  proof cases
    case ok
    show ?thesis
    proof (cases "search_entries (nentries n1) key")
      case (Inl i)
      show ?thesis
      proof (cases "child n1 i")
        case (Some c)
        obtain r2 c2 refs2 where v2:
          "visit_key_path E key Lookup (top' \<and> nentries n1 = []) (child_place n1 i at) c refs1 missing = (r2, c2, refs2)"
          by (metis prod_cases3)
        then have "r2 = Inr ms" using v ok Inl Some by simp
        moreover have "rank (child_place n1 i at) c < rank at n"
          using rank_child_Some [OF _ search_entries_le(1) [OF Inl] Some] l ok by blast
        ultimately show ?thesis using less.hyps v2 by blast
      qed (use v ok Inl in simp)
    qed (use v ok in simp)
  qed (use v in auto)
qed

lemma visit_keys_missing:
  assumes "visit_keys E Lookup keys n refs missing = (Inr ms, n', refs')"
  shows "\<exists>more. ms = missing @ more"
  using assms
proof (induction keys arbitrary: n refs missing)
  case (Cons key keys)
  obtain r1 n1 refs1 where v: "visit_key_path E key Lookup True ROOT n refs missing = (r1, n1, refs1)"
    by (metis prod_cases3)
  obtain ms1 where ms: "r1 = Inr ms1" "visit_keys E Lookup keys n1 refs1 ms1 = (Inr ms, n', refs')"
    using Cons.prems v by (cases r1) auto
  with Cons.IH [OF ms(2)] visit_key_path_missing [of E key True ROOT n refs missing ms1] v show ?case by auto
qed simp

lemma visit_keys_ready:
  assumes "visit_keys E Lookup keys n refs [] = (Inr [], n', refs')"
  shows "(\<forall>key \<in> set keys. path_ready key n') \<and> (\<forall>key. path_ready key n \<longrightarrow> path_ready key n')"
  using assms
proof (induction keys arbitrary: n refs)
  case (Cons key keys)
  obtain r1 n1 refs1 where v: "visit_key_path E key Lookup True ROOT n refs [] = (r1, n1, refs1)"
    by (metis prod_cases3)
  obtain ms where ms: "r1 = Inr ms" "visit_keys E Lookup keys n1 refs1 ms = (Inr [], n', refs')"
    using Cons.prems v by (cases r1) auto
  have "ms = []" using visit_keys_missing [OF ms(2)] by simp
  then have "path_ready key n1" using visit_key_path_ready v ms(1) by blast
  with Cons.IH ms(2) \<open>ms = []\<close> visit_key_path_keeps [OF v] show ?case by auto
qed simp

lemma visit_key_path_id:
  assumes "path_ready key n"
  shows "visit_key_path E key Lookup top' at n refs missing = (Inr missing, n, refs)"
  using assms
proof (induction "nsize n" arbitrary: top' at n rule: less_induct)
  case less
  note load = load_node_loaded_id [OF path_ready_sel(1) [OF less.prems]]
  show ?case
  proof (cases "\<exists>i c. search_entries (nentries n) key = Inl i \<and> child n i = Some c")
    case True
    then obtain i c where i: "search_entries (nentries n) key = Inl i" "child n i = Some c" by blast
    have c: "path_ready key c" by (rule path_ready_sel(2) [OF less.prems i])
    have "nsize c < nsize n" using search_entries_child_size i by blast
    then have "visit_key_path E key Lookup (top' \<and> nentries n = []) (child_place n i at) c refs missing = (Inr missing, c, refs)"
      by (rule less.hyps [OF _ c])
    moreover have "set_child n i (Some c) = n" using set_child_id [OF search_entries_le(1) [OF i(1)]] i(2) by simp
    ultimately show ?thesis using i by (subst visit_key_path.simps) (simp add: load)
  next
    case False
    then show ?thesis by (subst visit_key_path.simps) (auto simp: load split: sum.splits option.splits)
  qed
qed

lemma ready_insert:
  assumes "ready Lookup key (t_root t)" "usable \<sigma> t" "is_valid_key key"
  shows "\<exists>t'. tree_insert E key val t = (Inr (map_of (contents \<sigma> t) key), t')"
proof -
  have "load_key_path E key Lookup t = (Inr (map_of (contents \<sigma> t) key), t)"
  proof (cases "t_root t")
    case None
    then show ?thesis by (simp add: load_key_path_def contents_def)
  next
    case (Some n)
    then have "path_ready key n" "ksorted (inorder \<sigma> n)"
      using assms by (simp_all add: ready_def usable_def contents_def)
    then show ?thesis using Some get_node_ready [of key n \<sigma> "no_blocks E" ROOT "t_refs t"]
      by (simp add: load_key_path_def visit_key_path_id contents_def)
  qed
  then show ?thesis
    using assms tree_insert_loaded [of E key t _ t \<sigma> val] by (auto simp: usable_def)
qed

end
