(* ===== verification/Mst_Walk.thy ===== *)
theory Mst_Walk
  imports Mst_Detached_Correct
begin

text \<open>
  Walking the tree in key order (\<open>walk_node\<close>, \<open>DetachedTree::walk\<close> and \<open>entries\<close> of
  \<open>src/src/mst/tree.rs\<close>) and comparing two trees (\<open>src/src/mst/diff.rs\<close>). The callback of a walk
  is a function on a state of its own that may fail.
\<close>

type_synonym 's walker = "str \<Rightarrow> cid \<Rightarrow> 's \<Rightarrow> (mst_error + unit) \<times> 's"

section \<open>The walk\<close>

text \<open>
  The loop over the children of \<open>n\<close> is a recursion over its entries; \<open>i\<close> is the index of the next
  entry. The nodes and counts a failed walk leaves are returned too.
\<close>

function (sequential) walk_node ::
    "env \<Rightarrow> 's walker \<Rightarrow> place \<Rightarrow> node \<Rightarrow> refs \<Rightarrow> 's \<Rightarrow> (mst_error + unit) \<times> node \<times> refs \<times> 's"
  and walk_child ::
    "env \<Rightarrow> 's walker \<Rightarrow> place \<Rightarrow> node option \<Rightarrow> refs \<Rightarrow> 's \<Rightarrow> (mst_error + unit) \<times> node option \<times> refs \<times> 's"
  and walk_entries ::
    "env \<Rightarrow> 's walker \<Rightarrow> place \<Rightarrow> node \<Rightarrow> nat \<Rightarrow> entry list \<Rightarrow> refs \<Rightarrow> 's \<Rightarrow> (mst_error + unit) \<times> entry list \<times> refs \<times> 's"
where
  "walk_node E f at n refs s =
     (case ensure_loaded E at n refs of
        (Inl e, n, refs) \<Rightarrow> (Inl e, n, refs, s)
      | (Inr _, n, refs) \<Rightarrow>
          (case walk_child E f (child_place n 0 at) (nleft n) refs s of
             (Inl e, l, refs, s) \<Rightarrow> (Inl e, set_child n 0 l, refs, s)
           | (Inr _, l, refs, s) \<Rightarrow>
               (case walk_entries E f at n 0 (nentries n) refs s of
                  (r, es, refs, s) \<Rightarrow> (r, set_entries (set_child n 0 l) es, refs, s))))"
| "walk_child E f at None refs s = (Inr (), None, refs, s)"
| "walk_child E f at (Some c) refs s = (case walk_node E f at c refs s of (r, c, refs, s) \<Rightarrow> (r, Some c, refs, s))"
| "walk_entries E f at n i [] refs s = (Inr (), [], refs, s)"
| "walk_entries E f at n i (e # es) refs s =
     (case f (ekey e) (evalue e) s of
        (Inl er, s) \<Rightarrow> (Inl er, e # es, refs, s)
      | (Inr _, s) \<Rightarrow>
          (case walk_child E f (child_place n (i + 1) at) (eright e) refs s of
             (Inl er, c, refs, s) \<Rightarrow> (Inl er, set_right e c # es, refs, s)
           | (Inr _, c, refs, s) \<Rightarrow>
               (case walk_entries E f at n (i + 1) es refs s of
                  (r, es, refs, s) \<Rightarrow> (r, set_right e c # es, refs, s))))"
  by pat_completeness auto

text \<open>The largest rank among the subtrees of the entries.\<close>

fun entries_rank :: "place \<Rightarrow> node \<Rightarrow> entry list \<Rightarrow> nat" where
  "entries_rank at n [] = 0"
| "entries_rank at n (e # es) = max (orank (child_place n 0 at) (eright e)) (entries_rank at n es)"

lemma orank_child_place: "orank (child_place n i at) m = orank (child_place n' j at) m"
  by (simp add: orank_def rank_def child_place_def split: option.split)

lemma entries_rank_less:
  "0 < k \<Longrightarrow> (\<And>e. e \<in> set es \<Longrightarrow> orank (child_place n 0 at) (eright e) < k) \<Longrightarrow> entries_rank at n es < k"
  by (induction es) auto

lemma entries_rank_loaded:
  assumes "load_node E at n refs = (Inr None, n', refs')"
  shows "entries_rank at n' (nentries n') < rank at n"
proof (rule entries_rank_less)
  show "0 < rank at n" using rank_child [OF assms, of 0 n'] by simp
  fix e assume "e \<in> set (nentries n')"
  then obtain j where "j < length (nentries n')" "e = nentries n' ! j" by (auto simp: in_set_conv_nth)
  then have "orank (child_place n' (Suc j) at) (eright e) < rank at n"
    using rank_child [OF assms, of "Suc j" n'] by (simp add: child_def)
  then show "orank (child_place n' 0 at) (eright e) < rank at n"
    using orank_child_place [of n' "Suc j" at "eright e" n' 0] by simp
qed

termination walk_node
proof (relation "measures [
    \<lambda>x. (case x of Inl (E, f, at, n, refs, s) \<Rightarrow> rank at n
         | Inr (Inl (E, f, at, m, refs, s)) \<Rightarrow> orank at m
         | Inr (Inr (E, f, at, n, i, es, refs, s)) \<Rightarrow> entries_rank at n es),
    \<lambda>x. (case x of Inl _ \<Rightarrow> 0 | Inr (Inl _) \<Rightarrow> 1 | Inr (Inr (E, f, at, n, i, es, refs, s)) \<Rightarrow> 2 + length es)]", goal_cases)
  case (2 E f at n refs s x y u n' refs')
  then have "load_node E at n refs = (Inr None, n', refs')" using ensure_loaded_ok by metis
  from rank_child [OF this, of 0 n'] show ?case by (simp add: child_def)
next
  case (3 E f at n refs s x y u n' refs' x' y' r l x'' y'' v)
  then have "load_node E at n refs = (Inr None, n', refs')" using ensure_loaded_ok by metis
  from entries_rank_loaded [OF this] show ?case by simp
next
  case (4 E f at c refs s)
  then show ?case by (simp add: orank_def)
next
  case (5 E f at n i e es refs s)
  then show ?case using orank_child_place [of n "i + 1" at "eright e" n 0] by (auto simp: max_def)
next
  case (6 E f at n i e es refs s)
  then show ?case by (simp add: max_def)
qed simp

declare walk_node.simps [simp del] walk_entries.simps(2) [simp del]

section \<open>What a walk visits\<close>

text \<open>Calling \<open>f\<close> for each pair in turn until it fails.\<close>

fun feed :: "'s walker \<Rightarrow> (str \<times> cid) list \<Rightarrow> 's \<Rightarrow> (mst_error + unit) \<times> 's" where
  "feed f [] s = (Inr (), s)"
| "feed f ((k, v) # ps) s = (case f k v s of (Inl e, s) \<Rightarrow> (Inl e, s) | (Inr _, s) \<Rightarrow> feed f ps s)"

lemma feed_append:
  "feed f (ps @ qs) s = (case feed f ps s of (Inl e, s) \<Rightarrow> (Inl e, s) | (Inr _, s) \<Rightarrow> feed f qs s)"
  by (induction f ps s rule: feed.induct) (auto split: prod.splits sum.splits)

definition walks :: "'s walker \<Rightarrow> (str \<times> cid) list \<Rightarrow> 's \<Rightarrow> mst_error + unit \<Rightarrow> 's \<Rightarrow> bool" where
  "walks f ps s r s' \<longleftrightarrow> r = Inr () \<longrightarrow> feed f ps s = (Inr (), s')"

lemma walks_append:
  "walks f ps s (Inr ()) s1 \<Longrightarrow> walks f qs s1 r s' \<Longrightarrow> walks f (ps @ qs) s r s'"
  by (simp add: walks_def feed_append)

lemma inorder_walked:
  "nloaded n \<Longrightarrow> oinorder \<sigma> l = oinorder \<sigma> (nleft n) \<Longrightarrow> centries \<sigma> es = centries \<sigma> (nentries n) \<Longrightarrow>
   inorder \<sigma> (set_entries (set_child n 0 l) es) = inorder \<sigma> n"
  by (cases n) simp

lemma walk_contents:
  assumes "models E \<sigma>"
  shows "walk_node E f at n refs s = (r, n', refs', s') \<Longrightarrow>
      inorder \<sigma> n' = inorder \<sigma> n \<and> walks f (inorder \<sigma> n) s r s'"
    and "walk_child E f at m refs s = (r, m', refs', s') \<Longrightarrow>
      oinorder \<sigma> m' = oinorder \<sigma> m \<and> walks f (oinorder \<sigma> m) s r s'"
    and "walk_entries E f at n i es refs s = (r, es', refs', s') \<Longrightarrow>
      centries \<sigma> es' = centries \<sigma> es \<and> walks f (centries \<sigma> es) s r s'"
  using assms
proof (induction E f at n refs s and E f at m refs s and E f at n i es refs s
    arbitrary: r n' refs' s' and r m' refs' s' and r es' refs' s' rule: walk_node_walk_child_walk_entries.induct)
  case (1 E f at n refs s)
  obtain r1 n1 refs1 where e: "ensure_loaded E at n refs = (r1, n1, refs1)" by (metis prod_cases3)
  have n1: "inorder \<sigma> n1 = inorder \<sigma> n" by (rule ensure_loaded_contents [OF e "1.prems"(2)])
  show ?case
  proof (cases r1)
    case (Inl er)
    then show ?thesis using "1.prems"(1) e n1 by (auto simp: walk_node.simps [of E f at n] walks_def)
  next
    case (Inr u)
    have ld: "nloaded n1" using ensure_loaded_loaded e Inr by blast
    obtain r2 l refs2 s2 where c: "walk_child E f (child_place n1 0 at) (nleft n1) refs1 s = (r2, l, refs2, s2)"
      by (metis prod_cases4)
    have l: "oinorder \<sigma> l = oinorder \<sigma> (nleft n1) \<and> walks f (oinorder \<sigma> (nleft n1)) s r2 s2"
      by (rule "1.IH"(1) [OF e [symmetric] Inr refl c "1.prems"(2)])
    show ?thesis
    proof (cases r2)
      case Inl2: (Inl er)
      then have "r = Inl er" "n' = set_child n1 0 l" using "1.prems"(1) e Inr c by (auto simp: walk_node.simps [of E f at n])
      then show ?thesis using n1 l ld inorder_set_child_same [of n1 0 \<sigma> l] by (simp add: walks_def)
    next
      case Inr2: (Inr v)
      obtain r3 es refs3 s3 where w: "walk_entries E f at n1 0 (nentries n1) refs2 s2 = (r3, es, refs3, s3)"
        by (metis prod_cases4)
      have es: "centries \<sigma> es = centries \<sigma> (nentries n1) \<and> walks f (centries \<sigma> (nentries n1)) s2 r3 s3"
        by (rule "1.IH"(2) [OF e [symmetric] Inr refl c [symmetric] Inr2 refl refl w "1.prems"(2)])
      have "r = r3" "n' = set_entries (set_child n1 0 l) es" "s' = s3"
        using "1.prems"(1) e Inr c Inr2 w by (auto simp: walk_node.simps [of E f at n])
      moreover have "walks f (inorder \<sigma> n1) s r3 s3"
        unfolding inorder_loaded [OF ld] using l es Inr2 by (intro walks_append) auto
      ultimately show ?thesis using inorder_walked [OF ld] l es n1 by simp
    qed
  qed
next
  case (3 E f at c refs s)
  obtain r1 c1 refs1 s1 where w: "walk_node E f at c refs s = (r1, c1, refs1, s1)" by (metis prod_cases4)
  from "3.IH" [OF w "3.prems"(2)] "3.prems"(1) w show ?case by auto
next
  case (5 E f at n i e es refs s)
  obtain r1 s1 where fe: "f (ekey e) (evalue e) s = (r1, s1)" by fastforce
  show ?case
  proof (cases r1)
    case (Inl er)
    then show ?thesis using "5.prems"(1) fe by (auto simp: walk_entries.simps(2) [of E f at n i e] walks_def)
  next
    case (Inr u)
    obtain r2 c refs2 s2 where c: "walk_child E f (child_place n (i + 1) at) (eright e) refs s1 = (r2, c, refs2, s2)"
      by (metis prod_cases4)
    have ch: "oinorder \<sigma> c = oinorder \<sigma> (eright e) \<and> walks f (oinorder \<sigma> (eright e)) s1 r2 s2"
      by (rule "5.IH"(1) [OF fe [symmetric] Inr c "5.prems"(2)])
    show ?thesis
    proof (cases r2)
      case Inl2: (Inl er)
      then have "r = Inl er" "es' = set_right e c # es"
        using "5.prems"(1) fe Inr c by (auto simp: walk_entries.simps(2) [of E f at n i e])
      then show ?thesis using ch by (simp add: walks_def einorder_sel [of \<sigma> e])
    next
      case Inr2: (Inr v)
      obtain r3 es3 refs3 s3 where w: "walk_entries E f at n (i + 1) es refs2 s2 = (r3, es3, refs3, s3)"
        by (metis prod_cases4)
      have es3: "centries \<sigma> es3 = centries \<sigma> es \<and> walks f (centries \<sigma> es) s2 r3 s3"
        by (rule "5.IH"(2) [OF fe [symmetric] Inr c [symmetric] Inr2 refl refl w "5.prems"(2)])
      have "r = r3" "es' = set_right e c # es3" "s' = s3"
        using "5.prems"(1) fe Inr c Inr2 w by (auto simp: walk_entries.simps(2) [of E f at n i e])
      moreover have "walks f (einorder \<sigma> e @ centries \<sigma> es) s r3 s3"
        using ch es3 fe Inr Inr2 by (intro walks_append [of f "einorder \<sigma> e" s s2]) (auto simp: einorder_sel [of \<sigma> e] walks_def)
      ultimately show ?thesis using ch es3 by (simp add: einorder_sel [of \<sigma> e])
    qed
  qed
qed (auto simp: walks_def)

text \<open>A walk is a sequence of loads.\<close>

lemma set_child_entries:
  assumes "nentries m = pre @ e # es"
  shows "set_child m (Suc (length pre)) c = set_entries m (pre @ set_right e c # es)"
    and "child m (Suc (length pre)) = eright e"
  using assms by (cases m; simp add: child_def)+

lemma walk_loads:
  shows "walk_node E f at n refs s = (r, n', refs', s') \<Longrightarrow> loads E n refs n' refs'"
    and "walk_child E f at q refs s = (r, q', refs', s') \<Longrightarrow>
      (q = None \<and> q' = None \<and> refs' = refs) \<or> (\<exists>c c'. q = Some c \<and> q' = Some c' \<and> loads E c refs c' refs')"
    and "walk_entries E f at n i es refs s = (r, es', refs', s') \<Longrightarrow> nloaded m \<Longrightarrow> nentries m = pre @ es \<Longrightarrow>
      loads E m refs (set_entries m (pre @ es')) refs'"
proof (induction E f at n refs s and E f at q refs s and E f at n i es refs s
    arbitrary: r n' refs' s' and r q' refs' s' and r es' refs' s' m pre rule: walk_node_walk_child_walk_entries.induct)
  case (1 E f at n refs s)
  obtain r1 n1 refs1 where e: "ensure_loaded E at n refs = (r1, n1, refs1)" by (metis prod_cases3)
  note start = loads_ensure [OF e]
  show ?case
  proof (cases r1)
    case (Inl er)
    then show ?thesis using "1.prems" e start by (auto simp: walk_node.simps [of E f at n])
  next
    case (Inr u)
    have ld: "nloaded n1" using ensure_loaded_loaded e Inr by blast
    obtain r2 l refs2 s2 where c: "walk_child E f (child_place n1 0 at) (nleft n1) refs1 s = (r2, l, refs2, s2)"
      by (metis prod_cases4)
    let ?m = "set_child n1 0 l"
    have m: "loads E n1 refs1 ?m refs2"
      using "1.IH"(1) [OF e [symmetric] Inr refl c] set_child_id [of 0 n1] loads_child [OF ld, of 0]
      by (auto simp: child_def intro: loads_refl)
    show ?thesis
    proof (cases r2)
      case Inl2: (Inl er)
      then have "n' = ?m" "refs' = refs2" using "1.prems" e Inr c by (auto simp: walk_node.simps [of E f at n])
      then show ?thesis using loads_trans [OF start m] by simp
    next
      case Inr2: (Inr v)
      obtain r3 es refs3 s3 where w: "walk_entries E f at n1 0 (nentries n1) refs2 s2 = (r3, es, refs3, s3)"
        by (metis prod_cases4)
      have "loads E ?m refs2 (set_entries ?m ([] @ es)) refs3"
        by (rule "1.IH"(2) [OF e [symmetric] Inr refl c [symmetric] Inr2 refl refl w]) (use ld in simp_all)
      moreover have "n' = set_entries ?m es" "refs' = refs3"
        using "1.prems" e Inr c Inr2 w by (auto simp: walk_node.simps [of E f at n])
      ultimately show ?thesis using loads_trans [OF loads_trans [OF start m]] by simp
    qed
  qed
next
  case (3 E f at c refs s)
  obtain r1 c1 refs1 s1 where w: "walk_node E f at c refs s = (r1, c1, refs1, s1)" by (metis prod_cases4)
  from "3.IH" [OF w] "3.prems" w show ?case by auto
next
  case (4 E f at n i refs s)
  then show ?case by (cases m) (auto intro: loads_refl)
next
  case (5 E f at n i e es refs s)
  obtain r1 s1 where fe: "f (ekey e) (evalue e) s = (r1, s1)" by fastforce
  have same: "set_entries m (pre @ e # es) = m" using "5.prems"(3) by (cases m) simp
  show ?case
  proof (cases r1)
    case (Inl er)
    then show ?thesis using "5.prems"(1) fe same by (auto simp: walk_entries.simps(2) [of E f at n i e] intro: loads_refl)
  next
    case (Inr u)
    obtain r2 c refs2 s2 where c: "walk_child E f (child_place n (i + 1) at) (eright e) refs s1 = (r2, c, refs2, s2)"
      by (metis prod_cases4)
    let ?m = "set_entries m (pre @ set_right e c # es)"
    have "loads E m refs ?m refs2"
      using "5.IH"(1) [OF fe [symmetric] Inr c]
    proof
      assume "eright e = None \<and> c = None \<and> refs2 = refs"
      then show ?thesis using same set_right_same [of e] by (auto intro: loads_refl)
    next
      assume "\<exists>d d'. eright e = Some d \<and> c = Some d' \<and> loads E d refs d' refs2"
      then show ?thesis
        using loads_child [OF "5.prems"(2), of "Suc (length pre)"] set_child_entries [OF "5.prems"(3)] "5.prems"(3) by auto
    qed
    note m = this
    show ?thesis
    proof (cases r2)
      case Inl2: (Inl er)
      then show ?thesis
        using "5.prems"(1) fe Inr c m by (auto simp: walk_entries.simps(2) [of E f at n i e])
    next
      case Inr2: (Inr v)
      obtain r3 es3 refs3 s3 where w: "walk_entries E f at n (i + 1) es refs2 s2 = (r3, es3, refs3, s3)"
        by (metis prod_cases4)
      have "loads E ?m refs2 (set_entries ?m ((pre @ [set_right e c]) @ es3)) refs3"
        by (rule "5.IH"(2) [OF fe [symmetric] Inr c [symmetric] Inr2 refl refl w]) (use "5.prems"(2) in simp_all)
      moreover have "set_entries ?m xs = set_entries m xs" for xs by (cases m) simp
      moreover have "es' = set_right e c # es3" "refs' = refs3"
        using "5.prems"(1) fe Inr c Inr2 w by (auto simp: walk_entries.simps(2) [of E f at n i e])
      ultimately show ?thesis using loads_trans [OF m] by simp
    qed
  qed
qed auto

section \<open>Walking and listing a tree\<close>

definition tree_walk :: "env \<Rightarrow> 's walker \<Rightarrow> tree \<Rightarrow> 's \<Rightarrow> (mst_error + unit) \<times> tree \<times> 's" where
  "tree_walk E f t s =
     (case check_usable t of
        Inl e \<Rightarrow> (Inl e, t, s)
      | Inr _ \<Rightarrow>
          (case t_root t of
             None \<Rightarrow> (Inr (), t, s)
           | Some root \<Rightarrow>
               (case walk_node E f ROOT root (t_refs t) s of
                  (r, root, refs, s) \<Rightarrow> (r, t\<lparr>t_root := Some root, t_refs := refs\<rparr>, s))))"

definition push_pair :: "(str \<times> cid) list walker" where
  "push_pair k v ps = (Inr (), ps @ [(k, v)])"

definition tree_entries :: "env \<Rightarrow> tree \<Rightarrow> (mst_error + (str \<times> cid) list) \<times> tree" where
  "tree_entries E t =
     (case tree_walk E push_pair t [] of (r, t, ps) \<Rightarrow> (and_then r (\<lambda>_. Inr ps), t))"

lemma feed_push_pair: "feed push_pair ps qs = (Inr (), qs @ ps)"
  by (induction ps arbitrary: qs) (auto simp: push_pair_def)

lemma tree_walk_spec:
  assumes "tree_walk E f t s = (r, t', s')" "usable \<sigma> t" "models E \<sigma>"
  shows "usable \<sigma> t' \<and> contents \<sigma> t' = contents \<sigma> t \<and> walks f (contents \<sigma> t) s r s'"
proof (cases "t_root t")
  case None
  then show ?thesis using assms by (auto simp: tree_walk_def check_usable_def usable_def contents_def walks_def)
next
  case (Some n)
  obtain r1 n1 refs1 s1 where w: "walk_node E f ROOT n (t_refs t) s = (r1, n1, refs1, s1)" by (metis prod_cases4)
  from walk_contents(1) [OF assms(3) w] show ?thesis
    using assms(1,2) Some w by (auto simp: tree_walk_def check_usable_def usable_def contents_def)
qed

lemma tree_entries_spec:
  assumes "tree_entries E t = (r, t')" "usable \<sigma> t" "models E \<sigma>"
  shows "usable \<sigma> t' \<and> contents \<sigma> t' = contents \<sigma> t \<and> (\<forall>ps. r = Inr ps \<longrightarrow> ps = contents \<sigma> t)"
proof -
  obtain r1 t1 ps where w: "tree_walk E push_pair t [] = (r1, t1, ps)" by (metis prod_cases3)
  from tree_walk_spec [OF w assms(2,3)] assms(1) w show ?thesis
    by (auto simp: tree_entries_def walks_def feed_push_pair)
qed

section \<open>Comparing two trees\<close>

record diff =
  d_added :: "(str \<times> cid) list"
  d_updated :: "(str \<times> cid \<times> cid) list"
  d_removed :: "(str \<times> cid) list"

text \<open>The merge loop; the lists are the entries from \<open>li\<close> and \<open>ri\<close> on.\<close>

fun diff_loop :: "(str \<times> cid) list \<Rightarrow> (str \<times> cid) list \<Rightarrow> diff \<Rightarrow> diff" where
  "diff_loop ((lk, lv) # ls) ((rk, rv) # rs) d =
     (case cmp lk rk of
        Equal \<Rightarrow> diff_loop ls rs (if lv \<noteq> rv then d\<lparr>d_updated := d_updated d @ [(lk, lv, rv)]\<rparr> else d)
      | Less \<Rightarrow> diff_loop ls ((rk, rv) # rs) (d\<lparr>d_removed := d_removed d @ [(lk, lv)]\<rparr>)
      | Greater \<Rightarrow> diff_loop ((lk, lv) # ls) rs (d\<lparr>d_added := d_added d @ [(rk, rv)]\<rparr>))"
| "diff_loop ((lk, lv) # ls) [] d = diff_loop ls [] (d\<lparr>d_removed := d_removed d @ [(lk, lv)]\<rparr>)"
| "diff_loop [] ((rk, rv) # rs) d = diff_loop [] rs (d\<lparr>d_added := d_added d @ [(rk, rv)]\<rparr>)"
| "diff_loop [] [] d = d"

definition diff_entries :: "(str \<times> cid) list \<Rightarrow> (str \<times> cid) list \<Rightarrow> diff" where
  "diff_entries ls rs = diff_loop ls rs \<lparr>d_added = [], d_updated = [], d_removed = []\<rparr>"

definition diff_trees :: "env \<Rightarrow> tree \<Rightarrow> env \<Rightarrow> tree \<Rightarrow> (mst_error + diff) \<times> tree \<times> tree" where
  "diff_trees E1 left E2 right =
     (case tree_entries E1 left of
        (Inl e, left) \<Rightarrow> (Inl e, left, right)
      | (Inr left_entries, left) \<Rightarrow>
          (case tree_entries E2 right of
             (Inl e, right) \<Rightarrow> (Inl e, left, right)
           | (Inr right_entries, right) \<Rightarrow> (Inr (diff_entries left_entries right_entries), left, right)))"

text \<open>The pairs of one list whose keys the other lacks, and the keys both hold with other values.\<close>

definition only_in :: "('k \<times> 'v) list \<Rightarrow> ('k \<times> 'v) list \<Rightarrow> ('k \<times> 'v) list" where
  "only_in ps qs = filter (\<lambda>p. fst p \<notin> fst ` set qs) ps"

definition changed :: "('k \<times> 'v) list \<Rightarrow> ('k \<times> 'v) list \<Rightarrow> ('k \<times> 'v \<times> 'v) list" where
  "changed ps qs = concat (map (\<lambda>(k, v). case map_of qs k of
     None \<Rightarrow> [] | Some w \<Rightarrow> if v \<noteq> w then [(k, v, w)] else []) ps)"

lemma only_in_simps:
  "only_in [] qs = []" "only_in ps [] = ps"
  "only_in (p # ps) qs = (if fst p \<in> fst ` set qs then only_in ps qs else p # only_in ps qs)"
  "fst q \<notin> fst ` set ps \<Longrightarrow> only_in ps (q # qs) = only_in ps qs"
  unfolding only_in_def by (simp, simp, simp, rule filter_cong) (auto simp: image_iff)

lemma changed_simps:
  "changed [] qs = []" "changed ps [] = []"
  "changed ((k, v) # ps) qs = (case map_of qs k of None \<Rightarrow> [] | Some w \<Rightarrow> if v \<noteq> w then [(k, v, w)] else []) @ changed ps qs"
  "fst q \<notin> fst ` set ps \<Longrightarrow> changed ps (q # qs) = changed ps qs"
proof -
  assume q: "fst q \<notin> fst ` set ps"
  have "map_of (q # qs) (fst p) = map_of qs (fst p)" if "p \<in> set ps" for p
    using q that by (cases q) (auto simp: image_iff)
  then show "changed ps (q # qs) = changed ps qs"
    unfolding changed_def by (intro arg_cong [where f = concat] map_cong) (auto simp: case_prod_beta)
qed (induction ps, simp_all add: changed_def)

lemma keys_gt_notin': "keys_gt ps k \<Longrightarrow> k \<notin> fst ` set ps"
  by auto

lemma diff_loop_sorted:
  assumes "ksorted ls" "ksorted rs"
  shows "diff_loop ls rs d = \<lparr>d_added = d_added d @ only_in rs ls, d_updated = d_updated d @ changed ls rs,
    d_removed = d_removed d @ only_in ls rs\<rparr>"
  using assms
proof (induction ls rs d rule: diff_loop.induct)
  case (1 lk lv ls rk rv rs d)
  have gt: "keys_gt ls lk" "keys_gt rs rk" using "1.prems" by auto
  have nin: "lk \<notin> fst ` set ls" "rk \<notin> fst ` set rs" using gt keys_gt_notin' by blast+
  show ?case
  proof (cases lk rk rule: linorder_cases)
    case less
    then have nr: "lk \<notin> fst ` set ((rk, rv) # rs)" using gt(2) by (intro keys_gt_notin') auto
    then have "map_of ((rk, rv) # rs) lk = None" by (simp only: map_of_eq_None_iff not_False_eq_True)
    then have split: "only_in ((rk, rv) # rs) ((lk, lv) # ls) = only_in ((rk, rv) # rs) ls"
      "changed ((lk, lv) # ls) ((rk, rv) # rs) = changed ls ((rk, rv) # rs)"
      "only_in ((lk, lv) # ls) ((rk, rv) # rs) = (lk, lv) # only_in ls ((rk, rv) # rs)"
      using nr only_in_simps(4) [of "(lk, lv)" "(rk, rv) # rs" ls] only_in_simps(3) [of "(lk, lv)" ls "(rk, rv) # rs"]
      by (simp_all only: fst_conv if_False changed_simps(3) option.case append.simps not_False_eq_True)
    show ?thesis unfolding split using less "1.IH"(1) "1.prems" by (simp add: cmp_def)
  next
    case equal
    with nin "1.IH"(2) "1.prems" show ?thesis
      by (cases "lv = rv") (simp_all add: cmp_def only_in_simps changed_simps)
  next
    case greater
    then have nr: "rk \<notin> fst ` set ((lk, lv) # ls)" using gt(1) by (intro keys_gt_notin') auto
    then have split: "only_in ((rk, rv) # rs) ((lk, lv) # ls) = (rk, rv) # only_in rs ((lk, lv) # ls)"
      "changed ((lk, lv) # ls) ((rk, rv) # rs) = changed ((lk, lv) # ls) rs"
      "only_in ((lk, lv) # ls) ((rk, rv) # rs) = only_in ((lk, lv) # ls) rs"
      using only_in_simps(3) [of "(rk, rv)" rs "(lk, lv) # ls"] only_in_simps(4) [of "(rk, rv)" "(lk, lv) # ls" rs]
        changed_simps(4) [of "(rk, rv)" "(lk, lv) # ls" rs] by (simp_all only: fst_conv if_False not_False_eq_True)
    show ?thesis unfolding split using greater "1.IH"(3) "1.prems" by (simp add: cmp_def)
  qed
qed (simp_all add: only_in_simps changed_simps)

lemma ksorted_distinct: "ksorted ps \<Longrightarrow> distinct (map fst ps)"
  by (induction ps) auto

lemma only_in_set:
  assumes "ksorted ps"
  shows "(k, v) \<in> set (only_in ps qs) \<longleftrightarrow> map_of ps k = Some v \<and> map_of qs k = None"
  using map_of_eq_Some_iff [OF ksorted_distinct [OF assms]] by (auto simp: only_in_def map_of_eq_None_iff)

lemma changed_set:
  assumes "ksorted ps"
  shows "(k, v, w) \<in> set (changed ps qs) \<longleftrightarrow> map_of ps k = Some v \<and> map_of qs k = Some w \<and> v \<noteq> w"
  using map_of_eq_Some_iff [OF ksorted_distinct [OF assms]] by (auto simp: changed_def split: option.splits if_splits)

lemma ksorted_only_in: "ksorted ps \<Longrightarrow> ksorted (only_in ps qs)"
  by (induction ps) (auto simp: only_in_def)

lemma ksorted_changed: "ksorted ps \<Longrightarrow> ksorted (changed ps qs)"
proof (induction ps)
  case (Cons p ps)
  have "(k, v, w) \<in> set (changed ps qs) \<Longrightarrow> (k, v) \<in> set ps" for k v w
    by (auto simp: changed_def split: option.splits if_splits)
  with Cons show ?case by (cases p) (fastforce simp: changed_simps(3) split: option.splits)
qed (simp add: changed_simps)

end
