(* ===== verification/Mst_Account.thy ===== *)
theory Mst_Account
  imports Mst_Walk
begin

text \<open>
  Book-keeping of the tree: which nodes carry a CID. Every mutation moves the CIDs its nodes give
  up into \<open>released\<close> and invents none, so the number of nodes that carry a CID, plus how often it
  was released since the last flush, is the count \<open>refs\<close> keeps. From this \<open>settle\<close> cannot fail
  and \<open>flush\<close> reports exactly what changed. The same inductions show that a mutation keeps any
  property of nodes that every changed (CID-less, loaded) node has.
\<close>

section \<open>Counting and properties of all nodes\<close>

definition own :: "cid \<Rightarrow> node \<Rightarrow> nat" where
  "own x n = (if ncid n = Some x then 1 else 0)"

fun ncount :: "cid \<Rightarrow> node \<Rightarrow> nat" and ocount :: "cid \<Rightarrow> node option \<Rightarrow> nat" and ecount :: "cid \<Rightarrow> entry \<Rightarrow> nat" where
  "ncount x (Node l es c h ld) = (if c = Some x then 1 else 0) + ocount x l + sum_list (map (ecount x) es)"
| "ocount x None = 0"
| "ocount x (Some n) = ncount x n"
| "ecount x (Entry k v r) = ocount x r"

fun all_nodes :: "(node \<Rightarrow> bool) \<Rightarrow> node \<Rightarrow> bool"
  and all_opt :: "(node \<Rightarrow> bool) \<Rightarrow> node option \<Rightarrow> bool"
  and all_entry :: "(node \<Rightarrow> bool) \<Rightarrow> entry \<Rightarrow> bool"
where
  "all_nodes Q (Node l es c h ld) \<longleftrightarrow> Q (Node l es c h ld) \<and> all_opt Q l \<and> (\<forall>e \<in> set es. all_entry Q e)"
| "all_opt Q None \<longleftrightarrow> True"
| "all_opt Q (Some n) \<longleftrightarrow> all_nodes Q n"
| "all_entry Q (Entry k v r) \<longleftrightarrow> all_opt Q r"

definition parts :: "(node \<Rightarrow> bool) \<Rightarrow> node \<Rightarrow> bool" where
  "parts Q n \<longleftrightarrow> all_opt Q (nleft n) \<and> (\<forall>e \<in> set (nentries n). all_entry Q e)"

text \<open>A property a loaded node without a CID always has.\<close>

definition clean :: "(node \<Rightarrow> bool) \<Rightarrow> bool" where
  "clean Q \<longleftrightarrow> (\<forall>n. nloaded n \<longrightarrow> ncid n = None \<longrightarrow> Q n)"

abbreviation released_count :: "cid list \<Rightarrow> cid \<Rightarrow> nat" where
  "released_count \<equiv> count_list"

lemma ncount_sel: "ncount x n = own x n + ocount x (nleft n) + sum_list (map (ecount x) (nentries n))"
  by (cases n) (simp add: own_def)

lemma ecount_sel: "ecount x e = ocount x (eright e)"
  by (cases e) simp

lemma all_nodes_sel: "all_nodes Q n \<longleftrightarrow> Q n \<and> parts Q n"
  by (cases n) (simp add: parts_def)

lemma all_entry_sel: "all_entry Q e \<longleftrightarrow> all_opt Q (eright e)"
  by (cases e) simp

lemma changed_node: "clean Q \<Longrightarrow> nloaded n \<Longrightarrow> ncid n = None \<Longrightarrow> parts Q n \<Longrightarrow> all_nodes Q n"
  by (simp add: all_nodes_sel clean_def)

lemma parts_child: "parts Q n \<Longrightarrow> i \<le> length (nentries n) \<Longrightarrow> all_opt Q (child n i)"
  by (auto simp: parts_def child_def all_entry_sel)

lemma parts_set_child:
  assumes "parts Q n" "i \<le> length (nentries n)" "all_opt Q c"
  shows "parts Q (set_child n i c)"
proof (cases i)
  case (Suc j)
  have "all_entry Q (set_right (nentries n ! j) c)" using assms(3) by (simp add: all_entry_sel)
  then show ?thesis
    using assms(1) Suc set_update_subset_insert [of "nentries n" j "set_right (nentries n ! j) c"]
    by (auto simp: parts_def)
qed (use assms in \<open>simp add: parts_def\<close>)

lemma parts_simps [simp]:
  "parts Q (fst (touch n r)) = parts Q n"
  "parts Q (fresh h l es) \<longleftrightarrow> all_opt Q l \<and> (\<forall>e \<in> set es. all_entry Q e)"
  by (simp_all add: parts_def)

lemma parts_set_entries: "parts Q n \<Longrightarrow> \<forall>e \<in> set es. all_entry Q e \<Longrightarrow> parts Q (set_entries n es)"
  by (simp add: parts_def)

lemma all_opt_trim: "all_nodes Q n \<Longrightarrow> all_opt Q (trim_node n)"
  by (simp add: trim_node_def)

lemma all_opt_filler:
  assumes "clean Q" "all_opt Q c"
  shows "all_opt Q (trim_node_opt (map_option (\<lambda>c. fresh h (Some c) []) c))"
  using assms by (cases c) (auto simp: trim_node_opt_def intro!: all_opt_trim changed_node)

lemma own_simps [simp]:
  "own x (set_child n i c) = own x n" "own x (set_entries n es) = own x n" "own x (fresh h l es) = 0"
  "own x (fst (touch n r)) = 0"
  by (simp_all add: own_def)

lemma released_count_cid [simp]: "released_count (cid_list (ncid n)) x = own x n"
  by (cases "ncid n") (simp_all add: own_def)

lemma child_touch [simp]: "child (fst (touch n r)) i = child n i"
  by (simp only: child_def touch_sel)

lemma ncount_set_entries [simp]:
  "ncount x (set_entries n es) = own x n + ocount x (nleft n) + sum_list (map (ecount x) es)"
  by (cases n) (simp add: own_def)

lemma ncount_touch: "ncount x (fst (touch n r)) + own x n = ncount x n"
  by (simp add: ncount_sel [of x n] ncount_sel [of x "fst (touch n r)"])

lemma ncount_fresh [simp]: "ncount x (fresh h l es) = ocount x l + sum_list (map (ecount x) es)"
  by (simp add: ncount_sel [of x "fresh h l es"])

lemma ncount_set_child:
  assumes "i \<le> length (nentries n)"
  shows "ncount x (set_child n i c) + ocount x (child n i) = ncount x n + ocount x c"
proof (cases i)
  case 0
  then show ?thesis by (simp add: ncount_sel [of x n] ncount_sel [of x "set_child n 0 c"])
next
  case (Suc j)
  let ?es = "nentries n" and ?e = "set_right (nentries n ! j) c"
  have j: "j < length ?es" using assms Suc by simp
  have "sum_list (map (ecount x) (?es[j := ?e])) + ecount x (?es ! j) = sum_list (map (ecount x) ?es) + ecount x ?e"
    using j elem_le_sum_list [of j "map (ecount x) ?es"] by (simp add: map_update sum_list_update)
  then show ?thesis
    using Suc by (simp add: ncount_sel [of x n] ncount_sel [of x "set_child n (Suc j) c"] ecount_sel)
qed

lemma ocount_trim [simp]: "ncid n = None \<Longrightarrow> ocount x (trim_node n) = ncount x n"
  by (cases n) (auto simp: trim_node_def)

lemma ocount_filler [simp]: "ocount x (trim_node_opt (map_option (\<lambda>c. fresh h (Some c) []) c)) = ocount x c"
  by (cases c) (simp_all add: trim_node_opt_def)

lemma sum_list_split_nth: "i < length xs \<Longrightarrow> sum_list (map f (take i xs)) + sum_list (map f (drop i xs)) = sum_list (map f xs)"
  for f :: "'a \<Rightarrow> nat"
  by (metis append_take_drop_id map_append sum_list_append)

section \<open>Splitting\<close>

lemma split_node_account:
  assumes "split_node n key released = Inr ((l, r), released')"
  shows "ocount x l + ocount x r + released_count released' x = ocount x n + released_count released x"
    and "clean Q \<Longrightarrow> all_opt Q n \<Longrightarrow> all_opt Q l \<and> all_opt Q r"
proof -
  have "ocount x l + ocount x r + released_count released' x = ocount x n + released_count released x \<and>
      (clean Q \<longrightarrow> all_opt Q n \<longrightarrow> all_opt Q l \<and> all_opt Q r)"
    using assms
  proof (induction "osize n" arbitrary: n released l r rule: less_induct)
    case less
    show ?case
    proof (cases n)
      case None
      with less.prems show ?thesis by auto
    next
      case (Some m)
      have IH: "ocount x cl + ocount x cr + released_count released' x = ocount x (child m i) + released_count released x + own x m"
        "clean Q \<Longrightarrow> parts Q m \<Longrightarrow> all_opt Q cl \<and> all_opt Q cr"
        if "i \<le> length (nentries m)"
          "split_node (child m i) key (released @ cid_list (ncid m)) = Inr ((cl, cr), released')" for i cl cr
        using less.hyps [OF _ that(2)] child_size [OF that(1)] parts_child [of Q m i] that(1) Some by simp_all
      from less.prems Some have "split_node (Some m) key released = Inr ((l, r), released')" by simp
      then show ?thesis
      proof (cases rule: split_node_cases)
        case (last n' cl cr)
        let ?i = "length (nentries m)"
        have "ncount x (set_child n' ?i cl) + ocount x (child m ?i) + own x m = ncount x m + ocount x cl"
          using ncount_set_child [of ?i n' x cl] ncount_touch [of x m released] last(2) by simp
        with IH(1) [OF order_refl last(4)] last Some have "ocount x l + ocount x r + released_count released' x = ocount x n + released_count released x"
          by simp
        moreover have "all_opt Q l \<and> all_opt Q r" if "clean Q" "parts Q m"
          using last IH(2) [OF order_refl last(4) that] that
          by (auto intro!: all_opt_trim changed_node parts_set_child all_opt_filler)
        ultimately show ?thesis using Some by (simp add: all_nodes_sel)
      next
        case (first n' cl cr)
        have "ncount x (set_child n' 0 cr) + ocount x (child m 0) + own x m = ncount x m + ocount x cr"
          using ncount_set_child [of 0 n' x cr] ncount_touch [of x m released] first(2) by simp
        with IH(1) [OF _ first(4)] first Some have "ocount x l + ocount x r + released_count released' x = ocount x n + released_count released x"
          by simp
        moreover have "all_opt Q l \<and> all_opt Q r" if "clean Q" "parts Q m"
          using first IH(2) [OF _ first(4) that] that
          by (auto intro!: all_opt_trim changed_node parts_set_child all_opt_filler)
        ultimately show ?thesis using Some by (simp add: all_nodes_sel)
      next
        case (mid i cl cr)
        let ?f = "fresh (nheight m) (nleft m) (take i (nentries m))"
        have "ncount x (set_child ?f i cl) + ocount x (child ?f i) = ncount x ?f + ocount x cl"
          using mid by (intro ncount_set_child) simp
        moreover have "child ?f i = child m i" using mid by (simp add: child_def)
        ultimately have "ocount x l + ocount x r + released_count released' x = ocount x n + released_count released x"
          using IH(1) [OF _ mid(5)] mid Some sum_list_split_nth [of i "nentries m" "ecount x"]
          by (simp add: ncount_sel [of x m])
        moreover have "all_opt Q l \<and> all_opt Q r" if "clean Q" "parts Q m"
        proof -
          have "parts Q ?f" "\<forall>e \<in> set (drop i (nentries m)). all_entry Q e"
            using that(2) by (auto simp: parts_def dest: in_set_takeD in_set_dropD)
          then show ?thesis
            using mid IH(2) [OF _ mid(5) that] that(1)
            by (auto intro!: all_opt_trim changed_node parts_set_child)
        qed
        ultimately show ?thesis using Some by (simp add: all_nodes_sel)
      qed
    qed
  qed
  then show "ocount x l + ocount x r + released_count released' x = ocount x n + released_count released x"
    and "clean Q \<Longrightarrow> all_opt Q n \<Longrightarrow> all_opt Q l \<and> all_opt Q r" by simp_all
qed

section \<open>Inserting and updating\<close>

lemma insert_at_level_account:
  assumes "insert_at_level n key val released = Inr (n', released')" "nloaded n"
  shows "ncount x n' + released_count released' x = ncount x n + released_count released x"
    and "clean Q \<Longrightarrow> parts Q n \<Longrightarrow> all_nodes Q n'"
proof -
  let ?i = "find_child_index n key" and ?es = "nentries n"
  have i: "?i \<le> length ?es" by (rule find_child_index_bound)
  have "(ncount x n' + released_count released' x = ncount x n + released_count released x) \<and>
      (clean Q \<longrightarrow> parts Q n \<longrightarrow> all_nodes Q n')"
  proof (cases "?i < length ?es \<and> ekey (?es ! ?i) = key")
    case True
    let ?m = "set_entries n (?es[?i := set_value (?es ! ?i) val])"
    have m: "n' = fst (touch ?m released)" "released' = released @ cid_list (ncid n)"
      using assms True touch_sel(6) [of ?m released] by (auto simp: insert_at_level_def Let_def)
    have "map (ecount x) (?es[?i := set_value (?es ! ?i) val]) = map (ecount x) ?es"
      using True by (simp add: map_update ecount_sel list_update_same_conv)
    then have "ncount x ?m = ncount x n" by (simp add: ncount_sel [of x n])
    moreover have "parts Q ?m" if "parts Q n"
      using that set_update_subset_insert [of ?es ?i "set_value (?es ! ?i) val"] True nth_mem [of ?i ?es]
      by (intro parts_set_entries) (auto simp: parts_def all_entry_sel)
    ultimately show ?thesis
      using m ncount_touch [of x ?m released] assms(2) by (auto intro: changed_node)
  next
    case False
    then obtain l r rel where s: "split_node (child n ?i) key released = Inr ((l, r), rel)"
      using assms(1) by (auto simp: insert_at_level_def Let_def)
    let ?m = "set_child n ?i l"
    let ?k = "set_entries ?m (take ?i (nentries ?m) @ [Entry key val r] @ drop ?i (nentries ?m))"
    have k: "n' = fst (touch ?k rel)" "released' = rel @ cid_list (ncid n)"
      using assms(1) False s touch_sel(6) [of ?k rel] by (auto simp: insert_at_level_def Let_def)
    have "sum_list (map (ecount x) (take ?i (nentries ?m))) + sum_list (map (ecount x) (drop ?i (nentries ?m))) =
        sum_list (map (ecount x) (nentries ?m))"
      by (metis append_take_drop_id map_append sum_list_append)
    then have "ncount x ?k = ncount x ?m + ocount x r"
      by (simp add: ncount_sel [of x ?m] ecount_sel)
    moreover have "parts Q ?k" if "clean Q" "parts Q n"
    proof -
      have "all_opt Q l \<and> all_opt Q r"
        using split_node_account(2) [OF s that(1)] parts_child [OF that(2) i] by simp
      moreover from this have "parts Q ?m" using parts_set_child [OF that(2) i] by blast
      ultimately show ?thesis
        by (intro parts_set_entries) (auto simp: parts_def dest: in_set_takeD in_set_dropD)
    qed
    ultimately show ?thesis
      using k split_node_account(1) [OF s, of x] ncount_set_child [OF i, of x l] ncount_touch [of x ?k rel] assms(2)
      by (auto intro: changed_node)
  qed
  then show "ncount x n' + released_count released' x = ncount x n + released_count released x"
    and "clean Q \<Longrightarrow> parts Q n \<Longrightarrow> all_nodes Q n'" by simp_all
qed

lemma touch_account:
  assumes "i \<le> length (nentries n)" "nloaded n"
    and "ncount x c + released_count rel x = ocount x (child n i) + released_count released x"
    and "clean Q \<Longrightarrow> parts Q n \<Longrightarrow> all_nodes Q c"
  shows "ncount x (fst (touch (set_child n i (Some c)) rel)) + released_count (snd (touch (set_child n i (Some c)) rel)) x =
      ncount x n + released_count released x"
    and "clean Q \<Longrightarrow> parts Q n \<Longrightarrow> all_nodes Q (fst (touch (set_child n i (Some c)) rel))"
  using assms ncount_set_child [OF assms(1), of x "Some c"] ncount_touch [of x "set_child n i (Some c)" rel]
  by (auto intro!: changed_node parts_set_child)

lemma insert_account:
  shows "insert_node m key val height released = Inr (n', released') \<Longrightarrow>
      ncount x n' + released_count released' x = ocount x m + released_count released x \<and>
      (clean Q \<longrightarrow> (case m of None \<Rightarrow> True | Some n \<Rightarrow> parts Q n \<and> (nheight n < height \<longrightarrow> Q n)) \<longrightarrow> all_nodes Q n')"
    and "insert_below n key val height released = Inr (n', released') \<Longrightarrow> nloaded n \<Longrightarrow>
      ncount x n' + released_count released' x = ncount x n + released_count released x \<and>
      (clean Q \<longrightarrow> parts Q n \<longrightarrow> all_nodes Q n')"
proof (induction m key val height released and n key val height released
    arbitrary: n' released' and n' released' rule: insert_node_insert_below.induct)
  case (1 key val height released)
  then show ?case by (auto intro!: changed_node)
next
  case (2 n key val height released)
  have ld: "nloaded n" using "2.prems" by (auto simp: insert_node.simps(2))
  then have rl: "require_loaded n = Inr ()" by simp
  consider "height > nheight n" | "height < nheight n" | "height = nheight n" by linarith
  then show ?case
  proof cases
    case 1
    with "2.prems" rl have "insert_node (Some (fresh (nheight n + 1) (Some n) [])) key val height released = Inr (n', released')"
      by (simp add: insert_node.simps(2))
    from "2.IH"(1) [OF rl 1 this] 1 show ?thesis by (auto simp: all_nodes_sel clean_def)
  next
    case 2
    with "2.prems" rl have "insert_below n key val height released = Inr (n', released')"
      by (simp add: insert_node.simps(2))
    from "2.IH"(2) [OF rl _ 2 this ld] 2 show ?thesis by simp
  next
    case 3
    with "2.prems" rl have "insert_at_level n key val released = Inr (n', released')"
      by (simp add: insert_node.simps(2))
    from insert_at_level_account [OF this ld] show ?thesis by simp
  qed
next
  case (3 n key val height released)
  let ?i = "find_child_index n key"
  have h: "\<not> height \<ge> nheight n" using "3.prems"(1) by (auto simp: insert_below.simps)
  have i: "?i \<le> length (nentries n)" by (rule find_child_index_bound)
  show ?case
  proof (cases "child n ?i = None \<and> nheight n - 1 = height")
    case True
    let ?c = "fresh height None [Entry key val None]"
    have n': "n' = fst (touch (set_child n ?i (Some ?c)) released)" "released' = snd (touch (set_child n ?i (Some ?c)) released)"
      using True "3.prems"(1) h by (simp_all add: insert_below.simps)
    show ?thesis unfolding n' using True "3.prems"(2) i
      by (intro conjI impI touch_account) (auto intro!: changed_node)
  next
    case False
    let ?c = "case child n ?i of Some c \<Rightarrow> c | None \<Rightarrow> fresh (nheight n - 1) None []"
    obtain c rel where c: "insert_node (Some ?c) key val height released = Inr (c, rel)"
      "touch (set_child n ?i (Some c)) rel = (n', released')"
      using False "3.prems"(1) h by (auto simp: insert_below.simps Let_def)
    then have n': "n' = fst (touch (set_child n ?i (Some c)) rel)" "released' = snd (touch (set_child n ?i (Some c)) rel)"
      by (metis fst_conv, metis snd_conv)
    have "ncount x ?c = ocount x (child n ?i)" by (simp split: option.split)
    moreover have "parts Q ?c \<and> Q ?c" if "clean Q" "parts Q n"
      using parts_child [OF that(2) i] that(1) by (auto simp: all_nodes_sel clean_def split: option.splits)
    ultimately show ?thesis
      unfolding n' using "3.IH" [OF h refl False refl c(1)] i "3.prems"(2)
      by (intro conjI impI touch_account) auto
  qed
qed

lemma update_node_account:
  assumes "update_node n key val released = Inr (n', released')"
  shows "ncount x n' + released_count released' x = ncount x n + released_count released x"
    and "clean Q \<Longrightarrow> parts Q n \<Longrightarrow> all_nodes Q n'"
proof -
  have "ncount x n' + released_count released' x = ncount x n + released_count released x \<and>
      (clean Q \<longrightarrow> parts Q n \<longrightarrow> all_nodes Q n')"
    using assms
  proof (induction "nsize n" arbitrary: n released n' released' rule: less_induct)
    case less
    let ?t = "fst (touch n released)" and ?es = "nentries n"
    have ld: "nloaded n" using less.prems by (auto simp: update_node.simps [of n])
    then have rl: "require_loaded n = Inr ()" by simp
    note step = less.prems [unfolded update_node.simps [of n] rl and_then_simps Let_def case_prod_beta]
    show ?case
    proof (cases "search_entries ?es key")
      case (Inr i)
      let ?v = "set_value (?es ! i) val"
      have i: "i < length ?es" by (rule search_entries_le(2) [OF Inr])
      have n': "n' = set_entries ?t (?es[i := ?v])" "released' = released @ cid_list (ncid n)"
        using step Inr by auto
      have "map (ecount x) (?es[i := ?v]) = map (ecount x) ?es"
        using i by (simp add: map_update ecount_sel list_update_same_conv)
      moreover have "parts Q n'" if "parts Q n"
        using that set_update_subset_insert [of ?es i ?v] nth_mem [OF i] unfolding n'
        by (intro parts_set_entries) (auto simp: parts_def all_entry_sel)
      ultimately show ?thesis
        using ld n' by (auto simp: ncount_sel [of x n] intro: changed_node)
    next
      case (Inl i)
      note i = search_entries_le(1) [OF Inl]
      obtain c c' rel where c: "child n i = Some c" "update_node c key val (released @ cid_list (ncid n)) = Inr (c', rel)"
        "n' = set_child ?t i (Some c')" "released' = rel"
        using step Inl by (auto split: option.splits)
      have "nsize c < nsize n" using child_size [OF i] c(1) by simp
      from less.hyps [OF this c(2)] show ?thesis
        using ncount_set_child [of i ?t x "Some c'"] ncount_touch [of x n released] i c(1,3,4) ld parts_child [OF _ i, of Q]
        by (auto simp: all_nodes_sel [of Q c] intro!: changed_node parts_set_child)
    qed
  qed
  then show "ncount x n' + released_count released' x = ncount x n + released_count released x"
    and "clean Q \<Longrightarrow> parts Q n \<Longrightarrow> all_nodes Q n'" by simp_all
qed

section \<open>Removing\<close>

lemma merge_nodes_account:
  assumes "merge_nodes l r released = Inr (m, released')"
  shows "ocount x m + released_count released' x = ocount x l + ocount x r + released_count released x"
    and "clean Q \<Longrightarrow> all_opt Q l \<Longrightarrow> all_opt Q r \<Longrightarrow> all_opt Q m"
proof -
  have "ocount x m + released_count released' x = ocount x l + ocount x r + released_count released x \<and>
      (clean Q \<longrightarrow> all_opt Q l \<longrightarrow> all_opt Q r \<longrightarrow> all_opt Q m)"
    using assms
  proof (induction "osize l + osize r" arbitrary: l r released m released' rule: less_induct)
    case less
    consider "l = None" | "r = None" | a b where "l = Some a" "r = Some b" by (cases l; cases r) auto
    then show ?case
    proof cases
      case 1
      then show ?thesis using less.prems by simp
    next
      case 2
      then show ?thesis using less.prems by (cases l) auto
    next
      case (3 a b)
      let ?j = "length (nentries a)"
      have ld: "nloaded a" "nloaded b" using less.prems 3 by (auto simp: merge_nodes.simps(3))
      obtain d rel where d: "merge_nodes (child a ?j) (nleft b) released = Inr (d, rel)" and
        m: "m = Some (fst (touch (set_entries (set_child a ?j d) (nentries (set_child a ?j d) @ nentries b)) rel))"
        "released' = rel @ cid_list (ncid a) @ cid_list (ncid b)"
        using less.prems 3 by (auto simp: merge_nodes.simps(3) Let_def discard_def case_prod_beta)
      let ?a = "set_child a ?j d"
      let ?k = "set_entries ?a (nentries ?a @ nentries b)"
      have "ocount x d + released_count rel x = ocount x (child a ?j) + ocount x (nleft b) + released_count released x \<and>
          (clean Q \<longrightarrow> all_opt Q (child a ?j) \<longrightarrow> all_opt Q (nleft b) \<longrightarrow> all_opt Q d)"
        by (rule less.hyps [OF _ d]) (use child_size [of ?j a] nleft_size [of b] 3 in simp)
      moreover have "all_nodes Q (fst (touch ?k rel))" if "clean Q" "parts Q a" "parts Q b" "all_opt Q d"
      proof -
        have "parts Q ?a" using that by (intro parts_set_child) simp_all
        then have "parts Q ?k" using that(3) by (intro parts_set_entries) (auto simp: parts_def)
        then show ?thesis using that(1) ld by (intro changed_node) simp_all
      qed
      moreover have "parts Q b \<Longrightarrow> all_opt Q (nleft b)" by (simp add: parts_def)
      ultimately show ?thesis
        using m 3 ncount_set_child [OF order_refl, of x a d] ncount_touch [of x ?k rel] parts_child [of Q a ?j]
        by (auto simp: ncount_sel [of x b] ncount_sel [of x ?a] all_nodes_sel)
    qed
  qed
  then show "ocount x m + released_count released' x = ocount x l + ocount x r + released_count released x"
    and "clean Q \<Longrightarrow> all_opt Q l \<Longrightarrow> all_opt Q r \<Longrightarrow> all_opt Q m" by simp_all
qed

lemma prune_empty_account:
  "ocount x (fst (prune_empty n rel)) + released_count (snd (prune_empty n rel)) x = ncount x n + released_count rel x"
  "all_nodes Q n \<Longrightarrow> all_opt Q (fst (prune_empty n rel))"
  by (auto simp: prune_empty_def discard_def ncount_sel [of x n])

lemma remove_node_account:
  assumes "remove_node n key released = Inr ((n', removed), released')"
  shows "ocount x n' + released_count released' x = ncount x n + released_count released x"
    and "clean Q \<Longrightarrow> parts Q n \<Longrightarrow> removed \<noteq> None \<Longrightarrow> all_opt Q n'"
proof -
  have "ocount x n' + released_count released' x = ncount x n + released_count released x \<and>
      (clean Q \<longrightarrow> parts Q n \<longrightarrow> removed \<noteq> None \<longrightarrow> all_opt Q n')"
    using assms
  proof (induction "nsize n" arbitrary: n released n' removed released' rule: less_induct)
    case less
    have ld: "nloaded n" using less.prems by (auto simp: remove_node.simps [of n])
    then have rl: "require_loaded n = Inr ()" by simp
    define i where "i = scan_entries (nentries n) key"
    have i: "i \<le> length (nentries n)" unfolding i_def by (rule scan_entries_bound)
    note step = less.prems [unfolded remove_node.simps [of n] i_def [symmetric] rl and_then_simps]
    show ?case
    proof (cases "i < length (nentries n) \<and> key = ekey (nentries n ! i)")
      case True
      let ?e = "nentries n ! i" and ?m = "set_entries n (take i (nentries n) @ drop (Suc i) (nentries n))"
      obtain m rel where m: "merge_nodes (child n i) (eright ?e) released = Inr (m, rel)"
        "(n', released') = prune_empty (fst (touch (set_child ?m i m) rel)) (snd (touch (set_child ?m i m) rel))"
        using step True by (auto simp: Let_def case_prod_beta)
      let ?k = "set_child ?m i m"
      have pr: "n' = fst (prune_empty (fst (touch ?k rel)) (snd (touch ?k rel)))"
        "released' = snd (prune_empty (fst (touch ?k rel)) (snd (touch ?k rel)))"
        using m(2) by (metis fst_conv, metis snd_conv)
      have ch: "child ?m i = child n i" using True by (auto simp: child_def nth_append)
      have k: "ncount x ?k + ocount x (child n i) = ncount x ?m + ocount x m"
        unfolding ch [symmetric] using True by (intro ncount_set_child) auto
      have "sum_list (map (ecount x) (nentries n)) = sum_list (map (ecount x) (take i (nentries n) @ drop (Suc i) (nentries n))) + ecount x ?e"
        using True by (subst id_take_nth_drop [of i "nentries n"]) simp_all
      then have "ncount x ?m + ocount x (eright ?e) = ncount x n" by (simp add: ncount_sel [of x n] ecount_sel)
      then have "ocount x n' + released_count released' x = ncount x n + released_count released x"
        unfolding pr using k merge_nodes_account(1) [OF m(1), of x] ncount_touch [of x ?k rel]
          prune_empty_account(1) [of x "fst (touch ?k rel)" "snd (touch ?k rel)"] by simp
      moreover have "all_opt Q n'" if "clean Q" "parts Q n"
      proof -
        have "all_opt Q m"
          using merge_nodes_account(2) [OF m(1) that(1) parts_child [OF that(2) i]] that(2) True
          by (auto simp: parts_def all_entry_sel)
        moreover have "parts Q ?m" using that(2) by (intro parts_set_entries) (auto simp: parts_def dest: in_set_takeD in_set_dropD)
        ultimately have "parts Q ?k" using True by (intro parts_set_child) auto
        then show ?thesis unfolding pr using that(1) ld by (intro prune_empty_account changed_node) simp_all
      qed
      ultimately show ?thesis by blast
    next
      case False
      show ?thesis
      proof (cases "child n i")
        case None
        with step False show ?thesis by auto
      next
        case (Some c)
        obtain c' rel where c: "remove_node c key released = Inr ((c', removed), rel)" and
          p: "(n', released') = prune_empty (set_child (fst (if removed \<noteq> None then touch n rel else (n, rel))) i c')
            (snd (if removed \<noteq> None then touch n rel else (n, rel)))"
          using step False Some by (auto simp: Let_def case_prod_beta)
        let ?t = "if removed \<noteq> None then touch n rel else (n, rel)"
        have pr: "n' = fst (prune_empty (set_child (fst ?t) i c') (snd ?t))" "released' = snd (prune_empty (set_child (fst ?t) i c') (snd ?t))"
          using p by (metis fst_conv, metis snd_conv)
        have IH: "ocount x c' + released_count rel x = ncount x c + released_count released x \<and>
            (clean Q \<longrightarrow> parts Q c \<longrightarrow> removed \<noteq> None \<longrightarrow> all_opt Q c')"
          by (rule less.hyps [OF _ c]) (use child_size [OF i] Some in simp)
        have t: "ncount x (fst ?t) + released_count (snd ?t) x = ncount x n + released_count rel x"
          "child (fst ?t) i = child n i" "length (nentries (fst ?t)) = length (nentries n)"
          using ncount_touch [of x n rel] by simp_all
        have "ocount x n' + released_count released' x = ncount x n + released_count released x"
          unfolding pr using IH t(1) ncount_set_child [of i "fst ?t" x c'] t(2,3) i Some
            prune_empty_account(1) [of x "set_child (fst ?t) i c'" "snd ?t"] by simp
        moreover have "all_opt Q n'" if q: "clean Q" "parts Q n" "removed \<noteq> None"
        proof -
          have "all_opt Q c'" using IH q parts_child [OF q(2) i] Some by (simp add: all_nodes_sel)
          then show ?thesis unfolding pr using q ld i
            by (intro prune_empty_account changed_node) (auto intro!: parts_set_child)
        qed
        ultimately show ?thesis by blast
      qed
    qed
  qed
  then show "ocount x n' + released_count released' x = ncount x n + released_count released x"
    and "clean Q \<Longrightarrow> parts Q n \<Longrightarrow> removed \<noteq> None \<Longrightarrow> all_opt Q n'" by simp_all
qed

lemma trim_top_account:
  "trim_top m released = Inr (m', released') \<Longrightarrow>
   ocount x m' + released_count released' x = ocount x m + released_count released x \<and> (all_opt Q m \<longrightarrow> all_opt Q m')"
proof (induction m released rule: trim_top.induct)
  case (2 l es c h ld released)
  show ?case
  proof (cases "\<not> ld \<and> h = 0 \<or> es \<noteq> []")
    case True
    with "2.prems" show ?thesis by (auto simp: require_loaded_def split: if_splits)
  next
    case False
    then have ld: "ld" "es = []" "require_loaded (Node l es c h ld) = Inr ()"
      "trim_top l (discard (Node l es c h ld) released) = Inr (m', released')"
      using "2.prems" by (auto simp: require_loaded_def split: if_splits)
    have "released_count (discard (Node l es c h ld) released) x = released_count released x + (if c = Some x then 1 else 0)"
      by (cases c) (simp_all add: discard_def)
    with "2.IH" [OF _ ld(3)] ld show ?thesis by auto
  qed
qed auto

lemma remove_from_root_account:
  assumes "remove_from_root n key released = Inr ((n', removed), released')"
  shows "ocount x n' + released_count released' x = ncount x n + released_count released x"
    and "clean Q \<Longrightarrow> parts Q n \<Longrightarrow> removed \<noteq> None \<Longrightarrow> all_opt Q n'"
proof -
  obtain m rel where m: "remove_node n key released = Inr ((m, removed), rel)" "trim_top m rel = Inr (n', released')"
    using assms by (auto simp: remove_from_root_def)
  note a = remove_node_account [OF m(1)] trim_top_account [OF m(2)]
  show "ocount x n' + released_count released' x = ncount x n + released_count released x"
    using a(1) [of x] a(3) [of x] by simp
  show "clean Q \<Longrightarrow> parts Q n \<Longrightarrow> removed \<noteq> None \<Longrightarrow> all_opt Q n'"
    using a(2) [of Q] a(3) [of _ Q] by blast
qed

end
