(* ===== verification/Mst_Flush.thy ===== *)
theory Mst_Flush
  imports Mst_Account
begin

text \<open>
  The counts of a tree stay true through every method, so \<open>flush\<close> never fails on a usable tree,
  writes every changed node, and retires exactly the blocks the tree no longer references.
\<close>

section \<open>True counts\<close>

definition held :: "refs \<Rightarrow> cid \<Rightarrow> nat" where
  "held refs x = (case refs x of None \<Rightarrow> 0 | Some k \<Rightarrow> k)"

definition no_zero :: "refs \<Rightarrow> bool" where
  "no_zero refs \<longleftrightarrow> (\<forall>x. refs x \<noteq> Some 0)"

text \<open>An unloaded node is a stub: it has a CID and nothing below it.\<close>

definition grounded :: "node \<Rightarrow> bool" where
  "grounded n \<longleftrightarrow> nloaded n \<or> (\<exists>c h. n = stub c h)"

lemma clean_grounded [simp]: "clean grounded"
  by (simp add: clean_def grounded_def)

lemma all_stub [simp]: "all_nodes grounded (stub c h)"
  by (simp add: all_nodes_sel parts_def grounded_def) (auto simp: stub_def)

section \<open>Loading keeps the counts\<close>

lemma held_upd [simp]: "held (refs(c \<mapsto> k)) x = (if x = c then k else held refs x)"
  by (simp add: held_def)

lemma link_children_count:
  assumes "link_children cs refs k = (ok, refs', k')" "no_zero refs"
  shows "no_zero refs' \<and> k \<le> k' \<and> k' - k \<le> length cs \<and> (ok \<longrightarrow> k' = k + length cs) \<and>
    held refs' x = held refs x + count_list (take (k' - k) cs) x \<and>
    fold (\<lambda>c r. r(c := None)) (take (k' - k) cs) refs' = refs"
  using assms
proof (induction cs refs k rule: link_children.induct)
  case (2 c cs refs linked)
  show ?case
  proof (cases "refs c")
    case None
    have nz: "no_zero (refs(c \<mapsto> 1))" using "2.prems"(2) by (simp add: no_zero_def)
    have l: "link_children cs (refs(c \<mapsto> 1)) (linked + 1) = (ok, refs', k')" using "2.prems"(1) None by simp
    have IH: "no_zero refs' \<and> linked + 1 \<le> k' \<and> k' - (linked + 1) \<le> length cs \<and> (ok \<longrightarrow> k' = linked + 1 + length cs) \<and>
        held refs' x = held (refs(c \<mapsto> 1)) x + count_list (take (k' - (linked + 1)) cs) x \<and>
        fold (\<lambda>c r. r(c := None)) (take (k' - (linked + 1)) cs) refs' = refs(c \<mapsto> 1)"
      by (rule "2.IH" [OF _ l nz]) (simp add: None)
    then have k: "k' - linked = Suc (k' - (linked + 1))" by linarith
    let ?forget = "fold (\<lambda>c r. r(c := None))" and ?t = "take (k' - (linked + 1)) cs"
    have comm: "?forget xs (r(c := None)) = (?forget xs r)(c := None)" for xs and r :: refs
    proof (induction xs arbitrary: r)
      case (Cons y ys)
      have "r(c := None, y := None) = r(y := None, c := None)" by (cases "c = y") (simp_all add: fun_upd_twist)
      then show ?case using Cons [of "r(y := None)"] by (simp only: fold_simps)
    qed simp
    have "?forget ?t refs' = refs(c \<mapsto> 1)" using IH by (elim conjE)
    then have "?forget (take (k' - linked) (c # cs)) refs' = (refs(c \<mapsto> 1))(c := None)" by (simp add: k comm)
    also have "\<dots> = refs" using None by (simp add: fun_upd_idem)
    finally have undo: "?forget (take (k' - linked) (c # cs)) refs' = refs" .
    have "held refs c = 0" using None by (simp add: held_def)
    moreover have "held refs' x = held (refs(c \<mapsto> 1)) x + count_list ?t x" using IH by (elim conjE)
    ultimately have "held refs' x = held refs x + count_list (take (k' - linked) (c # cs)) x" by (auto simp: k)
    moreover have "no_zero refs'" using IH by (elim conjE)
    moreover have "linked \<le> k'" "k' - linked \<le> length (c # cs)" "ok \<longrightarrow> k' = linked + length (c # cs)"
      using IH by (simp_all add: k)
    ultimately show ?thesis using undo by blast
  next
    case (Some j)
    then have "0 < j" using "2.prems"(2) by (cases j) (auto simp: no_zero_def)
    with Some "2.prems" show ?thesis by auto
  qed
qed auto

lemma ncount_stubs [simp]: "ocount x (map_option (\<lambda>c. stub c h) m) = count_list (cid_list m) x"
  by (cases m) (auto simp: stub_def)

lemma populate_count:
  assumes "populate_node E (stub c h) nd at = Inr n'"
  shows "ncount x n' = own x (stub c h) + count_list (node_links nd) x" and "all_nodes grounded n'"
proof -
  obtain keys where k: "for_each_key None (nd_entries nd) = Inr keys" using assms by (auto simp: populate_node_def)
  have len: "length keys = length (nd_entries nd)" by (rule for_each_key_length [OF k])
  obtain h' where n': "n' = Node (map_option (\<lambda>c. stub c (h' - 1)) (nd_left nd))
      (map (\<lambda>(key, ed). Entry key (ed_value ed) (map_option (\<lambda>c. stub c (h' - 1)) (ed_right ed))) (zip keys (nd_entries nd)))
      (Some c) h' True"
    using assms k by (auto simp: populate_node_def Let_def stub_def split: if_splits)
  have "sum_list (map (ecount x) (map (\<lambda>(key, ed). Entry key (ed_value ed) (map_option (\<lambda>c. stub c (h' - 1)) (ed_right ed))) (zip ks eds))) =
      count_list (concat (map (\<lambda>e. cid_list (ed_right e)) eds)) x" if "length ks = length eds" for ks eds
    using that by (induction ks eds rule: list_induct2) simp_all
  moreover have "own x (stub c h) = (if c = x then 1 else 0)" by (simp add: own_def stub_def)
  ultimately show "ncount x n' = own x (stub c h) + count_list (node_links nd) x"
    using len by (simp add: n' node_links_def)
  have "all_opt grounded (map_option (\<lambda>c. stub c h) m)" for m h by (cases m) simp_all
  then show "all_nodes grounded n'"
    by (auto simp: n' all_nodes_sel grounded_def parts_def)
qed

definition keeps_counts :: "node \<Rightarrow> refs \<Rightarrow> node \<Rightarrow> refs \<Rightarrow> bool" where
  "keeps_counts n refs n' refs' \<longleftrightarrow> (no_zero refs \<longrightarrow> all_nodes grounded n \<longrightarrow>
     no_zero refs' \<and> all_nodes grounded n' \<and> (\<forall>x. held refs' x + ncount x n = held refs x + ncount x n'))"

lemma load_node_counts:
  assumes "load_node E at n refs = (r, n', refs')"
  shows "keeps_counts n refs n' refs'"
  unfolding keeps_counts_def
proof (intro impI)
  assume nz: "no_zero refs" and g: "all_nodes grounded n"
  show "no_zero refs' \<and> all_nodes grounded n' \<and> (\<forall>x. held refs' x + ncount x n = held refs x + ncount x n')"
  proof (cases "\<exists>c data nd. \<not> nloaded n \<and> ncid n = Some c \<and> depth at \<le> TREE_MAX_DEPTH \<and>
      read_block E c = Inr (Some data) \<and> decode_node_data (simd_utf8 E) data = Inr nd")
    case True
    then obtain c data nd where c: "\<not> nloaded n" "ncid n = Some c" "depth at \<le> TREE_MAX_DEPTH"
      "read_block E c = Inr (Some data)" "decode_node_data (simd_utf8 E) data = Inr nd" by blast
    obtain h where n: "n = stub c h" using g c(1,2) by (auto simp: all_nodes_sel grounded_def stub_def)
    obtain ok refs1 k where l: "link_children (node_links nd) refs 0 = (ok, refs1, k)" by (metis prod_cases3)
    note lc = link_children_count [OF l nz]
    show ?thesis
    proof (cases "ok \<and> (\<exists>m. populate_node E n nd at = Inr m)")
      case True
      then obtain m where m: "populate_node E n nd at = Inr m" by blast
      with assms c l True have "n' = m" "refs' = refs1" by (auto simp: load_node_def Let_def)
      then show ?thesis using lc True populate_count [of E c h nd at m] m n
        by (auto simp: ncount_sel [of _ "stub c h"]) (simp_all add: stub_def)
    next
      case False
      then have "n' = n" "refs' = refs"
        using assms c l lc [THEN conjunct2, THEN conjunct2, THEN conjunct2, THEN conjunct2, THEN conjunct2]
        by (auto simp: load_node_def Let_def split: if_splits sum.splits)
      then show ?thesis using nz g by simp
    qed
  next
    case False
    then have "n' = n" "refs' = refs"
      using assms by (auto simp: load_node_def Let_def split: if_splits sum.splits option.splits)
    then show ?thesis using nz g by simp
  qed
qed

lemma keeps_countsD:
  assumes "keeps_counts n refs n' refs'" "no_zero refs" "all_nodes grounded n"
  shows "no_zero refs'" "all_nodes grounded n'" "held refs' x + ncount x n = held refs x + ncount x n'"
  using assms by (simp_all add: keeps_counts_def)

lemma loads_counts: "loads E n refs n' refs' \<Longrightarrow> keeps_counts n refs n' refs'"
proof (induction rule: loads.induct)
  case (loads_refl n refs)
  then show ?case by (simp add: keeps_counts_def)
next
  case (loads_load at n refs r n' refs')
  then show ?case by (rule load_node_counts)
next
  case (loads_child n i c refs c' refs')
  show ?case
    unfolding keeps_counts_def
  proof (intro impI)
    assume nz: "no_zero refs" and g: "all_nodes grounded n"
    then have p: "parts grounded n" by (simp add: all_nodes_sel)
    then have gc: "all_nodes grounded c" using parts_child [of grounded n i] loads_child.hyps by simp
    note c' = keeps_countsD [OF loads_child.IH nz gc]
    have "held refs' x + ncount x n = held refs x + ncount x (set_child n i (Some c'))" for x
      using ncount_set_child [of i n x "Some c'"] c'(3) [of x] loads_child.hyps by simp
    moreover have "parts grounded (set_child n i (Some c'))"
      using parts_set_child [OF p] c'(2) loads_child.hyps by simp
    ultimately show "no_zero refs' \<and> all_nodes grounded (set_child n i (Some c')) \<and>
        (\<forall>x. held refs' x + ncount x n = held refs x + ncount x (set_child n i (Some c')))"
      using c'(1) loads_child.hyps by (simp add: all_nodes_sel grounded_def)
  qed
next
  case (loads_trans n refs n1 refs1 n2 refs2)
  show ?case
    unfolding keeps_counts_def
  proof (intro impI)
    assume nz: "no_zero refs" and g: "all_nodes grounded n"
    note a = keeps_countsD [OF loads_trans.IH(1) nz g]
    note b = keeps_countsD [OF loads_trans.IH(2) a(1,2)]
    have "held refs2 x + ncount x n = held refs x + ncount x n2" for x
      using a(3) [of x] b(3) [of x] by linarith
    with b(1,2) show "no_zero refs2 \<and> all_nodes grounded n2 \<and> (\<forall>x. held refs2 x + ncount x n = held refs x + ncount x n2)"
      by simp
  qed
qed

section \<open>The counts of a tree\<close>

definition accounted :: "tree \<Rightarrow> bool" where
  "accounted t \<longleftrightarrow> no_zero (t_refs t) \<and> all_opt grounded (t_root t) \<and>
     (\<forall>x. held (t_refs t) x = ocount x (t_root t) + released_count (t_released t @ cid_list (t_empty_root t)) x)"

lemma accounted_new: "accounted tree_new"
  by (simp add: accounted_def tree_new_def no_zero_def held_def)

lemma accounted_load: "accounted (tree_load c)"
  by (auto simp: accounted_def tree_load_def tree_new_def no_zero_def held_def stub_def) (auto simp: grounded_def stub_def)

lemma accounted_loads:
  assumes "accounted t" "t_root t = Some n" "loads E n (t_refs t) n' refs'"
  shows "accounted (t\<lparr>t_root := Some n', t_refs := refs'\<rparr>)"
proof -
  have a: "no_zero (t_refs t)" "all_nodes grounded n"
    "\<And>x. held (t_refs t) x = ncount x n + released_count (t_released t @ cid_list (t_empty_root t)) x"
    using assms(1,2) by (simp_all add: accounted_def)
  note k = keeps_countsD [OF loads_counts [OF assms(3)] a(1,2)]
  have "held refs' x = ncount x n' + released_count (t_released t @ cid_list (t_empty_root t)) x" for x
    using k(3) [of x] a(3) [of x] by linarith
  with k(1,2) show ?thesis by (simp add: accounted_def)
qed

text \<open>A mutation replaces the root and moves counts to \<open>released\<close>.\<close>

lemma accounted_step:
  assumes "accounted t" "all_opt grounded m"
    and "\<And>x. ocount x m + released_count (rel @ cid_list er) x =
      ocount x (t_root t) + released_count (t_released t @ cid_list (t_empty_root t)) x"
  shows "accounted (t\<lparr>t_root := m, t_released := rel, t_empty_root := er\<rparr>)"
  using assms by (simp add: accounted_def)

lemma visit_keys_loads: "visit_keys E visit keys n refs missing = (r, n', refs') \<Longrightarrow> loads E n refs n' refs'"
proof (induction keys arbitrary: n refs missing)
  case (Cons key keys)
  obtain r1 n1 refs1 where v: "visit_key_path E key visit True ROOT n refs missing = (r1, n1, refs1)"
    by (metis prod_cases3)
  note l = visit_key_path_loads [OF v]
  show ?case using Cons v l by (cases r1) (auto intro: loads_trans)
qed (simp add: loads_refl)

lemma load_key_path_loads:
  assumes "load_key_path E key visit t = (r, t')"
  shows "t' = t \<or> (\<exists>n n' refs'. t_root t = Some n \<and> t' = t\<lparr>t_root := Some n', t_refs := refs'\<rparr> \<and>
    (\<exists>n1 refs1. loads E n (t_refs t) n1 refs1 \<and> loads (no_blocks E) n1 refs1 n' refs'))"
proof (cases "t_root t")
  case None
  then show ?thesis using assms by (simp add: load_key_path_def)
next
  case (Some n)
  obtain r1 n1 refs1 where v: "visit_key_path E key visit True ROOT n (t_refs t) [] = (r1, n1, refs1)"
    by (metis prod_cases3)
  obtain r2 n2 refs2 where g: "get_node (no_blocks E) ROOT key n1 refs1 = (r2, n2, refs2)" by (metis prod_cases3)
  have "t' = t\<lparr>t_root := Some n1, t_refs := refs1\<rparr> \<or> t' = t\<lparr>t_root := Some n2, t_refs := refs2\<rparr>"
    using assms Some v g by (auto simp: load_key_path_def split: sum.splits list.splits)
  then show ?thesis
    using Some visit_key_path_loads [OF v] get_node_loads [OF g] loads_refl [of "no_blocks E" n1 refs1] by blast
qed

lemma accounted_load_key_path:
  assumes "load_key_path E key visit t = (r, t')" "accounted t"
  shows "accounted t'"
  using load_key_path_loads [OF assms(1)]
proof
  assume "\<exists>n n' refs'. t_root t = Some n \<and> t' = t\<lparr>t_root := Some n', t_refs := refs'\<rparr> \<and>
    (\<exists>n1 refs1. loads E n (t_refs t) n1 refs1 \<and> loads (no_blocks E) n1 refs1 n' refs')"
  then obtain n n' refs' n1 refs1 where l: "t_root t = Some n" "t' = t\<lparr>t_root := Some n', t_refs := refs'\<rparr>"
    "loads E n (t_refs t) n1 refs1" "loads (no_blocks E) n1 refs1 n' refs'" by blast
  have "accounted (t\<lparr>t_root := Some n1, t_refs := refs1\<rparr>)" by (rule accounted_loads [OF assms(2) l(1,3)])
  from accounted_loads [OF this, of n1 "no_blocks E" n' refs'] l show ?thesis by simp
qed (use assms(2) in simp)

lemma accounted_poison: "accounted t \<Longrightarrow> poison e t = (r, t') \<Longrightarrow> t_poisoned t'"
  by (auto simp: poison_def)

lemma accounted_get: "tree_get E key t = (r, t') \<Longrightarrow> accounted t \<Longrightarrow> accounted t'"
  using accounted_loads get_node_loads
  by (fastforce simp: tree_get_def guarded_def split: sum.splits option.splits prod.splits)

lemma accounted_missing: "missing_for E keys visit t = (r, t') \<Longrightarrow> accounted t \<Longrightarrow> accounted t'"
  using accounted_loads visit_keys_loads
  by (fastforce simp: missing_for_def guarded_def split: sum.splits option.splits prod.splits)

lemma accounted_walk: "tree_walk E f t s = (r, t', s') \<Longrightarrow> accounted t \<Longrightarrow> accounted t'"
  using accounted_loads walk_loads(1)
  by (fastforce simp: tree_walk_def split: sum.splits option.splits prod.splits)

lemma tree_insert_cases:
  assumes "tree_insert E key val t = (r, t')" "\<not> t_poisoned t'"
  obtains (same) "t' = t \<or> (\<exists>r1. load_key_path E key Lookup t = (r1, t'))"
    | (upd) t1 r1 n n' rel where "load_key_path E key Lookup t = (r1, t1)" "t_root t1 = Some n"
      "update_node n key val (t_released t1) = Inr (n', rel)" "t' = t1\<lparr>t_root := Some n', t_released := rel\<rparr>"
    | (ins) t1 r1 n' rel where "load_key_path E key Lookup t = (r1, t1)"
      "insert_node (t_root t1) key val (height_for_key (compress256 E) key)
        (if t_root t1 = None then t_released t1 @ cid_list (t_empty_root t1) else t_released t1) = Inr (n', rel)"
      "t' = t1\<lparr>t_root := Some n', t_released := rel, t_empty_root := if t_root t1 = None then None else t_empty_root t1\<rparr>"
proof (cases "t_poisoned t \<or> \<not> is_valid_key key")
  case True
  then have "t' = t" using assms(1) by (auto simp: tree_insert_def guarded_def check_usable_def split: if_splits)
  with same show thesis by blast
next
  case False
  obtain r1 t1 where l: "load_key_path E key Lookup t = (r1, t1)" by fastforce
  note step = assms(1) [unfolded tree_insert_def guarded_def check_usable_def l prod.case]
  have v: "is_valid_key key" "\<not> t_poisoned t" using False by simp_all
  note step = step [unfolded if_not_P [OF v(2)] sum.case if_not_P [OF not_not [THEN iffD2, OF v(1)]]]
  let ?rel = "if t_root t1 = None then t_released t1 @ cid_list (t_empty_root t1) else t_released t1"
  show thesis
  proof (cases r1)
    case (Inl e)
    then show thesis using step same l by simp
  next
    case (Inr prev)
    consider "prev = Some val" | old where "prev = Some old" "old \<noteq> val" | "prev = None" by (cases prev) auto
    then show thesis
    proof cases
      case 1
      then show thesis using step Inr same l by simp
    next
      case 2
      then show thesis
        using step Inr upd [OF l] assms(2) by (cases "t_root t1") (auto simp: poison_def split: sum.splits)
    next
      case 3
      then show thesis
        using step Inr ins [OF l] assms(2)
        by (cases "insert_node (t_root t1) key val (height_for_key (compress256 E) key) ?rel") (auto simp: poison_def Let_def)
    qed
  qed
qed

lemma accounted_insert:
  assumes "tree_insert E key val t = (r, t')" "accounted t" "\<not> t_poisoned t'"
  shows "accounted t'"
  using assms(1,3)
proof (cases rule: tree_insert_cases)
  case same
  then show ?thesis using assms(2) accounted_load_key_path by blast
next
  case (upd t1 r1 n n' rel)
  have a: "accounted t1" by (rule accounted_load_key_path [OF upd(1) assms(2)])
  have g: "all_opt grounded (t_root t1)" using a by (simp add: accounted_def)
  have "all_nodes grounded n'" using update_node_account(2) [OF upd(3) clean_grounded] g upd(2) by (simp add: all_nodes_sel [of _ n])
  moreover have "ncount x n' + released_count (rel @ cid_list (t_empty_root t1)) x =
      ocount x (t_root t1) + released_count (t_released t1 @ cid_list (t_empty_root t1)) x" for x
    using update_node_account(1) [OF upd(3), of x] upd(2) by simp
  ultimately show ?thesis
    using accounted_step [OF a, of "Some n'" rel "t_empty_root t1"] upd(4) by simp
next
  case (ins t1 r1 n' rel)
  let ?er = "if t_root t1 = None then None else t_empty_root t1"
  have a: "accounted t1" by (rule accounted_load_key_path [OF ins(1) assms(2)])
  have "case t_root t1 of None \<Rightarrow> True | Some n \<Rightarrow> parts grounded n \<and> (nheight n < height_for_key (compress256 E) key \<longrightarrow> grounded n)"
    using a by (cases "t_root t1") (simp_all add: accounted_def all_nodes_sel)
  then have "all_nodes grounded n'" using insert_account(1) [OF ins(2), where Q = grounded] clean_grounded by blast
  moreover have "ncount x n' + released_count (rel @ cid_list ?er) x =
      ocount x (t_root t1) + released_count (t_released t1 @ cid_list (t_empty_root t1)) x" for x
    using insert_account(1) [OF ins(2), of x] by (auto split: if_splits)
  ultimately show ?thesis
    using accounted_step [OF a, of "Some n'" rel ?er] ins(3) by simp
qed

lemma accounted_remove:
  assumes "tree_remove E key t = (r, t')" "accounted t" "usable \<sigma> t" "models E \<sigma>"
  shows "accounted t'"
proof -
  have np: "\<not> t_poisoned t" using assms(3) by (simp add: usable_def)
  obtain r1 t1 where l: "load_key_path E key Remove t = (r1, t1)" by fastforce
  have a: "accounted t1" by (rule accounted_load_key_path [OF l assms(2)])
  have g: "all_opt grounded (t_root t1)" using a by (simp add: accounted_def)
  note sp = load_key_path_spec [OF l assms(3,4)]
  show ?thesis
  proof (cases "\<exists>v n. r1 = Inr (Some v) \<and> t_root t1 = Some n")
    case True
    then obtain v n where vn: "r1 = Inr (Some v)" "t_root t1 = Some n" by blast
    have sn: "ksorted (inorder \<sigma> n)" "map_of (inorder \<sigma> n) key = Some v" "ready Remove key (Some n)"
      using sp vn unfolding usable_def contents_def by (metis oinorder.simps(2), metis oinorder.simps(2), metis)
    obtain n' rel where u: "remove_from_root n key (t_released t1) = Inr ((n', Some v), rel)"
      using remove_step [OF sn(3,1), of "t_released t1"] sn(2) by metis
    have t': "t' = t1\<lparr>t_root := n', t_released := rel\<rparr>" using assms(1) np l vn u by (simp add: tree_remove_def)
    have "all_opt grounded n'"
      using remove_from_root_account(2) [OF u, of grounded] g vn(2) by (simp add: all_nodes_sel)
    moreover have "ocount x n' + released_count (rel @ cid_list (t_empty_root t1)) x =
        ocount x (t_root t1) + released_count (t_released t1 @ cid_list (t_empty_root t1)) x" for x
      using remove_from_root_account(1) [OF u, of x] vn(2) by simp
    ultimately show ?thesis using accounted_step [OF a, of n' rel "t_empty_root t1"] t' by simp
  next
    case False
    then have "t' = t1" using assms(1) np l by (auto simp: tree_remove_def split: sum.splits option.splits)
    with a show ?thesis by simp
  qed
qed

section \<open>Writing\<close>

text \<open>Writing gives every node a CID and emits one block per node that had none.\<close>

lemma has_cid_Some [simp]: "has_cid None" "has_cid (Some n) \<longleftrightarrow> ncid n \<noteq> None"
  by (simp_all add: has_cid_def)

lemma encode_node_total: "links_written n \<Longrightarrow> \<exists>data. encode_node n [] = Inr data"
  unfolding encode_node_data_of by (simp add: encode_node_data_def Let_def)

lemma write_total:
  shows "all_nodes grounded n \<Longrightarrow> \<exists>c n' ws. write_node C n out = Inr (c, n', out @ ws) \<and>
      ncid n' = Some c \<and> all_nodes grounded n' \<and> (\<forall>x. ncount x n' = ncount x n + count_list (map fst ws) x) \<and>
      (\<forall>\<sigma>. inorder \<sigma> n' = inorder \<sigma> n)"
    and "all_opt grounded m \<Longrightarrow> \<exists>m' ws. write_opt C m out = Inr (m', out @ ws) \<and>
      has_cid m' \<and> all_opt grounded m' \<and> (\<forall>x. ocount x m' = ocount x m + count_list (map fst ws) x) \<and>
      (\<forall>\<sigma>. oinorder \<sigma> m' = oinorder \<sigma> m)"
    and "\<forall>e \<in> set es. all_entry grounded e \<Longrightarrow> \<exists>es' ws. write_rights C es out = Inr (es', out @ ws) \<and>
      (\<forall>e \<in> set es'. has_cid (eright e) \<and> all_entry grounded e) \<and>
      (\<forall>x. sum_list (map (ecount x) es') = sum_list (map (ecount x) es) + count_list (map fst ws) x) \<and>
      (\<forall>\<sigma>. centries \<sigma> es' = centries \<sigma> es)"
proof (induction C n out and C m out and C es out rule: write_node_write_opt_write_rights.induct)
  case (1 C l es c h ld out)
  show ?case
  proof (cases c)
    case (Some c')
    then show ?thesis using "1.prems" by (intro exI [of _ c'] exI [of _ "Node l es c h ld"] exI [of _ "[]"]) simp
  next
    case None
    then have ld: "ld" using "1.prems" by (auto simp: grounded_def stub_def)
    then have rl: "require_loaded (Node l es c h ld) = Inr ()" by simp
    obtain l' ws1 where l': "write_opt C l out = Inr (l', out @ ws1)" "has_cid l'" "all_opt grounded l'"
      "\<forall>x. ocount x l' = ocount x l + count_list (map fst ws1) x" "\<forall>\<sigma>. oinorder \<sigma> l' = oinorder \<sigma> l"
      using "1.IH"(1) [OF None rl] "1.prems" by auto
    obtain es' ws2 where es': "write_rights C es (out @ ws1) = Inr (es', (out @ ws1) @ ws2)"
      "\<forall>e \<in> set es'. has_cid (eright e) \<and> all_entry grounded e"
      "\<forall>x. sum_list (map (ecount x) es') = sum_list (map (ecount x) es) + count_list (map fst ws2) x"
      "\<forall>\<sigma>. centries \<sigma> es' = centries \<sigma> es"
      using "1.IH"(2) [OF None rl l'(1) refl] "1.prems" by auto
    obtain data where d: "encode_node (Node l' es' None h ld) [] = Inr data"
      using encode_node_total [of "Node l' es' None h ld"] l'(2) es'(2) by (auto simp: links_written_def)
    let ?cid = "cid_compute C Drisl data"
    have "write_node C (Node l es c h ld) out = Inr (?cid, Node l' es' (Some ?cid) h ld, out @ (ws1 @ ws2 @ [(?cid, data)]))"
      using None ld l'(1) es'(1) d by (simp add: Let_def require_loaded_def)
    moreover have "all_nodes grounded (Node l' es' (Some ?cid) h ld)"
      using l'(3) es'(2) ld by (simp add: grounded_def)
    moreover have "\<forall>x. ncount x (Node l' es' (Some ?cid) h ld) =
        ncount x (Node l es c h ld) + count_list (map fst (ws1 @ ws2 @ [(?cid, data)])) x"
      using l'(4) es'(3) None by auto
    moreover have "\<forall>\<sigma>. inorder \<sigma> (Node l' es' (Some ?cid) h ld) = inorder \<sigma> (Node l es c h ld)"
      using l'(5) es'(4) ld by simp
    ultimately show ?thesis by (intro exI conjI) (assumption | simp)+
  qed
next
  case (3 C n out)
  then obtain c n' ws where "write_node C n out = Inr (c, n', out @ ws)" "ncid n' = Some c" "all_nodes grounded n'"
    "\<forall>x. ncount x n' = ncount x n + count_list (map fst ws) x" "\<forall>\<sigma>. inorder \<sigma> n' = inorder \<sigma> n" by auto
  then show ?case by (intro exI [of _ "Some n'"] exI [of _ ws]) simp
next
  case (5 C k v r es out)
  obtain r' ws1 where r': "write_opt C r out = Inr (r', out @ ws1)" "has_cid r'" "all_opt grounded r'"
    "\<forall>x. ocount x r' = ocount x r + count_list (map fst ws1) x" "\<forall>\<sigma>. oinorder \<sigma> r' = oinorder \<sigma> r"
    using "5.IH"(1) "5.prems" by auto
  obtain es' ws2 where es': "write_rights C es (out @ ws1) = Inr (es', (out @ ws1) @ ws2)"
    "\<forall>e \<in> set es'. has_cid (eright e) \<and> all_entry grounded e"
    "\<forall>x. sum_list (map (ecount x) es') = sum_list (map (ecount x) es) + count_list (map fst ws2) x"
    "\<forall>\<sigma>. centries \<sigma> es' = centries \<sigma> es"
    using "5.IH"(2) [OF r'(1) refl] "5.prems" by auto
  show ?case using r' es' by (intro exI [of _ "Entry k v r' # es'"] exI [of _ "ws1 @ ws2"]) simp
qed auto

section \<open>Settling\<close>

lemma release_all_ok:
  assumes "\<forall>x. count_list cs x \<le> held refs x"
  shows "\<exists>refs'. release_all cs refs = Inr refs' \<and> dom refs' = dom refs \<and> (\<forall>x. held refs' x + count_list cs x = held refs x)"
  using assms
proof (induction cs arbitrary: refs)
  case (Cons c cs)
  have "0 < held refs c" using Cons.prems [rule_format, of c] by simp
  then obtain k where k: "refs c = Some k" "0 < k" by (auto simp: held_def split: option.splits)
  have le: "\<forall>x. count_list cs x \<le> held (refs(c \<mapsto> k - 1)) x"
  proof
    fix x
    show "count_list cs x \<le> held (refs(c \<mapsto> k - 1)) x"
      using Cons.prems [rule_format, of x] k by (cases "x = c") (simp_all add: held_def)
  qed
  from Cons.IH [OF le] obtain refs' where r: "release_all cs (refs(c \<mapsto> k - 1)) = Inr refs'"
    "dom refs' = dom (refs(c \<mapsto> k - 1))" "\<forall>x. held refs' x + count_list cs x = held (refs(c \<mapsto> k - 1)) x" by blast
  have "held refs' x + count_list (c # cs) x = held refs x" for x
    using r(3) [rule_format, of x] k by (cases "x = c") (simp_all add: held_def)
  moreover have "dom refs' = dom refs" using r(2) k by auto
  ultimately show ?case using r(1) k by simp
qed simp

lemma count_written_spec:
  assumes "count_written ws refs = (new, refs')"
  shows "held refs' x = held refs x + count_list (map fst ws) x \<and> dom refs' = dom refs \<union> fst ` set ws \<and>
    distinct (map fst new) \<and> fst ` set new = fst ` set ws - dom refs \<and> set new \<subseteq> set ws"
  using assms
proof (induction ws refs arbitrary: new rule: count_written.induct)
  case (2 c data bs refs)
  show ?case
  proof (cases "refs c")
    case None
    obtain new1 where n: "count_written bs (refs(c \<mapsto> 1)) = (new1, refs')" "new = (c, data) # new1"
      using "2.prems" None by (auto split: prod.splits)
    have "held refs' x = held (refs(c \<mapsto> 1)) x + count_list (map fst bs) x \<and> dom refs' = dom (refs(c \<mapsto> 1)) \<union> fst ` set bs \<and>
        distinct (map fst new1) \<and> fst ` set new1 = fst ` set bs - dom (refs(c \<mapsto> 1)) \<and> set new1 \<subseteq> set bs"
      by (rule "2.IH"(1) [OF None n(1)])
    moreover have "held refs c = 0" using None by (simp add: held_def)
    ultimately show ?thesis using n(2) None by auto
  next
    case (Some k)
    then have n: "count_written bs (refs(c \<mapsto> k + 1)) = (new, refs')" using "2.prems" by simp
    have "held refs' x = held (refs(c \<mapsto> k + 1)) x + count_list (map fst bs) x \<and> dom refs' = dom (refs(c \<mapsto> k + 1)) \<union> fst ` set bs \<and>
        distinct (map fst new) \<and> fst ` set new = fst ` set bs - dom (refs(c \<mapsto> k + 1)) \<and> set new \<subseteq> set bs"
      by (rule "2.IH"(2) [OF Some n])
    moreover have "held refs c = k" using Some by (simp add: held_def)
    ultimately show ?thesis using Some by auto
  qed
qed auto

lemma retire_spec:
  assumes "retire cs refs = (retired, refs')"
  shows "refs' x = (if x \<in> set cs \<and> refs x = Some 0 then None else refs x) \<and>
    distinct retired \<and> set retired = {x \<in> set cs. refs x = Some 0}"
  using assms
proof (induction cs refs arbitrary: retired rule: retire.induct)
  case (2 c cs refs)
  show ?case
  proof (cases "refs c = Some 0")
    case True
    obtain retired1 where r: "retire cs (refs(c := None)) = (retired1, refs')" "retired = c # retired1"
      using "2.prems" True by (auto split: prod.splits)
    have "refs' x = (if x \<in> set cs \<and> (refs(c := None)) x = Some 0 then None else (refs(c := None)) x) \<and>
        distinct retired1 \<and> set retired1 = {x \<in> set cs. (refs(c := None)) x = Some 0}"
      by (rule "2.IH"(1) [OF True r(1)])
    then show ?thesis using r(2) True by auto
  next
    case False
    then have r: "retire cs refs = (retired, refs')" using "2.prems" by simp
    have "refs' x = (if x \<in> set cs \<and> refs x = Some 0 then None else refs x) \<and>
        distinct retired \<and> set retired = {x \<in> set cs. refs x = Some 0}"
      by (rule "2.IH"(2) [OF False r])
    then show ?thesis using False by auto
  qed
qed auto

lemma held_dom: "no_zero refs \<Longrightarrow> x \<in> dom refs \<longleftrightarrow> 0 < held refs x"
  by (cases "refs x"; cases "the (refs x)") (auto simp: no_zero_def held_def)

lemma settle_ok:
  assumes "no_zero (t_refs t)" "\<And>x. held (t_refs t) x = A x + released_count (t_released t) x"
  shows "\<exists>w refs'. settle ws root t = Inr (w, t\<lparr>t_refs := refs', t_released := []\<rparr>) \<and> w_root w = root \<and>
    no_zero refs' \<and> (\<forall>x. held refs' x = A x + count_list (map fst ws) x) \<and>
    distinct (map fst (w_new_blocks w)) \<and> set (w_new_blocks w) \<subseteq> set ws \<and>
    fst ` set (w_new_blocks w) = dom refs' - dom (t_refs t) \<and>
    sorted_wrt (<) (w_retired w) \<and> set (w_retired w) = dom (t_refs t) - dom refs'"
proof -
  obtain refs1 where r1: "release_all (t_released t) (t_refs t) = Inr refs1" "dom refs1 = dom (t_refs t)"
    "\<And>x. held refs1 x + released_count (t_released t) x = held (t_refs t) x"
    using release_all_ok [of "t_released t" "t_refs t"] assms(2) by auto
  obtain new refs2 where r2: "count_written ws refs1 = (new, refs2)" by fastforce
  obtain retired refs3 where r3: "retire (t_released t) refs2 = (retired, refs3)" by fastforce
  note w = count_written_spec [OF r2] and t = retire_spec [OF r3]
  have h1: "held refs1 x = A x" for x using r1(3) [of x] assms(2) [of x] by simp
  have h2: "held refs2 x = A x + count_list (map fst ws) x" for x using w [of x] h1 by simp
  have d2: "dom refs2 = dom (t_refs t) \<union> fst ` set ws" using w r1(2) by simp
  have ws: "x \<in> fst ` set ws \<Longrightarrow> 0 < held refs2 x" for x
    using h2 [of x] count_list_0_iff [of "map fst ws" x] by auto
  have zero: "x \<in> set (t_released t)" if "refs2 x = Some 0" for x
  proof (rule ccontr)
    assume x: "x \<notin> set (t_released t)"
    have "held refs2 x = 0" using that by (simp add: held_def)
    then have "x \<notin> fst ` set ws" "A x = 0" using ws [of x] h2 [of x] by (auto simp del: image_iff)
    then have "x \<in> dom (t_refs t)" "held (t_refs t) x = 0" using that d2 x assms(2) [of x] by auto
    then show False using held_dom [OF assms(1), of x] by simp
  qed
  have r3x: "refs3 x = (if refs2 x = Some 0 then None else refs2 x)" for x using t [of x] zero by auto
  have nz: "no_zero refs3" by (simp add: no_zero_def r3x)
  have h3: "held refs3 x = A x + count_list (map fst ws) x" for x
    using h2 [of x] by (auto simp: held_def r3x split: option.splits)
  have rel: "x \<in> set (t_released t) \<Longrightarrow> x \<in> dom (t_refs t)" for x
    using held_dom [OF assms(1), of x] assms(2) [of x] count_list_0_iff [of "t_released t" x] by auto
  have "dom refs3 \<subseteq> dom refs2" by (auto simp: r3x dom_def split: if_splits)
  moreover have "fst ` set ws \<subseteq> dom refs3"
    using ws held_dom [OF nz] h2 h3 by (intro subsetI) simp
  ultimately have "dom refs3 - dom (t_refs t) = fst ` set ws - dom (t_refs t)" using d2 by blast
  then have "fst ` set new = dom refs3 - dom (t_refs t)" using w r1(2) by simp
  moreover have "set retired = dom (t_refs t) - dom refs3"
    using t rel d2 by (auto simp: r3x dom_def)
  moreover have "sorted_wrt (<) (sort retired)" using t by (simp add: strict_sorted_iff)
  ultimately show ?thesis
    using r1(1) r2 r3 w nz h3 by (intro exI [of _ "\<lparr>w_root = root, w_new_blocks = new, w_retired = sort retired\<rparr>"] exI [of _ refs3])
      (simp add: settle_def)
qed

text \<open>What a flush reports, in terms of the CIDs the tree holds before and after.\<close>

definition flush_report :: "tree \<Rightarrow> tree_write \<Rightarrow> tree \<Rightarrow> bool" where
  "flush_report t w t' \<longleftrightarrow>
     tree_root_cid t' = Some (w_root w) \<and> t_released t' = [] \<and>
     distinct (map fst (w_new_blocks w)) \<and> fst ` set (w_new_blocks w) = dom (t_refs t') - dom (t_refs t) \<and>
     sorted_wrt (<) (w_retired w) \<and> set (w_retired w) = dom (t_refs t) - dom (t_refs t')"

lemma tree_flush_ok:
  assumes "accounted t" "\<not> t_poisoned t" "t_root t \<noteq> None \<longrightarrow> t_empty_root t = None"
  shows "\<exists>w t'. tree_flush E t = (Inr w, t') \<and> accounted t' \<and> \<not> t_poisoned t' \<and> flush_report t w t' \<and>
    (\<forall>\<sigma>. contents \<sigma> t' = contents \<sigma> t) \<and> (t_root t' \<noteq> None \<longrightarrow> t_empty_root t' = None)"
proof (cases "t_root t")
  case None
  let ?t1 = "t\<lparr>t_released := t_released t @ cid_list (t_empty_root t), t_empty_root := None\<rparr>"
  obtain root data where b: "empty_node_block (compress256 E) = Inr (root, data)"
    by (simp add: empty_node_block_def encode_node_data_def Let_def)
  let ?t2 = "?t1\<lparr>t_empty_root := Some root\<rparr>"
  have "no_zero (t_refs ?t2)" "\<And>x. held (t_refs ?t2) x = 0 + released_count (t_released ?t2) x"
    using assms(1) None by (simp_all add: accounted_def)
  from settle_ok [OF this, of "[(root, data)]" root] obtain w refs' where
    s: "settle [(root, data)] root ?t2 = Inr (w, ?t2\<lparr>t_refs := refs', t_released := []\<rparr>)" "w_root w = root" "no_zero refs'"
      "\<And>x. held refs' x = count_list [root] x" and
    rep: "distinct (map fst (w_new_blocks w))" "fst ` set (w_new_blocks w) = dom refs' - dom (t_refs t)"
      "sorted_wrt (<) (w_retired w)" "set (w_retired w) = dom (t_refs t) - dom refs'" by auto
  have f: "tree_flush E t = (Inr w, ?t2\<lparr>t_refs := refs', t_released := []\<rparr>)"
    using None b s(1) assms(2) by (simp add: tree_flush_def Let_def)
  show ?thesis
    using None s rep assms(2)
    by (intro exI [of _ w] exI [of _ "?t2\<lparr>t_refs := refs', t_released := []\<rparr>"] conjI f)
      (auto simp: accounted_def flush_report_def tree_root_cid_def contents_def)
next
  case (Some n)
  have a: "no_zero (t_refs t)" "all_nodes grounded n" "\<And>x. held (t_refs t) x = ncount x n + released_count (t_released t) x"
    using assms Some by (simp_all add: accounted_def)
  obtain c n' ws where w: "write_node (compress256 E) n [] = Inr (c, n', ws)" "ncid n' = Some c" "all_nodes grounded n'"
    "\<And>x. ncount x n' = ncount x n + count_list (map fst ws) x" "\<And>\<sigma>. inorder \<sigma> n' = inorder \<sigma> n"
    using write_total(1) [OF a(2), of "compress256 E" "[]"] by auto
  let ?t1 = "t\<lparr>t_root := Some n'\<rparr>"
  have "no_zero (t_refs ?t1)" "\<And>x. held (t_refs ?t1) x = ncount x n + released_count (t_released ?t1) x" using a by simp_all
  from settle_ok [OF this, of ws c] obtain w' refs' where
    s: "settle ws c ?t1 = Inr (w', ?t1\<lparr>t_refs := refs', t_released := []\<rparr>)" "w_root w' = c" "no_zero refs'"
      "\<And>x. held refs' x = ncount x n'" and
    rep: "distinct (map fst (w_new_blocks w'))" "fst ` set (w_new_blocks w') = dom refs' - dom (t_refs t)"
      "sorted_wrt (<) (w_retired w')" "set (w_retired w') = dom (t_refs t) - dom refs'" by (auto simp: w(4))
  have f: "tree_flush E t = (Inr w', ?t1\<lparr>t_refs := refs', t_released := []\<rparr>)"
    using Some w(1) s(1) assms(2) by (simp add: tree_flush_def Let_def)
  show ?thesis
    using Some s rep assms w
    by (intro exI [of _ w'] exI [of _ "?t1\<lparr>t_refs := refs', t_released := []\<rparr>"] conjI f)
      (auto simp: accounted_def flush_report_def tree_root_cid_def contents_def)
qed

end
