(* ===== verification/Mst_Merkle.thy ===== *)
theory Mst_Merkle
  imports Mst_Flush
begin

text \<open>
  The root CID is a function of the contents. A node's CID is the hash of its block, a block is
  determined by the entries and the CIDs below, and the canonical shape is determined by the
  contents; so two trees with the same contents, whatever the calls that built them, flush to the
  same root.
\<close>

section \<open>The hash of a subtree\<close>

fun link_entries :: "str \<Rightarrow> (str \<times> cid \<times> cid option) list \<Rightarrow> entry_data list" where
  "link_entries prev [] = []"
| "link_entries prev ((k, v, r) # es) =
     \<lparr>prefix_len = common_prefix prev k, key_suffix = drop (common_prefix prev k) k, ed_value = v, ed_right = r\<rparr> #
     link_entries k es"

fun merkle :: "compress_fn \<Rightarrow> node \<Rightarrow> cid"
  and lmerkle :: "compress_fn \<Rightarrow> node option \<Rightarrow> cid option"
  and emerkle :: "compress_fn \<Rightarrow> entry \<Rightarrow> str \<times> cid \<times> cid option"
where
  "merkle C (Node l es c h ld) =
     (case (if ld then None else c) of
        Some c \<Rightarrow> c
      | None \<Rightarrow>
          cid_compute C Drisl
            (case encode_node_data \<lparr>nd_left = lmerkle C l, nd_entries = link_entries [] (map (emerkle C) es)\<rparr> of
               Inr data \<Rightarrow> data | Inl _ \<Rightarrow> []))"
| "lmerkle C None = None"
| "lmerkle C (Some n) = Some (merkle C n)"
| "emerkle C (Entry k v r) = (k, v, lmerkle C r)"

text \<open>Every CID a node carries is its hash.\<close>

definition hashed :: "compress_fn \<Rightarrow> node \<Rightarrow> bool" where
  "hashed C n \<longleftrightarrow> (\<forall>c. ncid n = Some c \<longrightarrow> c = merkle C n)"

lemma clean_hashed [simp]: "clean (hashed C)"
  by (simp add: clean_def hashed_def)

lemma hashed_stub [simp]: "hashed C (stub c h)"
  by (simp add: hashed_def stub_def)

lemma compress_entries_links: "compress_entries prev es = link_entries prev (map (\<lambda>e. (ekey e, evalue e, link_cid (eright e))) es)"
  by (induction es arbitrary: prev) simp_all

lemma emerkle_sel: "emerkle C e = (ekey e, evalue e, lmerkle C (eright e))"
  by (cases e) simp

lemma merkle_loaded:
  "nloaded n \<Longrightarrow> merkle C n = cid_compute C Drisl
     (case encode_node_data \<lparr>nd_left = lmerkle C (nleft n), nd_entries = link_entries [] (map (emerkle C) (nentries n))\<rparr> of
        Inr data \<Rightarrow> data | Inl _ \<Rightarrow> [])"
  by (cases n) simp

text \<open>The hash of a loaded tree does not look at the CIDs it carries.\<close>

lemma merkle_erase:
  shows "all_nodes nloaded n \<Longrightarrow> merkle C (erase n) = merkle C n"
    and "all_opt nloaded m \<Longrightarrow> lmerkle C (oerase m) = lmerkle C m"
    and "all_entry nloaded e \<Longrightarrow> emerkle C (eerase e) = emerkle C e"
proof (induction n and m and e rule: erase_oerase_eerase.induct)
  case (1 l es c h ld)
  then have "map (emerkle C) (map eerase es) = map (emerkle C) es" by simp
  then show ?case using 1 by (simp del: map_map)
qed simp_all

section \<open>Writing computes the hash\<close>

lemma require_cid_iff: "require_cid msg m = Inr c \<longleftrightarrow> has_cid m \<and> c = link_cid m"
  by (auto simp: require_cid_def has_cid_def link_cid_def split: option.splits)

lemma encode_entries_links: "encode_entries es prev buf = Inr b \<Longrightarrow> \<forall>e \<in> set es. has_cid (eright e)"
  by (induction es arbitrary: prev buf) (auto simp: require_cid_iff Let_def)

lemma encode_node_links: "encode_node n [] = Inr data \<Longrightarrow> encode_node_data (data_of n) = Inr data"
  using encode_node_data_of [of n] encode_entries_links
  by (force simp: encode_node_def links_written_def require_cid_iff)

lemma write_merkle:
  shows "all_nodes (hashed C) n \<Longrightarrow> write_node C n out = Inr (c, n', out') \<Longrightarrow>
      c = merkle C n \<and> ncid n' = Some c \<and> merkle C n' = merkle C n \<and> all_nodes (hashed C) n' \<and> erase n' = erase n"
    and "all_opt (hashed C) m \<Longrightarrow> write_opt C m out = Inr (m', out') \<Longrightarrow>
      link_cid m' = lmerkle C m \<and> lmerkle C m' = lmerkle C m \<and> all_opt (hashed C) m' \<and> oerase m' = oerase m"
    and "\<forall>e \<in> set es. all_entry (hashed C) e \<Longrightarrow> write_rights C es out = Inr (es', out') \<Longrightarrow>
      map (\<lambda>e. (ekey e, evalue e, link_cid (eright e))) es' = map (emerkle C) es \<and>
      map (emerkle C) es' = map (emerkle C) es \<and> (\<forall>e \<in> set es'. all_entry (hashed C) e) \<and> map eerase es' = map eerase es"
proof (induction C n out and C m out and C es out arbitrary: c n' out' and m' out' and es' out'
    rule: write_node_write_opt_write_rights.induct)
  case (1 C l es d h ld out)
  show ?case
  proof (cases d)
    case (Some d')
    then show ?thesis using "1.prems" by (auto simp: hashed_def)
  next
    case None
    then obtain l' out1 es' out2 data where w: "ld" "write_opt C l out = Inr (l', out1)" "write_rights C es out1 = Inr (es', out2)"
      "encode_node (Node l' es' None h ld) [] = Inr data" "c = cid_compute C Drisl data" "n' = Node l' es' (Some c) h ld"
      using "1.prems"(2) by (auto simp: Let_def)
    then have rl: "require_loaded (Node l es d h ld) = Inr ()" by simp
    have l': "link_cid l' = lmerkle C l \<and> lmerkle C l' = lmerkle C l \<and> all_opt (hashed C) l' \<and> oerase l' = oerase l"
      using "1.IH"(1) [OF None rl _ w(2)] "1.prems"(1) by simp
    have es': "map (\<lambda>e. (ekey e, evalue e, link_cid (eright e))) es' = map (emerkle C) es \<and>
        map (emerkle C) es' = map (emerkle C) es \<and> (\<forall>e \<in> set es'. all_entry (hashed C) e) \<and> map eerase es' = map eerase es"
      using "1.IH"(2) [OF None rl w(2) refl _ w(3)] "1.prems"(1) by simp
    have "encode_node_data (data_of (Node l' es' None h ld)) = Inr data"
      using w(4) by (rule encode_node_links)
    then have c: "c = merkle C (Node l es d h ld)"
      using w(1,5) l' es' by (simp add: data_of_def compress_entries_links)
    moreover have "merkle C n' = merkle C (Node l es d h ld)" using w(1,6) l' es' by simp
    ultimately have "hashed C n'" using w(6) by (simp add: hashed_def)
    then show ?thesis using c \<open>merkle C n' = merkle C (Node l es d h ld)\<close> w(6) l' es' by simp
  qed
next
  case (3 C n out)
  then show ?case by (auto simp: link_cid_def)
next
  case (5 C k v r es out)
  from "5.prems"(2) obtain r' out1 es1 where w: "write_opt C r out = Inr (r', out1)" "write_rights C es out1 = Inr (es1, out')"
    "es' = Entry k v r' # es1" by auto
  with "5.IH"(1) [OF _ w(1)] "5.IH"(2) [OF w(1) refl _ w(2)] "5.prems"(1) show ?case by auto
qed (auto simp: link_cid_def)

section \<open>Trees wholly in memory\<close>

definition resident :: "compress_fn \<Rightarrow> node \<Rightarrow> bool" where
  "resident C n \<longleftrightarrow> nloaded n \<and> hashed C n"

lemma clean_resident [simp]: "clean (resident C)"
  using clean_hashed [of C] by (auto simp: clean_def resident_def)

lemma all_nodes_mono:
  assumes "\<And>n. P n \<Longrightarrow> Q n"
  shows "all_nodes P n \<Longrightarrow> all_nodes Q n" and "all_opt P m \<Longrightarrow> all_opt Q m" and "all_entry P e \<Longrightarrow> all_entry Q e"
  using assms by (induction P n and P m and P e rule: all_nodes_all_opt_all_entry.induct) auto

lemma resident_parts:
  "all_opt (resident C) m \<Longrightarrow> all_opt nloaded m" "all_opt (resident C) m \<Longrightarrow> all_opt (hashed C) m"
  using all_nodes_mono(2) [of "resident C" nloaded m] all_nodes_mono(2) [of "resident C" "hashed C" m]
  by (auto simp: resident_def)

lemma all_nodes_conj:
  shows "all_nodes P n \<Longrightarrow> all_nodes Q n \<Longrightarrow> all_nodes (\<lambda>n. P n \<and> Q n) n"
    and "all_opt P m \<Longrightarrow> all_opt Q m \<Longrightarrow> all_opt (\<lambda>n. P n \<and> Q n) m"
    and "all_entry P e \<Longrightarrow> all_entry Q e \<Longrightarrow> all_entry (\<lambda>n. P n \<and> Q n) e"
  by (induction P n and P m and P e rule: all_nodes_all_opt_all_entry.induct) auto

lemma all_loaded_erase:
  shows "all_nodes nloaded (erase n) \<longleftrightarrow> all_nodes nloaded n" and "all_opt nloaded (oerase m) \<longleftrightarrow> all_opt nloaded m"
    and "all_entry nloaded (eerase e) \<longleftrightarrow> all_entry nloaded e"
  by (induction n and m and e rule: erase_oerase_eerase.induct) auto

lemma loaded_child: "all_nodes nloaded n \<Longrightarrow> i \<le> length (nentries n) \<Longrightarrow> all_opt nloaded (child n i)"
  by (auto simp: all_nodes_sel intro: parts_child)

lemma loads_loaded_id:
  "loads E n refs n' refs' \<Longrightarrow> all_nodes nloaded n \<Longrightarrow> n' = n \<and> refs' = refs"
proof (induction rule: loads.induct)
  case (loads_load at n refs r n' refs')
  then show ?case by (auto simp: all_nodes_sel load_node_loaded_id)
next
  case (loads_child n i c refs c' refs')
  then have "all_nodes nloaded c" using loaded_child [of n i] by simp
  then show ?case using loads_child set_child_id [of i n] by auto
qed auto

text \<open>On such a tree no traversal fails or misses a block.\<close>

lemma visit_root_chain_total:
  "all_nodes nloaded n \<Longrightarrow> \<exists>n' refs'. visit_root_chain E chain at n refs missing = (Inr missing, n', refs')"
proof (induction "nsize n" arbitrary: chain at n rule: less_induct)
  case less
  have ld: "nloaded n" using less.prems by (simp add: all_nodes_sel)
  show ?case
  proof (cases "nleft n")
    case None
    then show ?thesis by (simp add: visit_root_chain.simps [of E chain at n] load_node_loaded_id [OF ld])
  next
    case (Some c)
    have "nsize c < nsize n" "all_nodes nloaded c" using nleft_size [of n] loaded_child [OF less.prems, of 0] Some by simp_all
    then obtain n' refs' where "visit_root_chain E (nentries n = []) (child_place n 0 at) c refs missing = (Inr missing, n', refs')"
      using less.hyps by blast
    then show ?thesis using Some by (simp add: visit_root_chain.simps [of E chain at n] load_node_loaded_id [OF ld])
  qed
qed

lemma visit_merge_total:
  "all_opt nloaded l \<Longrightarrow> all_opt nloaded r \<Longrightarrow>
   \<exists>lr refs'. visit_merge E chain lat rat l r refs missing = (Inr missing, lr, refs')"
proof (induction "osize l + osize r" arbitrary: chain lat rat l r rule: less_induct)
  case less
  consider a b where "l = Some a" "r = Some b" | "l = None \<or> r = None" by (cases l; cases r) auto
  then show ?case
  proof cases
    case (1 a b)
    then have ld: "nloaded a" "nloaded b" using less.prems by (simp_all add: all_nodes_sel)
    let ?j = "length (nentries a)"
    obtain cl cr refs' where "visit_merge E (chain \<and> nentries a = [] \<and> nentries b = []) (child_place a ?j lat) (child_place b 0 rat)
        (child a ?j) (child b 0) refs missing = (Inr missing, (cl, cr), refs')"
      using less.hyps [of "child a ?j" "child b 0"] loaded_child [of a ?j] loaded_child [of b 0] less.prems 1
        child_size [of ?j a] child_size [of 0 b] by (metis add_strict_mono all_opt.simps(2) le0 order_refl osize.simps(2) surj_pair)
    then show ?thesis unfolding 1 visit_merge.simps(1) load_node_loaded_id [OF ld(1)] load_node_loaded_id [OF ld(2)]
      by (simp add: Let_def)
  next
    case 2
    have one: "\<exists>n' refs'. visit_root_chain E chain at n refs missing = (Inr missing, n', refs')" if "all_nodes nloaded n" for n at
      by (rule visit_root_chain_total [OF that])
    show ?thesis
    proof (cases l)
      case None
      show ?thesis
      proof (cases r)
        case (Some b)
        with \<open>l = None\<close> one [of b rat] less.prems(2) show ?thesis by fastforce
      qed (use \<open>l = None\<close> in simp)
    next
      case (Some a)
      with 2 one [of a lat] less.prems(1) show ?thesis by fastforce
    qed
  qed
qed

lemma visit_key_path_total:
  "all_nodes nloaded n \<Longrightarrow> \<exists>n' refs'. visit_key_path E key visit on_top at n refs missing = (Inr missing, n', refs')"
proof (induction "nsize n" arbitrary: on_top at n rule: less_induct)
  case less
  have ld: "nloaded n" using less.prems by (simp add: all_nodes_sel)
  note load = load_node_loaded_id [OF ld]
  show ?case
  proof (cases "search_entries (nentries n) key")
    case (Inr i)
    then have i: "i < length (nentries n)" by (rule search_entries_le)
    obtain l r refs' where "visit_merge E (on_top \<and> length (nentries n) = 1) (child_place n i at) (child_place n (i + 1) at)
        (child n i) (child n (i + 1)) refs missing = (Inr missing, (l, r), refs')"
      using visit_merge_total loaded_child [OF less.prems, of i] loaded_child [OF less.prems, of "i + 1"] i
      by (metis Suc_eq_plus1 Suc_leI less_imp_le surj_pair)
    then show ?thesis using Inr by (cases visit) (simp_all add: visit_key_path.simps [of E key _ on_top at n] load Let_def)
  next
    case (Inl i)
    then have i: "i \<le> length (nentries n)" by (rule search_entries_le)
    show ?thesis
    proof (cases "child n i")
      case None
      then show ?thesis using Inl by (simp add: visit_key_path.simps [of E key visit on_top at n] load)
    next
      case (Some c)
      have "nsize c < nsize n" "all_nodes nloaded c"
        using child_size [OF i] loaded_child [OF less.prems i] Some by simp_all
      then obtain c' refs' where "visit_key_path E key visit (on_top \<and> nentries n = []) (child_place n i at) c refs missing =
          (Inr missing, c', refs')" using less.hyps by blast
      then show ?thesis using Inl Some by (simp add: visit_key_path.simps [of E key visit on_top at n] load)
    qed
  qed
qed

lemma load_key_path_loaded:
  assumes "all_opt nloaded (t_root t)" "usable \<sigma> t"
  shows "load_key_path E key visit t = (Inr (map_of (contents \<sigma> t) key), t) \<and> ready visit key (t_root t)"
proof (cases "t_root t")
  case None
  then show ?thesis by (simp add: load_key_path_def contents_def ready_def)
next
  case (Some n)
  have n: "all_nodes nloaded n" "ksorted (inorder \<sigma> n)" using assms Some by (simp_all add: usable_def contents_def)
  obtain n' refs' where v: "visit_key_path E key visit True ROOT n (t_refs t) [] = (Inr [], n', refs')"
    using visit_key_path_total [OF n(1)] by blast
  have id: "n' = n" "refs' = t_refs t" using loads_loaded_id [OF visit_key_path_loads [OF v] n(1)] by simp_all
  have rd: "path_ready key n \<and> (visit = Remove \<longrightarrow> remove_ready key n \<and> trim_ready key n)"
    using visit_key_path_ready [OF v] id by simp
  have "get_node (no_blocks E) ROOT key n (t_refs t) = (Inr (map_of (inorder \<sigma> n) key), n, t_refs t)"
    using get_node_ready [of key n \<sigma> "no_blocks E"] rd n(2) by simp
  then show ?thesis using Some v id rd by (simp add: load_key_path_def contents_def ready_def)
qed

section \<open>Shape\<close>

lemma set_value_shape: "eshaped H S h (set_value e v) \<longleftrightarrow> eshaped H S h e"
  by (cases e) simp

lemma update_node_shape:
  assumes "update_node n key val released = Inr (n', released')" "body H S n"
  shows "body H S n' \<and> nheight n' = nheight n \<and> (filled n \<longrightarrow> filled n') \<and> (nentries n \<noteq> [] \<longrightarrow> nentries n' \<noteq> [])"
  using assms
proof (induction "nsize n" arbitrary: n released n' released' rule: less_induct)
  case less
  let ?t = "fst (touch n released)" and ?es = "nentries n"
  have ld: "nloaded n" using less.prems(2) by (simp add: body_def)
  then have rl: "require_loaded n = Inr ()" by simp
  note step = less.prems(1) [unfolded update_node.simps [of n] rl and_then_simps Let_def case_prod_beta]
  show ?case
  proof (cases "search_entries ?es key")
    case (Inr i)
    have i: "i < length ?es" by (rule search_entries_le(2) [OF Inr])
    have n': "n' = set_entries ?t (?es[i := set_value (?es ! i) val])" using step Inr by auto
    have "\<forall>e \<in> set (?es[i := set_value (?es ! i) val]). eshaped H S (nheight n) e"
      using less.prems(2) set_update_subset_insert [of ?es i "set_value (?es ! i) val"] nth_mem [OF i]
      by (auto simp: body_def set_value_shape)
    then have "body H S n'" unfolding n' using less.prems(2) by (intro body_set_entries) simp_all
    then show ?thesis using i by (auto simp: n' filled_def)
  next
    case (Inl i)
    note i = search_entries_le(1) [OF Inl]
    obtain c c' rel where c: "child n i = Some c" "update_node c key val (released @ cid_list (ncid n)) = Inr (c', rel)"
      "n' = set_child ?t i (Some c')"
      using step Inl by (auto split: option.splits)
    have oc: "oshaped H S (nheight n) (Some c)" using body_child [OF less.prems(2) i] c(1) by simp
    have "nsize c < nsize n" using child_size [OF i] c(1) by simp
    moreover have "nloaded c" using c(2) by (auto simp: update_node.simps [of c])
    ultimately have "body H S c' \<and> nheight c' = nheight c \<and> filled c'"
      using less.hyps [OF _ c(2)] oc by (simp add: shaped_loaded)
    moreover from this have "nloaded c'" by (simp add: body_def)
    ultimately have "oshaped H S (nheight n) (Some c')" using oc by (simp add: shaped_loaded)
    then have "body H S n'" unfolding c(3) using less.prems(2) i by (intro body_set_child) simp_all
    then show ?thesis using i by (auto simp: c(3) filled_def intro: filled_set_child [unfolded filled_def])
  qed
qed

section \<open>Trees built in memory\<close>

text \<open>
  The trees a caller reaches from \<open>DetachedTree::new\<close> by any calls, with any block sources that
  agree with \<open>\<sigma>\<close>.
\<close>

inductive built :: "contents \<Rightarrow> compress_fn \<Rightarrow> tree \<Rightarrow> bool" for \<sigma> :: contents and C :: compress_fn where
  built_new: "built \<sigma> C tree_new"
| built_get: "built \<sigma> C t \<Longrightarrow> models E \<sigma> \<Longrightarrow> tree_get E key t = (r, t') \<Longrightarrow> built \<sigma> C t'"
| built_insert: "built \<sigma> C t \<Longrightarrow> models E \<sigma> \<Longrightarrow> compress256 E = C \<Longrightarrow> tree_insert E key val t = (r, t') \<Longrightarrow> built \<sigma> C t'"
| built_remove: "built \<sigma> C t \<Longrightarrow> models E \<sigma> \<Longrightarrow> tree_remove E key t = (r', t') \<Longrightarrow> built \<sigma> C t'"
| built_flush: "built \<sigma> C t \<Longrightarrow> compress256 E = C \<Longrightarrow> tree_flush E t = (w, t') \<Longrightarrow> built \<sigma> C t'"

definition built_inv :: "contents \<Rightarrow> compress_fn \<Rightarrow> tree \<Rightarrow> bool" where
  "built_inv \<sigma> C t \<longleftrightarrow> usable \<sigma> t \<and> accounted t \<and> (t_root t \<noteq> None \<longrightarrow> t_empty_root t = None) \<and>
     canonical (height_for_key C) no_stubs (t_root t) \<and> all_opt (resident C) (t_root t)"

lemma canonical_body:
  "canonical H no_stubs (Some n) \<Longrightarrow> body H no_stubs n \<and> filled n \<and> nentries n \<noteq> []"
  by (auto simp: canonical_def shaped_no_stubs)

lemma canonicalI: "body H S n \<Longrightarrow> nentries n \<noteq> [] \<Longrightarrow> canonical H S (Some n)"
  by (auto simp: canonical_def shaped_loaded filled_def body_def)

lemma resident_insert:
  assumes "tree_insert E key val t = (r, t')" "compress256 E = C" "built_inv \<sigma> C t" "\<not> t_poisoned t'"
  shows "canonical (height_for_key C) no_stubs (t_root t') \<and> all_opt (resident C) (t_root t') \<and>
    (t_root t' \<noteq> None \<longrightarrow> t_empty_root t' = None)"
proof -
  let ?H = "height_for_key C"
  have inv: "usable \<sigma> t" "canonical ?H no_stubs (t_root t)" "all_opt (resident C) (t_root t)" "t_root t \<noteq> None \<longrightarrow> t_empty_root t = None"
    using assms(3) by (simp_all add: built_inv_def)
  have lk: "load_key_path E key Lookup t = (Inr (map_of (contents \<sigma> t) key), t)"
    using load_key_path_loaded [OF resident_parts(1) [OF inv(3)] inv(1)] by blast
  from assms(1,4) show ?thesis
  proof (cases rule: tree_insert_cases)
    case same
    then show ?thesis using lk inv by auto
  next
    case (upd t1 r1 n n' rel)
    then have t1: "t1 = t" using lk by simp
    have n: "body ?H no_stubs n" "nentries n \<noteq> []" "parts (resident C) n"
      using inv(2,3) upd(2) t1 canonical_body by (auto simp: all_nodes_sel)
    have "canonical ?H no_stubs (Some n')" using update_node_shape [OF upd(3) n(1)] n(2) by (intro canonicalI) simp_all
    moreover have "all_nodes (resident C) n'" by (rule update_node_account(2) [OF upd(3) clean_resident n(3)])
    ultimately show ?thesis using upd(2,4) t1 inv(4) by simp
  next
    case (ins t1 r1 n' rel)
    then have t1: "t1 = t" using lk by simp
    let ?h = "height_for_key (compress256 E) key"
    have "case t_root t of None \<Rightarrow> True | Some n \<Rightarrow> body ?H no_stubs n \<and> (nheight n < ?h \<longrightarrow> filled n)"
      using inv(2) canonical_body by (auto split: option.splits)
    moreover have "case t_root t of None \<Rightarrow> True | Some n \<Rightarrow> nentries n \<noteq> [] \<or> nheight n \<le> ?h"
      using inv(2) canonical_body by (auto split: option.splits)
    ultimately have "shaped ?H no_stubs n' \<and> nloaded n' \<and> nentries n' \<noteq> []"
      using insert_shape(1) [OF ins(2), of ?H no_stubs] assms(2) t1 by blast
    moreover have "case t_root t of None \<Rightarrow> True | Some n \<Rightarrow> parts (resident C) n \<and> (nheight n < ?h \<longrightarrow> resident C n)"
      using inv(3) by (cases "t_root t") (simp_all add: all_nodes_sel)
    then have "all_nodes (resident C) n'" using insert_account(1) [OF ins(2), where Q = "resident C"] clean_resident t1 by blast
    ultimately show ?thesis using ins(3) t1 inv(4) by (simp add: canonical_def)
  qed
qed

lemma resident_remove:
  assumes "tree_remove E key t = (r, t')" "built_inv \<sigma> C t"
  shows "canonical (height_for_key C) no_stubs (t_root t') \<and> all_opt (resident C) (t_root t') \<and>
    (t_root t' \<noteq> None \<longrightarrow> t_empty_root t' = None) \<and> r = Inr (map_of (contents \<sigma> t) key)"
proof -
  let ?H = "height_for_key C" and ?v = "map_of (contents \<sigma> t) key"
  have inv: "usable \<sigma> t" "canonical ?H no_stubs (t_root t)" "all_opt (resident C) (t_root t)" "t_root t \<noteq> None \<longrightarrow> t_empty_root t = None"
    using assms(2) by (simp_all add: built_inv_def)
  have np: "\<not> t_poisoned t" using inv(1) by (simp add: usable_def)
  have lk: "load_key_path E key Remove t = (Inr ?v, t)" "ready Remove key (t_root t)"
    using load_key_path_loaded [OF resident_parts(1) [OF inv(3)] inv(1)] by blast+
  show ?thesis
  proof (cases ?v)
    case None
    then have "t' = t" "r = Inr None" using assms(1) np lk by (simp_all add: tree_remove_def)
    then show ?thesis using inv None by simp
  next
    case (Some v)
    then obtain n where n: "t_root t = Some n" by (cases "t_root t") (auto simp: contents_def)
    have sn: "ksorted (inorder \<sigma> n)" "map_of (inorder \<sigma> n) key = Some v"
      using inv(1) n Some by (simp_all add: usable_def contents_def)
    obtain n' rel where u: "remove_from_root n key (t_released t) = Inr ((n', Some v), rel)"
      using remove_step [of key n \<sigma> "t_released t"] lk(2) n sn by metis
    have t': "t' = t\<lparr>t_root := n', t_released := rel\<rparr>" "r = Inr (Some v)"
      using assms(1) np lk(1) Some n u by (simp_all add: tree_remove_def)
    have "shaped ?H no_stubs n" using inv(2) n by (simp add: canonical_def)
    then have "canonical ?H no_stubs n'" by (rule remove_from_root_shape [OF u])
    moreover have "all_opt (resident C) n'"
      using remove_from_root_account(2) [OF u clean_resident] inv(3) n by (simp add: all_nodes_sel)
    ultimately show ?thesis using t' n inv(4) Some by simp
  qed
qed

lemma shaped_erase:
  shows "shaped H no_stubs (erase n) \<longleftrightarrow> shaped H no_stubs n" and "oshaped H no_stubs h (oerase m) \<longleftrightarrow> oshaped H no_stubs h m"
    and "eshaped H no_stubs h (eerase e) \<longleftrightarrow> eshaped H no_stubs h e"
proof (induction n and m and e arbitrary: and h and h rule: erase_oerase_eerase.induct)
  case (1 l es c h ld)
  have "oerase l \<noteq> None \<longleftrightarrow> l \<noteq> None" by (cases l) simp_all
  with 1 show ?case by (cases c) auto
next
  case (3 n)
  then show ?case by (cases n) auto
qed auto

lemma canonical_erase: "canonical H no_stubs (oerase m) \<longleftrightarrow> canonical H no_stubs m"
proof (cases m)
  case (Some n)
  have "nloaded (erase n) = nloaded n" "nheight (erase n) = nheight n" "nentries (erase n) = [] \<longleftrightarrow> nentries n = []"
    by (simp_all add: erase_sel)
  then show ?thesis using Some shaped_erase(1) [of H n] by (simp add: canonical_def)
qed simp

lemma flush_written:
  assumes "tree_flush E t = (Inr w, t')" "all_opt (hashed (compress256 E)) (t_root t)"
  shows "(case t_root t of
      None \<Rightarrow> t_root t' = None \<and> (\<exists>data. empty_node_block (compress256 E) = Inr (w_root w, data))
    | Some n \<Rightarrow> w_root w = merkle (compress256 E) n \<and>
        (\<exists>n'. t_root t' = Some n' \<and> all_nodes (hashed (compress256 E)) n' \<and> erase n' = erase n))"
proof -
  have settle_root: "settle ws root u = Inr (w, u') \<Longrightarrow> w_root w = root \<and> t_root u' = t_root u" for ws root u u'
    by (auto simp: settle_def Let_def split: prod.splits)
  show ?thesis
  proof (cases "t_root t")
    case None
    then show ?thesis
      using assms(1) settle_root
      by (auto simp: tree_flush_def guarded_def poison_def Let_def split: sum.splits prod.splits)
  next
    case (Some n)
    then obtain c n' ws where w: "write_node (compress256 E) n [] = Inr (c, n', ws)"
      "settle ws c (t\<lparr>t_root := Some n'\<rparr>) = Inr (w, t')"
      using assms(1) by (auto simp: tree_flush_def guarded_def poison_def Let_def split: sum.splits)
    have "all_nodes (hashed (compress256 E)) n" using assms(2) Some by simp
    with write_merkle(1) [OF _ w(1)] settle_root [OF w(2)] Some show ?thesis by auto
  qed
qed

lemma resident_flush:
  assumes "tree_flush E t = (Inr w, t')" "compress256 E = C" "built_inv \<sigma> C t"
  shows "canonical (height_for_key C) no_stubs (t_root t') \<and> all_opt (resident C) (t_root t')"
proof -
  have inv: "canonical (height_for_key C) no_stubs (t_root t)" "all_opt (resident C) (t_root t)"
    using assms(3) by (simp_all add: built_inv_def)
  have h: "all_opt (hashed (compress256 E)) (t_root t)" using resident_parts(2) [OF inv(2)] assms(2) by simp
  have e: "oerase (t_root t') = oerase (t_root t)" "all_opt (hashed C) (t_root t')"
    using flush_written [OF assms(1) h] assms(2) by (auto split: option.splits)
  have "canonical (height_for_key C) no_stubs (t_root t')" using inv(1) e(1) canonical_erase by metis
  moreover have "all_opt nloaded (t_root t')" using all_loaded_erase(2) e(1) resident_parts(1) [OF inv(2)] by metis
  ultimately show ?thesis using all_nodes_conj(2) e(2) unfolding resident_def by blast
qed

lemma built_inv_holds:
  assumes "built \<sigma> C t"
  shows "built_inv \<sigma> C t"
  using assms
proof (induction rule: built.induct)
  case built_new
  then show ?case using accounted_new
    by (simp add: built_inv_def usable_def contents_def canonical_def) (simp add: tree_new_def)
next
  case (built_get t E key r t')
  have l: "all_opt nloaded (t_root t)" using built_get.IH resident_parts(1) by (auto simp: built_inv_def)
  have "t' = t"
  proof (cases "t_root t")
    case None
    then show ?thesis using built_get.hyps by (auto simp: tree_get_def guarded_def split: sum.splits)
  next
    case (Some n)
    obtain r1 n1 refs1 where g: "get_node E ROOT key n (t_refs t) = (r1, n1, refs1)" by (metis prod_cases3)
    then have "n1 = n" "refs1 = t_refs t" using loads_loaded_id [OF get_node_loads [OF g]] l Some by simp_all
    then show ?thesis using built_get.hyps Some g by (auto simp: tree_get_def guarded_def split: sum.splits)
  qed
  then show ?case using built_get.IH by simp
next
  case (built_insert t E key val r t')
  have u: "usable \<sigma> t'"
    using tree_insert_spec [OF built_insert.hyps(4) _ built_insert.hyps(2)] built_insert.IH by (auto simp: built_inv_def)
  then have np: "\<not> t_poisoned t'" by (simp add: usable_def)
  have "accounted t'" using accounted_insert [OF built_insert.hyps(4) _ np] built_insert.IH by (simp add: built_inv_def)
  then show ?case
    using u resident_insert [OF built_insert.hyps(4,3) built_insert.IH np] by (simp add: built_inv_def)
next
  case (built_remove t E key r' t')
  have "usable \<sigma> t" "accounted t" using built_remove.IH by (simp_all add: built_inv_def)
  then show ?case
    using tree_remove_spec [OF built_remove.hyps(3) _ built_remove.hyps(2)] resident_remove [OF built_remove.hyps(3) built_remove.IH]
      accounted_remove [OF built_remove.hyps(3) _ _ built_remove.hyps(2)] by (auto simp: built_inv_def)
next
  case (built_flush t E w t')
  have i: "usable \<sigma> t" "accounted t" "\<not> t_poisoned t" "t_root t \<noteq> None \<longrightarrow> t_empty_root t = None"
    using built_flush.IH by (auto simp: built_inv_def usable_def)
  obtain w' where w: "w = Inr w'" "accounted t'" "\<not> t_poisoned t'" "contents \<sigma> t' = contents \<sigma> t"
    "t_root t' \<noteq> None \<longrightarrow> t_empty_root t' = None"
    using tree_flush_ok [OF i(2,3,4), of E] built_flush.hyps(3) by auto
  then show ?case
    using resident_flush [OF _ built_flush.hyps(2) built_flush.IH] built_flush.hyps(3) i(1)
    by (simp add: built_inv_def usable_def)
qed

end
