(* ===== verification/Mst_Contract.thy ===== *)
theory Mst_Contract
  imports Mst_Merkle
begin

text \<open>
  The contract of the tree towards its callers, as a locale: a map whose operations may fail, in
  which case nothing changed. It is interpreted on \<open>DetachedTree\<close>, and what a sequence of edits
  does is proved once from the contract.
\<close>

section \<open>A map with operations that may fail\<close>

datatype ('k, 'v) edit = Put 'k 'v | Del 'k

fun edit_map :: "('k, 'v) edit \<Rightarrow> ('k \<rightharpoonup> 'v) \<Rightarrow> ('k \<rightharpoonup> 'v)" where
  "edit_map (Put k v) m = m(k \<mapsto> v)"
| "edit_map (Del k) m = m(k := None)"

text \<open>Applying edits in order, up to the first that fails.\<close>

fun apply_edits :: "('k \<Rightarrow> 'v \<Rightarrow> 's \<Rightarrow> ('e + 'v option) \<times> 's) \<Rightarrow> ('k \<Rightarrow> 's \<Rightarrow> ('e + 'v option) \<times> 's) \<Rightarrow>
    ('k, 'v) edit list \<Rightarrow> 's \<Rightarrow> ('e + unit) \<times> 's" where
  "apply_edits put del [] s = (Inr (), s)"
| "apply_edits put del (e # es) s =
     (case (case e of Put k v \<Rightarrow> put k v s | Del k \<Rightarrow> del k s) of
        (Inl er, s) \<Rightarrow> (Inl er, s)
      | (Inr _, s) \<Rightarrow> apply_edits put del es s)"

locale failsafe_map =
  fixes inv :: "'s \<Rightarrow> bool" and look :: "'s \<Rightarrow> 'k \<Rightarrow> 'v option"
    and put :: "'k \<Rightarrow> 'v \<Rightarrow> 's \<Rightarrow> ('e + 'v option) \<times> 's"
    and del :: "'k \<Rightarrow> 's \<Rightarrow> ('e + 'v option) \<times> 's"
    and get :: "'k \<Rightarrow> 's \<Rightarrow> ('e + 'v option) \<times> 's"
  assumes put_spec: "inv s \<Longrightarrow> put k v s = (r, s') \<Longrightarrow>
      inv s' \<and> (case r of Inl e \<Rightarrow> look s' = look s | Inr p \<Rightarrow> p = look s k \<and> look s' = (look s)(k \<mapsto> v))"
    and del_spec: "inv s \<Longrightarrow> del k s = (r, s') \<Longrightarrow>
      inv s' \<and> (case r of Inl e \<Rightarrow> look s' = look s | Inr p \<Rightarrow> p = look s k \<and> look s' = (look s)(k := None))"
    and get_spec: "inv s \<Longrightarrow> get k s = (r, s') \<Longrightarrow> inv s' \<and> look s' = look s \<and> (\<forall>p. r = Inr p \<longrightarrow> p = look s k)"
begin

lemma edit_step:
  assumes "inv s" "(case e of Put k v \<Rightarrow> put k v s | Del k \<Rightarrow> del k s) = (r, s')"
  shows "inv s' \<and> (case r of Inl er \<Rightarrow> look s' = look s | Inr p \<Rightarrow> look s' = edit_map e (look s))"
proof (cases e)
  case (Put k v)
  then have "put k v s = (r, s')" using assms(2) by simp
  from put_spec [OF assms(1) this] Put show ?thesis by (cases r) auto
next
  case (Del k)
  then have "del k s = (r, s')" using assms(2) by simp
  from del_spec [OF assms(1) this] Del show ?thesis by (cases r) auto
qed

lemma apply_edits_spec:
  assumes "inv s" "apply_edits put del es s = (r, s')"
  shows "inv s' \<and> (\<exists>n \<le> length es. look s' = fold edit_map (take n es) (look s) \<and> (r = Inr () \<longrightarrow> n = length es))"
  using assms
proof (induction es arbitrary: s)
  case (Cons e es)
  obtain r1 s1 where step: "(case e of Put k v \<Rightarrow> put k v s | Del k \<Rightarrow> del k s) = (r1, s1)" by fastforce
  note st = edit_step [OF Cons.prems(1) step]
  show ?case
  proof (cases r1)
    case (Inl er)
    then show ?thesis using Cons.prems(2) step st by (auto intro!: exI [of _ 0])
  next
    case (Inr p)
    then have "apply_edits put del es s1 = (r, s')" using Cons.prems(2) step by simp
    from Cons.IH [OF _ this] st Inr obtain n where n: "inv s'" "n \<le> length es"
      "look s' = fold edit_map (take n es) (look s1)" "r = Inr () \<longrightarrow> n = length es" by auto
    then show ?thesis using st Inr by (auto intro!: exI [of _ "Suc n"])
  qed
qed auto

lemma apply_edits_ok:
  assumes "inv s" "apply_edits put del es s = (Inr (), s')"
  shows "inv s' \<and> look s' = fold edit_map es (look s)"
  using apply_edits_spec [OF assms] by auto

lemma put_then_get:
  assumes "inv s" "put k v s = (Inr p, s1)" "get k' s1 = (Inr q, s2)"
  shows "q = (if k' = k then Some v else look s k')"
  using put_spec [OF assms(1,2)] get_spec [of s1 k' "Inr q" s2] assms(3) by auto

end

section \<open>The tree as such a map\<close>

text \<open>
  \<open>DetachedTree\<close> keeps the contract with every block source \<open>E\<close> that agrees with the contents
  \<open>\<sigma>\<close> of the stored subtrees.
\<close>

interpretation mst: failsafe_map "\<lambda>t. models E \<sigma> \<and> usable \<sigma> t" "\<lambda>t. map_of (contents \<sigma> t)"
  "tree_insert E" "tree_remove E" "tree_get E" for E \<sigma>
proof (unfold_locales, goal_cases)
  case (1 t k v r t')
  then have "ksorted (contents \<sigma> t)" by (simp add: usable_def)
  then show ?case using tree_insert_spec [OF 1(2)] 1(1) by (auto simp: map_of_upd_list split: sum.splits)
next
  case (2 t k r t')
  then show ?case using tree_remove_spec [OF 2(2)] by (auto simp: map_of_del_list split: sum.splits)
next
  case (3 t k r t')
  then show ?case using tree_get_spec [OF 3(2)] by auto
qed

end
