(* ===== verification/Mst_Correct.thy ===== *)
theory Mst_Correct
  imports Mst_Contract
begin

text \<open>
  The properties of \<open>DetachedTree\<close> (\<open>src/src/mst/tree.rs\<close>, \<open>src/src/mst/diff.rs\<close>), over the lemmas of
  the theories below. \<open>\<sigma>\<close> gives the contents of the subtree stored under each CID, and
  \<open>models E \<sigma>\<close> says that the blocks of the source \<open>E\<close> agree with it.
\<close>

section \<open>A stored tree of one record\<close>

definition leaf_node :: node where
  "leaf_node = Node None [Entry (lit ''a/b'') cid_zeroed None] None (height_for_key (\<lambda>s _. s) (lit ''a/b'')) True"

definition leaf_env :: env where
  "leaf_env = \<lparr>read_block = (\<lambda>_. and_then (encode_node leaf_node []) (\<lambda>b. Inr (Some b))),
     simd_utf8 = (\<lambda>_. True), compress256 = (\<lambda>s _. s)\<rparr>"

definition leaf_contents :: contents where
  "leaf_contents = (\<lambda>_. [(lit ''a/b'', cid_zeroed)])"

lemma leaf_node_data:
  "data_of leaf_node = \<lparr>nd_left = None,
     nd_entries = [\<lparr>prefix_len = 0, key_suffix = lit ''a/b'', ed_value = cid_zeroed, ed_right = None\<rparr>]\<rparr>"
  by (simp add: data_of_def leaf_node_def link_cid_def)

lemma leaf_writable: "writable leaf_env leaf_node"
  unfolding writable_def leaf_node_data
  by (simp add: leaf_node_def leaf_env_def links_written_def has_cid_def is_valid_key_def node_links_def
      key_byte_def ascii_defs of_char_def MAX_KEY_LEN_def MAX_ENTRIES_PER_NODE_def cid_valid_def cid_zeroed_def)

lemma leaf_models: "models leaf_env leaf_contents"
proof -
  have enc: "encode_node leaf_node [] = Inr (enc (node_value (data_of leaf_node)))"
    using encode_node_data_of encode_node_data_enc [OF node_ok_lengths [OF writable_node_ok [OF leaf_writable]]] leaf_writable
    by (simp add: writable_def)
  have "decode_node_data (\<lambda>_. True) (enc (node_value (data_of leaf_node))) = Inr (data_of leaf_node)"
    by (rule decode_node_value [OF writable_node_ok [OF leaf_writable]]) (simp add: ascii_keys_def)
  moreover have "for_each_key None (nd_entries (data_of leaf_node)) = Inr [lit ''a/b'']"
    using for_each_key_compress [of "nentries leaf_node" None "[]"] leaf_writable
    by (simp add: data_of_def writable_def) (simp add: leaf_node_def)
  ultimately show ?thesis
    by (auto simp: models_def leaf_env_def leaf_contents_def enc leaf_node_data)
qed

lemma leaf_usable: "usable leaf_contents (tree_load c)"
  by (simp add: usable_def contents_def tree_load_def tree_new_def leaf_contents_def stub_def)

lemma leaf_load_contents: "contents leaf_contents (tree_load c) = [(lit ''a/b'', cid_zeroed)]"
  by (simp add: contents_def tree_load_def tree_new_def leaf_contents_def stub_def)

section \<open>Lookup, insert and remove\<close>

text \<open>
  C24. A lookup that succeeds returns the value the tree's contents hold for the key, and no
  lookup, failed ones included, changes the contents or makes the tree unusable.
\<close>

theorem tree_get_correct:
  assumes "models E \<sigma>" "usable \<sigma> t"
  shows "case tree_get E key t of (r, t') \<Rightarrow> usable \<sigma> t' \<and> contents \<sigma> t' = contents \<sigma> t \<and>
    (case r of Inl e \<Rightarrow> True | Inr v \<Rightarrow> v = map_of (contents \<sigma> t) key)"
  using tree_get_spec [OF _ assms(2,1)] by (auto split: prod.split sum.split)

theorem tree_get_correct_witness:
  "case tree_get leaf_env (lit ''a/b'') (tree_load cid_zeroed) of (r, t') \<Rightarrow>
     contents leaf_contents t' = [(lit ''a/b'', cid_zeroed)] \<and>
     (case r of Inl e \<Rightarrow> True | Inr v \<Rightarrow> v = Some cid_zeroed)"
  using tree_get_correct [OF leaf_models leaf_usable [of cid_zeroed], where key = "lit ''a/b''"]
  by (auto simp: leaf_load_contents split: prod.splits sum.splits)

text \<open>
  C23. An insert that succeeds was given a valid key, returns the value the key had before and
  leaves the sorted contents with exactly that key set; one that fails leaves the contents as they
  were and the tree usable.
\<close>

theorem tree_insert_correct:
  assumes "models E \<sigma>" "usable \<sigma> t"
  shows "case tree_insert E key val t of (r, t') \<Rightarrow> usable \<sigma> t' \<and>
    (case r of
       Inl e \<Rightarrow> contents \<sigma> t' = contents \<sigma> t
     | Inr prev \<Rightarrow> is_valid_key key \<and> prev = map_of (contents \<sigma> t) key \<and>
         contents \<sigma> t' = upd_list key val (contents \<sigma> t))"
  using tree_insert_spec [OF _ assms(2,1)] by (auto split: prod.split)

theorem tree_insert_correct_witness:
  "case tree_insert leaf_env (lit ''a/a'') cid_zeroed (tree_load cid_zeroed) of (r, t') \<Rightarrow>
     usable leaf_contents t' \<and>
     (case r of
        Inl e \<Rightarrow> contents leaf_contents t' = [(lit ''a/b'', cid_zeroed)]
      | Inr prev \<Rightarrow> prev = None \<and> contents leaf_contents t' = [(lit ''a/a'', cid_zeroed), (lit ''a/b'', cid_zeroed)])"
  using tree_insert_correct [OF leaf_models leaf_usable [of cid_zeroed], where key = "lit ''a/a''" and val = cid_zeroed]
  by (auto simp: leaf_load_contents of_char_def split: prod.splits sum.splits)

text \<open>
  A remove that succeeds returns the value the key had, if any, and leaves the contents
  without that key and otherwise unchanged; one that fails changes nothing and leaves the tree
  usable.
\<close>

lemma tree_remove_correct:
  assumes "models E \<sigma>" "usable \<sigma> t"
  shows "case tree_remove E key t of (r, t') \<Rightarrow> usable \<sigma> t' \<and>
    (case r of
       Inl e \<Rightarrow> contents \<sigma> t' = contents \<sigma> t
     | Inr removed \<Rightarrow> removed = map_of (contents \<sigma> t) key \<and> contents \<sigma> t' = del_list key (contents \<sigma> t))"
  using tree_remove_spec [OF _ assms(2,1)] by (auto split: prod.split)

text \<open>
  C3. Refinement of the abstract map: whatever sequence of inserts and removes runs, up to the
  first that fails, the tree ends with the map the edits that ran make of the map it had.
\<close>

theorem tree_edits_refine:
  assumes "models E \<sigma>" "usable \<sigma> t"
  shows "case apply_edits (tree_insert E) (tree_remove E) es t of (r, t') \<Rightarrow> usable \<sigma> t' \<and>
    (\<exists>n \<le> length es. map_of (contents \<sigma> t') = fold edit_map (take n es) (map_of (contents \<sigma> t)) \<and>
      (case r of Inl e \<Rightarrow> True | Inr _ \<Rightarrow> n = length es))"
proof -
  obtain r t' where a: "apply_edits (tree_insert E) (tree_remove E) es t = (r, t')" by fastforce
  from mst.apply_edits_spec [OF _ a, of \<sigma>] assms a show ?thesis by (fastforce split: sum.splits)
qed

theorem tree_edits_refine_witness:
  "case apply_edits (tree_insert leaf_env) (tree_remove leaf_env) [Put (lit ''a/c'') cid_zeroed, Del (lit ''a/b'')]
       (tree_load cid_zeroed) of (r, t') \<Rightarrow>
     (case r of Inl e \<Rightarrow> True | Inr _ \<Rightarrow> map_of (contents leaf_contents t') = [lit ''a/c'' \<mapsto> cid_zeroed])"
  using tree_edits_refine [OF leaf_models leaf_usable [of cid_zeroed], where es = "[Put (lit ''a/c'') cid_zeroed, Del (lit ''a/b'')]"]
  by (auto simp: leaf_load_contents of_char_def fun_eq_iff split: prod.splits sum.splits)

section \<open>Sourcing the blocks first\<close>

text \<open>
  C31. \<open>missing_blocks\<close> does what its callers need: when it reports that nothing is missing for a
  set of keys, an insert of any of those keys that is valid succeeds, whatever the source then
  has or lacks.
\<close>

theorem missing_blocks_enable_insert:
  assumes "models E \<sigma>" "usable \<sigma> t" "missing_blocks E keys t = (Inr [], t')" "key \<in> set keys" "is_valid_key key"
  shows "\<exists>t''. tree_insert E' key val t' = (Inr (map_of (contents \<sigma> t) key), t'')"
proof -
  have m: "missing_for E keys Lookup t = (Inr [], t')" using assms(3) by (simp add: missing_blocks_def)
  have np: "\<not> t_poisoned t" using assms(2) by (simp add: usable_def)
  have "ready Lookup key (t_root t')"
  proof (cases "t_root t")
    case None
    then show ?thesis using m np by (auto simp: missing_for_def ready_def)
  next
    case (Some n)
    obtain r n' refs' where v: "visit_keys E Lookup keys n (t_refs t) [] = (r, n', refs')" by (metis prod_cases3)
    then have r: "and_then r (\<lambda>missing. Inr (remdups_adj (sort missing))) = Inr []" "t_root t' = Some n'"
      using m np Some by (auto simp: missing_for_def)
    then obtain ms where ms: "r = Inr ms" "remdups_adj (sort ms) = []" by (cases r) auto
    have "length ms = 0" using ms(2) by (metis length_sort list.size(3) remdups_adj_Nil_iff)
    then have "ms = []" by simp
    then show ?thesis using visit_keys_ready [of E keys n "t_refs t" n' refs'] v ms(1) assms(4) r(2) by (simp add: ready_def)
  qed
  from ready_insert [OF this _ assms(5)] missing_for_spec [OF m assms(2,1)] show ?thesis by fastforce
qed

lemma leaf_empty: "usable leaf_contents tree_new"
  by (simp add: usable_def contents_def tree_new_def)

lemma leaf_key: "is_valid_key (lit ''a/b'')"
  using leaf_writable by (simp add: writable_def leaf_node_def)

theorem missing_blocks_enable_insert_witness:
  "\<exists>t''. tree_insert leaf_env (lit ''a/b'') cid_zeroed tree_new = (Inr None, t'')"
proof -
  have m: "missing_blocks leaf_env [lit ''a/b''] tree_new = (Inr [], tree_new)"
    by (simp add: missing_blocks_def missing_for_def tree_new_def)
  from missing_blocks_enable_insert [OF leaf_models leaf_empty m _ leaf_key] show ?thesis
    by (auto simp: contents_def tree_new_def)
qed

section \<open>Trees built by any calls\<close>

text \<open>
  C4. The invariant of a tree reached from an empty one by any sequence of lookups, inserts,
  removes and flushes, successful or not: it is never poisoned, its keys are in strictly ascending
  order, every node sits at the height its keys hash to and the top node is not a bare link, and
  the reference counts are the CIDs the nodes and the pending releases hold.
\<close>

theorem built_tree_invariant:
  assumes "built \<sigma> C t"
  shows "\<not> t_poisoned t \<and> ksorted (contents \<sigma> t) \<and> canonical (height_for_key C) no_stubs (t_root t) \<and> accounted t"
  using built_inv_holds [OF assms] by (simp add: built_inv_def usable_def)

text \<open>A tree with one record, built in memory.\<close>

definition one_tree :: tree where
  "one_tree = snd (tree_insert leaf_env (lit ''a/b'') cid_zeroed tree_new)"

lemma one_tree_built: "built leaf_contents (\<lambda>s _. s) one_tree"
  by (rule built_insert [OF built_new leaf_models, of "\<lambda>s _. s" "lit ''a/b''" cid_zeroed "fst (tree_insert leaf_env (lit ''a/b'') cid_zeroed tree_new)"])
    (simp_all add: one_tree_def leaf_env_def)

lemma one_tree_contents: "contents leaf_contents one_tree = [(lit ''a/b'', cid_zeroed)]"
proof -
  obtain t' where t': "tree_insert leaf_env (lit ''a/b'') cid_zeroed tree_new = (Inr None, t')"
    using ready_insert [of "lit ''a/b''" tree_new leaf_contents leaf_env cid_zeroed] leaf_empty leaf_key
    by (auto simp: ready_def contents_def tree_new_def)
  from tree_insert_spec [OF this leaf_empty leaf_models] t' show ?thesis
    by (simp add: one_tree_def contents_def) (simp add: tree_new_def)
qed

theorem built_tree_invariant_witness:
  "\<not> t_poisoned one_tree \<and> ksorted (contents leaf_contents one_tree) \<and>
   canonical (height_for_key (\<lambda>s _. s)) no_stubs (t_root one_tree) \<and> accounted one_tree"
  by (rule built_tree_invariant [OF one_tree_built])

lemma tree_remove_loaded:
  assumes "load_key_path E key Remove t = (Inr (map_of (contents \<sigma> t) key), t)" "ready Remove key (t_root t)" "usable \<sigma> t"
  shows "\<exists>t'. tree_remove E key t = (Inr (map_of (contents \<sigma> t) key), t') \<and> contents \<sigma> t' = del_list key (contents \<sigma> t)"
proof (cases "map_of (contents \<sigma> t) key")
  case None
  then show ?thesis using assms by (simp add: tree_remove_def usable_def del_list_absent)
next
  case (Some v)
  then obtain n where n: "t_root t = Some n" by (cases "t_root t") (auto simp: contents_def)
  then obtain n' rel where u: "remove_from_root n key (t_released t) = Inr ((n', map_of (inorder \<sigma> n) key), rel)"
    "oinorder \<sigma> n' = del_list key (inorder \<sigma> n)"
    using remove_step [of key n \<sigma> "t_released t"] assms(2,3) by (auto simp: usable_def contents_def)
  with assms n Some show ?thesis by (simp add: tree_remove_def usable_def contents_def)
qed

text \<open>
  On such a tree no edit fails: an insert of a valid key and a remove of any key succeed with
  any block source, return the previous value and edit the contents at that key alone.
\<close>

lemma built_tree_edits_succeed:
  assumes "built \<sigma> C t" "is_valid_key key"
  shows "(\<exists>t'. tree_insert E key val t = (Inr (map_of (contents \<sigma> t) key), t') \<and>
      contents \<sigma> t' = upd_list key val (contents \<sigma> t)) \<and>
    (\<exists>t'. tree_remove E key t = (Inr (map_of (contents \<sigma> t) key), t') \<and> contents \<sigma> t' = del_list key (contents \<sigma> t))"
proof -
  have i: "usable \<sigma> t" "all_opt nloaded (t_root t)"
    using built_inv_holds [OF assms(1)] resident_parts(1) by (auto simp: built_inv_def)
  note l = load_key_path_loaded [OF i(2,1), of E key]
  have "\<exists>t'. tree_insert E key val t = (Inr (map_of (contents \<sigma> t) key), t') \<and> contents \<sigma> t' = upd_list key val (contents \<sigma> t)"
    using tree_insert_loaded [of E key t _ t \<sigma> val] l [of Lookup] i(1) assms(2) by (auto simp: usable_def)
  moreover have "\<exists>t'. tree_remove E key t = (Inr (map_of (contents \<sigma> t) key), t') \<and> contents \<sigma> t' = del_list key (contents \<sigma> t)"
    by (rule tree_remove_loaded) (use l [of Remove] i(1) in blast)+
  ultimately show ?thesis by blast
qed

text \<open>
  The CIDs a tree holds, read off its nodes. The edits between two flushes: any lookups, inserts
  and removes, successful or not.
\<close>

definition tree_cids :: "tree \<Rightarrow> cid set" where
  "tree_cids t = {x. 0 < ocount x (t_root t)} \<union> set (cid_list (t_empty_root t))"

inductive edits :: "contents \<Rightarrow> compress_fn \<Rightarrow> tree \<Rightarrow> tree \<Rightarrow> bool" for \<sigma> :: contents and C :: compress_fn and t0 :: tree where
  edits_none: "edits \<sigma> C t0 t0"
| edits_get: "edits \<sigma> C t0 t \<Longrightarrow> models E \<sigma> \<Longrightarrow> tree_get E key t = (r, t') \<Longrightarrow> edits \<sigma> C t0 t'"
| edits_insert: "edits \<sigma> C t0 t \<Longrightarrow> models E \<sigma> \<Longrightarrow> compress256 E = C \<Longrightarrow> tree_insert E key val t = (r, t') \<Longrightarrow> edits \<sigma> C t0 t'"
| edits_remove: "edits \<sigma> C t0 t \<Longrightarrow> models E \<sigma> \<Longrightarrow> tree_remove E key t = (r', t') \<Longrightarrow> edits \<sigma> C t0 t'"

text \<open>An edit of a tree whose nodes are in memory leaves the counts to the next flush.\<close>

lemma built_loaded:
  assumes "built \<sigma> C t"
  shows "load_key_path E key visit t = (Inr (map_of (contents \<sigma> t) key), t)" "all_opt nloaded (t_root t)"
  using built_inv_holds [OF assms] resident_parts(1) load_key_path_loaded [of t \<sigma> E key visit] by (auto simp: built_inv_def)

lemma get_keeps_refs: "built \<sigma> C t \<Longrightarrow> tree_get E key t = (r, t') \<Longrightarrow> t_refs t' = t_refs t"
proof (cases "t_root t")
  case (Some n)
  assume b: "built \<sigma> C t" and g: "tree_get E key t = (r, t')"
  obtain r1 n1 refs1 where n: "get_node E ROOT key n (t_refs t) = (r1, n1, refs1)" by (metis prod_cases3)
  then have "refs1 = t_refs t" using loads_loaded_id [OF get_node_loads [OF n]] built_loaded(2) [OF b] Some by simp
  then show ?thesis using g Some n by (auto simp: tree_get_def guarded_def split: sum.splits)
qed (auto simp: tree_get_def guarded_def split: sum.splits)

lemma insert_keeps_refs: "built \<sigma> C t \<Longrightarrow> tree_insert E key val t = (r, t') \<Longrightarrow> \<not> t_poisoned t' \<Longrightarrow> t_refs t' = t_refs t"
proof -
  assume b: "built \<sigma> C t" and i: "tree_insert E key val t = (r, t')" and p: "\<not> t_poisoned t'"
  note l = built_loaded(1) [OF b, of E key Lookup]
  from i p show ?thesis by (cases rule: tree_insert_cases) (use l in auto)
qed

lemma remove_keeps_refs: "built \<sigma> C t \<Longrightarrow> tree_remove E key t = (r, t') \<Longrightarrow> t_refs t' = t_refs t"
  using built_loaded(1) [of \<sigma> C t E key Remove]
  by (auto simp: tree_remove_def guarded_def poison_def split: sum.splits option.splits prod.splits)

lemma edits_spec:
  assumes "built \<sigma> C t0" "edits \<sigma> C t0 t"
  shows "built \<sigma> C t \<and> t_refs t = t_refs t0"
  using assms(2)
proof (induction rule: edits.induct)
  case edits_none
  then show ?case using assms(1) by simp
next
  case (edits_get t E key r t')
  then show ?case using built_get get_keeps_refs by metis
next
  case (edits_insert t E key val r t')
  then have b: "built \<sigma> C t'" using built_insert by blast
  then have "\<not> t_poisoned t'" using built_inv_holds by (auto simp: built_inv_def usable_def)
  then show ?case using b edits_insert insert_keeps_refs by metis
next
  case (edits_remove t E key r' t')
  then show ?case using built_remove remove_keeps_refs by metis
qed

text \<open>Without pending releases the counted CIDs are those of the nodes.\<close>

lemma dom_refs:
  assumes "accounted t" "t_released t = []"
  shows "dom (t_refs t) = tree_cids t"
proof -
  have "x \<in> dom (t_refs t) \<longleftrightarrow> x \<in> tree_cids t" for x
    using assms held_dom [of "t_refs t" x] by (cases "t_empty_root t") (auto simp: accounted_def tree_cids_def)
  then show ?thesis by blast
qed

text \<open>A written block is named by its hash.\<close>

definition named :: "compress_fn \<Rightarrow> blocks \<Rightarrow> bool" where
  "named C ws \<longleftrightarrow> (\<forall>(c, data) \<in> set ws. c = cid_compute C Drisl data)"

lemma write_named:
  shows "write_node C n out = Inr (c', n', out') \<Longrightarrow> named C out \<Longrightarrow> named C out'"
    and "write_opt C m out = Inr (m', out') \<Longrightarrow> named C out \<Longrightarrow> named C out'"
    and "write_rights C es out = Inr (es', out') \<Longrightarrow> named C out \<Longrightarrow> named C out'"
proof (induction C n out and C m out and C es out arbitrary: c' n' out' and m' out' and es' out' rule: write_node_write_opt_write_rights.induct)
  case (1 C l es c h ld out)
  show ?case
  proof (cases c)
    case None
    obtain l1 out1 es1 out2 data where w: "require_loaded (Node l es c h ld) = Inr ()" "write_opt C l out = Inr (l1, out1)"
      "write_rights C es out1 = Inr (es1, out2)" "out' = out2 @ [(cid_compute C Drisl data, data)]"
      using "1.prems"(1) None by (auto simp: Let_def)
    from "1.IH"(1) [OF None w(1,2) "1.prems"(2)] have "named C out1" .
    from "1.IH"(2) [OF None w(1,2) refl w(3) this] show ?thesis using w(4) by (simp add: named_def)
  qed (use "1.prems" in simp)
next
  case (3 C n out)
  then show ?case by auto
next
  case (5 C k v r es out)
  then show ?case by auto
qed simp_all

lemma flush_named:
  assumes "tree_flush E t = (Inr w, t')"
  shows "named (compress256 E) (w_new_blocks w)"
proof -
  have st: "named (compress256 E) (w_new_blocks w)" if s: "settle ws root u = Inr (w, u')" and ws: "named (compress256 E) ws" for ws root u u'
  proof -
    obtain refs where r: "release_all (t_released u) (t_refs u) = Inr refs"
      using s by (cases "release_all (t_released u) (t_refs u)") (simp_all add: settle_def)
    obtain new refs' where "count_written ws refs = (new, refs')" by fastforce
    moreover from this have "w_new_blocks w = new" using s r by (auto simp: settle_def Let_def split: prod.splits)
    ultimately have "count_written ws refs = (new, refs')" "w_new_blocks w = new" .
    then have "set (w_new_blocks w) \<subseteq> set ws" using count_written_spec [of ws refs new refs'] by blast
    then show ?thesis using ws by (auto simp: named_def)
  qed
  show ?thesis
  proof (cases "t_root t")
    case None
    then obtain root data u where "empty_node_block (compress256 E) = Inr (root, data)" "settle [(root, data)] root u = Inr (w, t')"
      using assms by (auto simp: tree_flush_def guarded_def poison_def Let_def split: sum.splits prod.splits)
    moreover from this have "named (compress256 E) [(root, data)]" by (auto simp: empty_node_block_def named_def)
    ultimately show ?thesis using st by blast
  next
    case (Some n)
    then obtain c n' ws where w: "write_node (compress256 E) n [] = Inr (c, n', ws)"
      "settle ws c (t\<lparr>t_root := Some n'\<rparr>) = Inr (w, t')"
      using assms by (auto simp: tree_flush_def guarded_def poison_def Let_def split: sum.splits)
    show ?thesis using st [OF w(2)] write_named(1) [OF w(1)] by (simp add: named_def)
  qed
qed

text \<open>
  C10. A flush succeeds and reports what changed since the last one. Let \<open>t0\<close> be a tree as it was
  created or last flushed and \<open>t\<close> what any edits made of it. The new blocks of a flush of \<open>t\<close> are,
  without repetition and each named by the hash of its bytes, exactly the CIDs the nodes of the
  tree have now and none had in \<open>t0\<close>; its retired list is, in strictly ascending order, exactly the
  CIDs nodes of \<open>t0\<close> had and none has now. The contents stay the same.
\<close>

theorem flush_reports_change:
  assumes "built \<sigma> C t0" "t_released t0 = []" "edits \<sigma> C t0 t" "compress256 E = C"
  shows "\<exists>w t'. tree_flush E t = (Inr w, t') \<and> contents \<sigma> t' = contents \<sigma> t \<and> tree_root_cid t' = Some (w_root w) \<and> t_released t' = [] \<and>
    distinct (map fst (w_new_blocks w)) \<and> fst ` set (w_new_blocks w) = tree_cids t' - tree_cids t0 \<and>
    (\<forall>(c, data) \<in> set (w_new_blocks w). c = cid_compute C Drisl data) \<and>
    sorted_wrt (<) (w_retired w) \<and> set (w_retired w) = tree_cids t0 - tree_cids t'"
proof -
  note e = edits_spec [OF assms(1,3)]
  have "accounted t" "\<not> t_poisoned t" "t_root t \<noteq> None \<longrightarrow> t_empty_root t = None" and a0: "accounted t0"
    using built_inv_holds [of \<sigma> C t] built_inv_holds [OF assms(1)] e by (auto simp: built_inv_def usable_def)
  from tree_flush_ok [OF this(1-3), of E] obtain w t' where
    f: "tree_flush E t = (Inr w, t')" "accounted t'" "flush_report t w t'" "contents \<sigma> t' = contents \<sigma> t" by blast
  have "dom (t_refs t) = tree_cids t0" using dom_refs [OF a0 assms(2)] e by simp
  moreover have "dom (t_refs t') = tree_cids t'" using dom_refs [OF f(2)] f(3) by (simp add: flush_report_def)
  ultimately show ?thesis using f flush_named [OF f(1)] assms(4) unfolding flush_report_def named_def by auto
qed

theorem flush_reports_change_witness:
  "\<exists>w t1 v t2. tree_flush leaf_env one_tree = (Inr w, t1) \<and>
    tree_flush leaf_env (snd (tree_remove leaf_env (lit ''a/b'') t1)) = (Inr v, t2) \<and>
    set (w_retired v) = tree_cids t1 - tree_cids t2 \<and> fst ` set (w_new_blocks v) = tree_cids t2 - tree_cids t1"
proof -
  let ?C = "\<lambda>s _. s"
  have c: "compress256 leaf_env = ?C" by (simp add: leaf_env_def)
  have n: "built leaf_contents ?C tree_new" "t_released tree_new = []" by (rule built_new) (simp add: tree_new_def)
  have "edits leaf_contents ?C tree_new one_tree"
    by (rule edits_insert [OF edits_none leaf_models c, of "lit ''a/b''" cid_zeroed _ "fst (tree_insert leaf_env (lit ''a/b'') cid_zeroed tree_new)"])
      (simp add: one_tree_def)
  from flush_reports_change [OF n this c] obtain w t1 where t1: "tree_flush leaf_env one_tree = (Inr w, t1)" "t_released t1 = []" by blast
  have "built leaf_contents ?C t1" by (rule built_flush [OF one_tree_built c t1(1)])
  moreover have "edits leaf_contents ?C t1 (snd (tree_remove leaf_env (lit ''a/b'') t1))"
    by (rule edits_remove [OF edits_none leaf_models, of "lit ''a/b''" _ "fst (tree_remove leaf_env (lit ''a/b'') t1)"]) simp
  ultimately show ?thesis using flush_reports_change [OF _ t1(2) _ c] t1(1) by blast
qed

text \<open>
  C11. The root CID depends on the contents alone: two trees built by any calls, in any order and
  with any flushes between, that hold the same records flush to the same root.
\<close>

theorem root_cid_history_independent:
  assumes "built \<sigma> C t" "built \<sigma> C u" "contents \<sigma> t = contents \<sigma> u" "compress256 E = C" "compress256 E' = C"
    and "tree_flush E t = (Inr w, t')" "tree_flush E' u = (Inr x, u')"
  shows "w_root w = w_root x"
proof -
  have inv: "built_inv \<sigma> C t" "built_inv \<sigma> C u" using built_inv_holds assms(1,2) by blast+
  then have e: "oerase (t_root t) = oerase (t_root u)"
    using canonical_unique [of "height_for_key C" "t_root t" "t_root u" \<sigma>] assms(3) by (auto simp: built_inv_def contents_def)
  have l: "all_opt nloaded (t_root t)" "all_opt nloaded (t_root u)"
    and h: "all_opt (hashed C) (t_root t)" "all_opt (hashed C) (t_root u)"
    using inv resident_parts by (auto simp: built_inv_def)
  have m: "lmerkle C (t_root t) = lmerkle C (t_root u)" using e merkle_erase(2) l by metis
  have n: "t_root t = None \<longleftrightarrow> t_root u = None" using e by (cases "t_root t"; cases "t_root u") auto
  show ?thesis
    using flush_written [OF assms(6)] flush_written [OF assms(7)] h m n unfolding assms(4,5)
    by (cases "t_root t"; cases "t_root u") auto
qed

theorem root_cid_history_independent_witness:
  "\<exists>w x t' u'. tree_flush leaf_env one_tree = (Inr w, t') \<and> tree_flush (no_blocks leaf_env) t' = (Inr x, u') \<and> w_root w = w_root x"
proof -
  have c: "compress256 leaf_env = (\<lambda>s _. s)" "compress256 (no_blocks leaf_env) = (\<lambda>s _. s)"
    by (simp_all add: leaf_env_def no_blocks_def)
  have fl: "\<exists>w t'. tree_flush E t = (Inr w, t') \<and> contents leaf_contents t' = contents leaf_contents t"
    if "built leaf_contents (\<lambda>s _. s) t" for E t
    using built_inv_holds [OF that] tree_flush_ok [of t E] by (fastforce simp: built_inv_def usable_def)
  obtain w t' where w: "tree_flush leaf_env one_tree = (Inr w, t')" "contents leaf_contents t' = contents leaf_contents one_tree"
    using fl [OF one_tree_built] by blast
  have b: "built leaf_contents (\<lambda>s _. s) t'" by (rule built_flush [OF one_tree_built c(1) w(1)])
  obtain x u' where x: "tree_flush (no_blocks leaf_env) t' = (Inr x, u')" using fl [OF b] by blast
  from root_cid_history_independent [OF one_tree_built b w(2) [symmetric] c w(1) x] w x show ?thesis by blast
qed

section \<open>Listing and comparing\<close>

text \<open>
  Listing the entries gives the contents, every record once in key order, and changes nothing.
\<close>

lemma tree_entries_correct:
  assumes "models E \<sigma>" "usable \<sigma> t"
  shows "case tree_entries E t of (r, t') \<Rightarrow> usable \<sigma> t' \<and> contents \<sigma> t' = contents \<sigma> t \<and>
    (case r of Inl e \<Rightarrow> True | Inr ps \<Rightarrow> ps = contents \<sigma> t \<and> sorted_wrt (<) (map fst ps))"
  using tree_entries_spec [OF _ assms(2,1)] assms(2) by (fastforce simp: usable_def split: prod.split sum.split)

text \<open>
  C12. The difference of two trees: the added, removed and updated records are exactly those whose
  keys only the right tree holds, only the left tree holds, and both hold with different values,
  each list in ascending key order.
\<close>

theorem diff_trees_correct:
  assumes "models E1 \<sigma>" "usable \<sigma> left" "models E2 \<tau>" "usable \<tau> right" "diff_trees E1 left E2 right = (Inr d, left', right')"
  shows "(\<forall>k v. (k, v) \<in> set (d_added d) \<longleftrightarrow> map_of (contents \<sigma> left) k = None \<and> map_of (contents \<tau> right) k = Some v) \<and>
    (\<forall>k v. (k, v) \<in> set (d_removed d) \<longleftrightarrow> map_of (contents \<sigma> left) k = Some v \<and> map_of (contents \<tau> right) k = None) \<and>
    (\<forall>k v w. (k, v, w) \<in> set (d_updated d) \<longleftrightarrow>
      map_of (contents \<sigma> left) k = Some v \<and> map_of (contents \<tau> right) k = Some w \<and> v \<noteq> w) \<and>
    ksorted (d_added d) \<and> ksorted (d_removed d) \<and> ksorted (d_updated d)"
proof -
  have s: "ksorted (contents \<sigma> left)" "ksorted (contents \<tau> right)" using assms(2,4) by (simp_all add: usable_def)
  obtain ls rs where e: "tree_entries E1 left = (Inr ls, left')" "tree_entries E2 right = (Inr rs, right')" "d = diff_entries ls rs"
    using assms(5) by (auto simp: diff_trees_def split: prod.splits sum.splits)
  then have "ls = contents \<sigma> left" "rs = contents \<tau> right"
    using tree_entries_spec [OF e(1) assms(2,1)] tree_entries_spec [OF e(2) assms(4,3)] by auto
  then have d: "d = \<lparr>d_added = only_in (contents \<tau> right) (contents \<sigma> left), d_updated = changed (contents \<sigma> left) (contents \<tau> right),
      d_removed = only_in (contents \<sigma> left) (contents \<tau> right)\<rparr>"
    using e(3) diff_loop_sorted [OF s] by (simp add: diff_entries_def)
  show ?thesis
    using only_in_set [OF s(1), of _ _ "contents \<tau> right"] only_in_set [OF s(2), of _ _ "contents \<sigma> left"]
      changed_set [OF s(1), of _ _ _ "contents \<tau> right"]
      ksorted_only_in [OF s(1)] ksorted_only_in [OF s(2)] ksorted_changed [OF s(1)]
    unfolding d by auto
qed

theorem diff_trees_correct_witness:
  "\<exists>d. diff_trees leaf_env tree_new leaf_env one_tree = (Inr d, tree_new, one_tree) \<and>
    (lit ''a/b'', cid_zeroed) \<in> set (d_added d)"
proof -
  have r: "t_root one_tree = Some (Node None [Entry (lit ''a/b'') cid_zeroed None] None (height_for_key (\<lambda>s _. s) (lit ''a/b'')) True)"
    "\<not> t_poisoned one_tree"
    using leaf_key by (simp_all add: one_tree_def tree_insert_def tree_new_def load_key_path_def leaf_env_def
        insert_node.simps fresh_def)
  have "tree_entries leaf_env tree_new = (Inr [], tree_new)"
    by (simp add: tree_entries_def tree_walk_def check_usable_def tree_new_def)
  moreover have "tree_entries leaf_env one_tree = (Inr [(lit ''a/b'', cid_zeroed)], one_tree)"
    using r by (simp add: tree_entries_def tree_walk_def check_usable_def walk_node.simps ensure_loaded_def load_node_def
        walk_entries.simps push_pair_def)
  ultimately have d: "\<exists>d. diff_trees leaf_env tree_new leaf_env one_tree = (Inr d, tree_new, one_tree)"
    by (simp add: diff_trees_def)
  then obtain d where d: "diff_trees leaf_env tree_new leaf_env one_tree = (Inr d, tree_new, one_tree)" by blast
  have u: "usable leaf_contents one_tree" using built_inv_holds [OF one_tree_built] by (simp add: built_inv_def)
  from diff_trees_correct [OF leaf_models leaf_empty leaf_models u d] one_tree_contents d show ?thesis
    by (auto simp: contents_def tree_new_def)
qed

end
