(* ===== verification/Syntax_Base.thy ===== *)
theory Syntax_Base
  imports Prelude
begin

text \<open>
  What the identifier types share (\<open>src/src/syntax/mod.rs\<close>, \<open>src/src/syntax/small_string.rs\<close>):
  the error type, the string operations of the standard library they use, the inline string
  storage, and the grammar of a domain label.
\<close>

section \<open>String operations\<close>

text \<open>\<open>starts_with\<close>, \<open>ends_with\<close>, \<open>split(c)\<close> for one ASCII byte, \<open>join\<close> and \<open>rfind\<close>.\<close>

definition starts_with :: "str \<Rightarrow> str \<Rightarrow> bool" where
  "starts_with p s \<longleftrightarrow> take (length p) s = p"

definition ends_with :: "str \<Rightarrow> str \<Rightarrow> bool" where
  "ends_with p s \<longleftrightarrow> length p \<le> length s \<and> drop (length s - length p) s = p"

fun split_on :: "'a \<Rightarrow> 'a list \<Rightarrow> 'a list list" where
  "split_on c [] = [[]]"
| "split_on c (x # xs) =
     (if x = c then [] # split_on c xs
      else case split_on c xs of [] \<Rightarrow> [[x]] | p # ps \<Rightarrow> (x # p) # ps)"

fun join :: "'a \<Rightarrow> 'a list list \<Rightarrow> 'a list" where
  "join c [] = []"
| "join c [p] = p"
| "join c (p # q # ps) = p @ c # join c (q # ps)"

definition rfind :: "'a \<Rightarrow> 'a list \<Rightarrow> nat option" where
  "rfind c xs = map_option (\<lambda>i. length xs - 1 - i) (position (\<lambda>x. x = c) (rev xs))"

lemma starts_with_append: "starts_with p s \<longleftrightarrow> (\<exists>q. s = p @ q)"
  by (metis append_eq_conv_conj append_take_drop_id starts_with_def)

lemma ends_with_append: "ends_with p s \<longleftrightarrow> (\<exists>q. s = q @ p)"
proof
  assume "ends_with p s"
  then show "\<exists>q. s = q @ p" by (metis append_take_drop_id ends_with_def)
qed (auto simp: ends_with_def)

lemma split_on_neq [simp]: "split_on c xs \<noteq> []"
  by (induction xs) (auto split: list.splits)

lemma split_on_length: "0 < length (split_on c xs)"
  by simp

lemma split_on_single: "c \<notin> set xs \<Longrightarrow> split_on c xs = [xs]"
  by (induction xs) auto

lemma split_on_append: "c \<notin> set p \<Longrightarrow> split_on c (p @ c # q) = p # split_on c q"
  by (induction p) auto

lemma split_on_notin: "p \<in> set (split_on c xs) \<Longrightarrow> c \<notin> set p"
  by (induction xs arbitrary: p) (auto split: if_splits list.splits)

lemma join_Cons: "ps \<noteq> [] \<Longrightarrow> join c (p # ps) = p @ c # join c ps"
  by (cases ps) auto

lemma join_split_on [simp]: "join c (split_on c xs) = xs"
proof (induction xs)
  case (Cons x xs)
  obtain p ps where "split_on c xs = p # ps" using split_on_neq [of c xs] by (cases "split_on c xs") auto
  with Cons show ?case by (cases ps) (auto simp: join_Cons)
qed simp

lemma split_on_join: "ps \<noteq> [] \<Longrightarrow> \<forall>p \<in> set ps. c \<notin> set p \<Longrightarrow> split_on c (join c ps) = ps"
  by (induction c ps rule: join.induct) (auto simp: split_on_single split_on_append)

lemma set_split_on: "x \<in> set xs \<Longrightarrow> x \<noteq> c \<Longrightarrow> \<exists>p \<in> set (split_on c xs). x \<in> set p"
  by (induction xs) (auto split: list.splits)

lemma map_split_on:
  assumes "\<And>x. f x = c \<longleftrightarrow> x = c"
  shows "split_on c (map f xs) = map (map f) (split_on c xs)"
proof (induction xs)
  case (Cons x xs)
  obtain p ps where "split_on c xs = p # ps" using split_on_neq [of c xs] by (cases "split_on c xs") auto
  then show ?case using Cons assms by auto
qed simp

text \<open>The last piece starts right after the last separator.\<close>

lemma rfind_last:
  assumes "c \<notin> set q"
  shows "rfind c (p @ c # q) = Some (length p)"
proof -
  have "position (\<lambda>x. x = c) (rev q @ c # rev p) = Some (length q)"
    using assms by (induction "rev q" arbitrary: q) (auto simp: position_Some takeWhile_append nth_append)
  then show ?thesis by (simp add: rfind_def)
qed

lemma rfind_None: "rfind c xs = None \<longleftrightarrow> c \<notin> set xs"
  by (auto simp: rfind_def position_None)

lemma split_on_last:
  assumes "1 < length (split_on c xs)"
  obtains p q where "xs = p @ c # q" "c \<notin> set q" "split_on c xs = split_on c p @ [q]"
    "last (split_on c xs) = q" "butlast (split_on c xs) = split_on c p"
proof -
  have "c \<in> set xs" using assms split_on_single [of c xs] by fastforce
  then obtain p q where pq: "xs = p @ c # q" "c \<notin> set q" by (metis split_list_last)
  have "split_on c (p @ c # q) = split_on c p @ [q]"
    using pq(2) by (induction p) (auto simp: split_on_single split: list.splits)
  with pq that show thesis by simp
qed

section \<open>Errors\<close>

text \<open>
  \<open>SyntaxError\<close>: the offending string and the message, before they are formatted into one; the
  parts of a URI carry the error of the part.
\<close>

datatype syntax_error =
    InvalidDid str string
  | InvalidHandle str string
  | InvalidNsid str string
  | InvalidAtUri str string "syntax_error option"
  | InvalidTid str string
  | InvalidDatetime str string
  | InvalidRecordKey str string
  | InvalidLanguage str string

section \<open>Short strings\<close>

definition INLINE :: nat where
  "INLINE = 32"

datatype storage = Inline bytes u8 | Heap str

definition small_string :: "str \<Rightarrow> storage" where
  "small_string v =
     (if length v \<le> INLINE then Inline (v @ replicate (INLINE - length v) 0) (of_nat (length v)) else Heap v)"

definition as_str :: "storage \<Rightarrow> str" where
  "as_str s =
     (case s of
        Inline bytes len \<Rightarrow> let v = take (unat len) bytes in if utf8_valid v then v else []
      | Heap v \<Rightarrow> v)"

definition lowercase_prefix :: "nat \<Rightarrow> storage \<Rightarrow> storage" where
  "lowercase_prefix to s =
     (case s of
        Inline bytes len \<Rightarrow> Inline (map to_ascii_lowercase (take to bytes) @ drop to bytes) len
      | Heap v \<Rightarrow> Heap (map to_ascii_lowercase (take to v) @ drop to v))"

definition small_eq :: "storage \<Rightarrow> storage \<Rightarrow> bool" where
  "small_eq a b \<longleftrightarrow> as_str a = as_str b"

definition small_cmp :: "storage \<Rightarrow> storage \<Rightarrow> ordering" where
  "small_cmp a b = cmp (as_str a) (as_str b)"

lemma unat_small: "length v \<le> INLINE \<Longrightarrow> unat (of_nat (length v) :: u8) = length v"
  by (simp add: unat_of_nat INLINE_def)

lemma as_str_small_string [simp]: "utf8_valid v \<Longrightarrow> as_str (small_string v) = v"
  by (simp add: as_str_def small_string_def unat_small)

lemma small_string_inject:
  assumes "utf8_valid v" "utf8_valid w" "small_string v = small_string w"
  shows "v = w"
  using assms by (metis as_str_small_string)

lemma as_str_lowercase_prefix:
  assumes "\<forall>b \<in> set v. is_ascii b" "n \<le> length v"
  shows "as_str (lowercase_prefix n (small_string v)) = map to_ascii_lowercase (take n v) @ drop n v"
proof -
  have "\<forall>b \<in> set (map to_ascii_lowercase (take n v) @ drop n v). is_ascii b"
    using assms(1) by (auto dest: in_set_takeD in_set_dropD)
  then have "utf8_valid (map to_ascii_lowercase (take n v) @ drop n v)" by (rule utf8_valid_ascii)
  then show ?thesis
    using assms(2) by (simp add: as_str_def small_string_def lowercase_prefix_def unat_small Let_def)
qed

section \<open>Domain labels\<close>

text \<open>
  The grammar of a domain label: one to 63 letters, digits and hyphens, with a letter or digit at
  both ends.
\<close>

definition label_byte :: "u8 \<Rightarrow> bool" where
  "label_byte b \<longleftrightarrow> is_ascii_alphanumeric b \<or> b = 0x2d"

definition label_ok :: "str \<Rightarrow> bool" where
  "label_ok l \<longleftrightarrow> l \<noteq> [] \<and> length l \<le> 63 \<and> is_ascii_alphanumeric (hd l) \<and> is_ascii_alphanumeric (last l) \<and>
     (\<forall>b \<in> set l. label_byte b)"

text \<open>
  The checks the sources make, on the first byte, the last byte and, from length three on, the
  bytes between.
\<close>

lemma label_okI:
  assumes "l \<noteq> []" "is_ascii_alphanumeric (l ! 0)" "is_ascii_alphanumeric (l ! (length l - 1))"
    "3 \<le> length l \<longrightarrow> list_all label_byte (slice l 1 (length l - 1))"
  shows "\<forall>b \<in> set l. label_byte b"
proof
  fix b assume "b \<in> set l"
  then obtain i where i: "i < length l" "b = l ! i" by (auto simp: in_set_conv_nth)
  consider "i = 0" | "i = length l - 1" | "0 < i" "i < length l - 1" using i by linarith
  then show "label_byte b"
  proof cases
    case 3
    then have "3 \<le> length l" "b = slice l 1 (length l - 1) ! (i - 1)" "i - 1 < length (slice l 1 (length l - 1))"
      using i by (auto simp: slice_def)
    then show ?thesis using assms(4) by (simp add: list_all_length)
  qed (use i assms in \<open>auto simp: label_byte_def\<close>)
qed

lemma label_ok_checks:
  "label_ok l \<longleftrightarrow> l \<noteq> [] \<and> length l \<le> 63 \<and> is_ascii_alphanumeric (l ! 0) \<and> is_ascii_alphanumeric (l ! (length l - 1)) \<and>
     (3 \<le> length l \<longrightarrow> list_all label_byte (slice l 1 (length l - 1)))"
proof -
  have "set (slice l 1 (length l - 1)) \<subseteq> set l" by (auto simp: slice_def dest: in_set_takeD in_set_dropD)
  then show ?thesis using label_okI [of l] unfolding label_ok_def by (auto simp: hd_conv_nth last_conv_nth list_all_iff)
qed

lemma label_ok_ascii: "label_ok l \<Longrightarrow> b \<in> set l \<Longrightarrow> is_ascii b"
  using ascii_alphanumeric_is_ascii by (fastforce simp: label_ok_def label_byte_def is_ascii_def)

lemma label_byte_lower [simp]: "label_byte (to_ascii_lowercase b) \<longleftrightarrow> label_byte b"
proof -
  have "to_ascii_lowercase b = 0x2d \<longleftrightarrow> b = 0x2d"
    by (auto simp: to_ascii_lowercase_def is_ascii_uppercase_def word_le_nat_alt word_unat_eq_iff unat_word_ariths)
  then show ?thesis by (simp add: label_byte_def)
qed

lemma label_ok_lower [simp]: "label_ok (map to_ascii_lowercase l) \<longleftrightarrow> label_ok l"
  by (cases "l = []") (auto simp: label_ok_def hd_map last_map)

end
