(* ===== verification/Syntax_Ids.thy ===== *)
theory Syntax_Ids
  imports Syntax_Base
begin

text \<open>
  The identifiers of \<open>src/src/syntax\<close>: DIDs, handles, NSIDs, record keys and the union of the
  first two. Every type is a private string behind a validator; the theorems show that each
  validator accepts exactly the strings of its grammar, and what the accessors return.
\<close>

section \<open>DIDs\<close>

datatype did = Did storage

definition is_did_ident_char :: "u8 \<Rightarrow> bool" where
  "is_did_ident_char b \<longleftrightarrow> is_ascii_alphanumeric b \<or> b = 0x2e \<or> b = 0x5f \<or> b = 0x3a \<or> b = 0x2d"

definition did_validate :: "str \<Rightarrow> syntax_error + unit" where
  "did_validate raw =
     (if raw = [] then Inl (InvalidDid raw ''empty'')
      else if length raw > 2048 then Inl (InvalidDid raw ''too long'')
      else if \<not> starts_with (lit ''did:'') raw then Inl (InvalidDid raw ''must start with did:'')
      else let after_prefix = drop 4 raw in
        (case position (\<lambda>b. b = 0x3a) after_prefix of
           None \<Rightarrow> Inl (InvalidDid raw ''missing identifier after method'')
         | Some method_end \<Rightarrow>
             if method_end = 0 then Inl (InvalidDid raw ''empty method'')
             else if \<not> list_all is_ascii_lowercase (take method_end after_prefix)
             then Inl (InvalidDid raw ''method must be lowercase alpha'')
             else let ident_start = 4 + method_end + 1 in
               if ident_start \<ge> length raw then Inl (InvalidDid raw ''empty identifier'')
               else let ident = drop ident_start raw in
                 if \<not> fold (\<lambda>b valid. valid \<and> is_did_ident_char b) ident True
                 then Inl (InvalidDid raw ''invalid character in identifier'')
                 else if ident = [] then Inl (InvalidDid raw ''empty identifier'')
                 else if last ident = 0x3a then Inl (InvalidDid raw ''identifier cannot end with a colon'')
                 else Inr ()))"

definition did_try_from :: "str \<Rightarrow> syntax_error + did" where
  "did_try_from raw = and_then (did_validate raw) (\<lambda>_. Inr (Did (small_string raw)))"

fun did_as_str :: "did \<Rightarrow> str" where
  "did_as_str (Did s) = as_str s"

definition did_method :: "did \<Rightarrow> str" where
  "did_method d =
     (let rest = drop 4 (did_as_str d);
          colon = (case position (\<lambda>b. b = 0x3a) rest of None \<Rightarrow> length rest | Some i \<Rightarrow> i)
      in take colon rest)"

definition did_identifier :: "did \<Rightarrow> str" where
  "did_identifier d =
     (let rest = drop 4 (did_as_str d);
          colon = (case position (\<lambda>b. b = 0x3a) rest of None \<Rightarrow> length rest | Some i \<Rightarrow> i)
      in drop (min (colon + 1) (length rest)) rest)"

text \<open>The grammar: \<open>did:<method>:<identifier>\<close>.\<close>

definition did_parts_ok :: "str \<Rightarrow> str \<Rightarrow> bool" where
  "did_parts_ok method ident \<longleftrightarrow>
     method \<noteq> [] \<and> (\<forall>b \<in> set method. is_ascii_lowercase b) \<and>
     ident \<noteq> [] \<and> (\<forall>b \<in> set ident. is_did_ident_char b) \<and> last ident \<noteq> 0x3a"

definition did_of :: "str \<Rightarrow> str \<Rightarrow> str" where
  "did_of method ident = lit ''did:'' @ method @ [0x3a] @ ident"

lemma fold_conj: "fold (\<lambda>b valid. valid \<and> P b) bs v \<longleftrightarrow> v \<and> (\<forall>b \<in> set bs. P b)"
  by (induction bs arbitrary: v) auto

lemma position_append:
  "\<forall>b \<in> set p. b \<noteq> c \<Longrightarrow> position (\<lambda>b. b = c) (p @ c # q) = Some (length p)"
  by (induction p) auto

lemma position_split:
  assumes "position (\<lambda>b. b = c) xs = Some i"
  shows "xs = take i xs @ c # drop (i + 1) xs" and "c \<notin> set (take i xs)" and "i < length xs"
proof -
  have i: "i < length xs" "xs ! i = c" "takeWhile (\<lambda>x. x \<noteq> c) xs = take i xs"
    using assms by (simp_all add: position_Some)
  then show "xs = take i xs @ c # drop (i + 1) xs" "i < length xs" by (auto simp: id_take_nth_drop [symmetric])
  show "c \<notin> set (take i xs)" unfolding i(3) [symmetric] by (auto dest: set_takeWhileD)
qed

lemma lowercase_not_colon: "is_ascii_lowercase b \<Longrightarrow> b \<noteq> 0x3a"
  by (auto simp: is_ascii_lowercase_def)

lemma drop_did_of: "4 \<le> n \<Longrightarrow> drop n (did_of m i) = drop (n - 4) (m @ 0x3a # i)"
  unfolding did_of_def by (subst drop_append) (simp add: numeral_eq_Suc)

lemma did_of_validate:
  assumes "did_parts_ok m i" "length (did_of m i) \<le> 2048"
  shows "did_validate (did_of m i) = Inr ()"
proof -
  have p: "position (\<lambda>b. b = 0x3a) (m @ 0x3a # i) = Some (length m)"
    using assms(1) lowercase_not_colon by (intro position_append) (auto simp: did_parts_ok_def)
  have d: "drop 4 (did_of m i) = m @ 0x3a # i" "drop (4 + length m + 1) (did_of m i) = i"
    using drop_did_of [of 4 m i] drop_did_of [of "4 + length m + 1" m i] by simp_all
  have len: "length (did_of m i) = 5 + length m + length i" "did_of m i \<noteq> []" by (simp_all add: did_of_def)
  have "starts_with (lit ''did:'') (did_of m i)" by (simp add: starts_with_append did_of_def)
  then show ?thesis
    using assms d(2) len unfolding did_validate_def d(1) Let_def p
    by (auto simp: did_parts_ok_def fold_conj list_all_iff simp del: lit_Cons)
qed

lemma did_validate_parts:
  assumes "did_validate raw = Inr ()"
  obtains m i where "raw = did_of m i" "did_parts_ok m i" "length raw \<le> 2048"
proof -
  have s: "starts_with (lit ''did:'') raw" "length raw \<le> 2048"
    using assms by (auto simp: did_validate_def Let_def split: if_splits)
  obtain q where q: "raw = lit ''did:'' @ q" using s(1) starts_with_append by blast
  obtain k where k: "position (\<lambda>b. b = 0x3a) q = Some k"
    using assms q by (auto simp: did_validate_def Let_def split: if_splits option.splits)
  note sp = position_split [OF k]
  have "drop (4 + k + 1) raw = drop (k + 1) q" unfolding q by (subst drop_append) simp
  then have "k \<noteq> 0" "list_all is_ascii_lowercase (take k q)" "drop (k + 1) q \<noteq> []"
    "\<forall>b \<in> set (drop (k + 1) q). is_did_ident_char b" "last (drop (k + 1) q) \<noteq> 0x3a"
    using assms q k by (auto simp: did_validate_def Let_def fold_conj split: if_splits)
  moreover have "raw = did_of (take k q) (drop (k + 1) q)" using q sp(1) by (simp add: did_of_def)
  moreover have "take k q \<noteq> []" using sp(3) calculation(1) by auto
  ultimately show thesis using that s(2) by (simp add: did_parts_ok_def list_all_iff)
qed

lemma did_char_ascii: "is_did_ident_char b \<Longrightarrow> is_ascii b"
  using ascii_alphanumeric_is_ascii by (fastforce simp: is_did_ident_char_def is_ascii_def)

lemma lowercase_ascii: "is_ascii_lowercase b \<Longrightarrow> is_ascii b"
  by (auto simp: ascii_defs word_le_nat_alt word_less_nat_alt)

lemma did_of_utf8:
  assumes "did_parts_ok m i"
  shows "utf8_valid (did_of m i)"
  using assms did_char_ascii lowercase_ascii
  by (intro utf8_valid_ascii) (auto simp: did_of_def did_parts_ok_def of_char_def is_ascii_def)

text \<open>
  C35. A string is accepted as a DID exactly when it is \<open>did:<method>:<identifier>\<close> within the
  length limit, with a method of lowercase letters and an identifier of the allowed characters
  that does not end in a colon; the DID then prints back as the string, and its accessors return
  the two parts.
\<close>

theorem did_grammar:
  "did_try_from raw = Inr d \<longleftrightarrow>
     (\<exists>m i. raw = did_of m i \<and> did_parts_ok m i \<and> length raw \<le> 2048 \<and> d = Did (small_string raw) \<and>
        did_as_str d = raw \<and> did_method d = m \<and> did_identifier d = i)"
proof
  assume "did_try_from raw = Inr d"
  then have v: "did_validate raw = Inr ()" "d = Did (small_string raw)" by (auto simp: did_try_from_def)
  from did_validate_parts [OF v(1)] obtain m i where
    p: "raw = did_of m i" "did_parts_ok m i" "length raw \<le> 2048" by blast
  have s: "did_as_str d = raw" unfolding v(2) p(1) using did_of_utf8 [OF p(2)] by simp
  have "position (\<lambda>b. b = 0x3a) (m @ 0x3a # i) = Some (length m)"
    using p(2) lowercase_not_colon by (intro position_append) (auto simp: did_parts_ok_def)
  moreover have "drop 4 raw = m @ 0x3a # i" using p(1) by (simp add: did_of_def)
  ultimately have "did_method d = m" "did_identifier d = i"
    using s by (simp_all add: did_method_def did_identifier_def)
  with p v(2) s show "\<exists>m i. raw = did_of m i \<and> did_parts_ok m i \<and> length raw \<le> 2048 \<and> d = Did (small_string raw) \<and>
        did_as_str d = raw \<and> did_method d = m \<and> did_identifier d = i" by blast
next
  assume "\<exists>m i. raw = did_of m i \<and> did_parts_ok m i \<and> length raw \<le> 2048 \<and> d = Did (small_string raw) \<and>
        did_as_str d = raw \<and> did_method d = m \<and> did_identifier d = i"
  then have "did_validate raw = Inr ()" "d = Did (small_string raw)" using did_of_validate by blast+
  then show "did_try_from raw = Inr d" by (simp add: did_try_from_def)
qed

section \<open>Handles\<close>

type_synonym handle = str

definition handle_label :: "str \<Rightarrow> str \<Rightarrow> syntax_error + unit" where
  "handle_label raw label =
     (if label = [] then Inl (InvalidHandle raw ''empty label'')
      else if length label > 63 then Inl (InvalidHandle raw ''label too long'')
      else if \<not> is_ascii_alphanumeric (label ! 0) then Inl (InvalidHandle raw ''label must start with alphanumeric'')
      else if \<not> is_ascii_alphanumeric (label ! (length label - 1))
      then Inl (InvalidHandle raw ''label must end with alphanumeric'')
      else if length label \<ge> 3 \<and>
        \<not> list_all (\<lambda>b. \<not> (\<not> is_ascii_alphanumeric b \<and> b \<noteq> 0x2d)) (slice label 1 (length label - 1))
      then Inl (InvalidHandle raw ''invalid character in label'')
      else Inr ())"

text \<open>The loop over the bytes; it is entered with \<open>i \<le> len\<close>, and the label count is its result.\<close>

function handle_loop :: "str \<Rightarrow> nat \<Rightarrow> nat \<Rightarrow> nat \<Rightarrow> syntax_error + nat" where
  "handle_loop raw i start label_count =
     (if i \<ge> length raw then
        and_then (handle_label raw (slice raw start i)) (\<lambda>_. Inr (label_count + 1))
      else if raw ! i = 0x2e then
        and_then (handle_label raw (slice raw start i)) (\<lambda>_. handle_loop raw (i + 1) (i + 1) (label_count + 1))
      else if \<not> is_ascii (raw ! i) then Inl (InvalidHandle raw ''non-ASCII character'')
      else handle_loop raw (i + 1) start label_count)"
  by pat_completeness auto
termination handle_loop
  by (relation "measure (\<lambda>(raw, i, _, _). length raw - i)") auto

declare handle_loop.simps [simp del]

definition handle_validate :: "str \<Rightarrow> syntax_error + unit" where
  "handle_validate raw =
     (if raw = [] then Inl (InvalidHandle raw ''empty'')
      else if length raw > 253 then Inl (InvalidHandle raw ''too long'')
      else and_then (handle_loop raw 0 0 0) (\<lambda>label_count.
        if label_count < 2 then Inl (InvalidHandle raw ''must have at least two labels'')
        else case rfind 0x2e raw of
            None \<Rightarrow> Inl (InvalidHandle raw ''must have at least two labels'')
          | Some last_dot \<Rightarrow>
              if \<not> is_ascii_alphabetic (drop (last_dot + 1) raw ! 0)
              then Inl (InvalidHandle raw ''TLD must start with a letter'')
              else Inr ()))"

definition handle_try_from :: "str \<Rightarrow> syntax_error + handle" where
  "handle_try_from raw = and_then (handle_validate raw) (\<lambda>_. Inr (map to_ascii_lowercase raw))"

definition handle_ok :: "str \<Rightarrow> bool" where
  "handle_ok raw \<longleftrightarrow> length raw \<le> 253 \<and>
     (let labels = split_on 0x2e raw in
        2 \<le> length labels \<and> (\<forall>l \<in> set labels. label_ok l) \<and> is_ascii_alphabetic (hd (last labels)))"

lemma handle_label_ok: "handle_label raw l = Inr u \<longleftrightarrow> label_ok l"
  unfolding label_ok_checks handle_label_def label_byte_def by (auto simp: list_all_iff)

text \<open>The pieces from \<open>start\<close> on, once the bytes up to \<open>i\<close> are known to hold no dot.\<close>

lemma split_slice:
  assumes "start \<le> i" "i < length raw" "c \<notin> set (slice raw start i)" "raw ! i = c"
  shows "split_on c (drop start raw) = slice raw start i # split_on c (drop (i + 1) raw)"
proof -
  have "drop start raw = slice raw start i @ drop i raw"
    using assms(1,2) by (simp add: slice_def) (metis append_take_drop_id drop_drop le_add_diff_inverse2)
  also have "drop i raw = c # drop (i + 1) raw" using assms(2,4) by (metis Cons_nth_drop_Suc Suc_eq_plus1)
  finally show ?thesis using split_on_append [OF assms(3)] by simp
qed

lemma slice_Suc: "start \<le> i \<Longrightarrow> i < length raw \<Longrightarrow> slice raw start (i + 1) = slice raw start i @ [raw ! i]"
  by (simp add: slice_def Suc_diff_le take_Suc_conv_app_nth)

lemma handle_loop_spec:
  assumes "start \<le> i" "i \<le> length raw" "0x2e \<notin> set (slice raw start i)"
  shows "handle_loop raw i start n = Inr k \<longleftrightarrow>
    (\<forall>l \<in> set (split_on 0x2e (drop start raw)). label_ok l) \<and> k = n + length (split_on 0x2e (drop start raw))"
  using assms
proof (induction raw i start n rule: handle_loop.induct)
  case (1 raw i start n)
  consider (at_end) "i = length raw" | (dot) "i < length raw" "raw ! i = 0x2e" | (other) "i < length raw" "raw ! i \<noteq> 0x2e"
    using "1.prems"(2) by linarith
  then show ?case
  proof cases
    case at_end
    then have "split_on 0x2e (drop start raw) = [slice raw start i]"
      using split_on_single "1.prems"(3) by (simp add: slice_to_end)
    then show ?thesis using at_end handle_label_ok by (subst handle_loop.simps) (auto simp: and_then_eq_Inr)
  next
    case dot
    have sp: "split_on 0x2e (drop start raw) = slice raw start i # split_on 0x2e (drop (i + 1) raw)"
      using "1.prems" dot by (intro split_slice) simp_all
    have ih: "handle_loop raw (i + 1) (i + 1) (n + 1) = Inr k \<longleftrightarrow>
        (\<forall>l \<in> set (split_on 0x2e (drop (i + 1) raw)). label_ok l) \<and> k = n + 1 + length (split_on 0x2e (drop (i + 1) raw))"
      if "handle_label raw (slice raw start i) = Inr ()"
      using "1.IH"(1) [OF _ dot(2) that] dot(1) by (simp add: slice_def)
    show ?thesis
    proof (cases "label_ok (slice raw start i)")
      case True
      then have "handle_label raw (slice raw start i) = Inr ()" using handle_label_ok by blast
      with ih dot show ?thesis unfolding sp by (subst handle_loop.simps) (auto simp: True)
    next
      case False
      then have "\<exists>e. handle_label raw (slice raw start i) = Inl e"
        using handle_label_ok by (cases "handle_label raw (slice raw start i)") auto
      with dot False show ?thesis unfolding sp by (subst handle_loop.simps) auto
    qed
  next
    case other
    show ?thesis
    proof (cases "is_ascii (raw ! i)")
      case True
      have "0x2e \<notin> set (slice raw start (i + 1))" using slice_Suc [of start i raw] "1.prems" other by auto
      with "1.IH"(2) other True "1.prems" show ?thesis by (subst handle_loop.simps) auto
    next
      case False
      have "raw ! i \<in> set (drop start raw)"
        using other(1) "1.prems"(1) by (auto simp: in_set_conv_nth intro!: exI [of _ "i - start"])
      then have "\<exists>l \<in> set (split_on 0x2e (drop start raw)). \<not> label_ok l"
        using set_split_on [OF _ other(2)] label_ok_ascii False by blast
      with other False show ?thesis by (subst handle_loop.simps) auto
    qed
  qed
qed

lemma handle_validate_ok: "handle_validate raw = Inr () \<longleftrightarrow> handle_ok raw"
proof (cases "raw = [] \<or> length raw > 253")
  case True
  then show ?thesis by (auto simp: handle_validate_def handle_ok_def)
next
  case False
  let ?ls = "split_on 0x2e raw"
  have loop: "handle_loop raw 0 0 0 = Inr k \<longleftrightarrow> (\<forall>l \<in> set ?ls. label_ok l) \<and> k = length ?ls" for k
    using handle_loop_spec [of 0 0 raw 0 k] by (simp add: slice_def)
  show ?thesis
  proof (cases "(\<forall>l \<in> set ?ls. label_ok l) \<and> 2 \<le> length ?ls")
    case True
    then have run: "handle_loop raw 0 0 0 = Inr (length ?ls)" using loop by blast
    obtain p q where pq: "raw = p @ 0x2e # q" "0x2e \<notin> set q" "last ?ls = q"
      by (rule split_on_last [where c = "0x2e" and xs = raw]) (use True in \<open>simp, blast\<close>)
    have "q \<noteq> []" using True pq(3) by (metis label_ok_def last_in_set split_on_neq)
    have rf: "rfind 0x2e raw = Some (length p)" unfolding pq(1) by (rule rfind_last [OF pq(2)])
    have "drop (length p + 1) raw ! 0 = hd (last ?ls)" using pq \<open>q \<noteq> []\<close> by (simp add: hd_conv_nth)
    then show ?thesis
      using True False run rf by (auto simp: handle_validate_def handle_ok_def Let_def)
  next
    case neg: False
    then have "handle_validate raw \<noteq> Inr ()"
      using loop by (auto simp: handle_validate_def and_then_eq_Inr split: if_splits)
    with neg show ?thesis by (auto simp: handle_ok_def Let_def)
  qed
qed

lemma lower_dot: "to_ascii_lowercase b = 0x2e \<longleftrightarrow> b = 0x2e"
  by (auto simp: to_ascii_lowercase_def is_ascii_uppercase_def word_le_nat_alt word_unat_eq_iff unat_word_ariths)

lemma handle_ok_lower: "handle_ok (map to_ascii_lowercase raw) \<longleftrightarrow> handle_ok raw"
proof -
  have "hd (last (map (map to_ascii_lowercase) ls)) = to_ascii_lowercase (hd (last ls))"
    if "ls \<noteq> []" "\<forall>l \<in> set ls. label_ok l" for ls
    using that by (simp add: last_map hd_map label_ok_def)
  then show ?thesis
    by (auto simp: handle_ok_def Let_def map_split_on [where f = to_ascii_lowercase, OF lower_dot])
qed

text \<open>
  C36. A string is accepted as a handle exactly when it is a domain name of two or more labels,
  the last starting with a letter, within 253 bytes. The handle is the lowercase form, and parsing
  the lowercase form gives it again.
\<close>

theorem handle_grammar:
  "handle_try_from raw = Inr h \<longleftrightarrow>
     handle_ok raw \<and> h = map to_ascii_lowercase raw \<and> handle_try_from h = Inr h"
proof -
  have v: "handle_try_from s = Inr t \<longleftrightarrow> handle_ok s \<and> t = map to_ascii_lowercase s" for s t
    using handle_validate_ok by (auto simp: handle_try_from_def and_then_eq_Inr)
  show ?thesis unfolding v by (auto simp: handle_ok_lower o_def)
qed

end
