(* ===== verification/Syntax_Nsid.thy ===== *)
theory Syntax_Nsid
  imports Syntax_Ids
begin

text \<open>
  NSIDs (\<open>src/src/syntax/nsid.rs\<close>) and record keys (\<open>src/src/syntax/recordkey.rs\<close>).
\<close>

section \<open>NSIDs\<close>

datatype nsid = Nsid storage

definition validate_domain_label :: "str \<Rightarrow> str \<Rightarrow> syntax_error + unit" where
  "validate_domain_label label raw =
     (if label = [] then Inl (InvalidNsid raw ''empty label'')
      else if length label > 63 then Inl (InvalidNsid raw ''label too long'')
      else if \<not> is_ascii_alphanumeric (label ! 0) then Inl (InvalidNsid raw ''label must start with alphanumeric'')
      else if \<not> is_ascii_alphanumeric (label ! (length label - 1))
      then Inl (InvalidNsid raw ''label must end with alphanumeric'')
      else if length label \<ge> 3 \<and>
        \<not> list_all (\<lambda>b. is_ascii_alphanumeric b \<or> b = 0x2d) (slice label 1 (length label - 1))
      then Inl (InvalidNsid raw ''invalid character in label'')
      else Inr ())"

text \<open>The loop over the bytes, with the number of segments and the last dot as its result.\<close>

function nsid_loop :: "str \<Rightarrow> nat \<Rightarrow> nat \<Rightarrow> nat \<Rightarrow> nat option \<Rightarrow> syntax_error + (nat \<times> nat option)" where
  "nsid_loop raw i start seg_count last_dot =
     (if i \<ge> length raw then Inr (seg_count + 1, last_dot)
      else if raw ! i = 0x2e then
        let seg = slice raw start i; seg_count = seg_count + 1 in
        and_then (validate_domain_label seg raw) (\<lambda>_.
          if seg_count = 1 \<and> (seg = [] \<or> \<not> is_ascii_alphabetic (seg ! 0))
          then Inl (InvalidNsid raw ''first segment must start with a letter'')
          else nsid_loop raw (i + 1) (i + 1) seg_count (Some i))
      else nsid_loop raw (i + 1) start seg_count last_dot)"
  by pat_completeness auto
termination nsid_loop
  by (relation "measure (\<lambda>(raw, i, _, _, _). length raw - i)") auto

declare nsid_loop.simps [simp del]

definition nsid_validate :: "str \<Rightarrow> syntax_error + nat" where
  "nsid_validate raw =
     (if raw = [] then Inl (InvalidNsid raw ''empty'')
      else if length raw > 317 then Inl (InvalidNsid raw ''too long'')
      else and_then (nsid_loop raw 0 0 0 None) (\<lambda>(seg_count, last_dot).
        if seg_count < 3 then Inl (InvalidNsid raw ''must have at least 3 segments'')
        else let name_start = (case last_dot of None \<Rightarrow> 0 | Some d \<Rightarrow> d + 1);
                 name = drop name_start raw in
          if name = [] \<or> length name > 63 then Inl (InvalidNsid raw ''name segment must be 1-63 characters'')
          else if \<not> is_ascii_alphabetic (name ! 0) then Inl (InvalidNsid raw ''name segment must start with a letter'')
          else if \<not> list_all is_ascii_alphanumeric (drop 1 name)
          then Inl (InvalidNsid raw ''name segment must be alphanumeric only'')
          else Inr (case last_dot of None \<Rightarrow> 0 | Some d \<Rightarrow> d)))"

definition nsid_try_from :: "str \<Rightarrow> syntax_error + nsid" where
  "nsid_try_from raw = and_then (nsid_validate raw) (\<lambda>last_dot. Inr (Nsid (lowercase_prefix last_dot (small_string raw))))"

fun nsid_as_str :: "nsid \<Rightarrow> str" where
  "nsid_as_str (Nsid s) = as_str s"

definition nsid_authority :: "nsid \<Rightarrow> str" where
  "nsid_authority n =
     (let s = nsid_as_str n;
          last_dot = (case rfind 0x2e s of None \<Rightarrow> 0 | Some i \<Rightarrow> i);
          domain = take last_dot s
      in join 0x2e (rev (split_on 0x2e domain)))"

definition nsid_name :: "nsid \<Rightarrow> str" where
  "nsid_name n =
     (let s = nsid_as_str n; last_dot = (case rfind 0x2e s of None \<Rightarrow> 0 | Some i \<Rightarrow> i) in drop (last_dot + 1) s)"

text \<open>The grammar: two or more domain labels, the first starting with a letter, and a name.\<close>

definition name_ok :: "str \<Rightarrow> bool" where
  "name_ok name \<longleftrightarrow> name \<noteq> [] \<and> length name \<le> 63 \<and> is_ascii_alphabetic (hd name) \<and>
     (\<forall>b \<in> set name. is_ascii_alphanumeric b)"

definition nsid_parts_ok :: "str list \<Rightarrow> str \<Rightarrow> bool" where
  "nsid_parts_ok labels name \<longleftrightarrow>
     2 \<le> length labels \<and> (\<forall>l \<in> set labels. label_ok l) \<and> is_ascii_alphabetic (hd (hd labels)) \<and> name_ok name"

definition nsid_of :: "str list \<Rightarrow> str \<Rightarrow> str" where
  "nsid_of labels name = join 0x2e (labels @ [name])"

lemma validate_domain_label_ok: "validate_domain_label l raw = Inr u \<longleftrightarrow> label_ok l"
  unfolding label_ok_checks validate_domain_label_def label_byte_def by (auto simp: list_all_iff)

lemma no_dot:
  shows "is_ascii_alphanumeric b \<Longrightarrow> b \<noteq> 0x2e" and "label_byte b \<Longrightarrow> b \<noteq> 0x2e"
  by (auto simp: label_byte_def ascii_defs)

lemma parts_no_dot:
  assumes "nsid_parts_ok ls name"
  shows "\<forall>l \<in> set (ls @ [name]). 0x2e \<notin> set l"
  using assms no_dot by (auto simp: nsid_parts_ok_def label_ok_def name_ok_def)

lemma split_on_one:
  assumes "length (split_on c xs) = 1"
  shows "split_on c xs = [xs]"
proof -
  obtain p where p: "split_on c xs = [p]" using assms by (auto simp: length_Suc_conv)
  then have "join c [p] = xs" by (metis join_split_on)
  with p show ?thesis by simp
qed

text \<open>
  What the loop returns from \<open>start\<close> on: \<open>head_ok\<close> is the check of the first segment, made only
  while no segment has been counted.
\<close>

definition head_ok :: "nat \<Rightarrow> str list \<Rightarrow> bool" where
  "head_ok n segs \<longleftrightarrow> n = 0 \<and> 1 < length segs \<longrightarrow> is_ascii_alphabetic (hd (hd segs))"

lemma nsid_loop_spec:
  assumes "start \<le> i" "i \<le> length raw" "0x2e \<notin> set (slice raw start i)"
  shows "nsid_loop raw i start n ld = Inr (k, d) \<longleftrightarrow>
    (let segs = split_on 0x2e (drop start raw) in
      (\<forall>l \<in> set (butlast segs). label_ok l) \<and> head_ok n segs \<and> k = n + length segs \<and>
      d = (if length segs = 1 then ld else Some (length raw - length (last segs) - 1)))"
  using assms
proof (induction raw i start n ld rule: nsid_loop.induct)
  case (1 raw i start n ld)
  consider (at_end) "i = length raw" | (dot) "i < length raw" "raw ! i = 0x2e" | (other) "i < length raw" "raw ! i \<noteq> 0x2e"
    using "1.prems"(2) by linarith
  then show ?case
  proof cases
    case at_end
    then have "split_on 0x2e (drop start raw) = [slice raw start i]"
      using split_on_single "1.prems"(3) by (simp add: slice_to_end)
    then show ?thesis using at_end by (subst nsid_loop.simps) (auto simp: head_ok_def)
  next
    case dot
    let ?seg = "slice raw start i" and ?rest = "split_on 0x2e (drop (i + 1) raw)"
    have sp: "split_on 0x2e (drop start raw) = ?seg # ?rest"
      using "1.prems" dot by (intro split_slice) simp_all
    have shape: "butlast (?seg # ?rest) = ?seg # butlast ?rest" "last (?seg # ?rest) = last ?rest" by simp_all
    note single = split_on_one [of "0x2e" "drop (i + 1) raw"]
    show ?thesis
    proof (cases "label_ok ?seg \<and> head_ok n (?seg # ?rest)")
      case True
      then have lab: "validate_domain_label ?seg raw = Inr ()" "?seg \<noteq> []"
        using validate_domain_label_ok by (blast, simp add: label_ok_def)
      have hd: "\<not> (n + 1 = 1 \<and> (?seg = [] \<or> \<not> is_ascii_alphabetic (?seg ! 0)))"
        using True lab(2) by (auto simp: head_ok_def hd_conv_nth)
      have "nsid_loop raw i start n ld = nsid_loop raw (i + 1) (i + 1) (n + 1) (Some i)"
        using dot lab hd by (subst nsid_loop.simps) (auto simp: Let_def)
      also have "\<dots> = Inr (k, d) \<longleftrightarrow> (\<forall>l \<in> set (butlast ?rest). label_ok l) \<and> k = n + 1 + length ?rest \<and>
          d = (if length ?rest = 1 then Some i else Some (length raw - length (last ?rest) - 1))"
        using "1.IH"(1) [OF _ dot(2) refl refl lab(1) hd] dot(1) by (simp add: slice_def head_ok_def Let_def)
      finally show ?thesis
        using True single dot(1) unfolding sp Let_def shape by (auto simp: Suc_diff_Suc)
    next
      case False
      have "nsid_loop raw i start n ld \<noteq> Inr (k, d)"
      proof (cases "label_ok ?seg")
        case True
        then have "n + 1 = 1 \<and> (?seg = [] \<or> \<not> is_ascii_alphabetic (?seg ! 0))"
          using False by (auto simp: head_ok_def label_ok_def hd_conv_nth)
        then show ?thesis using dot validate_domain_label_ok [of ?seg raw "()"] True by (subst nsid_loop.simps) (simp add: Let_def)
      next
        case lab: False
        then have "\<exists>e. validate_domain_label ?seg raw = Inl e"
          using validate_domain_label_ok by (cases "validate_domain_label ?seg raw") auto
        then show ?thesis using dot by (subst nsid_loop.simps) (auto simp: Let_def)
      qed
      then show ?thesis using False unfolding sp Let_def shape by auto
    qed
  next
    case other
    have "0x2e \<notin> set (slice raw start (i + 1))" using slice_Suc [of start i raw] "1.prems" other by auto
    with "1.IH"(2) other "1.prems" show ?thesis by (subst nsid_loop.simps) simp
  qed
qed

lemma name_ok_checks:
  "name_ok name \<longleftrightarrow> name \<noteq> [] \<and> \<not> length name > 63 \<and> is_ascii_alphabetic (name ! 0) \<and>
     list_all is_ascii_alphanumeric (drop 1 name)"
  by (cases name) (auto simp: name_ok_def list_all_iff is_ascii_alphanumeric_def)

lemma nsid_of_last:
  assumes "ls \<noteq> []"
  shows "nsid_of ls name = join 0x2e ls @ 0x2e # name"
  using assms unfolding nsid_of_def by (induction "0x2e :: u8" ls rule: join.induct) (auto simp: join_Cons)

lemma nsid_of_utf8:
  assumes "nsid_parts_ok ls name" "b \<in> set (nsid_of ls name)"
  shows "is_ascii b"
proof -
  have "b \<in> set (join 0x2e ps) \<Longrightarrow> b = 0x2e \<or> (\<exists>p \<in> set ps. b \<in> set p)" for ps
    by (induction "0x2e :: u8" ps rule: join.induct) auto
  then have "b = 0x2e \<or> (\<exists>p \<in> set (ls @ [name]). b \<in> set p)" using assms(2) unfolding nsid_of_def by blast
  then show ?thesis
    using assms(1) label_ok_ascii ascii_alphanumeric_is_ascii
    by (auto simp: nsid_parts_ok_def name_ok_def is_ascii_def)
qed

lemma nsid_validate_parts:
  "nsid_validate raw = Inr d \<longleftrightarrow>
     (\<exists>ls name. raw = nsid_of ls name \<and> nsid_parts_ok ls name \<and> length raw \<le> 317 \<and> d = length (join 0x2e ls))"
  (is "?L = ?R")
proof
  assume L: ?L
  let ?segs = "split_on 0x2e raw"
  obtain k ld where run: "nsid_loop raw 0 0 0 None = Inr (k, ld)" "3 \<le> k" "length raw \<le> 317"
    "d = (case ld of None \<Rightarrow> 0 | Some d \<Rightarrow> d)" "name_ok (drop (case ld of None \<Rightarrow> 0 | Some d \<Rightarrow> d + 1) raw)"
    using L unfolding name_ok_checks by (auto simp: nsid_validate_def Let_def and_then_eq_Inr split: if_splits)
  have sp: "\<forall>l \<in> set (butlast ?segs). label_ok l" "head_ok 0 ?segs" "k = length ?segs"
    "ld = (if length ?segs = 1 then None else Some (length raw - length (last ?segs) - 1))"
    using run(1) nsid_loop_spec [of 0 0 raw 0 None k ld] by (simp_all add: slice_def Let_def)
  obtain p q where pq: "raw = p @ 0x2e # q" "last ?segs = q" "butlast ?segs = split_on 0x2e p"
    by (rule split_on_last [where c = "0x2e" and xs = raw]) (use run(2) sp(3) in \<open>simp, blast\<close>)
  have ld: "ld = Some (length p)" using sp(3,4) run(2) pq(1,2) by simp
  have segs: "?segs = split_on 0x2e p @ [q]" using pq(2,3) by (metis append_butlast_last_id split_on_neq)
  have "raw = nsid_of (split_on 0x2e p) q" using nsid_of_last [of "split_on 0x2e p" q] pq(1) by simp
  moreover have "nsid_parts_ok (split_on 0x2e p) q"
    using sp(1-3) run(2,5) pq ld segs by (auto simp: nsid_parts_ok_def head_ok_def hd_append)
  moreover have "d = length (join 0x2e (split_on 0x2e p))" using run(4) ld by simp
  ultimately show ?R using run(3) by blast
next
  assume ?R
  then obtain ls name where n: "raw = nsid_of ls name" "nsid_parts_ok ls name" "length raw \<le> 317" "d = length (join 0x2e ls)" by blast
  have ne: "ls \<noteq> []" using n(2) by (auto simp: nsid_parts_ok_def)
  have segs: "split_on 0x2e raw = ls @ [name]"
    unfolding n(1) nsid_of_def using parts_no_dot [OF n(2)] by (intro split_on_join) auto
  have raw: "raw = join 0x2e ls @ 0x2e # name" using nsid_of_last [OF ne] n(1) by simp
  then have len: "length raw - length name - 1 = length (join 0x2e ls)" by simp
  have "nsid_loop raw 0 0 0 None = Inr (length ls + 1, Some (length (join 0x2e ls)))"
    using n(2) ne len nsid_loop_spec [of 0 0 raw 0 None "length ls + 1" "Some (length (join 0x2e ls))"]
    by (simp add: slice_def Let_def segs head_ok_def nsid_parts_ok_def hd_append)
  moreover have "drop (length (join 0x2e ls) + 1) raw = name" "raw \<noteq> []" using raw by simp_all
  ultimately show ?L
    using n(2,3,4) unfolding nsid_parts_ok_def name_ok_checks by (auto simp: nsid_validate_def )
qed

text \<open>
  C37. A string is accepted as an NSID exactly when it is two or more domain labels and a name,
  within 317 bytes. The NSID has the labels in lowercase and the name as it was written, its name
  accessor returns the name, and its authority accessor the labels in the opposite order.
\<close>

theorem nsid_grammar:
  "nsid_try_from raw = Inr n \<longleftrightarrow>
     (\<exists>ls name. raw = nsid_of ls name \<and> nsid_parts_ok ls name \<and> length raw \<le> 317 \<and>
        n = Nsid (lowercase_prefix (length (join 0x2e ls)) (small_string raw)) \<and>
        nsid_as_str n = nsid_of (map (map to_ascii_lowercase) ls) name \<and> nsid_name n = name \<and>
        nsid_authority n = join 0x2e (rev (map (map to_ascii_lowercase) ls)))"
  (is "_ \<longleftrightarrow> (\<exists>ls name. ?P ls name)")
proof
  assume "nsid_try_from raw = Inr n"
  then obtain ls name where p: "raw = nsid_of ls name" "nsid_parts_ok ls name" "length raw \<le> 317"
    and n: "n = Nsid (lowercase_prefix (length (join 0x2e ls)) (small_string raw))"
    using nsid_validate_parts by (auto simp: nsid_try_from_def)
  let ?ls = "map (map to_ascii_lowercase) ls"
  have ne: "ls \<noteq> []" using p(2) by (auto simp: nsid_parts_ok_def)
  have low: "map to_ascii_lowercase (join 0x2e ps) = join 0x2e (map (map to_ascii_lowercase) ps)" for ps
  proof (induction "0x2e :: u8" ps rule: join.induct)
    case (3 p q ps)
    then show ?case using lower_dot [of "0x2e"] by simp
  qed simp_all
  have "nsid_as_str n = map to_ascii_lowercase (join 0x2e ls) @ 0x2e # name"
    unfolding n nsid_as_str.simps
    by (subst as_str_lowercase_prefix) (use nsid_of_utf8 [OF p(2)] nsid_of_last [OF ne, of name] p(1) in auto)
  then have s: "nsid_as_str n = join 0x2e ?ls @ 0x2e # name" using low by simp
  have nd: "0x2e \<notin> set name" "\<forall>l \<in> set ?ls. 0x2e \<notin> set l" using parts_no_dot [OF p(2)] lower_dot by auto
  have "split_on 0x2e (join 0x2e ?ls) = ?ls" using ne nd(2) by (intro split_on_join) auto
  then have "nsid_name n = name" "nsid_authority n = join 0x2e (rev ?ls)"
    using rfind_last [OF nd(1), of "join 0x2e ?ls"] unfolding nsid_name_def nsid_authority_def s Let_def by simp_all
  moreover have "nsid_as_str n = nsid_of ?ls name" using s nsid_of_last [of ?ls name] ne by simp
  ultimately show "\<exists>ls name. ?P ls name" using p n by blast
next
  assume "\<exists>ls name. ?P ls name"
  then obtain ls name where P: "?P ls name" by (elim exE)
  have "nsid_validate raw = Inr (length (join 0x2e ls))"
    unfolding nsid_validate_parts using P by (intro exI [of _ ls] exI [of _ name] conjI refl) (elim conjE, assumption)+
  moreover have "n = Nsid (lowercase_prefix (length (join 0x2e ls)) (small_string raw))" using P by (elim conjE)
  ultimately show "nsid_try_from raw = Inr n" by (simp add: nsid_try_from_def)
qed

section \<open>Record keys\<close>

datatype record_key = RecordKey storage

definition is_record_key_char :: "u8 \<Rightarrow> bool" where
  "is_record_key_char b \<longleftrightarrow>
     is_ascii_alphanumeric b \<or> b = 0x5f \<or> b = 0x7e \<or> b = 0x2e \<or> b = 0x3a \<or> b = 0x2d"

definition recordkey_validate :: "str \<Rightarrow> syntax_error + unit" where
  "recordkey_validate raw =
     (if raw = [] then Inl (InvalidRecordKey raw ''empty'')
      else if length raw > 512 then Inl (InvalidRecordKey raw ''too long'')
      else if raw = lit ''.'' \<or> raw = lit ''..'' then Inl (InvalidRecordKey raw ''disallowed value'')
      else if \<not> fold (\<lambda>b valid. valid \<and> is_record_key_char b) raw True then Inl (InvalidRecordKey raw ''invalid character'')
      else Inr ())"

definition recordkey_try_from :: "str \<Rightarrow> syntax_error + record_key" where
  "recordkey_try_from raw = and_then (recordkey_validate raw) (\<lambda>_. Inr (RecordKey (small_string raw)))"

fun recordkey_as_str :: "record_key \<Rightarrow> str" where
  "recordkey_as_str (RecordKey s) = as_str s"

definition recordkey_ok :: "str \<Rightarrow> bool" where
  "recordkey_ok raw \<longleftrightarrow> raw \<noteq> [] \<and> length raw \<le> 512 \<and> raw \<noteq> lit ''.'' \<and> raw \<noteq> lit ''..'' \<and>
     (\<forall>b \<in> set raw. is_record_key_char b)"

lemma recordkey_validate_ok: "recordkey_validate raw = Inr () \<longleftrightarrow> recordkey_ok raw"
  by (auto simp: recordkey_validate_def recordkey_ok_def fold_conj)

end
