(* ===== verification/Syntax_Uri.thy ===== *)
theory Syntax_Uri
  imports Syntax_Nsid
begin

text \<open>
  AT identifiers (\<open>src/src/syntax/at_identifier.rs\<close>) and AT URIs (\<open>src/src/syntax/aturi.rs\<close>).
\<close>

section \<open>AT identifiers\<close>

datatype at_identifier = AtDid did | AtHandle handle

definition at_identifier_validate :: "str \<Rightarrow> syntax_error + unit" where
  "at_identifier_validate raw = (if starts_with (lit ''did:'') raw then did_validate raw else handle_validate raw)"

definition at_identifier_try_from :: "str \<Rightarrow> syntax_error + at_identifier" where
  "at_identifier_try_from raw =
     (if starts_with (lit ''did:'') raw then and_then (did_try_from raw) (\<lambda>d. Inr (AtDid d))
      else and_then (handle_try_from raw) (\<lambda>h. Inr (AtHandle h)))"

fun at_identifier_fmt :: "at_identifier \<Rightarrow> str" where
  "at_identifier_fmt (AtDid d) = did_as_str d"
| "at_identifier_fmt (AtHandle h) = h"

fun is_did :: "at_identifier \<Rightarrow> bool" where
  "is_did (AtDid _) = True"
| "is_did (AtHandle _) = False"

fun is_handle :: "at_identifier \<Rightarrow> bool" where
  "is_handle (AtDid _) = False"
| "is_handle (AtHandle _) = True"

fun as_did :: "at_identifier \<Rightarrow> did option" where
  "as_did (AtDid d) = Some d"
| "as_did (AtHandle _) = None"

fun as_handle :: "at_identifier \<Rightarrow> handle option" where
  "as_handle (AtDid _) = None"
| "as_handle (AtHandle h) = Some h"

lemma at_identifier_try_from_validate:
  "is_ok (at_identifier_try_from raw) \<longleftrightarrow> at_identifier_validate raw = Inr ()"
  by (auto simp: at_identifier_try_from_def at_identifier_validate_def did_try_from_def handle_try_from_def
      is_ok_def and_then_def split: sum.splits)

section \<open>Fragments\<close>

definition is_fragment_char :: "u8 \<Rightarrow> bool" where
  "is_fragment_char b \<longleftrightarrow>
     is_ascii_alphanumeric b \<or> b \<in> set (lit ''._~:@!$&'' @ [0x27] @ lit ''()*+,;=%[]/-'')"

definition hex_value :: "u8 \<Rightarrow> u8 option" where
  "hex_value b =
     (if is_ascii_digit b then Some (b - 0x30)
      else if 0x61 \<le> b \<and> b \<le> 0x66 then Some (b - 0x61 + 10)
      else if 0x41 \<le> b \<and> b \<le> 0x46 then Some (b - 0x41 + 10)
      else None)"

text \<open>The decoding loop, over the bytes from \<open>i\<close> on.\<close>

fun percent_decode :: "bytes \<Rightarrow> string + bytes" where
  "percent_decode [] = Inr []"
| "percent_decode (b # bs) =
     (if b = 0x25 then
        (case bs of
           h # l # rest \<Rightarrow>
             (case (hex_value h, hex_value l) of
                (Some hi, Some lo) \<Rightarrow> and_then (percent_decode rest) (\<lambda>d. Inr ((push_bit 4 hi OR lo) # d))
              | _ \<Rightarrow> Inl ''% must be followed by two hex digits'')
         | _ \<Rightarrow> Inl ''% must be followed by two hex digits'')
      else and_then (percent_decode bs) (\<lambda>d. Inr (b # d)))"

definition validate_fragment :: "str \<Rightarrow> string + unit" where
  "validate_fragment fragment =
     (if \<not> starts_with (lit ''/'') fragment then Inl ''must be a JSON pointer, starting with /''
      else if \<not> list_all is_fragment_char fragment then Inl ''invalid character''
      else if 0x25 \<notin> set fragment then Inr ()
      else and_then (percent_decode fragment) (\<lambda>decoded.
        if utf8_valid decoded then Inr () else Inl ''percent-encoding is not UTF-8''))"

section \<open>AT URIs\<close>

type_synonym aturi = str

text \<open>The collection and the record key after the authority.\<close>

definition aturi_path :: "str \<Rightarrow> str \<Rightarrow> syntax_error + unit" where
  "aturi_path raw after_auth =
     (if after_auth = [] then Inl (InvalidAtUri raw ''trailing slash without collection'' None)
      else let (collection, has_rkey) =
          (case position (\<lambda>b. b = 0x2f) after_auth of
             Some idx \<Rightarrow> (take idx after_auth, True) | None \<Rightarrow> (after_auth, False)) in
        if collection = [] then Inl (InvalidAtUri raw ''empty collection segment'' None)
        else and_then (map_err (\<lambda>e. InvalidAtUri raw ''invalid collection'' (Some e)) (nsid_validate collection)) (\<lambda>_.
          if \<not> has_rkey then Inr ()
          else let rkey = drop (length collection + 1) after_auth in
            if rkey = [] then Inl (InvalidAtUri raw ''trailing slash without record key'' None)
            else and_then (map_err (\<lambda>e. InvalidAtUri raw ''invalid record key'' (Some e)) (recordkey_validate rkey))
              (\<lambda>_. Inr ())))"

text \<open>Everything after \<open>at://\<close>.\<close>

definition aturi_rest :: "str \<Rightarrow> str \<Rightarrow> syntax_error + unit" where
  "aturi_rest raw rest =
     (if rest = [] then Inl (InvalidAtUri raw ''empty authority'' None)
      else let (authority, has_path) =
          (case position (\<lambda>b. b = 0x2f) rest of Some idx \<Rightarrow> (take idx rest, True) | None \<Rightarrow> (rest, False)) in
        if authority = [] then Inl (InvalidAtUri raw ''empty authority'' None)
        else and_then (map_err (\<lambda>e. InvalidAtUri raw ''invalid authority'' (Some e)) (at_identifier_validate authority)) (\<lambda>_.
          if \<not> has_path then Inr ()
          else aturi_path raw (drop (length authority + 1) rest)))"

definition aturi_validate :: "str \<Rightarrow> syntax_error + unit" where
  "aturi_validate raw =
     (if raw = [] then Inl (InvalidAtUri raw ''empty'' None)
      else if length raw > 8192 then Inl (InvalidAtUri raw ''too long'' None)
      else and_then
        (case position (\<lambda>b. b = 0x23) raw of
           Some hash \<Rightarrow> and_then (map_err (\<lambda>m. InvalidAtUri raw (''invalid fragment: '' @ m) None)
               (validate_fragment (drop (hash + 1) raw))) (\<lambda>_. Inr (take hash raw))
         | None \<Rightarrow> Inr raw) (\<lambda>uri.
        if \<not> starts_with (lit ''at://'') uri then Inl (InvalidAtUri raw ''must start with at://'' None)
        else aturi_rest raw (drop 5 uri)))"

definition aturi_try_from :: "str \<Rightarrow> syntax_error + aturi" where
  "aturi_try_from raw = and_then (aturi_validate raw) (\<lambda>_. Inr raw)"

definition after_scheme :: "aturi \<Rightarrow> str" where
  "after_scheme u = (let to = (case position (\<lambda>b. b = 0x23) u of None \<Rightarrow> length u | Some i \<Rightarrow> i) in slice u 5 to)"

definition aturi_authority :: "aturi \<Rightarrow> str" where
  "aturi_authority u =
     (let rest = after_scheme u in
      case position (\<lambda>b. b = 0x2f) rest of Some idx \<Rightarrow> take idx rest | None \<Rightarrow> rest)"

definition aturi_collection :: "aturi \<Rightarrow> str option" where
  "aturi_collection u =
     (let rest = after_scheme u in
      case position (\<lambda>b. b = 0x2f) rest of
        None \<Rightarrow> None
      | Some idx \<Rightarrow>
          let after_auth = drop (idx + 1) rest in
          if after_auth = [] then None
          else case position (\<lambda>b. b = 0x2f) after_auth of Some idx \<Rightarrow> Some (take idx after_auth) | None \<Rightarrow> Some after_auth)"

definition aturi_rkey :: "aturi \<Rightarrow> str option" where
  "aturi_rkey u =
     (let rest = after_scheme u in
      case position (\<lambda>b. b = 0x2f) rest of
        None \<Rightarrow> None
      | Some idx \<Rightarrow>
          let after_auth = drop (idx + 1) rest in
          case position (\<lambda>b. b = 0x2f) after_auth of
            None \<Rightarrow> None
          | Some idx \<Rightarrow> let after_coll = drop (idx + 1) after_auth in if after_coll = [] then None else Some after_coll)"

definition aturi_fragment :: "aturi \<Rightarrow> str option" where
  "aturi_fragment u = map_option (\<lambda>i. drop (i + 1) u) (position (\<lambda>b. b = 0x23) u)"

text \<open>
  The grammar: an authority, then a collection and a record key in it, then a fragment, each part
  after the authority optional.
\<close>

fun path_of :: "(str \<times> str option) option \<Rightarrow> str" where
  "path_of None = []"
| "path_of (Some (c, None)) = 0x2f # c"
| "path_of (Some (c, Some r)) = 0x2f # c @ 0x2f # r"

definition uri_of :: "str \<Rightarrow> (str \<times> str option) option \<Rightarrow> str option \<Rightarrow> str" where
  "uri_of auth path frag = lit ''at://'' @ auth @ path_of path @ (case frag of None \<Rightarrow> [] | Some f \<Rightarrow> 0x23 # f)"

fun path_ok :: "(str \<times> str option) option \<Rightarrow> bool" where
  "path_ok None \<longleftrightarrow> True"
| "path_ok (Some (c, r)) \<longleftrightarrow> is_ok (nsid_validate c) \<and> (case r of None \<Rightarrow> True | Some r \<Rightarrow> recordkey_ok r)"

definition uri_parts_ok :: "str \<Rightarrow> (str \<times> str option) option \<Rightarrow> str option \<Rightarrow> bool" where
  "uri_parts_ok auth path frag \<longleftrightarrow> is_ok (at_identifier_validate auth) \<and> path_ok path \<and>
     (case frag of None \<Rightarrow> True | Some f \<Rightarrow> validate_fragment f = Inr ())"

text \<open>No part before the fragment holds a slash or a hash sign.\<close>

lemma alnum_plain: "is_ascii_alphanumeric b \<Longrightarrow> b \<noteq> 0x2f \<and> b \<noteq> 0x23"
  by (auto simp: ascii_defs)

lemma label_plain: "label_ok l \<Longrightarrow> b \<in> set l \<Longrightarrow> b \<noteq> 0x2f \<and> b \<noteq> 0x23"
  using alnum_plain by (fastforce simp: label_ok_def label_byte_def)

lemma authority_plain:
  assumes "is_ok (at_identifier_validate a)"
  shows "a \<noteq> [] \<and> (\<forall>b \<in> set a. b \<noteq> 0x2f \<and> b \<noteq> 0x23)"
proof (cases "starts_with (lit ''did:'') a")
  case True
  then have "did_validate a = Inr ()"
    using assms by (cases "did_validate a") (simp_all add: at_identifier_validate_def)
  then obtain m i where "a = did_of m i" "did_parts_ok m i" by (rule did_validate_parts)
  moreover have "is_did_ident_char b \<or> is_ascii_lowercase b \<Longrightarrow> b \<noteq> 0x2f \<and> b \<noteq> 0x23" for b
    by (auto simp: is_did_ident_char_def ascii_defs)
  ultimately show ?thesis by (auto simp: did_of_def did_parts_ok_def of_char_def)
next
  case False
  then have "handle_ok a"
    using assms handle_validate_ok by (cases "handle_validate a") (auto simp: at_identifier_validate_def)
  then have ls: "\<forall>l \<in> set (split_on 0x2e a). label_ok l" "a \<noteq> []" by (auto simp: handle_ok_def Let_def)
  then show ?thesis using set_split_on [of _ a "0x2e"] label_plain by (auto; fastforce)
qed

lemma nsid_plain:
  assumes "is_ok (nsid_validate c)"
  shows "c \<noteq> [] \<and> (\<forall>b \<in> set c. b \<noteq> 0x2f \<and> b \<noteq> 0x23)"
proof -
  obtain d where "nsid_validate c = Inr d" using assms by (cases "nsid_validate c") simp_all
  then obtain ls name where n: "c = nsid_of ls name" "nsid_parts_ok ls name" using nsid_validate_parts by blast
  have ne: "ls @ [name] \<noteq> []" by simp
  have sp: "split_on 0x2e c = ls @ [name]" unfolding n(1) nsid_of_def using parts_no_dot [OF n(2)] ne by (intro split_on_join) auto
  have "b \<noteq> 0x2f \<and> b \<noteq> 0x23" if b: "b \<in> set c" for b
  proof (cases "b = 0x2e")
    case False
    then obtain p where "p \<in> set (ls @ [name])" "b \<in> set p" using set_split_on [OF b] sp by metis
    then show ?thesis using n(2) label_plain alnum_plain by (fastforce simp: nsid_parts_ok_def name_ok_def)
  qed simp
  moreover have "c \<noteq> []" using sp n(2) by (cases c) (auto simp: nsid_parts_ok_def)
  ultimately show ?thesis by blast
qed

lemma rkey_plain: "recordkey_ok r \<Longrightarrow> r \<noteq> [] \<and> (\<forall>b \<in> set r. b \<noteq> 0x2f \<and> b \<noteq> 0x23)"
  using alnum_plain by (fastforce simp: recordkey_ok_def is_record_key_char_def)

text \<open>Cutting at the first separator.\<close>

lemma position_plain: "\<forall>b \<in> set xs. b \<noteq> c \<Longrightarrow> position (\<lambda>b. b = c) xs = None"
  by (auto simp: position_None)

lemma aturi_path_ok:
  "aturi_path raw after_auth = Inr () \<longleftrightarrow> (\<exists>c r. 0x2f # after_auth = path_of (Some (c, r)) \<and> path_ok (Some (c, r)))"
  (is "?L = ?R")
proof
  assume L: ?L
  show ?R
  proof (cases "position (\<lambda>b. b = 0x2f) after_auth")
    case None
    then have "is_ok (nsid_validate after_auth)"
      using L by (cases "nsid_validate after_auth") (auto simp: aturi_path_def split: if_splits)
    then show ?thesis by (intro exI [of _ after_auth] exI [of _ None]) simp
  next
    case (Some i)
    note sp = position_split [OF Some]
    have li: "length (take i after_auth) = i" using sp(3) by simp
    have "is_ok (nsid_validate (take i after_auth)) \<and> recordkey_validate (drop (i + 1) after_auth) = Inr ()"
      using L unfolding aturi_path_def Some Let_def option.case prod.case li
      by (cases "nsid_validate (take i after_auth)") (auto split: if_splits)
    then have "is_ok (nsid_validate (take i after_auth))" "recordkey_ok (drop (i + 1) after_auth)"
      using recordkey_validate_ok by blast+
    then show ?thesis using sp(1) by (intro exI [of _ "take i after_auth"] exI [of _ "Some (drop (i + 1) after_auth)"]) simp
  qed
next
  assume ?R
  then obtain c r where cr: "0x2f # after_auth = path_of (Some (c, r))" "path_ok (Some (c, r))" by blast
  obtain d where d: "nsid_validate c = Inr d" using cr(2) by (cases "nsid_validate c") simp_all
  have c: "c \<noteq> []" "\<forall>b \<in> set c. b \<noteq> 0x2f" using cr(2) nsid_plain [of c] by auto
  show ?L
  proof (cases r)
    case None
    then show ?thesis using cr(1) c d by (simp add: aturi_path_def position_plain)
  next
    case (Some k)
    then have k: "recordkey_ok k" "k \<noteq> []" "after_auth = c @ 0x2f # k" using cr rkey_plain by auto
    have "recordkey_validate k = Inr ()" using recordkey_validate_ok k(1) by blast
    then show ?thesis using k c d position_append [OF c(2), of k] by (simp add: aturi_path_def)
  qed
qed

lemma aturi_rest_ok:
  "aturi_rest raw rest = Inr () \<longleftrightarrow>
     (\<exists>auth path. rest = auth @ path_of path \<and> is_ok (at_identifier_validate auth) \<and> path_ok path)"
  (is "?L = ?R")
proof
  assume L: ?L
  show ?R
  proof (cases "position (\<lambda>b. b = 0x2f) rest")
    case None
    then have "is_ok (at_identifier_validate rest)"
      using L by (cases "at_identifier_validate rest") (auto simp: aturi_rest_def split: if_splits)
    then show ?thesis by (intro exI [of _ rest] exI [of _ None]) simp
  next
    case (Some i)
    note sp = position_split [OF Some]
    have li: "length (take i rest) = i" using sp(3) by simp
    have "is_ok (at_identifier_validate (take i rest)) \<and> aturi_path raw (drop (i + 1) rest) = Inr ()"
      using L unfolding aturi_rest_def Some Let_def option.case prod.case li
      by (cases "at_identifier_validate (take i rest)") (auto split: if_splits)
    then have a: "is_ok (at_identifier_validate (take i rest))" "aturi_path raw (drop (i + 1) rest) = Inr ()" by blast+
    from a(2) obtain c r where "0x2f # drop (i + 1) rest = path_of (Some (c, r))" "path_ok (Some (c, r))"
      using aturi_path_ok by blast
    then show ?thesis using a(1) sp(1) by (metis (no_types))
  qed
next
  assume ?R
  then obtain auth path where p: "rest = auth @ path_of path" "is_ok (at_identifier_validate auth)" "path_ok path" by blast
  have a: "auth \<noteq> []" "\<forall>b \<in> set auth. b \<noteq> 0x2f" using authority_plain [OF p(2)] by auto
  obtain u where v: "at_identifier_validate auth = Inr u" using p(2) by (cases "at_identifier_validate auth") simp_all
  show ?L
  proof (cases path)
    case None
    then show ?thesis using p(1) a v by (simp add: aturi_rest_def position_plain)
  next
    case (Some cr)
    obtain c r where cr: "cr = (c, r)" by fastforce
    obtain q where q: "path_of path = 0x2f # q" unfolding Some cr by (cases r) auto
    then have "aturi_path raw q = Inr ()" using aturi_path_ok p(3) Some cr by metis
    then show ?thesis using p(1) a v q position_append [OF a(2), of q] by (simp add: aturi_rest_def)
  qed
qed

lemma path_plain: "path_ok path \<Longrightarrow> \<forall>b \<in> set (path_of path). b \<noteq> 0x23"
proof (cases path)
  case (Some cr)
  assume p: "path_ok path"
  obtain c r where cr: "cr = (c, r)" by fastforce
  then show ?thesis using p Some nsid_plain [of c] rkey_plain by (cases r) auto
qed simp

lemma starts_with_drop: "starts_with (lit ''at://'') s \<Longrightarrow> s = lit ''at://'' @ drop 5 s"
  by (auto simp: starts_with_append)

lemma aturi_validate_ok:
  "aturi_validate raw = Inr () \<longleftrightarrow>
     (\<exists>auth path frag. raw = uri_of auth path frag \<and> uri_parts_ok auth path frag \<and> length raw \<le> 8192)"
  (is "?L = ?R")
proof
  assume L: ?L
  have len: "length raw \<le> 8192" using L by (simp add: aturi_validate_def split: if_splits)
  show ?R
  proof (cases "position (\<lambda>b. b = 0x23) raw")
    case None
    then have s: "starts_with (lit ''at://'') raw" "aturi_rest raw (drop 5 raw) = Inr ()"
      using L by (auto simp: aturi_validate_def simp del: lit_Cons split: if_splits)
    then obtain auth path where "drop 5 raw = auth @ path_of path" "is_ok (at_identifier_validate auth)" "path_ok path"
      using aturi_rest_ok by blast
    moreover note starts_with_drop [OF s(1)]
    ultimately have "raw = uri_of auth path None \<and> uri_parts_ok auth path None"
      by (simp add: uri_of_def uri_parts_ok_def del: lit_Cons)
    with len show ?thesis by blast
  next
    case (Some h)
    note sp = position_split [OF Some]
    let ?f = "drop (h + 1) raw"
    have s: "validate_fragment ?f = Inr ()" "starts_with (lit ''at://'') (take h raw)" "aturi_rest raw (drop 5 (take h raw)) = Inr ()"
      using L Some by (auto simp: aturi_validate_def simp del: lit_Cons split: if_splits)
    then obtain auth path where ap: "drop 5 (take h raw) = auth @ path_of path" "is_ok (at_identifier_validate auth)" "path_ok path"
      using aturi_rest_ok by blast
    have "take h raw = lit ''at://'' @ auth @ path_of path" using starts_with_drop [OF s(2)] ap(1) by simp
    then have "raw = uri_of auth path (Some ?f) \<and> uri_parts_ok auth path (Some ?f)"
      using s sp(1) ap by (simp add: uri_of_def uri_parts_ok_def del: lit_Cons)
    with len show ?thesis by blast
  qed
next
  assume ?R
  then obtain auth path frag where p: "raw = uri_of auth path frag" "uri_parts_ok auth path frag" "length raw \<le> 8192" by blast
  let ?pre = "lit ''at://'' @ auth @ path_of path"
  have ok: "is_ok (at_identifier_validate auth)" "path_ok path" using p(2) by (simp_all add: uri_parts_ok_def)
  have pre: "\<forall>b \<in> set ?pre. b \<noteq> 0x23" using authority_plain [OF ok(1)] path_plain [OF ok(2)] by (auto simp: of_char_def)
  have rest: "aturi_rest raw (drop 5 ?pre) = Inr ()" using aturi_rest_ok ok by auto
  have st: "starts_with (lit ''at://'') ?pre" using starts_with_append by blast
  have ne: "raw \<noteq> []" using p(1) by (simp add: uri_of_def)
  show ?L
  proof (cases frag)
    case None
    then have "raw = ?pre" using p(1) by (simp add: uri_of_def)
    then show ?thesis using position_plain [OF pre] p(3) st rest ne by (simp add: aturi_validate_def del: lit_Cons)
  next
    case (Some f)
    then have raw: "raw = ?pre @ 0x23 # f" "validate_fragment f = Inr ()" using p(1,2) by (simp_all add: uri_of_def uri_parts_ok_def)
    have "position (\<lambda>b. b = 0x23) raw = Some (length ?pre)" unfolding raw(1) by (rule position_append [OF pre])
    moreover have "take (length ?pre) raw = ?pre" "drop (length ?pre + 1) raw = f"
      unfolding raw(1) by (simp_all del: lit_Cons)
    ultimately show ?thesis using p(3) st rest ne raw(2) by (simp add: aturi_validate_def del: lit_Cons)
  qed
qed

text \<open>What the accessors return on a URI of the grammar.\<close>

lemma uri_parts:
  assumes "uri_parts_ok auth path frag"
  shows "after_scheme (uri_of auth path frag) = auth @ path_of path" and "aturi_fragment (uri_of auth path frag) = frag"
proof -
  let ?pre = "lit ''at://'' @ auth @ path_of path"
  have ok: "is_ok (at_identifier_validate auth)" "path_ok path" using assms by (simp_all add: uri_parts_ok_def)
  have pre: "\<forall>b \<in> set ?pre. b \<noteq> 0x23" using authority_plain [OF ok(1)] path_plain [OF ok(2)] by (auto simp: of_char_def)
  have "(case position (\<lambda>b. b = 0x23) (uri_of auth path frag) of None \<Rightarrow> length (uri_of auth path frag) | Some i \<Rightarrow> i) = length ?pre"
    "aturi_fragment (uri_of auth path frag) = frag"
    using position_plain [OF pre] position_append [OF pre]
    by (cases frag; simp add: uri_of_def aturi_fragment_def del: lit_Cons)+
  moreover have "slice (uri_of auth path frag) 5 (length ?pre) = auth @ path_of path"
    unfolding uri_of_def slice_def by (cases frag) simp_all
  ultimately show "after_scheme (uri_of auth path frag) = auth @ path_of path" "aturi_fragment (uri_of auth path frag) = frag"
    by (simp_all only: after_scheme_def Let_def)
qed

lemma uri_accessors:
  assumes "uri_parts_ok auth path frag"
  shows "aturi_authority (uri_of auth path frag) = auth \<and> aturi_collection (uri_of auth path frag) = map_option fst path \<and>
    aturi_rkey (uri_of auth path frag) = Option.bind path snd"
proof -
  have ok: "is_ok (at_identifier_validate auth)" "path_ok path" using assms by (simp_all add: uri_parts_ok_def)
  have a: "\<forall>b \<in> set auth. b \<noteq> 0x2f" using authority_plain [OF ok(1)] by auto
  show ?thesis
  proof (cases path)
    case None
    then show ?thesis
      unfolding aturi_authority_def aturi_collection_def aturi_rkey_def uri_parts(1) [OF assms] Let_def
      by (simp add: position_plain [OF a])
  next
    case (Some cr)
    obtain c r where cr: "cr = (c, r)" by fastforce
    have c: "c \<noteq> []" "\<forall>b \<in> set c. b \<noteq> 0x2f" using ok(2) Some cr nsid_plain [of c] by auto
    have k: "r = Some k \<Longrightarrow> k \<noteq> []" for k using ok(2) Some cr rkey_plain by auto
    show ?thesis
      unfolding aturi_authority_def aturi_collection_def aturi_rkey_def uri_parts(1) [OF assms] Let_def
      using Some cr k c position_append [OF c(2)] position_plain [OF c(2)]
      by (cases r) (simp_all add: position_append [OF a])
  qed
qed

text \<open>
  C34. A string is accepted as an AT URI exactly when it is \<open>at://\<close>, a valid DID or handle, then
  optionally a valid NSID and in it a valid record key, then optionally a valid fragment, within
  8192 bytes. The URI is the string itself and its accessors return the parts.
\<close>

theorem aturi_grammar:
  "aturi_try_from raw = Inr u \<longleftrightarrow>
     u = raw \<and> (\<exists>auth path frag. raw = uri_of auth path frag \<and> uri_parts_ok auth path frag \<and> length raw \<le> 8192 \<and>
        aturi_authority u = auth \<and> aturi_collection u = map_option fst path \<and>
        aturi_rkey u = Option.bind path snd \<and> aturi_fragment u = frag)"
proof -
  have "aturi_try_from raw = Inr u \<longleftrightarrow> aturi_validate raw = Inr () \<and> u = raw"
    by (auto simp: aturi_try_from_def and_then_eq_Inr)
  also have "\<dots> \<longleftrightarrow> u = raw \<and> (\<exists>auth path frag. raw = uri_of auth path frag \<and> uri_parts_ok auth path frag \<and> length raw \<le> 8192 \<and>
        aturi_authority u = auth \<and> aturi_collection u = map_option fst path \<and>
        aturi_rkey u = Option.bind path snd \<and> aturi_fragment u = frag)"
    unfolding aturi_validate_ok using uri_accessors uri_parts(2) by metis
  finally show ?thesis .
qed

end
