(* ===== verification/Syntax_Datetime.thy ===== *)
theory Syntax_Datetime
  imports Syntax_Base
begin

text \<open>
  Datetimes (\<open>src/src/syntax/datetime.rs\<close>): the strict validator, which works by index on the
  bytes, against the grammar of its documentation, and the lenient parser over it.
\<close>

section \<open>Validation\<close>

type_synonym datetime = str

definition digit_at :: "bytes \<Rightarrow> nat \<Rightarrow> bool" where
  "digit_at b i \<longleftrightarrow> is_ascii_digit (b ! i)"

text \<open>\<open>(b[i] - b'0') * 10 + (b[i + 1] - b'0')\<close>, in \<open>u8\<close>.\<close>

definition two_digits :: "bytes \<Rightarrow> nat \<Rightarrow> u8" where
  "two_digits b i = (b ! i - 0x30) * 10 + (b ! (i + 1) - 0x30)"

function skip_digits :: "bytes \<Rightarrow> nat \<Rightarrow> nat" where
  "skip_digits b i = (if i < length b \<and> digit_at b i then skip_digits b (i + 1) else i)"
  by pat_completeness auto
termination skip_digits
  by (relation "measure (\<lambda>(b, i). length b - i)") auto

declare skip_digits.simps [simp del]

text \<open>The optional fraction from \<open>i\<close> on: the index after it.\<close>

definition fraction_end :: "bytes \<Rightarrow> nat \<Rightarrow> unit + nat" where
  "fraction_end b i =
     (if i < length b \<and> b ! i = 0x2e then
        let frac_start = i + 1; i = skip_digits b frac_start in if i = frac_start then Inl () else Inr i
      else Inr i)"

text \<open>The time zone from \<open>i\<close> to the end.\<close>

definition zone_check :: "bytes \<Rightarrow> nat \<Rightarrow> unit + unit" where
  "zone_check b i =
     (let n = length b in
      if i \<ge> n then Inl ()
      else and_then
        (if b ! i = 0x5a then Inr (i + 1)
         else if b ! i = 0x2b \<or> b ! i = 0x2d then
           if drop i b = lit ''-00:00'' then Inl ()
           else let i = i + 1 in
             if i + 5 > n then Inl ()
             else if \<not> digit_at b i \<or> \<not> digit_at b (i + 1) then Inl ()
             else if b ! (i + 2) \<noteq> 0x3a then Inl ()
             else if \<not> digit_at b (i + 3) \<or> \<not> digit_at b (i + 4) then Inl ()
             else if two_digits b i > 23 then Inl ()
             else if two_digits b (i + 3) > 59 then Inl ()
             else Inr (i + 5)
         else Inl ())
        (\<lambda>i. if i \<noteq> n then Inl () else Inr ()))"

definition validate_datetime_syntax :: "str \<Rightarrow> unit + unit" where
  "validate_datetime_syntax b =
     (if length b < 20 then Inl ()
      else if \<not> digit_at b 0 \<or> \<not> digit_at b 1 \<or> \<not> digit_at b 2 \<or> \<not> digit_at b 3 then Inl ()
      else if b ! 4 \<noteq> 0x2d then Inl ()
      else if \<not> digit_at b 5 \<or> \<not> digit_at b 6 then Inl ()
      else if b ! 7 \<noteq> 0x2d then Inl ()
      else if \<not> digit_at b 8 \<or> \<not> digit_at b 9 then Inl ()
      else if b ! 10 \<noteq> 0x54 then Inl ()
      else if \<not> digit_at b 11 \<or> \<not> digit_at b 12 then Inl ()
      else if b ! 13 \<noteq> 0x3a then Inl ()
      else if \<not> digit_at b 14 \<or> \<not> digit_at b 15 then Inl ()
      else if b ! 16 \<noteq> 0x3a then Inl ()
      else if \<not> digit_at b 17 \<or> \<not> digit_at b 18 then Inl ()
      else if \<not> (1 \<le> two_digits b 5 \<and> two_digits b 5 \<le> 12) then Inl ()
      else if \<not> (1 \<le> two_digits b 8 \<and> two_digits b 8 \<le> 31) then Inl ()
      else if two_digits b 11 > 23 then Inl ()
      else if two_digits b 14 > 59 then Inl ()
      else if two_digits b 17 > 60 then Inl ()
      else and_then (fraction_end b 19) (\<lambda>i. zone_check b i))"

definition datetime_validate :: "str \<Rightarrow> syntax_error + unit" where
  "datetime_validate raw =
     (if raw = [] then Inl (InvalidDatetime raw ''empty'')
      else if length raw > 64 then Inl (InvalidDatetime raw ''too long'')
      else and_then (map_err (\<lambda>_. InvalidDatetime raw ''invalid datetime syntax'') (validate_datetime_syntax raw)) (\<lambda>_. Inr ()))"

definition datetime_try_from :: "str \<Rightarrow> syntax_error + datetime" where
  "datetime_try_from raw = and_then (datetime_validate raw) (\<lambda>_. Inr raw)"

definition has_timezone :: "str \<Rightarrow> bool" where
  "has_timezone s \<longleftrightarrow>
     (if s = [] then False
      else if last s = 0x5a then True
      else if length s \<ge> 6 \<and> (s ! (length s - 6) = 0x2b \<or> s ! (length s - 6) = 0x2d) then True
      else False)"

definition parse_lenient :: "str \<Rightarrow> syntax_error + datetime" where
  "parse_lenient raw =
     (case datetime_try_from raw of
        Inr dt \<Rightarrow> Inr dt
      | Inl _ \<Rightarrow>
          let fixed = (if ends_with (lit ''-00:00'') raw then take (length raw - 6) raw @ lit ''+00:00'' else raw);
              fixed = (if ends_with (lit ''-0000'') fixed \<or> ends_with (lit ''+0000'') fixed
                then take (length fixed - 5) fixed @ lit ''+00:00'' else fixed);
              fixed = (if \<not> has_timezone fixed then fixed @ [0x5a] else fixed)
          in datetime_try_from fixed)"

section \<open>The grammar\<close>

definition all_digits :: "bytes \<Rightarrow> bool" where
  "all_digits ds \<longleftrightarrow> (\<forall>d \<in> set ds. is_ascii_digit d)"

text \<open>The number two digits denote.\<close>

fun number2 :: "bytes \<Rightarrow> nat" where
  "number2 [d, e] = 10 * (unat d - 48) + (unat e - 48)"
| "number2 _ = 0"

definition field2 :: "nat \<Rightarrow> nat \<Rightarrow> bytes \<Rightarrow> bool" where
  "field2 lo hi ds \<longleftrightarrow> length ds = 2 \<and> all_digits ds \<and> lo \<le> number2 ds \<and> number2 ds \<le> hi"

definition fraction_ok :: "bytes \<Rightarrow> bool" where
  "fraction_ok f \<longleftrightarrow> f = [] \<or> (\<exists>ds. f = 0x2e # ds \<and> ds \<noteq> [] \<and> all_digits ds)"

definition zone_ok :: "bytes \<Rightarrow> bool" where
  "zone_ok z \<longleftrightarrow> z = [0x5a] \<or>
     (\<exists>sign hh mm. z = sign # hh @ 0x3a # mm \<and> sign \<in> {0x2b, 0x2d} \<and> field2 0 23 hh \<and> field2 0 59 mm \<and> z \<noteq> lit ''-00:00'')"

definition datetime_grammar :: "str \<Rightarrow> bool" where
  "datetime_grammar raw \<longleftrightarrow>
     (\<exists>Y M D h m s f z. raw = Y @ 0x2d # M @ 0x2d # D @ 0x54 # h @ 0x3a # m @ 0x3a # s @ f @ z \<and>
        length Y = 4 \<and> all_digits Y \<and> field2 1 12 M \<and> field2 1 31 D \<and> field2 0 23 h \<and> field2 0 59 m \<and> field2 0 60 s \<and>
        fraction_ok f \<and> zone_ok z)"

lemma digit_unat: "is_ascii_digit d \<longleftrightarrow> 48 \<le> unat d \<and> unat d \<le> 57"
  by (auto simp: is_ascii_digit_def word_le_nat_alt)

lemma unat_tens: "unat (x :: u8) \<le> 9 \<Longrightarrow> unat y \<le> 9 \<Longrightarrow> unat (x * 10 + y) = 10 * unat x + unat y"
  by (simp add: unat_word_ariths)

lemma unat_pair:
  assumes "is_ascii_digit d" "is_ascii_digit e"
  shows "unat ((d - 0x30) * 10 + (e - 0x30)) = 10 * (unat d - 48) + (unat e - 48)"
proof -
  have "unat (d - 0x30) = unat d - 48" "unat (e - 0x30) = unat e - 48" "unat d - 48 \<le> 9" "unat e - 48 \<le> 9"
    using assms by (auto simp: digit_unat unat_sub word_le_nat_alt)
  then show ?thesis using unat_tens [of "d - 0x30" "e - 0x30"] by metis
qed

lemma field2_pair:
  "field2 lo hi [d, e] \<longleftrightarrow> is_ascii_digit d \<and> is_ascii_digit e \<and>
     lo \<le> unat ((d - 0x30) * 10 + (e - 0x30)) \<and> unat ((d - 0x30) * 10 + (e - 0x30)) \<le> hi"
  using unat_pair [of d e] by (auto simp: field2_def all_digits_def)

lemma field2_obtain:
  assumes "field2 lo hi ds"
  obtains d e where "ds = [d, e]"
proof -
  have "length ds = Suc (Suc 0)" using assms by (simp add: field2_def)
  then show thesis using that by (auto simp: length_Suc_conv)
qed

section \<open>The suffix\<close>

lemma skip_digits_spec:
  "i \<le> length b \<Longrightarrow> skip_digits b i = i + length (takeWhile is_ascii_digit (drop i b))"
proof (induction b i rule: skip_digits.induct)
  case (1 b i)
  show ?case
  proof (cases "i < length b")
    case True
    then have "drop i b = b ! i # drop (i + 1) b" by (metis Cons_nth_drop_Suc Suc_eq_plus1)
    then show ?thesis using 1 True by (subst skip_digits.simps) (auto simp: digit_at_def)
  next
    case False
    then show ?thesis using "1.prems" by (subst skip_digits.simps) simp
  qed
qed

lemma list5: "length t = 5 \<Longrightarrow> \<exists>p q r s w. t = [p, q, r, s, w]"
proof -
  assume "length t = 5"
  then have "length t = Suc (Suc (Suc (Suc (Suc 0))))" by simp
  then show ?thesis by (simp only: length_Suc_conv length_0_conv) blast
qed

lemma zone_check_suffix: "i \<le> length b \<Longrightarrow> zone_check b i = Inr u \<longleftrightarrow> zone_ok (drop i b)"
proof -
  assume i: "i \<le> length b"
  define z where "z = drop i b"
  have n: "length b = i + length z" using i by (simp add: z_def)
  have nth: "b ! (i + k) = z ! k" for k using i by (simp add: z_def)
  consider "z = []" | c where "z = [c]" | c t where "z = c # t" "t \<noteq> []" "length t \<noteq> 5" | c p q r s w where "z = [c, p, q, r, s, w]"
  proof (cases z)
    case (Cons c t)
    show ?thesis
    proof (cases "length t = 5")
      case True
      from list5 [OF this] obtain p q r s w where "t = [p, q, r, s, w]" by (elim exE)
      then show ?thesis using that(4) [of c p q r s w] Cons by simp
    next
      case False
      then show ?thesis using Cons that(2,3) by (cases t) auto
    qed
  qed (use that in blast)
  then show ?thesis
  proof cases
    case 1
    then show ?thesis using n by (simp add: zone_check_def zone_ok_def flip: z_def)
  next
    case (2 c)
    then show ?thesis using n nth [of 0] by (auto simp: zone_check_def zone_ok_def Let_def field2_def simp flip: z_def)
  next
    case (3 c t)
    then have "\<not> zone_ok z" by (auto simp: zone_ok_def field2_def)
    moreover have "zone_check b i \<noteq> Inr u"
      using 3 n nth [of 0] by (auto simp: zone_check_def Let_def split: if_splits)
    ultimately show ?thesis by (simp flip: z_def)
  next
    case (4 c p q r s w)
    have f: "(\<exists>hh mm. [p, q, r, s, w] = hh @ 0x3a # mm \<and> field2 0 23 hh \<and> field2 0 59 mm) \<longleftrightarrow>
        r = 0x3a \<and> field2 0 23 [p, q] \<and> field2 0 59 [s, w]" (is "?A = ?B")
    proof
      assume ?A
      then obtain hh mm where hm: "[p, q, r, s, w] = hh @ 0x3a # mm" "field2 0 23 hh" "field2 0 59 mm" by blast
      obtain d e d' e' where "hh = [d, e]" "mm = [d', e']"
        using field2_obtain [OF hm(2)] field2_obtain [OF hm(3)] by metis
      with hm show ?B by simp
    next
      assume ?B
      then show ?A by (intro exI [of _ "[p, q]"] exI [of _ "[s, w]"]) simp
    qed
    have zo: "zone_ok z \<longleftrightarrow> c \<in> {0x2b, 0x2d} \<and> r = 0x3a \<and> field2 0 23 [p, q] \<and> field2 0 59 [s, w] \<and> z \<noteq> lit ''-00:00''"
      using f 4 unfolding zone_ok_def by auto
    have at: "b ! i = c" "b ! (i + 1) = p" "b ! (i + 2) = q" "b ! (i + 3) = r" "b ! (i + 4) = s" "b ! (i + 5) = w"
      using nth [of 0] nth [of 1] nth [of 2] nth [of 3] nth [of 4] nth [of 5] 4 by simp_all
    have ix: "i + 1 + 1 = i + 2" "i + 1 + 2 = i + 3" "i + 1 + 3 = i + 4" "i + 1 + 4 = i + 5" "i + 4 + 1 = i + 5" "i + 1 + 5 = i + 6" by simp_all
    show ?thesis
      unfolding z_def [symmetric] zo zone_check_def Let_def two_digits_def digit_at_def ix at
      using n 4 by (auto simp: field2_pair word_less_nat_alt not_less split: if_splits)
  qed
qed

lemma fraction_zone:
  assumes "i \<le> length b"
  shows "and_then (fraction_end b i) (\<lambda>i. zone_check b i) = Inr () \<longleftrightarrow> (\<exists>f z. drop i b = f @ z \<and> fraction_ok f \<and> zone_ok z)"
proof (cases "i < length b \<and> b ! i = 0x2e")
  case False
  have zn: "z \<noteq> [] \<and> hd z \<noteq> 0x2e" if "zone_ok z" for z using that by (auto simp: zone_ok_def)
  have "f = []" if "drop i b = f @ z" "fraction_ok f" for f z
  proof (rule ccontr)
    assume "f \<noteq> []"
    then have "hd (drop i b) = 0x2e \<and> drop i b \<noteq> []" using that by (auto simp: fraction_ok_def)
    then show False using False hd_drop_conv_nth [of i b] by auto
  qed
  then have "(\<exists>f z. drop i b = f @ z \<and> fraction_ok f \<and> zone_ok z) \<longleftrightarrow> zone_ok (drop i b)"
    by (metis append_Nil fraction_ok_def)
  moreover have "fraction_end b i = Inr i" using False by (auto simp: fraction_end_def)
  ultimately show ?thesis using zone_check_suffix [OF assms] by simp
next
  case True
  let ?rest = "drop (i + 1) b"
  let ?ds = "takeWhile is_ascii_digit ?rest"
  have d: "drop i b = 0x2e # ?rest" using True by (metis Cons_nth_drop_Suc Suc_eq_plus1)
  have sk: "skip_digits b (i + 1) = i + 1 + length ?ds" using True by (intro skip_digits_spec) simp
  have le: "i + 1 + length ?ds \<le> length b" using True length_takeWhile_le [of is_ascii_digit ?rest] by (simp; linarith)
  have "drop (i + 1 + length ?ds) b = drop (length ?ds) ?rest" by (simp add: add.commute add.left_commute)
  also have "\<dots> = dropWhile is_ascii_digit ?rest" by (simp add: dropWhile_eq_drop)
  finally have z: "zone_check b (i + 1 + length ?ds) = Inr () \<longleftrightarrow> zone_ok (dropWhile is_ascii_digit ?rest)"
    using zone_check_suffix [OF le] by simp
  have uniq: "zone_ok (dropWhile is_ascii_digit ?rest) \<and> ?ds \<noteq> []"
    if fz: "drop i b = f @ z" "fraction_ok f" "zone_ok z" for f z
  proof -
    have "hd z \<noteq> 0x2e" "\<not> is_ascii_digit (hd z)" "z \<noteq> []" using fz(3) by (auto simp: zone_ok_def is_ascii_digit_def)
    then obtain ds where ds: "f = 0x2e # ds" "ds \<noteq> []" "all_digits ds" using fz(1,2) d by (auto simp: fraction_ok_def)
    then have r: "?rest = ds @ z" using fz(1) d by simp
    have "takeWhile is_ascii_digit (ds @ z) = ds" "dropWhile is_ascii_digit (ds @ z) = z"
      using ds(3) \<open>\<not> is_ascii_digit (hd z)\<close> \<open>z \<noteq> []\<close>
      by (cases z; simp add: all_digits_def takeWhile_append dropWhile_append)+
    with r ds fz(3) show ?thesis by simp
  qed
  have conv: "\<exists>f z. drop i b = f @ z \<and> fraction_ok f \<and> zone_ok z"
    if "zone_ok (dropWhile is_ascii_digit ?rest)" "?ds \<noteq> []"
    using that d by (intro exI [of _ "0x2e # ?ds"] exI [of _ "dropWhile is_ascii_digit ?rest"])
      (auto simp: fraction_ok_def all_digits_def dest: set_takeWhileD)
  have "fraction_end b i = (if ?ds = [] then Inl () else Inr (i + 1 + length ?ds))"
    using True sk by (simp add: fraction_end_def Let_def)
  then have run: "and_then (fraction_end b i) (\<lambda>i. zone_check b i) = Inr () \<longleftrightarrow> ?ds \<noteq> [] \<and> zone_ok (dropWhile is_ascii_digit ?rest)"
    using z by simp
  show ?thesis
  proof
    assume "and_then (fraction_end b i) (\<lambda>i. zone_check b i) = Inr ()"
    then show "\<exists>f z. drop i b = f @ z \<and> fraction_ok f \<and> zone_ok z" using run conv by metis
  next
    assume "\<exists>f z. drop i b = f @ z \<and> fraction_ok f \<and> zone_ok z"
    then obtain f z where fz: "drop i b = f @ z" "fraction_ok f" "zone_ok z" by (elim exE conjE)
    show "and_then (fraction_end b i) (\<lambda>i. zone_check b i) = Inr ()" using run uniq [OF fz] by metis
  qed
qed

section \<open>The whole string\<close>

lemma list19:
  assumes "20 \<le> length raw"
  obtains Y0 Y1 Y2 Y3 c1 M0 M1 c2 D0 D1 c3 h0 h1 c4 m0 m1 c5 s0 s1 rest where
    "raw = [Y0, Y1, Y2, Y3, c1, M0, M1, c2, D0, D1, c3, h0, h1, c4, m0, m1, c5, s0, s1] @ rest" "rest \<noteq> []"
proof -
  have "Suc (Suc (Suc (Suc (Suc (Suc (Suc (Suc (Suc (Suc (Suc (Suc (Suc (Suc (Suc (Suc (Suc (Suc (Suc (Suc 0))))))))))))))))))) \<le> length raw"
    using assms by simp
  then show thesis
    by (simp only: Suc_le_length_iff) (elim exE conjE, rule that, simp, simp)
qed

lemma datetime_grammarI:
  "raw = Y @ 0x2d # M @ 0x2d # D @ 0x54 # h @ 0x3a # m @ 0x3a # s @ f @ z \<Longrightarrow> length Y = 4 \<Longrightarrow> all_digits Y \<Longrightarrow>
   field2 1 12 M \<Longrightarrow> field2 1 31 D \<Longrightarrow> field2 0 23 h \<Longrightarrow> field2 0 59 m \<Longrightarrow> field2 0 60 s \<Longrightarrow> fraction_ok f \<Longrightarrow> zone_ok z \<Longrightarrow>
   datetime_grammar raw"
  unfolding datetime_grammar_def by (intro exI conjI)

lemma validate_datetime_grammar: "validate_datetime_syntax raw = Inr () \<longleftrightarrow> datetime_grammar raw"
proof (cases "20 \<le> length raw")
  case False
  have "20 \<le> length raw" if "datetime_grammar raw"
  proof -
    from that obtain Y M D h m s f z where g: "raw = Y @ 0x2d # M @ 0x2d # D @ 0x54 # h @ 0x3a # m @ 0x3a # s @ f @ z"
      "length Y = 4" "length M = 2" "length D = 2" "length h = 2" "length m = 2" "length s = 2" "zone_ok z"
      unfolding datetime_grammar_def field2_def by blast
    have "z \<noteq> []" using g(8) by (auto simp: zone_ok_def)
    then have "0 < length z" by simp
    then show ?thesis unfolding g(1) using g(2-7) by (simp del: length_greater_0_conv)
  qed
  with False show ?thesis by (auto simp: validate_datetime_syntax_def)
next
  case True
  then obtain Y0 Y1 Y2 Y3 c1 M0 M1 c2 D0 D1 c3 h0 h1 c4 m0 m1 c5 s0 s1 rest where
    raw: "raw = [Y0, Y1, Y2, Y3, c1, M0, M1, c2, D0, D1, c3, h0, h1, c4, m0, m1, c5, s0, s1] @ rest" and ne: "rest \<noteq> []"
    by (rule list19)
  let ?fields = "all_digits [Y0, Y1, Y2, Y3] \<and> c1 = 0x2d \<and> c2 = 0x2d \<and> c3 = 0x54 \<and> c4 = 0x3a \<and> c5 = 0x3a \<and>
    field2 1 12 [M0, M1] \<and> field2 1 31 [D0, D1] \<and> field2 0 23 [h0, h1] \<and> field2 0 59 [m0, m1] \<and> field2 0 60 [s0, s1]"
  have suffix: "and_then (fraction_end raw 19) (\<lambda>i. zone_check raw i) = Inr () \<longleftrightarrow> (\<exists>f z. rest = f @ z \<and> fraction_ok f \<and> zone_ok z)"
    using fraction_zone [of 19 raw] raw by simp
  have le: "1 \<le> x \<longleftrightarrow> 1 \<le> unat x" "x \<le> numeral k \<longleftrightarrow> unat x \<le> unat (numeral k :: u8)" for x :: u8 and k
    by (simp_all only: word_le_nat_alt unat_1)
  have nth: "raw ! 0 = Y0" "raw ! 1 = Y1" "raw ! 2 = Y2" "raw ! 3 = Y3" "raw ! 4 = c1" "raw ! 5 = M0" "raw ! 6 = M1" "raw ! 7 = c2"
    "raw ! 8 = D0" "raw ! 9 = D1" "raw ! 10 = c3" "raw ! 11 = h0" "raw ! 12 = h1" "raw ! 13 = c4" "raw ! 14 = m0" "raw ! 15 = m1"
    "raw ! 16 = c5" "raw ! 17 = s0" "raw ! 18 = s1" unfolding raw by simp_all
  have ix: "5 + 1 = (6 :: nat)" "8 + 1 = (9 :: nat)" "11 + 1 = (12 :: nat)" "14 + 1 = (15 :: nat)" "17 + 1 = (18 :: nat)" by simp_all
  have split: "(if P then Inl () else x) = Inr () \<longleftrightarrow> \<not> P \<and> x = Inr ()" for P and x :: "unit + unit" by simp
  have "validate_datetime_syntax raw = Inr () \<longleftrightarrow> ?fields \<and> (\<exists>f z. rest = f @ z \<and> fraction_ok f \<and> zone_ok z)"
    unfolding suffix [symmetric] using True
    unfolding validate_datetime_syntax_def two_digits_def digit_at_def ix nth split field2_pair all_digits_def not_less de_Morgan_disj not_not le
    by (auto simp del: One_nat_def)
  also have "\<dots> \<longleftrightarrow> datetime_grammar raw"
  proof
    assume "?fields \<and> (\<exists>f z. rest = f @ z \<and> fraction_ok f \<and> zone_ok z)"
    then obtain f z where "?fields" "rest = f @ z" "fraction_ok f" "zone_ok z" by blast
    then show "datetime_grammar raw"
      using raw by (intro datetime_grammarI [of raw "[Y0, Y1, Y2, Y3]" "[M0, M1]" "[D0, D1]" "[h0, h1]" "[m0, m1]" "[s0, s1]" f z]) simp_all
  next
    assume "datetime_grammar raw"
    then obtain Y M D h m s f z where g: "raw = Y @ 0x2d # M @ 0x2d # D @ 0x54 # h @ 0x3a # m @ 0x3a # s @ f @ z"
      "length Y = 4" "all_digits Y" "field2 1 12 M" "field2 1 31 D" "field2 0 23 h" "field2 0 59 m" "field2 0 60 s"
      "fraction_ok f" "zone_ok z" unfolding datetime_grammar_def by blast
    obtain y0 y1 y2 y3 where "Y = [y0, y1, y2, y3]"
    proof -
      have "length Y = Suc (Suc (Suc (Suc 0)))" using g(2) by simp
      then show thesis by (simp only: length_Suc_conv length_0_conv) (elim exE conjE, rule that, simp)
    qed
    moreover obtain a0 a1 where "M = [a0, a1]" by (rule field2_obtain [OF g(4)])
    moreover obtain b0 b1 where "D = [b0, b1]" by (rule field2_obtain [OF g(5)])
    moreover obtain d0 d1 where "h = [d0, d1]" by (rule field2_obtain [OF g(6)])
    moreover obtain e0 e1 where "m = [e0, e1]" by (rule field2_obtain [OF g(7)])
    moreover obtain f0 f1 where "s = [f0, f1]" by (rule field2_obtain [OF g(8)])
    ultimately show "?fields \<and> (\<exists>f z. rest = f @ z \<and> fraction_ok f \<and> zone_ok z)" using g raw by auto
  qed
  finally show ?thesis .
qed

text \<open>
  C38. A string is accepted as a datetime exactly when it has the documented form, a date, a time
  with optional fraction and a zone, with every field in its range and the zone not \<open>-00:00\<close>,
  within 64 bytes.
\<close>

theorem datetime_grammar_exact:
  "datetime_try_from raw = Inr d \<longleftrightarrow> d = raw \<and> length raw \<le> 64 \<and> datetime_grammar raw"
proof -
  have "\<not> datetime_grammar []" by (simp add: datetime_grammar_def)
  moreover have "is_ok (validate_datetime_syntax raw) \<longleftrightarrow> datetime_grammar raw"
    using validate_datetime_grammar [of raw] by (cases "validate_datetime_syntax raw") auto
  ultimately show ?thesis
    by (cases "validate_datetime_syntax raw") (auto simp: datetime_try_from_def datetime_validate_def)
qed

section \<open>The lenient parser\<close>

text \<open>The grammar without its zone, and what the lenient parser takes and makes of a zone.\<close>

definition datetime_body :: "str \<Rightarrow> bool" where
  "datetime_body b \<longleftrightarrow>
     (\<exists>Y M D h m s f. b = Y @ 0x2d # M @ 0x2d # D @ 0x54 # h @ 0x3a # m @ 0x3a # s @ f \<and>
        length Y = 4 \<and> all_digits Y \<and> field2 1 12 M \<and> field2 1 31 D \<and> field2 0 23 h \<and> field2 0 59 m \<and> field2 0 60 s \<and>
        fraction_ok f)"

definition lenient_zone :: "str \<Rightarrow> str \<Rightarrow> bool" where
  "lenient_zone z z' \<longleftrightarrow> zone_ok z \<and> z' = z \<or>
     z \<in> {lit ''-00:00'', lit ''-0000'', lit ''+0000''} \<and> z' = lit ''+00:00'' \<or> z = [] \<and> z' = lit ''Z''"

lemma grammar_body: "datetime_grammar raw \<longleftrightarrow> (\<exists>b z. raw = b @ z \<and> datetime_body b \<and> zone_ok z)"
proof
  assume "datetime_grammar raw"
  then obtain Y M D h m s f z where g: "raw = Y @ 0x2d # M @ 0x2d # D @ 0x54 # h @ 0x3a # m @ 0x3a # s @ f @ z"
    "length Y = 4" "all_digits Y" "field2 1 12 M" "field2 1 31 D" "field2 0 23 h" "field2 0 59 m" "field2 0 60 s"
    "fraction_ok f" "zone_ok z" unfolding datetime_grammar_def by blast
  let ?b = "Y @ 0x2d # M @ 0x2d # D @ 0x54 # h @ 0x3a # m @ 0x3a # s @ f"
  have "datetime_body ?b" unfolding datetime_body_def using g(2-9) by (intro exI conjI) (rule refl)
  with g(1,10) show "\<exists>b z. raw = b @ z \<and> datetime_body b \<and> zone_ok z" by (intro exI [of _ ?b] exI [of _ z]) simp
next
  assume "\<exists>b z. raw = b @ z \<and> datetime_body b \<and> zone_ok z"
  then obtain b z where bz: "raw = b @ z" "datetime_body b" "zone_ok z" by blast
  then obtain Y M D h m s f where g: "b = Y @ 0x2d # M @ 0x2d # D @ 0x54 # h @ 0x3a # m @ 0x3a # s @ f"
    "length Y = 4" "all_digits Y" "field2 1 12 M" "field2 1 31 D" "field2 0 23 h" "field2 0 59 m" "field2 0 60 s" "fraction_ok f"
    unfolding datetime_body_def by blast
  then show "datetime_grammar raw" using bz(1,3) by (intro datetime_grammarI [OF _ g(2-9) bz(3)]) simp
qed

lemma datetime_strict_iff: "datetime_try_from raw = Inr d \<longleftrightarrow> d = raw \<and> length raw \<le> 64 \<and> (\<exists>b z. raw = b @ z \<and> datetime_body b \<and> zone_ok z)"
proof -
  have "\<not> datetime_grammar []" by (simp add: datetime_grammar_def)
  moreover have "is_ok (validate_datetime_syntax raw) \<longleftrightarrow> datetime_grammar raw"
    using validate_datetime_grammar [of raw] by (cases "validate_datetime_syntax raw") auto
  ultimately show ?thesis
    unfolding grammar_body [symmetric]
    by (cases "validate_datetime_syntax raw") (auto simp: datetime_try_from_def datetime_validate_def)
qed

text \<open>The end of a body: its last six bytes hold no sign, and the last one is a digit.\<close>

lemma body_end:
  assumes "datetime_body b"
  obtains p q where "b = p @ q" "length q = 6" "0x2b \<notin> set q" "0x2d \<notin> set q" "is_ascii_digit (last q)"
proof -
  obtain Y M D h m s f where g: "b = Y @ 0x2d # M @ 0x2d # D @ 0x54 # h @ 0x3a # m @ 0x3a # s @ f"
    "field2 0 23 h" "field2 0 59 m" "field2 0 60 s" "fraction_ok f" using assms unfolding datetime_body_def by blast
  obtain h0 h1 where h: "h = [h0, h1]" by (rule field2_obtain [OF g(2)])
  obtain m0 m1 where m: "m = [m0, m1]" by (rule field2_obtain [OF g(3)])
  obtain s0 s1 where s: "s = [s0, s1]" by (rule field2_obtain [OF g(4)])
  have dg: "is_ascii_digit h0" "is_ascii_digit h1" "is_ascii_digit m0" "is_ascii_digit m1" "is_ascii_digit s0" "is_ascii_digit s1"
    using g(2-4) unfolding h m s by (simp_all add: field2_pair)
  let ?t = "[h1, 0x3a, m0, m1, 0x3a, s0, s1] @ f"
  define p where "p = (Y @ 0x2d # M @ 0x2d # D @ [0x54, h0]) @ take (length f + 1) ?t"
  define q where "q = drop (length f + 1) ?t"
  have b: "b = p @ q" unfolding p_def q_def g(1) h m s by simp
  have nd: "\<not> is_ascii_digit 0x2b" "\<not> is_ascii_digit 0x2d" by (simp_all add: is_ascii_digit_def)
  have f: "0x2b \<notin> set f" "0x2d \<notin> set f" using g(5) nd by (auto simp: fraction_ok_def all_digits_def)
  then have "0x2b \<notin> set ?t" "0x2d \<notin> set ?t" using dg nd by auto
  then have sg: "0x2b \<notin> set q" "0x2d \<notin> set q" unfolding q_def by (meson in_set_dropD)+
  have l: "length q = 6" by (simp add: q_def)
  have "is_ascii_digit (last ?t)" using g(5) dg by (auto simp: fraction_ok_def all_digits_def)
  moreover have "last q = last ?t" unfolding q_def using l by (simp add: q_def last_drop)
  ultimately have d: "is_ascii_digit (last q)" by simp
  with that b l sg d show thesis by blast
qed

lemma body_no_fix:
  assumes "datetime_body b"
  shows "\<not> has_timezone b \<and> \<not> ends_with (lit ''-00:00'') b \<and> \<not> ends_with (lit ''-0000'') b \<and> \<not> ends_with (lit ''+0000'') b"
proof -
  obtain p q where q: "b = p @ q" "length q = 6" "0x2b \<notin> set q" "0x2d \<notin> set q" "is_ascii_digit (last q)"
    by (rule body_end [OF assms])
  have e: "\<not> ends_with x b" if "length x \<le> 6" "0x2b \<in> set x \<or> 0x2d \<in> set x" for x
  proof
    assume "ends_with x b"
    then have "x = drop (6 - length x) q" using q(1,2) that(1) by (auto simp: ends_with_def)
    then have "set x \<subseteq> set q" by (metis set_drop_subset)
    then show False using that(2) q(3,4) by auto
  qed
  have "q \<noteq> []" using q(2) by auto
  then have "b \<noteq> []" "last b = last q" "b ! (length b - 6) \<in> set q" using q(1,2) by (simp_all add: nth_append)
  then have "\<not> has_timezone b" using q(3-5) by (auto simp: has_timezone_def is_ascii_digit_def)
  then show ?thesis using e by simp
qed

text \<open>What a fix would be applied to is not accepted as it is, and a zone is seen as one.\<close>

lemma zone_end: "zone_ok z \<Longrightarrow> z = [0x5a] \<or> (\<exists>g a c d e. z = [g, a, c, 0x3a, d, e] \<and> g \<in> {0x2b, 0x2d} \<and> is_ascii_digit e \<and> z \<noteq> lit ''-00:00'')"
proof -
  assume z: "zone_ok z"
  show ?thesis
  proof (cases "z = [0x5a]")
    case False
    then obtain g hh mm where hm: "z = g # hh @ 0x3a # mm" "g \<in> {0x2b, 0x2d}" "field2 0 23 hh" "field2 0 59 mm" "z \<noteq> lit ''-00:00''"
      using z unfolding zone_ok_def by blast
    obtain a c d e where "hh = [a, c]" "mm = [d, e]" using field2_obtain [OF hm(3)] field2_obtain [OF hm(4)] by metis
    moreover from this have "is_ascii_digit e" using hm(4) by (simp add: field2_pair)
    ultimately show ?thesis using hm(1,2,5) by simp
  qed simp
qed

lemma zone_seen:
  assumes "zone_ok z"
  shows "has_timezone (b @ z) \<and> \<not> ends_with (lit ''-00:00'') (b @ z) \<and> \<not> ends_with (lit ''-0000'') (b @ z) \<and> \<not> ends_with (lit ''+0000'') (b @ z)"
  using zone_end [OF assms]
proof (elim disjE exE conjE)
  fix g a c d e assume z: "z = [g, a, c, 0x3a, d, e]" "g \<in> {0x2b, 0x2d}" "is_ascii_digit e" "z \<noteq> lit ''-00:00''"
  then show ?thesis by (auto simp: has_timezone_def ends_with_def nth_append is_ascii_digit_def)
qed (simp add: has_timezone_def ends_with_def)

lemma fixed_not_strict:
  assumes "datetime_body b" "z = [] \<or> z = lit ''-00:00'' \<or> z = lit ''-0000'' \<or> z = lit ''+0000''" "b @ z = b' @ z'"
  shows "\<not> zone_ok z'"
proof
  assume z': "zone_ok z'"
  note s = zone_seen [OF z', of b', folded assms(3)] and n = body_no_fix [OF assms(1)]
  have "ends_with z (b @ z)" by (simp add: ends_with_def)
  then show False using assms(2) s n by auto
qed

lemma plus_zone: "zone_ok (lit ''+00:00'')"
proof -
  have "field2 0 23 (lit ''00'')" "field2 0 59 (lit ''00'')" by (simp_all add: field2_pair is_ascii_digit_def)
  then show ?thesis unfolding zone_ok_def by (intro disjI2 exI [of _ "0x2b"] exI [of _ "lit ''00''"]) simp
qed

lemma plus_zone_split: "b @ lit ''+00:00'' = b' @ z \<Longrightarrow> zone_ok z \<Longrightarrow> b' = b \<and> z = lit ''+00:00''"
proof -
  assume a: "b @ lit ''+00:00'' = b' @ z" and z: "zone_ok z"
  from zone_end [OF z] show "b' = b \<and> z = lit ''+00:00''"
  proof (elim disjE exE conjE)
    assume "z = [0x5a]"
    then show ?thesis using arg_cong [OF a, of last] by simp
  next
    fix g x c d e assume "z = [g, x, c, 0x3a, d, e]"
    then show ?thesis using a append_eq_append_conv [of "lit ''+00:00''" z b b'] by auto
  qed
qed

lemma z_zone_split: "b @ lit ''Z'' = b' @ z \<Longrightarrow> zone_ok z \<Longrightarrow> b' = b \<and> z = lit ''Z''"
proof -
  assume a: "b @ lit ''Z'' = b' @ z" and z: "zone_ok z"
  from zone_end [OF z] show "b' = b \<and> z = lit ''Z''"
  proof (elim disjE exE conjE)
    fix g x c d e assume "z = [g, x, c, 0x3a, d, e]" "is_ascii_digit e"
    then show ?thesis using arg_cong [OF a, of last] by (auto simp: is_ascii_digit_def)
  qed (use a in simp)
qed

text \<open>The fixes as they apply to a string that is not accepted as it is.\<close>

definition fixed_text :: "str \<Rightarrow> str" where
  "fixed_text raw =
     (if ends_with (lit ''-00:00'') raw then take (length raw - 6) raw @ lit ''+00:00''
      else if ends_with (lit ''-0000'') raw \<or> ends_with (lit ''+0000'') raw then take (length raw - 5) raw @ lit ''+00:00''
      else if has_timezone raw then raw else raw @ lit ''Z'')"

lemma parse_lenient_fixed: "datetime_try_from raw = Inl e \<Longrightarrow> parse_lenient raw = datetime_try_from (fixed_text raw)"
  using zone_seen [OF plus_zone] by (simp add: parse_lenient_def fixed_text_def Let_def)

lemma fixed_zone:
  assumes "datetime_body b"
  shows "fixed_text (b @ lit ''-00:00'') = b @ lit ''+00:00''" "fixed_text (b @ lit ''-0000'') = b @ lit ''+00:00''"
    "fixed_text (b @ lit ''+0000'') = b @ lit ''+00:00''" "fixed_text b = b @ lit ''Z''"
proof -
  have e: "ends_with p s \<longleftrightarrow> (\<exists>q. rev s = rev p @ q)" for p s :: str
    unfolding ends_with_append by (metis rev_append rev_rev_ident)
  show "fixed_text (b @ lit ''-00:00'') = b @ lit ''+00:00''" "fixed_text (b @ lit ''-0000'') = b @ lit ''+00:00''"
    "fixed_text (b @ lit ''+0000'') = b @ lit ''+00:00''" by (simp_all add: fixed_text_def e)
  show "fixed_text b = b @ lit ''Z''" using body_no_fix [OF assms] by (simp add: fixed_text_def)
qed

text \<open>
  C40. The lenient parser accepts a string exactly when it is a date and time with a zone, with one of
  the zones \<open>-00:00\<close>, \<open>-0000\<close>, \<open>+0000\<close>, or with none, and what it returns is the string with these
  rewritten to \<open>+00:00\<close> and with a missing zone completed by \<open>Z\<close>, within 64 bytes.
\<close>

theorem parse_lenient_exact:
  "parse_lenient raw = Inr d \<longleftrightarrow>
     (\<exists>b z z'. raw = b @ z \<and> datetime_body b \<and> lenient_zone z z' \<and> d = b @ z' \<and> length d \<le> 64)"
  (is "?L \<longleftrightarrow> ?R")
proof
  assume ?R
  then obtain b z z' where r: "raw = b @ z" "datetime_body b" "lenient_zone z z'" "d = b @ z'" "length d \<le> 64" by blast
  from r(3) consider "zone_ok z" "z' = z" | "z = lit ''-00:00''" "z' = lit ''+00:00''" | "z = lit ''-0000'' \<or> z = lit ''+0000''" "z' = lit ''+00:00''"
    | "z = []" "z' = lit ''Z''" by (auto simp: lenient_zone_def)
  moreover have fixed: "parse_lenient raw = datetime_try_from (fixed_text raw)" 
    if "z = [] \<or> z = lit ''-00:00'' \<or> z = lit ''-0000'' \<or> z = lit ''+0000''"
  proof -
    have "datetime_try_from raw \<noteq> Inr x" for x using fixed_not_strict [OF r(2) that] r(1) by (auto simp: datetime_strict_iff)
    then show ?thesis by (cases "datetime_try_from raw") (auto intro: parse_lenient_fixed)
  qed
  ultimately show ?L
  proof cases
    case 1
    then have "datetime_try_from raw = Inr d" using r by (auto simp: datetime_strict_iff)
    then show ?thesis by (simp add: parse_lenient_def)
  next
    case 2
    then show ?thesis using fixed r plus_zone fixed_zone [OF r(2)] by (auto simp: datetime_strict_iff)
  next
    case 3
    then show ?thesis using fixed r plus_zone fixed_zone [OF r(2)] by (auto simp: datetime_strict_iff)
  next
    case 4
    moreover have "zone_ok (lit ''Z'')" by (simp add: zone_ok_def)
    ultimately show ?thesis using fixed r fixed_zone [OF r(2)] by (auto simp: datetime_strict_iff)
  qed
next
  assume l: ?L
  show ?R
  proof (cases "datetime_try_from raw")
    case (Inr x)
    then have "datetime_try_from raw = Inr d" using l by (simp add: parse_lenient_def)
    then obtain b z where "d = raw" "length raw \<le> 64" "raw = b @ z" "datetime_body b" "zone_ok z" unfolding datetime_strict_iff by blast
    moreover from this have "lenient_zone z z" by (simp add: lenient_zone_def)
    ultimately show ?thesis by blast
  next
    case (Inl e)
    then have fx: "datetime_try_from (fixed_text raw) = Inr d" using l parse_lenient_fixed by simp
    then obtain b z where bz: "d = fixed_text raw" "length d \<le> 64" "fixed_text raw = b @ z" "datetime_body b" "zone_ok z"
      by (auto simp: datetime_strict_iff)
    have cut: ?thesis
      if x: "raw = q @ x" "x \<in> {lit ''-00:00'', lit ''-0000'', lit ''+0000''}" and t: "fixed_text raw = q @ lit ''+00:00''" for q x
    proof -
      have "b = q \<and> z = lit ''+00:00''" by (rule plus_zone_split [OF _ bz(5)]) (use t bz(3) in simp)
      then have q: "datetime_body q" "d = q @ lit ''+00:00''" using bz by simp_all
      have "lenient_zone x (lit ''+00:00'')" unfolding lenient_zone_def using x(2) by blast
      with x(1) q bz(2) show ?thesis by blast
    qed
    have z: ?thesis if t: "fixed_text raw = raw @ lit ''Z''"
    proof -
      have "b = raw" by (rule z_zone_split [THEN conjunct1, OF _ bz(5)]) (use t bz(3) in simp)
      moreover have "lenient_zone [] (lit ''Z'')" by (simp add: lenient_zone_def)
      ultimately show ?thesis using bz t by (intro exI [of _ raw] exI [of _ "[]"] exI [of _ "lit ''Z''"]) simp
    qed
    consider q where "raw = q @ lit ''-00:00''" | q where "raw = q @ lit ''-0000'' \<or> raw = q @ lit ''+0000''" "\<not> ends_with (lit ''-00:00'') raw"
      | "fixed_text raw = raw" | "fixed_text raw = raw @ lit ''Z''"
      unfolding fixed_text_def ends_with_append by metis
    then show ?thesis
    proof cases
      case 1
      then show ?thesis by (intro cut) (auto simp: fixed_text_def ends_with_def)
    next
      case (2 q)
      then show ?thesis by (elim disjE; intro cut) (auto simp: fixed_text_def ends_with_def)
    next
      case 3
      then show ?thesis using fx Inl by simp
    next
      case 4
      then show ?thesis by (rule z)
    qed
  qed
qed

definition sample_datetime :: str where
  "sample_datetime = lit ''1985-04-12T23:20:50''"

theorem parse_lenient_exact_witness:
  "parse_lenient (sample_datetime @ lit ''-0000'') = Inr (sample_datetime @ lit ''+00:00'') \<and>
   parse_lenient sample_datetime = Inr (sample_datetime @ lit ''Z'')"
proof -
  have "datetime_body (lit ''1985'' @ 0x2d # lit ''04'' @ 0x2d # lit ''12'' @ 0x54 # lit ''23'' @ 0x3a # lit ''20'' @ 0x3a # lit ''50'' @ [])"
    unfolding datetime_body_def
    by (intro exI conjI, rule refl) (simp_all add: field2_pair all_digits_def fraction_ok_def is_ascii_digit_def)
  then have "datetime_body sample_datetime" by (simp add: sample_datetime_def)
  moreover have "lenient_zone (lit ''-0000'') (lit ''+00:00'')" "lenient_zone [] (lit ''Z'')" by (simp_all add: lenient_zone_def)
  moreover have "length (sample_datetime @ lit ''+00:00'') \<le> 64" "length (sample_datetime @ lit ''Z'') \<le> 64"
    by (simp_all add: sample_datetime_def)
  ultimately show ?thesis
    using parse_lenient_exact [of "sample_datetime @ lit ''-0000''" "sample_datetime @ lit ''+00:00''"]
      parse_lenient_exact [of sample_datetime "sample_datetime @ lit ''Z''"] by (metis append_Nil2)
qed

end
