(* ===== verification/Syntax_Language.thy ===== *)
theory Syntax_Language
  imports Syntax_Base
begin

text \<open>
  Language tags (\<open>src/src/syntax/language.rs\<close>): the greedy matcher against the grammar of RFC 5646.
\<close>

section \<open>The validator\<close>























section \<open>The grammar\<close>







section \<open>Greedy matching is exact\<close>


























end
