(* ===== verification/Mst_Store.thy ===== *)
theory Mst_Store
  imports Mst_Contract
begin

text \<open>
  Block stores (\<open>src/src/mst/block_store.rs\<close>) and the tree over a store (\<open>Tree\<close> of
  \<open>src/src/mst/tree.rs\<close>). A store with interior mutability is a state that \<open>put_block\<close> returns
  updated; the trait is a record of operations, its contract the locale \<open>block_store\<close>.
\<close>

section \<open>The trait and its in-memory implementation\<close>

record 's store_ops =
  get_block :: "'s \<Rightarrow> cid \<Rightarrow> mst_error + bytes"
  put_block :: "'s \<Rightarrow> cid \<Rightarrow> bytes \<Rightarrow> (mst_error + unit) \<times> 's"
  has_block :: "'s \<Rightarrow> cid \<Rightarrow> mst_error + bool"

record mem_block_store =
  mb_blocks :: "cid \<rightharpoonup> bytes"

definition mem_new :: mem_block_store where
  "mem_new = \<lparr>mb_blocks = Map.empty\<rparr>"

definition mem_get_block :: "mem_block_store \<Rightarrow> cid \<Rightarrow> mst_error + bytes" where
  "mem_get_block s c = ok_or (BlockNotFound c) (mb_blocks s c)"

definition mem_put_block :: "mem_block_store \<Rightarrow> cid \<Rightarrow> bytes \<Rightarrow> (mst_error + unit) \<times> mem_block_store" where
  "mem_put_block s c data = (Inr (), s\<lparr>mb_blocks := (mb_blocks s)(c \<mapsto> data)\<rparr>)"

definition mem_has_block :: "mem_block_store \<Rightarrow> cid \<Rightarrow> mst_error + bool" where
  "mem_has_block s c = Inr (mb_blocks s c \<noteq> None)"

definition mem_store :: "mem_block_store store_ops" where
  "mem_store = \<lparr>get_block = mem_get_block, put_block = mem_put_block, has_block = mem_has_block\<rparr>"

text \<open>The store and a plain map as block sources.\<close>

definition mem_read_block :: "mem_block_store \<Rightarrow> cid \<Rightarrow> mst_error + bytes option" where
  "mem_read_block s c = Inr (mb_blocks s c)"

definition map_read_block :: "(cid \<rightharpoonup> bytes) \<Rightarrow> cid \<Rightarrow> mst_error + bytes option" where
  "map_read_block m c = Inr (m c)"

section \<open>The tree over a store\<close>

definition store_source :: "'s store_ops \<Rightarrow> 's \<Rightarrow> cid \<Rightarrow> mst_error + bytes option" where
  "store_source B s c =
     (case get_block B s c of
        Inr data \<Rightarrow> Inr (Some data)
      | Inl (BlockNotFound _) \<Rightarrow> Inr None
      | Inl e \<Rightarrow> Inl e)"

text \<open>The environment of the inner tree; the platform's functions come from \<open>E\<close>.\<close>

definition store_env :: "'s store_ops \<Rightarrow> env \<Rightarrow> 's \<Rightarrow> env" where
  "store_env B E s = E\<lparr>read_block := store_source B s\<rparr>"

record 's store_tree =
  st_inner :: tree
  st_store :: 's
  st_unsaved :: blocks

definition st_new :: "'s \<Rightarrow> 's store_tree" where
  "st_new s = \<lparr>st_inner = tree_new, st_store = s, st_unsaved = []\<rparr>"

definition st_load :: "'s \<Rightarrow> cid \<Rightarrow> 's store_tree" where
  "st_load s root = \<lparr>st_inner = tree_load root, st_store = s, st_unsaved = []\<rparr>"

definition st_get :: "'s store_ops \<Rightarrow> env \<Rightarrow> str \<Rightarrow> 's store_tree \<Rightarrow> (mst_error + cid option) \<times> 's store_tree" where
  "st_get B E key t =
     (case tree_get (store_env B E (st_store t)) key (st_inner t) of (r, i) \<Rightarrow> (r, t\<lparr>st_inner := i\<rparr>))"

definition st_insert :: "'s store_ops \<Rightarrow> env \<Rightarrow> str \<Rightarrow> cid \<Rightarrow> 's store_tree \<Rightarrow> (mst_error + unit) \<times> 's store_tree" where
  "st_insert B E key c t =
     (case tree_insert (store_env B E (st_store t)) key c (st_inner t) of
        (r, i) \<Rightarrow> (and_then r (\<lambda>_. Inr ()), t\<lparr>st_inner := i\<rparr>))"

definition st_remove :: "'s store_ops \<Rightarrow> env \<Rightarrow> str \<Rightarrow> 's store_tree \<Rightarrow> (mst_error + cid option) \<times> 's store_tree" where
  "st_remove B E key t =
     (case tree_remove (store_env B E (st_store t)) key (st_inner t) of (r, i) \<Rightarrow> (r, t\<lparr>st_inner := i\<rparr>))"

definition st_entries :: "'s store_ops \<Rightarrow> env \<Rightarrow> 's store_tree \<Rightarrow> (mst_error + (str \<times> cid) list) \<times> 's store_tree" where
  "st_entries B E t =
     (case tree_entries (store_env B E (st_store t)) (st_inner t) of (r, i) \<Rightarrow> (r, t\<lparr>st_inner := i\<rparr>))"

definition st_walk :: "'s store_ops \<Rightarrow> env \<Rightarrow> 'a walker \<Rightarrow> 's store_tree \<Rightarrow> 'a \<Rightarrow> (mst_error + unit) \<times> 's store_tree \<times> 'a" where
  "st_walk B E f t a =
     (case tree_walk (store_env B E (st_store t)) f (st_inner t) a of (r, i, a) \<Rightarrow> (r, t\<lparr>st_inner := i\<rparr>, a))"

text \<open>The loop of \<open>root_cid\<close> over the unsaved blocks, last first: the argument is in that order.\<close>

fun save_unsaved :: "'s store_ops \<Rightarrow> blocks \<Rightarrow> 's \<Rightarrow> (mst_error + unit) \<times> blocks \<times> 's" where
  "save_unsaved B [] s = (Inr (), [], s)"
| "save_unsaved B ((c, data) # bs) s =
     (case put_block B s c data of
        (Inl e, s) \<Rightarrow> (Inl e, (c, data) # bs, s)
      | (Inr _, s) \<Rightarrow> save_unsaved B bs s)"

definition st_root_cid :: "'s store_ops \<Rightarrow> env \<Rightarrow> 's store_tree \<Rightarrow> (mst_error + cid) \<times> 's store_tree" where
  "st_root_cid B E t =
     (case tree_flush E (st_inner t) of
        (Inl e, i) \<Rightarrow> (Inl e, t\<lparr>st_inner := i\<rparr>)
      | (Inr w, i) \<Rightarrow>
          (case save_unsaved B (rev (st_unsaved t @ w_new_blocks w)) (st_store t) of
             (r, unsaved, s) \<Rightarrow>
               (and_then r (\<lambda>_. Inr (w_root w)), \<lparr>st_inner = i, st_store = s, st_unsaved = rev unsaved\<rparr>)))"

section \<open>The contract of a store\<close>

text \<open>
  What a tree relies on: a block put is there, other blocks stay as they were, a refused put
  changes nothing a reader sees, and \<open>has_block\<close> tells whether a read succeeds.
\<close>

locale block_store =
  fixes B :: "'s store_ops"
  assumes put_get: "put_block B s c data = (Inr (), s') \<Longrightarrow> get_block B s' c = Inr data"
    and put_other: "put_block B s c data = (Inr (), s') \<Longrightarrow> c' \<noteq> c \<Longrightarrow> get_block B s' c' = get_block B s c'"
    and put_refused: "put_block B s c data = (Inl e, s') \<Longrightarrow> get_block B s' = get_block B s"
    and has_get: "has_block B s c = Inr b \<Longrightarrow> b \<longleftrightarrow> (\<exists>data. get_block B s c = Inr data)"
begin

text \<open>Saving keeps every block: it is in the store or still waiting.\<close>

lemma save_keeps:
  assumes "save_unsaved B bs s = (r, bs', s')" "distinct (map fst bs)"
  shows "\<exists>saved. bs = saved @ bs' \<and> (\<forall>(c, data) \<in> set saved. get_block B s' c = Inr data) \<and>
    (\<forall>c. c \<notin> fst ` set saved \<longrightarrow> get_block B s' c = get_block B s c) \<and> (r = Inr () \<longleftrightarrow> bs' = [])"
  using assms
proof (induction bs arbitrary: s)
  case (Cons b bs)
  obtain c data where b: "b = (c, data)" by (cases b)
  obtain q s1 where p: "put_block B s c data = (q, s1)" by (cases "put_block B s c data")
  show ?case
  proof (cases q)
    case (Inl e)
    then show ?thesis using Cons.prems(1) p b put_refused [of s c data e s1] by (auto intro!: exI [of _ "[]"])
  next
    case (Inr u)
    then have p: "put_block B s c data = (Inr (), s1)" using p by simp
    then have "save_unsaved B bs s1 = (r, bs', s')" using Cons.prems(1) b by simp
    from Cons.IH [OF this] Cons.prems(2) obtain saved where sv: "bs = saved @ bs'"
      "\<forall>(c, data) \<in> set saved. get_block B s' c = Inr data"
      "\<forall>c. c \<notin> fst ` set saved \<longrightarrow> get_block B s' c = get_block B s1 c" "r = Inr () \<longleftrightarrow> bs' = []" by auto
    have "c \<notin> fst ` set saved" using Cons.prems(2) sv(1) b by auto
    then have "get_block B s' c = Inr data" using sv(3) put_get [OF p] by simp
    then show ?thesis using sv put_other [OF p] b by (intro exI [of _ "b # saved"]) auto
  qed
qed simp

lemma root_cid_keeps:
  assumes "st_root_cid B E t = (r, t')" "tree_flush E (st_inner t) = (Inr w, i)"
    and "distinct (map fst (st_unsaved t @ w_new_blocks w))" "(c, data) \<in> set (st_unsaved t @ w_new_blocks w)"
  shows "get_block B (st_store t') c = Inr data \<or> (c, data) \<in> set (st_unsaved t')" "r = Inr root \<Longrightarrow> st_unsaved t' = [] \<and> root = w_root w"
proof -
  obtain q bs s where v: "save_unsaved B (rev (st_unsaved t @ w_new_blocks w)) (st_store t) = (q, bs, s)" by (metis prod_cases3)
  have d: "distinct (map fst (rev (st_unsaved t @ w_new_blocks w)))" using assms(3) by (auto simp: rev_map [symmetric])
  have t': "r = and_then q (\<lambda>_. Inr (w_root w))" "st_store t' = s" "st_unsaved t' = rev bs"
    using assms(1,2) v by (auto simp: st_root_cid_def)
  obtain saved where k: "rev (st_unsaved t @ w_new_blocks w) = saved @ bs" "\<forall>(c, data) \<in> set saved. get_block B s c = Inr data"
    "q = Inr () \<longleftrightarrow> bs = []"
    using save_keeps [OF v d] by blast
  have "(c, data) \<in> set (saved @ bs)" using assms(4) k(1) by (metis set_rev)
  then show "get_block B (st_store t') c = Inr data \<or> (c, data) \<in> set (st_unsaved t')" using k(2) t' by auto
  show "r = Inr root \<Longrightarrow> st_unsaved t' = [] \<and> root = w_root w" using k(3) t' by (auto simp: and_then_eq_Inr)
qed

end

interpretation mem: block_store mem_store
  by unfold_locales (auto simp: mem_store_def mem_get_block_def mem_put_block_def mem_has_block_def)

section \<open>Operations through the store\<close>

text \<open>The store's blocks agree with \<open>\<sigma>\<close>, and the inner tree is usable with them.\<close>

definition st_ok :: "'s store_ops \<Rightarrow> env \<Rightarrow> contents \<Rightarrow> 's store_tree \<Rightarrow> bool" where
  "st_ok B E \<sigma> t \<longleftrightarrow> models (store_env B E (st_store t)) \<sigma> \<and> usable \<sigma> (st_inner t)"

abbreviation st_contents :: "contents \<Rightarrow> 's store_tree \<Rightarrow> (str \<times> cid) list" where
  "st_contents \<sigma> t \<equiv> contents \<sigma> (st_inner t)"

lemma store_env_sel [simp]:
  "simd_utf8 (store_env B E s) = simd_utf8 E" "compress256 (store_env B E s) = compress256 E"
  by (simp_all add: store_env_def)

lemma st_get_spec:
  assumes "st_get B E key t = (r, t')" "st_ok B E \<sigma> t"
  shows "st_ok B E \<sigma> t' \<and> st_store t' = st_store t \<and> st_contents \<sigma> t' = st_contents \<sigma> t \<and>
    (\<forall>v. r = Inr v \<longrightarrow> v = map_of (st_contents \<sigma> t) key)"
proof -
  obtain i where i: "tree_get (store_env B E (st_store t)) key (st_inner t) = (r, i)" "t' = t\<lparr>st_inner := i\<rparr>"
    using assms(1) by (auto simp: st_get_def split: prod.splits)
  from tree_get_spec [OF i(1), of \<sigma>] assms(2) i(2) show ?thesis by (simp add: st_ok_def)
qed

lemma st_insert_spec:
  assumes "st_insert B E key c t = (r, t')" "st_ok B E \<sigma> t"
  shows "st_ok B E \<sigma> t' \<and> st_store t' = st_store t \<and> (r = Inr () \<longrightarrow> is_valid_key key) \<and>
    st_contents \<sigma> t' = (case r of Inl e \<Rightarrow> st_contents \<sigma> t | Inr _ \<Rightarrow> upd_list key c (st_contents \<sigma> t))"
proof -
  obtain q i where i: "tree_insert (store_env B E (st_store t)) key c (st_inner t) = (q, i)" "t' = t\<lparr>st_inner := i\<rparr>"
    "r = and_then q (\<lambda>_. Inr ())"
    using assms(1) by (auto simp: st_insert_def split: prod.splits)
  from tree_insert_spec [OF i(1), of \<sigma>] assms(2) i(2,3) show ?thesis by (cases q) (simp_all add: st_ok_def)
qed

lemma st_remove_spec:
  assumes "st_remove B E key t = (r, t')" "st_ok B E \<sigma> t"
  shows "st_ok B E \<sigma> t' \<and> st_store t' = st_store t \<and>
    st_contents \<sigma> t' = (case r of Inl e \<Rightarrow> st_contents \<sigma> t | Inr _ \<Rightarrow> del_list key (st_contents \<sigma> t)) \<and>
    (\<forall>v. r = Inr v \<longrightarrow> v = map_of (st_contents \<sigma> t) key)"
proof -
  obtain i where i: "tree_remove (store_env B E (st_store t)) key (st_inner t) = (r, i)" "t' = t\<lparr>st_inner := i\<rparr>"
    using assms(1) by (auto simp: st_remove_def split: prod.splits)
  from tree_remove_spec [OF i(1), of \<sigma>] assms(2) i(2) show ?thesis by (cases r) (simp_all add: st_ok_def)
qed

lemma st_entries_spec:
  assumes "st_entries B E t = (r, t')" "st_ok B E \<sigma> t"
  shows "st_ok B E \<sigma> t' \<and> st_store t' = st_store t \<and> st_contents \<sigma> t' = st_contents \<sigma> t \<and>
    (\<forall>ps. r = Inr ps \<longrightarrow> ps = st_contents \<sigma> t)"
proof -
  obtain i where i: "tree_entries (store_env B E (st_store t)) (st_inner t) = (r, i)" "t' = t\<lparr>st_inner := i\<rparr>"
    using assms(1) by (auto simp: st_entries_def split: prod.splits)
  from tree_entries_spec [OF i(1), of \<sigma>] assms(2) i(2) show ?thesis by (simp add: st_ok_def)
qed

end
