(* ===== verification/Syntax_Tid.thy ===== *)
theory Syntax_Tid
  imports Syntax_Base
begin

text \<open>
  Timestamp identifiers and the clock that generates them (\<open>src/src/syntax/tid.rs\<close>). The clock is a
  shared atomic that several threads advance; the model interleaves their loads and
  compare-and-swaps.
\<close>

section \<open>TIDs\<close>

definition ALPHABET :: bytes where
  "ALPHABET = lit ''234567abcdefghijklmnopqrstuvwxyz''"

datatype tid = Tid u64

definition MAX_TID_MICROS :: u64 where
  "MAX_TID_MICROS = push_bit 53 1 - 1"

definition MAX_TID_CLOCK_ID :: u16 where
  "MAX_TID_CLOCK_ID = push_bit 10 1 - 1"

fun as_u64 :: "tid \<Rightarrow> u64" where
  "as_u64 (Tid v) = v"

definition tid_new :: "u64 \<Rightarrow> u16 \<Rightarrow> syntax_error + tid" where
  "tid_new timestamp_micros clock_id =
     (if timestamp_micros > MAX_TID_MICROS then Inl (InvalidTid [] ''timestamp_micros out of range'')
      else if clock_id > MAX_TID_CLOCK_ID then Inl (InvalidTid [] ''clock_id out of range'')
      else Inr (Tid (push_bit 10 timestamp_micros OR ucast clock_id)))"

definition from_integer :: "u64 \<Rightarrow> tid" where
  "from_integer v = Tid (v AND NOT (push_bit 63 1))"

definition timestamp_micros :: "tid \<Rightarrow> u64" where
  "timestamp_micros t = drop_bit 10 (as_u64 t)"

definition tid_clock_id :: "tid \<Rightarrow> u16" where
  "tid_clock_id t = ucast (as_u64 t AND 0x3ff)"

text \<open>The loop of \<open>fmt\<close>, from the last character to the first.\<close>

fun tid_digits :: "nat \<Rightarrow> u64 \<Rightarrow> bytes \<Rightarrow> bytes" where
  "tid_digits 0 v buf = buf"
| "tid_digits (Suc i) v buf = tid_digits i (drop_bit 5 v) (buf[i := ALPHABET ! unat (v AND 0x1f)])"

definition tid_fmt :: "tid \<Rightarrow> str" where
  "tid_fmt t = tid_digits 13 (as_u64 t) (replicate 13 0)"

definition is_tid_first_char :: "u8 \<Rightarrow> bool" where
  "is_tid_first_char c \<longleftrightarrow> 0x32 \<le> c \<and> c \<le> 0x37 \<or> 0x61 \<le> c \<and> c \<le> 0x6a"

definition is_tid_char :: "u8 \<Rightarrow> bool" where
  "is_tid_char c \<longleftrightarrow> 0x32 \<le> c \<and> c \<le> 0x37 \<or> is_ascii_lowercase c"

definition base32_decode :: "u8 \<Rightarrow> u8" where
  "base32_decode c = (if 0x32 \<le> c \<and> c \<le> 0x37 then c - 0x32 else c - 0x61 + 6)"

definition tid_try_from :: "str \<Rightarrow> syntax_error + tid" where
  "tid_try_from raw =
     (if length raw \<noteq> 13 then Inl (InvalidTid raw ''must be exactly 13 characters'')
      else if \<not> is_tid_first_char (raw ! 0) then Inl (InvalidTid raw ''invalid first character (high bit would be set)'')
      else if \<not> list_all is_tid_char (drop 1 raw) then Inl (InvalidTid raw ''invalid character'')
      else Inr (Tid (foldl (\<lambda>v b. push_bit 5 v OR ucast (base32_decode b)) 0 raw)))"

section \<open>Base 32\<close>

text \<open>The digits of a number, most significant first, and their value.\<close>

fun digits32 :: "nat \<Rightarrow> nat \<Rightarrow> nat list" where
  "digits32 0 n = []"
| "digits32 (Suc k) n = digits32 k (n div 32) @ [n mod 32]"

definition value32 :: "nat list \<Rightarrow> nat" where
  "value32 ds = foldl (\<lambda>v d. v * 32 + d) 0 ds"

lemma value32_snoc [simp]: "value32 (ds @ [d]) = value32 ds * 32 + d"
  by (simp add: value32_def)

lemma value32_Nil [simp]: "value32 [] = 0"
  by (simp add: value32_def)

lemma length_digits32 [simp]: "length (digits32 k n) = k"
  by (induction k arbitrary: n) simp_all

lemma digits32_less: "d \<in> set (digits32 k n) \<Longrightarrow> d < 32"
  by (induction k arbitrary: n) auto

lemma value32_digits32: "value32 (digits32 k n) = n mod 32 ^ k"
proof (induction k arbitrary: n)
  case (Suc k)
  have "n mod 32 ^ Suc k = 32 * (n div 32 mod 32 ^ k) + n mod 32" by (simp add: mod_mult2_eq)
  with Suc show ?case by simp
qed simp

lemma digits32_value32: "\<forall>d \<in> set ds. d < 32 \<Longrightarrow> digits32 (length ds) (value32 ds) = ds"
  by (induction ds rule: rev_induct) auto

lemma value32_less: "\<forall>d \<in> set ds. d < 32 \<Longrightarrow> value32 ds < 32 ^ length ds"
proof (induction ds rule: rev_induct)
  case (snoc d ds)
  then have "value32 ds < 32 ^ length ds" "d < 32" by auto
  then show ?case by simp
qed simp

text \<open>Digit strings of one length order as their values.\<close>

lemma value32_less_iff:
  assumes "length xs = length ys" "\<forall>d \<in> set xs. d < 32" "\<forall>d \<in> set ys. d < 32"
  shows "value32 xs < value32 ys \<longleftrightarrow> xs < ys"
  using assms
proof (induction xs arbitrary: ys rule: rev_induct)
  case (snoc x xs)
  then obtain ys' y where ys: "ys = ys' @ [y]" by (metis length_0_conv rev_exhaust snoc_eq_iff_butlast)
  have l: "length xs = length ys'" using snoc.prems(1) ys by simp
  have "value32 xs < value32 ys' \<longleftrightarrow> xs < ys'" using snoc ys l by simp
  moreover have "value32 xs = value32 ys' \<longleftrightarrow> xs = ys'"
    by (rule iffI, rule trans [OF digits32_value32 [symmetric]]) (use snoc.prems ys l digits32_value32 [of ys'] in auto)
  moreover have "x < 32" "y < 32" using snoc.prems ys by auto
  ultimately show ?case unfolding ys append_less_append_iff [OF l] by auto
qed simp

section \<open>The alphabet\<close>

lemma alphabet_table: "list_all (\<lambda>d. unat (ALPHABET ! d) = (if d < 6 then d + 50 else d + 91)) [0..<32]"
  by (simp add: ALPHABET_def of_char_def upt_rec [of _ 32])

lemma length_ALPHABET [simp]: "length ALPHABET = 32"
  by (simp add: ALPHABET_def)

lemma unat_alphabet: "d < 32 \<Longrightarrow> unat (ALPHABET ! d) = (if d < 6 then d + 50 else d + 91)"
  using alphabet_table by (simp only: list_all_iff set_upt atLeastLessThan_iff) simp

lemma tid_char_unat: "is_tid_char c \<longleftrightarrow> 50 \<le> unat c \<and> unat c \<le> 55 \<or> 97 \<le> unat c \<and> unat c \<le> 122"
  by (auto simp: is_tid_char_def is_ascii_lowercase_def word_le_nat_alt)

lemma tid_first_char_unat: "is_tid_first_char c \<longleftrightarrow> 50 \<le> unat c \<and> unat c \<le> 55 \<or> 97 \<le> unat c \<and> unat c \<le> 106"
  by (auto simp: is_tid_first_char_def word_le_nat_alt)

lemma unat_base32_decode: "is_tid_char c \<Longrightarrow> unat (base32_decode c) = (if unat c \<le> 55 then unat c - 50 else unat c - 91)"
  unfolding tid_char_unat by (auto simp: base32_decode_def word_le_nat_alt unat_word_ariths unat_sub_if_size word_size)

lemma alphabet_nth:
  assumes "d < 32"
  shows "is_tid_char (ALPHABET ! d)" "unat (base32_decode (ALPHABET ! d)) = d" "is_tid_first_char (ALPHABET ! d) \<longleftrightarrow> d < 16"
  using assms by (auto simp: tid_char_unat tid_first_char_unat unat_base32_decode unat_alphabet)

lemma alphabet_less: "d < 32 \<Longrightarrow> e < 32 \<Longrightarrow> ALPHABET ! d < ALPHABET ! e \<longleftrightarrow> d < e"
  by (auto simp: word_less_nat_alt unat_alphabet)

lemma tid_char_alphabet:
  assumes "is_tid_char c"
  shows "unat (base32_decode c) < 32" "ALPHABET ! unat (base32_decode c) = c"
proof -
  show l: "unat (base32_decode c) < 32" using assms unat_base32_decode [OF assms] by (auto simp: tid_char_unat)
  have "unat (ALPHABET ! unat (base32_decode c)) = unat c"
    using unat_alphabet [OF l] assms unat_base32_decode [OF assms] by (auto simp: tid_char_unat)
  then show "ALPHABET ! unat (base32_decode c) = c" by (simp add: word_unat_eq_iff)
qed

section \<open>Printing and parsing\<close>

lemma tid_digits_spec:
  "i \<le> length buf \<Longrightarrow> tid_digits i v buf = map (\<lambda>d. ALPHABET ! d) (digits32 i (unat v)) @ drop i buf"
proof (induction i arbitrary: v buf)
  case (Suc i)
  have "unat (v AND 0x1f) = unat v mod 32"
  proof -
    have "unat (v AND 0x1f) = unat v AND mask 5" by (simp add: unsigned_and_eq mask_eq_exp_minus_1)
    also have "\<dots> = unat v mod 32" by (simp only: take_bit_eq_mod flip: take_bit_eq_mask) simp
    finally show ?thesis .
  qed
  moreover have "unat (drop_bit 5 v) = unat v div 32"
    using unat_drop_bit_eq [of 5 v] drop_bit_eq_div [of 5 "unat v"] by simp
  moreover have "drop i (buf[i := x]) = x # drop (Suc i) buf" for x
    using Suc.prems by (simp add: drop_update_swap Cons_nth_drop_Suc [symmetric])
  ultimately show ?case using Suc by simp
qed simp

lemma tid_fmt_digits: "tid_fmt t = map (\<lambda>d. ALPHABET ! d) (digits32 13 (unat (as_u64 t)))"
  using tid_digits_spec [of 13 "replicate 13 0"] by (simp add: tid_fmt_def)

lemma decode_fold:
  "\<forall>c \<in> set bs. is_tid_char c \<Longrightarrow>
     foldl (\<lambda>v b. push_bit 5 v OR ucast (base32_decode b)) (0 :: u64) bs = of_nat (value32 (map (\<lambda>c. unat (base32_decode c)) bs))"
proof (induction bs rule: rev_induct)
  case (snoc b bs)
  have "unat (base32_decode b) < 32" using tid_char_alphabet(1) [of b] snoc.prems by simp
  then have b: "unat (ucast (base32_decode b) :: u64) < 2 ^ 5"
    using le_less_trans [OF take_bit_nat_less_eq_self [of 64 "unat (base32_decode b)"]] by (simp add: unsigned_ucast_eq)
  have "push_bit 5 a OR ucast (base32_decode b) = a * 32 + (of_nat (unat (base32_decode b)) :: u64)" for a
    using or_push_bit_add [OF b, of a] by (simp add: or.commute add.commute)
  with snoc show ?case by simp
qed simp

lemma tid_fmt_inverse:
  assumes "length raw = 13" "\<forall>c \<in> set raw. is_tid_char c" "is_tid_first_char (raw ! 0)"
  shows "tid_fmt (Tid (of_nat (value32 (map (\<lambda>c. unat (base32_decode c)) raw)))) = raw"
    and "value32 (map (\<lambda>c. unat (base32_decode c)) raw) < 2 ^ 64"
proof -
  let ?ds = "map (\<lambda>c. unat (base32_decode c)) raw"
  have d: "\<forall>d \<in> set ?ds. d < 32" using assms(2) tid_char_alphabet(1) by auto
  obtain c cs where raw: "raw = c # cs" "length cs = 12" using assms(1) by (cases raw) auto
  have c: "unat (base32_decode c) < 16"
    using alphabet_nth(3) [of "unat (base32_decode c)"] tid_char_alphabet [of c] assms(2,3) raw by auto
  have "value32 (d # ds) = d * 32 ^ length ds + value32 ds" for d ds
    by (induction ds rule: rev_induct) (simp_all add: value32_def algebra_simps)
  moreover have "value32 (map (\<lambda>c. unat (base32_decode c)) cs) < 32 ^ 12" using value32_less [of "map (\<lambda>c. unat (base32_decode c)) cs"] d raw by simp
  ultimately have "value32 ?ds < unat (base32_decode c) * 32 ^ 12 + 32 ^ 12" using raw by simp
  also have "\<dots> \<le> 15 * 32 ^ 12 + 32 ^ 12" using c by (intro add_mono mult_le_mono) simp_all
  finally show less: "value32 ?ds < 2 ^ 64" by simp
  have "digits32 13 (value32 ?ds) = ?ds" using digits32_value32 [OF d] assms(1) by simp
  moreover have "map (\<lambda>d. ALPHABET ! d) ?ds = raw" using assms(2) tid_char_alphabet(2) by (simp add: map_idI)
  moreover have "unat (of_nat (value32 ?ds) :: u64) = value32 ?ds" using less by (simp add: unat_of_nat)
  ultimately show "tid_fmt (Tid (of_nat (value32 ?ds))) = raw" by (simp add: tid_fmt_digits)
qed

lemma digits32_first: "digits32 (Suc k) n ! 0 = n div 32 ^ k mod 32"
proof (induction k arbitrary: n)
  case (Suc k)
  have "digits32 (Suc (Suc k)) n ! 0 = digits32 (Suc k) (n div 32) ! 0"
    unfolding digits32.simps(2) [of "Suc k"] by (subst nth_append) simp
  with Suc show ?case by (simp add: div_mult2_eq del: digits32.simps)
qed simp

lemma tid_fmt_parse: "tid_try_from (tid_fmt (Tid v)) = Inr (Tid v)"
proof -
  let ?ds = "digits32 13 (unat v)"
  have v: "unat v < 2 ^ 64" using unsigned_less [of v] by simp
  have raw: "tid_fmt (Tid v) = map (\<lambda>d. ALPHABET ! d) ?ds" using tid_fmt_digits [of "Tid v"] by simp
  have ch: "\<forall>c \<in> set (map (\<lambda>d. ALPHABET ! d) ?ds). is_tid_char c" using digits32_less alphabet_nth(1) by auto
  have "?ds ! 0 = unat v div 32 ^ 12 mod 32" using digits32_first [of 12 "unat v"] by simp
  moreover have "unat v div 32 ^ 12 < 16" using v by (simp add: less_mult_imp_div_less)
  ultimately have first: "is_tid_first_char (map (\<lambda>d. ALPHABET ! d) ?ds ! 0)" using alphabet_nth(3) [of "?ds ! 0"] by simp
  have "map (\<lambda>c. unat (base32_decode c)) (map (\<lambda>d. ALPHABET ! d) ?ds) = ?ds"
    using digits32_less alphabet_nth(2) by (simp add: map_idI)
  moreover have "value32 ?ds = unat v" unfolding value32_digits32 by (rule mod_less) (use v in simp)
  ultimately have "foldl (\<lambda>v b. push_bit 5 v OR ucast (base32_decode b)) 0 (map (\<lambda>d. ALPHABET ! d) ?ds) = v"
    unfolding decode_fold [OF ch] by simp
  then show ?thesis unfolding raw tid_try_from_def using ch first by (auto simp: list_all_iff drop_map dest: in_set_dropD)
qed

lemma tid_first_is_tid_char: "is_tid_first_char c \<Longrightarrow> is_tid_char c"
  by (auto simp: tid_char_unat tid_first_char_unat)

text \<open>
  Printing and parsing TIDs are inverse: a string parses to a TID exactly when it is the
  printed form of that TID.
\<close>

lemma tid_string_roundtrip: "tid_try_from raw = Inr t \<longleftrightarrow> raw = tid_fmt t"
proof
  assume p: "tid_try_from raw = Inr t"
  then have l: "length raw = 13" "is_tid_first_char (raw ! 0)" "list_all is_tid_char (drop 1 raw)"
    by (auto simp: tid_try_from_def split: if_splits)
  then have ch: "\<forall>c \<in> set raw. is_tid_char c" using tid_first_is_tid_char by (cases raw) (auto simp: list_all_iff)
  have "t = Tid (of_nat (value32 (map (\<lambda>c. unat (base32_decode c)) raw)))"
    using p decode_fold [OF ch] by (auto simp: tid_try_from_def split: if_splits)
  with tid_fmt_inverse(1) [OF l(1) ch l(2)] show "raw = tid_fmt t" by simp
next
  assume "raw = tid_fmt t"
  then show "tid_try_from raw = Inr t" using tid_fmt_parse [of "as_u64 t"] by (cases t) simp
qed

text \<open>
  TIDs sort as their strings: comparing the printed forms byte by byte is comparing the
  integers.
\<close>

lemma tid_string_order: "tid_fmt t < tid_fmt u \<longleftrightarrow> as_u64 t < as_u64 u"
proof -
  let ?f = "\<lambda>d. ALPHABET ! d"
  have map_less: "map ?f xs < map ?f ys \<longleftrightarrow> xs < ys"
    if "length xs = length ys" "\<forall>d \<in> set xs. d < 32" "\<forall>d \<in> set ys. d < 32" for xs ys
    using that
  proof (induction xs ys rule: list_induct2)
    case (Cons x xs y ys)
    then have "?f x = ?f y \<longleftrightarrow> x = y" "?f x < ?f y \<longleftrightarrow> x < y" using alphabet_less [of x y] alphabet_less [of y x] by auto
    with Cons show ?case by auto
  qed simp
  have mod: "n mod 32 ^ 13 = n" if "n < 2 ^ 64" for n :: nat using that by (intro mod_less) simp
  have "unat (as_u64 v) < 2 ^ 64" for v using unsigned_less [of "as_u64 v"] by simp
  then have "value32 (digits32 13 (unat (as_u64 v))) = unat (as_u64 v)" for v unfolding value32_digits32 by (rule mod)
  then show ?thesis
    using map_less [of "digits32 13 (unat (as_u64 t))" "digits32 13 (unat (as_u64 u))"]
      value32_less_iff [of "digits32 13 (unat (as_u64 t))" "digits32 13 (unat (as_u64 u))"] digits32_less
    by (auto simp: tid_fmt_digits word_less_nat_alt)
qed

section \<open>The fields of a TID\<close>

lemma unat_MAX_TID_MICROS: "unat MAX_TID_MICROS = 2 ^ 53 - 1"
  by (simp add: MAX_TID_MICROS_def push_bit_eq_mult)

lemma tid_value:
  assumes "ts \<le> MAX_TID_MICROS" "unat cl < 1024"
  shows "unat (push_bit 10 ts OR ucast (cl :: u16) :: u64) = unat ts * 1024 + unat cl"
    and "unat (push_bit 10 ts OR ucast cl) < 2 ^ 63"
proof -
  have ts: "unat ts \<le> 2 ^ 53 - 1" using assms(1) unat_MAX_TID_MICROS by (simp add: word_le_nat_alt)
  have cl: "unat (ucast cl :: u64) = unat cl"
    using assms(2) by (simp add: unsigned_ucast_eq take_bit_nat_eq_self)
  then have "push_bit 10 ts OR ucast cl = ts * 1024 + ucast cl"
    using or_push_bit_add [of "ucast cl" 10 ts] assms(2) by (simp add: or.commute add.commute)
  moreover have "unat (ts * 1024 + ucast cl :: u64) = unat ts * 1024 + unat cl"
    using ts cl assms(2) by (simp add: unat_word_ariths)
  ultimately show v: "unat (push_bit 10 ts OR ucast cl) = unat ts * 1024 + unat cl" by simp
  show "unat (push_bit 10 ts OR ucast cl) < 2 ^ 63" unfolding v using ts assms(2) by simp
qed

lemma clear_top_bit: "unat (v :: u64) < 2 ^ 63 \<Longrightarrow> v AND NOT (push_bit 63 1) = v"
proof (rule bit_word_eqI)
  fix n assume v: "unat v < 2 ^ 63" and n: "n < LENGTH(64)"
  have "unat v div 2 ^ 63 = 0" using v by (rule div_less)
  then have "\<not> bit (unat v) 63" by (simp only: bit_iff_odd) simp
  then have "\<not> bit v 63" by (simp add: bit_unsigned_iff)
  then show "bit (v AND NOT (push_bit 63 1)) n = bit v n" 
    unfolding bit_and_iff bit_not_iff bit_push_bit_iff bit_1_iff using n by (cases "n = 63") (auto simp: possible_bit_def)
qed

lemma tid_fields:
  assumes "unat v = unat ts * 1024 + unat (cl :: u16)" "unat cl < 1024"
  shows "timestamp_micros (Tid v) = ts" "tid_clock_id (Tid v) = cl"
proof -
  have "unat (drop_bit 10 v) = unat v div 1024" using unat_drop_bit_eq [of 10 v] drop_bit_eq_div [of 10 "unat v"] by simp
  then show "timestamp_micros (Tid v) = ts" using assms by (simp add: timestamp_micros_def word_unat_eq_iff)
  have "unat (v AND 0x3ff) = unat v AND mask 10" by (simp add: unsigned_and_eq mask_eq_exp_minus_1)
  also have "\<dots> = unat v mod 1024" by (simp only: take_bit_eq_mod flip: take_bit_eq_mask) simp
  finally show "tid_clock_id (Tid v) = cl"
    using assms by (simp add: tid_clock_id_def word_unat_eq_iff unsigned_ucast_eq take_bit_nat_eq_self)
qed

text \<open>
  A TID made of a timestamp and a clock ID gives both back; it is made exactly when they fit
  their 53 and 10 bits, and nothing is masked away.
\<close>

lemma tid_new_fields:
  "tid_new ts cl = Inr t \<longleftrightarrow>
     unat ts < 2 ^ 53 \<and> unat cl < 2 ^ 10 \<and> as_u64 t = push_bit 10 ts OR ucast cl \<and>
     timestamp_micros t = ts \<and> tid_clock_id t = cl"
proof -
  have "ts > MAX_TID_MICROS \<longleftrightarrow> \<not> unat ts < 2 ^ 53" using unat_MAX_TID_MICROS by (auto simp: word_less_nat_alt)
  moreover have "cl > MAX_TID_CLOCK_ID \<longleftrightarrow> \<not> unat cl < 2 ^ 10"
    by (auto simp: word_less_nat_alt MAX_TID_CLOCK_ID_def push_bit_eq_mult)
  moreover have "timestamp_micros (Tid (push_bit 10 ts OR ucast cl)) = ts \<and> tid_clock_id (Tid (push_bit 10 ts OR ucast cl)) = cl"
    if "unat ts < 2 ^ 53" "unat cl < 2 ^ 10"
    using that tid_value(1) [of ts cl] tid_fields [of _ ts cl] calculation(1) by (simp add: not_less)
  ultimately show ?thesis by (cases t) (auto simp: tid_new_def)
qed

section \<open>The clock\<close>

record tid_clock =
  c_last :: u64
  c_id :: u16

definition clock_new :: "u16 \<Rightarrow> syntax_error + tid_clock" where
  "clock_new cl =
     (if cl \<ge> 1024 then Inl (InvalidTid [] ''clock_id must fit in 10 bits'') else Inr \<lparr>c_last = 0, c_id = cl\<rparr>)"

definition clock_observe :: "tid \<Rightarrow> tid_clock \<Rightarrow> tid_clock" where
  "clock_observe t c = c\<lparr>c_last := max (c_last c) (timestamp_micros t)\<rparr>"

text \<open>One round of \<open>next\<close> for the value loaded and the time read.\<close>

definition next_timestamp :: "u64 \<Rightarrow> u64 \<Rightarrow> u64" where
  "next_timestamp prev now = (let ts = (if now > prev then now else prev + 1) in min ts MAX_TID_MICROS)"

definition clock_tid :: "u16 \<Rightarrow> u64 \<Rightarrow> tid" where
  "clock_tid cl ts = from_integer (push_bit 10 ts OR ucast cl)"

text \<open>
  Threads that share a clock. A thread in \<open>next\<close> has loaded \<open>last\<close> or not; its compare-and-swap
  succeeds only when \<open>last\<close> is still what it loaded, and may fail even then. The log has the TIDs
  observed and returned, in the order of the atomic operations.
\<close>

datatype clock_event = Observed tid | Returned tid

record clock_sys =
  s_clock :: tid_clock
  s_loaded :: "nat \<Rightarrow> u64 option"
  s_log :: "clock_event list"

inductive clock_step :: "clock_sys \<Rightarrow> clock_sys \<Rightarrow> bool" where
  clock_load: "s_loaded s i = None \<Longrightarrow>
     clock_step s (s\<lparr>s_loaded := (s_loaded s)(i \<mapsto> c_last (s_clock s))\<rparr>)"
| clock_cas: "s_loaded s i = Some prev \<Longrightarrow> c_last (s_clock s) = prev \<Longrightarrow> ts = next_timestamp prev now \<Longrightarrow>
     clock_step s (s\<lparr>s_clock := (s_clock s)\<lparr>c_last := ts\<rparr>, s_loaded := (s_loaded s)(i := None),
       s_log := s_log s @ [Returned (clock_tid (c_id (s_clock s)) ts)]\<rparr>)"
| clock_cas_fail: "s_loaded s i = Some prev \<Longrightarrow>
     clock_step s (s\<lparr>s_loaded := (s_loaded s)(i := None)\<rparr>)"
| clock_obs: "timestamp_micros t \<le> MAX_TID_MICROS \<Longrightarrow>
     clock_step s (s\<lparr>s_clock := clock_observe t (s_clock s), s_log := s_log s @ [Observed t]\<rparr>)"

inductive_cases clock_stepE: "clock_step s s'"

inductive clock_run :: "u16 \<Rightarrow> clock_sys \<Rightarrow> bool" for cl :: u16 where
  clock_start: "clock_new cl = Inr c \<Longrightarrow> clock_run cl \<lparr>s_clock = c, s_loaded = (\<lambda>_. None), s_log = []\<rparr>"
| clock_next: "clock_run cl s \<Longrightarrow> clock_step s s' \<Longrightarrow> clock_run cl s'"

fun event_tid :: "clock_event \<Rightarrow> tid" where
  "event_tid (Observed t) = t"
| "event_tid (Returned t) = t"

text \<open>A returned TID comes after every event before it, unless the ceiling was reached.\<close>

fun event_before :: "clock_event \<Rightarrow> clock_event \<Rightarrow> bool" where
  "event_before a (Observed t) = True"
| "event_before a (Returned t) \<longleftrightarrow>
     timestamp_micros (event_tid a) < timestamp_micros t \<or> timestamp_micros (event_tid a) = MAX_TID_MICROS"

definition clock_inv :: "u16 \<Rightarrow> clock_sys \<Rightarrow> bool" where
  "clock_inv cl s \<longleftrightarrow> c_id (s_clock s) = cl \<and> cl < 1024 \<and> c_last (s_clock s) \<le> MAX_TID_MICROS \<and>
     (\<forall>e \<in> set (s_log s). timestamp_micros (event_tid e) \<le> c_last (s_clock s)) \<and>
     (\<forall>t. Returned t \<in> set (s_log s) \<longrightarrow> tid_clock_id t = cl) \<and> sorted_wrt event_before (s_log s)"

lemma next_timestamp_le: "next_timestamp prev now \<le> MAX_TID_MICROS"
  by (simp add: next_timestamp_def Let_def)

lemma next_timestamp_after:
  assumes "prev \<le> MAX_TID_MICROS"
  shows "prev < next_timestamp prev now \<or> prev = MAX_TID_MICROS \<and> next_timestamp prev now = MAX_TID_MICROS"
proof (cases "prev = MAX_TID_MICROS")
  case True
  then show ?thesis by (auto simp: next_timestamp_def Let_def min_def not_le unat_MAX_TID_MICROS word_le_nat_alt word_less_nat_alt unat_word_ariths)
next
  case False
  then have "prev < MAX_TID_MICROS" using assms by simp
  then have "prev < prev + 1" "prev + 1 \<le> MAX_TID_MICROS"
    using unat_MAX_TID_MICROS by (auto simp: word_le_nat_alt word_less_nat_alt unat_word_ariths)
  then show ?thesis using False assms by (auto simp: next_timestamp_def Let_def min_def)
qed

lemma clock_tid_fields:
  assumes "cl < 1024" "ts \<le> MAX_TID_MICROS"
  shows "timestamp_micros (clock_tid cl ts) = ts" "tid_clock_id (clock_tid cl ts) = cl"
proof -
  have cl: "unat cl < 1024" using assms(1) by (simp add: word_less_nat_alt)
  show "timestamp_micros (clock_tid cl ts) = ts" "tid_clock_id (clock_tid cl ts) = cl"
    unfolding clock_tid_def from_integer_def clear_top_bit [OF tid_value(2) [OF assms(2) cl]]
    using tid_fields [OF tid_value(1) [OF assms(2) cl] cl] by simp_all
qed

lemma clock_run_inv: "clock_run cl s \<Longrightarrow> clock_inv cl s"
proof (induction rule: clock_run.induct)
  case (clock_start c)
  then show ?case by (auto simp: clock_new_def clock_inv_def MAX_TID_MICROS_def not_le split: if_splits)
next
  case (clock_next s s')
  from clock_next.hyps(2) clock_next.IH show ?case
  proof (cases rule: clock_step.cases)
    case (clock_cas i prev ts now)
    then have cl: "c_id (s_clock s) < 1024" and prev: "prev \<le> MAX_TID_MICROS" using clock_next.IH by (auto simp: clock_inv_def)
    have ts: "ts \<le> MAX_TID_MICROS" "prev < ts \<or> prev = MAX_TID_MICROS \<and> ts = MAX_TID_MICROS"
      using next_timestamp_le next_timestamp_after [OF prev] clock_cas by simp_all
    note f = clock_tid_fields [OF cl ts(1)]
    have "timestamp_micros (event_tid e) < ts \<or> timestamp_micros (event_tid e) = MAX_TID_MICROS \<and> ts = MAX_TID_MICROS"
      "timestamp_micros (event_tid e) \<le> ts" if "e \<in> set (s_log s)" for e
    proof -
      have "timestamp_micros (event_tid e) \<le> prev" using clock_next.IH that clock_cas by (auto simp: clock_inv_def)
      with ts show "timestamp_micros (event_tid e) < ts \<or> timestamp_micros (event_tid e) = MAX_TID_MICROS \<and> ts = MAX_TID_MICROS"
        "timestamp_micros (event_tid e) \<le> ts" by auto
    qed
    then show ?thesis using clock_next.IH clock_cas f ts by (auto simp: clock_inv_def sorted_wrt_append)
  next
    case (clock_obs t)
    then show ?thesis using clock_next.IH by (auto simp: clock_inv_def clock_observe_def sorted_wrt_append le_max_iff_disj)
  qed (auto simp: clock_inv_def)
qed

text \<open>
  C32. However the threads that share a clock interleave, every TID it returns has the clock's ID
  and comes strictly after every TID returned or observed before it, until the timestamp reaches
  its 53-bit ceiling; observed TIDs are those whose timestamp is within that range.
\<close>

theorem clock_monotone:
  assumes "clock_run cl s"
  shows "sorted_wrt event_before (s_log s) \<and> (\<forall>t. Returned t \<in> set (s_log s) \<longrightarrow> tid_clock_id t = cl) \<and>
    c_last (s_clock s) \<le> MAX_TID_MICROS"
  using clock_run_inv [OF assms] by (simp add: clock_inv_def)

theorem clock_monotone_witness:
  "\<exists>s. clock_run 7 s \<and> length (s_log s) = 1 \<and> sorted_wrt event_before (s_log s)"
proof -
  let ?c = "\<lparr>c_last = 0, c_id = 7\<rparr>"
  let ?s0 = "\<lparr>s_clock = ?c, s_loaded = (\<lambda>_. None), s_log = []\<rparr>"
  have "clock_run 7 ?s0" by (rule clock_start) (simp add: clock_new_def)
  from clock_next [OF this clock_load [of ?s0 0]]
  have r: "clock_run 7 (?s0\<lparr>s_loaded := (s_loaded ?s0)(0 \<mapsto> c_last (s_clock ?s0))\<rparr>)" (is "clock_run 7 ?s1") by simp
  from clock_next [OF this clock_cas [of ?s1 0 0 "next_timestamp 0 5" 5]]
  have "clock_run 7 (?s1\<lparr>s_clock := (s_clock ?s1)\<lparr>c_last := next_timestamp 0 5\<rparr>, s_loaded := (s_loaded ?s1)(0 := None),
       s_log := s_log ?s1 @ [Returned (clock_tid (c_id (s_clock ?s1)) (next_timestamp 0 5))]\<rparr>)" (is "clock_run 7 ?s2") by simp
  from clock_monotone [OF this] this show ?thesis by (intro exI [of _ ?s2]) simp
qed

text \<open>
  The parser accepts strings whose integer has the top bit set, so a parsed TID may hold a
  timestamp above the ceiling; a clock that observes one returns earlier TIDs afterwards.
\<close>

lemma tid_above_ceiling:
  "\<exists>raw t. tid_try_from raw = Inr t \<and> bit (as_u64 t) 63 \<and> timestamp_micros t > MAX_TID_MICROS \<and>
    next_timestamp (c_last (clock_observe t \<lparr>c_last = 0, c_id = 7\<rparr>)) now < timestamp_micros t"
proof -
  let ?t = "Tid (- 1)"
  have "unat (- 1 :: u64) = 2 ^ 64 - 1" by (simp add: unsigned_minus_1_eq_mask mask_eq_exp_minus_1)
  then have "unat (timestamp_micros ?t) = 2 ^ 54 - 1"
    using unat_drop_bit_eq [of 10 "- 1 :: u64"] drop_bit_eq_div [of 10 "unat (- 1 :: u64)"] by (simp add: timestamp_micros_def)
  then have gt: "MAX_TID_MICROS < timestamp_micros ?t" using unat_MAX_TID_MICROS by (simp add: word_less_nat_alt)
  then have "next_timestamp p now < timestamp_micros ?t" for p using le_less_trans [OF next_timestamp_le] by blast
  with gt tid_fmt_parse [of "- 1"] show ?thesis by (intro exI [of _ "tid_fmt ?t"] exI [of _ ?t]) simp
qed

end
