(* ===== verification/Sync_Raw.thy ===== *)
theory Sync_Raw
  imports Cbor_Roundtrip Syntax_Ids Syntax_Tid
begin

text \<open>
  Firehose frames (\<open>src/src/sync/raw.rs\<close>): a frame is two DRISL values, a header that names the
  event and the event's body. An \<open>i64\<close> is the integer it stands for; a message of an error keeps
  the field it is about and drops the formatted cause.
\<close>

section \<open>Events\<close>

datatype raw_sync_error = ParseCbor string | UnknownType str

record raw_repo_op =
  op_action :: str
  op_path :: str
  op_cid :: "cid option"
  op_prev :: "cid option"

record raw_commit =
  rc_repo :: did
  rc_rev :: tid
  rc_seq :: int
  rc_time :: str
  rc_since :: "tid option"
  rc_commit :: cid
  rc_blocks :: bytes
  rc_ops :: "raw_repo_op list"
  rc_blobs :: "cid list"
  rc_prev_data :: "cid option"
  rc_too_big :: bool
  rc_rebase :: bool

record raw_sync =
  rs_did :: did
  rs_rev :: str
  rs_seq :: int
  rs_time :: str
  rs_blocks :: bytes

record raw_account =
  ra_did :: did
  ra_seq :: int
  ra_time :: str
  ra_active :: bool
  ra_status :: "str option"

record raw_identity =
  ri_did :: did
  ri_seq :: int
  ri_time :: str
  ri_handle :: "handle option"

datatype raw_sync_event =
    CommitEv raw_commit
  | SyncEv raw_sync
  | AccountEv raw_account
  | IdentityEv raw_identity
  | InfoEv

fun into_commit :: "raw_sync_event \<Rightarrow> raw_commit option" where
  "into_commit (CommitEv v) = Some v"
| "into_commit _ = None"

fun into_sync :: "raw_sync_event \<Rightarrow> raw_sync option" where
  "into_sync (SyncEv v) = Some v"
| "into_sync _ = None"

fun into_account :: "raw_sync_event \<Rightarrow> raw_account option" where
  "into_account (AccountEv v) = Some v"
| "into_account _ = None"

section \<open>Fields\<close>

type_synonym fields = "(str \<times> cbor_value) list"

definition field_value :: "fields \<Rightarrow> string \<Rightarrow> cbor_value option" where
  "field_value fs key = map_option snd (List.find (\<lambda>(k, _). k = lit key) fs)"

definition missing_field :: "string \<Rightarrow> raw_sync_error" where
  "missing_field key = ParseCbor (''missing field '' @ key)"

definition require_map :: "cbor_value \<Rightarrow> string \<Rightarrow> raw_sync_error + fields" where
  "require_map val ctxt = (case val of Map fs \<Rightarrow> Inr fs | _ \<Rightarrow> Inl (ParseCbor (ctxt @ '' body must be a CBOR map'')))"

definition require_text :: "fields \<Rightarrow> string \<Rightarrow> raw_sync_error + str" where
  "require_text fs key =
     (case field_value fs key of
        Some (Text v) \<Rightarrow> Inr v
      | Some _ \<Rightarrow> Inl (ParseCbor (''not a text string: '' @ key))
      | None \<Rightarrow> Inl (missing_field key))"

definition optional_text :: "fields \<Rightarrow> string \<Rightarrow> raw_sync_error + str option" where
  "optional_text fs key =
     (case field_value fs key of
        Some (Text v) \<Rightarrow> Inr (Some v)
      | Some Null \<Rightarrow> Inr None
      | None \<Rightarrow> Inr None
      | Some _ \<Rightarrow> Inl (ParseCbor (''not a text string: '' @ key)))"

definition require_int :: "fields \<Rightarrow> string \<Rightarrow> raw_sync_error + int" where
  "require_int fs key =
     (case field_value fs key of
        Some (Unsigned v) \<Rightarrow> if uint v < 2 ^ 63 then Inr (uint v) else Inl (ParseCbor (''overflows i64: '' @ key))
      | Some (Signed v) \<Rightarrow> Inr (sint v)
      | Some _ \<Rightarrow> Inl (ParseCbor (''not an integer: '' @ key))
      | None \<Rightarrow> Inl (missing_field key))"

definition require_bool :: "fields \<Rightarrow> string \<Rightarrow> raw_sync_error + bool" where
  "require_bool fs key =
     (case field_value fs key of
        Some (Bool v) \<Rightarrow> Inr v
      | Some _ \<Rightarrow> Inl (ParseCbor (''not a boolean: '' @ key))
      | None \<Rightarrow> Inl (missing_field key))"

definition require_bytes :: "fields \<Rightarrow> string \<Rightarrow> raw_sync_error + bytes" where
  "require_bytes fs key =
     (case field_value fs key of
        Some (Bytes v) \<Rightarrow> Inr v
      | Some _ \<Rightarrow> Inl (ParseCbor (''not bytes: '' @ key))
      | None \<Rightarrow> Inl (missing_field key))"

definition require_cid_field :: "fields \<Rightarrow> string \<Rightarrow> raw_sync_error + cid" where
  "require_cid_field fs key =
     (case field_value fs key of
        Some (CidV v) \<Rightarrow> Inr v
      | Some _ \<Rightarrow> Inl (ParseCbor (''not a CID: '' @ key))
      | None \<Rightarrow> Inl (missing_field key))"

definition optional_cid :: "fields \<Rightarrow> string \<Rightarrow> raw_sync_error + cid option" where
  "optional_cid fs key =
     (case field_value fs key of
        Some (CidV v) \<Rightarrow> Inr (Some v)
      | Some Null \<Rightarrow> Inr None
      | None \<Rightarrow> Inr None
      | Some _ \<Rightarrow> Inl (ParseCbor (''not a CID: '' @ key)))"

text \<open>\<open>Option::transpose\<close> after a fallible conversion.\<close>

definition transpose_opt :: "('a \<Rightarrow> 'e + 'b) \<Rightarrow> 'a option \<Rightarrow> 'e + 'b option" where
  "transpose_opt f m = (case m of None \<Rightarrow> Inr None | Some x \<Rightarrow> and_then (f x) (\<lambda>y. Inr (Some y)))"

definition optional_tid :: "fields \<Rightarrow> string \<Rightarrow> raw_sync_error + tid option" where
  "optional_tid fs key =
     and_then (optional_text fs key) (\<lambda>m.
       map_err (\<lambda>_. ParseCbor (''invalid TID: '' @ key)) (transpose_opt tid_try_from m))"

definition parse_did :: "str \<Rightarrow> string \<Rightarrow> raw_sync_error + did" where
  "parse_did v key = map_err (\<lambda>_. ParseCbor (''invalid DID: '' @ key)) (did_try_from v)"

section \<open>Bodies\<close>

fun repo_ops_loop :: "cbor_value list \<Rightarrow> raw_repo_op list \<Rightarrow> raw_sync_error + raw_repo_op list" where
  "repo_ops_loop [] ops = Inr ops"
| "repo_ops_loop (item # items) ops =
     (case item of
        Map fs \<Rightarrow>
          and_then (require_text fs ''action'') (\<lambda>action.
          and_then (require_text fs ''path'') (\<lambda>path.
          and_then (optional_cid fs ''cid'') (\<lambda>c.
          and_then (optional_cid fs ''prev'') (\<lambda>prev.
            repo_ops_loop items (ops @ [\<lparr>op_action = action, op_path = path, op_cid = c, op_prev = prev\<rparr>])))))
      | _ \<Rightarrow> Inl (ParseCbor ''repo op body must be a CBOR map''))"

definition parse_repo_ops :: "fields \<Rightarrow> raw_sync_error + raw_repo_op list" where
  "parse_repo_ops fs =
     (case field_value fs ''ops'' of
        None \<Rightarrow> Inr []
      | Some (Array items) \<Rightarrow> repo_ops_loop items []
      | Some _ \<Rightarrow> Inl (ParseCbor ''field ops must be an array''))"

fun blobs_loop :: "cbor_value list \<Rightarrow> cid list \<Rightarrow> raw_sync_error + cid list" where
  "blobs_loop [] blobs = Inr blobs"
| "blobs_loop (item # items) blobs =
     (case item of
        CidV c \<Rightarrow> blobs_loop items (blobs @ [c])
      | _ \<Rightarrow> Inl (ParseCbor ''field blobs entries must be CIDs''))"

definition parse_blobs :: "fields \<Rightarrow> raw_sync_error + cid list" where
  "parse_blobs fs =
     (case field_value fs ''blobs'' of
        None \<Rightarrow> Inr []
      | Some (Array items) \<Rightarrow> blobs_loop items []
      | Some _ \<Rightarrow> Inl (ParseCbor ''field blobs must be an array''))"

definition parse_commit :: "cbor_value \<Rightarrow> raw_sync_error + raw_commit" where
  "parse_commit body =
     and_then (require_map body ''#commit'') (\<lambda>fs.
     and_then (and_then (require_text fs ''repo'') (\<lambda>s. parse_did s ''repo'')) (\<lambda>repo.
     and_then (and_then (require_text fs ''rev'') (\<lambda>s. map_err (\<lambda>_. ParseCbor ''invalid rev TID'') (tid_try_from s))) (\<lambda>rv.
     and_then (require_int fs ''seq'') (\<lambda>seq.
     and_then (require_text fs ''time'') (\<lambda>time.
     and_then (optional_tid fs ''since'') (\<lambda>since.
     and_then (require_cid_field fs ''commit'') (\<lambda>c.
     and_then (require_bytes fs ''blocks'') (\<lambda>blocks.
     and_then (parse_repo_ops fs) (\<lambda>ops.
     and_then (parse_blobs fs) (\<lambda>blobs.
     and_then (optional_cid fs ''prevData'') (\<lambda>prev_data.
     and_then (require_bool fs ''tooBig'') (\<lambda>too_big.
     and_then (require_bool fs ''rebase'') (\<lambda>rebase.
       Inr \<lparr>rc_repo = repo, rc_rev = rv, rc_seq = seq, rc_time = time, rc_since = since, rc_commit = c, rc_blocks = blocks,
            rc_ops = ops, rc_blobs = blobs, rc_prev_data = prev_data, rc_too_big = too_big, rc_rebase = rebase\<rparr>)))))))))))))"

definition parse_sync :: "cbor_value \<Rightarrow> raw_sync_error + raw_sync" where
  "parse_sync body =
     and_then (require_map body ''#sync'') (\<lambda>fs.
     and_then (and_then (require_text fs ''did'') (\<lambda>s. parse_did s ''did'')) (\<lambda>did.
     and_then (require_text fs ''rev'') (\<lambda>rv.
     and_then (require_int fs ''seq'') (\<lambda>seq.
     and_then (require_text fs ''time'') (\<lambda>time.
     and_then (require_bytes fs ''blocks'') (\<lambda>blocks.
       Inr \<lparr>rs_did = did, rs_rev = rv, rs_seq = seq, rs_time = time, rs_blocks = blocks\<rparr>))))))"

definition parse_account :: "cbor_value \<Rightarrow> raw_sync_error + raw_account" where
  "parse_account body =
     and_then (require_map body ''#account'') (\<lambda>fs.
     and_then (and_then (require_text fs ''did'') (\<lambda>s. parse_did s ''did'')) (\<lambda>did.
     and_then (require_int fs ''seq'') (\<lambda>seq.
     and_then (require_text fs ''time'') (\<lambda>time.
     and_then (require_bool fs ''active'') (\<lambda>active.
     and_then (optional_text fs ''status'') (\<lambda>status.
       Inr \<lparr>ra_did = did, ra_seq = seq, ra_time = time, ra_active = active, ra_status = status\<rparr>))))))"

definition parse_identity :: "cbor_value \<Rightarrow> raw_sync_error + raw_identity" where
  "parse_identity body =
     and_then (require_map body ''#identity'') (\<lambda>fs.
     and_then (and_then (optional_text fs ''handle'') (\<lambda>m.
       map_err (\<lambda>_. ParseCbor ''invalid handle'') (transpose_opt handle_try_from m))) (\<lambda>handle.
     and_then (and_then (require_text fs ''did'') (\<lambda>s. parse_did s ''did'')) (\<lambda>did.
     and_then (require_int fs ''seq'') (\<lambda>seq.
     and_then (require_text fs ''time'') (\<lambda>time.
       Inr \<lparr>ri_did = did, ri_seq = seq, ri_time = time, ri_handle = handle\<rparr>)))))"

section \<open>Frames\<close>

definition extract_frame_header :: "cbor_value \<Rightarrow> raw_sync_error + (int \<times> str)" where
  "extract_frame_header header =
     (case header of
        Map fs \<Rightarrow> and_then (require_int fs ''op'') (\<lambda>op. and_then (require_text fs ''t'') (\<lambda>t. Inr (op, t)))
      | _ \<Rightarrow> Inl (ParseCbor ''frame header must be a CBOR map''))"

definition map_ok :: "('a \<Rightarrow> 'b) \<Rightarrow> 'e + 'a \<Rightarrow> 'e + 'b" where
  "map_ok f m = and_then m (\<lambda>x. Inr (f x))"

text \<open>The dispatch on the type tag.\<close>

definition parse_body :: "str \<Rightarrow> cbor_value \<Rightarrow> raw_sync_error + raw_sync_event" where
  "parse_body type_tag body =
     (if type_tag = lit ''#commit'' then map_ok CommitEv (parse_commit body)
      else if type_tag = lit ''#sync'' then map_ok SyncEv (parse_sync body)
      else if type_tag = lit ''#account'' then map_ok AccountEv (parse_account body)
      else if type_tag = lit ''#identity'' then map_ok IdentityEv (parse_identity body)
      else if type_tag = lit ''#info'' then and_then (require_map body ''#info'') (\<lambda>_. Inr InfoEv)
      else Inl (UnknownType type_tag))"

definition parse_raw_sync_frame :: "(bytes \<Rightarrow> bool) \<Rightarrow> bytes \<Rightarrow> raw_sync_error + raw_sync_event" where
  "parse_raw_sync_frame utf8 data =
     and_then (map_err (\<lambda>_. ParseCbor ''header'') (decode_value utf8 0 (decoder_new data))) (\<lambda>(header, dec).
     and_then (extract_frame_header header) (\<lambda>(op, type_tag).
       if op \<noteq> 1 then Inl (ParseCbor ''unknown frame op'')
       else and_then (map_err (\<lambda>_. ParseCbor ''body'') (decode_value utf8 0 dec)) (\<lambda>(body, dec).
         if \<not> decoder_is_empty dec then Inl (ParseCbor ''trailing data after raw sync frame'')
         else parse_body type_tag body)))"

section \<open>What a frame is\<close>

lemma reads_rest_iff:
  assumes "data = pre @ r"
  shows "reads \<lparr>dbuf = data, dpos = length pre\<rparr> bs d' \<and> decoder_is_empty d' \<longleftrightarrow>
    data = pre @ bs \<and> d' = \<lparr>dbuf = data, dpos = length data\<rparr>"
proof -
  have "drop (length pre + length bs) data = drop (length bs) r" "slice data (length pre) (length pre + length bs) = take (length bs) r"
    using assms by (simp_all add: slice_def)
  then show ?thesis using assms by (auto simp: reads_def decoder_is_empty_def)
qed

lemma parse_frame_iff:
  assumes "in_memory data"
  shows "parse_raw_sync_frame u data = Inr ev \<longleftrightarrow>
    (\<exists>hdr tag body. drisl u 0 hdr \<and> drisl u 0 body \<and> data = enc hdr @ enc body \<and>
       extract_frame_header hdr = Inr (1, tag) \<and> parse_body tag body = Inr ev)" (is "?l \<longleftrightarrow> ?r")
proof -
  have b: "in_bounds (decoder_new data)" using assms by (simp add: decoder_new_def)
  have first: "decode_value u 0 (decoder_new data) = Inr (hdr, d) \<longleftrightarrow>
      drisl u 0 hdr \<and> (\<exists>r. data = enc hdr @ r) \<and> d = \<lparr>dbuf = data, dpos = length (enc hdr)\<rparr>" for hdr d
    using decode_value_iff [OF b] reads_new by blast
  have next_value: "decode_value u 0 \<lparr>dbuf = data, dpos = length (enc hdr)\<rparr> = Inr (body, d') \<and> decoder_is_empty d' \<longleftrightarrow>
      drisl u 0 body \<and> data = enc hdr @ enc body \<and> d' = \<lparr>dbuf = data, dpos = length data\<rparr>" if r: "data = enc hdr @ r" for hdr r body d'
  proof -
    have "in_bounds \<lparr>dbuf = data, dpos = length (enc hdr)\<rparr>" using assms r by simp
    from decode_value_iff [OF this] reads_rest_iff [OF r] show ?thesis by blast
  qed
  have "?l \<longleftrightarrow> (\<exists>hdr d tag body d'. decode_value u 0 (decoder_new data) = Inr (hdr, d) \<and> extract_frame_header hdr = Inr (1, tag) \<and>
      (decode_value u 0 d = Inr (body, d') \<and> decoder_is_empty d') \<and> parse_body tag body = Inr ev)"
    by (force simp: parse_raw_sync_frame_def and_then_eq_Inr split: if_splits)
  also have "\<dots> \<longleftrightarrow> ?r"
  proof
    assume ?r
    then obtain hdr tag body where h: "drisl u 0 hdr" "drisl u 0 body" "data = enc hdr @ enc body"
      "extract_frame_header hdr = Inr (1, tag)" "parse_body tag body = Inr ev" by blast
    have "decode_value u 0 (decoder_new data) = Inr (hdr, \<lparr>dbuf = data, dpos = length (enc hdr)\<rparr>)" using first h(1,3) by blast
    moreover have "decode_value u 0 \<lparr>dbuf = data, dpos = length (enc hdr)\<rparr> = Inr (body, \<lparr>dbuf = data, dpos = length data\<rparr>) \<and>
        decoder_is_empty \<lparr>dbuf = data, dpos = length data\<rparr>" using next_value [OF h(3)] h(2,3) by blast
    ultimately show "\<exists>hdr d tag body d'. decode_value u 0 (decoder_new data) = Inr (hdr, d) \<and> extract_frame_header hdr = Inr (1, tag) \<and>
      (decode_value u 0 d = Inr (body, d') \<and> decoder_is_empty d') \<and> parse_body tag body = Inr ev" using h(4,5) by blast
  next
    assume "\<exists>hdr d tag body d'. decode_value u 0 (decoder_new data) = Inr (hdr, d) \<and> extract_frame_header hdr = Inr (1, tag) \<and>
      (decode_value u 0 d = Inr (body, d') \<and> decoder_is_empty d') \<and> parse_body tag body = Inr ev"
    then obtain hdr d tag body d' where h: "decode_value u 0 (decoder_new data) = Inr (hdr, d)" "extract_frame_header hdr = Inr (1, tag)"
      "decode_value u 0 d = Inr (body, d') \<and> decoder_is_empty d'" "parse_body tag body = Inr ev" by blast
    obtain r where r: "drisl u 0 hdr" "data = enc hdr @ r" "d = \<lparr>dbuf = data, dpos = length (enc hdr)\<rparr>" using first h(1) by blast
    then show ?r using next_value [OF r(2), of body d'] h by blast
  qed
  finally show ?thesis .
qed

lemma parse_frame_unique:
  assumes "in_memory (data @ rest)" "parse_raw_sync_frame u data = Inr ev" "parse_raw_sync_frame u (data @ rest) = Inr ev'"
  shows "rest = []"
proof -
  have m: "in_memory data" using assms(1) by simp
  obtain h b where d: "drisl u 0 h" "drisl u 0 b" "data = enc h @ enc b" using assms(2) parse_frame_iff [OF m] by blast
  obtain h' b' where e: "drisl u 0 h'" "drisl u 0 b'" "data @ rest = enc h' @ enc b'" using assms(3) parse_frame_iff [OF assms(1)] by blast
  have eq: "enc h @ enc b @ rest = enc h' @ enc b'" using d(3) e(3) by simp
  have "in_memory (enc h @ enc b @ rest)" using assms(1) d(3) by simp
  from cbor.prefix_free [OF d(1) e(1) this eq] have "enc b @ rest = enc b' @ []" by simp
  from cbor.prefix_free [OF d(2) e(2) _ this] assms(1) d(3) show ?thesis by simp
qed

text \<open>
  C27. A firehose frame is exactly two DRISL values, the header of an event with \<open>op\<close> 1 and its
  body; so a frame that parses is no longer accepted once any byte is added to it or cut off it.
\<close>

theorem raw_frame_exact:
  assumes "in_memory (data @ rest)" "parse_raw_sync_frame utf8 data = Inr ev"
  shows "(\<exists>hdr tag body. data = enc hdr @ enc body \<and> extract_frame_header hdr = Inr (1, tag) \<and> parse_body tag body = Inr ev) \<and>
    (rest \<noteq> [] \<longrightarrow> (\<exists>e. parse_raw_sync_frame utf8 (data @ rest) = Inl e)) \<and>
    (\<forall>k < length data. \<exists>e. parse_raw_sync_frame utf8 (take k data) = Inl e)"
proof -
  have m: "in_memory data" using assms(1) by simp
  have "\<exists>e. parse_raw_sync_frame utf8 (data @ rest) = Inl e" if "rest \<noteq> []"
    using parse_frame_unique [OF assms] that by (cases "parse_raw_sync_frame utf8 (data @ rest)") auto
  moreover have "\<exists>e. parse_raw_sync_frame utf8 (take k data) = Inl e" if "k < length data" for k
    using parse_frame_unique [of "take k data" "drop k data" utf8 _ ev] m assms(2) that
    by (cases "parse_raw_sync_frame utf8 (take k data)") auto
  ultimately show ?thesis using assms(2) parse_frame_iff [OF m] by blast
qed

text \<open>An \<open>#info\<close> frame.\<close>

definition info_header :: cbor_value where
  "info_header = Map [(lit ''t'', Text (lit ''#info'')), (lit ''op'', Unsigned 1)]"

lemma info_size: "length (enc info_header @ enc (Map [])) < 100"
  by (simp add: info_header_def enc_text_def head_def)

lemma info_frame: "parse_raw_sync_frame (\<lambda>_. True) (enc info_header @ enc (Map [])) = Inr InfoEv"
proof -
  have "drisl (\<lambda>_. True) 0 info_header"
    by (simp add: info_header_def key_lt_spec MAX_DEPTH_def MAX_COLLECTION_LEN_def of_char_def)
  moreover have "drisl (\<lambda>_. True) 0 (Map [])" by (simp add: MAX_DEPTH_def MAX_COLLECTION_LEN_def)
  moreover have "extract_frame_header info_header = Inr (1, lit ''#info'')"
    by (simp add: extract_frame_header_def info_header_def require_int_def require_text_def field_value_def of_char_def)
  moreover have "parse_body (lit ''#info'') (Map []) = Inr InfoEv"
    by (simp add: parse_body_def require_map_def of_char_def)
  moreover have "in_memory (enc info_header @ enc (Map []))" using info_size by simp
  ultimately show ?thesis using parse_frame_iff by blast
qed

theorem raw_frame_exact_witness:
  "\<exists>e. parse_raw_sync_frame (\<lambda>_. True) ((enc info_header @ enc (Map [])) @ [0]) = Inl e"
  using raw_frame_exact [OF _ info_frame, of "[0]"] info_size by (simp del: enc.simps)

section \<open>Known fields are checked, unknown ones ignored\<close>

definition commit_keys :: "string list" where
  "commit_keys = [''repo'', ''rev'', ''seq'', ''time'', ''since'', ''commit'', ''blocks'', ''ops'', ''blobs'', ''prevData'', ''tooBig'', ''rebase'']"

definition known :: "fields \<Rightarrow> fields" where
  "known fs = filter (\<lambda>(k, _). k \<in> set (map lit commit_keys)) fs"

lemma find_filter: "(\<And>x. P x \<Longrightarrow> Q x) \<Longrightarrow> List.find P (filter Q xs) = List.find P xs"
  by (induction xs) auto

lemma field_value_known:
  assumes "key \<in> set commit_keys"
  shows "field_value (known fs) key = field_value fs key"
proof -
  have "List.find (\<lambda>(k, _). k = lit key) (known fs) = List.find (\<lambda>(k, _). k = lit key) fs"
    unfolding known_def by (rule find_filter) (use assms in auto)
  then show ?thesis by (simp add: field_value_def)
qed

lemmas require_defs = require_text_def require_int_def require_bool_def require_bytes_def require_cid_field_def
  optional_cid_def optional_text_def optional_tid_def parse_repo_ops_def parse_blobs_def

lemma parse_commit_known: "parse_commit (Map (known fs)) = parse_commit (Map fs)"
proof -
  have "map (field_value (known fs)) commit_keys = map (field_value fs) commit_keys"
    by (rule map_cong [OF refl field_value_known])
  then show ?thesis by (simp add: commit_keys_def parse_commit_def require_map_def require_defs)
qed

lemma optional_cid_None: "optional_cid fs key = Inr m \<Longrightarrow> m = None \<longleftrightarrow> field_value fs key \<in> {None, Some Null}"
  by (auto simp: optional_cid_def split: option.splits cbor_value.splits)

lemma optional_tid_None: "optional_tid fs key = Inr m \<Longrightarrow> m = None \<longleftrightarrow> field_value fs key \<in> {None, Some Null}"
  by (auto simp: optional_tid_def optional_text_def transpose_opt_def split: option.splits cbor_value.splits)

lemma require_text_Some: "require_text fs key = Inr v \<longleftrightarrow> field_value fs key = Some (Text v)"
  by (auto simp: require_text_def split: option.splits cbor_value.splits)

text \<open>An operation of the frame and what is kept of it.\<close>

definition op_of :: "cbor_value \<Rightarrow> raw_repo_op \<Rightarrow> bool" where
  "op_of item op \<longleftrightarrow> (\<exists>f. item = Map f \<and>
     field_value f ''action'' = Some (Text (op_action op)) \<and> field_value f ''path'' = Some (Text (op_path op)) \<and>
     (op_cid op = None \<longleftrightarrow> field_value f ''cid'' \<in> {None, Some Null}) \<and>
     (op_prev op = None \<longleftrightarrow> field_value f ''prev'' \<in> {None, Some Null}))"

lemma repo_ops_loop_ops:
  "repo_ops_loop items ops = Inr ops' \<Longrightarrow> \<exists>new. ops' = ops @ new \<and> list_all2 op_of items new"
proof (induction items arbitrary: ops)
  case (Cons item items)
  then obtain f act path c prev where f: "item = Map f" "require_text f ''action'' = Inr act" "require_text f ''path'' = Inr path"
    "optional_cid f ''cid'' = Inr c" "optional_cid f ''prev'' = Inr prev"
    "repo_ops_loop items (ops @ [\<lparr>op_action = act, op_path = path, op_cid = c, op_prev = prev\<rparr>]) = Inr ops'"
    by (auto split: cbor_value.splits)
  let ?op = "\<lparr>op_action = act, op_path = path, op_cid = c, op_prev = prev\<rparr>"
  have "op_of item ?op" using f(1-3) optional_cid_None [OF f(4)] optional_cid_None [OF f(5)] by (simp add: op_of_def require_text_Some)
  moreover obtain new where "ops' = (ops @ [?op]) @ new" "list_all2 op_of items new" using Cons.IH [OF f(6)] by blast
  ultimately show ?case by (intro exI [of _ "?op # new"]) simp
qed simp

text \<open>
  C28. What parsing a commit keeps: fields with other names change nothing; an optional link
  of the result is missing only where the frame has no such field or a null, never because the
  field was malformed; and every listed operation is kept, in order.
\<close>

theorem commit_fields_checked:
  assumes "parse_commit (Map fs) = Inr rc"
  shows "parse_commit (Map (known fs)) = Inr rc \<and>
    (rc_prev_data rc = None \<longleftrightarrow> field_value fs ''prevData'' \<in> {None, Some Null}) \<and>
    (rc_since rc = None \<longleftrightarrow> field_value fs ''since'' \<in> {None, Some Null}) \<and>
    (case field_value fs ''ops'' of
       None \<Rightarrow> rc_ops rc = []
     | Some v \<Rightarrow> \<exists>items. v = Array items \<and> list_all2 op_of items (rc_ops rc))"
proof -
  obtain since ops prev where p: "optional_tid fs ''since'' = Inr since" "parse_repo_ops fs = Inr ops"
    "optional_cid fs ''prevData'' = Inr prev" "rc_since rc = since" "rc_ops rc = ops" "rc_prev_data rc = prev"
    using assms by (auto simp: parse_commit_def require_map_def)
  have "case field_value fs ''ops'' of None \<Rightarrow> ops = [] | Some v \<Rightarrow> \<exists>items. v = Array items \<and> list_all2 op_of items ops"
    using p(2) repo_ops_loop_ops [where ops = "[]"] by (force simp: parse_repo_ops_def split: option.splits cbor_value.splits)
  then show ?thesis
    using assms parse_commit_known optional_tid_None [OF p(1)] optional_cid_None [OF p(3)] p(4-6) by (simp split: option.splits)
qed

definition sample_fields :: fields where
  "sample_fields = [(lit ''ops'', Array [Map [(lit ''path'', Text (lit ''a/b'')), (lit ''action'', Text (lit ''delete''))]]), (lit ''rev'', Text (tid_fmt (Tid 7))),
     (lit ''seq'', Unsigned 1), (lit ''repo'', Text (lit ''did:a:b'')), (lit ''time'', Text []), (lit ''blocks'', Bytes []), (lit ''commit'', CidV cid_zeroed),
     (lit ''rebase'', Bool False), (lit ''tooBig'', Bool False), (lit ''unknown'', Null), (lit ''prevData'', CidV cid_zeroed)]"

theorem commit_fields_checked_witness:
  "\<exists>rc. parse_commit (Map (known sample_fields)) = Inr rc \<and> rc_prev_data rc \<noteq> None"
proof -
  have t: "tid_try_from (tid_fmt (Tid 7)) = Inr (Tid 7)" using tid_fmt_parse [of 7] by simp
  have d: "did_try_from (lit ''did:a:b'') = Inr (Did (small_string (lit ''did:a:b'')))"
  proof -
    have "lit ''did:a:b'' = did_of (lit ''a'') (lit ''b'')" by (simp add: did_of_def of_char_def)
    moreover have "did_validate (did_of (lit ''a'') (lit ''b'')) = Inr ()"
      by (rule did_of_validate) (simp_all add: did_parts_ok_def is_did_ident_char_def ascii_defs of_char_def did_of_def)
    ultimately show ?thesis by (simp add: did_try_from_def del: lit_Cons)
  qed
  have "\<exists>rc. parse_commit (Map sample_fields) = Inr rc"
    using t d by (simp add: parse_commit_def require_map_def require_defs transpose_opt_def parse_did_def sample_fields_def field_value_def of_char_def)
  then obtain rc where rc: "parse_commit (Map sample_fields) = Inr rc" by blast
  from commit_fields_checked [OF this] show ?thesis by (auto simp: sample_fields_def field_value_def of_char_def)
qed

end
