(* ===== verification/Car.thy ===== *)
theory Car
  imports Cbor_Roundtrip
begin

text \<open>
  CAR archives (\<open>src/src/car\<close>): the framing, the header, the reader over bytes in memory
  (\<open>slice.rs\<close>) and the writer (\<open>writer.rs\<close>). A frame is a varint length and that many bytes; the
  varints here are canonical and at most nine bytes long.
\<close>

section \<open>Errors and limits\<close>

datatype io_kind = UnexpectedEof | Interrupted | OtherIo

datatype car_error =
    InvalidHeader string
  | InvalidBlock string
  | CarIo io_kind
  | CarCbor cbor_error

record car_block =
  b_cid :: cid
  b_data :: bytes

definition MAX_HEADER_SIZE :: u64 where
  "MAX_HEADER_SIZE = push_bit 20 1"

definition MAX_BLOCK_SIZE :: u64 where
  "MAX_BLOCK_SIZE = push_bit 20 128"

definition CID_LEN :: nat where
  "CID_LEN = 36"

definition check_header_len :: "u64 \<Rightarrow> car_error + nat" where
  "check_header_len len =
     (if len > MAX_HEADER_SIZE then Inl (InvalidHeader ''header length exceeds maximum'') else Inr (unat len))"

definition check_block_len :: "u64 \<Rightarrow> car_error + nat" where
  "check_block_len len =
     (if len = 0 then Inl (InvalidBlock ''zero-length block'')
      else if len > MAX_BLOCK_SIZE then Inl (InvalidBlock ''block length exceeds maximum'')
      else if len < of_nat CID_LEN then Inl (InvalidBlock ''block too short to contain CID'')
      else Inr (unat len))"

section \<open>Varints\<close>

definition varint_step :: "u64 \<Rightarrow> nat \<Rightarrow> u8 \<Rightarrow> car_error + (bool \<times> u64)" where
  "varint_step v i byte =
     (let v = v OR push_bit (7 * i) (ucast (byte AND 0x7F)) in
      if byte AND 0x80 = 0 then
        if i > 0 \<and> byte = 0 then Inl (InvalidBlock ''non-minimal varint encoding'') else Inr (True, v)
      else if i = 8 then Inl (InvalidBlock ''varint too long'')
      else Inr (False, v))"

fun varint_loop :: "bytes \<Rightarrow> nat \<Rightarrow> u64 \<Rightarrow> car_error + (u64 \<times> nat) option" where
  "varint_loop [] i v = Inr None"
| "varint_loop (byte # bs) i v =
     and_then (varint_step v i byte) (\<lambda>(finished, v).
       if finished then Inr (Some (v, i + 1)) else varint_loop bs (i + 1) v)"

definition varint_from_slice :: "bytes \<Rightarrow> car_error + (u64 \<times> nat) option" where
  "varint_from_slice buf = varint_loop buf 0 0"

section \<open>The header\<close>

fun header_roots :: "cbor_value list \<Rightarrow> cid list \<Rightarrow> car_error + cid list" where
  "header_roots [] cids = Inr cids"
| "header_roots (item # items) cids =
     (case item of
        CidV c \<Rightarrow> header_roots items (cids @ [c])
      | _ \<Rightarrow> Inl (InvalidHeader ''roots must contain CIDs''))"

fun header_entries :: "(str \<times> cbor_value) list \<Rightarrow> u64 option \<Rightarrow> cid list option \<Rightarrow>
    car_error + (u64 option \<times> cid list option)" where
  "header_entries [] version roots = Inr (version, roots)"
| "header_entries ((key, val) # entries) version roots =
     (if key = lit ''version'' then
        (case val of
           Unsigned v \<Rightarrow> header_entries entries (Some v) roots
         | _ \<Rightarrow> Inl (InvalidHeader ''version must be an integer''))
      else if key = lit ''roots'' then
        (case val of
           Array items \<Rightarrow> and_then (header_roots items []) (\<lambda>cids. header_entries entries version (Some cids))
         | _ \<Rightarrow> Inl (InvalidHeader ''roots must be an array''))
      else header_entries entries version roots)"

definition decode_header :: "(bytes \<Rightarrow> bool) \<Rightarrow> bytes \<Rightarrow> car_error + cid list" where
  "decode_header utf8 buf =
     and_then (map_err CarCbor (decode_value utf8 0 (decoder_new buf))) (\<lambda>(val, dec).
       if \<not> decoder_is_empty dec then Inl (InvalidHeader ''trailing data after header CBOR map'')
       else case val of
           Map entries \<Rightarrow>
             and_then (header_entries entries None None) (\<lambda>(version, roots).
               and_then (ok_or (InvalidHeader ''missing version field'') version) (\<lambda>version.
                 if version \<noteq> 1 then Inl (InvalidHeader ''unsupported version, expected 1'')
                 else ok_or (InvalidHeader ''missing roots field'') roots))
         | _ \<Rightarrow> Inl (InvalidHeader ''header must be a CBOR map''))"

section \<open>Reading bytes in memory\<close>

record slice_reader =
  sr_rest :: bytes
  sr_roots :: "cid list"

definition split_at_checked :: "nat \<Rightarrow> bytes \<Rightarrow> (bytes \<times> bytes) option" where
  "split_at_checked n bs = (if n \<le> length bs then Some (take n bs, drop n bs) else None)"

definition slice_new :: "(bytes \<Rightarrow> bool) \<Rightarrow> bytes \<Rightarrow> car_error + slice_reader" where
  "slice_new utf8 car =
     and_then (varint_from_slice car) (\<lambda>m. case m of
         None \<Rightarrow> if car = [] then Inl (InvalidHeader ''unexpected EOF reading varint'')
                  else Inl (InvalidBlock ''truncated varint'')
       | Some (len, pre) \<Rightarrow>
           and_then (check_header_len len) (\<lambda>len.
             case split_at_checked len (drop pre car) of
               None \<Rightarrow> Inl (InvalidHeader ''truncated header'')
             | Some (header, rest) \<Rightarrow>
                 and_then (decode_header utf8 header) (\<lambda>roots. Inr \<lparr>sr_rest = rest, sr_roots = roots\<rparr>)))"

text \<open>The length prefix of a block, with the two-byte fast path.\<close>

definition block_prefix :: "bytes \<Rightarrow> car_error + (u64 \<times> nat)" where
  "block_prefix buf =
     (let slow = and_then (varint_from_slice buf) (\<lambda>m. ok_or (InvalidBlock ''truncated varint'') m) in
      case buf of
        b0 # rest \<Rightarrow>
          if b0 < 0x80 then Inr (ucast b0, 1)
          else (case rest of
              b1 # _ \<Rightarrow> if b1 < 0x80 \<and> b1 \<noteq> 0 then Inr (ucast (b0 AND 0x7f) OR push_bit 7 (ucast b1), 2) else slow
            | [] \<Rightarrow> slow)
      | [] \<Rightarrow> slow)"

definition split_block :: "bytes \<Rightarrow> car_error + (car_block \<times> bytes)" where
  "split_block buf =
     and_then (block_prefix buf) (\<lambda>(len, pre).
       and_then (check_block_len len) (\<lambda>len.
         if pre > length buf then Inl (InvalidBlock ''truncated block data'')
         else let frame = drop pre buf in
           if CID_LEN > length frame then Inl (InvalidBlock ''truncated block data'')
           else and_then (map_err CarCbor (cid_from_bytes (take CID_LEN frame))) (\<lambda>cid.
             case split_at_checked len frame of
               None \<Rightarrow> Inl (InvalidBlock ''truncated block data'')
             | Some (block, rest) \<Rightarrow> Inr (\<lparr>b_cid = cid, b_data = drop CID_LEN block\<rparr>, rest))))"

definition slice_next :: "slice_reader \<Rightarrow> (car_error + car_block) option \<times> slice_reader" where
  "slice_next r =
     (if sr_rest r = [] then (None, r)
      else case split_block (sr_rest r) of
          Inl e \<Rightarrow> (Some (Inl e), r\<lparr>sr_rest := []\<rparr>)
        | Inr (block, rest) \<Rightarrow> (Some (Inr block), r\<lparr>sr_rest := rest\<rparr>))"

lemma split_block_shorter:
  assumes "split_block buf = Inr (b, rest)"
  shows "length rest < length buf"
proof -
  obtain len pre where "block_prefix buf = Inr (len, pre)" "rest = drop (unat len) (drop pre buf)" "CID_LEN \<le> unat len" "unat len \<le> length (drop pre buf)"
    using assms
    by (fastforce simp: split_block_def split_at_checked_def check_block_len_def Let_def CID_LEN_def word_less_nat_alt
        split: if_splits)
  then show ?thesis by (auto simp: CID_LEN_def)
qed

text \<open>The \<open>for\<close> loop of \<open>read_slice\<close>.\<close>

function read_blocks :: "slice_reader \<Rightarrow> car_block list \<Rightarrow> car_error + car_block list" where
  "read_blocks r blocks =
     (case slice_next r of
        (None, _) \<Rightarrow> Inr blocks
      | (Some (Inl e), _) \<Rightarrow> Inl e
      | (Some (Inr b), r) \<Rightarrow> read_blocks r (blocks @ [b]))"
  by pat_completeness auto
termination read_blocks
  by (relation "measure (\<lambda>(r, _). length (sr_rest r))")
    (auto simp: slice_next_def dest: split_block_shorter split: if_splits sum.splits prod.splits)

declare read_blocks.simps [simp del]

definition car_read_slice :: "(bytes \<Rightarrow> bool) \<Rightarrow> bytes \<Rightarrow> car_error + (cid list \<times> car_block list)" where
  "car_read_slice utf8 car =
     and_then (slice_new utf8 car) (\<lambda>reader.
       and_then (read_blocks reader []) (\<lambda>blocks. Inr (sr_roots reader, blocks)))"

section \<open>Writing\<close>

function encode_varint_buf :: "u64 \<Rightarrow> bytes \<Rightarrow> nat \<Rightarrow> nat \<times> bytes" where
  "encode_varint_buf v buf i =
     (let byte = ucast (v AND 0x7F) :: u8;
          v = drop_bit 7 v;
          byte = (if v \<noteq> 0 then byte OR 0x80 else byte);
          buf = buf[i := byte];
          i = i + 1
      in if v = 0 then (i, buf) else encode_varint_buf v buf i)"
  by pat_completeness auto
termination encode_varint_buf
proof (relation "measure (\<lambda>(v, _, _). unat v)", simp, clarsimp)
  fix v :: u64
  assume "drop_bit 7 v \<noteq> 0"
  moreover have "unat (drop_bit 7 v) = unat v div 128"
    unfolding unat_drop_bit_eq by (simp add: drop_bit_eq_div)
  ultimately show "unat (drop_bit 7 v) < unat v"
    by (metis div_less_dividend div_0 gr_zeroI one_less_numeral_iff semiring_norm(76) unat_0_iff
        zero_less_iff_neq_zero)
qed

declare encode_varint_buf.simps [simp del]

definition write_varint :: "nat \<Rightarrow> bytes \<Rightarrow> bytes" where
  "write_varint n w = (let (vlen, vbuf) = encode_varint_buf (of_nat n) (replicate 10 0) 0 in w @ take vlen vbuf)"

fun encode_cids :: "bytes \<Rightarrow> cid list \<Rightarrow> cbor_error + bytes" where
  "encode_cids w [] = Inr w"
| "encode_cids w (c # cs) = and_then (encode_cid w c) (\<lambda>w. encode_cids w cs)"

definition writer_new :: "bytes \<Rightarrow> cid list \<Rightarrow> car_error + bytes" where
  "writer_new w roots =
     and_then (map_err CarCbor (encode_text_map [] [lit ''roots'', lit ''version''] (\<lambda>enc key.
         if key = lit ''roots'' then
           and_then (encode_array_header enc (length roots)) (\<lambda>enc. encode_cids enc roots)
         else if key = lit ''version'' then encode_u64 enc 1
         else Inr enc))) (\<lambda>header_buf.
       Inr (write_varint (length header_buf) w @ header_buf))"

definition write_block :: "car_block \<Rightarrow> bytes \<Rightarrow> bytes" where
  "write_block b w =
     (let cid_bytes = cid_to_bytes (b_cid b); block_len = length cid_bytes + length (b_data b) in
      write_varint block_len w @ cid_bytes @ b_data b)"

definition write_all :: "cid list \<Rightarrow> car_block list \<Rightarrow> car_error + bytes" where
  "write_all roots blocks = and_then (writer_new [] roots) (\<lambda>w. Inr (fold write_block blocks w))"

end
