(* ===== verification/Repo_Commit.thy ===== *)
theory Repo_Commit
  imports Car Mst_Node Syntax_Ids Syntax_Tid
begin

text \<open>
  Signed commits (\<open>src/src/repo/commit.rs\<close>): the DRISL block of a commit in both directions, and
  the bytes its signature covers. The keys of \<open>src/src/crypto\<close> are parameters: signing is a
  function from content to a signature or an error, verifying one from content and signature.
\<close>

section \<open>Errors\<close>

datatype crypto_error = InvalidKeyErr string | InvalidSignature string | SigningFailed string

datatype repo_error =
    RecordExists str
  | RecordNotFound str
  | CommitError string
  | NoCommit
  | StoreNotEmpty
  | MissingBlock cid
  | CidMismatch cid
  | RootCount nat
  | RepoCar car_error
  | RepoStorage string
  | RepoMst mst_error
  | InvalidPath str
  | RepoCbor cbor_error
  | Crypto crypto_error

type_synonym signing_key = "bytes \<Rightarrow> crypto_error + bytes"
type_synonym verifying_key = "bytes \<Rightarrow> bytes \<Rightarrow> crypto_error + unit"

section \<open>The commit\<close>

record commit =
  c_did :: did
  c_version :: u32
  c_rev :: tid
  c_prev :: "cid option"
  c_data :: cid
  c_sig :: "bytes option"

record signed_commit =
  sc_commit :: commit
  sc_cid :: cid
  sc_bytes :: bytes

definition encode_field :: "commit \<Rightarrow> bytes \<Rightarrow> str \<Rightarrow> cbor_error + bytes" where
  "encode_field c w key =
     (if key = lit ''did'' then encode_text w (did_as_str (c_did c))
      else if key = lit ''rev'' then encode_text w (tid_fmt (c_rev c))
      else if key = lit ''sig'' then
        (case c_sig c of Some s \<Rightarrow> encode_bytes w s | None \<Rightarrow> encode_bytes w (replicate 64 0))
      else if key = lit ''data'' then encode_cid w (c_data c)
      else if key = lit ''prev'' then (case c_prev c of Some c \<Rightarrow> encode_cid w c | None \<Rightarrow> encode_null w)
      else if key = lit ''version'' then encode_u64 w (ucast (c_version c))
      else Inr w)"

definition unsigned_bytes :: "commit \<Rightarrow> repo_error + bytes" where
  "unsigned_bytes c =
     map_err RepoCbor (encode_text_map [] [lit ''did'', lit ''rev'', lit ''data'', lit ''prev'', lit ''version''] (encode_field c))"

definition commit_sign :: "signing_key \<Rightarrow> commit \<Rightarrow> repo_error + commit" where
  "commit_sign sign c =
     and_then (unsigned_bytes c) (\<lambda>unsigned.
       and_then (map_err Crypto (sign unsigned)) (\<lambda>sig. Inr (c\<lparr>c_sig := Some sig\<rparr>)))"

definition commit_verify :: "verifying_key \<Rightarrow> commit \<Rightarrow> repo_error + unit" where
  "commit_verify verify c =
     and_then (ok_or (CommitError ''commit has no signature'') (c_sig c)) (\<lambda>sig.
       and_then (unsigned_bytes c) (\<lambda>unsigned. map_err Crypto (verify unsigned sig)))"

definition to_cbor :: "commit \<Rightarrow> repo_error + bytes" where
  "to_cbor c =
     (if c_sig c = None then Inl (CommitError ''cannot encode an unsigned commit with to_cbor; sign it first'')
      else map_err RepoCbor
        (encode_text_map [] [lit ''did'', lit ''rev'', lit ''sig'', lit ''data'', lit ''prev'', lit ''version''] (encode_field c)))"

definition create_signed :: "compress_fn \<Rightarrow> signing_key \<Rightarrow> did \<Rightarrow> tid \<Rightarrow> cid \<Rightarrow> repo_error + signed_commit" where
  "create_signed compress sign did rv data =
     and_then (commit_sign sign \<lparr>c_did = did, c_version = 3, c_rev = rv, c_prev = None, c_data = data, c_sig = None\<rparr>) (\<lambda>c.
       and_then (to_cbor c) (\<lambda>bs. Inr \<lparr>sc_commit = c, sc_cid = cid_compute compress Drisl bs, sc_bytes = bs\<rparr>))"

section \<open>Decoding\<close>

record commit_fields =
  f_did :: "did option"
  f_version :: "u32 option"
  f_rev :: "tid option"
  f_prev :: "cid option"
  f_data :: "cid option"
  f_sig :: "bytes option"

fun commit_fields_loop :: "(str \<times> cbor_value) list \<Rightarrow> commit_fields \<Rightarrow> repo_error + commit_fields" where
  "commit_fields_loop [] f = Inr f"
| "commit_fields_loop ((key, val) # entries) f =
     and_then
      (if key = lit ''did'' then
         (case val of
            Text s \<Rightarrow> and_then (map_err (\<lambda>_. CommitError ''invalid did'') (did_try_from s)) (\<lambda>d. Inr (f\<lparr>f_did := Some d\<rparr>))
          | _ \<Rightarrow> Inl (CommitError ''did is not a string''))
       else if key = lit ''version'' then
         (case val of
            Unsigned v \<Rightarrow>
              if v \<noteq> 2 \<and> v \<noteq> 3 then Inl (CommitError ''unsupported commit version, expected 2 or 3'')
              else Inr (f\<lparr>f_version := Some (ucast v)\<rparr>)
          | _ \<Rightarrow> Inl (CommitError ''version is not an integer''))
       else if key = lit ''rev'' then
         (case val of
            Text s \<Rightarrow> and_then (map_err (\<lambda>_. CommitError ''invalid rev'') (tid_try_from s)) (\<lambda>t. Inr (f\<lparr>f_rev := Some t\<rparr>))
          | _ \<Rightarrow> Inl (CommitError ''rev is not a string''))
       else if key = lit ''data'' then
         (case val of CidV c \<Rightarrow> Inr (f\<lparr>f_data := Some c\<rparr>) | _ \<Rightarrow> Inl (CommitError ''data is not a CID''))
       else if key = lit ''prev'' then
         (case val of
            CidV c \<Rightarrow> Inr (f\<lparr>f_prev := Some c\<rparr>)
          | Null \<Rightarrow> Inr f
          | _ \<Rightarrow> Inl (CommitError ''prev is not a CID or null''))
       else if key = lit ''sig'' then
         (case val of
            Bytes b \<Rightarrow>
              if length b \<noteq> 64 then Inl (CommitError ''sig must be 64 bytes'') else Inr (f\<lparr>f_sig := Some b\<rparr>)
          | _ \<Rightarrow> Inl (CommitError ''sig is not bytes''))
       else Inr f)
      (commit_fields_loop entries)"

definition no_fields :: commit_fields where
  "no_fields = \<lparr>f_did = None, f_version = None, f_rev = None, f_prev = None, f_data = None, f_sig = None\<rparr>"

definition from_cbor :: "(bytes \<Rightarrow> bool) \<Rightarrow> bytes \<Rightarrow> repo_error + commit" where
  "from_cbor utf8 data =
     and_then (map_err RepoCbor (decode utf8 data)) (\<lambda>val.
       case val of
         Map entries \<Rightarrow>
           and_then (commit_fields_loop entries no_fields) (\<lambda>f.
             and_then (ok_or (CommitError ''missing version'') (f_version f)) (\<lambda>ver.
             and_then (ok_or (CommitError ''missing did'') (f_did f)) (\<lambda>did.
             and_then (ok_or (CommitError ''missing data'') (f_data f)) (\<lambda>data_cid.
               if ver = 3 \<and> f_rev f = None then Inl (CommitError ''v3 commit missing required rev'')
               else if ver = 3 \<and> f_sig f = None then Inl (CommitError ''v3 commit missing required sig'')
               else Inr \<lparr>c_did = did, c_version = ver, c_rev = (case f_rev f of Some t \<Rightarrow> t | None \<Rightarrow> Tid 0),
                         c_prev = f_prev f, c_data = data_cid, c_sig = f_sig f\<rparr>))))
       | _ \<Rightarrow> Inl (CommitError ''commit is not a CBOR map''))"

section \<open>The block of a commit\<close>

definition prev_value :: "cid option \<Rightarrow> cbor_value" where
  "prev_value p = (case p of Some c \<Rightarrow> CidV c | None \<Rightarrow> Null)"

definition unsigned_entries :: "commit \<Rightarrow> (str \<times> cbor_value) list" where
  "unsigned_entries c =
     [(lit ''did'', Text (did_as_str (c_did c))), (lit ''rev'', Text (tid_fmt (c_rev c))), (lit ''data'', CidV (c_data c)),
      (lit ''prev'', prev_value (c_prev c)), (lit ''version'', Unsigned (ucast (c_version c)))]"

definition signed_entries :: "commit \<Rightarrow> bytes \<Rightarrow> (str \<times> cbor_value) list" where
  "signed_entries c s =
     [(lit ''did'', Text (did_as_str (c_did c))), (lit ''rev'', Text (tid_fmt (c_rev c))), (lit ''sig'', Bytes s),
      (lit ''data'', CidV (c_data c)), (lit ''prev'', prev_value (c_prev c)), (lit ''version'', Unsigned (ucast (c_version c)))]"

text \<open>The values a commit can hold: the array types and the validated strings of its fields.\<close>

definition commit_ok :: "commit \<Rightarrow> bool" where
  "commit_ok c \<longleftrightarrow> (\<exists>raw. did_try_from raw = Inr (c_did c)) \<and> (c_version c = 2 \<or> c_version c = 3) \<and>
     cid_valid (c_data c) \<and> (\<forall>p. c_prev c = Some p \<longrightarrow> cid_valid p) \<and> (\<forall>s. c_sig c = Some s \<longrightarrow> length s = 64)"

lemma length_tid_fmt [simp]: "length (tid_fmt t) = 13"
  by (simp add: tid_fmt_digits)

lemma did_ok_parts:
  assumes "did_try_from raw = Inr d"
  shows "did_as_str d = raw" "did_try_from (did_as_str d) = Inr d" "length (did_as_str d) \<le> 2048" "list_all is_ascii (did_as_str d)"
proof -
  have v: "did_validate raw = Inr ()" "d = Did (small_string raw)" using assms by (auto simp: did_try_from_def)
  obtain m i where p: "raw = did_of m i" "did_parts_ok m i" "length raw \<le> 2048" using did_validate_parts [OF v(1)] by blast
  show s: "did_as_str d = raw" unfolding v(2) p(1) using did_of_utf8 [OF p(2)] by simp
  show "did_try_from (did_as_str d) = Inr d" "length (did_as_str d) \<le> 2048" using s assms p(3) by simp_all
  show "list_all is_ascii (did_as_str d)"
    unfolding s p(1) using p(2) did_char_ascii lowercase_ascii
    by (auto simp: did_of_def did_parts_ok_def list_all_iff is_ascii_def of_char_def)
qed

lemma encode_text_enc: "length s < 2 ^ 64 \<Longrightarrow> encode_text w s = Inr (w @ enc (Text s))"
  using put_text_enc [of s w] by (simp add: encode_text_def write_type_value_put_head put_text_def)

lemma encode_bytes_enc: "length s < 2 ^ 64 \<Longrightarrow> encode_bytes w s = Inr (w @ enc (Bytes s))"
  by (simp add: encode_bytes_def write_type_value_put_head put_head_head unat_of_nat)

lemma encode_field_unsigned:
  assumes "e \<in> set (unsigned_entries c)" "length (did_as_str (c_did c)) < 2 ^ 64"
  shows "encode_field c w (fst e) = Inr (w @ enc (snd e))"
proof -
  consider "e = (lit ''did'', Text (did_as_str (c_did c)))" | "e = (lit ''rev'', Text (tid_fmt (c_rev c)))"
    | "e = (lit ''data'', CidV (c_data c))" | "e = (lit ''prev'', prev_value (c_prev c))"
    | "e = (lit ''version'', Unsigned (ucast (c_version c)))"
    using assms(1) by (auto simp: unsigned_entries_def)
  then show ?thesis
    by cases (auto simp: encode_field_def encode_text_enc [OF assms(2)] encode_text_enc encode_cid_def encode_null_def
        encode_u64_def write_type_value_put_head put_head_head prev_value_def of_char_def split: option.split)
qed

lemma encode_field_sig:
  "c_sig c = Some s \<Longrightarrow> length s < 2 ^ 64 \<Longrightarrow> encode_field c w (lit ''sig'') = Inr (w @ enc (Bytes s))"
  by (simp add: encode_field_def encode_bytes_enc of_char_def del: enc.simps)

lemma unsigned_bytes_enc:
  assumes "length (did_as_str (c_did c)) < 2 ^ 64"
  shows "unsigned_bytes c = Inr (enc (Map (unsigned_entries c)))"
proof -
  have "encode_text_map [] [lit ''did'', lit ''rev'', lit ''data'', lit ''prev'', lit ''version''] (encode_field c) =
      Inr ([] @ enc (Map (unsigned_entries c)))"
  proof (rule encode_text_map_spec)
    show "sort_by cbor_key_cmp [lit ''did'', lit ''rev'', lit ''data'', lit ''prev'', lit ''version''] = map fst (unsigned_entries c)"
      by (simp add: unsigned_entries_def cbor_key_cmp_spec of_char_def)
  qed (use encode_field_unsigned assms in \<open>auto simp: unsigned_entries_def\<close>)
  then show ?thesis by (simp add: unsigned_bytes_def del: enc.simps)
qed

lemma to_cbor_enc:
  assumes "length (did_as_str (c_did c)) < 2 ^ 64" "c_sig c = Some s" "length s < 2 ^ 64"
  shows "to_cbor c = Inr (enc (Map (signed_entries c s)))"
proof -
  have f: "encode_field c w (fst e) = Inr (w @ enc (snd e))" if "e \<in> set (signed_entries c s)" for e w
    using that encode_field_unsigned [OF _ assms(1)] encode_field_sig [OF assms(2,3)]
    by (auto simp: signed_entries_def unsigned_entries_def simp del: enc.simps lit_Cons)
  have "encode_text_map [] [lit ''did'', lit ''rev'', lit ''sig'', lit ''data'', lit ''prev'', lit ''version''] (encode_field c) =
      Inr ([] @ enc (Map (signed_entries c s)))"
  proof (rule encode_text_map_spec [OF _ f])
    show "sort_by cbor_key_cmp [lit ''did'', lit ''rev'', lit ''sig'', lit ''data'', lit ''prev'', lit ''version''] = map fst (signed_entries c s)"
      by (simp add: signed_entries_def cbor_key_cmp_spec of_char_def)
  qed (auto simp: signed_entries_def)
  then show ?thesis using assms(2) by (simp add: to_cbor_def del: enc.simps)
qed

text \<open>A decoder's text check that accepts ASCII.\<close>

definition accepts_ascii :: "(bytes \<Rightarrow> bool) \<Rightarrow> bool" where
  "accepts_ascii utf8 \<longleftrightarrow> (\<forall>s. list_all is_ascii s \<longrightarrow> utf8 s)"

lemma accepts_asciiD: "accepts_ascii utf8 \<Longrightarrow> \<forall>b \<in> set s. is_ascii b \<Longrightarrow> utf8 s"
  by (auto simp: accepts_ascii_def list_all_iff)

lemma tid_fmt_ascii: "\<forall>b \<in> set (tid_fmt t). is_ascii b"
proof
  fix b assume "b \<in> set (tid_fmt t)"
  then obtain d where d: "d < 32" "b = ALPHABET ! d" using digits32_less by (auto simp: tid_fmt_digits)
  then show "is_ascii b" using unat_alphabet [OF d(1)] by (simp add: is_ascii_def word_less_nat_alt)
qed

lemma commit_okD:
  assumes "commit_ok c"
  shows "did_try_from (did_as_str (c_did c)) = Inr (c_did c)" "length (did_as_str (c_did c)) \<le> 2048"
    "\<forall>b \<in> set (did_as_str (c_did c)). is_ascii b" "c_version c = 2 \<or> c_version c = 3" "cid_valid (c_data c)"
    "c_prev c = Some p \<Longrightarrow> cid_valid p" "c_sig c = Some s \<Longrightarrow> length s = 64"
  using assms did_ok_parts by (auto simp: commit_ok_def list_all_iff)

lemma prev_value_ok: "commit_ok c \<Longrightarrow> drisl utf8 1 (prev_value (c_prev c)) \<and> length (enc (prev_value (c_prev c))) \<le> 41"
  using commit_okD(6) [of c] by (auto simp: prev_value_def MAX_DEPTH_def tag42_def split: option.split)

lemma length_enc_text: "length (enc_text s) \<le> 9 + length s"
  using length_head_le(1) [of 3 "length s"] by (simp add: enc_text_def)

lemma entries_decode:
  assumes "commit_ok c" "accepts_ascii utf8" "es = unsigned_entries c \<or> (\<exists>s. length s = 64 \<and> es = signed_entries c s)"
  shows "decode utf8 (enc (Map es)) = Inr (Map es)"
proof -
  note ok = commit_okD [OF assms(1)]
  have ver: "ucast (c_version c) \<le> (0x7fffffffffffffff :: u64)" using ok(4) by auto
  have val: "drisl utf8 1 (snd e) \<and> length (enc (snd e)) \<le> 2100 \<and> (\<forall>b \<in> set (fst e). is_ascii b) \<and> length (fst e) < 10" if e: "e \<in> set es" for e
  proof -
    have u: "utf8 (did_as_str (c_did c))" "utf8 (tid_fmt (c_rev c))" using accepts_asciiD [OF assms(2)] ok(3) tid_fmt_ascii by blast+
    consider "e = (lit ''did'', Text (did_as_str (c_did c)))" | "e = (lit ''rev'', Text (tid_fmt (c_rev c)))"
      | s where "e = (lit ''sig'', Bytes s)" "length s = 64" | "e = (lit ''data'', CidV (c_data c))"
      | "e = (lit ''prev'', prev_value (c_prev c))" | "e = (lit ''version'', Unsigned (ucast (c_version c)))"
      using e assms(3) by (auto simp: unsigned_entries_def signed_entries_def simp del: lit_Cons)
    then show ?thesis
    proof cases
      case 1
      then show ?thesis using u(1) ok(2) length_enc_text [of "did_as_str (c_did c)"] by (simp add: MAX_DEPTH_def is_ascii_def of_char_def)
    next
      case 2
      then show ?thesis using u(2) length_enc_text [of "tid_fmt (c_rev c)"] by (simp add: MAX_DEPTH_def is_ascii_def of_char_def)
    next
      case (3 s)
      then show ?thesis using length_head_le(1) [of 2 64] by (simp add: MAX_DEPTH_def is_ascii_def of_char_def)
    next
      case 4
      then show ?thesis using ok(5) by (simp add: MAX_DEPTH_def tag42_def is_ascii_def of_char_def)
    next
      case 5
      then show ?thesis using prev_value_ok [OF assms(1), of utf8] by (simp add: is_ascii_def of_char_def)
    next
      case 6
      have "length (head 0 (unat (ucast (c_version c) :: u64))) \<le> 9" by (rule length_head_le)
      then show ?thesis using 6 ver by (simp add: MAX_DEPTH_def is_ascii_def of_char_def del: unsigned_ucast_eq)
    qed
  qed
  have keys: "keys_sorted es" using assms(3)
    by (auto simp: unsigned_entries_def signed_entries_def key_lt_spec of_char_def)
  have len: "length es \<le> 6" using assms(3) by (auto simp: unsigned_entries_def signed_entries_def)
  have d: "drisl utf8 0 (Map es)"
    using val accepts_asciiD [OF assms(2)] keys len by (fastforce simp: MAX_DEPTH_def MAX_COLLECTION_LEN_def)
  have "length (enc_text (fst e) @ enc (snd e)) \<le> 2200" if "e \<in> set es" for e
    using val [OF that] length_enc_text [of "fst e"] by simp
  then have "length (concat (map enc_entry es)) \<le> 2200 * length es"
    by (induction es) (fastforce simp del: length_append simp: length_append)+
  then have "length (enc (Map es)) \<le> 9 + 2200 * 6" using len length_head_le(1) [of 5 "length es"] by simp
  then have "in_memory (enc (Map es))" by simp
  then show ?thesis using d decode_iff by blast
qed

lemma from_cbor_signed:
  assumes "commit_ok c" "c_sig c = Some s" "accepts_ascii utf8"
  shows "from_cbor utf8 (enc (Map (signed_entries c s))) = Inr c"
proof -
  note ok = commit_okD [OF assms(1)]
  have s: "length s = 64" using ok(7) assms(2) by blast
  have d: "decode utf8 (enc (Map (signed_entries c s))) = Inr (Map (signed_entries c s))"
    using entries_decode [OF assms(1,3)] s by blast
  have t: "tid_try_from (tid_fmt (c_rev c)) = Inr (c_rev c)" using tid_fmt_parse [of "as_u64 (c_rev c)"] by (cases "c_rev c") simp
  have v: "(ucast (ucast (c_version c) :: u64) :: u32) = c_version c" "(ucast (c_version c) :: u64) = 2 \<or> (ucast (c_version c) :: u64) = 3"
    using ok(4) by auto
  show ?thesis
    unfolding from_cbor_def d using s ok(1,4) t v assms(2)
    by (cases "c_prev c") (auto simp: signed_entries_def no_fields_def prev_value_def ok_or_def of_char_def)
qed

text \<open>
  C30. A signed commit survives its block: encoding succeeds and decoding the block gives the
  same commit back, for every commit whose fields are well formed; \<open>utf8\<close> is the decoder's text
  check, assumed to accept ASCII.
\<close>

theorem commit_roundtrip:
  assumes "commit_ok c" "c_sig c = Some s" "accepts_ascii utf8"
  shows "\<exists>bs. to_cbor c = Inr bs \<and> from_cbor utf8 bs = Inr c"
proof -
  have "length (did_as_str (c_did c)) < 2 ^ 64" "length s < 2 ^ 64" using commit_okD(2,7) [OF assms(1)] assms(2) by fastforce+
  then show ?thesis using to_cbor_enc [OF _ assms(2)] from_cbor_signed [OF assms] by blast
qed

definition sample_did :: did where
  "sample_did = Did (small_string (lit ''did:a:b''))"

definition sample_commit :: commit where
  "sample_commit = \<lparr>c_did = sample_did, c_version = 3, c_rev = Tid 7, c_prev = None, c_data = cid_zeroed, c_sig = Some (replicate 64 1)\<rparr>"

lemma sample_did_ok: "did_try_from (lit ''did:a:b'') = Inr sample_did"
proof -
  have "lit ''did:a:b'' = did_of (lit ''a'') (lit ''b'')" by (simp add: did_of_def of_char_def)
  moreover have "did_validate (did_of (lit ''a'') (lit ''b'')) = Inr ()"
    by (rule did_of_validate) (simp_all add: did_parts_ok_def is_did_ident_char_def ascii_defs of_char_def did_of_def)
  ultimately show ?thesis by (simp add: did_try_from_def sample_did_def del: lit_Cons)
qed

lemma sample_commit_ok: "commit_ok sample_commit"
  using sample_did_ok by (auto simp: commit_ok_def sample_commit_def cid_valid_def cid_zeroed_def)

theorem commit_roundtrip_witness:
  "\<exists>bs. to_cbor sample_commit = Inr bs \<and> from_cbor (\<lambda>_. True) bs = Inr sample_commit"
  by (rule commit_roundtrip [OF sample_commit_ok]) (simp_all add: sample_commit_def accepts_ascii_def)

lemma unsigned_entries_inject:
  assumes "unsigned_entries c = unsigned_entries d"
  shows "did_as_str (c_did c) = did_as_str (c_did d)" "tid_fmt (c_rev c) = tid_fmt (c_rev d)" "c_data c = c_data d"
    "prev_value (c_prev c) = prev_value (c_prev d)" "(ucast (c_version c) :: u64) = ucast (c_version d)"
proof -
  have *: "map snd (unsigned_entries c) = map snd (unsigned_entries d)" using assms by simp
  show "did_as_str (c_did c) = did_as_str (c_did d)" "tid_fmt (c_rev c) = tid_fmt (c_rev d)" "c_data c = c_data d"
    "prev_value (c_prev c) = prev_value (c_prev d)" "(ucast (c_version c) :: u64) = ucast (c_version d)"
    using * unfolding unsigned_entries_def by simp_all
qed

text \<open>
  C14. What a commit signature covers: two well-formed commits with the same unsigned bytes agree
  in every field but the signature, so a signature that verifies for one commit vouches for its
  DID, version, revision, previous commit and tree root together.
\<close>

theorem commit_signature_binds:
  assumes "commit_ok c" "commit_ok d" "unsigned_bytes c = unsigned_bytes d"
  shows "c\<lparr>c_sig := None\<rparr> = d\<lparr>c_sig := None\<rparr>"
proof -
  have u: "accepts_ascii (\<lambda>_. True)" by (simp add: accepts_ascii_def)
  have "length (did_as_str (c_did x)) < 2 ^ 64" if "commit_ok x" for x using commit_okD(2) [OF that] by simp
  then have "enc (Map (unsigned_entries c)) = enc (Map (unsigned_entries d))"
    using assms by (simp add: unsigned_bytes_enc del: enc.simps)
  then have e: "unsigned_entries c = unsigned_entries d"
    using entries_decode [OF assms(1) u] entries_decode [OF assms(2) u] by (metis Inr_inject cbor_value.inject(9))
  have v: "c_version c = c_version d" if "(ucast (c_version c) :: u64) = ucast (c_version d)"
    using that commit_okD(4) [OF assms(1)] commit_okD(4) [OF assms(2)] by auto
  have t: "c_rev c = c_rev d" if "tid_fmt (c_rev c) = tid_fmt (c_rev d)"
    using that tid_fmt_parse [of "as_u64 (c_rev c)"] tid_fmt_parse [of "as_u64 (c_rev d)"] by (cases "c_rev c"; cases "c_rev d") simp
  have d: "c_did c = c_did d" if "did_as_str (c_did c) = did_as_str (c_did d)"
    using that commit_okD(1) [OF assms(1)] commit_okD(1) [OF assms(2)] by (metis Inr_inject)
  note unsigned_entries_inject [OF e]
  moreover have "c_prev c = c_prev d" if "prev_value (c_prev c) = prev_value (c_prev d)"
    using that by (auto simp: prev_value_def split: option.splits)
  ultimately show ?thesis using v t d by simp
qed

theorem commit_signature_binds_witness:
  "sample_commit\<lparr>c_sig := None\<rparr> = (sample_commit\<lparr>c_sig := Some (replicate 64 2)\<rparr>)\<lparr>c_sig := None\<rparr>"
proof (rule commit_signature_binds [OF sample_commit_ok])
  show "commit_ok (sample_commit\<lparr>c_sig := Some (replicate 64 2)\<rparr>)" using sample_commit_ok by (simp add: commit_ok_def)
  show "unsigned_bytes sample_commit = unsigned_bytes (sample_commit\<lparr>c_sig := Some (replicate 64 2)\<rparr>)"
    using commit_okD(2) [OF sample_commit_ok] by (simp add: unsigned_bytes_enc unsigned_entries_def del: enc.simps lit_Cons)
qed

end
