(* ===== verification/Sync_State.thy ===== *)
theory Sync_State
  imports Repo_Commit
begin

text \<open>
  The state a verifier keeps per repository and its errors (\<open>src/src/sync/state.rs\<close>,
  \<open>src/src/sync/error.rs\<close>). A store is a state its operations return updated; the trait is a
  record of operations, its contract the locale \<open>state_store\<close>. The texts an error formats from
  values it also holds, and the sources of errors of unmodelled services, are strings.
\<close>

section \<open>Chain and hosting state\<close>

record chain_state =
  ch_rev :: str
  ch_data :: cid

record hosting_state =
  ho_active :: bool
  ho_status :: "str option"
  ho_seq :: int
  ho_time :: str

definition is_active :: "hosting_state option \<Rightarrow> bool" where
  "is_active s = (case s of None \<Rightarrow> True | Some s \<Rightarrow> ho_active s)"

datatype state_store_operation = LoadChain | SaveChain | LoadHosting | SaveHosting | DeleteState

datatype state_store_error = StoreOperation did state_store_operation string

section \<open>The errors of the verifier\<close>

datatype verifier_error =
    FutureRev did str
  | ChainBreak did str "cid option" "cid option"
  | FieldMismatch did "str option" string
  | SignatureInvalid did str string
  | OpCidMismatch did str str "cid option" "cid option"
  | DuplicatePath did str str
  | LegacyCommit did str "str option" "cid option"
  | OversizedCommit did "str option" string nat nat
  | RepoInactive did "str option" "int option" "str option"
  | ResyncRequired did string
  | ResyncRateLimited did
  | BufferOverflow did nat nat
  | RevRegression did str str
  | ResyncFailed did verifier_error
  | Inversion did str string
  | StateStoreErr state_store_error
  | CarErr "did option" "str option" car_error
  | CborErr "did option" "str option" cbor_error
  | RepoErr "did option" "str option" repo_error
  | IdentityErr did string

section \<open>Stores\<close>

record 's state_store_ops =
  load_chain :: "'s \<Rightarrow> did \<Rightarrow> state_store_error + chain_state option"
  save_chain_op :: "'s \<Rightarrow> did \<Rightarrow> chain_state \<Rightarrow> (state_store_error + unit) \<times> 's"
  load_hosting :: "'s \<Rightarrow> did \<Rightarrow> state_store_error + hosting_state option"
  save_hosting :: "'s \<Rightarrow> did \<Rightarrow> hosting_state \<Rightarrow> (state_store_error + unit) \<times> 's"
  delete_state :: "'s \<Rightarrow> did \<Rightarrow> (state_store_error + unit) \<times> 's"

record mem_state_store =
  ms_chains :: "did \<rightharpoonup> chain_state"
  ms_hosting :: "did \<rightharpoonup> hosting_state"

definition mem_state_new :: mem_state_store where
  "mem_state_new = \<lparr>ms_chains = Map.empty, ms_hosting = Map.empty\<rparr>"

definition mem_load_chain :: "mem_state_store \<Rightarrow> did \<Rightarrow> state_store_error + chain_state option" where
  "mem_load_chain s d = Inr (ms_chains s d)"

definition mem_save_chain :: "mem_state_store \<Rightarrow> did \<Rightarrow> chain_state \<Rightarrow> (state_store_error + unit) \<times> mem_state_store" where
  "mem_save_chain s d st = (Inr (), s\<lparr>ms_chains := (ms_chains s)(d \<mapsto> st)\<rparr>)"

definition mem_load_hosting :: "mem_state_store \<Rightarrow> did \<Rightarrow> state_store_error + hosting_state option" where
  "mem_load_hosting s d = Inr (ms_hosting s d)"

definition mem_save_hosting :: "mem_state_store \<Rightarrow> did \<Rightarrow> hosting_state \<Rightarrow> (state_store_error + unit) \<times> mem_state_store" where
  "mem_save_hosting s d st = (Inr (), s\<lparr>ms_hosting := (ms_hosting s)(d \<mapsto> st)\<rparr>)"

definition mem_delete :: "mem_state_store \<Rightarrow> did \<Rightarrow> (state_store_error + unit) \<times> mem_state_store" where
  "mem_delete s d = (Inr (), s\<lparr>ms_chains := (ms_chains s)(d := None), ms_hosting := (ms_hosting s)(d := None)\<rparr>)"

definition mem_state_ops :: "mem_state_store state_store_ops" where
  "mem_state_ops = \<lparr>load_chain = mem_load_chain, save_chain_op = mem_save_chain, load_hosting = mem_load_hosting,
     save_hosting = mem_save_hosting, delete_state = mem_delete\<rparr>"

text \<open>
  The contract: \<open>chain_of\<close> and \<open>host_of\<close> are what a store holds. A load that succeeds returns it; a
  save that succeeds changes the named entry alone; a save that fails may or may not have
  happened.
\<close>

locale state_store =
  fixes St :: "'s state_store_ops" and chain_of :: "'s \<Rightarrow> did \<rightharpoonup> chain_state" and host_of :: "'s \<Rightarrow> did \<rightharpoonup> hosting_state"
  assumes load_chain_of: "load_chain St s d = Inr c \<Longrightarrow> c = chain_of s d"
    and save_chain_of: "save_chain_op St s d ch = (r, s') \<Longrightarrow> host_of s' = host_of s \<and>
      (chain_of s' = (chain_of s)(d \<mapsto> ch) \<or> (\<exists>e. r = Inl e) \<and> chain_of s' = chain_of s)"
    and load_host_of: "load_hosting St s d = Inr h \<Longrightarrow> h = host_of s d"
    and save_host_of: "save_hosting St s d ho = (r, s') \<Longrightarrow> chain_of s' = chain_of s \<and>
      (host_of s' = (host_of s)(d \<mapsto> ho) \<or> (\<exists>e. r = Inl e) \<and> host_of s' = host_of s)"

interpretation mem_state: state_store mem_state_ops ms_chains ms_hosting
  by unfold_locales
    (auto simp: mem_state_ops_def mem_load_chain_def mem_save_chain_def mem_load_hosting_def mem_save_hosting_def)

end
