(* ===== verification/Car_Correct.thy ===== *)
theory Car_Correct
  imports Car
begin

text \<open>
  Reading and writing CAR archives: the varints and the block frames are self-delimiting formats,
  so an archive in memory has exactly one reading, and the reader inverts the writer.
\<close>

section \<open>Canonical varints\<close>

lemma unat_eq_of_nat: "unat (w :: 'a::len word) = n \<Longrightarrow> w = of_nat n"
  by auto

lemma leb_unleb: "leb_shape p \<Longrightarrow> (1 < length p \<longrightarrow> last p \<noteq> 0) \<Longrightarrow> leb (unleb p) = p"
proof (induction p rule: leb_shape.induct)
  case (2 b)
  then show ?case by (subst leb.simps) simp
next
  case (3 b c bs)
  have last: "last (c # bs) \<noteq> 0" using "3.prems"(2) by simp
  have ih: "leb (unleb (c # bs)) = c # bs" using "3.IH" "3.prems"(1) last by (simp del: last.simps)
  have pos: "0 < unleb (c # bs)"
  proof -
    have "leb_shape p \<Longrightarrow> last p \<noteq> 0 \<Longrightarrow> 0 < unleb p" for p
    proof (induction p rule: leb_shape.induct)
      case (2 b)
      then have "unat b \<noteq> 0" by (simp add: unat_eq_zero)
      with 2 show ?case by simp
    qed auto
    from this [of "c # bs"] show ?thesis using "3.prems"(1) last by (simp del: last.simps unleb.simps)
  qed
  have "unat b - 128 < 128" using unat_u8_less [of b] by linarith
  then have b: "128 \<le> unat b" "unat b mod 128 + 128 = unat b" using "3.prems"(1) by (auto simp: le_mod_geq)
  let ?n = "unat b mod 128 + 128 * unleb (c # bs)"
  have "\<not> ?n < 128" using pos by linarith
  moreover have "?n mod 128 + 128 = unat b" "?n div 128 = unleb (c # bs)"
    using b(2) by (simp_all del: unleb.simps)
  moreover have "(of_nat (unat b) :: u8) = b" by simp
  ultimately show ?case
    using ih by (subst leb.simps) (simp del: of_nat_add unleb.simps add: unleb.simps(2) [of b])
qed simp

lemma leb_last: "1 < length (leb n) \<Longrightarrow> last (leb n) \<noteq> 0"
proof (induction n rule: leb.induct)
  case (1 n)
  have ge: "\<not> n < 128" using "1.prems" by (subst (asm) leb.simps) (auto split: if_splits)
  have "last (leb (n div 128)) \<noteq> 0"
  proof (cases "n div 128 < 128")
    case True
    then have "leb (n div 128) = [of_nat (n div 128)]" by (subst leb.simps) simp
    moreover have "unat (of_nat (n div 128) :: u8) = n div 128" using True by (simp add: unat_of_nat)
    moreover have "n div 128 \<noteq> 0" using ge by simp
    ultimately show ?thesis by (metis last.simps unat_0)
  next
    case False
    then have "1 < length (leb (n div 128))" by (subst leb.simps) (simp add: Suc_lessI)
    then show ?thesis using "1.IH" ge by blast
  qed
  then show ?case using ge by (subst leb.simps) simp
qed

lemma varint_step_spec:
  assumes "unat v < 2 ^ (7 * i)" "i \<le> 8"
  shows "varint_step v i b =
    (if unat b < 128 then if i > 0 \<and> b = 0 then Inl (InvalidBlock ''non-minimal varint encoding'')
       else Inr (True, of_nat (unat v + 2 ^ (7 * i) * (unat b mod 128)))
     else if i = 8 then Inl (InvalidBlock ''varint too long'')
     else Inr (False, of_nat (unat v + 2 ^ (7 * i) * (unat b mod 128))))"
    and "unat v + 2 ^ (7 * i) * (unat b mod 128) < 2 ^ (7 * (i + 1))"
proof -
  show less: "unat v + 2 ^ (7 * i) * (unat b mod 128) < 2 ^ (7 * (i + 1))"
    using varint_acc_less [OF assms(1), of "unat b mod 128"] by (simp add: add.commute)
  also have "\<dots> \<le> 2 ^ 63" using assms(2) by (intro power_increasing) simp_all
  finally have "unat (v OR push_bit (7 * i) (ucast (b AND 0x7F))) = unat v + 2 ^ (7 * i) * (unat b mod 128)"
    using varint_accumulate [OF assms(1), of b] by simp
  then have "v OR push_bit (7 * i) (ucast (b AND 0x7F)) = of_nat (unat v + 2 ^ (7 * i) * (unat b mod 128))"
    by (rule unat_eq_of_nat)
  then show "varint_step v i b =
    (if unat b < 128 then if i > 0 \<and> b = 0 then Inl (InvalidBlock ''non-minimal varint encoding'')
       else Inr (True, of_nat (unat v + 2 ^ (7 * i) * (unat b mod 128)))
     else if i = 8 then Inl (InvalidBlock ''varint too long'')
     else Inr (False, of_nat (unat v + 2 ^ (7 * i) * (unat b mod 128))))"
    by (simp add: varint_step_def and_128_eq_0 Let_def)
qed

lemma varint_loop_iff:
  assumes "unat v < 2 ^ (7 * i)" "i \<le> 8"
  shows "varint_loop bs i v = Inr (Some (w, k)) \<longleftrightarrow>
    (\<exists>p rest. bs = p @ rest \<and> leb_shape p \<and> (1 < i + length p \<longrightarrow> last p \<noteq> 0) \<and> i + length p \<le> 9 \<and>
       k = i + length p \<and> w = of_nat (unat v + 2 ^ (7 * i) * unleb p))"
  using assms
proof (induction bs arbitrary: i v)
  case Nil
  show ?case by auto
next
  case (Cons b bs)
  let ?v = "unat v + 2 ^ (7 * i) * (unat b mod 128)"
  note st = varint_step_spec [OF Cons.prems, of b]
  have split: "(\<exists>p rest. b # bs = p @ rest \<and> leb_shape p \<and> P p) \<longleftrightarrow> (\<exists>p rest. bs = p @ rest \<and> leb_shape (b # p) \<and> P (b # p))" for P
    by (auto simp: Cons_eq_append_conv)
  have shape: "leb_shape (b # p) \<longleftrightarrow> (if p = [] then unat b < 128 else 128 \<le> unat b \<and> leb_shape p)" for p
    by (cases p) auto
  show ?case
  proof (cases "unat b < 128")
    case True
    have "varint_loop (b # bs) i v = Inr (Some (w, k)) \<longleftrightarrow> \<not> (i > 0 \<and> b = 0) \<and> k = i + 1 \<and> w = of_nat ?v"
      using True st(1) by auto
    then show ?thesis unfolding split shape using True Cons.prems(2) by auto
  next
    case False
    show ?thesis
    proof (cases "i = 8")
      case True
      have "p \<noteq> [] \<Longrightarrow> \<not> 8 + length (b # p) \<le> 9" for p by (cases p) auto
      then have "\<not> (\<exists>p rest. bs = p @ rest \<and> leb_shape (b # p) \<and> i + length (b # p) \<le> 9)"
        unfolding shape using True False by auto
      moreover have "varint_loop (b # bs) i v \<noteq> Inr (Some (w, k))" using True False st(1) by simp
      ultimately show ?thesis unfolding split by blast
    next
      case i: False
      have v: "unat (of_nat ?v :: u64) = ?v"
      proof -
        have "?v < 2 ^ (7 * (i + 1))" by (rule st(2))
        also have "\<dots> \<le> 2 ^ 63" using Cons.prems(2) i by (intro power_increasing) simp_all
        finally show ?thesis by (simp only: unat_of_nat) simp
      qed
      have acc: "?v + 2 ^ (7 * (i + 1)) * unleb p = unat v + 2 ^ (7 * i) * unleb (b # p)" for p
        by (simp add: distrib_left power_add mult.assoc mult.left_commute)
      have "varint_loop (b # bs) i v = Inr (Some (w, k)) \<longleftrightarrow> varint_loop bs (i + 1) (of_nat ?v) = Inr (Some (w, k))"
        using False i st(1) by simp
      also have "\<dots> \<longleftrightarrow> (\<exists>p rest. bs = p @ rest \<and> leb_shape p \<and> (1 < i + 1 + length p \<longrightarrow> last p \<noteq> 0) \<and> i + 1 + length p \<le> 9 \<and>
          k = i + 1 + length p \<and> w = of_nat (?v + 2 ^ (7 * (i + 1)) * unleb p))"
        using Cons.IH [of "of_nat ?v" "i + 1"] v st(2) Cons.prems(2) i by simp
      also have "\<dots> \<longleftrightarrow> (\<exists>p rest. bs = p @ rest \<and> leb_shape (b # p) \<and> (1 < i + length (b # p) \<longrightarrow> last (b # p) \<noteq> 0) \<and>
          i + length (b # p) \<le> 9 \<and> k = i + length (b # p) \<and> w = of_nat (unat v + 2 ^ (7 * i) * unleb (b # p)))"
      proof -
        have "leb_shape (b # p) \<longleftrightarrow> leb_shape p" for p using False by (cases p) auto
        moreover have "leb_shape p \<Longrightarrow> p \<noteq> []" for p by (cases p) auto
        ultimately show ?thesis unfolding acc by (intro ex_cong1 conj_cong refl) (auto simp del: unleb.simps)
      qed
      finally show ?thesis unfolding split .
    qed
  qed
qed

lemma varint_from_slice_iff:
  "varint_from_slice bs = Inr (Some (w, k)) \<longleftrightarrow>
     (\<exists>n rest. n < 2 ^ 63 \<and> bs = leb n @ rest \<and> k = length (leb n) \<and> w = of_nat n)"
proof -
  have "varint_from_slice bs = Inr (Some (w, k)) \<longleftrightarrow>
      (\<exists>p rest. bs = p @ rest \<and> leb_shape p \<and> (1 < length p \<longrightarrow> last p \<noteq> 0) \<and> length p \<le> 9 \<and> k = length p \<and> w = of_nat (unleb p))"
    unfolding varint_from_slice_def by (subst varint_loop_iff) simp_all
  also have "\<dots> \<longleftrightarrow> (\<exists>n rest. n < 2 ^ 63 \<and> bs = leb n @ rest \<and> k = length (leb n) \<and> w = of_nat n)"
  proof
    assume "\<exists>p rest. bs = p @ rest \<and> leb_shape p \<and> (1 < length p \<longrightarrow> last p \<noteq> 0) \<and> length p \<le> 9 \<and> k = length p \<and> w = of_nat (unleb p)"
    then obtain p rest where p: "bs = p @ rest" "leb_shape p" "1 < length p \<longrightarrow> last p \<noteq> 0" "length p \<le> 9" "k = length p" "w = of_nat (unleb p)" by blast
    have "unleb p < 128 ^ length p" for p
    proof (induction p)
      case (Cons b p)
      have "unat b mod 128 < 128" by simp
      then show ?case using Cons by simp
    qed simp
    then have "unleb p < 128 ^ length p" .
    also have "\<dots> \<le> 128 ^ 9" using p(4) by (intro power_increasing) simp_all
    finally have "unleb p < 2 ^ 63" by simp
    moreover have "leb (unleb p) = p" by (rule leb_unleb [OF p(2,3)])
    ultimately show "\<exists>n rest. n < 2 ^ 63 \<and> bs = leb n @ rest \<and> k = length (leb n) \<and> w = of_nat n"
      using p by (intro exI [of _ "unleb p"] exI [of _ rest]) simp
  next
    assume "\<exists>n rest. n < 2 ^ 63 \<and> bs = leb n @ rest \<and> k = length (leb n) \<and> w = of_nat n"
    then obtain n rest where n: "n < 2 ^ 63" "bs = leb n @ rest" "k = length (leb n)" "w = of_nat n" by blast
    have "length (leb n) \<le> 9" using n(1) by (intro leb_length) simp_all
    then show "\<exists>p rest. bs = p @ rest \<and> leb_shape p \<and> (1 < length p \<longrightarrow> last p \<noteq> 0) \<and> length p \<le> 9 \<and> k = length p \<and> w = of_nat (unleb p)"
      using n leb_last [of n] by (intro exI [of _ "leb n"] exI [of _ rest]) simp
  qed
  finally show ?thesis .
qed

text \<open>The two-byte fast path of the block reader is the general one.\<close>

lemma block_prefix_varint:
  "block_prefix buf = and_then (varint_from_slice buf) (\<lambda>m. ok_or (InvalidBlock ''truncated varint'') m)"
proof -
  have and7: "b < 0x80 \<Longrightarrow> b AND 0x7f = b" for b :: u8
    by (simp add: word_unat_eq_iff word_less_nat_alt)
  have fast1: "varint_from_slice (b # bs) = Inr (Some (ucast b, 1))" if "b < 0x80" for b bs
    using that and7 by (simp add: varint_from_slice_def varint_step_def and_128_eq_0 word_less_nat_alt Let_def)
  have fast2: "varint_from_slice (b0 # b1 # bs) = Inr (Some (ucast (b0 AND 0x7f) OR push_bit 7 (ucast b1), 2))"
    if "\<not> b0 < 0x80" "b1 < 0x80" "b1 \<noteq> 0" for b0 b1 bs
    using that and7 [of b1] by (simp add: varint_from_slice_def varint_step_def and_128_eq_0 word_less_nat_alt Let_def)
  show ?thesis
    unfolding block_prefix_def Let_def using fast1 fast2 by (auto split: list.split)
qed

section \<open>Block frames\<close>

definition enc_block :: "car_block \<Rightarrow> bytes" where
  "enc_block b = leb (36 + length (b_data b)) @ cid_to_bytes (b_cid b) @ b_data b"

definition block_ok :: "car_block \<Rightarrow> bool" where
  "block_ok b \<longleftrightarrow> cid_valid (b_cid b) \<and> 36 + length (b_data b) \<le> 2 ^ 27"

lemma check_block_len_iff: "check_block_len len = Inr n \<longleftrightarrow> n = unat len \<and> 36 \<le> unat len \<and> unat len \<le> 2 ^ 27"
proof -
  have "unat MAX_BLOCK_SIZE = 2 ^ 27" by (simp add: MAX_BLOCK_SIZE_def push_bit_eq_mult)
  then show ?thesis by (auto simp: check_block_len_def CID_LEN_def word_less_nat_alt)
qed

lemma split_block_iff: "split_block buf = Inr (b, rest) \<longleftrightarrow> block_ok b \<and> buf = enc_block b @ rest"
proof
  assume "split_block buf = Inr (b, rest)"
  then obtain len pre cid where
    v: "varint_from_slice buf = Inr (Some (len, pre))" "36 \<le> unat len" "unat len \<le> 2 ^ 27" and
    f: "cid_from_bytes (take 36 (drop pre buf)) = Inr cid" "unat len \<le> length (drop pre buf)" "rest = drop (unat len) (drop pre buf)"
      "b = \<lparr>b_cid = cid, b_data = drop 36 (take (unat len) (drop pre buf))\<rparr>"
    by (fastforce simp: split_block_def block_prefix_varint split_at_checked_def check_block_len_iff Let_def CID_LEN_def
        split: if_splits)
  from v(1) obtain n tl where n: "n < 2 ^ 63" "buf = leb n @ tl" "pre = length (leb n)" "len = of_nat n" using varint_from_slice_iff by blast
  have len: "unat len = n" using n(1,4) by (simp add: unat_of_nat)
  have tl: "drop pre buf = tl" using n by simp
  have c: "cid_valid cid" "take 36 tl = cid_to_bytes cid"
    using cid_from_bytes_canonical [OF f(1)] unfolding tl by auto
  have "tl = take 36 tl @ drop 36 (take n tl) @ drop n tl"
    using v(2) f(2) len tl by (metis append_take_drop_id append.assoc drop_take le_add_diff_inverse take_add)
  moreover have "36 + (n - 36) = n" using v(2) len by simp
  ultimately have "buf = enc_block b @ rest" using n c f len tl by (simp add: enc_block_def)
  moreover have "block_ok b" using c(1) f(2,4) v(2,3) len tl by (simp add: block_ok_def)
  ultimately show "block_ok b \<and> buf = enc_block b @ rest" by blast
next
  assume b: "block_ok b \<and> buf = enc_block b @ rest"
  let ?n = "36 + length (b_data b)"
  have n: "?n \<le> 2 ^ 27" "cid_valid (b_cid b)" using b by (simp_all add: block_ok_def)
  then have u: "unat (of_nat ?n :: u64) = ?n" by (simp only: unat_of_nat) simp
  have "varint_from_slice buf = Inr (Some (of_nat ?n, length (leb ?n)))"
    unfolding varint_from_slice_iff using b n by (intro exI [of _ ?n]) (auto simp: enc_block_def)
  moreover have "check_block_len (of_nat ?n) = Inr ?n" unfolding check_block_len_iff u using n by simp
  moreover have "drop (length (leb ?n)) buf = cid_to_bytes (b_cid b) @ b_data b @ rest" using b by (simp add: enc_block_def)
  moreover have "length (leb ?n) \<le> length buf" using b by (simp add: enc_block_def)
  ultimately show "split_block buf = Inr (b, rest)"
    using n cid_to_bytes_roundtrip [OF n(2)]
    by (simp add: split_block_def block_prefix_varint split_at_checked_def CID_LEN_def)
qed

interpretation car_frame: prefix_codec enc_block split_block block_ok
  by unfold_locales (simp_all add: split_block_iff)

section \<open>Whole archives\<close>

lemma enc_block_nonempty [simp]: "enc_block b \<noteq> []"
  by (simp add: enc_block_def)

lemma read_blocks_iff:
  "read_blocks r acc = Inr bs \<longleftrightarrow> (\<exists>cs. bs = acc @ cs \<and> sr_rest r = concat (map enc_block cs) \<and> (\<forall>c \<in> set cs. block_ok c))"
proof (induction "length (sr_rest r)" arbitrary: r acc rule: less_induct)
  case less
  show ?case
  proof (cases "sr_rest r = []")
    case True
    then show ?thesis by (subst read_blocks.simps) (auto simp: slice_next_def)
  next
    case False
    show ?thesis
    proof (cases "split_block (sr_rest r)")
      case (Inl e)
      then have "\<not> (\<exists>cs. sr_rest r = concat (map enc_block cs) \<and> (\<forall>c \<in> set cs. block_ok c))"
        using False split_block_iff [of "sr_rest r"] by (metis concat.simps(1,2) list.exhaust list.set_intros(1) list.simps(8,9) Inl_Inr_False)
      then show ?thesis using False Inl by (subst read_blocks.simps) (auto simp: slice_next_def)
    next
      case (Inr p)
      obtain b rest where p: "p = (b, rest)" by fastforce
      have sp: "block_ok b" "sr_rest r = enc_block b @ rest" using Inr p split_block_iff by auto
      have "read_blocks r acc = read_blocks (r\<lparr>sr_rest := rest\<rparr>) (acc @ [b])"
        using False Inr p by (subst read_blocks.simps) (simp add: slice_next_def)
      also have "\<dots> = Inr bs \<longleftrightarrow> (\<exists>cs. bs = acc @ [b] @ cs \<and> rest = concat (map enc_block cs) \<and> (\<forall>c \<in> set cs. block_ok c))"
        using less [of "r\<lparr>sr_rest := rest\<rparr>" "acc @ [b]"] sp by simp
      also have "\<dots> \<longleftrightarrow> (\<exists>cs. bs = acc @ cs \<and> sr_rest r = concat (map enc_block cs) \<and> (\<forall>c \<in> set cs. block_ok c))"
      proof
        assume "\<exists>cs. bs = acc @ [b] @ cs \<and> rest = concat (map enc_block cs) \<and> (\<forall>c \<in> set cs. block_ok c)"
        then obtain cs where "bs = acc @ [b] @ cs" "rest = concat (map enc_block cs)" "\<forall>c \<in> set cs. block_ok c" by blast
        then show "\<exists>cs. bs = acc @ cs \<and> sr_rest r = concat (map enc_block cs) \<and> (\<forall>c \<in> set cs. block_ok c)"
          using sp by (intro exI [of _ "b # cs"]) simp
      next
        assume "\<exists>cs. bs = acc @ cs \<and> sr_rest r = concat (map enc_block cs) \<and> (\<forall>c \<in> set cs. block_ok c)"
        then obtain cs where cs: "bs = acc @ cs" "sr_rest r = concat (map enc_block cs)" "\<forall>c \<in> set cs. block_ok c" by blast
        then obtain c cs' where c: "cs = c # cs'" using False by (cases cs) auto
        have "split_block (sr_rest r) = Inr (c, concat (map enc_block cs'))" unfolding split_block_iff using cs c by simp
        then show "\<exists>cs. bs = acc @ [b] @ cs \<and> rest = concat (map enc_block cs) \<and> (\<forall>c \<in> set cs. block_ok c)"
          using Inr p cs c by auto
      qed
      finally show ?thesis .
    qed
  qed
qed

lemma check_header_len_iff: "check_header_len len = Inr n \<longleftrightarrow> n = unat len \<and> unat len \<le> 2 ^ 20"
proof -
  have "unat MAX_HEADER_SIZE = 2 ^ 20" by (simp add: MAX_HEADER_SIZE_def push_bit_eq_mult)
  then show ?thesis by (auto simp: check_header_len_def word_less_nat_alt)
qed

text \<open>The bytes of an archive with a given header.\<close>

definition car_bytes :: "bytes \<Rightarrow> car_block list \<Rightarrow> bytes" where
  "car_bytes hdr blocks = leb (length hdr) @ hdr @ concat (map enc_block blocks)"

lemma slice_new_iff:
  "slice_new u car = Inr r \<longleftrightarrow>
     (\<exists>hdr. car = leb (length hdr) @ hdr @ sr_rest r \<and> length hdr \<le> 2 ^ 20 \<and> decode_header u hdr = Inr (sr_roots r))"
proof
  assume s: "slice_new u car = Inr r"
  then obtain m where "varint_from_slice car = Inr m" by (auto simp: slice_new_def)
  moreover obtain len pre where "m = Some (len, pre)" using s calculation by (cases m) (auto simp: slice_new_def split: if_splits)
  ultimately have m: "varint_from_slice car = Inr (Some (len, pre))" by simp
  have v: "varint_from_slice car = Inr (Some (len, pre))" "unat len \<le> 2 ^ 20" "unat len \<le> length (drop pre car)"
    "decode_header u (take (unat len) (drop pre car)) = Inr (sr_roots r)" "sr_rest r = drop (unat len) (drop pre car)"
    using s m by (auto simp: slice_new_def split_at_checked_def check_header_len_iff split: if_splits)
  from v(1) obtain n tl where n: "n < 2 ^ 63" "car = leb n @ tl" "pre = length (leb n)" "len = of_nat n" using varint_from_slice_iff by blast
  have "unat len = n" using n(1,4) by (simp add: unat_of_nat)
  then show "\<exists>hdr. car = leb (length hdr) @ hdr @ sr_rest r \<and> length hdr \<le> 2 ^ 20 \<and> decode_header u hdr = Inr (sr_roots r)"
    using v n by (intro exI [of _ "take n tl"]) (simp add: min_absorb2)
next
  assume "\<exists>hdr. car = leb (length hdr) @ hdr @ sr_rest r \<and> length hdr \<le> 2 ^ 20 \<and> decode_header u hdr = Inr (sr_roots r)"
  then obtain hdr where h: "car = leb (length hdr) @ hdr @ sr_rest r" "length hdr \<le> 2 ^ 20" "decode_header u hdr = Inr (sr_roots r)" by blast
  have u: "unat (of_nat (length hdr) :: u64) = length hdr" using h(2) by (simp add: unat_of_nat)
  have "varint_from_slice car = Inr (Some (of_nat (length hdr), length (leb (length hdr))))"
    unfolding varint_from_slice_iff using h by (intro exI [of _ "length hdr"]) auto
  moreover have "check_header_len (of_nat (length hdr)) = Inr (length hdr)" unfolding check_header_len_iff u using h(2) by simp
  ultimately show "slice_new u car = Inr r"
    using h by (simp add: slice_new_def split_at_checked_def)
qed

lemma car_read_slice_iff:
  "car_read_slice u car = Inr (roots, blocks) \<longleftrightarrow>
     (\<exists>hdr. car = car_bytes hdr blocks \<and> length hdr \<le> 2 ^ 20 \<and> decode_header u hdr = Inr roots \<and> (\<forall>b \<in> set blocks. block_ok b))"
proof -
  have "car_read_slice u car = Inr (roots, blocks) \<longleftrightarrow>
      (\<exists>r. slice_new u car = Inr r \<and> read_blocks r [] = Inr blocks \<and> sr_roots r = roots)"
    by (auto simp: car_read_slice_def and_then_eq_Inr)
  also have "\<dots> \<longleftrightarrow> (\<exists>hdr. car = car_bytes hdr blocks \<and> length hdr \<le> 2 ^ 20 \<and> decode_header u hdr = Inr roots \<and> (\<forall>b \<in> set blocks. block_ok b))"
  proof
    assume "\<exists>r. slice_new u car = Inr r \<and> read_blocks r [] = Inr blocks \<and> sr_roots r = roots"
    then show "\<exists>hdr. car = car_bytes hdr blocks \<and> length hdr \<le> 2 ^ 20 \<and> decode_header u hdr = Inr roots \<and> (\<forall>b \<in> set blocks. block_ok b)"
      unfolding slice_new_iff read_blocks_iff car_bytes_def by auto
  next
    assume "\<exists>hdr. car = car_bytes hdr blocks \<and> length hdr \<le> 2 ^ 20 \<and> decode_header u hdr = Inr roots \<and> (\<forall>b \<in> set blocks. block_ok b)"
    then show "\<exists>r. slice_new u car = Inr r \<and> read_blocks r [] = Inr blocks \<and> sr_roots r = roots"
      unfolding slice_new_iff read_blocks_iff car_bytes_def
      by (intro exI [of _ "\<lparr>sr_rest = concat (map enc_block blocks), sr_roots = roots\<rparr>"]) auto
  qed
  finally show ?thesis .
qed

text \<open>
  C16. The archive reader accepts exactly the byte strings that are a header frame followed by
  block frames: a length, a header that decodes, and the canonical frames of the blocks it
  returns, with every block within the size limits.
\<close>

theorem read_slice_exact:
  "car_read_slice u car = Inr (roots, blocks) \<longleftrightarrow>
     (\<exists>hdr. car = car_bytes hdr blocks \<and> length hdr \<le> 2 ^ 20 \<and> decode_header u hdr = Inr roots \<and> list_all block_ok blocks)"
  unfolding car_read_slice_iff list_all_iff ..

section \<open>The writer\<close>

lemma take_list_update: "i \<le> j \<Longrightarrow> take i (xs[j := x]) = take i xs"
  by simp

lemma encode_varint_buf_leb:
  assumes "i + length (leb (unat v)) \<le> length buf"
  shows "\<exists>buf'. encode_varint_buf v buf i = (i + length (leb (unat v)), buf') \<and>
    take (i + length (leb (unat v))) buf' = take i buf @ leb (unat v) \<and> length buf' = length buf"
  using assms
proof (induction v buf i rule: encode_varint_buf.induct)
  case (1 v buf i)
  have e: "encode_varint v [] = leb (unat v)" using encode_varint_leb [of v "[]"] by simp
  let ?b = "if drop_bit 7 v \<noteq> 0 then (ucast (v AND 0x7F) :: u8) OR 0x80 else ucast (v AND 0x7F)"
  have step: "leb (unat v) = ?b # (if drop_bit 7 v = 0 then [] else leb (unat (drop_bit 7 v)))"
    using encode_varint_leb [of "drop_bit 7 v" "[?b]"] unfolding e [symmetric]
    by (subst encode_varint.simps) (auto simp: Let_def)
  show ?case
  proof (cases "drop_bit 7 v = 0")
    case True
    then have l: "leb (unat v) = [?b]" using step by simp
    have i: "i < length buf" using "1.prems" l by simp
    show ?thesis using True l i
      by (subst encode_varint_buf.simps) (simp add: Let_def take_Suc_conv_app_nth)
  next
    case False
    let ?buf = "buf[i := ?b]"
    have l: "leb (unat v) = ?b # leb (unat (drop_bit 7 v))" using step False by simp
    have i: "i < length buf" using "1.prems" l by simp
    have t: "take (i + 1) ?buf = take i buf @ [?b]" using i by (simp add: take_Suc_conv_app_nth)
    from "1.IH" [OF refl refl refl refl refl False] "1.prems" l obtain buf' where
      "encode_varint_buf (drop_bit 7 v) ?buf (i + 1) = (i + 1 + length (leb (unat (drop_bit 7 v))), buf')"
      "take (i + 1 + length (leb (unat (drop_bit 7 v)))) buf' = take (i + 1) ?buf @ leb (unat (drop_bit 7 v))" "length buf' = length buf"
      by auto
    with False l t show ?thesis by (subst encode_varint_buf.simps) (simp add: Let_def)
  qed
qed

lemma write_varint_leb: "n < 2 ^ 64 \<Longrightarrow> write_varint n w = w @ leb n"
proof -
  assume n: "n < 2 ^ 64"
  then have u: "unat (of_nat n :: u64) = n" by (simp add: unat_of_nat)
  have "length (leb n) \<le> 10" using n by (intro leb_length) simp_all
  then obtain buf' where "encode_varint_buf (of_nat n) (replicate 10 0) 0 = (length (leb n), buf')" "take (length (leb n)) buf' = leb n"
    using encode_varint_buf_leb [of 0 "of_nat n" "replicate 10 0"] u by auto
  then show ?thesis by (simp add: write_varint_def)
qed

definition header_value :: "cid list \<Rightarrow> cbor_value" where
  "header_value roots = Map [(lit ''roots'', Array (map CidV roots)), (lit ''version'', Unsigned 1)]"

lemma encode_cids_spec: "encode_cids w cs = Inr (w @ concat (map (\<lambda>c. enc (CidV c)) cs))"
  by (induction cs arbitrary: w) (simp_all add: encode_cid_def)

lemma writer_new_spec:
  assumes "length roots < 2 ^ 64" "length (enc (header_value roots)) < 2 ^ 64"
  shows "writer_new w roots = Inr (w @ leb (length (enc (header_value roots))) @ enc (header_value roots))"
proof -
  let ?f = "\<lambda>enc key. if key = lit ''roots'' then and_then (encode_array_header enc (length roots)) (\<lambda>enc. encode_cids enc roots)
      else if key = lit ''version'' then encode_u64 enc 1 else Inr enc"
  let ?es = "[(lit ''roots'', Array (map CidV roots)), (lit ''version'', Unsigned 1)]"
  have f: "?f w (fst e) = Inr (w @ enc (snd e))" if "e \<in> set ?es" for e w
    using that assms(1)
    by (auto simp: encode_array_header_def encode_u64_def write_type_value_put_head put_head_head encode_cids_spec comp_def unat_of_nat)
  have sort: "sort_by cbor_key_cmp [lit ''roots'', lit ''version''] = map fst ?es"
    by (simp add: cbor_key_cmp_def)
  have "encode_text_map [] [lit ''roots'', lit ''version''] ?f = Inr ([] @ enc (Map ?es))"
    by (rule encode_text_map_spec [OF sort f]) simp_all
  then have "encode_text_map [] [lit ''roots'', lit ''version''] ?f = Inr (enc (header_value roots))"
    by (simp only: header_value_def append_Nil)
  then show ?thesis using assms(2) by (simp add: writer_new_def write_varint_leb)
qed

lemma fold_write_block:
  "\<forall>b \<in> set blocks. block_ok b \<Longrightarrow> fold write_block blocks w = w @ concat (map enc_block blocks)"
proof (induction blocks arbitrary: w)
  case (Cons b blocks)
  have "36 + length (b_data b) < 2 ^ 64" using Cons.prems by (simp add: block_ok_def)
  then have "write_block b w = w @ enc_block b"
    using Cons.prems by (simp add: write_block_def enc_block_def write_varint_leb block_ok_def del: length_cid_to_bytes)
      (simp add: write_varint_leb)
  with Cons show ?case by simp
qed simp

lemma decode_header_value:
  assumes "\<forall>c \<in> set roots. cid_valid c" "utf8 (lit ''roots'')" "utf8 (lit ''version'')"
    "length roots \<le> MAX_COLLECTION_LEN" "length (enc (header_value roots)) < 2 ^ 64"
  shows "decode_header utf8 (enc (header_value roots)) = Inr roots"
proof -
  have "key_lt (lit ''roots'') (lit ''version'')" by (simp add: key_lt_spec)
  then have "drisl utf8 0 (header_value roots)"
    using assms by (auto simp: header_value_def MAX_DEPTH_def MAX_COLLECTION_LEN_def)
  then have "decode utf8 (enc (header_value roots)) = Inr (header_value roots)" using decode_iff [OF assms(5)] by blast
  then obtain d where d: "decode_value utf8 0 (decoder_new (enc (header_value roots))) = Inr (header_value roots, d)" "decoder_is_empty d"
    by (auto simp: decode_def split: if_splits)
  have r: "header_roots (map CidV cs) acc = Inr (acc @ cs)" for cs acc by (induction cs arbitrary: acc) simp_all
  have "lit ''roots'' \<noteq> lit ''version''" by simp
  then have "header_entries [(lit ''roots'', Array (map CidV roots)), (lit ''version'', Unsigned 1)] None None = Inr (Some 1, Some roots)"
    by (simp add: r del: lit_Cons)
  with d show ?thesis by (simp add: decode_header_def header_value_def del: lit_Cons)
qed

text \<open>
  C33. Writing an archive and reading it gives the roots and the blocks back, in order, for any
  roots and blocks within the format's limits; \<open>utf8\<close> is the text validator of the decoder,
  assumed to accept the two header keys.
\<close>

theorem car_roundtrip:
  assumes "\<forall>c \<in> set roots. cid_valid c" "\<forall>b \<in> set blocks. block_ok b" "utf8 (lit ''roots'')" "utf8 (lit ''version'')"
    and "length roots \<le> MAX_COLLECTION_LEN" "length (enc (header_value roots)) \<le> 2 ^ 20"
  shows "\<exists>car. write_all roots blocks = Inr car \<and> car_read_slice utf8 car = Inr (roots, blocks)"
proof -
  let ?h = "enc (header_value roots)"
  have len: "length roots < 2 ^ 64" "length ?h < 2 ^ 64" using assms(5,6) by (simp_all add: MAX_COLLECTION_LEN_def)
  have "write_all roots blocks = Inr (car_bytes ?h blocks)"
    using writer_new_spec [OF len, of "[]"] fold_write_block [OF assms(2)] by (simp add: write_all_def car_bytes_def)
  moreover obtain r where "r = \<lparr>sr_rest = concat (map enc_block blocks), sr_roots = roots\<rparr>" by blast
  moreover have "slice_new utf8 (car_bytes ?h blocks) = Inr r"
    unfolding slice_new_iff using assms(6) decode_header_value [OF assms(1,3,4,5) len(2)] calculation(2)
    by (intro exI [of _ ?h]) (simp add: car_bytes_def)
  moreover have "read_blocks r [] = Inr blocks" unfolding read_blocks_iff using calculation(2) assms(2) by auto
  ultimately show ?thesis by (simp add: car_read_slice_def)
qed

theorem car_roundtrip_witness:
  "\<exists>car. write_all [cid_zeroed] [\<lparr>b_cid = cid_zeroed, b_data = [1, 2, 3]\<rparr>] = Inr car \<and>
     car_read_slice (\<lambda>_. True) car = Inr ([cid_zeroed], [\<lparr>b_cid = cid_zeroed, b_data = [1, 2, 3]\<rparr>])"
proof -
  have "cid_valid cid_zeroed" by (simp add: cid_valid_def cid_zeroed_def)
  moreover have "length (tag42 cid_zeroed) = 41" by (simp add: tag42_def cid_to_tag42_bytes_def cid_to_bytes_def cid_zeroed_def)
  ultimately show ?thesis
    by (intro car_roundtrip) (simp_all add: block_ok_def header_value_def head_def MAX_COLLECTION_LEN_def enc_text_def)
qed

end
