(* ===== verification/Sync_Invert.thy ===== *)
theory Sync_Invert
  imports Mst_Store Sync_Raw Sync_State Car_Correct
begin

text \<open>
  Commit archives and their inversion (\<open>src/src/sync/invert.rs\<close>): the block store of a commit's
  archive, decoding and checking the archive, undoing the commit's operations on the tree it
  carries, and checking the operations against that tree. The platform's functions are the
  fields of \<open>E\<close>.
\<close>

section \<open>The store of an archive\<close>

record car_block_store =
  cs_blocks :: "cid \<rightharpoonup> bytes"
  cs_generated :: "cid \<rightharpoonup> bytes"

definition car_new :: "(cid \<rightharpoonup> bytes) \<Rightarrow> car_block_store" where
  "car_new blocks = \<lparr>cs_blocks = blocks, cs_generated = Map.empty\<rparr>"

definition car_get :: "car_block_store \<Rightarrow> cid \<Rightarrow> bytes option" where
  "car_get s c = cs_blocks s c"

definition car_get_block :: "car_block_store \<Rightarrow> cid \<Rightarrow> mst_error + bytes" where
  "car_get_block s c =
     ok_or (BlockNotFound c) (case cs_blocks s c of Some data \<Rightarrow> Some data | None \<Rightarrow> cs_generated s c)"

definition car_put_block :: "car_block_store \<Rightarrow> cid \<Rightarrow> bytes \<Rightarrow> (mst_error + unit) \<times> car_block_store" where
  "car_put_block s c data =
     (case cs_blocks s c of
        Some existing \<Rightarrow>
          (if existing \<noteq> data then Inl (Internal ''attempted to overwrite CAR block'') else Inr (), s)
      | None \<Rightarrow>
          (case cs_generated s c of
             Some existing \<Rightarrow>
               (if existing \<noteq> data then Inl (Internal ''attempted to overwrite generated block'') else Inr (), s)
           | None \<Rightarrow> (Inr (), s\<lparr>cs_generated := (cs_generated s)(c \<mapsto> data)\<rparr>)))"

definition car_has_block :: "car_block_store \<Rightarrow> cid \<Rightarrow> mst_error + bool" where
  "car_has_block s c = Inr (cs_blocks s c \<noteq> None \<or> cs_generated s c \<noteq> None)"

definition car_ops :: "car_block_store store_ops" where
  "car_ops = \<lparr>get_block = car_get_block, put_block = car_put_block, has_block = car_has_block\<rparr>"

interpretation car: block_store car_ops
  by unfold_locales
    (auto simp: car_ops_def car_get_block_def car_put_block_def car_has_block_def split: option.splits if_splits)

section \<open>Decoding a commit archive\<close>

record decoded_commit_car =
  dc_inner :: commit
  dc_store :: car_block_store
  dc_root :: cid

definition inversion_error :: "raw_commit \<Rightarrow> string \<Rightarrow> verifier_error" where
  "inversion_error raw msg = Inversion (rc_repo raw) (tid_fmt (rc_rev raw)) msg"

definition mst_inversion_error :: "raw_commit \<Rightarrow> mst_error \<Rightarrow> verifier_error" where
  "mst_inversion_error raw source = inversion_error raw ''MST error''"

fun collect_blocks :: "env \<Rightarrow> raw_commit \<Rightarrow> car_block list \<Rightarrow> (cid \<rightharpoonup> bytes) \<Rightarrow> verifier_error + (cid \<rightharpoonup> bytes)" where
  "collect_blocks E raw [] m = Inr m"
| "collect_blocks E raw (b # bs) m =
     (if cid_compute (compress256 E) (cid_codec (b_cid b)) (b_data b) \<noteq> b_cid b then
        Inl (CarErr (Some (rc_repo raw)) (Some (tid_fmt (rc_rev raw))) (InvalidBlock ''CID mismatch for block''))
      else case m (b_cid b) of
          Some existing \<Rightarrow>
            if existing \<noteq> b_data b then
              Inl (CarErr (Some (rc_repo raw)) (Some (tid_fmt (rc_rev raw))) (InvalidBlock ''duplicate block with different bytes''))
            else collect_blocks E raw bs m
        | None \<Rightarrow> collect_blocks E raw bs (m(b_cid b \<mapsto> b_data b)))"

definition decode_commit_car :: "env \<Rightarrow> raw_commit \<Rightarrow> verifier_error + decoded_commit_car" where
  "decode_commit_car E raw =
     and_then (map_err (CarErr (Some (rc_repo raw)) (Some (tid_fmt (rc_rev raw)))) (car_read_slice (simd_utf8 E) (rc_blocks raw)))
       (\<lambda>(roots, blocks).
     and_then (ok_or (inversion_error raw ''CAR has no roots'') (case roots of [] \<Rightarrow> None | r # _ \<Rightarrow> Some r)) (\<lambda>car_root.
       if car_root \<noteq> rc_commit raw then Inl (FieldMismatch (rc_repo raw) (Some (tid_fmt (rc_rev raw))) ''commit'')
       else and_then (collect_blocks E raw blocks Map.empty) (\<lambda>block_map.
         let store = car_new block_map in
         and_then (ok_or (inversion_error raw ''commit block missing from CAR'') (car_get store (rc_commit raw))) (\<lambda>commit_block.
         and_then (map_err (RepoErr (Some (rc_repo raw)) (Some (tid_fmt (rc_rev raw)))) (from_cbor (simd_utf8 E) commit_block)) (\<lambda>inner.
           Inr \<lparr>dc_inner = inner, dc_store = store, dc_root = car_root\<rparr>)))))"

definition decode_sync_commit :: "env \<Rightarrow> did \<Rightarrow> str \<Rightarrow> bytes \<Rightarrow> verifier_error + commit" where
  "decode_sync_commit E did rv blocks =
     and_then (map_err (CarErr (Some did) (Some rv)) (car_read_slice (simd_utf8 E) blocks)) (\<lambda>(roots, car_blocks).
     and_then (ok_or (Inversion did rv ''sync CAR has no roots'') (case roots of [] \<Rightarrow> None | r # _ \<Rightarrow> Some r)) (\<lambda>commit_cid.
     and_then (ok_or (Inversion did rv ''commit block missing from sync CAR'') (List.find (\<lambda>b. b_cid b = commit_cid) car_blocks)) (\<lambda>b.
       if cid_compute (compress256 E) (cid_codec (b_cid b)) (b_data b) \<noteq> b_cid b then
         Inl (CarErr (Some did) (Some rv) (InvalidBlock ''CID mismatch for sync commit block''))
       else map_err (RepoErr (Some did) (Some rv)) (from_cbor (simd_utf8 E) (b_data b)))))"

section \<open>Inverting a commit\<close>

fun duplicate_loop :: "raw_repo_op list \<Rightarrow> str set \<Rightarrow> str option" where
  "duplicate_loop [] seen = None"
| "duplicate_loop (op # ops) seen =
     (if op_path op \<in> seen then Some (op_path op) else duplicate_loop ops (insert (op_path op) seen))"

definition find_duplicate_path :: "raw_repo_op list \<Rightarrow> str option" where
  "find_duplicate_path ops = duplicate_loop ops {}"

type_synonym car_tree = "car_block_store store_tree"

text \<open>The loop of \<open>invert_decoded_commit\<close> over the operations, last first.\<close>

fun invert_ops :: "env \<Rightarrow> raw_commit \<Rightarrow> raw_repo_op list \<Rightarrow> car_tree \<Rightarrow> verifier_error + car_tree" where
  "invert_ops E raw [] t = Inr t"
| "invert_ops E raw (op # ops) t =
     (if op_action op = lit ''create'' then
        (case st_remove car_ops E (op_path op) t of
           (Inl e, t) \<Rightarrow> Inl (mst_inversion_error raw e)
         | (Inr _, t) \<Rightarrow> invert_ops E raw ops t)
      else if op_action op = lit ''update'' \<or> op_action op = lit ''delete'' then
        and_then (ok_or (inversion_error raw ''missing prev for op'') (op_prev op)) (\<lambda>prev.
          case st_insert car_ops E (op_path op) prev t of
            (Inl e, t) \<Rightarrow> Inl (mst_inversion_error raw e)
          | (Inr _, t) \<Rightarrow> invert_ops E raw ops t)
      else Inl (inversion_error raw ''unknown repo op action''))"

definition invert_decoded_commit :: "env \<Rightarrow> raw_commit \<Rightarrow> commit \<Rightarrow> car_block_store \<Rightarrow> verifier_error + cid" where
  "invert_decoded_commit E raw inner store =
     (case find_duplicate_path (rc_ops raw) of
        Some path \<Rightarrow> Inl (DuplicatePath (rc_repo raw) (tid_fmt (rc_rev raw)) path)
      | None \<Rightarrow>
          and_then (invert_ops E raw (rev (rc_ops raw)) (st_load store (c_data inner))) (\<lambda>tree.
            map_err (mst_inversion_error raw) (fst (st_root_cid car_ops E tree))))"

definition invert_commit :: "env \<Rightarrow> raw_commit \<Rightarrow> verifier_error + cid" where
  "invert_commit E raw =
     (case find_duplicate_path (rc_ops raw) of
        Some path \<Rightarrow> Inl (DuplicatePath (rc_repo raw) (tid_fmt (rc_rev raw)) path)
      | None \<Rightarrow>
          and_then (decode_commit_car E raw) (\<lambda>decoded. invert_decoded_commit E raw (dc_inner decoded) (dc_store decoded)))"

section \<open>Checking the operations against the new tree\<close>

definition op_cid_mismatch :: "raw_commit \<Rightarrow> raw_repo_op \<Rightarrow> cid option \<Rightarrow> cid option \<Rightarrow> verifier_error" where
  "op_cid_mismatch raw op expected actual = OpCidMismatch (rc_repo raw) (tid_fmt (rc_rev raw)) (op_path op) expected actual"

fun check_ops_loop :: "env \<Rightarrow> raw_commit \<Rightarrow> raw_repo_op list \<Rightarrow> car_tree \<Rightarrow> verifier_error + unit" where
  "check_ops_loop E raw [] t = Inr ()"
| "check_ops_loop E raw (op # ops) t =
     (if op_action op = lit ''create'' \<or> op_action op = lit ''update'' then
        (case op_cid op of
           None \<Rightarrow> Inl (op_cid_mismatch raw op None None)
         | Some expected \<Rightarrow>
             (case st_get car_ops E (op_path op) t of
                (Inl _, t) \<Rightarrow> Inl (op_cid_mismatch raw op (Some expected) None)
              | (Inr actual, t) \<Rightarrow>
                  if actual \<noteq> Some expected then Inl (op_cid_mismatch raw op (Some expected) actual)
                  else check_ops_loop E raw ops t))
      else if op_action op = lit ''delete'' then
        (case op_cid op of
           Some claimed \<Rightarrow> Inl (op_cid_mismatch raw op None (Some claimed))
         | None \<Rightarrow>
             (case st_get car_ops E (op_path op) t of
                (Inl _, t) \<Rightarrow> Inl (op_cid_mismatch raw op None None)
              | (Inr actual, t) \<Rightarrow>
                  if actual \<noteq> None then Inl (op_cid_mismatch raw op None actual)
                  else check_ops_loop E raw ops t))
      else Inl (inversion_error raw ''unknown repo op action''))"

definition check_op_cids :: "env \<Rightarrow> raw_commit \<Rightarrow> cid \<Rightarrow> car_block_store \<Rightarrow> verifier_error + unit" where
  "check_op_cids E raw data_cid store = check_ops_loop E raw (rc_ops raw) (st_load store data_cid)"

section \<open>What decoding checks\<close>

lemma collect_blocks_verified:
  assumes "collect_blocks E raw bs m = Inr m'" "m' c = Some data"
  shows "m c = Some data \<or> (\<exists>b \<in> set bs. b_cid b = c \<and> b_data b = data \<and> cid_compute (compress256 E) (cid_codec c) data = c)"
  using assms(1)
proof (induction bs arbitrary: m)
  case (Cons b bs)
  have ok: "cid_compute (compress256 E) (cid_codec (b_cid b)) (b_data b) = b_cid b" using Cons.prems by (auto split: if_splits)
  show ?case
  proof (cases "m (b_cid b)")
    case None
    then have "collect_blocks E raw bs (m(b_cid b \<mapsto> b_data b)) = Inr m'" using Cons.prems ok by simp
    from Cons.IH [OF this] ok show ?thesis by (auto split: if_splits)
  next
    case (Some x)
    then have "collect_blocks E raw bs m = Inr m'" using Cons.prems ok by (auto split: if_splits)
    from Cons.IH [OF this] show ?thesis by auto
  qed
qed (use assms(2) in simp)

lemma decode_commit_car_ok:
  assumes "decode_commit_car E raw = Inr dc"
  shows "cs_generated (dc_store dc) = Map.empty" "dc_root dc = rc_commit raw"
    and "cs_blocks (dc_store dc) c = Some data \<Longrightarrow> cid_compute (compress256 E) (cid_codec c) data = c \<and> in_memory data"
    and "\<exists>block. cs_blocks (dc_store dc) (rc_commit raw) = Some block \<and> from_cbor (simd_utf8 E) block = Inr (dc_inner dc)"
proof -
  obtain roots blocks m where m: "car_read_slice (simd_utf8 E) (rc_blocks raw) = Inr (roots, blocks)"
    "collect_blocks E raw blocks Map.empty = Inr m" "dc_store dc = car_new m"
    using assms by (auto simp: decode_commit_car_def Let_def split: if_splits)
  have "length (b_data b) < 2 ^ 64" if "b \<in> set blocks" for b
    using m(1) that by (fastforce simp: car_read_slice_iff block_ok_def)
  then show "cs_blocks (dc_store dc) c = Some data \<Longrightarrow> cid_compute (compress256 E) (cid_codec c) data = c \<and> in_memory data"
    using collect_blocks_verified [OF m(2)] m(3) by (auto simp: car_new_def)
qed (use assms in \<open>auto simp: decode_commit_car_def Let_def car_new_def car_get_def split: if_splits\<close>)

lemma duplicate_loop_None: "duplicate_loop ops seen = None \<longleftrightarrow> distinct (map op_path ops) \<and> op_path ` set ops \<inter> seen = {}"
  by (induction ops arbitrary: seen) auto

lemma find_duplicate_path_None: "find_duplicate_path ops = None \<longleftrightarrow> distinct (map op_path ops)"
  by (simp add: find_duplicate_path_def duplicate_loop_None)

section \<open>Undoing operations on the contents\<close>

definition undo_op :: "raw_repo_op \<Rightarrow> (str \<rightharpoonup> cid) \<Rightarrow> (str \<rightharpoonup> cid)" where
  "undo_op op m = m(op_path op := if op_action op = lit ''create'' then None else op_prev op)"

lemma invert_ops_spec:
  assumes "invert_ops E raw ops t = Inr t'" "st_ok car_ops E \<sigma> t"
  shows "st_ok car_ops E \<sigma> t' \<and> st_store t' = st_store t \<and> map_of (st_contents \<sigma> t') = fold undo_op ops (map_of (st_contents \<sigma> t))"
  using assms
proof (induction ops arbitrary: t)
  case (Cons op ops)
  have "\<exists>t1. invert_ops E raw ops t1 = Inr t' \<and> st_ok car_ops E \<sigma> t1 \<and> st_store t1 = st_store t \<and>
      map_of (st_contents \<sigma> t1) = undo_op op (map_of (st_contents \<sigma> t))"
  proof (cases "op_action op = lit ''create''")
    case True
    then obtain v t1 where r: "st_remove car_ops E (op_path op) t = (Inr v, t1)" "invert_ops E raw ops t1 = Inr t'"
      using Cons.prems(1) by (auto split: prod.splits sum.splits)
    with st_remove_spec [OF r(1) Cons.prems(2)] True show ?thesis
      by (auto simp: undo_op_def map_of_del_list)
  next
    case False
    then obtain prev t1 where r: "op_prev op = Some prev" "st_insert car_ops E (op_path op) prev t = (Inr (), t1)" "invert_ops E raw ops t1 = Inr t'"
      using Cons.prems(1) by (auto split: prod.splits sum.splits if_splits)
    have "ksorted (st_contents \<sigma> t)" using Cons.prems(2) by (simp add: st_ok_def usable_def)
    with st_insert_spec [OF r(2) Cons.prems(2)] r False show ?thesis
      by (auto simp: undo_op_def map_of_upd_list)
  qed
  then obtain t1 where t1: "invert_ops E raw ops t1 = Inr t'" "st_ok car_ops E \<sigma> t1" "st_store t1 = st_store t"
    "map_of (st_contents \<sigma> t1) = undo_op op (map_of (st_contents \<sigma> t))" by blast
  with Cons.IH [OF t1(1,2)] show ?case by simp
qed simp

lemma fold_undo_other: "k \<notin> op_path ` set ops \<Longrightarrow> fold undo_op ops m k = m k"
  by (induction ops arbitrary: m) (auto simp: undo_op_def)

lemma fold_undo_op:
  assumes "distinct (map op_path ops)" "op \<in> set ops"
  shows "fold undo_op ops m (op_path op) = (if op_action op = lit ''create'' then None else op_prev op)"
  using assms
proof (induction ops arbitrary: m)
  case (Cons o1 ops)
  show ?case
  proof (cases "op = o1")
    case True
    then have "fold undo_op ops (undo_op op m) (op_path op) = undo_op op m (op_path op)"
      using Cons.prems(1) by (intro fold_undo_other) simp
    then show ?thesis using True by (simp add: undo_op_def [of o1])
  qed (use Cons in auto)
qed simp

text \<open>What a successful check of the operations says of the new contents.\<close>

definition op_holds :: "(str \<rightharpoonup> cid) \<Rightarrow> raw_repo_op \<Rightarrow> bool" where
  "op_holds m op \<longleftrightarrow> op_action op \<in> {lit ''create'', lit ''update'', lit ''delete''} \<and> m (op_path op) = op_cid op \<and>
     (op_cid op = None \<longleftrightarrow> op_action op = lit ''delete'')"

lemma action_distinct: "lit ''create'' \<noteq> lit ''delete''" "lit ''update'' \<noteq> lit ''delete''" "lit ''create'' \<noteq> lit ''update''"
  by (simp_all add: of_char_def)

lemma check_ops_spec:
  assumes "check_ops_loop E raw ops t = Inr ()" "st_ok car_ops E \<sigma> t"
  shows "\<forall>op \<in> set ops. op_holds (map_of (st_contents \<sigma> t)) op"
  using assms
proof (induction ops arbitrary: t)
  case (Cons op ops)
  obtain r t1 where g: "st_get car_ops E (op_path op) t = (r, t1)" by fastforce
  note sp = st_get_spec [OF g Cons.prems(2)]
  have "check_ops_loop E raw ops t1 = Inr () \<and> op_holds (map_of (st_contents \<sigma> t)) op"
  proof (cases "op_action op = lit ''create'' \<or> op_action op = lit ''update''")
    case True
    then obtain c where c: "op_cid op = Some c" "r = Inr (Some c)" "check_ops_loop E raw ops t1 = Inr ()"
      using Cons.prems(1) g by (auto simp del: lit_Cons split: option.splits sum.splits if_splits)
    with True sp action_distinct show ?thesis by (auto simp: op_holds_def simp del: lit_Cons)
  next
    case False
    then have "op_action op = lit ''delete''" "op_cid op = None" "r = Inr None" "check_ops_loop E raw ops t1 = Inr ()"
      using Cons.prems(1) g by (auto simp del: lit_Cons split: option.splits sum.splits if_splits)
    with sp show ?thesis by (simp add: op_holds_def del: lit_Cons)
  qed
  with Cons.IH [of t1] sp show ?case by simp
qed simp

end
