(* ===== verification/Car_Stream.thy ===== *)
theory Car_Stream
  imports Car_Correct Repo_Commit
begin

text \<open>
  The other two archive readers of \<open>src/src/car\<close>: \<open>Reader\<close> over a byte source that can fail
  (\<open>reader.rs\<close>), with \<open>read_all\<close> and \<open>verify\<close> (\<open>mod.rs\<close>), and \<open>IncrementalReader\<close> for bytes that
  arrive in chunks (\<open>incremental.rs\<close>). Both are compared with the reader over bytes in memory.
\<close>

section \<open>Byte sources\<close>

text \<open>
  What a \<open>std::io::Read\<close> delivers, byte by byte: data, or an I/O error at that point; the end of
  the list is the end of the source. \<open>read_exact\<close> and \<open>read_to_end\<close> retry an interrupted read.
\<close>

type_synonym io_stream = "(io_kind + u8) list"

fun read_exact :: "nat \<Rightarrow> io_stream \<Rightarrow> bytes \<Rightarrow> (io_kind + bytes) \<times> io_stream" where
  "read_exact 0 s buf = (Inr buf, s)"
| "read_exact (Suc n) [] buf = (Inl UnexpectedEof, [])"
| "read_exact (Suc n) (Inr b # s) buf = read_exact n s (buf @ [b])"
| "read_exact (Suc n) (Inl k # s) buf = (if k = Interrupted then read_exact (Suc n) s buf else (Inl k, s))"

fun take_read_to_end :: "nat \<Rightarrow> io_stream \<Rightarrow> bytes \<Rightarrow> (io_kind option \<times> bytes) \<times> io_stream" where
  "take_read_to_end 0 s buf = ((None, buf), s)"
| "take_read_to_end (Suc n) [] buf = ((None, buf), [])"
| "take_read_to_end (Suc n) (Inr b # s) buf = take_read_to_end n s (buf @ [b])"
| "take_read_to_end (Suc n) (Inl k # s) buf =
     (if k = Interrupted then take_read_to_end (Suc n) s buf else ((Some k, buf), s))"

section \<open>The streaming reader\<close>

record car_reader =
  cr_reader :: io_stream
  cr_roots :: "cid list"

fun read_varint_loop :: "io_stream \<Rightarrow> nat \<Rightarrow> u64 \<Rightarrow> (car_error + u64 option) \<times> io_stream" where
  "read_varint_loop [] i v = (if i = 0 then Inr None else Inl (InvalidBlock ''truncated varint''), [])"
| "read_varint_loop (Inl k # s) i v =
     (if i = 0 \<and> k = UnexpectedEof then Inr None
      else if k = UnexpectedEof then Inl (InvalidBlock ''truncated varint'')
      else Inl (CarIo k), s)"
| "read_varint_loop (Inr b # s) i v =
     (case varint_step v i b of
        Inl e \<Rightarrow> (Inl e, s)
      | Inr (finished, v) \<Rightarrow> if finished then (Inr (Some v), s) else read_varint_loop s (i + 1) v)"

definition read_varint_eof :: "io_stream \<Rightarrow> (car_error + u64 option) \<times> io_stream" where
  "read_varint_eof s = read_varint_loop s 0 0"

definition read_varint :: "io_stream \<Rightarrow> (car_error + u64) \<times> io_stream" where
  "read_varint s =
     (let (r, s) = read_varint_eof s in
      (and_then r (\<lambda>v. ok_or (InvalidHeader ''unexpected EOF reading varint'') v), s))"

definition reader_new :: "(bytes \<Rightarrow> bool) \<Rightarrow> io_stream \<Rightarrow> car_error + car_reader" where
  "reader_new utf8 s =
     (let (r, s) = read_varint s in
      and_then r (\<lambda>len. and_then (check_header_len len) (\<lambda>header_len.
        let (h, s) = read_exact header_len s [] in
        and_then (map_err (\<lambda>k. if k = UnexpectedEof then InvalidHeader ''truncated header'' else CarIo k) h) (\<lambda>header_buf.
          and_then (decode_header utf8 header_buf) (\<lambda>roots. Inr \<lparr>cr_reader = s, cr_roots = roots\<rparr>)))))"

text \<open>On an error the block may be half overwritten, as in the code.\<close>

definition next_block_into :: "car_reader \<Rightarrow> car_block \<Rightarrow> (car_error + bool) \<times> car_block \<times> car_reader" where
  "next_block_into r block =
     (let (len, s) = read_varint_eof (cr_reader r) in
      case len of
        Inl e \<Rightarrow> (Inl e, block, r\<lparr>cr_reader := s\<rparr>)
      | Inr None \<Rightarrow> (Inr False, block, r\<lparr>cr_reader := s\<rparr>)
      | Inr (Some block_len) \<Rightarrow>
          (case check_block_len block_len of
             Inl e \<Rightarrow> (Inl e, block, r\<lparr>cr_reader := s\<rparr>)
           | Inr block_len \<Rightarrow>
               let (c, s) = read_exact CID_LEN s [] in
               case c of
                 Inl k \<Rightarrow> (Inl (if k = UnexpectedEof then InvalidBlock ''truncated block data'' else CarIo k),
                            block, r\<lparr>cr_reader := s\<rparr>)
               | Inr cid_buf \<Rightarrow>
                   (case cid_from_bytes cid_buf of
                      Inl e \<Rightarrow> (Inl (CarCbor e), block, r\<lparr>cr_reader := s\<rparr>)
                    | Inr cid \<Rightarrow>
                        let data_len = block_len - CID_LEN;
                            ((err, data), s) = take_read_to_end data_len s [];
                            block = block\<lparr>b_cid := cid, b_data := data\<rparr>;
                            r = r\<lparr>cr_reader := s\<rparr>
                        in case err of
                             Some k \<Rightarrow> (Inl (CarIo k), block, r)
                           | None \<Rightarrow>
                               if length data \<noteq> data_len
                               then (Inl (InvalidBlock ''truncated block data''), block, r)
                               else (Inr True, block, r))))"

definition block_default :: car_block where
  "block_default = \<lparr>b_cid = cid_zeroed, b_data = []\<rparr>"

definition reader_next_block :: "car_reader \<Rightarrow> (car_error + car_block option) \<times> car_reader" where
  "reader_next_block r =
     (let (res, block, r) = next_block_into r block_default in
      (and_then res (\<lambda>got. Inr (if got then Some block else None)), r))"

lemma read_exact_length: "length (snd (read_exact n s buf)) \<le> length s"
  by (induction n s buf rule: read_exact.induct) auto

lemma take_read_to_end_length: "length (snd (take_read_to_end n s buf)) \<le> length s"
  by (induction n s buf rule: take_read_to_end.induct) auto

lemma read_varint_loop_shorter:
  "read_varint_loop s i v = (Inr (Some w), s') \<Longrightarrow> length s' < length s"
  by (induction s i v rule: read_varint_loop.induct)
    (auto split: if_splits sum.splits prod.splits simp: less_Suc_eq)

lemma next_block_into_shorter:
  assumes "next_block_into r block = (Inr True, block', r')"
  shows "length (cr_reader r') < length (cr_reader r)"
proof -
  obtain len s where v: "read_varint_eof (cr_reader r) = (len, s)" by fastforce
  obtain c s1 where c: "read_exact CID_LEN s [] = (c, s1)" by fastforce
  from assms v c obtain w where w: "len = Inr (Some w)"
    by (auto simp: next_block_into_def split: sum.splits option.splits)
  then have "length s < length (cr_reader r)" using v by (auto simp: read_varint_eof_def dest: read_varint_loop_shorter)
  moreover have "length s1 \<le> length s" using read_exact_length [of CID_LEN s "[]"] c by simp
  moreover obtain n x where "take_read_to_end n s1 [] = (x, cr_reader r')"
    using assms v c w by (auto simp: next_block_into_def Let_def split: sum.splits option.splits prod.splits if_splits)
  then have "length (cr_reader r') \<le> length s1" using take_read_to_end_length [of n s1 "[]"] by simp
  ultimately show ?thesis by linarith
qed

function read_all_blocks :: "car_reader \<Rightarrow> car_block list \<Rightarrow> car_error + car_block list" where
  "read_all_blocks r blocks =
     (case reader_next_block r of
        (Inl e, _) \<Rightarrow> Inl e
      | (Inr None, _) \<Rightarrow> Inr blocks
      | (Inr (Some block), r) \<Rightarrow> read_all_blocks r (blocks @ [block]))"
  by pat_completeness auto
termination read_all_blocks
proof (relation "measure (\<lambda>(r, _). length (cr_reader r))", goal_cases)
  case (2 r blocks _ r' _ block)
  then have "reader_next_block r = (Inr (Some block), r')" by simp
  then have "next_block_into r block_default = (Inr True, block, r')"
    by (auto simp: reader_next_block_def and_then_eq_Inr split: prod.splits if_splits)
  then show ?case by (simp add: next_block_into_shorter)
qed simp

declare read_all_blocks.simps [simp del]

definition read_all :: "(bytes \<Rightarrow> bool) \<Rightarrow> io_stream \<Rightarrow> car_error + (cid list \<times> car_block list)" where
  "read_all utf8 s =
     and_then (reader_new utf8 s) (\<lambda>car.
       and_then (read_all_blocks car []) (\<lambda>blocks. Inr (cr_roots car, blocks)))"

text \<open>\<open>verify\<close> reuses one block across the calls.\<close>

function verify_blocks_loop :: "compress_fn \<Rightarrow> car_reader \<Rightarrow> car_block \<Rightarrow> car_error + unit" where
  "verify_blocks_loop compress r block =
     (case next_block_into r block of
        (Inl e, _, _) \<Rightarrow> Inl e
      | (Inr got, block, r) \<Rightarrow>
          if got then
            let computed = cid_compute compress (cid_codec (b_cid block)) (b_data block) in
            if b_cid block \<noteq> computed then Inl (InvalidBlock ''CID mismatch for block'')
            else verify_blocks_loop compress r block
          else Inr ())"
  by pat_completeness auto
termination verify_blocks_loop
  by (relation "measure (\<lambda>(_, r, _). length (cr_reader r))") (auto dest: next_block_into_shorter [OF sym])

declare verify_blocks_loop.simps [simp del]

definition car_verify :: "compress_fn \<Rightarrow> (bytes \<Rightarrow> bool) \<Rightarrow> io_stream \<Rightarrow> car_error + unit" where
  "car_verify compress utf8 s = and_then (reader_new utf8 s) (\<lambda>car. verify_blocks_loop compress car block_default)"

section \<open>The chunk-fed reader\<close>

record inc_reader =
  ir_buf :: bytes
  ir_pos :: nat
  ir_roots :: "cid list option"

definition inc_new :: inc_reader where
  "inc_new = \<lparr>ir_buf = [], ir_pos = 0, ir_roots = None\<rparr>"

definition inc_push :: "bytes \<Rightarrow> inc_reader \<Rightarrow> inc_reader" where
  "inc_push chunk r =
     (let r = (if ir_pos r > 0 then r\<lparr>ir_buf := drop (ir_pos r) (ir_buf r), ir_pos := 0\<rparr> else r) in
      r\<lparr>ir_buf := ir_buf r @ chunk\<rparr>)"

text \<open>A range of the buffer is its two ends.\<close>

definition next_frame :: "(u64 \<Rightarrow> car_error + nat) \<Rightarrow> inc_reader \<Rightarrow> (car_error + (nat \<times> nat) option) \<times> inc_reader" where
  "next_frame check_len r =
     (let rest = drop (ir_pos r) (ir_buf r) in
      case varint_from_slice rest of
        Inl e \<Rightarrow> (Inl e, r)
      | Inr None \<Rightarrow> (Inr None, r)
      | Inr (Some (len, pre)) \<Rightarrow>
          (case check_len len of
             Inl e \<Rightarrow> (Inl e, r)
           | Inr len \<Rightarrow>
               if length rest - pre < len then (Inr None, r)
               else let start = ir_pos r + pre in
                 (Inr (Some (start, start + len)), r\<lparr>ir_pos := start + len\<rparr>)))"

definition slice_range :: "nat \<times> nat \<Rightarrow> bytes \<Rightarrow> bytes" where
  "slice_range rng buf = take (snd rng - fst rng) (drop (fst rng) buf)"

definition read_header :: "(bytes \<Rightarrow> bool) \<Rightarrow> inc_reader \<Rightarrow> (car_error + bool) \<times> inc_reader" where
  "read_header utf8 r =
     (if ir_roots r = None then
        (case next_frame check_header_len r of
           (Inl e, r) \<Rightarrow> (Inl e, r)
         | (Inr None, r) \<Rightarrow> (Inr False, r)
         | (Inr (Some header), r) \<Rightarrow>
             (case decode_header utf8 (slice_range header (ir_buf r)) of
                Inl e \<Rightarrow> (Inl e, r)
              | Inr roots \<Rightarrow> (Inr True, r\<lparr>ir_roots := Some roots\<rparr>)))
      else (Inr True, r))"

definition inc_next_block :: "(bytes \<Rightarrow> bool) \<Rightarrow> inc_reader \<Rightarrow> (car_error + car_block option) \<times> inc_reader" where
  "inc_next_block utf8 r =
     (case read_header utf8 r of
        (Inl e, r) \<Rightarrow> (Inl e, r)
      | (Inr False, r) \<Rightarrow> (Inr None, r)
      | (Inr True, r) \<Rightarrow>
          (case next_frame check_block_len r of
             (Inl e, r) \<Rightarrow> (Inl e, r)
           | (Inr None, r) \<Rightarrow> (Inr None, r)
           | (Inr (Some rng), r) \<Rightarrow>
               let frame = slice_range rng (ir_buf r) in
               (and_then (map_err CarCbor (cid_from_bytes (take CID_LEN frame))) (\<lambda>cid.
                  Inr (Some \<lparr>b_cid = cid, b_data = drop CID_LEN frame\<rparr>)), r)))"

definition next_block_data_len :: "(bytes \<Rightarrow> bool) \<Rightarrow> inc_reader \<Rightarrow> (car_error + nat option) \<times> inc_reader" where
  "next_block_data_len utf8 r =
     (case read_header utf8 r of
        (Inl e, r) \<Rightarrow> (Inl e, r)
      | (Inr False, r) \<Rightarrow> (Inr None, r)
      | (Inr True, r) \<Rightarrow>
          (and_then (varint_from_slice (drop (ir_pos r) (ir_buf r))) (\<lambda>m.
             case m of None \<Rightarrow> Inr None
             | Some (len, _) \<Rightarrow> and_then (check_block_len len) (\<lambda>len. Inr (Some (len - CID_LEN)))), r))"

definition inc_finish :: "inc_reader \<Rightarrow> car_error + unit" where
  "inc_finish r =
     (let rest = drop (ir_pos r) (ir_buf r) in
      if ir_roots r = None then
        Inl (InvalidHeader (if rest = [] then ''unexpected EOF reading varint'' else ''truncated header''))
      else if rest = [] then Inr ()
      else and_then (varint_from_slice rest) (\<lambda>m.
        Inl (InvalidBlock (case m of Some _ \<Rightarrow> ''truncated block data'' | None \<Rightarrow> ''truncated varint''))))"

text \<open>The download loop of \<open>SyncClient::get_repo\<close>: every chunk is pushed and the reader drained.\<close>

datatype sync_error =
    SyncMsg string
  | ResponseTooLarge
  | Network
  | SyncCar car_error
  | SyncRepo repo_error
  | Verification string

definition DEFAULT_MAX_REPO_CAR_BYTES :: nat where
  "DEFAULT_MAX_REPO_CAR_BYTES = 512 * 1024 * 1024"

definition unread :: "inc_reader \<Rightarrow> bytes" where
  "unread r = drop (ir_pos r) (ir_buf r)"

lemma next_frame_shorter:
  "next_frame check r = (Inr (Some rng), r') \<Longrightarrow> length (unread r') < length (unread r)"
  "next_frame check r = (res, r') \<Longrightarrow> ir_roots r' = ir_roots r \<and> length (unread r') \<le> length (unread r)"
proof -
  have pre: "varint_from_slice bs = Inr (Some (len, pre)) \<Longrightarrow> 0 < pre \<and> pre \<le> length bs" for bs len pre
    unfolding varint_from_slice_iff by auto
  show "next_frame check r = (Inr (Some rng), r') \<Longrightarrow> length (unread r') < length (unread r)"
    by (auto simp: next_frame_def unread_def Let_def split: sum.splits option.splits if_splits dest!: pre)
  show "next_frame check r = (res, r') \<Longrightarrow> ir_roots r' = ir_roots r \<and> length (unread r') \<le> length (unread r)"
    by (auto simp: next_frame_def unread_def Let_def split: sum.splits option.splits if_splits)
qed

lemma inc_next_block_shorter:
  assumes "inc_next_block utf8 r = (Inr (Some b), r')"
  shows "length (unread r') < length (unread r)"
proof -
  obtain r1 where h: "read_header utf8 r = (Inr True, r1)" and f: "\<exists>rng. next_frame check_block_len r1 = (Inr (Some rng), r')"
    using assms by (auto simp: inc_next_block_def Let_def split: prod.splits sum.splits bool.splits option.splits)
  have "length (unread r1) \<le> length (unread r)"
    using h next_frame_shorter(2) [of check_header_len r]
    by (auto simp: read_header_def unread_def split: if_splits prod.splits sum.splits option.splits)
  then show ?thesis using f next_frame_shorter(1) by fastforce
qed

function drain_blocks :: "(bytes \<Rightarrow> bool) \<Rightarrow> inc_reader \<Rightarrow> car_block list \<Rightarrow> car_error + (inc_reader \<times> car_block list)" where
  "drain_blocks utf8 r blocks =
     (case inc_next_block utf8 r of
        (Inl e, _) \<Rightarrow> Inl e
      | (Inr None, r) \<Rightarrow> Inr (r, blocks)
      | (Inr (Some b), r) \<Rightarrow> drain_blocks utf8 r (blocks @ [b]))"
  by pat_completeness auto
termination drain_blocks
  by (relation "measure (\<lambda>(_, r, _). length (unread r))") (auto dest: inc_next_block_shorter [OF sym])

declare drain_blocks.simps [simp del]

fun download_loop :: "(bytes \<Rightarrow> bool) \<Rightarrow> (sync_error + bytes) list \<Rightarrow> nat \<Rightarrow> inc_reader \<Rightarrow> car_block list \<Rightarrow>
    sync_error + (inc_reader \<times> car_block list)" where
  "download_loop utf8 [] n r blocks = Inr (r, blocks)"
| "download_loop utf8 (chunk # chunks) n r blocks =
     and_then chunk (\<lambda>chunk.
       let n = n + length chunk in
       if n > DEFAULT_MAX_REPO_CAR_BYTES then Inl ResponseTooLarge
       else and_then (map_err SyncCar (drain_blocks utf8 (inc_push chunk r) blocks)) (\<lambda>(r, blocks).
         download_loop utf8 chunks n r blocks))"

definition download_car :: "(bytes \<Rightarrow> bool) \<Rightarrow> (sync_error + bytes) list \<Rightarrow> sync_error + (cid list option \<times> car_block list)" where
  "download_car utf8 chunks =
     and_then (download_loop utf8 chunks 0 inc_new []) (\<lambda>(r, blocks).
       and_then (map_err SyncCar (inc_finish r)) (\<lambda>_. Inr (ir_roots r, blocks)))"

section \<open>The streaming reader agrees with the reader in memory\<close>

lemma read_exact_data:
  "read_exact n (map Inr bs) buf =
     (if n \<le> length bs then (Inr (buf @ take n bs), map Inr (drop n bs)) else (Inl UnexpectedEof, []))"
  by (induction n arbitrary: bs buf; case_tac bs) auto

lemma take_read_to_end_data:
  "take_read_to_end n (map Inr bs) buf = ((None, buf @ take n bs), map Inr (drop n bs))"
  by (induction n arbitrary: bs buf; case_tac bs) auto

lemma read_varint_loop_data:
  "fst (read_varint_loop (map Inr bs) i v) =
     (case varint_loop bs i v of
        Inl e \<Rightarrow> Inl e
      | Inr None \<Rightarrow> if i = 0 \<and> bs = [] then Inr None else Inl (InvalidBlock ''truncated varint'')
      | Inr (Some (w, k)) \<Rightarrow> Inr (Some w))"
  by (induction bs arbitrary: i v) (auto simp: and_then_def split: sum.split prod.split option.split)

lemma read_varint_loop_rest:
  "varint_loop bs i v = Inr (Some (w, k)) \<Longrightarrow> i < k \<and> snd (read_varint_loop (map Inr bs) i v) = map Inr (drop (k - i) bs)"
proof (induction bs arbitrary: i v)
  case (Cons b bs)
  obtain f u where s: "varint_step v i b = Inr (f, u)" using Cons.prems by (cases "varint_step v i b") auto
  show ?case
  proof (cases f)
    case True
    with s Cons.prems show ?thesis by auto
  next
    case False
    with s Cons.prems have "varint_loop bs (i + 1) u = Inr (Some (w, k))" by simp
    from Cons.IH [OF this] s False show ?thesis by (auto simp: Suc_diff_Suc [symmetric])
  qed
qed simp

lemma next_block_into_empty: "cr_reader r = [] \<Longrightarrow> next_block_into r b = (Inr False, b, r)"
  by (simp add: next_block_into_def read_varint_eof_def)

lemma next_block_into_data:
  assumes r: "cr_reader r = map Inr bs" and ne: "bs \<noteq> []"
  shows "split_block bs = Inl e \<Longrightarrow> fst (next_block_into r b) = Inl e"
    and "split_block bs = Inr (blk, rest) \<Longrightarrow> next_block_into r b = (Inr True, blk, r\<lparr>cr_reader := map Inr rest\<rparr>)"
proof -
  obtain l s where v: "read_varint_eof (cr_reader r) = (l, s)" by fastforce
  have l: "l = (case varint_from_slice bs of Inl e \<Rightarrow> Inl e | Inr None \<Rightarrow> Inl (InvalidBlock ''truncated varint'')
      | Inr (Some (w, k)) \<Rightarrow> Inr (Some w))"
    using read_varint_loop_data [of bs 0 0] v r ne by (simp add: read_varint_eof_def varint_from_slice_def)
  have s: "varint_from_slice bs = Inr (Some (w, k)) \<Longrightarrow> s = map Inr (drop k bs) \<and> k \<le> length bs" for w k
    using read_varint_loop_rest [of bs 0 0 w k] v r varint_from_slice_iff [of bs w k]
    by (auto simp: read_varint_eof_def varint_from_slice_def)
  have "(\<forall>e. split_block bs = Inl e \<longrightarrow> fst (next_block_into r b) = Inl e) \<and>
    (\<forall>blk rest. split_block bs = Inr (blk, rest) \<longrightarrow> next_block_into r b = (Inr True, blk, r\<lparr>cr_reader := map Inr rest\<rparr>))"
  proof (cases "varint_from_slice bs")
    case (Inl e)
    with v l show ?thesis by (simp add: next_block_into_def split_block_def block_prefix_varint)
  next
    case m: (Inr m)
    show ?thesis
    proof (cases m)
      case None
      with v l m show ?thesis by (simp add: next_block_into_def split_block_def block_prefix_varint)
    next
      case (Some p)
      obtain w k where p: "p = (w, k)" by fastforce
      have s: "s = map Inr (drop k bs)" "k \<le> length bs" and l: "l = Inr (Some w)" using s [of w k] l m Some p by auto
      have ge: "check_block_len w = Inr n \<Longrightarrow> CID_LEN \<le> n" for n by (simp add: check_block_len_iff CID_LEN_def)
      have pre: "block_prefix bs = Inr (w, k)" by (simp add: block_prefix_varint m Some p)
      show ?thesis
        unfolding next_block_into_def split_block_def pre v l s(1)
        using s(2) ge
        by (auto simp: read_exact_data take_read_to_end_data split_at_checked_def Let_def drop_take
            split: sum.splits)
    qed
  qed
  then show "split_block bs = Inl e \<Longrightarrow> fst (next_block_into r b) = Inl e"
    "split_block bs = Inr (blk, rest) \<Longrightarrow> next_block_into r b = (Inr True, blk, r\<lparr>cr_reader := map Inr rest\<rparr>)"
    by blast+
qed

lemma read_all_blocks_data:
  "cr_reader r = map Inr (sr_rest sr) \<Longrightarrow> read_all_blocks r acc = read_blocks sr acc"
proof (induction "length (sr_rest sr)" arbitrary: r sr acc rule: less_induct)
  case less
  show ?case
  proof (cases "sr_rest sr = []")
    case True
    then show ?thesis using less.prems
      by (subst read_all_blocks.simps, subst read_blocks.simps) (simp add: slice_next_def reader_next_block_def next_block_into_empty)
  next
    case ne: False
    show ?thesis
    proof (cases "split_block (sr_rest sr)")
      case (Inl e)
      have "fst (reader_next_block r) = Inl e"
        using next_block_into_data(1) [OF less.prems ne Inl, of block_default] by (auto simp: reader_next_block_def split: prod.splits)
      then show ?thesis using Inl ne
        by (subst read_all_blocks.simps, subst read_blocks.simps) (auto simp: slice_next_def split: prod.splits)
    next
      case (Inr p)
      obtain b rest where p: "p = (b, rest)" by fastforce
      have "reader_next_block r = (Inr (Some b), r\<lparr>cr_reader := map Inr rest\<rparr>)"
        using next_block_into_data(2) [OF less.prems ne] Inr p by (simp add: reader_next_block_def)
      moreover have "read_all_blocks (r\<lparr>cr_reader := map Inr rest\<rparr>) (acc @ [b]) = read_blocks (sr\<lparr>sr_rest := rest\<rparr>) (acc @ [b])"
        using less.hyps [of "sr\<lparr>sr_rest := rest\<rparr>" "r\<lparr>cr_reader := map Inr rest\<rparr>"] Inr p split_block_shorter by simp
      ultimately show ?thesis using Inr ne p
        by (subst read_all_blocks.simps, subst read_blocks.simps) (simp add: slice_next_def)
    qed
  qed
qed

lemma reader_new_data:
  "reader_new utf8 (map Inr car) =
     and_then (slice_new utf8 car) (\<lambda>sr. Inr \<lparr>cr_reader = map Inr (sr_rest sr), cr_roots = sr_roots sr\<rparr>)"
proof -
  obtain l s where v: "read_varint_loop (map Inr car) 0 0 = (l, s)" by fastforce
  have l: "l = (case varint_from_slice car of Inl e \<Rightarrow> Inl e
      | Inr None \<Rightarrow> if car = [] then Inr None else Inl (InvalidBlock ''truncated varint'')
      | Inr (Some (w, k)) \<Rightarrow> Inr (Some w))"
    using read_varint_loop_data [of car 0 0] v by (simp add: varint_from_slice_def)
  have s: "varint_from_slice car = Inr (Some (w, k)) \<Longrightarrow> s = map Inr (drop k car)" for w k
    using read_varint_loop_rest [of car 0 0 w k] v by (auto simp: varint_from_slice_def)
  show ?thesis
  proof (cases "\<exists>w k. varint_from_slice car = Inr (Some (w, k))")
    case True
    then obtain w k where m: "varint_from_slice car = Inr (Some (w, k))" by blast
    have "l = Inr (Some w)" "s = map Inr (drop k car)" using l s m by auto
    with v m show ?thesis
      by (simp add: reader_new_def read_varint_def read_varint_eof_def slice_new_def read_exact_data split_at_checked_def
          and_then_def ok_or_def map_err_def split: sum.split)
  next
    case False
    with v l show ?thesis
      by (auto simp: reader_new_def read_varint_def read_varint_eof_def slice_new_def and_then_def ok_or_def
          split: sum.splits option.splits)
  qed
qed

text \<open>\<open>verify\<close> accepts exactly the archives that read and whose blocks hash to their CIDs.\<close>

lemma verify_blocks_loop_data:
  "cr_reader r = map Inr (sr_rest sr) \<Longrightarrow> verify_blocks_loop compress r blk = Inr () \<longleftrightarrow>
     (\<exists>bs. read_blocks sr acc = Inr (acc @ bs) \<and> (\<forall>b \<in> set bs. b_cid b = cid_compute compress (cid_codec (b_cid b)) (b_data b)))"
proof (induction "length (sr_rest sr)" arbitrary: r sr acc blk rule: less_induct)
  case less
  show ?case
  proof (cases "sr_rest sr = []")
    case True
    then show ?thesis using less.prems
      by (subst verify_blocks_loop.simps, subst read_blocks.simps) (simp add: slice_next_def next_block_into_empty)
  next
    case ne: False
    show ?thesis
    proof (cases "split_block (sr_rest sr)")
      case (Inl e)
      then show ?thesis using ne next_block_into_data(1) [OF less.prems ne Inl, of blk]
        by (subst verify_blocks_loop.simps, subst read_blocks.simps) (auto simp: slice_next_def split: prod.splits)
    next
      case (Inr p)
      obtain b rest where p: "p = (b, rest)" by fastforce
      let ?sr = "sr\<lparr>sr_rest := rest\<rparr>" and ?r = "r\<lparr>cr_reader := map Inr rest\<rparr>"
      have rb: "read_blocks sr acc = read_blocks ?sr (acc @ [b])" using Inr ne p by (subst read_blocks.simps) (simp add: slice_next_def)
      have ex: "read_blocks ?sr (acc @ [b]) = Inr (acc @ bs) \<Longrightarrow> \<exists>cs. bs = b # cs" for bs
        unfolding read_blocks_iff by auto
      have "verify_blocks_loop compress r blk = Inr () \<longleftrightarrow> b_cid b = cid_compute compress (cid_codec (b_cid b)) (b_data b) \<and>
          verify_blocks_loop compress ?r b = Inr ()"
        using next_block_into_data(2) [OF less.prems ne] Inr p by (subst verify_blocks_loop.simps) simp
      then show ?thesis
        using less.hyps [of ?sr ?r b "acc @ [b]"] Inr p split_block_shorter ex unfolding rb by fastforce
    qed
  qed
qed

lemma car_verify_iff:
  "car_verify compress utf8 (map Inr car) = Inr () \<longleftrightarrow>
     (\<exists>roots bs. car_read_slice utf8 car = Inr (roots, bs) \<and> (\<forall>b \<in> set bs. b_cid b = cid_compute compress (cid_codec (b_cid b)) (b_data b)))"
  unfolding car_verify_def car_read_slice_def reader_new_data
  by (cases "slice_new utf8 car") (auto simp: verify_blocks_loop_data [where acc = "[]"] and_then_eq_Inr)

text \<open>
  The streaming reader over a source that delivers the bytes without I/O errors returns
  exactly what the reader in memory returns, blocks and errors alike.
\<close>

lemma read_all_read_slice: "read_all utf8 (map Inr car) = car_read_slice utf8 car"
  unfolding read_all_def car_read_slice_def reader_new_data
  by (cases "slice_new utf8 car") (simp_all add: read_all_blocks_data)

section \<open>The chunk-fed reader agrees with the reader in memory\<close>

text \<open>A varint decoder never revises a verdict when more bytes arrive.\<close>

lemma varint_loop_mono:
  "varint_loop u i v = Inl e \<Longrightarrow> varint_loop (u @ x) i v = Inl e"
  "varint_loop u i v = Inr (Some p) \<Longrightarrow> varint_loop (u @ x) i v = Inr (Some p)"
  by (induction u arbitrary: i v) (auto simp: and_then_def split: sum.splits prod.splits if_splits)

lemma varint_from_slice_prefix:
  assumes "u @ x = leb n @ rest" "n < 2 ^ 63"
  shows "varint_from_slice u = (if length (leb n) \<le> length u then Inr (Some (of_nat n, length (leb n))) else Inr None)"
proof -
  have full: "varint_from_slice (u @ x) = Inr (Some (of_nat n, length (leb n)))"
    unfolding varint_from_slice_iff using assms by blast
  show ?thesis
  proof (cases "varint_from_slice u")
    case (Inl e)
    with full show ?thesis using varint_loop_mono(1) unfolding varint_from_slice_def by fastforce
  next
    case (Inr m)
    show ?thesis
    proof (cases m)
      case None
      have "\<not> length (leb n) \<le> length u"
      proof
        assume "length (leb n) \<le> length u"
        then have "u = leb n @ drop (length (leb n)) u" using assms(1) by (metis append_eq_append_conv_if append_take_drop_id)
        then have "varint_from_slice u = Inr (Some (of_nat n, length (leb n)))" unfolding varint_from_slice_iff using assms(2) by blast
        with Inr None show False by simp
      qed
      with Inr None show ?thesis by simp
    next
      case (Some p)
      then have "varint_from_slice (u @ x) = Inr (Some p)" using Inr varint_loop_mono(2) unfolding varint_from_slice_def by fastforce
      then have p: "p = (of_nat n, length (leb n))" using full by simp
      then have "length (leb n) \<le> length u" using Inr Some varint_from_slice_iff [of u "of_nat n" "length (leb n)"] by auto
      with Inr Some p show ?thesis by simp
    qed
  qed
qed

definition inc_ok :: "inc_reader \<Rightarrow> bool" where
  "inc_ok r \<longleftrightarrow> ir_pos r \<le> length (ir_buf r)"

lemma inc_push_unread: "inc_ok r \<Longrightarrow> unread (inc_push c r) = unread r @ c \<and> ir_roots (inc_push c r) = ir_roots r \<and> inc_ok (inc_push c r)"
  by (auto simp: inc_push_def unread_def inc_ok_def)

lemma next_frame_sound:
  assumes "next_frame check r = (Inr (Some rng), r')" "inc_ok r"
  obtains n len where "n < 2 ^ 63" "check (of_nat n) = Inr len" "length (slice_range rng (ir_buf r')) = len"
    "unread r = leb n @ slice_range rng (ir_buf r') @ unread r'" "ir_roots r' = ir_roots r" "inc_ok r'"
proof -
  obtain w pre len where v: "varint_from_slice (unread r) = Inr (Some (w, pre))" "check w = Inr len"
    "\<not> length (unread r) - pre < len" "rng = (ir_pos r + pre, ir_pos r + pre + len)" "r' = r\<lparr>ir_pos := ir_pos r + pre + len\<rparr>"
    using assms(1) by (auto simp: next_frame_def unread_def Let_def split: sum.splits option.splits if_splits)
  from v(1) obtain n rest where n: "n < 2 ^ 63" "unread r = leb n @ rest" "pre = length (leb n)" "w = of_nat n"
    unfolding varint_from_slice_iff by blast
  have rest: "rest = drop (ir_pos r + pre) (ir_buf r)" using n unfolding unread_def by (metis append_eq_conv_conj drop_drop add.commute)
  have len: "len \<le> length rest" using v(3) n by simp
  have sl: "slice_range rng (ir_buf r') = take len rest" using v rest by (simp add: slice_range_def)
  have un: "unread r' = drop len rest" using v rest by (simp add: unread_def add.commute)
  have "pre + length rest = length (ir_buf r) - ir_pos r" using n unfolding unread_def by (metis length_append length_drop)
  then have ok: "inc_ok r'" using assms(2) v(5) len by (simp add: inc_ok_def)
  have un': "unread r = leb n @ slice_range rng (ir_buf r') @ unread r'" unfolding sl un using n(2) by simp
  have "length (slice_range rng (ir_buf r')) = len" "check (of_nat n) = Inr len" "ir_roots r' = ir_roots r"
    using sl len v(2,5) n(4) by simp_all
  then show ?thesis using that n(1) un' ok by blast
qed

lemma next_frame_ahead:
  assumes u: "unread r @ x = leb (length body) @ body @ rest" and n: "length body < 2 ^ 63"
    and c: "check (of_nat (length body)) = Inr (length body)" and ok: "inc_ok r"
  shows "length (leb (length body)) + length body \<le> length (unread r) \<Longrightarrow>
      \<exists>rng r'. next_frame check r = (Inr (Some rng), r') \<and> slice_range rng (ir_buf r') = body \<and>
        unread r' @ x = rest \<and> ir_roots r' = ir_roots r \<and> inc_ok r'"
    and "\<not> length (leb (length body)) + length body \<le> length (unread r) \<Longrightarrow> next_frame check r = (Inr None, r)"
proof -
  let ?n = "length body"
  note v = varint_from_slice_prefix [OF u n]
  show "\<not> length (leb ?n) + ?n \<le> length (unread r) \<Longrightarrow> next_frame check r = (Inr None, r)"
    using v c by (auto simp: next_frame_def Let_def unread_def [symmetric])
  assume le: "length (leb ?n) + ?n \<le> length (unread r)"
  let ?r = "r\<lparr>ir_pos := ir_pos r + length (leb ?n) + ?n\<rparr>"
  let ?rng = "(ir_pos r + length (leb ?n), ir_pos r + length (leb ?n) + ?n)"
  have f: "next_frame check r = (Inr (Some ?rng), ?r)"
    using v c le by (auto simp: next_frame_def Let_def unread_def [symmetric])
  obtain m len where m: "m < 2 ^ 63" "check (of_nat m) = Inr len" "length (slice_range ?rng (ir_buf ?r)) = len"
    "unread r = leb m @ slice_range ?rng (ir_buf ?r) @ unread ?r" "inc_ok ?r"
    using next_frame_sound [OF f ok] by blast
  have "varint_from_slice (unread r) = Inr (Some (of_nat m, length (leb m)))" unfolding varint_from_slice_iff using m by blast
  then have "length (leb m) = length (leb ?n)" using v le by simp
  then have "leb m = leb ?n" using u unfolding m(4) by simp
  moreover have "length (slice_range ?rng (ir_buf ?r)) = ?n"
    using le ok by (simp add: slice_range_def unread_def inc_ok_def)
  ultimately have "slice_range ?rng (ir_buf ?r) = body" "unread ?r @ x = rest" using u m(4) by auto
  with f m(5) show "\<exists>rng r'. next_frame check r = (Inr (Some rng), r') \<and> slice_range rng (ir_buf r') = body \<and>
        unread r' @ x = rest \<and> ir_roots r' = ir_roots r \<and> inc_ok r'" by auto
qed

definition block_frame :: "car_block \<Rightarrow> bytes" where
  "block_frame b = cid_to_bytes (b_cid b) @ b_data b"

lemma enc_block_frame: "cid_valid (b_cid b) \<Longrightarrow> enc_block b = leb (length (block_frame b)) @ block_frame b"
  by (simp add: enc_block_def block_frame_def)

text \<open>What has been consumed is the archive read so far: a header and whole blocks.\<close>

definition inc_inv :: "(bytes \<Rightarrow> bool) \<Rightarrow> bytes \<Rightarrow> car_block list \<Rightarrow> inc_reader \<Rightarrow> bool" where
  "inc_inv utf8 P B r \<longleftrightarrow> inc_ok r \<and>
     (case ir_roots r of
        None \<Rightarrow> B = [] \<and> unread r = P
      | Some roots \<Rightarrow> \<exists>hdr. P = car_bytes hdr B @ unread r \<and> length hdr \<le> 2 ^ 20 \<and>
          decode_header utf8 hdr = Inr roots \<and> (\<forall>b \<in> set B. block_ok b))"

lemma read_header_sound:
  assumes "read_header utf8 r = (Inr got, r')" "inc_inv utf8 P B r"
  shows "inc_inv utf8 P B r' \<and> (got \<longrightarrow> ir_roots r' \<noteq> None)"
proof (cases "ir_roots r = None \<and> got")
  case True
  obtain h roots r1 where f: "next_frame check_header_len r = (Inr (Some h), r1)"
    "decode_header utf8 (slice_range h (ir_buf r1)) = Inr roots" "r' = r1\<lparr>ir_roots := Some roots\<rparr>"
    using assms(1) True by (auto simp: read_header_def split: prod.splits sum.splits option.splits)
  have ok: "inc_ok r" "B = []" "unread r = P" using assms(2) True by (auto simp: inc_inv_def)
  obtain n len where n: "n < 2 ^ 63" "check_header_len (of_nat n) = Inr len" "length (slice_range h (ir_buf r1)) = len"
    "unread r = leb n @ slice_range h (ir_buf r1) @ unread r1" "inc_ok r1" using next_frame_sound [OF f(1) ok(1)] by blast
  have "unat (of_nat n :: u64) = n" using n(1) by (simp add: unat_of_nat)
  then have "len = n" "n \<le> 2 ^ 20" using n(2) by (simp_all add: check_header_len_iff)
  then have "P = car_bytes (slice_range h (ir_buf r1)) B @ unread r'" "length (slice_range h (ir_buf r1)) \<le> 2 ^ 20" "inc_ok r'"
    using n ok f(3) by (simp_all add: car_bytes_def unread_def inc_ok_def)
  then show ?thesis using f ok(2) unfolding inc_inv_def by auto
next
  case False
  then show ?thesis using assms by (auto simp: read_header_def next_frame_def Let_def split: prod.splits sum.splits option.splits if_splits)
qed

lemma inc_next_block_sound:
  assumes "inc_next_block utf8 r = (Inr m, r')" "inc_inv utf8 P B r"
  shows "inc_inv utf8 P (case m of None \<Rightarrow> B | Some b \<Rightarrow> B @ [b]) r'"
proof -
  obtain got r1 where h: "read_header utf8 r = (Inr got, r1)" using assms(1) by (auto simp: inc_next_block_def split: prod.splits sum.splits)
  have i: "inc_inv utf8 P B r1" "got \<Longrightarrow> ir_roots r1 \<noteq> None" using read_header_sound [OF h assms(2)] by auto
  show ?thesis
  proof (cases m)
    case None
    have "r' = r1"
      using assms(1) h None by (auto simp: inc_next_block_def next_frame_def Let_def and_then_eq_Inr split: bool.splits prod.splits sum.splits option.splits if_splits)
    with None i show ?thesis by simp
  next
    case (Some b)
    obtain rng where f: "next_frame check_block_len r1 = (Inr (Some rng), r')" "got"
      and c: "cid_from_bytes (take CID_LEN (slice_range rng (ir_buf r'))) = Inr (b_cid b)" "b_data b = drop CID_LEN (slice_range rng (ir_buf r'))"
      using assms(1) h Some by (auto simp: inc_next_block_def Let_def and_then_eq_Inr split: bool.splits prod.splits sum.splits option.splits)
    let ?f = "slice_range rng (ir_buf r')"
    obtain roots hdr where p: "ir_roots r1 = Some roots" "P = car_bytes hdr B @ unread r1" "length hdr \<le> 2 ^ 20"
      "decode_header utf8 hdr = Inr roots" "\<forall>b \<in> set B. block_ok b" "inc_ok r1"
      using i f(2) by (auto simp: inc_inv_def)
    obtain n len where n: "n < 2 ^ 63" "check_block_len (of_nat n) = Inr len" "length ?f = len"
      "unread r1 = leb n @ ?f @ unread r'" "ir_roots r' = ir_roots r1" "inc_ok r'" using next_frame_sound [OF f(1) p(6)] by blast
    have "unat (of_nat n :: u64) = n" using n(1) by (simp add: unat_of_nat)
    then have len: "len = n" "36 \<le> n" "n \<le> 2 ^ 27" using n(2) by (simp_all add: check_block_len_iff)
    have cv: "cid_valid (b_cid b)" "take 36 ?f = cid_to_bytes (b_cid b)" using cid_from_bytes_canonical [OF c(1)] by (auto simp: CID_LEN_def)
    then have fr: "?f = block_frame b" using c(2) by (metis CID_LEN_def append_take_drop_id block_frame_def)
    then have "unread r1 = enc_block b @ unread r'" using n(3,4) len(1) cv(1) by (simp add: enc_block_frame)
    moreover have "block_ok b" using fr n(3) len cv(1) by (simp add: block_ok_def block_frame_def)
    ultimately show ?thesis using p n(5,6) Some by (auto simp: inc_inv_def car_bytes_def)
  qed
qed

lemma drain_blocks_sound:
  "drain_blocks utf8 r B = Inr (r', B') \<Longrightarrow> inc_inv utf8 P B r \<Longrightarrow> inc_inv utf8 P B' r'"
proof (induction utf8 r B rule: drain_blocks.induct)
  case (1 utf8 r B)
  note sound = inc_next_block_sound [OF _ "1.prems"(2)]
  show ?case
  proof (cases "inc_next_block utf8 r")
    case (Pair res r1)
    with "1.prems"(1) obtain m where m: "res = Inr m" by (cases res) (subst (asm) drain_blocks.simps, auto)+
    show ?thesis
    proof (cases m)
      case None
      then have "r' = r1" "B' = B" using "1.prems"(1) Pair m by (subst (asm) drain_blocks.simps, simp)+
      then show ?thesis using sound [of m r1] Pair m None by simp
    next
      case (Some b)
      then have "drain_blocks utf8 r1 (B @ [b]) = Inr (r', B')" using "1.prems"(1) Pair m by (subst (asm) drain_blocks.simps) simp
      moreover have "inc_inv utf8 P (B @ [b]) r1" using sound [of m r1] Pair m Some by simp
      ultimately show ?thesis using "1.IH" [OF Pair [symmetric]] m Some by blast
    qed
  qed
qed

lemma download_loop_sound:
  "download_loop utf8 chunks n r B = Inr (r', B') \<Longrightarrow> inc_inv utf8 P B r \<Longrightarrow> n \<le> DEFAULT_MAX_REPO_CAR_BYTES \<Longrightarrow>
     \<exists>cs. chunks = map Inr cs \<and> inc_inv utf8 (P @ concat cs) B' r' \<and> n + length (concat cs) \<le> DEFAULT_MAX_REPO_CAR_BYTES"
proof (induction chunks arbitrary: n r B P)
  case (Cons chunk chunks)
  obtain c r1 B1 where c: "chunk = Inr c" "n + length c \<le> DEFAULT_MAX_REPO_CAR_BYTES"
    "drain_blocks utf8 (inc_push c r) B = Inr (r1, B1)" "download_loop utf8 chunks (n + length c) r1 B1 = Inr (r', B')"
    using Cons.prems(1) by (auto simp: and_then_eq_Inr Let_def map_err_def split: if_splits sum.splits)
  have "inc_inv utf8 (P @ c) B (inc_push c r)"
    using Cons.prems(2) inc_push_unread [of r c] by (auto simp: inc_inv_def split: option.splits)
  then have "inc_inv utf8 (P @ c) B1 r1" using drain_blocks_sound c(3) by blast
  then obtain cs where "chunks = map Inr cs" "inc_inv utf8 ((P @ c) @ concat cs) B' r'" "n + length c + length (concat cs) \<le> DEFAULT_MAX_REPO_CAR_BYTES"
    using Cons.IH [OF c(4), of "P @ c"] c(2) by blast
  then show ?case using c(1) by (intro exI [of _ "c # cs"]) simp
qed (auto intro: exI [of _ "[]"])

text \<open>What is still to come, \<open>x\<close>, completes an archive whose remaining blocks are \<open>bs\<close>.\<close>

definition ahead :: "(bytes \<Rightarrow> bool) \<Rightarrow> cid list \<Rightarrow> car_block list \<Rightarrow> inc_reader \<Rightarrow> bytes \<Rightarrow> bool" where
  "ahead utf8 roots bs r x \<longleftrightarrow> inc_ok r \<and> (\<forall>b \<in> set bs. block_ok b) \<and>
     (case ir_roots r of
        None \<Rightarrow> \<exists>hdr. unread r @ x = car_bytes hdr bs \<and> length hdr \<le> 2 ^ 20 \<and> decode_header utf8 hdr = Inr roots
      | Some rs \<Rightarrow> rs = roots \<and> unread r @ x = concat (map enc_block bs))"

lemma read_header_ahead:
  assumes "ahead utf8 roots bs r x"
  shows "\<exists>r'. ahead utf8 roots bs r' x \<and>
    (read_header utf8 r = (Inr True, r') \<and> ir_roots r' = Some roots \<or> read_header utf8 r = (Inr False, r') \<and> x \<noteq> [])"
proof (cases "ir_roots r")
  case (Some rs)
  then show ?thesis using assms by (intro exI [of _ r]) (simp add: read_header_def ahead_def)
next
  case None
  then obtain hdr where h: "unread r @ x = leb (length hdr) @ hdr @ concat (map enc_block bs)" "length hdr \<le> 2 ^ 20"
    "decode_header utf8 hdr = Inr roots" and ok: "inc_ok r" "\<forall>b \<in> set bs. block_ok b"
    using assms by (auto simp: ahead_def car_bytes_def)
  have u: "unat (of_nat (length hdr) :: u64) = length hdr" using h(2) by (simp add: unat_of_nat)
  have c: "check_header_len (of_nat (length hdr)) = Inr (length hdr)" unfolding check_header_len_iff u using h(2) by simp
  have n: "length hdr < 2 ^ 63" using h(2) by simp
  note f = next_frame_ahead [where check = check_header_len, OF h(1) n c ok(1)]
  show ?thesis
  proof (cases "length (leb (length hdr)) + length hdr \<le> length (unread r)")
    case True
    from f(1) [OF this] obtain rng r1 where "next_frame check_header_len r = (Inr (Some rng), r1)" "slice_range rng (ir_buf r1) = hdr"
      "unread r1 @ x = concat (map enc_block bs)" "inc_ok r1" by blast
    then show ?thesis using None h ok
      by (intro exI [of _ "r1\<lparr>ir_roots := Some roots\<rparr>"]) (simp add: read_header_def ahead_def inc_ok_def unread_def)
  next
    case False
    have "x \<noteq> []" using False h(1) by (metis append_Nil2 le_add1 length_append add.assoc)
    then show ?thesis using f(2) [OF False] None assms by (intro exI [of _ r]) (simp add: read_header_def)
  qed
qed

lemma inc_next_block_ahead:
  assumes "ahead utf8 roots bs r x"
  shows "(\<exists>r'. inc_next_block utf8 r = (Inr None, r') \<and> ahead utf8 roots bs r' x \<and> (x = [] \<longrightarrow> bs = [] \<and> ir_roots r' = Some roots)) \<or>
    (\<exists>b bs' r'. bs = b # bs' \<and> inc_next_block utf8 r = (Inr (Some b), r') \<and> ahead utf8 roots bs' r' x)"
proof -
  from read_header_ahead [OF assms] obtain r1 where r1: "ahead utf8 roots bs r1 x"
    "read_header utf8 r = (Inr True, r1) \<and> ir_roots r1 = Some roots \<or> read_header utf8 r = (Inr False, r1) \<and> x \<noteq> []" by blast
  show ?thesis
  proof (cases "ir_roots r1 = Some roots \<and> read_header utf8 r = (Inr True, r1)")
    case False
    then show ?thesis using r1 by (auto simp: inc_next_block_def)
  next
    case True
    then have u: "unread r1 @ x = concat (map enc_block bs)" and ok: "inc_ok r1" "\<forall>b \<in> set bs. block_ok b"
      using r1(1) by (auto simp: ahead_def)
    show ?thesis
    proof (cases bs)
      case Nil
      then have "next_frame check_block_len r1 = (Inr None, r1)"
        using u by (simp add: next_frame_def unread_def varint_from_slice_def)
      then show ?thesis using True r1(1) Nil by (simp add: inc_next_block_def)
    next
      case (Cons b bs')
      have bo: "cid_valid (b_cid b)" "length (block_frame b) \<le> 2 ^ 27" "36 \<le> length (block_frame b)"
        using ok(2) Cons by (auto simp: block_ok_def block_frame_def)
      have u: "unread r1 @ x = leb (length (block_frame b)) @ block_frame b @ concat (map enc_block bs')"
        using u Cons bo(1) by (simp add: enc_block_frame)
      have w: "unat (of_nat (length (block_frame b)) :: u64) = length (block_frame b)" using bo(2) by (simp add: unat_of_nat)
      have c: "check_block_len (of_nat (length (block_frame b))) = Inr (length (block_frame b))"
        unfolding check_block_len_iff w using bo by simp
      have n: "length (block_frame b) < 2 ^ 63" using bo(2) by simp
      note f = next_frame_ahead [where check = check_block_len, OF u n c ok(1)]
      show ?thesis
      proof (cases "length (leb (length (block_frame b))) + length (block_frame b) \<le> length (unread r1)")
        case le: True
        from f(1) [OF le] obtain rng r2 where r2: "next_frame check_block_len r1 = (Inr (Some rng), r2)" "slice_range rng (ir_buf r2) = block_frame b"
          "unread r2 @ x = concat (map enc_block bs')" "ir_roots r2 = ir_roots r1" "inc_ok r2" by blast
        have "inc_next_block utf8 r = (Inr (Some b), r2)"
          using True r2(1,2) cid_to_bytes_roundtrip [OF bo(1)] bo(1) by (simp add: inc_next_block_def block_frame_def CID_LEN_def)
        moreover have "ahead utf8 roots bs' r2 x" using r2 True ok(2) Cons by (simp add: ahead_def)
        ultimately show ?thesis using Cons by blast
      next
        case False
        have "x \<noteq> []" using False u by (metis append_Nil2 le_add1 length_append add.assoc)
        then show ?thesis using f(2) [OF False] True r1(1) by (simp add: inc_next_block_def)
      qed
    qed
  qed
qed

lemma drain_blocks_ahead:
  "ahead utf8 roots bs r x \<Longrightarrow> \<exists>r' bs1 bs2. bs = bs1 @ bs2 \<and> drain_blocks utf8 r acc = Inr (r', acc @ bs1) \<and>
     ahead utf8 roots bs2 r' x \<and> (x = [] \<longrightarrow> bs2 = [] \<and> ir_roots r' = Some roots)"
proof (induction bs arbitrary: r acc)
  case (Nil r acc)
  from inc_next_block_ahead [OF Nil] show ?case by (subst drain_blocks.simps) auto
next
  case (Cons b bs r acc)
  from inc_next_block_ahead [OF Cons.prems] show ?case
  proof (elim disjE exE conjE)
    fix r' assume "inc_next_block utf8 r = (Inr None, r')" "ahead utf8 roots (b # bs) r' x" "x = [] \<longrightarrow> b # bs = [] \<and> ir_roots r' = Some roots"
    then show ?thesis by (intro exI [of _ r'] exI [of _ "[]"] exI [of _ "b # bs"]) (subst drain_blocks.simps, simp)
  next
    fix b' bs' r' assume s: "b # bs = b' # bs'" "inc_next_block utf8 r = (Inr (Some b'), r')" "ahead utf8 roots bs' r' x"
    then obtain r2 bs1 bs2 where "bs = bs1 @ bs2" "drain_blocks utf8 r' (acc @ [b]) = Inr (r2, (acc @ [b]) @ bs1)"
      "ahead utf8 roots bs2 r2 x" "x = [] \<longrightarrow> bs2 = [] \<and> ir_roots r2 = Some roots" using Cons.IH [of r' "acc @ [b]"] by auto
    then show ?thesis using s by (intro exI [of _ r2] exI [of _ "b # bs1"] exI [of _ bs2]) (subst drain_blocks.simps, simp)
  qed
qed

lemma download_loop_ahead:
  "ahead utf8 roots bs r (concat cs) \<Longrightarrow> n + length (concat cs) \<le> DEFAULT_MAX_REPO_CAR_BYTES \<Longrightarrow> cs \<noteq> [] \<Longrightarrow>
     \<exists>r'. download_loop utf8 (map Inr cs) n r acc = Inr (r', acc @ bs) \<and> ir_roots r' = Some roots \<and> unread r' = []"
proof (induction cs arbitrary: n r bs acc)
  case (Cons c cs)
  have "ahead utf8 roots bs (inc_push c r) (concat cs)"
    using Cons.prems(1) inc_push_unread [of r c] by (auto simp: ahead_def split: option.splits)
  from drain_blocks_ahead [OF this, of acc] obtain r1 bs1 bs2 where d: "bs = bs1 @ bs2" "drain_blocks utf8 (inc_push c r) acc = Inr (r1, acc @ bs1)"
    "ahead utf8 roots bs2 r1 (concat cs)" "concat cs = [] \<longrightarrow> bs2 = [] \<and> ir_roots r1 = Some roots" by blast
  show ?case
  proof (cases "cs = []")
    case True
    then show ?thesis using d Cons.prems(2) by (auto simp: ahead_def)
  next
    case False
    then show ?thesis using Cons.IH [OF d(3), of "n + length c" "acc @ bs1"] Cons.prems(2) d(1,2) by auto
  qed
qed simp

text \<open>
  C29. A download in chunks: however the bytes are cut into chunks, feeding them to the
  incremental reader and draining it after each chunk succeeds exactly when the chunks arrive
  without a network error, their total is within the download limit and the reader in memory
  accepts the concatenation, and then it gives the same roots and the same blocks.
\<close>

theorem download_car_chunking:
  "download_car utf8 chunks = Inr (Some roots, blocks) \<longleftrightarrow>
     (\<exists>cs. chunks = map Inr cs \<and> length (concat cs) \<le> DEFAULT_MAX_REPO_CAR_BYTES \<and>
       car_read_slice utf8 (concat cs) = Inr (roots, blocks))"
proof
  assume "download_car utf8 chunks = Inr (Some roots, blocks)"
  then obtain r where d: "download_loop utf8 chunks 0 inc_new [] = Inr (r, blocks)" "inc_finish r = Inr ()" "ir_roots r = Some roots"
    by (auto simp: download_car_def and_then_eq_Inr)
  have "inc_inv utf8 [] [] inc_new" by (simp add: inc_inv_def inc_new_def inc_ok_def unread_def)
  from download_loop_sound [OF d(1) this] obtain cs where cs: "chunks = map Inr cs" "inc_inv utf8 (concat cs) blocks r"
    "length (concat cs) \<le> DEFAULT_MAX_REPO_CAR_BYTES" by auto
  have "unread r = []" using d(2,3) by (auto simp: inc_finish_def unread_def Let_def and_then_eq_Inr split: if_splits)
  then have "car_read_slice utf8 (concat cs) = Inr (roots, blocks)"
    using cs(2) d(3) unfolding car_read_slice_iff by (auto simp: inc_inv_def)
  with cs show "\<exists>cs. chunks = map Inr cs \<and> length (concat cs) \<le> DEFAULT_MAX_REPO_CAR_BYTES \<and>
       car_read_slice utf8 (concat cs) = Inr (roots, blocks)" by blast
next
  assume "\<exists>cs. chunks = map Inr cs \<and> length (concat cs) \<le> DEFAULT_MAX_REPO_CAR_BYTES \<and>
       car_read_slice utf8 (concat cs) = Inr (roots, blocks)"
  then obtain cs hdr where cs: "chunks = map Inr cs" "length (concat cs) \<le> DEFAULT_MAX_REPO_CAR_BYTES" "concat cs = car_bytes hdr blocks"
    "length hdr \<le> 2 ^ 20" "decode_header utf8 hdr = Inr roots" "\<forall>b \<in> set blocks. block_ok b"
    unfolding car_read_slice_iff by blast
  have "ahead utf8 roots blocks inc_new (concat cs)" using cs by (auto simp: ahead_def inc_new_def inc_ok_def unread_def)
  moreover have "cs \<noteq> []" using cs(3) by (auto simp: car_bytes_def)
  ultimately obtain r where r: "download_loop utf8 (map Inr cs) 0 inc_new [] = Inr (r, blocks)" "ir_roots r = Some roots" "unread r = []"
    using download_loop_ahead [of utf8 roots blocks inc_new cs 0 "[]"] cs(2) by auto
  then show "download_car utf8 chunks = Inr (Some roots, blocks)"
    using cs(1) by (simp add: download_car_def inc_finish_def unread_def)
qed

end
