(* ===== verification/Sync_Resync.thy ===== *)
theory Sync_Resync
  imports Sync_Invert Car_Stream
begin

text \<open>
  Loading a whole repository: the downloads of \<open>src/src/sync/client.rs\<close> and \<open>verify.rs\<close>, and the
  streaming loader of \<open>src/src/sync/resync.rs\<close>, which checks its limits and every block's CID while
  the archive arrives. A loaded repository is compared with the archive as a whole.
\<close>

section \<open>Downloads\<close>

record downloaded_repo =
  dr_did :: did
  dr_commit :: commit
  dr_blocks :: "car_block list"

definition get_repo :: "(bytes \<Rightarrow> bool) \<Rightarrow> (sync_error + bytes) list \<Rightarrow> sync_error + downloaded_repo" where
  "get_repo utf8 chunks =
     and_then (download_car utf8 chunks) (\<lambda>(roots, blocks).
     and_then (ok_or (SyncMsg ''CAR has no roots'') (case roots of Some (r # _) \<Rightarrow> Some r | _ \<Rightarrow> None)) (\<lambda>root_cid.
     and_then (ok_or (SyncMsg ''root block not found in CAR'') (List.find (\<lambda>b. b_cid b = root_cid) blocks)) (\<lambda>root_block.
     and_then (map_err SyncRepo (from_cbor utf8 (b_data root_block))) (\<lambda>commit.
       Inr \<lparr>dr_did = c_did commit, dr_commit = commit, dr_blocks = blocks\<rparr>))))"

fun verify_blocks_of :: "compress_fn \<Rightarrow> car_block list \<Rightarrow> sync_error + unit" where
  "verify_blocks_of compress [] = Inr ()"
| "verify_blocks_of compress (b # bs) =
     (let drisl_cid = cid_compute compress Drisl (b_data b); raw_cid = cid_compute compress Raw (b_data b) in
      if b_cid b \<noteq> drisl_cid \<and> b_cid b \<noteq> raw_cid then Inl (Verification ''CID mismatch for block'')
      else verify_blocks_of compress bs)"

definition verify_blocks :: "compress_fn \<Rightarrow> downloaded_repo \<Rightarrow> sync_error + unit" where
  "verify_blocks compress repo = verify_blocks_of compress (dr_blocks repo)"

section \<open>The streaming loader\<close>

record repo_load_limits =
  max_car_bytes :: nat
  max_blocks :: nat
  max_block_bytes :: nat
  max_records :: nat

definition default_limits :: repo_load_limits where
  "default_limits = \<lparr>max_car_bytes = DEFAULT_MAX_REPO_CAR_BYTES, max_blocks = 1000000,
     max_block_bytes = 512 * 1024 * 1024, max_records = 1000000\<rparr>"

record verifier_op =
  vo_repo :: did
  vo_rev :: tid
  vo_action :: str
  vo_path :: str
  vo_cid :: "cid option"
  vo_prev :: "cid option"
  vo_record :: bytes

record loaded_repo =
  lr_commit :: commit
  lr_ops :: "verifier_op list"

record repo_car_loader =
  rl_did :: did
  rl_limits :: repo_load_limits
  rl_reader :: inc_reader
  rl_car_bytes :: nat
  rl_block_count :: nat
  rl_block_bytes :: nat
  rl_blocks :: "cid \<rightharpoonup> bytes"

definition loader_new :: "did \<Rightarrow> repo_load_limits \<Rightarrow> repo_car_loader" where
  "loader_new did limits =
     \<lparr>rl_did = did, rl_limits = limits, rl_reader = inc_new, rl_car_bytes = 0, rl_block_count = 0, rl_block_bytes = 0,
      rl_blocks = Map.empty\<rparr>"

text \<open>\<open>usize::saturating_add\<close>.\<close>

definition sat_add :: "nat \<Rightarrow> nat \<Rightarrow> nat" where
  "sat_add a b = min (a + b) (2 ^ 64 - 1)"

definition oversized :: "repo_car_loader \<Rightarrow> string \<Rightarrow> nat \<Rightarrow> nat \<Rightarrow> verifier_error" where
  "oversized l field n limit = OversizedCommit (rl_did l) None field n limit"

definition car_err :: "repo_car_loader \<Rightarrow> car_error \<Rightarrow> verifier_error" where
  "car_err l e = CarErr (Some (rl_did l)) None e"

definition add_block :: "env \<Rightarrow> car_block \<Rightarrow> repo_car_loader \<Rightarrow> (verifier_error + unit) \<times> repo_car_loader" where
  "add_block E b l =
     (let computed = cid_compute (compress256 E) (cid_codec (b_cid b)) (b_data b) in
      if computed \<noteq> b_cid b then (Inl (car_err l (InvalidBlock ''CID mismatch for block'')), l)
      else case rl_blocks l (b_cid b) of
          Some existing \<Rightarrow>
            if existing \<noteq> b_data b then (Inl (car_err l (InvalidBlock ''duplicate block with different bytes'')), l)
            else (Inr (), l)
        | None \<Rightarrow> (Inr (), l\<lparr>rl_blocks := (rl_blocks l)(b_cid b \<mapsto> b_data b)\<rparr>))"

lemma next_block_data_len_unread:
  assumes "next_block_data_len utf8 r = (res, r')"
  shows "length (unread r') \<le> length (unread r)"
  using assms next_frame_shorter(2) [of check_header_len r]
  by (auto simp: next_block_data_len_def read_header_def unread_def split: if_splits prod.splits sum.splits option.splits bool.splits)

lemma add_block_reader [simp]: "add_block E b l = (r, l') \<Longrightarrow> rl_reader l' = rl_reader l"
  by (auto simp: add_block_def Let_def split: if_splits option.splits)

text \<open>The loop of \<open>push\<close>.\<close>

function loader_loop :: "env \<Rightarrow> repo_car_loader \<Rightarrow> (verifier_error + unit) \<times> repo_car_loader" where
  "loader_loop E l =
     (case next_block_data_len (simd_utf8 E) (rl_reader l) of
        (Inl e, r) \<Rightarrow> (Inl (car_err l e), l\<lparr>rl_reader := r\<rparr>)
      | (Inr None, r) \<Rightarrow> (Inr (), l\<lparr>rl_reader := r\<rparr>)
      | (Inr (Some len), r) \<Rightarrow>
          let l = l\<lparr>rl_reader := r\<rparr>; block_count = rl_block_count l + 1 in
          if block_count > max_blocks (rl_limits l) then
            (Inl (oversized l ''repo_blocks'' block_count (max_blocks (rl_limits l))), l)
          else let block_bytes = sat_add (rl_block_bytes l) len in
            if block_bytes > max_block_bytes (rl_limits l) then
              (Inl (oversized l ''repo_block_bytes'' block_bytes (max_block_bytes (rl_limits l))), l)
            else case inc_next_block (simd_utf8 E) r of
                (Inl e, r) \<Rightarrow> (Inl (car_err l e), l\<lparr>rl_reader := r\<rparr>)
              | (Inr None, r) \<Rightarrow> (Inr (), l\<lparr>rl_reader := r\<rparr>)
              | (Inr (Some b), r) \<Rightarrow>
                  (case add_block E b (l\<lparr>rl_reader := r, rl_block_count := block_count, rl_block_bytes := block_bytes\<rparr>) of
                     (Inl e, l) \<Rightarrow> (Inl e, l)
                   | (Inr _, l) \<Rightarrow> loader_loop E l))"
  by pat_completeness auto
termination loader_loop
  by (relation "measure (\<lambda>(_, l). length (unread (rl_reader l)))")
    (auto dest!: inc_next_block_shorter [OF sym] next_block_data_len_unread [OF sym] add_block_reader [OF sym])

declare loader_loop.simps [simp del]

definition loader_push :: "env \<Rightarrow> bytes \<Rightarrow> repo_car_loader \<Rightarrow> (verifier_error + unit) \<times> repo_car_loader" where
  "loader_push E chunk l =
     (let l = l\<lparr>rl_car_bytes := sat_add (rl_car_bytes l) (length chunk)\<rparr> in
      if rl_car_bytes l > max_car_bytes (rl_limits l) then
        (Inl (oversized l ''repo_car_bytes'' (rl_car_bytes l) (max_car_bytes (rl_limits l))), l)
      else loader_loop E (l\<lparr>rl_reader := inc_push chunk (rl_reader l)\<rparr>))"

section \<open>Decoding the repository\<close>

text \<open>The loop of \<open>repo_ops\<close> over the entries.\<close>

fun resync_ops :: "did \<Rightarrow> tid \<Rightarrow> car_block_store \<Rightarrow> (str \<times> cid) list \<Rightarrow> verifier_error + verifier_op list" where
  "resync_ops did rv store [] = Inr []"
| "resync_ops did rv store ((path, cid) # entries) =
     (case car_get store cid of
        None \<Rightarrow> Inl (OpCidMismatch did (tid_fmt rv) path (Some cid) None)
      | Some record \<Rightarrow>
          and_then (resync_ops did rv store entries) (\<lambda>ops.
            Inr (\<lparr>vo_repo = did, vo_rev = rv, vo_action = lit ''resync'', vo_path = path, vo_cid = Some cid, vo_prev = None,
               vo_record = record\<rparr> # ops)))"

definition repo_ops :: "env \<Rightarrow> did \<Rightarrow> tid \<Rightarrow> cid \<Rightarrow> car_block_store \<Rightarrow> repo_load_limits \<Rightarrow> verifier_error + verifier_op list" where
  "repo_ops E did rv data store limits =
     and_then (map_err (\<lambda>_. Inversion did (tid_fmt rv) ''MST error'') (fst (st_entries car_ops E (st_load store data)))) (\<lambda>entries.
       if length entries > max_records limits then
         Inl (OversizedCommit did (Some (tid_fmt rv)) ''repo_records'' (length entries) (max_records limits))
       else resync_ops did rv store entries)"

definition load_repo :: "env \<Rightarrow> did \<Rightarrow> cid \<Rightarrow> (cid \<rightharpoonup> bytes) \<Rightarrow> repo_load_limits \<Rightarrow> verifier_error + loaded_repo" where
  "load_repo E did commit_cid block_map limits =
     (let store = car_new block_map in
      and_then (ok_or (Inversion did (lit ''<unknown>'') ''commit block missing from CAR'') (car_get store commit_cid)) (\<lambda>commit_block.
      and_then (map_err (RepoErr (Some did) None) (from_cbor (simd_utf8 E) commit_block)) (\<lambda>commit.
        if c_did commit \<noteq> did then Inl (FieldMismatch did (Some (tid_fmt (c_rev commit))) ''did'')
        else if c_version commit \<noteq> 3 then Inl (FieldMismatch did (Some (tid_fmt (c_rev commit))) ''version'')
        else and_then (repo_ops E did (c_rev commit) (c_data commit) store limits) (\<lambda>ops.
          Inr \<lparr>lr_commit = commit, lr_ops = ops\<rparr>))))"

definition loader_finish :: "env \<Rightarrow> repo_car_loader \<Rightarrow> verifier_error + loaded_repo" where
  "loader_finish E l =
     and_then (map_err (car_err l) (inc_finish (rl_reader l))) (\<lambda>_.
     and_then (ok_or (Inversion (rl_did l) (lit ''<unknown>'') ''CAR has no roots'')
         (case ir_roots (rl_reader l) of Some (r # _) \<Rightarrow> Some r | _ \<Rightarrow> None)) (\<lambda>commit_cid.
       load_repo E (rl_did l) commit_cid (rl_blocks l) (rl_limits l)))"

text \<open>The text of a download error, up to the errors it wraps.\<close>

definition sync_text :: "sync_error \<Rightarrow> string" where
  "sync_text e =
     (case e of SyncMsg m \<Rightarrow> ''sync failed: '' @ m | ResponseTooLarge \<Rightarrow> ''XRPC error'' | Network \<Rightarrow> ''XRPC error''
      | SyncCar _ \<Rightarrow> ''CAR error'' | SyncRepo _ \<Rightarrow> ''repo error'' | Verification m \<Rightarrow> ''verification failed: '' @ m)"

text \<open>The loop of \<open>resync_inner\<close> over the chunks a source sends, and the end of the archive.\<close>

fun fetch_loop :: "env \<Rightarrow> did \<Rightarrow> (sync_error + bytes) list \<Rightarrow> repo_car_loader \<Rightarrow> verifier_error + repo_car_loader" where
  "fetch_loop E did [] l = Inr l"
| "fetch_loop E did (chunk # chunks) l =
     and_then (map_err (\<lambda>e. ResyncRequired did (sync_text e)) chunk) (\<lambda>chunk.
       case loader_push E chunk l of
         (Inl e, _) \<Rightarrow> Inl e
       | (Inr _, l) \<Rightarrow> fetch_loop E did chunks l)"

definition load_stream :: "env \<Rightarrow> did \<Rightarrow> repo_load_limits \<Rightarrow> (sync_error + bytes) list \<Rightarrow> verifier_error + loaded_repo" where
  "load_stream E did limits chunks = and_then (fetch_loop E did chunks (loader_new did limits)) (loader_finish E)"

section \<open>What the loader has seen\<close>

text \<open>The blocks of an archive as a map: every CID verified, no CID with two contents.\<close>

definition block_verified :: "env \<Rightarrow> car_block \<Rightarrow> bool" where
  "block_verified E b \<longleftrightarrow> cid_compute (compress256 E) (cid_codec (b_cid b)) (b_data b) = b_cid b"

definition gathered :: "env \<Rightarrow> car_block list \<Rightarrow> (cid \<rightharpoonup> bytes) \<Rightarrow> bool" where
  "gathered E bs m \<longleftrightarrow> list_all (block_verified E) bs \<and> (\<forall>b \<in> set bs. m (b_cid b) = Some (b_data b)) \<and> dom m = b_cid ` set bs"

definition data_size :: "car_block list \<Rightarrow> nat" where
  "data_size bs = sum_list (map (\<lambda>b. length (b_data b)) bs)"

definition usz :: "nat \<Rightarrow> nat" where
  "usz n = min n (2 ^ 64 - 1)"

lemma sat_add_usz: "sat_add (usz a) b = usz (a + b)"
  by (simp add: sat_add_def usz_def min_def)

lemma usz_mono: "a \<le> b \<Longrightarrow> usz a \<le> usz b"
  by (simp add: usz_def min_def)

lemma gathered_unique:
  assumes "gathered E B m" "gathered E B m'"
  shows "m = m'"
proof
  fix c
  show "m c = m' c"
  proof (cases "c \<in> b_cid ` set B")
    case True
    then show ?thesis using assms by (auto simp: gathered_def)
  next
    case False
    then have "m c = None" "m' c = None" using assms unfolding gathered_def by blast+
    then show ?thesis by simp
  qed
qed

lemma gathered_snoc:
  assumes "gathered E B m"
  shows "gathered E (B @ [b]) m' \<longleftrightarrow> block_verified E b \<and> m (b_cid b) \<in> {None, Some (b_data b)} \<and> m' = m(b_cid b \<mapsto> b_data b)"
    (is "?l \<longleftrightarrow> ?r")
proof
  assume l: ?l
  have "m (b_cid b) \<in> {None, Some (b_data b)}"
  proof (cases "b_cid b \<in> b_cid ` set B")
    case True
    then obtain a where "a \<in> set B" "b_cid a = b_cid b" by force
    then have "m (b_cid b) = Some (b_data a)" "m' (b_cid b) = Some (b_data a)" "m' (b_cid b) = Some (b_data b)"
      using assms l unfolding gathered_def by (metis, metis Un_iff set_append, simp)
    then show ?thesis by simp
  next
    case False
    then show ?thesis using assms unfolding gathered_def by blast
  qed
  moreover from this have "gathered E (B @ [b]) (m(b_cid b \<mapsto> b_data b))"
    using assms l by (auto simp: gathered_def)
  moreover from this have "m' = m(b_cid b \<mapsto> b_data b)" by (rule gathered_unique [OF l])
  ultimately show ?r using l by (simp add: gathered_def)
next
  assume r: ?r
  then have "m' (b_cid a) = Some (b_data a)" if "a \<in> set B" for a
    using assms that by (cases "b_cid a = b_cid b") (auto simp: gathered_def)
  then show ?l using assms r by (auto simp: gathered_def)
qed

lemma add_block_ok:
  assumes "gathered E B (rl_blocks l)"
  shows "add_block E b l = (Inr (), l') \<longleftrightarrow> gathered E (B @ [b]) (rl_blocks l') \<and> l' = l\<lparr>rl_blocks := rl_blocks l'\<rparr>"
proof -
  have "add_block E b l = (Inr (), l') \<longleftrightarrow> block_verified E b \<and> rl_blocks l (b_cid b) \<in> {None, Some (b_data b)} \<and>
      l' = l\<lparr>rl_blocks := (rl_blocks l)(b_cid b \<mapsto> b_data b)\<rparr>"
    by (auto simp: add_block_def block_verified_def Let_def fun_upd_idem split: option.splits)
  then show ?thesis unfolding gathered_snoc [OF assms] by (cases l; cases l') auto
qed

lemma next_block_data_len_sound:
  assumes "next_block_data_len utf8 r = (Inr m, r')" "inc_inv utf8 P B r"
  shows "inc_inv utf8 P B r'" and "inc_next_block utf8 r' = (Inr (Some b), r2) \<Longrightarrow> m = Some len \<Longrightarrow> len = length (b_data b)"
proof -
  obtain got where h: "read_header utf8 r = (Inr got, r')"
    using assms(1) by (auto simp: next_block_data_len_def split: prod.splits sum.splits bool.splits)
  show i: "inc_inv utf8 P B r'" using read_header_sound [OF h assms(2)] by blast
  assume b: "inc_next_block utf8 r' = (Inr (Some b), r2)" "m = Some len"
  then have "ir_roots r' \<noteq> None"
    using assms(1) h read_header_sound [OF h assms(2)] by (auto simp: next_block_data_len_def split: bool.splits)
  then have h': "read_header utf8 r' = (Inr True, r')" by (auto simp: read_header_def)
  obtain w k n where v: "varint_from_slice (drop (ir_pos r') (ir_buf r')) = Inr (Some (w, k))" "check_block_len w = Inr n" "len = n - CID_LEN"
    using assms(1) h b(2) by (auto simp: next_block_data_len_def and_then_eq_Inr split: bool.splits option.splits)
  obtain rng where f: "next_frame check_block_len r' = (Inr (Some rng), r2)" "b_data b = drop CID_LEN (slice_range rng (ir_buf r2))"
    using b(1) h' by (auto simp: inc_next_block_def Let_def and_then_eq_Inr split: prod.splits sum.splits option.splits)
  have "length (slice_range rng (ir_buf r2)) = n"
  proof -
    have "inc_ok r'" using i by (simp add: inc_inv_def)
    then show ?thesis using f(1) v(1,2)
      by (auto simp: next_frame_def slice_range_def Let_def inc_ok_def split: if_splits)
  qed
  then show "len = length (b_data b)" using v(3) f(2) by simp
qed

text \<open>The invariant: \<open>P\<close> is what was received and \<open>B\<close> the blocks taken out of it.\<close>

definition loader_inv :: "env \<Rightarrow> did \<Rightarrow> repo_load_limits \<Rightarrow> bytes \<Rightarrow> car_block list \<Rightarrow> repo_car_loader \<Rightarrow> bool" where
  "loader_inv E did limits P B l \<longleftrightarrow> inc_inv (simd_utf8 E) P B (rl_reader l) \<and> gathered E B (rl_blocks l) \<and>
     rl_did l = did \<and> rl_limits l = limits \<and> rl_car_bytes l = usz (length P) \<and> usz (length P) \<le> max_car_bytes limits \<and>
     rl_block_count l = length B \<and> length B \<le> max_blocks limits \<and>
     rl_block_bytes l = usz (data_size B) \<and> usz (data_size B) \<le> max_block_bytes limits"

lemma data_size_simps [simp]: "data_size [] = 0" "data_size (B @ bs) = data_size B + data_size bs" "data_size (b # bs) = length (b_data b) + data_size bs"
  by (simp_all add: data_size_def)

lemma loader_loop_inv:
  "loader_loop E l = (Inr u, l') \<Longrightarrow> loader_inv E did limits P B l \<Longrightarrow> \<exists>B'. loader_inv E did limits P B' l'"
proof (induction l arbitrary: B rule: measure_induct_rule [of "\<lambda>l. length (unread (rl_reader l))"])
  case (less l)
  obtain m r where n: "next_block_data_len (simd_utf8 E) (rl_reader l) = (Inr m, r)"
    using less.prems(1) by (auto simp: loader_loop.simps [of E l] split: prod.splits sum.splits)
  have inv: "inc_inv (simd_utf8 E) P B (rl_reader l)" using less.prems(2) by (simp add: loader_inv_def)
  note s = next_block_data_len_sound [OF n inv]
  show ?case
  proof (cases m)
    case None
    then have "l' = l\<lparr>rl_reader := r\<rparr>" using less.prems(1) n by (simp add: loader_loop.simps [of E l])
    then show ?thesis using s(1) less.prems(2) by (auto simp: loader_inv_def)
  next
    case (Some len)
    let ?bb = "sat_add (rl_block_bytes l) len"
    obtain m' r' where b: "inc_next_block (simd_utf8 E) r = (Inr m', r')" and lim: "rl_block_count l + 1 \<le> max_blocks (rl_limits l)" "?bb \<le> max_block_bytes (rl_limits l)"
      using less.prems(1) n Some by (auto simp: loader_loop.simps [of E l] Let_def split: prod.splits sum.splits if_splits)
    note s' = inc_next_block_sound [OF b s(1)]
    show ?thesis
    proof (cases m')
      case None
      then have "l' = l\<lparr>rl_reader := r'\<rparr>" using less.prems(1) n Some b lim by (simp add: loader_loop.simps [of E l] Let_def)
      then show ?thesis using s' None less.prems(2) by (auto simp: loader_inv_def)
    next
      case b': (Some blk)
      let ?l = "l\<lparr>rl_reader := r', rl_block_count := rl_block_count l + 1, rl_block_bytes := ?bb\<rparr>"
      obtain l2 where a: "add_block E blk ?l = (Inr (), l2)" "loader_loop E l2 = (Inr u, l')"
        using less.prems(1) n Some b b' lim by (auto simp: loader_loop.simps [of E l] Let_def split: prod.splits sum.splits)
      have g: "gathered E B (rl_blocks ?l)" using less.prems(2) by (simp add: loader_inv_def)
      have len: "len = length (b_data blk)" using s(2) b b' Some by blast
      have "loader_inv E did limits P (B @ [blk]) l2"
        using less.prems(2) a(1) s' b' lim len unfolding add_block_ok [OF g]
        by (cases l2) (auto simp: loader_inv_def sat_add_usz)
      moreover have "length (unread (rl_reader l2)) < length (unread (rl_reader l))"
        using inc_next_block_shorter b b' next_block_data_len_unread [OF n] add_block_reader [OF a(1)] by fastforce
      ultimately show ?thesis using less.IH a(2) by blast
    qed
  qed
qed

lemma fetch_loop_inv:
  "fetch_loop E did chunks l = Inr l' \<Longrightarrow> loader_inv E did limits P B l \<Longrightarrow>
   \<exists>cs B'. chunks = map Inr cs \<and> loader_inv E did limits (P @ concat cs) B' l'"
proof (induction chunks arbitrary: l P B)
  case (Cons chunk chunks)
  obtain c l1 where c: "chunk = Inr c" "loader_push E c l = (Inr (), l1)" "fetch_loop E did chunks l1 = Inr l'"
    using Cons.prems(1) by (auto simp: and_then_eq_Inr map_err_def split: sum.splits prod.splits)
  have "inc_inv (simd_utf8 E) (P @ c) B (inc_push c (rl_reader l))"
    using Cons.prems(2) inc_push_unread [of "rl_reader l" c] by (auto simp: loader_inv_def inc_inv_def split: option.splits)
  then have "loader_inv E did limits (P @ c) B (l\<lparr>rl_car_bytes := sat_add (rl_car_bytes l) (length c), rl_reader := inc_push c (rl_reader l)\<rparr>)"
    using Cons.prems(2) c(2) by (auto simp: loader_inv_def loader_push_def Let_def sat_add_usz split: if_splits)
  moreover have "loader_loop E (l\<lparr>rl_car_bytes := sat_add (rl_car_bytes l) (length c), rl_reader := inc_push c (rl_reader l)\<rparr>) = (Inr (), l1)"
    using c(2) by (simp add: loader_push_def Let_def split: if_splits)
  ultimately obtain B1 where "loader_inv E did limits (P @ c) B1 l1" using loader_loop_inv by blast
  from Cons.IH [OF c(3) this] obtain cs B' where "chunks = map Inr cs" "loader_inv E did limits ((P @ c) @ concat cs) B' l'" by blast
  then show ?case using c(1) by (intro exI [of _ "c # cs"] exI [of _ B']) simp
qed (auto intro: exI [of _ "[]"])

section \<open>What is still to come\<close>

lemma next_block_data_len_ahead:
  assumes "ahead utf8 roots bs r x"
  shows "\<exists>r'. ahead utf8 roots bs r' x \<and>
    (next_block_data_len utf8 r = (Inr None, r') \<and> (x = [] \<longrightarrow> bs = [] \<and> ir_roots r' = Some roots) \<or>
     (\<exists>b bs'. bs = b # bs' \<and> next_block_data_len utf8 r = (Inr (Some (length (b_data b))), r')))"
proof -
  from read_header_ahead [OF assms] obtain r1 where r1: "ahead utf8 roots bs r1 x"
    "read_header utf8 r = (Inr True, r1) \<and> ir_roots r1 = Some roots \<or> read_header utf8 r = (Inr False, r1) \<and> x \<noteq> []" by blast
  show ?thesis
  proof (cases "ir_roots r1 = Some roots \<and> read_header utf8 r = (Inr True, r1)")
    case False
    then show ?thesis using r1 by (auto simp: next_block_data_len_def)
  next
    case True
    then have u: "unread r1 @ x = concat (map enc_block bs)" and ok: "\<forall>b \<in> set bs. block_ok b"
      using r1(1) by (auto simp: ahead_def)
    show ?thesis
    proof (cases bs)
      case Nil
      then have "varint_from_slice (unread r1) = Inr None" using u by (simp add: varint_from_slice_def)
      then show ?thesis using True r1(1) Nil by (intro exI [of _ r1]) (simp add: next_block_data_len_def unread_def)
    next
      case (Cons b bs')
      let ?n = "length (block_frame b)"
      have bo: "cid_valid (b_cid b)" "?n \<le> 2 ^ 27" "36 \<le> ?n" "?n - 36 = length (b_data b)"
        using ok Cons by (auto simp: block_ok_def block_frame_def)
      have u: "unread r1 @ x = leb ?n @ block_frame b @ concat (map enc_block bs')"
        using u Cons bo(1) by (simp add: enc_block_frame)
      have w: "unat (of_nat ?n :: u64) = ?n" using bo(2) by (simp add: unat_of_nat)
      have c: "check_block_len (of_nat ?n) = Inr ?n" unfolding check_block_len_iff w using bo by simp
      have "?n < 2 ^ 63" using bo(2) by simp
      note v = varint_from_slice_prefix [OF u this]
      show ?thesis
      proof (cases "length (leb ?n) \<le> length (unread r1)")
        case le: True
        then have "next_block_data_len utf8 r = (Inr (Some (length (b_data b))), r1)"
          using True v c bo(4) by (simp add: next_block_data_len_def unread_def CID_LEN_def)
        then show ?thesis using r1(1) Cons by blast
      next
        case False
        then have "next_block_data_len utf8 r = (Inr None, r1)" using True v by (simp add: next_block_data_len_def unread_def)
        moreover have "x \<noteq> []" using False u by (metis append_Nil2 le_add1 length_append)
        ultimately show ?thesis using r1(1) by blast
      qed
    qed
  qed
qed

lemma gathered_prefix: "gathered E (A @ B) m \<Longrightarrow> gathered E A (m |` (b_cid ` set A))"
  by (auto simp: gathered_def restrict_map_def dom_def)

text \<open>
  The loader is at \<open>B\<close> of the blocks \<open>B @ bs\<close> of an archive within the limits, \<open>x\<close> of it to come.
\<close>

definition loader_ahead :: "env \<Rightarrow> did \<Rightarrow> repo_load_limits \<Rightarrow> cid list \<Rightarrow> car_block list \<Rightarrow> car_block list \<Rightarrow> bytes \<Rightarrow> repo_car_loader \<Rightarrow> bool" where
  "loader_ahead E did limits roots B bs x l \<longleftrightarrow> ahead (simd_utf8 E) roots bs (rl_reader l) x \<and> gathered E B (rl_blocks l) \<and>
     rl_did l = did \<and> rl_limits l = limits \<and> rl_block_count l = length B \<and> rl_block_bytes l = usz (data_size B)"

definition within_limits :: "env \<Rightarrow> repo_load_limits \<Rightarrow> car_block list \<Rightarrow> bool" where
  "within_limits E limits blocks \<longleftrightarrow> length blocks \<le> max_blocks limits \<and> usz (data_size blocks) \<le> max_block_bytes limits \<and>
     (\<exists>m. gathered E blocks m)"

lemma loader_loop_ahead:
  "loader_ahead E did limits roots B bs x l \<Longrightarrow> within_limits E limits (B @ bs) \<Longrightarrow>
   \<exists>l' B' bs'. loader_loop E l = (Inr (), l') \<and> loader_ahead E did limits roots B' bs' x l' \<and> B @ bs = B' @ bs' \<and>
     rl_car_bytes l' = rl_car_bytes l \<and> (x = [] \<longrightarrow> bs' = [] \<and> ir_roots (rl_reader l') = Some roots)"
proof (induction bs arbitrary: B l)
  case Nil
  obtain r where "ahead (simd_utf8 E) roots [] r x" "next_block_data_len (simd_utf8 E) (rl_reader l) = (Inr None, r)"
    "x = [] \<longrightarrow> ir_roots r = Some roots"
    using Nil.prems(1) next_block_data_len_ahead [of "simd_utf8 E" roots "[]" "rl_reader l" x] by (auto simp: loader_ahead_def)
  then show ?case
    using Nil.prems(1) by (intro exI [of _ "l\<lparr>rl_reader := r\<rparr>"] exI [of _ B] exI [of _ "[]"]) (simp add: loader_loop.simps [of E l] loader_ahead_def)
next
  case (Cons b bs)
  obtain r where r: "ahead (simd_utf8 E) roots (b # bs) r x"
    "next_block_data_len (simd_utf8 E) (rl_reader l) = (Inr None, r) \<and> x \<noteq> [] \<or>
     next_block_data_len (simd_utf8 E) (rl_reader l) = (Inr (Some (length (b_data b))), r)"
    using Cons.prems(1) next_block_data_len_ahead [of "simd_utf8 E" roots "b # bs" "rl_reader l" x] by (auto simp: loader_ahead_def)
  show ?case
  proof (cases "next_block_data_len (simd_utf8 E) (rl_reader l) = (Inr None, r)")
    case True
    then show ?thesis
      using Cons.prems(1) r by (intro exI [of _ "l\<lparr>rl_reader := r\<rparr>"] exI [of _ B] exI [of _ "b # bs"]) (auto simp: loader_loop.simps [of E l] loader_ahead_def)
  next
    case False
    let ?bb = "sat_add (rl_block_bytes l) (length (b_data b))"
    have n: "next_block_data_len (simd_utf8 E) (rl_reader l) = (Inr (Some (length (b_data b))), r)" using r(2) False by simp
    have lim: "rl_block_count l + 1 \<le> max_blocks (rl_limits l)" "?bb \<le> max_block_bytes (rl_limits l)"
      using Cons.prems usz_mono [of "data_size B + length (b_data b)" "data_size (B @ b # bs)"]
      by (auto simp: loader_ahead_def within_limits_def sat_add_usz)
    from inc_next_block_ahead [OF r(1)] show ?thesis
    proof
      assume "\<exists>r'. inc_next_block (simd_utf8 E) r = (Inr None, r') \<and> ahead (simd_utf8 E) roots (b # bs) r' x \<and> (x = [] \<longrightarrow> b # bs = [] \<and> ir_roots r' = Some roots)"
      then obtain r' where "inc_next_block (simd_utf8 E) r = (Inr None, r')" "ahead (simd_utf8 E) roots (b # bs) r' x" "x \<noteq> []" by auto
      then show ?thesis using Cons.prems(1) n lim
        by (intro exI [of _ "l\<lparr>rl_reader := r'\<rparr>"] exI [of _ B] exI [of _ "b # bs"]) (simp add: loader_loop.simps [of E l] Let_def loader_ahead_def)
    next
      assume "\<exists>b' bs' r'. b # bs = b' # bs' \<and> inc_next_block (simd_utf8 E) r = (Inr (Some b'), r') \<and> ahead (simd_utf8 E) roots bs' r' x"
      then obtain r' where r': "inc_next_block (simd_utf8 E) r = (Inr (Some b), r')" "ahead (simd_utf8 E) roots bs r' x" by auto
      let ?l = "l\<lparr>rl_reader := r', rl_block_count := rl_block_count l + 1, rl_block_bytes := ?bb\<rparr>"
      obtain m where m: "gathered E (B @ [b]) m"
        using Cons.prems(2) gathered_prefix [of E "B @ [b]" bs] by (auto simp: within_limits_def)
      have g: "gathered E B (rl_blocks ?l)" using Cons.prems(1) by (simp add: loader_ahead_def)
      have a: "add_block E b ?l = (Inr (), ?l\<lparr>rl_blocks := m\<rparr>)" unfolding add_block_ok [OF g] using m by simp
      have "loader_ahead E did limits roots (B @ [b]) bs x (?l\<lparr>rl_blocks := m\<rparr>)"
        using Cons.prems(1) r'(2) m by (auto simp: loader_ahead_def sat_add_usz)
      from Cons.IH [OF this] Cons.prems(2) obtain l' B' bs' where "loader_loop E (?l\<lparr>rl_blocks := m\<rparr>) = (Inr (), l')"
        "loader_ahead E did limits roots B' bs' x l'" "B @ b # bs = B' @ bs'" "rl_car_bytes l' = rl_car_bytes l"
        "x = [] \<longrightarrow> bs' = [] \<and> ir_roots (rl_reader l') = Some roots" by auto
      moreover have "loader_loop E l = loader_loop E (?l\<lparr>rl_blocks := m\<rparr>)"
        using n lim r'(1) a by (simp add: loader_loop.simps [of E l] Let_def)
      ultimately show ?thesis by metis
    qed
  qed
qed

lemma ahead_push: "ahead utf8 roots bs r (c @ x) \<Longrightarrow> ahead utf8 roots bs (inc_push c r) x"
  using inc_push_unread [of r c] by (auto simp: ahead_def split: option.splits)

lemma fetch_loop_ahead:
  assumes "loader_ahead E did limits roots B bs (concat cs) l" "within_limits E limits (B @ bs)"
    and "rl_car_bytes l = usz n" "usz (n + length (concat cs)) \<le> max_car_bytes limits"
    and "concat cs = [] \<longrightarrow> cs \<noteq> [] \<or> bs = [] \<and> ir_roots (rl_reader l) = Some roots"
  shows "\<exists>l'. fetch_loop E did (map Inr cs) l = Inr l' \<and> loader_ahead E did limits roots (B @ bs) [] [] l' \<and> ir_roots (rl_reader l') = Some roots"
  using assms
proof (induction cs arbitrary: B bs l n)
  case (Cons c cs)
  let ?l = "l\<lparr>rl_car_bytes := sat_add (rl_car_bytes l) (length c), rl_reader := inc_push c (rl_reader l)\<rparr>"
  have lim: "rl_car_bytes ?l = usz (n + length c)" "usz (n + length c) \<le> max_car_bytes limits"
    using Cons.prems(3,4) usz_mono [of "n + length c" "n + length (concat (c # cs))"] by (simp_all add: sat_add_usz)
  have "loader_ahead E did limits roots B bs (concat cs) ?l"
    using Cons.prems(1) ahead_push [of "simd_utf8 E" roots bs "rl_reader l" c "concat cs"] by (simp add: loader_ahead_def)
  from loader_loop_ahead [OF this Cons.prems(2)] obtain l1 B1 bs1 where l1: "loader_loop E ?l = (Inr (), l1)"
    "loader_ahead E did limits roots B1 bs1 (concat cs) l1" "B @ bs = B1 @ bs1" "rl_car_bytes l1 = rl_car_bytes ?l"
    "concat cs = [] \<longrightarrow> bs1 = [] \<and> ir_roots (rl_reader l1) = Some roots" by blast
  have "loader_push E c l = (Inr (), l1)"
    using l1(1) lim Cons.prems(1) by (simp add: loader_push_def Let_def loader_ahead_def)
  moreover obtain l' where "fetch_loop E did (map Inr cs) l1 = Inr l'" "loader_ahead E did limits roots (B1 @ bs1) [] [] l'"
    "ir_roots (rl_reader l') = Some roots"
    using Cons.IH [OF l1(2), of "n + length c"] Cons.prems(2,4) l1(3-5) lim(1) by (auto simp: add.assoc)
  ultimately show ?case using l1(3) by simp
qed simp

lemma loader_new_inv: "loader_inv E did limits [] [] (loader_new did limits)"
  by (simp add: loader_inv_def loader_new_def inc_inv_def inc_new_def inc_ok_def unread_def gathered_def usz_def)

text \<open>
  C15. Loading a repository from a stream: however the bytes are cut into chunks, the loader
  succeeds exactly when no chunk failed, the whole is an archive the reader in memory accepts,
  its bytes, blocks and block bytes are within the limits, every block has the CID of its data
  and no CID comes with two contents, and the repository of its first root decodes; and then it
  gives that repository.
\<close>

theorem load_stream_exact:
  "load_stream E did limits chunks = Inr lr \<longleftrightarrow>
     (\<exists>cs root roots blocks m. chunks = map Inr cs \<and> usz (length (concat cs)) \<le> max_car_bytes limits \<and>
       car_read_slice (simd_utf8 E) (concat cs) = Inr (root # roots, blocks) \<and> length blocks \<le> max_blocks limits \<and>
       usz (data_size blocks) \<le> max_block_bytes limits \<and> gathered E blocks m \<and> load_repo E did root m limits = Inr lr)"
    (is "_ \<longleftrightarrow> ?spec")
proof
  assume "load_stream E did limits chunks = Inr lr"
  then obtain l where f: "fetch_loop E did chunks (loader_new did limits) = Inr l" "loader_finish E l = Inr lr"
    by (auto simp: load_stream_def and_then_eq_Inr)
  from f(2) obtain root roots where "inc_finish (rl_reader l) = Inr ()" "ir_roots (rl_reader l) = Some (root # roots)"
    "load_repo E (rl_did l) root (rl_blocks l) (rl_limits l) = Inr lr"
    by (cases "ir_roots (rl_reader l)"; cases "the (ir_roots (rl_reader l))")
      (auto simp: loader_finish_def and_then_eq_Inr ok_or_def)
  note l = f(1) this
  from fetch_loop_inv [OF l(1) loader_new_inv] obtain cs B where cs: "chunks = map Inr cs" "loader_inv E did limits (concat cs) B l" by auto
  have "unread (rl_reader l) = []" using l(2,3) by (auto simp: inc_finish_def unread_def Let_def and_then_eq_Inr split: if_splits)
  then have "car_read_slice (simd_utf8 E) (concat cs) = Inr (root # roots, B)"
    using cs(2) l(3) unfolding car_read_slice_iff by (auto simp: loader_inv_def inc_inv_def)
  with cs l(4) show ?spec by (auto simp: loader_inv_def)
next
  assume ?spec
  then obtain cs root roots blocks m hdr where cs: "chunks = map Inr cs" "usz (length (concat cs)) \<le> max_car_bytes limits"
    "within_limits E limits blocks" "gathered E blocks m" "load_repo E did root m limits = Inr lr"
    and h: "concat cs = car_bytes hdr blocks" "length hdr \<le> 2 ^ 20" "decode_header (simd_utf8 E) hdr = Inr (root # roots)" "\<forall>b \<in> set blocks. block_ok b"
    unfolding car_read_slice_iff within_limits_def by blast
  have "loader_ahead E did limits (root # roots) [] blocks (concat cs) (loader_new did limits)"
    using h by (auto simp: loader_ahead_def loader_new_def ahead_def inc_new_def inc_ok_def unread_def gathered_def usz_def)
  moreover have "rl_car_bytes (loader_new did limits) = usz 0" by (simp add: loader_new_def usz_def)
  moreover have "cs \<noteq> []" using h(1) by (auto simp: car_bytes_def)
  ultimately obtain l where l: "fetch_loop E did (map Inr cs) (loader_new did limits) = Inr l" "loader_ahead E did limits (root # roots) blocks [] [] l"
    "ir_roots (rl_reader l) = Some (root # roots)"
    using fetch_loop_ahead [of E did limits "root # roots" "[]" blocks cs _ 0] cs(2,3) by fastforce
  have "rl_blocks l = m" using l(2) cs(4) gathered_unique by (auto simp: loader_ahead_def)
  then show "load_stream E did limits chunks = Inr lr"
    using l cs(1,5) by (simp add: load_stream_def loader_finish_def inc_finish_def loader_ahead_def ahead_def unread_def ok_or_def)
qed

end
