(* ===== verification/Sync_Verifier.thy ===== *)
theory Sync_Verifier
  imports Sync_Resync
begin

text \<open>
  The verifier (\<open>src/src/sync/verifier.rs\<close>): commits, account events and sync events against the
  state kept per repository, and the resyncs that repair it. The verifier's fields, its store and
  its resolver are one state that every method returns updated; a method is a function from the
  state to a result and a state. Traits are records of operations, the clock and the response of a
  repository source are arguments, and the \<open>f64\<close> arithmetic of the rate limit is a record of
  operations on bit patterns. Texts built from an error keep its constant part.
\<close>

section \<open>Options\<close>

datatype verifier_policy = PolicyResync | PolicyError

datatype hosting_policy = Track | Gate

datatype legacy_commit_policy = AcceptLegacy | RejectLegacy

type_synonym f64 = u64

record resync_rate_limit =
  per_second :: f64
  burst :: f64

text \<open>The operations on \<open>f64\<close> the limiter uses.\<close>

record f64_ops =
  f_add :: "f64 \<Rightarrow> f64 \<Rightarrow> f64"
  f_sub :: "f64 \<Rightarrow> f64 \<Rightarrow> f64"
  f_mul :: "f64 \<Rightarrow> f64 \<Rightarrow> f64"
  f_min :: "f64 \<Rightarrow> f64 \<Rightarrow> f64"
  f_gt :: "f64 \<Rightarrow> f64 \<Rightarrow> bool"
  f_ge :: "f64 \<Rightarrow> f64 \<Rightarrow> bool"
  f_total_le :: "f64 \<Rightarrow> f64 \<Rightarrow> bool"
  f_secs :: "nat \<Rightarrow> f64"

definition f_zero :: f64 where "f_zero = 0"

definition f_one :: f64 where "f_one = 0x3FF0000000000000"

definition limit_enabled :: "f64_ops \<Rightarrow> resync_rate_limit \<Rightarrow> bool" where
  "limit_enabled F l \<longleftrightarrow> f_gt F (per_second l) f_zero \<and> f_gt F (burst l) f_zero"

text \<open>Times are nanoseconds from the epoch, durations nanoseconds.\<close>

record verifier_options =
  opt_verifier_policy :: verifier_policy
  opt_hosting_policy :: hosting_policy
  opt_legacy_policy :: legacy_commit_policy
  opt_limits :: repo_load_limits
  opt_workers :: nat
  opt_pending_capacity :: nat
  opt_channel_capacity :: nat
  opt_lenient :: bool
  opt_tolerance :: nat
  opt_rate_limit :: resync_rate_limit
  opt_limiter_capacity :: nat

definition default_options :: "resync_rate_limit \<Rightarrow> verifier_options" where
  "default_options rate = \<lparr>opt_verifier_policy = PolicyResync, opt_hosting_policy = Track, opt_legacy_policy = AcceptLegacy,
     opt_limits = default_limits, opt_workers = 0, opt_pending_capacity = 64, opt_channel_capacity = 128, opt_lenient = True,
     opt_tolerance = 5 * 60 * 1000000000, opt_rate_limit = rate, opt_limiter_capacity = 16384\<rparr>"

definition with_resync_limiter_capacity :: "nat \<Rightarrow> verifier_options \<Rightarrow> verifier_options" where
  "with_resync_limiter_capacity capacity opts = opts\<lparr>opt_limiter_capacity := max capacity 1\<rparr>"

definition with_async_channel_capacity :: "nat \<Rightarrow> verifier_options \<Rightarrow> verifier_options" where
  "with_async_channel_capacity capacity opts = opts\<lparr>opt_channel_capacity := capacity\<rparr>"

definition MAX_COMMIT_BLOCKS_BYTES :: nat where "MAX_COMMIT_BLOCKS_BYTES = 2000000"

definition MAX_COMMIT_OPS :: nat where "MAX_COMMIT_OPS = 200"

section \<open>The state\<close>

record verifier_stats =
  events_verified :: u64
  chain_breaks :: u64
  inversion_failures :: u64
  inversion_incomplete :: u64
  signature_failures :: u64
  rev_replays_dropped :: u64
  chain_state_save_failures :: u64
  future_revs_rejected :: u64
  field_mismatches :: u64
  op_cid_mismatches :: u64
  legacy_commits :: u64
  missing_record_blocks_ops :: u64
  duplicate_paths :: u64
  oversized_commits :: u64
  accounts_inactive :: u64
  account_event_replays_dropped :: u64
  sync_no_ops :: u64
  resyncs :: u64
  resync_failures :: u64
  resync_rate_limited :: u64

definition no_stats :: verifier_stats where
  "no_stats = \<lparr>events_verified = 0, chain_breaks = 0, inversion_failures = 0, inversion_incomplete = 0, signature_failures = 0,
     rev_replays_dropped = 0, chain_state_save_failures = 0, future_revs_rejected = 0, field_mismatches = 0, op_cid_mismatches = 0,
     legacy_commits = 0, missing_record_blocks_ops = 0, duplicate_paths = 0, oversized_commits = 0, accounts_inactive = 0,
     account_event_replays_dropped = 0, sync_no_ops = 0, resyncs = 0, resync_failures = 0, resync_rate_limited = 0\<rparr>"

record token_bucket =
  tokens :: f64
  last_refill :: int

record pending_resync =
  pr_old_rev :: "str option"
  pr_reason :: string
  pr_commits :: "raw_commit list"

record resync_event =
  re_did :: did
  re_old_rev :: "str option"
  re_new_rev :: str
  re_reason :: string
  re_ops :: "verifier_op list"

text \<open>An identity is seen through its signing key alone.\<close>

record 'i resolver_ops =
  lookup_did :: "'i \<Rightarrow> did \<Rightarrow> (string + verifying_key option) \<times> 'i"
  purge :: "'i \<Rightarrow> did \<Rightarrow> (string + unit) \<times> 'i"

text \<open>
  The receiver of a channel: still in the verifier, handed to a consumer, or dropped by it.
\<close>

datatype receiver = RxKept | RxTaken | RxDropped

text \<open>
  \<open>v_events\<close> and \<open>v_errors\<close> are the two channels from the verifier to a consumer, bounded by the
  channel capacity: the messages sent and not yet received, oldest first. A sender that finds the
  channel full waits, and the waiting senders are served in the order they came, so what they wait
  to send follows in the same list: the messages beyond the capacity are those of senders that
  wait. \<open>v_jobs\<close> are the resync jobs spawned.
\<close>

record ('s, 'i) verifier =
  v_store :: 's
  v_ids :: 'i
  v_stats :: verifier_stats
  v_pending :: "did \<rightharpoonup> pending_resync"
  v_limiters :: "did \<rightharpoonup> token_bucket"
  v_events :: "resync_event list"
  v_errors :: "verifier_error list"
  v_event_rx :: receiver
  v_error_rx :: receiver
  v_jobs :: "did list"
  v_closed :: bool

text \<open>
  What a verifier is built with. \<open>cx_order\<close> is the order in which the limiter's hash map is
  iterated.
\<close>

record ('s, 'i) ctx =
  cx_env :: env
  cx_state :: "'s state_store_ops"
  cx_ids :: "'i resolver_ops"
  cx_opts :: verifier_options
  cx_f64 :: f64_ops
  cx_order :: "(did \<rightharpoonup> token_bucket) \<Rightarrow> did list"

definition verifier_new :: "'s \<Rightarrow> 'i \<Rightarrow> ('s, 'i) verifier" where
  "verifier_new s i = \<lparr>v_store = s, v_ids = i, v_stats = no_stats, v_pending = Map.empty, v_limiters = Map.empty, v_events = [],
     v_errors = [], v_event_rx = RxKept, v_error_rx = RxKept, v_jobs = [], v_closed = False\<rparr>"

type_synonym ('s, 'i, 'a) action = "('s, 'i) verifier \<Rightarrow> (verifier_error + 'a) \<times> ('s, 'i) verifier"

text \<open>\<open>?\<close> on the result of a call, with the state passed on; \<open>fetch_add(1)\<close> on a counter.\<close>

definition vbind :: "('s, 'i, 'a) action \<Rightarrow> ('a \<Rightarrow> ('s, 'i, 'b) action) \<Rightarrow> ('s, 'i, 'b) action" where
  "vbind m f v = (case m v of (Inl e, v) \<Rightarrow> (Inl e, v) | (Inr a, v) \<Rightarrow> f a v)"

definition vret :: "verifier_error + 'a \<Rightarrow> ('s, 'i, 'a) action" where
  "vret r v = (r, v)"

definition bump :: "((u64 \<Rightarrow> u64) \<Rightarrow> verifier_stats \<Rightarrow> verifier_stats) \<Rightarrow> ('s, 'i) verifier \<Rightarrow> ('s, 'i) verifier" where
  "bump counter v = v\<lparr>v_stats := counter (\<lambda>n. n + 1) (v_stats v)\<rparr>"

section \<open>The state store\<close>

definition v_load_chain :: "('s, 'i) ctx \<Rightarrow> did \<Rightarrow> ('s, 'i, chain_state option) action" where
  "v_load_chain X did v = (map_err StateStoreErr (load_chain (cx_state X) (v_store v) did), v)"

definition v_load_hosting :: "('s, 'i) ctx \<Rightarrow> did \<Rightarrow> ('s, 'i, hosting_state option) action" where
  "v_load_hosting X did v = (map_err StateStoreErr (load_hosting (cx_state X) (v_store v) did), v)"

definition v_save_chain :: "('s, 'i) ctx \<Rightarrow> did \<Rightarrow> chain_state \<Rightarrow> ('s, 'i, unit) action" where
  "v_save_chain X did ch v =
     (case save_chain_op (cx_state X) (v_store v) did ch of (r, s) \<Rightarrow> (map_err StateStoreErr r, v\<lparr>v_store := s\<rparr>))"

definition v_save_hosting :: "('s, 'i) ctx \<Rightarrow> did \<Rightarrow> hosting_state \<Rightarrow> ('s, 'i, unit) action" where
  "v_save_hosting X did ho v =
     (case save_hosting (cx_state X) (v_store v) did ho of (r, s) \<Rightarrow> (map_err StateStoreErr r, v\<lparr>v_store := s\<rparr>))"

section \<open>Guards\<close>

text \<open>\<open>u64::saturating_add\<close>, and the cast of a time or duration to microseconds.\<close>

definition saturating_add :: "u64 \<Rightarrow> u64 \<Rightarrow> u64" where
  "saturating_add a b = (if unat a + unat b \<ge> 2 ^ 64 then - 1 else a + b)"

definition as_micros :: "nat \<Rightarrow> u64" where
  "as_micros ns = of_nat (ns div 1000)"

definition is_future :: "('s, 'i) ctx \<Rightarrow> int \<Rightarrow> tid \<Rightarrow> bool" where
  "is_future X now t \<longleftrightarrow> timestamp_micros t > saturating_add (as_micros (nat now)) (as_micros (opt_tolerance (cx_opts X)))"

definition reject_future_rev :: "('s, 'i) ctx \<Rightarrow> int \<Rightarrow> raw_commit \<Rightarrow> ('s, 'i, unit) action" where
  "reject_future_rev X now raw v =
     (if is_future X now (rc_rev raw) then (Inl (FutureRev (rc_repo raw) (tid_fmt (rc_rev raw))), bump future_revs_rejected_update v)
      else (Inr (), v))"

definition reject_future_sync_rev :: "('s, 'i) ctx \<Rightarrow> int \<Rightarrow> raw_sync \<Rightarrow> tid \<Rightarrow> ('s, 'i, unit) action" where
  "reject_future_sync_rev X now raw t v =
     (if is_future X now t then (Inl (FutureRev (rs_did raw) (rs_rev raw)), bump future_revs_rejected_update v)
      else (Inr (), v))"

definition reject_oversized :: "raw_commit \<Rightarrow> ('s, 'i, unit) action" where
  "reject_oversized raw v =
     (if length (rc_blocks raw) > MAX_COMMIT_BLOCKS_BYTES then
        (Inl (OversizedCommit (rc_repo raw) (Some (tid_fmt (rc_rev raw))) ''blocks'' (length (rc_blocks raw)) MAX_COMMIT_BLOCKS_BYTES),
         bump oversized_commits_update v)
      else if length (rc_ops raw) > MAX_COMMIT_OPS then
        (Inl (OversizedCommit (rc_repo raw) (Some (tid_fmt (rc_rev raw))) ''ops'' (length (rc_ops raw)) MAX_COMMIT_OPS),
         bump oversized_commits_update v)
      else (Inr (), v))"

definition check_hosting_gate :: "('s, 'i) ctx \<Rightarrow> did \<Rightarrow> ('s, 'i, unit) action" where
  "check_hosting_gate X did =
     (if opt_hosting_policy (cx_opts X) \<noteq> Gate then vret (Inr ())
      else vbind (v_load_hosting X did) (\<lambda>hosting.
        if is_active hosting then vret (Inr ())
        else (\<lambda>v. (Inl (RepoInactive did (Option.bind hosting ho_status) (map_option ho_seq hosting) (map_option ho_time hosting)),
          bump accounts_inactive_update v))))"

definition is_rev_replay :: "did \<Rightarrow> tid \<Rightarrow> chain_state option \<Rightarrow> verifier_error + bool" where
  "is_rev_replay did rv chain =
     (case chain of
        None \<Rightarrow> Inr False
      | Some chain \<Rightarrow>
          and_then (map_err (\<lambda>_. FieldMismatch did (Some (tid_fmt rv)) ''chain.rev'') (tid_try_from (ch_rev chain)))
            (\<lambda>chain_rev. Inr (as_u64 rv \<le> as_u64 chain_rev)))"

definition parse_sync_rev :: "raw_sync \<Rightarrow> verifier_error + tid" where
  "parse_sync_rev raw = map_err (\<lambda>_. FieldMismatch (rs_did raw) (Some (rs_rev raw)) ''rev'') (tid_try_from (rs_rev raw))"

definition is_legacy_shape :: "raw_commit \<Rightarrow> chain_state option \<Rightarrow> bool" where
  "is_legacy_shape raw chain \<longleftrightarrow> chain \<noteq> None \<and> rc_prev_data raw = None \<and> rc_ops raw \<noteq> [] \<and>
     list_all (\<lambda>op. op_prev op = None) (filter (\<lambda>op. op_action op = lit ''update'' \<or> op_action op = lit ''delete'') (rc_ops raw))"

fun is_car_root_mismatch :: "verifier_error \<Rightarrow> bool" where
  "is_car_root_mismatch (FieldMismatch _ _ field) \<longleftrightarrow> field = ''commit''"
| "is_car_root_mismatch _ \<longleftrightarrow> False"

section \<open>The chain\<close>

definition previous_root ::
  "('s, 'i) ctx \<Rightarrow> raw_commit \<Rightarrow> commit \<Rightarrow> car_block_store \<Rightarrow> chain_state option \<Rightarrow> ('s, 'i, cid option) action" where
  "previous_root X raw inner store chain v =
     (if chain = None then (Inr None, v)
      else if is_legacy_shape raw chain then
        (if opt_legacy_policy (cx_opts X) = RejectLegacy
         then Inl (LegacyCommit (rc_repo raw) (tid_fmt (rc_rev raw)) (map_option ch_rev chain) (map_option ch_data chain))
         else Inr None, bump legacy_commits_update v)
      else (and_then (invert_decoded_commit (cx_env X) raw inner store) (\<lambda>root. Inr (Some root)), v))"

text \<open>The end of a chain break: an error to report after saving, or one that asks for a resync.\<close>

definition break_outcome :: "('s, 'i) ctx \<Rightarrow> raw_commit \<Rightarrow> verifier_error \<Rightarrow> verifier_error + verifier_error option" where
  "break_outcome X raw err =
     (case opt_verifier_policy (cx_opts X) of
        PolicyError \<Rightarrow> Inr (Some err)
      | PolicyResync \<Rightarrow> Inl (ResyncRequired (rc_repo raw) ''chain break''))"

definition check_chain ::
  "('s, 'i) ctx \<Rightarrow> raw_commit \<Rightarrow> chain_state option \<Rightarrow> cid option \<Rightarrow> ('s, 'i, verifier_error option) action" where
  "check_chain X raw chain root v =
     (case chain of
        None \<Rightarrow> (Inr None, v)
      | Some chain \<Rightarrow>
          if root = None then (Inr None, v)
          else let expected = Some (ch_data chain) in
            if rc_prev_data raw = expected \<and> root \<noteq> expected then
              if opt_lenient (cx_opts X) then (Inr None, bump inversion_incomplete_update v)
              else (break_outcome X raw (ChainBreak (rc_repo raw) (tid_fmt (rc_rev raw)) expected root), bump chain_breaks_update v)
            else if rc_prev_data raw = expected \<and> root = expected then (Inr None, v)
            else (break_outcome X raw (ChainBreak (rc_repo raw) (tid_fmt (rc_rev raw)) expected
                     (if rc_prev_data raw = None then root else rc_prev_data raw)),
                  bump chain_breaks_update v))"

section \<open>Fields and signatures\<close>

definition field_mismatch :: "raw_commit \<Rightarrow> string \<Rightarrow> ('s, 'i, 'a) action" where
  "field_mismatch raw field v =
     (Inl (FieldMismatch (rc_repo raw) (Some (tid_fmt (rc_rev raw))) field), bump field_mismatches_update v)"

definition check_fields :: "raw_commit \<Rightarrow> commit \<Rightarrow> ('s, 'i, unit) action" where
  "check_fields raw inner =
     (if c_did inner \<noteq> rc_repo raw then field_mismatch raw ''did''
      else if c_rev inner \<noteq> rc_rev raw then field_mismatch raw ''rev''
      else if c_version inner \<noteq> 3 then field_mismatch raw ''version''
      else vret (Inr ()))"

definition check_sync_fields :: "raw_sync \<Rightarrow> tid \<Rightarrow> commit \<Rightarrow> ('s, 'i, unit) action" where
  "check_sync_fields raw t inner v =
     (if c_did inner \<noteq> rs_did raw then (Inl (FieldMismatch (rs_did raw) (Some (rs_rev raw)) ''did''), bump field_mismatches_update v)
      else if c_rev inner \<noteq> t then (Inl (FieldMismatch (rs_did raw) (Some (rs_rev raw)) ''rev''), bump field_mismatches_update v)
      else if c_version inner \<noteq> 3 then (Inl (FieldMismatch (rs_did raw) (Some (rs_rev raw)) ''version''), bump field_mismatches_update v)
      else (Inr (), v))"

datatype signature_attempt_error = AttemptIdentity verifier_error | AttemptInvalid string

definition verify_signature_once ::
  "('s, 'i) ctx \<Rightarrow> did \<Rightarrow> commit \<Rightarrow> ('s, 'i) verifier \<Rightarrow> (signature_attempt_error + unit) \<times> ('s, 'i) verifier" where
  "verify_signature_once X did inner v =
     (case lookup_did (cx_ids X) (v_ids v) did of
        (r, i) \<Rightarrow>
          (and_then (map_err (\<lambda>e. AttemptIdentity (IdentityErr did e)) r) (\<lambda>key.
           and_then (ok_or (AttemptInvalid ''identity has no #atproto signing key'') key) (\<lambda>key.
             map_err (\<lambda>_. AttemptInvalid ''invalid signature'') (commit_verify key inner))), v\<lparr>v_ids := i\<rparr>))"

definition verify_signature :: "('s, 'i) ctx \<Rightarrow> did \<Rightarrow> tid \<Rightarrow> commit \<Rightarrow> ('s, 'i, unit) action" where
  "verify_signature X did rv inner v =
     (case verify_signature_once X did inner v of
        (Inr _, v) \<Rightarrow> (Inr (), v)
      | (Inl (AttemptIdentity e), v) \<Rightarrow> (Inl e, v)
      | (Inl (AttemptInvalid first_reason), v) \<Rightarrow>
          (case purge (cx_ids X) (v_ids v) did of
             (Inl e, i) \<Rightarrow> (Inl (IdentityErr did e), v\<lparr>v_ids := i\<rparr>)
           | (Inr _, i) \<Rightarrow>
               (case verify_signature_once X did inner (v\<lparr>v_ids := i\<rparr>) of
                  (Inr _, v) \<Rightarrow> (Inr (), v)
                | (Inl (AttemptIdentity e), v) \<Rightarrow> (Inl e, v)
                | (Inl (AttemptInvalid second_reason), v) \<Rightarrow>
                    (Inl (SignatureInvalid did (tid_fmt rv) (first_reason @ ''; after refresh: '' @ second_reason)),
                     bump signature_failures_update v))))"

section \<open>Saving and counting\<close>

definition save_chain :: "('s, 'i) ctx \<Rightarrow> raw_commit \<Rightarrow> cid \<Rightarrow> verifier_error option \<Rightarrow> ('s, 'i, unit) action" where
  "save_chain X raw data original_error v =
     (case v_save_chain X (rc_repo raw) \<lparr>ch_rev = tid_fmt (rc_rev raw), ch_data = data\<rparr> v of
        (Inr _, v) \<Rightarrow> (Inr (), v)
      | (Inl e, v) \<Rightarrow>
          if original_error \<noteq> None then (Inr (), bump chain_state_save_failures_update v) else (Inl e, v))"

fun count_decode_error :: "verifier_error \<Rightarrow> ('s, 'i) verifier \<Rightarrow> ('s, 'i) verifier" where
  "count_decode_error (FieldMismatch _ _ _) v = bump field_mismatches_update v"
| "count_decode_error (DuplicatePath _ _ _) v = bump duplicate_paths_update v"
| "count_decode_error _ v = v"

fun count_inversion_error :: "verifier_error \<Rightarrow> ('s, 'i) verifier \<Rightarrow> ('s, 'i) verifier" where
  "count_inversion_error (DuplicatePath _ _ _) v = bump duplicate_paths_update v"
| "count_inversion_error _ v = bump inversion_failures_update v"

definition count_resync_error :: "verifier_error \<Rightarrow> ('s, 'i) verifier \<Rightarrow> ('s, 'i) verifier" where
  "count_resync_error err v =
     (case (case err of ResyncFailed _ source \<Rightarrow> source | err \<Rightarrow> err) of
        OversizedCommit _ _ _ _ _ \<Rightarrow> bump oversized_commits_update v
      | FieldMismatch _ _ _ \<Rightarrow> bump field_mismatches_update v
      | OpCidMismatch _ _ _ _ _ \<Rightarrow> bump op_cid_mismatches_update v
      | _ \<Rightarrow> v)"

definition wrap_resync_error :: "did \<Rightarrow> verifier_error \<Rightarrow> verifier_error" where
  "wrap_resync_error did err = (case err of ResyncFailed _ _ \<Rightarrow> err | err \<Rightarrow> ResyncFailed did err)"

section \<open>Asynchronous resyncs\<close>

text \<open>The constant part of an error's text.\<close>

fun err_text :: "verifier_error \<Rightarrow> string" where
  "err_text (FutureRev _ _) = ''future rev''"
| "err_text (ChainBreak _ _ _ _) = ''chain break''"
| "err_text (FieldMismatch _ _ _) = ''field mismatch''"
| "err_text (SignatureInvalid _ _ _) = ''invalid signature''"
| "err_text (OpCidMismatch _ _ _ _ _) = ''op CID mismatch''"
| "err_text (DuplicatePath _ _ _) = ''duplicate repo op path''"
| "err_text (LegacyCommit _ _ _ _) = ''legacy sync commit''"
| "err_text (OversizedCommit _ _ _ _ _) = ''oversized commit''"
| "err_text (RepoInactive _ _ _ _) = ''repo inactive''"
| "err_text (ResyncRequired _ _) = ''resync required''"
| "err_text (ResyncRateLimited _) = ''resync rate limited''"
| "err_text (BufferOverflow _ _ _) = ''pending verifier queue overflow''"
| "err_text (RevRegression _ _ _) = ''rev regression''"
| "err_text (ResyncFailed _ _) = ''resync failed''"
| "err_text (Inversion _ _ _) = ''inversion failed''"
| "err_text (StateStoreErr _) = ''state store error''"
| "err_text (CarErr _ _ _) = ''CAR error''"
| "err_text (CborErr _ _ _) = ''CBOR error''"
| "err_text (RepoErr _ _ _) = ''repo error''"
| "err_text (IdentityErr _ _) = ''identity error''"

text \<open>
  Sending. After \<open>close\<close> the senders are gone and a message is dropped, as it is when the receiver
  was dropped. Otherwise it takes its place in the channel or among the senders that wait.
\<close>

definition send_async_error :: "verifier_error \<Rightarrow> ('s, 'i) verifier \<Rightarrow> ('s, 'i) verifier" where
  "send_async_error err v = (if v_closed v \<or> v_error_rx v = RxDropped then v else v\<lparr>v_errors := v_errors v @ [err]\<rparr>)"

definition send_resync_event :: "resync_event \<Rightarrow> ('s, 'i) verifier \<Rightarrow> ('s, 'i) verifier" where
  "send_resync_event event v = (if v_closed v \<or> v_event_rx v = RxDropped then v else v\<lparr>v_events := v_events v @ [event]\<rparr>)"

text \<open>The number of messages a channel holds before a sender waits.\<close>

definition channel_capacity :: "('s, 'i) ctx \<Rightarrow> nat" where
  "channel_capacity X = max (opt_channel_capacity (cx_opts X)) 1"

text \<open>
  What a sender that goes on after its send, a resync job, waits for: room in the channel. If there
  is none, \<open>reading\<close> says whether the consumer that took the receiver goes on receiving; then the
  messages before this one leave the channel until it has room. \<open>None\<close> is a send that waits for
  ever.
\<close>

definition error_room :: "('s, 'i) ctx \<Rightarrow> ('s, 'i) verifier \<Rightarrow> bool" where
  "error_room X v \<longleftrightarrow> v_closed v \<or> v_error_rx v = RxDropped \<or> length (v_errors v) < channel_capacity X"

definition event_room :: "('s, 'i) ctx \<Rightarrow> ('s, 'i) verifier \<Rightarrow> bool" where
  "event_room X v \<longleftrightarrow> v_closed v \<or> v_event_rx v = RxDropped \<or> length (v_events v) < channel_capacity X"

definition make_room :: "('s, 'i) ctx \<Rightarrow> 'm list \<Rightarrow> 'm list" where
  "make_room X ms = drop (Suc (length ms) - channel_capacity X) ms"

definition await_async_error :: "('s, 'i) ctx \<Rightarrow> bool \<Rightarrow> verifier_error \<Rightarrow> ('s, 'i) verifier \<Rightarrow> ('s, 'i) verifier option" where
  "await_async_error X reading err v =
     (if error_room X v then Some (send_async_error err v)
      else if reading \<and> v_error_rx v = RxTaken then Some (send_async_error err (v\<lparr>v_errors := make_room X (v_errors v)\<rparr>))
      else None)"

definition await_resync_event :: "('s, 'i) ctx \<Rightarrow> bool \<Rightarrow> resync_event \<Rightarrow> ('s, 'i) verifier \<Rightarrow> ('s, 'i) verifier option" where
  "await_resync_event X reading event v =
     (if event_room X v then Some (send_resync_event event v)
      else if reading \<and> v_event_rx v = RxTaken then Some (send_resync_event event (v\<lparr>v_events := make_room X (v_events v)\<rparr>))
      else None)"

text \<open>
  The consumer: it takes a receiver, the first time the live one and afterwards a closed one,
  receives the oldest message, and may drop the receiver, which discards what the channel holds and
  lets waiting senders go on.
\<close>

definition resync_events :: "('s, 'i) verifier \<Rightarrow> bool \<times> ('s, 'i) verifier" where
  "resync_events v = (if v_event_rx v = RxKept then (True, v\<lparr>v_event_rx := RxTaken\<rparr>) else (False, v))"

definition async_errors :: "('s, 'i) verifier \<Rightarrow> bool \<times> ('s, 'i) verifier" where
  "async_errors v = (if v_error_rx v = RxKept then (True, v\<lparr>v_error_rx := RxTaken\<rparr>) else (False, v))"

definition receive_event :: "('s, 'i) verifier \<Rightarrow> ('s, 'i) verifier" where
  "receive_event v = (if v_event_rx v = RxTaken then v\<lparr>v_events := drop 1 (v_events v)\<rparr> else v)"

definition receive_error :: "('s, 'i) verifier \<Rightarrow> ('s, 'i) verifier" where
  "receive_error v = (if v_error_rx v = RxTaken then v\<lparr>v_errors := drop 1 (v_errors v)\<rparr> else v)"

definition drop_event_receiver :: "('s, 'i) verifier \<Rightarrow> ('s, 'i) verifier" where
  "drop_event_receiver v = (if v_event_rx v = RxTaken then v\<lparr>v_event_rx := RxDropped, v_events := []\<rparr> else v)"

definition drop_error_receiver :: "('s, 'i) verifier \<Rightarrow> ('s, 'i) verifier" where
  "drop_error_receiver v = (if v_error_rx v = RxTaken then v\<lparr>v_error_rx := RxDropped, v_errors := []\<rparr> else v)"

definition verifier_close :: "('s, 'i) verifier \<Rightarrow> ('s, 'i) verifier" where
  "verifier_close v = v\<lparr>v_closed := True, v_pending := Map.empty, v_jobs := []\<rparr>"

text \<open>The shared part of \<open>enqueue_resync\<close> and \<open>buffer_commit_if_resyncing\<close>: a bounded \<open>push_back\<close>.\<close>

definition push_pending :: "('s, 'i) ctx \<Rightarrow> raw_commit \<Rightarrow> pending_resync \<Rightarrow> ('s, 'i) verifier \<Rightarrow> ('s, 'i) verifier" where
  "push_pending X raw state v =
     (if length (pr_commits state) \<ge> opt_pending_capacity (cx_opts X) then
        send_async_error (BufferOverflow (rc_repo raw) (length (pr_commits state)) (opt_pending_capacity (cx_opts X))) v
      else v\<lparr>v_pending := (v_pending v)(rc_repo raw \<mapsto> state\<lparr>pr_commits := pr_commits state @ [raw]\<rparr>)\<rparr>)"

definition enqueue_resync :: "('s, 'i) ctx \<Rightarrow> raw_commit \<Rightarrow> str option \<Rightarrow> verifier_error \<Rightarrow> ('s, 'i) verifier \<Rightarrow> ('s, 'i) verifier" where
  "enqueue_resync X raw old_rev err v =
     (case v_pending v (rc_repo raw) of
        Some state \<Rightarrow> push_pending X raw state v
      | None \<Rightarrow>
          v\<lparr>v_pending := (v_pending v)(rc_repo raw \<mapsto> \<lparr>pr_old_rev = old_rev, pr_reason = err_text err, pr_commits = []\<rparr>),
            v_jobs := v_jobs v @ [rc_repo raw]\<rparr>)"

definition buffer_commit_if_resyncing :: "('s, 'i) ctx \<Rightarrow> raw_commit \<Rightarrow> ('s, 'i) verifier \<Rightarrow> bool \<times> ('s, 'i) verifier" where
  "buffer_commit_if_resyncing X raw v =
     (if opt_workers (cx_opts X) = 0 \<or> v_closed v then (False, v)
      else case v_pending v (rc_repo raw) of
          None \<Rightarrow> (False, v)
        | Some state \<Rightarrow> (True, push_pending X raw state v))"

definition handle_recoverable_resync ::
  "('s, 'i) ctx \<Rightarrow> raw_commit \<Rightarrow> chain_state option \<Rightarrow> verifier_error \<Rightarrow> bool \<Rightarrow> ('s, 'i, verifier_op list option) action" where
  "handle_recoverable_resync X raw chain err allow_async_resync v =
     (if opt_verifier_policy (cx_opts X) = PolicyResync \<and> allow_async_resync \<and> opt_workers (cx_opts X) > 0 \<and> \<not> v_closed v
      then (Inr None, enqueue_resync X raw (map_option ch_rev chain) err v)
      else (Inl err, v))"

section \<open>Commits\<close>

fun verifier_ops_loop :: "raw_commit \<Rightarrow> car_block_store \<Rightarrow> raw_repo_op list \<Rightarrow> ('s, 'i) verifier \<Rightarrow> verifier_op list \<times> ('s, 'i) verifier" where
  "verifier_ops_loop raw store [] v = ([], v)"
| "verifier_ops_loop raw store (op # ops) v =
     (let (record, v) =
        (case op_cid op of
           Some cid \<Rightarrow> (case car_get store cid of Some bs \<Rightarrow> (bs, v) | None \<Rightarrow> ([], bump missing_record_blocks_ops_update v))
         | None \<Rightarrow> ([], v));
        (rest, v) = verifier_ops_loop raw store ops v
      in (\<lparr>vo_repo = rc_repo raw, vo_rev = rc_rev raw, vo_action = op_action op, vo_path = op_path op, vo_cid = op_cid op,
           vo_prev = op_prev op, vo_record = record\<rparr> # rest, v))"

definition verifier_ops :: "raw_commit \<Rightarrow> car_block_store \<Rightarrow> ('s, 'i) verifier \<Rightarrow> verifier_op list \<times> ('s, 'i) verifier" where
  "verifier_ops raw store = verifier_ops_loop raw store (rc_ops raw)"

definition is_op_cid_mismatch :: "verifier_error \<Rightarrow> bool" where
  "is_op_cid_mismatch err = (case err of OpCidMismatch _ _ _ _ _ \<Rightarrow> True | _ \<Rightarrow> False)"

text \<open>
  \<open>verify_commit_internal\<close> from its end: saving and delivering, the checks of the commit itself,
  everything after the archive is decoded, and everything under the lock of the repository.
\<close>

definition deliver_commit ::
  "('s, 'i) ctx \<Rightarrow> raw_commit \<Rightarrow> decoded_commit_car \<Rightarrow> verifier_error option \<Rightarrow> ('s, 'i, verifier_op list option) action" where
  "deliver_commit X raw decoded chain_error =
     vbind (save_chain X raw (c_data (dc_inner decoded)) chain_error) (\<lambda>_ v.
       case chain_error of
         Some err \<Rightarrow> (Inl err, v)
       | None \<Rightarrow>
           (case verifier_ops raw (dc_store decoded) (bump events_verified_update v) of (ops, v) \<Rightarrow> (Inr (Some ops), v)))"

definition check_commit ::
  "('s, 'i) ctx \<Rightarrow> raw_commit \<Rightarrow> bool \<Rightarrow> chain_state option \<Rightarrow> decoded_commit_car \<Rightarrow> verifier_error option \<Rightarrow>
    ('s, 'i, verifier_op list option) action" where
  "check_commit X raw allow_async_resync chain decoded chain_error =
     vbind (check_fields raw (dc_inner decoded)) (\<lambda>_.
     vbind (verify_signature X (rc_repo raw) (rc_rev raw) (dc_inner decoded)) (\<lambda>_ v.
       case check_op_cids (cx_env X) raw (c_data (dc_inner decoded)) (dc_store decoded) of
         Inl err \<Rightarrow>
           handle_recoverable_resync X raw chain err allow_async_resync
             (if is_op_cid_mismatch err then bump op_cid_mismatches_update v else v)
       | Inr _ \<Rightarrow> deliver_commit X raw decoded chain_error v))"

definition verify_decoded ::
  "('s, 'i) ctx \<Rightarrow> raw_commit \<Rightarrow> bool \<Rightarrow> chain_state option \<Rightarrow> decoded_commit_car \<Rightarrow> ('s, 'i, verifier_op list option) action" where
  "verify_decoded X raw allow_async_resync chain decoded v =
     (case previous_root X raw (dc_inner decoded) (dc_store decoded) chain v of
        (Inl err, v) \<Rightarrow> handle_recoverable_resync X raw chain err allow_async_resync (count_inversion_error err v)
      | (Inr root, v) \<Rightarrow>
          (case check_chain X raw chain root v of
             (Inl err, v) \<Rightarrow> handle_recoverable_resync X raw chain err allow_async_resync v
           | (Inr chain_error, v) \<Rightarrow> check_commit X raw allow_async_resync chain decoded chain_error v))"

definition verify_known ::
  "('s, 'i) ctx \<Rightarrow> raw_commit \<Rightarrow> bool \<Rightarrow> chain_state option \<Rightarrow> bool \<Rightarrow> ('s, 'i, verifier_op list option) action" where
  "verify_known X raw allow_async_resync chain replay v =
     (if replay then (Inr None, bump rev_replays_dropped_update v)
      else case find_duplicate_path (rc_ops raw) of
          Some path \<Rightarrow>
            handle_recoverable_resync X raw chain (DuplicatePath (rc_repo raw) (tid_fmt (rc_rev raw)) path) allow_async_resync
              (bump duplicate_paths_update v)
        | None \<Rightarrow>
            (case decode_commit_car (cx_env X) raw of
               Inl err \<Rightarrow>
                 let v = count_decode_error err v in
                 if is_car_root_mismatch err then (Inl err, v)
                 else handle_recoverable_resync X raw chain err allow_async_resync v
             | Inr decoded \<Rightarrow> verify_decoded X raw allow_async_resync chain decoded v))"

definition verify_commit_locked :: "('s, 'i) ctx \<Rightarrow> raw_commit \<Rightarrow> bool \<Rightarrow> ('s, 'i, verifier_op list option) action" where
  "verify_commit_locked X raw allow_async_resync =
     vbind (check_hosting_gate X (rc_repo raw)) (\<lambda>_.
     vbind (v_load_chain X (rc_repo raw)) (\<lambda>chain.
     vbind (vret (is_rev_replay (rc_repo raw) (rc_rev raw) chain)) (verify_known X raw allow_async_resync chain)))"

definition verify_commit_internal :: "('s, 'i) ctx \<Rightarrow> int \<Rightarrow> raw_commit \<Rightarrow> bool \<Rightarrow> ('s, 'i, verifier_op list option) action" where
  "verify_commit_internal X now raw allow_async_resync =
     vbind (reject_future_rev X now raw) (\<lambda>_.
     vbind (reject_oversized raw) (\<lambda>_ v.
       case (if allow_async_resync then buffer_commit_if_resyncing X raw v else (False, v)) of
         (True, v) \<Rightarrow> (Inr None, v)
       | (False, v) \<Rightarrow> verify_commit_locked X raw allow_async_resync v))"

definition verify_commit :: "('s, 'i) ctx \<Rightarrow> int \<Rightarrow> raw_commit \<Rightarrow> ('s, 'i, verifier_op list option) action" where
  "verify_commit X now raw = verify_commit_internal X now raw True"

section \<open>Account events\<close>

definition on_account_event :: "('s, 'i) ctx \<Rightarrow> raw_account \<Rightarrow> ('s, 'i, unit) action" where
  "on_account_event X raw =
     vbind (v_load_hosting X (ra_did raw)) (\<lambda>current.
       if (case current of Some state \<Rightarrow> ra_seq raw \<le> ho_seq state | None \<Rightarrow> False)
       then (\<lambda>v. (Inr (), bump account_event_replays_dropped_update v))
       else v_save_hosting X (ra_did raw)
         \<lparr>ho_active = ra_active raw, ho_status = ra_status raw, ho_seq = ra_seq raw, ho_time = ra_time raw\<rparr>)"

section \<open>The rate limit\<close>

text \<open>\<open>max_by\<close> over the buckets in iteration order: the last of the fullest.\<close>

definition evict_fullest_bucket :: "('s, 'i) ctx \<Rightarrow> (did \<rightharpoonup> token_bucket) \<Rightarrow> (did \<rightharpoonup> token_bucket)" where
  "evict_fullest_bucket X m =
     (case fold (\<lambda>d best.
          case (best, m d) of
            (_, None) \<Rightarrow> best
          | (None, Some b) \<Rightarrow> Some (d, b)
          | (Some (d', b'), Some b) \<Rightarrow> if f_total_le (cx_f64 X) (tokens b') (tokens b) then Some (d, b) else best)
        (cx_order X m) None of
        Some (key, _) \<Rightarrow> m(key := None)
      | None \<Rightarrow> m)"

definition allow_resync :: "('s, 'i) ctx \<Rightarrow> int \<Rightarrow> did \<Rightarrow> ('s, 'i) verifier \<Rightarrow> bool \<times> ('s, 'i) verifier" where
  "allow_resync X now did v =
     (let limit = opt_rate_limit (cx_opts X); F = cx_f64 X in
      if \<not> limit_enabled F limit then (True, v)
      else
        let m = v_limiters v;
            m = (if m did = None \<and> card (dom m) \<ge> opt_limiter_capacity (cx_opts X) then evict_fullest_bucket X m else m);
            bucket = (case m did of Some b \<Rightarrow> b | None \<Rightarrow> \<lparr>tokens = burst limit, last_refill = now\<rparr>);
            elapsed = f_secs F (nat (now - last_refill bucket));
            refilled = f_min F (f_add F (tokens bucket) (f_mul F elapsed (per_second limit))) (burst limit);
            allowed = f_ge F refilled f_one;
            bucket = \<lparr>tokens = (if allowed then f_sub F refilled f_one else refilled), last_refill = now\<rparr>
        in (allowed, v\<lparr>v_limiters := m(did \<mapsto> bucket)\<rparr>))"

section \<open>Resyncs\<close>

definition verify_loaded_repo :: "('s, 'i) ctx \<Rightarrow> did \<Rightarrow> loaded_repo \<Rightarrow> ('s, 'i, unit) action" where
  "verify_loaded_repo X did loaded =
     (if c_did (lr_commit loaded) \<noteq> did then vret (Inl (FieldMismatch did (Some (tid_fmt (c_rev (lr_commit loaded)))) ''did''))
      else verify_signature X did (c_rev (lr_commit loaded)) (lr_commit loaded))"

text \<open>
  \<open>resync_inner\<close> before its second critical section: \<open>source\<close> is what the configured repository
  source answers, none if none is configured.
\<close>

type_synonym repo_source = "(sync_error + (sync_error + bytes) list) option"

definition resync_fetch :: "('s, 'i) ctx \<Rightarrow> int \<Rightarrow> repo_source \<Rightarrow> did \<Rightarrow> ('s, 'i, loaded_repo) action" where
  "resync_fetch X now source did =
     vbind (check_hosting_gate X did) (\<lambda>_ v.
       case allow_resync X now did v of
         (False, v) \<Rightarrow> (Inl (ResyncRateLimited did), v)
       | (True, v) \<Rightarrow>
           vbind (vret (ok_or (ResyncRequired did ''no sync repo source configured'') source)) (\<lambda>car.
           vbind (vret (map_err (\<lambda>e. ResyncRequired did (sync_text e)) car)) (\<lambda>chunks.
           vbind (vret (load_stream (cx_env X) did (opt_limits (cx_opts X)) chunks)) (\<lambda>loaded.
           vbind (verify_loaded_repo X did loaded) (\<lambda>_. vret (Inr loaded))))) v)"

text \<open>The second critical section of \<open>resync_inner\<close>: a fetched repository never replaces a newer one.\<close>

definition check_regression :: "did \<Rightarrow> commit \<Rightarrow> chain_state option \<Rightarrow> verifier_error + unit" where
  "check_regression did commit chain =
     (case chain of
        None \<Rightarrow> Inr ()
      | Some chain \<Rightarrow>
          and_then (map_err (\<lambda>_. FieldMismatch did (Some (tid_fmt (c_rev commit))) ''chain.rev'') (tid_try_from (ch_rev chain))) (\<lambda>current_rev.
            if as_u64 (c_rev commit) < as_u64 current_rev \<or> c_rev commit = current_rev \<and> c_data commit \<noteq> ch_data chain
            then Inl (RevRegression did (ch_rev chain) (tid_fmt (c_rev commit)))
            else Inr ()))"

definition resync_locked :: "('s, 'i) ctx \<Rightarrow> did \<Rightarrow> loaded_repo \<Rightarrow> ('s, 'i, verifier_op list) action" where
  "resync_locked X did loaded =
     vbind (check_hosting_gate X did) (\<lambda>_.
     vbind (v_load_chain X did) (\<lambda>chain.
     vbind (vret (check_regression did (lr_commit loaded) chain)) (\<lambda>_.
     vbind (v_save_chain X did \<lparr>ch_rev = tid_fmt (c_rev (lr_commit loaded)), ch_data = c_data (lr_commit loaded)\<rparr>) (\<lambda>_ v.
       (Inr (lr_ops loaded), bump resyncs_update v)))))"

definition resync_inner :: "('s, 'i) ctx \<Rightarrow> int \<Rightarrow> repo_source \<Rightarrow> did \<Rightarrow> ('s, 'i, verifier_op list) action" where
  "resync_inner X now source did = vbind (resync_fetch X now source did) (resync_locked X did)"

text \<open>What \<open>resync\<close> does with the result of \<open>resync_inner\<close>.\<close>

definition resync_result :: "did \<Rightarrow> verifier_error + 'a \<Rightarrow> ('s, 'i, 'a) action" where
  "resync_result did r v =
     (case r of
        Inr ops \<Rightarrow> (Inr ops, v)
      | Inl (ResyncRateLimited d) \<Rightarrow> (Inl (ResyncRateLimited d), bump resync_rate_limited_update v)
      | Inl err \<Rightarrow> let err = wrap_resync_error did err in (Inl err, count_resync_error err (bump resync_failures_update v)))"

definition resync :: "('s, 'i) ctx \<Rightarrow> int \<Rightarrow> repo_source \<Rightarrow> did \<Rightarrow> ('s, 'i, verifier_op list) action" where
  "resync X now source did v = (case resync_inner X now source did v of (r, v) \<Rightarrow> resync_result did r v)"

section \<open>Sync events\<close>

text \<open>
  The part of \<open>verify_sync\<close> under the lock: \<open>False\<close> when the event is settled, \<open>True\<close> when it needs a
  resync.
\<close>

definition sync_no_op :: "('s, 'i) ctx \<Rightarrow> raw_sync \<Rightarrow> tid \<Rightarrow> commit \<Rightarrow> ('s, 'i, bool) action" where
  "sync_no_op X raw t inner =
     vbind (check_sync_fields raw t inner) (\<lambda>_.
     vbind (verify_signature X (rs_did raw) (c_rev inner) inner) (\<lambda>_.
     vbind (v_save_chain X (rs_did raw) \<lparr>ch_rev = tid_fmt t, ch_data = c_data inner\<rparr>) (\<lambda>_ v.
       (Inr False, bump sync_no_ops_update v))))"

definition verify_sync_known :: "('s, 'i) ctx \<Rightarrow> raw_sync \<Rightarrow> tid \<Rightarrow> chain_state option \<Rightarrow> bool \<Rightarrow> ('s, 'i, bool) action" where
  "verify_sync_known X raw t chain replay v =
     (if replay then (Inr False, bump rev_replays_dropped_update v)
      else case chain of
          None \<Rightarrow> (Inr True, v)
        | Some chain \<Rightarrow>
            if rs_blocks raw = [] \<or> length (rs_blocks raw) > MAX_COMMIT_BLOCKS_BYTES then (Inr True, v)
            else case decode_sync_commit (cx_env X) (rs_did raw) (rs_rev raw) (rs_blocks raw) of
                Inl _ \<Rightarrow> (Inr True, v)
              | Inr inner \<Rightarrow> if c_data inner = ch_data chain then sync_no_op X raw t inner v else (Inr True, v))"

definition verify_sync_locked :: "('s, 'i) ctx \<Rightarrow> raw_sync \<Rightarrow> tid \<Rightarrow> ('s, 'i, bool) action" where
  "verify_sync_locked X raw t =
     vbind (check_hosting_gate X (rs_did raw)) (\<lambda>_.
     vbind (v_load_chain X (rs_did raw)) (\<lambda>chain.
     vbind (vret (is_rev_replay (rs_did raw) t chain)) (verify_sync_known X raw t chain)))"

definition verify_sync :: "('s, 'i) ctx \<Rightarrow> int \<Rightarrow> repo_source \<Rightarrow> raw_sync \<Rightarrow> ('s, 'i, verifier_op list option) action" where
  "verify_sync X now source raw =
     vbind (vret (parse_sync_rev raw)) (\<lambda>t.
     vbind (reject_future_sync_rev X now raw t) (\<lambda>_.
     vbind (verify_sync_locked X raw t) (\<lambda>fetch.
       if fetch then vbind (resync X now source (rs_did raw)) (\<lambda>ops. vret (Inr (Some ops)))
       else vret (Inr None))))"

section \<open>Resync jobs\<close>

definition finish_resync_job :: "did \<Rightarrow> ('s, 'i) verifier \<Rightarrow> ('s, 'i) verifier" where
  "finish_resync_job did v = v\<lparr>v_pending := (v_pending v)(did := None)\<rparr>"

text \<open>\<open>drain(..)\<close> on the queue of a repository.\<close>

definition take_commits :: "did \<Rightarrow> ('s, 'i) verifier \<Rightarrow> raw_commit list \<times> ('s, 'i) verifier" where
  "take_commits did v =
     (case v_pending v did of
        Some state \<Rightarrow> (pr_commits state, v\<lparr>v_pending := (v_pending v)(did \<mapsto> state\<lparr>pr_commits := []\<rparr>)\<rparr>)
      | None \<Rightarrow> ([], v))"

fun verify_pending ::
  "('s, 'i) ctx \<Rightarrow> bool \<Rightarrow> int \<Rightarrow> raw_commit list \<Rightarrow> verifier_op list \<Rightarrow> ('s, 'i) verifier \<Rightarrow> (verifier_op list \<times> ('s, 'i) verifier) option" where
  "verify_pending X reading now [] ops v = Some (ops, v)"
| "verify_pending X reading now (c # cs) ops v =
     (case verify_commit_internal X now c False v of
        (Inr (Some commit_ops), v) \<Rightarrow> verify_pending X reading now cs (ops @ commit_ops) v
      | (Inr None, v) \<Rightarrow> verify_pending X reading now cs ops v
      | (Inl err, v) \<Rightarrow> Option.bind (await_async_error X reading err v) (verify_pending X reading now cs ops))"

text \<open>The loop of \<open>run_resync_job\<close>, \<open>None\<close> when it does not end.\<close>

partial_function (option) drain_loop ::
  "('s, 'i) ctx \<Rightarrow> bool \<Rightarrow> int \<Rightarrow> did \<Rightarrow> verifier_op list \<Rightarrow> ('s, 'i) verifier \<Rightarrow> (verifier_op list \<times> ('s, 'i) verifier) option" where
  "drain_loop X reading now did ops v =
     (let (commits, v) = take_commits did v in
      if commits = [] then
        (if (case v_pending v did of Some state \<Rightarrow> pr_commits state = [] | None \<Rightarrow> False)
         then Some (ops, finish_resync_job did v)
         else drain_loop X reading now did ops v)
      else Option.bind (verify_pending X reading now commits ops v) (\<lambda>r. drain_loop X reading now did (fst r) (snd r)))"

text \<open>\<open>None\<close> when the job does not end, in its loop or in a send.\<close>

definition run_resync_job ::
  "('s, 'i) ctx \<Rightarrow> bool \<Rightarrow> int \<Rightarrow> repo_source \<Rightarrow> did \<Rightarrow> ('s, 'i) verifier \<Rightarrow> ('s, 'i) verifier option" where
  "run_resync_job X reading now source did v =
     (case v_pending v did of
        None \<Rightarrow> Some v
      | Some state \<Rightarrow>
          (case resync X now source did v of
             (Inl err, v) \<Rightarrow> await_async_error X reading err (finish_resync_job did v)
           | (Inr ops, v) \<Rightarrow>
               Option.bind (drain_loop X reading now did ops v) (\<lambda>(ops, v).
               Option.bind
                 (case v_load_chain X did v of
                    (Inr (Some chain), v) \<Rightarrow> Some (ch_rev chain, v)
                  | (Inr None, v) \<Rightarrow> Some ([], v)
                  | (Inl err, v) \<Rightarrow> map_option (Pair []) (await_async_error X reading err v)) (\<lambda>(new_rev, v).
               await_resync_event X reading \<lparr>re_did = did, re_old_rev = pr_old_rev state, re_new_rev = new_rev,
                 re_reason = pr_reason state, re_ops = ops\<rparr> v))))"

end
