(* ===== verification/Sync_Steps.thy ===== *)
theory Sync_Steps
  imports Sync_Verifier
begin

text \<open>
  The verifier under concurrent use. Every method is a sequence of critical sections: the locked
  part of a commit, of an account event, of a sync event and of a resync, the accesses to the
  pending queues and the limiter, the sends on the channels, and the calls between them. A step is
  one of them or one of the consumer of the channels, and a run interleaves the steps of any number
  of tasks.
\<close>

section \<open>Steps\<close>

inductive vstep :: "('s, 'i) ctx \<Rightarrow> ('s, 'i) verifier \<Rightarrow> ('s, 'i) verifier \<Rightarrow> bool" for X where
  step_future: "vstep X v (snd (reject_future_rev X now raw v))"
| step_future_sync: "vstep X v (snd (reject_future_sync_rev X now sync t v))"
| step_oversized: "vstep X v (snd (reject_oversized raw v))"
| step_buffer: "vstep X v (snd (buffer_commit_if_resyncing X raw v))"
| step_commit: "vstep X v (snd (verify_commit_locked X raw allow v))"
| step_account: "vstep X v (snd (on_account_event X account v))"
| step_sync: "vstep X v (snd (verify_sync_locked X sync t v))"
| step_fetch: "vstep X v (snd (resync_fetch X now source did v))"
| step_resync: "vstep X v (snd (resync_locked X did loaded v))"
| step_result: "vstep X v (snd (resync_result did (r :: verifier_error + verifier_op list) v))"
| step_take: "vstep X v (snd (take_commits did v))"
| step_finish: "vstep X v (finish_resync_job did v)"
| step_error: "vstep X v (send_async_error err v)"
| step_event: "vstep X v (send_resync_event event v)"
| step_take_errors: "vstep X v (snd (async_errors v))"
| step_take_events: "vstep X v (snd (resync_events v))"
| step_receive_error: "vstep X v (receive_error v)"
| step_receive_event: "vstep X v (receive_event v)"
| step_drop_errors: "vstep X v (drop_error_receiver v)"
| step_drop_events: "vstep X v (drop_event_receiver v)"
| step_close: "vstep X v (verifier_close v)"

abbreviation vsteps :: "('s, 'i) ctx \<Rightarrow> ('s, 'i) verifier \<Rightarrow> ('s, 'i) verifier \<Rightarrow> bool" where
  "vsteps X \<equiv> (vstep X)\<^sup>*\<^sup>*"

section \<open>The methods are runs\<close>

text \<open>An action runs when its effect on the state is a run; sequencing keeps that.\<close>

definition runs :: "('s, 'i) ctx \<Rightarrow> ('s, 'i, 'a) action \<Rightarrow> bool" where
  "runs X m \<longleftrightarrow> (\<forall>v. vsteps X v (snd (m v)))"

lemma runs_step: "(\<And>v. vstep X v (snd (m v))) \<Longrightarrow> runs X m"
  by (simp add: runs_def r_into_rtranclp)

lemma snd_vbind: "snd (vbind m f v) = (case fst (m v) of Inl e \<Rightarrow> snd (m v) | Inr a \<Rightarrow> snd (f a (snd (m v))))"
  by (simp add: vbind_def split: prod.split sum.split)

lemma runs_vbind: "runs X m \<Longrightarrow> (\<And>a. runs X (f a)) \<Longrightarrow> runs X (vbind m f)"
  unfolding runs_def snd_vbind by (auto intro: rtranclp_trans split: sum.split)

lemma runs_vret [simp]: "runs X (vret r)"
  by (simp add: runs_def vret_def)

lemma runs_if: "(b \<Longrightarrow> runs X m) \<Longrightarrow> (\<not> b \<Longrightarrow> runs X m') \<Longrightarrow> runs X (if b then m else m')"
  by simp

lemma runs_resync: "runs X (resync X now source did)"
proof -
  have "runs X (resync_inner X now source did)"
    unfolding resync_inner_def by (intro runs_vbind runs_step) (rule step_fetch, rule step_resync)
  then have "vsteps X v (snd (resync_inner X now source did v))" for v by (simp add: runs_def)
  then have "vsteps X v (snd (resync X now source did v))" for v
    using step_result by (fastforce simp: resync_def split: prod.split intro: rtranclp.rtrancl_into_rtrancl)
  then show ?thesis by (simp add: runs_def)
qed

lemma runs_verify_commit: "runs X (verify_commit_internal X now raw allow)"
proof -
  have "runs X (\<lambda>v. case (if allow then buffer_commit_if_resyncing X raw v else (False, v)) of
       (True, v) \<Rightarrow> (Inr None, v) | (False, v) \<Rightarrow> verify_commit_locked X raw allow v)"
    unfolding runs_def
  proof
    fix v
    obtain b v1 where b: "(if allow then buffer_commit_if_resyncing X raw v else (False, v)) = (b, v1)" by fastforce
    then have "vsteps X v v1" using step_buffer [of X v raw] by (auto split: if_splits)
    moreover have "vsteps X v1 (snd (verify_commit_locked X raw allow v1))" by (rule r_into_rtranclp, rule step_commit)
    ultimately show "vsteps X v (snd (case (if allow then buffer_commit_if_resyncing X raw v else (False, v)) of
       (True, v) \<Rightarrow> (Inr None, v) | (False, v) \<Rightarrow> verify_commit_locked X raw allow v))"
      unfolding b by (auto split: bool.split)
  qed
  then show ?thesis
    unfolding verify_commit_internal_def by (intro runs_vbind) (rule runs_step, rule step_future, rule runs_step, rule step_oversized, simp)
qed

lemma runs_verify_sync: "runs X (verify_sync X now source raw)"
  unfolding verify_sync_def
  by (intro runs_vbind runs_if runs_vret runs_resync runs_step) (rule step_future_sync, rule step_sync)

text \<open>The sends of a job are runs too: what the consumer has to receive, then the send.\<close>

lemma receive_runs:
  shows "v_error_rx v = RxTaken \<Longrightarrow> vsteps X v (v\<lparr>v_errors := drop n (v_errors v)\<rparr>)"
    and "v_event_rx u = RxTaken \<Longrightarrow> vsteps X u (u\<lparr>v_events := drop n (v_events u)\<rparr>)"
proof -
  show "vsteps X v (v\<lparr>v_errors := drop n (v_errors v)\<rparr>)" if "v_error_rx v = RxTaken" using that
  proof (induction n)
    case (Suc n)
    have "receive_error (v\<lparr>v_errors := drop n (v_errors v)\<rparr>) = v\<lparr>v_errors := drop (Suc n) (v_errors v)\<rparr>"
      using Suc.prems by (simp add: receive_error_def)
    then show ?case using Suc step_receive_error [of X "v\<lparr>v_errors := drop n (v_errors v)\<rparr>"] by (simp add: rtranclp.rtrancl_into_rtrancl)
  qed simp
  show "vsteps X u (u\<lparr>v_events := drop n (v_events u)\<rparr>)" if "v_event_rx u = RxTaken" using that
  proof (induction n)
    case (Suc n)
    have "receive_event (u\<lparr>v_events := drop n (v_events u)\<rparr>) = u\<lparr>v_events := drop (Suc n) (v_events u)\<rparr>"
      using Suc.prems by (simp add: receive_event_def)
    then show ?case using Suc step_receive_event [of X "u\<lparr>v_events := drop n (v_events u)\<rparr>"] by (simp add: rtranclp.rtrancl_into_rtrancl)
  qed simp
qed

lemma await_error_runs:
  assumes "await_async_error X reading err v = Some v'"
  shows "vsteps X v v'"
proof -
  obtain w where w: "vsteps X v w" "v' = send_async_error err w"
  proof (cases "error_room X v")
    case False
    then have "v_error_rx v = RxTaken" "v' = send_async_error err (v\<lparr>v_errors := make_room X (v_errors v)\<rparr>)"
      using assms by (simp_all add: await_async_error_def split: if_splits)
    moreover from this have "vsteps X v (v\<lparr>v_errors := make_room X (v_errors v)\<rparr>)" unfolding make_room_def by (intro receive_runs(1))
    ultimately show thesis using that by blast
  qed (use assms that [of v] in \<open>simp add: await_async_error_def\<close>)
  show ?thesis unfolding w(2) using w(1) step_error [of X w err] by (rule rtranclp.rtrancl_into_rtrancl)
qed

lemma await_event_runs:
  assumes "await_resync_event X reading event v = Some v'"
  shows "vsteps X v v'"
proof -
  obtain w where w: "vsteps X v w" "v' = send_resync_event event w"
  proof (cases "event_room X v")
    case False
    then have "v_event_rx v = RxTaken" "v' = send_resync_event event (v\<lparr>v_events := make_room X (v_events v)\<rparr>)"
      using assms by (simp_all add: await_resync_event_def split: if_splits)
    moreover from this have "vsteps X v (v\<lparr>v_events := make_room X (v_events v)\<rparr>)" unfolding make_room_def by (intro receive_runs(2))
    ultimately show thesis using that by blast
  qed (use assms that [of v] in \<open>simp add: await_resync_event_def\<close>)
  show ?thesis unfolding w(2) using w(1) step_event [of X w event] by (rule rtranclp.rtrancl_into_rtrancl)
qed

lemma verify_pending_runs: "verify_pending X reading now cs ops v = Some (ops', v') \<Longrightarrow> vsteps X v v'"
proof (induction cs arbitrary: ops v)
  case (Cons c cs)
  obtain r v1 where r: "verify_commit_internal X now c False v = (r, v1)" by fastforce
  have 1: "vsteps X v v1" using runs_verify_commit [of X now c False] r unfolding runs_def by (metis snd_conv)
  show ?case
  proof (cases r)
    case (Inl err)
    then obtain w where "await_async_error X reading err v1 = Some w" "verify_pending X reading now cs ops w = Some (ops', v')"
      using Cons.prems r by (auto simp: bind_eq_Some_conv)
    then show ?thesis using 1 Cons.IH await_error_runs by (meson rtranclp_trans)
  next
    case (Inr o1)
    then show ?thesis using 1 Cons r by (cases o1) (auto intro: rtranclp_trans)
  qed
qed simp

lemma drain_loop_runs:
  assumes "drain_loop X reading now did ops v = Some r"
  shows "vsteps X v (snd r)"
proof (rule drain_loop.raw_induct [where P = "\<lambda>X reading now did ops v r. vsteps X v (snd r)", OF _ assms])
  fix drain and X :: "('a, 'b) ctx" and reading now did ops v r
  assume ih: "\<And>X reading now did ops v r. drain X reading now did ops v = Some r \<Longrightarrow> vsteps X v (snd r)"
    and r: "(let (commits, v) = take_commits did v in
      if commits = [] then
        (if (case v_pending v did of Some state \<Rightarrow> pr_commits state = [] | None \<Rightarrow> False)
         then Some (ops, finish_resync_job did v) else drain X reading now did ops v)
      else Option.bind (verify_pending X reading now commits ops v) (\<lambda>r. drain X reading now did (fst r) (snd r))) = Some r"
  obtain commits w where w: "take_commits did v = (commits, w)" by fastforce
  have vw: "vsteps X v w" using step_take [of X v did] w by (simp add: r_into_rtranclp)
  have fin: "vsteps X w (finish_resync_job did w)" by (rule r_into_rtranclp, rule step_finish)
  show "vsteps X v (snd r)"
  proof (cases "commits = []")
    case True
    then show ?thesis
      using r w ih [of X reading now did ops w r] vw fin by (auto split: if_splits option.splits intro: rtranclp_trans)
  next
    case False
    then obtain ops1 u where "verify_pending X reading now commits ops w = Some (ops1, u)" "drain X reading now did ops1 u = Some r"
      using r w by (auto simp: bind_eq_Some_conv)
    then show ?thesis using vw ih verify_pending_runs by (meson rtranclp_trans)
  qed
qed

section \<open>What each step does to the store\<close>

text \<open>The channels of a verifier.\<close>

definition channels where
  "channels v = (v_errors v, v_events v, v_error_rx v, v_event_rx v, v_closed v)"

lemma channels_sel [simp]:
  "channels (v\<lparr>v_store := s\<rparr>) = channels v" "channels (v\<lparr>v_ids := i\<rparr>) = channels v" "channels (v\<lparr>v_stats := st\<rparr>) = channels v"
  "channels (v\<lparr>v_pending := p\<rparr>) = channels v" "channels (v\<lparr>v_limiters := l\<rparr>) = channels v"
  by (simp_all add: channels_def)

lemma bump_sel [simp]:
  "v_store (bump c v) = v_store v" "v_pending (bump c v) = v_pending v" "v_limiters (bump c v) = v_limiters v" "channels (bump c v) = channels v"
  by (simp_all add: bump_def)

lemma count_sel [simp]:
  "v_store (count_decode_error e v) = v_store v" "v_pending (count_decode_error e v) = v_pending v" "v_limiters (count_decode_error e v) = v_limiters v" "channels (count_decode_error e v) = channels v"
  "v_store (count_inversion_error e v) = v_store v" "v_pending (count_inversion_error e v) = v_pending v" "v_limiters (count_inversion_error e v) = v_limiters v" "channels (count_inversion_error e v) = channels v"
  "v_store (count_resync_error e v) = v_store v" "v_pending (count_resync_error e v) = v_pending v" "v_limiters (count_resync_error e v) = v_limiters v" "channels (count_resync_error e v) = channels v"
  by (cases e; simp add: count_resync_error_def split: verifier_error.split)+

lemma send_sel [simp]:
  "v_store (send_async_error e v) = v_store v" "v_pending (send_async_error e v) = v_pending v" "v_limiters (send_async_error e v) = v_limiters v"
  "v_store (send_resync_event ev v) = v_store v" "v_pending (send_resync_event ev v) = v_pending v" "v_limiters (send_resync_event ev v) = v_limiters v"
  by (simp_all add: send_async_error_def send_resync_event_def)

lemmas consumer_defs = async_errors_def resync_events_def receive_error_def receive_event_def drop_error_receiver_def drop_event_receiver_def

lemma consumer_sel [simp]:
  "v_store (snd (async_errors v)) = v_store v" "v_pending (snd (async_errors v)) = v_pending v" "v_limiters (snd (async_errors v)) = v_limiters v"
  "v_store (snd (resync_events v)) = v_store v" "v_pending (snd (resync_events v)) = v_pending v" "v_limiters (snd (resync_events v)) = v_limiters v"
  "v_store (receive_error v) = v_store v" "v_pending (receive_error v) = v_pending v" "v_limiters (receive_error v) = v_limiters v"
  "v_store (receive_event v) = v_store v" "v_pending (receive_event v) = v_pending v" "v_limiters (receive_event v) = v_limiters v"
  "v_store (drop_error_receiver v) = v_store v" "v_pending (drop_error_receiver v) = v_pending v" "v_limiters (drop_error_receiver v) = v_limiters v"
  "v_store (drop_event_receiver v) = v_store v" "v_pending (drop_event_receiver v) = v_pending v" "v_limiters (drop_event_receiver v) = v_limiters v"
  by (simp_all add: consumer_defs)

text \<open>A change that leaves the store, the queues, the limiter and the channels as they are.\<close>

definition frame :: "('s, 'i) verifier \<Rightarrow> ('s, 'i) verifier \<Rightarrow> bool" where
  "frame v v' \<longleftrightarrow> v_store v' = v_store v \<and> v_pending v' = v_pending v \<and> v_limiters v' = v_limiters v \<and>
     channels v' = channels v"

lemma frame_trans: "frame v w \<Longrightarrow> frame w u \<Longrightarrow> frame v u"
  by (simp add: frame_def)

lemma frame_simps [simp]: "frame v v" "frame v (bump c w) \<longleftrightarrow> frame v w" "frame v (count_decode_error e w) \<longleftrightarrow> frame v w"
  "frame v (count_inversion_error e w) \<longleftrightarrow> frame v w" "frame v (count_resync_error e w) \<longleftrightarrow> frame v w"
  "frame v (w\<lparr>v_ids := i\<rparr>) \<longleftrightarrow> frame v w"
  by (simp_all add: frame_def)

lemma vbind_rule:
  assumes "\<And>e w. m v = (Inl e, w) \<Longrightarrow> P w" "\<And>a w. m v = (Inr a, w) \<Longrightarrow> P (snd (f a w))"
  shows "P (snd (vbind m f v))"
  using assms by (simp add: vbind_def split: prod.split sum.split)

definition quiet :: "('s, 'i, 'a) action \<Rightarrow> bool" where
  "quiet m \<longleftrightarrow> (\<forall>v. frame v (snd (m v)))"

lemma quietD: "quiet m \<Longrightarrow> m v = (r, w) \<Longrightarrow> frame v w"
  unfolding quiet_def by (metis snd_conv)

lemma quiet_vbind: "quiet m \<Longrightarrow> (\<And>a. quiet (f a)) \<Longrightarrow> quiet (vbind m f)"
  unfolding quiet_def
proof (intro allI)
  fix v
  assume m: "\<forall>v. frame v (snd (m v))" and f: "\<And>a. \<forall>v. frame v (snd (f a v))"
  show "frame v (snd (vbind m f v))"
  proof (rule vbind_rule)
    fix e w assume "m v = (Inl e, w)"
    then show "frame v w" using m [rule_format, of v] by simp
  next
    fix a w assume "m v = (Inr a, w)"
    then have "frame v w" using m [rule_format, of v] by simp
    then show "frame v (snd (f a w))" using f [rule_format, of w a] frame_trans by blast
  qed
qed

lemma quiet_basic:
  "quiet (vret r)" "quiet (v_load_chain X did)" "quiet (v_load_hosting X did)" "quiet (reject_future_rev X now raw)"
  "quiet (reject_future_sync_rev X now sync t)" "quiet (reject_oversized raw)"
  by (simp_all add: quiet_def vret_def v_load_chain_def v_load_hosting_def reject_future_rev_def reject_future_sync_rev_def reject_oversized_def)

lemma quiet_checks: "quiet (check_fields raw inner)" "quiet (check_sync_fields sync t inner)"
  by (simp_all add: quiet_def vret_def check_fields_def field_mismatch_def check_sync_fields_def)

lemma quiet_root: "quiet (previous_root X raw inner store chain)"
  by (simp add: quiet_def previous_root_def)

lemma quiet_chain: "quiet (check_chain X raw chain root)"
  by (simp add: quiet_def check_chain_def Let_def split: option.split)

lemma quiet_gate: "quiet (check_hosting_gate X did)"
proof -
  have "quiet (\<lambda>v. (Inl e, bump c v))" for e c by (simp add: quiet_def)
  then show ?thesis unfolding check_hosting_gate_def by (auto intro!: quiet_vbind quiet_basic)
qed

lemma verify_signature_once_frame: "verify_signature_once X did inner v = (r, w) \<Longrightarrow> frame v w"
  by (auto simp: verify_signature_once_def split: prod.splits)

lemma quiet_signature: "quiet (verify_signature X did rv inner)"
proof -
  have "frame v w" if "verify_signature X did rv inner v = (r, w)" for v r w
    using that verify_signature_once_frame [of X did inner]
    by (fastforce simp: verify_signature_def frame_def split: prod.splits sum.splits signature_attempt_error.splits)
  then show ?thesis unfolding quiet_def by (metis surjective_pairing)
qed

lemma verifier_ops_frame: "verifier_ops_loop raw store ops v = (os, w) \<Longrightarrow> frame v w"
proof (induction ops arbitrary: v os)
  case (Cons op ops)
  obtain u os' where "verifier_ops_loop raw store ops u = (os', w)" "frame v u"
    using Cons.prems by (auto simp: Let_def split: prod.splits option.splits)
  then show ?case using Cons.IH frame_trans by blast
qed simp

lemma quiet_result: "quiet (resync_result did r)"
  by (auto simp: quiet_def resync_result_def Let_def split: sum.split verifier_error.split)

lemmas quiet_intros = quiet_vbind quiet_basic quiet_checks quiet_root quiet_chain quiet_gate quiet_signature quiet_result

text \<open>The two other effects of a commit: a saved chain state, or a queued resync.\<close>

definition saves :: "('s, 'i) ctx \<Rightarrow> did \<Rightarrow> chain_state \<Rightarrow> ('s, 'i) verifier \<Rightarrow> ('s, 'i) verifier \<Rightarrow> bool" where
  "saves X did ch v v' \<longleftrightarrow> v_store v' = snd (save_chain_op (cx_state X) (v_store v) did ch) \<and>
     v_pending v' = v_pending v \<and> v_limiters v' = v_limiters v \<and> channels v' = channels v"

definition enqueues :: "('s, 'i) ctx \<Rightarrow> ('s, 'i) verifier \<Rightarrow> ('s, 'i) verifier \<Rightarrow> bool" where
  "enqueues X v v' \<longleftrightarrow> (\<exists>raw old err w. frame v w \<and> v' = enqueue_resync X raw old err w)"

lemma save_chain_effect:
  "save_chain X raw data original v = (r, w) \<Longrightarrow> saves X (rc_repo raw) \<lparr>ch_rev = tid_fmt (rc_rev raw), ch_data = data\<rparr> v w"
  by (auto simp: save_chain_def v_save_chain_def saves_def split: prod.splits sum.splits if_splits)

lemma saves_frame: "frame v w \<Longrightarrow> saves X did ch w u \<Longrightarrow> saves X did ch v u" "saves X did ch v w \<Longrightarrow> frame w u \<Longrightarrow> saves X did ch v u"
  by (simp_all add: saves_def frame_def)

lemma deliver_effect:
  "saves X (rc_repo raw) \<lparr>ch_rev = tid_fmt (rc_rev raw), ch_data = c_data (dc_inner dc)\<rparr> v (snd (deliver_commit X raw dc chain_error v))"
  unfolding deliver_commit_def
proof (rule vbind_rule)
  fix a w assume s: "save_chain X raw (c_data (dc_inner dc)) chain_error v = (Inr a, w)"
  show "saves X (rc_repo raw) \<lparr>ch_rev = tid_fmt (rc_rev raw), ch_data = c_data (dc_inner dc)\<rparr> v
      (snd (case chain_error of Some err \<Rightarrow> (Inl err, w)
        | None \<Rightarrow> (case verifier_ops raw (dc_store dc) (bump events_verified_update w) of (ops, v) \<Rightarrow> (Inr (Some ops), v))))"
  proof (cases chain_error)
    case None
    obtain ops u where "verifier_ops raw (dc_store dc) (bump events_verified_update w) = (ops, u)" by fastforce
    moreover from this have "frame w u"
      using verifier_ops_frame [of raw "dc_store dc" "rc_ops raw" "bump events_verified_update w" ops u] by (simp add: verifier_ops_def frame_def)
    ultimately show ?thesis using None saves_frame(2) [OF save_chain_effect [OF s]] by simp
  qed (use save_chain_effect [OF s] in simp)
next
  fix e w assume "save_chain X raw (c_data (dc_inner dc)) chain_error v = (Inl e, w)"
  then show "saves X (rc_repo raw) \<lparr>ch_rev = tid_fmt (rc_rev raw), ch_data = c_data (dc_inner dc)\<rparr> v w" by (rule save_chain_effect)
qed

text \<open>What a commit under its lock may do.\<close>

definition commit_effect :: "('s, 'i) ctx \<Rightarrow> raw_commit \<Rightarrow> ('s, 'i) verifier \<Rightarrow> ('s, 'i) verifier \<Rightarrow> bool" where
  "commit_effect X raw v v' \<longleftrightarrow> frame v v' \<or> enqueues X v v' \<or> (\<exists>data. saves X (rc_repo raw) \<lparr>ch_rev = tid_fmt (rc_rev raw), ch_data = data\<rparr> v v')"

lemma enqueues_frame: "frame v w \<Longrightarrow> enqueues X w u \<Longrightarrow> enqueues X v u"
  unfolding enqueues_def using frame_trans by blast

lemma effect_after_frame: "frame v w \<Longrightarrow> commit_effect X raw w u \<Longrightarrow> commit_effect X raw v u"
  unfolding commit_effect_def using frame_trans enqueues_frame saves_frame(1) by blast

lemma commit_effectI: "saves X (rc_repo raw) \<lparr>ch_rev = tid_fmt (rc_rev raw), ch_data = data\<rparr> v v' \<Longrightarrow> commit_effect X raw v v'"
  by (auto simp: commit_effect_def)

lemma effect_after_quiet: "quiet m \<Longrightarrow> (\<And>a w. commit_effect X raw w (snd (f a w))) \<Longrightarrow> commit_effect X raw v (snd (vbind m f v))"
proof (rule vbind_rule)
  fix e w assume "quiet m" "m v = (Inl e, w)"
  then show "commit_effect X raw v w" using quietD [of m v "Inl e" w] by (simp add: commit_effect_def)
next
  fix a w assume "quiet m" "\<And>a w. commit_effect X raw w (snd (f a w))" "m v = (Inr a, w)"
  then show "commit_effect X raw v (snd (f a w))" using quietD [of m v "Inr a" w] effect_after_frame by blast
qed

lemma handle_effect: "commit_effect X raw v (snd (handle_recoverable_resync X raw chain err allow v))"
proof (cases "snd (handle_recoverable_resync X raw chain err allow v) = v")
  case False
  then have "snd (handle_recoverable_resync X raw chain err allow v) = enqueue_resync X raw (map_option ch_rev chain) err v"
    by (simp add: handle_recoverable_resync_def split: if_splits)
  moreover have "enqueues X v (enqueue_resync X raw (map_option ch_rev chain) err v)" unfolding enqueues_def using frame_simps(1) by blast
  ultimately show ?thesis by (simp add: commit_effect_def)
qed (simp add: commit_effect_def)

lemma check_commit_effect: "commit_effect X raw v (snd (check_commit X raw allow chain dc chain_error v))"
  unfolding check_commit_def
proof (intro effect_after_quiet quiet_intros)
  fix w
  show "commit_effect X raw w (snd (case check_op_cids (cx_env X) raw (c_data (dc_inner dc)) (dc_store dc) of
      Inl err \<Rightarrow> handle_recoverable_resync X raw chain err allow (if is_op_cid_mismatch err then bump op_cid_mismatches_update w else w)
    | Inr _ \<Rightarrow> deliver_commit X raw dc chain_error w))"
    by (cases "check_op_cids (cx_env X) raw (c_data (dc_inner dc)) (dc_store dc)")
      (simp_all add: effect_after_frame [OF _ handle_effect] commit_effectI [OF deliver_effect])
qed

lemma verify_decoded_effect: "commit_effect X raw v (snd (verify_decoded X raw allow chain dc v))"
proof -
  obtain r1 w1 where r1: "previous_root X raw (dc_inner dc) (dc_store dc) chain v = (r1, w1)" by fastforce
  have f1: "frame v w1" using quietD [OF quiet_root, of X raw "dc_inner dc" "dc_store dc" chain v r1 w1] r1 by simp
  show ?thesis
  proof (cases r1)
    case (Inl err)
    have "frame v (count_inversion_error err w1)" using f1 by simp
    then show ?thesis using r1 Inl by (simp add: verify_decoded_def effect_after_frame [OF _ handle_effect])
  next
    case (Inr root)
    obtain r2 w2 where r2: "check_chain X raw chain root w1 = (r2, w2)" by fastforce
    have "frame v w2" using quietD [OF quiet_chain, of X raw chain root w1 r2 w2] r2 f1 frame_trans by blast
    then show ?thesis
      using r1 r2 Inr
      by (cases r2) (simp_all add: verify_decoded_def effect_after_frame [OF _ handle_effect] effect_after_frame [OF _ check_commit_effect])
  qed
qed

text \<open>
  Under its lock a commit saves its own revision, and only over none or an older one.
\<close>

definition newer :: "('s, 'i) ctx \<Rightarrow> did \<Rightarrow> tid \<Rightarrow> ('s, 'i) verifier \<Rightarrow> bool" where
  "newer X did t v \<longleftrightarrow> (\<exists>chain. load_chain (cx_state X) (v_store v) did = Inr chain \<and> is_rev_replay did t chain = Inr False)"

definition locked_effect :: "('s, 'i) ctx \<Rightarrow> raw_commit \<Rightarrow> ('s, 'i) verifier \<Rightarrow> ('s, 'i) verifier \<Rightarrow> bool" where
  "locked_effect X raw v v' \<longleftrightarrow> frame v v' \<or> enqueues X v v' \<or>
     newer X (rc_repo raw) (rc_rev raw) v \<and> (\<exists>data. saves X (rc_repo raw) \<lparr>ch_rev = tid_fmt (rc_rev raw), ch_data = data\<rparr> v v')"

lemma newer_frame: "frame v w \<Longrightarrow> newer X did t w \<longleftrightarrow> newer X did t v"
  by (simp add: newer_def frame_def)

lemma locked_after_frame: "frame v w \<Longrightarrow> locked_effect X raw w u \<Longrightarrow> locked_effect X raw v u"
  unfolding locked_effect_def using frame_trans enqueues_frame saves_frame(1) newer_frame by blast

text \<open>
  The critical sections share their start: the hosting gate, the chain state, a check of it.
\<close>

lemma locked_section:
  assumes "v' = snd (vbind (check_hosting_gate X did) (\<lambda>_. vbind (v_load_chain X did) (\<lambda>chain. vbind (vret (g chain)) (rest chain))) v)"
  shows "frame v v' \<or> (\<exists>chain a u. frame v u \<and> load_chain (cx_state X) (v_store v) did = Inr chain \<and> g chain = Inr a \<and> v' = snd (rest chain a u))"
proof -
  obtain r w where w: "check_hosting_gate X did v = (r, w)" by fastforce
  have f: "frame v w" using quietD [OF quiet_gate, of X did v r w] w by simp
  show ?thesis
  proof (cases "\<exists>chain a b. r = Inr b \<and> load_chain (cx_state X) (v_store w) did = Inr chain \<and> g chain = Inr a")
    case True
    then obtain chain a b where c: "r = Inr b" "load_chain (cx_state X) (v_store w) did = Inr chain" "g chain = Inr a" by blast
    then have "v' = snd (rest chain a w)" using assms w by (simp add: vbind_def v_load_chain_def vret_def)
    moreover have "load_chain (cx_state X) (v_store v) did = Inr chain" using c(2) f by (simp add: frame_def)
    ultimately show ?thesis using f c(3) by blast
  next
    case False
    then have "v' = w"
      using assms w by (cases r; cases "load_chain (cx_state X) (v_store w) did") (auto simp: vbind_def v_load_chain_def vret_def split: sum.splits)
    then show ?thesis using f by simp
  qed
qed

lemma verify_known_effect:
  "frame v (snd (verify_known X raw allow chain replay v)) \<or> \<not> replay \<and> commit_effect X raw v (snd (verify_known X raw allow chain replay v))"
proof -
  have "commit_effect X raw v (snd (verify_known X raw allow chain False v))"
    by (auto simp: verify_known_def Let_def effect_after_frame [OF _ handle_effect] verify_decoded_effect split: option.split sum.split)
      (simp add: commit_effect_def)
  then show ?thesis by (cases replay) (simp_all add: verify_known_def [of _ _ _ _ True])
qed

lemma verify_commit_locked_effect: "locked_effect X raw v (snd (verify_commit_locked X raw allow v))"
proof -
  let ?v' = "snd (verify_commit_locked X raw allow v)"
  show ?thesis
    using locked_section [OF refl, of v X "rc_repo raw" "is_rev_replay (rc_repo raw) (rc_rev raw)" "verify_known X raw allow"]
    unfolding verify_commit_locked_def [symmetric]
  proof
    assume "\<exists>chain a u. frame v u \<and> load_chain (cx_state X) (v_store v) (rc_repo raw) = Inr chain \<and>
      is_rev_replay (rc_repo raw) (rc_rev raw) chain = Inr a \<and> ?v' = snd (verify_known X raw allow chain a u)"
    then obtain chain a u where u: "frame v u" "load_chain (cx_state X) (v_store v) (rc_repo raw) = Inr chain"
      "is_rev_replay (rc_repo raw) (rc_rev raw) chain = Inr a" "?v' = snd (verify_known X raw allow chain a u)" by blast
    from verify_known_effect [of u X raw allow chain a] u(2,3)
    have "frame u ?v' \<or> newer X (rc_repo raw) (rc_rev raw) v \<and> commit_effect X raw u ?v'" unfolding u(4) newer_def by auto
    then show ?thesis
      unfolding locked_effect_def commit_effect_def using u(1) frame_trans enqueues_frame saves_frame(1) by blast
  qed (simp add: locked_effect_def)
qed

text \<open>Sync events and resyncs.\<close>

lemma v_save_chain_effect: "v_save_chain X did ch v = (r, w) \<Longrightarrow> saves X did ch v w"
  by (auto simp: v_save_chain_def saves_def split: prod.splits)

definition save_effect :: "('s, 'i) ctx \<Rightarrow> did \<Rightarrow> chain_state \<Rightarrow> ('s, 'i) verifier \<Rightarrow> ('s, 'i) verifier \<Rightarrow> bool" where
  "save_effect X did ch v v' \<longleftrightarrow> frame v v' \<or> saves X did ch v v'"

lemma save_after_quiet:
  assumes "quiet m" "\<And>a w. m v = (Inr a, w) \<Longrightarrow> save_effect X did ch w (snd (f a w))"
  shows "save_effect X did ch v (snd (vbind m f v))"
proof (rule vbind_rule)
  fix e w assume "m v = (Inl e, w)"
  then show "save_effect X did ch v w" using quietD [OF assms(1)] by (simp add: save_effect_def)
next
  fix a w assume m: "m v = (Inr a, w)"
  then have "frame v w" using quietD [OF assms(1)] by blast
  with assms(2) [OF m] show "save_effect X did ch v (snd (f a w))"
    unfolding save_effect_def using frame_trans saves_frame(1) by blast
qed

lemma save_then_count: "save_effect X did ch v (snd (vbind (v_save_chain X did ch) (\<lambda>_ v. (Inr r, bump c v)) v))"
  by (rule vbind_rule) (auto simp: save_effect_def dest!: v_save_chain_effect intro: saves_frame(2))

lemma verify_sync_locked_effect:
  "frame v (snd (verify_sync_locked X raw t v)) \<or> newer X (rs_did raw) t v \<and>
     (\<exists>data. saves X (rs_did raw) \<lparr>ch_rev = tid_fmt t, ch_data = data\<rparr> v (snd (verify_sync_locked X raw t v)))"
  (is "frame v ?v' \<or> _")
proof -
  have no_op: "save_effect X (rs_did raw) \<lparr>ch_rev = tid_fmt t, ch_data = c_data inner\<rparr> u (snd (sync_no_op X raw t inner u))" for inner u
    unfolding sync_no_op_def by (intro save_after_quiet quiet_intros save_then_count)
  have known: "frame u (snd (verify_sync_known X raw t chain replay u)) \<or> \<not> replay \<and>
      (\<exists>data. saves X (rs_did raw) \<lparr>ch_rev = tid_fmt t, ch_data = data\<rparr> u (snd (verify_sync_known X raw t chain replay u)))" for chain replay u
    using no_op [where u = u] by (auto simp: verify_sync_known_def save_effect_def split: option.split sum.split)
  show ?thesis
    using locked_section [OF refl, of v X "rs_did raw" "is_rev_replay (rs_did raw) t" "verify_sync_known X raw t"]
    unfolding verify_sync_locked_def [symmetric]
  proof
    assume "\<exists>chain a u. frame v u \<and> load_chain (cx_state X) (v_store v) (rs_did raw) = Inr chain \<and>
      is_rev_replay (rs_did raw) t chain = Inr a \<and> ?v' = snd (verify_sync_known X raw t chain a u)"
    then obtain chain a u where u: "frame v u" "load_chain (cx_state X) (v_store v) (rs_did raw) = Inr chain"
      "is_rev_replay (rs_did raw) t chain = Inr a" "?v' = snd (verify_sync_known X raw t chain a u)" by blast
    from known [of u chain a] u(2,3)
    have "frame u ?v' \<or> newer X (rs_did raw) t v \<and> (\<exists>data. saves X (rs_did raw) \<lparr>ch_rev = tid_fmt t, ch_data = data\<rparr> u ?v')"
      unfolding u(4) newer_def by auto
    then show ?thesis using u(1) frame_trans saves_frame(1) by blast
  qed simp
qed

lemma resync_locked_effect:
  "frame v (snd (resync_locked X did loaded v)) \<or>
     (\<exists>chain. load_chain (cx_state X) (v_store v) did = Inr chain \<and> check_regression did (lr_commit loaded) chain = Inr ()) \<and>
     saves X did \<lparr>ch_rev = tid_fmt (c_rev (lr_commit loaded)), ch_data = c_data (lr_commit loaded)\<rparr> v (snd (resync_locked X did loaded v))"
proof -
  let ?ch = "\<lparr>ch_rev = tid_fmt (c_rev (lr_commit loaded)), ch_data = c_data (lr_commit loaded)\<rparr>"
  let ?rest = "\<lambda>_ (_ :: unit). vbind (v_save_chain X did ?ch) (\<lambda>_ v. (Inr (lr_ops loaded), bump resyncs_update v))"
  have "resync_locked X did loaded = vbind (check_hosting_gate X did) (\<lambda>_. vbind (v_load_chain X did) (\<lambda>chain.
      vbind (vret (check_regression did (lr_commit loaded) chain)) (?rest chain)))"
    by (simp add: resync_locked_def)
  then have "frame v (snd (resync_locked X did loaded v)) \<or> (\<exists>chain a u. frame v u \<and> load_chain (cx_state X) (v_store v) did = Inr chain \<and>
      check_regression did (lr_commit loaded) chain = Inr a \<and> snd (resync_locked X did loaded v) = snd (?rest chain a u))"
    using locked_section [OF refl, of v X did "check_regression did (lr_commit loaded)" ?rest] by simp
  then show ?thesis
  proof
    assume "\<exists>chain a u. frame v u \<and> load_chain (cx_state X) (v_store v) did = Inr chain \<and>
      check_regression did (lr_commit loaded) chain = Inr a \<and> snd (resync_locked X did loaded v) = snd (?rest chain a u)"
    then obtain chain a u where u: "frame v u" "load_chain (cx_state X) (v_store v) did = Inr chain"
      "check_regression did (lr_commit loaded) chain = Inr a" "snd (resync_locked X did loaded v) = snd (?rest chain a u)" by blast
    have "save_effect X did ?ch u (snd (resync_locked X did loaded v))" unfolding u(4) by (rule save_then_count)
    then show ?thesis using u(2,3) frame_trans [OF u(1)] saves_frame(1) [OF u(1)] unfolding save_effect_def by auto
  qed simp
qed

section \<open>Revisions only advance\<close>

text \<open>A later chain state: the same, or one with a greater revision.\<close>

definition chain_le :: "chain_state \<Rightarrow> chain_state \<Rightarrow> bool" where
  "chain_le c c' \<longleftrightarrow> c = c' \<or> (\<exists>t t'. tid_try_from (ch_rev c) = Inr t \<and> tid_try_from (ch_rev c') = Inr t' \<and>
     (as_u64 t < as_u64 t' \<or> t = t' \<and> ch_data c = ch_data c'))"

lemma chain_le_trans: "chain_le a b \<Longrightarrow> chain_le b c \<Longrightarrow> chain_le a c"
  unfolding chain_le_def by (elim disjE exE conjE) (force dest: order.strict_trans)+

definition host_le :: "hosting_state \<Rightarrow> hosting_state \<Rightarrow> bool" where
  "host_le h h' \<longleftrightarrow> h = h' \<or> ho_seq h < ho_seq h'"

lemma host_le_trans: "host_le a b \<Longrightarrow> host_le b c \<Longrightarrow> host_le a c"
  by (auto simp: host_le_def)

text \<open>Entries are kept and advance.\<close>

definition map_le_by :: "('v \<Rightarrow> 'v \<Rightarrow> bool) \<Rightarrow> (did \<rightharpoonup> 'v) \<Rightarrow> (did \<rightharpoonup> 'v) \<Rightarrow> bool" where
  "map_le_by le m m' \<longleftrightarrow> (\<forall>d x. m d = Some x \<longrightarrow> (\<exists>y. m' d = Some y \<and> le x y))"

lemma map_le_by_trans:
  assumes "\<And>a b c. le a b \<Longrightarrow> le b c \<Longrightarrow> le a c" "map_le_by le m m'" "map_le_by le m' m''"
  shows "map_le_by le m m''"
  using assms unfolding map_le_by_def by metis

lemma map_le_by_upd: "(\<And>x. le x x) \<Longrightarrow> (\<And>x. m d = Some x \<Longrightarrow> le x y) \<Longrightarrow> map_le_by le m (m(d \<mapsto> y))"
  by (auto simp: map_le_by_def)

locale verifier_on_store = state_store St chain_of host_of
  for St :: "'s state_store_ops" and chain_of :: "'s \<Rightarrow> did \<rightharpoonup> chain_state" and host_of :: "'s \<Rightarrow> did \<rightharpoonup> hosting_state" +
  fixes X :: "('s, 'i) ctx"
  assumes on_store: "cx_state X = St"
begin

definition advances :: "('s, 'i) verifier \<Rightarrow> ('s, 'i) verifier \<Rightarrow> bool" where
  "advances v v' \<longleftrightarrow> map_le_by chain_le (chain_of (v_store v)) (chain_of (v_store v')) \<and>
     map_le_by host_le (host_of (v_store v)) (host_of (v_store v'))"

lemma advances_same: "v_store v' = v_store v \<Longrightarrow> advances v v'"
  by (auto simp: advances_def map_le_by_def chain_le_def host_le_def)

lemma advances_trans: "advances a b \<Longrightarrow> advances b c \<Longrightarrow> advances a c"
  unfolding advances_def using map_le_by_trans [of chain_le] map_le_by_trans [of host_le] chain_le_trans host_le_trans by metis

lemma saves_advances:
  assumes "saves X did ch v v'" "\<And>c. chain_of (v_store v) did = Some c \<Longrightarrow> chain_le c ch"
  shows "advances v v'"
proof -
  obtain r where "save_chain_op St (v_store v) did ch = (r, v_store v')"
    using assms(1) on_store unfolding saves_def by (metis prod.collapse)
  from save_chain_of [OF this] have h: "host_of (v_store v') = host_of (v_store v)"
    "chain_of (v_store v') \<in> {(chain_of (v_store v))(did \<mapsto> ch), chain_of (v_store v)}" by auto
  have refl: "chain_le x x" "host_le y y" for x y by (simp_all add: chain_le_def host_le_def)
  then have "map_le_by chain_le (chain_of (v_store v)) (chain_of (v_store v'))"
    using h(2) map_le_by_upd [of chain_le "chain_of (v_store v)" did ch] assms(2) by (auto simp: map_le_by_def)
  then show ?thesis unfolding advances_def h(1) using refl by (auto simp: map_le_by_def)
qed

lemma newer_saves_advances:
  assumes "saves X did \<lparr>ch_rev = tid_fmt t, ch_data = data\<rparr> v v'" "newer X did t v"
  shows "advances v v'"
proof (rule saves_advances [OF assms(1)])
  fix c assume "chain_of (v_store v) did = Some c"
  then have "is_rev_replay did t (Some c) = Inr False"
    using assms(2) load_chain_of on_store unfolding newer_def by (metis)
  then obtain t' where "tid_try_from (ch_rev c) = Inr t'" "as_u64 t' < as_u64 t" by (auto simp: is_rev_replay_def and_then_eq_Inr)
  then show "chain_le c \<lparr>ch_rev = tid_fmt t, ch_data = data\<rparr>"
    using tid_fmt_parse [of "as_u64 t"] by (cases t) (auto simp: chain_le_def)
qed

lemma account_advances: "advances v (snd (on_account_event X raw v))"
  unfolding on_account_event_def
proof (rule vbind_rule)
  fix current w assume l: "v_load_hosting X (ra_did raw) v = (Inr current, w)"
  then have w: "w = v" "current = host_of (v_store v) (ra_did raw)"
    using load_host_of [of "v_store v" "ra_did raw"] on_store by (auto simp: v_load_hosting_def)
  let ?ho = "\<lparr>ho_active = ra_active raw, ho_status = ra_status raw, ho_seq = ra_seq raw, ho_time = ra_time raw\<rparr>"
  have "advances v (snd (v_save_hosting X (ra_did raw) ?ho v))" if "\<not> (case current of Some state \<Rightarrow> ra_seq raw \<le> ho_seq state | None \<Rightarrow> False)"
  proof -
    obtain r s where s: "save_hosting St (v_store v) (ra_did raw) ?ho = (r, s)" by fastforce
    have h: "chain_of s = chain_of (v_store v)" "host_of s \<in> {(host_of (v_store v))(ra_did raw \<mapsto> ?ho), host_of (v_store v)}"
      using save_host_of [OF s] by auto
    have le: "host_le x ?ho" if "host_of (v_store v) (ra_did raw) = Some x" for x
      using that \<open>\<not> _\<close> w(2) by (auto simp: host_le_def)
    have "map_le_by host_le (host_of (v_store v)) (host_of s)"
      using h(2) map_le_by_upd [of host_le, OF _ le] by (auto simp: map_le_by_def host_le_def)
    moreover have "map_le_by chain_le (chain_of (v_store v)) (chain_of (v_store v))" by (simp add: map_le_by_def chain_le_def)
    ultimately show ?thesis using s h(1) on_store by (simp add: v_save_hosting_def advances_def)
  qed
  then show "advances v (snd ((if case current of Some state \<Rightarrow> ra_seq raw \<le> ho_seq state | None \<Rightarrow> False
      then \<lambda>v. (Inr (), bump account_event_replays_dropped_update v) else v_save_hosting X (ra_did raw) ?ho) w))"
    using w(1) by (auto intro: advances_same)
qed (auto simp: v_load_hosting_def intro: advances_same)

lemma resync_advances: "advances v (snd (resync_locked X did loaded v))"
  using resync_locked_effect [of v X did loaded]
proof
  let ?ch = "\<lparr>ch_rev = tid_fmt (c_rev (lr_commit loaded)), ch_data = c_data (lr_commit loaded)\<rparr>"
  assume "(\<exists>chain. load_chain (cx_state X) (v_store v) did = Inr chain \<and> check_regression did (lr_commit loaded) chain = Inr ()) \<and>
    saves X did ?ch v (snd (resync_locked X did loaded v))"
  then have s: "saves X did ?ch v (snd (resync_locked X did loaded v))"
    and c: "check_regression did (lr_commit loaded) (chain_of (v_store v) did) = Inr ()"
    using load_chain_of on_store by auto
  show ?thesis
  proof (rule saves_advances [OF s])
    fix c assume "chain_of (v_store v) did = Some c"
    then obtain t where t: "tid_try_from (ch_rev c) = Inr t" "as_u64 t \<le> as_u64 (c_rev (lr_commit loaded))"
      "c_rev (lr_commit loaded) = t \<Longrightarrow> c_data (lr_commit loaded) = ch_data c"
      using c by (auto simp: check_regression_def and_then_eq_Inr split: if_splits)
    then show "chain_le c ?ch"
      using tid_fmt_parse [of "as_u64 (c_rev (lr_commit loaded))"]
      by (cases t; cases "c_rev (lr_commit loaded)") (auto simp: chain_le_def)
  qed
qed (simp add: advances_same frame_def)

lemma enqueue_store [simp]: "v_store (enqueue_resync Y raw old err w) = v_store w"
  by (simp add: enqueue_resync_def push_pending_def split: option.split)

lemma commit_advances: "advances v (snd (verify_commit_locked X raw allow v))"
  using verify_commit_locked_effect [of X raw v allow] unfolding locked_effect_def
proof (elim disjE conjE exE)
  fix data assume "newer X (rc_repo raw) (rc_rev raw) v"
    "saves X (rc_repo raw) \<lparr>ch_rev = tid_fmt (rc_rev raw), ch_data = data\<rparr> v (snd (verify_commit_locked X raw allow v))"
  then show ?thesis by (rule newer_saves_advances [rotated])
qed (auto simp: frame_def enqueues_def intro!: advances_same)

lemma sync_advances: "advances v (snd (verify_sync_locked X raw t v))"
  using verify_sync_locked_effect [of v X raw t] newer_saves_advances by (auto simp: frame_def intro: advances_same)

end

lemma quiet_frames:
  "frame v (snd (reject_future_rev X now raw v))" "frame v (snd (reject_future_sync_rev X now sync t v))"
  "frame v (snd (reject_oversized raw v))" "frame v (snd (resync_result did r v))"
  using quiet_basic(4-6) quiet_result unfolding quiet_def by blast+

lemma buffer_effect: "v_store (snd (buffer_commit_if_resyncing X raw v)) = v_store v" "v_limiters (snd (buffer_commit_if_resyncing X raw v)) = v_limiters v"
  by (simp_all add: buffer_commit_if_resyncing_def push_pending_def split: option.split)

lemma allow_effect: "v_store (snd (allow_resync X now did v)) = v_store v" "v_pending (snd (allow_resync X now did v)) = v_pending v"
  "channels (snd (allow_resync X now did v)) = channels v"
  by (simp_all add: allow_resync_def Let_def)

lemma quiet_load: "quiet (vbind (vret (ok_or e1 source)) (\<lambda>car. vbind (vret (map_err e2 car)) (\<lambda>chunks.
    vbind (vret (load_stream E did limits chunks)) (\<lambda>loaded. vbind (verify_loaded_repo X did loaded) (\<lambda>_. vret (Inr loaded))))))"
proof -
  have "quiet (verify_loaded_repo X did loaded)" for loaded
    by (simp add: verify_loaded_repo_def quiet_intros)
  then show ?thesis by (intro quiet_intros)
qed

lemma fetch_effect:
  obtains w where "frame v w" "v_store (snd (resync_fetch X now source did v)) = v_store v"
    "v_pending (snd (resync_fetch X now source did v)) = v_pending v"
    "v_limiters (snd (resync_fetch X now source did v)) \<in> {v_limiters v, v_limiters (snd (allow_resync X now did w))}"
    "channels (snd (resync_fetch X now source did v)) = channels v"
proof -
  obtain r w where g: "check_hosting_gate X did v = (r, w)" by fastforce
  have f: "frame v w" using quietD [OF quiet_gate, of X did v r w] g by simp
  let ?v' = "snd (resync_fetch X now source did v)"
  have "?v' = w \<or> frame (snd (allow_resync X now did w)) ?v'"
  proof (cases r)
    case (Inr a)
    obtain b u where b: "allow_resync X now did w = (b, u)" by fastforce
    show ?thesis
    proof (cases b)
      case True
      then have "?v' = snd (vbind (vret (ok_or (ResyncRequired did ''no sync repo source configured'') source)) (\<lambda>car.
           vbind (vret (map_err (\<lambda>e. ResyncRequired did (sync_text e)) car)) (\<lambda>chunks.
           vbind (vret (load_stream (cx_env X) did (opt_limits (cx_opts X)) chunks)) (\<lambda>loaded.
           vbind (verify_loaded_repo X did loaded) (\<lambda>_. vret (Inr loaded))))) u)"
        using g Inr b by (simp add: resync_fetch_def vbind_def [of "check_hosting_gate X did"])
      then show ?thesis using b by (simp add: quiet_load [unfolded quiet_def])
    next
      case False
      then show ?thesis using g Inr b by (simp add: resync_fetch_def vbind_def)
    qed
  qed (use g in \<open>simp add: resync_fetch_def vbind_def\<close>)
  then show thesis using that [OF f] f allow_effect [of X now did w] by (auto simp: frame_def)
qed

context verifier_on_store
begin

lemma step_advances: "vstep X v v' \<Longrightarrow> advances v v'"
proof (induction rule: vstep.induct)
  case (step_fetch v now source did)
  then show ?case using fetch_effect [of v X now source did] advances_same by blast
qed (auto simp: quiet_frames [unfolded frame_def] buffer_effect take_commits_def finish_resync_job_def verifier_close_def
     intro!: advances_same commit_advances account_advances sync_advances resync_advances split: option.split)

lemma run_advances: "vsteps X v v' \<Longrightarrow> advances v v'"
  by (induction rule: rtranclp_induct) (auto intro: advances_same advances_trans step_advances)

end

section \<open>Queues and buckets are bounded\<close>

definition bounded :: "('s, 'i) ctx \<Rightarrow> ('s, 'i) verifier \<Rightarrow> bool" where
  "bounded X v \<longleftrightarrow> (\<forall>d st. v_pending v d = Some st \<longrightarrow> length (pr_commits st) \<le> opt_pending_capacity (cx_opts X)) \<and>
     finite (dom (v_limiters v)) \<and> card (dom (v_limiters v)) \<le> opt_limiter_capacity (cx_opts X)"

text \<open>What the rate limiter relies on: a positive capacity, and an iteration that visits every bucket.\<close>

definition limiter_ok :: "('s, 'i) ctx \<Rightarrow> bool" where
  "limiter_ok X \<longleftrightarrow> 0 < opt_limiter_capacity (cx_opts X) \<and> (\<forall>m. finite (dom m) \<longrightarrow> set (cx_order X m) = dom m)"

lemma evict_card:
  assumes "limiter_ok X" "finite (dom m)" "dom m \<noteq> {}"
  shows "\<exists>key. key \<in> dom m \<and> evict_fullest_bucket X m = m(key := None)"
proof -
  let ?f = "\<lambda>d best. case (best, m d) of (_, None) \<Rightarrow> best | (None, Some b) \<Rightarrow> Some (d, b)
    | (Some (d', b'), Some b) \<Rightarrow> if f_total_le (cx_f64 X) (tokens b') (tokens b) then Some (d, b) else best"
  have 1: "fold ?f ds best = Some (k, b) \<Longrightarrow> best = Some (k, b) \<or> k \<in> dom m" for ds best k b
  proof (induction ds arbitrary: best)
    case (Cons d ds)
    then have "?f d best = Some (k, b) \<or> k \<in> dom m" by simp
    then show ?case by (auto split: option.splits prod.splits if_splits)
  qed simp
  have 2: "fold ?f ds best = None \<Longrightarrow> best = None \<and> set ds \<inter> dom m = {}" for ds best
  proof (induction ds arbitrary: best)
    case (Cons d ds)
    then have "?f d best = None \<and> set ds \<inter> dom m = {}" by simp
    then show ?case by (auto split: option.splits prod.splits if_splits)
  qed simp
  obtain k b where k: "fold ?f (cx_order X m) None = Some (k, b)"
    using 2 [of "cx_order X m" None] assms by (cases "fold ?f (cx_order X m) None") (auto simp: limiter_ok_def)
  then have "k \<in> dom m" using 1 [OF k] by simp
  then show ?thesis using k by (auto simp: evict_fullest_bucket_def)
qed

lemma allow_bounded:
  assumes "limiter_ok X" "finite (dom (v_limiters v))" "card (dom (v_limiters v)) \<le> opt_limiter_capacity (cx_opts X)"
  shows "finite (dom (v_limiters (snd (allow_resync X now did v)))) \<and>
    card (dom (v_limiters (snd (allow_resync X now did v)))) \<le> opt_limiter_capacity (cx_opts X)"
proof -
  let ?m = "v_limiters v" and ?cap = "opt_limiter_capacity (cx_opts X)"
  define m where "m = (if ?m did = None \<and> card (dom ?m) \<ge> ?cap then evict_fullest_bucket X ?m else ?m)"
  have "finite (dom m) \<and> card (insert did (dom m)) \<le> ?cap"
  proof (cases "?m did = None \<and> card (dom ?m) \<ge> ?cap")
    case True
    then have "dom ?m \<noteq> {}" using assms(1) by (auto simp: limiter_ok_def)
    then obtain k where k: "k \<in> dom ?m" "evict_fullest_bucket X ?m = ?m(k := None)" using evict_card [OF assms(1,2)] by blast
    have "card (insert did (dom ?m - {k})) \<le> Suc (card (dom ?m - {k}))" using card_insert_le_m1 assms(2) by (simp add: card_insert_if)
    also have "\<dots> \<le> ?cap" using card_Suc_Diff1 [OF assms(2) k(1)] assms(3) by simp
    finally show ?thesis using True k(2) assms(2) by (simp add: m_def)
  next
    case False
    then show ?thesis using assms(2,3) by (cases "?m did") (auto simp: m_def card_insert_if domIff)
  qed
  moreover have "v_limiters (snd (allow_resync X now did v)) = ?m \<or> (\<exists>b. v_limiters (snd (allow_resync X now did v)) = m(did \<mapsto> b))"
    by (auto simp: allow_resync_def Let_def m_def)
  ultimately show ?thesis using assms(2,3) by auto
qed

lemma push_bounded:
  assumes "bounded X v" "v_pending v (rc_repo raw) = Some st"
  shows "bounded X (push_pending X raw st v)"
  using assms by (auto simp: bounded_def push_pending_def)

lemma frame_bounded: "frame v w \<Longrightarrow> bounded X w \<longleftrightarrow> bounded X v"
  by (simp add: frame_def bounded_def)

lemma saves_bounded: "saves X did ch v w \<Longrightarrow> bounded X w \<longleftrightarrow> bounded X v"
  by (simp add: saves_def bounded_def)

lemma enqueues_bounded:
  assumes "enqueues X v v'" "bounded X v"
  shows "bounded X v'"
proof -
  obtain raw old err w where w: "frame v w" "v' = enqueue_resync X raw old err w" using assms(1) by (auto simp: enqueues_def)
  then have b: "bounded X w" using assms(2) frame_bounded by blast
  show ?thesis
  proof (cases "v_pending w (rc_repo raw)")
    case None
    then show ?thesis using b w(2) by (simp add: enqueue_resync_def bounded_def)
  next
    case (Some st)
    then show ?thesis using push_bounded [OF b Some] w(2) by (simp add: enqueue_resync_def)
  qed
qed

lemma account_bounded: "bounded X (snd (on_account_event X raw v)) \<longleftrightarrow> bounded X v"
  unfolding on_account_event_def
  by (rule vbind_rule) (auto simp: v_load_hosting_def v_save_hosting_def bounded_def split: prod.splits)

lemma step_bounded:
  assumes "limiter_ok X"
  shows "vstep X v v' \<Longrightarrow> bounded X v \<Longrightarrow> bounded X v'"
proof (induction rule: vstep.induct)
  case (step_buffer v raw)
  then show ?case using push_bounded by (auto simp: buffer_commit_if_resyncing_def split: option.split)
next
  case (step_commit v raw allow)
  then show ?case
    using verify_commit_locked_effect [of X raw v allow] frame_bounded enqueues_bounded saves_bounded unfolding locked_effect_def by metis
next
  case (step_sync v sync t)
  then show ?case using verify_sync_locked_effect [of v X sync t] frame_bounded saves_bounded by metis
next
  case (step_fetch v now source did)
  obtain w where w: "frame v w" "v_pending (snd (resync_fetch X now source did v)) = v_pending v"
    "v_limiters (snd (resync_fetch X now source did v)) \<in> {v_limiters v, v_limiters (snd (allow_resync X now did w))}"
    using fetch_effect [of v X now source did] by metis
  then show ?case using step_fetch allow_bounded [OF assms, of w now did] by (auto simp: bounded_def frame_def)
next
  case (step_resync v did loaded)
  then show ?case using resync_locked_effect [of v X did loaded] frame_bounded saves_bounded by metis
next
  case (step_account v account)
  then show ?case by (simp add: account_bounded)
qed (auto simp: quiet_frames [unfolded frame_def] take_commits_def finish_resync_job_def verifier_close_def bounded_def send_async_error_def send_resync_event_def
     split: option.split if_splits)

end
