(* ===== verification/Mst_Authentic.thy ===== *)
theory Mst_Authentic
  imports Mst_Contract
begin

text \<open>
  Trees read from untrusted blocks. Every block was checked against its CID, nothing else: the
  shape, the prefix compression and the missing parts are the sender's choice. The root a flush
  returns is still a commitment to the contents: when it is the root of a known tree whose CIDs
  have no second preimage, the contents are those of the known tree.
\<close>

section \<open>Properties that loading and mutating keep\<close>

text \<open>
  A property of nodes that changed nodes always have and that loading keeps is kept by every
  operation of a tree.
\<close>

locale kept_by_loads =
  fixes Q :: "node \<Rightarrow> bool" and E :: env
  assumes clean_kept: "clean Q"
    and loads_kept: "loads E n refs n' refs' \<Longrightarrow> all_nodes Q n \<Longrightarrow> all_nodes Q n'"
    and no_blocks_kept: "loads (no_blocks E) n refs n' refs' \<Longrightarrow> all_nodes Q n \<Longrightarrow> all_nodes Q n'"
begin

lemma load_key_path_kept:
  assumes "load_key_path E key visit t = (r, t')" "all_opt Q (t_root t)"
  shows "all_opt Q (t_root t')"
  using load_key_path_loads [OF assms(1)]
proof
  assume "\<exists>n n' refs'. t_root t = Some n \<and> t' = t\<lparr>t_root := Some n', t_refs := refs'\<rparr> \<and>
    (\<exists>n1 refs1. loads E n (t_refs t) n1 refs1 \<and> loads (no_blocks E) n1 refs1 n' refs')"
  then obtain n n' refs' n1 refs1 where l: "t_root t = Some n" "t_root t' = Some n'"
    "loads E n (t_refs t) n1 refs1" "loads (no_blocks E) n1 refs1 n' refs'" by auto
  then show ?thesis using assms(2) no_blocks_kept [OF l(4) loads_kept [OF l(3)]] by simp
qed (use assms(2) in simp)

lemma insert_kept:
  assumes "tree_insert E key val t = (r, t')" "\<not> t_poisoned t'" "all_opt Q (t_root t)"
  shows "all_opt Q (t_root t')"
  using assms(1,2)
proof (cases rule: tree_insert_cases)
  case same
  then show ?thesis using load_key_path_kept assms(3) by blast
next
  case (upd t1 r1 n n' rel)
  then show ?thesis
    using update_node_account(2) [OF upd(3) clean_kept] load_key_path_kept [OF upd(1) assms(3)] by (simp add: all_nodes_sel [of Q n])
next
  case (ins t1 r1 n' rel)
  let ?h = "height_for_key (compress256 E) key"
  have "all_opt Q (t_root t1)" by (rule load_key_path_kept [OF ins(1) assms(3)])
  then have "case t_root t1 of None \<Rightarrow> True | Some n \<Rightarrow> parts Q n \<and> (nheight n < ?h \<longrightarrow> Q n)"
    by (cases "t_root t1") (simp_all add: all_nodes_sel)
  then show ?thesis using insert_account(1) [OF ins(2), where Q = Q] clean_kept ins(3) by simp
qed

lemma remove_kept:
  assumes "tree_remove E key t = (r, t')" "usable \<sigma> t" "models E \<sigma>" "all_opt Q (t_root t)"
  shows "all_opt Q (t_root t')"
proof -
  have np: "\<not> t_poisoned t" using assms(2) by (simp add: usable_def)
  obtain r1 t1 where l: "load_key_path E key Remove t = (r1, t1)" by fastforce
  have q: "all_opt Q (t_root t1)" by (rule load_key_path_kept [OF l assms(4)])
  note sp = load_key_path_spec [OF l assms(2,3)]
  show ?thesis
  proof (cases "\<exists>v n. r1 = Inr (Some v) \<and> t_root t1 = Some n")
    case True
    then obtain v n where vn: "r1 = Inr (Some v)" "t_root t1 = Some n" by blast
    have sn: "ksorted (inorder \<sigma> n)" "map_of (inorder \<sigma> n) key = Some v" "ready Remove key (Some n)"
      using sp vn unfolding usable_def contents_def by (metis oinorder.simps(2), metis oinorder.simps(2), metis)
    obtain n' rel where u: "remove_from_root n key (t_released t1) = Inr ((n', Some v), rel)"
      using remove_step [OF sn(3,1), of "t_released t1"] sn(2) by metis
    have "t_root t' = n'" using assms(1) np l vn u by (auto simp: tree_remove_def)
    then show ?thesis using remove_from_root_account(2) [OF u clean_kept] q vn(2) by (simp add: all_nodes_sel)
  next
    case False
    then have "t' = t1" using assms(1) np l by (auto simp: tree_remove_def split: sum.splits option.splits)
    with q show ?thesis by simp
  qed
qed

end

section \<open>The CID a flush gives a node\<close>

fun wcid :: "compress_fn \<Rightarrow> node \<Rightarrow> cid"
  and lwcid :: "compress_fn \<Rightarrow> node option \<Rightarrow> cid option"
  and ewcid :: "compress_fn \<Rightarrow> entry \<Rightarrow> str \<times> cid \<times> cid option"
where
  "wcid C (Node l es c h ld) =
     (case c of
        Some c \<Rightarrow> c
      | None \<Rightarrow>
          cid_compute C Drisl
            (case encode_node_data \<lparr>nd_left = lwcid C l, nd_entries = link_entries [] (map (ewcid C) es)\<rparr> of
               Inr data \<Rightarrow> data | Inl _ \<Rightarrow> []))"
| "lwcid C None = None"
| "lwcid C (Some n) = Some (wcid C n)"
| "ewcid C (Entry k v r) = (k, v, lwcid C r)"

text \<open>The keys, values and links of a node, and those a block describes.\<close>

type_synonym links = "cid option \<times> (str \<times> cid \<times> cid option) list"

definition links :: "compress_fn \<Rightarrow> node \<Rightarrow> links" where
  "links C n = (lwcid C (nleft n), map (ewcid C) (nentries n))"

definition block_links :: "str list \<Rightarrow> node_data \<Rightarrow> links" where
  "block_links keys nd = (nd_left nd, map (\<lambda>(k, ed). (k, ed_value ed, ed_right ed)) (zip keys (nd_entries nd)))"

definition links_data :: "links \<Rightarrow> node_data" where
  "links_data ls = \<lparr>nd_left = fst ls, nd_entries = link_entries [] (snd ls)\<rparr>"

definition block_of :: "links \<Rightarrow> bytes" where
  "block_of ls = (case encode_node_data (links_data ls) of Inr data \<Rightarrow> data | Inl _ \<Rightarrow> [])"

lemma wcid_links: "wcid C n = (case ncid n of Some c \<Rightarrow> c | None \<Rightarrow> cid_compute C Drisl (block_of (links C n)))"
  by (cases n) (simp add: links_def block_of_def links_data_def split: option.split)

lemma ewcid_sel: "ewcid C e = (ekey e, evalue e, lwcid C (eright e))"
  by (cases e) simp

lemma write_wcid:
  shows "write_node C n out = Inr (c, n', out') \<Longrightarrow> c = wcid C n \<and> ncid n' = Some c"
    and "write_opt C m out = Inr (m', out') \<Longrightarrow> link_cid m' = lwcid C m"
    and "write_rights C es out = Inr (es', out') \<Longrightarrow>
      map (\<lambda>e. (ekey e, evalue e, link_cid (eright e))) es' = map (ewcid C) es"
proof (induction C n out and C m out and C es out arbitrary: c n' out' and m' out' and es' out'
    rule: write_node_write_opt_write_rights.induct)
  case (1 C l es d h ld out)
  show ?case
  proof (cases d)
    case (Some d')
    then show ?thesis using "1.prems" by auto
  next
    case None
    then obtain l' out1 es' out2 data where w: "ld" "write_opt C l out = Inr (l', out1)" "write_rights C es out1 = Inr (es', out2)"
      "encode_node (Node l' es' None h ld) [] = Inr data" "c = cid_compute C Drisl data" "n' = Node l' es' (Some c) h ld"
      using "1.prems" by (auto simp: Let_def)
    then have rl: "require_loaded (Node l es d h ld) = Inr ()" by simp
    have "link_cid l' = lwcid C l" using "1.IH"(1) [OF None rl w(2)] .
    moreover have "map (\<lambda>e. (ekey e, evalue e, link_cid (eright e))) es' = map (ewcid C) es"
      using "1.IH"(2) [OF None rl w(2) refl w(3)] .
    ultimately have "encode_node_data \<lparr>nd_left = lwcid C l, nd_entries = link_entries [] (map (ewcid C) es)\<rparr> = Inr data"
      using encode_node_links [OF w(4)] by (simp add: data_of_def compress_entries_links)
    then show ?thesis using w(5,6) None by simp
  qed
next
  case (3 C n out)
  then show ?case by (auto simp: link_cid_def)
next
  case (5 C k v r es out)
  from "5.prems" obtain r' out1 es1 where w: "write_opt C r out = Inr (r', out1)" "write_rights C es out1 = Inr (es1, out')"
    "es' = Entry k v r' # es1" by auto
  with "5.IH"(1) [OF w(1)] "5.IH"(2) [OF w(1) refl w(2)] show ?case by auto
qed (auto simp: link_cid_def)

text \<open>The node of an empty tree, and the root a flush reports.\<close>

definition empty_node :: node where
  "empty_node = Node None [] None 0 True"

definition root_node :: "node option \<Rightarrow> node" where
  "root_node m = (case m of None \<Rightarrow> empty_node | Some n \<Rightarrow> n)"

lemma flush_wcid:
  assumes "tree_flush E t = (Inr w, t')"
  shows "w_root w = wcid (compress256 E) (root_node (t_root t))"
proof -
  have settle_root: "settle ws root u = Inr (w, u') \<Longrightarrow> w_root w = root" for ws root u u'
    by (auto simp: settle_def Let_def split: prod.splits)
  show ?thesis
  proof (cases "t_root t")
    case None
    then show ?thesis
      using assms settle_root
      by (fastforce simp: tree_flush_def guarded_def poison_def Let_def root_node_def empty_node_def empty_node_block_def
          split: sum.splits prod.splits)
  next
    case (Some n)
    then obtain c n' ws where w: "write_node (compress256 E) n [] = Inr (c, n', ws)"
      "settle ws c (t\<lparr>t_root := Some n'\<rparr>) = Inr (w, t')"
      using assms by (auto simp: tree_flush_def guarded_def poison_def Let_def split: sum.splits)
    then show ?thesis using write_wcid(1) [OF w(1)] settle_root [OF w(2)] Some by (simp add: root_node_def)
  qed
qed

section \<open>Authentic nodes\<close>

text \<open>
  A node that carries a CID was read from a block with that CID, and its links are those of the
  block.
\<close>

definition authentic :: "env \<Rightarrow> node \<Rightarrow> bool" where
  "authentic E n \<longleftrightarrow> (\<forall>c. ncid n = Some c \<longrightarrow> cid_valid c \<and>
     (nloaded n \<longrightarrow> (\<exists>data nd keys. cid_compute (compress256 E) (cid_codec c) data = c \<and>
        decode_node_data (simd_utf8 E) data = Inr nd \<and> for_each_key None (nd_entries nd) = Inr keys \<and>
        links (compress256 E) n = block_links keys nd)))"

definition blocks_verified :: "env \<Rightarrow> bool" where
  "blocks_verified E \<longleftrightarrow> (\<forall>c data. read_block E c = Inr (Some data) \<longrightarrow>
     in_memory data \<and> cid_compute (compress256 E) (cid_codec c) data = c)"

lemma clean_authentic: "clean (authentic E)"
  by (simp add: clean_def authentic_def)

lemma authentic_stub [simp]: "authentic E (stub c h) \<longleftrightarrow> cid_valid c"
  by (simp add: authentic_def stub_def)

lemma lwcid_stub [simp]: "lwcid C (map_option (\<lambda>c. stub c h) m) = m"
  by (cases m) (simp_all add: stub_def)

text \<open>Decoded blocks link well-formed CIDs.\<close>

lemma decode_entry_fields_valid:
  "decode_entry_fields m fs = Inr fs' \<Longrightarrow> \<forall>e \<in> set m. drisl u k (snd e) \<Longrightarrow>
   cid_opt_valid (f_right fs) \<Longrightarrow> cid_opt_valid (f_right fs')"
  by (induction m fs rule: decode_entry_fields.induct)
    (auto simp: cid_opt_valid_def simp del: lit_Cons split: if_splits cbor_value.splits)

lemma decode_entry_list_valid:
  "decode_entry_list arr = Inr es \<Longrightarrow> \<forall>v \<in> set arr. drisl u k v \<Longrightarrow> \<forall>e \<in> set es. cid_opt_valid (ed_right e)"
proof (induction arr arbitrary: es)
  case (Cons item arr)
  then obtain e es' where e: "decode_entry_data item = Inr e" "decode_entry_list arr = Inr es'" "es = e # es'" by auto
  obtain m fs where m: "item = Map m" "decode_entry_fields m \<lparr>f_prefix_len = None, f_key_suffix = None, f_value = None, f_right = None\<rparr> = Inr fs"
    "ed_right e = f_right fs"
    using e(1) by (auto simp: decode_entry_data_def split: cbor_value.splits)
  have "cid_opt_valid (f_right fs)"
    using m(1) Cons.prems(2) by (intro decode_entry_fields_valid [OF m(2), of u "Suc k"]) (simp_all add: cid_opt_valid_def)
  with Cons.IH [OF e(2)] Cons.prems(2) e(3) m(3) show ?case by simp
qed simp

lemma decode_node_fields_valid:
  "decode_node_fields m nd = Inr nd' \<Longrightarrow> \<forall>e \<in> set m. drisl u k (snd e) \<Longrightarrow>
   cid_opt_valid (nd_left nd) \<Longrightarrow> \<forall>e \<in> set (nd_entries nd). cid_opt_valid (ed_right e) \<Longrightarrow>
   cid_opt_valid (nd_left nd') \<and> (\<forall>e \<in> set (nd_entries nd'). cid_opt_valid (ed_right e))"
proof (induction m nd rule: decode_node_fields.induct)
  case (2 key v m nd)
  show ?case
  proof (cases "key = lit ''e''")
    case True
    then obtain arr es where a: "v = Array arr" "length arr \<le> MAX_ENTRIES_PER_NODE" "decode_entry_list arr = Inr es"
      "decode_node_fields m (nd\<lparr>nd_entries := es\<rparr>) = Inr nd'"
      using "2.prems"(1) by (auto simp del: lit_Cons split: cbor_value.splits if_splits)
    have "\<forall>e \<in> set es. cid_opt_valid (ed_right e)"
      using a(1) "2.prems"(2) by (intro decode_entry_list_valid [OF a(3), of u "Suc k"]) simp
    then show ?thesis using "2.IH"(1) [OF True a(1) _ a(3)] a(2,4) "2.prems" by simp
  next
    case False
    then show ?thesis
      using "2.prems" "2.IH"(2,3) [OF False] by (auto simp: cid_opt_valid_def simp del: lit_Cons split: cbor_value.splits if_splits)
  qed
qed simp

lemma decode_node_data_valid:
  assumes "decode_node_data u data = Inr nd" "in_memory data"
  shows "cid_opt_valid (nd_left nd)" "e \<in> set (nd_entries nd) \<Longrightarrow> cid_opt_valid (ed_right e)"
proof -
  obtain m where m: "decode u data = Inr (Map m)" "decode_node_fields m \<lparr>nd_left = None, nd_entries = []\<rparr> = Inr nd"
    using assms(1) by (auto simp: decode_node_data_def split: cbor_value.splits)
  have "drisl u 0 (Map m)" using m(1) decode_iff [OF assms(2)] by blast
  then have "\<forall>e \<in> set m. drisl u 1 (snd e)" by simp
  from decode_node_fields_valid [OF m(2) this]
  show "cid_opt_valid (nd_left nd)" "e \<in> set (nd_entries nd) \<Longrightarrow> cid_opt_valid (ed_right e)"
    by (simp_all add: cid_opt_valid_def)
qed

section \<open>Loading keeps nodes authentic\<close>

lemma all_opt_stub: "cid_opt_valid m \<Longrightarrow> all_opt (authentic E) (map_option (\<lambda>c. stub c h) m)"
proof (cases m)
  case (Some c)
  assume "cid_opt_valid m"
  then have "authentic E (stub c h)" using Some by (simp add: cid_opt_valid_def)
  then show ?thesis using Some by (simp add: stub_def)
qed simp

lemma load_node_authentic:
  assumes "load_node E at n refs = (r, n', refs')" "blocks_verified E" "all_nodes (authentic E) n"
  shows "all_nodes (authentic E) n' \<and> wcid (compress256 E) n' = wcid (compress256 E) n"
proof (cases "r = Inr None \<and> \<not> nloaded n")
  case True
  then obtain c data nd keys where c: "ncid n = Some c" "read_block E c = Inr (Some data)"
    "decode_node_data (simd_utf8 E) data = Inr nd" "for_each_key None (nd_entries nd) = Inr keys"
    "populate_node E n nd at = Inr n'"
    using load_node_stub [of E at n refs n' refs'] assms(1) by metis
  obtain h where n': "n' = Node (map_option (\<lambda>c. stub c (h - 1)) (nd_left nd))
      (map (\<lambda>(key, ed). Entry key (ed_value ed) (map_option (\<lambda>c. stub c (h - 1)) (ed_right ed))) (zip keys (nd_entries nd))) (Some c) h True"
    using c(1,4,5) by (auto simp: populate_node_def Let_def split: if_splits)
  have v: "in_memory data" "cid_compute (compress256 E) (cid_codec c) data = c" "cid_valid c"
    using assms(2,3) c(1,2) by (auto simp: blocks_verified_def all_nodes_sel authentic_def)
  have "links (compress256 E) n' = block_links keys nd" by (simp add: n' links_def block_links_def case_prod_beta comp_def)
  then have "authentic E n'" using v c(3,4) by (auto simp: authentic_def n')
  moreover have "parts (authentic E) n'"
    using decode_node_data_valid [OF c(3) v(1)]
    by (auto simp: parts_def n' all_opt_stub dest!: set_zip_rightD)
  ultimately show ?thesis using c(1) by (simp add: all_nodes_sel wcid_links n')
next
  case False
  then show ?thesis using assms load_node_fail [OF assms(1)] load_node_ok [of E at n refs n' refs'] by auto
qed

lemma links_set_child:
  assumes "i \<le> length (nentries n)" "lwcid C m = lwcid C (child n i)"
  shows "links C (set_child n i m) = links C n"
proof (cases i)
  case 0
  then show ?thesis using assms by (simp add: links_def)
next
  case (Suc j)
  then have "map (ewcid C) ((nentries n)[j := set_right (nentries n ! j) m]) = (map (ewcid C) (nentries n))[j := map (ewcid C) (nentries n) ! j]"
    using assms by (simp add: map_update ewcid_sel)
  also have "\<dots> = map (ewcid C) (nentries n)" by (rule list_update_id)
  finally show ?thesis using Suc assms(1) by (simp add: links_def)
qed

lemma loads_authentic:
  "loads E n refs n' refs' \<Longrightarrow> blocks_verified E \<Longrightarrow> all_nodes (authentic E) n \<Longrightarrow>
   all_nodes (authentic E) n' \<and> wcid (compress256 E) n' = wcid (compress256 E) n"
proof (induction rule: loads.induct)
  case (loads_load at n refs r n' refs')
  then show ?case by (intro load_node_authentic)
next
  case (loads_child n i c refs c' refs')
  have c: "all_nodes (authentic E) c' \<and> wcid (compress256 E) c' = wcid (compress256 E) c"
    using loads_child parts_child [of "authentic E" n i] by (simp add: all_nodes_sel [of _ n])
  then have l: "links (compress256 E) (set_child n i (Some c')) = links (compress256 E) n"
    using loads_child.hyps by (intro links_set_child) simp_all
  then have "authentic E (set_child n i (Some c'))" using loads_child.prems(2) by (simp add: all_nodes_sel authentic_def)
  moreover have "parts (authentic E) (set_child n i (Some c'))"
    using loads_child c by (intro parts_set_child) (simp_all add: all_nodes_sel [of _ n])
  moreover have "wcid (compress256 E) (set_child n i (Some c')) = wcid (compress256 E) n"
    using l by (cases "ncid n") (simp_all add: wcid_links)
  ultimately show ?case by (simp add: all_nodes_sel)
qed simp_all

lemma authentic_no_blocks [simp]: "authentic (no_blocks E) = authentic E"
  by (simp add: authentic_def fun_eq_iff no_blocks_def)

lemma all_nodes_imp:
  shows "all_nodes (\<lambda>n. P \<longrightarrow> Q n) n \<longleftrightarrow> (P \<longrightarrow> all_nodes Q n)" and "all_opt (\<lambda>n. P \<longrightarrow> Q n) m \<longleftrightarrow> (P \<longrightarrow> all_opt Q m)"
    and "all_entry (\<lambda>n. P \<longrightarrow> Q n) e \<longleftrightarrow> (P \<longrightarrow> all_entry Q e)"
  by (induction Q n and Q m and Q e rule: all_nodes_all_opt_all_entry.induct) auto

interpretation authentic: kept_by_loads "\<lambda>n. blocks_verified E \<longrightarrow> authentic E n" E for E
proof
  show "clean (\<lambda>n. blocks_verified E \<longrightarrow> authentic E n)" using clean_authentic by (auto simp: clean_def)
next
  fix n refs n' refs'
  show "loads E n refs n' refs' \<Longrightarrow> all_nodes (\<lambda>n. blocks_verified E \<longrightarrow> authentic E n) n \<Longrightarrow>
      all_nodes (\<lambda>n. blocks_verified E \<longrightarrow> authentic E n) n'"
    using loads_authentic by (simp add: all_nodes_imp)
  have "blocks_verified (no_blocks E)" by (simp add: blocks_verified_def no_blocks_def)
  then show "loads (no_blocks E) n refs n' refs' \<Longrightarrow> all_nodes (\<lambda>n. blocks_verified E \<longrightarrow> authentic E n) n \<Longrightarrow>
      all_nodes (\<lambda>n. blocks_verified E \<longrightarrow> authentic E n) n'"
    using loads_authentic [of "no_blocks E"] by (simp add: all_nodes_imp)
qed

section \<open>A node block determines the node\<close>

definition links_ok :: "links \<Rightarrow> bool" where
  "links_ok ls \<longleftrightarrow> length (snd ls) < 2 ^ 64 \<and> cid_opt_valid (fst ls) \<and>
     (\<forall>(k, v, r) \<in> set (snd ls). length k \<le> MAX_KEY_LEN \<and> cid_valid v \<and> cid_opt_valid r)"

lemma length_link_entries [simp]: "length (link_entries prev es) = length es"
  by (induction prev es rule: link_entries.induct) simp_all

lemma link_entries_ok:
  "\<forall>(k, v, r) \<in> set es. length k \<le> MAX_KEY_LEN \<and> cid_valid v \<and> cid_opt_valid r \<Longrightarrow> e \<in> set (link_entries prev es) \<Longrightarrow> entry_ok e"
proof (induction prev es rule: link_entries.induct)
  case (2 prev k v r es)
  have "common_prefix prev k \<le> MAX_KEY_LEN" using common_prefix_le(2) [of prev k] "2.prems"(1) by simp
  with 2 show ?case by (auto simp: entry_ok_def)
qed simp

lemma link_entries_inject: "link_entries prev xs = link_entries prev ys \<Longrightarrow> xs = ys"
proof (induction prev xs arbitrary: ys rule: link_entries.induct)
  case (2 prev k v r es)
  then obtain k' v' r' es' where ys: "ys = (k', v', r') # es'" by (cases ys) auto
  have key: "take (common_prefix prev x) prev @ drop (common_prefix prev x) x = x" for x :: str
    using common_prefix_take [of prev x] by simp
  have "common_prefix prev k = common_prefix prev k'" "drop (common_prefix prev k) k = drop (common_prefix prev k') k'"
    using "2.prems" ys by auto
  then have "k = k'" by (metis key)
  then show ?case using 2 ys by auto
qed (metis length_0_conv length_link_entries link_entries.simps(1))

lemma head_append_inject:
  assumes "head m x @ a = head m y @ b" "m < 8" "x < 2 ^ 64" "y < 2 ^ 64"
  shows "x = y \<and> a = b"
proof -
  have "x = y" using head_less [OF assms(2), of x y a b] head_less [OF assms(2), of y x b a] assms by (metis less_irrefl linorder_neqE_nat)
  then show ?thesis using assms(1) by simp
qed

lemma entry_value_inject: "entry_ok a \<Longrightarrow> entry_ok b \<Longrightarrow> entry_value a = entry_value b \<Longrightarrow> a = b"
  using decode_entry_data_value by (metis Inr_inject)

lemma cid_or_null_inject: "cid_or_null a = cid_or_null b \<Longrightarrow> a = b"
  by (simp add: cid_or_null_def split: option.splits)

lemma enc_node_value:
  "enc (node_value nd) = head 5 2 @ enc_text (lit ''e'') @ head 4 (length (nd_entries nd)) @
     concat (map enc (map entry_value (nd_entries nd) @ [Text (lit ''l''), cid_or_null (nd_left nd)]))"
  by (simp add: node_value_def map_head_lengths)

lemma node_block_inject:
  assumes "enc (node_value a) = enc (node_value b)" "in_memory (enc (node_value a))"
    and "length (nd_entries a) < 2 ^ 64" "length (nd_entries b) < 2 ^ 64"
    and "\<forall>e \<in> set (nd_entries a). entry_ok e" "\<forall>e \<in> set (nd_entries b). entry_ok e"
    and "cid_opt_valid (nd_left a)" "cid_opt_valid (nd_left b)"
  shows "a = b"
proof -
  let ?items = "\<lambda>nd. map entry_value (nd_entries nd) @ [Text (lit ''l''), cid_or_null (nd_left nd)]"
  have "head 4 (length (nd_entries a)) @ concat (map enc (?items a)) = head 4 (length (nd_entries b)) @ concat (map enc (?items b))"
    using assms(1) unfolding enc_node_value by (simp only: same_append_eq)
  then have eq: "length (nd_entries a) = length (nd_entries b)" "concat (map enc (?items a)) = concat (map enc (?items b))"
    using head_append_inject [of 4, OF _ _ assms(3,4)] by simp_all
  have valid: "drisl (\<lambda>_. True) 0 v" if "v \<in> set (?items nd)" "\<forall>e \<in> set (nd_entries nd). entry_ok e" "cid_opt_valid (nd_left nd)" for nd v
    using that drisl_entry_value [of _ "\<lambda>_. True" 0] drisl_cid_or_null [of 0 "nd_left nd"]
    by (auto simp: ascii_keys_def MAX_DEPTH_def)
  have m: "in_memory (concat (map enc (?items a)))" using assms(2) unfolding enc_node_value by simp
  have v: "\<forall>x \<in> set (?items a). drisl (\<lambda>_. True) 0 x" "\<forall>x \<in> set (?items b). drisl (\<lambda>_. True) 0 x"
    using valid assms(5-8) by blast+
  have "length (?items a) = length (?items b)" using eq(1) by simp
  from cbor.enc_list_inject [OF v this m eq(2)] have "?items a = ?items b" .
  then have "map entry_value (nd_entries a) = map entry_value (nd_entries b)" "cid_or_null (nd_left a) = cid_or_null (nd_left b)"
    using eq(1) by auto
  moreover from this(1) have "nd_entries a = nd_entries b"
    using assms(5,6) entry_value_inject by (intro map_inj_on [of entry_value]) (auto intro!: inj_onI)
  ultimately show ?thesis using cid_or_null_inject by (cases a; cases b) auto
qed

lemma links_data_ok:
  assumes "links_ok ls"
  shows "\<forall>e \<in> set (nd_entries (links_data ls)). entry_ok e" "length (nd_entries (links_data ls)) < 2 ^ 64" "cid_opt_valid (nd_left (links_data ls))"
  using assms link_entries_ok [of "snd ls"] by (auto simp: links_data_def links_ok_def)

lemma block_of_enc:
  assumes "links_ok ls"
  shows "block_of ls = enc (node_value (links_data ls))"
proof -
  have "length (key_suffix e) < 2 ^ 64" if "e \<in> set (nd_entries (links_data ls))" for e
    using links_data_ok(1) [OF assms] that by (fastforce simp: entry_ok_def MAX_KEY_LEN_def)
  then show ?thesis using encode_node_data_enc links_data_ok(2) [OF assms] by (simp add: block_of_def)
qed

lemma block_of_inject:
  assumes "block_of a = block_of b" "links_ok a" "links_ok b" "node_ok (links_data b)"
  shows "a = b"
proof -
  have "in_memory (enc (node_value (links_data a)))"
    using node_ok_in_memory [OF assms(4)] assms(1) block_of_enc [OF assms(2)] block_of_enc [OF assms(3)] by simp
  then have "links_data a = links_data b"
    using assms(1) block_of_enc [OF assms(2)] block_of_enc [OF assms(3)] links_data_ok [OF assms(2)] links_data_ok [OF assms(3)]
    by (intro node_block_inject) simp_all
  then show ?thesis using link_entries_inject by (cases a; cases b) (auto simp: links_data_def)
qed

lemma for_each_key_links:
  assumes "\<forall>l \<in> set ls. is_valid_key (fst l)" "sorted_wrt (<) (map fst ls)"
  shows "for_each_key None (link_entries [] ls) = Inr (map fst ls)"
proof -
  let ?es = "map (\<lambda>(k, v, r). Entry k v (map_option (\<lambda>c. stub c 0) r)) ls"
  have "link_cid (map_option (\<lambda>c. stub c 0) r) = r" for r by (cases r) (simp_all add: link_cid_def stub_def)
  then have "map (\<lambda>e. (ekey e, evalue e, link_cid (eright e))) ?es = ls" "map ekey ?es = map fst ls"
    by (induction ls) auto
  moreover have "\<forall>e \<in> set ?es. is_valid_key (ekey e)" using assms(1) by fastforce
  ultimately show ?thesis
    using for_each_key_compress [of ?es None "[]"] assms(2) by (simp only: compress_entries_links) simp
qed

lemma block_links_data: "block_links (map fst (snd ls)) (links_data ls) = ls"
proof -
  have "map (\<lambda>(k, ed). (k, ed_value ed, ed_right ed)) (zip (map fst es) (link_entries prev es)) = es" for prev es
    by (induction prev es rule: link_entries.induct) auto
  then show ?thesis by (cases ls) (simp add: block_links_def links_data_def)
qed

section \<open>The root commits to the contents\<close>

definition mlinks :: "compress_fn \<Rightarrow> node \<Rightarrow> links" where
  "mlinks C q = (lmerkle C (nleft q), map (emerkle C) (nentries q))"

lemma merkle_block: "nloaded q \<Longrightarrow> merkle C q = cid_compute C Drisl (block_of (mlinks C q))"
  by (simp add: merkle_loaded mlinks_def block_of_def links_data_def)

text \<open>The documented behaviour of the platform: SHA-256 digests have 32 bytes, ASCII is UTF-8.\<close>

definition platform_ok :: "env \<Rightarrow> bool" where
  "platform_ok E \<longleftrightarrow> ascii_keys (simd_utf8 E) \<and> (\<forall>data. length (sha256 (compress256 E) data) = 32)"

text \<open>
  A node of a tree known in full: valid keys in order, no other byte string with its CID, and
  \<open>\<sigma>\<close> knows its contents.
\<close>

definition trusted :: "env \<Rightarrow> contents \<Rightarrow> node \<Rightarrow> bool" where
  "trusted E \<sigma> q \<longleftrightarrow> nloaded q \<and> (\<forall>e \<in> set (nentries q). is_valid_key (ekey e) \<and> cid_valid (evalue e)) \<and>
     sorted_wrt (<) (map ekey (nentries q)) \<and> length (nentries q) \<le> MAX_ENTRIES_PER_NODE \<and>
     (\<forall>data. cid_compute (compress256 E) Drisl data = merkle (compress256 E) q \<longrightarrow> data = block_of (mlinks (compress256 E) q)) \<and>
     \<sigma> (merkle (compress256 E) q) = inorder \<sigma> q"

lemma merkle_valid: "platform_ok E \<Longrightarrow> nloaded q \<Longrightarrow> cid_valid (merkle (compress256 E) q)"
  by (simp add: merkle_block cid_compute_def cid_valid_def platform_ok_def)

lemma valid_key_length: "is_valid_key k \<Longrightarrow> length k \<le> MAX_KEY_LEN"
  by (auto simp: is_valid_key_def split: option.splits)

lemma trusted_links_ok:
  assumes "all_nodes (trusted E \<sigma>) q" "platform_ok E"
  shows "links_ok (mlinks (compress256 E) q)" "node_ok (links_data (mlinks (compress256 E) q))"
    and "for_each_key None (nd_entries (links_data (mlinks (compress256 E) q))) = Inr (map fst (snd (mlinks (compress256 E) q)))"
proof -
  have t: "trusted E \<sigma> q" "parts (trusted E \<sigma>) q" using assms(1) by (simp_all add: all_nodes_sel)
  have m: "cid_opt_valid (lmerkle (compress256 E) m)" if "all_opt (trusted E \<sigma>) m" for m
    using that merkle_valid [OF assms(2)] by (cases m) (auto simp: cid_opt_valid_def all_nodes_sel trusted_def)
  have es: "(\<forall>(k, v, r) \<in> set (map (emerkle (compress256 E)) (nentries q)). length k \<le> MAX_KEY_LEN \<and> cid_valid v \<and> cid_opt_valid r)"
    using t m valid_key_length by (auto simp: emerkle_sel trusted_def parts_def all_entry_sel)
  then show l: "links_ok (mlinks (compress256 E) q)"
    using t m by (auto simp: links_ok_def mlinks_def trusted_def parts_def MAX_ENTRIES_PER_NODE_def)
  show "node_ok (links_data (mlinks (compress256 E) q))"
    using links_data_ok [OF l] t(1) by (simp add: node_ok_def links_data_def mlinks_def trusted_def)
  have "map fst (map (emerkle (compress256 E)) (nentries q)) = map ekey (nentries q)" by (simp add: emerkle_sel)
  then show "for_each_key None (nd_entries (links_data (mlinks (compress256 E) q))) = Inr (map fst (snd (mlinks (compress256 E) q)))"
    using t(1) for_each_key_links [of "map (emerkle (compress256 E)) (nentries q)"]
    by (auto simp: links_data_def mlinks_def trusted_def emerkle_sel comp_def)
qed

lemma contents_parts:
  assumes "nloaded n"
  shows "set (oinorder \<sigma> (nleft n)) \<subseteq> set (inorder \<sigma> n)" "length (oinorder \<sigma> (nleft n)) \<le> length (inorder \<sigma> n)"
    and "e \<in> set (nentries n) \<Longrightarrow> set (einorder \<sigma> e) \<subseteq> set (inorder \<sigma> n) \<and> length (einorder \<sigma> e) \<le> length (inorder \<sigma> n)"
    and "length (nentries n) \<le> length (inorder \<sigma> n)"
proof -
  have n: "inorder \<sigma> n = oinorder \<sigma> (nleft n) @ centries \<sigma> (nentries n)" by (rule inorder_loaded [OF assms])
  show "set (oinorder \<sigma> (nleft n)) \<subseteq> set (inorder \<sigma> n)" "length (oinorder \<sigma> (nleft n)) \<le> length (inorder \<sigma> n)" by (simp_all add: n)
  have "length (einorder \<sigma> e) \<le> length (centries \<sigma> es)" if "e \<in> set es" for es e
    using that by (induction es) auto
  then show "e \<in> set (nentries n) \<Longrightarrow> set (einorder \<sigma> e) \<subseteq> set (inorder \<sigma> n) \<and> length (einorder \<sigma> e) \<le> length (inorder \<sigma> n)"
    by (fastforce simp: n)
  have "length es \<le> length (centries \<sigma> es)" for es by (induction es) (simp_all add: einorder_sel)
  then show "length (nentries n) \<le> length (inorder \<sigma> n)" by (simp add: n trans_le_add2)
qed

text \<open>Contents within the limits of the program.\<close>

definition records_ok :: "(str \<times> cid) list \<Rightarrow> bool" where
  "records_ok ps \<longleftrightarrow> length ps < 2 ^ 64 \<and> (\<forall>(k, v) \<in> set ps. length k \<le> MAX_KEY_LEN \<and> cid_valid v)"

lemma records_ok_sub: "records_ok ps \<Longrightarrow> set qs \<subseteq> set ps \<Longrightarrow> length qs \<le> length ps \<Longrightarrow> records_ok qs"
  by (auto simp: records_ok_def)

lemma wcid_valid: "platform_ok E \<Longrightarrow> authentic E n \<Longrightarrow> cid_valid (wcid (compress256 E) n)"
  by (auto simp: wcid_links authentic_def platform_ok_def cid_compute_def cid_valid_def split: option.splits)

lemma authentic_links_ok:
  assumes "all_nodes (authentic E) n" "nloaded n" "records_ok (inorder \<sigma> n)" "platform_ok E"
  shows "links_ok (links (compress256 E) n)"
proof -
  have m: "cid_opt_valid (lwcid (compress256 E) m)" if "all_opt (authentic E) m" for m
    using that wcid_valid [OF assms(4)] by (cases m) (auto simp: cid_opt_valid_def all_nodes_sel)
  have p: "parts (authentic E) n" using assms(1) by (simp add: all_nodes_sel)
  have "length (ekey e) \<le> MAX_KEY_LEN \<and> cid_valid (evalue e)" if "e \<in> set (nentries n)" for e
    using contents_parts(3) [OF assms(2) that, of \<sigma>] assms(3) by (force simp: records_ok_def einorder_sel)
  then have "\<forall>(k, v, r) \<in> set (map (ewcid (compress256 E)) (nentries n)). length k \<le> MAX_KEY_LEN \<and> cid_valid v \<and> cid_opt_valid r"
    using p m by (auto simp: ewcid_sel parts_def all_entry_sel)
  moreover have "length (nentries n) < 2 ^ 64"
    using contents_parts(4) [OF assms(2), of \<sigma>] assms(3) by (simp add: records_ok_def)
  ultimately show ?thesis using p m by (auto simp: links_ok_def links_def parts_def)
qed

lemma authentic_links:
  assumes "all_nodes (trusted E \<sigma>) p" "all_nodes (authentic E) n" "nloaded n" "ncid n = None \<Longrightarrow> records_ok (inorder \<sigma> n)" "platform_ok E"
    and "wcid (compress256 E) n = merkle (compress256 E) p"
  shows "links (compress256 E) n = mlinks (compress256 E) p"
proof -
  let ?C = "compress256 E"
  have p: "nloaded p" "\<And>data. cid_compute ?C Drisl data = merkle ?C p \<Longrightarrow> data = block_of (mlinks ?C p)"
    using assms(1) by (simp_all add: all_nodes_sel trusted_def)
  note ok = trusted_links_ok [OF assms(1,5)]
  show ?thesis
  proof (cases "ncid n")
    case None
    then have "block_of (links ?C n) = block_of (mlinks ?C p)" using assms(6) p(2) by (simp add: wcid_links)
    then show ?thesis by (rule block_of_inject [OF _ authentic_links_ok [OF assms(2,3) assms(4) [OF None] assms(5)] ok(1,2)])
  next
    case (Some c)
    then obtain data nd keys where d: "cid_compute ?C (cid_codec c) data = c" "decode_node_data (simd_utf8 E) data = Inr nd"
      "for_each_key None (nd_entries nd) = Inr keys" "links ?C n = block_links keys nd"
      using assms(2,3) by (auto simp: all_nodes_sel authentic_def)
    have c: "c = merkle ?C p" using Some assms(6) by (simp add: wcid_links)
    then have "cid_codec c = Drisl" using merkle_block [OF p(1)] by (simp add: cid_compute_def)
    then have "data = block_of (mlinks ?C p)" using d(1) p(2) c by simp
    then have "nd = links_data (mlinks ?C p)"
      using d(2) decode_node_value [OF ok(2)] block_of_enc [OF ok(1)] assms(5) by (simp add: platform_ok_def)
    then show ?thesis using d(3,4) ok(3) block_links_data [of "mlinks ?C p"] by (metis Inr_inject)
  qed
qed

text \<open>A tree that was only read, or whose records are within the limits.\<close>

definition readable :: "contents \<Rightarrow> node \<Rightarrow> bool" where
  "readable \<sigma> n \<longleftrightarrow> all_nodes (\<lambda>m. ncid m \<noteq> None) n \<or> records_ok (inorder \<sigma> n)"

definition oreadable :: "contents \<Rightarrow> node option \<Rightarrow> bool" where
  "oreadable \<sigma> m \<longleftrightarrow> all_opt (\<lambda>m. ncid m \<noteq> None) m \<or> records_ok (oinorder \<sigma> m)"

lemma readable_None: "readable \<sigma> n \<Longrightarrow> ncid n = None \<Longrightarrow> records_ok (inorder \<sigma> n)"
  by (auto simp: readable_def all_nodes_sel)

lemma readable_parts:
  assumes "readable \<sigma> n" "nloaded n"
  shows "oreadable \<sigma> (nleft n)" and "e \<in> set (nentries n) \<Longrightarrow> oreadable \<sigma> (eright e)"
proof -
  show "oreadable \<sigma> (nleft n)"
    using assms contents_parts(1,2) [OF assms(2), of \<sigma>] records_ok_sub [of "inorder \<sigma> n" "oinorder \<sigma> (nleft n)"]
    by (auto simp: readable_def oreadable_def all_nodes_sel parts_def)
  assume e: "e \<in> set (nentries n)"
  have "records_ok (oinorder \<sigma> (eright e))" if "records_ok (inorder \<sigma> n)"
    using contents_parts(3) [OF assms(2) e, of \<sigma>] by (intro records_ok_sub [OF that]) (simp_all add: einorder_sel)
  then show "oreadable \<sigma> (eright e)"
    using assms(1) e by (auto simp: readable_def oreadable_def all_nodes_sel parts_def all_entry_sel)
qed

lemma authentic_same_contents:
  assumes "all_nodes (trusted E \<sigma>) p" "all_nodes (authentic E) n" "all_nodes grounded n" "readable \<sigma> n" "platform_ok E"
    and "wcid (compress256 E) n = merkle (compress256 E) p"
  shows "inorder \<sigma> n = inorder \<sigma> p"
  using assms(1-4,6)
proof (induction "nsize p" arbitrary: p n rule: less_induct)
  case less
  let ?C = "compress256 E"
  have p: "nloaded p" "\<sigma> (merkle ?C p) = inorder \<sigma> p" "parts (trusted E \<sigma>) p"
    using less.prems(1) by (simp_all add: all_nodes_sel trusted_def)
  show ?case
  proof (cases "nloaded n")
    case False
    then obtain c h where "n = stub c h" using less.prems(3) by (auto simp: all_nodes_sel grounded_def)
    then show ?thesis using less.prems(5) p(2) by (simp add: stub_def)
  next
    case True
    have ls: "links ?C n = mlinks ?C p" using authentic_links [OF less.prems(1,2) True readable_None [OF less.prems(4)] assms(5) less.prems(5)] .
    have pn: "parts (authentic E) n" "parts grounded n" using less.prems(2,3) by (simp_all add: all_nodes_sel)
    have sub: "oinorder \<sigma> m = oinorder \<sigma> q"
      if "lwcid ?C m = lmerkle ?C q" "all_opt (trusted E \<sigma>) q" "all_opt (authentic E) m" "all_opt grounded m"
        "oreadable \<sigma> m" "osize q < nsize p" for m q
    proof -
      note prems = that
      show ?thesis
      proof (cases m)
        case None
        then show ?thesis using prems(1) by (cases q) simp_all
      next
        case (Some n')
        then obtain q' where q: "q = Some q'" using prems(1) by (cases q) auto
        show ?thesis using prems less.hyps [of q' n'] unfolding Some q by (simp add: readable_def oreadable_def)
      qed
    qed
    have l: "oinorder \<sigma> (nleft n) = oinorder \<sigma> (nleft p)"
    proof (rule sub)
      show "oreadable \<sigma> (nleft n)" by (rule readable_parts(1) [OF less.prems(4) True])
      show "osize (nleft p) < nsize p" by (rule nleft_size)
    qed (use ls p(3) pn in \<open>simp_all add: links_def mlinks_def parts_def\<close>)
    have len: "length (nentries n) = length (nentries p)" using ls by (auto simp: links_def mlinks_def dest: map_eq_imp_length_eq)
    have e: "einorder \<sigma> (nentries n ! j) = einorder \<sigma> (nentries p ! j)" if j: "j < length (nentries p)" for j
    proof -
      let ?e = "nentries n ! j" and ?f = "nentries p ! j"
      have ef: "?e \<in> set (nentries n)" "?f \<in> set (nentries p)" using j len by simp_all
      have "map (ewcid ?C) (nentries n) ! j = map (emerkle ?C) (nentries p) ! j" using ls by (simp add: links_def mlinks_def)
      then have eq: "ekey ?e = ekey ?f" "evalue ?e = evalue ?f" "lwcid ?C (eright ?e) = lmerkle ?C (eright ?f)"
        using j len by (simp_all add: ewcid_sel emerkle_sel)
      have "oreadable \<sigma> (eright ?e)" by (rule readable_parts(2) [OF less.prems(4) True ef(1)])
      moreover have "osize (eright ?f) < nsize p" using child_size [of "Suc j" p] j by (simp add: child_def)
      ultimately have "oinorder \<sigma> (eright ?e) = oinorder \<sigma> (eright ?f)"
        using ef p(3) pn eq(3) by (intro sub) (auto simp: parts_def all_entry_sel)
      then show ?thesis using eq(1,2) by (simp add: einorder_sel)
    qed
    then have "map (einorder \<sigma>) (nentries n) = map (einorder \<sigma>) (nentries p)" using len by (intro nth_equalityI) simp_all
    then show ?thesis using l by (simp add: inorder_loaded [OF True] inorder_loaded [OF p(1)])
  qed
qed

end
