(* ===== verification/Sync_Inverse.thy ===== *)
theory Sync_Inverse
  imports Sync_Invert Mst_Authentic
begin

text \<open>
  What inverting a commit proves about its operations, for archives from an untrusted sender.
\<close>

section \<open>Undoing operations on an untrusted tree\<close>

lemma authentic_store_env [simp]: "authentic (store_env B E s) = authentic E"
  by (simp add: authentic_def fun_eq_iff)

text \<open>The invariant of the tree while operations are undone; \<open>k\<close> records may still be added.\<close>

definition undo_inv :: "env \<Rightarrow> contents \<Rightarrow> nat \<Rightarrow> car_tree \<Rightarrow> bool" where
  "undo_inv E \<sigma> k t \<longleftrightarrow> st_ok car_ops E \<sigma> t \<and> blocks_verified (store_env car_ops E (st_store t)) \<and> accounted (st_inner t) \<and>
     all_opt (authentic E) (t_root (st_inner t)) \<and> length (st_contents \<sigma> t) + k < 2 ^ 64 \<and>
     (\<forall>(key, v) \<in> set (st_contents \<sigma> t). length key \<le> MAX_KEY_LEN \<and> cid_valid v)"

lemma upd_list_bounds: "length (upd_list k v ps) \<le> Suc (length ps)" "set (upd_list k v ps) \<subseteq> insert (k, v) (set ps)"
  by (induction ps) auto

lemma del_list_bounds: "length (del_list k ps) \<le> length ps" "set (del_list k ps) \<subseteq> set ps"
  by (auto simp: del_list_def)

lemma undo_inv_insert:
  assumes "st_insert car_ops E key c t = (Inr (), t')" "undo_inv E \<sigma> (Suc k) t" "cid_valid c"
  shows "undo_inv E \<sigma> k t'"
proof -
  let ?E = "store_env car_ops E (st_store t)"
  have inv: "st_ok car_ops E \<sigma> t" "blocks_verified ?E" "accounted (st_inner t)" "all_opt (authentic E) (t_root (st_inner t))"
    using assms(2) by (simp_all add: undo_inv_def)
  note sp = st_insert_spec [OF assms(1) inv(1)]
  obtain q i where i: "tree_insert ?E key c (st_inner t) = (q, i)" "t' = t\<lparr>st_inner := i\<rparr>"
    using assms(1) by (auto simp: st_insert_def split: prod.splits)
  have np: "\<not> t_poisoned i" using sp i(2) by (simp add: st_ok_def usable_def)
  have "all_opt (authentic E) (t_root i)"
    using authentic.insert_kept [OF i(1) np] inv(2,4) by (simp add: all_nodes_imp)
  moreover have "accounted i" by (rule accounted_insert [OF i(1) inv(3) np])
  moreover have "\<forall>(key, v) \<in> set (st_contents \<sigma> t'). length key \<le> MAX_KEY_LEN \<and> cid_valid v"
    using sp upd_list_bounds(2) [of key c "st_contents \<sigma> t"] assms(2,3) valid_key_length by (auto simp: undo_inv_def)
  moreover have "length (st_contents \<sigma> t') + k < 2 ^ 64"
    using sp upd_list_bounds(1) [of key c "st_contents \<sigma> t"] assms(2) by (simp add: undo_inv_def)
  ultimately show ?thesis using sp i(2) inv(2) by (simp add: undo_inv_def)
qed

lemma undo_inv_remove:
  assumes "st_remove car_ops E key t = (Inr v, t')" "undo_inv E \<sigma> (Suc k) t"
  shows "undo_inv E \<sigma> k t'"
proof -
  let ?E = "store_env car_ops E (st_store t)"
  have inv: "st_ok car_ops E \<sigma> t" "blocks_verified ?E" "accounted (st_inner t)" "all_opt (authentic E) (t_root (st_inner t))"
    "usable \<sigma> (st_inner t)" "models ?E \<sigma>"
    using assms(2) by (simp_all add: undo_inv_def st_ok_def)
  note sp = st_remove_spec [OF assms(1) inv(1)]
  obtain i where i: "tree_remove ?E key (st_inner t) = (Inr v, i)" "t' = t\<lparr>st_inner := i\<rparr>"
    using assms(1) by (auto simp: st_remove_def split: prod.splits)
  have "all_opt (authentic E) (t_root i)"
    using authentic.remove_kept [OF i(1) inv(5,6)] inv(2,4) by (simp add: all_nodes_imp)
  moreover have "accounted i" by (rule accounted_remove [OF i(1) inv(3,5,6)])
  moreover have "\<forall>(key, v) \<in> set (st_contents \<sigma> t'). length key \<le> MAX_KEY_LEN \<and> cid_valid v"
    using sp del_list_bounds(2) [of key "st_contents \<sigma> t"] assms(2) by (auto simp: undo_inv_def)
  moreover have "length (st_contents \<sigma> t') + k < 2 ^ 64"
    using sp del_list_bounds(1) [of key "st_contents \<sigma> t"] assms(2) by (simp add: undo_inv_def)
  ultimately show ?thesis using sp i(2) inv(2) by (simp add: undo_inv_def)
qed

definition ops_typed :: "raw_repo_op list \<Rightarrow> bool" where
  "ops_typed ops \<longleftrightarrow> list_all (\<lambda>op. cid_opt_valid (op_prev op)) ops"

lemma invert_ops_inv:
  assumes "invert_ops E raw ops t = Inr t'" "undo_inv E \<sigma> (length ops) t" "ops_typed ops"
  shows "undo_inv E \<sigma> 0 t'"
  using assms
proof (induction ops arbitrary: t)
  case (Cons op ops)
  show ?case
  proof (cases "op_action op = lit ''create''")
    case True
    then obtain v t1 where r: "st_remove car_ops E (op_path op) t = (Inr v, t1)" "invert_ops E raw ops t1 = Inr t'"
      using Cons.prems(1) by (auto split: prod.splits sum.splits)
    then show ?thesis using Cons.IH [OF r(2)] undo_inv_remove [OF r(1)] Cons.prems(2,3) by (simp add: ops_typed_def)
  next
    case False
    then obtain prev t1 where r: "op_prev op = Some prev" "st_insert car_ops E (op_path op) prev t = (Inr (), t1)" "invert_ops E raw ops t1 = Inr t'"
      using Cons.prems(1) by (auto split: prod.splits sum.splits if_splits)
    then show ?thesis
      using Cons.IH [OF r(3)] undo_inv_insert [OF r(2)] Cons.prems(2,3) by (simp add: ops_typed_def cid_opt_valid_def)
  qed
qed simp

section \<open>The operations are the difference of the trees\<close>

text \<open>A well-formed new tree: \<open>\<sigma>\<close> gives the records under each CID, in key order and within the limits.\<close>

definition new_tree_ok :: "env \<Rightarrow> contents \<Rightarrow> raw_commit \<Rightarrow> decoded_commit_car \<Rightarrow> bool" where
  "new_tree_ok E \<sigma> raw dc \<longleftrightarrow> models (store_env car_ops E (dc_store dc)) \<sigma> \<and> ksorted (\<sigma> (c_data (dc_inner dc))) \<and>
     length (\<sigma> (c_data (dc_inner dc))) + length (rc_ops raw) < 2 ^ 64 \<and>
     (\<forall>(key, v) \<in> set (\<sigma> (c_data (dc_inner dc))). length key \<le> MAX_KEY_LEN \<and> cid_valid v)"

lemma decoded_blocks_verified:
  assumes "decode_commit_car E raw = Inr dc"
  shows "blocks_verified (store_env car_ops E (dc_store dc))"
proof -
  have "in_memory data \<and> cid_compute (compress256 E) (cid_codec c) data = c" if "store_source car_ops (dc_store dc) c = Inr (Some data)" for c data
    using that decode_commit_car_ok(1,3) [OF assms]
    by (auto simp: store_source_def car_ops_def car_get_block_def ok_or_def split: option.splits sum.splits mst_error.splits)
  then show ?thesis by (simp add: blocks_verified_def) (simp add: store_env_def)
qed

lemma load_contents: "st_contents \<sigma> (st_load s c) = \<sigma> c" "accounted (st_inner (st_load s c))"
  using accounted_load by (simp_all add: st_load_def contents_def tree_load_def stub_def)

lemma st_root_cid_wcid:
  assumes "fst (st_root_cid B E t) = Inr root"
  shows "root = wcid (compress256 E) (root_node (t_root (st_inner t)))"
proof -
  obtain w i where "tree_flush E (st_inner t) = (Inr w, i)" "root = w_root w"
    using assms by (auto simp: st_root_cid_def split: prod.splits sum.splits)
  then show ?thesis using flush_wcid by blast
qed

lemma all_nodes_root_node: "all_opt Q m \<Longrightarrow> Q empty_node \<Longrightarrow> all_nodes Q (root_node m)"
  by (cases m) (simp_all add: root_node_def empty_node_def)

text \<open>The tree root of a decoded commit is a well-formed CID.\<close>

lemma commit_fields_valid:
  "commit_fields_loop es f = Inr f' \<Longrightarrow> \<forall>e \<in> set es. drisl u k (snd e) \<Longrightarrow> cid_opt_valid (f_data f) \<Longrightarrow> cid_opt_valid (f_data f')"
proof (induction es arbitrary: f)
  case (Cons e es)
  obtain key val where e: "e = (key, val)" by (cases e)
  obtain g where g: "commit_fields_loop es g = Inr f'" "f_data g = f_data f \<or> (\<exists>c. val = CidV c \<and> f_data g = Some c)"
  proof (cases "key = lit ''data''")
    case True
    then show thesis using Cons.prems(1) e that by (cases val) (simp_all add: of_char_def)
  next
    case False
    then show thesis using Cons.prems(1) e that by (auto simp del: lit_Cons split: if_splits cbor_value.splits)
  qed
  then have "cid_opt_valid (f_data g)" using Cons.prems(2,3) e by (auto simp: cid_opt_valid_def)
  then show ?case using Cons.IH [OF g(1)] Cons.prems(2) by simp
qed simp

lemma from_cbor_data_valid:
  assumes "from_cbor u block = Inr c" "in_memory block"
  shows "cid_valid (c_data c)"
proof -
  obtain es f where e: "decode u block = Inr (Map es)" "commit_fields_loop es no_fields = Inr f" "f_data f = Some (c_data c)"
    using assms(1) by (auto simp: from_cbor_def split: cbor_value.splits if_splits)
  have "\<forall>e \<in> set es. drisl u 1 (snd e)" using e(1) decode_iff [OF assms(2)] by simp
  from commit_fields_valid [OF e(2) this] e(3) show ?thesis by (simp add: no_fields_def cid_opt_valid_def)
qed

lemma undone_contents:
  assumes "decode_commit_car E raw = Inr dc" "invert_decoded_commit E raw (dc_inner dc) (dc_store dc) = Inr (merkle (compress256 E) p)"
    and "all_nodes (trusted E \<sigma>) p" "new_tree_ok E \<sigma> raw dc" "platform_ok E" "ops_typed (rc_ops raw)"
  shows "distinct (map op_path (rc_ops raw)) \<and>
    map_of (inorder \<sigma> p) = fold undo_op (rev (rc_ops raw)) (map_of (\<sigma> (c_data (dc_inner dc))))"
proof -
  let ?t = "st_load (dc_store dc) (c_data (dc_inner dc))" and ?C = "compress256 E"
  have data: "cid_valid (c_data (dc_inner dc))"
    using decode_commit_car_ok(3,4) [OF assms(1)] from_cbor_data_valid by blast
  obtain t' where t': "find_duplicate_path (rc_ops raw) = None" "invert_ops E raw (rev (rc_ops raw)) ?t = Inr t'"
    "fst (st_root_cid car_ops E t') = Inr (merkle ?C p)"
    using assms(2) by (auto simp: invert_decoded_commit_def split: option.splits)
  have ok: "st_ok car_ops E \<sigma> ?t"
    using assms(4) by (simp add: st_ok_def new_tree_ok_def usable_def load_contents) (simp add: st_load_def tree_load_def tree_new_def)
  have "all_opt (authentic E) (t_root (st_inner ?t))"
    using all_opt_stub [of "Some (c_data (dc_inner dc))" E 0] data by (simp add: cid_opt_valid_def st_load_def tree_load_def)
  then have "undo_inv E \<sigma> (length (rev (rc_ops raw))) ?t"
    using ok decoded_blocks_verified [OF assms(1)] assms(4) load_contents
    by (simp add: undo_inv_def new_tree_ok_def) (simp add: st_load_def)
  then have inv: "undo_inv E \<sigma> 0 t'"
    by (rule invert_ops_inv [OF t'(2)]) (use assms(6) in \<open>simp add: ops_typed_def list_all_iff\<close>)
  let ?n = "root_node (t_root (st_inner t'))"
  have n: "inorder \<sigma> ?n = st_contents \<sigma> t'" by (cases "t_root (st_inner t')") (simp_all add: root_node_def contents_def empty_node_def)
  have "inorder \<sigma> ?n = inorder \<sigma> p"
  proof (rule authentic_same_contents [OF assms(3) _ _ _ assms(5)])
    show "all_nodes (authentic E) ?n" "all_nodes grounded ?n"
      using inv by (intro all_nodes_root_node; simp add: undo_inv_def accounted_def authentic_def grounded_def empty_node_def)+
    show "readable \<sigma> ?n" using inv by (simp add: n readable_def records_ok_def undo_inv_def)
    show "wcid ?C ?n = merkle ?C p" using st_root_cid_wcid [OF t'(3)] by simp
  qed
  then show ?thesis
    using invert_ops_spec [OF t'(2) ok] n t'(1) find_duplicate_path_None by (simp add: load_contents)
qed

text \<open>
  When undoing the operations on the new tree leads to the root of the previous tree, and the
  operations agree with the new tree, they are exactly the difference between the two.
\<close>

lemma verified_ops_are_difference:
  assumes "decode_commit_car E raw = Inr dc"
    and "invert_decoded_commit E raw (dc_inner dc) (dc_store dc) = Inr (merkle (compress256 E) prev)"
    and "check_op_cids E raw (c_data (dc_inner dc)) (dc_store dc) = Inr ()"
    and "all_nodes (trusted E \<sigma>) prev" "new_tree_ok E \<sigma> raw dc" "platform_ok E" "ops_typed (rc_ops raw)"
  shows "(\<forall>op \<in> set (rc_ops raw). map_of (inorder \<sigma> prev) (op_path op) = (if op_action op = lit ''create'' then None else op_prev op) \<and>
      map_of (\<sigma> (c_data (dc_inner dc))) (op_path op) = op_cid op \<and> (op_cid op = None \<longleftrightarrow> op_action op = lit ''delete'')) \<and>
    (\<forall>key. key \<notin> op_path ` set (rc_ops raw) \<longrightarrow>
      map_of (inorder \<sigma> prev) key = map_of (\<sigma> (c_data (dc_inner dc))) key)"
proof -
  note un = undone_contents [OF assms(1,2,4-7)]
  have d: "distinct (map op_path (rev (rc_ops raw)))" using un by (simp add: rev_map [symmetric])
  have ok: "st_ok car_ops E \<sigma> (st_load (dc_store dc) (c_data (dc_inner dc)))"
    using assms(5) by (simp add: st_ok_def new_tree_ok_def usable_def load_contents) (simp add: st_load_def tree_load_def tree_new_def)
  have "\<forall>op \<in> set (rc_ops raw). op_holds (map_of (\<sigma> (c_data (dc_inner dc)))) op"
    using check_ops_spec [OF _ ok] assms(3) by (simp add: check_op_cids_def load_contents)
  then show ?thesis
    using un fold_undo_op [OF d] fold_undo_other [of _ "rev (rc_ops raw)"] by (simp add: op_holds_def del: lit_Cons)
qed

end
