(* ===== verification/Sync_Sample.thy ===== *)
theory Sync_Sample
  imports Sync_Inverse
begin

text \<open>
  A concrete commit: it creates the record \<open>a/b\<close> in an empty repository. The block function gives
  the two node blocks digests of their own and everything else a third one.
\<close>

section \<open>Padding is injective\<close>

lemma fips_pad_inject:
  assumes "fips_pad a = fips_pad b" "length (fips_pad b) < 2 ^ 61"
  shows "a = b"
proof -
  let ?n = "\<lambda>xs. to_be_bytes 8 (of_nat (length xs) * 8 :: u64)"
  have inj: "x = y" if "to_be_bytes 8 x = to_be_bytes 8 y" for x y :: u64
  proof -
    have "unat w < 256 ^ 8" for w :: u64 using unsigned_less [of w] by simp
    then show ?thesis using from_to_be_bytes [of x 8] from_to_be_bytes [of y 8] that by metis
  qed
  have s: "length xs < length (fips_pad xs)" for xs by (simp add: fips_pad_def)
  have t: "drop (length (fips_pad xs) - 8) (fips_pad xs) = ?n xs" for xs by (simp add: fips_pad_def)
  have l: "length a < 2 ^ 61" "length b < 2 ^ 61" using s [of a] s [of b] assms by simp_all
  have "?n a = ?n b" using t [of a] t [of b] assms(1) by simp
  then have "(of_nat (length a) * 8 :: u64) = of_nat (length b) * 8"
    by (rule inj)
  then have "unat (of_nat (length a * 8) :: u64) = unat (of_nat (length b * 8) :: u64)" by simp
  then have "length a = length b" using l by (simp add: unat_of_nat del: of_nat_mult)
  then show "a = b" using assms(1) by (simp add: fips_pad_def)
qed

section \<open>A test hash\<close>

definition test_compress :: "(bytes \<Rightarrow> u32 list) \<Rightarrow> compress_fn" where
  "test_compress F s bs = (if s = sha256_init then 0 # map ucast (concat bs) else F (map ucast (tl s) @ concat bs))"

lemma sha256_test: "sha256 (test_compress F) data = concat (map (to_be_bytes 4) (F (fips_pad data)))"
proof -
  let ?l = "sha256_last (snd (as_chunks 64 data)) (length data)"
  have "snd (as_chunks 64 ?l) = []"
    using as_chunks_correct [of 64 ?l] fips_pad_split(2) [of data] by simp
  then have "concat (fst (as_chunks 64 ?l)) = ?l"
    using as_chunks_correct [of 64 ?l] by simp
  moreover have "0 # xs \<noteq> sha256_init" for xs by (simp add: sha256_init_def)
  moreover have "(ucast (ucast x :: u32) :: u8) = x" for x by (rule bit_word_eqI) (simp add: bit_simps)
  ultimately show ?thesis
    by (simp add: sha256_def case_prod_beta test_compress_def Let_def fips_pad_split(1) comp_def)
qed

text \<open>A digest of its own for two short blocks, and a third one for everything else.\<close>

definition two_block_digest :: "bytes \<Rightarrow> bytes \<Rightarrow> bytes \<Rightarrow> u32 list" where
  "two_block_digest a b p = replicate 8 (if p = fips_pad a then 1 else if p = fips_pad b then 2 else 0xffffffff)"

lemma two_block_sha:
  assumes "length a \<le> 200" "length b \<le> 200"
  shows "sha256 (test_compress (two_block_digest a b)) data =
    concat (replicate 8 (to_be_bytes 4 (if data = a then 1 else if data = b then 2 else 0xffffffff :: u32)))"
proof -
  have short: "length (fips_pad x) < 2 ^ 61" if "length x \<le> 200" for x
  proof -
    have "(119 - length x mod 64) mod 64 < 64" by simp
    then have "length (fips_pad x) < 300" using that by (simp only: fips_pad_def length_append length_replicate length_to_be_bytes list.size)
    then show ?thesis by simp
  qed
  have "fips_pad data = fips_pad x \<longleftrightarrow> data = x" if "length x \<le> 200" for x
    using fips_pad_inject [of data x] short [OF that] by auto
  then show ?thesis using assms by (simp add: sha256_test two_block_digest_def)
qed

section \<open>The commit\<close>

definition leaf_data :: node_data where
  "leaf_data = \<lparr>nd_left = None, nd_entries = [\<lparr>prefix_len = 0, key_suffix = lit ''a/b'', ed_value = cid_zeroed, ed_right = None\<rparr>]\<rparr>"

definition leaf_block :: bytes where "leaf_block = enc (node_value leaf_data)"

definition empty_block :: bytes where "empty_block = enc (node_value \<lparr>nd_left = None, nd_entries = []\<rparr>)"

definition sample_hash :: compress_fn where
  "sample_hash = test_compress (two_block_digest empty_block leaf_block)"

definition sync_env :: env where
  "sync_env = \<lparr>read_block = (\<lambda>_. Inr None), simd_utf8 = (\<lambda>_. True), compress256 = sample_hash\<rparr>"

lemma block_lengths: "length leaf_block \<le> 200" "length empty_block \<le> 200"
  by (simp_all add: leaf_block_def leaf_data_def empty_block_def node_value_def entry_value_def cid_or_null_def enc_text_def head_def tag42_def
      cid_to_tag42_bytes_def cid_to_bytes_def cid_zeroed_def)

text \<open>The new tree, the commit block and the archive.\<close>

definition new_data :: cid where "new_data = cid_compute sample_hash Drisl leaf_block"

definition new_commit :: commit where "new_commit = sample_commit\<lparr>c_data := new_data\<rparr>"

definition sample_commit_block :: bytes where
  "sample_commit_block = enc (Map (signed_entries new_commit (replicate 64 1)))"

definition sample_commit_cid :: cid where "sample_commit_cid = cid_compute sample_hash Drisl sample_commit_block"

definition create_op :: raw_repo_op where
  "create_op = \<lparr>op_action = lit ''create'', op_path = lit ''a/b'', op_cid = Some cid_zeroed, op_prev = None\<rparr>"

definition create_blocks :: "car_block list" where
  "create_blocks = [\<lparr>b_cid = sample_commit_cid, b_data = sample_commit_block\<rparr>, \<lparr>b_cid = new_data, b_data = leaf_block\<rparr>]"

definition create_commit :: raw_commit where
  "create_commit = \<lparr>rc_repo = sample_did, rc_rev = Tid 7, rc_seq = 1, rc_time = [], rc_since = None, rc_commit = sample_commit_cid,
     rc_blocks = car_bytes (enc (header_value [sample_commit_cid])) create_blocks, rc_ops = [create_op], rc_blobs = [],
     rc_prev_data = Some (cid_compute sample_hash Drisl empty_block), rc_too_big = False, rc_rebase = False\<rparr>"

lemma sample_sha: "sha256 sample_hash data = concat (replicate 8 (to_be_bytes 4
    (if data = empty_block then 1 else if data = leaf_block then 2 else 0xffffffff :: u32)))"
  unfolding sample_hash_def by (rule two_block_sha [OF block_lengths(2,1)])

lemma node_values_distinct: "leaf_block \<noteq> empty_block"
  by (simp add: leaf_block_def leaf_data_def empty_block_def node_value_def head_def of_char_def enc_text_def)

lemma sample_platform: "platform_ok sync_env"
proof -
  have "length (sha256 sample_hash data) = 32" for data
    unfolding sample_sha by (simp add: numeral_eq_Suc)
  then show ?thesis by (simp add: platform_ok_def sync_env_def ascii_keys_def)
qed

lemma sample_cid_valid: "cid_valid (cid_compute sample_hash Drisl data)"
  using sample_platform by (simp add: platform_ok_def sync_env_def cid_valid_def cid_compute_def)

lemma leaf_data_ok: "node_ok leaf_data"
  by (simp add: node_ok_def leaf_data_def entry_ok_def MAX_KEY_LEN_def MAX_ENTRIES_PER_NODE_def cid_opt_valid_def cid_valid_def cid_zeroed_def)

lemma leaf_decodes: "decode_node_data (\<lambda>_. True) leaf_block = Inr leaf_data"
  unfolding leaf_block_def by (rule decode_node_value [OF leaf_data_ok]) (simp add: ascii_keys_def)

lemma sample_key: "is_valid_key (lit ''a/b'')"
  by (simp add: is_valid_key_def key_byte_def ascii_defs of_char_def MAX_KEY_LEN_def)

lemma leaf_keys: "for_each_key None (nd_entries leaf_data) = Inr [lit ''a/b'']"
  using for_each_key_links [of "[(lit ''a/b'', cid_zeroed, None)]"] sample_key by (simp add: leaf_data_def)

lemma new_commit_ok: "commit_ok new_commit"
  using sample_commit_ok sample_cid_valid by (auto simp: commit_ok_def new_commit_def new_data_def)

lemma commit_decodes: "from_cbor (\<lambda>_. True) sample_commit_block = Inr new_commit"
  unfolding sample_commit_block_def
  by (rule from_cbor_signed [OF new_commit_ok]) (simp_all add: new_commit_def sample_commit_def accepts_ascii_def)

lemma commit_not_node: "decode_node_data (\<lambda>_. True) sample_commit_block \<noteq> Inr nd"
proof -
  have "decode (\<lambda>_. True) sample_commit_block = Inr (Map (signed_entries new_commit (replicate 64 1)))"
    unfolding sample_commit_block_def by (rule entries_decode [OF new_commit_ok]) (auto simp: accepts_ascii_def intro!: exI [of _ "replicate 64 1"])
  then show ?thesis by (simp add: decode_node_data_def signed_entries_def of_char_def)
qed

lemma commit_block_other: "sample_commit_block \<noteq> leaf_block" "sample_commit_block \<noteq> empty_block"
proof -
  show "sample_commit_block \<noteq> leaf_block" using leaf_decodes commit_not_node by metis
  have "decode_node_data (\<lambda>_. True) empty_block = Inr \<lparr>nd_left = None, nd_entries = []\<rparr>"
    unfolding empty_block_def by (rule decode_node_value) (simp_all add: node_ok_def cid_opt_valid_def ascii_keys_def)
  then show "sample_commit_block \<noteq> empty_block" using commit_not_node by metis
qed

lemma digest_bytes: "to_be_bytes 4 (1 :: u32) = [0, 0, 0, 1]" "to_be_bytes 4 (2 :: u32) = [0, 0, 0, 2]"
  "to_be_bytes 4 (0xffffffff :: u32) = [0xff, 0xff, 0xff, 0xff]"
  by (simp_all add: to_be_bytes_def upt_rec)

lemma eight: "replicate 8 x = x # replicate 7 x"
  by (simp add: eval_nat_numeral)

lemma sample_cids: "sample_commit_cid \<noteq> new_data" "cid_compute sample_hash Drisl empty_block \<noteq> new_data"
  using commit_block_other node_values_distinct
  by (simp_all add: sample_commit_cid_def new_data_def cid_compute_def sample_sha digest_bytes eight)

section \<open>What the verifier does with it\<close>

definition sample_store :: car_block_store where
  "sample_store = car_new [sample_commit_cid \<mapsto> sample_commit_block, new_data \<mapsto> leaf_block]"

definition sample_decoded :: decoded_commit_car where
  "sample_decoded = \<lparr>dc_inner = new_commit, dc_store = sample_store, dc_root = sample_commit_cid\<rparr>"

lemma commit_block_length: "length sample_commit_block \<le> 2 ^ 20"
proof -
  have "cid_valid new_data" unfolding new_data_def by (rule sample_cid_valid)
  then have "length (tag42 new_data) = 41" by (simp add: tag42_def cid_to_tag42_bytes_def cid_to_bytes_def cid_valid_def)
  moreover have "length (did_as_str sample_did) \<le> 2048" using commit_okD(2) [OF sample_commit_ok] by (simp add: sample_commit_def)
  ultimately show ?thesis
    using length_enc_text [of "did_as_str sample_did"] length_enc_text [of "tid_fmt (Tid 7)"]
    by (simp add: sample_commit_block_def new_commit_def sample_commit_def signed_entries_def prev_value_def)
      (simp add: enc_text_def head_def)
qed

lemma sample_car: "car_read_slice (\<lambda>_. True) (rc_blocks create_commit) = Inr ([sample_commit_cid], create_blocks)"
proof -
  let ?h = "enc (header_value [sample_commit_cid])"
  have v: "cid_valid sample_commit_cid" "cid_valid new_data" unfolding sample_commit_cid_def new_data_def by (rule sample_cid_valid)+
  have "length (tag42 sample_commit_cid) = 41" using v(1) by (simp add: tag42_def cid_to_tag42_bytes_def cid_to_bytes_def cid_valid_def)
  then have "length ?h \<le> 2 ^ 10" by (simp add: header_value_def head_def enc_text_def)
  moreover from this have "decode_header (\<lambda>_. True) ?h = Inr [sample_commit_cid]"
    using v by (intro decode_header_value) (simp_all add: MAX_COLLECTION_LEN_def)
  moreover have "\<forall>b \<in> set create_blocks. block_ok b"
    using v commit_block_length block_lengths by (simp add: create_blocks_def block_ok_def)
  ultimately show ?thesis unfolding car_read_slice_iff by (intro exI [of _ ?h]) (simp add: create_commit_def)
qed

lemma sample_decode: "decode_commit_car sync_env create_commit = Inr sample_decoded"
proof -
  have "cid_compute sample_hash (cid_codec sample_commit_cid) sample_commit_block = sample_commit_cid" "cid_compute sample_hash (cid_codec new_data) leaf_block = new_data"
    by (simp_all add: sample_commit_cid_def new_data_def cid_compute_def)
  then have "collect_blocks sync_env create_commit create_blocks Map.empty = Inr [sample_commit_cid \<mapsto> sample_commit_block, new_data \<mapsto> leaf_block]"
    using sample_cids by (simp add: create_blocks_def sync_env_def)
  then show ?thesis
    using sample_car commit_decodes sample_cids
    by (simp add: decode_commit_car_def sync_env_def ok_or_def sample_decoded_def sample_store_def car_get_def car_new_def)
      (simp add: create_commit_def)
qed

definition sample_contents :: contents where
  "sample_contents c = (if c = new_data then [(lit ''a/b'', cid_zeroed)] else [])"

lemma sample_source: "store_source car_ops sample_store c = Inr (if c = new_data then Some leaf_block else if c = sample_commit_cid then Some sample_commit_block else None)"
  using sample_cids by (simp add: store_source_def car_ops_def car_get_block_def sample_store_def car_new_def ok_or_def)

lemma sample_tree_ok: "new_tree_ok sync_env sample_contents create_commit sample_decoded"
proof -
  have "models (store_env car_ops sync_env sample_store) sample_contents"
    unfolding models_def using commit_not_node leaf_decodes leaf_keys
    by (auto simp: sample_source sync_env_def store_env_def sample_contents_def leaf_data_def split: if_splits)
  then show ?thesis
    by (simp add: new_tree_ok_def sample_decoded_def new_commit_def sample_contents_def create_commit_def cid_valid_def cid_zeroed_def
        MAX_KEY_LEN_def)
qed

lemma sample_trusted: "all_nodes (trusted sync_env sample_contents) empty_node"
proof -
  have b: "block_of (None, []) = empty_block"
    using block_of_enc [of "(None, [])"] by (simp add: links_ok_def cid_opt_valid_def links_data_def empty_block_def)
  then have "merkle sample_hash empty_node = cid_compute sample_hash Drisl empty_block"
    using merkle_block [of empty_node sample_hash] by (simp add: empty_node_def mlinks_def)
  moreover have "data = empty_block" if "cid_compute sample_hash Drisl data = cid_compute sample_hash Drisl empty_block" for data
    using that by (auto simp: cid_compute_def sample_sha digest_bytes eight split: if_splits)
  ultimately show ?thesis
    using b sample_cids by (simp add: empty_node_def trusted_def sync_env_def mlinks_def sample_contents_def)
qed

abbreviation sample_source_env :: env where
  "sample_source_env \<equiv> store_env car_ops sync_env sample_store"

definition loaded_leaf :: node where
  "loaded_leaf = Node None [Entry (lit ''a/b'') cid_zeroed None] (Some new_data) (height_for_key sample_hash (lit ''a/b'')) True"

lemma leaf_loads: "load_node sample_source_env ROOT (stub new_data 0) refs = (Inr None, loaded_leaf, refs)"
proof -
  have "populate_node sample_source_env (stub new_data 0) leaf_data ROOT = Inr loaded_leaf"
    by (simp add: populate_node_def leaf_keys loaded_leaf_def ROOT_def admits_def sync_env_def stub_def del: lit_Cons) (simp add: leaf_data_def)
  moreover have "node_links leaf_data = []" by (simp add: node_links_def leaf_data_def)
  moreover have "read_block sample_source_env new_data = Inr (Some leaf_block)" by (simp add: store_env_def sample_source)
  ultimately show ?thesis using leaf_decodes by (simp add: load_node_def stub_def ROOT_def sync_env_def)
qed

lemma leaf_scan: "scan_entries (nentries loaded_leaf) (lit ''a/b'') = 0" "search_entries (nentries loaded_leaf) (lit ''a/b'') = Inr 0"
  by (simp_all add: loaded_leaf_def scan_entries_lower_bound search_entries_sorted del: lit_Cons)

lemma leaf_loaded: "nloaded loaded_leaf"
  by (simp add: loaded_leaf_def)

lemma sample_get: "st_get car_ops sync_env (lit ''a/b'') (st_load sample_store new_data) =
    (Inr (Some cid_zeroed), \<lparr>st_inner = (tree_load new_data)\<lparr>t_root := Some loaded_leaf\<rparr>, st_store = sample_store, st_unsaved = []\<rparr>)"
  by (simp add: st_get_def st_load_def tree_get_def guarded_def check_usable_def tree_load_def tree_new_def get_node.simps [of _ ROOT]
      ensure_loaded_def leaf_loads leaf_scan del: lit_Cons) (simp add: loaded_leaf_def del: lit_Cons)

lemma sample_visit: "visit_key_path sample_source_env (lit ''a/b'') Remove True ROOT (stub new_data 0) refs [] = (Inr [], loaded_leaf, refs)"
  by (simp add: visit_key_path.simps [of _ _ _ _ ROOT] leaf_loads leaf_scan del: lit_Cons) (simp add: loaded_leaf_def child_def del: lit_Cons)

lemma sample_remove: "st_remove car_ops sync_env (lit ''a/b'') (st_load sample_store new_data) =
    (Inr (Some cid_zeroed), \<lparr>st_inner = (tree_load new_data)\<lparr>t_root := None, t_released := [new_data]\<rparr>, st_store = sample_store, st_unsaved = []\<rparr>)"
proof -
  have "get_node (no_blocks sample_source_env) ROOT (lit ''a/b'') loaded_leaf refs = (Inr (Some cid_zeroed), loaded_leaf, refs)" for refs
    by (simp add: get_node.simps [of _ ROOT] ensure_loaded_id leaf_scan leaf_loaded del: lit_Cons) (simp add: loaded_leaf_def del: lit_Cons)
  moreover have "remove_from_root loaded_leaf (lit ''a/b'') [] = Inr ((None, Some cid_zeroed), [new_data])"
    by (simp add: remove_from_root_def remove_node.simps [of loaded_leaf] leaf_scan del: lit_Cons)
      (simp add: loaded_leaf_def require_loaded_def prune_empty_def discard_def del: lit_Cons)
  ultimately show ?thesis
    by (simp add: st_remove_def st_load_def tree_remove_def guarded_def check_usable_def tree_load_def tree_new_def load_key_path_def sample_visit del: lit_Cons)
qed

lemma sample_inverts:
  "invert_decoded_commit sync_env create_commit new_commit sample_store = Inr (merkle sample_hash empty_node)"
proof -
  let ?i = "(tree_load new_data)\<lparr>t_root := None, t_released := [new_data]\<rparr>"
  let ?t = "\<lparr>st_inner = ?i, st_store = sample_store, st_unsaved = []\<rparr>"
  let ?r = "cid_compute sample_hash Drisl empty_block"
  have b: "empty_node_block sample_hash = Inr (?r, empty_block)"
    using encode_node_data_enc [of "\<lparr>nd_left = None, nd_entries = []\<rparr>"] by (simp add: empty_node_block_def empty_block_def)
  have m: "merkle sample_hash empty_node = ?r"
    using encode_node_data_enc [of "\<lparr>nd_left = None, nd_entries = []\<rparr>"] by (simp add: empty_node_def empty_block_def)
  obtain w i where w: "tree_flush sync_env ?i = (Inr w, i)" "w_root w = ?r" "w_new_blocks w = [(?r, empty_block)]"
    using b sample_cids by (simp add: tree_flush_def guarded_def check_usable_def tree_load_def tree_new_def sync_env_def settle_def Let_def)
  moreover have "?r \<noteq> sample_commit_cid"
    using commit_block_other by (simp add: sample_commit_cid_def cid_compute_def sample_sha digest_bytes eight)
  then have "fst (put_block car_ops sample_store ?r empty_block) = Inr ()"
    using sample_cids by (simp add: car_ops_def car_put_block_def sample_store_def car_new_def)
  ultimately have "fst (st_root_cid car_ops sync_env ?t) = Inr ?r"
    by (auto simp: st_root_cid_def split: prod.splits sum.splits)
  then show ?thesis
    using sample_remove m
    by (simp add: invert_decoded_commit_def find_duplicate_path_def create_commit_def create_op_def new_commit_def del: lit_Cons)
qed

lemma sample_checked: "check_op_cids sync_env create_commit new_data sample_store = Inr ()"
  using sample_get by (simp add: check_op_cids_def create_commit_def create_op_def del: lit_Cons)

end
