(* ===== verification/Sync_Jobs.thy ===== *)
theory Sync_Jobs
  imports Sync_Steps Sync_Sample
begin

text \<open>
  Runs of a verifier over the store in memory, and the end of resync jobs.
\<close>

interpretation mem_verifier: verifier_on_store mem_state_ops ms_chains ms_hosting "X\<lparr>cx_state := mem_state_ops\<rparr>" for X
  by unfold_locales simp

text \<open>
  C2. Revisions only advance. Whatever commits, sync events, account events and resyncs arrive, from
  any number of tasks in any interleaving of their critical sections, a repository once known
  stays known, its revision never goes back, a saved state is replaced only by one with a greater
  revision (or the same revision and data), and the sequence number of its hosting status only
  grows.
\<close>

theorem revisions_advance:
  assumes "cx_state X = mem_state_ops" "vsteps X v v'"
  shows "(\<forall>d c. ms_chains (v_store v) d = Some c \<longrightarrow> (\<exists>c'. ms_chains (v_store v') d = Some c' \<and> chain_le c c')) \<and>
    (\<forall>d h. ms_hosting (v_store v) d = Some h \<longrightarrow> (\<exists>h'. ms_hosting (v_store v') d = Some h' \<and> (h' = h \<or> ho_seq h < ho_seq h')))"
proof -
  have "X\<lparr>cx_state := mem_state_ops\<rparr> = X" using assms(1) by (cases X) simp
  then have "mem_verifier.advances v v'" using mem_verifier.run_advances [of X v v'] assms(2) by simp
  then show ?thesis unfolding mem_verifier.advances_def map_le_by_def host_le_def by metis
qed

text \<open>A verifier over the store in memory, with strict options and a resolver whose key accepts every signature.\<close>

definition sample_key_ops :: "unit resolver_ops" where
  "sample_key_ops = \<lparr>lookup_did = (\<lambda>i _. (Inr (Some (\<lambda>_ _. Inr ())), i)), purge = (\<lambda>i _. (Inr (), i))\<rparr>"

definition sample_f64 :: f64_ops where
  "sample_f64 = \<lparr>f_add = (+), f_sub = (-), f_mul = (*), f_min = min, f_gt = (>), f_ge = (\<ge>), f_total_le = (\<le>), f_secs = of_nat\<rparr>"

definition sample_options :: verifier_options where
  "sample_options = (default_options \<lparr>per_second = 0, burst = 0\<rparr>)\<lparr>opt_lenient := False, opt_legacy_policy := RejectLegacy\<rparr>"

definition sample_ctx :: "(mem_state_store, unit) ctx" where
  "sample_ctx = \<lparr>cx_env = sync_env, cx_state = mem_state_ops, cx_ids = sample_key_ops, cx_opts = sample_options, cx_f64 = sample_f64,
     cx_order = (\<lambda>_. [])\<rparr>"

definition sample_account :: raw_account where
  "sample_account = \<lparr>ra_did = sample_did, ra_seq = 2, ra_time = [], ra_active = False, ra_status = None\<rparr>"

definition sample_states :: mem_state_store where
  "sample_states = \<lparr>ms_chains = [sample_did \<mapsto> \<lparr>ch_rev = tid_fmt (Tid 3), ch_data = cid_zeroed\<rparr>],
     ms_hosting = [sample_did \<mapsto> \<lparr>ho_active = True, ho_status = None, ho_seq = 1, ho_time = []\<rparr>]\<rparr>"

theorem revisions_advance_witness:
  "\<exists>c h. ms_chains (v_store (snd (on_account_event sample_ctx sample_account (verifier_new sample_states ())))) sample_did = Some c \<and>
    chain_le \<lparr>ch_rev = tid_fmt (Tid 3), ch_data = cid_zeroed\<rparr> c \<and>
    ms_hosting (v_store (snd (on_account_event sample_ctx sample_account (verifier_new sample_states ())))) sample_did = Some h \<and>
    (h = \<lparr>ho_active = True, ho_status = None, ho_seq = 1, ho_time = []\<rparr> \<or> 1 < ho_seq h)"
proof -
  let ?v = "verifier_new sample_states ()"
  have x: "cx_state sample_ctx = mem_state_ops" by (simp add: sample_ctx_def)
  have s: "vsteps sample_ctx ?v (snd (on_account_event sample_ctx sample_account ?v))" by (rule r_into_rtranclp, rule step_account)
  have c: "ms_chains (v_store ?v) sample_did = Some \<lparr>ch_rev = tid_fmt (Tid 3), ch_data = cid_zeroed\<rparr>"
    "ms_hosting (v_store ?v) sample_did = Some \<lparr>ho_active = True, ho_status = None, ho_seq = 1, ho_time = []\<rparr>"
    by (simp_all add: verifier_new_def sample_states_def)
  note advance = revisions_advance [OF x s]
  obtain c' where c': "ms_chains (v_store (snd (on_account_event sample_ctx sample_account ?v))) sample_did = Some c'"
    "chain_le \<lparr>ch_rev = tid_fmt (Tid 3), ch_data = cid_zeroed\<rparr> c'"
    using advance [THEN conjunct1, rule_format, OF c(1)] by (elim exE conjE)
  obtain h' where h': "ms_hosting (v_store (snd (on_account_event sample_ctx sample_account ?v))) sample_did = Some h'"
    "h' = \<lparr>ho_active = True, ho_status = None, ho_seq = 1, ho_time = []\<rparr> \<or>
     ho_seq \<lparr>ho_active = True, ho_status = None, ho_seq = 1, ho_time = []\<rparr> < ho_seq h'"
    using advance [THEN conjunct2, rule_format, OF c(2)] by (elim exE conjE)
  have "h' = \<lparr>ho_active = True, ho_status = None, ho_seq = 1, ho_time = []\<rparr> \<or> 1 < ho_seq h'" using h'(2) by simp
  with c' h'(1) show ?thesis by (intro exI conjI)
qed

section \<open>A resync job ends\<close>

lemma handle_sync: "handle_recoverable_resync X raw chain err False v = (Inl err, v)"
  by (simp add: handle_recoverable_resync_def)

text \<open>A commit verified by a job queues nothing and sends nothing.\<close>

abbreviation queues where
  "queues v \<equiv> (v_pending v, channels v)"

definition keeps_queues :: "('s, 'i, 'a) action \<Rightarrow> bool" where
  "keeps_queues m \<longleftrightarrow> (\<forall>v. queues (snd (m v)) = queues v)"

lemma keeps_quiet: "quiet m \<Longrightarrow> keeps_queues m"
  by (simp add: quiet_def keeps_queues_def frame_def)

lemma keeps_vbind: "keeps_queues m \<Longrightarrow> (\<And>a. keeps_queues (f a)) \<Longrightarrow> keeps_queues (vbind m f)"
  unfolding keeps_queues_def
proof (intro allI, rule vbind_rule)
  fix v e w assume "\<forall>v. queues (snd (m v)) = queues v" "m v = (Inl e, w)"
  then show "queues w = queues v" by (metis snd_conv)
next
  fix v a w assume "\<forall>v. queues (snd (m v)) = queues v" "\<And>a. \<forall>v. queues (snd (f a v)) = queues v" "m v = (Inr a, w)"
  then show "queues (snd (f a w)) = queues v" by (metis snd_conv)
qed

lemma keeps_deliver: "keeps_queues (deliver_commit X raw dc chain_error)"
  using deliver_effect [of X raw dc _ chain_error] by (simp add: keeps_queues_def saves_def)

lemma keeps_check_commit: "keeps_queues (check_commit X raw False chain dc chain_error)"
proof -
  have "keeps_queues (\<lambda>v. case check_op_cids (cx_env X) raw (c_data (dc_inner dc)) (dc_store dc) of
      Inl err \<Rightarrow> handle_recoverable_resync X raw chain err False (if is_op_cid_mismatch err then bump op_cid_mismatches_update v else v)
    | Inr _ \<Rightarrow> deliver_commit X raw dc chain_error v)"
    using keeps_deliver [of X raw dc chain_error] by (auto simp: keeps_queues_def handle_sync split: sum.split)
  then show ?thesis unfolding check_commit_def by (intro keeps_vbind keeps_quiet [OF quiet_checks(1)] keeps_quiet [OF quiet_signature])
qed

lemma keeps_decoded: "keeps_queues (verify_decoded X raw False chain dc)"
proof -
  have 1: "queues (snd (previous_root X raw (dc_inner dc) (dc_store dc) chain v)) = queues v" for v
    by (simp add: keeps_quiet [OF quiet_root, unfolded keeps_queues_def])
  have 2: "queues (snd (check_chain X raw chain root v)) = queues v" for root v
    by (simp add: keeps_quiet [OF quiet_chain, unfolded keeps_queues_def])
  have 3: "queues (snd (check_commit X raw False chain dc ce v)) = queues v" for ce v
    by (simp add: keeps_check_commit [unfolded keeps_queues_def])
  show ?thesis
    unfolding keeps_queues_def
  proof
    fix v
    obtain r1 w1 where r1: "previous_root X raw (dc_inner dc) (dc_store dc) chain v = (r1, w1)" by fastforce
    show "queues (snd (verify_decoded X raw False chain dc v)) = queues v"
    proof (cases r1)
      case (Inr root)
      obtain r2 w2 where r2: "check_chain X raw chain root w1 = (r2, w2)" by fastforce
      then show ?thesis using r1 Inr 1 [of v] 2 [of root w1] 3 [of _ w2] by (cases r2) (simp_all add: verify_decoded_def handle_sync)
    qed (use r1 1 [of v] in \<open>simp add: verify_decoded_def handle_sync\<close>)
  qed
qed

lemma job_commit_keeps_queues: "queues (snd (verify_commit_internal X now raw False v)) = queues v"
proof -
  have "keeps_queues (verify_known X raw False chain replay)" for chain replay
    using keeps_decoded [of X raw chain] by (auto simp: keeps_queues_def verify_known_def handle_sync Let_def split: option.split sum.split)
  then have "keeps_queues (verify_commit_locked X raw False)"
    unfolding verify_commit_locked_def
    by (intro keeps_vbind keeps_quiet [OF quiet_gate] keeps_quiet [OF quiet_basic(2)] keeps_quiet [OF quiet_basic(1)])
  then have "keeps_queues (verify_commit_internal X now raw False)"
    unfolding verify_commit_internal_def
    by (intro keeps_vbind keeps_quiet [OF quiet_basic(4)] keeps_quiet [OF quiet_basic(6)]) simp
  then show ?thesis by (simp add: keeps_queues_def)
qed

lemma resync_keeps_queues: "queues (snd (resync X now source did v)) = queues v"
proof -
  have "queues (snd (resync_fetch X now source did v)) = queues v" for v using fetch_effect [of v X now source did] by metis
  moreover have "queues (snd (resync_locked X did loaded v)) = queues v" for loaded v
    using resync_locked_effect [of v X did loaded] by (auto simp: frame_def saves_def)
  ultimately have "keeps_queues (resync_inner X now source did)"
    unfolding resync_inner_def by (intro keeps_vbind) (simp_all add: keeps_queues_def)
  then have 1: "queues (snd (resync_inner X now source did v)) = queues v" for v by (simp add: keeps_queues_def)
  have 2: "queues (snd (resync_result did r w)) = queues w" for r :: "verifier_error + verifier_op list" and w :: "('a, 'b) verifier"
    using keeps_quiet [OF quiet_result] unfolding keeps_queues_def by blast
  obtain r w where r: "resync_inner X now source did v = (r, w)" by fastforce
  show ?thesis using 1 [of v] 2 [of r w] r by (simp add: resync_def)
qed

text \<open>
  The error channel takes \<open>n\<close> more messages of a job without making it wait for ever: nobody is
  interested, the consumer goes on receiving, or there is room. The event channel takes one.
\<close>

definition error_flow :: "('s, 'i) ctx \<Rightarrow> bool \<Rightarrow> nat \<Rightarrow> ('s, 'i) verifier \<Rightarrow> bool" where
  "error_flow X reading n v \<longleftrightarrow> v_closed v \<or> v_error_rx v = RxDropped \<or> reading \<and> v_error_rx v = RxTaken \<or>
     length (v_errors v) + n \<le> channel_capacity X"

definition event_flow :: "('s, 'i) ctx \<Rightarrow> bool \<Rightarrow> ('s, 'i) verifier \<Rightarrow> bool" where
  "event_flow X reading v \<longleftrightarrow> event_room X v \<or> reading \<and> v_event_rx v = RxTaken"

text \<open>A change of the error channel alone.\<close>

definition calm :: "('s, 'i) verifier \<Rightarrow> ('s, 'i) verifier \<Rightarrow> bool" where
  "calm v w \<longleftrightarrow> v_pending w = v_pending v \<and> v_events w = v_events v \<and> v_event_rx w = v_event_rx v \<and>
     v_error_rx w = v_error_rx v \<and> v_closed w = v_closed v"

lemma calm_trans: "calm u v \<Longrightarrow> calm v w \<Longrightarrow> calm u w"
  by (simp add: calm_def)

lemma calm_queues: "queues w = queues v \<Longrightarrow> calm v w"
  by (simp add: calm_def channels_def)

lemma calm_event_flow: "calm v w \<Longrightarrow> event_flow X reading w = event_flow X reading v"
  by (simp add: calm_def event_flow_def event_room_def)

lemma error_flow_queues: "queues w = queues v \<Longrightarrow> error_flow X reading n w = error_flow X reading n v"
  by (simp add: error_flow_def channels_def)

lemma await_error_flow:
  assumes "error_flow X reading (Suc n) v"
  obtains w where "await_async_error X reading err v = Some w" "calm v w" "error_flow X reading n w"
    "\<not> v_closed v \<Longrightarrow> v_error_rx v \<noteq> RxDropped \<Longrightarrow> \<exists>es. v_errors w = es @ [err]"
proof (cases "error_room X v")
  case True
  then show thesis
    using that [of "send_async_error err v"] assms
    by (auto simp: await_async_error_def send_async_error_def calm_def error_flow_def)
next
  case False
  then have "reading" "v_error_rx v = RxTaken" using assms by (auto simp: error_flow_def error_room_def)
  with False show thesis
    using that [of "send_async_error err (v\<lparr>v_errors := make_room X (v_errors v)\<rparr>)"]
    by (auto simp: await_async_error_def send_async_error_def calm_def error_flow_def)
qed

lemma await_event_flow:
  assumes "event_flow X reading v"
  obtains w where "await_resync_event X reading event v = Some w" "v_pending w = v_pending v"
    "\<not> v_closed v \<Longrightarrow> v_event_rx v \<noteq> RxDropped \<Longrightarrow> \<exists>es. v_events w = es @ [event]"
proof (cases "event_room X v")
  case True
  then show thesis
    using that [of "send_resync_event event v"] by (auto simp: await_resync_event_def send_resync_event_def)
next
  case False
  then have "reading" "v_event_rx v = RxTaken" using assms by (auto simp: event_flow_def)
  with False show thesis
    using that [of "send_resync_event event (v\<lparr>v_events := make_room X (v_events v)\<rparr>)"]
    by (auto simp: await_resync_event_def send_resync_event_def)
qed

lemma verify_pending_flow:
  "error_flow X reading (length cs + n) v \<Longrightarrow>
     \<exists>xs w. verify_pending X reading now cs ops v = Some (ops @ xs, w) \<and> calm v w \<and> error_flow X reading n w"
proof (induction cs arbitrary: ops v)
  case (Cons c cs)
  obtain r u where r: "verify_commit_internal X now c False v = (r, u)" by fastforce
  then have q: "queues u = queues v" using job_commit_keeps_queues [of X now c v] by simp
  have f: "error_flow X reading (Suc (length cs + n)) u" using Cons.prems error_flow_queues [OF q] by simp
  obtain extra w where w: "verify_pending X reading now (c # cs) ops v = verify_pending X reading now cs (ops @ extra) w"
    "calm u w" "error_flow X reading (length cs + n) w"
  proof (cases r)
    case (Inl err)
    obtain w where "await_async_error X reading err u = Some w" "calm u w" "error_flow X reading (length cs + n) w"
      using await_error_flow [OF f, of err] by blast
    with that [of "[]" w] r Inl show thesis by simp
  next
    case (Inr o1)
    have "error_flow X reading (length cs + n) u" using f by (auto simp: error_flow_def)
    with that [of "case o1 of None \<Rightarrow> [] | Some ops \<Rightarrow> ops" u] r Inr show thesis by (simp add: calm_def split: option.split)
  qed
  from Cons.IH [OF w(3), of "ops @ extra"] obtain xs w' where
    "verify_pending X reading now cs (ops @ extra) w = Some ((ops @ extra) @ xs, w')" "calm w w'" "error_flow X reading n w'" by blast
  then show ?case using w(1) calm_trans [OF calm_queues [OF q] calm_trans [OF w(2)]]
    by (intro exI [of _ "extra @ xs"] exI [of _ w']) simp
qed (auto simp: calm_def)

text \<open>Removing the entry of a repository leaves the channels as they are.\<close>

lemma drain_once:
  assumes "v_pending v did = Some st" "pr_commits st = []"
  shows "drain_loop X reading now did ops v = Some (ops, finish_resync_job did v)"
proof -
  have "v\<lparr>v_pending := (v_pending v)(did \<mapsto> st\<lparr>pr_commits := []\<rparr>)\<rparr> = v" using assms by (simp add: map_upd_triv)
  then show ?thesis by (subst drain_loop.simps) (use assms in \<open>simp add: take_commits_def\<close>)
qed

lemma drain_flow:
  assumes "v_pending v did = Some st" "error_flow X reading (length (pr_commits st) + n) v" "event_flow X reading v"
  shows "\<exists>xs w. drain_loop X reading now did ops v = Some (ops @ xs, w) \<and> v_pending w did = None \<and>
    error_flow X reading n w \<and> event_flow X reading w \<and> v_closed w = v_closed v \<and> v_event_rx w = v_event_rx v"
proof (cases "pr_commits st = []")
  case True
  then show ?thesis
    using drain_once [OF assms(1), of X reading now ops] assms(2,3)
    by (intro exI [of _ "[]"] exI [of _ "finish_resync_job did v"])
      (simp add: finish_resync_job_def error_flow_def event_flow_def event_room_def)
next
  case False
  let ?w = "v\<lparr>v_pending := (v_pending v)(did \<mapsto> st\<lparr>pr_commits := []\<rparr>)\<rparr>"
  have f: "error_flow X reading (length (pr_commits st) + n) ?w" using assms(2) by (simp add: error_flow_def)
  from verify_pending_flow [OF f] obtain xs u where
    u: "verify_pending X reading now (pr_commits st) ops ?w = Some (ops @ xs, u)" "calm ?w u" "error_flow X reading n u" by blast
  then have p: "v_pending u did = Some (st\<lparr>pr_commits := []\<rparr>)" by (simp add: calm_def)
  have "drain_loop X reading now did ops v = drain_loop X reading now did (ops @ xs) u"
    by (subst drain_loop.simps) (use assms(1) False u in \<open>simp add: take_commits_def\<close>)
  then have "drain_loop X reading now did ops v = Some (ops @ xs, finish_resync_job did u)"
    using drain_once [OF p, of X reading now "ops @ xs"] by simp
  moreover have "event_flow X reading u" using calm_event_flow [OF u(2)] assms(3) by (simp add: event_flow_def event_room_def)
  ultimately show ?thesis
    using u(2,3) by (intro exI [of _ xs] exI [of _ "finish_resync_job did u"])
      (simp add: finish_resync_job_def error_flow_def event_flow_def event_room_def calm_def)
qed

text \<open>The end of a job: the read of the chain state, and the event.\<close>

lemma load_chain_flow:
  assumes "error_flow X reading 1 v" "event_flow X reading v"
  obtains rev w where "(case v_load_chain X did v of
      (Inr (Some chain), v) \<Rightarrow> Some (ch_rev chain, v)
    | (Inr None, v) \<Rightarrow> Some ([], v)
    | (Inl err, v) \<Rightarrow> map_option (Pair []) (await_async_error X reading err v)) = Some (rev, w)"
    "v_pending w = v_pending v" "event_flow X reading w" "v_closed w = v_closed v" "v_event_rx w = v_event_rx v"
proof (cases "fst (v_load_chain X did v)")
  case (Inl err)
  obtain w where "await_async_error X reading err v = Some w" "calm v w"
    using await_error_flow [of X reading 0 v err] assms(1) by auto
  then show thesis
    using that [of "[]" w] Inl assms(2) calm_event_flow [of v w] by (auto simp: v_load_chain_def calm_def)
next
  case (Inr q)
  then show thesis
    using that [of "case q of None \<Rightarrow> [] | Some chain \<Rightarrow> ch_rev chain" v] assms(2) by (auto simp: v_load_chain_def split: option.split)
qed

text \<open>
  C20. A resync job that runs undisturbed ends and leaves the repository free for another job, whatever
  the fetch gives and however many commits were queued, when its sends can go on: for either channel the verifier is
  closed, the consumer dropped the receiver or goes on receiving, or the channel has room for what the
  job may send, an error for every queued commit and one more, and one event. The job tells the
  outcome: the error that ended it, or an event with the operations of the resync, followed by those
  of the queued commits.
\<close>

theorem resync_job_ends:
  assumes "v_closed v \<or> v_error_rx v = RxDropped \<or> reading \<and> v_error_rx v = RxTaken \<or>
      length (v_errors v) + (case v_pending v did of Some st \<Rightarrow> length (pr_commits st) | None \<Rightarrow> 0) < channel_capacity X"
    and "v_closed v \<or> v_event_rx v = RxDropped \<or> reading \<and> v_event_rx v = RxTaken \<or> length (v_events v) < channel_capacity X"
  shows "\<exists>v'. run_resync_job X reading now source did v = Some v' \<and> v_pending v' did = None \<and>
    (v_pending v did \<noteq> None \<longrightarrow> \<not> v_closed v \<longrightarrow>
      (case fst (resync X now source did v) of
         Inl err \<Rightarrow> v_error_rx v \<noteq> RxDropped \<longrightarrow> (\<exists>es. v_errors v' = es @ [err])
       | Inr ops \<Rightarrow> v_event_rx v \<noteq> RxDropped \<longrightarrow>
           (\<exists>es event xs. v_events v' = es @ [event] \<and> re_did event = did \<and> re_ops event = ops @ xs)))"
proof (cases "v_pending v did")
  case None
  then show ?thesis by (simp add: run_resync_job_def)
next
  case (Some st)
  obtain r w where r: "resync X now source did v = (r, w)" by fastforce
  then have q: "queues w = queues v" using resync_keeps_queues [of X now source did v] by simp
  then have p: "v_pending w did = Some st" and same: "v_closed w = v_closed v" "v_event_rx w = v_event_rx v" "v_error_rx w = v_error_rx v"
    using Some by (simp_all add: channels_def)
  have f: "error_flow X reading (length (pr_commits st) + 1) w" "event_flow X reading w"
    using assms Some q by (auto simp: error_flow_def event_flow_def event_room_def channels_def)
  show ?thesis
  proof (cases r)
    case (Inl err)
    have "error_flow X reading (Suc 0) (finish_resync_job did w)" using f(1) by (auto simp: error_flow_def finish_resync_job_def)
    then obtain v' where v': "await_async_error X reading err (finish_resync_job did w) = Some v'" "calm (finish_resync_job did w) v'"
      "\<not> v_closed (finish_resync_job did w) \<Longrightarrow> v_error_rx (finish_resync_job did w) \<noteq> RxDropped \<Longrightarrow> \<exists>es. v_errors v' = es @ [err]"
      by (rule await_error_flow [of X reading 0 _ err]) (rule that, assumption+)
    have "run_resync_job X reading now source did v = Some v'" using r Inl Some v'(1) by (simp add: run_resync_job_def)
    then show ?thesis using v'(2,3) r Inl same by (simp add: calm_def finish_resync_job_def)
  next
    case (Inr ops)
    obtain xs u where u: "drain_loop X reading now did ops w = Some (ops @ xs, u)" "v_pending u did = None" "error_flow X reading 1 u"
      "event_flow X reading u" "v_closed u = v_closed w" "v_event_rx u = v_event_rx w"
      using drain_flow [OF p f, of now ops] by blast
    obtain rev x where x: "(case v_load_chain X did u of (Inr (Some chain), v) \<Rightarrow> Some (ch_rev chain, v) | (Inr None, v) \<Rightarrow> Some ([], v)
        | (Inl err, v) \<Rightarrow> map_option (Pair []) (await_async_error X reading err v)) = Some (rev, x)"
      "v_pending x = v_pending u" "event_flow X reading x" "v_closed x = v_closed u" "v_event_rx x = v_event_rx u"
      by (rule load_chain_flow [OF u(3,4)])
    let ?event = "\<lparr>re_did = did, re_old_rev = pr_old_rev st, re_new_rev = rev, re_reason = pr_reason st, re_ops = ops @ xs\<rparr>"
    obtain v' where v': "await_resync_event X reading ?event x = Some v'" "v_pending v' = v_pending x"
      "\<not> v_closed x \<Longrightarrow> v_event_rx x \<noteq> RxDropped \<Longrightarrow> \<exists>es. v_events v' = es @ [?event]"
      by (rule await_event_flow [OF x(3), of ?event]) (rule that, assumption+)
    have "run_resync_job X reading now source did v = Some v'"
      using r Inr Some u(1) x(1) v'(1) by (simp add: run_resync_job_def)
    moreover have "\<exists>es event xs. v_events v' = es @ [event] \<and> re_did event = did \<and> re_ops event = ops @ xs"
      if live: "\<not> v_closed v" "v_event_rx v \<noteq> RxDropped"
    proof -
      obtain es where "v_events v' = es @ [?event]" using v'(3) live same u(5,6) x(4,5) by auto
      then show ?thesis by (intro exI [of _ es] exI [of _ ?event] exI [of _ xs]) simp
    qed
    ultimately show ?thesis using r Inr v'(2) x(2) u(2) by simp
  qed
qed

text \<open>A full channel of one message, whose consumer receives.\<close>

definition full_verifier :: "(mem_state_store, unit) verifier" where
  "full_verifier = (verifier_new sample_states ())\<lparr>v_errors := [ResyncRateLimited sample_did], v_error_rx := RxTaken, v_event_rx := RxTaken,
     v_pending := [sample_did \<mapsto> \<lparr>pr_old_rev = None, pr_reason = ''chain break'', pr_commits = [create_commit]\<rparr>]\<rparr>"

definition narrow_ctx :: "(mem_state_store, unit) ctx" where
  "narrow_ctx = sample_ctx\<lparr>cx_opts := with_async_channel_capacity 0 sample_options\<rparr>"

theorem resync_job_ends_witness:
  "\<exists>v'. run_resync_job narrow_ctx True 0 None sample_did full_verifier = Some v' \<and> v_pending v' sample_did = None \<and>
    (\<exists>es err. v_errors v' = es @ [err]) \<and> \<not> error_room narrow_ctx full_verifier"
proof -
  have rx: "v_error_rx full_verifier = RxTaken" "v_event_rx full_verifier = RxTaken" "\<not> v_closed full_verifier" "v_pending full_verifier sample_did \<noteq> None"
    "\<not> error_room narrow_ctx full_verifier"
    by (simp_all add: full_verifier_def verifier_new_def error_room_def narrow_ctx_def channel_capacity_def with_async_channel_capacity_def)
  have "\<exists>err. fst (resync narrow_ctx 0 None sample_did full_verifier) = Inl err"
    by (simp add: resync_def resync_inner_def resync_fetch_def vbind_def vret_def check_hosting_gate_def allow_resync_def limit_enabled_def
        narrow_ctx_def sample_ctx_def sample_options_def default_options_def with_async_channel_capacity_def sample_f64_def f_zero_def
        resync_result_def Let_def wrap_resync_error_def)
  then obtain err where err: "fst (resync narrow_ctx 0 None sample_did full_verifier) = Inl err" ..
  have "\<exists>v'. run_resync_job narrow_ctx True 0 None sample_did full_verifier = Some v' \<and> v_pending v' sample_did = None \<and>
      (\<exists>es. v_errors v' = es @ [err])"
    using resync_job_ends [of full_verifier True sample_did narrow_ctx 0 None] rx err by simp
  then show ?thesis using rx(5) by blast
qed

text \<open>
  Without a reader a full channel stops the job: when the resync succeeds and the first queued commit
  fails, the job waits for ever in the send, before it removes the entry of the repository.
\<close>

lemma full_channel_stops_job:
  assumes "v_pending v did = Some st" "pr_commits st = c # cs" "\<not> error_room X v"
    and "resync X now source did v = (Inr ops, w)"
    and "fst (verify_commit_internal X now c False (w\<lparr>v_pending := (v_pending w)(did \<mapsto> st\<lparr>pr_commits := []\<rparr>)\<rparr>)) = Inl err"
  shows "run_resync_job X False now source did v = None"
proof -
  let ?w = "w\<lparr>v_pending := (v_pending w)(did \<mapsto> st\<lparr>pr_commits := []\<rparr>)\<rparr>"
  have q: "queues w = queues v" using resync_keeps_queues [of X now source did v] assms(4) by simp
  obtain u where u: "verify_commit_internal X now c False ?w = (Inl err, u)" using assms(5) by (metis prod.collapse)
  have "channels u = channels v" using job_commit_keeps_queues [of X now c ?w] u q by simp
  then have "\<not> error_room X u" using assms(3) by (simp add: error_room_def channels_def)
  then have "verify_pending X False now (c # cs) ops ?w = None" using u by (simp add: await_async_error_def)
  then have "drain_loop X False now did ops w = None"
    by (subst drain_loop.simps) (use assms(1,2) q in \<open>simp add: take_commits_def\<close>)
  then show ?thesis using assms(1,4) by (simp add: run_resync_job_def)
qed

text \<open>
  When the entry of the repository is gone, as after \<open>close\<close>, the loop never ends: it finds
  nothing to verify and nothing to remove.
\<close>

lemma drain_without_entry:
  assumes "v_pending v did = None"
  shows "drain_loop X reading now did ops v = None"
proof -
  have "v_pending v did \<noteq> None" if d: "drain_loop X reading now did ops v = Some r" for r
  proof (rule drain_loop.raw_induct [where P = "\<lambda>X reading now did ops v r. v_pending v did \<noteq> None", OF _ d])
    fix drain and X :: "('a, 'b) ctx" and reading now did ops v r
    assume ih: "\<And>X reading now did ops v r. drain X reading now did ops v = Some r \<Longrightarrow> v_pending v did \<noteq> None"
      and r: "(let (commits, v) = take_commits did v in
        if commits = [] then
          (if (case v_pending v did of Some state \<Rightarrow> pr_commits state = [] | None \<Rightarrow> False)
           then Some (ops, finish_resync_job did v) else drain X reading now did ops v)
        else Option.bind (verify_pending X reading now commits ops v) (\<lambda>r. drain X reading now did (fst r) (snd r))) = Some r"
    show "v_pending v did \<noteq> None"
      using r ih [of X reading now did ops v r] by (cases "v_pending v did") (simp_all add: take_commits_def)
  qed
  then show ?thesis using assms by (cases "drain_loop X reading now did ops v") auto
qed

section \<open>Queues stay bounded\<close>

text \<open>
  C26. A verifier's memory is bounded by its options. Whatever arrives, in any interleaving, no
  repository has more commits queued than the pending capacity, and the map of rate-limit buckets
  never holds more buckets than its capacity, a full map evicting one before it takes another.
\<close>

theorem queues_bounded:
  assumes "limiter_ok X" "vsteps X (verifier_new store ids) v"
  shows "(\<forall>d st. v_pending v d = Some st \<longrightarrow> length (pr_commits st) \<le> opt_pending_capacity (cx_opts X)) \<and>
    finite (dom (v_limiters v)) \<and> card (dom (v_limiters v)) \<le> opt_limiter_capacity (cx_opts X)"
proof -
  have "bounded X (verifier_new store ids)" by (simp add: bounded_def verifier_new_def)
  with assms(2) have "bounded X v" by (induction rule: rtranclp_induct) (simp_all add: step_bounded [OF assms(1)])
  then show ?thesis unfolding bounded_def .
qed

text \<open>An order in which a hash map may be visited.\<close>

definition some_order :: "(did \<Rightarrow> token_bucket option) \<Rightarrow> did list" where
  "some_order m = (SOME ds. set ds = dom m)"

definition limited_ctx :: "(mem_state_store, unit) ctx" where
  "limited_ctx = sample_ctx\<lparr>cx_opts := with_resync_limiter_capacity 1 (default_options \<lparr>per_second = 1, burst = 1\<rparr>), cx_order := some_order\<rparr>"

theorem queues_bounded_witness:
  "card (dom (v_limiters (snd (resync limited_ctx 0 None sample_did (verifier_new sample_states ()))))) \<le> 1"
proof -
  have "set (some_order m) = dom m" if "finite (dom m)" for m :: "did \<Rightarrow> token_bucket option"
    using someI_ex [OF finite_list [OF that]] by (simp add: some_order_def)
  then have ok: "limiter_ok limited_ctx" and cap: "opt_limiter_capacity (cx_opts limited_ctx) = 1"
    by (simp_all add: limiter_ok_def limited_ctx_def default_options_def with_resync_limiter_capacity_def)
  have run: "vsteps limited_ctx (verifier_new sample_states ()) (snd (resync limited_ctx 0 None sample_did (verifier_new sample_states ())))"
    using runs_resync unfolding runs_def by blast
  show ?thesis using queues_bounded [OF ok run] cap by simp
qed

end
