(* ===== verification/Sync_Delivery.thy ===== *)
theory Sync_Delivery
  imports Sync_Jobs
begin

text \<open>
  What a verifier delivers: the operations of a commit that passed every check, and what they say
  about the repository before and after.
\<close>

section \<open>The checks of a delivered commit\<close>

lemma handle_delivers_nothing: "handle_recoverable_resync X raw chain err allow v \<noteq> (Inr (Some ops), w)"
  by (simp add: handle_recoverable_resync_def)

lemma vbind_Inr: "vbind m f v = (Inr b, w) \<longleftrightarrow> (\<exists>a u. m v = (Inr a, u) \<and> f a u = (Inr b, w))"
  by (auto simp: vbind_def split: prod.splits sum.splits)

text \<open>A signature counts when a key the resolver gave for the repository verifies it.\<close>

definition signed_by_did :: "('s, 'i) ctx \<Rightarrow> did \<Rightarrow> commit \<Rightarrow> bool" where
  "signed_by_did X did inner \<longleftrightarrow> (\<exists>i key i'. lookup_did (cx_ids X) i did = (Inr (Some key), i') \<and> commit_verify key inner = Inr ())"

lemma verify_signature_ok: "verify_signature X did rv inner v = (Inr u, w) \<Longrightarrow> signed_by_did X did inner"
proof -
  have once: "signed_by_did X did inner" if "verify_signature_once X did inner a = (Inr b, c)" for a b c
    using that by (auto simp: verify_signature_once_def signed_by_did_def and_then_eq_Inr ok_or_def split: prod.splits option.splits)
  assume "verify_signature X did rv inner v = (Inr u, w)"
  then show ?thesis
    using once by (auto simp: verify_signature_def split: prod.splits sum.splits signature_attempt_error.splits)
qed

text \<open>The root the inversion must give when the chain is known.\<close>

definition chain_holds :: "('s, 'i) ctx \<Rightarrow> raw_commit \<Rightarrow> chain_state option \<Rightarrow> decoded_commit_car \<Rightarrow> bool" where
  "chain_holds X raw chain dc \<longleftrightarrow>
     (case chain of
        None \<Rightarrow> True
      | Some c \<Rightarrow>
          is_legacy_shape raw chain \<and> opt_legacy_policy (cx_opts X) = AcceptLegacy \<or>
          (\<exists>root. invert_decoded_commit (cx_env X) raw (dc_inner dc) (dc_store dc) = Inr root \<and> rc_prev_data raw = Some (ch_data c) \<and>
             (root = ch_data c \<or> opt_lenient (cx_opts X))))"

lemma chain_checked:
  assumes "previous_root X raw (dc_inner dc) (dc_store dc) chain v = (Inr root, w)" "check_chain X raw chain root w = (Inr None, u)"
  shows "chain_holds X raw chain dc"
proof (cases chain)
  case (Some c)
  show ?thesis
  proof (cases "is_legacy_shape raw chain")
    case True
    then show ?thesis
      using assms(1) Some by (cases "opt_legacy_policy (cx_opts X)") (auto simp: previous_root_def chain_holds_def)
  next
    case False
    then obtain r where "invert_decoded_commit (cx_env X) raw (dc_inner dc) (dc_store dc) = Inr r" "root = Some r"
      using assms(1) Some by (auto simp: previous_root_def and_then_eq_Inr)
    then show ?thesis
      using assms(2) Some
      by (auto simp: chain_holds_def check_chain_def Let_def break_outcome_def split: if_splits verifier_policy.splits)
  qed
qed (simp add: chain_holds_def)

text \<open>The delivered operations are those of the frame, with the records found in the archive.\<close>

definition delivered_op :: "raw_commit \<Rightarrow> car_block_store \<Rightarrow> raw_repo_op \<Rightarrow> verifier_op" where
  "delivered_op raw store op = \<lparr>vo_repo = rc_repo raw, vo_rev = rc_rev raw, vo_action = op_action op, vo_path = op_path op, vo_cid = op_cid op,
     vo_prev = op_prev op, vo_record = (case Option.bind (op_cid op) (car_get store) of Some bs \<Rightarrow> bs | None \<Rightarrow> [])\<rparr>"

lemma verifier_ops_map: "fst (verifier_ops raw store v) = map (delivered_op raw store) (rc_ops raw)"
proof -
  have "fst (verifier_ops_loop raw store ops v) = map (delivered_op raw store) ops" for ops v
    by (induction ops arbitrary: v) (auto simp: delivered_op_def Let_def case_prod_beta split: option.split)
  then show ?thesis by (simp add: verifier_ops_def)
qed

lemma delivered_checked:
  assumes "verify_commit X now raw v = (Inr (Some ops), v')"
  obtains chain dc where "load_chain (cx_state X) (v_store v) (rc_repo raw) = Inr chain"
    "is_rev_replay (rc_repo raw) (rc_rev raw) chain = Inr False" "decode_commit_car (cx_env X) raw = Inr dc"
    "chain_holds X raw chain dc" "c_did (dc_inner dc) = rc_repo raw" "c_rev (dc_inner dc) = rc_rev raw" "c_version (dc_inner dc) = 3"
    "signed_by_did X (rc_repo raw) (dc_inner dc)" "check_op_cids (cx_env X) raw (c_data (dc_inner dc)) (dc_store dc) = Inr ()"
    "ops = map (delivered_op raw (dc_store dc)) (rc_ops raw)"
proof -
  obtain v1 where v1: "verify_commit_locked X raw True v1 = (Inr (Some ops), v')" "frame v v1"
  proof -
    obtain u1 u2 where u: "reject_future_rev X now raw v = (Inr (), u1)" "reject_oversized raw u1 = (Inr (), u2)"
      "(case buffer_commit_if_resyncing X raw u2 of (True, v) \<Rightarrow> (Inr None, v) | (False, v) \<Rightarrow> verify_commit_locked X raw True v) = (Inr (Some ops), v')"
      using assms by (auto simp: verify_commit_def verify_commit_internal_def vbind_Inr)
    have "u1 = v" "u2 = u1" using u(1,2) by (auto simp: reject_future_rev_def reject_oversized_def split: if_splits)
    moreover obtain u3 where "buffer_commit_if_resyncing X raw u2 = (False, u3)" "verify_commit_locked X raw True u3 = (Inr (Some ops), v')"
      using u(3) by (auto split: prod.splits bool.splits)
    moreover from this(1) have "u3 = u2" by (auto simp: buffer_commit_if_resyncing_def split: if_splits option.splits)
    ultimately show thesis using that by simp
  qed
  obtain v2 chain v3 replay where k: "check_hosting_gate X (rc_repo raw) v1 = (Inr (), v2)" "v_load_chain X (rc_repo raw) v2 = (Inr chain, v3)"
    and r: "is_rev_replay (rc_repo raw) (rc_rev raw) chain = Inr replay" "verify_known X raw True chain replay v3 = (Inr (Some ops), v')"
    using v1(1) by (auto simp: verify_commit_locked_def vbind_Inr vret_def)
  have "\<not> replay" using r(2) by (auto simp: verify_known_def)
  with r have replay: "is_rev_replay (rc_repo raw) (rc_rev raw) chain = Inr False" and known: "verify_known X raw True chain False v3 = (Inr (Some ops), v')"
    by simp_all
  have f: "frame v v2" using quietD [OF quiet_gate, of X "rc_repo raw" v1 "Inr ()" v2] k(1) v1(2) frame_trans by blast
  then have load: "load_chain (cx_state X) (v_store v) (rc_repo raw) = Inr chain" using k(2) by (auto simp: v_load_chain_def frame_def)
  obtain dc where dc: "decode_commit_car (cx_env X) raw = Inr dc" "verify_decoded X raw True chain dc v3 = (Inr (Some ops), v')"
    using known by (auto simp: verify_known_def Let_def handle_delivers_nothing split: option.splits sum.splits if_splits)
  obtain root w1 ce w2 where c: "previous_root X raw (dc_inner dc) (dc_store dc) chain v3 = (Inr root, w1)" "check_chain X raw chain root w1 = (Inr ce, w2)"
    "check_commit X raw True chain dc ce w2 = (Inr (Some ops), v')"
    using dc(2) by (auto simp: verify_decoded_def handle_delivers_nothing split: prod.splits sum.splits)
  obtain w3 w4 where d: "check_fields raw (dc_inner dc) w2 = (Inr (), w3)" "verify_signature X (rc_repo raw) (rc_rev raw) (dc_inner dc) w3 = (Inr (), w4)"
    "(case check_op_cids (cx_env X) raw (c_data (dc_inner dc)) (dc_store dc) of
         Inl err \<Rightarrow> handle_recoverable_resync X raw chain err True (if is_op_cid_mismatch err then bump op_cid_mismatches_update w4 else w4)
       | Inr _ \<Rightarrow> deliver_commit X raw dc ce w4) = (Inr (Some ops), v')"
    using c(3) by (auto simp: check_commit_def vbind_Inr)
  have e: "check_op_cids (cx_env X) raw (c_data (dc_inner dc)) (dc_store dc) = Inr ()" "deliver_commit X raw dc ce w4 = (Inr (Some ops), v')"
    using d(3) by (auto simp: handle_delivers_nothing split: sum.splits)
  obtain w5 where s: "save_chain X raw (c_data (dc_inner dc)) ce w4 = (Inr (), w5)"
    "(case ce of Some err \<Rightarrow> (Inl err, w5)
      | None \<Rightarrow> (case verifier_ops raw (dc_store dc) (bump events_verified_update w5) of (ops, v) \<Rightarrow> (Inr (Some ops), v))) = (Inr (Some ops), v')"
    using e(2) by (auto simp: deliver_commit_def vbind_Inr)
  then have w5: "ce = None" "ops = fst (verifier_ops raw (dc_store dc) (bump events_verified_update w5))"
    by (auto split: option.splits prod.splits)
  have g: "c_did (dc_inner dc) = rc_repo raw" "c_rev (dc_inner dc) = rc_rev raw" "c_version (dc_inner dc) = 3"
    using d(1) by (auto simp: check_fields_def field_mismatch_def vret_def split: if_splits)
  have h: "chain_holds X raw chain dc" using chain_checked [OF c(1)] c(2) w5(1) by simp
  show thesis by (rule that [OF load replay dc(1) h g verify_signature_ok [OF d(2)] e(1) w5(2) [unfolded verifier_ops_map]])
qed

section \<open>What is delivered is the difference\<close>

text \<open>
  C1. What a strict verifier delivers. When it delivers the operations of a commit to a repository it
  knows, a key of the repository's DID signed the commit, its revision is newer than the stored
  one, and the operations are exactly the difference between the stored tree and the tree the
  commit signs: a created record was absent before, an updated or deleted one had the stated
  value, all now have the stated value, every record not listed is unchanged, and the bytes
  delivered with an operation are those its CID names. The sender chooses the frame and the
  archive freely; the hash has no second preimage of a node of the stored tree.
\<close>

theorem delivered_ops_are_difference:
  assumes "verify_commit X now raw v = (Inr (Some ops), v')"
    and "load_chain (cx_state X) (v_store v) (rc_repo raw) = Inr (Some c)" "ch_data c = merkle (compress256 (cx_env X)) prev"
    and "\<not> opt_lenient (cx_opts X)" "opt_legacy_policy (cx_opts X) = RejectLegacy"
    and "all_nodes (trusted (cx_env X) \<sigma>) prev" "platform_ok (cx_env X)" "ops_typed (rc_ops raw)"
    and "\<And>dc. decode_commit_car (cx_env X) raw = Inr dc \<Longrightarrow> new_tree_ok (cx_env X) \<sigma> raw dc"
  shows "\<exists>dc t. decode_commit_car (cx_env X) raw = Inr dc \<and> signed_by_did X (rc_repo raw) (dc_inner dc) \<and>
    c_did (dc_inner dc) = rc_repo raw \<and> c_rev (dc_inner dc) = rc_rev raw \<and>
    tid_try_from (ch_rev c) = Inr t \<and> as_u64 t < as_u64 (rc_rev raw) \<and>
    (\<forall>op \<in> set ops. map_of (inorder \<sigma> prev) (vo_path op) = (if vo_action op = lit ''create'' then None else vo_prev op) \<and>
      map_of (\<sigma> (c_data (dc_inner dc))) (vo_path op) = vo_cid op \<and>
      (\<forall>k. vo_cid op = Some k \<longrightarrow> vo_record op = [] \<or> cid_compute (compress256 (cx_env X)) (cid_codec k) (vo_record op) = k)) \<and>
    (\<forall>key. key \<notin> vo_path ` set ops \<longrightarrow> map_of (inorder \<sigma> prev) key = map_of (\<sigma> (c_data (dc_inner dc))) key)"
proof -
  let ?E = "cx_env X"
  obtain chain dc where d: "load_chain (cx_state X) (v_store v) (rc_repo raw) = Inr chain"
    "is_rev_replay (rc_repo raw) (rc_rev raw) chain = Inr False" "decode_commit_car ?E raw = Inr dc" "chain_holds X raw chain dc"
    "c_did (dc_inner dc) = rc_repo raw" "c_rev (dc_inner dc) = rc_rev raw" "signed_by_did X (rc_repo raw) (dc_inner dc)"
    "check_op_cids ?E raw (c_data (dc_inner dc)) (dc_store dc) = Inr ()" "ops = map (delivered_op raw (dc_store dc)) (rc_ops raw)"
    using delivered_checked [OF assms(1)] by metis
  have chain: "chain = Some c" using d(1) assms(2) by simp
  obtain t where t: "tid_try_from (ch_rev c) = Inr t" "as_u64 t < as_u64 (rc_rev raw)"
    using d(2) chain by (auto simp: is_rev_replay_def and_then_eq_Inr)
  have inv: "invert_decoded_commit ?E raw (dc_inner dc) (dc_store dc) = Inr (merkle (compress256 ?E) prev)"
    using d(4) chain assms(3-5) by (auto simp: chain_holds_def)
  note diff = verified_ops_are_difference [OF d(3) inv d(8) assms(6) assms(9) [OF d(3)] assms(7,8)]
  note ops = d(9)
  have rec: "vo_record (delivered_op raw (dc_store dc) op) = [] \<or> cid_compute (compress256 ?E) (cid_codec k) (vo_record (delivered_op raw (dc_store dc) op)) = k"
    if "op_cid op = Some k" for op k
    using that decode_commit_car_ok(3) [OF d(3), of k] by (auto simp: delivered_op_def car_get_def split: option.split)
  have "vo_path ` set ops = op_path ` set (rc_ops raw)" unfolding ops by (auto simp: delivered_op_def image_iff)
  then have rest: "\<forall>key. key \<notin> vo_path ` set ops \<longrightarrow> map_of (inorder \<sigma> prev) key = map_of (\<sigma> (c_data (dc_inner dc))) key"
    using diff by simp
  have "\<forall>op \<in> set ops. map_of (inorder \<sigma> prev) (vo_path op) = (if vo_action op = lit ''create'' then None else vo_prev op) \<and>
      map_of (\<sigma> (c_data (dc_inner dc))) (vo_path op) = vo_cid op \<and>
      (\<forall>k. vo_cid op = Some k \<longrightarrow> vo_record op = [] \<or> cid_compute (compress256 ?E) (cid_codec k) (vo_record op) = k)"
  proof
    fix op assume "op \<in> set ops"
    then obtain o1 where o1: "o1 \<in> set (rc_ops raw)" "op = delivered_op raw (dc_store dc) o1" by (auto simp: ops)
    have sel: "vo_path op = op_path o1" "vo_action op = op_action o1" "vo_cid op = op_cid o1" "vo_prev op = op_prev o1"
      by (simp_all add: o1(2) delivered_op_def)
    have d1: "map_of (inorder \<sigma> prev) (op_path o1) = (if op_action o1 = lit ''create'' then None else op_prev o1)"
      "map_of (\<sigma> (c_data (dc_inner dc))) (op_path o1) = op_cid o1"
      using diff o1(1) by blast+
    have d2: "vo_record op = [] \<or> cid_compute (compress256 ?E) (cid_codec k) (vo_record op) = k" if "op_cid o1 = Some k" for k
      using rec [OF that] o1(2) by simp
    show "map_of (inorder \<sigma> prev) (vo_path op) = (if vo_action op = lit ''create'' then None else vo_prev op) \<and>
      map_of (\<sigma> (c_data (dc_inner dc))) (vo_path op) = vo_cid op \<and>
      (\<forall>k. vo_cid op = Some k \<longrightarrow> vo_record op = [] \<or> cid_compute (compress256 ?E) (cid_codec k) (vo_record op) = k)"
      unfolding sel using d1 d2 by blast
  qed
  then show ?thesis using d(3,5-7) t rest by (intro exI [of _ dc] exI [of _ t]) (simp del: lit_Cons)
qed

section \<open>A delivered commit\<close>

definition empty_root :: cid where "empty_root = cid_compute sample_hash Drisl empty_block"

definition before_create :: "(mem_state_store, unit) verifier" where
  "before_create = verifier_new \<lparr>ms_chains = [sample_did \<mapsto> \<lparr>ch_rev = tid_fmt (Tid 3), ch_data = empty_root\<rparr>], ms_hosting = Map.empty\<rparr> ()"

lemma root_empty: "merkle sample_hash empty_node = empty_root"
  using encode_node_data_enc [of "\<lparr>nd_left = None, nd_entries = []\<rparr>"] by (simp add: empty_node_def empty_block_def empty_root_def)

lemma create_size: "length (rc_blocks create_commit) \<le> MAX_COMMIT_BLOCKS_BYTES"
proof -
  have v: "cid_valid sample_commit_cid" "cid_valid new_data" unfolding sample_commit_cid_def new_data_def by (rule sample_cid_valid)+
  have "length (tag42 sample_commit_cid) = 41" using v(1) by (simp add: tag42_def cid_to_tag42_bytes_def cid_to_bytes_def cid_valid_def)
  then have h: "length (enc (header_value [sample_commit_cid])) \<le> 1000" by (simp add: header_value_def head_def enc_text_def)
  have leb: "length (leb n) \<le> 10" if "n < 2 ^ 63" for n using leb_length [of n 10] that by simp
  have e: "length (enc_block b) \<le> 10 + 36 + length (b_data b)" if "cid_valid (b_cid b)" "length (b_data b) < 2 ^ 62" for b
    using that leb [of "length (block_frame b)"] by (simp add: enc_block_frame block_frame_def)
  have "length (enc_block \<lparr>b_cid = sample_commit_cid, b_data = sample_commit_block\<rparr>) \<le> 46 + 2 ^ 20"
    using e [of "\<lparr>b_cid = sample_commit_cid, b_data = sample_commit_block\<rparr>"] v(1) commit_block_length by simp
  moreover have "length (enc_block \<lparr>b_cid = new_data, b_data = leaf_block\<rparr>) \<le> 246"
    using e [of "\<lparr>b_cid = new_data, b_data = leaf_block\<rparr>"] v(2) block_lengths(1) by simp
  moreover have "length (leb (length (enc (header_value [sample_commit_cid])))) \<le> 10" using leb h by simp
  ultimately show ?thesis
    using h by (simp add: create_commit_def create_blocks_def car_bytes_def MAX_COMMIT_BLOCKS_BYTES_def)
qed

lemma create_checks:
  "check_fields create_commit new_commit v = (Inr (), v)" "verify_signature sample_ctx sample_did t new_commit v = (Inr (), v)"
proof -
  show "check_fields create_commit new_commit v = (Inr (), v)"
    by (simp add: check_fields_def create_commit_def new_commit_def sample_commit_def vret_def)
  have "length (did_as_str (c_did new_commit)) < 2 ^ 64" using commit_okD(2) [OF new_commit_ok] by simp
  then have "\<exists>bs. unsigned_bytes new_commit = Inr bs" by (simp add: unsigned_bytes_enc)
  then have "commit_verify (\<lambda>_ _. Inr ()) new_commit = Inr ()"
    by (auto simp: commit_verify_def ok_or_def new_commit_def sample_commit_def)
  then show "verify_signature sample_ctx sample_did t new_commit v = (Inr (), v)"
    by (simp add: verify_signature_def verify_signature_once_def sample_ctx_def sample_key_ops_def ok_or_def)
qed

lemma create_delivered:
  "\<exists>v'. verify_commit sample_ctx 0 create_commit before_create = (Inr (Some [delivered_op create_commit sample_store create_op]), v')"
proof -
  let ?X = sample_ctx and ?raw = create_commit and ?v = before_create
  let ?c = "\<lparr>ch_rev = tid_fmt (Tid 3), ch_data = empty_root\<rparr>"
  have sel: "rc_repo ?raw = sample_did" "rc_rev ?raw = Tid 7" "rc_ops ?raw = [create_op]" "rc_prev_data ?raw = Some empty_root"
    by (simp_all add: create_commit_def empty_root_def)
  have X: "cx_env ?X = sync_env" "opt_workers (cx_opts ?X) = 0" "opt_hosting_policy (cx_opts ?X) = Track" "cx_state ?X = mem_state_ops"
    by (simp_all add: sample_ctx_def sample_options_def default_options_def)
  have guards: "reject_future_rev ?X 0 ?raw ?v = (Inr (), ?v)" "reject_oversized ?raw ?v = (Inr (), ?v)"
    "buffer_commit_if_resyncing ?X ?raw ?v = (False, ?v)" "check_hosting_gate ?X sample_did ?v = (Inr (), ?v)"
    using create_size
    by (simp_all add: reject_future_rev_def is_future_def sel timestamp_micros_def reject_oversized_def MAX_COMMIT_OPS_def
        buffer_commit_if_resyncing_def X check_hosting_gate_def vret_def)
  have load: "v_load_chain ?X sample_did ?v = (Inr (Some ?c), ?v)"
    by (simp add: v_load_chain_def X mem_state_ops_def mem_load_chain_def before_create_def verifier_new_def)
  have fresh: "is_rev_replay sample_did (Tid 7) (Some ?c) = Inr False" using tid_fmt_parse [of 3] by (simp add: is_rev_replay_def)
  have prev: "previous_root ?X ?raw new_commit sample_store (Some ?c) ?v = (Inr (Some empty_root), ?v)"
    using sample_inverts root_empty by (simp add: previous_root_def is_legacy_shape_def sel X)
  have chain: "check_chain ?X ?raw (Some ?c) (Some empty_root) ?v = (Inr None, ?v)" by (simp add: check_chain_def sel)
  have new: "c_data new_commit = new_data" by (simp add: new_commit_def)
  obtain w where save: "save_chain ?X ?raw new_data None ?v = (Inr (), w)"
    by (simp add: save_chain_def v_save_chain_def X mem_state_ops_def mem_save_chain_def)
  have "fst (verifier_ops ?raw sample_store (bump events_verified_update w)) = [delivered_op ?raw sample_store create_op]"
    by (simp add: verifier_ops_map sel)
  then obtain v' where "verifier_ops ?raw sample_store (bump events_verified_update w) = ([delivered_op ?raw sample_store create_op], v')"
    by (cases "verifier_ops ?raw sample_store (bump events_verified_update w)") simp
  then have "deliver_commit ?X ?raw sample_decoded None ?v = (Inr (Some [delivered_op ?raw sample_store create_op]), v')"
    using save by (simp add: deliver_commit_def vbind_def sample_decoded_def new)
  then have "check_commit ?X ?raw True (Some ?c) sample_decoded None ?v = (Inr (Some [delivered_op ?raw sample_store create_op]), v')"
    using create_checks sample_checked by (simp add: check_commit_def vbind_def sel X sample_decoded_def new)
  then have "verify_decoded ?X ?raw True (Some ?c) sample_decoded ?v = (Inr (Some [delivered_op ?raw sample_store create_op]), v')"
    using prev chain by (simp add: verify_decoded_def) (simp add: sample_decoded_def)
  then have "verify_known ?X ?raw True (Some ?c) False ?v = (Inr (Some [delivered_op ?raw sample_store create_op]), v')"
    using sample_decode by (simp add: verify_known_def X sel find_duplicate_path_def)
  then show ?thesis
    using guards load fresh by (simp add: verify_commit_def verify_commit_internal_def verify_commit_locked_def vbind_def vret_def sel)
qed

theorem delivered_ops_are_difference_witness:
  "\<exists>ops v' dc t. verify_commit sample_ctx 0 create_commit before_create = (Inr (Some ops), v') \<and>
     decode_commit_car sync_env create_commit = Inr dc \<and> signed_by_did sample_ctx sample_did (dc_inner dc) \<and>
     tid_try_from (tid_fmt (Tid 3)) = Inr t \<and> as_u64 t < as_u64 (Tid 7) \<and>
     map_of (inorder sample_contents empty_node) (lit ''a/b'') = None \<and>
     map_of (sample_contents (c_data (dc_inner dc))) (lit ''a/b'') = Some cid_zeroed"
proof -
  let ?op = "delivered_op create_commit sample_store create_op"
  obtain v' where v': "verify_commit sample_ctx 0 create_commit before_create = (Inr (Some [?op]), v')" using create_delivered by blast
  have sel: "rc_repo create_commit = sample_did" "rc_rev create_commit = Tid 7" "rc_ops create_commit = [create_op]"
    by (simp_all add: create_commit_def)
  have env: "cx_env sample_ctx = sync_env" "compress256 sync_env = sample_hash" "\<not> opt_lenient (cx_opts sample_ctx)"
    "opt_legacy_policy (cx_opts sample_ctx) = RejectLegacy"
    by (simp_all add: sample_ctx_def sync_env_def sample_options_def default_options_def)
  have load: "load_chain (cx_state sample_ctx) (v_store before_create) (rc_repo create_commit) =
      Inr (Some \<lparr>ch_rev = tid_fmt (Tid 3), ch_data = empty_root\<rparr>)"
    by (simp add: sel sample_ctx_def mem_state_ops_def mem_load_chain_def before_create_def verifier_new_def)
  have typed: "ops_typed (rc_ops create_commit)" by (simp add: ops_typed_def sel create_op_def cid_opt_valid_def)
  have new: "new_tree_ok (cx_env sample_ctx) sample_contents create_commit dc" if "decode_commit_car (cx_env sample_ctx) create_commit = Inr dc" for dc
    using that sample_decode sample_tree_ok by (simp add: env)
  have op: "vo_path ?op = lit ''a/b''" "vo_action ?op = lit ''create''" "vo_cid ?op = Some cid_zeroed" by (simp_all add: delivered_op_def create_op_def)
  have prev: "ch_data \<lparr>ch_rev = tid_fmt (Tid 3), ch_data = empty_root\<rparr> = merkle (compress256 (cx_env sample_ctx)) empty_node"
    using root_empty by (simp add: env)
  have tree: "all_nodes (trusted (cx_env sample_ctx) sample_contents) empty_node" "platform_ok (cx_env sample_ctx)"
    using sample_trusted sample_platform by (simp_all add: env)
  obtain dc t where dc: "decode_commit_car sync_env create_commit = Inr dc" "signed_by_did sample_ctx sample_did (dc_inner dc)"
    "tid_try_from (tid_fmt (Tid 3)) = Inr t" "as_u64 t < as_u64 (Tid 7)"
    "\<forall>op \<in> set [?op]. map_of (inorder sample_contents empty_node) (vo_path op) = (if vo_action op = lit ''create'' then None else vo_prev op) \<and>
      map_of (sample_contents (c_data (dc_inner dc))) (vo_path op) = vo_cid op"
    using delivered_ops_are_difference [OF v' load prev env(3,4) tree typed new] unfolding env sel chain_state.simps by blast
  then show ?thesis using v' op by (intro exI conjI) (assumption | simp del: lit_Cons)+
qed

section \<open>Lenient inversion\<close>

lemma check_commit_error: "check_commit X raw allow chain dc (Some err) v \<noteq> (Inr (Some ops), w)"
  by (auto simp: check_commit_def deliver_commit_def vbind_Inr handle_delivers_nothing split: sum.splits)

lemma check_commit_error_fst: "fst (check_commit X raw allow chain dc (Some err) v) \<noteq> Inr (Some ops)"
  using check_commit_error [of X raw allow chain dc err v ops] by (metis prod.collapse)

lemma handle_delivers_nothing_fst: "fst (handle_recoverable_resync X raw chain err allow v) \<noteq> Inr (Some ops)"
  by (simp add: handle_recoverable_resync_def)

text \<open>
  C25. What lenient inversion accepts. For a frame whose \<open>prevData\<close> is the stored root, undoing the
  operations gives a root or fails. The stored root goes on to the other checks. Another root goes
  on too under the default options, where the mismatch is only counted: the operations are then not
  those that lead from the stored tree to the new one. In strict mode it delivers nothing. A commit
  whose inversion fails, for instance for missing blocks, delivers nothing whatever the option.
\<close>

theorem lenient_inversion:
  assumes "rc_prev_data raw = Some (ch_data c)"
  shows "case invert_decoded_commit (cx_env X) raw (dc_inner dc) (dc_store dc) of
      Inr root \<Rightarrow>
        if root = ch_data c then verify_decoded X raw allow (Some c) dc v = check_commit X raw allow (Some c) dc None v
        else if opt_lenient (cx_opts X)
        then verify_decoded X raw allow (Some c) dc v = check_commit X raw allow (Some c) dc None (bump inversion_incomplete_update v)
        else \<forall>ops. fst (verify_decoded X raw allow (Some c) dc v) \<noteq> Inr (Some ops)
    | Inl e \<Rightarrow> \<forall>ops. fst (verify_decoded X raw allow (Some c) dc v) \<noteq> Inr (Some ops)"
proof (cases "invert_decoded_commit (cx_env X) raw (dc_inner dc) (dc_store dc)")
  case (Inl e)
  then have "previous_root X raw (dc_inner dc) (dc_store dc) (Some c) v = (Inl e, v)"
    using assms by (simp add: previous_root_def is_legacy_shape_def)
  then show ?thesis using Inl by (simp add: verify_decoded_def handle_delivers_nothing_fst)
next
  case (Inr root)
  then have "previous_root X raw (dc_inner dc) (dc_store dc) (Some c) v = (Inr (Some root), v)"
    using assms by (simp add: previous_root_def is_legacy_shape_def)
  then show ?thesis
    using Inr assms
    by (simp add: verify_decoded_def check_chain_def break_outcome_def handle_delivers_nothing_fst check_commit_error_fst
        split: verifier_policy.split)
qed

lemma empty_inverts: "invert_decoded_commit sync_env (create_commit\<lparr>rc_ops := []\<rparr>) new_commit sample_store = Inr new_data"
proof -
  have "write_node (compress256 sync_env) (stub new_data 0) [] = Inr (new_data, stub new_data 0, [])"
    by (subst stub_def) (subst write_node.simps, simp add: stub_def)
  then have "tree_flush sync_env (tree_load new_data) =
      (Inr \<lparr>w_root = new_data, w_new_blocks = [], w_retired = []\<rparr>, tree_load new_data)"
    by (simp add: tree_flush_def guarded_def check_usable_def tree_load_def tree_new_def settle_def Let_def)
  then show ?thesis
    by (simp add: invert_decoded_commit_def find_duplicate_path_def new_commit_def st_load_def st_root_cid_def)
qed

theorem lenient_inversion_witness:
  "verify_decoded (sample_ctx\<lparr>cx_opts := sample_options\<lparr>opt_lenient := True\<rparr>\<rparr>) (create_commit\<lparr>rc_ops := []\<rparr>) False
      (Some \<lparr>ch_rev = [], ch_data = empty_root\<rparr>) sample_decoded before_create =
    check_commit (sample_ctx\<lparr>cx_opts := sample_options\<lparr>opt_lenient := True\<rparr>\<rparr>) (create_commit\<lparr>rc_ops := []\<rparr>) False
      (Some \<lparr>ch_rev = [], ch_data = empty_root\<rparr>) sample_decoded None (bump inversion_incomplete_update before_create)"
proof -
  have "rc_prev_data (create_commit\<lparr>rc_ops := []\<rparr>) = Some (ch_data \<lparr>ch_rev = [], ch_data = empty_root\<rparr>)"
    by (simp add: create_commit_def empty_root_def)
  note l = lenient_inversion [OF this, where X = "sample_ctx\<lparr>cx_opts := sample_options\<lparr>opt_lenient := True\<rparr>\<rparr>"
      and dc = sample_decoded and allow = False and v = before_create]
  have e: "cx_env (sample_ctx\<lparr>cx_opts := sample_options\<lparr>opt_lenient := True\<rparr>\<rparr>) = sync_env" by (simp add: sample_ctx_def)
  have d: "dc_inner sample_decoded = new_commit" "dc_store sample_decoded = sample_store" by (simp_all add: sample_decoded_def)
  have n: "new_data \<noteq> empty_root" using sample_cids by (simp add: empty_root_def)
  show ?thesis using l n unfolding e d empty_inverts by simp
qed

end
