(* ===== verification/Repo_Sample.thy ===== *)
theory Repo_Sample
  imports Sync_Sample Mst_Store
begin

text \<open>
  A concrete repository of one record, \<open>a.b.c/x\<close>, and the blocks of its commit: what the record
  proofs and the repository operations are tried on.
\<close>

section \<open>The blocks\<close>

definition sample_record_bytes :: bytes where "sample_record_bytes = [0xa0]"

text \<open>The digest the test hash gives the record.\<close>

definition sample_record_cid :: cid where "sample_record_cid = Cid Drisl (concat (replicate 8 [0, 0, 0, 1]))"

definition sample_root_data :: node_data where
  "sample_root_data = \<lparr>nd_left = None, nd_entries = [\<lparr>prefix_len = 0, key_suffix = lit ''a.b.c/x'', ed_value = sample_record_cid, ed_right = None\<rparr>]\<rparr>"

definition sample_root_block :: bytes where "sample_root_block = enc (node_value sample_root_data)"

definition sample_repo_hash :: compress_fn where
  "sample_repo_hash = test_compress (two_block_digest sample_record_bytes sample_root_block)"

definition sample_root_cid :: cid where "sample_root_cid = cid_compute sample_repo_hash Drisl sample_root_block"

definition sample_head_commit :: commit where "sample_head_commit = sample_commit\<lparr>c_data := sample_root_cid\<rparr>"

definition sample_head_block :: bytes where "sample_head_block = enc (Map (signed_entries sample_head_commit (replicate 64 1)))"

definition sample_head_cid :: cid where "sample_head_cid = cid_compute sample_repo_hash Drisl sample_head_block"

definition sample_repo_blocks :: "cid \<rightharpoonup> bytes" where
  "sample_repo_blocks = [sample_record_cid \<mapsto> sample_record_bytes, sample_root_cid \<mapsto> sample_root_block, sample_head_cid \<mapsto> sample_head_block]"

definition sample_repo_env :: env where
  "sample_repo_env = \<lparr>read_block = map_read_block sample_repo_blocks, simd_utf8 = (\<lambda>_. True), compress256 = sample_repo_hash\<rparr>"

section \<open>Their digests\<close>

lemma repo_block_lengths: "length sample_record_bytes \<le> 200" "length sample_root_block \<le> 200"
  by (simp_all add: sample_record_bytes_def sample_root_block_def sample_root_data_def node_value_def entry_value_def cid_or_null_def enc_text_def head_def tag42_def
      cid_to_tag42_bytes_def cid_to_bytes_def sample_record_cid_def eval_nat_numeral)

lemma repo_sha: "sha256 sample_repo_hash data = concat (replicate 8 (to_be_bytes 4
    (if data = sample_record_bytes then 1 else if data = sample_root_block then 2 else 0xffffffff :: u32)))"
  unfolding sample_repo_hash_def by (rule two_block_sha [OF repo_block_lengths])

lemma repo_platform: "platform_ok sample_repo_env"
proof -
  have "length (sha256 sample_repo_hash data) = 32" for data
    unfolding repo_sha by (simp add: numeral_eq_Suc)
  then show ?thesis by (simp add: platform_ok_def sample_repo_env_def ascii_keys_def)
qed

lemma repo_cid_valid: "cid_valid (cid_compute sample_repo_hash Drisl data)"
  using repo_platform by (simp add: platform_ok_def sample_repo_env_def cid_valid_def cid_compute_def)

lemma record_hashes: "cid_compute sample_repo_hash Drisl sample_record_bytes = sample_record_cid"
  by (simp add: cid_compute_def repo_sha sample_record_cid_def digest_bytes eight)

lemma record_codec [simp]: "cid_codec sample_record_cid = Drisl"
  by (simp add: sample_record_cid_def)

lemma record_decodes: "decode (\<lambda>_. True) sample_record_bytes = Inr (Map [])"
proof -
  have "enc (Map []) = sample_record_bytes" by (simp add: sample_record_bytes_def head_def)
  then show ?thesis using decode_iff [of sample_record_bytes "\<lambda>_. True" "Map []"] repo_block_lengths by (simp add: MAX_DEPTH_def)
qed

lemma root_data_ok: "node_ok sample_root_data"
  by (simp add: node_ok_def sample_root_data_def entry_ok_def MAX_KEY_LEN_def MAX_ENTRIES_PER_NODE_def cid_opt_valid_def cid_valid_def sample_record_cid_def eval_nat_numeral)

lemma root_decodes: "decode_node_data (\<lambda>_. True) sample_root_block = Inr sample_root_data"
  unfolding sample_root_block_def by (rule decode_node_value [OF root_data_ok]) (simp add: ascii_keys_def)

lemma record_key_valid: "is_valid_key (lit ''a.b.c/x'')"
  by (simp add: is_valid_key_def key_byte_def ascii_defs of_char_def MAX_KEY_LEN_def)

lemma root_keys: "for_each_key None (nd_entries sample_root_data) = Inr [lit ''a.b.c/x'']"
  using for_each_key_links [of "[(lit ''a.b.c/x'', sample_record_cid, None)]"] record_key_valid by (simp add: sample_root_data_def)

lemma head_ok: "commit_ok sample_head_commit"
  using sample_commit_ok repo_cid_valid by (auto simp: commit_ok_def sample_head_commit_def sample_root_cid_def)

lemma head_decodes: "from_cbor (\<lambda>_. True) sample_head_block = Inr sample_head_commit"
  unfolding sample_head_block_def
  by (rule from_cbor_signed [OF head_ok]) (simp_all add: sample_head_commit_def sample_commit_def accepts_ascii_def)

lemma head_value: "decode (\<lambda>_. True) sample_head_block = Inr (Map (signed_entries sample_head_commit (replicate 64 1)))"
  unfolding sample_head_block_def by (rule entries_decode [OF head_ok]) (auto simp: accepts_ascii_def intro!: exI [of _ "replicate 64 1"])

lemma repo_blocks_distinct: "sample_root_block \<noteq> sample_record_bytes" "sample_head_block \<noteq> sample_record_bytes" "sample_head_block \<noteq> sample_root_block"
proof -
  have "decode_node_data (\<lambda>_. True) sample_record_bytes \<noteq> Inr sample_root_data"
    using record_decodes by (simp add: decode_node_data_def sample_root_data_def)
  then show "sample_root_block \<noteq> sample_record_bytes" using root_decodes by metis
  show "sample_head_block \<noteq> sample_record_bytes" using record_decodes head_value by (auto simp: signed_entries_def)
  have "decode_node_data (\<lambda>_. True) sample_head_block \<noteq> Inr nd" for nd
    using head_value by (simp add: decode_node_data_def signed_entries_def of_char_def)
  then show "sample_head_block \<noteq> sample_root_block" using root_decodes by metis
qed

lemma repo_cids: "sample_root_cid \<noteq> sample_record_cid" "sample_head_cid \<noteq> sample_record_cid" "sample_head_cid \<noteq> sample_root_cid"
  using repo_blocks_distinct by (simp_all add: sample_head_cid_def sample_root_cid_def sample_record_cid_def cid_compute_def repo_sha digest_bytes eight)

section \<open>The tree\<close>

lemma repo_reads: "read_block sample_repo_env c = Inr (if c = sample_head_cid then Some sample_head_block else if c = sample_root_cid then Some sample_root_block
    else if c = sample_record_cid then Some sample_record_bytes else None)"
  by (simp add: sample_repo_env_def map_read_block_def sample_repo_blocks_def)

lemma sample_repo_env_sel [simp]: "simd_utf8 sample_repo_env = (\<lambda>_. True)" "compress256 sample_repo_env = sample_repo_hash"
  by (simp_all add: sample_repo_env_def)

lemma head_block_length: "length sample_head_block \<le> 2 ^ 20"
proof -
  have "length (tag42 sample_root_cid) = 41"
    using repo_cid_valid by (simp add: sample_root_cid_def tag42_def cid_to_tag42_bytes_def cid_to_bytes_def cid_valid_def)
  moreover have "length (did_as_str sample_did) \<le> 2048" using commit_okD(2) [OF sample_commit_ok] by (simp add: sample_commit_def)
  ultimately show ?thesis
    using length_enc_text [of "did_as_str sample_did"] length_enc_text [of "tid_fmt (Tid 7)"]
    by (simp add: sample_head_block_def sample_head_commit_def sample_commit_def signed_entries_def prev_value_def)
      (simp add: enc_text_def head_def)
qed

lemma repo_verified: "blocks_verified sample_repo_env"
  using repo_block_lengths head_block_length record_hashes
  by (auto simp: blocks_verified_def repo_reads sample_root_cid_def sample_head_cid_def cid_compute_def split: if_splits)

definition sample_root_node :: node where
  "sample_root_node = Node None [Entry (lit ''a.b.c/x'') sample_record_cid None] (Some sample_root_cid) (height_for_key sample_repo_hash (lit ''a.b.c/x'')) True"

lemma root_loads: "load_node sample_repo_env ROOT (stub sample_root_cid 0) refs = (Inr None, sample_root_node, refs)"
proof -
  have "populate_node sample_repo_env (stub sample_root_cid 0) sample_root_data ROOT = Inr sample_root_node"
    by (simp add: populate_node_def root_keys sample_root_node_def ROOT_def admits_def stub_def del: lit_Cons) (simp add: sample_root_data_def)
  moreover have "node_links sample_root_data = []" by (simp add: node_links_def sample_root_data_def)
  moreover have "read_block sample_repo_env sample_root_cid = Inr (Some sample_root_block)" using repo_cids by (simp add: repo_reads)
  ultimately show ?thesis using root_decodes by (simp add: load_node_def stub_def ROOT_def)
qed

lemma root_scan: "scan_entries (nentries sample_root_node) (lit ''a.b.c/x'') = 0"
  by (simp add: sample_root_node_def scan_entries_lower_bound del: lit_Cons)

lemma repo_get: "tree_get sample_repo_env (lit ''a.b.c/x'') (tree_load sample_root_cid) = (Inr (Some sample_record_cid), (tree_load sample_root_cid)\<lparr>t_root := Some sample_root_node\<rparr>)"
  by (simp add: tree_get_def guarded_def check_usable_def tree_load_def tree_new_def get_node.simps [of _ ROOT]
      ensure_loaded_def root_loads root_scan del: lit_Cons) (simp add: sample_root_node_def del: lit_Cons)

text \<open>The tree in full, as its owner has it in memory.\<close>

definition owned_root :: node where
  "owned_root = Node None [Entry (lit ''a.b.c/x'') sample_record_cid None] None (height_for_key sample_repo_hash (lit ''a.b.c/x'')) True"

definition sample_repo_contents :: contents where
  "sample_repo_contents c = (if c = sample_root_cid then [(lit ''a.b.c/x'', sample_record_cid)] else [])"

lemma owned_merkle: "merkle sample_repo_hash owned_root = sample_root_cid" "block_of (mlinks sample_repo_hash owned_root) = sample_root_block"
proof -
  have l: "mlinks sample_repo_hash owned_root = (None, [(lit ''a.b.c/x'', sample_record_cid, None)])" by (simp add: owned_root_def mlinks_def)
  show "block_of (mlinks sample_repo_hash owned_root) = sample_root_block"
    unfolding l using block_of_enc [of "(None, [(lit ''a.b.c/x'', sample_record_cid, None)])"] record_key_valid repo_cid_valid [of sample_record_bytes] record_hashes
    by (simp add: links_ok_def cid_opt_valid_def links_data_def sample_root_block_def sample_root_data_def MAX_ENTRIES_PER_NODE_def MAX_KEY_LEN_def del: lit_Cons)
  then show "merkle sample_repo_hash owned_root = sample_root_cid" using merkle_block [of owned_root sample_repo_hash] by (simp add: sample_root_cid_def) (simp add: owned_root_def)
qed

lemma owned_trusted: "all_nodes (trusted sample_repo_env sample_repo_contents) owned_root" "ksorted (inorder sample_repo_contents owned_root)"
  "inorder sample_repo_contents owned_root = [(lit ''a.b.c/x'', sample_record_cid)]"
proof -
  have "data = sample_root_block" if "cid_compute sample_repo_hash Drisl data = sample_root_cid" for data
    using that by (auto simp: sample_root_cid_def cid_compute_def repo_sha digest_bytes eight repo_blocks_distinct split: if_splits)
  moreover have "cid_valid sample_record_cid" using repo_cid_valid [of sample_record_bytes] record_hashes by simp
  ultimately have "trusted sample_repo_env sample_repo_contents owned_root"
    using owned_merkle record_key_valid
    by (simp add: trusted_def sample_repo_contents_def owned_root_def MAX_ENTRIES_PER_NODE_def del: lit_Cons)
  then show "all_nodes (trusted sample_repo_env sample_repo_contents) owned_root" by (simp add: owned_root_def)
  show "ksorted (inorder sample_repo_contents owned_root)" "inorder sample_repo_contents owned_root = [(lit ''a.b.c/x'', sample_record_cid)]"
    by (simp_all add: owned_root_def)
qed

end
