(* ===== verification/Repo_Store.thy ===== *)
theory Repo_Store
  imports Repo_Commit Mst_Store Car_Correct Syntax_Nsid
begin

text \<open>
  Repository stores (\<open>src/src/repo/store.rs\<close>): the trait a \<open>Repo\<close> persists its commits through, as a
  record of operations on a state and its contract as the locale \<open>repo_store\<close>, the in-memory
  implementation, and what a commit hands to it. A \<open>BTreeMap\<close> is the list of its pairs in key order
  (\<open>upd_list\<close> inserts), a \<open>HashMap\<close> a function.
\<close>

section \<open>Commits as a store sees them\<close>

datatype record_action = RecordCreate | RecordUpdate | RecordDelete

fun record_action_as_str :: "record_action \<Rightarrow> str" where
  "record_action_as_str RecordCreate = lit ''create''"
| "record_action_as_str RecordUpdate = lit ''update''"
| "record_action_as_str RecordDelete = lit ''delete''"

record record_op =
  ro_action :: record_action
  ro_collection :: nsid
  ro_rkey :: record_key
  ro_cid :: "cid option"
  ro_prev :: "cid option"

definition mst_key :: "nsid \<Rightarrow> record_key \<Rightarrow> str" where
  "mst_key collection rkey = nsid_as_str collection @ [0x2f] @ recordkey_as_str rkey"

definition record_op_path :: "record_op \<Rightarrow> str" where
  "record_op_path op = mst_key (ro_collection op) (ro_rkey op)"

datatype write_op =
    WriteCreate nsid record_key bytes
  | WriteUpdate nsid record_key bytes
  | WriteDelete nsid record_key

fun write_path :: "write_op \<Rightarrow> nsid \<times> record_key" where
  "write_path (WriteCreate collection rkey _) = (collection, rkey)"
| "write_path (WriteUpdate collection rkey _) = (collection, rkey)"
| "write_path (WriteDelete collection rkey) = (collection, rkey)"

type_synonym block_map = "(cid \<times> bytes) list"

record commit_data =
  cd_cid :: cid
  cd_commit :: commit
  cd_since :: "tid option"
  cd_prev :: "cid option"
  cd_prev_data :: "cid option"
  cd_new_blocks :: block_map
  cd_relevant_blocks :: block_map
  cd_removed_cids :: "cid list"
  cd_ops :: "record_op list"

definition commit_data_rev :: "commit_data \<Rightarrow> tid" where
  "commit_data_rev d = c_rev (cd_commit d)"

definition relevant_car :: "commit_data \<Rightarrow> car_error + bytes" where
  "relevant_car d = write_all [cd_cid d] (map (\<lambda>(c, data). \<lparr>b_cid = c, b_data = data\<rparr>) (cd_relevant_blocks d))"

section \<open>The trait and its in-memory implementation\<close>

text \<open>\<open>borrow_block\<close> is \<open>get_block\<close> without the copy.\<close>

record 's repo_store_ops =
  rs_get_block :: "'s \<Rightarrow> cid \<Rightarrow> string + bytes option"
  rs_head :: "'s \<Rightarrow> string + cid option"
  rs_apply_commit :: "'s \<Rightarrow> commit_data \<Rightarrow> (string + unit) \<times> 's"

record mem_repo_store =
  ms_blocks :: "cid \<rightharpoonup> bytes"
  ms_head :: "cid option"

definition mem_repo_new :: mem_repo_store where
  "mem_repo_new = \<lparr>ms_blocks = Map.empty, ms_head = None\<rparr>"

definition mem_repo_get_block :: "mem_repo_store \<Rightarrow> cid \<Rightarrow> string + bytes option" where
  "mem_repo_get_block s c = Inr (ms_blocks s c)"

definition mem_repo_head :: "mem_repo_store \<Rightarrow> string + cid option" where
  "mem_repo_head s = Inr (ms_head s)"

definition mem_repo_apply_commit :: "mem_repo_store \<Rightarrow> commit_data \<Rightarrow> (string + unit) \<times> mem_repo_store" where
  "mem_repo_apply_commit s d =
     (let blocks = fold (\<lambda>c m. m(c := None)) (cd_removed_cids d) (ms_blocks s);
          blocks = fold (\<lambda>(c, data) m. m(c \<mapsto> data)) (cd_new_blocks d) blocks
      in (Inr (), \<lparr>ms_blocks = blocks, ms_head = Some (cd_cid d)\<rparr>))"

definition mem_repo :: "mem_repo_store repo_store_ops" where
  "mem_repo = \<lparr>rs_get_block = mem_repo_get_block, rs_head = mem_repo_head, rs_apply_commit = mem_repo_apply_commit\<rparr>"

section \<open>The contract\<close>

text \<open>
  What \<open>Repo\<close> relies on, and the trait asks for: a commit that is applied stores its new blocks, keeps
  every other block it does not remove, adds nothing else, and becomes the head.
\<close>

locale repo_store =
  fixes B :: "'s repo_store_ops"
  assumes apply_new: "rs_apply_commit B s d = (Inr (), s') \<Longrightarrow> distinct (map fst (cd_new_blocks d)) \<Longrightarrow>
      map_of (cd_new_blocks d) c = Some data \<Longrightarrow> rs_get_block B s' c = Inr (Some data)"
    and apply_kept: "rs_apply_commit B s d = (Inr (), s') \<Longrightarrow> distinct (map fst (cd_new_blocks d)) \<Longrightarrow>
      map_of (cd_new_blocks d) c = None \<Longrightarrow> c \<notin> set (cd_removed_cids d) \<Longrightarrow> rs_get_block B s' c = rs_get_block B s c"
    and apply_only: "rs_apply_commit B s d = (Inr (), s') \<Longrightarrow> rs_get_block B s' c = Inr (Some data) \<Longrightarrow>
      (c, data) \<in> set (cd_new_blocks d) \<or> rs_get_block B s c = Inr (Some data)"
    and apply_head: "rs_apply_commit B s d = (Inr (), s') \<Longrightarrow> rs_head B s' = Inr (Some (cd_cid d))"

lemma fold_new_blocks: "distinct (map fst bs) \<Longrightarrow> fold (\<lambda>(c, data) m. m(c \<mapsto> data)) bs m = m ++ map_of bs"
proof (induction bs arbitrary: m)
  case (Cons b bs)
  have "map_of bs (fst b) = None" using Cons.prems by (simp add: map_of_eq_None_iff)
  then show ?case using Cons by (cases b) (auto simp: fun_eq_iff map_add_def split: option.split)
qed simp

lemma fold_removed: "fold (\<lambda>c m. m(c := None)) cs m = m |` (- set cs)"
  by (induction cs arbitrary: m) (auto simp: restrict_map_def fun_eq_iff)

lemma fold_new_blocks_only: "fold (\<lambda>(c, data) m. m(c \<mapsto> data)) bs m c = Some data \<Longrightarrow> (c, data) \<in> set bs \<or> m c = Some data"
  by (induction bs arbitrary: m) (fastforce split: if_splits)+

interpretation mem_rs: repo_store mem_repo
proof unfold_locales
  fix s d s' c data
  assume a: "rs_apply_commit mem_repo s d = (Inr (), s')"
  then have s': "ms_head s' = Some (cd_cid d)"
    "ms_blocks s' = fold (\<lambda>(c, data) m. m(c \<mapsto> data)) (cd_new_blocks d) (ms_blocks s |` (- set (cd_removed_cids d)))"
    by (auto simp: mem_repo_def mem_repo_apply_commit_def fold_removed)
  show "rs_head mem_repo s' = Inr (Some (cd_cid d))" using s'(1) by (simp add: mem_repo_def mem_repo_head_def)
  show "rs_get_block mem_repo s' c = Inr (Some data)" if "distinct (map fst (cd_new_blocks d))" "map_of (cd_new_blocks d) c = Some data"
    using s'(2) fold_new_blocks [OF that(1)] that(2) by (simp add: mem_repo_def mem_repo_get_block_def)
  show "rs_get_block mem_repo s' c = rs_get_block mem_repo s c"
    if "distinct (map fst (cd_new_blocks d))" "map_of (cd_new_blocks d) c = None" "c \<notin> set (cd_removed_cids d)"
    using s'(2) fold_new_blocks [OF that(1)] that(2,3) by (simp add: mem_repo_def mem_repo_get_block_def map_add_def restrict_map_def)
  show "(c, data) \<in> set (cd_new_blocks d) \<or> rs_get_block mem_repo s c = Inr (Some data)"
    if "rs_get_block mem_repo s' c = Inr (Some data)"
    using fold_new_blocks_only [of "cd_new_blocks d" _ c data] that s'(2)
    by (fastforce simp: mem_repo_def mem_repo_get_block_def restrict_map_def split: if_splits)
qed

end
