(* ===== verification/Mst_Proof.thy ===== *)
theory Mst_Proof
  imports Mst_Walk Mst_Authentic
begin

text \<open>
  Reading trees for record proofs (\<open>src/src/mst/tree.rs\<close>): search paths, and walks over the part of a
  tree its blocks reach. Reading a tree whose blocks are checked against their CIDs, whoever sent
  them, gives what the tree with that root CID holds.
\<close>

section \<open>Search paths\<close>

text \<open>
  \<open>search_blocks\<close> decodes the nodes below an unloaded one without keeping them. The path is extended
  on failure too; \<open>i\<close> is the index of the first entry at or after the key.
\<close>

function search_blocks :: "env \<Rightarrow> str \<Rightarrow> place \<Rightarrow> cid \<Rightarrow> cid list \<Rightarrow> (mst_error + cid option) \<times> cid list" where
  "search_blocks E key at c path =
     (if depth at > TREE_MAX_DEPTH then (Inl too_deep, path)
      else case read_block E c of
        Inl e \<Rightarrow> (Inl e, path)
      | Inr None \<Rightarrow> (Inl (BlockNotFound c), path)
      | Inr (Some data) \<Rightarrow>
          (case and_then (decode_node_data (simd_utf8 E) data) (\<lambda>nd.
                  and_then (for_each_key None (nd_entries nd)) (\<lambda>keys.
                    if keys \<noteq> [] \<and> (\<not> admits at (hd keys) \<or> \<not> admits at (last keys)) then Inl out_of_place
                    else Inr (nd, keys))) of
             Inl e \<Rightarrow> (Inl e, path @ [c])
           | Inr (nd, keys) \<Rightarrow>
               let i = (case position (\<lambda>k. key \<le> k) keys of Some i \<Rightarrow> i | None \<Rightarrow> length keys) in
               if i < length keys \<and> key = keys ! i then (Inr (Some (ed_value (nd_entries nd ! i))), path @ [c])
               else case (if i = 0 then nd_left nd else ed_right (nd_entries nd ! (i - 1))) of
                 None \<Rightarrow> (Inr None, path @ [c])
               | Some next \<Rightarrow>
                   search_blocks E key
                     \<lparr>depth = depth at + 1, lo = (if i = 0 then lo at else Some (keys ! (i - 1))),
                      hi = (if i < length keys then Some (keys ! i) else hi at)\<rparr> next (path @ [c])))"
  by pat_completeness auto
termination search_blocks
  by (relation "measure (\<lambda>(E, key, at, c, path). TREE_MAX_DEPTH + 1 - depth at)") auto

declare search_blocks.simps [simp del]

definition unflushed :: mst_error where
  "unflushed = Internal ''the tree has changes since its last flush''"

function search_nodes :: "env \<Rightarrow> str \<Rightarrow> place \<Rightarrow> node \<Rightarrow> cid list \<Rightarrow> (mst_error + cid option) \<times> cid list" where
  "search_nodes E key at n path =
     (case ncid n of
        None \<Rightarrow> (Inl unflushed, path)
      | Some c \<Rightarrow>
          if \<not> nloaded n then search_blocks E key at c path
          else case search_entries (nentries n) key of
            Inr i \<Rightarrow> (Inr (Some (evalue (nentries n ! i))), path @ [c])
          | Inl i \<Rightarrow>
              (case child n i of
                 None \<Rightarrow> (Inr None, path @ [c])
               | Some m \<Rightarrow> search_nodes E key (child_place n i at) m (path @ [c])))"
  by pat_completeness auto
termination search_nodes
proof (relation "measure (\<lambda>(E, key, at, n, path). nsize n)", goal_cases)
  case (2 E key at n path c i m)
  then show ?case using child_size [of i n] search_entries_le(1) by simp
qed simp

declare search_nodes.simps [simp del]

definition search_path :: "env \<Rightarrow> str \<Rightarrow> tree \<Rightarrow> cid list \<Rightarrow> (mst_error + cid option) \<times> cid list" where
  "search_path E key t path =
     (case check_usable t of
        Inl e \<Rightarrow> (Inl e, path)
      | Inr _ \<Rightarrow>
          (case t_root t of
             None \<Rightarrow> (case t_empty_root t of None \<Rightarrow> (Inl unflushed, path) | Some c \<Rightarrow> (Inr None, path @ [c]))
           | Some n \<Rightarrow> search_nodes E key ROOT n path))"

section \<open>Walks over what is there\<close>

text \<open>
  \<open>walk_reachable_node\<close>; it starts with the load its callers make, and does nothing when the block is
  not there.
\<close>

function (sequential) walk_reachable_node ::
    "env \<Rightarrow> 's walker \<Rightarrow> place \<Rightarrow> node \<Rightarrow> refs \<Rightarrow> 's \<Rightarrow> (mst_error + unit) \<times> node \<times> refs \<times> 's"
  and reach_child ::
    "env \<Rightarrow> 's walker \<Rightarrow> place \<Rightarrow> node option \<Rightarrow> refs \<Rightarrow> 's \<Rightarrow> (mst_error + unit) \<times> node option \<times> refs \<times> 's"
  and reach_entries ::
    "env \<Rightarrow> 's walker \<Rightarrow> place \<Rightarrow> node \<Rightarrow> nat \<Rightarrow> entry list \<Rightarrow> refs \<Rightarrow> 's \<Rightarrow> (mst_error + unit) \<times> entry list \<times> refs \<times> 's"
where
  "walk_reachable_node E f at n refs s =
     (case load_node E at n refs of
        (Inl e, n, refs) \<Rightarrow> (Inl e, n, refs, s)
      | (Inr (Some c), n, refs) \<Rightarrow> (Inr (), n, refs, s)
      | (Inr None, n, refs) \<Rightarrow>
          (case reach_child E f (child_place n 0 at) (nleft n) refs s of
             (Inl e, l, refs, s) \<Rightarrow> (Inl e, set_child n 0 l, refs, s)
           | (Inr _, l, refs, s) \<Rightarrow>
               (case reach_entries E f at n 0 (nentries n) refs s of
                  (r, es, refs, s) \<Rightarrow> (r, set_entries (set_child n 0 l) es, refs, s))))"
| "reach_child E f at None refs s = (Inr (), None, refs, s)"
| "reach_child E f at (Some c) refs s = (case walk_reachable_node E f at c refs s of (r, c, refs, s) \<Rightarrow> (r, Some c, refs, s))"
| "reach_entries E f at n i [] refs s = (Inr (), [], refs, s)"
| "reach_entries E f at n i (e # es) refs s =
     (case f (ekey e) (evalue e) s of
        (Inl er, s) \<Rightarrow> (Inl er, e # es, refs, s)
      | (Inr _, s) \<Rightarrow>
          (case reach_child E f (child_place n (i + 1) at) (eright e) refs s of
             (Inl er, c, refs, s) \<Rightarrow> (Inl er, set_right e c # es, refs, s)
           | (Inr _, c, refs, s) \<Rightarrow>
               (case reach_entries E f at n (i + 1) es refs s of
                  (r, es, refs, s) \<Rightarrow> (r, set_right e c # es, refs, s))))"
  by pat_completeness auto

termination walk_reachable_node
proof (relation "measures [
    \<lambda>x. (case x of Inl (E, f, at, n, refs, s) \<Rightarrow> rank at n
         | Inr (Inl (E, f, at, m, refs, s)) \<Rightarrow> orank at m
         | Inr (Inr (E, f, at, n, i, es, refs, s)) \<Rightarrow> entries_rank at n es),
    \<lambda>x. (case x of Inl _ \<Rightarrow> 0 | Inr (Inl _) \<Rightarrow> 1 | Inr (Inr (E, f, at, n, i, es, refs, s)) \<Rightarrow> 2 + length es)]", goal_cases)
  case (2 E f at n refs s x y u n' refs')
  then have "load_node E at n refs = (Inr None, n', refs')" by simp
  from rank_child [OF this, of 0 n'] show ?case by (simp add: child_def)
next
  case (3 E f at n refs s x y u n' refs' x' y' r l x'' y'' v)
  then have "load_node E at n refs = (Inr None, n', refs')" by simp
  from entries_rank_loaded [OF this] show ?case by simp
next
  case (4 E f at c refs s)
  then show ?case by (simp add: orank_def)
next
  case (5 E f at n i e es refs s)
  then show ?case using orank_child_place [of n "i + 1" at "eright e" n 0] by (auto simp: max_def)
next
  case (6 E f at n i e es refs s)
  then show ?case by (simp add: max_def)
qed simp

declare walk_reachable_node.simps [simp del] reach_entries.simps(2) [simp del]

definition walk_reachable :: "env \<Rightarrow> 's walker \<Rightarrow> tree \<Rightarrow> 's \<Rightarrow> (mst_error + unit) \<times> tree \<times> 's" where
  "walk_reachable E f t s =
     (case check_usable t of
        Inl e \<Rightarrow> (Inl e, t, s)
      | Inr _ \<Rightarrow>
          (case t_root t of
             None \<Rightarrow> (Inr (), t, s)
           | Some root \<Rightarrow>
               (case ensure_loaded E ROOT root (t_refs t) of
                  (Inl e, root, refs) \<Rightarrow> (Inl e, t\<lparr>t_root := Some root, t_refs := refs\<rparr>, s)
                | (Inr _, root, refs) \<Rightarrow>
                    (case walk_reachable_node E f ROOT root refs s of
                       (r, root, refs, s) \<Rightarrow> (r, t\<lparr>t_root := Some root, t_refs := refs\<rparr>, s)))))"

section \<open>Lookups again\<close>

lemma set_child_keys [simp]: "i \<le> length (nentries n) \<Longrightarrow> map ekey (nentries (set_child n i c)) = map ekey (nentries n)"
proof (cases n)
  case (Node l es d h ld)
  assume "i \<le> length (nentries n)"
  moreover have "(map ekey es)[j := ekey (es ! j)] = map ekey es" if "j < length es" for j
    using that list_update_id [of "map ekey es" j] by simp
  ultimately show ?thesis using Node by (cases i) (simp_all add: map_update)
qed

lemma position_map: "position p (map f xs) = position (\<lambda>x. p (f x)) xs"
  by (induction xs) simp_all

lemma scan_entries_keys: "map ekey es = map ekey fs \<Longrightarrow> scan_entries es key = scan_entries fs key"
  using position_map [of "\<lambda>k. key = k \<or> key < k" ekey es] position_map [of "\<lambda>k. key = k \<or> key < k" ekey fs]
    map_eq_imp_length_eq [of ekey es ekey fs]
  by (simp add: scan_entries_def split: option.split)

text \<open>A node and everything a lookup goes through stay loaded, so the same lookup reads nothing.\<close>

lemma get_node_again:
  assumes "get_node E at key n refs = (Inr v, n', refs')"
  shows "get_node F at key n' r = (Inr v, n', r)"
  using assms
proof (induction "rank at n" arbitrary: at n refs n' refs' rule: less_induct)
  case less
  obtain r1 m refs1 where e: "ensure_loaded E at n refs = (r1, m, refs1)" by (metis prod_cases3)
  then obtain u where u: "r1 = Inr u" using less.prems by (cases r1) (auto simp: get_node.simps [of E at key n])
  have ld: "nloaded m" using ensure_loaded_loaded e u by blast
  have again: "ensure_loaded F at x r = (Inr (), x, r)" if "nloaded x" for x
    using that by (simp add: ensure_loaded_def load_node_def)
  let ?i = "scan_entries (nentries m) key"
  show ?case
  proof (cases "\<not> (?i < length (nentries m) \<and> key = ekey (nentries m ! ?i)) \<and> child m ?i \<noteq> None")
    case True
    then obtain c where c: "child m ?i = Some c" by auto
    obtain r2 c' refs2 where g: "get_node E (child_place m ?i at) key c refs1 = (r2, c', refs2)" by (metis prod_cases3)
    have n': "r2 = Inr v" "n' = set_child m ?i (Some c')"
      using less.prems True u g e c by (auto simp: get_node.simps [of E at key n] Let_def)
    have k: "map ekey (nentries n') = map ekey (nentries m)" unfolding n'(2) using scan_entries_bound by (rule set_child_keys)
    then have s: "scan_entries (nentries n') key = ?i" by (rule scan_entries_keys)
    have len: "length (nentries n') = length (nentries m)" using k map_eq_imp_length_eq by blast
    have kk: "?i < length (nentries m) \<Longrightarrow> ekey (nentries n' ! ?i) = ekey (nentries m ! ?i)" using k len by (metis nth_map)
    have ch: "child n' ?i = Some c'" unfolding n'(2) by (simp add: scan_entries_bound)
    have cp: "child_place n' ?i at = child_place m ?i at"
      using k len kk scan_entries_bound [of "nentries m" key] nth_map [of "?i - 1" "nentries n'" ekey] nth_map [of "?i - 1" "nentries m" ekey]
      by (auto simp: child_place_def)
    have "get_node F (child_place m ?i at) key c' r = (Inr v, c', r)"
      using rank_child_ensure [OF e [unfolded u, symmetric] scan_entries_bound c] g n'(1) by (intro less.hyps) simp_all
    moreover have "set_child n' ?i (Some c') = n'" using set_child_id [of ?i n'] ch len scan_entries_bound [of "nentries m" key] by simp
    moreover have "nloaded n'" using ld n'(2) by simp
    ultimately show ?thesis
      using True again [of n'] s kk len ch cp by (auto simp: get_node.simps [of F at key n'] Let_def)
  next
    case False
    then show ?thesis
      using less.prems e u again [OF ld]
      by (auto simp: get_node.simps [of E at key n] get_node.simps [of F at key n'] Let_def split: if_splits option.splits)
  qed
qed

section \<open>Walks over what is there load and visit what they reach\<close>

text \<open>The contents of the loaded part of a node.\<close>

abbreviation visible :: "node \<Rightarrow> (str \<times> cid) list" where
  "visible \<equiv> inorder (\<lambda>_. [])"

lemma visible_subset:
  shows "set (visible n) \<subseteq> set (inorder \<sigma> n)" and "set (oinorder (\<lambda>_. []) m) \<subseteq> set (oinorder \<sigma> m)"
    and "set (einorder (\<lambda>_. []) e) \<subseteq> set (einorder \<sigma> e)"
proof (induction "\<lambda>_ :: cid. [] :: (str \<times> cid) list" n and "\<lambda>_ :: cid. [] :: (str \<times> cid) list" m and "\<lambda>_ :: cid. [] :: (str \<times> cid) list" e rule: inorder_oinorder_einorder.induct)
qed (auto split: option.splits)

lemma reach_walks:
  shows "walk_reachable_node E f at n refs s = (r, n', refs', s') \<Longrightarrow> loads E n refs n' refs' \<and> walks f (visible n') s r s'"
    and "reach_child E f at q refs s = (r, q', refs', s') \<Longrightarrow>
      (q = None \<and> q' = None \<and> refs' = refs \<or> (\<exists>c c'. q = Some c \<and> q' = Some c' \<and> loads E c refs c' refs')) \<and>
      walks f (oinorder (\<lambda>_. []) q') s r s'"
    and "reach_entries E f at n i es refs s = (r, es', refs', s') \<Longrightarrow>
      (\<forall>m pre. nloaded m \<longrightarrow> nentries m = pre @ es \<longrightarrow> loads E m refs (set_entries m (pre @ es')) refs') \<and>
      walks f (centries (\<lambda>_. []) es') s r s'"
proof (induction E f at n refs s and E f at q refs s and E f at n i es refs s
    arbitrary: r n' refs' s' and r q' refs' s' and r es' refs' s' rule: walk_reachable_node_reach_child_reach_entries.induct)
  case (1 E f at n refs s)
  obtain r1 n1 refs1 where e: "load_node E at n refs = (r1, n1, refs1)" by (metis prod_cases3)
  note start = loads_load [OF e]
  show ?case
  proof (cases "r1 = Inr None")
    case False
    then have "n1 = n" "\<not> nloaded n" using load_node_fail [OF e] by simp_all
    then have "visible n1 = []" if "grounded n \<or> True" by (cases n) (simp split: option.split)
    then show ?thesis
      using "1.prems" e start False \<open>n1 = n\<close>
      by (auto simp: walk_reachable_node.simps [of E f at n] walks_def split: sum.splits option.splits)
  next
    case True
    have ld: "nloaded n1" using load_node_loaded e True by blast
    obtain r2 l refs2 s2 where c: "reach_child E f (child_place n1 0 at) (nleft n1) refs1 s = (r2, l, refs2, s2)"
      by (metis prod_cases4)
    let ?m = "set_child n1 0 l"
    have ih: "(nleft n1 = None \<and> l = None \<and> refs2 = refs1 \<or> (\<exists>c c'. nleft n1 = Some c \<and> l = Some c' \<and> loads E c refs1 c' refs2))"
      "walks f (oinorder (\<lambda>_. []) l) s r2 s2"
      using "1.IH"(1) [OF e [symmetric] True refl refl c] by simp_all
    have m: "loads E n1 refs1 ?m refs2"
      using ih(1) set_child_id [of 0 n1] loads_child [OF ld, of 0] by (auto simp: child_def intro: loads_refl)
    show ?thesis
    proof (cases r2)
      case Inl2: (Inl er)
      then have "n' = ?m" "refs' = refs2" "r = Inl er" using "1.prems" e True c by (auto simp: walk_reachable_node.simps [of E f at n])
      then show ?thesis using loads_trans [OF start m] by (simp add: walks_def)
    next
      case Inr2: (Inr v)
      obtain r3 es refs3 s3 where w: "reach_entries E f at n1 0 (nentries n1) refs2 s2 = (r3, es, refs3, s3)"
        by (metis prod_cases4)
      note i2 = "1.IH"(2) [OF e [symmetric] True refl refl c [symmetric] Inr2 refl refl w]
      have "nloaded ?m" "nentries ?m = [] @ nentries n1" using ld by simp_all
      then have ih2: "loads E ?m refs2 (set_entries ?m ([] @ es)) refs3" "walks f (centries (\<lambda>_. []) es) s2 r3 s3"
        using conjunct1 [OF i2, rule_format, of ?m "[]"] conjunct2 [OF i2] by simp_all
      moreover have eqs: "n' = set_entries ?m es" "refs' = refs3" "r = r3" "s' = s3"
        using "1.prems" e True c Inr2 w by (auto simp: walk_reachable_node.simps [of E f at n])
      moreover have "visible n' = oinorder (\<lambda>_. []) l @ centries (\<lambda>_. []) es"
        using ld unfolding eqs by (simp add: inorder_loaded)
      ultimately show ?thesis
        using loads_trans [OF loads_trans [OF start m]] ih(2) Inr2 walks_append [of f "oinorder (\<lambda>_. []) l" s s2] by simp
    qed
  qed
next
  case (3 E f at c refs s)
  obtain r1 c1 refs1 s1 where w: "walk_reachable_node E f at c refs s = (r1, c1, refs1, s1)" by (metis prod_cases4)
  from "3.IH" [OF w] "3.prems" w show ?case by auto
next
  case (4 E f at n i refs s)
  have "set_entries m (nentries m) = m" for m by (cases m) simp
  then show ?case using "4" by (auto simp: walks_def intro: loads_refl)
next
  case (5 E f at n i e es refs s)
  obtain r1 s1 where fe: "f (ekey e) (evalue e) s = (r1, s1)" by fastforce
  show ?case
  proof (cases r1)
    case (Inl er)
    have eqs: "es' = e # es" "refs' = refs" "r = Inl er"
      using "5.prems"(1) fe Inl by (auto simp: reach_entries.simps(2) [of E f at n i e])
    have "set_entries m (pre @ e # es) = m" if "nentries m = pre @ e # es" for m pre using that by (cases m) simp
    then show ?thesis unfolding eqs by (simp add: walks_def loads_refl)
  next
    case (Inr u)
    obtain r2 c refs2 s2 where c: "reach_child E f (child_place n (i + 1) at) (eright e) refs s1 = (r2, c, refs2, s2)"
      by (metis prod_cases4)
    have ih: "(eright e = None \<and> c = None \<and> refs2 = refs \<or> (\<exists>d d'. eright e = Some d \<and> c = Some d' \<and> loads E d refs d' refs2))"
      "walks f (oinorder (\<lambda>_. []) c) s1 r2 s2"
      using "5.IH"(1) [OF fe [symmetric] Inr c] by simp_all
    have m: "loads E m refs (set_entries m (pre @ set_right e c # es)) refs2" if m: "nloaded m" "nentries m = pre @ e # es" for m pre
    proof -
      have same: "set_entries m (pre @ e # es) = m" using m(2) by (cases m) simp
      from ih(1) show ?thesis
      proof
        assume "eright e = None \<and> c = None \<and> refs2 = refs"
        then show ?thesis using same set_right_same [of e] loads_refl by simp
      next
        assume "\<exists>d d'. eright e = Some d \<and> c = Some d' \<and> loads E d refs d' refs2"
        then obtain d d' where d: "eright e = Some d" "c = Some d'" "loads E d refs d' refs2" by blast
        have "loads E m refs (set_child m (Suc (length pre)) (Some d')) refs2"
          using m d(1) set_child_entries(2) [OF m(2)] by (intro loads_child [OF m(1) _ _ d(3)]) simp_all
        then show ?thesis using d(2) by (simp add: set_child_entries(1) [OF m(2)])
      qed
    qed
    show ?thesis
    proof (cases r2)
      case Inl2: (Inl er)
      then have "es' = set_right e c # es" "refs' = refs2" "r = Inl er"
        using "5.prems"(1) fe Inr c by (auto simp: reach_entries.simps(2) [of E f at n i e])
      then show ?thesis using m by (simp add: walks_def)
    next
      case Inr2: (Inr v)
      obtain r3 es3 refs3 s3 where w: "reach_entries E f at n (i + 1) es refs2 s2 = (r3, es3, refs3, s3)"
        by (metis prod_cases4)
      note ih3 = "5.IH"(2) [OF fe [symmetric] Inr c [symmetric] Inr2 refl refl w]
      have eqs: "es' = set_right e c # es3" "refs' = refs3" "r = r3" "s' = s3"
        using "5.prems"(1) fe Inr c Inr2 w by (auto simp: reach_entries.simps(2) [of E f at n i e])
      have "loads E m refs (set_entries m (pre @ es')) refs'" if mp: "nloaded m" "nentries m = pre @ e # es" for m pre
      proof -
        let ?m = "set_entries m (pre @ set_right e c # es)"
        have "loads E ?m refs2 (set_entries ?m ((pre @ [set_right e c]) @ es3)) refs3"
          by (rule conjunct1 [OF ih3, rule_format]) (use mp(1) in simp_all)
        moreover have "set_entries ?m xs = set_entries m xs" for xs by (cases m) simp
        ultimately show ?thesis using loads_trans [OF m [OF mp]] eqs by simp
      qed
      moreover have "walks f (einorder (\<lambda>_. []) (set_right e c) @ centries (\<lambda>_. []) es3) s r3 s3"
        using ih(2) ih3 fe Inr Inr2 by (intro walks_append [of f _ s s2]) (auto simp: einorder_sel [of _ "set_right e c"] walks_def)
      ultimately show ?thesis unfolding eqs by simp
    qed
  qed
qed (auto simp: walks_def)

section \<open>Reading an untrusted tree\<close>

abbreviation written :: "node \<Rightarrow> bool" where
  "written \<equiv> all_nodes (\<lambda>m. ncid m \<noteq> None)"

lemma loads_written: "loads E n refs n' refs' \<Longrightarrow> written n \<Longrightarrow> written n'"
proof (induction rule: loads.induct)
  case (loads_load at n refs r n' refs')
  show ?case
  proof (cases "r = Inr None \<and> \<not> nloaded n")
    case True
    then obtain nd where p: "populate_node E n nd at = Inr n'" using load_node_stub [of E at n refs n' refs'] loads_load.hyps by metis
    have st: "all_opt (\<lambda>m. \<exists>c. ncid m = Some c) (map_option (\<lambda>c. stub c h) m)" for m h
      by (cases m) (simp_all add: stub_def)
    show ?thesis
      using p loads_load.prems by (auto simp: populate_node_def Let_def all_nodes_sel parts_def st split: if_splits)
  next
    case False
    then show ?thesis using loads_load load_node_fail [OF loads_load.hyps] load_node_ok [of E at n refs n' refs'] by auto
  qed
next
  case (loads_child n i c refs c' refs')
  then show ?case
    using parts_child [of "\<lambda>m. ncid m \<noteq> None" n i] parts_set_child [of "\<lambda>m. ncid m \<noteq> None" n i "Some c'"]
    by (simp add: all_nodes_sel [of _ n] all_nodes_sel [of _ "set_child n i (Some c')"])
qed simp_all

text \<open>A tree opened at the root of the known tree \<open>p\<close> and only read since.\<close>

definition reads :: "env \<Rightarrow> node \<Rightarrow> tree \<Rightarrow> bool" where
  "reads E p t \<longleftrightarrow> \<not> t_poisoned t \<and> no_zero (t_refs t) \<and>
     (\<exists>n. t_root t = Some n \<and> all_nodes (authentic E) n \<and> all_nodes grounded n \<and> written n \<and>
        wcid (compress256 E) n = merkle (compress256 E) p)"

text \<open>What a reader knows of \<open>p\<close>: it is canonical enough and its CIDs have no second preimage.\<close>

definition known_tree :: "env \<Rightarrow> contents \<Rightarrow> node \<Rightarrow> bool" where
  "known_tree E \<sigma> p \<longleftrightarrow> all_nodes (trusted E \<sigma>) p \<and> ksorted (inorder \<sigma> p) \<and> platform_ok E \<and> blocks_verified E"

lemma reads_load: "cid_valid (merkle (compress256 E) p) \<Longrightarrow> reads E p (tree_load (merkle (compress256 E) p))"
  by (simp add: reads_def tree_load_def tree_new_def no_zero_def all_nodes_sel parts_def) (simp add: stub_def authentic_def grounded_def parts_def)

lemma reads_loads:
  assumes "loads E n refs n' refs'" "t_root t = Some n" "t_refs t = refs" "reads E p t" "known_tree E \<sigma> p"
  shows "reads E p (t\<lparr>t_root := Some n', t_refs := refs'\<rparr>)" "inorder \<sigma> n' = inorder \<sigma> p"
proof -
  have n: "\<not> t_poisoned t" "no_zero refs" "all_nodes (authentic E) n" "all_nodes grounded n" "written n"
    "wcid (compress256 E) n = merkle (compress256 E) p"
    using assms(2-4) by (auto simp: reads_def)
  have k: "all_nodes (trusted E \<sigma>) p" "platform_ok E" "blocks_verified E" using assms(5) by (simp_all add: known_tree_def)
  have n': "no_zero refs'" "all_nodes grounded n'" "written n'" "all_nodes (authentic E) n'" "wcid (compress256 E) n' = merkle (compress256 E) p"
    using loads_counts [OF assms(1)] loads_written [OF assms(1)] loads_authentic [OF assms(1) k(3) n(3)] n
    by (simp_all add: keeps_counts_def)
  then show "reads E p (t\<lparr>t_root := Some n', t_refs := refs'\<rparr>)" using n(1) by (simp add: reads_def)
  show "inorder \<sigma> n' = inorder \<sigma> p"
    by (rule authentic_same_contents [OF k(1) n'(4,2) _ k(2) n'(5)]) (use n'(3) in \<open>unfold readable_def, blast\<close>)
qed

lemma reads_get:
  assumes "tree_get E key t = (r, t')" "reads E p t" "known_tree E \<sigma> p"
  shows "reads E p t' \<and> (\<forall>v. r = Inr v \<longrightarrow> v = map_of (inorder \<sigma> p) key)"
proof -
  obtain n where n: "t_root t = Some n" "\<not> t_poisoned t" using assms(2) by (auto simp: reads_def)
  obtain n' refs' where g: "get_node E ROOT key n (t_refs t) = (r, n', refs')" "t' = t\<lparr>t_root := Some n', t_refs := refs'\<rparr>"
    using assms(1) n by (auto simp: tree_get_def guarded_def check_usable_def split: prod.splits)
  note l = reads_loads [OF get_node_loads [OF g(1)] n(1) refl assms(2,3)]
  have "v = map_of (inorder \<sigma> p) key" if "r = Inr v" for v
  proof -
    have "get_node (no_blocks E) ROOT key n' refs' = (Inr v, n', refs')" using get_node_again g(1) that by blast
    moreover have "ksorted (inorder \<sigma> n')" using l(2) assms(3) by (simp add: known_tree_def)
    ultimately show ?thesis using get_node_correct [of "no_blocks E" ROOT key n' refs' "Inr v" n' refs' \<sigma>] l(2) by simp
  qed
  then show ?thesis using l(1) g(2) by simp
qed

lemma reads_walk:
  assumes "walk_reachable E f t s = (Inr (), t', s')" "reads E p t" "known_tree E \<sigma> p"
  shows "\<exists>ps. feed f ps s = (Inr (), s') \<and> set ps \<subseteq> set (inorder \<sigma> p)"
proof -
  obtain n where n: "t_root t = Some n" "\<not> t_poisoned t" using assms(2) by (auto simp: reads_def)
  obtain n1 refs1 n2 refs2 where w: "ensure_loaded E ROOT n (t_refs t) = (Inr (), n1, refs1)"
    "walk_reachable_node E f ROOT n1 refs1 s = (Inr (), n2, refs2, s')"
    using assms(1) n by (auto simp: walk_reachable_def check_usable_def split: prod.splits sum.splits)
  have "loads E n (t_refs t) n2 refs2"
    using loads_ensure [OF w(1)] reach_walks(1) [OF w(2)] by (blast intro: loads_trans)
  then have "inorder \<sigma> n2 = inorder \<sigma> p" by (rule reads_loads(2) [OF _ n(1) refl assms(2,3)])
  then have "set (visible n2) \<subseteq> set (inorder \<sigma> p)" using visible_subset(1) [of n2 \<sigma>] by simp
  then show ?thesis using reach_walks(1) [OF w(2)] by (auto simp: walks_def)
qed

section \<open>A search path is enough for the lookup\<close>

text \<open>
  What a lookup in a freshly opened tree reads is the search path: the same blocks give the same
  lookup, whatever other blocks a source has.
\<close>

definition agrees :: "env \<Rightarrow> env \<Rightarrow> cid set \<Rightarrow> bool" where
  "agrees E F cs \<longleftrightarrow> simd_utf8 F = simd_utf8 E \<and> compress256 F = compress256 E \<and>
     (\<forall>c \<in> cs. (\<exists>data. read_block E c = Inr (Some data)) \<and> read_block F c = read_block E c)"

lemma load_node_agrees:
  assumes "load_node E at (stub c h) refs = (Inr None, m, refs1)" "agrees E F {c}"
  shows "load_node F at (stub c h) refs = (Inr None, m, refs1)"
proof -
  have n: "ncid (stub c h) = Some c" by (simp add: stub_def)
  have f: "simd_utf8 F = simd_utf8 E" "compress256 F = compress256 E" "read_block F c = read_block E c"
    using assms(2) by (simp_all add: agrees_def)
  have p: "populate_node F = populate_node E" by (intro ext) (unfold populate_node_def f(2), rule refl)
  have "load_node F at (stub c h) refs = load_node E at (stub c h) refs"
    unfolding load_node_def n option.case f p by (rule refl)
  then show ?thesis using assms(1) by simp
qed

text \<open>One step of the search, seen from the node as loading it leaves it.\<close>

lemma search_step:
  fixes key :: str
  assumes "load_node E at n refs = (Inr None, m, refs1)" "\<not> nloaded n" "ncid n = Some c"
  defines "i \<equiv> scan_entries (nentries m) key"
  shows "search_blocks E key at c path =
    (if i < length (nentries m) \<and> key = ekey (nentries m ! i) then (Inr (Some (evalue (nentries m ! i))), path @ [c])
     else case child m i of
       None \<Rightarrow> (Inr None, path @ [c])
     | Some x \<Rightarrow> search_blocks E key (child_place m i at) (the (ncid x)) (path @ [c]))"
    and "nloaded m" "ncid m = Some c" "\<exists>data. read_block E c = Inr (Some data)"
    and "child m i = Some x \<Longrightarrow> \<exists>d h. x = stub d h"
proof -
  obtain data nd keys where l: "read_block E c = Inr (Some data)" "decode_node_data (simd_utf8 E) data = Inr nd"
    "for_each_key None (nd_entries nd) = Inr keys" "populate_node E n nd at = Inr m"
    using load_node_stub [OF assms(1,2)] assms(3) by (metis option.inject)
  have depth: "depth at \<le> TREE_MAX_DEPTH" using load_node_ok [OF assms(1)] assms(2) by auto
  have len: "length keys = length (nd_entries nd)" by (rule for_each_key_length [OF l(3)])
  obtain ch H where m: "m = Node (map_option (\<lambda>c. stub c ch) (nd_left nd))
      (map (\<lambda>(key, ed). Entry key (ed_value ed) (map_option (\<lambda>c. stub c ch) (ed_right ed))) (zip keys (nd_entries nd))) (Some c) H True"
    and ends: "\<not> (keys \<noteq> [] \<and> (\<not> admits at (hd keys) \<or> \<not> admits at (last keys)))"
    using l(3,4) assms(3) by (auto simp: populate_node_def Let_def split: if_splits)
  show "nloaded m" "ncid m = Some c" by (simp_all add: m)
  have mk: "map ekey (nentries m) = keys" using len by (simp add: m comp_def case_prod_beta)
  have scan: "(case position (\<lambda>k. key \<le> k) keys of Some i \<Rightarrow> i | None \<Rightarrow> length keys) = i"
    using position_map [of "\<lambda>k. key \<le> k" ekey "nentries m"] len mk
    by (auto simp: i_def scan_entries_def m le_less disj_commute split: option.split)
  have ile: "i \<le> length keys" using scan_entries_bound [of "nentries m" key] len by (simp add: i_def m)
  have val: "evalue (nentries m ! i) = ed_value (nd_entries nd ! i)" "ekey (nentries m ! i) = keys ! i" if "i < length keys" for i
    using that len by (simp_all add: m)
  have chd: "child m i = map_option (\<lambda>c. stub c ch) (if i = 0 then nd_left nd else ed_right (nd_entries nd ! (i - 1)))"
    using ile len by (cases i) (simp_all add: child_def m)
  have lm: "length (nentries m) = length keys" using len by (simp add: m)
  have place: "child_place m i at = \<lparr>depth = depth at + 1, lo = (if i = 0 then lo at else Some (keys ! (i - 1))),
      hi = (if i < length keys then Some (keys ! i) else hi at)\<rparr>"
    unfolding child_place_def lm using val ile by (cases i) (simp_all add: Suc_le_eq)
  have dec: "and_then (decode_node_data (simd_utf8 E) data) (\<lambda>nd. and_then (for_each_key None (nd_entries nd)) (\<lambda>keys.
      if keys \<noteq> [] \<and> (\<not> admits at (hd keys) \<or> \<not> admits at (last keys)) then Inl out_of_place else Inr (nd, keys))) = Inr (nd, keys)"
    using ends by (simp only: l(2,3) and_then_def sum.case if_False)
  have sb: "search_blocks E key at c path =
      (if i < length keys \<and> key = keys ! i then (Inr (Some (ed_value (nd_entries nd ! i))), path @ [c])
       else case (if i = 0 then nd_left nd else ed_right (nd_entries nd ! (i - 1))) of
         None \<Rightarrow> (Inr None, path @ [c])
       | Some d \<Rightarrow> search_blocks E key (child_place m i at) d (path @ [c]))"
    unfolding place search_blocks.simps [of E key at c path] dec l(1) sum.case option.case prod.case Let_def scan
    using depth by (simp only: not_less [symmetric] if_not_P not_not if_False)
  show "search_blocks E key at c path =
    (if i < length (nentries m) \<and> key = ekey (nentries m ! i) then (Inr (Some (evalue (nentries m ! i))), path @ [c])
     else case child m i of
       None \<Rightarrow> (Inr None, path @ [c])
     | Some x \<Rightarrow> search_blocks E key (child_place m i at) (the (ncid x)) (path @ [c]))"
    unfolding sb chd lm using val by (auto simp: stub_def split: option.split)
  show "\<exists>data. read_block E c = Inr (Some data)" using l(1) by blast
  show "child m i = Some x \<Longrightarrow> \<exists>d h. x = stub d h" using chd by auto
qed

lemma get_node_searches:
  assumes "get_node E at key (stub c h) refs = (Inr v, n', refs')"
  shows "\<exists>ps. search_blocks E key at c path = (Inr v, path @ ps) \<and> (\<forall>c \<in> set ps. \<exists>data. read_block E c = Inr (Some data)) \<and>
    (\<forall>F. agrees E F (set ps) \<longrightarrow> get_node F at key (stub c h) refs = (Inr v, n', refs'))"
  using assms
proof (induction "TREE_MAX_DEPTH + 1 - depth at" arbitrary: at c h refs v n' refs' path rule: less_induct)
  case less
  obtain r1 m refs1 where e: "ensure_loaded E at (stub c h) refs = (r1, m, refs1)" by (metis prod_cases3)
  then have u: "r1 = Inr ()" using less.prems by (cases r1) (auto simp: get_node.simps [of E at key "stub c h"])
  then have ld: "load_node E at (stub c h) refs = (Inr None, m, refs1)" using e ensure_loaded_ok by blast
  define i where "i = scan_entries (nentries m) key"
  have st0: "\<not> nloaded (stub c h)" "ncid (stub c h) = Some c" by (simp_all add: stub_def)
  have sb: "search_blocks E key at c path =
    (if i < length (nentries m) \<and> key = ekey (nentries m ! i) then (Inr (Some (evalue (nentries m ! i))), path @ [c])
     else case child m i of
       None \<Rightarrow> (Inr None, path @ [c])
     | Some x \<Rightarrow> search_blocks E key (child_place m i at) (the (ncid x)) (path @ [c]))"
    unfolding i_def by (rule search_step(1) [OF ld st0])
  have rd: "\<exists>data. read_block E c = Inr (Some data)" by (rule search_step(4) [OF ld st0])
  have st: "\<exists>d h. x = stub d h" if "child m i = Some x" for x
    using search_step(5) [OF ld st0, of key x] that by (simp add: i_def)
  note depth = load_node_ok [OF ld]
  have again: "ensure_loaded F at (stub c h) refs = (Inr (), m, refs1)" if "agrees E F {c}" for F
    using load_node_agrees [OF ld that] ensure_loaded_ok by blast
  have gF: "get_node F at key (stub c h) refs =
      (if i < length (nentries m) \<and> key = ekey (nentries m ! i) then (Inr (Some (evalue (nentries m ! i))), m, refs1)
       else case child m i of
         None \<Rightarrow> (Inr None, m, refs1)
       | Some x \<Rightarrow> let (r, x', refs') = get_node F (child_place m i at) key x refs1 in (r, set_child m i (Some x'), refs'))"
    if "agrees E F {c}" for F
    unfolding get_node.simps [of F at key "stub c h"] again [OF that] prod.case sum.case Let_def i_def by (rule refl)
  note step = less.prems [unfolded get_node.simps [of E at key "stub c h"] e u prod.case sum.case Let_def i_def [symmetric]]
  consider (found) "i < length (nentries m) \<and> key = ekey (nentries m ! i)"
    | (leaf) "\<not> (i < length (nentries m) \<and> key = ekey (nentries m ! i))" "child m i = None"
    | (down) d g where "\<not> (i < length (nentries m) \<and> key = ekey (nentries m ! i))" "child m i = Some (stub d g)"
    using st by (cases "child m i") blast+
  then show ?case
  proof cases
    case found
    have now: "v = Some (evalue (nentries m ! i))" "n' = m" "refs' = refs1" using step [unfolded if_P [OF found]] by auto
    have "get_node F at key (stub c h) refs = (Inr v, n', refs')" if "agrees E F {c}" for F
      unfolding gF [OF that] if_P [OF found] by (simp add: now)
    then show ?thesis using sb [unfolded if_P [OF found]] now(1) rd by (intro exI [of _ "[c]"]) simp
  next
    case leaf
    note miss = if_not_P [OF leaf(1)] leaf(2) option.case
    have now: "v = None" "n' = m" "refs' = refs1" using step [unfolded miss] by auto
    have "get_node F at key (stub c h) refs = (Inr v, n', refs')" if "agrees E F {c}" for F
      unfolding gF [OF that] miss by (simp add: now)
    then show ?thesis using sb [unfolded miss] now(1) rd by (intro exI [of _ "[c]"]) simp
  next
    case down
    note miss = if_not_P [OF down(1)] down(2) option.case
    obtain x where x: "get_node E (child_place m i at) key (stub d g) refs1 = (Inr v, x, refs')" "n' = set_child m i (Some x)"
      using step [unfolded miss] by (auto split: prod.splits)
    have "TREE_MAX_DEPTH + 1 - depth (child_place m i at) < TREE_MAX_DEPTH + 1 - depth at"
      using depth by (auto simp: child_place_def stub_def)
    from less.hyps [OF this x(1), of "path @ [c]"] obtain ps where ps:
      "search_blocks E key (child_place m i at) d (path @ [c]) = (Inr v, (path @ [c]) @ ps)"
      "\<forall>c \<in> set ps. \<exists>data. read_block E c = Inr (Some data)"
      "\<forall>F. agrees E F (set ps) \<longrightarrow> get_node F (child_place m i at) key (stub d g) refs1 = (Inr v, x, refs')" by blast
    have "get_node F at key (stub c h) refs = (Inr v, n', refs')" if "agrees E F (set (c # ps))" for F
    proof -
      have "agrees E F {c}" "agrees E F (set ps)" using that by (simp_all add: agrees_def)
      then show ?thesis
        unfolding gF [OF \<open>agrees E F {c}\<close>] miss using ps(3) x(2) by simp
    qed
    then show ?thesis using sb [unfolded miss] ps(1,2) rd by (intro exI [of _ "c # ps"]) (simp add: stub_def)
  qed
qed

end
