(* ===== verification/Repo_Proof.thy ===== *)
theory Repo_Proof
  imports Repo_Sample Repo_Store Mst_Proof
begin

text \<open>
  Record proofs (\<open>src/src/repo/proof.rs\<close>): archives that carry a signed commit, the nodes on the
  search paths of some records, and the records. A verifier trusts nothing but the key.
\<close>

section \<open>Errors and results\<close>

datatype proof_error =
    ProofCar car_error
  | ProofRootCount nat
  | ProofCidMismatch cid
  | ProofMissingBlock cid
  | InvalidCommit repo_error
  | DidMismatch did did
  | InvalidSignature repo_error
  | ProofMst mst_error
  | NotDrisl cid
  | NotRecord cid
  | ProofInvalidPath str
  | ProofNoCommit

record record_proof =
  rp_commit :: commit
  rp_commit_cid :: cid
  rp_record :: "(cid \<times> bytes) option"

record record_claim =
  cl_collection :: nsid
  cl_rkey :: record_key
  cl_cid :: "cid option"

record proof_verdict =
  pv_commit :: commit
  pv_commit_cid :: cid
  pv_verified :: "record_claim list"
  pv_unverified :: "record_claim list"

record verified_record =
  vr_collection :: nsid
  vr_rkey :: record_key
  vr_cid :: cid
  vr_record :: bytes

record opened_proof =
  op_blocks :: "cid \<rightharpoonup> bytes"
  op_commit_cid :: cid
  op_commit :: commit

section \<open>Opening a proof\<close>

text \<open>The loop over the archive's blocks: each is hashed, and the first block of a CID is kept.\<close>

function proof_blocks :: "compress_fn \<Rightarrow> slice_reader \<Rightarrow> (cid \<rightharpoonup> bytes) \<Rightarrow> proof_error + (cid \<rightharpoonup> bytes)" where
  "proof_blocks compress r blocks =
     (case slice_next r of
        (None, _) \<Rightarrow> Inr blocks
      | (Some (Inl e), _) \<Rightarrow> Inl (ProofCar e)
      | (Some (Inr b), r) \<Rightarrow>
          if cid_compute compress (cid_codec (b_cid b)) (b_data b) \<noteq> b_cid b then Inl (ProofCidMismatch (b_cid b))
          else proof_blocks compress r (if blocks (b_cid b) = None then blocks(b_cid b \<mapsto> b_data b) else blocks))"
  by pat_completeness auto
termination proof_blocks
  by (relation "measure (\<lambda>(_, r, _). length (sr_rest r))")
    (auto simp: slice_next_def dest: split_block_shorter split: if_splits sum.splits prod.splits)

declare proof_blocks.simps [simp del]

definition drisl_block :: "(cid \<rightharpoonup> bytes) \<Rightarrow> cid \<Rightarrow> proof_error + bytes" where
  "drisl_block blocks c = (if cid_codec c \<noteq> Drisl then Inl (NotDrisl c) else ok_or (ProofMissingBlock c) (blocks c))"

definition record_block :: "(bytes \<Rightarrow> bool) \<Rightarrow> (cid \<rightharpoonup> bytes) \<Rightarrow> cid \<Rightarrow> proof_error + bytes" where
  "record_block utf8 blocks c =
     and_then (drisl_block blocks c) (\<lambda>data. case decode utf8 data of Inr (Map _) \<Rightarrow> Inr data | _ \<Rightarrow> Inl (NotRecord c))"

definition open_proof :: "env \<Rightarrow> bytes \<Rightarrow> did \<Rightarrow> verifying_key \<Rightarrow> proof_error + opened_proof" where
  "open_proof E car did key =
     and_then (map_err ProofCar (slice_new (simd_utf8 E) car)) (\<lambda>reader.
     and_then (case sr_roots reader of [root] \<Rightarrow> Inr root | roots \<Rightarrow> Inl (ProofRootCount (length roots))) (\<lambda>commit_cid.
     and_then (proof_blocks (compress256 E) reader Map.empty) (\<lambda>blocks.
     and_then (drisl_block blocks commit_cid) (\<lambda>block.
     and_then (map_err InvalidCommit (from_cbor (simd_utf8 E) block)) (\<lambda>commit.
       if c_did commit \<noteq> did then Inl (DidMismatch did (c_did commit))
       else and_then (map_err InvalidSignature (commit_verify key commit)) (\<lambda>_.
         Inr \<lparr>op_blocks = blocks, op_commit_cid = commit_cid, op_commit = commit\<rparr>))))))"

section \<open>Verifying\<close>

text \<open>The blocks of the proof as the source of a tree.\<close>

definition proof_env :: "env \<Rightarrow> (cid \<rightharpoonup> bytes) \<Rightarrow> env" where
  "proof_env E blocks = E\<lparr>read_block := map_read_block blocks\<rparr>"

definition verify_record_proof ::
  "env \<Rightarrow> bytes \<Rightarrow> did \<Rightarrow> verifying_key \<Rightarrow> nsid \<Rightarrow> record_key \<Rightarrow> proof_error + record_proof" where
  "verify_record_proof E car did key collection rkey =
     and_then (open_proof E car did key) (\<lambda>p.
     and_then (map_err ProofMst (fst (tree_get (proof_env E (op_blocks p)) (mst_key collection rkey) (tree_load (c_data (op_commit p))))))
       (\<lambda>found.
     and_then (case found of
         None \<Rightarrow> Inr None
       | Some cid \<Rightarrow> and_then (record_block (simd_utf8 E) (op_blocks p) cid) (\<lambda>data. Inr (Some (cid, data)))) (\<lambda>rec.
       Inr \<lparr>rp_commit = op_commit p, rp_commit_cid = op_commit_cid p, rp_record = rec\<rparr>)))"

text \<open>The loop of \<open>verify_proofs\<close> over the claims.\<close>

fun check_claims :: "env \<Rightarrow> (cid \<rightharpoonup> bytes) \<Rightarrow> record_claim list \<Rightarrow> tree \<Rightarrow> record_claim list \<Rightarrow> record_claim list \<Rightarrow>
    proof_error + (record_claim list \<times> record_claim list)" where
  "check_claims E blocks [] t verified unverified = Inr (verified, unverified)"
| "check_claims E blocks (claim # claims) t verified unverified =
     (case tree_get (proof_env E blocks) (mst_key (cl_collection claim) (cl_rkey claim)) t of
        (Inl e, _) \<Rightarrow> Inl (ProofMst e)
      | (Inr found, t) \<Rightarrow>
          and_then (case found of None \<Rightarrow> Inr [] | Some cid \<Rightarrow> record_block (simd_utf8 E) blocks cid) (\<lambda>_.
            if found = cl_cid claim then check_claims E blocks claims t (verified @ [claim]) unverified
            else check_claims E blocks claims t verified (unverified @ [claim])))"

definition verify_proofs :: "env \<Rightarrow> bytes \<Rightarrow> did \<Rightarrow> verifying_key \<Rightarrow> record_claim list \<Rightarrow> proof_error + proof_verdict" where
  "verify_proofs E car did key claims =
     and_then (open_proof E car did key) (\<lambda>p.
     and_then (check_claims E (op_blocks p) claims (tree_load (c_data (op_commit p))) [] []) (\<lambda>(verified, unverified).
       Inr \<lparr>pv_commit = op_commit p, pv_commit_cid = op_commit_cid p, pv_verified = verified, pv_unverified = unverified\<rparr>))"

text \<open>\<open>split_once('/')\<close> and the parsing of both sides.\<close>

definition split_path :: "str \<Rightarrow> (nsid \<times> record_key) option" where
  "split_path key =
     (case position (\<lambda>b. b = 0x2f) key of
        None \<Rightarrow> None
      | Some i \<Rightarrow>
          (case (nsid_try_from (take i key), recordkey_try_from (drop (i + 1) key)) of
             (Inr c, Inr r) \<Rightarrow> Some (c, r)
           | _ \<Rightarrow> None))"

fun records_loop :: "env \<Rightarrow> (cid \<rightharpoonup> bytes) \<Rightarrow> (str \<times> cid) list \<Rightarrow> verified_record list \<Rightarrow> proof_error + verified_record list" where
  "records_loop E blocks [] records = Inr records"
| "records_loop E blocks ((key, cid) # entries) records =
     (case split_path key of
        None \<Rightarrow> Inl (ProofInvalidPath key)
      | Some (collection, rkey) \<Rightarrow>
          records_loop E blocks entries
            (case record_block (simd_utf8 E) blocks cid of
               Inr rec \<Rightarrow> records @ [\<lparr>vr_collection = collection, vr_rkey = rkey, vr_cid = cid, vr_record = rec\<rparr>]
             | Inl _ \<Rightarrow> records))"

definition verify_records :: "env \<Rightarrow> bytes \<Rightarrow> did \<Rightarrow> verifying_key \<Rightarrow> proof_error + verified_record list" where
  "verify_records E car did key =
     and_then (open_proof E car did key) (\<lambda>p.
       case walk_reachable (proof_env E (op_blocks p)) push_pair (tree_load (c_data (op_commit p))) [] of
         (Inl e, _, _) \<Rightarrow> Inl (ProofMst e)
       | (Inr _, _, entries) \<Rightarrow> records_loop E (op_blocks p) entries [])"

section \<open>Building a proof\<close>

text \<open>
  \<open>proof_car\<close>: the search of each path, then the commit and each node and record once, in the order
  first needed. The source is a function here, so the recorder, which keeps the nodes the tree read
  for the writing, only stands for reading them again.
\<close>

fun proof_paths :: "env \<Rightarrow> tree \<Rightarrow> (nsid \<times> record_key) list \<Rightarrow> cid list \<Rightarrow> cid list \<Rightarrow> proof_error + (cid list \<times> cid list)" where
  "proof_paths E t [] nodes found = Inr (nodes, found)"
| "proof_paths E t ((collection, rkey) # paths) nodes found =
     (case search_path E (mst_key collection rkey) t nodes of
        (Inl e, nodes) \<Rightarrow> Inl (ProofMst e)
      | (Inr c, nodes) \<Rightarrow> proof_paths E t paths nodes (found @ (case c of None \<Rightarrow> [] | Some c \<Rightarrow> [c])))"

fun proof_write :: "env \<Rightarrow> cid list \<Rightarrow> cid set \<Rightarrow> bytes \<Rightarrow> proof_error + bytes" where
  "proof_write E [] seen car = Inr car"
| "proof_write E (c # cids) seen car =
     (if c \<in> seen then proof_write E cids seen car
      else and_then (map_err ProofMst (read_block E c)) (\<lambda>block.
        and_then (ok_or (ProofMissingBlock c) block) (\<lambda>data.
          proof_write E cids (insert c seen) (write_block \<lparr>b_cid = c, b_data = data\<rparr> car))))"

definition proof_car :: "env \<Rightarrow> tree \<Rightarrow> cid \<Rightarrow> bytes \<Rightarrow> (nsid \<times> record_key) list \<Rightarrow> proof_error + bytes" where
  "proof_car E t commit_cid commit_bytes paths =
     and_then (proof_paths E t paths [] []) (\<lambda>(nodes, found).
     and_then (map_err ProofCar (writer_new [] [commit_cid])) (\<lambda>car.
       proof_write E (nodes @ found) {commit_cid} (write_block \<lparr>b_cid = commit_cid, b_data = commit_bytes\<rparr> car)))"

definition record_proofs_car :: "env \<Rightarrow> cid \<Rightarrow> (nsid \<times> record_key) list \<Rightarrow> proof_error + bytes" where
  "record_proofs_car E commit_cid paths =
     and_then (map_err ProofMst (read_block E commit_cid)) (\<lambda>block.
     and_then (ok_or (ProofMissingBlock commit_cid) block) (\<lambda>commit_bytes.
     and_then (map_err InvalidCommit (from_cbor (simd_utf8 E) commit_bytes)) (\<lambda>commit.
       proof_car E (tree_load (c_data commit)) commit_cid commit_bytes paths)))"

definition record_proof_car :: "env \<Rightarrow> cid \<Rightarrow> nsid \<Rightarrow> record_key \<Rightarrow> proof_error + bytes" where
  "record_proof_car E commit_cid collection rkey = record_proofs_car E commit_cid [(collection, rkey)]"

section \<open>What opening a proof establishes\<close>

definition hashed :: "compress_fn \<Rightarrow> car_block \<Rightarrow> bool" where
  "hashed compress b \<longleftrightarrow> cid_compute compress (cid_codec (b_cid b)) (b_data b) = b_cid b"

definition keep_first :: "car_block \<Rightarrow> (cid \<rightharpoonup> bytes) \<Rightarrow> (cid \<rightharpoonup> bytes)" where
  "keep_first b m = (if m (b_cid b) = None then m(b_cid b \<mapsto> b_data b) else m)"

lemma proof_blocks_iff:
  "proof_blocks C r m = Inr m' \<longleftrightarrow>
     (\<exists>bs. sr_rest r = concat (map enc_block bs) \<and> (\<forall>b \<in> set bs. block_ok b \<and> hashed C b) \<and> m' = fold keep_first bs m)"
proof (induction C r m arbitrary: m' rule: proof_blocks.induct)
  case (1 C r m)
  show ?case
  proof (cases "sr_rest r = []")
    case True
    have "bs = []" if "[] = concat (map enc_block bs)" for bs using that by (cases bs) simp_all
    then show ?thesis using True by (subst proof_blocks.simps) (auto simp: slice_next_def)
  next
    case False
    show ?thesis
    proof (cases "split_block (sr_rest r)")
      case (Inl e)
      have "\<not> (\<exists>bs. sr_rest r = concat (map enc_block bs) \<and> (\<forall>b \<in> set bs. block_ok b))"
      proof
        assume "\<exists>bs. sr_rest r = concat (map enc_block bs) \<and> (\<forall>b \<in> set bs. block_ok b)"
        then obtain b bs where "sr_rest r = enc_block b @ concat (map enc_block bs)" "block_ok b"
          using False by (metis concat.simps(1) concat.simps(2) list.map(1) list.set_intros(1) list.simps(9) neq_Nil_conv)
        then show False using split_block_iff [of "sr_rest r" b] Inl by auto
      qed
      then show ?thesis using False Inl by (subst proof_blocks.simps) (auto simp: slice_next_def)
    next
      case (Inr br)
      obtain b rest where br: "br = (b, rest)" by fastforce
      have s: "block_ok b" "sr_rest r = enc_block b @ rest" using Inr split_block_iff br by auto
      have uniq: "b' = b \<and> rest' = rest" if "sr_rest r = enc_block b' @ rest'" "block_ok b'" for b' rest'
        using that split_block_iff [of "sr_rest r" b' rest'] Inr br by auto
      have next': "slice_next r = (Some (Inr b), r\<lparr>sr_rest := rest\<rparr>)" using False Inr br by (simp add: slice_next_def)
      have step: "proof_blocks C r m = Inr m' \<longleftrightarrow> hashed C b \<and> proof_blocks C (r\<lparr>sr_rest := rest\<rparr>) (keep_first b m) = Inr m'"
        by (subst proof_blocks.simps) (auto simp: next' hashed_def keep_first_def)
      have ih: "proof_blocks C (r\<lparr>sr_rest := rest\<rparr>) (keep_first b m) = Inr m' \<longleftrightarrow>
          (\<exists>bs. rest = concat (map enc_block bs) \<and> (\<forall>b \<in> set bs. block_ok b \<and> hashed C b) \<and> m' = fold keep_first bs (keep_first b m))"
        if "hashed C b"
        using "1.IH" [OF next' [symmetric] refl refl, of m'] that
        unfolding hashed_def [of C b] keep_first_def [of b m, symmetric] by simp
      show ?thesis
      proof
        assume "proof_blocks C r m = Inr m'"
        then obtain bs where "rest = concat (map enc_block bs)" "\<forall>b \<in> set bs. block_ok b \<and> hashed C b"
          "m' = fold keep_first bs (keep_first b m)" "hashed C b"
          using step ih by blast
        then show "\<exists>bs. sr_rest r = concat (map enc_block bs) \<and> (\<forall>b \<in> set bs. block_ok b \<and> hashed C b) \<and> m' = fold keep_first bs m"
          using s by (intro exI [of _ "b # bs"]) simp
      next
        assume "\<exists>bs. sr_rest r = concat (map enc_block bs) \<and> (\<forall>b \<in> set bs. block_ok b \<and> hashed C b) \<and> m' = fold keep_first bs m"
        then obtain bs where bs: "sr_rest r = concat (map enc_block bs)" "\<forall>b \<in> set bs. block_ok b \<and> hashed C b" "m' = fold keep_first bs m" by blast
        then obtain b' bs' where b': "bs = b' # bs'" using False by (cases bs) auto
        then have "b' = b" "concat (map enc_block bs') = rest" using uniq bs(1,2) by auto
        then show "proof_blocks C r m = Inr m'" using step ih bs b' by auto
      qed
    qed
  qed
qed

lemma keep_first_verified:
  assumes "fold keep_first bs m c = Some data" "\<forall>b \<in> set bs. block_ok b \<and> hashed C b"
    and "m c = Some data \<Longrightarrow> in_memory data \<and> cid_compute C (cid_codec c) data = c"
  shows "in_memory data \<and> cid_compute C (cid_codec c) data = c"
  using assms
proof (induction bs arbitrary: m)
  case (Cons b bs)
  have "keep_first b m c = Some data \<Longrightarrow> in_memory data \<and> cid_compute C (cid_codec c) data = c"
    using Cons.prems(2,3) by (auto simp: keep_first_def hashed_def block_ok_def split: if_splits)
  then show ?case using Cons.IH [of "keep_first b m"] Cons.prems(1,2) by simp
qed simp

lemma open_proof_ok:
  assumes "open_proof E car did key = Inr p"
  shows "blocks_verified (proof_env E (op_blocks p))" "c_did (op_commit p) = did" "commit_verify key (op_commit p) = Inr ()"
    and "\<exists>block. drisl_block (op_blocks p) (op_commit_cid p) = Inr block \<and> from_cbor (simd_utf8 E) block = Inr (op_commit p)"
proof -
  obtain reader where r: "proof_blocks (compress256 E) reader Map.empty = Inr (op_blocks p)" "c_did (op_commit p) = did"
    "commit_verify key (op_commit p) = Inr ()"
    "\<exists>block. drisl_block (op_blocks p) (op_commit_cid p) = Inr block \<and> from_cbor (simd_utf8 E) block = Inr (op_commit p)"
    using assms by (auto simp: open_proof_def and_then_eq_Inr split: if_splits)
  then show "c_did (op_commit p) = did" "commit_verify key (op_commit p) = Inr ()"
    "\<exists>block. drisl_block (op_blocks p) (op_commit_cid p) = Inr block \<and> from_cbor (simd_utf8 E) block = Inr (op_commit p)" by simp_all
  have "in_memory data \<and> cid_compute (compress256 E) (cid_codec c) data = c" if "op_blocks p c = Some data" for c data
    using r(1) that keep_first_verified [of _ Map.empty c data "compress256 E"] unfolding proof_blocks_iff by auto
  then show "blocks_verified (proof_env E (op_blocks p))" by (simp add: blocks_verified_def proof_env_def map_read_block_def)
qed

section \<open>Verified proofs tell the truth\<close>

lemma proof_env_sel [simp]: "compress256 (proof_env E blocks) = compress256 E" "simd_utf8 (proof_env E blocks) = simd_utf8 E"
  by (simp_all add: proof_env_def)

lemma trusted_proof_env [simp]: "trusted (proof_env E blocks) = trusted E" "platform_ok (proof_env E blocks) \<longleftrightarrow> platform_ok E"
  by (simp_all add: trusted_def platform_ok_def fun_eq_iff)

text \<open>The tree of the signed commit, as the repository's owner knows it.\<close>

definition committed :: "env \<Rightarrow> contents \<Rightarrow> node \<Rightarrow> commit \<Rightarrow> bool" where
  "committed E \<sigma> p commit \<longleftrightarrow> all_nodes (trusted E \<sigma>) p \<and> ksorted (inorder \<sigma> p) \<and> platform_ok E \<and>
     c_data commit = merkle (compress256 E) p"

lemma opened_known:
  assumes "open_proof E car did key = Inr pr" "committed E \<sigma> p (op_commit pr)"
  shows "known_tree (proof_env E (op_blocks pr)) \<sigma> p" "reads (proof_env E (op_blocks pr)) p (tree_load (c_data (op_commit pr)))"
proof -
  have k: "all_nodes (trusted E \<sigma>) p" "platform_ok E" "c_data (op_commit pr) = merkle (compress256 E) p"
    using assms(2) by (simp_all add: committed_def)
  have "nloaded p" using k(1) by (simp add: all_nodes_sel trusted_def)
  then have "cid_valid (merkle (compress256 E) p)" using merkle_valid [OF k(2)] by blast
  then show "reads (proof_env E (op_blocks pr)) p (tree_load (c_data (op_commit pr)))"
    using reads_load [of "proof_env E (op_blocks pr)" p] k(3) by simp
  show "known_tree (proof_env E (op_blocks pr)) \<sigma> p"
    using assms(2) open_proof_ok(1) [OF assms(1)] by (simp add: known_tree_def committed_def)
qed

lemma record_block_ok:
  assumes "record_block u blocks c = Inr data" "blocks_verified (proof_env E blocks)"
  shows "cid_compute (compress256 E) Drisl data = c" "\<exists>m. decode u data = Inr (Map m)"
proof -
  have d: "cid_codec c = Drisl" "blocks c = Some data" "\<exists>m. decode u data = Inr (Map m)"
    using assms(1) by (auto simp: record_block_def drisl_block_def and_then_eq_Inr ok_or_def split: if_splits option.splits sum.splits cbor_value.splits)
  moreover have "cid_compute (compress256 E) (cid_codec c) data = c"
    using d(2) assms(2) by (simp add: blocks_verified_def) (simp add: proof_env_def map_read_block_def)
  ultimately show "cid_compute (compress256 E) Drisl data = c" "\<exists>m. decode u data = Inr (Map m)" by simp_all
qed

text \<open>
  C5. A verified record proof tells the truth, whoever built the archive: the commit is the DID's and
  signed by the key, and the record it shows is the one the signed tree holds under that path,
  with the bytes its CID names; when it shows none, the tree holds none.
\<close>

theorem record_proof_sound:
  assumes "verify_record_proof E car did key collection rkey = Inr pr" "committed E \<sigma> p (rp_commit pr)"
  shows "c_did (rp_commit pr) = did \<and> commit_verify key (rp_commit pr) = Inr () \<and>
    map_of (inorder \<sigma> p) (mst_key collection rkey) = map_option fst (rp_record pr) \<and>
    (case rp_record pr of None \<Rightarrow> True
     | Some (c, data) \<Rightarrow> cid_compute (compress256 E) Drisl data = c \<and> (\<exists>m. decode (simd_utf8 E) data = Inr (Map m)))"
proof -
  obtain o1 found rec where v: "open_proof E car did key = Inr o1"
    "fst (tree_get (proof_env E (op_blocks o1)) (mst_key collection rkey) (tree_load (c_data (op_commit o1)))) = Inr found"
    "(case found of None \<Rightarrow> Inr None
      | Some cid \<Rightarrow> and_then (record_block (simd_utf8 E) (op_blocks o1) cid) (\<lambda>data. Inr (Some (cid, data)))) = (Inr rec :: proof_error + (cid \<times> bytes) option)"
    "pr = \<lparr>rp_commit = op_commit o1, rp_commit_cid = op_commit_cid o1, rp_record = rec\<rparr>"
    using assms(1) by (auto simp: verify_record_proof_def and_then_eq_Inr)
  have c: "committed E \<sigma> p (op_commit o1)" using assms(2) v(4) by simp
  note o = opened_known [OF v(1) c] open_proof_ok(1-3) [OF v(1)]
  obtain t' where "tree_get (proof_env E (op_blocks o1)) (mst_key collection rkey) (tree_load (c_data (op_commit o1))) = (Inr found, t')"
    using v(2) by (metis prod.collapse)
  from reads_get [OF this o(2,1)] have found: "found = map_of (inorder \<sigma> p) (mst_key collection rkey)" by simp
  show ?thesis
  proof (cases found)
    case None
    then show ?thesis using v(3,4) o(4,5) found by simp
  next
    case (Some cid)
    then obtain data where d: "record_block (simd_utf8 E) (op_blocks o1) cid = Inr data" "rec = Some (cid, data)"
      using v(3) by (auto simp: and_then_eq_Inr)
    then show ?thesis using record_block_ok [OF d(1) o(3)] v(4) o(4,5) found Some by simp
  qed
qed

text \<open>Whether the tree agrees with a claim.\<close>

definition holds :: "contents \<Rightarrow> node \<Rightarrow> record_claim \<Rightarrow> bool" where
  "holds \<sigma> p claim \<longleftrightarrow> map_of (inorder \<sigma> p) (mst_key (cl_collection claim) (cl_rkey claim)) = cl_cid claim"

lemma check_claims_split:
  assumes "check_claims E blocks claims t vs us = Inr (vs', us')" "reads (proof_env E blocks) p t" "known_tree (proof_env E blocks) \<sigma> p"
  shows "vs' = vs @ filter (holds \<sigma> p) claims \<and> us' = us @ filter (\<lambda>c. \<not> holds \<sigma> p c) claims"
  using assms(1,2)
proof (induction claims arbitrary: t vs us)
  case (Cons claim claims)
  obtain found t1 where g: "tree_get (proof_env E blocks) (mst_key (cl_collection claim) (cl_rkey claim)) t = (Inr found, t1)"
    using Cons.prems(1) by (auto split: prod.splits sum.splits)
  note r = reads_get [OF g Cons.prems(2) assms(3)]
  have h: "holds \<sigma> p claim \<longleftrightarrow> found = cl_cid claim" using r by (simp add: holds_def)
  have "check_claims E blocks claims t1 (if found = cl_cid claim then vs @ [claim] else vs)
      (if found = cl_cid claim then us else us @ [claim]) = Inr (vs', us')"
    using Cons.prems(1) g by (auto simp: and_then_eq_Inr split: if_splits)
  with Cons.IH r h show ?case by fastforce
qed simp

text \<open>
  Checking claims about many records against one proof sorts them into those the signed tree
  agrees with and those it does not, each list in the order of the claims, and no claim is lost.
\<close>

lemma claims_sorted:
  assumes "verify_proofs E car did key claims = Inr verdict" "committed E \<sigma> p (pv_commit verdict)"
  shows "c_did (pv_commit verdict) = did \<and> commit_verify key (pv_commit verdict) = Inr () \<and>
    pv_verified verdict = filter (holds \<sigma> p) claims \<and> pv_unverified verdict = filter (\<lambda>c. \<not> holds \<sigma> p c) claims"
proof -
  obtain o1 where v: "open_proof E car did key = Inr o1"
    "check_claims E (op_blocks o1) claims (tree_load (c_data (op_commit o1))) [] [] = Inr (pv_verified verdict, pv_unverified verdict)"
    "pv_commit verdict = op_commit o1"
    using assms(1) by (auto simp: verify_proofs_def and_then_eq_Inr)
  have c: "committed E \<sigma> p (op_commit o1)" using assms(2) v(3) by simp
  show ?thesis
    using check_claims_split [OF v(2) opened_known(2,1) [OF v(1) c]] open_proof_ok(2,3) [OF v(1)] v(3) by simp
qed

lemma records_loop_sound:
  assumes "records_loop E blocks entries rs = Inr rs'" "r \<in> set rs'" "r \<notin> set rs"
  shows "\<exists>key. (key, vr_cid r) \<in> set entries \<and> split_path key = Some (vr_collection r, vr_rkey r) \<and>
    record_block (simd_utf8 E) blocks (vr_cid r) = Inr (vr_record r)"
  using assms
proof (induction entries arbitrary: rs)
  case (Cons e entries)
  obtain key cid collection rkey where e: "e = (key, cid)" "split_path key = Some (collection, rkey)"
    using Cons.prems(1) by (cases e) (auto split: option.splits)
  let ?rs = "case record_block (simd_utf8 E) blocks cid of
      Inr rec \<Rightarrow> rs @ [\<lparr>vr_collection = collection, vr_rkey = rkey, vr_cid = cid, vr_record = rec\<rparr>] | Inl _ \<Rightarrow> rs"
  have l: "records_loop E blocks entries ?rs = Inr rs'" using Cons.prems(1) e by simp
  show ?case
  proof (cases "r \<in> set ?rs")
    case True
    then show ?thesis using Cons.prems(3) e by (auto split: sum.splits)
  next
    case False
    then show ?thesis using Cons.IH [OF l Cons.prems(2)] e(1) by auto
  qed
qed simp

text \<open>
  C19. Every record listed from a proof, however much of the tree is missing from it, is in the signed
  tree under its path, with the bytes its CID names.
\<close>

theorem records_listed_sound:
  assumes "verify_records E car did key = Inr records" "r \<in> set records"
    and "open_proof E car did key = Inr opened" "committed E \<sigma> p (op_commit opened)"
  shows "\<exists>key. split_path key = Some (vr_collection r, vr_rkey r) \<and> map_of (inorder \<sigma> p) key = Some (vr_cid r) \<and>
    cid_compute (compress256 E) Drisl (vr_record r) = vr_cid r"
proof -
  let ?o = opened
  note v = assms(3) and c = assms(4)
  obtain q t' entries where w: "walk_reachable (proof_env E (op_blocks ?o)) push_pair (tree_load (c_data (op_commit ?o))) [] = (q, t', entries)"
    by (metis prod_cases3)
  then have l: "q = Inr ()" "records_loop E (op_blocks ?o) entries [] = Inr records"
    using assms(1) v by (cases q; simp add: verify_records_def)+
  note o = opened_known [OF v c] open_proof_ok(1) [OF v]
  obtain key where k: "(key, vr_cid r) \<in> set entries" "split_path key = Some (vr_collection r, vr_rkey r)"
    "record_block (simd_utf8 E) (op_blocks opened) (vr_cid r) = Inr (vr_record r)"
    using records_loop_sound [OF l(2) assms(2)] by auto
  obtain ps where "feed push_pair ps [] = (Inr (), entries)" "set ps \<subseteq> set (inorder \<sigma> p)" using reads_walk [OF w [unfolded l(1)] o(2,1)] by blast
  then have "(key, vr_cid r) \<in> set (inorder \<sigma> p)" using k(1) by (auto simp: feed_push_pair)
  moreover have "ksorted (inorder \<sigma> p)" using c by (simp add: committed_def)
  ultimately have "map_of (inorder \<sigma> p) key = Some (vr_cid r)" by (simp add: map_of_is_SomeI strict_sorted_iff)
  then show ?thesis using k(2) record_block_ok(1) [OF k(3) o(3)] by blast
qed

section \<open>Built proofs verify\<close>

lemma search_blocks_extends: "set path \<subseteq> set (snd (search_blocks E key at c path))"
proof (induction "TREE_MAX_DEPTH + 1 - depth at" arbitrary: at c path rule: less_induct)
  case less
  show ?case
  proof (cases "depth at > TREE_MAX_DEPTH")
    case False
    then have ih: "set path \<subseteq> set (snd (search_blocks E key \<lparr>depth = Suc (depth at), lo = l, hi = h\<rparr> d (path @ [c])))" for l h d
      using less.hyps [of "\<lparr>depth = Suc (depth at), lo = l, hi = h\<rparr>" "path @ [c]" d] by simp
    show ?thesis
      using False ih
      by (auto simp: search_blocks.simps [of E key at c path] Let_def subset_iff split: sum.split option.split prod.split)
  qed (simp add: search_blocks.simps)
qed

lemma proof_paths_ok:
  assumes "proof_paths E (tree_load root) paths nodes found = Inr (nodes', found')"
  shows "set nodes \<subseteq> set nodes' \<and> set found \<subseteq> set found' \<and>
    (\<forall>(collection, rkey) \<in> set paths. \<exists>path r path'. search_blocks E (mst_key collection rkey) ROOT root path = (Inr r, path') \<and>
       set path' \<subseteq> set nodes' \<and> (\<forall>c. r = Some c \<longrightarrow> c \<in> set found'))"
  using assms
proof (induction paths arbitrary: nodes found)
  case (Cons p paths)
  obtain collection rkey where p: "p = (collection, rkey)" by fastforce
  have sp: "search_path E key (tree_load root) nodes = search_blocks E key ROOT root nodes" for key
    by (simp add: search_path_def check_usable_def tree_load_def tree_new_def search_nodes.simps stub_def)
  obtain r nodes1 where b: "search_blocks E (mst_key collection rkey) ROOT root nodes = (Inr r, nodes1)"
    "proof_paths E (tree_load root) paths nodes1 (found @ (case r of None \<Rightarrow> [] | Some c \<Rightarrow> [c])) = Inr (nodes', found')"
    using Cons.prems p sp by (auto split: prod.splits sum.splits)
  note ih = Cons.IH [OF b(2)]
  have "set nodes \<subseteq> set nodes1" using search_blocks_extends [of nodes E "mst_key collection rkey" ROOT root] b(1) by simp
  moreover have "\<forall>c. r = Some c \<longrightarrow> c \<in> set found'" using ih by auto
  ultimately show ?case using ih b(1) p by fastforce
qed simp

definition block_fits :: "env \<Rightarrow> bool" where
  "block_fits E \<longleftrightarrow> (\<forall>c data. read_block E c = Inr (Some data) \<longrightarrow> cid_valid c \<and> 36 + length data \<le> 2 ^ 27)"

definition from_source :: "env \<Rightarrow> car_block list \<Rightarrow> bool" where
  "from_source E bs \<longleftrightarrow> (\<forall>b \<in> set bs. read_block E (b_cid b) = Inr (Some (b_data b)))"

lemma proof_write_ok:
  assumes "proof_write E cids seen car = Inr car'" "block_fits E"
  shows "\<exists>bs. car' = car @ concat (map enc_block bs) \<and> from_source E bs \<and> b_cid ` set bs = set cids - seen"
  using assms
proof (induction E cids seen car rule: proof_write.induct)
  case (2 E c cids seen car)
  show ?case
  proof (cases "c \<in> seen")
    case True
    then show ?thesis using 2 by auto
  next
    case False
    obtain data where d: "read_block E c = Inr (Some data)"
      "proof_write E cids (insert c seen) (write_block \<lparr>b_cid = c, b_data = data\<rparr> car) = Inr car'"
      using "2.prems"(1) False by (auto simp: and_then_eq_Inr ok_or_def split: option.splits)
    let ?b = "\<lparr>b_cid = c, b_data = data\<rparr>"
    have "block_ok ?b" using d(1) "2.prems"(2) by (auto simp: block_fits_def block_ok_def)
    then have "write_block ?b car = car @ enc_block ?b" using fold_write_block [of "[?b]" car] by simp
    moreover obtain bs where "car' = write_block ?b car @ concat (map enc_block bs)" "from_source E bs" "b_cid ` set bs = set cids - insert c seen"
      using "2.IH"(2) [OF False] d "2.prems"(2) by fastforce
    ultimately show ?thesis using d(1) False by (intro exI [of _ "?b # bs"]) (auto simp: from_source_def)
  qed
qed (simp add: from_source_def)

lemma kept_blocks:
  assumes "from_source E bs" "\<forall>c data. m c = Some data \<longrightarrow> read_block E c = Inr (Some data)" "m c \<noteq> None \<or> c \<in> b_cid ` set bs"
  shows "\<exists>data. fold keep_first bs m c = Some data \<and> read_block E c = Inr (Some data)"
  using assms
proof (induction bs arbitrary: m)
  case (Cons b bs)
  have "read_block E c = Inr (Some data)" if "keep_first b m c = Some data" for c data
    using that Cons.prems(1,2) by (auto simp: keep_first_def from_source_def split: if_splits)
  moreover have "keep_first b m c \<noteq> None \<or> c \<in> b_cid ` set bs" using Cons.prems(3) by (auto simp: keep_first_def)
  moreover have "from_source E bs" using Cons.prems(1) by (simp add: from_source_def)
  ultimately show ?case using Cons.IH [of "keep_first b m"] by simp
qed auto

text \<open>A source whose commit a proof is built from: its blocks match their CIDs and fit in an archive.\<close>

definition proof_source :: "env \<Rightarrow> cid \<Rightarrow> commit \<Rightarrow> bool" where
  "proof_source E commit_cid commit \<longleftrightarrow> blocks_verified E \<and> block_fits E \<and> simd_utf8 E (lit ''roots'') \<and> simd_utf8 E (lit ''version'') \<and>
     cid_codec commit_cid = Drisl \<and> (\<exists>block. read_block E commit_cid = Inr (Some block) \<and> from_cbor (simd_utf8 E) block = Inr commit)"

lemma built_proof_opens:
  assumes "record_proofs_car E commit_cid paths = Inr car" "proof_source E commit_cid commit" "commit_verify key commit = Inr ()"
  shows "\<exists>blocks nodes found. open_proof E car (c_did commit) key = Inr \<lparr>op_blocks = blocks, op_commit_cid = commit_cid, op_commit = commit\<rparr> \<and>
    proof_paths E (tree_load (c_data commit)) paths [] [] = Inr (nodes, found) \<and>
    (\<forall>c \<in> set nodes \<union> set found. \<exists>data. blocks c = Some data \<and> read_block E c = Inr (Some data))"
proof -
  obtain block where b: "read_block E commit_cid = Inr (Some block)" "from_cbor (simd_utf8 E) block = Inr commit"
    "blocks_verified E" "block_fits E" "simd_utf8 E (lit ''roots'')" "simd_utf8 E (lit ''version'')" "cid_codec commit_cid = Drisl"
    using assms(2) by (auto simp: proof_source_def)
  let ?cb = "\<lparr>b_cid = commit_cid, b_data = block\<rparr>" and ?h = "enc (header_value [commit_cid])"
  obtain nodes found w where p: "proof_paths E (tree_load (c_data commit)) paths [] [] = Inr (nodes, found)"
    "writer_new [] [commit_cid] = Inr w" "proof_write E (nodes @ found) {commit_cid} (write_block ?cb w) = Inr car"
    using assms(1) b(1,2) by (auto simp: record_proofs_car_def proof_car_def ok_or_def and_then_eq_Inr)
  obtain bs where bs: "car = write_block ?cb w @ concat (map enc_block bs)" "from_source E bs" "b_cid ` set bs = set (nodes @ found) - {commit_cid}"
    using proof_write_ok [OF p(3) b(4)] by blast
  have ok: "block_ok x" if "x \<in> set (?cb # bs)" for x
    using that b(1,4) bs(2) by (auto simp: block_fits_def block_ok_def from_source_def)
  have v: "cid_valid commit_cid" using ok [of ?cb] by (simp add: block_ok_def)
  have h: "length ?h \<le> 2 ^ 20" using v by (simp add: header_value_def head_def enc_text_def tag42_def cid_to_tag42_bytes_def)
  have "w = leb (length ?h) @ ?h" using writer_new_spec [of "[commit_cid]" "[]"] p(2) h by simp
  then have car: "car = leb (length ?h) @ ?h @ concat (map enc_block (?cb # bs))"
    using fold_write_block [of "[?cb]" w] ok [of ?cb] bs(1) by simp
  obtain r where r: "r = \<lparr>sr_rest = concat (map enc_block (?cb # bs)), sr_roots = [commit_cid]\<rparr>" by blast
  have "decode_header (simd_utf8 E) ?h = Inr [commit_cid]"
    using b(5,6) v h by (intro decode_header_value) (simp_all add: MAX_COLLECTION_LEN_def)
  then have new: "slice_new (simd_utf8 E) car = Inr r" unfolding slice_new_iff using car h r by (intro exI [of _ ?h]) simp
  have src: "from_source E (?cb # bs)" using bs(2) b(1) by (simp add: from_source_def)
  have "hashed (compress256 E) x" if "x \<in> set (?cb # bs)" for x
    using that src b(3) by (auto simp: from_source_def hashed_def blocks_verified_def)
  then have "proof_blocks (compress256 E) r Map.empty = Inr (fold keep_first (?cb # bs) Map.empty)" (is "_ = Inr ?blocks")
    unfolding proof_blocks_iff using ok r by (intro exI [of _ "?cb # bs"]) auto
  moreover have kept: "\<exists>data. ?blocks c = Some data \<and> read_block E c = Inr (Some data)" if "c \<in> {commit_cid} \<union> set nodes \<union> set found" for c
    using that bs(3) by (intro kept_blocks [OF src]) auto
  moreover have "drisl_block ?blocks commit_cid = Inr block"
    using kept [of commit_cid] b(1,7) by (auto simp: drisl_block_def ok_or_def)
  ultimately have "open_proof E car (c_did commit) key = Inr \<lparr>op_blocks = ?blocks, op_commit_cid = commit_cid, op_commit = commit\<rparr>"
    using new r b(2) assms(3) by (simp add: open_proof_def)
  then show ?thesis using p(1) kept by blast
qed

lemma built_proof_lookup:
  assumes "record_proofs_car E commit_cid paths = Inr car" "proof_source E commit_cid commit" "commit_verify key commit = Inr ()"
    and "(collection, rkey) \<in> set paths" "fst (tree_get E (mst_key collection rkey) (tree_load (c_data commit))) = Inr found"
  shows "\<exists>blocks. open_proof E car (c_did commit) key = Inr \<lparr>op_blocks = blocks, op_commit_cid = commit_cid, op_commit = commit\<rparr> \<and>
    fst (tree_get (proof_env E blocks) (mst_key collection rkey) (tree_load (c_data commit))) = Inr found \<and>
    (\<forall>c. found = Some c \<longrightarrow> (\<exists>data. blocks c = Some data \<and> read_block E c = Inr (Some data)))"
proof -
  obtain blocks nodes found' where o: "open_proof E car (c_did commit) key = Inr \<lparr>op_blocks = blocks, op_commit_cid = commit_cid, op_commit = commit\<rparr>"
    "proof_paths E (tree_load (c_data commit)) paths [] [] = Inr (nodes, found')"
    "\<forall>c \<in> set nodes \<union> set found'. \<exists>data. blocks c = Some data \<and> read_block E c = Inr (Some data)"
    using built_proof_opens [OF assms(1-3)] by blast
  let ?key = "mst_key collection rkey" and ?t = "tree_load (c_data commit)" and ?F = "proof_env E blocks"
  obtain path r path' where s: "search_blocks E ?key ROOT (c_data commit) path = (Inr r, path')" "set path' \<subseteq> set nodes" "\<forall>c. r = Some c \<longrightarrow> c \<in> set found'"
    using proof_paths_ok [OF o(2)] assms(4) by blast
  have get: "tree_get G ?key ?t = (case get_node G ROOT ?key (stub (c_data commit) 0) [c_data commit \<mapsto> 1] of
      (r, n, refs) \<Rightarrow> (r, ?t\<lparr>t_root := Some n, t_refs := refs\<rparr>))" for G
    by (simp add: tree_get_def guarded_def check_usable_def tree_load_def tree_new_def split: prod.split)
  obtain n' refs' where g: "get_node E ROOT ?key (stub (c_data commit) 0) [c_data commit \<mapsto> 1] = (Inr found, n', refs')"
    using assms(5) by (auto simp: get split: prod.splits)
  obtain ps where ps: "search_blocks E ?key ROOT (c_data commit) path = (Inr found, path @ ps)"
    "\<forall>F. agrees E F (set ps) \<longrightarrow> get_node F ROOT ?key (stub (c_data commit) 0) [c_data commit \<mapsto> 1] = (Inr found, n', refs')"
    "\<forall>c \<in> set ps. \<exists>data. read_block E c = Inr (Some data)"
    using get_node_searches [OF g, of path] by blast
  have sub: "r = found" "set ps \<subseteq> set nodes" using s(1,2) ps(1) by auto
  have "read_block ?F c = read_block E c" if "c \<in> set nodes" for c
    using bspec [OF o(3)] that by (force simp: proof_env_def map_read_block_def)
  then have "agrees E ?F (set ps)" using sub(2) ps(3) by (auto simp: agrees_def)
  then have "fst (tree_get ?F ?key ?t) = Inr found" using ps(2) by (simp add: get)
  moreover have "\<forall>c. found = Some c \<longrightarrow> (\<exists>data. blocks c = Some data \<and> read_block E c = Inr (Some data))"
    using o(3) s(3) sub(1) by blast
  ultimately show ?thesis using o(1) by blast
qed

text \<open>
  C17. A proof built from a repository verifies: the archive made for some paths opens under the commit's
  DID and key, and for each of the paths it shows what a lookup in the repository finds, the record's
  bytes included, or that there is nothing. (The lookup's answer is an assumption: a search reads the
  nodes a lookup checks more closely.)
\<close>

theorem built_proof_verifies:
  assumes "record_proofs_car E commit_cid paths = Inr car" "proof_source E commit_cid commit" "commit_verify key commit = Inr ()"
    and "(collection, rkey) \<in> set paths" "fst (tree_get E (mst_key collection rkey) (tree_load (c_data commit))) = Inr found"
    and "\<And>c. found = Some c \<Longrightarrow> cid_codec c = Drisl \<and> (\<exists>data m. read_block E c = Inr (Some data) \<and> decode (simd_utf8 E) data = Inr (Map m))"
  shows "\<exists>rec. verify_record_proof E car (c_did commit) key collection rkey =
      Inr \<lparr>rp_commit = commit, rp_commit_cid = commit_cid, rp_record = rec\<rparr> \<and>
    map_option fst rec = found \<and> (\<forall>c data. rec = Some (c, data) \<longrightarrow> read_block E c = Inr (Some data))"
proof -
  obtain blocks where b: "open_proof E car (c_did commit) key = Inr \<lparr>op_blocks = blocks, op_commit_cid = commit_cid, op_commit = commit\<rparr>"
    "fst (tree_get (proof_env E blocks) (mst_key collection rkey) (tree_load (c_data commit))) = Inr found"
    "\<forall>c. found = Some c \<longrightarrow> (\<exists>data. blocks c = Some data \<and> read_block E c = Inr (Some data))"
    using built_proof_lookup [OF assms(1-5)] by blast
  show ?thesis
  proof (cases found)
    case (Some c)
    then obtain data m where d: "blocks c = Some data" "read_block E c = Inr (Some data)" "decode (simd_utf8 E) data = Inr (Map m)" "cid_codec c = Drisl"
      using b(3) assms(6) by fastforce
    then have "record_block (simd_utf8 E) blocks c = Inr data" by (simp add: record_block_def drisl_block_def ok_or_def)
    then show ?thesis using b(1,2) d(2) Some by (simp add: verify_record_proof_def)
  qed (use b in \<open>simp add: verify_record_proof_def\<close>)
qed

section \<open>A concrete proof\<close>

definition sample_path :: "nsid \<times> record_key" where
  "sample_path = (Nsid (small_string (lit ''a.b.c'')), RecordKey (small_string (lit ''x'')))"

definition sample_claim :: record_claim where
  "sample_claim = \<lparr>cl_collection = fst sample_path, cl_rkey = snd sample_path, cl_cid = Some sample_record_cid\<rparr>"

abbreviation (input) any_key :: verifying_key where "any_key \<equiv> \<lambda>_ _. Inr ()"

lemma sample_mst_key: "mst_key (fst sample_path) (snd sample_path) = lit ''a.b.c/x''"
  by (simp add: mst_key_def sample_path_def of_char_def)

lemma sample_head: "c_did sample_head_commit = sample_did" "c_data sample_head_commit = sample_root_cid"
  "commit_verify any_key sample_head_commit = Inr ()"
proof -
  show "c_did sample_head_commit = sample_did" "c_data sample_head_commit = sample_root_cid"
    by (simp_all add: sample_head_commit_def sample_commit_def)
  have "unsigned_bytes sample_head_commit = Inr (enc (Map (unsigned_entries sample_head_commit)))"
    using commit_okD(2) [OF head_ok] by (intro unsigned_bytes_enc) fastforce
  then show "commit_verify any_key sample_head_commit = Inr ()"
    by (simp add: commit_verify_def ok_or_def sample_head_commit_def sample_commit_def)
qed

lemma sample_proof_source: "proof_source sample_repo_env sample_head_cid sample_head_commit"
proof -
  have "block_fits sample_repo_env"
    using repo_block_lengths head_block_length repo_cid_valid record_hashes
    by (auto simp: block_fits_def repo_reads sample_root_cid_def sample_head_cid_def split: if_splits) (metis repo_cid_valid)
  then show ?thesis
    using repo_verified head_decodes by (simp add: proof_source_def repo_reads) (simp add: sample_head_cid_def cid_compute_def)
qed

lemma sample_built: "\<exists>car. record_proofs_car sample_repo_env sample_head_cid [sample_path] = Inr car"
proof -
  let ?h = "enc (header_value [sample_head_cid])"
  have "cid_valid sample_head_cid" using repo_cid_valid by (simp add: sample_head_cid_def)
  then have h: "length ?h \<le> 2 ^ 20" by (simp add: header_value_def head_def enc_text_def tag42_def cid_to_tag42_bytes_def)
  have "get_node sample_repo_env ROOT (lit ''a.b.c/x'') (stub sample_root_cid 0) [sample_root_cid \<mapsto> 1] = (Inr (Some sample_record_cid), sample_root_node, [sample_root_cid \<mapsto> 1])"
    using repo_get by (simp add: tree_get_def guarded_def check_usable_def tree_load_def tree_new_def split: prod.splits)
  from get_node_searches [OF this, of "[]"] obtain ps where ps:
    "search_blocks sample_repo_env (lit ''a.b.c/x'') ROOT sample_root_cid [] = (Inr (Some sample_record_cid), ps)"
    "\<forall>c \<in> set ps. \<exists>data. read_block sample_repo_env c = Inr (Some data)" by auto
  have w: "\<exists>car'. proof_write sample_repo_env cids seen car = Inr car'" if "\<forall>c \<in> set cids. \<exists>data. read_block sample_repo_env c = Inr (Some data)" for cids seen car
    using that by (induction cids arbitrary: seen car) (auto simp: ok_or_def)
  have "\<forall>c \<in> set (ps @ [sample_record_cid]). \<exists>data. read_block sample_repo_env c = Inr (Some data)"
    using ps(2) by (auto simp: repo_reads)
  note w = w [OF this, of "{sample_head_cid}"]
  have "proof_paths sample_repo_env (tree_load sample_root_cid) [sample_path] [] [] = Inr (ps, [sample_record_cid])"
    using ps(1) sample_mst_key surjective_pairing [of sample_path]
      proof_paths.simps(2) [of sample_repo_env "tree_load sample_root_cid" "fst sample_path" "snd sample_path" "[]" "[]" "[]"]
    by (simp add: search_path_def check_usable_def tree_load_def tree_new_def search_nodes.simps stub_def del: lit_Cons)
  then show ?thesis
    using writer_new_spec [of "[sample_head_cid]" "[]"] h head_decodes w
    by (simp add: record_proofs_car_def repo_reads ok_or_def proof_car_def sample_head)
qed

lemma sample_committed: "committed sample_repo_env sample_repo_contents owned_root sample_head_commit"
  using owned_trusted owned_merkle repo_platform by (simp add: committed_def sample_head)

text \<open>The archive built for the record, and what each check makes of it.\<close>

lemma sample_opens: "\<exists>car blocks. record_proofs_car sample_repo_env sample_head_cid [sample_path] = Inr car \<and>
    open_proof sample_repo_env car sample_did any_key = Inr \<lparr>op_blocks = blocks, op_commit_cid = sample_head_cid, op_commit = sample_head_commit\<rparr> \<and>
    fst (tree_get (proof_env sample_repo_env blocks) (lit ''a.b.c/x'') (tree_load sample_root_cid)) = Inr (Some sample_record_cid) \<and>
    record_block (\<lambda>_. True) blocks sample_record_cid = Inr sample_record_bytes"
proof -
  obtain car where car: "record_proofs_car sample_repo_env sample_head_cid [sample_path] = Inr car" using sample_built by blast
  have get: "fst (tree_get sample_repo_env (mst_key (fst sample_path) (snd sample_path)) (tree_load (c_data sample_head_commit))) = Inr (Some sample_record_cid)"
    using repo_get by (simp add: sample_mst_key sample_head del: lit_Cons)
  have "(fst sample_path, snd sample_path) \<in> set [sample_path]" by simp
  from built_proof_lookup [OF car sample_proof_source sample_head(3) this get] obtain blocks where b:
    "open_proof sample_repo_env car sample_did any_key = Inr \<lparr>op_blocks = blocks, op_commit_cid = sample_head_cid, op_commit = sample_head_commit\<rparr>"
    "fst (tree_get (proof_env sample_repo_env blocks) (lit ''a.b.c/x'') (tree_load sample_root_cid)) = Inr (Some sample_record_cid)"
    "\<exists>data. blocks sample_record_cid = Some data \<and> read_block sample_repo_env sample_record_cid = Inr (Some data)"
    by (auto simp: sample_head sample_mst_key simp del: lit_Cons)
  moreover have "blocks sample_record_cid = Some sample_record_bytes" using b(3) repo_cids by (simp add: repo_reads)
  then have "record_block (\<lambda>_. True) blocks sample_record_cid = Inr sample_record_bytes"
    using record_decodes by (simp add: record_block_def drisl_block_def ok_or_def)
  ultimately show ?thesis using car by blast
qed

theorem record_proof_sound_witness:
  "map_of (inorder sample_repo_contents owned_root) (lit ''a.b.c/x'') = Some sample_record_cid"
proof -
  obtain car blocks where o: "open_proof sample_repo_env car sample_did any_key = Inr \<lparr>op_blocks = blocks, op_commit_cid = sample_head_cid, op_commit = sample_head_commit\<rparr>"
    "fst (tree_get (proof_env sample_repo_env blocks) (lit ''a.b.c/x'') (tree_load sample_root_cid)) = Inr (Some sample_record_cid)"
    "record_block (\<lambda>_. True) blocks sample_record_cid = Inr sample_record_bytes" using sample_opens by blast
  have "verify_record_proof sample_repo_env car sample_did any_key (fst sample_path) (snd sample_path) =
      Inr \<lparr>rp_commit = sample_head_commit, rp_commit_cid = sample_head_cid, rp_record = Some (sample_record_cid, sample_record_bytes)\<rparr>"
    using o by (simp add: verify_record_proof_def sample_head sample_mst_key del: lit_Cons)
  from record_proof_sound [OF this, of sample_repo_contents owned_root] show ?thesis
    using sample_committed by (simp add: sample_mst_key del: lit_Cons)
qed

theorem built_proof_verifies_witness:
  "\<exists>car rec. record_proofs_car sample_repo_env sample_head_cid [sample_path] = Inr car \<and>
    verify_record_proof sample_repo_env car sample_did any_key (fst sample_path) (snd sample_path) =
      Inr \<lparr>rp_commit = sample_head_commit, rp_commit_cid = sample_head_cid, rp_record = rec\<rparr> \<and>
    map_option fst rec = Some sample_record_cid"
proof -
  obtain car where car: "record_proofs_car sample_repo_env sample_head_cid [sample_path] = Inr car" using sample_built by blast
  have "(fst sample_path, snd sample_path) \<in> set [sample_path]" by simp
  moreover have "fst (tree_get sample_repo_env (mst_key (fst sample_path) (snd sample_path)) (tree_load (c_data sample_head_commit))) = Inr (Some sample_record_cid)"
    using repo_get by (simp add: sample_mst_key sample_head del: lit_Cons)
  moreover have "cid_codec c = Drisl \<and> (\<exists>data m. read_block sample_repo_env c = Inr (Some data) \<and> decode (simd_utf8 sample_repo_env) data = Inr (Map m))"
    if "Some sample_record_cid = Some c" for c
    using that record_decodes repo_cids by (auto simp: repo_reads)
  ultimately show ?thesis
    using built_proof_verifies [OF car sample_proof_source sample_head(3), of "fst sample_path" "snd sample_path" "Some sample_record_cid"] car
    by (fastforce simp: sample_head)
qed

lemma sample_split: "\<exists>c r. split_path (lit ''a.b.c/x'') = Some (c, r)"
proof -
  have "\<exists>d. nsid_validate (lit ''a.b.c'') = Inr d"
    unfolding nsid_validate_parts nsid_of_def
    by (intro exI [of _ "[lit ''a'', lit ''b'']"] exI [of _ "lit ''c''"] exI)
      (simp add: nsid_parts_ok_def label_ok_def label_byte_def name_ok_def ascii_defs of_char_def)
  moreover have "recordkey_validate (lit ''x'') = Inr ()"
    unfolding recordkey_validate_ok by (simp add: recordkey_ok_def is_record_key_char_def ascii_defs of_char_def)
  moreover have "position (\<lambda>b. b = 0x2f) (lit ''a.b.c/x'') = Some 5" "take 5 (lit ''a.b.c/x'') = lit ''a.b.c''" "drop 6 (lit ''a.b.c/x'') = lit ''x''"
    by (simp_all add: of_char_def)
  ultimately show ?thesis by (auto simp: split_path_def nsid_try_from_def recordkey_try_from_def simp del: lit_Cons)
qed

lemma sample_lists:
  assumes "open_proof sample_repo_env car sample_did any_key = Inr \<lparr>op_blocks = blocks, op_commit_cid = sample_head_cid, op_commit = sample_head_commit\<rparr>"
    "fst (tree_get (proof_env sample_repo_env blocks) (lit ''a.b.c/x'') (tree_load sample_root_cid)) = Inr (Some sample_record_cid)"
  shows "\<exists>t. walk_reachable (proof_env sample_repo_env blocks) push_pair (tree_load sample_root_cid) [] = (Inr (), t, [(lit ''a.b.c/x'', sample_record_cid)])"
proof -
  let ?F = "proof_env sample_repo_env blocks" and ?n = "stub sample_root_cid 0"
  obtain r n refs where l: "load_node ?F ROOT ?n [sample_root_cid \<mapsto> 1] = (r, n, refs)" by (metis prod_cases3)
  have "r = Inr None"
    using assms(2) l by (auto simp: tree_get_def guarded_def check_usable_def tree_load_def tree_new_def get_node.simps [of _ ROOT]
      ensure_loaded_def split: prod.splits sum.splits option.splits)
  then obtain data where d: "read_block ?F sample_root_cid = Inr (Some data)"
    using load_node_stub [of ?F ROOT ?n] l by (metis node.sel(3) node.sel(5) option.inject stub_def)
  then have "cid_compute sample_repo_hash Drisl data = sample_root_cid"
    using open_proof_ok(1) [OF assms(1)] by (auto simp: blocks_verified_def sample_root_cid_def cid_compute_def)
  then have "data = sample_root_block"
    using owned_trusted(1) owned_merkle by (simp add: all_nodes_sel trusted_def)
  then have "agrees sample_repo_env ?F {sample_root_cid}" using d repo_cids by (simp add: agrees_def repo_reads)
  from load_node_agrees [OF root_loads this] have ld: "load_node ?F ROOT ?n refs = (Inr None, sample_root_node, refs)" for refs .
  have again: "load_node ?F ROOT sample_root_node refs = (Inr None, sample_root_node, refs)" for refs
    by (simp add: load_node_def sample_root_node_def)
  show ?thesis
    by (simp add: walk_reachable_def check_usable_def tree_load_def tree_new_def ensure_loaded_def ld again walk_reachable_node.simps [of _ _ _ sample_root_node] del: lit_Cons)
      (simp add: sample_root_node_def push_pair_def reach_entries.simps reach_child.simps del: lit_Cons)
qed

theorem records_listed_sound_witness:
  "\<exists>key (r :: verified_record). split_path key = Some (vr_collection r, vr_rkey r) \<and> map_of (inorder sample_repo_contents owned_root) key = Some (vr_cid r)"
proof -
  obtain car blocks where o: "open_proof sample_repo_env car sample_did any_key = Inr \<lparr>op_blocks = blocks, op_commit_cid = sample_head_cid, op_commit = sample_head_commit\<rparr>"
    "fst (tree_get (proof_env sample_repo_env blocks) (lit ''a.b.c/x'') (tree_load sample_root_cid)) = Inr (Some sample_record_cid)"
    "record_block (\<lambda>_. True) blocks sample_record_cid = Inr sample_record_bytes" using sample_opens by blast
  obtain c r where p: "split_path (lit ''a.b.c/x'') = Some (c, r)" using sample_split by blast
  let ?r = "\<lparr>vr_collection = c, vr_rkey = r, vr_cid = sample_record_cid, vr_record = sample_record_bytes\<rparr>"
  have "verify_records sample_repo_env car sample_did any_key = Inr [?r]"
    using o(1,3) sample_lists [OF o(1,2)] p by (auto simp: verify_records_def sample_head simp del: lit_Cons)
  from records_listed_sound [OF this _ o(1), of ?r sample_repo_contents owned_root] obtain key where
    "split_path key = Some (c, r)" "map_of (inorder sample_repo_contents owned_root) key = Some sample_record_cid"
    using sample_committed by auto
  then have "split_path key = Some (vr_collection ?r, vr_rkey ?r) \<and> map_of (inorder sample_repo_contents owned_root) key = Some (vr_cid ?r)" by simp
  then show ?thesis by blast
qed

end
