(* ===== verification/Mst_Cover.thy ===== *)
theory Mst_Cover
  imports Mst_Proof
begin

text \<open>
  Covering proofs (\<open>DetachedTree::covering_proof\<close> of \<open>src/src/mst/tree.rs\<close>): the nodes that prove,
  for each of some keys, its value and its neighbours.
\<close>

section \<open>Slots and the three rules\<close>

datatype slot = SlotLeft | SlotLeaf nat | SlotRight nat

text \<open>The child a slot holds: the index \<open>child_at\<close> is called with.\<close>

fun slot_index :: "slot \<Rightarrow> nat option" where
  "slot_index SlotLeft = Some 0"
| "slot_index (SlotRight i) = Some (i + 1)"
| "slot_index (SlotLeaf _) = None"

text \<open>\<open>partition_point\<close> on the entries of a node, which are in order.\<close>

definition gte_entry :: "node \<Rightarrow> str \<Rightarrow> nat" where
  "gte_entry n key = lower_bound ekey key (nentries n)"

definition slot_before :: "node \<Rightarrow> nat \<Rightarrow> slot option" where
  "slot_before n i =
     (if i = 0 then (if nleft n \<noteq> None then Some SlotLeft else None)
      else if i - 1 < length (nentries n) \<and> eright (nentries n ! (i - 1)) \<noteq> None then Some (SlotRight (i - 1))
      else if i - 1 < length (nentries n) then Some (SlotLeaf (i - 1))
      else None)"

definition slot_after :: "node \<Rightarrow> nat \<Rightarrow> slot option" where
  "slot_after n i =
     (if i \<ge> length (nentries n) then None
      else if eright (nentries n ! i) \<noteq> None then Some (SlotRight i)
      else if i + 1 < length (nentries n) then Some (SlotLeaf (i + 1))
      else None)"

type_synonym proof_step = "node \<Rightarrow> str \<Rightarrow> bool \<times> slot option"

definition key_step :: proof_step where
  "key_step n key =
     (let i = gte_entry n key in
      if i < length (nentries n) \<and> ekey (nentries n ! i) = key then (True, None)
      else let next = slot_before n i in
        ((case next of Some SlotLeft \<Rightarrow> True | Some (SlotRight _) \<Rightarrow> True | _ \<Rightarrow> False), next))"

definition left_sib_step :: proof_step where
  "left_sib_step n key = (True, slot_before n (gte_entry n key))"

definition right_sib_step :: proof_step where
  "right_sib_step n key =
     (let i = gte_entry n key;
          found = (if i < length (nentries n) then Some (SlotLeaf i) else slot_before n i)
      in (True, case found of
            Some (SlotLeaf j) \<Rightarrow> if ekey (nentries n ! j) = key then slot_after n j else slot_before n i
          | subtree \<Rightarrow> subtree))"

section \<open>One pass\<close>

text \<open>
  The loop over the keys: whether some key includes the node, and the runs of keys that continue
  into the same subtree, each a slot and a range of indices.
\<close>

definition push_run :: "slot \<Rightarrow> nat \<Rightarrow> (slot \<times> nat \<times> nat) list \<Rightarrow> (slot \<times> nat \<times> nat) list" where
  "push_run slot k runs =
     (if runs \<noteq> [] \<and> fst (last runs) = slot then butlast runs @ [(slot, fst (snd (last runs)), k + 1)]
      else runs @ [(slot, k, k + 1)])"

fun collect_runs :: "proof_step \<Rightarrow> node \<Rightarrow> str list \<Rightarrow> nat \<Rightarrow> bool \<Rightarrow> (slot \<times> nat \<times> nat) list \<Rightarrow>
    bool \<times> (slot \<times> nat \<times> nat) list" where
  "collect_runs step n [] k included runs = (included, runs)"
| "collect_runs step n (key # keys) k included runs =
     (case step n key of
        (include, next) \<Rightarrow>
          collect_runs step n keys (k + 1) (included \<or> include)
            (case next of
               None \<Rightarrow> runs
             | Some slot \<Rightarrow> if slot_index slot = None then runs else push_run slot k runs))"

text \<open>
  The subtrees the runs continue into, with their keys. Different runs have different slots, so each
  subtree is as the node's loading left it.
\<close>

definition run_children :: "node \<Rightarrow> str list \<Rightarrow> (slot \<times> nat \<times> nat) list \<Rightarrow> (nat \<times> node \<times> str list) list" where
  "run_children n keys runs =
     concat (map (\<lambda>(slot, start, end).
       case slot_index slot of
         None \<Rightarrow> []
       | Some i \<Rightarrow>
           let i = min i (length (nentries n))
           in (case child n i of None \<Rightarrow> [] | Some c \<Rightarrow> [(i, c, take (end - start) (drop start keys))])) runs)"

function (sequential) proof_pass ::
    "env \<Rightarrow> proof_step \<Rightarrow> place \<Rightarrow> str list \<Rightarrow> node \<Rightarrow> refs \<Rightarrow> cid list \<Rightarrow> (mst_error + unit) \<times> node \<times> refs \<times> cid list"
  and proof_runs ::
    "env \<Rightarrow> proof_step \<Rightarrow> place \<Rightarrow> (nat \<times> node \<times> str list) list \<Rightarrow> node \<Rightarrow> refs \<Rightarrow> cid list \<Rightarrow>
     (mst_error + unit) \<times> node \<times> refs \<times> cid list"
where
  "proof_pass E step at keys n refs out =
     (case ensure_loaded E at n refs of
        (Inl e, n, refs) \<Rightarrow> (Inl e, n, refs, out)
      | (Inr _, n, refs) \<Rightarrow>
          (case collect_runs step n keys 0 False [] of
             (included, runs) \<Rightarrow>
               if included \<and> ncid n = None then (Inl (Internal ''covering proof needs a flushed tree''), n, refs, out)
               else proof_runs E step at (run_children n keys runs) n refs (if included then out @ cid_list (ncid n) else out)))"
| "proof_runs E step at [] n refs out = (Inr (), n, refs, out)"
| "proof_runs E step at ((i, c, keys) # runs) n refs out =
     (case proof_pass E step (child_place n i at) keys c refs out of
        (Inl e, c, refs, out) \<Rightarrow> (Inl e, set_child n i (Some c), refs, out)
      | (Inr _, c, refs, out) \<Rightarrow> proof_runs E step at runs (set_child n i (Some c)) refs out)"
  by pat_completeness auto

text \<open>The largest rank among the subtrees of the runs.\<close>

fun runs_rank :: "place \<Rightarrow> (nat \<times> node \<times> str list) list \<Rightarrow> nat" where
  "runs_rank at [] = 0"
| "runs_rank at ((i, c, keys) # runs) = max (rank (child_place empty_node 0 at) c) (runs_rank at runs)"

lemma rank_child_place: "rank (child_place n i at) c = rank (child_place m j at) c"
  by (simp add: rank_def child_place_def)

lemma run_children_child: "(i, c, ks) \<in> set (run_children n keys runs) \<Longrightarrow> i \<le> length (nentries n) \<and> child n i = Some c"
  by (auto simp: run_children_def Let_def split: option.splits)

lemma runs_rank_less:
  "0 < k \<Longrightarrow> \<forall>(i, c, ks) \<in> set runs. rank (child_place empty_node 0 at) c < k \<Longrightarrow> runs_rank at runs < k"
  by (induction runs) auto

lemma runs_rank_loaded:
  assumes "(Inr u, n', refs') = ensure_loaded E at n refs"
  shows "runs_rank at (run_children n' keys runs) < rank at n"
proof (rule runs_rank_less)
  have l: "load_node E at n refs = (Inr None, n', refs')" using assms ensure_loaded_ok by metis
  show "0 < rank at n" using rank_child [OF l, of 0 n'] by simp
  have "rank (child_place empty_node 0 at) c < rank at n" if "(i, c, ks) \<in> set (run_children n' keys runs)" for i c ks
    using rank_child_Some [OF l, of i c empty_node] run_children_child [OF that] rank_child_place [of empty_node i at c empty_node 0] by simp
  then show "\<forall>(i, c, ks) \<in> set (run_children n' keys runs). rank (child_place empty_node 0 at) c < rank at n" by blast
qed

termination proof_pass
proof (relation "measures [
    \<lambda>x. (case x of Inl (E, step, at, keys, n, refs, out) \<Rightarrow> rank at n
         | Inr (E, step, at, runs, n, refs, out) \<Rightarrow> runs_rank at runs),
    \<lambda>x. (case x of Inl _ \<Rightarrow> 0 | Inr (E, step, at, runs, n, refs, out) \<Rightarrow> 1 + length runs)]", goal_cases)
  case (2 E step at keys n refs out)
  then show ?case using runs_rank_loaded by fastforce
next
  case (3 E step at i c keys runs n refs out)
  then show ?case using rank_child_place [of n i at c empty_node 0] by (auto simp: max_def)
next
  case (4 E step at i c keys runs n refs out)
  then show ?case by (auto simp: max_def)
qed simp

declare proof_pass.simps [simp del] proof_runs.simps(2) [simp del]

definition covering_proof :: "env \<Rightarrow> str list \<Rightarrow> tree \<Rightarrow> (mst_error + cid list) \<times> tree" where
  "covering_proof E keys t =
     (case check_usable t of
        Inl e \<Rightarrow> (Inl e, t)
      | Inr _ \<Rightarrow>
          let keys = remdups_adj (sort keys) in
          if keys = [] then (Inr [], t)
          else case t_root t of
            None \<Rightarrow> (and_then (empty_node_block (compress256 E)) (\<lambda>(c, _). Inr [c]), t)
          | Some n \<Rightarrow>
              (case proof_pass E key_step ROOT keys n (t_refs t) [] of
                 (Inl e, n, refs, out) \<Rightarrow> (Inl e, t\<lparr>t_root := Some n, t_refs := refs\<rparr>)
               | (Inr _, n, refs, out) \<Rightarrow>
              (case proof_pass E left_sib_step ROOT keys n refs out of
                 (Inl e, n, refs, out) \<Rightarrow> (Inl e, t\<lparr>t_root := Some n, t_refs := refs\<rparr>)
               | (Inr _, n, refs, out) \<Rightarrow>
              (case proof_pass E right_sib_step ROOT keys n refs out of
                 (r, n, refs, out) \<Rightarrow> (and_then r (\<lambda>_. Inr (remdups_adj (sort out))), t\<lparr>t_root := Some n, t_refs := refs\<rparr>)))))"

section \<open>Runs\<close>

text \<open>The child a step continues into, and what makes the runs of a step disjoint.\<close>

definition sub_index :: "proof_step \<Rightarrow> node \<Rightarrow> str \<Rightarrow> nat option" where
  "sub_index step n key = Option.bind (snd (step n key)) slot_index"

definition step_ok :: "proof_step \<Rightarrow> node \<Rightarrow> bool" where
  "step_ok step n \<longleftrightarrow> (\<forall>k i. sub_index step n k = Some i \<longrightarrow> i \<le> length (nentries n)) \<and>
     (\<forall>k k' i j. k < k' \<longrightarrow> sub_index step n k = Some i \<longrightarrow> sub_index step n k' = Some j \<longrightarrow> i \<le> j)"

lemma slot_index_inject: "slot_index s = Some i \<Longrightarrow> slot_index s' = Some i \<Longrightarrow> s = s'"
  by (cases s; cases s') auto

lemma slot_before_index: "slot_before n i = Some s \<Longrightarrow> slot_index s = Some j \<Longrightarrow> j = i"
  by (auto simp: slot_before_def split: if_splits)

lemma slot_after_index: "slot_after n i = Some s \<Longrightarrow> slot_index s = Some j \<Longrightarrow> j = Suc i"
  by (auto simp: slot_after_def split: if_splits)

lemma gte_entry_le: "gte_entry n key \<le> length (nentries n)"
  by (simp add: gte_entry_def length_takeWhile_le)

lemma gte_entry_mono: "k < k' \<Longrightarrow> gte_entry n k \<le> gte_entry n k'"
proof -
  assume "k < k'"
  have "length (takeWhile (\<lambda>e. ekey e < k) es) \<le> length (takeWhile (\<lambda>e. ekey e < k') es)" for es
    using \<open>k < k'\<close> by (induction es) auto
  then show ?thesis by (simp add: gte_entry_def)
qed

lemma gte_entry_found:
  assumes "gte_entry n k < length (nentries n)" "ekey (nentries n ! gte_entry n k) = k" "k < k'"
  shows "gte_entry n k < gte_entry n k'"
proof -
  have "length (takeWhile (\<lambda>e. ekey e < k) es) < length es \<Longrightarrow> ekey (es ! length (takeWhile (\<lambda>e. ekey e < k) es)) = k \<Longrightarrow>
      length (takeWhile (\<lambda>e. ekey e < k) es) < length (takeWhile (\<lambda>e. ekey e < k') es)" for es
    using assms(3) by (induction es) auto
  then show ?thesis using assms(1,2) by (simp add: gte_entry_def)
qed

lemma gte_entry_all: "\<not> gte_entry n k < length (nentries n) \<Longrightarrow> j < length (nentries n) \<Longrightarrow> ekey (nentries n ! j) < k"
  using gte_entry_le [of n k] takeWhile_eq_all_conv [of "\<lambda>e. ekey e < k" "nentries n"] takeWhile_nth [of j "\<lambda>e. ekey e < k" "nentries n"]
  by (metis (no_types, lifting) gte_entry_def le_neq_implies_less nth_mem nth_length_takeWhile length_takeWhile_le set_takeWhileD linorder_neqE_nat takeWhile_eq_take take_all_iff)

lemma slot_before_leaf: "slot_before n i = Some (SlotLeaf j) \<Longrightarrow> j < length (nentries n)"
  by (auto simp: slot_before_def split: if_splits)

lemma left_sib_index: "sub_index left_sib_step n k = Some i \<Longrightarrow> i = gte_entry n k"
  using slot_before_index by (auto simp: sub_index_def left_sib_step_def bind_eq_Some_conv)

lemma key_step_index: "sub_index key_step n k = Some i \<Longrightarrow> i = gte_entry n k"
  using slot_before_index by (auto simp: sub_index_def key_step_def Let_def bind_eq_Some_conv split: if_splits)

lemma right_sib_index:
  "sub_index right_sib_step n k = Some i \<Longrightarrow>
   i = gte_entry n k \<or> gte_entry n k < length (nentries n) \<and> ekey (nentries n ! gte_entry n k) = k \<and> i = Suc (gte_entry n k)"
proof (cases "gte_entry n k < length (nentries n)")
  case True
  then show "sub_index right_sib_step n k = Some i \<Longrightarrow> ?thesis"
    using slot_before_index slot_after_index
    by (auto simp: sub_index_def right_sib_step_def Let_def bind_eq_Some_conv split: if_splits)
next
  case False
  assume i: "sub_index right_sib_step n k = Some i"
  have "ekey (nentries n ! j) \<noteq> k" if "slot_before n (gte_entry n k) = Some (SlotLeaf j)" for j
    using gte_entry_all [OF False slot_before_leaf [OF that]] by simp
  then have "snd (right_sib_step n k) = slot_before n (gte_entry n k)"
    using False by (auto simp: right_sib_step_def Let_def split: option.split slot.split)
  then show ?thesis using i slot_before_index by (auto simp: sub_index_def bind_eq_Some_conv)
qed

lemma steps_ok: "step_ok key_step n" "step_ok left_sib_step n" "step_ok right_sib_step n"
proof -
  show "step_ok key_step n" "step_ok left_sib_step n"
    using key_step_index left_sib_index gte_entry_le gte_entry_mono unfolding step_ok_def by blast+
  have "i \<le> length (nentries n)" if "sub_index right_sib_step n k = Some i" for k i
    using right_sib_index [OF that] gte_entry_le [of n k] by auto
  moreover have "i \<le> j" if "k < k'" "sub_index right_sib_step n k = Some i" "sub_index right_sib_step n k' = Some j" for k k' i j
    using right_sib_index [OF that(2)] right_sib_index [OF that(3)] gte_entry_mono [OF that(1), of n] gte_entry_found [of n k k'] that(1) by fastforce
  ultimately show "step_ok right_sib_step n" unfolding step_ok_def by blast
qed

definition run_index :: "slot \<times> nat \<times> nat \<Rightarrow> nat" where
  "run_index r = the (slot_index (fst r))"

text \<open>What the runs collected before key \<open>k\<close> satisfy: subtrees in order, none after those still to come.\<close>

definition runs_inv :: "nat \<Rightarrow> nat \<Rightarrow> nat \<Rightarrow> (slot \<times> nat \<times> nat) list \<Rightarrow> bool" where
  "runs_inv len k bound runs \<longleftrightarrow> sorted_wrt (<) (map run_index runs) \<and>
     (\<forall>(s, a, b) \<in> set runs. slot_index s \<noteq> None \<and> a \<le> k \<and> b \<le> k) \<and> (\<forall>r \<in> set runs. run_index r \<le> bound \<and> run_index r \<le> len)"

lemma push_run_spec:
  assumes "runs_inv len k i runs" "slot_index slot = Some i" "i \<le> len"
  shows "runs_inv len (Suc k) i (push_run slot k runs)" "\<exists>a \<le> k. (slot, a, Suc k) \<in> set (push_run slot k runs)"
    "(s, a, b) \<in> set runs \<Longrightarrow> \<exists>b' \<ge> b. (s, a, b') \<in> set (push_run slot k runs)"
proof -
  have inv: "sorted_wrt (<) (map run_index runs)" "\<forall>(s, a, b) \<in> set runs. slot_index s \<noteq> None \<and> a \<le> k \<and> b \<le> k"
    "\<forall>r \<in> set runs. run_index r \<le> i \<and> run_index r \<le> len" using assms(1) by (auto simp: runs_inv_def)
  have all: "runs_inv len (Suc k) i (push_run slot k runs) \<and> (\<exists>a \<le> k. (slot, a, Suc k) \<in> set (push_run slot k runs)) \<and>
      (\<forall>s a b. (s, a, b) \<in> set runs \<longrightarrow> (\<exists>b' \<ge> b. (s, a, b') \<in> set (push_run slot k runs)))"
  proof (cases "runs \<noteq> [] \<and> fst (last runs) = slot")
    case True
    then obtain rs a b where r: "runs = rs @ [(slot, a, b)]" by (metis append_butlast_last_id prod.collapse)
    have "run_index (slot, a, x) = i" for x a using assms(2) by (simp add: run_index_def)
    moreover have p: "push_run slot k runs = rs @ [(slot, a, Suc k)]" using r by (simp add: push_run_def)
    moreover have "\<exists>b' \<ge> b. b' = Suc k \<or> P b'" for P using inv(2) r by (intro exI [of _ "Suc k"]) auto
    ultimately show ?thesis using inv r assms(2,3) unfolding p by (auto simp: runs_inv_def sorted_wrt_append le_Suc_eq)
  next
    case False
    have "run_index r < i" if "r \<in> set runs" for r
    proof -
      have "run_index r \<le> run_index (last runs)"
        using that inv(1) sorted_wrt_nth_less [of "(<)" "map run_index runs"]
        by (cases runs rule: rev_cases) (auto simp: sorted_wrt_append less_imp_le)
      moreover have "run_index (last runs) \<noteq> i"
      proof
        assume "run_index (last runs) = i"
        moreover have l: "last runs \<in> set runs" using that by (cases runs) auto
        then obtain j where "slot_index (fst (last runs)) = Some j" using bspec [OF inv(2) l] by (cases "last runs") auto
        ultimately have "fst (last runs) = slot" using slot_index_inject assms(2) by (metis option.sel run_index_def)
        then show False using False l by auto
      qed
      moreover have "run_index (last runs) \<le> i" using that inv(3) by (cases runs) auto
      ultimately show ?thesis by simp
    qed
    moreover have "run_index (slot, k, Suc k) = i" using assms(2) by (simp add: run_index_def)
    ultimately show ?thesis using inv False assms(2,3) by (auto simp: push_run_def runs_inv_def sorted_wrt_append le_Suc_eq)
  qed
  then show "runs_inv len (Suc k) i (push_run slot k runs)" "\<exists>a \<le> k. (slot, a, Suc k) \<in> set (push_run slot k runs)" by blast+
  show "(s, a, b) \<in> set runs \<Longrightarrow> \<exists>b' \<ge> b. (s, a, b') \<in> set (push_run slot k runs)" using all by blast
qed

lemma runs_inv_mono: "runs_inv len k i runs \<Longrightarrow> k \<le> k' \<Longrightarrow> i \<le> i' \<Longrightarrow> runs_inv len k' i' runs"
  by (fastforce simp: runs_inv_def)

lemma collect_runs_spec:
  assumes "collect_runs step n keys k included runs = (included', runs')" "step_ok step n" "sorted_wrt (<) keys"
    and "runs_inv (length (nentries n)) k i runs" "\<forall>key \<in> set keys. \<forall>j. sub_index step n key = Some j \<longrightarrow> i \<le> j"
  shows "\<exists>k' i'. runs_inv (length (nentries n)) k' i' runs'" "included' \<longleftrightarrow> included \<or> (\<exists>key \<in> set keys. fst (step n key))"
    "(s, a, b) \<in> set runs \<Longrightarrow> \<exists>b' \<ge> b. (s, a, b') \<in> set runs'"
    "j < length keys \<Longrightarrow> sub_index step n (keys ! j) = Some x \<Longrightarrow>
      \<exists>s a b. (s, a, b) \<in> set runs' \<and> slot_index s = Some x \<and> a \<le> k + j \<and> k + j < b"
proof -
  have "(\<exists>k' i'. runs_inv (length (nentries n)) k' i' runs') \<and> (included' \<longleftrightarrow> included \<or> (\<exists>key \<in> set keys. fst (step n key))) \<and>
    (\<forall>s a b. (s, a, b) \<in> set runs \<longrightarrow> (\<exists>b' \<ge> b. (s, a, b') \<in> set runs')) \<and>
    (\<forall>j x. j < length keys \<longrightarrow> sub_index step n (keys ! j) = Some x \<longrightarrow>
      (\<exists>s a b. (s, a, b) \<in> set runs' \<and> slot_index s = Some x \<and> a \<le> k + j \<and> k + j < b))"
    using assms(1,3-5)
  proof (induction keys arbitrary: k included runs i)
    case (Cons key keys)
    obtain inc next' where st: "step n key = (inc, next')" by fastforce
    define rs where "rs = (case next' of None \<Rightarrow> runs | Some slot \<Rightarrow> if slot_index slot = None then runs else push_run slot k runs)"
    have c: "collect_runs step n keys (Suc k) (included \<or> inc) rs = (included', runs')" using Cons.prems(1) st by (simp add: rs_def)
    have sorted: "sorted_wrt (<) keys" "\<forall>k' \<in> set keys. key < k'" using Cons.prems(2) by simp_all
    show ?case
    proof (cases "sub_index step n key")
      case None
      then have rs: "rs = runs" using st by (auto simp: rs_def sub_index_def split: option.splits)
      have inv: "runs_inv (length (nentries n)) (Suc k) i runs" using runs_inv_mono [OF Cons.prems(3)] by simp
      have le: "\<forall>key' \<in> set keys. \<forall>j. sub_index step n key' = Some j \<longrightarrow> i \<le> j" using Cons.prems(4) by simp
      note Cons.IH [OF c [unfolded rs] sorted(1) inv le]
      then have ih:
        "\<exists>k' i'. runs_inv (length (nentries n)) k' i' runs'" "included' \<longleftrightarrow> (included \<or> inc) \<or> (\<exists>key \<in> set keys. fst (step n key))"
        "\<forall>s a b. (s, a, b) \<in> set runs \<longrightarrow> (\<exists>b' \<ge> b. (s, a, b') \<in> set runs')"
        "\<forall>j x. j < length keys \<longrightarrow> sub_index step n (keys ! j) = Some x \<longrightarrow>
          (\<exists>s a b. (s, a, b) \<in> set runs' \<and> slot_index s = Some x \<and> a \<le> Suc k + j \<and> Suc k + j < b)" by blast+
      have "\<exists>s a b. (s, a, b) \<in> set runs' \<and> slot_index s = Some x \<and> a \<le> k + j \<and> k + j < b"
        if "j < length (key # keys)" "sub_index step n ((key # keys) ! j) = Some x" for j x
        using that None ih(4) by (cases j) auto
      then show ?thesis using ih(1-3) st by auto
    next
      case (Some x)
      then obtain slot where slot: "next' = Some slot" "slot_index slot = Some x" using st by (auto simp: sub_index_def bind_eq_Some_conv)
      then have rs: "rs = push_run slot k runs" by (simp add: rs_def)
      have le: "x \<le> length (nentries n)" using assms(2) Some by (simp add: step_ok_def)
      have "runs_inv (length (nentries n)) k x runs" using runs_inv_mono [OF Cons.prems(3)] Cons.prems(4) Some by simp
      note p = push_run_spec [OF this slot(2) le, folded rs]
      have "\<forall>key' \<in> set keys. \<forall>j. sub_index step n key' = Some j \<longrightarrow> x \<le> j"
        using assms(2) sorted(2) Some unfolding step_ok_def by blast
      note Cons.IH [OF c sorted(1) p(1) this]
      then have ih:
        "\<exists>k' i'. runs_inv (length (nentries n)) k' i' runs'" "included' \<longleftrightarrow> (included \<or> inc) \<or> (\<exists>key \<in> set keys. fst (step n key))"
        "\<forall>s a b. (s, a, b) \<in> set rs \<longrightarrow> (\<exists>b' \<ge> b. (s, a, b') \<in> set runs')"
        "\<forall>j x. j < length keys \<longrightarrow> sub_index step n (keys ! j) = Some x \<longrightarrow>
          (\<exists>s a b. (s, a, b) \<in> set runs' \<and> slot_index s = Some x \<and> a \<le> Suc k + j \<and> Suc k + j < b)" by blast+
      have "\<exists>s a b. (s, a, b) \<in> set runs' \<and> slot_index s = Some y \<and> a \<le> k + j \<and> k + j < b"
        if "j < length (key # keys)" "sub_index step n ((key # keys) ! j) = Some y" for j y
      proof (cases j)
        case 0
        obtain a where "a \<le> k" "(slot, a, Suc k) \<in> set rs" using p(2) by blast
        then show ?thesis using ih(3) 0 that slot(2) Some by (auto simp: Suc_le_eq) (metis Suc_le_lessD)
      qed (use that ih(4) in auto)
      moreover have "\<exists>b' \<ge> b. (s, a, b') \<in> set runs'" if "(s, a, b) \<in> set runs" for s a b
        using p(3) [OF that] ih(3) le_trans by blast
      ultimately show ?thesis using ih(1,2) st by auto
    qed
  qed auto
  then show "\<exists>k' i'. runs_inv (length (nentries n)) k' i' runs'" "included' \<longleftrightarrow> included \<or> (\<exists>key \<in> set keys. fst (step n key))"
    "(s, a, b) \<in> set runs \<Longrightarrow> \<exists>b' \<ge> b. (s, a, b') \<in> set runs'"
    "j < length keys \<Longrightarrow> sub_index step n (keys ! j) = Some x \<Longrightarrow>
      \<exists>s a b. (s, a, b) \<in> set runs' \<and> slot_index s = Some x \<and> a \<le> k + j \<and> k + j < b" by blast+
qed

lemma run_children_sorted:
  assumes "runs_inv (length (nentries n)) k i runs"
  shows "distinct (map fst (run_children n keys runs))"
proof -
  let ?f = "\<lambda>(slot, start, end). case slot_index slot of None \<Rightarrow> []
     | Some i \<Rightarrow> let i = min i (length (nentries n))
         in (case child n i of None \<Rightarrow> [] | Some c \<Rightarrow> [(i, c, take (end - start) (drop start keys))])"
  have one: "set (map fst (?f r)) \<subseteq> {run_index r} \<and> distinct (map fst (?f r))" if r_in: "r \<in> set runs" for r
  proof -
    obtain slot a b where r: "r = (slot, a, b)" by (cases r)
    obtain j where j: "slot_index slot = Some j" using r_in assms r by (fastforce simp: runs_inv_def)
    have "run_index r = j" using r j by (simp add: run_index_def)
    moreover have "run_index r \<le> length (nentries n)" using r_in assms by (simp add: runs_inv_def)
    ultimately show ?thesis using r j by (cases "child n j") (simp_all add: Let_def min_absorb1)
  qed
  have "distinct (map fst (concat (map ?f rs))) \<and> set (map fst (concat (map ?f rs))) \<subseteq> run_index ` set rs"
    if "sorted_wrt (<) (map run_index rs)" "set rs \<subseteq> set runs" for rs
    using that
  proof (induction rs)
    case (Cons r rs)
    have "run_index r \<notin> run_index ` set rs" using Cons.prems(1) by auto
    moreover have ih: "distinct (map fst (concat (map ?f rs)))" "set (map fst (concat (map ?f rs))) \<subseteq> run_index ` set rs"
      using Cons by simp_all
    moreover have r: "set (map fst (?f r)) \<subseteq> {run_index r}" "distinct (map fst (?f r))" using one [of r] Cons.prems(2) by auto
    ultimately have "set (map fst (?f r)) \<inter> set (map fst (concat (map ?f rs))) = {}" by blast
    then show ?case using ih r by (simp only: list.map concat.simps map_append distinct_append set_append list.set image_insert) blast
  qed simp
  from this [of runs] show ?thesis using assms by (simp add: runs_inv_def run_children_def)
qed

lemma run_children_covers:
  assumes "runs_inv (length (nentries n)) k i runs" "(s, a, b) \<in> set runs" "slot_index s = Some x" "child n x = Some c"
    and "a \<le> j" "j < b" "j < length keys"
  shows "\<exists>ks. (x, c, ks) \<in> set (run_children n keys runs) \<and> keys ! j \<in> set ks"
proof -
  have "x \<le> length (nentries n)" using assms(1-3) by (fastforce simp: runs_inv_def run_index_def)
  then have m: "min x (length (nentries n)) = x" by simp
  have "(x, c, take (b - a) (drop a keys)) \<in> set (run_children n keys runs)"
    unfolding run_children_def using assms(2-4) m by (auto simp: Let_def intro!: bexI [of _ "(s, a, b)"])
  moreover have "take (b - a) (drop a keys) ! (j - a) = keys ! j" "j - a < length (take (b - a) (drop a keys))" using assms(5-7) by auto
  then have "keys ! j \<in> set (take (b - a) (drop a keys))" by (metis nth_mem)
  ultimately show ?thesis by blast
qed

lemma run_children_keys: "sorted_wrt (<) keys \<Longrightarrow> (i, c, ks) \<in> set (run_children n keys runs) \<Longrightarrow> sorted_wrt (<) ks"
  by (auto simp: run_children_def Let_def intro: sorted_wrt_take sorted_wrt_drop split: option.splits)

section \<open>A pass only loads\<close>

lemma proof_pass_grows:
  shows "proof_pass E step at keys n refs out = (r, n', refs', out') \<Longrightarrow> set out \<subseteq> set out'"
    and "proof_runs E step at runs n refs out = (r, n', refs', out') \<Longrightarrow> set out \<subseteq> set out'"
proof (induction E step at keys n refs out and E step at runs n refs out arbitrary: r n' refs' out' and r n' refs' out'
    rule: proof_pass_proof_runs.induct)
  case (1 E step at keys n refs out)
  then show ?case
    by (auto simp: proof_pass.simps [of E step at keys n] split: prod.splits sum.splits if_splits)
next
  case (3 E step at i c keys runs n refs out)
  then show ?case
    by (fastforce simp: proof_runs.simps(2) split: prod.splits sum.splits)
qed simp

lemma proof_pass_loads:
  shows "proof_pass E step at keys n refs out = (r, n', refs', out') \<Longrightarrow> (\<And>m. step_ok step m) \<Longrightarrow> sorted_wrt (<) keys \<Longrightarrow>
      loads E n refs n' refs'"
    and "proof_runs E step at runs n refs out = (r, n', refs', out') \<Longrightarrow> (\<And>m. step_ok step m) \<Longrightarrow> nloaded n \<Longrightarrow> distinct (map fst runs) \<Longrightarrow>
      \<forall>(i, c, ks) \<in> set runs. i \<le> length (nentries n) \<and> child n i = Some c \<and> sorted_wrt (<) ks \<Longrightarrow> loads E n refs n' refs'"
proof (induction E step at keys n refs out and E step at runs n refs out arbitrary: r n' refs' out' and r n' refs' out'
    rule: proof_pass_proof_runs.induct)
  case (1 E step at keys n refs out)
  obtain r1 m refs1 where e: "ensure_loaded E at n refs = (r1, m, refs1)" by (metis prod_cases3)
  note start = loads_ensure [OF e]
  obtain included runs where c: "collect_runs step m keys 0 False [] = (included, runs)" by fastforce
  show ?case
  proof (cases "r1 = Inr () \<and> \<not> (included \<and> ncid m = None)")
    case True
    then have e: "ensure_loaded E at n refs = (Inr (), m, refs1)" using e by simp
    have p: "proof_runs E step at (run_children m keys runs) m refs1 (if included then out @ cid_list (ncid m) else out) = (r, n', refs', out')"
      using "1.prems"(1) True e c by (auto simp: proof_pass.simps [of E step at keys n])
    have "runs_inv (length (nentries m)) 0 0 []" by (simp add: runs_inv_def)
    then obtain k i where "runs_inv (length (nentries m)) k i runs" using collect_runs_spec(1) [OF c "1.prems"(2,3), of 0] by auto
    then have "distinct (map fst (run_children m keys runs))" by (rule run_children_sorted)
    moreover have "nloaded m" using ensure_loaded_loaded e by blast
    moreover have "\<forall>(i, c, ks) \<in> set (run_children m keys runs). i \<le> length (nentries m) \<and> child m i = Some c \<and> sorted_wrt (<) ks"
      using run_children_child run_children_keys [OF "1.prems"(3)] by blast
    ultimately have "loads E m refs1 n' refs'"
      using "1.IH" [OF e [symmetric] refl refl c [symmetric] _ p "1.prems"(2)] True by blast
    then show ?thesis using start by (rule loads_trans [rotated])
  next
    case False
    then show ?thesis
      using "1.prems"(1) e c start by (cases r1) (auto simp: proof_pass.simps [of E step at keys n])
  qed
next
  case (3 E step at i c keys runs n refs out)
  obtain r1 c1 refs1 out1 where p: "proof_pass E step (child_place n i at) keys c refs out = (r1, c1, refs1, out1)" by (metis prod_cases4)
  have i: "i \<le> length (nentries n)" "child n i = Some c" "sorted_wrt (<) keys" using "3.prems"(5) by auto
  have "loads E c refs c1 refs1" by (rule "3.IH"(1) [OF p "3.prems"(2) i(3)])
  then have l: "loads E n refs (set_child n i (Some c1)) refs1" by (rule loads_child [OF "3.prems"(3) i(1,2)])
  show ?case
  proof (cases r1)
    case (Inl e)
    then show ?thesis using "3.prems"(1) p l by (simp add: proof_runs.simps(2))
  next
    case (Inr u)
    then have q: "proof_runs E step at runs (set_child n i (Some c1)) refs1 out1 = (r, n', refs', out')"
      using "3.prems"(1) p by (simp add: proof_runs.simps(2))
    have "j \<le> length (nentries (set_child n i (Some c1))) \<and> child (set_child n i (Some c1)) j = Some d \<and> sorted_wrt (<) ks"
      if jd: "(j, d, ks) \<in> set runs" for j d ks
    proof -
      have "j \<le> length (nentries n) \<and> child n j = Some d \<and> sorted_wrt (<) ks" using "3.prems"(5) jd by auto
      moreover have "j \<noteq> i" using "3.prems"(4) jd by force
      moreover have "length (nentries (set_child n i (Some c1))) = length (nentries n)"
        using map_eq_imp_length_eq [OF set_child_keys [OF i(1)]] .
      ultimately show ?thesis by (simp add: child_set_child_other)
    qed
    then have "\<forall>(j, d, ks) \<in> set runs. j \<le> length (nentries (set_child n i (Some c1))) \<and> child (set_child n i (Some c1)) j = Some d \<and> sorted_wrt (<) ks"
      by blast
    moreover have "nloaded (set_child n i (Some c1))" "distinct (map fst runs)" using "3.prems"(3,4) by simp_all
    ultimately have "loads E (set_child n i (Some c1)) refs1 n' refs'"
      using "3.IH"(2) [OF p [symmetric] Inr refl refl q "3.prems"(2)] by blast
    then show ?thesis using l by (rule loads_trans [rotated])
  qed
qed (auto intro: loads_refl)

section \<open>A covering proof holds the search paths\<close>

lemma search_nodes_load:
  assumes "load_node E at n refs = (Inr None, m, refs1)" "ncid n = Some c" "sorted_wrt (<) (map ekey (nentries m))"
  shows "search_nodes E key at n path = (let i = gte_entry m key in
    if i < length (nentries m) \<and> ekey (nentries m ! i) = key then (Inr (Some (evalue (nentries m ! i))), path @ [c])
    else case child m i of None \<Rightarrow> (Inr None, path @ [c]) | Some x \<Rightarrow> search_nodes E key (child_place m i at) x (path @ [c]))"
    and "nloaded m" "ncid m = Some c"
proof -
  have i: "scan_entries (nentries m) key = gte_entry m key" by (simp add: scan_entries_lower_bound gte_entry_def)
  have "search_nodes E key at n path = (let i = gte_entry m key in
    if i < length (nentries m) \<and> ekey (nentries m ! i) = key then (Inr (Some (evalue (nentries m ! i))), path @ [c])
    else case child m i of None \<Rightarrow> (Inr None, path @ [c]) | Some x \<Rightarrow> search_nodes E key (child_place m i at) x (path @ [c])) \<and>
    nloaded m \<and> ncid m = Some c"
  proof (cases "nloaded n")
    case True
    then have "m = n" using load_node_ok [OF assms(1)] by auto
    then show ?thesis
      using True assms(2,3) by (auto simp: search_nodes.simps [of E key at n] search_entries_sorted gte_entry_def [symmetric] Let_def)
  next
    case False
    note st = search_step(1) [OF assms(1) False assms(2), of key, unfolded i] search_step(2,3) [OF assms(1) False assms(2)]
      search_step(5) [OF assms(1) False assms(2), of key, unfolded i]
    have "search_nodes E key (child_place m (gte_entry m key) at) x p = search_blocks E key (child_place m (gte_entry m key) at) (the (ncid x)) p"
      if "child m (gte_entry m key) = Some x" for x p
      using st(4) [OF that] by (auto simp: search_nodes.simps stub_def)
    moreover have "search_nodes E key at n path = search_blocks E key at c path" using False assms(2) by (simp add: search_nodes.simps)
    ultimately show ?thesis using st(1-3) by (auto simp: Let_def split: option.split)
  qed
  then show "search_nodes E key at n path = (let i = gte_entry m key in
    if i < length (nentries m) \<and> ekey (nentries m ! i) = key then (Inr (Some (evalue (nentries m ! i))), path @ [c])
    else case child m i of None \<Rightarrow> (Inr None, path @ [c]) | Some x \<Rightarrow> search_nodes E key (child_place m i at) x (path @ [c]))"
    "nloaded m" "ncid m = Some c" by blast+
qed

lemma left_sib_child: "child n (gte_entry n key) = Some x \<Longrightarrow> sub_index left_sib_step n key = Some (gte_entry n key)"
  using gte_entry_le [of n key] by (auto simp: sub_index_def left_sib_step_def slot_before_def child_def split: if_splits)

lemma child_place_set_child: "j \<le> length (nentries n) \<Longrightarrow> i \<le> length (nentries n) \<Longrightarrow> child_place (set_child n j c) i at = child_place n i at"
proof -
  assume j: "j \<le> length (nentries n)" and i: "i \<le> length (nentries n)"
  have k: "map ekey (nentries (set_child n j c)) = map ekey (nentries n)" using j by (rule set_child_keys)
  have l: "length (nentries (set_child n j c)) = length (nentries n)" using map_eq_imp_length_eq [OF k] .
  have "ekey (nentries (set_child n j c) ! x) = ekey (nentries n ! x)" if "x < length (nentries n)" for x
    using k l that by (metis nth_map)
  then show ?thesis using l i by (auto simp: child_place_def)
qed

lemma proof_pass_covers:
  shows "proof_pass E step at keys n refs out = (Inr (), n', refs', out') \<Longrightarrow> step = left_sib_step \<Longrightarrow> models E \<sigma> \<Longrightarrow> ksorted (inorder \<sigma> n) \<Longrightarrow>
      sorted_wrt (<) keys \<Longrightarrow> key \<in> set keys \<Longrightarrow> search_nodes E key at n path = (Inr v, path') \<Longrightarrow> set path' \<subseteq> set path \<union> set out'"
    and "proof_runs E step at runs n refs out = (Inr (), n', refs', out') \<Longrightarrow> step = left_sib_step \<Longrightarrow> models E \<sigma> \<Longrightarrow>
      \<forall>(i, c, ks) \<in> set runs. i \<le> length (nentries n) \<and> ksorted (inorder \<sigma> c) \<and> sorted_wrt (<) ks \<Longrightarrow>
      (i, c, ks) \<in> set runs \<Longrightarrow> key \<in> set ks \<Longrightarrow> search_nodes E key (child_place n i at) c path = (Inr v, path') \<Longrightarrow>
      set path' \<subseteq> set path \<union> set out'"
proof (induction E step at keys n refs out and E step at runs n refs out arbitrary: n' refs' out' path v path' and n' refs' out' i c ks path v path'
    rule: proof_pass_proof_runs.induct)
  case (1 E step at keys n refs out)
  obtain r1 m refs1 where e: "ensure_loaded E at n refs = (r1, m, refs1)" by (metis prod_cases3)
  then have e: "ensure_loaded E at n refs = (Inr (), m, refs1)"
    using "1.prems"(1) by (cases r1) (auto simp: proof_pass.simps [of E step at keys n])
  obtain included runs where c: "collect_runs step m keys 0 False [] = (included, runs)" by fastforce
  have ld: "nloaded m" "load_node E at n refs = (Inr None, m, refs1)" using ensure_loaded_loaded e ensure_loaded_ok by blast+
  have ks: "ksorted (inorder \<sigma> m)" using loads_contents [OF loads_ensure [OF e] "1.prems"(3)] "1.prems"(4) by simp
  have sorted: "sorted_wrt (<) (map ekey (nentries m))" by (rule node_entries_sorted [OF ld(1) ks])
  obtain cid where cid: "ncid n = Some cid" using "1.prems"(7) by (cases "ncid n") (auto simp: search_nodes.simps [of E key at n])
  note sn = search_nodes_load [OF ld(2) cid sorted]
  have ok: "step_ok step m" using "1.prems"(2) steps_ok(2) by simp
  have ri: "runs_inv (length (nentries m)) 0 0 []" by (simp add: runs_inv_def)
  note cs = collect_runs_spec [OF c ok "1.prems"(5) ri]
  have inc: "included" using cs(2) "1.prems"(2,6) by (auto simp: left_sib_step_def)
  have p: "proof_runs E step at (run_children m keys runs) m refs1 (out @ [cid]) = (Inr (), n', refs', out')"
    using "1.prems"(1) e c inc sn(3) by (simp add: proof_pass.simps [of E step at keys n])
  have "cid \<in> set out'" using proof_pass_grows(2) [OF p] by simp
  moreover have "set path' \<subseteq> set (path @ [cid]) \<union> set out'"
    if x: "child m (gte_entry m key) = Some x" "search_nodes E key (child_place m (gte_entry m key) at) x (path @ [cid]) = (Inr v, path')" for x
  proof -
    obtain j where j: "j < length keys" "keys ! j = key" using "1.prems"(6) by (auto simp: in_set_conv_nth)
    have "sub_index step m (keys ! j) = Some (gte_entry m key)" using left_sib_child [OF x(1)] j(2) "1.prems"(2) by simp
    then obtain s a b where r: "(s, a, b) \<in> set runs" "slot_index s = Some (gte_entry m key)" "a \<le> j" "j < b" using cs(4) [OF _ j(1)] by auto
    obtain k i where "runs_inv (length (nentries m)) k i runs" using cs(1) by auto
    from run_children_covers [OF this r(1,2) x(1) r(3,4) j(1)] j(2) obtain ks where k: "(gte_entry m key, x, ks) \<in> set (run_children m keys runs)" "key \<in> set ks" by blast
    have "\<forall>(i, c, ks) \<in> set (run_children m keys runs). i \<le> length (nentries m) \<and> ksorted (inorder \<sigma> c) \<and> sorted_wrt (<) ks"
    proof (clarify, intro conjI)
      fix i c ks'
      assume r: "(i, c, ks') \<in> set (run_children m keys runs)"
      show "i \<le> length (nentries m)" "sorted_wrt (<) ks'" using run_children_child [OF r] run_children_keys [OF "1.prems"(5) r] by simp_all
      show "ksorted (inorder \<sigma> c)" using run_children_child [OF r] ksorted_child [OF ld(1) ks, of i] by simp
    qed
    from "1.IH" [OF e [symmetric] refl refl c [symmetric] _ _ "1.prems"(2,3) this k x(2)] p inc sn(3) show ?thesis by simp
  qed
  ultimately show ?case
    using "1.prems"(7) unfolding sn(1) Let_def by (auto split: if_splits option.splits)
next
  case (3 E step at j d ks' runs n refs out)
  obtain r1 c1 refs1 out1 where p: "proof_pass E step (child_place n j at) ks' d refs out = (r1, c1, refs1, out1)" by (metis prod_cases4)
  then have p: "proof_pass E step (child_place n j at) ks' d refs out = (Inr (), c1, refs1, out1)"
    using "3.prems"(1) by (cases r1) (auto simp: proof_runs.simps(2))
  have q: "proof_runs E step at runs (set_child n j (Some c1)) refs1 out1 = (Inr (), n', refs', out')"
    using "3.prems"(1) p by (simp add: proof_runs.simps(2))
  have j: "j \<le> length (nentries n)" "ksorted (inorder \<sigma> d)" "sorted_wrt (<) ks'" using "3.prems"(4) by auto
  show ?case
  proof (cases "(i, c, ks) = (j, d, ks')")
    case True
    then have "set path' \<subseteq> set path \<union> set out1"
      using "3.IH"(1) [OF p "3.prems"(2,3) j(2,3)] "3.prems"(6,7) by simp
    then show ?thesis using proof_pass_grows(2) [OF q] by blast
  next
    case False
    then have mem: "(i, c, ks) \<in> set runs" using "3.prems"(5) by auto
    have "length (nentries (set_child n j (Some c1))) = length (nentries n)" using map_eq_imp_length_eq [OF set_child_keys [OF j(1)]] .
    then have "\<forall>(i, c, ks) \<in> set runs. i \<le> length (nentries (set_child n j (Some c1))) \<and> ksorted (inorder \<sigma> c) \<and> sorted_wrt (<) ks"
      using "3.prems"(4) by simp
    moreover have "i \<le> length (nentries n)" using "3.prems"(4) mem by auto
    ultimately show ?thesis
      using "3.IH"(2) [OF p [symmetric] refl refl refl q "3.prems"(2,3) _ mem "3.prems"(6)] "3.prems"(7)
      by (simp add: child_place_set_child [OF j(1)])
  qed
qed simp

text \<open>Loading more of a tree, wherever, does not change what a search that succeeds finds.\<close>

lemma load_elsewhere:
  assumes "load_node E at' n refs = (Inr None, m, refs1)" "\<not> nloaded n" "ncid n = Some c"
    and "search_blocks E key at c path = (Inr v, p)"
  shows "load_node E at n refs = (Inr None, m, refs1)"
proof -
  obtain data nd keys where l: "read_block E c = Inr (Some data)" "decode_node_data (simd_utf8 E) data = Inr nd"
    "for_each_key None (nd_entries nd) = Inr keys" "populate_node E n nd at' = Inr m"
    "link_children (node_links nd) refs 0 = (True, refs1, length (node_links nd))"
    using load_node_stub [OF assms(1,2)] assms(3) by (metis option.inject)
  have d: "\<not> depth at > TREE_MAX_DEPTH" using assms(4) by (auto simp: search_blocks.simps [of E key at c path])
  have "\<not> (keys \<noteq> [] \<and> (\<not> admits at (hd keys) \<or> \<not> admits at (last keys)))"
  proof
    assume out: "keys \<noteq> [] \<and> (\<not> admits at (hd keys) \<or> \<not> admits at (last keys))"
    have "and_then (decode_node_data (simd_utf8 E) data) (\<lambda>nd. and_then (for_each_key None (nd_entries nd)) (\<lambda>keys.
      if keys \<noteq> [] \<and> (\<not> admits at (hd keys) \<or> \<not> admits at (last keys)) then Inl out_of_place else Inr (nd, keys))) = Inl out_of_place"
      by (simp only: l(2,3) and_then_def sum.case if_P [OF out])
    then show False using assms(4) d l(1) by (simp add: search_blocks.simps [of E key at c path])
  qed
  then have "populate_node E n nd at = Inr m" using l(3,4) by (auto simp: populate_node_def split: if_splits)
  then show ?thesis using assms(2,3) d l(1,2,5) by (simp add: load_node_def)
qed

lemma set_child_values: "i \<le> length (nentries n) \<Longrightarrow> map evalue (nentries (set_child n i c)) = map evalue (nentries n)"
proof (cases n)
  case (Node l es d h ld)
  assume "i \<le> length (nentries n)"
  moreover have "(map evalue es)[j := evalue (es ! j)] = map evalue es" if "j < length es" for j
    using that list_update_id [of "map evalue es" j] by simp
  ultimately show ?thesis using Node by (cases i) (simp_all add: map_update)
qed

lemma search_loads:
  assumes "loads E n refs n' refs'" "models E \<sigma>" "ksorted (inorder \<sigma> n)" "search_nodes E key at n path = (Inr v, p)"
  shows "search_nodes E key at n' path = (Inr v, p)"
  using assms
proof (induction arbitrary: at path rule: loads.induct)
  case (loads_load at' n refs r m refs1)
  show ?case
  proof (cases "r = Inr None \<and> \<not> nloaded n")
    case False
    then have "m = n" using load_node_fail [OF loads_load.hyps] load_node_ok [of E at' n refs m refs1] loads_load.hyps by auto
    then show ?thesis using loads_load.prems(3) by simp
  next
    case True
    then obtain c where c: "ncid n = Some c" using loads_load.prems(3) by (cases "ncid n") (auto simp: search_nodes.simps [of E key at n])
    have l: "load_node E at n refs = (Inr None, m, refs1)"
      using load_elsewhere [of E at' n refs m refs1 c key at path v p] loads_load.hyps loads_load.prems(3) True c
      by (simp add: search_nodes.simps [of E key at n])
    have ld: "nloaded m" using l load_node_loaded by blast
    have "ksorted (inorder \<sigma> m)" using load_node_contents [OF l loads_load.prems(1)] loads_load.prems(2) by simp
    then have s: "sorted_wrt (<) (map ekey (nentries m))" by (rule node_entries_sorted [OF ld])
    note a = search_nodes_load [OF l c s]
    note b = search_nodes_load [OF load_node_loaded_id [OF ld] a(3) s]
    show ?thesis using a(1) b(1) loads_load.prems(3) by metis
  qed
next
  case (loads_child n i c refs c' refs')
  let ?n = "set_child n i (Some c')"
  have ks: "map ekey (nentries ?n) = map ekey (nentries n)" "map evalue (nentries ?n) = map evalue (nentries n)"
    using set_child_keys set_child_values loads_child.hyps(2) by blast+
  have s: "sorted_wrt (<) (map ekey (nentries n))" by (rule node_entries_sorted [OF loads_child.hyps(1) loads_child.prems(2)])
  obtain d where d: "ncid n = Some d" using loads_child.prems(3) by (cases "ncid n") (auto simp: search_nodes.simps [of E key at n])
  have len: "length (nentries ?n) = length (nentries n)" using map_eq_imp_length_eq [OF ks(1)] .
  have nth: "ekey (nentries ?n ! x) = ekey (nentries n ! x)" "evalue (nentries ?n ! x) = evalue (nentries n ! x)" if "x < length (nentries n)" for x
    using ks len that by (metis nth_map)+
  have g: "gte_entry ?n key = gte_entry n key"
    using scan_entries_keys [OF ks(1), of key] by (simp add: scan_entries_lower_bound gte_entry_def)
  let ?g = "gte_entry n key"
  have cp: "child_place ?n ?g at = child_place n ?g at" by (rule child_place_set_child [OF loads_child.hyps(2) gte_entry_le])
  note a = search_nodes_load(1) [OF load_node_loaded_id [OF loads_child.hyps(1)] d s, of E key at path]
  have "search_nodes E key at ?n path = (let i = gte_entry ?n key in
    if i < length (nentries ?n) \<and> ekey (nentries ?n ! i) = key then (Inr (Some (evalue (nentries ?n ! i))), path @ [d])
    else case child ?n i of None \<Rightarrow> (Inr None, path @ [d]) | Some x \<Rightarrow> search_nodes E key (child_place ?n i at) x (path @ [d]))"
    using search_nodes_load(1) [of E at ?n refs ?n refs d key path] loads_child.hyps(1) d s ks(1) by (simp add: load_node_loaded_id)
  also have "\<dots> = (Inr v, p)"
  proof (cases "?g < length (nentries n) \<and> ekey (nentries n ! ?g) = key")
    case True
    then show ?thesis using a loads_child.prems(3) nth by (simp add: g len Let_def)
  next
    case False
    then have f: "\<not> (?g < length (nentries ?n) \<and> ekey (nentries ?n ! ?g) = key)" using nth len by auto
    show ?thesis
    proof (cases "?g = i")
      case True
      have "ksorted (inorder \<sigma> c)" using ksorted_child [OF loads_child.hyps(1) loads_child.prems(2), of i] loads_child.hyps(2,3) by simp
      moreover have "search_nodes E key (child_place n ?g at) c (path @ [d]) = (Inr v, p)"
        using a [unfolded Let_def if_not_P [OF False]] loads_child.prems(3) True loads_child.hyps(3) by simp
      ultimately have "search_nodes E key (child_place n ?g at) c' (path @ [d]) = (Inr v, p)"
        using loads_child.IH loads_child.prems(1) by blast
      then show ?thesis unfolding g Let_def if_not_P [OF f] cp using True loads_child.hyps(2) by simp
    next
      case no: False
      then have "child ?n ?g = child n ?g" by (simp add: child_set_child_other)
      then show ?thesis unfolding g Let_def if_not_P [OF f] cp using a [unfolded Let_def if_not_P [OF False]] loads_child.prems(3) by simp
    qed
  qed
  finally show ?case .
next
  case (loads_trans n refs n1 refs1 n2 refs2)
  have "ksorted (inorder \<sigma> n1)" using loads_contents [OF loads_trans.hyps(1) loads_trans.prems(1)] loads_trans.prems(2) by simp
  then show ?case using loads_trans.IH loads_trans.prems by blast
qed simp

section \<open>The operation\<close>

lemma dedup_sorted:
  fixes keys :: "'a :: linorder list"
  shows "sorted_wrt (<) (remdups_adj (sort keys))" "set (remdups_adj (sort keys)) = set keys"
proof -
  have "sorted_wrt (<) (remdups_adj xs)" if "sorted xs" for xs :: "'a list"
    using that by (induction xs rule: remdups_adj.induct) auto
  then show "sorted_wrt (<) (remdups_adj (sort keys))" by simp
qed simp

text \<open>What the three passes do to the tree, and what they collect.\<close>

lemma covering_proof_passes:
  assumes "covering_proof E keys t = (r, t')" "\<not> t_poisoned t" "keys \<noteq> []" "t_root t = Some n"
  obtains n' refs' where "t' = t\<lparr>t_root := Some n', t_refs := refs'\<rparr>" "loads E n (t_refs t) n' refs'"
    "\<And>cs. r = Inr cs \<Longrightarrow> \<exists>n1 refs1 out1 n2 refs2 out2 out. loads E n (t_refs t) n1 refs1 \<and>
       proof_pass E left_sib_step ROOT (remdups_adj (sort keys)) n1 refs1 out1 = (Inr (), n2, refs2, out2) \<and>
       set out2 \<subseteq> set out \<and> cs = remdups_adj (sort out)"
proof -
  let ?keys = "remdups_adj (sort keys)"
  have ne: "?keys \<noteq> []" using assms(3) dedup_sorted(2) [of keys] by (metis empty_set set_empty)
  obtain r1 n1 refs1 out1 where p1: "proof_pass E key_step ROOT ?keys n (t_refs t) [] = (r1, n1, refs1, out1)" by (metis prod_cases4)
  have l1: "loads E n (t_refs t) n1 refs1" by (rule proof_pass_loads(1) [OF p1 steps_ok(1) dedup_sorted(1)])
  obtain r2 n2 refs2 out2 where p2: "proof_pass E left_sib_step ROOT ?keys n1 refs1 out1 = (r2, n2, refs2, out2)" by (metis prod_cases4)
  have l2: "loads E n (t_refs t) n2 refs2" using loads_trans [OF l1] proof_pass_loads(1) [OF p2 steps_ok(2) dedup_sorted(1)] by blast
  obtain r3 n3 refs3 out3 where p3: "proof_pass E right_sib_step ROOT ?keys n2 refs2 out2 = (r3, n3, refs3, out3)" by (metis prod_cases4)
  have l3: "loads E n (t_refs t) n3 refs3" using loads_trans [OF l2] proof_pass_loads(1) [OF p3 steps_ok(3) dedup_sorted(1)] by blast
  have g: "set out2 \<subseteq> set out3" by (rule proof_pass_grows(1) [OF p3])
  note c = assms(1) [unfolded covering_proof_def check_usable_def Let_def assms(4) option.case if_not_P [OF ne] if_not_P [OF assms(2)] sum.case p1 prod.case]
  show ?thesis
  proof (cases r1)
    case (Inl e)
    then show ?thesis using c l1 that by auto
  next
    case r1: (Inr u1)
    note c = c [unfolded r1 sum.case p2 prod.case]
    show ?thesis
    proof (cases r2)
      case (Inl e)
      then show ?thesis using c l2 that by auto
    next
      case r2: (Inr u2)
      note c = c [unfolded r2 sum.case p3 prod.case]
      have "\<exists>n1 refs1 out1 n2 refs2 out2 out. loads E n (t_refs t) n1 refs1 \<and>
          proof_pass E left_sib_step ROOT ?keys n1 refs1 out1 = (Inr (), n2, refs2, out2) \<and> set out2 \<subseteq> set out \<and> cs = remdups_adj (sort out)"
        if "r = Inr cs" for cs
      proof -
        have "cs = remdups_adj (sort out3)" "u2 = ()" using that c by (auto simp: and_then_eq_Inr)
        then show ?thesis using l1 p2 r2 g by blast
      qed
      moreover have "t' = t\<lparr>t_root := Some n3, t_refs := refs3\<rparr>" using c by simp
      ultimately show ?thesis using that [OF _ l3] by blast
    qed
  qed
qed

lemma covering_proof_spec:
  assumes "covering_proof E keys t = (r, t')" "usable \<sigma> t" "models E \<sigma>"
  shows "usable \<sigma> t' \<and> contents \<sigma> t' = contents \<sigma> t"
proof (cases "keys = [] \<or> t_root t = None")
  case True
  then have "t' = t" using assms(1,2) by (auto simp: covering_proof_def check_usable_def usable_def Let_def split: if_splits)
  then show ?thesis using assms(2) by simp
next
  case False
  then obtain n where n: "t_root t = Some n" by auto
  obtain n' refs' where t': "t' = t\<lparr>t_root := Some n', t_refs := refs'\<rparr>" "loads E n (t_refs t) n' refs'"
    using covering_proof_passes [OF assms(1) _ _ n] False assms(2) unfolding usable_def by blast
  then show ?thesis using loads_contents [OF t'(2) assms(3)] n assms(2) by (simp add: usable_def contents_def)
qed

text \<open>
  C18. The covering proof of some keys holds, for each of them, every node on its search path: what a
  consumer needs to look the key up, and so to verify what a commit says about it. The
  proof is sorted and lists no node twice.
\<close>

theorem covering_proof_covers:
  assumes "covering_proof E keys t = (Inr cs, t')" "usable \<sigma> t" "models E \<sigma>"
    and "key \<in> set keys" "search_path E key t [] = (Inr v, path)" "t_root t \<noteq> None"
  shows "set path \<subseteq> set cs \<and> sorted_wrt (<) cs"
proof -
  obtain n where n: "t_root t = Some n" using assms(6) by blast
  have u: "\<not> t_poisoned t" "ksorted (inorder \<sigma> n)" using assms(2) n by (simp_all add: usable_def contents_def)
  have ne: "keys \<noteq> []" using assms(4) by auto
  obtain n1 refs1 out1 n2 refs2 out2 out where p: "loads E n (t_refs t) n1 refs1"
    "proof_pass E left_sib_step ROOT (remdups_adj (sort keys)) n1 refs1 out1 = (Inr (), n2, refs2, out2)"
    "set out2 \<subseteq> set out" "cs = remdups_adj (sort out)"
    by (rule covering_proof_passes [OF assms(1) u(1) ne n]) blast
  have "search_nodes E key ROOT n [] = (Inr v, path)" using assms(5) n u(1) by (simp add: search_path_def check_usable_def)
  then have s: "search_nodes E key ROOT n1 [] = (Inr v, path)" by (rule search_loads [OF p(1) assms(3) u(2)])
  have "ksorted (inorder \<sigma> n1)" using loads_contents [OF p(1) assms(3)] u(2) by simp
  from proof_pass_covers(1) [OF p(2) refl assms(3) this dedup_sorted(1) _ s] assms(4)
  have "set path \<subseteq> set out2" by (simp add: dedup_sorted(2))
  then show ?thesis using p(3,4) dedup_sorted [of out] by auto
qed

definition one_entry :: tree where
  "one_entry = tree_new\<lparr>t_root := Some (Node None [Entry (lit ''a/b'') cid_zeroed None] (Some cid_zeroed) 0 True)\<rparr>"

definition one_entry_env :: env where
  "one_entry_env = \<lparr>read_block = \<lambda>_. Inr None, simd_utf8 = \<lambda>_. True, compress256 = \<lambda>s _. s\<rparr>"

theorem covering_proof_covers_witness:
  "\<exists>cs path. covering_proof one_entry_env [lit ''a/b''] one_entry = (Inr cs, one_entry) \<and>
    search_path one_entry_env (lit ''a/b'') one_entry [] = (Inr (Some cid_zeroed), path) \<and> cid_zeroed \<in> set path \<and> set path \<subseteq> set cs"
proof -
  let ?n = "Node None [Entry (lit ''a/b'') cid_zeroed None] (Some cid_zeroed) 0 True"
  have g: "gte_entry ?n (lit ''a/b'') = 0" by (simp add: gte_entry_def)
  have k: "key_step ?n (lit ''a/b'') = (True, None)" "left_sib_step ?n (lit ''a/b'') = (True, None)" "right_sib_step ?n (lit ''a/b'') = (True, None)"
    by (simp_all add: key_step_def left_sib_step_def right_sib_step_def g slot_before_def slot_after_def del: lit_Cons)
  have p: "proof_pass one_entry_env step ROOT [lit ''a/b''] ?n refs out = (Inr (), ?n, refs, out @ [cid_zeroed])"
    if "step ?n (lit ''a/b'') = (True, None)" for step refs out
    using that by (simp add: proof_pass.simps ensure_loaded_id run_children_def del: lit_Cons)
  have c: "covering_proof one_entry_env [lit ''a/b''] one_entry = (Inr [cid_zeroed], one_entry)"
    using p [of key_step, OF k(1)] p [of left_sib_step, OF k(2)] p [of right_sib_step, OF k(3)]
    by (simp add: covering_proof_def check_usable_def one_entry_def tree_new_def Let_def del: lit_Cons)
  have s: "search_path one_entry_env (lit ''a/b'') one_entry [] = (Inr (Some cid_zeroed), [cid_zeroed])"
    by (simp add: search_path_def check_usable_def one_entry_def tree_new_def search_nodes.simps search_entries_sorted del: lit_Cons)
  have "set [cid_zeroed] \<subseteq> set [cid_zeroed] \<and> sorted_wrt (<) [cid_zeroed]"
  proof (rule covering_proof_covers [OF c _ _ _ s])
    show "usable (\<lambda>_. []) one_entry" by (simp add: usable_def one_entry_def tree_new_def contents_def)
    show "models one_entry_env (\<lambda>_. [])" by (simp add: models_def one_entry_env_def)
    show "lit ''a/b'' \<in> set [lit ''a/b'']" by simp
    show "t_root one_entry \<noteq> None" by (simp add: one_entry_def)
  qed
  then show ?thesis using c s by (intro exI [of _ "[cid_zeroed]"]) (simp del: lit_Cons)
qed

end
