(* ===== verification/Repo.thy ===== *)
theory Repo
  imports Repo_Proof Mst_Cover
begin

text \<open>
  Repositories (\<open>Repo\<close> of \<open>src/src/repo/repo.rs\<close>): records staged in a tree over a store, and commits
  that sign and persist them. \<open>B\<close> is the store's operations, \<open>E\<close> gives the platform's functions;
  \<open>now\<close> is the time the clock reads.
\<close>

section \<open>State\<close>

record staged =
  sg_collection :: nsid
  sg_rkey :: record_key
  sg_prev :: "cid option"
  sg_cid :: "cid option"

record unsaved =
  us_nodes :: block_map
  us_retired :: "cid list"

record head =
  hd_cid :: cid
  hd_commit :: commit

record 's repo =
  r_did :: did
  r_clock :: tid_clock
  r_store :: 's
  r_tree :: tree
  r_records :: "cid \<rightharpoonup> bytes"
  r_staged :: "(str \<times> staged) list"
  r_unsaved :: unsaved
  r_head :: "head option"

definition unsaved_default :: unsaved where
  "unsaved_default = \<lparr>us_nodes = [], us_retired = []\<rparr>"

fun repo_mst_error :: "mst_error \<Rightarrow> repo_error" where
  "repo_mst_error (Storage e) = RepoStorage e"
| "repo_mst_error e = RepoMst e"

text \<open>\<open>StoreSource\<close>, and \<open>Overlay\<close>: unsaved nodes over the store.\<close>

definition source_env :: "'s repo_store_ops \<Rightarrow> env \<Rightarrow> 's \<Rightarrow> env" where
  "source_env B E s = E\<lparr>read_block := \<lambda>c. map_err Storage (rs_get_block B s c)\<rparr>"

definition overlay_env :: "'s repo_store_ops \<Rightarrow> env \<Rightarrow> block_map \<Rightarrow> 's \<Rightarrow> env" where
  "overlay_env B E nodes s = E\<lparr>read_block := \<lambda>c.
     case map_of nodes c of Some data \<Rightarrow> Inr (Some data) | None \<Rightarrow> map_err Storage (rs_get_block B s c)\<rparr>"

section \<open>Opening\<close>

definition repo_empty :: "'s \<Rightarrow> did \<Rightarrow> tid_clock \<Rightarrow> 's repo" where
  "repo_empty s did clock =
     \<lparr>r_did = did, r_clock = clock, r_store = s, r_tree = tree_new, r_records = Map.empty, r_staged = [],
      r_unsaved = unsaved_default, r_head = None\<rparr>"

definition repo_new :: "did \<Rightarrow> tid_clock \<Rightarrow> mem_repo_store repo" where
  "repo_new did clock = repo_empty mem_repo_new did clock"

definition repo_init :: "'s repo_store_ops \<Rightarrow> 's \<Rightarrow> did \<Rightarrow> tid_clock \<Rightarrow> repo_error + 's repo" where
  "repo_init B s did clock =
     and_then (map_err RepoStorage (rs_head B s)) (\<lambda>head.
       if head \<noteq> None then Inl StoreNotEmpty else Inr (repo_empty s did clock))"

definition repo_open :: "'s repo_store_ops \<Rightarrow> env \<Rightarrow> 's \<Rightarrow> repo_error + 's repo" where
  "repo_open B E s =
     and_then (map_err RepoStorage (rs_head B s)) (\<lambda>head.
     and_then (ok_or NoCommit head) (\<lambda>cid.
     and_then (map_err RepoStorage (rs_get_block B s cid)) (\<lambda>block.
     and_then (ok_or (MissingBlock cid) block) (\<lambda>bytes.
     and_then (from_cbor (simd_utf8 E) bytes) (\<lambda>commit.
     and_then (map_err (\<lambda>_. CommitError ''clock_id must fit in 10 bits'') (clock_new (tid_clock_id (c_rev commit)))) (\<lambda>clock.
       Inr \<lparr>r_did = c_did commit, r_clock = clock_observe (c_rev commit) clock, r_store = s, r_tree = tree_load (c_data commit),
            r_records = Map.empty, r_staged = [], r_unsaved = unsaved_default,
            r_head = Some \<lparr>hd_cid = cid, hd_commit = commit\<rparr>\<rparr>))))))"

definition has_staged_writes :: "'s repo \<Rightarrow> bool" where
  "has_staged_writes r \<longleftrightarrow> r_staged r \<noteq> []"

section \<open>Reads and writes\<close>

definition repo_lookup :: "'s repo_store_ops \<Rightarrow> env \<Rightarrow> str \<Rightarrow> 's repo \<Rightarrow> (repo_error + cid option) \<times> 's repo" where
  "repo_lookup B E key r =
     (case tree_get (source_env B E (r_store r)) key (r_tree r) of (v, t) \<Rightarrow> (map_err repo_mst_error v, r\<lparr>r_tree := t\<rparr>))"

definition repo_get :: "'s repo_store_ops \<Rightarrow> env \<Rightarrow> nsid \<Rightarrow> record_key \<Rightarrow> 's repo \<Rightarrow> (repo_error + (cid \<times> bytes) option) \<times> 's repo" where
  "repo_get B E collection rkey r =
     (case repo_lookup B E (mst_key collection rkey) r of
        (Inl e, r) \<Rightarrow> (Inl e, r)
      | (Inr None, r) \<Rightarrow> (Inr None, r)
      | (Inr (Some c), r) \<Rightarrow>
          (and_then (case r_records r c of
             Some data \<Rightarrow> Inr data
           | None \<Rightarrow> and_then (map_err RepoStorage (rs_get_block B (r_store r) c)) (ok_or (MissingBlock c))) (\<lambda>data.
             Inr (Some (c, data))), r))"

text \<open>\<open>stage\<close>: the value at the last commit is noted the first time a key changes.\<close>

definition stage :: "nsid \<Rightarrow> record_key \<Rightarrow> str \<Rightarrow> cid option \<Rightarrow> cid option \<Rightarrow> 's repo \<Rightarrow> 's repo" where
  "stage collection rkey key prev c r =
     (let entry = (case map_of (r_staged r) key of
            Some s \<Rightarrow> s
          | None \<Rightarrow> \<lparr>sg_collection = collection, sg_rkey = rkey, sg_prev = prev, sg_cid = c\<rparr>)
      in r\<lparr>r_staged := upd_list key (entry\<lparr>sg_cid := c\<rparr>) (r_staged r)\<rparr>)"

definition repo_put :: "'s repo_store_ops \<Rightarrow> env \<Rightarrow> nsid \<Rightarrow> record_key \<Rightarrow> str \<Rightarrow> bytes \<Rightarrow> 's repo \<Rightarrow> (repo_error + cid) \<times> 's repo" where
  "repo_put B E collection rkey key record r =
     (let c = cid_compute (compress256 E) Drisl record in
      case tree_insert (source_env B E (r_store r)) key c (r_tree r) of
        (Inl e, t) \<Rightarrow> (Inl (repo_mst_error e), r\<lparr>r_tree := t\<rparr>)
      | (Inr prev, t) \<Rightarrow>
          (Inr c, stage collection rkey key prev (Some c) (r\<lparr>r_tree := t, r_records := (r_records r)(c \<mapsto> record)\<rparr>)))"

definition repo_create :: "'s repo_store_ops \<Rightarrow> env \<Rightarrow> nsid \<Rightarrow> record_key \<Rightarrow> bytes \<Rightarrow> 's repo \<Rightarrow> (repo_error + cid) \<times> 's repo" where
  "repo_create B E collection rkey record r =
     (let key = mst_key collection rkey in
      case repo_lookup B E key r of
        (Inl e, r) \<Rightarrow> (Inl e, r)
      | (Inr found, r) \<Rightarrow> if found \<noteq> None then (Inl (RecordExists key), r) else repo_put B E collection rkey key record r)"

definition repo_update :: "'s repo_store_ops \<Rightarrow> env \<Rightarrow> nsid \<Rightarrow> record_key \<Rightarrow> bytes \<Rightarrow> 's repo \<Rightarrow> (repo_error + cid) \<times> 's repo" where
  "repo_update B E collection rkey record r =
     (let key = mst_key collection rkey in
      case repo_lookup B E key r of
        (Inl e, r) \<Rightarrow> (Inl e, r)
      | (Inr found, r) \<Rightarrow> if found = None then (Inl (RecordNotFound key), r) else repo_put B E collection rkey key record r)"

definition repo_delete :: "'s repo_store_ops \<Rightarrow> env \<Rightarrow> nsid \<Rightarrow> record_key \<Rightarrow> 's repo \<Rightarrow> (repo_error + unit) \<times> 's repo" where
  "repo_delete B E collection rkey r =
     (let key = mst_key collection rkey in
      case tree_remove (source_env B E (r_store r)) key (r_tree r) of
        (Inl e, t) \<Rightarrow> (Inl (repo_mst_error e), r\<lparr>r_tree := t\<rparr>)
      | (Inr None, t) \<Rightarrow> (Inl (RecordNotFound key), r\<lparr>r_tree := t\<rparr>)
      | (Inr (Some prev), t) \<Rightarrow> (Inr (), stage collection rkey key (Some prev) None (r\<lparr>r_tree := t\<rparr>)))"

section \<open>Committing\<close>

definition clock_next :: "u64 \<Rightarrow> tid_clock \<Rightarrow> tid \<times> tid_clock" where
  "clock_next now clock =
     (let ts = next_timestamp (c_last clock) now in (clock_tid (c_id clock) ts, clock\<lparr>c_last := ts\<rparr>))"

text \<open>
  The two loops that add a flush to what is not yet saved: a new node that was retired is as it was,
  a retired node that was never saved is dropped.
\<close>

fun merge_nodes_new :: "block_map \<Rightarrow> unsaved \<Rightarrow> unsaved" where
  "merge_nodes_new [] u = u"
| "merge_nodes_new ((c, data) # bs) u =
     merge_nodes_new bs
       (if c \<in> set (us_retired u) then u\<lparr>us_retired := remove1 c (us_retired u)\<rparr>
        else u\<lparr>us_nodes := upd_list c data (us_nodes u)\<rparr>)"

fun merge_nodes_retired :: "cid list \<Rightarrow> unsaved \<Rightarrow> unsaved" where
  "merge_nodes_retired [] u = u"
| "merge_nodes_retired (c # cs) u =
     merge_nodes_retired cs
       (if map_of (us_nodes u) c \<noteq> None then u\<lparr>us_nodes := del_list c (us_nodes u)\<rparr>
        else u\<lparr>us_retired := insort_insert c (us_retired u)\<rparr>)"

text \<open>The loop over the staged records: their operations in path order, and the new record blocks.\<close>

fun commit_ops :: "(cid \<rightharpoonup> bytes) \<Rightarrow> (str \<times> staged) list \<Rightarrow> record_op list \<Rightarrow> block_map \<Rightarrow>
    repo_error + (record_op list \<times> block_map)" where
  "commit_ops records [] ops leaves = Inr (ops, leaves)"
| "commit_ops records ((key, s) # staged) ops leaves =
     (if sg_prev s = sg_cid s then commit_ops records staged ops leaves
      else
        let action = (case (sg_prev s, sg_cid s) of (None, _) \<Rightarrow> RecordCreate | (_, None) \<Rightarrow> RecordDelete | (Some _, Some _) \<Rightarrow> RecordUpdate) in
        and_then (case sg_cid s of
            None \<Rightarrow> Inr leaves
          | Some c \<Rightarrow> and_then (ok_or (CommitError ''staged record block is missing'') (records c)) (\<lambda>data. Inr (upd_list c data leaves)))
          (\<lambda>leaves.
            commit_ops records staged
              (ops @ [\<lparr>ro_action = action, ro_collection = sg_collection s, ro_rkey = sg_rkey s, ro_cid = sg_cid s, ro_prev = sg_prev s\<rparr>])
              leaves))"

text \<open>The loop over the nodes of the covering proof.\<close>

fun relevant_loop :: "env \<Rightarrow> cid list \<Rightarrow> block_map \<Rightarrow> repo_error + block_map" where
  "relevant_loop E [] blocks = Inr blocks"
| "relevant_loop E (c # cs) blocks =
     and_then (map_err repo_mst_error (read_block E c)) (\<lambda>block.
       and_then (ok_or (MissingBlock c) block) (\<lambda>data. relevant_loop E cs (upd_list c data blocks)))"

definition extend_blocks :: "block_map \<Rightarrow> block_map \<Rightarrow> block_map" where
  "extend_blocks bs m = fold (\<lambda>(c, data). upd_list c data) bs m"

text \<open>The end of \<open>commit\<close> up to the store: the revision, the signature and what is handed over.\<close>

definition seal_commit :: "env \<Rightarrow> u64 \<Rightarrow> signing_key \<Rightarrow> cid \<Rightarrow> record_op list \<Rightarrow> block_map \<Rightarrow> block_map \<Rightarrow> 's repo \<Rightarrow>
    (repo_error + commit_data) \<times> 's repo" where
  "seal_commit E now key root ops leaves relevant r =
     (let since = map_option (\<lambda>h. c_rev (hd_commit h)) (r_head r);
          clock = (case since of Some t \<Rightarrow> clock_observe t (r_clock r) | None \<Rightarrow> r_clock r);
          rv = fst (clock_next now clock);
          r = r\<lparr>r_clock := snd (clock_next now clock)\<rparr>
      in
      if (case since of Some t \<Rightarrow> as_u64 rv \<le> as_u64 t | None \<Rightarrow> False)
      then (Inl (CommitError ''clock cannot produce a later revision''), r)
      else case create_signed (compress256 E) key (r_did r) rv root of
        Inl e \<Rightarrow> (Inl e, r)
      | Inr signed_c \<Rightarrow>
          (Inr \<lparr>cd_cid = sc_cid signed_c, cd_commit = sc_commit signed_c, cd_since = since,
                cd_prev = map_option hd_cid (r_head r), cd_prev_data = map_option (\<lambda>h. c_data (hd_commit h)) (r_head r),
                cd_new_blocks = upd_list (sc_cid signed_c) (sc_bytes signed_c) (extend_blocks leaves (us_nodes (r_unsaved r))),
                cd_relevant_blocks = upd_list (sc_cid signed_c) (sc_bytes signed_c) relevant,
                cd_removed_cids = us_retired (r_unsaved r) @ cid_list (map_option hd_cid (r_head r)),
                cd_ops = ops\<rparr>, r))"

text \<open>From the flush on, up to the store: what \<open>commit\<close> hands to it, and the repository it leaves.\<close>

definition commit_unsaved :: "tree_write \<Rightarrow> unsaved \<Rightarrow> unsaved" where
  "commit_unsaved w u = merge_nodes_retired (w_retired w) (merge_nodes_new (w_new_blocks w) u)"

definition prepare_commit :: "'s repo_store_ops \<Rightarrow> env \<Rightarrow> u64 \<Rightarrow> signing_key \<Rightarrow> 's repo \<Rightarrow> (repo_error + commit_data) \<times> 's repo" where
  "prepare_commit B E now key r =
     (case tree_flush E (r_tree r) of
        (Inl e, t) \<Rightarrow> (Inl (repo_mst_error e), r\<lparr>r_tree := t\<rparr>)
      | (Inr w, t) \<Rightarrow>
      let u = commit_unsaved w (r_unsaved r);
          src = overlay_env B E (us_nodes u) (r_store r) in
      case covering_proof src (map fst (r_staged r)) t of
        (Inl e, t) \<Rightarrow> (Inl (repo_mst_error e), r\<lparr>r_tree := t, r_unsaved := u\<rparr>)
      | (Inr proof_nodes, t) \<Rightarrow>
      let r = r\<lparr>r_tree := t, r_unsaved := u\<rparr> in
      case commit_ops (r_records r) (r_staged r) [] [] of
        Inl e \<Rightarrow> (Inl e, r)
      | Inr (ops, leaves) \<Rightarrow>
      case relevant_loop src proof_nodes leaves of
        Inl e \<Rightarrow> (Inl e, r)
      | Inr relevant \<Rightarrow> seal_commit E now key (w_root w) ops leaves relevant r)"

definition repo_commit :: "'s repo_store_ops \<Rightarrow> env \<Rightarrow> u64 \<Rightarrow> signing_key \<Rightarrow> 's repo \<Rightarrow> (repo_error + commit_data) \<times> 's repo" where
  "repo_commit B E now key r =
     (case prepare_commit B E now key r of
        (Inl e, r) \<Rightarrow> (Inl e, r)
      | (Inr d, r) \<Rightarrow>
          (case rs_apply_commit B (r_store r) d of
             (Inl e, s) \<Rightarrow> (Inl (RepoStorage e), r\<lparr>r_store := s\<rparr>)
           | (Inr _, s) \<Rightarrow>
               (Inr d, r\<lparr>r_store := s, r_records := Map.empty, r_staged := [], r_unsaved := unsaved_default,
                  r_head := Some \<lparr>hd_cid = cd_cid d, hd_commit = cd_commit d\<rparr>\<rparr>)))"

section \<open>Batches\<close>

text \<open>The check of a batch, in order; \<open>exists\<close> has what earlier writes of it leave.\<close>

fun check_writes :: "'s repo_store_ops \<Rightarrow> env \<Rightarrow> write_op list \<Rightarrow> (str \<rightharpoonup> bool) \<Rightarrow> 's repo \<Rightarrow> (repo_error + unit) \<times> 's repo" where
  "check_writes B E [] present r = (Inr (), r)"
| "check_writes B E (w # ws) present r =
     (let key = mst_key (fst (write_path w)) (snd (write_path w)) in
      case (case present key of
              Some b \<Rightarrow> (Inr b, r)
            | None \<Rightarrow> (case repo_lookup B E key r of (found, r) \<Rightarrow> (and_then found (\<lambda>c. Inr (c \<noteq> None)), r))) of
        (Inl e, r) \<Rightarrow> (Inl e, r)
      | (Inr b, r) \<Rightarrow>
          (case w of
             WriteCreate _ _ _ \<Rightarrow>
               if b then (Inl (RecordExists key), r) else check_writes B E ws (present(key \<mapsto> True)) r
           | WriteUpdate _ _ _ \<Rightarrow>
               if \<not> b then (Inl (RecordNotFound key), r) else check_writes B E ws (present(key \<mapsto> True)) r
           | WriteDelete _ _ \<Rightarrow>
               if \<not> b then (Inl (RecordNotFound key), r) else check_writes B E ws (present(key \<mapsto> False)) r))"

definition run_write :: "'s repo_store_ops \<Rightarrow> env \<Rightarrow> write_op \<Rightarrow> 's repo \<Rightarrow> (repo_error + unit) \<times> 's repo" where
  "run_write B E w r =
     (case w of
        WriteCreate collection rkey record \<Rightarrow>
          (case repo_put B E collection rkey (mst_key collection rkey) record r of (c, r) \<Rightarrow> (and_then c (\<lambda>_. Inr ()), r))
      | WriteUpdate collection rkey record \<Rightarrow>
          (case repo_put B E collection rkey (mst_key collection rkey) record r of (c, r) \<Rightarrow> (and_then c (\<lambda>_. Inr ()), r))
      | WriteDelete collection rkey \<Rightarrow> repo_delete B E collection rkey r)"

fun run_writes :: "'s repo_store_ops \<Rightarrow> env \<Rightarrow> write_op list \<Rightarrow> 's repo \<Rightarrow> (repo_error + unit) \<times> 's repo" where
  "run_writes B E [] r = (Inr (), r)"
| "run_writes B E (w # ws) r =
     (case run_write B E w r of (Inl e, r) \<Rightarrow> (Inl e, r) | (Inr _, r) \<Rightarrow> run_writes B E ws r)"

fun is_delete :: "write_op \<Rightarrow> bool" where
  "is_delete (WriteDelete _ _) = True"
| "is_delete _ = False"

definition write_key :: "write_op \<Rightarrow> str" where
  "write_key w = mst_key (fst (write_path w)) (snd (write_path w))"

text \<open>Loading every node the batch touches, so that applying it reads nothing.\<close>

definition load_writes :: "'s repo_store_ops \<Rightarrow> env \<Rightarrow> write_op list \<Rightarrow> 's repo \<Rightarrow> (repo_error + unit) \<times> 's repo" where
  "load_writes B E ws r =
     (let src = source_env B E (r_store r) in
      case missing_blocks src (map write_key (filter (\<lambda>w. \<not> is_delete w) ws)) (r_tree r) of
        (Inl e, t) \<Rightarrow> (Inl (repo_mst_error e), r\<lparr>r_tree := t\<rparr>)
      | (Inr to_write, t) \<Rightarrow>
          (case missing_blocks_for_remove src (map write_key (filter is_delete ws)) t of
             (Inl e, t) \<Rightarrow> (Inl (repo_mst_error e), r\<lparr>r_tree := t\<rparr>)
           | (Inr deleted, t) \<Rightarrow>
               (case to_write @ deleted of [] \<Rightarrow> Inr () | c # _ \<Rightarrow> Inl (MissingBlock c), r\<lparr>r_tree := t\<rparr>)))"

definition apply_writes :: "'s repo_store_ops \<Rightarrow> env \<Rightarrow> u64 \<Rightarrow> write_op list \<Rightarrow> signing_key \<Rightarrow> 's repo \<Rightarrow>
    (repo_error + commit_data) \<times> 's repo" where
  "apply_writes B E now ws key r =
     (case load_writes B E ws r of
        (Inl e, r) \<Rightarrow> (Inl e, r)
      | (Inr _, r) \<Rightarrow>
      case check_writes B E ws Map.empty r of
        (Inl e, r) \<Rightarrow> (Inl e, r)
      | (Inr _, r) \<Rightarrow>
      case run_writes B E ws r of
        (Inl e, r) \<Rightarrow> (Inl e, r)
      | (Inr _, r) \<Rightarrow> repo_commit B E now key r)"

section \<open>Proofs and listings\<close>

definition records_proof :: "'s repo_store_ops \<Rightarrow> env \<Rightarrow> (nsid \<times> record_key) list \<Rightarrow> 's repo \<Rightarrow> proof_error + bytes" where
  "records_proof B E paths r =
     (let src = source_env B E (r_store r) in
      and_then (ok_or ProofNoCommit (r_head r)) (\<lambda>head.
      and_then (map_err ProofMst (read_block src (hd_cid head))) (\<lambda>block.
      and_then (ok_or (ProofMissingBlock (hd_cid head)) block) (\<lambda>commit.
        proof_car src (if tree_root_cid (r_tree r) = Some (c_data (hd_commit head)) then r_tree r else tree_load (c_data (hd_commit head)))
          (hd_cid head) commit paths))))"

definition record_proof :: "'s repo_store_ops \<Rightarrow> env \<Rightarrow> nsid \<Rightarrow> record_key \<Rightarrow> 's repo \<Rightarrow> proof_error + bytes" where
  "record_proof B E collection rkey r = records_proof B E [(collection, rkey)] r"

text \<open>The callback of \<open>list\<close>: its state is the result so far and the error of an invalid record key.\<close>

definition list_entry :: "str \<Rightarrow> ((record_key \<times> cid) list \<times> repo_error option) walker" where
  "list_entry col key c s =
     (let prefix_len = length col + 1 in
      if length key > prefix_len \<and> key ! length col = 0x2f \<and> take (length col) key = col then
        (case recordkey_try_from (drop prefix_len key) of
           Inr rkey \<Rightarrow> (Inr (), (fst s @ [(rkey, c)], snd s))
         | Inl _ \<Rightarrow> (Inl (InvalidNode ''not a record key''), (fst s, Some (InvalidPath key))))
      else (Inr (), s))"

definition repo_list :: "'s repo_store_ops \<Rightarrow> env \<Rightarrow> nsid \<Rightarrow> 's repo \<Rightarrow> (repo_error + (record_key \<times> cid) list) \<times> 's repo" where
  "repo_list B E collection r =
     (case tree_walk (source_env B E (r_store r)) (list_entry (nsid_as_str collection)) (r_tree r) ([], None) of
        (Inr _, t, (results, invalid)) \<Rightarrow> (Inr results, r\<lparr>r_tree := t\<rparr>)
      | (Inl e, t, (results, invalid)) \<Rightarrow>
          (Inl (case invalid of Some i \<Rightarrow> i | None \<Rightarrow> repo_mst_error e), r\<lparr>r_tree := t\<rparr>))"

end
