(* ===== verification/Repo_Created.thy ===== *)
theory Repo_Created
  imports Repo Mst_Contract
begin

text \<open>
  A new repository in memory, one record created in it and committed: the concrete run on which the
  properties of \<open>Repo\<close> are tried.
\<close>

section \<open>Creating the record\<close>

definition sample_clock :: tid_clock where
  "sample_clock = \<lparr>c_last = 0, c_id = 7\<rparr>"

definition sample_new_repo :: "mem_repo_store repo" where
  "sample_new_repo = repo_new sample_did sample_clock"

definition sample_create :: write_op where
  "sample_create = WriteCreate (fst sample_path) (snd sample_path) sample_record_bytes"

definition sample_tree :: tree where
  "sample_tree = tree_new\<lparr>t_root := Some owned_root\<rparr>"

definition sample_staged :: staged where
  "sample_staged = \<lparr>sg_collection = fst sample_path, sg_rkey = snd sample_path, sg_prev = None, sg_cid = Some sample_record_cid\<rparr>"

definition sample_created_repo :: "mem_repo_store repo" where
  "sample_created_repo = sample_new_repo\<lparr>r_tree := sample_tree, r_records := [sample_record_cid \<mapsto> sample_record_bytes],
     r_staged := [(lit ''a.b.c/x'', sample_staged)]\<rparr>"

lemma sample_store_source: "source_env mem_repo sample_repo_env mem_repo_new = sample_repo_env\<lparr>read_block := \<lambda>_. Inr None\<rparr>"
  by (simp add: source_env_def mem_repo_def mem_repo_get_block_def mem_repo_new_def)

lemma sample_insert: "tree_insert (source_env mem_repo sample_repo_env mem_repo_new) (lit ''a.b.c/x'') sample_record_cid tree_new = (Inr None, sample_tree)"
  using record_key_valid
  by (simp add: sample_store_source tree_insert_def tree_new_def load_key_path_def insert_node.simps fresh_def sample_tree_def owned_root_def)

lemma sample_new_repo_sel [simp]: "r_store sample_new_repo = mem_repo_new" "r_tree sample_new_repo = tree_new" "r_records sample_new_repo = Map.empty"
  "r_staged sample_new_repo = []" "r_unsaved sample_new_repo = unsaved_default" "r_head sample_new_repo = None"
  "r_did sample_new_repo = sample_did" "r_clock sample_new_repo = sample_clock"
  by (simp_all add: sample_new_repo_def repo_new_def repo_empty_def)

lemma sample_lookup: "repo_lookup mem_repo sample_repo_env (lit ''a.b.c/x'') sample_new_repo = (Inr None, sample_new_repo)"
proof -
  have "tree_get (source_env mem_repo sample_repo_env mem_repo_new) (lit ''a.b.c/x'') tree_new = (Inr None, tree_new)"
    by (simp add: tree_get_def guarded_def check_usable_def tree_new_def)
  then show ?thesis by (simp add: repo_lookup_def del: lit_Cons)
qed

lemma sample_created: "repo_create mem_repo sample_repo_env (fst sample_path) (snd sample_path) sample_record_bytes sample_new_repo =
    (Inr sample_record_cid, sample_created_repo)"
  by (simp add: repo_create_def repo_put_def sample_mst_key sample_lookup Let_def record_hashes sample_insert stage_def
      sample_created_repo_def sample_staged_def del: lit_Cons)

section \<open>Committing it\<close>

definition sample_key :: signing_key where
  "sample_key = (\<lambda>_. Inr (replicate 64 1))"

definition sample_write :: tree_write where
  "sample_write = \<lparr>w_root = sample_root_cid, w_new_blocks = [(sample_root_cid, sample_root_block)], w_retired = []\<rparr>"

definition sample_flushed :: tree where
  "sample_flushed = tree_new\<lparr>t_root := Some sample_root_node, t_refs := [sample_root_cid \<mapsto> 1]\<rparr>"

lemma owned_encode: "encode_node owned_root [] = Inr sample_root_block"
proof -
  have "links_written owned_root" by (simp add: links_written_def owned_root_def)
  then obtain data where d: "encode_node owned_root [] = Inr data" using encode_node_total by blast
  have "data_of owned_root = links_data (mlinks sample_repo_hash owned_root)"
    by (simp add: data_of_def links_data_def mlinks_def owned_root_def link_cid_def)
  then show ?thesis using encode_node_links [OF d] d owned_merkle(2) by (simp add: block_of_def)
qed

lemma sample_flush: "tree_flush sample_repo_env sample_tree = (Inr sample_write, sample_flushed)"
  using owned_encode
  by (simp add: tree_flush_def guarded_def check_usable_def sample_tree_def tree_new_def owned_root_def require_loaded_def settle_def
      sample_write_def sample_flushed_def sample_root_node_def sample_root_cid_def Let_def)

lemma sample_unsaved: "commit_unsaved sample_write unsaved_default = \<lparr>us_nodes = [(sample_root_cid, sample_root_block)], us_retired = []\<rparr>"
  by (simp add: commit_unsaved_def sample_write_def unsaved_default_def)

lemma sample_cover: "covering_proof E [lit ''a.b.c/x''] sample_flushed = (Inr [sample_root_cid], sample_flushed)"
proof -
  have g: "gte_entry sample_root_node (lit ''a.b.c/x'') = 0" by (simp add: gte_entry_def sample_root_node_def)
  have k: "key_step sample_root_node (lit ''a.b.c/x'') = (True, None)" "left_sib_step sample_root_node (lit ''a.b.c/x'') = (True, None)"
    "right_sib_step sample_root_node (lit ''a.b.c/x'') = (True, None)"
    using g by (simp_all add: key_step_def left_sib_step_def right_sib_step_def slot_before_def slot_after_def del: lit_Cons)
      (simp_all add: sample_root_node_def)
  have p: "proof_pass E step ROOT [lit ''a.b.c/x''] sample_root_node refs out = (Inr (), sample_root_node, refs, out @ [sample_root_cid])"
    if "step sample_root_node (lit ''a.b.c/x'') = (True, None)" for step refs out
    using that by (simp add: proof_pass.simps ensure_loaded_id run_children_def sample_root_node_def del: lit_Cons)
  show ?thesis
    using p [of key_step, OF k(1)] p [of left_sib_step, OF k(2)] p [of right_sib_step, OF k(3)]
    by (simp add: covering_proof_def check_usable_def sample_flushed_def tree_new_def Let_def del: lit_Cons)
qed

lemma sample_signs: "\<exists>s. create_signed sample_repo_hash sample_key sample_did rv sample_root_cid = Inr s"
proof -
  let ?c = "\<lparr>c_did = sample_did, c_version = 3, c_rev = rv, c_prev = None, c_data = sample_root_cid, c_sig = None\<rparr>"
  have did: "length (did_as_str sample_did) < 2 ^ 64" using commit_okD(2) [OF sample_commit_ok] by (simp add: sample_commit_def)
  have u: "\<exists>bs. unsigned_bytes ?c = Inr bs" using unsigned_bytes_enc [of ?c] did by auto
  then have "commit_sign sample_key ?c = Inr (?c\<lparr>c_sig := Some (replicate 64 1)\<rparr>)" by (auto simp: commit_sign_def sample_key_def)
  moreover have "\<exists>bs. to_cbor (?c\<lparr>c_sig := Some (replicate 64 1)\<rparr>) = Inr bs"
    using to_cbor_enc [of "?c\<lparr>c_sig := Some (replicate 64 1)\<rparr>" "replicate 64 1"] did by simp
  ultimately show ?thesis by (auto simp: create_signed_def)
qed

text \<open>The same repository with any commit as its head, up to the sealing of the next commit.\<close>

definition sample_headed :: "Repo.head option \<Rightarrow> mem_repo_store repo" where
  "sample_headed h = sample_created_repo\<lparr>r_head := h\<rparr>"

lemma sample_prepares: "\<exists>ops leaves rel. prepare_commit mem_repo sample_repo_env 5 key (sample_headed h) =
    seal_commit sample_repo_env 5 key sample_root_cid ops leaves rel
      ((sample_headed h)\<lparr>r_tree := sample_flushed, r_unsaved := \<lparr>us_nodes = [(sample_root_cid, sample_root_block)], us_retired = []\<rparr>\<rparr>)"
proof -
  let ?src = "overlay_env mem_repo sample_repo_env [(sample_root_cid, sample_root_block)] mem_repo_new"
  let ?op = "\<lparr>ro_action = RecordCreate, ro_collection = fst sample_path, ro_rkey = snd sample_path, ro_cid = Some sample_record_cid, ro_prev = None\<rparr>"
  have ops: "commit_ops [sample_record_cid \<mapsto> sample_record_bytes] [(lit ''a.b.c/x'', sample_staged)] [] [] =
      Inr ([?op], [(sample_record_cid, sample_record_bytes)])"
    by (simp add: sample_staged_def ok_or_def del: lit_Cons)
  have "\<exists>rel. relevant_loop ?src [sample_root_cid] leaves = Inr rel" for leaves
    by (simp add: overlay_env_def ok_or_def)
  then obtain rel where "relevant_loop ?src [sample_root_cid] [(sample_record_cid, sample_record_bytes)] = Inr rel" by blast
  with ops have "prepare_commit mem_repo sample_repo_env 5 key (sample_headed h) =
      seal_commit sample_repo_env 5 key sample_root_cid [?op] [(sample_record_cid, sample_record_bytes)] rel
        ((sample_headed h)\<lparr>r_tree := sample_flushed, r_unsaved := \<lparr>us_nodes = [(sample_root_cid, sample_root_block)], us_retired = []\<rparr>\<rparr>)"
    by (simp add: prepare_commit_def sample_headed_def sample_created_repo_def sample_flush sample_unsaved sample_cover Let_def del: lit_Cons)
      (simp add: sample_write_def)
  then show ?thesis by blast
qed

lemma sample_headed_sel [simp]: "r_head (sample_headed h) = h" "r_did (sample_headed h) = sample_did" "r_clock (sample_headed h) = sample_clock"
  "r_tree (sample_headed h) = sample_tree" "r_store (sample_headed h) = mem_repo_new" "r_unsaved (sample_headed h) = unsaved_default"
  by (simp_all add: sample_headed_def sample_created_repo_def)

definition sample_head :: Repo.head where
  "sample_head = \<lparr>hd_cid = sample_head_cid, hd_commit = sample_head_commit\<rparr>"

lemma sample_rev: "\<not> as_u64 (fst (clock_next 5 (clock_observe (Tid 7) sample_clock))) \<le> 7"
  by (simp add: clock_next_def clock_observe_def sample_clock_def timestamp_micros_def next_timestamp_def MAX_TID_MICROS_def clock_tid_def from_integer_def Let_def)

lemma sample_commits: "\<exists>d r'. repo_commit mem_repo sample_repo_env 5 sample_key (sample_headed (Some sample_head)) = (Inr d, r')"
proof -
  obtain sg where "create_signed sample_repo_hash sample_key sample_did (fst (clock_next 5 (clock_observe (Tid 7) sample_clock))) sample_root_cid = Inr sg"
    using sample_signs by blast
  with sample_rev have "\<exists>d r'. seal_commit sample_repo_env 5 sample_key sample_root_cid ops leaves rel r = (Inr d, r')"
    if "r_head r = Some sample_head" "r_did r = sample_did" "r_clock r = sample_clock" for ops leaves rel and r :: "mem_repo_store repo"
    using that by (simp add: seal_commit_def Let_def sample_head_def sample_head_commit_def sample_commit_def)
  moreover obtain ops leaves rel where "prepare_commit mem_repo sample_repo_env 5 sample_key (sample_headed (Some sample_head)) =
    seal_commit sample_repo_env 5 sample_key sample_root_cid ops leaves rel
      ((sample_headed (Some sample_head))\<lparr>r_tree := sample_flushed, r_unsaved := \<lparr>us_nodes = [(sample_root_cid, sample_root_block)], us_retired = []\<rparr>\<rparr>)"
    using sample_prepares by blast
  ultimately obtain d r1 where "prepare_commit mem_repo sample_repo_env 5 sample_key (sample_headed (Some sample_head)) = (Inr d, r1)"
    by fastforce
  then show ?thesis by (auto simp: repo_commit_def mem_repo_def mem_repo_apply_commit_def Let_def)
qed

end
