(* ===== verification/Repo_Correct.thy ===== *)
theory Repo_Correct
  imports Repo_Created
begin

text \<open>
  What a repository promises: its reads and writes are those of a map from paths to CIDs, the staged
  records are the changes since the last commit, and a commit reports exactly these, once and in
  path order.
\<close>

section \<open>The tree of a repository\<close>

text \<open>The tree is usable, its reference counts are right, and an empty root is one with no root node.\<close>

definition tree_ok :: "contents \<Rightarrow> tree \<Rightarrow> bool" where
  "tree_ok \<sigma> t \<longleftrightarrow> usable \<sigma> t \<and> accounted t \<and> (t_root t \<noteq> None \<longrightarrow> t_empty_root t = None)"

lemma tree_ok_new: "tree_ok \<sigma> tree_new"
  using accounted_new by (simp add: tree_ok_def usable_def contents_def tree_new_def)

lemma tree_ok_load: "ksorted (\<sigma> c) \<Longrightarrow> tree_ok \<sigma> (tree_load c)"
  using accounted_load by (simp add: tree_ok_def usable_def contents_def tree_load_def tree_new_def stub_def)

lemma tree_ok_get:
  assumes "tree_get E key t = (r, t')" "tree_ok \<sigma> t" "models E \<sigma>"
  shows "tree_ok \<sigma> t' \<and> contents \<sigma> t' = contents \<sigma> t \<and> (\<forall>v. r = Inr v \<longrightarrow> v = map_of (contents \<sigma> t) key)"
proof -
  have "t_empty_root t' = t_empty_root t" "t_root t = None \<longrightarrow> t_root t' = None"
    using assms(1,2) by (auto simp: tree_get_def guarded_def tree_ok_def usable_def check_usable_def split: option.splits prod.splits)
  then show ?thesis
    using tree_get_spec [OF assms(1) _ assms(3)] accounted_get [OF assms(1)] assms(2) by (auto simp: tree_ok_def)
qed

lemma load_key_path_empty_root:
  assumes "load_key_path E key visit t = (r, t')"
  shows "t_empty_root t' = t_empty_root t \<and> (t_root t' = None \<longleftrightarrow> t_root t = None)"
  using load_key_path_loads [OF assms] by auto

lemma tree_ok_insert:
  assumes "tree_insert E key val t = (r, t')" "tree_ok \<sigma> t" "models E \<sigma>"
  shows "tree_ok \<sigma> t' \<and> (case r of
      Inl e \<Rightarrow> contents \<sigma> t' = contents \<sigma> t
    | Inr prev \<Rightarrow> prev = map_of (contents \<sigma> t) key \<and> contents \<sigma> t' = upd_list key val (contents \<sigma> t))"
proof -
  have u: "usable \<sigma> t'" using tree_insert_spec [OF assms(1) _ assms(3)] assms(2) by (simp add: tree_ok_def)
  then have np: "\<not> t_poisoned t'" by (simp add: usable_def)
  from assms(1) np have "t_root t' \<noteq> None \<longrightarrow> t_empty_root t' = None"
  proof (cases rule: tree_insert_cases)
    case same
    then show ?thesis
    proof
      assume "\<exists>r1. load_key_path E key Lookup t = (r1, t')"
      then obtain r1 where "load_key_path E key Lookup t = (r1, t')" by blast
      from load_key_path_empty_root [OF this] show ?thesis using assms(2) by (simp add: tree_ok_def)
    qed (use assms(2) in \<open>simp add: tree_ok_def\<close>)
  next
    case (upd t1 r1 n n' rel)
    then show ?thesis using load_key_path_empty_root [OF upd(1)] assms(2) by (auto simp: tree_ok_def)
  next
    case (ins t1 r1 n' rel)
    then show ?thesis using load_key_path_empty_root [OF ins(1)] assms(2) by (auto simp: tree_ok_def)
  qed
  then show ?thesis
    using tree_insert_spec [OF assms(1) _ assms(3)] accounted_insert [OF assms(1) _ np] assms(2) by (auto simp: tree_ok_def split: sum.splits)
qed

lemma tree_ok_remove:
  assumes "tree_remove E key t = (r, t')" "tree_ok \<sigma> t" "models E \<sigma>"
  shows "tree_ok \<sigma> t' \<and> (case r of
      Inl e \<Rightarrow> contents \<sigma> t' = contents \<sigma> t
    | Inr removed \<Rightarrow> removed = map_of (contents \<sigma> t) key \<and> contents \<sigma> t' = del_list key (contents \<sigma> t))"
proof -
  have t: "usable \<sigma> t" "accounted t" "\<not> t_poisoned t" using assms(2) by (auto simp: tree_ok_def usable_def)
  have np: "\<not> t_poisoned t'" using tree_remove_spec [OF assms(1) t(1) assms(3)] by (simp add: usable_def)
  obtain r1 t1 where l: "load_key_path E key Remove t = (r1, t1)" by fastforce
  have "t_empty_root t' = t_empty_root t1 \<and> (t_root t1 = None \<longrightarrow> t_root t' = None)"
    using assms(1) l t(3) np by (auto simp: tree_remove_def poison_def split: sum.splits option.splits prod.splits)
  then have "t_root t' \<noteq> None \<longrightarrow> t_empty_root t' = None"
    using load_key_path_empty_root [OF l] assms(2) by (auto simp: tree_ok_def)
  then show ?thesis
    using tree_remove_spec [OF assms(1) t(1) assms(3)] accounted_remove [OF assms(1) t(2,1) assms(3)] by (auto simp: tree_ok_def)
qed

lemma tree_ok_missing:
  assumes "missing_for E keys visit t = (r, t')" "tree_ok \<sigma> t" "models E \<sigma>"
  shows "tree_ok \<sigma> t' \<and> contents \<sigma> t' = contents \<sigma> t"
proof -
  have "t_empty_root t' = t_empty_root t" "t_root t = None \<longrightarrow> t_root t' = None"
    using assms(1,2) by (auto simp: missing_for_def guarded_def tree_ok_def usable_def check_usable_def split: option.splits prod.splits)
  then show ?thesis
    using missing_for_spec [OF assms(1) _ assms(3)] accounted_missing [OF assms(1)] assms(2) by (auto simp: tree_ok_def)
qed

lemma tree_ok_walk:
  assumes "tree_walk E f t s = (r, t', s')" "tree_ok \<sigma> t" "models E \<sigma>"
  shows "tree_ok \<sigma> t' \<and> contents \<sigma> t' = contents \<sigma> t \<and> walks f (contents \<sigma> t) s r s'"
proof -
  have "t_empty_root t' = t_empty_root t" "t_root t = None \<longrightarrow> t_root t' = None"
    using assms(1,2) by (auto simp: tree_walk_def tree_ok_def usable_def check_usable_def split: option.splits prod.splits)
  then show ?thesis
    using tree_walk_spec [OF assms(1) _ assms(3)] accounted_walk [OF assms(1)] assms(2) by (auto simp: tree_ok_def)
qed

lemma tree_ok_cover:
  assumes "covering_proof E keys t = (r, t')" "tree_ok \<sigma> t" "models E \<sigma>"
  shows "tree_ok \<sigma> t' \<and> contents \<sigma> t' = contents \<sigma> t"
proof -
  have u: "usable \<sigma> t" "\<not> t_poisoned t" using assms(2) by (auto simp: tree_ok_def usable_def)
  note s = covering_proof_spec [OF assms(1) u(1) assms(3)]
  show ?thesis
  proof (cases "keys = [] \<or> t_root t = None")
    case True
    then have "t' = t" using assms(1) u(2) by (auto simp: covering_proof_def check_usable_def Let_def split: if_splits)
    then show ?thesis using assms(2) by simp
  next
    case False
    then obtain n where n: "t_root t = Some n" "keys \<noteq> []" by auto
    obtain n' refs' where t': "t' = t\<lparr>t_root := Some n', t_refs := refs'\<rparr>" "loads E n (t_refs t) n' refs'"
      using covering_proof_passes [OF assms(1) u(2) n(2,1)] by blast
    then have "accounted t'" using accounted_loads [OF _ n(1) t'(2)] assms(2) by (simp add: tree_ok_def)
    then show ?thesis using s t'(1) n(1) assms(2) by (simp add: tree_ok_def)
  qed
qed

lemma tree_ok_flush:
  assumes "tree_flush E t = (r, t')" "tree_ok \<sigma> t"
  obtains w where "r = Inr w" "tree_ok \<sigma> t'" "contents \<sigma> t' = contents \<sigma> t" "flush_report t w t'"
proof -
  have t: "accounted t" "\<not> t_poisoned t" "t_root t \<noteq> None \<longrightarrow> t_empty_root t = None" "ksorted (contents \<sigma> t)"
    using assms(2) by (simp_all add: tree_ok_def usable_def)
  from tree_flush_ok [OF t(1-3), of E] assms(1) obtain w where w: "r = Inr w" "accounted t'" "\<not> t_poisoned t'" "flush_report t w t'"
    "\<forall>\<sigma>. contents \<sigma> t' = contents \<sigma> t" "t_root t' \<noteq> None \<longrightarrow> t_empty_root t' = None" by auto
  then show thesis using that t(4) by (simp add: tree_ok_def usable_def)
qed

section \<open>The staged records\<close>

text \<open>
  Each staged record has its path's value at the last commit (\<open>base\<close>) and now (\<open>cur\<close>), and the block
  of a new record is there; every other path has the value it had.
\<close>

definition staged_ok :: "(str \<rightharpoonup> cid) \<Rightarrow> (str \<rightharpoonup> cid) \<Rightarrow> (cid \<rightharpoonup> bytes) \<Rightarrow> (str \<times> staged) list \<Rightarrow> bool" where
  "staged_ok base cur records staged \<longleftrightarrow> ksorted staged \<and>
     (\<forall>key. case map_of staged key of
        None \<Rightarrow> cur key = base key
      | Some s \<Rightarrow> key = mst_key (sg_collection s) (sg_rkey s) \<and> sg_prev s = base key \<and> sg_cid s = cur key \<and>
          (\<forall>c. cur key = Some c \<longrightarrow> records c \<noteq> None))"

definition repo_ok :: "'s repo_store_ops \<Rightarrow> env \<Rightarrow> contents \<Rightarrow> (str \<rightharpoonup> cid) \<Rightarrow> 's repo \<Rightarrow> bool" where
  "repo_ok B E \<sigma> base r \<longleftrightarrow> models (source_env B E (r_store r)) \<sigma> \<and> tree_ok \<sigma> (r_tree r) \<and>
     staged_ok base (map_of (contents \<sigma> (r_tree r))) (r_records r) (r_staged r) \<and> ksorted (us_nodes (r_unsaved r))"

text \<open>The map a repository is: paths to record CIDs.\<close>

definition records_of :: "contents \<Rightarrow> 's repo \<Rightarrow> str \<rightharpoonup> cid" where
  "records_of \<sigma> r = map_of (contents \<sigma> (r_tree r))"

lemma stage_ok:
  assumes "staged_ok base cur records (r_staged r)" "key = mst_key collection rkey" "prev = cur key"
    and "\<And>c. v = Some c \<Longrightarrow> records' c \<noteq> None" "\<forall>c. records c \<noteq> None \<longrightarrow> records' c \<noteq> None"
  shows "staged_ok base (cur(key := v)) records' (r_staged (stage collection rkey key prev v r))"
proof -
  define s where "s = (case map_of (r_staged r) key of Some s \<Rightarrow> s
      | None \<Rightarrow> \<lparr>sg_collection = collection, sg_rkey = rkey, sg_prev = prev, sg_cid = v\<rparr>)"
  have k: "ksorted (r_staged r)" and
    st: "\<And>x. case map_of (r_staged r) x of None \<Rightarrow> cur x = base x
      | Some s \<Rightarrow> x = mst_key (sg_collection s) (sg_rkey s) \<and> sg_prev s = base x \<and> sg_cid s = cur x \<and> (\<forall>c. cur x = Some c \<longrightarrow> records c \<noteq> None)"
    using assms(1) by (simp_all add: staged_ok_def)
  have s: "key = mst_key (sg_collection s) (sg_rkey s)" "sg_prev s = base key"
    using st [of key] assms(2,3) by (auto simp: s_def split: option.splits)
  have m: "map_of (r_staged (stage collection rkey key prev v r)) = (map_of (r_staged r))(key \<mapsto> s\<lparr>sg_cid := v\<rparr>)"
    using map_of_upd_list [OF k] by (simp add: stage_def s_def Let_def)
  have "ksorted (r_staged (stage collection rkey key prev v r))" using ksorted_upd_list [OF k] by (simp add: stage_def Let_def)
  moreover have "case ((map_of (r_staged r))(key \<mapsto> s\<lparr>sg_cid := v\<rparr>)) x of None \<Rightarrow> (cur(key := v)) x = base x
      | Some s \<Rightarrow> x = mst_key (sg_collection s) (sg_rkey s) \<and> sg_prev s = base x \<and> sg_cid s = (cur(key := v)) x \<and>
          (\<forall>c. (cur(key := v)) x = Some c \<longrightarrow> records' c \<noteq> None)" for x
  proof (cases "x = key")
    case True
    then show ?thesis using s assms(4) by simp
  next
    case False
    then show ?thesis using st [of x] assms(5) by (auto split: option.splits)
  qed
  ultimately show ?thesis unfolding staged_ok_def m by blast
qed

lemma stage_sel [simp]: "r_tree (stage collection rkey key prev v r) = r_tree r" "r_store (stage collection rkey key prev v r) = r_store r"
  "r_records (stage collection rkey key prev v r) = r_records r" "r_head (stage collection rkey key prev v r) = r_head r"
  "r_unsaved (stage collection rkey key prev v r) = r_unsaved r"
  by (simp_all add: stage_def Let_def)

section \<open>Reads and writes\<close>

lemma repo_lookup_spec:
  assumes "repo_lookup B E key r = (v, r')" "repo_ok B E \<sigma> base r"
  shows "repo_ok B E \<sigma> base r' \<and> records_of \<sigma> r' = records_of \<sigma> r \<and> (\<forall>c. v = Inr c \<longrightarrow> c = records_of \<sigma> r key) \<and>
    (\<forall>e. v = Inl e \<longrightarrow> (\<exists>m. e = repo_mst_error m)) \<and> (\<exists>t. r' = r\<lparr>r_tree := t\<rparr>)"
proof -
  obtain q t where q: "tree_get (source_env B E (r_store r)) key (r_tree r) = (q, t)" by fastforce
  have ok: "tree_ok \<sigma> (r_tree r)" "models (source_env B E (r_store r)) \<sigma>" using assms(2) by (simp_all add: repo_ok_def)
  have r': "r' = r\<lparr>r_tree := t\<rparr>" "v = map_err repo_mst_error q" using assms(1) q by (simp_all add: repo_lookup_def)
  show ?thesis
    using tree_ok_get [OF q ok] assms(2) r' by (cases q) (auto simp: repo_ok_def records_of_def)
qed

lemma repo_put_spec:
  assumes "repo_put B E collection rkey (mst_key collection rkey) record r = (v, r')" "repo_ok B E \<sigma> base r"
  defines "c \<equiv> cid_compute (compress256 E) Drisl record"
  shows "repo_ok B E \<sigma> base r' \<and> records_of \<sigma> r' = (if is_ok v then (records_of \<sigma> r)(mst_key collection rkey \<mapsto> c) else records_of \<sigma> r) \<and>
    (\<forall>x. v = Inr x \<longrightarrow> x = c) \<and> r_head r' = r_head r \<and> r_store r' = r_store r \<and> (\<forall>e. v = Inl e \<longrightarrow> (\<exists>m. e = repo_mst_error m) \<and> (\<exists>t. r' = r\<lparr>r_tree := t\<rparr>))"
proof -
  let ?key = "mst_key collection rkey"
  obtain q t where q: "tree_insert (source_env B E (r_store r)) ?key c (r_tree r) = (q, t)" by fastforce
  have ok: "tree_ok \<sigma> (r_tree r)" "models (source_env B E (r_store r)) \<sigma>"
    "staged_ok base (map_of (contents \<sigma> (r_tree r))) (r_records r) (r_staged r)" "ksorted (us_nodes (r_unsaved r))" using assms(2) by (simp_all add: repo_ok_def)
  have ks: "ksorted (contents \<sigma> (r_tree r))" using ok(1) by (simp add: tree_ok_def usable_def)
  note sp = tree_ok_insert [OF q ok(1,2)]
  show ?thesis
  proof (cases q)
    case (Inl e)
    then have "r' = r\<lparr>r_tree := t\<rparr>" "v = Inl (repo_mst_error e)" using assms(1) q by (simp_all add: repo_put_def c_def Let_def)
    then show ?thesis using sp Inl assms(2) by (auto simp: repo_ok_def records_of_def is_ok_def)
  next
    case (Inr prev)
    let ?r = "r\<lparr>r_tree := t, r_records := (r_records r)(c \<mapsto> record)\<rparr>"
    have r': "r' = stage collection rkey ?key prev (Some c) ?r" "v = Inr c"
      using assms(1) q Inr by (simp_all add: repo_put_def c_def Let_def)
    have m: "map_of (contents \<sigma> t) = (map_of (contents \<sigma> (r_tree r)))(?key \<mapsto> c)" using sp Inr map_of_upd_list [OF ks] by simp
    have "staged_ok base ((map_of (contents \<sigma> (r_tree r)))(?key := Some c)) (r_records ?r) (r_staged (stage collection rkey ?key prev (Some c) ?r))"
      using ok(3) sp Inr by (intro stage_ok [where records = "r_records r"]) auto
    then show ?thesis using sp m r' ok(2,4) by (simp add: repo_ok_def records_of_def is_ok_def)
  qed
qed

lemma repo_delete_spec:
  assumes "repo_delete B E collection rkey r = (v, r')" "repo_ok B E \<sigma> base r"
  defines "key \<equiv> mst_key collection rkey"
  shows "repo_ok B E \<sigma> base r' \<and> records_of \<sigma> r' = (if is_ok v then (records_of \<sigma> r)(key := None) else records_of \<sigma> r) \<and>
    (is_ok v \<longrightarrow> records_of \<sigma> r key \<noteq> None) \<and> (v = Inl (RecordNotFound key) \<longrightarrow> records_of \<sigma> r key = None) \<and>
    r_head r' = r_head r \<and> r_store r' = r_store r \<and>
    (\<forall>e. v = Inl e \<longrightarrow> (e = RecordNotFound key \<or> (\<exists>m. e = repo_mst_error m)) \<and> (\<exists>t. r' = r\<lparr>r_tree := t\<rparr>))"
proof -
  obtain q t where q: "tree_remove (source_env B E (r_store r)) key (r_tree r) = (q, t)" by fastforce
  have ok: "tree_ok \<sigma> (r_tree r)" "models (source_env B E (r_store r)) \<sigma>"
    "staged_ok base (map_of (contents \<sigma> (r_tree r))) (r_records r) (r_staged r)" "ksorted (us_nodes (r_unsaved r))" using assms(2) by (simp_all add: repo_ok_def)
  note sp = tree_ok_remove [OF q ok(1,2)]
  have mst: "repo_mst_error e \<noteq> RecordNotFound key" for e by (cases e) simp_all
  show ?thesis
  proof (cases q)
    case (Inl e)
    then have "r' = r\<lparr>r_tree := t\<rparr>" "v = Inl (repo_mst_error e)" using assms(1) q by (simp_all add: repo_delete_def Let_def key_def [symmetric])
    then show ?thesis using sp Inl assms(2) mst by (auto simp: repo_ok_def records_of_def is_ok_def)
  next
    case (Inr removed)
    have m: "removed = map_of (contents \<sigma> (r_tree r)) key" "map_of (contents \<sigma> t) = (map_of (contents \<sigma> (r_tree r)))(key := None)"
      using sp Inr map_of_del_list [of key "contents \<sigma> (r_tree r)"] by simp_all
    show ?thesis
    proof (cases removed)
      case None
      then have "r' = r\<lparr>r_tree := t\<rparr>" "v = Inl (RecordNotFound key)" using assms(1) q Inr by (simp_all add: repo_delete_def Let_def key_def [symmetric])
      moreover have "map_of (contents \<sigma> t) = map_of (contents \<sigma> (r_tree r))" using m None by (simp add: fun_upd_idem)
      ultimately show ?thesis using sp m None ok(2-4) by (auto simp: repo_ok_def records_of_def is_ok_def)
    next
      case (Some prev)
      have r': "r' = stage collection rkey key (Some prev) None (r\<lparr>r_tree := t\<rparr>)" "v = Inr ()"
        using assms(1) q Inr Some by (simp_all add: repo_delete_def Let_def key_def [symmetric])
      have "staged_ok base ((map_of (contents \<sigma> (r_tree r)))(key := None)) (r_records r) (r_staged (stage collection rkey key (Some prev) None (r\<lparr>r_tree := t\<rparr>)))"
        using ok(3) m(1) Some by (intro stage_ok [where records = "r_records r"]) (auto simp: key_def)
      moreover have "map_of (contents \<sigma> (r_tree r)) key = Some prev" using m(1) Some by simp
      ultimately show ?thesis using sp m Some r' ok(2,4) by (simp add: repo_ok_def records_of_def is_ok_def)
    qed
  qed
qed

text \<open>A write through the public operations, and what it means for the map.\<close>

fun repo_write :: "'s repo_store_ops \<Rightarrow> env \<Rightarrow> write_op \<Rightarrow> 's repo \<Rightarrow> (repo_error + cid option) \<times> 's repo" where
  "repo_write B E (WriteCreate collection rkey record) r =
     (case repo_create B E collection rkey record r of (v, r) \<Rightarrow> (and_then v (\<lambda>c. Inr (Some c)), r))"
| "repo_write B E (WriteUpdate collection rkey record) r =
     (case repo_update B E collection rkey record r of (v, r) \<Rightarrow> (and_then v (\<lambda>c. Inr (Some c)), r))"
| "repo_write B E (WriteDelete collection rkey) r =
     (case repo_delete B E collection rkey r of (v, r) \<Rightarrow> (and_then v (\<lambda>_. Inr None), r))"

definition write_cid :: "compress_fn \<Rightarrow> write_op \<Rightarrow> cid option" where
  "write_cid C w = (case w of
     WriteCreate _ _ record \<Rightarrow> Some (cid_compute C Drisl record)
   | WriteUpdate _ _ record \<Rightarrow> Some (cid_compute C Drisl record)
   | WriteDelete _ _ \<Rightarrow> None)"

fun write_refused :: "(str \<rightharpoonup> cid) \<Rightarrow> write_op \<Rightarrow> repo_error option" where
  "write_refused m (WriteCreate collection rkey _) =
     (if m (mst_key collection rkey) \<noteq> None then Some (RecordExists (mst_key collection rkey)) else None)"
| "write_refused m (WriteUpdate collection rkey _) =
     (if m (mst_key collection rkey) = None then Some (RecordNotFound (mst_key collection rkey)) else None)"
| "write_refused m (WriteDelete collection rkey) =
     (if m (mst_key collection rkey) = None then Some (RecordNotFound (mst_key collection rkey)) else None)"

lemma repo_put_refines:
  assumes "repo_lookup B E (mst_key collection rkey) r = (v0, r0)" "repo_ok B E \<sigma> base r"
    and "repo_put B E collection rkey (mst_key collection rkey) record r0 = (v, r')"
  shows "repo_ok B E \<sigma> base r' \<and> r_head r' = r_head r \<and> r_store r' = r_store r \<and> (case v of
      Inr c \<Rightarrow> c = cid_compute (compress256 E) Drisl record \<and> records_of \<sigma> r' = (records_of \<sigma> r)(mst_key collection rkey \<mapsto> c)
    | Inl e \<Rightarrow> records_of \<sigma> r' = records_of \<sigma> r \<and> r_staged r' = r_staged r \<and> (\<exists>m. e = repo_mst_error m))"
proof -
  have l: "repo_ok B E \<sigma> base r0" "records_of \<sigma> r0 = records_of \<sigma> r" "\<exists>t. r0 = r\<lparr>r_tree := t\<rparr>"
    using repo_lookup_spec [OF assms(1,2)] by simp_all
  then have "r_staged r0 = r_staged r" "r_head r0 = r_head r" "r_store r0 = r_store r" by auto
  then show ?thesis using repo_put_spec [OF assms(3) l(1)] l(2) by (cases v) (auto simp: is_ok_def)
qed

text \<open>
  C6. Create, update and delete are the writes of a map from paths to CIDs. A write that succeeds is one
  the map allows, and leaves the map with that path's new value and no other change. A write that
  fails leaves the map, and what is staged, as they were, and was either refused by the map (a create of a
  path that exists, an update or delete of one that does not) or failed in the tree.
\<close>

theorem repo_writes_refine:
  assumes "repo_write B E w r = (v, r')" "repo_ok B E \<sigma> base r"
  shows "repo_ok B E \<sigma> base r' \<and> (case v of
      Inr c \<Rightarrow> write_refused (records_of \<sigma> r) w = None \<and> c = write_cid (compress256 E) w \<and>
        records_of \<sigma> r' = (records_of \<sigma> r)(write_key w := c)
    | Inl e \<Rightarrow> records_of \<sigma> r' = records_of \<sigma> r \<and> r_staged r' = r_staged r \<and>
        (write_refused (records_of \<sigma> r) w = Some e \<or> (\<exists>m. e = repo_mst_error m)))"
proof (cases w)
  case (WriteCreate collection rkey data)
  let ?key = "mst_key collection rkey"
  obtain q r0 where q: "repo_lookup B E ?key r = (q, r0)" by fastforce
  note l = repo_lookup_spec [OF q assms(2)]
  show ?thesis
  proof (cases "q = Inr None")
    case True
    obtain p r1 where p: "repo_put B E collection rkey ?key data r0 = (p, r1)" by fastforce
    show ?thesis
      using repo_put_refines [OF q assms(2) p] l True assms(1) q p
      by (cases p) (auto simp: WriteCreate repo_create_def Let_def write_cid_def write_key_def)
  qed (use l assms(1) q in \<open>auto simp: WriteCreate repo_create_def Let_def split: sum.splits option.splits\<close>)
next
  case (WriteUpdate collection rkey data)
  let ?key = "mst_key collection rkey"
  obtain q r0 where q: "repo_lookup B E ?key r = (q, r0)" by fastforce
  note l = repo_lookup_spec [OF q assms(2)]
  show ?thesis
  proof (cases "\<exists>c. q = Inr (Some c)")
    case True
    then obtain c where c: "q = Inr (Some c)" "records_of \<sigma> r ?key = Some c" using l by metis
    obtain p r1 where p: "repo_put B E collection rkey ?key data r0 = (p, r1)" by fastforce
    show ?thesis
      using repo_put_refines [OF q assms(2) p] c assms(1) q p
      by (cases p) (fastforce simp: WriteUpdate repo_update_def Let_def write_cid_def write_key_def,
        auto simp del: not_Some_eq not_None_eq simp add: WriteUpdate repo_update_def Let_def write_cid_def write_key_def)
  qed (use l assms(1) q in \<open>auto simp: WriteUpdate repo_update_def Let_def split: sum.splits option.splits\<close>)
next
  case (WriteDelete collection rkey)
  obtain p r1 where p: "repo_delete B E collection rkey r = (p, r1)" by fastforce
  show ?thesis
    using repo_delete_spec [OF p assms(2)] assms(1) p
    by (cases p) (auto simp: WriteDelete is_ok_def write_cid_def write_key_def)
qed

lemma sample_new_repo_ok: "repo_ok mem_repo sample_repo_env sample_repo_contents Map.empty sample_new_repo"
proof -
  have "models (source_env mem_repo sample_repo_env mem_repo_new) sample_repo_contents" by (simp add: models_def sample_store_source)
  moreover have "contents sample_repo_contents tree_new = []" by (simp add: contents_def tree_new_def)
  ultimately show ?thesis using tree_ok_new by (simp add: repo_ok_def staged_ok_def unsaved_default_def)
qed

theorem repo_writes_refine_witness:
  "\<exists>r'. repo_write mem_repo sample_repo_env sample_create sample_new_repo = (Inr (Some sample_record_cid), r') \<and>
    records_of sample_repo_contents r' = [lit ''a.b.c/x'' \<mapsto> sample_record_cid]"
proof -
  have w: "repo_write mem_repo sample_repo_env sample_create sample_new_repo = (Inr (Some sample_record_cid), sample_created_repo)"
    using sample_created by (simp add: sample_create_def)
  have k: "write_key sample_create = lit ''a.b.c/x''" by (simp add: write_key_def sample_create_def sample_mst_key)
  have "records_of sample_repo_contents sample_new_repo = Map.empty" by (simp add: records_of_def contents_def tree_new_def)
  then show ?thesis using repo_writes_refine [OF w sample_new_repo_ok] w k by auto
qed

end
