(* ===== verification/Repo_Changes.thy ===== *)
theory Repo_Changes
  imports Repo_Correct
begin

text \<open>
  What a commit reports and leaves: the operations are the differences since the last commit, the
  blocks of the new records and of the paths of the tree to them are listed, and a commit that fails keeps
  the writes staged.
\<close>

section \<open>What a commit hands to the store\<close>

text \<open>What a commit reads: the nodes that are not saved yet, those of the flush among them, over the store.\<close>

definition commit_view :: "'s repo_store_ops \<Rightarrow> env \<Rightarrow> 's repo \<Rightarrow> env" where
  "commit_view B E r = (case tree_flush E (r_tree r) of
     (Inr w, _) \<Rightarrow> overlay_env B E (us_nodes (commit_unsaved w (r_unsaved r))) (r_store r)
   | (Inl _, _) \<Rightarrow> source_env B E (r_store r))"

lemma merge_nodes_new_sorted: "ksorted (us_nodes u) \<Longrightarrow> ksorted (us_nodes (merge_nodes_new bs u))"
  by (induction bs u rule: merge_nodes_new.induct) (auto simp: ksorted_upd_list)

lemma merge_nodes_retired_sorted: "ksorted (us_nodes u) \<Longrightarrow> ksorted (us_nodes (merge_nodes_retired cs u))"
  by (induction cs u rule: merge_nodes_retired.induct) (auto simp: ksorted_del_list)

lemma commit_unsaved_sorted: "ksorted (us_nodes u) \<Longrightarrow> ksorted (us_nodes (commit_unsaved w u))"
  by (simp add: commit_unsaved_def merge_nodes_new_sorted merge_nodes_retired_sorted)

lemma extend_blocks_spec:
  "ksorted m \<Longrightarrow> ksorted bs \<Longrightarrow> ksorted (extend_blocks bs m) \<and> map_of (extend_blocks bs m) = map_of m ++ map_of bs"
proof (induction bs arbitrary: m)
  case (Cons b bs)
  obtain c data where b: "b = (c, data)" by fastforce
  have "map_of bs c = None" using Cons.prems(2) b by (auto simp: map_of_eq_None_iff)
  moreover have "ksorted bs" using Cons.prems(2) by simp
  ultimately show ?case
    using Cons.IH [of "upd_list c data m"] ksorted_upd_list [OF Cons.prems(1)] map_of_upd_list [OF Cons.prems(1)] b
    by (auto simp: extend_blocks_def fun_eq_iff map_add_def split: option.splits)
qed (simp add: extend_blocks_def)

section \<open>The operations of a commit\<close>

text \<open>The operation a staged record stands for.\<close>

definition staged_op :: "str \<times> staged \<Rightarrow> record_op" where
  "staged_op ks = \<lparr>ro_action = (case (sg_prev (snd ks), sg_cid (snd ks)) of
       (None, _) \<Rightarrow> RecordCreate | (_, None) \<Rightarrow> RecordDelete | (Some _, Some _) \<Rightarrow> RecordUpdate),
     ro_collection = sg_collection (snd ks), ro_rkey = sg_rkey (snd ks), ro_cid = sg_cid (snd ks), ro_prev = sg_prev (snd ks)\<rparr>"

definition changes_of :: "(str \<times> staged) list \<Rightarrow> (str \<times> staged) list" where
  "changes_of staged = filter (\<lambda>(_, s). sg_prev s \<noteq> sg_cid s) staged"

lemma commit_ops_spec:
  assumes "commit_ops records staged ops leaves = Inr (ops', leaves')" "ksorted leaves"
  shows "ops' = ops @ map staged_op (changes_of staged) \<and> ksorted leaves' \<and>
    (\<forall>c. map_of leaves' c = (if \<exists>ks \<in> set (changes_of staged). sg_cid (snd ks) = Some c then records c else map_of leaves c)) \<and>
    (\<forall>ks \<in> set (changes_of staged). \<forall>c. sg_cid (snd ks) = Some c \<longrightarrow> records c \<noteq> None)"
  using assms
proof (induction staged arbitrary: ops leaves)
  case (Cons ks staged)
  obtain key s where ks: "ks = (key, s)" by fastforce
  show ?case
  proof (cases "sg_prev s = sg_cid s")
    case True
    then show ?thesis using Cons ks by (simp add: changes_of_def)
  next
    case False
    have ch: "changes_of (ks # staged) = ks # changes_of staged" using False ks by (simp add: changes_of_def)
    show ?thesis
    proof (cases "sg_cid s")
      case None
      then have "commit_ops records staged (ops @ [staged_op ks]) leaves = Inr (ops', leaves')"
        using Cons.prems(1) False ks by (auto simp: staged_op_def Let_def split: option.splits)
      from Cons.IH [OF this Cons.prems(2)] show ?thesis using None ks unfolding ch by simp
    next
      case (Some c)
      then obtain data where data: "records c = Some data" "commit_ops records staged (ops @ [staged_op ks]) (upd_list c data leaves) = Inr (ops', leaves')"
        using Cons.prems(1) False ks by (cases "records c") (auto simp: staged_op_def Let_def ok_or_def split: option.splits)
      from Cons.IH [OF data(2) ksorted_upd_list [OF Cons.prems(2)]] show ?thesis
        using data(1) Some ks map_of_upd_list [OF Cons.prems(2)] unfolding ch by (auto split: if_splits)
    qed
  qed
qed (simp add: changes_of_def)

section \<open>The steps of a commit\<close>

definition head_rev :: "'s repo \<Rightarrow> tid option" where
  "head_rev r = map_option (\<lambda>h. c_rev (hd_commit h)) (r_head r)"

definition commit_clock :: "'s repo \<Rightarrow> tid_clock" where
  "commit_clock r = (case head_rev r of Some t \<Rightarrow> clock_observe t (r_clock r) | None \<Rightarrow> r_clock r)"

lemma seal_commit_cases:
  assumes "seal_commit E now key root ops leaves relevant r = (Inr d, r')"
  obtains signed_c where
    "\<forall>t. head_rev r = Some t \<longrightarrow> as_u64 t < as_u64 (fst (clock_next now (commit_clock r)))"
    "create_signed (compress256 E) key (r_did r) (fst (clock_next now (commit_clock r))) root = Inr signed_c"
    "r' = r\<lparr>r_clock := snd (clock_next now (commit_clock r))\<rparr>"
    "cd_cid d = sc_cid signed_c" "cd_commit d = sc_commit signed_c" "cd_since d = head_rev r"
    "cd_prev d = map_option hd_cid (r_head r)" "cd_prev_data d = map_option (\<lambda>h. c_data (hd_commit h)) (r_head r)"
    "cd_new_blocks d = upd_list (sc_cid signed_c) (sc_bytes signed_c) (extend_blocks leaves (us_nodes (r_unsaved r)))"
    "cd_relevant_blocks d = upd_list (sc_cid signed_c) (sc_bytes signed_c) relevant"
    "cd_removed_cids d = us_retired (r_unsaved r) @ cid_list (map_option hd_cid (r_head r))" "cd_ops d = ops"
proof -
  note d = assms [unfolded seal_commit_def Let_def, folded head_rev_def, folded commit_clock_def]
  have lt: "\<not> (case head_rev r of Some t \<Rightarrow> as_u64 (fst (clock_next now (commit_clock r))) \<le> as_u64 t | None \<Rightarrow> False)"
    using d by (auto split: if_splits)
  obtain sg where sg: "create_signed (compress256 E) key (r_did r) (fst (clock_next now (commit_clock r))) root = Inr sg"
    using d lt by (auto split: sum.splits)
  show thesis using d [unfolded if_not_P [OF lt]] sg lt by (intro that [of sg]) auto
qed

lemma seal_commit_keeps:
  assumes "seal_commit E now key root ops leaves relevant r = (v, r')"
  shows "r' = r\<lparr>r_clock := snd (clock_next now (commit_clock r))\<rparr>"
  using assms [unfolded seal_commit_def Let_def, folded head_rev_def, folded commit_clock_def] by (auto split: if_splits sum.splits)

lemma prepare_commit_cases:
  assumes "prepare_commit B E now key r = (Inr d, r')"
  obtains w t proof_nodes t2 ops leaves relevant where
    "tree_flush E (r_tree r) = (Inr w, t)"
    "covering_proof (commit_view B E r) (map fst (r_staged r)) t = (Inr proof_nodes, t2)"
    "commit_ops (r_records r) (r_staged r) [] [] = Inr (ops, leaves)"
    "relevant_loop (commit_view B E r) proof_nodes leaves = Inr relevant"
    "seal_commit E now key (w_root w) ops leaves relevant (r\<lparr>r_tree := t2, r_unsaved := commit_unsaved w (r_unsaved r)\<rparr>) = (Inr d, r')"
proof -
  obtain f t where f: "tree_flush E (r_tree r) = (f, t)" by fastforce
  then obtain w where w: "f = Inr w" using assms by (cases f) (auto simp: prepare_commit_def)
  have view: "commit_view B E r = overlay_env B E (us_nodes (commit_unsaved w (r_unsaved r))) (r_store r)" using f w by (simp add: commit_view_def)
  show thesis
    using assms that [OF f [unfolded w]] unfolding prepare_commit_def f w view [symmetric] Let_def
    by (auto simp: view [symmetric] split: prod.splits sum.splits)
qed

text \<open>Up to the store a commit changes the tree's loaded nodes, the clock and the unsaved nodes alone.\<close>

lemma prepare_commit_keeps:
  assumes "prepare_commit B E now key r = (v, r')" "tree_ok \<sigma> (r_tree r)" "models (commit_view B E r) \<sigma>"
  shows "tree_ok \<sigma> (r_tree r') \<and> contents \<sigma> (r_tree r') = contents \<sigma> (r_tree r) \<and> r_staged r' = r_staged r \<and> r_records r' = r_records r \<and>
    r_head r' = r_head r \<and> r_store r' = r_store r \<and> (\<exists>w. r_unsaved r' = commit_unsaved w (r_unsaved r))"
proof -
  obtain f t where f: "tree_flush E (r_tree r) = (f, t)" by fastforce
  from tree_ok_flush [OF f assms(2)] obtain w where w: "f = Inr w" "tree_ok \<sigma> t" "contents \<sigma> t = contents \<sigma> (r_tree r)" by blast
  have view: "commit_view B E r = overlay_env B E (us_nodes (commit_unsaved w (r_unsaved r))) (r_store r)" using f w by (simp add: commit_view_def)
  obtain p t2 where p: "covering_proof (commit_view B E r) (map fst (r_staged r)) t = (p, t2)" by fastforce
  have t2: "tree_ok \<sigma> t2" "contents \<sigma> t2 = contents \<sigma> (r_tree r)" using tree_ok_cover [OF p w(2) assms(3)] w(3) by simp_all
  have "r' = r\<lparr>r_tree := t2, r_unsaved := commit_unsaved w (r_unsaved r)\<rparr> \<or>
      (\<exists>c. r' = r\<lparr>r_tree := t2, r_unsaved := commit_unsaved w (r_unsaved r), r_clock := c\<rparr>)"
    using assms(1) p unfolding prepare_commit_def f w(1) view [symmetric] Let_def
    by (auto simp: view [symmetric] dest: seal_commit_keeps split: prod.splits sum.splits)
  then show ?thesis using t2 by auto
qed

lemma relevant_loop_spec:
  "relevant_loop E cs blocks = Inr blocks' \<Longrightarrow> fst ` set blocks' = set cs \<union> fst ` set blocks"
proof (induction cs arbitrary: blocks)
  case (Cons c cs)
  from Cons.prems obtain data where "relevant_loop E cs (upd_list c data blocks) = Inr blocks'" by (auto simp: ok_or_def split: option.splits)
  from Cons.IH [OF this] show ?case using set_upd_list [of c data blocks] by auto
qed simp

lemma create_signed_sel:
  assumes "create_signed C key did rv root = Inr s"
  shows "c_did (sc_commit s) = did" "c_rev (sc_commit s) = rv" "c_data (sc_commit s) = root" "c_prev (sc_commit s) = None"
  using assms by (auto simp: create_signed_def commit_sign_def Let_def)

lemma repo_commit_cases:
  assumes "repo_commit B E now key r = (Inr d, r')"
  obtains r1 s where "prepare_commit B E now key r = (Inr d, r1)" "rs_apply_commit B (r_store r1) d = (Inr (), s)"
    "r' = r1\<lparr>r_store := s, r_records := Map.empty, r_staged := [], r_unsaved := unsaved_default,
      r_head := Some \<lparr>hd_cid = cd_cid d, hd_commit = cd_commit d\<rparr>\<rparr>"
  using assms by (auto simp: repo_commit_def split: prod.splits sum.splits)

section \<open>What a commit reports\<close>

lemma changes_spec:
  assumes "staged_ok base cur records staged"
  shows "sorted_wrt (<) (map record_op_path (map staged_op (changes_of staged)))"
    and "path \<in> set (map record_op_path (map staged_op (changes_of staged))) \<longleftrightarrow> base path \<noteq> cur path"
    and "op \<in> set (map staged_op (changes_of staged)) \<Longrightarrow> ro_prev op = base (record_op_path op) \<and> ro_cid op = cur (record_op_path op) \<and>
      ro_action op = (if base (record_op_path op) = None then RecordCreate else if cur (record_op_path op) = None then RecordDelete else RecordUpdate)"
proof -
  have k: "ksorted staged" using assms by (simp add: staged_ok_def)
  have st: "case map_of staged x of None \<Rightarrow> cur x = base x
      | Some s \<Rightarrow> x = mst_key (sg_collection s) (sg_rkey s) \<and> sg_prev s = base x \<and> sg_cid s = cur x" for x
    using assms [unfolded staged_ok_def, THEN conjunct2, THEN spec, of x] by (auto split: option.splits)
  have mem: "x = mst_key (sg_collection s) (sg_rkey s) \<and> sg_prev s = base x \<and> sg_cid s = cur x" if "(x, s) \<in> set staged" for x s
    using st [of x] map_of_is_SomeI [OF ksorted_distinct [OF k] that] by simp
  have m: "map record_op_path (map staged_op (changes_of staged)) = map fst (changes_of staged)"
    using mem by (force simp: record_op_path_def staged_op_def changes_of_def)
  have "ksorted (changes_of staged)" using k by (simp add: changes_of_def sorted_wrt_map sorted_wrt_filter)
  moreover have "path \<in> set (map fst (changes_of staged)) \<longleftrightarrow> base path \<noteq> cur path"
  proof
    show "base path \<noteq> cur path" if "path \<in> set (map fst (changes_of staged))" using that mem by (fastforce simp: changes_of_def)
    show "path \<in> set (map fst (changes_of staged))" if d: "base path \<noteq> cur path"
    proof -
      obtain s where s: "map_of staged path = Some s" "sg_prev s = base path" "sg_cid s = cur path"
        using st [of path] d by (cases "map_of staged path") auto
      then have "(path, s) \<in> set (changes_of staged)" using d map_of_SomeD [OF s(1)] by (simp add: changes_of_def)
      then show ?thesis by force
    qed
  qed
  ultimately show "sorted_wrt (<) (map record_op_path (map staged_op (changes_of staged)))"
    "path \<in> set (map record_op_path (map staged_op (changes_of staged))) \<longleftrightarrow> base path \<noteq> cur path" unfolding m .
  show "ro_prev op = base (record_op_path op) \<and> ro_cid op = cur (record_op_path op) \<and>
      ro_action op = (if base (record_op_path op) = None then RecordCreate else if cur (record_op_path op) = None then RecordDelete else RecordUpdate)"
    if op: "op \<in> set (map staged_op (changes_of staged))"
  proof -
    obtain x s where xs: "(x, s) \<in> set staged" "op = staged_op (x, s)" using op by (auto simp: changes_of_def)
    then have "record_op_path op = x" using mem [OF xs(1)] by (simp add: record_op_path_def staged_op_def)
    then show ?thesis using mem [OF xs(1)] xs(2) by (auto simp: staged_op_def split: option.splits)
  qed
qed

text \<open>
  C7. A commit reports what changed since the last one: its operations are, in strictly ascending order
  of their paths, exactly the paths whose record differs, each with the record before, the record now and
  the action that leads from one to the other. Every new record's block is among the new blocks and among those
  for consumers. The repository holds the same records, with nothing staged.
\<close>

theorem commit_reports_changes:
  assumes "repo_commit B E now key r = (Inr d, r')" "repo_ok B E \<sigma> base r" "models (commit_view B E r) \<sigma>"
  shows "sorted_wrt (<) (map record_op_path (cd_ops d)) \<and>
    (\<forall>path. path \<in> set (map record_op_path (cd_ops d)) \<longleftrightarrow> base path \<noteq> records_of \<sigma> r path) \<and>
    (\<forall>op \<in> set (cd_ops d). ro_prev op = base (record_op_path op) \<and> ro_cid op = records_of \<sigma> r (record_op_path op) \<and>
      ro_action op = (if base (record_op_path op) = None then RecordCreate
        else if records_of \<sigma> r (record_op_path op) = None then RecordDelete else RecordUpdate)) \<and>
    (\<forall>op \<in> set (cd_ops d). \<forall>c. ro_cid op = Some c \<longrightarrow>
      c \<in> fst ` set (cd_new_blocks d) \<and> c \<in> fst ` set (cd_relevant_blocks d)) \<and>
    records_of \<sigma> r' = records_of \<sigma> r \<and> r_staged r' = []"
proof -
  have ok: "tree_ok \<sigma> (r_tree r)" "staged_ok base (records_of \<sigma> r) (r_records r) (r_staged r)" "ksorted (us_nodes (r_unsaved r))"
    using assms(2) by (simp_all add: repo_ok_def records_of_def)
  obtain r1 s where r1: "prepare_commit B E now key r = (Inr d, r1)"
    "r' = r1\<lparr>r_store := s, r_records := Map.empty, r_staged := [], r_unsaved := unsaved_default,
      r_head := Some \<lparr>hd_cid = cd_cid d, hd_commit = cd_commit d\<rparr>\<rparr>"
    using repo_commit_cases [OF assms(1)] by blast
  obtain w t ns t2 ops leaves relevant where p: "tree_flush E (r_tree r) = (Inr w, t)"
    "covering_proof (commit_view B E r) (map fst (r_staged r)) t = (Inr ns, t2)"
    "commit_ops (r_records r) (r_staged r) [] [] = Inr (ops, leaves)"
    "relevant_loop (commit_view B E r) ns leaves = Inr relevant"
    "seal_commit E now key (w_root w) ops leaves relevant (r\<lparr>r_tree := t2, r_unsaved := commit_unsaved w (r_unsaved r)\<rparr>) = (Inr d, r1)"
    using prepare_commit_cases [OF r1(1)] by blast
  from tree_ok_flush [OF p(1) ok(1)] have t: "tree_ok \<sigma> t" "contents \<sigma> t = contents \<sigma> (r_tree r)" by auto
  have t2: "contents \<sigma> t2 = contents \<sigma> (r_tree r)" using tree_ok_cover [OF p(2) t(1) assms(3)] t(2) by simp
  let ?r2 = "r\<lparr>r_tree := t2, r_unsaved := commit_unsaved w (r_unsaved r)\<rparr>"
  obtain sg :: signed_commit where sg0: "r1 = ?r2\<lparr>r_clock := snd (clock_next now (commit_clock ?r2))\<rparr>" "cd_ops d = ops"
    "cd_new_blocks d = upd_list (sc_cid sg) (sc_bytes sg) (extend_blocks leaves (us_nodes (r_unsaved ?r2)))"
    "cd_relevant_blocks d = upd_list (sc_cid sg) (sc_bytes sg) relevant"
    by (rule seal_commit_cases [OF p(5)]) (rule that, assumption+)
  have sg: "r_tree r1 = t2" "cd_ops d = ops"
    "cd_new_blocks d = upd_list (sc_cid sg) (sc_bytes sg) (extend_blocks leaves (us_nodes (commit_unsaved w (r_unsaved r))))"
    "cd_relevant_blocks d = upd_list (sc_cid sg) (sc_bytes sg) relevant"
    using sg0 by simp_all
  have o: "ops = map staged_op (changes_of (r_staged r))" "ksorted leaves"
    "\<And>ks c. ks \<in> set (changes_of (r_staged r)) \<Longrightarrow> sg_cid (snd ks) = Some c \<Longrightarrow> map_of leaves c \<noteq> None"
    using commit_ops_spec [OF p(3)] by auto
  have leaf: "c \<in> fst ` set leaves" if "op \<in> set ops" "ro_cid op = Some c" for op c
    using that o(1) o(3) [of _ c] by (auto simp: staged_op_def map_of_eq_None_iff)
  have blocks: "fst ` set leaves \<subseteq> fst ` set (cd_relevant_blocks d)"
    using relevant_loop_spec [OF p(4)] set_upd_list [of "sc_cid sg" "sc_bytes sg" relevant] by (simp add: sg) blast
  have "fst ` set leaves \<subseteq> fst ` set (cd_new_blocks d)"
    using extend_blocks_spec [OF commit_unsaved_sorted [OF ok(3)] o(2), of w]
      set_upd_list [of "sc_cid sg" "sc_bytes sg" "extend_blocks leaves (us_nodes (commit_unsaved w (r_unsaved r)))"]
    by (auto simp: sg dom_map_of_conv_image_fst [symmetric])
  with leaf blocks have listed: "\<forall>op \<in> set ops. \<forall>c. ro_cid op = Some c \<longrightarrow>
      c \<in> fst ` set (cd_new_blocks d) \<and> c \<in> fst ` set (cd_relevant_blocks d)" by blast
  have after: "records_of \<sigma> r' = records_of \<sigma> r" "r_staged r' = []" using r1(2) sg(1) t2 by (simp_all add: records_of_def)
  note ch = changes_spec [OF ok(2), folded o(1)]
  show ?thesis unfolding sg(2)
  proof (intro conjI)
    show "\<forall>op \<in> set ops. ro_prev op = base (record_op_path op) \<and> ro_cid op = records_of \<sigma> r (record_op_path op) \<and>
      ro_action op = (if base (record_op_path op) = None then RecordCreate
        else if records_of \<sigma> r (record_op_path op) = None then RecordDelete else RecordUpdate)" using ch(3) by blast
  qed (use ch(1,2) listed after in blast)+
qed

lemma sample_created_ok: "repo_ok mem_repo sample_repo_env sample_repo_contents Map.empty sample_created_repo"
  "records_of sample_repo_contents sample_created_repo = [lit ''a.b.c/x'' \<mapsto> sample_record_cid]"
proof -
  have "records_of sample_repo_contents sample_new_repo = Map.empty" by (simp add: records_of_def contents_def tree_new_def)
  moreover have "repo_put mem_repo sample_repo_env (fst sample_path) (snd sample_path) (mst_key (fst sample_path) (snd sample_path)) sample_record_bytes sample_new_repo =
      (Inr sample_record_cid, sample_created_repo)"
    using sample_created sample_lookup by (simp add: repo_create_def sample_mst_key Let_def del: lit_Cons)
  from repo_put_spec [OF this sample_new_repo_ok] calculation
  show "repo_ok mem_repo sample_repo_env sample_repo_contents Map.empty sample_created_repo"
    "records_of sample_repo_contents sample_created_repo = [lit ''a.b.c/x'' \<mapsto> sample_record_cid]"
    by (simp_all add: is_ok_def sample_mst_key record_hashes del: lit_Cons)
qed

lemma sample_headed_ok: "repo_ok mem_repo sample_repo_env sample_repo_contents Map.empty (sample_headed h)"
  "records_of sample_repo_contents (sample_headed h) = [lit ''a.b.c/x'' \<mapsto> sample_record_cid]"
  using sample_created_ok by (simp_all add: sample_headed_def repo_ok_def records_of_def)

lemma sample_view: "models (commit_view mem_repo sample_repo_env (sample_headed h)) sample_repo_contents"
proof -
  have v: "commit_view mem_repo sample_repo_env (sample_headed h) = overlay_env mem_repo sample_repo_env [(sample_root_cid, sample_root_block)] mem_repo_new"
    by (simp add: commit_view_def sample_flush sample_unsaved)
  show ?thesis
    unfolding v models_def
  proof (intro allI impI)
    fix c data nd keys
    assume a: "read_block (overlay_env mem_repo sample_repo_env [(sample_root_cid, sample_root_block)] mem_repo_new) c = Inr (Some data)"
      "decode_node_data (simd_utf8 (overlay_env mem_repo sample_repo_env [(sample_root_cid, sample_root_block)] mem_repo_new)) data = Inr nd"
      "for_each_key None (nd_entries nd) = Inr keys"
    then have cn: "c = sample_root_cid" "nd = sample_root_data"
      using root_decodes by (auto simp: overlay_env_def mem_repo_def mem_repo_get_block_def mem_repo_new_def split: if_splits)
    have keys: "keys = [lit ''a.b.c/x'']" using a(3) root_keys cn(2) by (simp del: lit_Cons)
    show "sample_repo_contents c = sub sample_repo_contents (nd_left nd) @
        concat (map (\<lambda>(k, ed). (k, ed_value ed) # sub sample_repo_contents (ed_right ed)) (zip keys (nd_entries nd)))"
      unfolding cn keys by (simp add: sample_repo_contents_def) (simp add: sample_root_data_def)
  qed
qed

theorem commit_reports_changes_witness:
  "\<exists>d r'. repo_commit mem_repo sample_repo_env 5 sample_key (sample_headed (Some sample_head)) = (Inr d, r') \<and>
    lit ''a.b.c/x'' \<in> set (map record_op_path (cd_ops d)) \<and> r_staged r' = []"
proof -
  obtain d r' where c: "repo_commit mem_repo sample_repo_env 5 sample_key (sample_headed (Some sample_head)) = (Inr d, r')" using sample_commits by blast
  from commit_reports_changes [OF c sample_headed_ok(1) sample_view] show ?thesis using c sample_headed_ok(2) by (auto simp del: set_map)
qed

end
