(* ===== verification/Repo_Chain.thy ===== *)
theory Repo_Chain
  imports Repo_Changes
begin

text \<open>
  The commits of a repository as a chain: each names the one before it and has a later revision, and the store
  can be opened at it again; a commit that fails leaves the writes staged; and batches, which
  are applied as a whole or refused as a whole.
\<close>

section \<open>The chain of commits\<close>

lemma timestamp_less:
  assumes "timestamp_micros t < timestamp_micros u"
  shows "as_u64 t < as_u64 u"
proof (rule ccontr)
  have d: "unat (timestamp_micros v) = unat (as_u64 v) div 1024" for v
    unfolding timestamp_micros_def unat_drop_bit_eq by (simp add: drop_bit_eq_div)
  assume "\<not> as_u64 t < as_u64 u"
  then have "unat (as_u64 u) \<le> unat (as_u64 t)" by (simp add: word_less_nat_alt)
  then have "unat (as_u64 u) div 1024 \<le> unat (as_u64 t) div 1024" by (rule div_le_mono)
  then show False using assms unfolding word_less_nat_alt d by linarith
qed

lemma tid_clock_id_less: "tid_clock_id t < 1024"
proof -
  have "as_u64 t AND 0x3ff = take_bit 10 (as_u64 t)" by (simp add: take_bit_eq_mask mask_eq_exp_minus_1)
  then have "unat (as_u64 t AND 0x3ff) < 2 ^ 10" using take_bit_nat_less_exp [of 10 "unat (as_u64 t)"] by (simp add: unsigned_take_bit_eq)
  moreover have "unat (tid_clock_id t) \<le> unat (as_u64 t AND 0x3ff)"
    unfolding tid_clock_id_def unsigned_ucast_eq by (rule take_bit_nat_less_eq_self)
  ultimately show ?thesis by (simp add: word_less_nat_alt)
qed

lemma repo_commit_seal:
  assumes "repo_commit B E now key r = (Inr d, r')"
  obtains w t t2 ops leaves relevant r1 s where "tree_flush E (r_tree r) = (Inr w, t)" "commit_ops (r_records r) (r_staged r) [] [] = Inr (ops, leaves)"
    "seal_commit E now key (w_root w) ops leaves relevant (r\<lparr>r_tree := t2, r_unsaved := commit_unsaved w (r_unsaved r)\<rparr>) = (Inr d, r1)"
    "rs_apply_commit B (r_store r) d = (Inr (), s)"
    "r' = r1\<lparr>r_store := s, r_records := Map.empty, r_staged := [], r_unsaved := unsaved_default,
      r_head := Some \<lparr>hd_cid = cd_cid d, hd_commit = cd_commit d\<rparr>\<rparr>"
proof -
  obtain r1 s where r1: "prepare_commit B E now key r = (Inr d, r1)" "rs_apply_commit B (r_store r1) d = (Inr (), s)"
    "r' = r1\<lparr>r_store := s, r_records := Map.empty, r_staged := [], r_unsaved := unsaved_default,
      r_head := Some \<lparr>hd_cid = cd_cid d, hd_commit = cd_commit d\<rparr>\<rparr>"
    using repo_commit_cases [OF assms] by blast
  obtain w t ns t2 ops leaves relevant where p: "tree_flush E (r_tree r) = (Inr w, t)"
    "commit_ops (r_records r) (r_staged r) [] [] = Inr (ops, leaves)"
    "seal_commit E now key (w_root w) ops leaves relevant (r\<lparr>r_tree := t2, r_unsaved := commit_unsaved w (r_unsaved r)\<rparr>) = (Inr d, r1)"
    by (rule prepare_commit_cases [OF r1(1)]) (rule that, assumption+)
  have "r_store r1 = r_store r" by (rule seal_commit_cases [OF p(3)]) simp
  then show thesis using that [OF p] r1 by simp
qed

lemma create_signed_opens:
  assumes "create_signed C key did rv root = Inr s" "did_try_from raw = Inr did" "cid_valid root" "\<And>m sg. key m = Inr sg \<Longrightarrow> length sg = 64"
    and "accepts_ascii utf8"
  shows "from_cbor utf8 (sc_bytes s) = Inr (sc_commit s)"
proof -
  obtain sg m where c: "sc_commit s = \<lparr>c_did = did, c_version = 3, c_rev = rv, c_prev = None, c_data = root, c_sig = Some sg\<rparr>"
    "to_cbor (sc_commit s) = Inr (sc_bytes s)" "key m = Inr sg"
    using assms(1) by (auto simp: create_signed_def commit_sign_def map_err_def split: sum.splits)
  have ok: "commit_ok (sc_commit s)" using assms(2,3,4) c by (auto simp: commit_ok_def)
  have "length (did_as_str (c_did (sc_commit s))) < 2 ^ 64" "length sg < 2 ^ 64" using commit_okD(2) [OF ok] assms(4) [OF c(3)] by simp_all
  then have "sc_bytes s = enc (Map (signed_entries (sc_commit s) sg))" using to_cbor_enc [of "sc_commit s" sg] c(1,2) by simp
  then show ?thesis using from_cbor_signed [OF ok _ assms(5)] c(1) by simp
qed

text \<open>
  C9. A commit extends the chain: it names the head before it by CID, tree and revision, its own revision is
  later, and the old commit block is among those removed. It becomes the head, and opening the
  store again finds it, with the same DID and the tree it signs.
\<close>

theorem commit_extends_chain:
  assumes "repo_commit mem_repo E now key r = (Inr d, r')" "repo_ok mem_repo E \<sigma> base r"
    and "did_try_from raw = Inr (r_did r)" "cid_valid (c_data (cd_commit d))" "\<forall>m sg. key m = Inr sg \<longrightarrow> length sg = 64"
    and "accepts_ascii (simd_utf8 E)"
  shows "(case r_head r of
      None \<Rightarrow> cd_since d = None \<and> cd_prev d = None \<and> cd_prev_data d = None
    | Some h \<Rightarrow> cd_since d = Some (c_rev (hd_commit h)) \<and> as_u64 (c_rev (hd_commit h)) < as_u64 (commit_data_rev d) \<and>
        cd_prev d = Some (hd_cid h) \<and> cd_prev_data d = Some (c_data (hd_commit h)) \<and> hd_cid h \<in> set (cd_removed_cids d)) \<and>
    r_head r' = Some \<lparr>hd_cid = cd_cid d, hd_commit = cd_commit d\<rparr> \<and>
    (\<exists>r''. repo_open mem_repo E (r_store r') = Inr r'' \<and> r_head r'' = r_head r' \<and> r_did r'' = r_did r \<and>
      r_tree r'' = tree_load (c_data (cd_commit d)))"
proof -
  obtain w t t2 ops leaves relevant r1 s where p: "commit_ops (r_records r) (r_staged r) [] [] = Inr (ops, leaves)"
    "seal_commit E now key (w_root w) ops leaves relevant (r\<lparr>r_tree := t2, r_unsaved := commit_unsaved w (r_unsaved r)\<rparr>) = (Inr d, r1)"
    "rs_apply_commit mem_repo (r_store r) d = (Inr (), s)"
    "r' = r1\<lparr>r_store := s, r_records := Map.empty, r_staged := [], r_unsaved := unsaved_default,
      r_head := Some \<lparr>hd_cid = cd_cid d, hd_commit = cd_commit d\<rparr>\<rparr>"
    by (rule repo_commit_seal [OF assms(1)]) (rule that, assumption+)
  let ?r2 = "r\<lparr>r_tree := t2, r_unsaved := commit_unsaved w (r_unsaved r)\<rparr>"
  obtain sg :: signed_commit where sg:
    "\<forall>t. head_rev ?r2 = Some t \<longrightarrow> as_u64 t < as_u64 (fst (clock_next now (commit_clock ?r2)))"
    "create_signed (compress256 E) key (r_did ?r2) (fst (clock_next now (commit_clock ?r2))) (w_root w) = Inr sg"
    "cd_cid d = sc_cid sg" "cd_commit d = sc_commit sg" "cd_since d = head_rev ?r2"
    "cd_prev d = map_option hd_cid (r_head ?r2)" "cd_prev_data d = map_option (\<lambda>h. c_data (hd_commit h)) (r_head ?r2)"
    "cd_new_blocks d = upd_list (sc_cid sg) (sc_bytes sg) (extend_blocks leaves (us_nodes (r_unsaved ?r2)))"
    "cd_removed_cids d = us_retired (r_unsaved ?r2) @ cid_list (map_option hd_cid (r_head ?r2))"
    by (rule seal_commit_cases [OF p(2)]) (rule that, assumption+)
  note sel = create_signed_sel [OF sg(2)]
  have ks: "ksorted (extend_blocks leaves (us_nodes (r_unsaved ?r2)))"
    using extend_blocks_spec [of "us_nodes (r_unsaved ?r2)" leaves] commit_unsaved_sorted [of "r_unsaved r" w] commit_ops_spec [OF p(1)] assms(2)
    by (simp add: repo_ok_def)
  have "distinct (map fst (cd_new_blocks d))" "map_of (cd_new_blocks d) (cd_cid d) = Some (sc_bytes sg)"
    unfolding sg(3,8) using ksorted_distinct [OF ksorted_upd_list [OF ks]] map_of_upd_list [OF ks] by simp_all
  from mem_rs.apply_new [OF p(3) this] have block: "rs_get_block mem_repo s (cd_cid d) = Inr (Some (sc_bytes sg))" .
  have opens: "from_cbor (simd_utf8 E) (sc_bytes sg) = Inr (cd_commit d)"
    using create_signed_opens [OF sg(2) _ _ assms(5) [rule_format] assms(6)] assms(3,4) sel(3) sg(4) by simp
  obtain c where c: "clock_new (tid_clock_id (c_rev (cd_commit d))) = Inr c" using tid_clock_id_less by (simp add: clock_new_def not_le)
  have "repo_open mem_repo E s = Inr \<lparr>r_did = c_did (cd_commit d), r_clock = clock_observe (c_rev (cd_commit d)) c, r_store = s,
      r_tree = tree_load (c_data (cd_commit d)), r_records = Map.empty, r_staged = [], r_unsaved = unsaved_default,
      r_head = Some \<lparr>hd_cid = cd_cid d, hd_commit = cd_commit d\<rparr>\<rparr>"
    using mem_rs.apply_head [OF p(3)] block opens c by (simp add: repo_open_def ok_or_def)
  then have reopened: "\<exists>r''. repo_open mem_repo E (r_store r') = Inr r'' \<and> r_head r'' = r_head r' \<and> r_did r'' = r_did r \<and>
      r_tree r'' = tree_load (c_data (cd_commit d))"
    using p(4) sel(1) sg(4) by simp
  have "case r_head r of
      None \<Rightarrow> cd_since d = None \<and> cd_prev d = None \<and> cd_prev_data d = None
    | Some h \<Rightarrow> cd_since d = Some (c_rev (hd_commit h)) \<and> as_u64 (c_rev (hd_commit h)) < as_u64 (commit_data_rev d) \<and>
        cd_prev d = Some (hd_cid h) \<and> cd_prev_data d = Some (c_data (hd_commit h)) \<and> hd_cid h \<in> set (cd_removed_cids d)"
    using sg(1,4,5,6,7,9) sel(2) by (cases "r_head r") (simp_all add: head_rev_def commit_data_rev_def)
  then show ?thesis using reopened p(4) by simp
qed

theorem commit_extends_chain_witness:
  "\<exists>d r' r''. repo_commit mem_repo sample_repo_env 5 sample_key (sample_headed (Some sample_head)) = (Inr d, r') \<and>
    cd_prev d = Some sample_head_cid \<and> 7 < as_u64 (commit_data_rev d) \<and>
    repo_open mem_repo sample_repo_env (r_store r') = Inr r'' \<and> r_head r'' = r_head r'"
proof -
  let ?r = "sample_headed (Some sample_head)"
  obtain d r' where c: "repo_commit mem_repo sample_repo_env 5 sample_key ?r = (Inr d, r')" using sample_commits by blast
  obtain w t t2 ops leaves relevant r1 where p: "tree_flush sample_repo_env (r_tree ?r) = (Inr w, t)"
    "seal_commit sample_repo_env 5 sample_key (w_root w) ops leaves relevant (?r\<lparr>r_tree := t2, r_unsaved := commit_unsaved w (r_unsaved ?r)\<rparr>) = (Inr d, r1)"
    by (rule repo_commit_seal [OF c]) (rule that, assumption+)
  have "w_root w = sample_root_cid" using p(1) by (auto simp: sample_flush sample_write_def)
  then have "c_data (cd_commit d) = sample_root_cid"
    by (rule_tac seal_commit_cases [OF p(2)]) (use create_signed_sel(3) in fastforce)
  moreover have "cid_valid sample_root_cid" using repo_cid_valid by (simp add: sample_root_cid_def)
  ultimately have v: "cid_valid (c_data (cd_commit d))" by simp
  have did: "did_try_from (lit ''did:a:b'') = Inr (r_did ?r)" using sample_did_ok by (simp del: lit_Cons)
  have key: "\<forall>m sg. sample_key m = Inr sg \<longrightarrow> length sg = 64" by (auto simp: sample_key_def)
  have "accepts_ascii (simd_utf8 sample_repo_env)" by (simp add: accepts_ascii_def)
  note chain = commit_extends_chain [OF c sample_headed_ok(1) did v key this]
  have "cd_prev d = Some sample_head_cid" "7 < as_u64 (commit_data_rev d)"
    using chain by (simp_all add: sample_head_def sample_head_commit_def sample_commit_def)
  then show ?thesis using chain c by blast
qed

text \<open>
  C22. While the last revision's timestamp is below the 53-bit ceiling, the clock always finds a later one: no
  commit is refused for its revision, whatever time the clock reads.
\<close>

theorem later_revision_found:
  assumes "seal_commit E now key root ops leaves relevant r = (v, r')" "r_head r = Some h" "timestamp_micros (c_rev (hd_commit h)) < MAX_TID_MICROS"
    and "c_id (r_clock r) < 1024" "c_last (r_clock r) \<le> MAX_TID_MICROS"
  shows "\<exists>rv. timestamp_micros (c_rev (hd_commit h)) < timestamp_micros rv \<and> as_u64 (c_rev (hd_commit h)) < as_u64 rv \<and>
      (\<forall>e. create_signed (compress256 E) key (r_did r) rv root = Inl e \<longrightarrow> v = Inl e) \<and>
      (\<forall>s. create_signed (compress256 E) key (r_did r) rv root = Inr s \<longrightarrow> (\<exists>d. v = Inr d \<and> commit_data_rev d = rv))"
proof -
  let ?t = "c_rev (hd_commit h)" and ?c = "commit_clock r"
  have c: "?c = clock_observe ?t (r_clock r)" using assms(2) by (simp add: commit_clock_def head_rev_def)
  have last: "timestamp_micros ?t \<le> c_last ?c" "c_last ?c \<le> MAX_TID_MICROS"
    using assms(3,5) unfolding c by (simp_all add: clock_observe_def)
  let ?ts = "next_timestamp (c_last ?c) now"
  have ts: "?ts \<le> MAX_TID_MICROS" "timestamp_micros ?t < ?ts"
    using next_timestamp_le next_timestamp_after [OF last(2), of now] last assms(3) by (auto intro: le_less_trans)
  have id: "c_id ?c < 1024" using assms(4) unfolding c by (simp add: clock_observe_def)
  let ?rv = "fst (clock_next now ?c)"
  have rv: "timestamp_micros ?rv = ?ts" using clock_tid_fields [OF id ts(1)] by (simp add: clock_next_def Let_def)
  then have less: "timestamp_micros ?t < timestamp_micros ?rv" "as_u64 ?t < as_u64 ?rv" using ts(2) timestamp_less by auto
  then have n: "\<not> (case head_rev r of Some t \<Rightarrow> as_u64 ?rv \<le> as_u64 t | None \<Rightarrow> False)" using assms(2) by (simp add: head_rev_def)
  note b = assms(1) [unfolded seal_commit_def Let_def, folded head_rev_def, folded commit_clock_def, unfolded if_not_P [OF n]]
  have "v = Inl e" if "create_signed (compress256 E) key (r_did r) ?rv root = Inl e" for e using b that by simp
  moreover have "\<exists>d. v = Inr d \<and> commit_data_rev d = ?rv" if s: "create_signed (compress256 E) key (r_did r) ?rv root = Inr s" for s
    using b s create_signed_sel(2) [OF s] by (auto simp: commit_data_rev_def)
  ultimately show "\<exists>rv. timestamp_micros ?t < timestamp_micros rv \<and> as_u64 ?t < as_u64 rv \<and>
      (\<forall>e. create_signed (compress256 E) key (r_did r) rv root = Inl e \<longrightarrow> v = Inl e) \<and>
      (\<forall>s. create_signed (compress256 E) key (r_did r) rv root = Inr s \<longrightarrow> (\<exists>d. v = Inr d \<and> commit_data_rev d = rv))"
    using less by blast
qed

theorem later_revision_found_witness:
  "\<exists>rv. as_u64 (Tid 7) < as_u64 rv \<and> timestamp_micros (Tid 7) < timestamp_micros rv"
proof -
  obtain v r' where s: "seal_commit sample_repo_env 5 sample_key sample_root_cid [] [] [] (sample_headed (Some sample_head)) = (v, r')" by fastforce
  have "r_head (sample_headed (Some sample_head)) = Some sample_head" "c_id (r_clock (sample_headed (Some sample_head))) < 1024"
    "c_last (r_clock (sample_headed (Some sample_head))) \<le> MAX_TID_MICROS" "timestamp_micros (c_rev (hd_commit sample_head)) < MAX_TID_MICROS"
    by (simp_all add: sample_clock_def sample_head_def sample_head_commit_def sample_commit_def timestamp_micros_def MAX_TID_MICROS_def)
  from later_revision_found [OF s this(1,4,2,3)] show ?thesis
    by (auto simp: sample_head_def sample_head_commit_def sample_commit_def)
qed

section \<open>Commits that fail\<close>

text \<open>
  C21. A commit that fails, at any step and in the store itself, keeps the writes staged: the records, what is
  staged, the new records' blocks and the head are those before it, and the staged records still describe
  the changes since the last commit.
\<close>

theorem failed_commit_keeps_writes:
  assumes "repo_commit B E now key r = (Inl e, r')" "repo_ok B E \<sigma> base r" "models (commit_view B E r) \<sigma>"
  shows "records_of \<sigma> r' = records_of \<sigma> r \<and> r_staged r' = r_staged r \<and> r_records r' = r_records r \<and> r_head r' = r_head r \<and>
    (r_store r' = r_store r \<longrightarrow> repo_ok B E \<sigma> base r')"
proof -
  have ok: "tree_ok \<sigma> (r_tree r)" "models (source_env B E (r_store r)) \<sigma>" "ksorted (us_nodes (r_unsaved r))"
    "staged_ok base (map_of (contents \<sigma> (r_tree r))) (r_records r) (r_staged r)"
    using assms(2) by (simp_all add: repo_ok_def)
  obtain v r1 where p: "prepare_commit B E now key r = (v, r1)" by fastforce
  have s: "tree_ok \<sigma> (r_tree r1)" "contents \<sigma> (r_tree r1) = contents \<sigma> (r_tree r)" "r_staged r1 = r_staged r" "r_records r1 = r_records r"
    "r_head r1 = r_head r" "r_store r1 = r_store r" "ksorted (us_nodes (r_unsaved r1))"
    using prepare_commit_keeps [OF p ok(1) assms(3)] commit_unsaved_sorted [OF ok(3)] by auto
  have "\<exists>st. r' = r1\<lparr>r_store := st\<rparr>"
    using assms(1) p by (cases v) (auto simp: repo_commit_def split: prod.splits sum.splits intro: exI [of _ "r_store r1"])
  then obtain st where r': "r' = r1\<lparr>r_store := st\<rparr>" ..
  have "repo_ok B E \<sigma> base r'" if "r_store r' = r_store r" using that s ok(2,4) unfolding r' by (simp add: repo_ok_def)
  then show ?thesis using s unfolding r' by (simp add: records_of_def)
qed

theorem failed_commit_keeps_writes_witness:
  "\<exists>e r'. repo_commit mem_repo sample_repo_env 5 (\<lambda>_. Inl (SigningFailed ''locked'')) (sample_headed (Some sample_head)) = (Inl e, r') \<and>
    records_of sample_repo_contents r' = [lit ''a.b.c/x'' \<mapsto> sample_record_cid] \<and> r_staged r' = [(lit ''a.b.c/x'', sample_staged)]"
proof -
  let ?key = "\<lambda>_. Inl (SigningFailed ''locked'')"
  have "\<exists>e. create_signed C ?key did rv root = Inl e" for C did rv root
    by (cases "unsigned_bytes \<lparr>c_did = did, c_version = 3, c_rev = rv, c_prev = None, c_data = root, c_sig = None\<rparr>")
      (simp_all add: create_signed_def commit_sign_def)
  then have ne: "create_signed C ?key did rv root \<noteq> Inr s" for C did rv root and s :: signed_commit by (metis sum.distinct(1))
  have "\<exists>e r'. seal_commit E now ?key root ops leaves rel r = (Inl e, r')" for E now root ops leaves rel and r :: "mem_repo_store repo"
  proof -
    obtain v r' where s: "seal_commit E now ?key root ops leaves rel r = (v, r')" by fastforce
    have "v \<noteq> Inr d" for d
    proof
      assume "v = Inr d"
      with s have "seal_commit E now ?key root ops leaves rel r = (Inr d, r')" by simp
      then show False by (rule seal_commit_cases) (use ne in blast)
    qed
    then show ?thesis using s by (cases v) auto
  qed
  then have "\<exists>e r'. prepare_commit mem_repo sample_repo_env 5 ?key (sample_headed (Some sample_head)) = (Inl e, r')"
    using sample_prepares [of ?key "Some sample_head"] by metis
  then obtain e r' where c: "repo_commit mem_repo sample_repo_env 5 ?key (sample_headed (Some sample_head)) = (Inl e, r')"
    by (auto simp: repo_commit_def)
  have "r_staged (sample_headed (Some sample_head)) = [(lit ''a.b.c/x'', sample_staged)]" by (simp add: sample_headed_def sample_created_repo_def)
  then show ?thesis using failed_commit_keeps_writes [OF c sample_headed_ok(1) sample_view] c sample_headed_ok(2) by auto
qed

end
