(* ===== verification/Repo_Batch.thy ===== *)
theory Repo_Batch
  imports Repo_Chain
begin

text \<open>
  Batches of writes (\<open>apply_writes\<close> of \<open>src/src/repo/repo.rs\<close>): checked in order before anything changes, then
  applied and committed together.
\<close>

section \<open>A batch on a map\<close>

text \<open>The first write the map refuses, each write seeing the ones before it, and what the writes leave.\<close>

fun batch_refused :: "compress_fn \<Rightarrow> (str \<rightharpoonup> cid) \<Rightarrow> write_op list \<Rightarrow> repo_error option" where
  "batch_refused C m [] = None"
| "batch_refused C m (w # ws) =
     (case write_refused m w of Some e \<Rightarrow> Some e | None \<Rightarrow> batch_refused C (m(write_key w := write_cid C w)) ws)"

fun batch_result :: "compress_fn \<Rightarrow> (str \<rightharpoonup> cid) \<Rightarrow> write_op list \<Rightarrow> str \<rightharpoonup> cid" where
  "batch_result C m [] = m"
| "batch_result C m (w # ws) = batch_result C (m(write_key w := write_cid C w)) ws"

section \<open>The three passes\<close>

definition only_loads :: "'s repo_store_ops \<Rightarrow> env \<Rightarrow> contents \<Rightarrow> (str \<rightharpoonup> cid) \<Rightarrow> 's repo \<Rightarrow> 's repo \<Rightarrow> bool" where
  "only_loads B E \<sigma> base r r' \<longleftrightarrow> repo_ok B E \<sigma> base r' \<and> records_of \<sigma> r' = records_of \<sigma> r \<and> (\<exists>t. r' = r\<lparr>r_tree := t\<rparr>)"

lemma only_loads_trans: "only_loads B E \<sigma> base r r1 \<Longrightarrow> only_loads B E \<sigma> base r1 r' \<Longrightarrow> only_loads B E \<sigma> base r r'"
  by (auto simp: only_loads_def)

lemma load_writes_spec:
  assumes "load_writes B E ws r = (v, r')" "repo_ok B E \<sigma> base r"
  shows "only_loads B E \<sigma> base r r' \<and> (\<forall>e. v = Inl e \<longrightarrow> (\<exists>m. e = repo_mst_error m) \<or> (\<exists>c. e = MissingBlock c))"
proof -
  have ok: "tree_ok \<sigma> (r_tree r)" "models (source_env B E (r_store r)) \<sigma>" using assms(2) by (simp_all add: repo_ok_def)
  obtain m1 t1 where m1: "missing_blocks (source_env B E (r_store r)) (map write_key (filter (\<lambda>w. \<not> is_delete w) ws)) (r_tree r) = (m1, t1)" by fastforce
  obtain m2 t2 where m2: "missing_blocks_for_remove (source_env B E (r_store r)) (map write_key (filter is_delete ws)) t1 = (m2, t2)" by fastforce
  have t1: "tree_ok \<sigma> t1 \<and> contents \<sigma> t1 = contents \<sigma> (r_tree r)" using tree_ok_missing [OF m1 [unfolded missing_blocks_def] ok] .
  have t2: "tree_ok \<sigma> t2 \<and> contents \<sigma> t2 = contents \<sigma> t1" using tree_ok_missing [OF m2 [unfolded missing_blocks_for_remove_def] _ ok(2)] t1 by simp
  have "r' = r\<lparr>r_tree := t1\<rparr> \<or> r' = r\<lparr>r_tree := t2\<rparr>" "\<forall>e. v = Inl e \<longrightarrow> (\<exists>m. e = repo_mst_error m) \<or> (\<exists>c. e = MissingBlock c)"
    using assms(1) m1 m2 by (auto simp: load_writes_def Let_def split: sum.splits list.splits)
  then show ?thesis using t1 t2 assms(2) by (auto simp: only_loads_def repo_ok_def records_of_def)
qed

lemma check_writes_spec:
  assumes "check_writes B E ws present r = (v, r')" "repo_ok B E \<sigma> base r"
    and "\<forall>k. case present k of Some b \<Rightarrow> b = (m k \<noteq> None) | None \<Rightarrow> (m k \<noteq> None) = (records_of \<sigma> r k \<noteq> None)"
  shows "only_loads B E \<sigma> base r r' \<and> (v = Inr () \<longrightarrow> batch_refused C m ws = None) \<and>
    (\<forall>e. v = Inl e \<longrightarrow> batch_refused C m ws = Some e \<or> (\<exists>x. e = repo_mst_error x))"
  using assms
proof (induction ws arbitrary: present r m)
  case Nil
  then have "r' = r" "v = Inr ()" by simp_all
  then show ?case using Nil.prems(2) by (auto simp: only_loads_def intro: exI [of _ "r_tree r"])
next
  case (Cons w ws)
  define key where "key = write_key w"
  obtain q r1 where q: "(case present key of Some b \<Rightarrow> (Inr b, r)
      | None \<Rightarrow> (case repo_lookup B E key r of (found, r) \<Rightarrow> (and_then found (\<lambda>c. Inr (c \<noteq> None)), r))) = (q, r1)" by fastforce
  have l: "only_loads B E \<sigma> base r r1 \<and> (\<forall>b. q = Inr b \<longrightarrow> b = (m key \<noteq> None)) \<and> (\<forall>e. q = Inl e \<longrightarrow> (\<exists>x. e = repo_mst_error x))"
  proof (cases "present key")
    case None
    obtain found r2 where f: "repo_lookup B E key r = (found, r2)" by fastforce
    show ?thesis using repo_lookup_spec [OF f Cons.prems(2)] q None f Cons.prems(3) [rule_format, of key] by (cases found) (auto simp: only_loads_def)
  next
    case (Some b)
    then have "q = Inr b" "r1 = r" using q by simp_all
    then show ?thesis using Some Cons.prems(2) Cons.prems(3) [rule_format, of key] by (auto simp: only_loads_def intro: exI [of _ "r_tree r"])
  qed
  note c = Cons.prems(1) [unfolded check_writes.simps Let_def write_key_def [symmetric] key_def [symmetric] q]
  show ?case
  proof (cases q)
    case (Inl e)
    then show ?thesis using c l by auto
  next
    case (Inr b)
    then have b: "b = (m key \<noteq> None)" using l by simp
    let ?m = "m(key := write_cid C w)"
    have step: ?thesis if n: "write_refused m w = None" "check_writes B E ws (present(key \<mapsto> (write_cid C w \<noteq> None))) r1 = (v, r')"
    proof -
      have p: "\<forall>k. case (present(key \<mapsto> (write_cid C w \<noteq> None))) k of Some b \<Rightarrow> b = (?m k \<noteq> None) | None \<Rightarrow> (?m k \<noteq> None) = (records_of \<sigma> r1 k \<noteq> None)"
      proof
        fix k
        show "case (present(key \<mapsto> (write_cid C w \<noteq> None))) k of Some b \<Rightarrow> b = (?m k \<noteq> None) | None \<Rightarrow> (?m k \<noteq> None) = (records_of \<sigma> r1 k \<noteq> None)"
          using Cons.prems(3) [rule_format, of k] l by (cases "k = key") (auto simp: only_loads_def split: option.splits)
      qed
      have "repo_ok B E \<sigma> base r1" using l by (simp add: only_loads_def)
      note ih = Cons.IH [where m = ?m, OF n(2) this p]
      have "only_loads B E \<sigma> base r r'" using only_loads_trans [of B E \<sigma> base r r1 r'] l ih by blast
      moreover have eq: "batch_refused C m (w # ws) = batch_refused C ?m ws" using n(1) by (simp add: key_def)
      ultimately show ?thesis using ih unfolding eq by blast
    qed
    have fail: ?thesis if "write_refused m w = Some e" "v = Inl e" "r' = r1" for e using that l by auto
    show ?thesis
    proof (cases w)
      case (WriteCreate collection rkey data)
      then have k: "key = mst_key collection rkey" by (simp add: key_def write_key_def)
      show ?thesis
      proof (cases b)
        case True
        then show ?thesis using c Inr WriteCreate b k by (intro fail [of "RecordExists key"]) auto
      next
        case False
        then show ?thesis using c Inr WriteCreate b k by (intro step) (auto simp: write_cid_def)
      qed
    next
      case (WriteUpdate collection rkey data)
      then have k: "key = mst_key collection rkey" by (simp add: key_def write_key_def)
      show ?thesis
      proof (cases b)
        case False
        then show ?thesis using c Inr WriteUpdate b k by (intro fail [of "RecordNotFound key"]) auto
      next
        case True
        then show ?thesis using c Inr WriteUpdate b k by (intro step) (auto simp: write_cid_def)
      qed
    next
      case (WriteDelete collection rkey)
      then have k: "key = mst_key collection rkey" by (simp add: key_def write_key_def)
      show ?thesis
      proof (cases b)
        case False
        then show ?thesis using c Inr WriteDelete b k by (intro fail [of "RecordNotFound key"]) auto
      next
        case True
        then show ?thesis using c Inr WriteDelete b k by (intro step) (auto simp: write_cid_def)
      qed
    qed
  qed
qed

lemma run_write_spec:
  assumes "run_write B E w r = (v, r')" "repo_ok B E \<sigma> base r"
  shows "repo_ok B E \<sigma> base r' \<and> r_head r' = r_head r \<and> r_store r' = r_store r \<and>
    (v = Inr () \<longrightarrow> records_of \<sigma> r' = (records_of \<sigma> r)(write_key w := write_cid (compress256 E) w)) \<and>
    (\<forall>e. v = Inl e \<longrightarrow> write_refused (records_of \<sigma> r) w \<noteq> None \<or> (\<exists>m. e = repo_mst_error m))"
proof (cases w)
  case (WriteCreate collection rkey data)
  obtain q r1 where q: "repo_put B E collection rkey (mst_key collection rkey) data r = (q, r1)" by fastforce
  show ?thesis using repo_put_spec [OF q assms(2)] assms(1) q WriteCreate
    by (cases q) (auto simp: run_write_def is_ok_def write_key_def write_cid_def)
next
  case (WriteUpdate collection rkey data)
  obtain q r1 where q: "repo_put B E collection rkey (mst_key collection rkey) data r = (q, r1)" by fastforce
  show ?thesis using repo_put_spec [OF q assms(2)] assms(1) q WriteUpdate
    by (cases q) (auto simp: run_write_def is_ok_def write_key_def write_cid_def)
next
  case (WriteDelete collection rkey)
  then have q: "repo_delete B E collection rkey r = (v, r')" using assms(1) by (simp add: run_write_def)
  have "repo_mst_error m \<noteq> RecordNotFound key" for m key by (cases m) simp_all
  then show ?thesis using repo_delete_spec [OF q assms(2)] WriteDelete
    by (cases v) (auto simp: is_ok_def write_key_def write_cid_def)
qed

lemma run_writes_spec:
  assumes "run_writes B E ws r = (v, r')" "repo_ok B E \<sigma> base r"
  shows "repo_ok B E \<sigma> base r' \<and> r_head r' = r_head r \<and> r_store r' = r_store r \<and>
    (v = Inr () \<longrightarrow> records_of \<sigma> r' = batch_result (compress256 E) (records_of \<sigma> r) ws) \<and>
    (\<forall>e. v = Inl e \<longrightarrow> batch_refused (compress256 E) (records_of \<sigma> r) ws \<noteq> None \<or> (\<exists>m. e = repo_mst_error m))"
  using assms
proof (induction ws arbitrary: r)
  case (Cons w ws)
  obtain q r1 where q: "run_write B E w r = (q, r1)" by fastforce
  note w = run_write_spec [OF q Cons.prems(2)]
  show ?case
  proof (cases q)
    case (Inl e)
    then show ?thesis using Cons.prems(1) q w by (auto split: option.split)
  next
    case (Inr u)
    then have n: "run_writes B E ws r1 = (v, r')" "q = Inr ()" using Cons.prems(1) q by simp_all
    have ok: "repo_ok B E \<sigma> base r1" "records_of \<sigma> r1 = (records_of \<sigma> r)(write_key w := write_cid (compress256 E) w)"
      "r_head r1 = r_head r" "r_store r1 = r_store r" using w n(2) by blast+
    note ih = Cons.IH [OF n(1) ok(1)]
    show ?thesis
    proof (cases "write_refused (records_of \<sigma> r) w")
      case None
      have "batch_refused (compress256 E) (records_of \<sigma> r) (w # ws) = batch_refused (compress256 E) (records_of \<sigma> r1) ws"
        "batch_result (compress256 E) (records_of \<sigma> r) (w # ws) = batch_result (compress256 E) (records_of \<sigma> r1) ws"
        unfolding ok(2) using None by simp_all
      then show ?thesis using ih ok(3,4) by metis
    next
      case (Some e)
      have "batch_refused (compress256 E) (records_of \<sigma> r) (w # ws) \<noteq> None"
        "batch_result (compress256 E) (records_of \<sigma> r) (w # ws) = batch_result (compress256 E) (records_of \<sigma> r1) ws"
        unfolding ok(2) using Some by simp_all
      then show ?thesis using ih ok(3,4) by metis
    qed
  qed
qed auto

section \<open>The batch\<close>

text \<open>
  C8. A batch is applied in order or refused as a whole. If some write is one its map refuses, counting the
  writes before it in the batch, nothing is applied: the records, what is staged, the head and the store stay, and the error is
  that refusal or that of reading the tree. Otherwise the batch stops on a tree error or
  missing block, or what is committed is the map with every write applied in order.
\<close>

theorem batch_all_or_nothing:
  assumes "apply_writes B E now ws key r = (v, r')" "repo_ok B E \<sigma> base r"
  shows "case batch_refused (compress256 E) (records_of \<sigma> r) ws of
    Some e \<Rightarrow> (v = Inl e \<or> (\<exists>m. v = Inl (repo_mst_error m)) \<or> (\<exists>c. v = Inl (MissingBlock c))) \<and>
      records_of \<sigma> r' = records_of \<sigma> r \<and> r_staged r' = r_staged r \<and> r_head r' = r_head r \<and> r_store r' = r_store r \<and>
      repo_ok B E \<sigma> base r'
  | None \<Rightarrow> (\<exists>m. v = Inl (repo_mst_error m)) \<or> (\<exists>c. v = Inl (MissingBlock c)) \<or>
      (\<exists>r1. repo_ok B E \<sigma> base r1 \<and> records_of \<sigma> r1 = batch_result (compress256 E) (records_of \<sigma> r) ws \<and>
        r_head r1 = r_head r \<and> r_store r1 = r_store r \<and> repo_commit B E now key r1 = (v, r'))"
proof -
  let ?ref = "batch_refused (compress256 E) (records_of \<sigma> r) ws"
  obtain q1 r1 where l: "load_writes B E ws r = (q1, r1)" by fastforce
  obtain q2 r2 where c: "check_writes B E ws Map.empty r1 = (q2, r2)" by fastforce
  obtain q3 r3 where w: "run_writes B E ws r2 = (q3, r3)" by fastforce
  note ls = load_writes_spec [OF l assms(2)]
  then have o1: "only_loads B E \<sigma> base r r1" "repo_ok B E \<sigma> base r1" "records_of \<sigma> r1 = records_of \<sigma> r" by (simp_all add: only_loads_def)
  have cs: "only_loads B E \<sigma> base r1 r2 \<and> (q2 = Inr () \<longrightarrow> ?ref = None) \<and> (\<forall>e. q2 = Inl e \<longrightarrow> ?ref = Some e \<or> (\<exists>x. e = repo_mst_error x))"
    by (rule check_writes_spec [OF c o1(2)]) (simp add: o1(3))
  then have o2: "only_loads B E \<sigma> base r r2" "repo_ok B E \<sigma> base r2" "records_of \<sigma> r2 = records_of \<sigma> r"
    using only_loads_trans [OF o1(1)] by (auto simp: only_loads_def o1(3))
  have kept: "records_of \<sigma> x = records_of \<sigma> r \<and> r_staged x = r_staged r \<and> r_head x = r_head r \<and> r_store x = r_store r \<and> repo_ok B E \<sigma> base x"
    if "only_loads B E \<sigma> base r x" for x using that by (auto simp: only_loads_def)
  show ?thesis
  proof (cases q1)
    case (Inl e)
    then have v: "v = Inl e" "r' = r1" using assms(1) l by (simp_all add: apply_writes_def)
    have e: "(\<exists>m. v = Inl (repo_mst_error m)) \<or> (\<exists>c. v = Inl (MissingBlock c))" using ls Inl v(1) by blast
    show ?thesis using e kept [OF o1(1)] unfolding v(2) by (cases ?ref) auto
  next
    case ok1: (Inr u1)
    show ?thesis
    proof (cases q2)
      case (Inl e)
      then have v: "v = Inl e" "r' = r2" using assms(1) l c ok1 by (simp_all add: apply_writes_def)
      have "?ref = Some e \<or> (\<exists>m. v = Inl (repo_mst_error m))" using cs Inl v(1) by blast
      then show ?thesis using kept [OF o2(1)] v(1) unfolding v(2) by (cases ?ref) auto
    next
      case ok2: (Inr u2)
      then have ref: "?ref = None" using cs by simp
      note ws = run_writes_spec [OF w o2(2)]
      show ?thesis
      proof (cases q3)
        case (Inl e)
        then have "v = Inl e" using assms(1) l c w ok1 ok2 by (simp add: apply_writes_def)
        then show ?thesis using ws Inl ref o2(3) by auto
      next
        case (Inr u3)
        then have "repo_commit B E now key r3 = (v, r')" using assms(1) l c w ok1 ok2 by (simp add: apply_writes_def)
        moreover have "r_head r2 = r_head r" "r_store r2 = r_store r" using kept [OF o2(1)] by simp_all
        ultimately show ?thesis using ws Inr ref o2(3) by auto
      qed
    qed
  qed
qed

theorem batch_all_or_nothing_witness:
  "\<exists>v r'. apply_writes mem_repo sample_repo_env 5 [sample_create, sample_create] sample_key sample_new_repo = (v, r') \<and>
    records_of sample_repo_contents r' = Map.empty \<and> r_staged r' = [] \<and> r_head r' = None"
proof -
  obtain v r' where a: "apply_writes mem_repo sample_repo_env 5 [sample_create, sample_create] sample_key sample_new_repo = (v, r')" by fastforce
  have "records_of sample_repo_contents sample_new_repo = Map.empty" by (simp add: records_of_def contents_def tree_new_def)
  moreover have "batch_refused sample_repo_hash Map.empty [sample_create, sample_create] = Some (RecordExists (lit ''a.b.c/x''))"
    by (simp add: sample_create_def write_key_def write_cid_def sample_mst_key del: lit_Cons)
  ultimately show ?thesis using batch_all_or_nothing [OF a sample_new_repo_ok] a by simp
qed

end
