(* ===== verification/Spec2Isabelle.thy ===== *)
theory Spec2Isabelle
  imports Mst_Correct Syntax_Uri Syntax_Datetime Syntax_Language Sync_Delivery Repo_Batch
begin

text \<open>
  Verification of shrike, an AT Protocol library in Rust (\<open>src/\<close>).

  \<^bold>\<open>The program and its parts.\<close> A repository of the AT Protocol is a Merkle search tree (MST) whose
  nodes, like the records it points to, are blocks of DRISL (deterministic CBOR) named by the
  SHA-256 hash of their bytes (a CID). Repositories travel as CAR archives; records are named by
  identifiers (DIDs, handles, NSIDs, record keys, AT URIs), revisions by TIDs. The development
  models the layers bottom up, one group of theories per layer, and each theory keeps the names
  of the source.

  \<^item> \<^theory_text>\<open>Prelude\<close>: words and byte strings, errors as the left side of a sum (\<open>and_then\<close> is Rust's
    \<open>?\<close>), big-endian integers, slices, and the locale \<open>prefix_codec\<close>, the contract of a
    self-delimiting binary format: a decoder that accepts exactly the encodings of valid values
    with anything after them. DRISL values, node blocks and CAR frames are interpretations.
  \<^item> \<^theory_text>\<open>Varint\<close>, \<^theory_text>\<open>Cid\<close>: \<open>cbor/varint.rs\<close>, \<open>cbor/cid.rs\<close>. Varints round-trip; the one-pass
    SHA-256 padding is FIPS 180-4's; binary and string CIDs are bijective with what they name.
  \<^item> \<^theory_text>\<open>Cbor_Encode\<close>, \<^theory_text>\<open>Cbor_Decode\<close>: \<open>cbor/encode.rs\<close>, \<open>cbor/decode.rs\<close>, \<open>cbor/value.rs\<close>,
    \<open>cbor/mod.rs\<close>. \<^theory_text>\<open>Cbor_Canon\<close> shows the writer with its optimistic pass and restart is the
    sorting reference encoder \<open>enc\<close>; \<^theory_text>\<open>Cbor_Roundtrip\<close> shows the strict decoder accepts exactly the
    encodings, so every value has one encoding.
  \<^item> \<^theory_text>\<open>Mst_Node\<close>: key heights and the node block (\<open>mst/height.rs\<close>, \<open>mst/node.rs\<close>). \<^theory_text>\<open>Mst_Tree\<close>,
    \<^theory_text>\<open>Mst_Load\<close>, \<^theory_text>\<open>Mst_Write\<close>, \<^theory_text>\<open>Mst_Detached\<close>, \<^theory_text>\<open>Mst_Walk\<close>: the tree of \<open>mst/tree.rs\<close> and the
    diff of \<open>mst/diff.rs\<close>: nodes are loaded on demand from a block source, changed in memory and
    written by \<open>flush\<close>. The lemmas are layered: \<^theory_text>\<open>Mst_Inorder\<close> (the operations act on the sorted
    contents as map operations do), \<^theory_text>\<open>Mst_Shape\<close> (the canonical shape is kept and determined by
    the contents), \<^theory_text>\<open>Mst_Load_Correct\<close> and \<^theory_text>\<open>Mst_Ready\<close> (loading changes nothing, and after the
    preparing traversal a mutation cannot fail half-way), \<^theory_text>\<open>Mst_Persist\<close> (a written block loads
    back), \<^theory_text>\<open>Mst_Account\<close> and \<^theory_text>\<open>Mst_Flush\<close> (reference counts are exact, so a flush reports exactly
    the blocks that came and went), \<^theory_text>\<open>Mst_Merkle\<close> (the root CID is a function of the contents).
    \<^theory_text>\<open>Mst_Contract\<close> is what clients rely on, the locale \<open>failsafe_map\<close>, interpreted on
    \<open>DetachedTree\<close>; \<^theory_text>\<open>Mst_Correct\<close> states the properties. \<^theory_text>\<open>Mst_Store\<close> is \<open>Tree\<close>, the
    wrapper over a \<open>BlockStore\<close> (the locale \<open>block_store\<close>, interpreted on \<open>MemBlockStore\<close> and
    \<open>CarBlockStore\<close>); \<^theory_text>\<open>Mst_Authentic\<close> shows that a tree whose blocks come from an untrusted
    sender is still the one its root CID names.
  \<^item> \<^theory_text>\<open>Car\<close>, \<^theory_text>\<open>Car_Correct\<close>, \<^theory_text>\<open>Car_Stream\<close>: the archives of \<open>car/\<close>. The reader over memory accepts
    exactly the canonical archives and inverts the writer; the streaming reader and the
    chunk-fed reader, with the download loop of \<open>sync/client.rs\<close>, agree with it.
  \<^item> \<^theory_text>\<open>Syntax_Base\<close>, \<^theory_text>\<open>Syntax_Ids\<close>, \<^theory_text>\<open>Syntax_Nsid\<close>, \<^theory_text>\<open>Syntax_Uri\<close>, \<^theory_text>\<open>Syntax_Tid\<close>,
    \<^theory_text>\<open>Syntax_Datetime\<close>, \<^theory_text>\<open>Syntax_Language\<close>: \<open>syntax/\<close>. Each validator, a loop over byte
    indices in the source, accepts exactly a grammar stated declaratively, and the accessors
    return the parts. The TID clock is a step relation of threads with compare-and-swap.
  \<^item> \<^theory_text>\<open>Repo_Commit\<close>: the signed commits of \<open>repo/commit.rs\<close>. Their signed bytes bind every field,
    and their blocks round-trip.
  \<^item> \<^theory_text>\<open>Mst_Proof\<close>, \<^theory_text>\<open>Mst_Cover\<close>: the read-only and partial traversals of \<open>mst/tree.rs\<close>: search
    paths, walks of what is reachable, and covering proofs, which hold the search path of every
    key they are for. \<^theory_text>\<open>Repo_Proof\<close>: record proofs (\<open>repo/proof.rs\<close>). What verifies is what the signed
    tree holds, and what is built verifies.
  \<^item> \<^theory_text>\<open>Repo_Store\<close>: the store of a repository and the data of a commit (\<open>repo/store.rs\<close>), with the
    locale \<open>repo_store\<close> interpreted on \<open>MemRepoStore\<close>. \<^theory_text>\<open>Repo\<close>: \<open>repo/repo.rs\<close>, records staged in a
    tree over a store, commits and batches. \<^theory_text>\<open>Repo_Correct\<close> shows that a repository is a map from
    paths to CIDs, with an invariant (\<open>repo_ok\<close>) that ties the staged records to the last commit;
    \<^theory_text>\<open>Repo_Changes\<close> shows that a commit reports exactly the changes, \<^theory_text>\<open>Repo_Chain\<close> that commits form
    a chain of ascending revisions that the store reopens at, and that a failed commit keeps the staged
    writes; \<^theory_text>\<open>Repo_Batch\<close> treats batches. \<^theory_text>\<open>Repo_Sample\<close> and
    \<^theory_text>\<open>Repo_Created\<close> hold the concrete repository the witnesses use.
  \<^item> \<^theory_text>\<open>Sync_Raw\<close>: the firehose frames of \<open>sync/raw.rs\<close>. \<^theory_text>\<open>Sync_State\<close>: the persisted state of a
    repository and the error type (\<open>sync/state.rs\<close>, \<open>sync/error.rs\<close>), with the locale \<open>state_store\<close>
    as the contract of a store. \<^theory_text>\<open>Sync_Invert\<close>, \<^theory_text>\<open>Sync_Inverse\<close>: \<open>sync/invert.rs\<close>, undoing the
    operations of a commit on the tree it carries; when that gives the previous root, the
    operations are the difference of the two trees. \<^theory_text>\<open>Sync_Resync\<close>: loading a whole repository
    (\<open>sync/resync.rs\<close>, \<open>sync/client.rs\<close>, \<open>sync/verify.rs\<close>).
  \<^item> \<^theory_text>\<open>Sync_Verifier\<close>: the verifier of \<open>sync/verifier.rs\<close>, every method an action on its state;
    \<^theory_text>\<open>Sync_Steps\<close> makes each critical section of a method one step of the relation \<open>vstep\<close>, shows
    that the methods are runs of it, and in the locale \<open>verifier_on_store\<close> that saved revisions
    only advance. \<^theory_text>\<open>Sync_Jobs\<close> interprets it on the store in memory and treats resync jobs and
    the bounds of queues; \<^theory_text>\<open>Sync_Delivery\<close> says what a delivered commit means. \<^theory_text>\<open>Sync_Sample\<close> holds
    the concrete commit the witnesses use.

  \<^bold>\<open>Parameters.\<close> Third-party code is an argument of the definitions that use it: \<open>compress\<close> is the
  SHA-256 compression function (\<open>sha2\<close>), \<open>utf8\<close> the validator \<open>simdutf8\<close>, the base-32 codec of
  \<open>data-encoding\<close>, and \<open>read_block\<close> of an environment \<open>E\<close> the block source handed to a tree. The hash
  is assumed to have 32 bytes where lengths matter and to be collision-free between the blocks
  concerned where a block is read back by its CID; each such hypothesis is written in the
  statement, with a witness. The traits of the source are records of operations (\<open>BlockStore\<close>,
  \<open>StateStore\<close>, \<open>IdentityResolver\<close>), a key is the functions that sign and verify, a download is the
  list of chunks or errors it yields, and the time a clock reads, the verifier's clock, its floating-point operations and
  the iteration order of a hash map are arguments.

  \<^bold>\<open>Concurrency.\<close> What a task does while it holds a lock stripe or a mutex is one step, and tasks
  interleave step by step. Commits of one repository are serialised by their stripe, so a longer
  critical section of the source is one step too. The two channels from the verifier to its consumer
  are bounded, with the behaviour \<open>tokio\<close> documents: a channel holds its capacity of messages, a
  sender that finds it full waits, and waiting senders are served in order. A list holds the messages
  of a channel followed by those its senders wait to send; receiving, taking and dropping a receiver
  are steps of the consumer. A method that sends last is complete in its effect when its message
  stands in that list. A resync job goes on after a send, so its sends are options, \<open>None\<close> for a send
  that waits for ever, and its argument \<open>reading\<close> says whether the consumer goes on receiving. The
  handles of spawned tasks, which \<open>close\<close> aborts, are left out.

  \<^bold>\<open>Bounds and fuel.\<close> Every recursion is structural or has a measure, so no
  definition uses fuel; traversals that load nodes end because a node read at a given height must
  lie below it, and the height of the loader's place is the measure. Lengths are \<open>nat\<close> where
  the program holds the bytes in memory, and \<open>u64\<close> words where a length is read from input. The
  loop of a resync job is a partial function, and when it ends is a property of its own.

  \<^bold>\<open>Not modelled.\<close> The generated API types (\<open>src/src/api\<close>), which repeat one pattern of
  derived readers; network and storage services (\<open>xrpc\<close>, \<open>xrpc_server\<close>, \<open>oauth\<close>, \<open>identity\<close>,
  \<open>streaming\<close>, \<open>jetstream\<close>, \<open>backfill\<close>), whose logic is third-party protocols; elliptic-curve
  cryptography (third-party arithmetic); the JSON bridge (\<open>cbor/json.rs\<close>) and lexicon validation, over
  \<open>serde_json\<close>; the arena decoder (\<open>cbor/bump.rs\<close>), labels, the import and export of a whole repository
  (\<open>import_car\<close>, \<open>export_car\<close>), whose block order is that of the reads a recorder sees, the command-line
  tools and the wasm bindings.
\<close>

end
